(* ===== verification/Xv6_Prelude.thy ===== *)
theory Xv6_Prelude
  imports Main "HOL-Library.Word"
begin

unbundle bit_operations_syntax

text \<open>
  Shared vocabulary of the development: the machine integers of C on i386, the result type of a
  kernel function (returned, panicked, went to sleep), the combinators in which the handlers
  are written, partial- and total-correctness triples for them with their rules, and lemmas on
  words, lists and maps that several components use.
\<close>

section \<open>Machine integers\<close>

text \<open>
  \<open>types.h\<close>: \<open>uint\<close>, \<open>ushort\<close> and \<open>uchar\<close> are words of 32, 16 and 8 bits. A C \<open>int\<close> is a word
  of 32 bits too; where the source compares it as a signed number the model reads it with
  \<open>sint\<close>. The C value \<open>-1\<close> is the word \<open>-1\<close>.
\<close>

type_synonym u8 = "8 word"
type_synonym u16 = "16 word"
type_synonym u32 = "32 word"

abbreviation slt :: "u32 \<Rightarrow> u32 \<Rightarrow> bool" where
  "slt a b \<equiv> sint a < sint b"

section \<open>Results of kernel functions\<close>

text \<open>
  Wait channels. The kernel uses the address of an object as the channel; two different objects
  have different addresses, so a channel is the object's kind and its index (or its address,
  for a pipe, which lives in a page of its own).
\<close>

datatype chan =
    Ch_proc nat              \<comment> \<open>\<open>sleep(curproc, ...)\<close> in \<open>wait\<close> and \<open>procstat\<close>\<close>
  | Ch_ticks                 \<comment> \<open>\<open>&ticks\<close>\<close>
  | Ch_log                   \<comment> \<open>\<open>&log\<close>\<close>
  | Ch_buf nat               \<comment> \<open>the buffer itself, waiting for the disk\<close>
  | Ch_buf_lock nat          \<comment> \<open>\<open>&b->lock\<close>\<close>
  | Ch_inode_lock nat        \<comment> \<open>\<open>&ip->lock\<close>\<close>
  | Ch_pipe_nread u32        \<comment> \<open>\<open>&p->nread\<close>\<close>
  | Ch_pipe_nwrite u32       \<comment> \<open>\<open>&p->nwrite\<close>\<close>
  | Ch_input                 \<comment> \<open>\<open>&input.r\<close>\<close>

text \<open>
  What a kernel function does when it is run from a state: it returns a value in a new state,
  it calls \<open>panic\<close>, it goes to sleep on a channel, or it spins, waiting for another processor.
  \<open>Sleeps c s\<close> carries the state in which the processor is given up, \<open>Spins s\<close> the one in which
  the waiting loop is.
\<close>

datatype ('a, 's) res = Ok 'a 's | Panic string | Sleeps chan 's | Spins 's

definition retM :: "'a \<Rightarrow> 's \<Rightarrow> ('a, 's) res" where
  "retM x s = Ok x s"

definition bindM :: "('s \<Rightarrow> ('a, 's) res) \<Rightarrow> ('a \<Rightarrow> 's \<Rightarrow> ('b, 's) res) \<Rightarrow> 's \<Rightarrow> ('b, 's) res" where
  "bindM m f s =
     (case m s of Ok a s' \<Rightarrow> f a s' | Panic e \<Rightarrow> Panic e
      | Sleeps c s' \<Rightarrow> Sleeps c s' | Spins s' \<Rightarrow> Spins s')"

definition thenM :: "('s \<Rightarrow> ('a, 's) res) \<Rightarrow> ('s \<Rightarrow> ('b, 's) res) \<Rightarrow> 's \<Rightarrow> ('b, 's) res" where
  "thenM m n = bindM m (\<lambda>_. n)"

definition panic :: "string \<Rightarrow> 's \<Rightarrow> ('a, 's) res" where
  "panic e s = Panic e"

definition getM :: "('s \<Rightarrow> 'a) \<Rightarrow> 's \<Rightarrow> ('a, 's) res" where
  "getM f s = Ok (f s) s"

definition modM :: "('s \<Rightarrow> 's) \<Rightarrow> 's \<Rightarrow> (unit, 's) res" where
  "modM f s = Ok () (f s)"

definition whenM :: "bool \<Rightarrow> ('s \<Rightarrow> (unit, 's) res) \<Rightarrow> 's \<Rightarrow> (unit, 's) res" where
  "whenM b m = (if b then m else retM ())"

text \<open>A \<open>for\<close> loop over a fixed sequence of indices.\<close>

fun forM :: "'x list \<Rightarrow> ('x \<Rightarrow> 's \<Rightarrow> (unit, 's) res) \<Rightarrow> 's \<Rightarrow> (unit, 's) res" where
  "forM [] f = retM ()"
| "forM (x # xs) f = thenM (f x) (forM xs f)"

named_theorems monad_simps \<open>evaluation of the combinators\<close>

lemma retM_run [simp, monad_simps]: "retM x s = Ok x s"
  by (simp add: retM_def)

lemma panic_run [simp, monad_simps]: "panic e s = Panic e"
  by (simp add: panic_def)

lemma getM_run [simp, monad_simps]: "getM f s = Ok (f s) s"
  by (simp add: getM_def)

lemma modM_run [simp, monad_simps]: "modM f s = Ok () (f s)"
  by (simp add: modM_def)

lemma whenM_run [simp, monad_simps]: "whenM b m s = (if b then m s else Ok () s)"
  by (simp add: whenM_def)

lemma bindM_run [monad_simps]:
  "bindM m f s =
     (case m s of Ok a s' \<Rightarrow> f a s' | Panic e \<Rightarrow> Panic e
      | Sleeps c s' \<Rightarrow> Sleeps c s' | Spins s' \<Rightarrow> Spins s')"
  by (simp add: bindM_def)

lemma thenM_run [monad_simps]:
  "thenM m n s =
     (case m s of Ok a s' \<Rightarrow> n s' | Panic e \<Rightarrow> Panic e
      | Sleeps c s' \<Rightarrow> Sleeps c s' | Spins s' \<Rightarrow> Spins s')"
  by (simp add: thenM_def bindM_def)

lemma bindM_Ok_iff:
  "bindM m f s = Ok b t \<longleftrightarrow> (\<exists>a s'. m s = Ok a s' \<and> f a s' = Ok b t)"
  by (cases "m s") (auto simp: bindM_def)

lemma thenM_Ok_iff:
  "thenM m n s = Ok b t \<longleftrightarrow> (\<exists>a s'. m s = Ok a s' \<and> n s' = Ok b t)"
  by (simp add: thenM_def bindM_Ok_iff)

lemma whenM_Ok_iff:
  "whenM b m s = Ok u t \<longleftrightarrow> (if b then m s = Ok u t else t = s)"
  by auto

lemmas monad_Ok_iff = bindM_Ok_iff thenM_Ok_iff

section \<open>Triples\<close>

text \<open>
  \<open>validM P m Q\<close>: from a state satisfying \<open>P\<close>, if \<open>m\<close> returns then \<open>Q\<close> holds of the value and
  the new state. \<open>keeps P m\<close> is the invariant form. \<open>totalM P m Q\<close>: from a state satisfying \<open>P\<close>,
  \<open>m\<close> returns, neither panicking nor sleeping, and \<open>Q\<close> holds.
\<close>

definition validM :: "('s \<Rightarrow> bool) \<Rightarrow> ('s \<Rightarrow> ('a, 's) res) \<Rightarrow> ('a \<Rightarrow> 's \<Rightarrow> bool) \<Rightarrow> bool" where
  "validM P m Q \<longleftrightarrow> (\<forall>s a t. P s \<longrightarrow> m s = Ok a t \<longrightarrow> Q a t)"

definition keeps :: "('s \<Rightarrow> bool) \<Rightarrow> ('s \<Rightarrow> ('a, 's) res) \<Rightarrow> bool" where
  "keeps P m \<longleftrightarrow> validM P m (\<lambda>_. P)"

definition totalM :: "('s \<Rightarrow> bool) \<Rightarrow> ('s \<Rightarrow> ('a, 's) res) \<Rightarrow> ('a \<Rightarrow> 's \<Rightarrow> bool) \<Rightarrow> bool" where
  "totalM P m Q \<longleftrightarrow> (\<forall>s. P s \<longrightarrow> (\<exists>a t. m s = Ok a t \<and> Q a t))"

named_theorems keeps_rules \<open>invariant rules for the combinators and the handlers\<close>

lemma validMI: "(\<And>s a t. P s \<Longrightarrow> m s = Ok a t \<Longrightarrow> Q a t) \<Longrightarrow> validM P m Q"
  by (auto simp: validM_def)

lemma validMD: "validM P m Q \<Longrightarrow> P s \<Longrightarrow> m s = Ok a t \<Longrightarrow> Q a t"
  by (auto simp: validM_def)

lemma keepsI: "(\<And>s a t. P s \<Longrightarrow> m s = Ok a t \<Longrightarrow> P t) \<Longrightarrow> keeps P m"
  by (auto simp: keeps_def validM_def)

lemma keepsD: "keeps P m \<Longrightarrow> m s = Ok a t \<Longrightarrow> P s \<Longrightarrow> P t"
  by (auto simp: keeps_def validM_def)

lemma keeps_ret [keeps_rules]: "keeps P (retM x)"
  by (auto intro: keepsI)

lemma keeps_get [keeps_rules]: "keeps P (getM f)"
  by (auto intro: keepsI)

lemma keeps_panic [keeps_rules]: "keeps P (panic e)"
  by (auto intro: keepsI)

lemma keeps_mod [keeps_rules]: "(\<And>s. P s \<Longrightarrow> P (f s)) \<Longrightarrow> keeps P (modM f)"
  by (rule keepsI) auto

lemma keeps_bind [keeps_rules]: "keeps P m \<Longrightarrow> (\<And>a. keeps P (f a)) \<Longrightarrow> keeps P (bindM m f)"
  by (rule keepsI) (auto simp: bindM_Ok_iff dest!: keepsD)

lemma keeps_then [keeps_rules]: "keeps P m \<Longrightarrow> keeps P n \<Longrightarrow> keeps P (thenM m n)"
  by (simp add: thenM_def keeps_bind)

lemma keeps_when [keeps_rules]: "(b \<Longrightarrow> keeps P m) \<Longrightarrow> keeps P (whenM b m)"
  by (simp add: whenM_def keeps_ret)

lemma keeps_if [keeps_rules]: "(b \<Longrightarrow> keeps P m) \<Longrightarrow> (\<not> b \<Longrightarrow> keeps P n) \<Longrightarrow> keeps P (if b then m else n)"
  by simp

lemma keeps_for [keeps_rules]: "(\<And>x. keeps P (f x)) \<Longrightarrow> keeps P (forM xs f)"
  by (induction xs) (auto intro: keeps_ret keeps_then)

lemma totalMI: "(\<And>s. P s \<Longrightarrow> \<exists>a t. m s = Ok a t \<and> Q a t) \<Longrightarrow> totalM P m Q"
  by (auto simp: totalM_def)

lemma totalMD: "totalM P m Q \<Longrightarrow> P s \<Longrightarrow> \<exists>a t. m s = Ok a t \<and> Q a t"
  by (auto simp: totalM_def)

lemma totalM_bind: "totalM P m Q \<Longrightarrow> (\<And>a. totalM (Q a) (f a) R) \<Longrightarrow> totalM P (bindM m f) R"
  by (fastforce simp: totalM_def bindM_def)

lemma totalM_then: "totalM P m (\<lambda>_. Q) \<Longrightarrow> totalM Q n R \<Longrightarrow> totalM P (thenM m n) R"
  by (fastforce simp: totalM_def thenM_def bindM_def)

lemma totalM_conseq:
  "totalM P m Q \<Longrightarrow> (\<And>s. P' s \<Longrightarrow> P s) \<Longrightarrow> (\<And>a s. Q a s \<Longrightarrow> Q' a s) \<Longrightarrow> totalM P' m Q'"
  by (fastforce simp: totalM_def)

text \<open>A \<open>for\<close> loop over a range of indices, with an invariant that is indexed by the counter.\<close>

lemma forM_upt:
  assumes "\<And>i s. m \<le> i \<Longrightarrow> i < n \<Longrightarrow> I i s \<Longrightarrow> \<exists>t. f i s = Ok () t \<and> I (Suc i) t"
    and "m \<le> n" and "I m s"
  shows "\<exists>t. forM [m..<n] f s = Ok () t \<and> I n t"
  using assms
proof (induction "n - m" arbitrary: m s)
  case 0
  then show ?case by simp
next
  case (Suc d)
  then have m: "m < n" by simp
  from Suc.prems(1) [of m s] m Suc.prems(3) obtain u where u: "f m s = Ok () u" "I (Suc m) u" by blast
  have "\<exists>t. forM [Suc m..<n] f u = Ok () t \<and> I n t"
    using Suc.hyps(2) Suc.prems(1) m u(2) by (intro Suc.hyps(1)) auto
  with u(1) m show ?case by (simp add: upt_conv_Cons thenM_run)
qed

section \<open>Words\<close>

lemma unat_add_small:
  fixes a b :: u32
  assumes "unat a + unat b < 2 ^ 32"
  shows "unat (a + b) = unat a + unat b"
  using assms by (simp add: unat_word_ariths)

lemma unat_u8_lt: "unat (x :: u8) < 256"
  using unsigned_less [of x, where 'a = nat] by simp

lemma unat_u16_lt: "unat (x :: u16) < 65536"
  using unsigned_less [of x, where 'a = nat] by simp

lemma unat_u32_lt: "unat (x :: u32) < 4294967296"
  using unsigned_less [of x, where 'a = nat] by simp

lemma unat_ucast_u8_u32 [simp]: "unat (ucast (x :: u8) :: u32) = unat x"
  using unat_u8_lt [of x] by (simp add: unsigned_ucast_eq take_bit_nat_eq_self_iff)

lemma ucast_u8_u32_eq_iff [simp]: "(ucast (x :: u8) :: u32) = ucast y \<longleftrightarrow> x = y"
proof
  assume "(ucast x :: u32) = ucast y"
  then have "unat (ucast x :: u32) = unat (ucast y :: u32)" by simp
  then show "x = y" by (simp add: word_unat_eq_iff)
qed simp

lemma ucast_u8_u32_eq_0 [simp]: "(ucast (x :: u8) :: u32) = 0 \<longleftrightarrow> x = 0"
  using ucast_u8_u32_eq_iff [of x 0] by simp

lemma unat_of_nat_u32: "n < 4294967296 \<Longrightarrow> unat (of_nat n :: u32) = n"
  by (simp only: unat_of_nat len_of_numeral_defs) simp

lemma sint_u32_uint: "sint (x :: u32) = (if uint x < 2 ^ 31 then uint x else uint x - 2 ^ 32)"
proof -
  have b: "uint x < 2 ^ 32" "0 \<le> uint x" using unsigned_less [of x, where 'a = int] by simp_all
  have "uint x div 2 ^ 31 = 1" if "\<not> uint x < 2 ^ 31"
    using that b by (simp add: div_pos_geq)
  with b show ?thesis
    by (simp add: sint_uint signed_take_bit_eq_take_bit_minus take_bit_int_eq_self bit_iff_odd)
qed

lemma unat_sint_nonneg: "\<not> sint (x :: u32) < 0 \<Longrightarrow> int (unat x) = sint x"
  using unsigned_less [of x, where 'a = int] by (simp add: sint_u32_uint split: if_split_asm)

lemma unat_neg_u32: "sint (x :: u32) < 0 \<Longrightarrow> int (unat (- x)) = - sint x"
proof -
  assume neg: "sint x < 0"
  have b: "uint x < 2 ^ 32" "0 \<le> uint x" using unsigned_less [of x, where 'a = int] by simp_all
  have s: "sint x = uint x - 2 ^ 32" "\<not> uint x < 2 ^ 31"
    using neg b by (simp_all add: sint_u32_uint split: if_split_asm)
  have "uint (- x) = (2 ^ 32 - uint x) mod 2 ^ 32"
    by (simp add: uint_word_ariths zmod_zminus1_eq_if mod_pos_pos_trivial b [simplified])
  also have "\<dots> = 2 ^ 32 - uint x" using b s by (intro mod_pos_pos_trivial) auto
  finally show ?thesis using s by simp
qed

lemma sint_Suc_u32: "0 \<le> sint x \<Longrightarrow> sint x < 2 ^ 31 - 1 \<Longrightarrow> sint (x + 1) = sint x + 1" for x :: u32
proof -
  assume x: "0 \<le> sint x" "sint x < 2 ^ 31 - 1"
  have u: "int (unat x) = sint x" using x(1) by (intro unat_sint_nonneg) simp
  then have "unat x = nat (sint x)" by (metis nat_int)
  then have "unat x < 2147483647" using x by (simp add: nat_less_iff)
  then have "unat (x + 1) = unat x + 1" using unat_add_small [of x 1] by simp
  then have "int (unat (x + 1)) = int (unat x) + 1" by simp
  then have "uint (x + 1) = sint x + 1" using u by simp
  with x show ?thesis using sint_u32_uint [of "x + 1"] by simp
qed

lemma of_nat_u32_inj:
  assumes "i < 2 ^ 32" and "j < 2 ^ 32"
  shows "(of_nat i :: u32) = of_nat j \<longleftrightarrow> i = j"
proof
  assume "(of_nat i :: u32) = of_nat j"
  then have "unat (of_nat i :: u32) = unat (of_nat j :: u32)" by simp
  with assms show "i = j" by (simp add: unat_of_nat)
qed simp

end
