(* ===== verification/Xv6_Memory.thy ===== *)
theory Xv6_Memory
  imports Xv6_Prelude
begin

text \<open>
  Byte-addressed memory and the routines of \<open>string.c\<close> over it: \<open>memset\<close> with its word-wide
  fast path, \<open>memcmp\<close>, \<open>memmove\<close> with its two directions, \<open>strncmp\<close>, \<open>strncpy\<close>, \<open>safestrcpy\<close>
  and \<open>strlen\<close>. The lemmas give each routine its effect on every byte, so that the
  components above never unfold a copying loop.
\<close>

section \<open>Memory\<close>

type_synonym mem = "u32 \<Rightarrow> u8"

definition byte_of :: "nat \<Rightarrow> u32 \<Rightarrow> u8" where
  "byte_of k w = ucast (drop_bit (8 * k) w)"

definition le32 :: "u8 \<Rightarrow> u8 \<Rightarrow> u8 \<Rightarrow> u8 \<Rightarrow> u32" where
  "le32 b0 b1 b2 b3 =
     ucast b0 OR push_bit 8 (ucast b1) OR push_bit 16 (ucast b2) OR push_bit 24 (ucast b3)"

lemma le32_byte_of [simp]:
  "le32 (byte_of 0 w) (byte_of (Suc 0) w) (byte_of 2 w) (byte_of 3 w) = w"
proof (rule bit_word_eqI)
  fix n
  assume "n < LENGTH(32)"
  then consider "n < 8" | "8 \<le> n" "n < 16" | "16 \<le> n" "n < 24" | "24 \<le> n" "n < 32"
    by fastforce
  then show "bit (le32 (byte_of 0 w) (byte_of (Suc 0) w) (byte_of 2 w) (byte_of 3 w)) n = bit w n"
    by cases (auto simp: le32_def byte_of_def bit_simps)
qed

lemma byte_of_0_le32 [simp]: "byte_of 0 (le32 b0 b1 b2 b3) = b0"
  by (rule bit_word_eqI) (force simp: le32_def byte_of_def bit_simps)

lemma byte_of_1_le32 [simp]: "byte_of (Suc 0) (le32 b0 b1 b2 b3) = b1"
  by (rule bit_word_eqI) (auto simp: le32_def byte_of_def bit_simps dest: bit_imp_le_length)

lemma byte_of_2_le32 [simp]: "byte_of 2 (le32 b0 b1 b2 b3) = b2"
  by (rule bit_word_eqI) (auto simp: le32_def byte_of_def bit_simps dest: bit_imp_le_length)

lemma byte_of_3_le32 [simp]: "byte_of 3 (le32 b0 b1 b2 b3) = b3"
  by (rule bit_word_eqI) (auto simp: le32_def byte_of_def bit_simps dest: bit_imp_le_length)

definition load32 :: "mem \<Rightarrow> u32 \<Rightarrow> u32" where
  "load32 m a = le32 (m a) (m (a + 1)) (m (a + 2)) (m (a + 3))"

definition store32 :: "u32 \<Rightarrow> u32 \<Rightarrow> mem \<Rightarrow> mem" where
  "store32 a w m =
     m(a := byte_of 0 w, a + 1 := byte_of 1 w, a + 2 := byte_of 2 w, a + 3 := byte_of 3 w)"

lemma load32_store32_same [simp]: "load32 (store32 a w m) a = w"
  by (simp add: load32_def store32_def)

text \<open>The distance of an address from a base, the measure all the copying loops are stated in.\<close>

definition dist :: "u32 \<Rightarrow> u32 \<Rightarrow> nat" where
  "dist a b = unat (a - b)"

lemma dist_self [simp]: "dist a a = 0"
  by (simp add: dist_def)

lemma dist_lt: "dist a b < 2 ^ 32"
  unfolding dist_def using unsigned_less [of "a - b"] by simp

lemma dist_add [simp]: "dist (a + of_nat i) a = i mod 2 ^ 32"
  by (simp add: dist_def unat_of_nat)

lemma add_dist [simp]: "a + of_nat (dist b a) = b"
  by (simp add: dist_def)

lemma dist_eq_0 [simp]: "dist a b = 0 \<longleftrightarrow> a = b"
  by (simp add: dist_def unat_eq_0)

lemma dist_Suc: "a \<noteq> b \<Longrightarrow> dist a b = Suc (dist a (b + 1))"
proof -
  assume "a \<noteq> b"
  then have "a - b \<noteq> 0" by simp
  then have "unat (a - b - 1) = unat (a - b) - 1" and "unat (a - b) \<noteq> 0"
    by (auto simp: unat_minus_one unat_eq_0)
  then show ?thesis by (simp add: dist_def algebra_simps)
qed

lemma dist_next: "dist a (a + 1) = 2 ^ 32 - 1"
proof -
  have "a - (a + 1) = (-1 :: u32)" by simp
  then show ?thesis by (simp add: dist_def unsigned_minus_1_eq_mask mask_eq_exp_minus_1)
qed

section \<open>memset\<close>

text \<open>\<open>stosb\<close> and \<open>stosl\<close> of \<open>x86.h\<close>: \<open>cld; rep stosb\<close>, \<open>cld; rep stosl\<close>.\<close>

fun stosb :: "u32 \<Rightarrow> u8 \<Rightarrow> nat \<Rightarrow> mem \<Rightarrow> mem" where
  "stosb addr data 0 m = m"
| "stosb addr data (Suc cnt) m = stosb (addr + 1) data cnt (m(addr := data))"

fun stosl :: "u32 \<Rightarrow> u32 \<Rightarrow> nat \<Rightarrow> mem \<Rightarrow> mem" where
  "stosl addr data 0 m = m"
| "stosl addr data (Suc cnt) m = stosl (addr + 4) data cnt (store32 addr data m)"

definition splat :: "u32 \<Rightarrow> u32" where
  "splat c = (push_bit 24 c OR push_bit 16 c OR push_bit 8 c OR c)"

definition memset :: "u32 \<Rightarrow> u32 \<Rightarrow> u32 \<Rightarrow> mem \<Rightarrow> mem" where
  "memset dst c n m =
     (if sint dst mod 4 = 0 \<and> n mod 4 = 0
      then let c = c AND 0xFF
           in stosl dst (splat c) (unat (n div 4)) m
      else stosb dst (ucast c) (unat n) m)"

lemma stosb_eq:
  "n \<le> 2 ^ 32 \<Longrightarrow> stosb d c n m a = (if dist a d < n then c else m a)"
proof (induction n arbitrary: d m)
  case 0
  then show ?case by simp
next
  case (Suc n)
  show ?case
  proof (cases "a = d")
    case True
    with Suc show ?thesis by (simp add: dist_next)
  next
    case False
    with Suc show ?thesis by (simp add: dist_Suc [of a d])
  qed
qed

lemma byte_of_splat:
  assumes "k < 4"
  shows "byte_of k (splat (c AND 0xFF)) = ucast c"
proof -
  have tb: "c AND 0xFF = take_bit 8 c"
    by (simp add: take_bit_eq_mask mask_eq_exp_minus_1)
  from assms have "k = 0 \<or> k = 1 \<or> k = 2 \<or> k = 3" by auto
  then show ?thesis
    unfolding tb by (auto intro!: bit_word_eqI simp: splat_def byte_of_def bit_simps)
qed

lemma store32_splat: "store32 d (splat (c AND 0xFF)) m = stosb d (ucast c) 4 m"
proof -
  have "stosb d (ucast c) 4 m =
      m(d := ucast c, d + 1 := ucast c, d + 2 := ucast c, d + 3 := ucast c)"
    by (simp add: eval_nat_numeral add.assoc)
  then show ?thesis
    by (simp add: store32_def byte_of_splat del: One_nat_def)
qed

lemma stosb_add: "stosb d c (i + j) m = stosb (d + of_nat i) c j (stosb d c i m)"
  by (induction i arbitrary: d m) (simp_all add: add.assoc)

lemma stosl_stosb: "stosl d (splat (c AND 0xFF)) n m = stosb d (ucast c) (4 * n) m"
proof (induction n arbitrary: d m)
  case 0
  then show ?case by simp
next
  case (Suc n)
  have "stosb d (ucast c) (4 * Suc n) m =
      stosb (d + of_nat 4) (ucast c) (4 * n) (stosb d (ucast c) 4 m)"
    using stosb_add [of d "ucast c" 4 "4 * n" m] by (simp add: algebra_simps)
  with Suc.IH show ?case
    by (simp only: stosl.simps store32_splat) simp
qed

lemma memset_eq: "memset d c n m = (\<lambda>a. if dist a d < unat n then ucast c else m a)"
proof -
  have lt: "unat n \<le> 2 ^ 32"
    using unsigned_less [of n, where 'a = nat] by simp
  have *: "4 * (unat n div 4) = unat n" if "n mod 4 = 0"
  proof -
    from that have "unat n mod 4 = 0"
      using unat_mod_distrib [of n 4] by simp
    then show ?thesis by presburger
  qed
  show ?thesis
    by (rule ext) (auto simp: memset_def Let_def stosl_stosb stosb_eq [OF lt] * unat_div_distrib)
qed

section \<open>memmove\<close>

text \<open>The two loops of \<open>memmove\<close>; \<open>s\<close> and \<open>d\<close> are past the end in the backward one.\<close>

fun copy_bwd :: "u32 \<Rightarrow> u32 \<Rightarrow> nat \<Rightarrow> mem \<Rightarrow> mem" where
  "copy_bwd d s 0 m = m"
| "copy_bwd d s (Suc n) m = copy_bwd (d - 1) (s - 1) n (m(d - 1 := m (s - 1)))"

fun copy_fwd :: "u32 \<Rightarrow> u32 \<Rightarrow> nat \<Rightarrow> mem \<Rightarrow> mem" where
  "copy_fwd d s 0 m = m"
| "copy_fwd d s (Suc n) m = copy_fwd (d + 1) (s + 1) n (m(d := m s))"

definition memmove :: "u32 \<Rightarrow> u32 \<Rightarrow> u32 \<Rightarrow> mem \<Rightarrow> mem" where
  "memmove dst src n m =
     (if src < dst \<and> src + n > dst
      then copy_bwd (dst + n) (src + n) (unat n) m
      else copy_fwd dst src (unat n) m)"

text \<open>\<open>memcpy\<close> only calls \<open>memmove\<close>.\<close>

definition memcpy :: "u32 \<Rightarrow> u32 \<Rightarrow> u32 \<Rightarrow> mem \<Rightarrow> mem" where
  "memcpy dst src n m = memmove dst src n m"

text \<open>
  A forward copy is right when no byte is read after it has been overwritten; the same for a
  backward copy with the order reversed.
\<close>

lemma copy_fwd_eq:
  assumes "n \<le> 2 ^ 32"
    and "\<And>i j. i < n \<Longrightarrow> j < i \<Longrightarrow> d + of_nat j \<noteq> s + of_nat i"
  shows "copy_fwd d s n m a = (if dist a d < n then m (s + (a - d)) else m a)"
  using assms
proof (induction n arbitrary: d s m)
  case 0
  then show ?case by simp
next
  case (Suc n)
  have sep: "d + 1 + of_nat j \<noteq> s + 1 + of_nat i" if "i < n" "j < i" for i j
    using Suc.prems(2) [of "Suc i" "Suc j"] that by (simp add: algebra_simps)
  have IH: "copy_fwd (d + 1) (s + 1) n (m(d := m s)) a =
      (if dist a (d + 1) < n then (m(d := m s)) (s + 1 + (a - (d + 1))) else (m(d := m s)) a)"
    using Suc.prems(1) sep by (intro Suc.IH) auto
  show ?case
  proof (cases "a = d")
    case True
    with IH Suc.prems(1) show ?thesis by (simp add: dist_next)
  next
    case False
    then have d: "dist a d = Suc (dist a (d + 1))" by (rule dist_Suc)
    have "s + (a - d) \<noteq> d" if "dist a d < Suc n"
    proof
      assume "s + (a - d) = d"
      then have "d + of_nat 0 = s + of_nat (dist a d)"
        by (simp add: dist_def)
      with Suc.prems(2) [of "dist a d" 0] that False show False
        by (simp add: d)
    qed
    with IH False d show ?thesis by (auto simp: algebra_simps)
  qed
qed

lemma copy_bwd_eq:
  assumes "n \<le> 2 ^ 32"
    and "\<And>i j. j < n \<Longrightarrow> i < j \<Longrightarrow> d + of_nat j \<noteq> s + of_nat i"
  shows "copy_bwd (d + of_nat n) (s + of_nat n) n m a =
    (if dist a d < n then m (s + (a - d)) else m a)"
  using assms
proof (induction n arbitrary: m)
  case 0
  then show ?case by simp
next
  case (Suc n)
  let ?m = "m(d + of_nat n := m (s + of_nat n))"
  have IH: "copy_bwd (d + of_nat n) (s + of_nat n) n ?m a =
      (if dist a d < n then ?m (s + (a - d)) else ?m a)"
    using Suc.prems by (intro Suc.IH) auto
  have "copy_bwd (d + of_nat (Suc n)) (s + of_nat (Suc n)) (Suc n) m a =
      copy_bwd (d + of_nat n) (s + of_nat n) n ?m a"
    by (simp add: algebra_simps)
  moreover have "s + (a - d) \<noteq> d + of_nat n" if "dist a d < n"
  proof -
    have "a - d = of_nat (dist a d)" by (simp add: dist_def)
    with Suc.prems(2) [of n "dist a d"] that show ?thesis by auto
  qed
  moreover have "dist a d = n" if "a = d + of_nat n"
    using that Suc.prems(1) by simp
  moreover have "a = d + of_nat n" if "dist a d = n"
    using that add_dist [of d a] by simp
  moreover have "s + (d + of_nat n - d) = s + of_nat n"
    by simp
  ultimately show ?case
    unfolding IH by (metis (full_types) fun_upd_apply less_Suc_eq)
qed

lemma unat_neqI: "unat a \<noteq> unat b \<Longrightarrow> a \<noteq> b"
  by auto

lemma memmove_eq:
  assumes src: "unat src + unat n < 2 ^ 32" and dst: "unat dst + unat n \<le> 2 ^ 32"
  shows "memmove dst src n m = (\<lambda>a. if dist a dst < unat n then m (src + (a - dst)) else m a)"
proof (rule ext)
  fix a
  have n: "unat n \<le> 2 ^ 32" using src by simp
  have rd: "unat (src + of_nat i) = unat src + i" if "i < unat n" for i
    using that src by (simp add: unat_word_ariths unat_of_nat)
  have wr: "unat (dst + of_nat j) = unat dst + j" if "j < unat n" for j
    using that dst by (simp add: unat_word_ariths unat_of_nat)
  have sn: "unat (src + n) = unat src + unat n"
    using src by (rule unat_add_small)
  show "memmove dst src n m a = (if dist a dst < unat n then m (src + (a - dst)) else m a)"
  proof (cases "src < dst \<and> src + n > dst")
    case True
    then have "unat src < unat dst" by (simp add: word_less_nat_alt)
    then have "dst + of_nat j \<noteq> src + of_nat i" if "j < unat n" "i < j" for i j
      using that rd [of i] wr [of j] by (intro unat_neqI) auto
    from copy_bwd_eq [OF n this, of m a] True show ?thesis
      by (simp add: memmove_def)
  next
    case False
    then have "unat dst \<le> unat src \<or> unat src + unat n \<le> unat dst"
      by (auto simp: word_less_nat_alt sn)
    then have "dst + of_nat j \<noteq> src + of_nat i" if "i < unat n" "j < i" for i j
      using that rd [of i] wr [of j] by (intro unat_neqI) auto
    from copy_fwd_eq [OF n this, of m a] False show ?thesis
      by (auto simp: memmove_def)
  qed
qed

section \<open>Comparison and strings\<close>

text \<open>\<open>memcmp\<close> returns the difference of the first two bytes that differ, as an \<open>int\<close>.\<close>

fun memcmp_loop :: "mem \<Rightarrow> u32 \<Rightarrow> u32 \<Rightarrow> nat \<Rightarrow> u32" where
  "memcmp_loop m s1 s2 0 = 0"
| "memcmp_loop m s1 s2 (Suc n) =
     (if m s1 \<noteq> m s2 then ucast (m s1) - ucast (m s2) else memcmp_loop m (s1 + 1) (s2 + 1) n)"

definition memcmp :: "u32 \<Rightarrow> u32 \<Rightarrow> u32 \<Rightarrow> mem \<Rightarrow> u32" where
  "memcmp v1 v2 n m = memcmp_loop m v1 v2 (unat n)"

fun strncmp_loop :: "mem \<Rightarrow> u32 \<Rightarrow> u32 \<Rightarrow> nat \<Rightarrow> u32" where
  "strncmp_loop m p q 0 = 0"
| "strncmp_loop m p q (Suc n) =
     (if m p \<noteq> 0 \<and> m p = m q then strncmp_loop m (p + 1) (q + 1) n
      else ucast (m p) - ucast (m q))"

definition strncmp :: "u32 \<Rightarrow> u32 \<Rightarrow> u32 \<Rightarrow> mem \<Rightarrow> u32" where
  "strncmp p q n m = strncmp_loop m p q (unat n)"

text \<open>
  \<open>strncpy\<close>: the first loop copies up to and including a NUL, the second pads with zeros. The
  counter is an \<open>int\<close>; a negative one copies nothing.
\<close>

fun strncpy_loop :: "u32 \<Rightarrow> u32 \<Rightarrow> nat \<Rightarrow> mem \<Rightarrow> mem" where
  "strncpy_loop s t 0 m = m"
| "strncpy_loop s t (Suc n) m =
     (if m t \<noteq> 0 then strncpy_loop (s + 1) (t + 1) n (m(s := m t))
      else stosb (s + 1) 0 n (m(s := m t)))"

definition strncpy :: "u32 \<Rightarrow> u32 \<Rightarrow> u32 \<Rightarrow> mem \<Rightarrow> mem" where
  "strncpy s t n m = strncpy_loop s t (nat (sint n)) m"

fun safestrcpy_loop :: "u32 \<Rightarrow> u32 \<Rightarrow> nat \<Rightarrow> mem \<Rightarrow> mem" where
  "safestrcpy_loop s t 0 m = m(s := 0)"
| "safestrcpy_loop s t (Suc n) m =
     (if m t \<noteq> 0 then safestrcpy_loop (s + 1) (t + 1) n (m(s := m t))
      else m(s := m t, s + 1 := 0))"

definition safestrcpy :: "u32 \<Rightarrow> u32 \<Rightarrow> u32 \<Rightarrow> mem \<Rightarrow> mem" where
  "safestrcpy s t n m = (if sint n \<le> 0 then m else safestrcpy_loop s t (nat (sint n) - 1) m)"

text \<open>\<open>strlen\<close> may run for ever, on memory with no NUL byte.\<close>

partial_function (option) strlen_from :: "mem \<Rightarrow> u32 \<Rightarrow> u32 \<Rightarrow> u32 option" where
  "strlen_from m s n = (if m (s + n) \<noteq> 0 then strlen_from m s (n + 1) else Some n)"

definition strlen :: "u32 \<Rightarrow> mem \<Rightarrow> u32 option" where
  "strlen s m = strlen_from m s 0"

text \<open>The C string of at most \<open>n\<close> bytes at an address: the bytes before the first NUL.\<close>

fun cstr :: "mem \<Rightarrow> u32 \<Rightarrow> nat \<Rightarrow> u8 list" where
  "cstr m p 0 = []"
| "cstr m p (Suc n) = (if m p = 0 then [] else m p # cstr m (p + 1) n)"

lemma memcmp_loop_0: "memcmp_loop m p q n = 0 \<longleftrightarrow> (\<forall>i<n. m (p + of_nat i) = m (q + of_nat i))"
proof (induction n arbitrary: p q)
  case 0
  then show ?case by simp
next
  case (Suc n)
  then show ?case by (auto simp: All_less_Suc2 add.assoc)
qed

lemma strncmp_loop_0: "strncmp_loop m p q n = 0 \<longleftrightarrow> cstr m p n = cstr m q n"
  by (induction n arbitrary: p q) auto

lemma strlen_from_Some:
  assumes "\<And>j. j < k \<Longrightarrow> m (s + n + of_nat j) \<noteq> 0" and "m (s + n + of_nat k) = 0"
  shows "strlen_from m s n = Some (n + of_nat k)"
  using assms
proof (induction k arbitrary: n)
  case 0
  then show ?case by (simp add: strlen_from.simps)
next
  case (Suc k)
  have "strlen_from m s (n + 1) = Some (n + 1 + of_nat k)"
  proof (rule Suc.IH)
    show "m (s + (n + 1) + of_nat j) \<noteq> 0" if "j < k" for j
      using Suc.prems(1) [of "Suc j"] that by (simp add: algebra_simps)
    show "m (s + (n + 1) + of_nat k) = 0"
      using Suc.prems(2) by (simp add: algebra_simps)
  qed
  with Suc.prems(1) [of 0] show ?case
    by (simp add: strlen_from.simps [of m s n] algebra_simps)
qed

text \<open>The bytes of an array, and the effect of the two bounded string copies on them.\<close>

definition bytes :: "mem \<Rightarrow> u32 \<Rightarrow> nat \<Rightarrow> u8 list" where
  "bytes m p n = map (\<lambda>i. m (p + of_nat i)) [0..<n]"

lemma length_bytes [simp]: "length (bytes m p n) = n"
  by (simp add: bytes_def)

lemma bytes_0 [simp]: "bytes m p 0 = []"
  by (simp add: bytes_def)

lemma bytes_Suc: "bytes m p (Suc n) = m p # bytes m (p + 1) n"
  by (simp add: bytes_def map_upt_Suc add.assoc del: upt_Suc)

lemma bytes_cong: "(\<And>i. i < n \<Longrightarrow> m (p + of_nat i) = m' (p + of_nat i)) \<Longrightarrow> bytes m p n = bytes m' p n"
  by (simp add: bytes_def)

lemma cstr_bytes: "cstr m p n = takeWhile (\<lambda>b. b \<noteq> 0) (bytes m p n)"
  by (induction n arbitrary: p) (auto simp: bytes_Suc)

lemma cstr_cong: "(\<And>i. i < n \<Longrightarrow> m (p + of_nat i) = m' (p + of_nat i)) \<Longrightarrow> cstr m p n = cstr m' p n"
  by (simp add: cstr_bytes cong: bytes_cong)

lemma length_cstr_le: "length (cstr m p n) \<le> n"
  by (induction n arbitrary: p) auto

definition disjoint_ranges :: "u32 \<Rightarrow> u32 \<Rightarrow> nat \<Rightarrow> bool" where
  "disjoint_ranges s t n \<longleftrightarrow> (\<forall>i<n. \<forall>j<n. s + of_nat i \<noteq> t + of_nat j)"

lemma disjoint_ranges_Suc:
  assumes "disjoint_ranges s t (Suc n)"
  shows "disjoint_ranges (s + 1) (t + 1) n"
    and "i < n \<Longrightarrow> t + 1 + of_nat i \<noteq> s"
proof -
  have *: "s + of_nat i \<noteq> t + of_nat j" if "i < Suc n" "j < Suc n" for i j
    using assms that by (simp add: disjoint_ranges_def)
  show "disjoint_ranges (s + 1) (t + 1) n"
    unfolding disjoint_ranges_def
  proof (intro allI impI)
    fix i j
    assume "i < n" "j < n"
    with * [of "Suc i" "Suc j"] show "s + 1 + of_nat i \<noteq> t + 1 + of_nat j"
      by (simp add: algebra_simps)
  qed
  show "t + 1 + of_nat i \<noteq> s" if "i < n"
    using * [of 0 "Suc i"] that by (simp add: algebra_simps)
qed

lemma strncpy_loop_frame:
  "n \<le> 2 ^ 32 \<Longrightarrow> n \<le> dist a s \<Longrightarrow> strncpy_loop s t n m a = m a"
proof (induction n arbitrary: s t m)
  case 0
  then show ?case by simp
next
  case (Suc n)
  then have "a \<noteq> s" by auto
  with Suc show ?case by (auto simp: dist_Suc [of a s] stosb_eq)
qed

lemma strncpy_loop_eq:
  assumes "n \<le> 2 ^ 31" and "disjoint_ranges s t n"
  shows "bytes (strncpy_loop s t n m) s n =
    cstr m t n @ replicate (n - length (cstr m t n)) 0"
  using assms
proof (induction n arbitrary: s t m)
  case 0
  then show ?case by simp
next
  case (Suc n)
  have here: "dist s (s + 1) \<ge> n" using Suc.prems(1) by (simp add: dist_next)
  have there: "(m(s := m t)) (t + 1 + of_nat i) = m (t + 1 + of_nat i)" if "i < n" for i
    using disjoint_ranges_Suc(2) [OF Suc.prems(2) that] by simp
  show ?case
  proof (cases "m t = 0")
    case True
    have "bytes (stosb (s + 1) 0 n (m(s := 0))) (s + 1) n = replicate n 0"
      using Suc.prems(1) by (auto simp: bytes_def stosb_eq list_eq_iff_nth_eq)
    moreover have "stosb (s + 1) 0 n (m(s := 0)) s = 0"
      using here Suc.prems(1) by (simp add: stosb_eq)
    ultimately show ?thesis using True by (simp add: bytes_Suc)
  next
    case False
    have "bytes (strncpy_loop (s + 1) (t + 1) n (m(s := m t))) (s + 1) n =
        cstr (m(s := m t)) (t + 1) n @ replicate (n - length (cstr (m(s := m t)) (t + 1) n)) 0"
      using Suc.prems disjoint_ranges_Suc(1) by (intro Suc.IH) auto
    moreover have "cstr (m(s := m t)) (t + 1) n = cstr m (t + 1) n"
      using there by (rule cstr_cong)
    moreover have "strncpy_loop (s + 1) (t + 1) n (m(s := m t)) s = m t"
      using Suc.prems(1) here by (simp add: strncpy_loop_frame)
    ultimately show ?thesis using False by (simp add: bytes_Suc)
  qed
qed

lemma safestrcpy_loop_frame:
  "n < 2 ^ 32 \<Longrightarrow> n < dist a s \<Longrightarrow> safestrcpy_loop s t n m a = m a"
proof (induction n arbitrary: s t m)
  case 0
  then show ?case by auto
next
  case (Suc n)
  then have "a \<noteq> s" by auto
  moreover have "a \<noteq> s + 1" using Suc.prems \<open>a \<noteq> s\<close> by (auto simp: dist_Suc [of a s])
  ultimately show ?case using Suc by (auto simp: dist_Suc [of a s])
qed

lemma safestrcpy_loop_eq:
  assumes "n < 2 ^ 31" and "disjoint_ranges s t (Suc n)"
  shows "cstr (safestrcpy_loop s t n m) s (Suc n) = cstr m t n"
  using assms
proof (induction n arbitrary: s t m)
  case 0
  then show ?case by simp
next
  case (Suc n)
  have here: "n < dist s (s + 1)" using Suc.prems(1) by (simp add: dist_next)
  show ?case
  proof (cases "m t = 0")
    case True
    then show ?thesis by simp
  next
    case False
    have "cstr (safestrcpy_loop (s + 1) (t + 1) n (m(s := m t))) (s + 1) (Suc n) =
        cstr (m(s := m t)) (t + 1) n"
      using Suc.prems disjoint_ranges_Suc(1) by (intro Suc.IH) auto
    moreover have "cstr (m(s := m t)) (t + 1) n = cstr m (t + 1) n"
      using disjoint_ranges_Suc(2) [OF Suc.prems(2)] by (intro cstr_cong) auto
    moreover have "safestrcpy_loop (s + 1) (t + 1) n (m(s := m t)) s = m t"
      using Suc.prems(1) here by (simp add: safestrcpy_loop_frame)
    ultimately show ?thesis using False by simp
  qed
qed

lemma disjoint_rangesI:
  assumes "unat s + n \<le> unat t" and "unat t + n \<le> 2 ^ 32"
  shows "disjoint_ranges s t n"
  unfolding disjoint_ranges_def
proof (intro allI impI)
  fix i j assume ij: "i < n" "j < n"
  have "unat (s + of_nat i) = unat s + i" "unat (t + of_nat j) = unat t + j"
    using ij assms by (simp_all add: unat_word_ariths unat_of_nat)
  then show "s + of_nat i \<noteq> t + of_nat j" using ij assms by (intro unat_neqI) linarith
qed

section \<open>Properties of the string routines\<close>

text \<open>
  The word-at-a-time path of \<open>memset\<close> is an optimisation only: for every address, fill value
  and length, aligned or not, \<open>memset\<close> writes what the byte loop writes.
\<close>
theorem memset_bytewise: "memset d c n m = stosb d (ucast c) (unat n) m"
proof
  fix a
  have "unat n \<le> 2 ^ 32" using unat_u32_lt [of n] by simp
  then show "memset d c n m a = stosb d (ucast c) (unat n) m a" by (simp add: memset_eq stosb_eq)
qed

text \<open>
  \<open>memmove\<close> copies the old contents of the source to the destination even when the two
  overlap, in either direction, and writes nothing else, for regions that do not wrap around the
  address space.
\<close>
theorem memmove_overlap:
  assumes "unat src + unat n < 2 ^ 32" and "unat dst + unat n \<le> 2 ^ 32"
  shows "bytes (memmove dst src n m) dst (unat n) = bytes m src (unat n)
    \<and> (\<forall>a. unat n \<le> dist a dst \<longrightarrow> memmove dst src n m a = m a)"
proof -
  have "unat n \<le> 2 ^ 32" using assms(1) by simp
  then show ?thesis by (simp add: memmove_eq [OF assms] bytes_def)
qed

theorem memmove_overlap_witness:
  "bytes (memmove 11 10 3 (\<lambda>a. ucast a)) 11 3 = [10, 11, 12]
   \<and> bytes (memmove 10 11 3 (\<lambda>a. ucast a)) 10 3 = [11, 12, 13]
   \<and> memmove 11 10 3 (\<lambda>a. ucast a) 14 = (14 :: u8)"
  using memmove_overlap [of 10 3 11 "\<lambda>a. ucast a"] memmove_overlap [of 11 3 10 "\<lambda>a. ucast a"]
  by (simp add: bytes_def upt_rec dist_def)

text \<open>
  \<open>safestrcpy\<close> with a positive count always leaves a terminated string: the longest prefix
  of the source string that fits with its terminator. It writes only inside the destination's
  \<open>n\<close> bytes.
\<close>
theorem safestrcpy_terminated:
  assumes "0 < sint n" and "disjoint_ranges s t (nat (sint n))"
  shows "cstr (safestrcpy s t n m) s (nat (sint n)) = cstr m t (nat (sint n) - 1)
    \<and> (\<forall>a. nat (sint n) \<le> dist a s \<longrightarrow> safestrcpy s t n m a = m a)"
proof -
  have "sint n < 2 ^ 31" using sint_lt [of n] by simp
  then have n: "nat (sint n) - 1 < 2 ^ 31" "nat (sint n) = Suc (nat (sint n) - 1)"
    using assms(1) by auto
  show ?thesis
    using safestrcpy_loop_eq [OF n(1), of s t m] assms n by (simp add: safestrcpy_def safestrcpy_loop_frame)
qed

theorem safestrcpy_terminated_witness:
  "cstr (safestrcpy 100 200 4 ((\<lambda>_. 7)(202 := 0))) 100 4 = [7, 7]
   \<and> cstr (safestrcpy 100 200 2 ((\<lambda>_. 7)(202 := 0))) 100 2 = [7]
   \<and> safestrcpy 100 200 4 ((\<lambda>_. 7)(202 := 0)) 104 = 7"
proof -
  have d: "disjoint_ranges 100 200 (nat (sint (4 :: u32)))" "disjoint_ranges 100 200 (nat (sint (2 :: u32)))"
    by (simp_all add: disjoint_rangesI)
  have c: "cstr ((\<lambda>_. 7)(202 := 0)) 200 3 = [7, 7]" "cstr ((\<lambda>_. 7)(202 := 0)) 200 1 = [7]"
    by (simp_all add: numeral_3_eq_3)
  have "dist 104 100 = 4" by (simp add: dist_def)
  then show ?thesis
    using safestrcpy_terminated [of 4 100 200 "(\<lambda>_. 7)(202 := 0)"] d
      safestrcpy_terminated [of 2 100 200 "(\<lambda>_. 7)(202 := 0)"]
    by (simp add: c)
qed

text \<open>
  \<open>strncmp\<close> returns 0 exactly when the two strings, cut at \<open>n\<close> bytes, are equal, so it
  decides equality of directory entry names.
\<close>
theorem strncmp_decides: "strncmp p q n m = 0 \<longleftrightarrow> cstr m p (unat n) = cstr m q (unat n)"
  by (simp add: strncmp_def strncmp_loop_0)

end
