(* ===== verification/Spinlock.thy ===== *)
theory Spinlock
  imports Xv6_Memory
begin

text \<open>
  \<open>spinlock.c\<close> and the per-CPU part of \<open>proc.c\<close> (\<open>mycpu\<close>, \<open>cpuid\<close>): interrupt nesting with
  \<open>pushcli\<close>/\<open>popcli\<close>, and the test-and-set lock, run by any number of processors. The lock is a
  step relation in which each processor moves by one atomic memory access of \<open>acquire\<close> or
  \<open>release\<close> at a time; mutual exclusion is an invariant of its reachable states. The locale
  \<open>lock_discipline\<close> is what the rest of the kernel relies on; it is interpreted here on the
  uncontended run of the code, and in the theory of the kernel state on the view of a single
  processor that the handlers are written in.
\<close>

section \<open>The interface of a lock\<close>

locale lock_discipline =
  fixes acq :: "'l \<Rightarrow> 's \<Rightarrow> (unit, 's) res"
    and rel :: "'l \<Rightarrow> 's \<Rightarrow> (unit, 's) res"
    and held :: "'s \<Rightarrow> 'l set"
    and avail :: "'s \<Rightarrow> 'l set"
    and wf :: "'s \<Rightarrow> bool"
  assumes acq_held: "wf s \<Longrightarrow> l \<in> held s \<Longrightarrow> acq l s = Panic ''acquire''"
    and acq_free: "wf s \<Longrightarrow> l \<in> avail s \<Longrightarrow>
      \<exists>t. acq l s = Ok () t \<and> held t = insert l (held s) \<and> avail t = avail s - {l} \<and> wf t"
    and rel_held: "wf s \<Longrightarrow> l \<in> held s \<Longrightarrow>
      \<exists>t. rel l s = Ok () t \<and> held t = held s - {l} \<and> avail t = insert l (avail s) \<and> wf t"
    and rel_unheld: "wf s \<Longrightarrow> l \<notin> held s \<Longrightarrow> rel l s = Panic ''release''"
    and held_unavail: "wf s \<Longrightarrow> held s \<inter> avail s = {}"
begin

text \<open>A critical section that does nothing leaves the locks as they were.\<close>

lemma empty_section:
  assumes "wf s" and "l \<in> avail s"
  shows "\<exists>t. thenM (acq l) (rel l) s = Ok () t \<and> held t = held s \<and> avail t = avail s \<and> wf t"
proof -
  from acq_free [OF assms] obtain t where t: "acq l s = Ok () t" "held t = insert l (held s)"
    "avail t = avail s - {l}" "wf t" by blast
  moreover from rel_held [of t l] t obtain u where "rel l t = Ok () u" "held u = held t - {l}"
    "avail u = insert l (avail t)" "wf u" by blast
  moreover have "l \<notin> held s" using held_unavail [OF assms(1)] assms(2) by blast
  ultimately show ?thesis using assms(2) by (auto simp: thenM_run)
qed

text \<open>Nested sections on two locks, released in either order, do the same.\<close>

lemma nested_sections:
  assumes "wf s" and "l \<in> avail s" and "k \<in> avail s" and "l \<noteq> k"
  shows "\<exists>t. thenM (acq l) (thenM (acq k) (thenM (rel l) (rel k))) s = Ok () t
    \<and> held t = held s \<and> avail t = avail s \<and> wf t"
proof -
  from acq_free [OF assms(1,2)] obtain t where t: "acq l s = Ok () t" "held t = insert l (held s)"
    "avail t = avail s - {l}" "wf t" by blast
  from acq_free [of t k] t assms obtain u where u: "acq k t = Ok () u"
    "held u = insert k (held t)" "avail u = avail t - {k}" "wf u" by blast
  from rel_held [of u l] t u obtain v where v: "rel l u = Ok () v"
    "held v = held u - {l}" "avail v = insert l (avail u)" "wf v" by blast
  from rel_held [of v k] t u v assms(4) obtain w where w: "rel k v = Ok () w"
    "held w = held v - {k}" "avail w = insert k (avail v)" "wf w" by blast
  have "l \<notin> held s" "k \<notin> held s" using held_unavail [OF assms(1)] assms(2,3) by blast+
  with t u v w assms(2,3) show ?thesis by (auto simp: thenM_run)
qed

text \<open>Acquiring a lock twice is caught.\<close>

lemma double_acquire:
  assumes "wf s" and "l \<in> avail s"
  shows "thenM (acq l) (acq l) s = Panic ''acquire''"
proof -
  from acq_free [OF assms] obtain t where "acq l s = Ok () t" "held t = insert l (held s)" "wf t"
    by blast
  with acq_held [of t l] show ?thesis by (simp add: thenM_run)
qed

end

section \<open>Processors and locks\<close>

text \<open>
  \<open>struct spinlock\<close> and the fields of \<open>struct cpu\<close> that locking uses. A pointer to a \<open>struct
  cpu\<close> is its index in \<open>cpus\<close>. The interrupt flag of EFLAGS is a register of the processor,
  which is named by its local APIC identifier.
\<close>

record spinlock =
  lk_locked :: u32
  lk_name :: string
  lk_cpu :: "nat option"
  lk_pcs :: "u32 list"

record cpu =
  cpu_apicid :: u8
  cpu_ncli :: int
  cpu_intena :: bool

record machine =
  cpus :: "cpu list"
  eflags_if :: "u8 \<Rightarrow> bool"
  locks :: "nat \<Rightarrow> spinlock"
  stacks :: mem

definition KERNBASE :: u32 where "KERNBASE = 0x80000000"

definition initlock :: "nat \<Rightarrow> string \<Rightarrow> machine \<Rightarrow> machine" where
  "initlock l name s = s\<lparr>locks := (locks s)(l := (locks s l)
     \<lparr>lk_name := name, lk_locked := 0, lk_cpu := None\<rparr>)\<rparr>"

fun find_cpu :: "cpu list \<Rightarrow> u8 \<Rightarrow> nat \<Rightarrow> nat option" where
  "find_cpu [] apicid i = None"
| "find_cpu (c # cs) apicid i = (if cpu_apicid c = apicid then Some i else find_cpu cs apicid (Suc i))"

definition mycpu :: "u8 \<Rightarrow> machine \<Rightarrow> (nat, machine) res" where
  "mycpu lapicid s =
     (if eflags_if s lapicid then Panic (''mycpu called with interrupts enabled'' @ [CHR 0x0A])
      else case find_cpu (cpus s) lapicid 0 of
        Some i \<Rightarrow> Ok i s
      | None \<Rightarrow> Panic (''unknown apicid'' @ [CHR 0x0A]))"

definition cpuid :: "u8 \<Rightarrow> machine \<Rightarrow> (nat, machine) res" where
  "cpuid lapicid = mycpu lapicid"

definition upd_cpu :: "nat \<Rightarrow> (cpu \<Rightarrow> cpu) \<Rightarrow> machine \<Rightarrow> machine" where
  "upd_cpu i f s = s\<lparr>cpus := (cpus s)[i := f (cpus s ! i)]\<rparr>"

definition cli :: "u8 \<Rightarrow> machine \<Rightarrow> machine" where
  "cli me s = s\<lparr>eflags_if := (eflags_if s)(me := False)\<rparr>"

definition sti :: "u8 \<Rightarrow> machine \<Rightarrow> machine" where
  "sti me s = s\<lparr>eflags_if := (eflags_if s)(me := True)\<rparr>"

definition pushcli :: "u8 \<Rightarrow> machine \<Rightarrow> (unit, machine) res" where
  "pushcli me =
     bindM (getM (\<lambda>s. eflags_if s me)) (\<lambda>eflags.
     thenM (modM (cli me))
     (bindM (mycpu me) (\<lambda>i.
     thenM (modM (\<lambda>s. if cpu_ncli (cpus s ! i) = 0
                      then upd_cpu i (\<lambda>c. c\<lparr>cpu_intena := eflags\<rparr>) s else s))
     (modM (upd_cpu i (\<lambda>c. c\<lparr>cpu_ncli := cpu_ncli c + 1\<rparr>))))))"

definition popcli :: "u8 \<Rightarrow> machine \<Rightarrow> (unit, machine) res" where
  "popcli me =
     bindM (getM (\<lambda>s. eflags_if s me)) (\<lambda>eflags.
     if eflags then panic ''popcli - interruptible'' else
     bindM (mycpu me) (\<lambda>i.
     thenM (modM (upd_cpu i (\<lambda>c. c\<lparr>cpu_ncli := cpu_ncli c - 1\<rparr>)))
     (bindM (getM (\<lambda>s. cpus s ! i)) (\<lambda>c.
     if cpu_ncli c < 0 then panic ''popcli''
     else whenM (cpu_ncli c = 0 \<and> cpu_intena c) (modM (sti me))))))"

definition holding :: "u8 \<Rightarrow> nat \<Rightarrow> machine \<Rightarrow> (bool, machine) res" where
  "holding me l =
     thenM (pushcli me)
     (bindM (mycpu me) (\<lambda>i.
     bindM (getM (\<lambda>s. lk_locked (locks s l) \<noteq> 0 \<and> lk_cpu (locks s l) = Some i)) (\<lambda>r.
     thenM (popcli me) (retM r))))"

text \<open>\<open>getcallerpcs\<close> follows the saved frame pointers on the stack, ten frames at most.\<close>

fun getcallerpcs_loop :: "mem \<Rightarrow> u32 \<Rightarrow> nat \<Rightarrow> u32 list" where
  "getcallerpcs_loop m ebp 0 = []"
| "getcallerpcs_loop m ebp (Suc k) =
     (if ebp = 0 \<or> ebp < KERNBASE \<or> ebp = 0xffffffff then replicate (Suc k) 0
      else load32 m (ebp + 4) # getcallerpcs_loop m (load32 m ebp) k)"

definition getcallerpcs :: "mem \<Rightarrow> u32 \<Rightarrow> u32 list" where
  "getcallerpcs m v = getcallerpcs_loop m (v - 8) 10"

lemma length_getcallerpcs: "length (getcallerpcs m v) = 10"
proof -
  have "length (getcallerpcs_loop m ebp k) = k" for ebp k
    by (induction k arbitrary: ebp) auto
  then show ?thesis by (simp add: getcallerpcs_def)
qed

text \<open>
  \<open>acquire\<close> in the pieces between which another processor can move: up to the spin loop, one
  turn of the loop (the exchange is atomic), and the bookkeeping after it. \<open>v\<close> is \<open>&lk\<close>, the
  address of the argument on the caller's stack.
\<close>

definition acquire_begin :: "u8 \<Rightarrow> nat \<Rightarrow> machine \<Rightarrow> (unit, machine) res" where
  "acquire_begin me l =
     thenM (pushcli me)
     (bindM (holding me l) (\<lambda>h. if h then panic ''acquire'' else retM ()))"

definition xchg_locked :: "nat \<Rightarrow> u32 \<Rightarrow> machine \<Rightarrow> (u32, machine) res" where
  "xchg_locked l new s =
     Ok (lk_locked (locks s l)) (s\<lparr>locks := (locks s)(l := (locks s l)\<lparr>lk_locked := new\<rparr>)\<rparr>)"

definition acquire_spin :: "nat \<Rightarrow> machine \<Rightarrow> (bool, machine) res" where
  "acquire_spin l = bindM (xchg_locked l 1) (\<lambda>old. retM (old = 0))"

definition acquire_end :: "u8 \<Rightarrow> u32 \<Rightarrow> nat \<Rightarrow> machine \<Rightarrow> (unit, machine) res" where
  "acquire_end me v l =
     bindM (mycpu me) (\<lambda>i.
     modM (\<lambda>s. s\<lparr>locks := (locks s)(l := (locks s l)
       \<lparr>lk_cpu := Some i, lk_pcs := getcallerpcs (stacks s) v\<rparr>)\<rparr>))"

text \<open>\<open>release\<close>: the check and the debugging fields, the atomic store, then \<open>popcli\<close>.\<close>

definition release_begin :: "u8 \<Rightarrow> nat \<Rightarrow> machine \<Rightarrow> (unit, machine) res" where
  "release_begin me l =
     bindM (holding me l) (\<lambda>h.
     if \<not> h then panic ''release''
     else modM (\<lambda>s. s\<lparr>locks := (locks s)(l := (locks s l)
       \<lparr>lk_pcs := (lk_pcs (locks s l))[0 := 0], lk_cpu := None\<rparr>)\<rparr>))"

definition release_store :: "nat \<Rightarrow> machine \<Rightarrow> (unit, machine) res" where
  "release_store l = modM (\<lambda>s. s\<lparr>locks := (locks s)(l := (locks s l)\<lparr>lk_locked := 0\<rparr>)\<rparr>)"

text \<open>
  The two routines run without interference. A lock another processor holds is never released
  in such a run, so the spin loop does not end there; the step relation below is the model
  with interference.
\<close>

definition acquire_smp :: "u8 \<Rightarrow> u32 \<Rightarrow> nat \<Rightarrow> machine \<Rightarrow> (unit, machine) res" where
  "acquire_smp me v l =
     thenM (acquire_begin me l)
     (bindM (acquire_spin l) (\<lambda>got. if got then acquire_end me v l else Spins))"

definition release_smp :: "u8 \<Rightarrow> nat \<Rightarrow> machine \<Rightarrow> (unit, machine) res" where
  "release_smp me l = thenM (release_begin me l) (thenM (release_store l) (popcli me))"

section \<open>One processor at a time\<close>

lemma find_cpu_Some:
  "find_cpu cs a k = Some i \<Longrightarrow> k \<le> i \<and> i < k + length cs \<and> cpu_apicid (cs ! (i - k)) = a"
proof (induction cs arbitrary: k)
  case Nil
  then show ?case by simp
next
  case (Cons c cs)
  show ?case
  proof (cases "cpu_apicid c = a")
    case True
    with Cons.prems show ?thesis by simp
  next
    case False
    with Cons.prems have "find_cpu cs a (Suc k) = Some i" by simp
    from Cons.IH [OF this] show ?thesis by (auto simp: nth_Cons')
  qed
qed

lemma find_cpu_upd [simp]:
  "cpu_apicid c = cpu_apicid (cs ! i) \<Longrightarrow> find_cpu (cs[i := c]) a k = find_cpu cs a k"
  by (induction cs arbitrary: i k) (auto split: nat.splits)

definition cpu_ok :: "u8 \<Rightarrow> nat \<Rightarrow> machine \<Rightarrow> bool" where
  "cpu_ok me i s \<longleftrightarrow> find_cpu (cpus s) me 0 = Some i \<and> 0 \<le> cpu_ncli (cpus s ! i)
     \<and> (0 < cpu_ncli (cpus s ! i) \<longrightarrow> \<not> eflags_if s me)"

lemma cpu_ok_index [simp]: "cpu_ok me i s \<Longrightarrow> i < length (cpus s)"
  using find_cpu_Some [of "cpus s" me 0 i] by (auto simp: cpu_ok_def)

text \<open>The processor's entry after \<open>pushcli\<close>.\<close>

definition pushed :: "bool \<Rightarrow> cpu \<Rightarrow> cpu" where
  "pushed eflags c = c\<lparr>cpu_intena := (if cpu_ncli c = 0 then eflags else cpu_intena c),
     cpu_ncli := cpu_ncli c + 1\<rparr>"

lemma pushed_sel [simp]:
  "cpu_apicid (pushed b c) = cpu_apicid c"
  "cpu_ncli (pushed b c) = cpu_ncli c + 1"
  "cpu_intena (pushed b c) = (if cpu_ncli c = 0 then b else cpu_intena c)"
  by (simp_all add: pushed_def)

lemma pushcli_run:
  assumes "cpu_ok me i s"
  shows "pushcli me s = Ok () (s\<lparr>eflags_if := (eflags_if s)(me := False),
    cpus := (cpus s)[i := pushed (eflags_if s me) (cpus s ! i)]\<rparr>)"
proof -
  have "i < length (cpus s)" "find_cpu (cpus s) me 0 = Some i"
    using assms cpu_ok_index [OF assms] by (auto simp: cpu_ok_def)
  then show ?thesis
    by (simp add: pushcli_def mycpu_def cli_def upd_cpu_def bindM_run thenM_run pushed_def)
qed

lemma popcli_run:
  assumes "cpu_ok me i s" and "0 < cpu_ncli (cpus s ! i)"
  shows "popcli me s = Ok () (s\<lparr>
    eflags_if := (eflags_if s)(me := (cpu_ncli (cpus s ! i) = 1 \<and> cpu_intena (cpus s ! i))),
    cpus := (cpus s)[i := (cpus s ! i)\<lparr>cpu_ncli := cpu_ncli (cpus s ! i) - 1\<rparr>]\<rparr>)"
proof -
  have *: "i < length (cpus s)" "find_cpu (cpus s) me 0 = Some i" "\<not> eflags_if s me"
    using assms cpu_ok_index [OF assms(1)] by (auto simp: cpu_ok_def)
  moreover have "(eflags_if s)(me := False) = eflags_if s" using *(3) by (simp add: fun_upd_idem)
  ultimately show ?thesis
    using assms(2) by (auto simp: popcli_def mycpu_def sti_def upd_cpu_def bindM_run thenM_run)
qed

lemma cpu_ok_locks [simp]: "cpu_ok me i (s\<lparr>locks := L\<rparr>) = cpu_ok me i s"
  by (simp add: cpu_ok_def)

lemma cpu_ok_pushcli:
  assumes "cpu_ok me i s" and "pushcli me s = Ok () t"
  shows "cpu_ok me i t" and "cpu_ncli (cpus t ! i) = cpu_ncli (cpus s ! i) + 1" and "locks t = locks s"
    and "\<not> eflags_if t me" and "stacks t = stacks s"
  using assms by (auto simp: pushcli_run) (auto simp: cpu_ok_def dest: find_cpu_Some)

lemma cpu_ok_popcli:
  assumes "cpu_ok me i s" and "0 < cpu_ncli (cpus s ! i)" and "popcli me s = Ok () t"
  shows "cpu_ok me i t" and "cpu_ncli (cpus t ! i) = cpu_ncli (cpus s ! i) - 1" and "locks t = locks s"
    and "stacks t = stacks s"
  using assms by (auto simp: popcli_run) (auto simp: cpu_ok_def dest: find_cpu_Some)

text \<open>\<open>holding\<close> answers the question and only records whether interrupts were on.\<close>

lemma holding_run:
  assumes "cpu_ok me i s"
  shows "holding me l s = Ok (lk_locked (locks s l) \<noteq> 0 \<and> lk_cpu (locks s l) = Some i)
    (s\<lparr>cpus := (cpus s)[i := (cpus s ! i)\<lparr>cpu_intena :=
        (if cpu_ncli (cpus s ! i) = 0 then eflags_if s me else cpu_intena (cpus s ! i))\<rparr>]\<rparr>)"
proof -
  obtain t where t: "pushcli me s = Ok () t" using pushcli_run [OF assms] by blast
  note ok = cpu_ok_pushcli [OF assms t]
  have idx: "i < length (cpus s)" using assms by simp
  have my: "mycpu me t = Ok i t"
    using ok by (simp add: mycpu_def cpu_ok_def)
  have nn: "0 \<le> cpu_ncli (cpus s ! i)" and flag: "eflags_if s me \<Longrightarrow> cpu_ncli (cpus s ! i) = 0"
    using assms by (auto simp: cpu_ok_def)
  have pos: "0 < cpu_ncli (cpus t ! i)" using ok(2) nn by simp
  have fl: "(eflags_if t)(me := cpu_ncli (cpus t ! i) = 1 \<and> cpu_intena (cpus t ! i)) = eflags_if s"
    using t idx nn flag by (auto simp: pushcli_run [OF assms] fun_eq_iff)
  have cs: "(cpus t)[i := (cpus t ! i)\<lparr>cpu_ncli := cpu_ncli (cpus t ! i) - 1\<rparr>] =
      (cpus s)[i := (cpus s ! i)\<lparr>cpu_intena :=
        (if cpu_ncli (cpus s ! i) = 0 then eflags_if s me else cpu_intena (cpus s ! i))\<rparr>]"
    using t idx by (cases "cpus s ! i") (auto simp: pushcli_run [OF assms] pushed_def)
  have "popcli me t = Ok () (t\<lparr>eflags_if := eflags_if s, cpus := (cpus s)[i := (cpus s ! i)\<lparr>cpu_intena :=
        (if cpu_ncli (cpus s ! i) = 0 then eflags_if s me else cpu_intena (cpus s ! i))\<rparr>]\<rparr>)"
    using popcli_run [OF ok(1) pos] fl cs by simp
  moreover have "t\<lparr>eflags_if := eflags_if s, cpus := cs\<rparr> = s\<lparr>cpus := cs\<rparr>" for cs
    using t by (auto simp: pushcli_run [OF assms])
  ultimately show ?thesis
    by (simp add: holding_def thenM_run bindM_run t my ok(3))
qed

definition held_smp :: "nat \<Rightarrow> machine \<Rightarrow> nat set" where
  "held_smp i s = {l. lk_locked (locks s l) \<noteq> 0 \<and> lk_cpu (locks s l) = Some i}"

definition avail_smp :: "machine \<Rightarrow> nat set" where
  "avail_smp s = {l. lk_locked (locks s l) = 0}"

text \<open>Every lock a processor holds accounts for one level of its interrupt nesting.\<close>

definition wf_smp :: "u8 \<Rightarrow> nat \<Rightarrow> machine \<Rightarrow> bool" where
  "wf_smp me i s \<longleftrightarrow> cpu_ok me i s \<and> finite (held_smp i s)
     \<and> int (card (held_smp i s)) \<le> cpu_ncli (cpus s ! i)"

lemma cpu_ok_intena:
  "cpu_ok me i (s\<lparr>cpus := (cpus s)[i := (cpus s ! i)\<lparr>cpu_intena := b\<rparr>]\<rparr>) = cpu_ok me i s"
  by (auto simp: cpu_ok_def dest: find_cpu_Some)

lemma held_smp_cong: "locks s = locks t \<Longrightarrow> held_smp i s = held_smp i t"
  by (simp add: held_smp_def)

text \<open>What \<open>acquire_begin\<close> does to a processor that does not hold the lock, and to one that does.\<close>

lemma acquire_begin_free:
  assumes "cpu_ok me i s" and "l \<notin> held_smp i s"
  shows "\<exists>t. acquire_begin me l s = Ok () t \<and> cpu_ok me i t \<and> locks t = locks s
    \<and> cpu_ncli (cpus t ! i) = cpu_ncli (cpus s ! i) + 1 \<and> \<not> eflags_if t me"
proof -
  obtain t where t: "pushcli me s = Ok () t" using pushcli_run [OF assms(1)] by blast
  note ok = cpu_ok_pushcli [OF assms(1) t]
  have idx: "i < length (cpus t)" using ok(1) by simp
  define u where "u = t\<lparr>cpus := (cpus t)[i := (cpus t ! i)\<lparr>cpu_intena :=
      (if cpu_ncli (cpus t ! i) = 0 then eflags_if t me else cpu_intena (cpus t ! i))\<rparr>]\<rparr>"
  have "(lk_locked (locks t l) \<noteq> 0 \<and> lk_cpu (locks t l) = Some i) = False"
    using assms(2) ok(3) by (simp add: held_smp_def)
  with holding_run [OF ok(1), of l] have "holding me l t = Ok False u"
    by (simp only: u_def)
  then have "acquire_begin me l s = Ok () u"
    by (simp add: acquire_begin_def thenM_run bindM_run t)
  moreover have "cpu_ok me i u" using ok(1) by (simp add: u_def cpu_ok_intena)
  ultimately show ?thesis using ok idx by (simp add: u_def)
qed

lemma acquire_begin_held:
  assumes "cpu_ok me i s" and "l \<in> held_smp i s"
  shows "acquire_begin me l s = Panic ''acquire''"
proof -
  obtain t where t: "pushcli me s = Ok () t" using pushcli_run [OF assms(1)] by blast
  note ok = cpu_ok_pushcli [OF assms(1) t]
  have "lk_locked (locks t l) \<noteq> 0 \<and> lk_cpu (locks t l) = Some i"
    using assms(2) ok(3) by (simp add: held_smp_def)
  with holding_run [OF ok(1), of l] show ?thesis
    by (simp add: acquire_begin_def thenM_run bindM_run t)
qed

lemma release_begin_held:
  assumes "cpu_ok me i s" and "l \<in> held_smp i s"
  shows "\<exists>t. release_begin me l s = Ok () t \<and> cpu_ok me i t
    \<and> locks t = (locks s)(l := (locks s l)\<lparr>lk_pcs := (lk_pcs (locks s l))[0 := 0], lk_cpu := None\<rparr>)
    \<and> cpu_ncli (cpus t ! i) = cpu_ncli (cpus s ! i)"
proof -
  have idx: "i < length (cpus s)" using assms(1) by simp
  have "lk_locked (locks s l) \<noteq> 0 \<and> lk_cpu (locks s l) = Some i"
    using assms(2) by (simp add: held_smp_def)
  with holding_run [OF assms(1), of l] idx assms(1) show ?thesis
    by (simp add: release_begin_def bindM_run cpu_ok_intena)
qed

lemma release_begin_unheld:
  assumes "cpu_ok me i s" and "l \<notin> held_smp i s"
  shows "release_begin me l s = Panic ''release''"
proof -
  have "\<not> (lk_locked (locks s l) \<noteq> 0 \<and> lk_cpu (locks s l) = Some i)"
    using assms(2) by (simp add: held_smp_def)
  with holding_run [OF assms(1), of l] show ?thesis
    by (auto simp: release_begin_def bindM_run)
qed

interpretation smp: lock_discipline "acquire_smp me v" "release_smp me" "held_smp i" avail_smp "wf_smp me i"
  for me v i
proof
  fix s l
  assume "wf_smp me i s" "l \<in> held_smp i s"
  then have "acquire_begin me l s = Panic ''acquire''"
    by (intro acquire_begin_held) (auto simp: wf_smp_def)
  then show "acquire_smp me v l s = Panic ''acquire''"
    by (simp add: acquire_smp_def thenM_run)
next
  fix s l
  assume wf: "wf_smp me i s" and free: "l \<in> avail_smp s"
  then have "l \<notin> held_smp i s" by (simp add: avail_smp_def held_smp_def)
  with wf obtain t where t: "acquire_begin me l s = Ok () t" "cpu_ok me i t" "locks t = locks s"
    "cpu_ncli (cpus t ! i) = cpu_ncli (cpus s ! i) + 1" "\<not> eflags_if t me"
    using acquire_begin_free unfolding wf_smp_def by blast
  define u where "u = t\<lparr>locks := (locks t)(l := (locks t l)
    \<lparr>lk_locked := 1, lk_cpu := Some i, lk_pcs := getcallerpcs (stacks t) v\<rparr>)\<rparr>"
  have "acquire_smp me v l s = Ok () u"
    using t free by (simp add: acquire_smp_def acquire_spin_def acquire_end_def xchg_locked_def
        thenM_run bindM_run mycpu_def cpu_ok_def avail_smp_def u_def)
  moreover have h: "held_smp i u = insert l (held_smp i s)"
    using t(3) by (auto simp: held_smp_def u_def)
  moreover have "avail_smp u = avail_smp s - {l}"
    using t(3) by (auto simp: avail_smp_def u_def)
  moreover have "wf_smp me i u"
    using wf t \<open>l \<notin> held_smp i s\<close> unfolding wf_smp_def h by (simp add: u_def)
  ultimately show "\<exists>u. acquire_smp me v l s = Ok () u \<and> held_smp i u = insert l (held_smp i s)
      \<and> avail_smp u = avail_smp s - {l} \<and> wf_smp me i u" by blast
next
  fix s l
  assume wf: "wf_smp me i s" and h: "l \<in> held_smp i s"
  from release_begin_held [of me i s l] wf h obtain t where t: "release_begin me l s = Ok () t"
    "cpu_ok me i t" "cpu_ncli (cpus t ! i) = cpu_ncli (cpus s ! i)"
    "locks t = (locks s)(l := (locks s l)\<lparr>lk_pcs := (lk_pcs (locks s l))[0 := 0], lk_cpu := None\<rparr>)"
    unfolding wf_smp_def by blast
  define u where "u = t\<lparr>locks := (locks t)(l := (locks t l)\<lparr>lk_locked := 0\<rparr>)\<rparr>"
  have c: "0 < card (held_smp i s)" using wf h by (auto simp: wf_smp_def card_gt_0_iff)
  then have pos: "0 < cpu_ncli (cpus u ! i)" using wf t(3) by (simp add: wf_smp_def u_def)
  have ok: "cpu_ok me i u" using t(2) by (simp add: u_def)
  obtain w where w: "popcli me u = Ok () w" using popcli_run [OF ok pos] by blast
  note ok' = cpu_ok_popcli [OF ok pos w]
  have "release_smp me l s = Ok () w"
    using t(1) w by (simp add: release_smp_def release_store_def thenM_run u_def)
  moreover have hw: "held_smp i w = held_smp i s - {l}"
    using t(4) ok'(3) by (auto simp: held_smp_def u_def)
  moreover have "avail_smp w = insert l (avail_smp s)"
    using t(4) ok'(3) by (auto simp: avail_smp_def u_def)
  moreover have "wf_smp me i w"
    using wf h c ok'(1,2) t(3) unfolding wf_smp_def hw by (simp add: u_def)
  ultimately show "\<exists>w. release_smp me l s = Ok () w \<and> held_smp i w = held_smp i s - {l}
      \<and> avail_smp w = insert l (avail_smp s) \<and> wf_smp me i w" by blast
next
  fix s l
  assume "wf_smp me i s" "l \<notin> held_smp i s"
  then have "release_begin me l s = Panic ''release''"
    by (intro release_begin_unheld) (auto simp: wf_smp_def)
  then show "release_smp me l s = Panic ''release''"
    by (simp add: release_smp_def thenM_run)
next
  fix s
  show "held_smp i s \<inter> avail_smp s = {}"
    by (auto simp: held_smp_def avail_smp_def)
qed

section \<open>Any number of processors\<close>

text \<open>
  Where a processor is in the code of a lock. \<open>Got l\<close>: its exchange returned 0, but it has not
  yet recorded itself in \<open>lk->cpu\<close>; \<open>Releasing l\<close>: it has cleared \<open>lk->cpu\<close>, but not yet
  \<open>lk->locked\<close>.
\<close>

datatype lock_pc = Elsewhere | Spinning nat | Got nat | Releasing nat

type_synonym smp_state = "machine \<times> (u8 \<Rightarrow> lock_pc)"

inductive lock_step :: "smp_state \<Rightarrow> smp_state \<Rightarrow> bool" where
  begin_acquire: "pc me = Elsewhere \<Longrightarrow> acquire_begin me l s = Ok () t \<Longrightarrow>
     lock_step (s, pc) (t, pc(me := Spinning l))"
| spin: "pc me = Spinning l \<Longrightarrow> acquire_spin l s = Ok False t \<Longrightarrow> lock_step (s, pc) (t, pc)"
| win: "pc me = Spinning l \<Longrightarrow> acquire_spin l s = Ok True t \<Longrightarrow>
     lock_step (s, pc) (t, pc(me := Got l))"
| end_acquire: "pc me = Got l \<Longrightarrow> acquire_end me v l s = Ok () t \<Longrightarrow>
     lock_step (s, pc) (t, pc(me := Elsewhere))"
| begin_release: "pc me = Elsewhere \<Longrightarrow> release_begin me l s = Ok () t \<Longrightarrow>
     lock_step (s, pc) (t, pc(me := Releasing l))"
| store: "pc me = Releasing l \<Longrightarrow> release_store l s = Ok () t \<Longrightarrow> popcli me t = Ok () u \<Longrightarrow>
     lock_step (s, pc) (u, pc(me := Elsewhere))"

inductive_cases lock_stepE: "lock_step (s, pc) (t, pc')"

text \<open>A start: no lock is taken and no processor is in the code of a lock.\<close>

definition lock_start :: "smp_state \<Rightarrow> bool" where
  "lock_start x \<longleftrightarrow> (\<forall>l. lk_locked (locks (fst x) l) = 0 \<and> lk_cpu (locks (fst x) l) = None)
     \<and> (\<forall>me. snd x me = Elsewhere)"

inductive lock_reach :: "smp_state \<Rightarrow> bool" where
  start: "lock_start x \<Longrightarrow> lock_reach x"
| step: "lock_reach x \<Longrightarrow> lock_step x y \<Longrightarrow> lock_reach y"

text \<open>The processor \<open>me\<close> is inside the critical section of \<open>l\<close>.\<close>

definition inside :: "smp_state \<Rightarrow> u8 \<Rightarrow> nat \<Rightarrow> bool" where
  "inside x me l \<longleftrightarrow> snd x me = Got l \<or> snd x me = Releasing l
     \<or> (\<exists>i. lk_cpu (locks (fst x) l) = Some i \<and> find_cpu (cpus (fst x)) me 0 = Some i)"

definition lock_inv :: "smp_state \<Rightarrow> bool" where
  "lock_inv x \<longleftrightarrow>
     (\<forall>me l. inside x me l \<longrightarrow> lk_locked (locks (fst x) l) \<noteq> 0)
   \<and> (\<forall>me me' l. inside x me l \<longrightarrow> inside x me' l \<longrightarrow> me = me')
   \<and> (\<forall>me l. snd x me = Got l \<or> snd x me = Releasing l \<longrightarrow> lk_cpu (locks (fst x) l) = None)
   \<and> (\<forall>l. lk_locked (locks (fst x) l) = 0 \<longrightarrow> lk_cpu (locks (fst x) l) = None)"

text \<open>The parts of \<open>acquire\<close> and \<open>release\<close> that only nest interrupts leave every lock alone.\<close>

definition same_locks :: "machine \<Rightarrow> machine \<Rightarrow> bool" where
  "same_locks s t \<longleftrightarrow> locks t = locks s \<and> (\<forall>a. find_cpu (cpus t) a 0 = find_cpu (cpus s) a 0)"

lemma same_locks_refl: "same_locks s s"
  by (simp add: same_locks_def)

lemma same_locks_upd_cpu [simp]:
  "(\<And>c. cpu_apicid (f c) = cpu_apicid c) \<Longrightarrow> same_locks s (upd_cpu i f t) = same_locks s t"
  by (simp add: same_locks_def upd_cpu_def)

lemma same_locks_eflags [simp]:
  "same_locks s (cli me t) = same_locks s t" "same_locks s (sti me t) = same_locks s t"
  by (simp_all add: same_locks_def cli_def sti_def)

lemma pushcli_same_locks: "pushcli me s = Ok () t \<Longrightarrow> same_locks s t"
  by (auto simp: pushcli_def bindM_Ok_iff thenM_Ok_iff mycpu_def same_locks_refl
      split: if_splits option.splits)

lemma popcli_same_locks: "popcli me s = Ok () t \<Longrightarrow> same_locks s t"
  by (auto simp: popcli_def bindM_Ok_iff thenM_Ok_iff mycpu_def same_locks_refl
      split: if_splits option.splits)

lemma holding_same_locks:
  "holding me l s = Ok r t \<Longrightarrow> same_locks s t \<and> (\<exists>i. find_cpu (cpus s) me 0 = Some i
     \<and> r = (lk_locked (locks s l) \<noteq> 0 \<and> lk_cpu (locks s l) = Some i))"
  by (fastforce simp: holding_def bindM_Ok_iff thenM_Ok_iff mycpu_def same_locks_def
      split: if_splits option.splits dest!: pushcli_same_locks popcli_same_locks)

lemma acquire_begin_same_locks: "acquire_begin me l s = Ok () t \<Longrightarrow> same_locks s t"
  by (fastforce simp: acquire_begin_def bindM_Ok_iff thenM_Ok_iff same_locks_def
      split: if_splits dest!: pushcli_same_locks holding_same_locks)

lemma inside_cong:
  "same_locks s t \<Longrightarrow> inside (t, pc) me l = inside (s, pc) me l"
  by (simp add: inside_def same_locks_def)

lemma lock_invD:
  assumes "lock_inv (s, pc)"
  shows "inside (s, pc) me l \<Longrightarrow> lk_locked (locks s l) \<noteq> 0"
    and "inside (s, pc) me l \<Longrightarrow> inside (s, pc) me' l \<Longrightarrow> me = me'"
    and "pc me = Got l \<Longrightarrow> lk_cpu (locks s l) = None"
    and "pc me = Releasing l \<Longrightarrow> lk_cpu (locks s l) = None"
    and "lk_locked (locks s l) = 0 \<Longrightarrow> lk_cpu (locks s l) = None"
  using assms unfolding lock_inv_def fst_conv snd_conv by blast+

lemma lock_invI:
  assumes "\<And>me l. inside (s, pc) me l \<Longrightarrow> lk_locked (locks s l) \<noteq> 0"
    and "\<And>me me' l. inside (s, pc) me l \<Longrightarrow> inside (s, pc) me' l \<Longrightarrow> me = me'"
    and "\<And>me l. pc me = Got l \<or> pc me = Releasing l \<Longrightarrow> lk_cpu (locks s l) = None"
    and "\<And>l. lk_locked (locks s l) = 0 \<Longrightarrow> lk_cpu (locks s l) = None"
  shows "lock_inv (s, pc)"
  using assms unfolding lock_inv_def fst_conv snd_conv by blast

lemma lock_inv_start: "lock_start x \<Longrightarrow> lock_inv x"
  by (auto simp: lock_start_def lock_inv_def inside_def)

lemma lock_inv_step_acquire:
  assumes "lock_inv (s, pc)" and "pc me = Elsewhere" and "same_locks s t"
  shows "lock_inv (t, pc(me := Spinning l))"
proof -
  have "inside (t, pc(me := Spinning l)) a k = inside (s, pc) a k" for a k
    using assms(2,3) by (auto simp: inside_def same_locks_def)
  with assms show ?thesis by (auto simp: lock_inv_def same_locks_def)
qed

lemma find_cpu_inj: "find_cpu cs a k = Some i \<Longrightarrow> find_cpu cs b k = Some i \<Longrightarrow> a = b"
  by (auto dest!: find_cpu_Some)

text \<open>One lemma for the four steps that write a lock: what the step makes of that one lock.\<close>

lemma lock_inv_change:
  assumes inv: "lock_inv (s, pc)"
    and ins: "\<And>a k. inside (t, pc') a k \<longleftrightarrow> (if k = l then P a else inside (s, pc) a k)"
    and lk: "locks t = (locks s)(l := L)"
    and P: "\<And>a b. P a \<Longrightarrow> P b \<Longrightarrow> a = b" "\<And>a. P a \<Longrightarrow> lk_locked L \<noteq> 0"
    and L: "lk_locked L = 0 \<Longrightarrow> lk_cpu L = None"
    and at: "\<And>a k. pc' a = Got k \<or> pc' a = Releasing k \<Longrightarrow>
      (if k = l then lk_cpu L = None else pc a = Got k \<or> pc a = Releasing k)"
  shows "lock_inv (t, pc')"
proof (rule lock_invI)
  show "lk_locked (locks t k) \<noteq> 0" if "inside (t, pc') a k" for a k
    using that P(2) [of a] lock_invD(1) [OF inv, of a k] by (auto simp: ins lk split: if_splits)
  show "a = b" if "inside (t, pc') a k" "inside (t, pc') b k" for a b k
    using that P(1) [of a b] lock_invD(2) [OF inv, of a k b] by (auto simp: ins split: if_splits)
  show "lk_cpu (locks t k) = None" if "pc' a = Got k \<or> pc' a = Releasing k" for a k
    using at [OF that] lock_invD(3,4) [OF inv, of a k] by (auto simp: lk split: if_splits)
  show "lk_cpu (locks t k) = None" if "lk_locked (locks t k) = 0" for k
    using that L lock_invD(5) [OF inv, of k] by (auto simp: lk split: if_splits)
qed

lemma lock_inv_step_win:
  assumes inv: "lock_inv (s, pc)" and pc: "pc me = Spinning l"
    and spin: "acquire_spin l s = Ok True t"
  shows "lock_inv (t, pc(me := Got l))"
proof -
  from spin have free: "lk_locked (locks s l) = 0"
    and t: "t = s\<lparr>locks := (locks s)(l := (locks s l)\<lparr>lk_locked := 1\<rparr>)\<rparr>"
    by (auto simp: acquire_spin_def xchg_locked_def bindM_Ok_iff)
  with inv have none: "\<not> inside (s, pc) a l" for a by (auto simp: lock_inv_def)
  have ins: "inside (t, pc(me := Got l)) a k \<longleftrightarrow> (if k = l then a = me else inside (s, pc) a k)" for a k
    using none [of a] pc by (auto simp: inside_def t)
  have lk: "locks t = (locks s)(l := (locks s l)\<lparr>lk_locked := 1\<rparr>)" by (simp add: t)
  show ?thesis
    by (rule lock_inv_change [OF inv ins lk])
      (use pc lock_invD(5) [OF inv free] in \<open>auto split: if_splits\<close>)
qed

lemma lock_inv_step_end_acquire:
  assumes inv: "lock_inv (s, pc)" and pc: "pc me = Got l" and run: "acquire_end me v l s = Ok () t"
  shows "lock_inv (t, pc(me := Elsewhere))"
proof -
  from run obtain i where i: "find_cpu (cpus s) me 0 = Some i"
    and t: "t = s\<lparr>locks := (locks s)(l := (locks s l)
       \<lparr>lk_cpu := Some i, lk_pcs := getcallerpcs (stacks s) v\<rparr>)\<rparr>"
    by (auto simp: acquire_end_def bindM_Ok_iff mycpu_def split: if_splits option.splits)
  have me: "inside (s, pc) me l" using pc by (simp add: inside_def)
  have only: "a = me" if "inside (s, pc) a l" for a
    using lock_invD(2) [OF inv that me] .
  have other: "pc a \<noteq> Got l" "pc a \<noteq> Releasing l" if "a \<noteq> me" for a
    using only [of a] that by (auto simp: inside_def)
  have fi: "find_cpu (cpus s) a 0 = Some i \<longleftrightarrow> a = me" for a
    using i find_cpu_inj [of "cpus s" a 0 i me] by blast
  have ins: "inside (t, pc(me := Elsewhere)) a k \<longleftrightarrow> (if k = l then a = me else inside (s, pc) a k)" for a k
    using other [of a] fi [of a] pc by (cases "a = me") (simp_all add: inside_def t)
  have lk: "locks t = (locks s)(l := (locks s l)
       \<lparr>lk_cpu := Some i, lk_pcs := getcallerpcs (stacks s) v\<rparr>)" by (simp add: t)
  show ?thesis
    by (rule lock_inv_change [OF inv ins lk])
      (use other lock_invD(1) [OF inv me] in \<open>auto split: if_splits\<close>)
qed

lemma lock_inv_step_begin_release:
  assumes inv: "lock_inv (s, pc)" and pc: "pc me = Elsewhere" and run: "release_begin me l s = Ok () t"
  shows "lock_inv (t, pc(me := Releasing l))"
proof -
  from run obtain u i where u: "same_locks s u" "find_cpu (cpus s) me 0 = Some i"
      "lk_cpu (locks s l) = Some i"
    and t: "t = u\<lparr>locks := (locks u)(l := (locks u l)
       \<lparr>lk_pcs := (lk_pcs (locks u l))[0 := 0], lk_cpu := None\<rparr>)\<rparr>"
    by (auto simp: release_begin_def bindM_Ok_iff split: if_splits dest!: holding_same_locks)
  have me: "inside (s, pc) me l" using u by (simp add: inside_def)
  have only: "a = me" if "inside (s, pc) a l" for a
    using lock_invD(2) [OF inv that me] .
  have other: "pc a \<noteq> Got l" "pc a \<noteq> Releasing l" if "a \<noteq> me" for a
    using only [of a] that by (auto simp: inside_def)
  have ins: "inside (t, pc(me := Releasing l)) a k \<longleftrightarrow> (if k = l then a = me else inside (s, pc) a k)" for a k
    using other [of a] pc u by (cases "a = me") (auto simp: inside_def t same_locks_def)
  have lk: "locks t = (locks s)(l := (locks s l)
       \<lparr>lk_pcs := (lk_pcs (locks s l))[0 := 0], lk_cpu := None\<rparr>)"
    using u(1) by (simp add: same_locks_def t)
  show ?thesis
    by (rule lock_inv_change [OF inv ins lk])
      (use lock_invD(1) [OF inv me] in \<open>auto split: if_splits\<close>)
qed

lemma lock_inv_step_store:
  assumes inv: "lock_inv (s, pc)" and pc: "pc me = Releasing l"
    and run: "release_store l s = Ok () t" "popcli me t = Ok () u"
  shows "lock_inv (u, pc(me := Elsewhere))"
proof -
  have t: "t = s\<lparr>locks := (locks s)(l := (locks s l)\<lparr>lk_locked := 0\<rparr>)\<rparr>"
    using run(1) by (simp add: release_store_def)
  have u: "same_locks t u" using run(2) by (rule popcli_same_locks)
  have me: "inside (s, pc) me l" using pc by (simp add: inside_def)
  have only: "a = me" if "inside (s, pc) a l" for a
    using lock_invD(2) [OF inv that me] .
  have none: "lk_cpu (locks s l) = None" using lock_invD(4) [OF inv pc] .
  have other: "pc a \<noteq> Got l" "pc a \<noteq> Releasing l" if "a \<noteq> me" for a
    using only [of a] that by (auto simp: inside_def)
  have ins: "inside (u, pc(me := Elsewhere)) a k \<longleftrightarrow> (if k = l then False else inside (s, pc) a k)" for a k
    using other [of a] pc u none by (cases "a = me") (auto simp: inside_def t same_locks_def)
  have lk: "locks u = (locks s)(l := (locks s l)\<lparr>lk_locked := 0\<rparr>)"
    using u by (simp add: same_locks_def t)
  show ?thesis
    by (rule lock_inv_change [OF inv ins lk]) (use none other in \<open>auto split: if_splits\<close>)
qed

lemma lock_inv_step: "lock_step x y \<Longrightarrow> lock_inv x \<Longrightarrow> lock_inv y"
proof (induction rule: lock_step.induct)
  case (begin_acquire pc me l s t)
  then show ?case by (blast intro: lock_inv_step_acquire acquire_begin_same_locks)
next
  case (spin pc me l s t)
  then have "t = s\<lparr>locks := (locks s)(l := (locks s l)\<lparr>lk_locked := 1\<rparr>)\<rparr>" "lk_locked (locks s l) \<noteq> 0"
    by (auto simp: acquire_spin_def xchg_locked_def bindM_Ok_iff)
  then show ?case using spin.prems by (auto simp: lock_inv_def inside_def)
next
  case (win pc me l s t)
  then show ?case by (blast intro: lock_inv_step_win)
next
  case (end_acquire pc me l v s t)
  then show ?case by (blast intro: lock_inv_step_end_acquire)
next
  case (begin_release pc me l s t)
  then show ?case by (blast intro: lock_inv_step_begin_release)
next
  case (store pc me l s t u)
  then show ?case by (blast intro: lock_inv_step_store)
qed

lemma lock_inv_reach: "lock_reach x \<Longrightarrow> lock_inv x"
  by (induction rule: lock_reach.induct) (auto intro: lock_inv_start lock_inv_step)

section \<open>Properties of the locks\<close>

text \<open>
  C4: Mutual exclusion. In every state that any number of processors reach by running \<open>acquire\<close>
  and \<open>release\<close> on the kernel's locks, interleaved at the granularity of their accesses to the
  lock word, at most one processor is between its winning exchange and its releasing store on a
  given lock, and the lock word is not zero meanwhile.
\<close>
theorem mutual_exclusion:
  assumes "lock_reach x" and "inside x me l"
  shows "lk_locked (locks (fst x) l) \<noteq> 0 \<and> (\<forall>other. inside x other l \<longrightarrow> other = me)"
  using lock_inv_reach [OF assms(1)] assms(2) unfolding lock_inv_def by blast

text \<open>A machine of two processors with its locks free.\<close>

definition two_cpus :: machine where
  "two_cpus = \<lparr>cpus = [\<lparr>cpu_apicid = 0, cpu_ncli = 0, cpu_intena = False\<rparr>,
                        \<lparr>cpu_apicid = 1, cpu_ncli = 0, cpu_intena = False\<rparr>],
     eflags_if = (\<lambda>_. True),
     locks = (\<lambda>_. \<lparr>lk_locked = 0, lk_name = [], lk_cpu = None, lk_pcs = replicate 10 0\<rparr>),
     stacks = (\<lambda>_. 0)\<rparr>"

theorem mutual_exclusion_witness:
  "\<exists>x. lock_reach x \<and> inside x 1 7 \<and> \<not> inside x 0 7"
proof -
  have ok: "cpu_ok 1 1 two_cpus" "7 \<notin> held_smp 1 two_cpus"
    by (simp_all add: cpu_ok_def held_smp_def two_cpus_def)
  obtain t where t: "acquire_begin 1 7 two_cpus = Ok () t" "locks t = locks two_cpus"
    using acquire_begin_free [OF ok] by blast
  define u where "u = t\<lparr>locks := (locks t)(7 := (locks t 7)\<lparr>lk_locked := 1\<rparr>)\<rparr>"
  have win: "acquire_spin 7 t = Ok True u"
    using t(2) by (simp add: acquire_spin_def xchg_locked_def bindM_run u_def two_cpus_def)
  have "lock_reach (two_cpus, \<lambda>_. Elsewhere)"
    by (rule lock_reach.start) (simp add: lock_start_def two_cpus_def)
  from lock_reach.step [OF this lock_step.begin_acquire [OF _ t(1)]]
  have "lock_reach (t, (\<lambda>_. Elsewhere)(1 := Spinning 7))" by simp
  from lock_reach.step [OF this lock_step.win [of _ 1, OF _ win]]
  have r: "lock_reach (u, (\<lambda>_. Elsewhere)(1 := Got 7))" by simp
  have i: "inside (u, (\<lambda>_. Elsewhere)(1 := Got 7)) 1 7" by (simp add: inside_def)
  with mutual_exclusion [OF r i] r show ?thesis
    by (intro exI [of _ "(u, (\<lambda>_. Elsewhere)(1 := Got 7))"]) auto
qed

text \<open>
  Interrupts stay off while a processor holds a lock. From a state whose interrupt nesting
  accounts for the locks held, a section \<open>acquire\<close> \<open>release\<close> of a free lock, run without
  interference, turns interrupts off inside and leaves the locks and the nesting as they were;
  acquiring a lock the processor already holds panics instead of deadlocking.
\<close>
theorem critical_section:
  assumes "wf_smp me i s" and "l \<in> avail_smp s"
  shows "\<exists>t u. acquire_smp me v l s = Ok () t \<and> held_smp i t = insert l (held_smp i s) \<and> \<not> eflags_if t me
      \<and> acquire_smp me v l t = Panic ''acquire''
      \<and> release_smp me l t = Ok () u \<and> held_smp i u = held_smp i s \<and> avail_smp u = avail_smp s"
proof -
  obtain t where t: "acquire_smp me v l s = Ok () t" "held_smp i t = insert l (held_smp i s)"
      "avail_smp t = avail_smp s - {l}" "wf_smp me i t"
    using smp.acq_free [OF assms] by blast
  have "0 < card (held_smp i t)" using t(2,4) by (auto simp: wf_smp_def card_gt_0_iff)
  then have "\<not> eflags_if t me" using t(4) by (auto simp: wf_smp_def cpu_ok_def)
  moreover have "l \<notin> held_smp i s" using smp.held_unavail [OF assms(1)] assms(2) by blast
  moreover obtain u where "release_smp me l t = Ok () u" "held_smp i u = held_smp i t - {l}"
      "avail_smp u = insert l (avail_smp t)"
    using smp.rel_held [OF t(4), of l] t(2) by blast
  ultimately show ?thesis using t smp.acq_held [OF t(4), of l v] assms(2) by auto
qed

theorem critical_section_witness:
  "\<exists>t u. acquire_smp 0 0x80100000 3 two_cpus = Ok () t \<and> \<not> eflags_if t 0
     \<and> release_smp 0 3 t = Ok () u \<and> held_smp 0 u = {}"
proof -
  have "wf_smp 0 0 two_cpus" "3 \<in> avail_smp two_cpus" "held_smp 0 two_cpus = {}"
    by (simp_all add: wf_smp_def cpu_ok_def held_smp_def avail_smp_def two_cpus_def)
  with critical_section [of 0 0 two_cpus 3 "0x80100000"] show ?thesis by metis
qed

end
