(* ===== verification/Kalloc.thy ===== *)
theory Kalloc
  imports Spinlock
begin

text \<open>
  The state the kernel's handlers run in, seen from one processor, and the physical page
  allocator of \<open>kalloc.c\<close>. The free list is the one of the code: a chain of \<open>next\<close> pointers
  stored in the first word of every free page. \<open>flist\<close> abstracts it to a list, and the locale
  \<open>page_allocator\<close> is the contract its clients (page tables, kernel stacks, pipes) rely on.
\<close>

section \<open>The kernel as one processor sees it\<close>

text \<open>
  Spinlocks of the kernel. \<open>k_held\<close> is the set of locks the processor holds: between two steps
  of a handler no other processor touches what those locks protect, which is mutual exclusion,
  proved of the code of the locks in the theory before. \<open>k_end\<close> and \<open>k_data\<close> are the linker's
  symbols \<open>end\<close> and \<open>data\<close>, \<open>k_kpgdir\<close> and \<open>k_cr3\<close> the kernel's page directory and the page
  table register. \<open>k_out\<close> is what \<open>consputc\<close> has put on the console and \<open>k_locking\<close> is
  \<open>cons.locking\<close>.
\<close>

datatype lockid =
    L_ptable | L_kmem | L_bcache | L_log | L_icache | L_ftable | L_ticks | L_cons | L_ide
  | L_buf nat | L_inode nat | L_pipe u32

record kstate =
  k_held :: "lockid set"
  k_mem :: mem
  k_freelist :: u32
  k_use_lock :: bool
  k_end :: u32
  k_data :: u32
  k_out :: string
  k_locking :: bool
  k_kpgdir :: u32
  k_cr3 :: u32

definition acquire :: "lockid \<Rightarrow> 'z kstate_scheme \<Rightarrow> (unit, 'z kstate_scheme) res" where
  "acquire l s = (if l \<in> k_held s then Panic ''acquire'' else Ok () (s\<lparr>k_held := insert l (k_held s)\<rparr>))"

definition release :: "lockid \<Rightarrow> 'z kstate_scheme \<Rightarrow> (unit, 'z kstate_scheme) res" where
  "release l s = (if l \<notin> k_held s then Panic ''release'' else Ok () (s\<lparr>k_held := k_held s - {l}\<rparr>))"

text \<open>The processor's view obeys the discipline that the code of the locks was shown to obey.\<close>

interpretation kl: lock_discipline
  "acquire :: lockid \<Rightarrow> 'z kstate_scheme \<Rightarrow> (unit, 'z kstate_scheme) res" release
  k_held "\<lambda>s. - k_held s" "\<lambda>_. True"
  by unfold_locales (auto simp: acquire_def release_def)

named_theorems lock_simps \<open>acquire and release on known lock sets\<close>

lemma acquire_free [lock_simps]: "l \<notin> k_held s \<Longrightarrow> acquire l s = Ok () (s\<lparr>k_held := insert l (k_held s)\<rparr>)"
  by (simp add: acquire_def)

lemma release_held [lock_simps]: "l \<in> k_held s \<Longrightarrow> release l s = Ok () (s\<lparr>k_held := k_held s - {l}\<rparr>)"
  by (simp add: release_def)

lemma acquire_Ok_iff: "acquire l s = Ok u t \<longleftrightarrow> l \<notin> k_held s \<and> t = s\<lparr>k_held := insert l (k_held s)\<rparr>"
  by (auto simp: acquire_def)

lemma release_Ok_iff: "release l s = Ok u t \<longleftrightarrow> l \<in> k_held s \<and> t = s\<lparr>k_held := k_held s - {l}\<rparr>"
  by (auto simp: release_def)

section \<open>The page allocator\<close>

definition PGSIZE :: u32 where "PGSIZE = 4096"
definition PHYSTOP :: u32 where "PHYSTOP = 0xE000000"
definition EXTMEM :: u32 where "EXTMEM = 0x100000"
definition DEVSPACE :: u32 where "DEVSPACE = 0xFE000000"
definition KERNLINK :: u32 where "KERNLINK = KERNBASE + EXTMEM"

definition V2P :: "u32 \<Rightarrow> u32" where "V2P a = a - KERNBASE"
definition P2V :: "u32 \<Rightarrow> u32" where "P2V a = a + KERNBASE"

definition PGROUNDUP :: "u32 \<Rightarrow> u32" where "PGROUNDUP sz = (sz + PGSIZE - 1) AND NOT (PGSIZE - 1)"
definition PGROUNDDOWN :: "u32 \<Rightarrow> u32" where "PGROUNDDOWN a = a AND NOT (PGSIZE - 1)"

definition kfree :: "u32 \<Rightarrow> 'z kstate_scheme \<Rightarrow> (unit, 'z kstate_scheme) res" where
  "kfree v =
     bindM (getM (\<lambda>s. v mod PGSIZE \<noteq> 0 \<or> v < k_end s \<or> V2P v \<ge> PHYSTOP)) (\<lambda>bad.
     if bad then panic ''kfree'' else
     thenM (modM (\<lambda>s. s\<lparr>k_mem := memset v 1 PGSIZE (k_mem s)\<rparr>))
     (bindM (getM k_use_lock) (\<lambda>use_lock.
     thenM (whenM use_lock (acquire L_kmem))
     (thenM (modM (\<lambda>s. s\<lparr>k_mem := store32 v (k_freelist s) (k_mem s)\<rparr>))
     (thenM (modM (\<lambda>s. s\<lparr>k_freelist := v\<rparr>))
     (whenM use_lock (release L_kmem)))))))"

definition kalloc :: "'z kstate_scheme \<Rightarrow> (u32, 'z kstate_scheme) res" where
  "kalloc =
     bindM (getM k_use_lock) (\<lambda>use_lock.
     thenM (whenM use_lock (acquire L_kmem))
     (bindM (getM k_freelist) (\<lambda>r.
     thenM (whenM (r \<noteq> 0) (modM (\<lambda>s. s\<lparr>k_freelist := load32 (k_mem s) r\<rparr>)))
     (thenM (whenM use_lock (release L_kmem))
     (retM r)))))"

text \<open>
  The loop of \<open>freerange\<close>. Addresses wrap around, so the model bounds the number of turns by the
  number of pages of the address space; that bound is never reached, since \<open>kfree\<close> refuses the
  pages below \<open>end\<close>.
\<close>

fun freerange_loop :: "nat \<Rightarrow> u32 \<Rightarrow> u32 \<Rightarrow> 'z kstate_scheme \<Rightarrow> (unit, 'z kstate_scheme) res" where
  "freerange_loop 0 p vend = Spins"
| "freerange_loop (Suc fuel) p vend =
     (if p + PGSIZE \<le> vend then thenM (kfree p) (freerange_loop fuel (p + PGSIZE) vend)
      else retM ())"

definition freerange :: "u32 \<Rightarrow> u32 \<Rightarrow> 'z kstate_scheme \<Rightarrow> (unit, 'z kstate_scheme) res" where
  "freerange vstart vend = freerange_loop (2 ^ 20) (PGROUNDUP vstart) vend"

definition kinit1 :: "u32 \<Rightarrow> u32 \<Rightarrow> 'z kstate_scheme \<Rightarrow> (unit, 'z kstate_scheme) res" where
  "kinit1 vstart vend =
     thenM (modM (\<lambda>s. s\<lparr>k_held := k_held s - {L_kmem}\<rparr>))
     (thenM (modM (\<lambda>s. s\<lparr>k_use_lock := False\<rparr>))
     (freerange vstart vend))"

definition kinit2 :: "u32 \<Rightarrow> u32 \<Rightarrow> 'z kstate_scheme \<Rightarrow> (unit, 'z kstate_scheme) res" where
  "kinit2 vstart vend =
     thenM (freerange vstart vend)
     (modM (\<lambda>s. s\<lparr>k_use_lock := True\<rparr>))"

section \<open>Pages\<close>

definition page_aligned :: "u32 \<Rightarrow> bool" where
  "page_aligned a \<longleftrightarrow> unat a mod 4096 = 0"

lemma page_aligned_mod: "a mod PGSIZE = 0 \<longleftrightarrow> page_aligned a"
proof -
  have "unat (a mod PGSIZE) = unat a mod 4096"
    by (simp add: PGSIZE_def unat_mod_distrib)
  then show ?thesis
    by (metis page_aligned_def unat_0 unat_eq_0)
qed

lemma dist_aligned: "page_aligned a \<Longrightarrow> page_aligned b \<Longrightarrow> dist a b mod 4096 = 0"
proof -
  assume "page_aligned a" "page_aligned b"
  then have "4096 dvd unat a" "4096 dvd unat b" by (auto simp: page_aligned_def mod_eq_0_iff_dvd)
  moreover have "unat (a - b) = (if unat b \<le> unat a then unat a - unat b else unat a + 2 ^ 32 - unat b)"
    by (simp add: unat_sub_if_size word_size)
  moreover have "(4096 :: nat) dvd 2 ^ 32" by simp
  ultimately have "4096 dvd unat (a - b)"
    by (simp only: dvd_add dvd_diff_nat split: if_split) simp
  then show ?thesis
    unfolding dist_def by (simp only: mod_eq_0_iff_dvd)
qed

text \<open>Addresses of one page are a page away from every other page.\<close>

lemma dist_other_page:
  assumes "page_aligned a" and "page_aligned b" and "a \<noteq> b" and "k < 4096"
  shows "4096 \<le> dist (a + of_nat k) b"
proof -
  from dist_aligned [OF assms(1,2)] obtain q where q: "dist a b = 4096 * q"
    by (auto simp: mod_eq_0_iff_dvd dvd_def)
  with assms(3) have "0 < q" by (metis dist_eq_0 gr0I mult_0_right)
  have "4096 * q < 2 ^ 32" using dist_lt [of a b] q by simp
  then have "4096 * q + k < 2 ^ 32" using assms(4) by simp
  moreover have "dist (a + of_nat k) b = unat ((a - b) + of_nat k)"
    by (simp add: dist_def algebra_simps)
  moreover have "unat (of_nat k :: u32) = k" using assms(4) by (simp add: unat_of_nat)
  ultimately have "dist (a + of_nat k) b = 4096 * q + k"
    using q unat_add_small [of "a - b" "of_nat k"] by (simp only: dist_def)
  with \<open>0 < q\<close> show ?thesis by simp
qed

lemma dist_same_page: "k < 4096 \<Longrightarrow> dist (a + of_nat k) a = k"
  by simp

lemma load32_cong:
  "(\<And>k. k < 4 \<Longrightarrow> m (a + of_nat k) = m' (a + of_nat k)) \<Longrightarrow> load32 m a = load32 m' a"
proof -
  assume *: "\<And>k. k < 4 \<Longrightarrow> m (a + of_nat k) = m' (a + of_nat k)"
  show ?thesis using * [of 0] * [of 1] * [of 2] * [of 3] by (simp add: load32_def)
qed

lemma store32_other:
  "(\<And>k. k < 4 \<Longrightarrow> a \<noteq> b + of_nat k) \<Longrightarrow> store32 b w m a = m a"
proof -
  assume *: "\<And>k. k < 4 \<Longrightarrow> a \<noteq> b + of_nat k"
  show ?thesis using * [of 0] * [of 1] * [of 2] * [of 3] by (simp add: store32_def)
qed

text \<open>A store into a page and a memset of a page leave the words of other pages alone.\<close>

lemma store32_other_page:
  assumes "page_aligned a" and "page_aligned b" and "a \<noteq> b" and "i < 4096" and "j + 4 \<le> 4096"
  shows "store32 (b + of_nat j) w m (a + of_nat i) = m (a + of_nat i)"
proof (rule store32_other)
  fix k :: nat
  assume "k < 4"
  show "a + of_nat i \<noteq> b + of_nat j + of_nat k"
  proof
    assume "a + of_nat i = b + of_nat j + of_nat k"
    then have "a + of_nat i = b + of_nat (j + k)" by (simp add: add.assoc)
    moreover have "dist (b + of_nat (j + k)) b < 4096"
      using \<open>k < 4\<close> assms(5) dist_same_page [of "j + k" b] by simp
    ultimately show False using dist_other_page [OF assms(1-4)] by simp
  qed
qed

lemma memset_other_page:
  assumes "page_aligned a" and "page_aligned b" and "a \<noteq> b" and "i < 4096"
  shows "memset b c PGSIZE m (a + of_nat i) = m (a + of_nat i)"
  using dist_other_page [OF assms] by (simp add: memset_eq PGSIZE_def)

lemma unat_and_not_fff: "unat ((a::u32) AND NOT 0xFFF) = 4096 * (unat a div 4096)"
proof -
  have "a = take_bit 12 a OR (a AND NOT (mask 12))"
    by (rule bit_word_eqI) (auto simp: bit_simps)
  also have "\<dots> = take_bit 12 a + (a AND NOT (mask 12))"
    by (rule disjunctive_add [symmetric]) (auto simp: bit_simps)
  finally have "a AND NOT (mask 12) = a - take_bit 12 a" by (simp add: algebra_simps)
  moreover have "(mask 12 :: u32) = 0xFFF" by (simp add: mask_eq_exp_minus_1)
  moreover have mod: "unat (take_bit 12 a) = unat a mod 4096"
    by (simp add: take_bit_eq_mod unat_mod_distrib)
  moreover have "take_bit 12 a \<le> a"
    by (simp add: word_le_nat_alt mod)
  ultimately have "unat (a AND NOT 0xFFF) = unat a - unat a mod 4096"
    by (simp add: unat_sub)
  then show ?thesis by (simp add: minus_mod_eq_mult_div)
qed

lemma unat_PGROUNDDOWN: "unat (PGROUNDDOWN a) = 4096 * (unat a div 4096)"
  using unat_and_not_fff [of a] by (simp add: PGROUNDDOWN_def PGSIZE_def)

lemma unat_PGROUNDUP:
  assumes "unat a + 4095 < 2 ^ 32"
  shows "unat (PGROUNDUP a) = 4096 * ((unat a + 4095) div 4096)"
proof -
  have "unat (a + 4095) = unat a + 4095" using assms by (simp add: unat_word_ariths)
  with unat_and_not_fff [of "a + 4095"] show ?thesis
    by (simp add: PGROUNDUP_def PGSIZE_def algebra_simps)
qed

lemma page_aligned_PGROUND [simp]:
  "page_aligned (PGROUNDDOWN a)" "unat a + 4095 < 2 ^ 32 \<Longrightarrow> page_aligned (PGROUNDUP a)"
  by (simp_all add: page_aligned_def unat_PGROUNDDOWN unat_PGROUNDUP)

section \<open>The free list as a list\<close>

definition free_page :: "u32 \<Rightarrow> u32 \<Rightarrow> bool" where
  "free_page kend p \<longleftrightarrow> p mod PGSIZE = 0 \<and> \<not> p < kend \<and> \<not> V2P p \<ge> PHYSTOP"

primrec flist :: "mem \<Rightarrow> u32 \<Rightarrow> u32 list \<Rightarrow> bool" where
  "flist m a [] \<longleftrightarrow> a = 0"
| "flist m a (p # ps) \<longleftrightarrow> a = p \<and> p \<noteq> 0 \<and> flist m (load32 m p) ps"

lemma flist_unique: "flist m a ps \<Longrightarrow> flist m a qs \<Longrightarrow> ps = qs"
proof (induction ps arbitrary: a qs)
  case Nil
  then show ?case by (cases qs) auto
next
  case (Cons p ps)
  then show ?case by (cases qs) auto
qed

lemma flist_cong:
  "(\<And>p. p \<in> set ps \<Longrightarrow> load32 m p = load32 m' p) \<Longrightarrow> flist m a ps = flist m' a ps"
  by (induction ps arbitrary: a) auto

text \<open>
  The allocator is well formed with the list \<open>ps\<close> of free pages: the chain holds exactly them,
  once each, all of them pages \<open>kfree\<close> accepts; the lock is not held, and the kernel image ends
  above \<open>KERNBASE\<close>, so no free page is the null pointer.
\<close>

definition kmem_wf :: "u32 list \<Rightarrow> 'z kstate_scheme \<Rightarrow> bool" where
  "kmem_wf ps s \<longleftrightarrow> flist (k_mem s) (k_freelist s) ps \<and> distinct ps
     \<and> (\<forall>p\<in>set ps. free_page (k_end s) p) \<and> L_kmem \<notin> k_held s \<and> KERNBASE \<le> k_end s"

text \<open>The state after a page has been put on the list, and after one has been taken.\<close>

definition freed :: "u32 \<Rightarrow> 'z kstate_scheme \<Rightarrow> 'z kstate_scheme" where
  "freed v s = s\<lparr>k_mem := store32 v (k_freelist s) (memset v 1 PGSIZE (k_mem s)), k_freelist := v\<rparr>"

lemma kfree_run:
  assumes "L_kmem \<notin> k_held s"
  shows "kfree v s = (if free_page (k_end s) v then Ok () (freed v s) else Panic ''kfree'')"
  using assms
  by (auto simp: kfree_def free_page_def freed_def bindM_run thenM_run acquire_def release_def)

lemma kalloc_run:
  assumes "L_kmem \<notin> k_held s"
  shows "kalloc s = Ok (k_freelist s)
    (if k_freelist s = 0 then s else s\<lparr>k_freelist := load32 (k_mem s) (k_freelist s)\<rparr>)"
  using assms by (auto simp: kalloc_def bindM_run thenM_run acquire_def release_def)

lemma free_page_nonzero: "free_page kend p \<Longrightarrow> KERNBASE \<le> kend \<Longrightarrow> p \<noteq> 0"
  using order_less_le_trans [of 0 KERNBASE kend] by (auto simp: free_page_def KERNBASE_def)

lemma free_page_aligned: "free_page kend p \<Longrightarrow> page_aligned p"
  by (simp add: free_page_def page_aligned_mod)

lemma load32_freed_other:
  assumes "page_aligned p" and "page_aligned v" and "p \<noteq> v"
  shows "load32 (k_mem (freed v s)) p = load32 (k_mem s) p"
proof (rule load32_cong)
  fix k :: nat
  assume "k < 4"
  with store32_other_page [OF assms, of k 0] memset_other_page [OF assms, of k]
  show "k_mem (freed v s) (p + of_nat k) = k_mem s (p + of_nat k)"
    by (simp add: freed_def)
qed

lemma kmem_wf_freed:
  assumes wf: "kmem_wf ps s" and v: "free_page (k_end s) v" "v \<notin> set ps"
  shows "kmem_wf (v # ps) (freed v s)"
proof -
  have "load32 (k_mem (freed v s)) p = load32 (k_mem s) p" if "p \<in> set ps" for p
    using that wf v load32_freed_other [of p v s] free_page_aligned
    by (auto simp: kmem_wf_def)
  then have "flist (k_mem (freed v s)) (k_freelist s) ps"
    using wf flist_cong [of ps "k_mem (freed v s)" "k_mem s" "k_freelist s"]
    by (auto simp: kmem_wf_def)
  moreover have "load32 (k_mem (freed v s)) v = k_freelist s"
    by (simp add: freed_def)
  moreover have "k_freelist (freed v s) = v" "k_end (freed v s) = k_end s" "k_held (freed v s) = k_held s"
    by (simp_all add: freed_def)
  ultimately show ?thesis
    using wf v by (auto simp: kmem_wf_def free_page_nonzero)
qed

lemma kmem_wf_taken:
  assumes "kmem_wf (p # ps) s"
  shows "kmem_wf ps (s\<lparr>k_freelist := load32 (k_mem s) p\<rparr>)"
  using assms by (auto simp: kmem_wf_def)

section \<open>The contract of the allocator\<close>

locale page_allocator =
  fixes alloc :: "'s \<Rightarrow> (u32, 's) res"
    and free :: "u32 \<Rightarrow> 's \<Rightarrow> (unit, 's) res"
    and wf :: "u32 list \<Rightarrow> 's \<Rightarrow> bool"
    and page :: "'s \<Rightarrow> u32 \<Rightarrow> bool"
  assumes alloc_none: "wf [] s \<Longrightarrow> alloc s = Ok 0 s"
    and alloc_some: "wf (p # ps) s \<Longrightarrow> \<exists>t. alloc s = Ok p t \<and> wf ps t \<and> page t = page s"
    and free_ok: "wf ps s \<Longrightarrow> page s v \<Longrightarrow> v \<notin> set ps \<Longrightarrow>
      \<exists>t. free v s = Ok () t \<and> wf (v # ps) t \<and> page t = page s"
    and free_bad: "wf ps s \<Longrightarrow> \<not> page s v \<Longrightarrow> free v s = Panic ''kfree''"
    and wf_pages: "wf ps s \<Longrightarrow> distinct ps \<and> (\<forall>p\<in>set ps. page s p \<and> p \<noteq> 0)"
begin

text \<open>A page just allocated can be freed, and is the next one to be allocated.\<close>

lemma alloc_free:
  assumes "wf (p # ps) s"
  shows "\<exists>t. bindM alloc free s = Ok () t \<and> wf (p # ps) t"
proof -
  from alloc_some [OF assms] obtain t where t: "alloc s = Ok p t" "wf ps t" "page t = page s"
    by blast
  moreover have "p \<notin> set ps" "page t p" using wf_pages [OF assms] t(3) by auto
  ultimately show ?thesis using free_ok [of ps t p] by (auto simp: bindM_run)
qed

text \<open>Allocating until the list is empty hands out every free page once.\<close>

primrec alloc_n :: "nat \<Rightarrow> 's \<Rightarrow> (u32 list, 's) res" where
  "alloc_n 0 = retM []"
| "alloc_n (Suc n) = bindM alloc (\<lambda>p. bindM (alloc_n n) (\<lambda>ps. retM (p # ps)))"

lemma alloc_n_all:
  "wf (ps @ qs) s \<Longrightarrow> \<exists>t. alloc_n (length ps) s = Ok ps t \<and> wf qs t"
proof (induction ps arbitrary: s)
  case Nil
  then show ?case by simp
next
  case (Cons p ps)
  then obtain t where t: "alloc s = Ok p t" "wf (ps @ qs) t"
    using alloc_some [of p "ps @ qs" s] by auto
  from Cons.IH [OF t(2)] t(1) show ?case by (auto simp: bindM_run)
qed

lemma alloc_fresh:
  assumes "wf ps s" and "alloc s = Ok p t" and "p \<noteq> 0"
  shows "p \<in> set ps \<and> wf (tl ps) t \<and> p \<notin> set (tl ps)"
proof (cases ps)
  case Nil
  with alloc_none assms show ?thesis by auto
next
  case (Cons q qs)
  with assms(1) have w: "wf (q # qs) s" by simp
  from alloc_some [OF w] assms(2) wf_pages [OF w] Cons show ?thesis by auto
qed

end

interpretation kmem: page_allocator
  "kalloc :: 'z kstate_scheme \<Rightarrow> (u32, 'z kstate_scheme) res" kfree kmem_wf "\<lambda>s. free_page (k_end s)"
proof
  fix s :: "'z kstate_scheme"
  assume "kmem_wf [] s"
  then show "kalloc s = Ok 0 s"
    by (simp add: kmem_wf_def kalloc_run)
next
  fix p ps and s :: "'z kstate_scheme"
  assume wf: "kmem_wf (p # ps) s"
  then have "kalloc s = Ok p (s\<lparr>k_freelist := load32 (k_mem s) p\<rparr>)"
    by (auto simp: kmem_wf_def kalloc_run)
  with kmem_wf_taken [OF wf] show "\<exists>t. kalloc s = Ok p t \<and> kmem_wf ps t
      \<and> free_page (k_end t) = free_page (k_end s)" by auto
next
  fix ps v and s :: "'z kstate_scheme"
  assume wf: "kmem_wf ps s" and v: "free_page (k_end s) v" "v \<notin> set ps"
  then have "kfree v s = Ok () (freed v s)"
    by (simp add: kmem_wf_def kfree_run)
  with kmem_wf_freed [OF wf v] show "\<exists>t. kfree v s = Ok () t \<and> kmem_wf (v # ps) t
      \<and> free_page (k_end t) = free_page (k_end s)" by (auto simp: freed_def)
next
  fix ps v and s :: "'z kstate_scheme"
  assume "kmem_wf ps s" "\<not> free_page (k_end s) v"
  then show "kfree v s = Panic ''kfree''"
    by (simp add: kmem_wf_def kfree_run)
next
  fix ps and s :: "'z kstate_scheme"
  assume "kmem_wf ps s"
  then show "distinct ps \<and> (\<forall>p\<in>set ps. free_page (k_end s) p \<and> p \<noteq> 0)"
    by (auto simp: kmem_wf_def dest: free_page_nonzero)
qed

section \<open>Initialisation\<close>

text \<open>The pages \<open>freerange\<close> puts on the list, the last one first.\<close>

definition pages_from :: "u32 \<Rightarrow> nat \<Rightarrow> u32 list" where
  "pages_from p n = map (\<lambda>i. p + of_nat i * PGSIZE) [0..<n]"

lemma pages_from_Suc: "pages_from p (Suc n) = p # pages_from (p + PGSIZE) n"
  by (simp add: pages_from_def map_upt_Suc algebra_simps del: upt_Suc)

lemma freerange_loop_ok:
  assumes "n < fuel" and "kmem_wf ps s"
    and "\<And>i. i < n \<Longrightarrow> p + of_nat i * PGSIZE + PGSIZE \<le> vend"
    and "\<not> p + of_nat n * PGSIZE + PGSIZE \<le> vend"
    and "\<forall>q\<in>set (pages_from p n). free_page (k_end s) q \<and> q \<notin> set ps" and "distinct (pages_from p n)"
  shows "\<exists>t. freerange_loop fuel p vend s = Ok () t \<and> kmem_wf (rev (pages_from p n) @ ps) t"
  using assms
proof (induction n arbitrary: fuel p ps s)
  case 0
  then obtain f where "fuel = Suc f" by (cases fuel) auto
  with "0.prems" show ?case by (auto simp: pages_from_def)
next
  case (Suc n)
  then obtain f where f: "fuel = Suc f" "n < f" by (cases fuel) auto
  have p: "free_page (k_end s) p" "p \<notin> set ps" "p \<notin> set (pages_from (p + PGSIZE) n)"
    using Suc.prems(5,6) by (auto simp: pages_from_Suc)
  have kf: "kfree p s = Ok () (freed p s)"
    using Suc.prems(2) p by (simp add: kmem_wf_def kfree_run)
  have "\<exists>t. freerange_loop f (p + PGSIZE) vend (freed p s) = Ok () t
      \<and> kmem_wf (rev (pages_from (p + PGSIZE) n) @ p # ps) t"
  proof (rule Suc.IH)
    show "kmem_wf (p # ps) (freed p s)" using kmem_wf_freed Suc.prems(2) p by blast
    show "p + PGSIZE + of_nat i * PGSIZE + PGSIZE \<le> vend" if "i < n" for i
      using Suc.prems(3) [of "Suc i"] that by (simp add: algebra_simps)
    show "\<not> p + PGSIZE + of_nat n * PGSIZE + PGSIZE \<le> vend"
      using Suc.prems(4) by (simp add: algebra_simps)
    show "\<forall>q\<in>set (pages_from (p + PGSIZE) n). free_page (k_end (freed p s)) q \<and> q \<notin> set (p # ps)"
      using Suc.prems(5) p by (auto simp: pages_from_Suc freed_def)
    show "distinct (pages_from (p + PGSIZE) n)"
      using Suc.prems(6) by (simp add: pages_from_Suc)
  qed (use f in simp)
  moreover have "p + PGSIZE \<le> vend" using Suc.prems(3) [of 0] by simp
  ultimately show ?case
    using f kf by (simp add: thenM_run pages_from_Suc)
qed

lemma roundup_4096:
  fixes a :: nat
  shows "a \<le> 4096 * ((a + 4095) div 4096)" and "4096 * ((a + 4095) div 4096) \<le> a + 4095"
  using mult_div_mod_eq [of 4096 "a + 4095"] mod_less_divisor [of 4096 "a + 4095"] by linarith+

lemma unat_page_add:
  assumes "unat p + 4096 * i < 2 ^ 32"
  shows "unat (p + of_nat i * PGSIZE) = unat p + 4096 * i"
proof -
  have "of_nat i * PGSIZE = of_nat (4096 * i)" by (simp add: PGSIZE_def)
  moreover have "unat (of_nat (4096 * i) :: u32) = 4096 * i"
    using assms by (intro unat_of_nat_u32) simp
  ultimately show ?thesis
    using assms unat_add_small [of p "of_nat i * PGSIZE"] by simp
qed

lemma distinct_pages_from:
  assumes "unat p + 4096 * n \<le> 2 ^ 32"
  shows "distinct (pages_from p n)"
  unfolding pages_from_def distinct_map
proof (intro conjI inj_onI)
  fix i j
  assume ij: "i \<in> set [0..<n]" "j \<in> set [0..<n]"
    and eq: "p + of_nat i * PGSIZE = p + of_nat j * PGSIZE"
  from ij have "i < n" "j < n" by simp_all
  with assms have "unat p + 4096 * i < 2 ^ 32" "unat p + 4096 * j < 2 ^ 32" by linarith+
  from unat_page_add [OF this(1)] unat_page_add [OF this(2)] show "i = j"
    unfolding eq by linarith
qed simp

lemma free_page_range:
  assumes "page_aligned p" and "KERNBASE \<le> kend" and "kend \<le> p" and "p < KERNBASE + PHYSTOP"
  shows "free_page kend p"
proof -
  have kb: "KERNBASE \<le> p" using assms(2,3) by simp
  have "unat (p - KERNBASE) = unat p - unat KERNBASE"
    using kb by (rule unat_sub)
  moreover have "unat p < 2382364672"
    using assms(4) by (simp add: word_less_nat_alt KERNBASE_def PHYSTOP_def)
  moreover have "unat KERNBASE = 2147483648" by (simp add: KERNBASE_def)
  moreover have "unat PHYSTOP = 234881024" by (simp add: PHYSTOP_def)
  ultimately have "unat (V2P p) < unat PHYSTOP"
    unfolding V2P_def by linarith
  then have "\<not> PHYSTOP \<le> V2P p" by (simp add: word_le_nat_alt)
  with assms(1,3) show ?thesis by (simp add: free_page_def page_aligned_mod not_less)
qed

text \<open>The number of whole pages between two addresses.\<close>

definition whole_pages :: "u32 \<Rightarrow> u32 \<Rightarrow> nat" where
  "whole_pages vstart vend = (unat vend - unat (PGROUNDUP vstart)) div 4096"

lemma freerange_ok:
  assumes wf: "kmem_wf [] s" and lo: "k_end s \<le> vstart" and le: "vstart \<le> vend"
    and hi: "vend \<le> KERNBASE + PHYSTOP"
  shows "\<exists>t. freerange vstart vend s = Ok () t
    \<and> kmem_wf (rev (pages_from (PGROUNDUP vstart) (whole_pages vstart vend))) t"
proof -
  let ?p = "PGROUNDUP vstart" and ?n = "whole_pages vstart vend"
  have KE: "KERNBASE \<le> k_end s" using wf by (simp add: kmem_wf_def)
  have top: "unat vend \<le> 2382364672"
    using hi by (simp add: word_le_nat_alt KERNBASE_def PHYSTOP_def)
  have vs: "unat vstart \<le> unat vend" using le by (simp add: word_le_nat_alt)
  have p: "unat ?p = 4096 * ((unat vstart + 4095) div 4096)" "page_aligned ?p"
    using top vs by (auto intro!: unat_PGROUNDUP)
  have p_lo: "unat vstart \<le> unat ?p" and p_hi: "unat ?p \<le> unat vstart + 4095"
    using roundup_4096 [of "unat vstart"] p(1) by simp_all
  have fits: "unat ?p + 4096 * i \<le> unat vend" if "i \<le> ?n" "unat ?p \<le> unat vend" for i
  proof -
    have "4096 * ?n \<le> unat vend - unat ?p" unfolding whole_pages_def by simp
    with that show ?thesis by linarith
  qed
  have none: "?n = 0" if "unat vend < unat ?p"
    using that by (simp add: whole_pages_def)
  have inside: "i < ?n \<Longrightarrow> unat ?p + 4096 * i + 4096 \<le> unat vend" for i
    using fits [of "Suc i"] none by (cases "unat ?p \<le> unat vend") auto
  have at: "unat (?p + of_nat i * PGSIZE) = unat ?p + 4096 * i" if "i \<le> ?n" for i
    using that fits [of i] none top p_hi vs
    by (intro unat_page_add) (cases "unat ?p \<le> unat vend"; simp)
  have nxt: "?p + of_nat i * PGSIZE + PGSIZE = ?p + of_nat (Suc i) * PGSIZE" for i
    by (simp add: algebra_simps)
  have past: "unat (?p + of_nat (Suc ?n) * PGSIZE) = unat ?p + 4096 * Suc ?n"
    using fits [of ?n] none top p_hi vs
    by (intro unat_page_add) (cases "unat ?p \<le> unat vend"; simp)
  have "\<exists>t. freerange_loop (2 ^ 20) ?p vend s = Ok () t \<and> kmem_wf (rev (pages_from ?p ?n) @ []) t"
  proof (rule freerange_loop_ok [OF _ wf])
    show "?n < 2 ^ 20" using top unfolding whole_pages_def by simp
    show "?p + of_nat i * PGSIZE + PGSIZE \<le> vend" if "i < ?n" for i
      using inside [OF that] at [of "Suc i"] that unfolding nxt by (simp add: word_le_nat_alt)
    have "unat vend < unat ?p + 4096 * Suc ?n"
      unfolding whole_pages_def by simp
    then show "\<not> ?p + of_nat ?n * PGSIZE + PGSIZE \<le> vend"
      unfolding nxt by (simp add: word_le_nat_alt past del: of_nat_Suc)
    show "\<forall>q\<in>set (pages_from ?p ?n). free_page (k_end s) q \<and> q \<notin> set []"
    proof
      fix q
      assume "q \<in> set (pages_from ?p ?n)"
      then obtain i where i: "i < ?n" and q: "q = ?p + of_nat i * PGSIZE"
        by (auto simp: pages_from_def)
      have uq: "unat q = unat ?p + 4096 * i" using at [of i] i q by simp
      have "free_page (k_end s) q"
      proof (rule free_page_range [OF _ KE])
        show "page_aligned q" using p uq by (simp add: page_aligned_def)
        show "k_end s \<le> q" using lo p_lo uq by (simp add: word_le_nat_alt)
        show "q < KERNBASE + PHYSTOP"
          using inside [OF i] top uq by (simp add: word_less_nat_alt KERNBASE_def PHYSTOP_def)
      qed
      then show "free_page (k_end s) q \<and> q \<notin> set []" by simp
    qed
    show "distinct (pages_from ?p ?n)"
      using fits [of ?n] none top p_hi vs
      by (intro distinct_pages_from) (cases "unat ?p \<le> unat vend"; simp)
  qed
  then show ?thesis by (simp add: freerange_def)
qed

section \<open>Properties of the allocator\<close>

text \<open>
  From an empty list, \<open>freerange\<close> over a region of physical memory returns and puts every
  whole page of the region on the free list exactly once, without a panic.
\<close>
theorem freerange_frees_all:
  assumes "kmem_wf [] s" and "k_end s \<le> vstart" and "vstart \<le> vend" and "vend \<le> KERNBASE + PHYSTOP"
  shows "\<exists>t ps. freerange vstart vend s = Ok () t \<and> kmem_wf ps t \<and> length ps = whole_pages vstart vend
    \<and> set ps = {PGROUNDUP vstart + of_nat i * PGSIZE | i. i < whole_pages vstart vend}"
proof -
  obtain t where "freerange vstart vend s = Ok () t"
      "kmem_wf (rev (pages_from (PGROUNDUP vstart) (whole_pages vstart vend))) t"
    using freerange_ok [OF assms] by blast
  moreover have "set (rev (pages_from p n)) = {p + of_nat i * PGSIZE | i. i < n}"
    "length (rev (pages_from p n)) = n" for p n
    by (auto simp: pages_from_def)
  ultimately show ?thesis by blast
qed

text \<open>An empty allocator, as \<open>kinit1\<close> finds it.\<close>

definition kboot :: kstate where
  "kboot = \<lparr>k_held = {}, k_mem = (\<lambda>_. 0), k_freelist = 0, k_use_lock = False,
     k_end = KERNBASE + 0x300000, k_data = KERNLINK, k_out = [], k_locking = False,
     k_kpgdir = 0, k_cr3 = 0\<rparr>"

lemma kboot_wf: "kmem_wf [] kboot"
  by (simp add: kmem_wf_def kboot_def KERNBASE_def word_le_nat_alt)

theorem freerange_frees_all_witness:
  "\<exists>t ps. freerange (KERNBASE + 0x300001) (KERNBASE + 0x304000) kboot = Ok () t \<and> length ps = 3
     \<and> kmem_wf ps t"
proof -
  have "whole_pages (KERNBASE + 0x300001) (KERNBASE + 0x304000) = 3"
    by (simp add: whole_pages_def PGROUNDUP_def PGSIZE_def KERNBASE_def)
  moreover have "k_end kboot \<le> KERNBASE + 0x300001" "KERNBASE + 0x300001 \<le> KERNBASE + 0x304000"
    "KERNBASE + 0x304000 \<le> KERNBASE + PHYSTOP"
    by (simp_all add: kboot_def KERNBASE_def PHYSTOP_def word_le_nat_alt)
  ultimately show ?thesis
    using freerange_frees_all [OF kboot_wf, of "KERNBASE + 0x300001" "KERNBASE + 0x304000"] by auto
qed

text \<open>
  \<open>kalloc\<close> hands out a page of the free list and takes it off, or returns 0 and changes
  nothing when the list is empty; \<open>kfree\<close> puts a page that is not on the list back so that the next
  \<open>kalloc\<close> returns it, and panics on an address that is not a page between \<open>end\<close> and \<open>PHYSTOP\<close>.
\<close>
theorem kalloc_kfree_contract:
  assumes "kmem_wf ps s"
  shows "(case ps of [] \<Rightarrow> kalloc s = Ok 0 s | p # qs \<Rightarrow> \<exists>t. kalloc s = Ok p t \<and> kmem_wf qs t)
    \<and> (\<forall>v. \<not> free_page (k_end s) v \<longrightarrow> kfree v s = Panic ''kfree'')
    \<and> (\<forall>v. free_page (k_end s) v \<and> v \<notin> set ps \<longrightarrow>
         (\<exists>t. kfree v s = Ok () t \<and> kmem_wf (v # ps) t \<and> (\<exists>u. kalloc t = Ok v u \<and> kmem_wf ps u)))"
proof (intro conjI allI impI)
  show "case ps of [] \<Rightarrow> kalloc s = Ok 0 s | p # qs \<Rightarrow> \<exists>t. kalloc s = Ok p t \<and> kmem_wf qs t"
    using assms kmem.alloc_none kmem.alloc_some by (cases ps) force+
  show "kfree v s = Panic ''kfree''" if "\<not> free_page (k_end s) v" for v
    using that by (rule kmem.free_bad [OF assms])
  show "\<exists>t. kfree v s = Ok () t \<and> kmem_wf (v # ps) t \<and> (\<exists>u. kalloc t = Ok v u \<and> kmem_wf ps u)"
    if "free_page (k_end s) v \<and> v \<notin> set ps" for v
    using kmem.free_ok [OF assms, of v] that kmem.alloc_some by blast
qed

theorem kalloc_kfree_contract_witness:
  "kalloc kboot = Ok 0 kboot \<and> kfree 5 kboot = Panic ''kfree''
   \<and> (\<exists>t u. kfree (KERNBASE + 0x300000) kboot = Ok () t \<and> kalloc t = Ok (KERNBASE + 0x300000) u)"
proof -
  have "\<not> free_page (k_end kboot) 5" "free_page (k_end kboot) (KERNBASE + 0x300000)"
    by (simp_all add: free_page_def kboot_def KERNBASE_def PHYSTOP_def PGSIZE_def V2P_def)
  then show ?thesis using kalloc_kfree_contract [OF kboot_wf] by fastforce
qed

end
