(* ===== verification/Cprintf.thy ===== *)
theory Cprintf
  imports Kalloc
begin

text \<open>
  The kernel's formatted output, the first half of \<open>console.c\<close>. The characters that \<open>consputc\<close>
  is given are appended to \<open>k_out\<close>. The arguments of a call are words or strings; a null string
  pointer is an argument of its own.
\<close>

section \<open>Numbers\<close>

definition digits :: string where "digits = ''0123456789abcdef''"

text \<open>
  The loop that fills \<open>buf\<close> from its start with the digits of \<open>x\<close>, the last digit first. The bases
  of all callers are 10 and 16; a base below 2 ends the loop here, where the code would not end.
\<close>

function printint_loop :: "u32 \<Rightarrow> u32 \<Rightarrow> string" where
  "printint_loop x base =
     (if x div base = 0 \<or> base < 2 then [digits ! unat (x mod base)]
      else digits ! unat (x mod base) # printint_loop (x div base) base)"
  by pat_completeness auto

lemma unat_div_less:
  assumes "x div base \<noteq> (0::u32)" and "\<not> base < 2"
  shows "unat (x div base) < unat x"
proof -
  have "2 \<le> unat base" using assms(2) by (simp add: word_less_nat_alt not_less)
  moreover have "unat x \<noteq> 0" using assms(1) by (metis div_0 unat_eq_zero)
  ultimately show ?thesis by (simp add: unat_div_distrib)
qed

termination printint_loop
  by (relation "measure (\<lambda>(x, base). unat x)") (auto simp: unat_div_less)

declare printint_loop.simps [simp del]

text \<open>\<open>buf\<close> is then given to \<open>consputc\<close> from its end.\<close>

definition printint :: "u32 \<Rightarrow> u32 \<Rightarrow> bool \<Rightarrow> string" where
  "printint xx base sign =
     (let neg = sign \<and> sint xx < 0;
          x = (if neg then - xx else xx);
          buf = printint_loop x base @ (if neg then ''-'' else [])
      in rev buf)"

section \<open>Formats\<close>

datatype carg = A_int u32 | A_str string | A_null

text \<open>
  What the loop of \<open>cprintf\<close> puts out. A directive without an argument, or with one of the wrong
  type, makes the code read what happens to be on the stack: the call is outside the model,
  \<open>None\<close>.
\<close>

fun cprintf_loop :: "string \<Rightarrow> carg list \<Rightarrow> string option" where
  "cprintf_loop [] args = Some []"
| "cprintf_loop (c # fmt) args =
     (if c = CHR 0x00 then Some []
      else if c \<noteq> CHR ''%'' then map_option (\<lambda>out. c # out) (cprintf_loop fmt args)
      else case fmt of [] \<Rightarrow> Some []
        | d # fmt' \<Rightarrow>
          if d = CHR 0x00 then Some []
          else if d = CHR ''d'' then
            (case args of A_int x # as \<Rightarrow> map_option ((@) (printint x 10 True)) (cprintf_loop fmt' as)
             | _ \<Rightarrow> None)
          else if d = CHR ''x'' \<or> d = CHR ''p'' then
            (case args of A_int x # as \<Rightarrow> map_option ((@) (printint x 16 False)) (cprintf_loop fmt' as)
             | _ \<Rightarrow> None)
          else if d = CHR ''s'' then
            (case args of A_str t # as \<Rightarrow>
               map_option ((@) (takeWhile (\<lambda>ch. ch \<noteq> CHR 0x00) t)) (cprintf_loop fmt' as)
             | A_null # as \<Rightarrow> map_option ((@) ''(null)'') (cprintf_loop fmt' as)
             | _ \<Rightarrow> None)
          else if d = CHR ''%'' then map_option (\<lambda>out. CHR ''%'' # out) (cprintf_loop fmt' args)
          else map_option (\<lambda>out. CHR ''%'' # d # out) (cprintf_loop fmt' args))"

definition cprintf :: "string \<Rightarrow> carg list \<Rightarrow> 'z kstate_scheme \<Rightarrow> (unit, 'z kstate_scheme) res" where
  "cprintf fmt args =
     bindM (getM k_locking) (\<lambda>locking.
     thenM (whenM locking (acquire L_cons))
     (thenM (case cprintf_loop fmt args of None \<Rightarrow> panic ''undefined''
        | Some out \<Rightarrow> modM (\<lambda>s. s\<lparr>k_out := k_out s @ out\<rparr>))
     (whenM locking (release L_cons))))"

lemma cprintf_run:
  assumes "L_cons \<notin> k_held s" and "cprintf_loop fmt args = Some out"
  shows "cprintf fmt args s = Ok () (s\<lparr>k_out := k_out s @ out\<rparr>)"
  using assms by (auto simp: cprintf_def bindM_run thenM_run acquire_def release_def)

lemma cprintf_Ok:
  assumes "cprintf fmt args s = Ok u t"
  shows "\<exists>out. t = s\<lparr>k_out := k_out s @ out\<rparr>"
proof (cases "cprintf_loop fmt args")
  case None
  with assms show ?thesis
    by (cases "k_locking s"; cases "L_cons \<in> k_held s")
      (simp_all add: cprintf_def bindM_run thenM_run acquire_def)
next
  case (Some out)
  show ?thesis
  proof (cases "L_cons \<in> k_held s")
    case True
    with assms Some have "t = s\<lparr>k_out := k_out s @ out\<rparr>"
      by (cases "k_locking s") (simp_all add: cprintf_def bindM_run thenM_run acquire_def)
    then show ?thesis by blast
  next
    case False
    from assms cprintf_run [OF this Some] show ?thesis by auto
  qed
qed

section \<open>What is printed reads back\<close>

text \<open>The reader: the value of a digit string, most significant digit first, and of a numeral.\<close>

definition digit_val :: "char \<Rightarrow> nat" where
  "digit_val c = (let n = of_char c in if 97 \<le> n then n - 97 + 10 else n - 48)"

definition base_val :: "nat \<Rightarrow> string \<Rightarrow> nat" where
  "base_val b cs = foldl (\<lambda>v c. b * v + digit_val c) 0 cs"

definition num_val :: "string \<Rightarrow> int" where
  "num_val cs = (if take 1 cs = ''-'' then - int (base_val 10 (drop 1 cs)) else int (base_val 10 cs))"

lemma base_val_snoc: "base_val b (cs @ [c]) = b * base_val b cs + digit_val c"
  by (simp add: base_val_def)

lemma digit_val_digits: "k < 16 \<Longrightarrow> digit_val (digits ! k) = k \<and> digits ! k \<noteq> CHR ''-''"
  unfolding digits_def
  by (simp add: less_Suc_eq numeral_eq_Suc, elim disjE) (simp_all add: digit_val_def Let_def)

lemma unat_mod_base: "2 \<le> base \<Longrightarrow> base \<le> 16 \<Longrightarrow> unat (x mod base :: u32) < 16"
proof -
  assume "2 \<le> base" "base \<le> 16"
  then have "2 \<le> unat base" "unat base \<le> 16" by (simp_all add: word_le_nat_alt)
  moreover from this(1) have "unat x mod unat base < unat base" by (intro mod_less_divisor) simp
  ultimately show ?thesis by (simp only: unat_mod_distrib)
qed

lemma printint_loop_val:
  assumes "2 \<le> base" and "base \<le> 16"
  shows "base_val (unat base) (rev (printint_loop x base)) = unat x"
  using assms
proof (induction x base rule: printint_loop.induct)
  case (1 x base)
  have d: "digit_val (digits ! unat (x mod base)) = unat x mod unat base"
    using unat_mod_base [OF 1(2,3), of x] digit_val_digits by (simp add: unat_mod_distrib)
  show ?case
  proof (cases "x div base = 0")
    case True
    then have "unat x div unat base = 0" by (metis unat_0 unat_div_distrib)
    with d True show ?thesis
      using div_mult_mod_eq [of "unat x" "unat base"]
      by (subst printint_loop.simps) (simp add: base_val_def)
  next
    case False
    then have "\<not> (x div base = 0 \<or> base < 2)" using 1(2) by auto
    from 1(1) [OF this 1(2,3)] d this show ?thesis
      using mult_div_mod_eq [of "unat base" "unat x"]
      by (subst printint_loop.simps) (simp add: base_val_snoc unat_div_distrib)
  qed
qed

lemma printint_loop_digits:
  assumes "2 \<le> base" and "base \<le> 16"
  shows "CHR ''-'' \<notin> set (printint_loop x base)"
  using assms
proof (induction x base rule: printint_loop.induct)
  case (1 x base)
  have "digits ! unat (x mod base) \<noteq> CHR ''-''"
    using unat_mod_base [OF 1(2,3), of x] digit_val_digits by simp
  with 1 show ?case by (subst printint_loop.simps) auto
qed

lemma printint_loop_length:
  assumes "10 \<le> base" and "unat x < 10 ^ Suc n"
  shows "length (printint_loop x base) \<le> Suc n"
  using assms
proof (induction n arbitrary: x)
  case 0
  then have "unat x div unat base = 0" by (simp add: word_le_nat_alt)
  then have "x div base = 0" by (metis unat_0 unat_div_distrib word_unat_eq_iff)
  then show ?case by (subst printint_loop.simps) simp
next
  case (Suc n)
  have "unat x div unat base \<le> unat x div 10"
    using Suc.prems(1) by (intro div_le_mono2) (simp_all add: word_le_nat_alt)
  also have "\<dots> < 10 ^ Suc n" using Suc.prems(2) by (simp add: div_less_iff_less_mult)
  finally have "unat (x div base) < 10 ^ Suc n" by (simp add: unat_div_distrib)
  from Suc.IH [OF Suc.prems(1) this] show ?case by (subst printint_loop.simps) simp
qed

lemma printint_buf:
  assumes "10 \<le> base"
  shows "length (printint xx base sign) \<le> 11"
proof -
  have "length (printint_loop x base) \<le> 10" for x
    using printint_loop_length [OF assms, of x 9] unat_u32_lt [of x] by simp
  then show ?thesis by (simp add: printint_def Let_def le_SucI numeral_eq_Suc)
qed

lemma printint_decimal: "num_val (printint xx 10 True) = sint xx"
proof (cases "sint xx < 0")
  case True
  have "take 1 (printint xx 10 True) = ''-''" "drop 1 (printint xx 10 True) = rev (printint_loop (- xx) 10)"
    using True by (simp_all add: printint_def)
  moreover have "int (unat (- xx)) = - sint xx"
    using True by (rule unat_neg_u32)
  ultimately show ?thesis
    using printint_loop_val [of 10 "- xx"] by (simp add: num_val_def)
next
  case False
  then have e: "printint xx 10 True = rev (printint_loop xx 10)" by (simp add: printint_def)
  have "take 1 (rev (printint_loop xx 10)) \<noteq> ''-''"
    using printint_loop_digits [of 10 xx] by (cases "rev (printint_loop xx 10)") (auto dest: arg_cong [where f = set])
  with False e show ?thesis
    using printint_loop_val [of 10 xx] unat_sint_nonneg [OF False] by (simp add: num_val_def)
qed

text \<open>
  \<open>%d\<close> prints a numeral that reads back as the number, for every 32-bit value, the most
  negative one included, and \<open>buf[16]\<close> is large enough for it and for \<open>%x\<close>.
\<close>
theorem printint_reads_back:
  "num_val (printint xx 10 True) = sint xx \<and> length (printint xx 10 True) \<le> 16
   \<and> base_val 16 (printint xx 16 False) = unat xx \<and> length (printint xx 16 False) \<le> 16"
  using printint_decimal [of xx] printint_buf [of 10 xx True] printint_buf [of 16 xx False]
    printint_loop_val [of 16 xx]
  by (simp add: printint_def)

end
