(* ===== verification/Vm.thy ===== *)
theory Vm
  imports Cprintf
begin

text \<open>
  Page tables, \<open>vm.c\<close>: two-level tables stored in pages of the allocator, read and written as
  words of memory. The model follows the code down to the entry addresses; \<open>translate\<close> is what
  the hardware makes of the tables. Loops over addresses carry a counter that bounds their
  turns by the pages between the two ends.
\<close>

section \<open>Address arithmetic\<close>

definition PDX :: "u32 \<Rightarrow> u32" where "PDX va = drop_bit 22 va AND 0x3FF"
definition PTX :: "u32 \<Rightarrow> u32" where "PTX va = drop_bit 12 va AND 0x3FF"
definition PGADDR :: "u32 \<Rightarrow> u32 \<Rightarrow> u32 \<Rightarrow> u32" where
  "PGADDR d t o' = push_bit 22 d OR push_bit 12 t OR o'"

definition NPDENTRIES :: nat where "NPDENTRIES = 1024"
definition PTE_P :: u32 where "PTE_P = 0x001"
definition PTE_W :: u32 where "PTE_W = 0x002"
definition PTE_U :: u32 where "PTE_U = 0x004"
definition PTE_ADDR :: "u32 \<Rightarrow> u32" where "PTE_ADDR pte = pte AND NOT 0xFFF"
definition PTE_FLAGS :: "u32 \<Rightarrow> u32" where "PTE_FLAGS pte = pte AND 0xFFF"

definition peek :: "u32 \<Rightarrow> 'z kstate_scheme \<Rightarrow> (u32, 'z kstate_scheme) res" where
  "peek a = getM (\<lambda>s. load32 (k_mem s) a)"

definition poke :: "u32 \<Rightarrow> u32 \<Rightarrow> 'z kstate_scheme \<Rightarrow> (unit, 'z kstate_scheme) res" where
  "poke a w = modM (\<lambda>s. s\<lparr>k_mem := store32 a w (k_mem s)\<rparr>)"

text \<open>
  What the hardware makes of the tables: the kernel address at which a virtual address is found,
  \<open>None\<close> when it faults. The kernel's own memory is mapped one to one above \<open>KERNBASE\<close>, which is
  how \<open>k_mem\<close> is addressed.
\<close>

definition translate :: "mem \<Rightarrow> u32 \<Rightarrow> u32 \<Rightarrow> u32 option" where
  "translate m pgdir va =
     (let pde = load32 m (pgdir + 4 * PDX va) in
      if pde AND PTE_P = 0 then None
      else let pte = load32 m (P2V (PTE_ADDR pde) + 4 * PTX va) in
      if pte AND PTE_P = 0 then None
      else Some (P2V (PTE_ADDR pte) + (va AND 0xFFF)))"

definition memsetM :: "u32 \<Rightarrow> u32 \<Rightarrow> u32 \<Rightarrow> 'z kstate_scheme \<Rightarrow> (unit, 'z kstate_scheme) res" where
  "memsetM d c n = modM (\<lambda>s. s\<lparr>k_mem := memset d c n (k_mem s)\<rparr>)"

definition memmoveM :: "u32 \<Rightarrow> u32 \<Rightarrow> u32 \<Rightarrow> 'z kstate_scheme \<Rightarrow> (unit, 'z kstate_scheme) res" where
  "memmoveM d src n = modM (\<lambda>s. s\<lparr>k_mem := memmove d src n (k_mem s)\<rparr>)"

section \<open>Walking and mapping\<close>

text \<open>The result is the address of the entry, 0 for none.\<close>

definition walkpgdir :: "u32 \<Rightarrow> u32 \<Rightarrow> bool \<Rightarrow> 'z kstate_scheme \<Rightarrow> (u32, 'z kstate_scheme) res" where
  "walkpgdir pgdir va alloc =
     (let pde = pgdir + 4 * PDX va in
      bindM (peek pde) (\<lambda>e.
      if e AND PTE_P \<noteq> 0 then retM (P2V (PTE_ADDR e) + 4 * PTX va)
      else if \<not> alloc then retM 0
      else bindM kalloc (\<lambda>pgtab.
        if pgtab = 0 then retM 0 else
        thenM (memsetM pgtab 0 PGSIZE)
        (thenM (poke pde (V2P pgtab OR PTE_P OR PTE_W OR PTE_U))
        (retM (pgtab + 4 * PTX va))))))"

fun mappages_loop :: "nat \<Rightarrow> u32 \<Rightarrow> u32 \<Rightarrow> u32 \<Rightarrow> u32 \<Rightarrow> u32 \<Rightarrow>
    'z kstate_scheme \<Rightarrow> (u32, 'z kstate_scheme) res" where
  "mappages_loop 0 pgdir a lst pa perm = Spins"
| "mappages_loop (Suc turns) pgdir a lst pa perm =
     bindM (walkpgdir pgdir a True) (\<lambda>pte.
     if pte = 0 then retM (-1) else
     bindM (peek pte) (\<lambda>e.
     if e AND PTE_P \<noteq> 0 then panic ''remap'' else
     thenM (poke pte (pa OR perm OR PTE_P))
     (if a = lst then retM 0
      else mappages_loop turns pgdir (a + PGSIZE) lst (pa + PGSIZE) perm)))"

text \<open>\<open>a\<close> steps by a page until it is \<open>last\<close>; both are page aligned, so it meets it.\<close>

definition mappages :: "u32 \<Rightarrow> u32 \<Rightarrow> u32 \<Rightarrow> u32 \<Rightarrow> u32 \<Rightarrow>
    'z kstate_scheme \<Rightarrow> (u32, 'z kstate_scheme) res" where
  "mappages pgdir va sz pa perm =
     (let a = PGROUNDDOWN va; lst = PGROUNDDOWN (va + sz - 1)
      in mappages_loop (Suc (dist lst a div 4096)) pgdir a lst pa perm)"

section \<open>Shrinking and freeing\<close>

fun deallocuvm_loop :: "nat \<Rightarrow> u32 \<Rightarrow> u32 \<Rightarrow> u32 \<Rightarrow> 'z kstate_scheme \<Rightarrow> (unit, 'z kstate_scheme) res" where
  "deallocuvm_loop turns pgdir a oldsz =
     (if \<not> a < oldsz then retM ()
      else if turns = 0 then Spins
      else bindM (walkpgdir pgdir a False) (\<lambda>pte.
        if pte = 0
        then deallocuvm_loop (turns - 1) pgdir (PGADDR (PDX a + 1) 0 0) oldsz
        else bindM (peek pte) (\<lambda>e.
          if e AND PTE_P \<noteq> 0
          then let pa = PTE_ADDR e in
               if pa = 0 then panic ''kfree''
               else thenM (kfree (P2V pa))
                 (thenM (poke pte 0) (deallocuvm_loop (turns - 1) pgdir (a + PGSIZE) oldsz))
          else deallocuvm_loop (turns - 1) pgdir (a + PGSIZE) oldsz)))"

declare deallocuvm_loop.simps [simp del]

definition deallocuvm :: "u32 \<Rightarrow> u32 \<Rightarrow> u32 \<Rightarrow> 'z kstate_scheme \<Rightarrow> (u32, 'z kstate_scheme) res" where
  "deallocuvm pgdir oldsz newsz =
     (if newsz \<ge> oldsz then retM oldsz
      else thenM (deallocuvm_loop (Suc (unat oldsz div 4096)) pgdir (PGROUNDUP newsz) oldsz)
        (retM newsz))"

definition freevm :: "u32 \<Rightarrow> 'z kstate_scheme \<Rightarrow> (unit, 'z kstate_scheme) res" where
  "freevm pgdir =
     (if pgdir = 0 then panic ''freevm: no pgdir'' else
      bindM (deallocuvm pgdir KERNBASE 0) (\<lambda>_.
      thenM (forM [0..<NPDENTRIES] (\<lambda>i.
        bindM (peek (pgdir + 4 * of_nat i)) (\<lambda>e.
        whenM (e AND PTE_P \<noteq> 0) (kfree (P2V (PTE_ADDR e))))))
      (kfree pgdir)))"

section \<open>The kernel part of every page table\<close>

text \<open>\<open>kmap\<close>: virtual start, physical start, physical end, permissions.\<close>

definition kmap :: "u32 \<Rightarrow> (u32 \<times> u32 \<times> u32 \<times> u32) list" where
  "kmap data =
     [(KERNBASE, 0, EXTMEM, PTE_W),
      (KERNLINK, V2P KERNLINK, V2P data, 0),
      (data, V2P data, PHYSTOP, PTE_W),
      (DEVSPACE, DEVSPACE, 0, PTE_W)]"

fun setupkvm_loop :: "u32 \<Rightarrow> (u32 \<times> u32 \<times> u32 \<times> u32) list \<Rightarrow>
    'z kstate_scheme \<Rightarrow> (u32, 'z kstate_scheme) res" where
  "setupkvm_loop pgdir [] = retM pgdir"
| "setupkvm_loop pgdir ((virt, phys_start, phys_end, perm) # ks) =
     bindM (mappages pgdir virt (phys_end - phys_start) phys_start perm) (\<lambda>r.
     if sint r < 0 then thenM (freevm pgdir) (retM 0)
     else setupkvm_loop pgdir ks)"

definition setupkvm :: "'z kstate_scheme \<Rightarrow> (u32, 'z kstate_scheme) res" where
  "setupkvm =
     bindM kalloc (\<lambda>pgdir.
     if pgdir = 0 then retM 0 else
     thenM (memsetM pgdir 0 PGSIZE)
     (if P2V PHYSTOP > DEVSPACE then panic ''PHYSTOP too high'' else
     bindM (getM k_data) (\<lambda>data. setupkvm_loop pgdir (kmap data))))"

definition switchkvm :: "'z kstate_scheme \<Rightarrow> (unit, 'z kstate_scheme) res" where
  "switchkvm = modM (\<lambda>s. s\<lparr>k_cr3 := V2P (k_kpgdir s)\<rparr>)"

definition kvmalloc :: "'z kstate_scheme \<Rightarrow> (unit, 'z kstate_scheme) res" where
  "kvmalloc = bindM setupkvm (\<lambda>pd. thenM (modM (\<lambda>s. s\<lparr>k_kpgdir := pd\<rparr>)) switchkvm)"

section \<open>User memory\<close>

text \<open>\<open>inituvm\<close>; \<open>init\<close> is the address of the image of the first process.\<close>

definition inituvm :: "u32 \<Rightarrow> u32 \<Rightarrow> u32 \<Rightarrow> 'z kstate_scheme \<Rightarrow> (unit, 'z kstate_scheme) res" where
  "inituvm pgdir init sz =
     (if sz \<ge> PGSIZE then panic ''inituvm: more than a page'' else
      bindM kalloc (\<lambda>mem.
      thenM (memsetM mem 0 PGSIZE)
      (bindM (mappages pgdir 0 PGSIZE (V2P mem) (PTE_W OR PTE_U)) (\<lambda>_.
      memmoveM mem init sz))))"

fun allocuvm_loop :: "nat \<Rightarrow> u32 \<Rightarrow> u32 \<Rightarrow> u32 \<Rightarrow> u32 \<Rightarrow> 'z kstate_scheme \<Rightarrow> (u32, 'z kstate_scheme) res" where
  "allocuvm_loop turns pgdir a oldsz newsz =
     (if \<not> a < newsz then retM newsz
      else if turns = 0 then Spins
      else bindM kalloc (\<lambda>mem.
        if mem = 0
        then thenM (cprintf (''allocuvm out of memory'' @ [CHR 0x0A]) [])
          (bindM (deallocuvm pgdir newsz oldsz) (\<lambda>_. retM 0))
        else thenM (memsetM mem 0 PGSIZE)
          (bindM (mappages pgdir a PGSIZE (V2P mem) (PTE_W OR PTE_U)) (\<lambda>r.
          if sint r < 0
          then thenM (cprintf (''allocuvm out of memory (2)'' @ [CHR 0x0A]) [])
            (bindM (deallocuvm pgdir newsz oldsz) (\<lambda>_. thenM (kfree mem) (retM 0)))
          else allocuvm_loop (turns - 1) pgdir (a + PGSIZE) oldsz newsz))))"

declare allocuvm_loop.simps [simp del]

definition allocuvm :: "u32 \<Rightarrow> u32 \<Rightarrow> u32 \<Rightarrow> 'z kstate_scheme \<Rightarrow> (u32, 'z kstate_scheme) res" where
  "allocuvm pgdir oldsz newsz =
     (if newsz \<ge> KERNBASE then retM 0
      else if newsz < oldsz then retM oldsz
      else allocuvm_loop (Suc (unat newsz div 4096)) pgdir (PGROUNDUP oldsz) oldsz newsz)"

definition clearpteu :: "u32 \<Rightarrow> u32 \<Rightarrow> 'z kstate_scheme \<Rightarrow> (unit, 'z kstate_scheme) res" where
  "clearpteu pgdir uva =
     bindM (walkpgdir pgdir uva False) (\<lambda>pte.
     if pte = 0 then panic ''clearpteu''
     else bindM (peek pte) (\<lambda>e. poke pte (e AND NOT PTE_U)))"

fun copyuvm_loop :: "nat \<Rightarrow> u32 \<Rightarrow> u32 \<Rightarrow> u32 \<Rightarrow> u32 \<Rightarrow> 'z kstate_scheme \<Rightarrow> (u32, 'z kstate_scheme) res" where
  "copyuvm_loop turns pgdir d i sz =
     (if \<not> i < sz then retM d
      else if turns = 0 then Spins
      else bindM (walkpgdir pgdir i False) (\<lambda>pte.
        if pte = 0 then panic ''copyuvm: pte should exist'' else
        bindM (peek pte) (\<lambda>e.
        if e AND PTE_P = 0 then panic ''copyuvm: page not present'' else
        let pa = PTE_ADDR e; flags = PTE_FLAGS e in
        bindM kalloc (\<lambda>mem.
        if mem = 0 then thenM (freevm d) (retM 0) else
        thenM (memmoveM mem (P2V pa) PGSIZE)
        (bindM (mappages d i PGSIZE (V2P mem) flags) (\<lambda>r.
        if sint r < 0 then thenM (kfree mem) (thenM (freevm d) (retM 0))
        else copyuvm_loop (turns - 1) pgdir d (i + PGSIZE) sz))))))"

declare copyuvm_loop.simps [simp del]

definition copyuvm :: "u32 \<Rightarrow> u32 \<Rightarrow> 'z kstate_scheme \<Rightarrow> (u32, 'z kstate_scheme) res" where
  "copyuvm pgdir sz =
     bindM setupkvm (\<lambda>d.
     if d = 0 then retM 0
     else copyuvm_loop (Suc (unat sz div 4096)) pgdir d 0 sz)"

text \<open>
  \<open>uva2ka\<close> does not check the result of \<open>walkpgdir\<close>: without a page table it reads the word at
  address 0 of the current address space, which is a page fault, and so a panic of \<open>trap\<close>, when
  nothing is mapped there.
\<close>

definition load_null :: "'z kstate_scheme \<Rightarrow> (u32, 'z kstate_scheme) res" where
  "load_null s = (case translate (k_mem s) (P2V (k_cr3 s)) 0 of
     None \<Rightarrow> Panic ''trap'' | Some ka \<Rightarrow> Ok (load32 (k_mem s) ka) s)"

definition uva2ka :: "u32 \<Rightarrow> u32 \<Rightarrow> 'z kstate_scheme \<Rightarrow> (u32, 'z kstate_scheme) res" where
  "uva2ka pgdir uva =
     bindM (walkpgdir pgdir uva False) (\<lambda>pte.
     bindM (if pte = 0 then load_null else peek pte) (\<lambda>e.
     if e AND PTE_P = 0 then retM 0
     else if e AND PTE_U = 0 then retM 0
     else retM (P2V (PTE_ADDR e))))"

text \<open>
  \<open>copyout\<close>, given the \<open>len\<close> bytes at \<open>p\<close>; what it writes are pages of another address space, so
  the source does not change under it.
\<close>

fun mem_write :: "u32 \<Rightarrow> u8 list \<Rightarrow> mem \<Rightarrow> mem" where
  "mem_write a [] m = m"
| "mem_write a (b # bs) m = mem_write (a + 1) bs (m(a := b))"

fun copyout_loop :: "nat \<Rightarrow> u32 \<Rightarrow> u32 \<Rightarrow> u8 list \<Rightarrow> 'z kstate_scheme \<Rightarrow> (u32, 'z kstate_scheme) res" where
  "copyout_loop turns pgdir va bs =
     (if bs = [] then retM 0
      else if turns = 0 then Spins
      else let va0 = PGROUNDDOWN va in
        bindM (uva2ka pgdir va0) (\<lambda>pa0.
        if pa0 = 0 then retM (-1) else
        let n = unat (PGSIZE - (va - va0)) in
        thenM (modM (\<lambda>s. s\<lparr>k_mem := mem_write (pa0 + (va - va0)) (take n bs) (k_mem s)\<rparr>))
        (copyout_loop (turns - 1) pgdir (va0 + PGSIZE) (drop n bs))))"

declare copyout_loop.simps [simp del]

definition copyout :: "u32 \<Rightarrow> u32 \<Rightarrow> u8 list \<Rightarrow> 'z kstate_scheme \<Rightarrow> (u32, 'z kstate_scheme) res" where
  "copyout pgdir va bs = copyout_loop (Suc (Suc (length bs div 4096))) pgdir va bs"

text \<open>
  An access of the kernel to memory at a virtual address of the current address space: above
  \<open>KERNBASE\<close> it is the kernel's own memory, below it goes through the page table in \<open>cr3\<close>. A
  fault in kernel mode is a panic of \<open>trap\<close>.
\<close>

definition vaddr :: "'z kstate_scheme \<Rightarrow> u32 \<Rightarrow> u32 option" where
  "vaddr s a = (if KERNBASE \<le> a then Some a else translate (k_mem s) (P2V (k_cr3 s)) a)"

definition vload8 :: "u32 \<Rightarrow> 'z kstate_scheme \<Rightarrow> (u8, 'z kstate_scheme) res" where
  "vload8 a s = (case vaddr s a of None \<Rightarrow> Panic ''trap'' | Some ka \<Rightarrow> Ok (k_mem s ka) s)"

definition vstore8 :: "u32 \<Rightarrow> u8 \<Rightarrow> 'z kstate_scheme \<Rightarrow> (unit, 'z kstate_scheme) res" where
  "vstore8 a b s = (case vaddr s a of None \<Rightarrow> Panic ''trap''
     | Some ka \<Rightarrow> Ok () (s\<lparr>k_mem := (k_mem s)(ka := b)\<rparr>))"

definition vload32 :: "u32 \<Rightarrow> 'z kstate_scheme \<Rightarrow> (u32, 'z kstate_scheme) res" where
  "vload32 a =
     bindM (vload8 a) (\<lambda>b0. bindM (vload8 (a + 1)) (\<lambda>b1.
     bindM (vload8 (a + 2)) (\<lambda>b2. bindM (vload8 (a + 3)) (\<lambda>b3.
     retM (le32 b0 b1 b2 b3)))))"

definition vstore32 :: "u32 \<Rightarrow> u32 \<Rightarrow> 'z kstate_scheme \<Rightarrow> (unit, 'z kstate_scheme) res" where
  "vstore32 a w = forM [0, 1, 2, 3] (\<lambda>i. vstore8 (a + of_nat i) (byte_of i w))"

section \<open>What the page-table code leaves alone\<close>

text \<open>
  The routines above write memory, the free list and the console, and nothing else of the
  kernel. \<open>vm_frame s\<close> is the set of states that differ from \<open>s\<close> in those only; being kept by
  every combinator, it is proved of each routine by the rules of its parts.
\<close>

definition vm_frame :: "'z kstate_scheme \<Rightarrow> 'z kstate_scheme \<Rightarrow> bool" where
  "vm_frame s t \<longleftrightarrow>
     kstate.more t = kstate.more s \<and> k_held t = k_held s \<and> k_end t = k_end s \<and>
     k_data t = k_data s \<and> k_use_lock t = k_use_lock s \<and> k_locking t = k_locking s \<and> k_kpgdir t = k_kpgdir s \<and>
     k_cr3 t = k_cr3 s"

lemma vm_frame_refl [simp]: "vm_frame s s"
  by (simp add: vm_frame_def)

lemma vm_frame_trans: "vm_frame s t \<Longrightarrow> vm_frame t u \<Longrightarrow> vm_frame s u"
  by (simp add: vm_frame_def)

lemma vm_frame_upd [simp]:
  "vm_frame s (t\<lparr>k_mem := m\<rparr>) = vm_frame s t"
  "vm_frame s (t\<lparr>k_freelist := f\<rparr>) = vm_frame s t"
  "vm_frame s (t\<lparr>k_out := out\<rparr>) = vm_frame s t"
  by (simp_all add: vm_frame_def)

lemma kfree_Ok: "kfree v s = Ok u t \<Longrightarrow> t = freed v s"
proof (cases "L_kmem \<in> k_held s")
  case True
  then show "kfree v s = Ok u t \<Longrightarrow> t = freed v s"
    by (cases "k_use_lock s")
      (simp_all add: kfree_def freed_def bindM_run thenM_run acquire_def split: if_split_asm)
next
  case False
  then show "kfree v s = Ok u t \<Longrightarrow> t = freed v s"
    by (simp add: kfree_run split: if_split_asm)
qed

lemma kalloc_Ok: "kalloc s = Ok r t \<Longrightarrow> r = k_freelist s \<and>
    t = (if k_freelist s = 0 then s else s\<lparr>k_freelist := load32 (k_mem s) (k_freelist s)\<rparr>)"
proof (cases "L_kmem \<in> k_held s")
  case True
  then show "kalloc s = Ok r t \<Longrightarrow> r = k_freelist s \<and>
    t = (if k_freelist s = 0 then s else s\<lparr>k_freelist := load32 (k_mem s) (k_freelist s)\<rparr>)"
    by (cases "k_use_lock s"; cases "k_freelist s = 0")
      (auto simp: kalloc_def bindM_run thenM_run acquire_def)
next
  case False
  then show "kalloc s = Ok r t \<Longrightarrow> r = k_freelist s \<and>
    t = (if k_freelist s = 0 then s else s\<lparr>k_freelist := load32 (k_mem s) (k_freelist s)\<rparr>)"
    by (auto simp: kalloc_run)
qed

lemma keeps_kfree [keeps_rules]: "keeps (vm_frame s0) (kfree v)"
  by (rule keepsI) (drule kfree_Ok, simp add: freed_def)

lemma keeps_kalloc [keeps_rules]: "keeps (vm_frame s0) kalloc"
  by (rule keepsI) (drule kalloc_Ok, simp)

lemma keeps_peek [keeps_rules]: "keeps (vm_frame s0) (peek a)"
  unfolding peek_def by (rule keeps_get)

lemma keeps_poke [keeps_rules]: "keeps (vm_frame s0) (poke a w)"
  unfolding poke_def by (rule keeps_mod) simp

lemma keeps_memsetM [keeps_rules]: "keeps (vm_frame s0) (memsetM d c n)"
  unfolding memsetM_def by (rule keeps_mod) simp

lemma keeps_memmoveM [keeps_rules]: "keeps (vm_frame s0) (memmoveM d src n)"
  unfolding memmoveM_def by (rule keeps_mod) simp

lemma keeps_cprintf [keeps_rules]: "keeps (vm_frame s0) (cprintf fmt args)"
  by (rule keepsI) (drule cprintf_Ok, auto)

lemma keeps_Spins [keeps_rules]: "keeps P Spins"
  by (rule keepsI) simp

lemma keeps_Let [keeps_rules]: "(\<And>x. keeps P (f x)) \<Longrightarrow> keeps P (let x = e in f x)"
  by (simp add: Let_def)

lemma keeps_load_null [keeps_rules]: "keeps (vm_frame s0) load_null"
  by (rule keepsI) (auto simp: load_null_def split: option.splits)

lemma keeps_walkpgdir [keeps_rules]: "keeps (vm_frame s0) (walkpgdir pgdir va alloc)"
  unfolding walkpgdir_def by (intro keeps_rules)

lemma keeps_mappages_loop [keeps_rules]: "keeps (vm_frame s0) (mappages_loop n pgdir a lst pa perm)"
  by (induction n arbitrary: a pa; simp only: mappages_loop.simps; intro keeps_rules; simp)

lemma keeps_mappages [keeps_rules]: "keeps (vm_frame s0) (mappages pgdir va sz pa perm)"
  unfolding mappages_def Let_def by (rule keeps_rules)

lemma keeps_deallocuvm_loop [keeps_rules]: "keeps (vm_frame s0) (deallocuvm_loop n pgdir a oldsz)"
  by (induction n arbitrary: a; subst deallocuvm_loop.simps; unfold Let_def; intro keeps_rules; simp)

lemma keeps_deallocuvm [keeps_rules]: "keeps (vm_frame s0) (deallocuvm pgdir oldsz newsz)"
  unfolding deallocuvm_def by (intro keeps_rules)

lemma keeps_freevm [keeps_rules]: "keeps (vm_frame s0) (freevm pgdir)"
  unfolding freevm_def by (intro keeps_rules)

lemma keeps_setupkvm_loop [keeps_rules]: "keeps (vm_frame s0) (setupkvm_loop pgdir ks)"
  by (induction pgdir ks rule: setupkvm_loop.induct; simp only: setupkvm_loop.simps; intro keeps_rules; simp)

lemma keeps_setupkvm [keeps_rules]: "keeps (vm_frame s0) setupkvm"
  unfolding setupkvm_def by (intro keeps_rules)

lemma keeps_inituvm [keeps_rules]: "keeps (vm_frame s0) (inituvm pgdir init sz)"
  unfolding inituvm_def by (intro keeps_rules)

lemma keeps_allocuvm_loop [keeps_rules]: "keeps (vm_frame s0) (allocuvm_loop n pgdir a oldsz newsz)"
  by (induction n arbitrary: a; subst allocuvm_loop.simps; intro keeps_rules; simp)

lemma keeps_allocuvm [keeps_rules]: "keeps (vm_frame s0) (allocuvm pgdir oldsz newsz)"
  unfolding allocuvm_def by (intro keeps_rules)

lemma keeps_clearpteu [keeps_rules]: "keeps (vm_frame s0) (clearpteu pgdir uva)"
  unfolding clearpteu_def by (intro keeps_rules)

lemma keeps_copyuvm_loop [keeps_rules]: "keeps (vm_frame s0) (copyuvm_loop n pgdir d i sz)"
  by (induction n arbitrary: i; subst copyuvm_loop.simps; unfold Let_def; intro keeps_rules; simp)

lemma keeps_copyuvm [keeps_rules]: "keeps (vm_frame s0) (copyuvm pgdir sz)"
  unfolding copyuvm_def by (intro keeps_rules)

lemma keeps_uva2ka [keeps_rules]: "keeps (vm_frame s0) (uva2ka pgdir uva)"
  unfolding uva2ka_def by (intro keeps_rules)

lemma keeps_copyout_loop [keeps_rules]: "keeps (vm_frame s0) (copyout_loop n pgdir va bs)"
  by (induction n arbitrary: va bs; subst copyout_loop.simps; unfold Let_def; intro keeps_rules; simp)

lemma keeps_copyout [keeps_rules]: "keeps (vm_frame s0) (copyout pgdir va bs)"
  unfolding copyout_def by (rule keeps_rules)

lemma keeps_vload8 [keeps_rules]: "keeps (vm_frame s0) (vload8 a)"
  by (rule keepsI) (auto simp: vload8_def split: option.splits)

lemma keeps_vstore8 [keeps_rules]: "keeps (vm_frame s0) (vstore8 a b)"
  by (rule keepsI) (auto simp: vstore8_def split: option.splits)

lemma keeps_vload32 [keeps_rules]: "keeps (vm_frame s0) (vload32 a)"
  unfolding vload32_def by (intro keeps_rules)

lemma keeps_vstore32 [keeps_rules]: "keeps (vm_frame s0) (vstore32 a w)"
  unfolding vstore32_def by (intro keeps_rules)

end
