(* ===== verification/Proc.thy ===== *)
theory Proc
  imports Vm
begin

text \<open>
  The process table of \<open>proc.c\<close>: slots, sleeping and waking, the two schedulers and the calls
  that reap children and report their times. \<open>p->parent\<close> and \<open>c->proc\<close> are slot numbers. A
  function that calls \<open>swtch\<close> is cut there: \<open>sched\<close> ends with the processor given to the
  scheduler, \<open>sleep\<close> with \<open>Sleeps\<close>, the scheduler with the process it has started; what the code
  does when it gets the processor back is a definition of its own (\<open>sleep_resume\<close>, \<open>yield_resume\<close>,
  \<open>scheduler_resume\<close>). Both kernels share the code but for the scheduler and the priority.
\<close>

section \<open>The table\<close>

datatype procstate = UNUSED | EMBRYO | SLEEPING | RUNNABLE | RUNNING | ZOMBIE

record proc =
  p_sz :: u32
  p_pgdir :: u32
  p_kstack :: u32
  p_state :: procstate
  p_pid :: u32
  p_parent :: "nat option"
  p_tf :: u32
  p_context :: u32
  p_chan :: "chan option"
  p_killed :: bool
  p_ofile :: "nat option list"
  p_cwd :: "nat option"
  p_name :: string
  p_ctime :: u32
  p_etime :: u32
  p_ttime :: u32
  p_tatime :: u32
  p_priority :: u32

text \<open>
  The part of the kernel's state that \<open>proc.c\<close> owns, and the clock. \<open>k_trapret\<close> and \<open>k_forkret\<close>
  are the addresses of the two routines, the \<open>ts\<close> fields the task state that the hardware reads.
\<close>

record kproc = kstate +
  procs :: "proc list"
  initproc :: "nat option"
  nextpid :: u32
  ticks :: u32
  cpuproc :: "nat option"
  k_trapret :: u32
  k_forkret :: u32
  ts_ss0 :: u16
  ts_esp0 :: u32
  ts_iomb :: u16

definition NPROC :: nat where "NPROC = 64"
definition KSTACKSIZE :: u32 where "KSTACKSIZE = 4096"
definition NOFILE :: nat where "NOFILE = 16"
definition SEG_KDATA :: u16 where "SEG_KDATA = 2"

text \<open>\<open>sizeof(struct trapframe)\<close> and \<open>sizeof(struct context)\<close>, with the offsets used below.\<close>

definition sizeof_trapframe :: u32 where "sizeof_trapframe = 76"
definition sizeof_context :: u32 where "sizeof_context = 20"
definition ctx_ebp :: u32 where "ctx_ebp = 12"
definition ctx_eip :: u32 where "ctx_eip = 16"

text \<open>
  The data segment before \<open>main\<close>: every slot zero, \<open>nextpid\<close> one. The memory and the linker's
  symbols are arguments.
\<close>

definition proc0 :: proc where
  "proc0 = \<lparr>p_sz = 0, p_pgdir = 0, p_kstack = 0, p_state = UNUSED, p_pid = 0, p_parent = None,
     p_tf = 0, p_context = 0, p_chan = None, p_killed = False, p_ofile = replicate NOFILE None,
     p_cwd = None, p_name = [], p_ctime = 0, p_etime = 0, p_ttime = 0, p_tatime = 0, p_priority = 0\<rparr>"

definition boot :: "mem \<Rightarrow> u32 \<Rightarrow> u32 \<Rightarrow> kproc" where
  "boot m kend kdata =
     \<lparr>k_held = {}, k_mem = m, k_freelist = 0, k_use_lock = False, k_end = kend, k_data = kdata,
      k_out = [], k_locking = False, k_kpgdir = 0, k_cr3 = 0,
      procs = replicate NPROC proc0, initproc = None, nextpid = 1, ticks = 0, cpuproc = None,
      k_trapret = KERNLINK, k_forkret = KERNLINK, ts_ss0 = 0, ts_esp0 = 0, ts_iomb = 0\<rparr>"

definition upd_proc :: "nat \<Rightarrow> (proc \<Rightarrow> proc) \<Rightarrow> 'z kproc_scheme \<Rightarrow> (unit, 'z kproc_scheme) res" where
  "upd_proc i f = modM (\<lambda>s. s\<lparr>procs := (procs s)[i := f (procs s ! i)]\<rparr>)"

definition myproc :: "'z kproc_scheme \<Rightarrow> (nat option, 'z kproc_scheme) res" where
  "myproc = getM cpuproc"

text \<open>The current process where the code dereferences it: a null pointer faults.\<close>

definition curproc :: "'z kproc_scheme \<Rightarrow> (nat, 'z kproc_scheme) res" where
  "curproc s = (case cpuproc s of None \<Rightarrow> Panic ''trap'' | Some i \<Rightarrow> Ok i s)"

definition pinit :: "'z kproc_scheme \<Rightarrow> (unit, 'z kproc_scheme) res" where
  "pinit = modM (\<lambda>s. s\<lparr>k_held := k_held s - {L_ptable}\<rparr>)"

section \<open>Allocation of a slot\<close>

fun find_slot :: "(proc \<Rightarrow> bool) \<Rightarrow> nat \<Rightarrow> proc list \<Rightarrow> nat option" where
  "find_slot P i [] = None"
| "find_slot P i (p # ps) = (if P p then Some i else find_slot P (Suc i) ps)"

definition allocproc :: "'z kproc_scheme \<Rightarrow> (nat option, 'z kproc_scheme) res" where
  "allocproc =
     thenM (acquire L_ptable)
     (bindM (getM (\<lambda>s. find_slot (\<lambda>p. p_state p = UNUSED) 0 (procs s))) (\<lambda>found.
     case found of
       None \<Rightarrow> thenM (release L_ptable) (retM None)
     | Some i \<Rightarrow>
       bindM (getM nextpid) (\<lambda>pid.
       bindM (getM ticks) (\<lambda>now.
       thenM (upd_proc i (\<lambda>p. p\<lparr>p_state := EMBRYO, p_pid := pid, p_ctime := now, p_etime := 0\<rparr>))
       (thenM (modM (\<lambda>s. s\<lparr>nextpid := pid + 1\<rparr>))
       (thenM (release L_ptable)
       (bindM kalloc (\<lambda>kstack.
       thenM (upd_proc i (\<lambda>p. p\<lparr>p_kstack := kstack\<rparr>))
       (if kstack = 0 then thenM (upd_proc i (\<lambda>p. p\<lparr>p_state := UNUSED\<rparr>)) (retM None)
        else
          let sp = kstack + KSTACKSIZE;
              tf = sp - sizeof_trapframe;
              ret = tf - 4;
              ctx = ret - sizeof_context
          in thenM (upd_proc i (\<lambda>p. p\<lparr>p_tf := tf\<rparr>))
            (bindM (getM k_trapret) (\<lambda>trapret.
             thenM (poke ret trapret)
            (thenM (upd_proc i (\<lambda>p. p\<lparr>p_context := ctx\<rparr>))
            (thenM (memsetM ctx 0 sizeof_context)
            (bindM (getM k_forkret) (\<lambda>forkret.
             thenM (poke (ctx + ctx_eip) forkret)
            (retM (Some i)))))))))))))))))"

section \<open>Address space of a process\<close>

definition switchuvm :: "nat option \<Rightarrow> 'z kproc_scheme \<Rightarrow> (unit, 'z kproc_scheme) res" where
  "switchuvm q =
     (case q of None \<Rightarrow> panic ''switchuvm: no process''
      | Some i \<Rightarrow>
        bindM (getM (\<lambda>s. procs s ! i)) (\<lambda>p.
        if p_kstack p = 0 then panic ''switchuvm: no kstack''
        else if p_pgdir p = 0 then panic ''switchuvm: no pgdir''
        else modM (\<lambda>s. s\<lparr>ts_ss0 := push_bit 3 SEG_KDATA, ts_esp0 := p_kstack p + KSTACKSIZE,
               ts_iomb := 0xFFFF, k_cr3 := V2P (p_pgdir p)\<rparr>)))"

definition growproc :: "u32 \<Rightarrow> 'z kproc_scheme \<Rightarrow> (u32, 'z kproc_scheme) res" where
  "growproc n =
     bindM curproc (\<lambda>cur.
     bindM (getM (\<lambda>s. procs s ! cur)) (\<lambda>p.
     let sz = p_sz p;
         finish = (\<lambda>sz. thenM (upd_proc cur (\<lambda>p. p\<lparr>p_sz := sz\<rparr>))
                       (thenM (switchuvm (Some cur)) (retM 0)))
     in if sint n > 0 then
          bindM (allocuvm (p_pgdir p) sz (sz + n)) (\<lambda>sz.
          if sz = 0 then retM (-1) else finish sz)
        else if sint n < 0 then
          bindM (deallocuvm (p_pgdir p) sz (sz + n)) (\<lambda>sz.
          if sz = 0 then retM (-1) else finish sz)
        else finish sz))"

section \<open>Giving up the processor\<close>

text \<open>
  \<open>sched\<close> up to its \<open>swtch\<close>. Every \<open>acquire\<close> is one \<open>pushcli\<close>, so \<open>ncli\<close> is the number of locks
  held, and interrupts are off while there is one.
\<close>

definition sched :: "'z kproc_scheme \<Rightarrow> (unit, 'z kproc_scheme) res" where
  "sched =
     bindM (getM k_held) (\<lambda>held.
     if L_ptable \<notin> held then panic ''sched ptable.lock''
     else if card held \<noteq> 1 then panic ''sched locks''
     else bindM curproc (\<lambda>i.
     bindM (getM (\<lambda>s. p_state (procs s ! i))) (\<lambda>st.
     if st = RUNNING then panic ''sched running'' else retM ())))"

definition yield :: "'z kproc_scheme \<Rightarrow> (unit, 'z kproc_scheme) res" where
  "yield =
     thenM (acquire L_ptable)
     (bindM curproc (\<lambda>i.
     thenM (upd_proc i (\<lambda>p. p\<lparr>p_state := RUNNABLE\<rparr>)) sched))"

definition yield_resume :: "'z kproc_scheme \<Rightarrow> (unit, 'z kproc_scheme) res" where
  "yield_resume = release L_ptable"

text \<open>
  \<open>sleep\<close> and \<open>wakeup\<close> are given as the sequences of their statements, which other processors see one at a time. The
  lock argument of \<open>sleep\<close> is never null in the kernel.
\<close>

fun run_all :: "('s \<Rightarrow> (unit, 's) res) list \<Rightarrow> 's \<Rightarrow> (unit, 's) res" where
  "run_all [] = retM ()"
| "run_all (m # ms) = thenM m (run_all ms)"

definition sleep_parts :: "chan \<Rightarrow> lockid \<Rightarrow> nat \<Rightarrow> ('z kproc_scheme \<Rightarrow> (unit, 'z kproc_scheme) res) list" where
  "sleep_parts ch lk i =
     (if lk \<noteq> L_ptable then [acquire L_ptable, release lk] else [])
     @ [upd_proc i (\<lambda>p. p\<lparr>p_chan := Some ch\<rparr>),
        upd_proc i (\<lambda>p. p\<lparr>p_state := SLEEPING\<rparr>),
        sched]"

definition sleep :: "chan \<Rightarrow> lockid \<Rightarrow> 'z kproc_scheme \<Rightarrow> ('a, 'z kproc_scheme) res" where
  "sleep ch lk =
     bindM myproc (\<lambda>q.
     case q of None \<Rightarrow> panic ''sleep''
     | Some i \<Rightarrow>
       thenM (run_all (sleep_parts ch lk i)) (Sleeps ch))"

definition sleep_resume :: "lockid \<Rightarrow> 'z kproc_scheme \<Rightarrow> (unit, 'z kproc_scheme) res" where
  "sleep_resume lk =
     bindM curproc (\<lambda>i.
     thenM (upd_proc i (\<lambda>p. p\<lparr>p_chan := None\<rparr>))
     (whenM (lk \<noteq> L_ptable) (thenM (release L_ptable) (acquire lk))))"

definition wakeup1_proc :: "chan option \<Rightarrow> proc \<Rightarrow> proc" where
  "wakeup1_proc ch p = (if p_state p = SLEEPING \<and> p_chan p = ch then p\<lparr>p_state := RUNNABLE\<rparr> else p)"

definition wakeup1 :: "chan option \<Rightarrow> 'z kproc_scheme \<Rightarrow> (unit, 'z kproc_scheme) res" where
  "wakeup1 ch = modM (\<lambda>s. s\<lparr>procs := map (wakeup1_proc ch) (procs s)\<rparr>)"

definition wakeup_parts :: "chan \<Rightarrow> ('z kproc_scheme \<Rightarrow> (unit, 'z kproc_scheme) res) list" where
  "wakeup_parts ch = [acquire L_ptable, wakeup1 (Some ch), release L_ptable]"

definition wakeup :: "chan \<Rightarrow> 'z kproc_scheme \<Rightarrow> (unit, 'z kproc_scheme) res" where
  "wakeup ch = run_all (wakeup_parts ch)"

definition kill :: "u32 \<Rightarrow> 'z kproc_scheme \<Rightarrow> (u32, 'z kproc_scheme) res" where
  "kill pid =
     thenM (acquire L_ptable)
     (bindM (getM (\<lambda>s. find_slot (\<lambda>p. p_pid p = pid) 0 (procs s))) (\<lambda>found.
     case found of
       Some i \<Rightarrow>
         thenM (upd_proc i (\<lambda>p. p\<lparr>p_killed := True\<rparr>))
         (thenM (upd_proc i (\<lambda>p. if p_state p = SLEEPING then p\<lparr>p_state := RUNNABLE\<rparr> else p))
         (thenM (release L_ptable) (retM 0)))
     | None \<Rightarrow> thenM (release L_ptable) (retM (-1))))"

section \<open>Reaping children\<close>

text \<open>
  The scan of \<open>wait\<close> and \<open>procstat\<close>: the first child of \<open>cur\<close> that is a zombie and, for
  \<open>procstat\<close>, has the given pid, with \<open>havekids\<close>.
\<close>

fun child_scan :: "nat \<Rightarrow> (proc \<Rightarrow> bool) \<Rightarrow> nat \<Rightarrow> proc list \<Rightarrow> bool \<Rightarrow> nat option \<times> bool" where
  "child_scan cur wanted i [] havekids = (None, havekids)"
| "child_scan cur wanted i (p # ps) havekids =
     (if p_parent p \<noteq> Some cur then child_scan cur wanted (Suc i) ps havekids
      else if wanted p \<and> p_state p = ZOMBIE then (Some i, True)
      else child_scan cur wanted (Suc i) ps True)"

text \<open>The statements that free a zombie and its slot.\<close>

definition reap :: "nat \<Rightarrow> 'z kproc_scheme \<Rightarrow> (unit, 'z kproc_scheme) res" where
  "reap i =
     bindM (getM (\<lambda>s. procs s ! i)) (\<lambda>p.
     thenM (kfree (p_kstack p))
     (thenM (upd_proc i (\<lambda>p. p\<lparr>p_kstack := 0\<rparr>))
     (thenM (freevm (p_pgdir p))
     (upd_proc i (\<lambda>p. p\<lparr>p_pid := 0, p_parent := None, p_name := [], p_killed := False,
        p_state := UNUSED\<rparr>)))))"

text \<open>One turn of the loop of \<open>wait\<close>, with the table locked.\<close>

definition wait_pass :: "'z kproc_scheme \<Rightarrow> (u32, 'z kproc_scheme) res" where
  "wait_pass =
     bindM curproc (\<lambda>cur.
     bindM (getM (\<lambda>s. child_scan cur (\<lambda>_. True) 0 (procs s) False)) (\<lambda>(found, havekids).
     case found of
       Some i \<Rightarrow>
         bindM (getM (\<lambda>s. p_pid (procs s ! i))) (\<lambda>pid.
         thenM (reap i) (thenM (release L_ptable) (retM pid)))
     | None \<Rightarrow>
         bindM (getM ticks) (\<lambda>now.
         thenM (upd_proc cur (\<lambda>p. p\<lparr>p_etime := now\<rparr>))
         (bindM (getM (\<lambda>s. p_killed (procs s ! cur))) (\<lambda>killed.
         if \<not> havekids \<or> killed then thenM (release L_ptable) (retM (-1))
         else sleep (Ch_proc cur) L_ptable)))))"

definition wait :: "'z kproc_scheme \<Rightarrow> (u32, 'z kproc_scheme) res" where
  "wait = thenM (acquire L_ptable) wait_pass"

definition wait_resume :: "'z kproc_scheme \<Rightarrow> (u32, 'z kproc_scheme) res" where
  "wait_resume = thenM (sleep_resume L_ptable) wait_pass"

text \<open>
  \<open>struct pstat\<close> in user memory: creation time, end time, total time and turnaround time, and in
  the kernel with priorities the priority.
\<close>

definition put_pstat :: "bool \<Rightarrow> u32 \<Rightarrow> proc \<Rightarrow> 'z kproc_scheme \<Rightarrow> (unit, 'z kproc_scheme) res" where
  "put_pstat with_prio pstat p =
     thenM (vstore32 pstat (p_ctime p))
     (thenM (vstore32 (pstat + 4) (p_etime p))
     (thenM (vstore32 (pstat + 8) (p_etime p - p_ctime p))
     (bindM (vload32 (pstat + 8)) (\<lambda>ttime.
     thenM (vstore32 (pstat + 12) ttime)
     (whenM with_prio (vstore32 (pstat + 16) (p_priority p)))))))"

definition procstat_pass :: "bool \<Rightarrow> u32 \<Rightarrow> u32 \<Rightarrow> 'z kproc_scheme \<Rightarrow> (u32, 'z kproc_scheme) res" where
  "procstat_pass with_prio processid pstat =
     bindM curproc (\<lambda>cur.
     bindM (getM (\<lambda>s. child_scan cur (\<lambda>p. p_pid p = processid) 0 (procs s) False)) (\<lambda>(found, havechild).
     case found of
       Some i \<Rightarrow>
         bindM (getM (\<lambda>s. procs s ! i)) (\<lambda>p.
         thenM (whenM (pstat \<noteq> 0) (put_pstat with_prio pstat p))
         (thenM (reap i) (thenM (release L_ptable) (retM processid))))
     | None \<Rightarrow>
         bindM (getM ticks) (\<lambda>now.
         thenM (upd_proc cur (\<lambda>p. p\<lparr>p_etime := now\<rparr>))
         (bindM (getM (\<lambda>s. p_killed (procs s ! cur))) (\<lambda>killed.
         if \<not> havechild \<or> killed then thenM (release L_ptable) (retM (-1))
         else sleep (Ch_proc cur) L_ptable)))))"

text \<open>\<open>procstat\<close> of the two kernels.\<close>

definition procstat :: "u32 \<Rightarrow> u32 \<Rightarrow> 'z kproc_scheme \<Rightarrow> (u32, 'z kproc_scheme) res" where
  "procstat processid pstat = thenM (acquire L_ptable) (procstat_pass False processid pstat)"

definition procstat_prio :: "u32 \<Rightarrow> u32 \<Rightarrow> 'z kproc_scheme \<Rightarrow> (u32, 'z kproc_scheme) res" where
  "procstat_prio processid pstat = thenM (acquire L_ptable) (procstat_pass True processid pstat)"

definition procstat_resume :: "bool \<Rightarrow> u32 \<Rightarrow> u32 \<Rightarrow> 'z kproc_scheme \<Rightarrow> (u32, 'z kproc_scheme) res" where
  "procstat_resume with_prio processid pstat =
     thenM (sleep_resume L_ptable) (procstat_pass with_prio processid pstat)"

section \<open>The schedulers\<close>

text \<open>The loop of the FCFS kernel that finds \<open>minP\<close>.\<close>

fun fcfs_scan :: "proc list \<Rightarrow> nat list \<Rightarrow> nat option \<Rightarrow> nat option" where
  "fcfs_scan t [] minP = minP"
| "fcfs_scan t (p # ps) minP =
     (if p_state (t ! p) \<noteq> RUNNABLE then fcfs_scan t ps minP
      else case minP of
        Some m \<Rightarrow> if slt (p_ctime (t ! p)) (p_ctime (t ! m)) then fcfs_scan t ps (Some p)
                  else fcfs_scan t ps minP
      | None \<Rightarrow> fcfs_scan t ps (Some p))"

definition fcfs_pick :: "proc list \<Rightarrow> nat option" where
  "fcfs_pick t = fcfs_scan t [0..<length t] None"

text \<open>
  The kernel with priorities: the first runnable slot from \<open>p\<close> on, then the loop over \<open>p1\<close> that
  finds \<open>highP\<close>.
\<close>

fun high_scan :: "proc list \<Rightarrow> nat list \<Rightarrow> nat \<Rightarrow> nat" where
  "high_scan t [] highP = highP"
| "high_scan t (p1 # ps) highP =
     (if p_state (t ! p1) = RUNNABLE \<and> slt (p_priority (t ! p1)) (p_priority (t ! highP))
      then high_scan t ps p1 else high_scan t ps highP)"

fun prio_scan :: "proc list \<Rightarrow> nat list \<Rightarrow> nat option" where
  "prio_scan t [] = None"
| "prio_scan t (p # ps) =
     (if p_state (t ! p) \<noteq> RUNNABLE then prio_scan t ps
      else Some (high_scan t [0..<length t] p))"

definition prio_pick :: "nat \<Rightarrow> proc list \<Rightarrow> nat option" where
  "prio_pick from t = prio_scan t [from..<length t]"

text \<open>Starting the chosen process, up to \<open>swtch\<close>; and what follows when the processor is back.\<close>

definition run_proc :: "nat \<Rightarrow> 'z kproc_scheme \<Rightarrow> (unit, 'z kproc_scheme) res" where
  "run_proc i =
     thenM (modM (\<lambda>s. s\<lparr>cpuproc := Some i\<rparr>))
     (thenM (switchuvm (Some i))
     (upd_proc i (\<lambda>p. p\<lparr>p_state := RUNNING\<rparr>)))"

definition run_done :: "'z kproc_scheme \<Rightarrow> (unit, 'z kproc_scheme) res" where
  "run_done = thenM switchkvm (modM (\<lambda>s. s\<lparr>cpuproc := None\<rparr>))"

text \<open>
  One turn of the FCFS scheduler's loop, up to \<open>swtch\<close> (\<open>Some\<close> process started) or, with nothing
  to run, to its end (\<open>None\<close>).
\<close>

definition scheduler :: "'z kproc_scheme \<Rightarrow> (nat option, 'z kproc_scheme) res" where
  "scheduler =
     thenM (acquire L_ptable)
     (bindM (getM (\<lambda>s. fcfs_pick (procs s))) (\<lambda>minP.
     case minP of
       Some i \<Rightarrow> thenM (run_proc i) (retM (Some i))
     | None \<Rightarrow> thenM (release L_ptable) (retM None)))"

definition scheduler_resume :: "'z kproc_scheme \<Rightarrow> (unit, 'z kproc_scheme) res" where
  "scheduler_resume = thenM run_done (release L_ptable)"

text \<open>
  The scheduler with priorities runs processes inside the scan, with the lock held from one to
  the next; \<open>p = highP\<close> moves the scan to the process that has run.
\<close>

definition scheduler_prio_from :: "nat \<Rightarrow> 'z kproc_scheme \<Rightarrow> (nat option, 'z kproc_scheme) res" where
  "scheduler_prio_from p =
     bindM (getM (\<lambda>s. prio_pick p (procs s))) (\<lambda>highP.
     case highP of
       Some i \<Rightarrow> thenM (run_proc i) (retM (Some i))
     | None \<Rightarrow> thenM (release L_ptable) (retM None))"

definition scheduler_prio :: "'z kproc_scheme \<Rightarrow> (nat option, 'z kproc_scheme) res" where
  "scheduler_prio = thenM (acquire L_ptable) (scheduler_prio_from 0)"

definition scheduler_prio_resume :: "nat \<Rightarrow> 'z kproc_scheme \<Rightarrow> (nat option, 'z kproc_scheme) res" where
  "scheduler_prio_resume i = thenM run_done (scheduler_prio_from (Suc i))"

section \<open>Listings\<close>

definition TAB :: char where "TAB = CHR 0x09"
definition NL :: char where "NL = CHR 0x0A"

fun procdump_state :: "procstate \<Rightarrow> string" where
  "procdump_state UNUSED = ''unused''"
| "procdump_state EMBRYO = ''embryo''"
| "procdump_state SLEEPING = ''sleep ''"
| "procdump_state RUNNABLE = ''runble''"
| "procdump_state RUNNING = ''run   ''"
| "procdump_state ZOMBIE = ''zombie''"

definition procdump :: "'z kproc_scheme \<Rightarrow> (unit, 'z kproc_scheme) res" where
  "procdump =
     forM [0..<NPROC] (\<lambda>i.
     bindM (getM (\<lambda>s. procs s ! i)) (\<lambda>p.
     if p_state p = UNUSED then retM () else
     thenM (cprintf ''%d %s %s'' [A_int (p_pid p), A_str (procdump_state (p_state p)), A_str (p_name p)])
     (thenM (whenM (p_state p = SLEEPING)
       (bindM (peek (p_context p + ctx_ebp)) (\<lambda>ebp.
        bindM (getM (\<lambda>s. getcallerpcs (k_mem s) (ebp + 8))) (\<lambda>pcs.
        forM (takeWhile (\<lambda>pc. pc \<noteq> 0) pcs) (\<lambda>pc. cprintf '' %p'' [A_int pc])))))
     (cprintf [NL] []))))"

fun ps_state :: "procstate \<Rightarrow> string" where
  "ps_state st =
     (if st = SLEEPING then ''SLEEPING'' else if st = RUNNING then ''RUNNING''
      else if st = ZOMBIE then ''ZOMBIE'' else ''WAITING'')"

definition ps_header :: string where
  "ps_header = ''Process ID '' @ [TAB] @ ''  Process State '' @ [TAB] @ ''  Process Name '' @ [TAB]
     @ ''  Creation Time '' @ [TAB] @ ''  End Time '' @ [TAB] @ ''  Total Time '' @ [NL]"

definition ps_format :: string where
  "ps_format = ''%d '' @ [TAB, TAB] @ '' %s '' @ [TAB, TAB] @ '' %s '' @ [TAB, TAB] @ '' %d ''
     @ [TAB, TAB, TAB] @ ''  %d '' @ [TAB, TAB, TAB] @ '' %d '' @ [NL]"

definition proc_ps :: "'z kproc_scheme \<Rightarrow> (u32, 'z kproc_scheme) res" where
  "proc_ps =
     thenM (acquire L_ptable)
     (thenM (cprintf ps_header [])
     (thenM (forM [0..<NPROC] (\<lambda>i.
       bindM (getM (\<lambda>s. p_state (procs s ! i))) (\<lambda>st.
       if st = UNUSED then retM () else
       bindM (getM ticks) (\<lambda>now.
       thenM (upd_proc i (\<lambda>p. p\<lparr>p_etime := now\<rparr>))
       (bindM (getM (\<lambda>s. procs s ! i)) (\<lambda>p.
       let total_time = p_etime p - p_ctime p in
       cprintf ps_format [A_int (p_pid p), A_str (ps_state (p_state p)), A_str (p_name p),
         A_int (p_ctime p), A_int (p_etime p), A_int total_time]))))))
     (thenM (release L_ptable) (retM 0))))"

end
