(* ===== verification/Scheduling.thy ===== *)
theory Scheduling
  imports Proc
begin

text \<open>
  What the two schedulers choose. A policy is a function from the table to a slot together with
  the key it minimises; the FCFS choice breaks ties towards the lowest slot, which makes it stable
  under the clock's \<open>yield\<close>. The choice functions are the loops of the code.
\<close>

section \<open>Policies\<close>

abbreviation runnable :: "proc list \<Rightarrow> nat \<Rightarrow> bool" where
  "runnable t i \<equiv> i < length t \<and> p_state (t ! i) = RUNNABLE"

locale min_policy =
  fixes pick :: "proc list \<Rightarrow> nat option"
    and key :: "proc \<Rightarrow> int"
  assumes pick_None: "pick t = None \<longleftrightarrow> (\<forall>i. \<not> runnable t i)"
    and pick_runnable: "pick t = Some i \<Longrightarrow> runnable t i"
    and pick_least: "pick t = Some i \<Longrightarrow> runnable t j \<Longrightarrow> key (t ! i) \<le> key (t ! j)"
begin

lemma work_conserving: "runnable t i \<Longrightarrow> \<exists>j. pick t = Some j \<and> key (t ! j) \<le> key (t ! i)"
  using pick_None [of t] pick_least by (cases "pick t") auto

lemma strict_least_is_picked:
  assumes "runnable t i" and "\<And>j. runnable t j \<Longrightarrow> j \<noteq> i \<Longrightarrow> key (t ! i) < key (t ! j)"
  shows "pick t = Some i"
proof -
  obtain j where j: "pick t = Some j" "key (t ! j) \<le> key (t ! i)"
    using work_conserving [OF assms(1)] by blast
  then have "j = i" using assms(2) [of j] pick_runnable [OF j(1)] by (cases "j = i") auto
  with j show ?thesis by simp
qed

end

locale first_min_policy = min_policy +
  assumes ties: "pick t = Some i \<Longrightarrow> runnable t j \<Longrightarrow> j < i \<Longrightarrow> key (t ! i) < key (t ! j)"
begin

lemma pick_iff:
  "pick t = Some i \<longleftrightarrow> runnable t i \<and> (\<forall>j. runnable t j \<longrightarrow>
     key (t ! i) \<le> key (t ! j) \<and> (j < i \<longrightarrow> key (t ! i) < key (t ! j)))" (is "?L \<longleftrightarrow> ?R")
proof
  assume ?L then show ?R using pick_runnable pick_least ties by blast
next
  assume r: ?R
  then obtain j where j: "pick t = Some j" using work_conserving by blast
  then have rj: "runnable t j" by (rule pick_runnable)
  have "key (t ! j) \<le> key (t ! i)" using pick_least [OF j] r by blast
  then have "\<not> j < i" using r rj by (metis leD)
  moreover have "\<not> i < j" using ties [OF j, of i] r rj by (metis leD)
  ultimately show ?L using j by simp
qed

lemma stable:
  assumes "pick t = Some i" and "runnable u i" and "key (u ! i) = key (t ! i)"
    and "\<And>j. runnable u j \<Longrightarrow> runnable t j \<and> key (u ! j) = key (t ! j)"
  shows "pick u = Some i"
  using assms by (auto simp: pick_iff)

end

section \<open>The FCFS loop\<close>

lemma fcfs_scan_result:
  assumes "fcfs_scan t ks m = r"
  shows "case r of
      None \<Rightarrow> m = None \<and> (\<forall>k\<in>set ks. p_state (t ! k) \<noteq> RUNNABLE)
    | Some i \<Rightarrow> (m = Some i \<or> i \<in> set ks \<and> p_state (t ! i) = RUNNABLE)
        \<and> (\<forall>k\<in>set ks. p_state (t ! k) = RUNNABLE \<longrightarrow> sint (p_ctime (t ! i)) \<le> sint (p_ctime (t ! k)))
        \<and> (\<forall>k. m = Some k \<longrightarrow> sint (p_ctime (t ! i)) \<le> sint (p_ctime (t ! k)))"
  using assms
proof (induction ks arbitrary: m)
  case Nil
  then show ?case by (cases r) auto
next
  case (Cons k ks)
  show ?case
  proof (cases "p_state (t ! k) = RUNNABLE")
    case False
    then have "fcfs_scan t ks m = r" using Cons.prems by simp
    from Cons.IH [OF this] False show ?thesis by (cases r) auto
  next
    case True
    show ?thesis
    proof (cases "\<exists>j. m = Some j \<and> \<not> slt (p_ctime (t ! k)) (p_ctime (t ! j))")
      case True
      then have "fcfs_scan t ks m = r"
        using Cons.prems \<open>p_state (t ! k) = RUNNABLE\<close> by auto
      from Cons.IH [OF this] True show ?thesis by (cases r) (auto intro: order_trans)
    next
      case False
      then have "fcfs_scan t ks (Some k) = r"
        using Cons.prems \<open>p_state (t ! k) = RUNNABLE\<close> by (cases m) auto
      from Cons.IH [OF this] False True show ?thesis
        by (cases r) (auto intro: order_trans)
    qed
  qed
qed

lemma fcfs_scan_append: "fcfs_scan t (ks @ ls) m = fcfs_scan t ls (fcfs_scan t ks m)"
  by (induction t ks m rule: fcfs_scan.induct) (auto split: option.split)

lemma fcfs_scan_replaces:
  "fcfs_scan t ks (Some m) = Some i \<Longrightarrow> i \<noteq> m \<Longrightarrow> slt (p_ctime (t ! i)) (p_ctime (t ! m))"
proof (induction ks arbitrary: m)
  case (Cons k ks)
  show ?case
  proof (cases "p_state (t ! k) = RUNNABLE \<and> slt (p_ctime (t ! k)) (p_ctime (t ! m))")
    case True
    with Cons.prems Cons.IH [of k] show ?thesis by (cases "i = k") auto
  next
    case False
    with Cons.prems Cons.IH [of m] show ?thesis by (auto split: if_split_asm)
  qed
qed simp

lemma fcfs_scan_tie:
  assumes "fcfs_scan t [0..<n] None = Some i" and "k < i" and "i < n" and "p_state (t ! k) = RUNNABLE"
  shows "slt (p_ctime (t ! i)) (p_ctime (t ! k))"
proof -
  have "[0..<n] = [0..<i] @ [i..<n]" using assms(3) upt_add_eq_append [of 0 i "n - i"] by simp
  then have r: "fcfs_scan t [i..<n] (fcfs_scan t [0..<i] None) = Some i"
    using assms(1) by (simp only: fcfs_scan_append)
  obtain j where j: "fcfs_scan t [0..<i] None = Some j" "j < i"
      "sint (p_ctime (t ! j)) \<le> sint (p_ctime (t ! k))"
    using fcfs_scan_result [of t "[0..<i]" None, OF refl] assms(2,4)
    by (cases "fcfs_scan t [0..<i] None") auto
  with r fcfs_scan_replaces [of t "[i..<n]" j i] show ?thesis by auto
qed

interpretation fcfs: first_min_policy fcfs_pick "\<lambda>p. sint (p_ctime p)"
proof
  fix t :: "proc list" and i j
  note r = fcfs_scan_result [of t "[0..<length t]" None, OF refl]
  show "fcfs_pick t = None \<longleftrightarrow> (\<forall>i. \<not> runnable t i)"
    using r by (cases "fcfs_pick t") (auto simp: fcfs_pick_def)
  assume i: "fcfs_pick t = Some i"
  then show ri: "runnable t i" using r by (auto simp: fcfs_pick_def)
  assume j: "runnable t j"
  show "sint (p_ctime (t ! i)) \<le> sint (p_ctime (t ! j))" using r i j by (auto simp: fcfs_pick_def)
  assume "j < i"
  then show "sint (p_ctime (t ! i)) < sint (p_ctime (t ! j))"
    using fcfs_scan_tie [of t "length t" i j] i ri j by (simp add: fcfs_pick_def)
qed

section \<open>The loops of the scheduler with priorities\<close>

lemma high_scan_result:
  "high_scan t ks h \<in> insert h {k \<in> set ks. p_state (t ! k) = RUNNABLE}
   \<and> (\<forall>k\<in>set ks. p_state (t ! k) = RUNNABLE \<longrightarrow>
        sint (p_priority (t ! high_scan t ks h)) \<le> sint (p_priority (t ! k)))
   \<and> sint (p_priority (t ! high_scan t ks h)) \<le> sint (p_priority (t ! h))"
  by (induction t ks h rule: high_scan.induct) (auto intro: order_trans less_imp_le)

lemma high_scan_same:
  "(\<forall>k\<in>set ks. p_state (t ! k) = RUNNABLE \<longrightarrow> sint (p_priority (t ! h)) \<le> sint (p_priority (t ! k)))
   \<Longrightarrow> high_scan t ks h = h"
  by (induction t ks h rule: high_scan.induct) auto

text \<open>The loop over \<open>p1\<close> moves only to a smaller number, and so to the first slot that has the smallest.\<close>

lemma high_scan_first:
  "sorted_wrt (<) ks \<Longrightarrow> high_scan t ks h = h \<or>
     sint (p_priority (t ! high_scan t ks h)) < sint (p_priority (t ! h)) \<and>
     (\<forall>k\<in>set ks. p_state (t ! k) = RUNNABLE \<longrightarrow> k < high_scan t ks h \<longrightarrow>
        sint (p_priority (t ! high_scan t ks h)) < sint (p_priority (t ! k)))"
proof (induction t ks h rule: high_scan.induct)
  case (2 t p1 ps h)
  show ?case
  proof (cases "p_state (t ! p1) = RUNNABLE \<and> sint (p_priority (t ! p1)) < sint (p_priority (t ! h))")
    case True
    with 2 show ?thesis by (cases "high_scan t ps p1 = p1") auto
  next
    case False
    with 2 show ?thesis by (cases "high_scan t ps h = h") auto
  qed
qed simp

lemma prio_scan_result:
  "prio_scan t ks =
     (case find (\<lambda>k. p_state (t ! k) = RUNNABLE) ks of None \<Rightarrow> None
      | Some p \<Rightarrow> Some (high_scan t [0..<length t] p))"
  by (induction ks) auto

lemma find_upt:
  "find P [m..<n] = Some k \<longleftrightarrow> m \<le> k \<and> k < n \<and> P k \<and> (\<forall>j. m \<le> j \<longrightarrow> j < k \<longrightarrow> \<not> P j)"
  "find P [m..<n] = None \<longleftrightarrow> (\<forall>k. m \<le> k \<longrightarrow> k < n \<longrightarrow> \<not> P k)"
proof -
  show "find P [m..<n] = Some k \<longleftrightarrow> m \<le> k \<and> k < n \<and> P k \<and> (\<forall>j. m \<le> j \<longrightarrow> j < k \<longrightarrow> \<not> P j)"
  proof (induction "n - m" arbitrary: m)
    case (Suc d)
    then have m: "m < n" and IH: "find P [Suc m..<n] = Some k \<longleftrightarrow>
        Suc m \<le> k \<and> k < n \<and> P k \<and> (\<forall>j. Suc m \<le> j \<longrightarrow> j < k \<longrightarrow> \<not> P j)"
      using Suc.hyps(1) [of "Suc m"] by auto
    show ?case
    proof (cases "P m")
      case True
      with m show ?thesis by (auto simp: upt_conv_Cons intro: le_antisym)
    next
      case False
      then have "m \<le> k \<and> P k \<longleftrightarrow> Suc m \<le> k \<and> P k"
        by (metis Suc_leD Suc_leI le_neq_implies_less)
      moreover have "(\<forall>j. m \<le> j \<longrightarrow> j < k \<longrightarrow> \<not> P j) \<longleftrightarrow> (\<forall>j. Suc m \<le> j \<longrightarrow> j < k \<longrightarrow> \<not> P j)"
        using False by (metis Suc_leD Suc_leI le_neq_implies_less)
      ultimately show ?thesis using False m IH by (simp add: upt_conv_Cons) blast
    qed
  qed auto
  show "find P [m..<n] = None \<longleftrightarrow> (\<forall>k. m \<le> k \<longrightarrow> k < n \<longrightarrow> \<not> P k)"
    by (auto simp: find_None_iff)
qed

lemma prio_pick_None: "prio_pick from t = None \<longleftrightarrow> (\<forall>i. from \<le> i \<longrightarrow> \<not> runnable t i)"
  by (auto simp: prio_pick_def prio_scan_result find_upt split: option.split)

lemma prio_pick_Some:
  assumes "prio_pick from t = Some h"
  shows "runnable t h"
    and "runnable t j \<Longrightarrow> sint (p_priority (t ! h)) \<le> sint (p_priority (t ! j))"
proof -
  obtain p where p: "find (\<lambda>k. p_state (t ! k) = RUNNABLE) [from..<length t] = Some p"
      and h: "h = high_scan t [0..<length t] p"
    using assms by (auto simp: prio_pick_def prio_scan_result split: option.split_asm)
  then have rp: "runnable t p" by (simp add: find_upt)
  note r = high_scan_result [of t "[0..<length t]" p]
  show "runnable t h" using r rp h by auto
  show "runnable t j \<Longrightarrow> sint (p_priority (t ! h)) \<le> sint (p_priority (t ! j))" using r h by auto
qed

lemma prio_pick_turn:
  assumes "runnable t p" and "from \<le> p" and "\<And>j. runnable t j \<Longrightarrow> from \<le> j \<Longrightarrow> p \<le> j"
    and "\<And>j. runnable t j \<Longrightarrow> sint (p_priority (t ! p)) \<le> sint (p_priority (t ! j))"
  shows "prio_pick from t = Some p"
proof -
  have "find (\<lambda>k. p_state (t ! k) = RUNNABLE) [from..<length t] = Some p"
    using assms(1,2) assms(3) [of j for j] by (auto simp: find_upt) (metis less_trans not_le)
  then show ?thesis
    using assms(4) high_scan_same [of "[0..<length t]" t p]
    by (simp add: prio_pick_def prio_scan_result)
qed

text \<open>What the scan starts: the next runnable slot, if nobody has a smaller number, and otherwise the first slot that has the smallest.\<close>

definition first_least :: "proc list \<Rightarrow> nat \<Rightarrow> bool" where
  "first_least t h \<longleftrightarrow> runnable t h \<and> (\<forall>j. runnable t j \<longrightarrow> sint (p_priority (t ! h)) \<le> sint (p_priority (t ! j))
     \<and> (j < h \<longrightarrow> sint (p_priority (t ! h)) < sint (p_priority (t ! j))))"

lemma prio_pick_other:
  assumes "runnable t p" and "k \<le> p" and "\<And>j. runnable t j \<Longrightarrow> k \<le> j \<Longrightarrow> p \<le> j"
    and "runnable t q" and "sint (p_priority (t ! q)) < sint (p_priority (t ! p))"
  shows "\<exists>h. prio_pick k t = Some h \<and> first_least t h"
proof -
  have "find (\<lambda>j. p_state (t ! j) = RUNNABLE) [k..<length t] = Some p"
    using assms(1,2) assms(3) [of j for j] by (auto simp: find_upt) (metis less_trans not_le)
  then have h: "prio_pick k t = Some (high_scan t [0..<length t] p)" (is "_ = Some ?h") by (simp add: prio_pick_def prio_scan_result)
  note le = prio_pick_Some [OF h]
  have "?h \<noteq> p" using le(2) [OF assms(4)] assms(5) by auto
  then have "sint (p_priority (t ! ?h)) < sint (p_priority (t ! j))" if "runnable t j" "j < ?h" for j
    using that high_scan_first [where ks = "[0..<length t]" and t = t and h = p] by auto
  with h le show ?thesis by (auto simp: first_least_def)
qed

lemma prio_pick_first:
  assumes "runnable t q"
  shows "\<exists>h. prio_pick 0 t = Some h \<and> first_least t h"
proof -
  define p where "p = (LEAST j. runnable t j)"
  have p: "runnable t p" "\<And>j. runnable t j \<Longrightarrow> p \<le> j" using LeastI [of "runnable t" q] Least_le [of "runnable t"] assms by (auto simp: p_def)
  show ?thesis
  proof (cases "\<forall>j. runnable t j \<longrightarrow> sint (p_priority (t ! p)) \<le> sint (p_priority (t ! j))")
    case True
    then have "prio_pick 0 t = Some p" using p by (intro prio_pick_turn) auto
    moreover have "first_least t p" using True p by (force simp: first_least_def)
    ultimately show ?thesis by blast
  next
    case False
    then show ?thesis using prio_pick_other [where t = t and p = p and k = 0] p by (auto simp: not_le)
  qed
qed

interpretation prio: min_policy "prio_pick 0" "\<lambda>p. sint (p_priority p)"
  by unfold_locales (auto simp: prio_pick_None dest: prio_pick_Some)

section \<open>Starting and stopping processes\<close>

text \<open>A process that is runnable has a kernel stack and a page table, or \<open>switchuvm\<close> panics.\<close>

definition dispatchable :: "proc list \<Rightarrow> bool" where
  "dispatchable t \<longleftrightarrow> (\<forall>p\<in>set t. p_state p = RUNNABLE \<longrightarrow> p_kstack p \<noteq> 0 \<and> p_pgdir p \<noteq> 0)"

text \<open>The state in which process \<open>i\<close> has the processor.\<close>

definition on_cpu :: "nat \<Rightarrow> 'z kproc_scheme \<Rightarrow> 'z kproc_scheme" where
  "on_cpu i s = s\<lparr>cpuproc := Some i, ts_ss0 := 0x10, ts_esp0 := p_kstack (procs s ! i) + 4096,
     ts_iomb := 0xFFFF, k_cr3 := V2P (p_pgdir (procs s ! i)),
     procs := (procs s)[i := (procs s ! i)\<lparr>p_state := RUNNING\<rparr>]\<rparr>"

lemma dispatchableD:
  "dispatchable t \<Longrightarrow> runnable t i \<Longrightarrow> p_kstack (t ! i) \<noteq> 0 \<and> p_pgdir (t ! i) \<noteq> 0"
  by (auto simp: dispatchable_def)

lemma run_proc_run:
  assumes "p_kstack (procs s ! i) \<noteq> 0" and "p_pgdir (procs s ! i) \<noteq> 0"
  shows "run_proc i s = Ok () (on_cpu i s)"
  using assms
  by (simp add: run_proc_def switchuvm_def on_cpu_def upd_proc_def monad_simps KSTACKSIZE_def SEG_KDATA_def)

lemma scheduler_run:
  assumes "L_ptable \<notin> k_held s" and "dispatchable (procs s)"
  shows "scheduler s = (case fcfs_pick (procs s) of
      None \<Rightarrow> Ok None s
    | Some i \<Rightarrow> Ok (Some i) (on_cpu i (s\<lparr>k_held := insert L_ptable (k_held s)\<rparr>)))"
proof (cases "fcfs_pick (procs s)")
  case None
  with assms show ?thesis
    by (simp add: scheduler_def monad_simps acquire_def release_def)
next
  case (Some i)
  from fcfs.pick_runnable [OF this] dispatchableD [OF assms(2), of i] assms(1) Some show ?thesis
    by (simp add: scheduler_def monad_simps acquire_def run_proc_run)
qed

lemma scheduler_prio_from_run:
  assumes "L_ptable \<in> k_held s" and "dispatchable (procs s)"
  shows "scheduler_prio_from p s = (case prio_pick p (procs s) of
      None \<Rightarrow> Ok None (s\<lparr>k_held := k_held s - {L_ptable}\<rparr>)
    | Some i \<Rightarrow> Ok (Some i) (on_cpu i s))"
proof (cases "prio_pick p (procs s)")
  case None
  with assms show ?thesis by (simp add: scheduler_prio_from_def monad_simps release_def)
next
  case (Some i)
  from prio_pick_Some(1) [OF this] dispatchableD [OF assms(2), of i] Some show ?thesis
    by (simp add: scheduler_prio_from_def monad_simps run_proc_run)
qed

text \<open>A small table for the examples: a process of each creation time and priority.\<close>

definition proc_at :: "procstate \<Rightarrow> u32 \<Rightarrow> u32 \<Rightarrow> proc" where
  "proc_at st c pr = proc0\<lparr>p_state := st, p_ctime := c, p_priority := pr,
     p_kstack := KERNBASE + 0x200000, p_pgdir := KERNBASE + 0x201000\<rparr>"

definition demo :: "proc list \<Rightarrow> kproc" where
  "demo t = (boot (\<lambda>_. 0) KERNLINK KERNLINK)\<lparr>procs := t\<rparr>"

lemma proc_at_fields [simp]:
  "p_state (proc_at st c pr) = st" "p_ctime (proc_at st c pr) = c" "p_priority (proc_at st c pr) = pr"
  "p_kstack (proc_at st c pr) \<noteq> 0" "p_pgdir (proc_at st c pr) \<noteq> 0"
  "p_parent (proc_at st c pr) = None" "p_killed (proc_at st c pr) = False"
  "p_chan (proc_at st c pr) = None" "p_pid (proc_at st c pr) = 0"
  by (simp_all add: proc_at_def proc0_def KERNBASE_def)

lemma demo_fields [simp]: "procs (demo t) = t" "k_held (demo t) = {}"
  by (simp_all add: demo_def boot_def)

section \<open>Properties of the schedulers\<close>

text \<open>
  C1: A turn of the FCFS scheduler never panics. It starts a runnable process whose creation
  time, as a signed number, is least, and the one in the lowest slot among those of equal creation
  time: that process is \<open>RUNNING\<close> and on the processor, in its own address space, with \<open>ptable.lock\<close>
  held, and nothing else has changed. When no process is runnable the turn changes nothing.
\<close>
theorem fcfs_dispatch:
  assumes "L_ptable \<notin> k_held s" and "dispatchable (procs s)"
  shows "case scheduler s of
      Ok (Some i) t \<Rightarrow> runnable (procs s) i
        \<and> (\<forall>j. runnable (procs s) j \<longrightarrow>
             sint (p_ctime (procs s ! i)) \<le> sint (p_ctime (procs s ! j))
             \<and> (j < i \<longrightarrow> sint (p_ctime (procs s ! i)) < sint (p_ctime (procs s ! j))))
        \<and> t = on_cpu i (s\<lparr>k_held := insert L_ptable (k_held s)\<rparr>)
    | Ok None t \<Rightarrow> (\<forall>j. \<not> runnable (procs s) j) \<and> t = s
    | _ \<Rightarrow> False"
proof (cases "fcfs_pick (procs s)")
  case None
  with fcfs.pick_None [of "procs s"] show ?thesis by (simp add: scheduler_run [OF assms])
next
  case (Some i)
  with fcfs.pick_iff [of "procs s" i] show ?thesis by (simp add: scheduler_run [OF assms])
qed

theorem fcfs_dispatch_witness:
  "case scheduler (demo [proc_at SLEEPING 1 0, proc_at RUNNABLE 9 0, proc_at RUNNABLE 4 0]) of
     Ok (Some i) t \<Rightarrow> i = 2 \<and> cpuproc t = Some 2 | _ \<Rightarrow> False"
proof -
  let ?t = "[proc_at SLEEPING 1 0, proc_at RUNNABLE 9 0, proc_at RUNNABLE 4 0]"
  have h: "L_ptable \<notin> k_held (demo ?t)" "dispatchable (procs (demo ?t))"
    by (simp_all add: dispatchable_def)
  have least: "i = 2" if "runnable ?t i" "sint (p_ctime (?t ! i)) \<le> sint (p_ctime (?t ! 2))" for i
  proof -
    have "i = 0 \<or> i = 1 \<or> i = 2" using that(1) by auto
    with that show ?thesis by auto
  qed
  show ?thesis
    using fcfs_dispatch [OF h] least
    by (auto split: res.splits option.splits simp: on_cpu_def)
qed

text \<open>
  C3: FCFS runs a process until it blocks or ends. When the clock makes the running process
  yield and no runnable process comes before it in the order of creation, the scheduler gives the
  processor straight back to it: the three pieces of code in between leave the table as it was.
\<close>
theorem fcfs_no_preemption:
  assumes "k_held s = {}" and "cpuproc s = Some i" and "i < length (procs s)"
    and "p_state (procs s ! i) = RUNNING"
    and "p_kstack (procs s ! i) \<noteq> 0" and "p_pgdir (procs s ! i) \<noteq> 0" and "dispatchable (procs s)"
    and "\<forall>j. runnable (procs s) j \<longrightarrow>
           sint (p_ctime (procs s ! i)) \<le> sint (p_ctime (procs s ! j))
           \<and> (j < i \<longrightarrow> sint (p_ctime (procs s ! i)) < sint (p_ctime (procs s ! j)))"
  shows "\<exists>t. thenM yield (thenM scheduler_resume (bindM scheduler (\<lambda>_. yield_resume))) s = Ok () t
    \<and> procs t = procs s \<and> cpuproc t = Some i \<and> k_held t = {}
    \<and> k_cr3 t = V2P (p_pgdir (procs s ! i))"
proof -
  let ?t = "(procs s)[i := (procs s ! i)\<lparr>p_state := RUNNABLE\<rparr>]"
  define u where "u = s\<lparr>procs := ?t, k_cr3 := V2P (k_kpgdir s), cpuproc := None\<rparr>"
  have y: "yield s = Ok () (s\<lparr>k_held := {L_ptable}, procs := ?t\<rparr>)"
    using assms(1-3) by (simp add: yield_def sched_def monad_simps acquire_def curproc_def upd_proc_def)
  have r: "scheduler_resume (s\<lparr>k_held := {L_ptable}, procs := ?t\<rparr>) = Ok () u"
    using assms(1)
    by (simp add: scheduler_resume_def run_done_def switchkvm_def monad_simps release_def u_def)
  have pick: "fcfs_pick (procs u) = Some i"
    unfolding fcfs.pick_iff using assms(3,8) by (auto simp: u_def nth_list_update)
  have d: "dispatchable (procs u)"
    using assms(5-7) by (auto simp: u_def dispatchable_def dest!: subsetD [OF set_update_subset_insert])
  have sc: "scheduler u = Ok (Some i) (on_cpu i (u\<lparr>k_held := {L_ptable}\<rparr>))"
    using scheduler_run [OF _ d] pick assms(1) by (simp add: u_def)
  have "(procs s ! i)\<lparr>p_state := RUNNING\<rparr> = procs s ! i"
    using assms(4) by (intro proc.equality) simp_all
  then have same: "procs s = (procs s)[i := (procs s ! i)\<lparr>p_state := RUNNING\<rparr>]" by simp
  show ?thesis
    using assms(1,3) same
    by (simp add: thenM_run bindM_run y r sc yield_resume_def release_def on_cpu_def) (simp add: u_def)
qed

theorem fcfs_no_preemption_witness:
  "\<exists>t. thenM yield (thenM scheduler_resume (bindM scheduler (\<lambda>_. yield_resume)))
         ((demo [proc_at RUNNABLE 9 0, proc_at RUNNING 4 0])\<lparr>cpuproc := Some 1\<rparr>) = Ok () t
       \<and> cpuproc t = Some 1"
proof -
  let ?s = "(demo [proc_at RUNNABLE 9 0, proc_at RUNNING 4 0])\<lparr>cpuproc := Some 1\<rparr>"
  have "\<forall>j. runnable (procs ?s) j \<longrightarrow>
      sint (p_ctime (procs ?s ! 1)) \<le> sint (p_ctime (procs ?s ! j))
      \<and> (j < 1 \<longrightarrow> sint (p_ctime (procs ?s ! 1)) < sint (p_ctime (procs ?s ! j)))"
    by (auto simp: less_Suc_eq)
  then show ?thesis
    using fcfs_no_preemption [of ?s 1] by (auto simp: dispatchable_def)
qed

text \<open>
  C2: The scheduler with priorities, wherever its scan is, only starts a runnable process whose
  priority number is least among all runnable processes, in the state \<open>fcfs_dispatch\<close> describes.
  The scan ends, and the lock is released, exactly when no slot from the position of the scan on is
  runnable.
\<close>
theorem prio_dispatch:
  assumes "L_ptable \<in> k_held s" and "dispatchable (procs s)"
  shows "case scheduler_prio_from p s of
      Ok (Some i) t \<Rightarrow> runnable (procs s) i
        \<and> (\<forall>j. runnable (procs s) j \<longrightarrow>
             sint (p_priority (procs s ! i)) \<le> sint (p_priority (procs s ! j)))
        \<and> t = on_cpu i s
    | Ok None t \<Rightarrow> (\<forall>j. p \<le> j \<longrightarrow> \<not> runnable (procs s) j) \<and> t = s\<lparr>k_held := k_held s - {L_ptable}\<rparr>
    | _ \<Rightarrow> False"
proof (cases "prio_pick p (procs s)")
  case None
  with prio_pick_None [of p "procs s"] show ?thesis by (simp add: scheduler_prio_from_run [OF assms])
next
  case (Some i)
  with prio_pick_Some [OF Some] show ?thesis by (simp add: scheduler_prio_from_run [OF assms])
qed

theorem prio_dispatch_witness:
  "case scheduler_prio_from 1 ((demo [proc_at RUNNABLE 0 3, proc_at RUNNABLE 0 7])\<lparr>k_held := {L_ptable}\<rparr>) of
     Ok (Some i) t \<Rightarrow> i = 0 | _ \<Rightarrow> False"
proof -
  let ?t = "[proc_at RUNNABLE 0 3, proc_at RUNNABLE 0 7]"
  let ?s = "(demo ?t)\<lparr>k_held := {L_ptable}\<rparr>"
  have h: "L_ptable \<in> k_held ?s" "dispatchable (procs ?s)" by (simp_all add: dispatchable_def)
  have least: "i = 0" if "runnable ?t i" "sint (p_priority (?t ! i)) \<le> sint (p_priority (?t ! 0))" for i
    using that by (auto simp: less_Suc_eq)
  have one: "runnable ?t 1" by simp
  show ?thesis
    using prio_dispatch [OF h, of 1] least one by (auto split: res.splits option.splits)
qed

text \<open>The scheduler's state when a process has given the processor back.\<close>

definition given_back :: "'z kproc_scheme \<Rightarrow> 'z kproc_scheme" where
  "given_back s = s\<lparr>k_cr3 := V2P (k_kpgdir s), cpuproc := None\<rparr>"

text \<open>
  C38: What the scheduler with priorities starts when process \<open>i\<close> has given the processor back. The first
  runnable slot \<open>n\<close> after \<open>i\<close> has its turn only if no runnable process has a smaller number than it; then the scan goes round
  among those of the smallest number. If one has, the scan falls back to the first slot of the table that has the smallest
  number, which may be \<open>i\<close> again, whoever waits behind. With no runnable slot after \<open>i\<close> the scan ends, the lock is given back, and the
  next scan starts the first slot with the smallest number.
\<close>
theorem prio_round_robin:
  assumes "L_ptable \<in> k_held s" and "dispatchable (procs s)"
  shows "(\<forall>n. runnable (procs s) n \<and> i < n \<and> (\<forall>j. i < j \<and> j < n \<longrightarrow> \<not> runnable (procs s) j) \<longrightarrow>
       (if \<forall>j. runnable (procs s) j \<longrightarrow> sint (p_priority (procs s ! n)) \<le> sint (p_priority (procs s ! j))
        then scheduler_prio_resume i s = Ok (Some n) (on_cpu n (given_back s))
        else \<exists>h. first_least (procs s) h \<and> scheduler_prio_resume i s = Ok (Some h) (on_cpu h (given_back s))))
    \<and> ((\<forall>j. i < j \<longrightarrow> \<not> runnable (procs s) j) \<longrightarrow>
       scheduler_prio_resume i s = Ok None ((given_back s)\<lparr>k_held := k_held s - {L_ptable}\<rparr>)
       \<and> ((\<exists>j. runnable (procs s) j) \<longrightarrow> (\<exists>h. first_least (procs s) h \<and>
            thenM (scheduler_prio_resume i) scheduler_prio s = Ok (Some h) (on_cpu h (given_back s)))))"
proof -
  define gb where "gb = given_back s"
  have lock: "L_ptable \<in> k_held gb" "procs gb = procs s" "k_held gb = k_held s" using assms(1) by (simp_all add: gb_def given_back_def)
  have run: "scheduler_prio_from p gb = (case prio_pick p (procs s) of None \<Rightarrow> Ok None (gb\<lparr>k_held := k_held s - {L_ptable}\<rparr>)
      | Some h \<Rightarrow> Ok (Some h) (on_cpu h gb))" for p
    using scheduler_prio_from_run [of gb p] assms(2) lock by (simp split: option.split)
  have resume: "scheduler_prio_resume i s = scheduler_prio_from (Suc i) gb"
    by (simp add: scheduler_prio_resume_def run_done_def switchkvm_def monad_simps gb_def given_back_def)
  have turn: "if \<forall>j. runnable (procs s) j \<longrightarrow> sint (p_priority (procs s ! n)) \<le> sint (p_priority (procs s ! j))
        then scheduler_prio_resume i s = Ok (Some n) (on_cpu n gb)
        else \<exists>h. first_least (procs s) h \<and> scheduler_prio_resume i s = Ok (Some h) (on_cpu h gb)"
    if n: "runnable (procs s) n" "i < n" and nx: "\<forall>j. i < j \<and> j < n \<longrightarrow> \<not> runnable (procs s) j" for n
  proof (cases "\<forall>j. runnable (procs s) j \<longrightarrow> sint (p_priority (procs s ! n)) \<le> sint (p_priority (procs s ! j))")
    case True
    then have "prio_pick (Suc i) (procs s) = Some n" using n nx by (intro prio_pick_turn) (auto simp: not_le Suc_le_eq)
    with True show ?thesis by (simp add: resume run)
  next
    case False
    then obtain q where q: "runnable (procs s) q" "sint (p_priority (procs s ! q)) < sint (p_priority (procs s ! n))" by (auto simp: not_le)
    have "\<exists>h. prio_pick (Suc i) (procs s) = Some h \<and> first_least (procs s) h"
      using n nx q by (intro prio_pick_other [where p = n and q = q]) (auto simp: not_le Suc_le_eq)
    then show ?thesis unfolding if_not_P [OF False] by (auto simp: resume run)
  qed
  moreover have stop: "scheduler_prio_resume i s = Ok None (gb\<lparr>k_held := k_held s - {L_ptable}\<rparr>)" if "\<forall>j. i < j \<longrightarrow> \<not> runnable (procs s) j"
  proof -
    have "prio_pick (Suc i) (procs s) = None" using that by (simp add: prio_pick_None Suc_le_eq)
    then show ?thesis by (simp add: resume run)
  qed
  moreover have "\<exists>h. first_least (procs s) h \<and> thenM (scheduler_prio_resume i) scheduler_prio s = Ok (Some h) (on_cpu h gb)"
    if none: "\<forall>j. i < j \<longrightarrow> \<not> runnable (procs s) j" and some: "\<exists>j. runnable (procs s) j"
  proof -
    obtain j where "runnable (procs s) j" using some by blast
    then obtain h where "prio_pick 0 (procs s) = Some h" "first_least (procs s) h" using prio_pick_first by blast
    moreover have "scheduler_prio (gb\<lparr>k_held := k_held s - {L_ptable}\<rparr>) = scheduler_prio_from 0 gb"
      using lock(1) by (simp add: scheduler_prio_def thenM_run acquire_def insert_absorb gb_def given_back_def)
    ultimately show ?thesis using stop [OF none] by (auto simp: thenM_run run)
  qed
  ultimately show ?thesis unfolding gb_def [symmetric] by (intro conjI allI impI) blast+
qed

text \<open>The numbers 1, 5, 1: after slot 0 comes slot 0 again, and slot 2, which has the same number, does not get its turn; after slot 2 the table starts from the front.\<close>

theorem prio_round_robin_witness:
  "(\<exists>t. scheduler_prio_resume 0 ((demo [proc_at RUNNABLE 0 1, proc_at RUNNABLE 0 5, proc_at RUNNABLE 0 1])\<lparr>k_held := {L_ptable}\<rparr>) = Ok (Some 0) t)
   \<and> (\<exists>t. thenM (scheduler_prio_resume 2) scheduler_prio
        ((demo [proc_at RUNNABLE 0 1, proc_at RUNNABLE 0 5, proc_at RUNNABLE 0 1])\<lparr>k_held := {L_ptable}\<rparr>) = Ok (Some 0) t)"
proof -
  let ?t = "[proc_at RUNNABLE 0 1, proc_at RUNNABLE 0 5, proc_at RUNNABLE 0 1]"
  let ?s = "(demo ?t)\<lparr>k_held := {L_ptable}\<rparr>"
  have h: "L_ptable \<in> k_held ?s" "dispatchable (procs ?s)" by (simp_all add: dispatchable_def)
  have r: "runnable (procs ?s) j \<longleftrightarrow> j = 0 \<or> j = 1 \<or> j = 2" for j by (auto simp: less_Suc_eq numeral_2_eq_2)
  have zero: "h = 0" if "first_least (procs ?s) h" for h
  proof -
    have "h = 0 \<or> h = 1 \<or> h = 2" "0 < h \<longrightarrow> sint (p_priority (procs ?s ! h)) < sint (p_priority (procs ?s ! 0))"
      using that r [of h] r [of 0] unfolding first_least_def by blast+
    then show ?thesis by auto
  qed
  have small: "\<not> (\<forall>j. runnable (procs ?s) j \<longrightarrow> sint (p_priority (procs ?s ! 1)) \<le> sint (p_priority (procs ?s ! j)))" unfolding r by auto
  have n: "runnable (procs ?s) 1 \<and> 0 < (1 :: nat) \<and> (\<forall>j. 0 < j \<and> j < 1 \<longrightarrow> \<not> runnable (procs ?s) j)" unfolding r by auto
  have "\<exists>h. first_least (procs ?s) h \<and> scheduler_prio_resume 0 ?s = Ok (Some h) (on_cpu h (given_back ?s))"
    using prio_round_robin [OF h, of 0, THEN conjunct1, THEN spec, THEN mp, OF n] unfolding if_not_P [OF small] .
  moreover have "\<forall>j. 2 < j \<longrightarrow> \<not> runnable (procs ?s) j" "\<exists>j. runnable (procs ?s) j" unfolding r by auto
  then have "\<exists>h. first_least (procs ?s) h \<and> thenM (scheduler_prio_resume 2) scheduler_prio ?s = Ok (Some h) (on_cpu h (given_back ?s))"
    using prio_round_robin [OF h, of 2, THEN conjunct2] by blast
  ultimately show ?thesis using zero by blast
qed

end
