(* ===== verification/Proc_Ops.thy ===== *)
theory Proc_Ops
  imports Scheduling
begin

text \<open>
  What the operations on the process table do: sleeping and waking, killing, and reaping children, each on
  every branch. The invariant of the table that they keep is in the theory \<open>Lifecycle\<close>.
\<close>

section \<open>Scans\<close>

lemma find_slot_Some:
  "find_slot P k t = Some i \<longleftrightarrow>
     k \<le> i \<and> i < k + length t \<and> P (t ! (i - k)) \<and> (\<forall>j<i - k. \<not> P (t ! j))"
proof (induction t arbitrary: k)
  case Nil
  then show ?case by simp
next
  case (Cons p t)
  show ?case
  proof (cases "P p")
    case True
    then show ?thesis by (auto simp: nth_Cons')
  next
    case False
    then have "find_slot P k (p # t) = find_slot P (Suc k) t" by simp
    moreover have "k \<le> i \<and> i < k + length (p # t) \<and> P ((p # t) ! (i - k)) \<and> (\<forall>j<i - k. \<not> P ((p # t) ! j))
      \<longleftrightarrow> Suc k \<le> i \<and> i < Suc k + length t \<and> P (t ! (i - Suc k)) \<and> (\<forall>j<i - Suc k. \<not> P (t ! j))"
    proof (cases "Suc k \<le> i")
      case True
      then have e: "i - k = Suc (i - Suc k)" by simp
      show ?thesis using True False by (simp add: e All_less_Suc2)
    next
      case nle: False
      then show ?thesis using False by (cases "i = k") auto
    qed
    ultimately show ?thesis by (simp only: Cons.IH)
  qed
qed

lemma find_slot_None: "find_slot P k t = None \<longleftrightarrow> (\<forall>p\<in>set t. \<not> P p)"
  by (induction t arbitrary: k) auto

lemma child_scan_result:
  "child_scan cur wanted k t h =
     (case find_slot (\<lambda>p. p_parent p = Some cur \<and> wanted p \<and> p_state p = ZOMBIE) k t of
        Some i \<Rightarrow> (Some i, True)
      | None \<Rightarrow> (None, h \<or> (\<exists>p\<in>set t. p_parent p = Some cur)))"
  by (induction t arbitrary: k h) (auto split: option.split)

section \<open>Sleeping and waking\<close>

lemma sleep_run:
  assumes "cpuproc s = Some i" and "k_held s = {lk}"
    and "i < length (procs s)"
  shows "sleep ch lk s = Sleeps ch (s\<lparr>k_held := {L_ptable},
    procs := (procs s)[i := (procs s ! i)\<lparr>p_chan := Some ch, p_state := SLEEPING\<rparr>]\<rparr>)"
proof (cases "lk = L_ptable")
  case True
  with assms have e: "s\<lparr>k_held := {L_ptable}\<rparr> = s" by simp
  show ?thesis
    using assms True
    by (simp add: sleep_def sleep_parts_def myproc_def sched_def curproc_def upd_proc_def monad_simps)
next
  case False
  then have "insert L_ptable {lk} - {lk} = {L_ptable}" by auto
  with assms False show ?thesis
    by (simp add: sleep_def sleep_parts_def myproc_def sched_def curproc_def upd_proc_def monad_simps
        acquire_def release_def)
qed

lemma wakeup_run:
  "L_ptable \<notin> k_held s \<Longrightarrow> wakeup ch s = Ok () (s\<lparr>procs := map (wakeup1_proc (Some ch)) (procs s)\<rparr>)"
  by (simp add: wakeup_def wakeup_parts_def wakeup1_def monad_simps acquire_def release_def)

lemma scheduler_resume_run:
  assumes "L_ptable \<in> k_held s"
  shows "scheduler_resume s =
    Ok () (s\<lparr>k_cr3 := V2P (k_kpgdir s), cpuproc := None, k_held := k_held s - {L_ptable}\<rparr>)"
  using assms by (simp add: scheduler_resume_def run_done_def switchkvm_def monad_simps release_def)

lemma sleep_resume_run:
  assumes "cpuproc s = Some i" and "k_held s = {L_ptable}"
  shows "sleep_resume lk s = Ok () (s\<lparr>k_held := {lk},
    procs := (procs s)[i := (procs s ! i)\<lparr>p_chan := None\<rparr>]\<rparr>)"
proof (cases "lk = L_ptable")
  case True
  with assms show ?thesis by (simp add: sleep_resume_def curproc_def upd_proc_def monad_simps)
next
  case False
  with assms show ?thesis
    by (simp add: sleep_resume_def curproc_def upd_proc_def monad_simps acquire_def release_def)
qed

text \<open>
  One after the other: a process that holds just the lock \<open>lk\<close> sleeps, a \<open>wakeup\<close> of its channel after the scheduler has
  taken over makes it runnable, and when it is started again it holds \<open>lk\<close> and sleeps on nothing. That no wakeup comes too early is
  the subject of the theory \<open>Processors\<close>.
\<close>
theorem sleep_wakeup_cycle:
  assumes "cpuproc s = Some i" and "k_held s = {lk}" and "i < length (procs s)"
    and "p_kstack (procs s ! i) \<noteq> 0" and "p_pgdir (procs s ! i) \<noteq> 0"
  shows "\<exists>t u. sleep ch lk s = Sleeps ch t \<and> p_state (procs t ! i) = SLEEPING
      \<and> thenM scheduler_resume (wakeup ch) t = Ok () u
      \<and> p_state (procs u ! i) = RUNNABLE \<and> k_held u = {}
      \<and> (\<exists>v. thenM (acquire L_ptable) (thenM (run_proc i) (sleep_resume lk)) u = Ok () v
           \<and> k_held v = {lk} \<and> p_state (procs v ! i) = RUNNING \<and> p_chan (procs v ! i) = None)"
proof -
  define t where "t = s\<lparr>k_held := {L_ptable},
    procs := (procs s)[i := (procs s ! i)\<lparr>p_chan := Some ch, p_state := SLEEPING\<rparr>]\<rparr>"
  have s: "sleep ch lk s = Sleeps ch t" using sleep_run [OF assms(1-3)] by (simp add: t_def)
  define r where "r = t\<lparr>k_cr3 := V2P (k_kpgdir t), cpuproc := None, k_held := {}\<rparr>"
  define u where "u = r\<lparr>procs := map (wakeup1_proc (Some ch)) (procs r)\<rparr>"
  have w: "thenM scheduler_resume (wakeup ch) t = Ok () u"
    by (simp add: thenM_run scheduler_resume_run wakeup_run u_def r_def t_def)
  have i: "i < length (procs u)" using assms(3) by (simp add: u_def r_def t_def)
  have p: "procs u ! i = (procs s ! i)\<lparr>p_chan := Some ch, p_state := RUNNABLE\<rparr>" "k_held u = {}"
    using assms(3) by (simp_all add: u_def r_def t_def wakeup1_proc_def)
  define u' where "u' = u\<lparr>k_held := {L_ptable}\<rparr>"
  have "run_proc i u' = Ok () (on_cpu i u')"
    using assms(4,5) p by (intro run_proc_run) (simp_all add: u'_def)
  moreover have "sleep_resume lk (on_cpu i u') = Ok () ((on_cpu i u')\<lparr>k_held := {lk},
      procs := (procs (on_cpu i u'))[i := (procs (on_cpu i u') ! i)\<lparr>p_chan := None\<rparr>]\<rparr>)"
    by (rule sleep_resume_run) (simp_all add: on_cpu_def u'_def)
  ultimately have "thenM (acquire L_ptable) (thenM (run_proc i) (sleep_resume lk)) u =
      Ok () ((on_cpu i u')\<lparr>k_held := {lk},
      procs := (procs (on_cpu i u'))[i := (procs (on_cpu i u') ! i)\<lparr>p_chan := None\<rparr>]\<rparr>)"
    using p(2) by (simp add: thenM_run acquire_def u'_def)
  moreover have "p_state (procs t ! i) = SLEEPING" using assms(3) by (simp add: t_def)
  ultimately show ?thesis
    using s w p i by (intro exI [of _ t] exI [of _ u]) (simp add: on_cpu_def u'_def)
qed

text \<open>
  \<open>wakeup\<close> makes runnable exactly the processes that sleep on the channel and changes no
  other field of any process; afterwards none sleeps on the channel.
\<close>
theorem wakeup_exact:
  assumes "L_ptable \<notin> k_held s"
  shows "\<exists>t. wakeup ch s = Ok () t \<and> k_held t = k_held s \<and> length (procs t) = length (procs s)
    \<and> (\<forall>i<length (procs s).
         (if p_state (procs s ! i) = SLEEPING \<and> p_chan (procs s ! i) = Some ch
          then procs t ! i = (procs s ! i)\<lparr>p_state := RUNNABLE\<rparr> else procs t ! i = procs s ! i)
         \<and> \<not> (p_state (procs t ! i) = SLEEPING \<and> p_chan (procs t ! i) = Some ch))"
  using assms by (simp add: wakeup_run wakeup1_proc_def)

theorem wakeup_exact_witness:
  "\<exists>t. wakeup Ch_ticks (demo [(proc_at SLEEPING 0 0)\<lparr>p_chan := Some Ch_ticks\<rparr>, proc_at SLEEPING 0 0]) = Ok () t
     \<and> p_state (procs t ! 0) = RUNNABLE \<and> p_state (procs t ! 1) = SLEEPING"
  using wakeup_exact [of "demo [(proc_at SLEEPING 0 0)\<lparr>p_chan := Some Ch_ticks\<rparr>, proc_at SLEEPING 0 0]" Ch_ticks]
  by (auto simp: proc_at_def proc0_def)

section \<open>Killing\<close>

definition killed_proc :: "proc \<Rightarrow> proc" where
  "killed_proc p = p\<lparr>p_killed := True, p_state := (if p_state p = SLEEPING then RUNNABLE else p_state p)\<rparr>"

lemma kill_run:
  assumes "L_ptable \<notin> k_held s"
  shows "kill pid s = (case find_slot (\<lambda>p. p_pid p = pid) 0 (procs s) of
      None \<Rightarrow> Ok (-1) s
    | Some i \<Rightarrow> Ok 0 (s\<lparr>procs := (procs s)[i := killed_proc (procs s ! i)]\<rparr>))"
proof (cases "find_slot (\<lambda>p. p_pid p = pid) 0 (procs s)")
  case None
  with assms show ?thesis by (simp add: kill_def monad_simps acquire_def release_def)
next
  case (Some i)
  then have i: "i < length (procs s)" by (simp add: find_slot_Some)
  show ?thesis
  proof (cases "p_state (procs s ! i) = SLEEPING")
    case True
    with assms Some i show ?thesis
      by (simp add: kill_def monad_simps acquire_def release_def upd_proc_def killed_proc_def)
  next
    case False
    then have "killed_proc (procs s ! i) = (procs s ! i)\<lparr>p_killed := True\<rparr>"
      by (intro proc.equality) (simp_all add: killed_proc_def)
    with assms Some i False show ?thesis
      by (simp add: kill_def monad_simps acquire_def release_def upd_proc_def)
  qed
qed

text \<open>
  \<open>kill\<close> returns 0 exactly when some slot of the table carries the pid, marks the first such
  slot and no other, and makes its process runnable if it was asleep; otherwise it returns -1 and
  changes nothing. The slot need not be in use: \<open>kill(0)\<close> finds a free slot, whose pid is 0, marks
  it and reports success.
\<close>
theorem kill_first_match:
  assumes "L_ptable \<notin> k_held s"
  shows "if \<exists>i<length (procs s). p_pid (procs s ! i) = pid
    then \<exists>i t. kill pid s = Ok 0 t \<and> i < length (procs s) \<and> p_pid (procs s ! i) = pid
       \<and> (\<forall>j<i. p_pid (procs s ! j) \<noteq> pid)
       \<and> procs t = (procs s)[i := killed_proc (procs s ! i)] \<and> p_killed (procs t ! i)
    else kill pid s = Ok (-1) s"
proof (cases "find_slot (\<lambda>p. p_pid p = pid) 0 (procs s)")
  case None
  then have "\<not> (\<exists>i<length (procs s). p_pid (procs s ! i) = pid)" by (auto simp: find_slot_None)
  then show ?thesis using kill_run [OF assms, of pid] None by simp
next
  case (Some i)
  then have i: "i < length (procs s)" "p_pid (procs s ! i) = pid" "\<forall>j<i. p_pid (procs s ! j) \<noteq> pid"
    by (auto simp: find_slot_Some)
  have "kill pid s = Ok 0 (s\<lparr>procs := (procs s)[i := killed_proc (procs s ! i)]\<rparr>)"
    using kill_run [OF assms, of pid] Some by simp
  moreover have "p_killed ((procs s)[i := killed_proc (procs s ! i)] ! i)"
    using i(1) by (simp add: killed_proc_def)
  ultimately show ?thesis using i by (simp, blast)
qed

theorem kill_first_match_witness:
  "\<exists>t. kill 0 (demo [(proc_at RUNNING 0 0)\<lparr>p_pid := 1\<rparr>, proc0]) = Ok 0 t
     \<and> p_state (procs t ! 1) = UNUSED \<and> p_killed (procs t ! 1)"
proof -
  let ?t = "[(proc_at RUNNING 0 0)\<lparr>p_pid := 1\<rparr>, proc0]"
  have "\<exists>i<length (procs (demo ?t)). p_pid (procs (demo ?t) ! i) = 0"
    by (rule exI [of _ 1]) (simp add: proc0_def)
  then obtain i t where k: "kill 0 (demo ?t) = Ok 0 t" "i < length (procs (demo ?t))"
      "p_pid (procs (demo ?t) ! i) = 0" "procs t = (procs (demo ?t))[i := killed_proc (procs (demo ?t) ! i)]"
    using kill_first_match [of "demo ?t" 0] by (simp only: if_True) auto
  moreover from k have "i = 1" by (auto simp: less_Suc_eq)
  ultimately show ?thesis by (auto simp: killed_proc_def proc0_def)
qed

section \<open>Reaping\<close>

lemma vm_frame_kproc:
  assumes "vm_frame s t"
  shows "procs t = procs s" "nextpid t = nextpid s" "ticks t = ticks s" "cpuproc t = cpuproc s"
    "initproc t = initproc s" "k_held t = k_held s" "kproc.more t = kproc.more s"
  using assms by (cases s; cases t; simp add: vm_frame_def)+

lemma kfree_frame: "kfree v s = Ok u t \<Longrightarrow> vm_frame s t"
  using keepsD [OF keeps_kfree] vm_frame_refl by blast

lemma freevm_frame: "freevm v s = Ok u t \<Longrightarrow> vm_frame s t"
  using keepsD [OF keeps_freevm] vm_frame_refl by blast

definition reaped :: "proc \<Rightarrow> proc" where
  "reaped p = p\<lparr>p_kstack := 0, p_pid := 0, p_parent := None, p_name := [], p_killed := False, p_state := UNUSED\<rparr>"

lemma reap_Ok:
  assumes "reap i s = Ok u t" and "i < length (procs s)"
  shows "procs t = (procs s)[i := reaped (procs s ! i)]" "k_held t = k_held s" "cpuproc t = cpuproc s"
    "nextpid t = nextpid s" "ticks t = ticks s" "initproc t = initproc s" "kproc.more t = kproc.more s"
proof -
  obtain s1 s2 where 1: "kfree (p_kstack (procs s ! i)) s = Ok () s1"
    and 2: "freevm (p_pgdir (procs s ! i)) (s1\<lparr>procs := (procs s1)[i := (procs s1 ! i)\<lparr>p_kstack := 0\<rparr>]\<rparr>) = Ok () s2"
    and t: "t = s2\<lparr>procs := (procs s2)[i := (procs s2 ! i)\<lparr>p_pid := 0, p_parent := None, p_name := [],
        p_killed := False, p_state := UNUSED\<rparr>]\<rparr>"
    using assms(1) by (auto simp: reap_def monad_Ok_iff upd_proc_def)
  note f = vm_frame_kproc [OF kfree_frame [OF 1]] vm_frame_kproc [OF freevm_frame [OF 2]]
  show "procs t = (procs s)[i := reaped (procs s ! i)]"
    using assms(2) by (simp add: t f reaped_def)
  show "k_held t = k_held s" "cpuproc t = cpuproc s" "nextpid t = nextpid s" "ticks t = ticks s"
    "initproc t = initproc s" "kproc.more t = kproc.more s"
    by (simp_all add: t f)
qed

lemma reap_no_sleep: "reap i s \<noteq> Sleeps c t"
proof -
  have k: "kfree v s \<noteq> Sleeps c t" for v and s t :: "'a kproc_scheme"
    by (auto simp: kfree_def bindM_run thenM_run acquire_def release_def)
  have w: "walkpgdir pg va a s \<noteq> Sleeps c t" for pg va a and s t :: "'a kproc_scheme"
    by (auto simp: walkpgdir_def Let_def kalloc_def bindM_run thenM_run acquire_def release_def peek_def poke_def
        memsetM_def split: res.splits if_splits)
  have d: "deallocuvm_loop n pg a z s \<noteq> Sleeps c t" for n pg a z and s t :: "'a kproc_scheme"
    by (induction n arbitrary: a s; subst deallocuvm_loop.simps)
      (auto simp: Let_def bindM_run thenM_run peek_def poke_def w k split: res.splits)
  have f: "forM xs (\<lambda>i. bindM (peek (pg + 4 * of_nat i)) (\<lambda>e.
        whenM (e AND PTE_P \<noteq> 0) (kfree (P2V (PTE_ADDR e))))) s \<noteq> Sleeps c t" for xs pg and s t :: "'a kproc_scheme"
    by (induction xs arbitrary: s) (auto simp: bindM_run thenM_run peek_def k split: res.splits)
  show ?thesis
    by (auto simp: reap_def freevm_def deallocuvm_def upd_proc_def bindM_run thenM_run k d f split: res.splits if_splits)
qed

text \<open>The first child of \<open>cur\<close> that is a zombie and is wanted.\<close>

definition zombie_child :: "nat \<Rightarrow> (proc \<Rightarrow> bool) \<Rightarrow> proc list \<Rightarrow> nat option" where
  "zombie_child cur wanted t = find_slot (\<lambda>p. p_parent p = Some cur \<and> wanted p \<and> p_state p = ZOMBIE) 0 t"

lemma zombie_child_index: "zombie_child cur w t = Some i \<Longrightarrow> i < length t"
  by (simp add: zombie_child_def find_slot_Some)

text \<open>
  \<open>wait\<close>, called with no lock held. If a child has exited, the first such child in the table
  is reaped and its pid returned: its slot is free again and no other slot has changed. If there
  is none, the call returns -1 when the caller has no children or has been killed, and otherwise
  the caller is asleep on its own slot with only \<open>ptable.lock\<close> held. It never sleeps while a
  child is a zombie.
\<close>
theorem wait_outcome:
  assumes "k_held s = {}" and "cpuproc s = Some cur" and "cur < length (procs s)"
  shows "case zombie_child cur (\<lambda>_. True) (procs s) of
      Some i \<Rightarrow> (case wait s of
          Ok pid t \<Rightarrow> pid = p_pid (procs s ! i) \<and> procs t = (procs s)[i := reaped (procs s ! i)] \<and> k_held t = {}
        | Sleeps c t \<Rightarrow> False | _ \<Rightarrow> True)
    | None \<Rightarrow>
        (if (\<forall>p\<in>set (procs s). p_parent p \<noteq> Some cur) \<or> p_killed (procs s ! cur)
         then wait s = Ok (-1) (s\<lparr>procs := (procs s)[cur := (procs s ! cur)\<lparr>p_etime := ticks s\<rparr>]\<rparr>)
         else wait s = Sleeps (Ch_proc cur) (s\<lparr>k_held := {L_ptable}, procs := (procs s)[cur := (procs s ! cur)
            \<lparr>p_etime := ticks s, p_chan := Some (Ch_proc cur), p_state := SLEEPING\<rparr>]\<rparr>))"
proof (cases "zombie_child cur (\<lambda>_. True) (procs s)")
  case None
  define u where "u = s\<lparr>k_held := {L_ptable}, procs := (procs s)[cur := (procs s ! cur)\<lparr>p_etime := ticks s\<rparr>]\<rparr>"
  have z: "sleep (Ch_proc cur) L_ptable u = Sleeps (Ch_proc cur) (u\<lparr>k_held := {L_ptable},
     procs := (procs u)[cur := (procs u ! cur)\<lparr>p_chan := Some (Ch_proc cur), p_state := SLEEPING\<rparr>]\<rparr>)"
    using assms by (intro sleep_run) (simp_all add: u_def)
  have n: "find_slot (\<lambda>p. p_parent p = Some cur \<and> True \<and> p_state p = ZOMBIE) 0 (procs s) = None"
    using None by (simp add: zombie_child_def)
  have k: "u\<lparr>k_held := {}\<rparr> = s\<lparr>procs := (procs s)[cur := (procs s ! cur)\<lparr>p_etime := ticks s\<rparr>]\<rparr>"
    using assms(1) by (simp add: u_def)
  show ?thesis
    using assms None n z k
    by (auto simp: wait_def wait_pass_def curproc_def upd_proc_def monad_simps acquire_def release_def
        child_scan_result u_def)
next
  case (Some i)
  let ?u = "s\<lparr>k_held := {L_ptable}\<rparr>"
  have i: "i < length (procs ?u)" using zombie_child_index [OF Some] by simp
  have f: "find_slot (\<lambda>p. p_parent p = Some cur \<and> True \<and> p_state p = ZOMBIE) 0 (procs s) = Some i"
    using Some by (simp add: zombie_child_def)
  have w: "wait s = thenM (reap i) (thenM (release L_ptable) (retM (p_pid (procs s ! i)))) ?u"
    using assms f
    by (simp add: wait_def wait_pass_def curproc_def monad_simps acquire_def child_scan_result)
  show ?thesis
  proof (cases "reap i ?u")
    case (Ok a t)
    with Some w reap_Ok [OF Ok i] show ?thesis by (simp add: thenM_run release_def)
  next
    case (Sleeps c t)
    with reap_no_sleep show ?thesis by blast
  qed (use Some w in \<open>simp_all add: thenM_run\<close>)
qed

theorem wait_outcome_witness:
  "\<exists>t. wait ((demo [proc_at RUNNING 0 0, (proc_at SLEEPING 3 0)\<lparr>p_parent := Some 0\<rparr>])\<lparr>cpuproc := Some 0\<rparr>)
     = Sleeps (Ch_proc 0) t \<and> p_state (procs t ! 0) = SLEEPING"
proof -
  let ?s = "(demo [proc_at RUNNING 0 0, (proc_at SLEEPING 3 0)\<lparr>p_parent := Some 0\<rparr>])\<lparr>cpuproc := Some 0\<rparr>"
  have "zombie_child 0 (\<lambda>_. True) (procs ?s) = None"
    by (simp add: zombie_child_def)
  with wait_outcome [of ?s 0] show ?thesis by simp
qed

end
