(* ===== verification/Bio.thy ===== *)
theory Bio
  imports Proc_Ops
begin

text \<open>
  Sleep locks (\<open>sleeplock.c\<close>), the buffer cache (\<open>bio.c\<close>) and the in-memory disk it reads and
  writes (\<open>memide.c\<close>). The cache's doubly linked list is the list of its buffers, the most recently
  used first; the last section shows that the pointer operations of \<open>binit\<close> and \<open>brelse\<close> do to the
  links what the model does to the list. The disk is its image before the system came up and
  the sequence of block writes it has received since.
\<close>

section \<open>Sleep locks\<close>

record sleeplock =
  sl_locked :: bool
  sl_pid :: u32

text \<open>
  A sleep lock is a field of a buffer or an inode; the operations take its spinlock \<open>l\<close>, its
  channel \<open>ch\<close> and the way to read and to write it.
\<close>

definition initsleeplock :: "(sleeplock \<Rightarrow> 's \<Rightarrow> 's) \<Rightarrow> 's \<Rightarrow> (unit, 's) res" where
  "initsleeplock put = modM (put \<lparr>sl_locked = False, sl_pid = 0\<rparr>)"

definition acquiresleep :: "lockid \<Rightarrow> chan \<Rightarrow> ('z kproc_scheme \<Rightarrow> sleeplock) \<Rightarrow>
    (sleeplock \<Rightarrow> 'z kproc_scheme \<Rightarrow> 'z kproc_scheme) \<Rightarrow> 'z kproc_scheme \<Rightarrow> (unit, 'z kproc_scheme) res" where
  "acquiresleep l ch get put =
     thenM (acquire l)
     (bindM (getM get) (\<lambda>lk.
     if sl_locked lk then sleep ch l
     else bindM curproc (\<lambda>i.
       bindM (getM (\<lambda>s. p_pid (procs s ! i))) (\<lambda>pid.
       thenM (modM (put \<lparr>sl_locked = True, sl_pid = pid\<rparr>))
       (release l)))))"

definition releasesleep :: "lockid \<Rightarrow> chan \<Rightarrow>
    (sleeplock \<Rightarrow> 'z kproc_scheme \<Rightarrow> 'z kproc_scheme) \<Rightarrow> 'z kproc_scheme \<Rightarrow> (unit, 'z kproc_scheme) res" where
  "releasesleep l ch put =
     thenM (acquire l)
     (thenM (modM (put \<lparr>sl_locked = False, sl_pid = 0\<rparr>))
     (thenM (wakeup ch)
     (release l)))"

definition holdingsleep :: "lockid \<Rightarrow> ('z kproc_scheme \<Rightarrow> sleeplock) \<Rightarrow>
    'z kproc_scheme \<Rightarrow> (bool, 'z kproc_scheme) res" where
  "holdingsleep l get =
     thenM (acquire l)
     (bindM (getM get) (\<lambda>lk.
     bindM (if sl_locked lk
            then bindM curproc (\<lambda>i. getM (\<lambda>s. sl_pid lk = p_pid (procs s ! i))) else retM False) (\<lambda>r.
     thenM (release l) (retM r))))"

section \<open>Buffers and the disk\<close>

definition BSIZE :: nat where "BSIZE = 512"
definition NBUF :: nat where "NBUF = 30"

text \<open>The two flag bits are booleans; no other bit of \<open>flags\<close> is used.\<close>

record buf =
  b_valid :: bool
  b_dirty :: bool
  b_dev :: u32
  b_blockno :: u32
  b_lock :: sleeplock
  b_refcnt :: u32
  b_data :: "u8 list"

record kbio = kproc +
  bufs :: "buf list"
  lru :: "nat list"
  disk0 :: "u32 \<Rightarrow> u8 list"
  writes :: "(u32 \<times> u8 list) list"
  disksize :: u32

text \<open>The contents of the disk.\<close>

definition after :: "(u32 \<Rightarrow> u8 list) \<Rightarrow> (u32 \<times> u8 list) list \<Rightarrow> u32 \<Rightarrow> u8 list" where
  "after d ws = foldl (\<lambda>d (n, bs). d(n := bs)) d ws"

definition disk :: "'z kbio_scheme \<Rightarrow> u32 \<Rightarrow> u8 list" where
  "disk s = after (disk0 s) (writes s)"

definition upd_buf :: "nat \<Rightarrow> (buf \<Rightarrow> buf) \<Rightarrow> 'z kbio_scheme \<Rightarrow> 'z kbio_scheme" where
  "upd_buf b f s = s\<lparr>bufs := (bufs s)[b := f (bufs s ! b)]\<rparr>"

abbreviation buf_lock :: "nat \<Rightarrow> 'z kbio_scheme \<Rightarrow> sleeplock" where
  "buf_lock b s \<equiv> b_lock (bufs s ! b)"

abbreviation set_buf_lock :: "nat \<Rightarrow> sleeplock \<Rightarrow> 'z kbio_scheme \<Rightarrow> 'z kbio_scheme" where
  "set_buf_lock b lk \<equiv> upd_buf b (\<lambda>x. x\<lparr>b_lock := lk\<rparr>)"

text \<open>\<open>memide.c\<close>: the disk is memory, so a request is done at once.\<close>

definition iderw :: "nat \<Rightarrow> 'z kbio_scheme \<Rightarrow> (unit, 'z kbio_scheme) res" where
  "iderw b =
     bindM (holdingsleep (L_buf b) (buf_lock b)) (\<lambda>h.
     if \<not> h then panic ''iderw: buf not locked'' else
     bindM (getM (\<lambda>s. bufs s ! b)) (\<lambda>x.
     if b_valid x \<and> \<not> b_dirty x then panic ''iderw: nothing to do''
     else if b_dev x \<noteq> 1 then panic ''iderw: request not for disk 1''
     else bindM (getM disksize) (\<lambda>size.
     if b_blockno x \<ge> size then panic ''iderw: block out of range''
     else thenM (if b_dirty x
        then thenM (modM (upd_buf b (\<lambda>x. x\<lparr>b_dirty := False\<rparr>)))
          (modM (\<lambda>s. s\<lparr>writes := writes s @ [(b_blockno x, b_data x)]\<rparr>))
        else modM (\<lambda>s. upd_buf b (\<lambda>y. y\<lparr>b_data := disk s (b_blockno x)\<rparr>) s))
     (modM (upd_buf b (\<lambda>x. x\<lparr>b_valid := True\<rparr>))))))"

section \<open>The cache\<close>

definition binit :: "'z kbio_scheme \<Rightarrow> (unit, 'z kbio_scheme) res" where
  "binit =
     thenM (modM (\<lambda>s. s\<lparr>k_held := k_held s - {L_bcache}, lru := []\<rparr>))
     (forM [0..<NBUF] (\<lambda>b.
       thenM (initsleeplock (set_buf_lock b))
       (modM (\<lambda>s. s\<lparr>lru := b # lru s\<rparr>))))"

definition bget :: "u32 \<Rightarrow> u32 \<Rightarrow> 'z kbio_scheme \<Rightarrow> (nat, 'z kbio_scheme) res" where
  "bget dev blockno =
     thenM (acquire L_bcache)
     (bindM (getM (\<lambda>s. find (\<lambda>b. b_dev (bufs s ! b) = dev \<and> b_blockno (bufs s ! b) = blockno) (lru s))) (\<lambda>hit.
     case hit of
       Some b \<Rightarrow>
         thenM (modM (upd_buf b (\<lambda>x. x\<lparr>b_refcnt := b_refcnt x + 1\<rparr>)))
         (thenM (release L_bcache)
         (thenM (acquiresleep (L_buf b) (Ch_buf_lock b) (buf_lock b) (set_buf_lock b))
         (retM b)))
     | None \<Rightarrow>
         bindM (getM (\<lambda>s. find (\<lambda>b. b_refcnt (bufs s ! b) = 0 \<and> \<not> b_dirty (bufs s ! b)) (rev (lru s)))) (\<lambda>unused.
         case unused of
           Some b \<Rightarrow>
             thenM (modM (upd_buf b (\<lambda>x. x\<lparr>b_dev := dev, b_blockno := blockno, b_valid := False,
               b_dirty := False, b_refcnt := 1\<rparr>)))
             (thenM (release L_bcache)
             (thenM (acquiresleep (L_buf b) (Ch_buf_lock b) (buf_lock b) (set_buf_lock b))
             (retM b)))
         | None \<Rightarrow> panic ''bget: no buffers'')))"

definition bread :: "u32 \<Rightarrow> u32 \<Rightarrow> 'z kbio_scheme \<Rightarrow> (nat, 'z kbio_scheme) res" where
  "bread dev blockno =
     bindM (bget dev blockno) (\<lambda>b.
     bindM (getM (\<lambda>s. b_valid (bufs s ! b))) (\<lambda>valid.
     thenM (whenM (\<not> valid) (iderw b)) (retM b)))"

definition bwrite :: "nat \<Rightarrow> 'z kbio_scheme \<Rightarrow> (unit, 'z kbio_scheme) res" where
  "bwrite b =
     bindM (holdingsleep (L_buf b) (buf_lock b)) (\<lambda>h.
     if \<not> h then panic ''bwrite'' else
     thenM (modM (upd_buf b (\<lambda>x. x\<lparr>b_dirty := True\<rparr>)))
     (iderw b))"

definition brelse :: "nat \<Rightarrow> 'z kbio_scheme \<Rightarrow> (unit, 'z kbio_scheme) res" where
  "brelse b =
     bindM (holdingsleep (L_buf b) (buf_lock b)) (\<lambda>h.
     if \<not> h then panic ''brelse'' else
     thenM (releasesleep (L_buf b) (Ch_buf_lock b) (set_buf_lock b))
     (thenM (acquire L_bcache)
     (thenM (modM (upd_buf b (\<lambda>x. x\<lparr>b_refcnt := b_refcnt x - 1\<rparr>)))
     (bindM (getM (\<lambda>s. b_refcnt (bufs s ! b))) (\<lambda>refcnt.
     thenM (whenM (refcnt = 0) (modM (\<lambda>s. s\<lparr>lru := b # remove1 b (lru s)\<rparr>)))
     (release L_bcache))))))"

section \<open>The links of the list\<close>

text \<open>
  The \<open>next\<close> and \<open>prev\<close> fields of the buffers; \<open>bcache.head\<close> is the number after the last
  buffer. The two operations are the assignments of \<open>binit\<close> and \<open>brelse\<close>, in their order.
\<close>

type_synonym links = "(nat \<Rightarrow> nat) \<times> (nat \<Rightarrow> nat)"

definition bhead :: nat where "bhead = NBUF"

definition link_front :: "nat \<Rightarrow> links \<Rightarrow> links" where
  "link_front b = (\<lambda>(nxt, prv).
     let nxt = nxt(b := nxt bhead);
         prv = prv(b := bhead);
         prv = prv(nxt bhead := b);
         nxt = nxt(bhead := b)
     in (nxt, prv))"

definition unlink :: "nat \<Rightarrow> links \<Rightarrow> links" where
  "unlink b = (\<lambda>(nxt, prv).
     let prv = prv(nxt b := prv b);
         nxt = nxt(prv b := nxt b)
     in (nxt, prv))"

definition empty_links :: "links \<Rightarrow> links" where
  "empty_links = (\<lambda>(nxt, prv). (nxt(bhead := bhead), prv(bhead := bhead)))"

fun chain :: "links \<Rightarrow> nat list \<Rightarrow> bool" where
  "chain (nxt, prv) (x # y # ys) \<longleftrightarrow> nxt x = y \<and> prv y = x \<and> chain (nxt, prv) (y # ys)"
| "chain _ _ \<longleftrightarrow> True"

text \<open>The links form the ring of the list \<open>l\<close>.\<close>

definition ring :: "links \<Rightarrow> nat list \<Rightarrow> bool" where
  "ring ln l \<longleftrightarrow> chain ln (bhead # l @ [bhead]) \<and> distinct l \<and> bhead \<notin> set l"

lemma chain_split: "chain ln (xs @ y # ys) \<longleftrightarrow> chain ln (xs @ [y]) \<and> chain ln (y # ys)"
proof (induction xs)
  case Nil
  then show ?case by (cases ln) simp
next
  case (Cons x xs)
  then show ?case by (cases ln; cases xs) auto
qed

lemma chain_cong:
  assumes "\<And>x. x \<in> set (butlast xs) \<Longrightarrow> nxt x = nxt' x" and "\<And>x. x \<in> set (tl xs) \<Longrightarrow> prv x = prv' x"
  shows "chain (nxt, prv) xs = chain (nxt', prv') xs"
  using assms
proof (induction "(nxt, prv)" xs rule: chain.induct)
  case (1 x y ys)
  have "chain (nxt, prv) (y # ys) = chain (nxt', prv') (y # ys)"
    using 1(2,3) by (intro 1(1)) (auto dest: in_set_butlastD list.set_sel(2))
  then show ?case using 1(2) [of x] 1(3) [of y] by simp
qed auto

lemma ring_link_front:
  assumes "ring ln l" and "b \<notin> set l" and "b \<noteq> bhead"
  shows "ring (link_front b ln) (b # l)"
proof -
  obtain nxt prv where ln: "ln = (nxt, prv)" by (cases ln)
  obtain q qs where q: "l @ [bhead] = q # qs" by (cases "l @ [bhead]") auto
  have c: "nxt bhead = q" "chain (nxt, prv) (q # qs)"
    using assms(1) by (simp_all add: ring_def ln q)
  have "distinct (l @ [bhead])" "b \<notin> set (l @ [bhead])" using assms by (auto simp: ring_def)
  then have d: "distinct (q # qs)" "b \<notin> set (q # qs)" unfolding q .
  have bl: "butlast (q # qs) = l" using q by (metis butlast_snoc)
  have "chain (nxt(b := nxt bhead, bhead := b), prv(b := bhead, q := b)) (q # qs) = chain (nxt, prv) (q # qs)"
    using d assms by (intro chain_cong) (auto simp: bl ring_def simp del: butlast.simps)
  with c d assms q show ?thesis by (auto simp: ln ring_def link_front_def Let_def)
qed

lemma ring_unlink:
  assumes "ring ln (as @ b # cs)"
  shows "ring (unlink b ln) (as @ cs)"
proof -
  obtain nxt prv where ln: "ln = (nxt, prv)" by (cases ln)
  obtain ps p where p: "bhead # as = ps @ [p]" by (metis append_butlast_last_id list.distinct(1))
  obtain q qs where q: "cs @ [bhead] = q # qs" by (cases "cs @ [bhead]") auto
  have "bhead # (as @ b # cs) @ [bhead] = (ps @ [p]) @ b # q # qs" using p q by simp
  then have c: "chain ln (ps @ [p])" "nxt b = q" "prv b = p" "chain ln (q # qs)" "nxt p = b"
    using assms chain_split [of ln "ps @ [p]" b "q # qs"] chain_split [of ln ps p "[b]"]
    by (simp_all add: ring_def ln)
  have d: "distinct as" "distinct cs" "set as \<inter> set cs = {}" "b \<notin> set as" "b \<notin> set cs"
      "bhead \<notin> set as" "bhead \<notin> set cs" "b \<noteq> bhead"
    using assms by (auto simp: ring_def)
  have P: "set ps \<subseteq> insert bhead (set as)" "p \<notin> set ps" "q \<notin> set (tl (ps @ [p]))" "tl (ps @ [p]) = as"
  proof -
    show t: "tl (ps @ [p]) = as" using p by (metis list.sel(3))
    have "distinct (ps @ [p])" using d p by (metis distinct.simps(2))
    then show "p \<notin> set ps" by simp
    show "set ps \<subseteq> insert bhead (set as)" using p by (metis Un_iff list.simps(15) set_append subsetI)
    have "q \<in> insert bhead (set cs)" using q by (cases cs) auto
    then show "q \<notin> set (tl (ps @ [p]))" using t d by auto
  qed
  have Q: "butlast (q # qs) = cs" "q \<notin> set qs" "p \<notin> set cs"
  proof -
    show "butlast (q # qs) = cs" using q by (metis butlast_snoc)
    have "distinct (q # qs)" using d q by (metis distinct_append distinct_singleton disjoint_insert(1) empty_set
        inf_bot_right list.simps(15))
    then show "q \<notin> set qs" by simp
    have "p \<in> insert bhead (set as)" using p by (cases as rule: rev_cases) auto
    then show "p \<notin> set cs" using d by auto
  qed
  let ?n = "nxt(p := q)" and ?r = "prv(q := p)"
  have u: "unlink b ln = (?n, ?r)" by (cases "q = b") (use c d q in \<open>auto simp: unlink_def ln Let_def\<close>)
  have "chain (?n, ?r) (ps @ [p]) = chain (nxt, prv) (ps @ [p])"
    using P by (intro chain_cong) auto
  moreover have "chain (?n, ?r) (q # qs) = chain (nxt, prv) (q # qs)"
    using Q by (intro chain_cong) (auto simp: Q(1) simp del: butlast.simps)
  ultimately have "chain (?n, ?r) (ps @ [p])" "chain (?n, ?r) (p # q # qs)" using c by (simp_all add: ln)
  then have "chain (?n, ?r) (bhead # (as @ cs) @ [bhead])"
    using chain_split [of "(?n, ?r)" ps p "q # qs"] p q by (metis append.assoc append_Cons append_Nil)
  then show ?thesis using u d by (auto simp: ring_def)
qed

text \<open>
  C39: The pointer updates of the buffer cache implement the list. \<open>binit\<close>'s loop links all
  buffers into a ring, the last one first; on a ring, the six assignments of \<open>brelse\<close> give the ring
  in which the released buffer has moved to the front and the others keep their order.
\<close>
theorem buffer_ring:
  shows "ring (foldl (\<lambda>ln b. link_front b ln) (empty_links ln) [0..<NBUF]) (rev [0..<NBUF])
    \<and> (\<forall>ln l b. ring ln l \<and> b \<in> set l \<longrightarrow> ring (link_front b (unlink b ln)) (b # remove1 b l))"
proof (intro conjI allI impI)
  have "ring (foldl (\<lambda>ln b. link_front b ln) (empty_links ln) [0..<k]) (rev [0..<k])" if "k \<le> NBUF" for k
    using that
  proof (induction k)
    case 0
    then show ?case by (cases ln) (simp add: ring_def empty_links_def)
  next
    case (Suc k)
    then show ?case by (simp add: ring_link_front bhead_def)
  qed
  then show "ring (foldl (\<lambda>ln b. link_front b ln) (empty_links ln) [0..<NBUF]) (rev [0..<NBUF])" by simp
  fix ln l b assume r: "ring ln l \<and> b \<in> set l"
  then obtain as cs where l: "l = as @ b # cs" "b \<notin> set as" by (metis split_list_first)
  then have d: "b \<notin> set cs" "b \<noteq> bhead" "remove1 b l = as @ cs"
    using r by (auto simp: ring_def remove1_append)
  then show "ring (link_front b (unlink b ln)) (b # remove1 b l)"
    using ring_link_front [OF ring_unlink, of ln as b cs b] r l by auto
qed

theorem buffer_ring_witness:
  "ring (link_front 3 (unlink 3 (foldl (\<lambda>ln b. link_front b ln) (empty_links (id, id)) [0..<NBUF])))
     (3 # remove1 3 (rev [0..<NBUF]))"
proof -
  let ?l = "rev [0..<NBUF]" and ?ln = "foldl (\<lambda>ln b. link_front b ln) (empty_links (id, id)) [0..<NBUF]"
  have "3 \<in> set ?l" by (simp add: NBUF_def)
  then show ?thesis using buffer_ring [of "(id, id)"] by blast
qed

end
