(* ===== verification/Bytes.thy ===== *)
theory Bytes
  imports Xv6_Memory
begin

text \<open>
  Words inside a block of bytes: the little-endian layout in which the log header, the super
  block, inodes and directory entries are stored on disk.
\<close>

definition get32 :: "u8 list \<Rightarrow> nat \<Rightarrow> u32" where
  "get32 bs i = le32 (bs ! i) (bs ! (i + 1)) (bs ! (i + 2)) (bs ! (i + 3))"

definition put32 :: "nat \<Rightarrow> u32 \<Rightarrow> u8 list \<Rightarrow> u8 list" where
  "put32 i w bs = bs[i := byte_of 0 w, i + 1 := byte_of 1 w, i + 2 := byte_of 2 w, i + 3 := byte_of 3 w]"

definition get16 :: "u8 list \<Rightarrow> nat \<Rightarrow> u16" where
  "get16 bs i = ucast (bs ! i) OR push_bit 8 (ucast (bs ! (i + 1)))"

definition put16 :: "nat \<Rightarrow> u16 \<Rightarrow> u8 list \<Rightarrow> u8 list" where
  "put16 i w bs = bs[i := ucast w, i + 1 := ucast (drop_bit 8 w)]"

text \<open>The bytes of \<open>xs\<close> written over those of \<open>bs\<close> from \<open>i\<close> on: \<open>memmove\<close> into a block.\<close>

definition splice :: "nat \<Rightarrow> 'a list \<Rightarrow> 'a list \<Rightarrow> 'a list" where
  "splice i xs bs = take i bs @ xs @ drop (i + length xs) bs"

lemma length_put32 [simp]: "length (put32 i w bs) = length bs"
  by (simp add: put32_def)

lemma length_put16 [simp]: "length (put16 i w bs) = length bs"
  by (simp add: put16_def)

lemma length_splice [simp]: "i + length xs \<le> length bs \<Longrightarrow> length (splice i xs bs) = length bs"
  by (simp add: splice_def)

lemma put32_nth: "k < i \<or> i + 4 \<le> k \<Longrightarrow> put32 i w bs ! k = bs ! k"
proof -
  assume "k < i \<or> i + 4 \<le> k"
  then have "k \<noteq> i" "k \<noteq> i + 1" "k \<noteq> i + 2" "k \<noteq> i + 3" by auto
  then show ?thesis by (simp add: put32_def)
qed

lemma put16_nth: "k < i \<or> i + 2 \<le> k \<Longrightarrow> put16 i w bs ! k = bs ! k"
proof -
  assume "k < i \<or> i + 2 \<le> k"
  then have "k \<noteq> i" "k \<noteq> i + 1" by auto
  then show ?thesis by (simp add: put16_def)
qed

lemma get32_put32: "i + 4 \<le> length bs \<Longrightarrow> get32 (put32 i w bs) i = w"
  by (simp add: get32_def put32_def nth_list_update)

lemma get32_put32_other:
  "i + 4 \<le> j \<or> j + 4 \<le> i \<Longrightarrow> get32 (put32 i w bs) j = get32 bs j"
  by (simp only: get32_def) (auto simp: put32_nth)

lemma get16_put16:
  assumes "i + 2 \<le> length bs"
  shows "get16 (put16 i w bs) i = w"
proof -
  have "ucast (ucast w :: u8) OR push_bit 8 (ucast (ucast (drop_bit 8 w) :: u8)) = (w :: u16)"
    by (rule bit_word_eqI) (auto simp: bit_simps)
  with assms show ?thesis by (simp add: get16_def put16_def nth_list_update)
qed

lemma get16_put16_other:
  "i + 2 \<le> j \<or> j + 2 \<le> i \<Longrightarrow> get16 (put16 i w bs) j = get16 bs j"
  by (simp only: get16_def) (auto simp: put16_nth)

lemma get16_put32_other:
  "i + 4 \<le> j \<or> j + 2 \<le> i \<Longrightarrow> get16 (put32 i w bs) j = get16 bs j"
  by (simp only: get16_def) (auto simp: put32_nth)

lemma get32_put16_other:
  "i + 2 \<le> j \<or> j + 4 \<le> i \<Longrightarrow> get32 (put16 i w bs) j = get32 bs j"
  by (simp only: get32_def) (auto simp: put16_nth)

end
