(* ===== verification/Log.thy ===== *)
theory Log
  imports Bio Bytes
begin

text \<open>
  The write-ahead log of \<open>log.c\<close>. A transaction is the set of blocks that \<open>log_write\<close> recorded
  since the last commit; \<open>commit\<close> copies them to the log area, writes the header, copies them home
  and clears the header. The header block is bytes on disk, laid out as \<open>struct logheader\<close>.
\<close>

section \<open>The super block\<close>

record superblock =
  sb_size :: u32
  sb_nblocks :: u32
  sb_ninodes :: u32
  sb_nlog :: u32
  sb_logstart :: u32
  sb_inodestart :: u32
  sb_bmapstart :: u32

definition decode_sb :: "u8 list \<Rightarrow> superblock" where
  "decode_sb bs = \<lparr>sb_size = get32 bs 0, sb_nblocks = get32 bs 4, sb_ninodes = get32 bs 8,
     sb_nlog = get32 bs 12, sb_logstart = get32 bs 16, sb_inodestart = get32 bs 20, sb_bmapstart = get32 bs 24\<rparr>"

definition readsb :: "u32 \<Rightarrow> 'z kbio_scheme \<Rightarrow> (superblock, 'z kbio_scheme) res" where
  "readsb dev =
     bindM (bread dev 1) (\<lambda>bp.
     bindM (getM (\<lambda>s. decode_sb (b_data (bufs s ! bp)))) (\<lambda>sb.
     thenM (brelse bp) (retM sb)))"

section \<open>The log\<close>

definition MAXOPBLOCKS :: nat where "MAXOPBLOCKS = 10"
definition LOGSIZE :: nat where "LOGSIZE = 30"

record klog = kbio +
  log_start :: u32
  log_size :: u32
  log_outstanding :: u32
  log_committing :: bool
  log_dev :: u32
  lh_n :: u32
  lh_block :: "u32 list"

text \<open>The indices of a loop \<open>for(tail = 0; tail < log.lh.n; tail++)\<close>; \<open>n\<close> is an \<open>int\<close>.\<close>

definition lh_range :: "u32 \<Rightarrow> nat list" where
  "lh_range n = [0..<nat (sint n)]"

text \<open>
  \<open>log.lh.block[i] = v\<close>. An index past the array, from a header that does not fit it, writes over
  what follows the structure in memory: the run is outside the model.
\<close>

definition set_lh_block :: "nat \<Rightarrow> u32 \<Rightarrow> 'z klog_scheme \<Rightarrow> (unit, 'z klog_scheme) res" where
  "set_lh_block i v =
     (if i < LOGSIZE then modM (\<lambda>s. s\<lparr>lh_block := (lh_block s)[i := v]\<rparr>) else panic ''undefined'')"

definition copy_buf :: "nat \<Rightarrow> nat \<Rightarrow> 'z kbio_scheme \<Rightarrow> (unit, 'z kbio_scheme) res" where
  "copy_buf dst src = modM (\<lambda>s. upd_buf dst (\<lambda>x. x\<lparr>b_data := b_data (bufs s ! src)\<rparr>) s)"

definition install_trans :: "'z klog_scheme \<Rightarrow> (unit, 'z klog_scheme) res" where
  "install_trans =
     bindM (getM lh_n) (\<lambda>n.
     forM (lh_range n) (\<lambda>tail.
       bindM (getM (\<lambda>s. (log_dev s, log_start s, lh_block s ! tail))) (\<lambda>(dev, start, home).
       bindM (bread dev (start + of_nat tail + 1)) (\<lambda>lbuf.
       bindM (bread dev home) (\<lambda>dbuf.
       thenM (copy_buf dbuf lbuf)
       (thenM (bwrite dbuf)
       (thenM (brelse lbuf)
       (brelse dbuf))))))))"

definition read_head :: "'z klog_scheme \<Rightarrow> (unit, 'z klog_scheme) res" where
  "read_head =
     bindM (getM (\<lambda>s. (log_dev s, log_start s))) (\<lambda>(dev, start).
     bindM (bread dev start) (\<lambda>b.
     bindM (getM (\<lambda>s. b_data (bufs s ! b))) (\<lambda>lh.
     thenM (modM (\<lambda>s. s\<lparr>lh_n := get32 lh 0\<rparr>))
     (thenM (forM (lh_range (get32 lh 0)) (\<lambda>i. set_lh_block i (get32 lh (4 + 4 * i))))
     (brelse b)))))"

fun put_blocks :: "nat \<Rightarrow> u32 list \<Rightarrow> u8 list \<Rightarrow> u8 list" where
  "put_blocks i [] bs = bs"
| "put_blocks i (v # vs) bs = put_blocks (Suc i) vs (put32 (4 + 4 * i) v bs)"

definition write_head :: "'z klog_scheme \<Rightarrow> (unit, 'z klog_scheme) res" where
  "write_head =
     bindM (getM (\<lambda>s. (log_dev s, log_start s))) (\<lambda>(dev, start).
     bindM (bread dev start) (\<lambda>b.
     bindM (getM (\<lambda>s. (lh_n s, lh_block s))) (\<lambda>(n, blocks).
     thenM (modM (upd_buf b (\<lambda>x. x\<lparr>b_data :=
       put_blocks 0 (take (nat (sint n)) blocks) (put32 0 n (b_data x))\<rparr>)))
     (thenM (bwrite b)
     (brelse b)))))"

definition recover_from_log :: "'z klog_scheme \<Rightarrow> (unit, 'z klog_scheme) res" where
  "recover_from_log =
     thenM read_head
     (thenM install_trans
     (thenM (modM (\<lambda>s. s\<lparr>lh_n := 0\<rparr>))
     write_head))"

definition initlog :: "u32 \<Rightarrow> 'z klog_scheme \<Rightarrow> (unit, 'z klog_scheme) res" where
  "initlog dev =
     thenM (modM (\<lambda>s. s\<lparr>k_held := k_held s - {L_log}\<rparr>))
     (bindM (readsb dev) (\<lambda>sb.
     thenM (modM (\<lambda>s. s\<lparr>log_start := sb_logstart sb, log_size := sb_nlog sb, log_dev := dev\<rparr>))
     recover_from_log))"

text \<open>One turn of the loop of \<open>begin_op\<close>, with the lock held.\<close>

definition begin_op_pass :: "'z klog_scheme \<Rightarrow> (unit, 'z klog_scheme) res" where
  "begin_op_pass =
     bindM (getM (\<lambda>s. s)) (\<lambda>s.
     if log_committing s then sleep Ch_log L_log
     else if sint (lh_n s + (log_outstanding s + 1) * of_nat MAXOPBLOCKS) > int LOGSIZE then sleep Ch_log L_log
     else thenM (modM (\<lambda>s. s\<lparr>log_outstanding := log_outstanding s + 1\<rparr>)) (release L_log))"

definition begin_op :: "'z klog_scheme \<Rightarrow> (unit, 'z klog_scheme) res" where
  "begin_op = thenM (acquire L_log) begin_op_pass"

definition begin_op_resume :: "'z klog_scheme \<Rightarrow> (unit, 'z klog_scheme) res" where
  "begin_op_resume = thenM (sleep_resume L_log) begin_op_pass"

definition write_log :: "'z klog_scheme \<Rightarrow> (unit, 'z klog_scheme) res" where
  "write_log =
     bindM (getM lh_n) (\<lambda>n.
     forM (lh_range n) (\<lambda>tail.
       bindM (getM (\<lambda>s. (log_dev s, log_start s, lh_block s ! tail))) (\<lambda>(dev, start, home).
       bindM (bread dev (start + of_nat tail + 1)) (\<lambda>to.
       bindM (bread dev home) (\<lambda>from.
       thenM (copy_buf to from)
       (thenM (bwrite to)
       (thenM (brelse from)
       (brelse to))))))))"

definition commit :: "'z klog_scheme \<Rightarrow> (unit, 'z klog_scheme) res" where
  "commit =
     bindM (getM lh_n) (\<lambda>n.
     whenM (sint n > 0)
       (thenM write_log
       (thenM write_head
       (thenM install_trans
       (thenM (modM (\<lambda>s. s\<lparr>lh_n := 0\<rparr>))
       write_head)))))"

definition end_op :: "'z klog_scheme \<Rightarrow> (unit, 'z klog_scheme) res" where
  "end_op =
     thenM (acquire L_log)
     (thenM (modM (\<lambda>s. s\<lparr>log_outstanding := log_outstanding s - 1\<rparr>))
     (bindM (getM (\<lambda>s. (log_committing s, log_outstanding s))) (\<lambda>(committing, outstanding).
     if committing then panic ''log.committing'' else
     let do_commit = (outstanding = 0) in
     thenM (if do_commit then modM (\<lambda>s. s\<lparr>log_committing := True\<rparr>) else wakeup Ch_log)
     (thenM (release L_log)
     (whenM do_commit
       (thenM commit
       (thenM (acquire L_log)
       (thenM (modM (\<lambda>s. s\<lparr>log_committing := False\<rparr>))
       (thenM (wakeup Ch_log)
       (release L_log))))))))))"

text \<open>The slot that a block gets in the header: its old one if it is there, the next one else.\<close>

fun lh_index :: "u32 list \<Rightarrow> u32 \<Rightarrow> nat" where
  "lh_index [] blockno = 0"
| "lh_index (v # vs) blockno = (if v = blockno then 0 else Suc (lh_index vs blockno))"

definition log_write :: "nat \<Rightarrow> 'z klog_scheme \<Rightarrow> (unit, 'z klog_scheme) res" where
  "log_write b =
     bindM (getM (\<lambda>s. s)) (\<lambda>s.
     if sint (lh_n s) \<ge> int LOGSIZE \<or> sint (lh_n s) \<ge> sint (log_size s - 1)
     then panic ''too big a transaction''
     else if sint (log_outstanding s) < 1 then panic ''log_write outside of trans''
     else thenM (acquire L_log)
     (let blockno = b_blockno (bufs s ! b);
          i = lh_index (take (nat (sint (lh_n s))) (lh_block s)) blockno
      in thenM (set_lh_block i blockno)
        (thenM (whenM (int i = sint (lh_n s)) (modM (\<lambda>s. s\<lparr>lh_n := lh_n s + 1\<rparr>)))
        (thenM (modM (upd_buf b (\<lambda>x. x\<lparr>b_dirty := True\<rparr>)))
        (release L_log)))))"

end
