(* ===== verification/Inode.thy ===== *)
theory Inode
  imports Log
begin

text \<open>
  Blocks and inodes, the first half of \<open>fs.c\<close>: the free bit map, the inode cache with its
  references and sleep locks, and the map from a file's blocks to disk blocks. An inode pointer is
  its number in \<open>icache\<close>; inodes on disk are bytes, laid out as \<open>struct dinode\<close>.
\<close>

section \<open>State\<close>

definition NINODE :: nat where "NINODE = 50"
definition NDIRECT :: nat where "NDIRECT = 12"
definition NINDIRECT :: nat where "NINDIRECT = 128"
definition MAXFILE :: nat where "MAXFILE = NDIRECT + NINDIRECT"
definition IPB :: u32 where "IPB = 8"
definition BPB :: nat where "BPB = 4096"
definition ROOTDEV :: u32 where "ROOTDEV = 1"
definition ROOTINO :: u32 where "ROOTINO = 1"
definition T_DIR :: u16 where "T_DIR = 1"
definition T_FILE :: u16 where "T_FILE = 2"
definition T_DEV :: u16 where "T_DEV = 3"

record inode =
  i_dev :: u32
  i_inum :: u32
  i_ref :: u32
  i_lock :: sleeplock
  i_valid :: bool
  i_type :: u16
  i_major :: u16
  i_minor :: u16
  i_nlink :: u16
  i_size :: u32
  i_addrs :: "u32 list"

text \<open>
  The file system's part of the kernel, with the console's input buffer and whether the console has
  been entered in \<open>devsw\<close>, the table of devices that inodes of type \<open>T_DEV\<close> refer to.
\<close>

record kfs = klog +
  sb :: superblock
  icache :: "inode list"
  in_buf :: "u8 list"
  in_r :: u32
  in_w :: u32
  in_e :: u32
  devsw_console :: bool

definition IBLOCK :: "u32 \<Rightarrow> superblock \<Rightarrow> u32" where
  "IBLOCK i sp = i div IPB + sb_inodestart sp"

definition BBLOCK :: "u32 \<Rightarrow> superblock \<Rightarrow> u32" where
  "BBLOCK b sp = b div of_nat BPB + sb_bmapstart sp"

section \<open>Blocks\<close>

definition bzero :: "u32 \<Rightarrow> u32 \<Rightarrow> 'z klog_scheme \<Rightarrow> (unit, 'z klog_scheme) res" where
  "bzero dev bno =
     bindM (bread dev bno) (\<lambda>bp.
     thenM (modM (upd_buf bp (\<lambda>x. x\<lparr>b_data := replicate BSIZE 0\<rparr>)))
     (thenM (log_write bp)
     (brelse bp)))"

definition bit_mask :: "nat \<Rightarrow> u8" where
  "bit_mask bi = push_bit (bi mod 8) 1"

definition bit_free :: "u8 list \<Rightarrow> nat \<Rightarrow> bool" where
  "bit_free bs bi \<longleftrightarrow> bs ! (bi div 8) AND bit_mask bi = 0"

definition bit_take :: "nat \<Rightarrow> u8 list \<Rightarrow> u8 list" where
  "bit_take bi bs = bs[bi div 8 := bs ! (bi div 8) OR bit_mask bi]"

definition bit_clear :: "nat \<Rightarrow> u8 list \<Rightarrow> u8 list" where
  "bit_clear bi bs = bs[bi div 8 := bs ! (bi div 8) AND NOT (bit_mask bi)]"

text \<open>The loop over \<open>bi\<close> in one block of the bit map, whose first bit is that of block \<open>b\<close>.\<close>

definition first_free :: "nat \<Rightarrow> nat \<Rightarrow> u8 list \<Rightarrow> nat option" where
  "first_free b sz bs = find (\<lambda>bi. bit_free bs bi) (takeWhile (\<lambda>bi. b + bi < sz) [0..<BPB])"

fun balloc_loop :: "u32 \<Rightarrow> nat list \<Rightarrow> 'z kfs_scheme \<Rightarrow> (u32, 'z kfs_scheme) res" where
  "balloc_loop dev [] = panic ''balloc: out of blocks''"
| "balloc_loop dev (b # bs) =
     bindM (getM sb) (\<lambda>sb.
     bindM (bread dev (BBLOCK (of_nat b) sb)) (\<lambda>bp.
     bindM (getM (\<lambda>s. b_data (bufs s ! bp))) (\<lambda>d.
     case first_free b (unat (sb_size sb)) d of
       Some bi \<Rightarrow>
         thenM (modM (upd_buf bp (\<lambda>x. x\<lparr>b_data := bit_take bi (b_data x)\<rparr>)))
         (thenM (log_write bp)
         (thenM (brelse bp)
         (thenM (bzero dev (of_nat (b + bi)))
         (retM (of_nat (b + bi))))))
     | None \<Rightarrow> thenM (brelse bp) (balloc_loop dev bs))))"

definition balloc :: "u32 \<Rightarrow> 'z kfs_scheme \<Rightarrow> (u32, 'z kfs_scheme) res" where
  "balloc dev =
     bindM (getM (\<lambda>s. unat (sb_size (sb s)))) (\<lambda>sz.
     balloc_loop dev (map (\<lambda>k. k * BPB) [0..<(sz + BPB - 1) div BPB]))"

definition bfree :: "u32 \<Rightarrow> u32 \<Rightarrow> 'z kfs_scheme \<Rightarrow> (unit, 'z kfs_scheme) res" where
  "bfree dev b =
     bindM (getM sb) (\<lambda>sb.
     bindM (bread dev (BBLOCK b sb)) (\<lambda>bp.
     let bi = unat b mod BPB in
     bindM (getM (\<lambda>s. b_data (bufs s ! bp))) (\<lambda>d.
     if bit_free d bi then panic ''freeing free block'' else
     thenM (modM (upd_buf bp (\<lambda>x. x\<lparr>b_data := bit_clear bi (b_data x)\<rparr>)))
     (thenM (log_write bp)
     (brelse bp)))))"

section \<open>The inode cache\<close>

definition upd_inode :: "nat \<Rightarrow> (inode \<Rightarrow> inode) \<Rightarrow> 'z kfs_scheme \<Rightarrow> 'z kfs_scheme" where
  "upd_inode ip f s = s\<lparr>icache := (icache s)[ip := f (icache s ! ip)]\<rparr>"

abbreviation inode_lock :: "nat \<Rightarrow> 'z kfs_scheme \<Rightarrow> sleeplock" where
  "inode_lock ip s \<equiv> i_lock (icache s ! ip)"

abbreviation set_inode_lock :: "nat \<Rightarrow> sleeplock \<Rightarrow> 'z kfs_scheme \<Rightarrow> 'z kfs_scheme" where
  "set_inode_lock ip lk \<equiv> upd_inode ip (\<lambda>x. x\<lparr>i_lock := lk\<rparr>)"

definition inodeM :: "nat \<Rightarrow> 'z kfs_scheme \<Rightarrow> (inode, 'z kfs_scheme) res" where
  "inodeM ip = getM (\<lambda>s. icache s ! ip)"

definition iinit :: "u32 \<Rightarrow> 'z kfs_scheme \<Rightarrow> (unit, 'z kfs_scheme) res" where
  "iinit dev =
     thenM (modM (\<lambda>s. s\<lparr>k_held := k_held s - {L_icache}\<rparr>))
     (thenM (forM [0..<NINODE] (\<lambda>i. initsleeplock (set_inode_lock i)))
     (bindM (readsb dev) (\<lambda>b.
     thenM (modM (\<lambda>s. s\<lparr>sb := b\<rparr>))
     (cprintf (''sb: size %d nblocks %d ninodes %d nlog %d logstart %d inodestart %d bmap start %d'' @ [NL])
       [A_int (sb_size b), A_int (sb_nblocks b), A_int (sb_ninodes b), A_int (sb_nlog b),
        A_int (sb_logstart b), A_int (sb_inodestart b), A_int (sb_bmapstart b)]))))"

text \<open>The scan of \<open>iget\<close>: a hit ends it; otherwise the first slot without references is remembered.\<close>

fun iget_scan :: "u32 \<Rightarrow> u32 \<Rightarrow> nat \<Rightarrow> inode list \<Rightarrow> nat option \<Rightarrow> nat option \<times> nat option" where
  "iget_scan dev inum i [] empt = (None, empt)"
| "iget_scan dev inum i (ip # ips) empt =
     (if sint (i_ref ip) > 0 \<and> i_dev ip = dev \<and> i_inum ip = inum then (Some i, empt)
      else iget_scan dev inum (Suc i) ips (if empt = None \<and> i_ref ip = 0 then Some i else empt))"

definition iget :: "u32 \<Rightarrow> u32 \<Rightarrow> 'z kfs_scheme \<Rightarrow> (nat, 'z kfs_scheme) res" where
  "iget dev inum =
     thenM (acquire L_icache)
     (bindM (getM (\<lambda>s. iget_scan dev inum 0 (icache s) None)) (\<lambda>(hit, empt).
     case hit of
       Some ip \<Rightarrow>
         thenM (modM (upd_inode ip (\<lambda>x. x\<lparr>i_ref := i_ref x + 1\<rparr>)))
         (thenM (release L_icache) (retM ip))
     | None \<Rightarrow>
         (case empt of
            None \<Rightarrow> panic ''iget: no inodes''
          | Some ip \<Rightarrow>
              thenM (modM (upd_inode ip (\<lambda>x. x\<lparr>i_dev := dev, i_inum := inum, i_ref := 1, i_valid := False\<rparr>)))
              (thenM (release L_icache) (retM ip)))))"

definition idup :: "nat \<Rightarrow> 'z kfs_scheme \<Rightarrow> (nat, 'z kfs_scheme) res" where
  "idup ip =
     thenM (acquire L_icache)
     (thenM (modM (upd_inode ip (\<lambda>x. x\<lparr>i_ref := i_ref x + 1\<rparr>)))
     (thenM (release L_icache) (retM ip)))"

text \<open>\<open>struct dinode\<close> number \<open>k\<close> of a block: read into an inode, and written from one.\<close>

definition get_dinode :: "nat \<Rightarrow> u8 list \<Rightarrow> inode \<Rightarrow> inode" where
  "get_dinode k bs ip =
     (let o' = 64 * k in
      ip\<lparr>i_type := get16 bs o', i_major := get16 bs (o' + 2), i_minor := get16 bs (o' + 4),
        i_nlink := get16 bs (o' + 6), i_size := get32 bs (o' + 8),
        i_addrs := map (\<lambda>j. get32 bs (o' + 12 + 4 * j)) [0..<NDIRECT + 1]\<rparr>)"

fun put_addrs :: "nat \<Rightarrow> u32 list \<Rightarrow> u8 list \<Rightarrow> u8 list" where
  "put_addrs o' [] bs = bs"
| "put_addrs o' (a # as) bs = put_addrs (o' + 4) as (put32 o' a bs)"

definition put_dinode :: "nat \<Rightarrow> inode \<Rightarrow> u8 list \<Rightarrow> u8 list" where
  "put_dinode k ip bs =
     (let o' = 64 * k in
      put_addrs (o' + 12) (i_addrs ip)
      (put32 (o' + 8) (i_size ip)
      (put16 (o' + 6) (i_nlink ip)
      (put16 (o' + 4) (i_minor ip)
      (put16 (o' + 2) (i_major ip)
      (put16 o' (i_type ip) bs))))))"

definition iupdate :: "nat \<Rightarrow> 'z kfs_scheme \<Rightarrow> (unit, 'z kfs_scheme) res" where
  "iupdate ip =
     bindM (inodeM ip) (\<lambda>i.
     bindM (getM sb) (\<lambda>sb.
     bindM (bread (i_dev i) (IBLOCK (i_inum i) sb)) (\<lambda>bp.
     thenM (modM (upd_buf bp (\<lambda>x. x\<lparr>b_data := put_dinode (unat (i_inum i mod IPB)) i (b_data x)\<rparr>)))
     (thenM (log_write bp)
     (brelse bp)))))"

definition ilock :: "nat \<Rightarrow> 'z kfs_scheme \<Rightarrow> (unit, 'z kfs_scheme) res" where
  "ilock ip =
     bindM (inodeM ip) (\<lambda>i.
     if sint (i_ref i) < 1 then panic ''ilock'' else
     thenM (acquiresleep (L_inode ip) (Ch_inode_lock ip) (inode_lock ip) (set_inode_lock ip))
     (bindM (inodeM ip) (\<lambda>i.
     if i_valid i then retM () else
     bindM (getM sb) (\<lambda>sb.
     bindM (bread (i_dev i) (IBLOCK (i_inum i) sb)) (\<lambda>bp.
     thenM (modM (\<lambda>s. upd_inode ip (get_dinode (unat (i_inum i mod IPB)) (b_data (bufs s ! bp))) s))
     (thenM (brelse bp)
     (thenM (modM (upd_inode ip (\<lambda>x. x\<lparr>i_valid := True\<rparr>)))
     (bindM (inodeM ip) (\<lambda>i.
     if i_type i = 0 then panic ''ilock: no type'' else retM ())))))))))"

definition iunlock :: "nat \<Rightarrow> 'z kfs_scheme \<Rightarrow> (unit, 'z kfs_scheme) res" where
  "iunlock ip =
     bindM (holdingsleep (L_inode ip) (inode_lock ip)) (\<lambda>h.
     bindM (inodeM ip) (\<lambda>i.
     if \<not> h \<or> sint (i_ref i) < 1 then panic ''iunlock''
     else releasesleep (L_inode ip) (Ch_inode_lock ip) (set_inode_lock ip)))"

definition itrunc :: "nat \<Rightarrow> 'z kfs_scheme \<Rightarrow> (unit, 'z kfs_scheme) res" where
  "itrunc ip =
     thenM (forM [0..<NDIRECT] (\<lambda>j.
       bindM (inodeM ip) (\<lambda>i.
       whenM (i_addrs i ! j \<noteq> 0)
         (thenM (bfree (i_dev i) (i_addrs i ! j))
         (modM (upd_inode ip (\<lambda>x. x\<lparr>i_addrs := (i_addrs x)[j := 0]\<rparr>)))))))
     (thenM (bindM (inodeM ip) (\<lambda>i.
       whenM (i_addrs i ! NDIRECT \<noteq> 0)
         (bindM (bread (i_dev i) (i_addrs i ! NDIRECT)) (\<lambda>bp.
          thenM (forM [0..<NINDIRECT] (\<lambda>j.
            bindM (getM (\<lambda>s. get32 (b_data (bufs s ! bp)) (4 * j))) (\<lambda>a.
            whenM (a \<noteq> 0) (bfree (i_dev i) a))))
          (thenM (brelse bp)
          (thenM (bfree (i_dev i) (i_addrs i ! NDIRECT))
          (modM (upd_inode ip (\<lambda>x. x\<lparr>i_addrs := (i_addrs x)[NDIRECT := 0]\<rparr>)))))))))
     (thenM (modM (upd_inode ip (\<lambda>x. x\<lparr>i_size := 0\<rparr>)))
     (iupdate ip)))"

definition iput :: "nat \<Rightarrow> 'z kfs_scheme \<Rightarrow> (unit, 'z kfs_scheme) res" where
  "iput ip =
     thenM (acquiresleep (L_inode ip) (Ch_inode_lock ip) (inode_lock ip) (set_inode_lock ip))
     (thenM (bindM (inodeM ip) (\<lambda>i.
       whenM (i_valid i \<and> i_nlink i = 0)
         (thenM (acquire L_icache)
         (bindM (inodeM ip) (\<lambda>i.
          thenM (release L_icache)
          (whenM (i_ref i = 1)
            (thenM (itrunc ip)
            (thenM (modM (upd_inode ip (\<lambda>x. x\<lparr>i_type := 0\<rparr>)))
            (thenM (iupdate ip)
            (modM (upd_inode ip (\<lambda>x. x\<lparr>i_valid := False\<rparr>))))))))))))
     (thenM (releasesleep (L_inode ip) (Ch_inode_lock ip) (set_inode_lock ip))
     (thenM (acquire L_icache)
     (thenM (modM (upd_inode ip (\<lambda>x. x\<lparr>i_ref := i_ref x - 1\<rparr>)))
     (release L_icache)))))"

definition iunlockput :: "nat \<Rightarrow> 'z kfs_scheme \<Rightarrow> (unit, 'z kfs_scheme) res" where
  "iunlockput ip = thenM (iunlock ip) (iput ip)"

text \<open>\<open>ialloc\<close> tries the inode numbers in turn.\<close>

fun ialloc_loop :: "u32 \<Rightarrow> u16 \<Rightarrow> nat list \<Rightarrow> 'z kfs_scheme \<Rightarrow> (nat, 'z kfs_scheme) res" where
  "ialloc_loop dev ty [] = panic ''ialloc: no inodes''"
| "ialloc_loop dev ty (n # ns) =
     bindM (getM sb) (\<lambda>sb.
     bindM (bread dev (IBLOCK (of_nat n) sb)) (\<lambda>bp.
     let o' = 64 * (n mod unat IPB) in
     bindM (getM (\<lambda>s. get16 (b_data (bufs s ! bp)) o')) (\<lambda>t.
     if t = 0 then
       thenM (modM (upd_buf bp (\<lambda>x. x\<lparr>b_data := put16 o' ty (splice o' (replicate 64 0) (b_data x))\<rparr>)))
       (thenM (log_write bp)
       (thenM (brelse bp)
       (iget dev (of_nat n))))
     else thenM (brelse bp) (ialloc_loop dev ty ns))))"

definition ialloc :: "u32 \<Rightarrow> u16 \<Rightarrow> 'z kfs_scheme \<Rightarrow> (nat, 'z kfs_scheme) res" where
  "ialloc dev ty =
     bindM (getM (\<lambda>s. unat (sb_ninodes (sb s)))) (\<lambda>n. ialloc_loop dev ty [1..<n])"

section \<open>The blocks of a file\<close>

definition bmap :: "nat \<Rightarrow> u32 \<Rightarrow> 'z kfs_scheme \<Rightarrow> (u32, 'z kfs_scheme) res" where
  "bmap ip bn =
     bindM (inodeM ip) (\<lambda>i.
     if bn < of_nat NDIRECT then
       (let addr = i_addrs i ! unat bn in
        if addr = 0 then
          bindM (balloc (i_dev i)) (\<lambda>addr.
          thenM (modM (upd_inode ip (\<lambda>x. x\<lparr>i_addrs := (i_addrs x)[unat bn := addr]\<rparr>)))
          (retM addr))
        else retM addr)
     else let bn = bn - of_nat NDIRECT in
     if bn < of_nat NINDIRECT then
       bindM (if i_addrs i ! NDIRECT = 0 then
                bindM (balloc (i_dev i)) (\<lambda>addr.
                thenM (modM (upd_inode ip (\<lambda>x. x\<lparr>i_addrs := (i_addrs x)[NDIRECT := addr]\<rparr>)))
                (retM addr))
              else retM (i_addrs i ! NDIRECT)) (\<lambda>addr.
       bindM (bread (i_dev i) addr) (\<lambda>bp.
       bindM (getM (\<lambda>s. get32 (b_data (bufs s ! bp)) (4 * unat bn))) (\<lambda>addr.
       bindM (if addr = 0 then
                bindM (balloc (i_dev i)) (\<lambda>addr.
                thenM (modM (upd_buf bp (\<lambda>x. x\<lparr>b_data := put32 (4 * unat bn) addr (b_data x)\<rparr>)))
                (thenM (log_write bp) (retM addr)))
              else retM addr) (\<lambda>addr.
       thenM (brelse bp) (retM addr)))))
     else panic ''bmap: out of range'')"

end
