(* ===== verification/Console.thy ===== *)
theory Console
  imports Inode
begin

text \<open>
  Console input and output, the second half of \<open>console.c\<close>: line editing in the interrupt handler,
  the read and write routines that device inodes lead to, and the text screen. \<open>consputc\<close> sends to
  the serial port, whose output is \<open>k_out\<close>, and to the screen, which is modelled on its own.
\<close>

definition INPUT_BUF :: u32 where "INPUT_BUF = 128"
definition BACKSPACE :: u32 where "BACKSPACE = 0x100"

text \<open>\<open>C('x')\<close>, the code of a control character.\<close>

definition Ctl :: "char \<Rightarrow> u32" where "Ctl x = of_nat (of_char x) - of_nat (of_char (CHR ''@''))"

definition uart_chars :: "u32 \<Rightarrow> string" where
  "uart_chars c = (if c = BACKSPACE then [CHR 0x08, CHR '' '', CHR 0x08] else [char_of (unat c mod 256)])"

definition consputc :: "u32 \<Rightarrow> 'z kstate_scheme \<Rightarrow> (unit, 'z kstate_scheme) res" where
  "consputc c = modM (\<lambda>s. s\<lparr>k_out := k_out s @ uart_chars c\<rparr>)"

section \<open>The screen\<close>

text \<open>
  \<open>crt\<close>, the 25 lines of 80 cells, and the cursor, kept in two registers of the controller as a
  16-bit number. \<open>None\<close>: panic. Cells past the end of the list are not on the screen.
\<close>

definition cgaputc :: "u32 \<Rightarrow> u16 \<times> u16 list \<Rightarrow> (u16 \<times> u16 list) option" where
  "cgaputc c = (\<lambda>(cursor, crt).
     let pos0 = unat cursor;
         (pos1, crt1) =
           (if c = 10 then (pos0 + (80 - pos0 mod 80), crt)
            else if c = BACKSPACE then (pos0 - 1, crt)
            else (pos0 + 1, crt[pos0 := ucast (c AND 0xff) OR 0x0700]))
     in if pos1 > 25 * 80 then None
     else let (pos2, crt2) =
       (if pos1 div 80 \<ge> 24
        then let moved = take (23 * 80) (drop 80 crt1) @ drop (23 * 80) crt1;
                 p = pos1 - 80
             in (p, take p moved @ replicate (24 * 80 - p) 0 @ drop (24 * 80) moved)
        else (pos1, crt1))
     in Some (of_nat pos2, crt2[pos2 := 0x0720]))"

section \<open>Input\<close>

text \<open>The kill-line loop.\<close>

fun kill_line :: "nat \<Rightarrow> 'z kfs_scheme \<Rightarrow> (unit, 'z kfs_scheme) res" where
  "kill_line turns =
     bindM (getM (\<lambda>s. s)) (\<lambda>s.
     if in_e s \<noteq> in_w s \<and> in_buf s ! unat ((in_e s - 1) mod INPUT_BUF) \<noteq> 10
     then (if turns = 0 then Spins else
       thenM (modM (\<lambda>s. s\<lparr>in_e := in_e s - 1\<rparr>))
       (thenM (consputc BACKSPACE) (kill_line (turns - 1))))
     else retM ())"

declare kill_line.simps [simp del]

text \<open>One character from \<open>getc\<close>; the result says whether a process listing was asked for.\<close>

definition consoleintr_char :: "u32 \<Rightarrow> 'z kfs_scheme \<Rightarrow> (bool, 'z kfs_scheme) res" where
  "consoleintr_char c =
     (if c = Ctl (CHR ''P'') then retM True
      else if c = Ctl (CHR ''U'') then
        bindM (getM (\<lambda>s. unat (in_e s - in_w s))) (\<lambda>n. thenM (kill_line n) (retM False))
      else if c = Ctl (CHR ''H'') \<or> c = 0x7f then
        bindM (getM (\<lambda>s. in_e s \<noteq> in_w s)) (\<lambda>some.
        thenM (whenM some (thenM (modM (\<lambda>s. s\<lparr>in_e := in_e s - 1\<rparr>)) (consputc BACKSPACE))) (retM False))
      else
        bindM (getM (\<lambda>s. in_e s - in_r s < INPUT_BUF)) (\<lambda>room.
        thenM (whenM (c \<noteq> 0 \<and> room)
          (let c = (if c = 13 then 10 else c) in
           thenM (modM (\<lambda>s. s\<lparr>in_buf := (in_buf s)[unat (in_e s mod INPUT_BUF) := ucast c], in_e := in_e s + 1\<rparr>))
           (thenM (consputc c)
           (bindM (getM (\<lambda>s. c = 10 \<or> c = Ctl (CHR ''D'') \<or> in_e s = in_r s + INPUT_BUF)) (\<lambda>line.
           whenM line (thenM (modM (\<lambda>s. s\<lparr>in_w := in_e s\<rparr>)) (wakeup Ch_input)))))))
        (retM False)))"

fun consoleintr_loop :: "u32 list \<Rightarrow> bool \<Rightarrow> 'z kfs_scheme \<Rightarrow> (bool, 'z kfs_scheme) res" where
  "consoleintr_loop [] doprocdump = retM doprocdump"
| "consoleintr_loop (c # cs) doprocdump =
     bindM (consoleintr_char c) (\<lambda>p. consoleintr_loop cs (doprocdump \<or> p))"

text \<open>\<open>cs\<close> is what \<open>getc\<close> returns until it returns -1.\<close>

definition consoleintr :: "u32 list \<Rightarrow> 'z kfs_scheme \<Rightarrow> (unit, 'z kfs_scheme) res" where
  "consoleintr cs =
     thenM (acquire L_cons)
     (bindM (consoleintr_loop cs False) (\<lambda>doprocdump.
     thenM (release L_cons)
     (whenM doprocdump procdump)))"

text \<open>
  The loop of \<open>consoleread\<close>, with \<open>n\<close> bytes to go. Put to sleep, it continues with the arguments
  it has then.
\<close>

fun consoleread_loop :: "nat \<Rightarrow> nat \<Rightarrow> u32 \<Rightarrow> nat \<Rightarrow> 'z kfs_scheme \<Rightarrow> (u32, 'z kfs_scheme) res" where
  "consoleread_loop ip target dst 0 =
     thenM (release L_cons) (thenM (ilock ip) (retM (of_nat target)))"
| "consoleread_loop ip target dst (Suc n) =
     bindM (getM (\<lambda>s. (in_r s, in_w s))) (\<lambda>(r, w).
     if r = w then
       bindM curproc (\<lambda>i.
       bindM (getM (\<lambda>s. p_killed (procs s ! i))) (\<lambda>killed.
       if killed then thenM (release L_cons) (thenM (ilock ip) (retM (-1)))
       else sleep Ch_input L_cons))
     else
       bindM (getM (\<lambda>s. in_buf s ! unat (r mod INPUT_BUF))) (\<lambda>c.
       thenM (modM (\<lambda>s. s\<lparr>in_r := in_r s + 1\<rparr>))
       (if c = 4 then
          thenM (whenM (Suc n < target) (modM (\<lambda>s. s\<lparr>in_r := in_r s - 1\<rparr>)))
          (thenM (release L_cons) (thenM (ilock ip) (retM (of_nat (target - Suc n)))))
        else
          thenM (vstore8 dst c)
          (if c = 10 then thenM (release L_cons) (thenM (ilock ip) (retM (of_nat (target - n))))
           else consoleread_loop ip target (dst + 1) n))))"

definition consoleread :: "nat \<Rightarrow> u32 \<Rightarrow> u32 \<Rightarrow> 'z kfs_scheme \<Rightarrow> (u32, 'z kfs_scheme) res" where
  "consoleread ip dst n =
     thenM (iunlock ip)
     (thenM (acquire L_cons)
     (if sint n > 0 then consoleread_loop ip (unat n) dst (unat n)
      else thenM (release L_cons) (thenM (ilock ip) (retM 0))))"

definition consoleread_resume :: "nat \<Rightarrow> nat \<Rightarrow> u32 \<Rightarrow> nat \<Rightarrow> 'z kfs_scheme \<Rightarrow> (u32, 'z kfs_scheme) res" where
  "consoleread_resume ip target dst n = thenM (sleep_resume L_cons) (consoleread_loop ip target dst n)"

definition consolewrite :: "nat \<Rightarrow> u32 \<Rightarrow> u32 \<Rightarrow> 'z kfs_scheme \<Rightarrow> (u32, 'z kfs_scheme) res" where
  "consolewrite ip buf n =
     thenM (iunlock ip)
     (thenM (acquire L_cons)
     (thenM (forM [0..<nat (sint n)] (\<lambda>i.
       bindM (vload8 (buf + of_nat i)) (\<lambda>c. consputc (ucast c))))
     (thenM (release L_cons)
     (thenM (ilock ip)
     (retM n)))))"

definition consoleinit :: "'z kfs_scheme \<Rightarrow> (unit, 'z kfs_scheme) res" where
  "consoleinit =
     modM (\<lambda>s. s\<lparr>k_held := k_held s - {L_cons}, devsw_console := True, k_locking := True\<rparr>)"

end
