(* ===== verification/Fs.thy ===== *)
theory Fs
  imports Console
begin

text \<open>
  File contents, directories and paths, the second half of \<open>fs.c\<close>. A read or write goes block by
  block through \<open>bmap\<close>; its buffer is a virtual address or a variable of the kernel, so the loop
  takes what it does with each piece as an argument.
\<close>

section \<open>Buffers of the caller\<close>

fun vput :: "u32 \<Rightarrow> u8 list \<Rightarrow> 'z kstate_scheme \<Rightarrow> (unit, 'z kstate_scheme) res" where
  "vput a [] = retM ()"
| "vput a (b # bs) = thenM (vstore8 a b) (vput (a + 1) bs)"

fun vget :: "u32 \<Rightarrow> nat \<Rightarrow> 'z kstate_scheme \<Rightarrow> (u8 list, 'z kstate_scheme) res" where
  "vget a 0 = retM []"
| "vget a (Suc n) = bindM (vload8 a) (\<lambda>b. bindM (vget (a + 1) n) (\<lambda>bs. retM (b # bs)))"

definition vstore16 :: "u32 \<Rightarrow> u16 \<Rightarrow> 'z kstate_scheme \<Rightarrow> (unit, 'z kstate_scheme) res" where
  "vstore16 a w = thenM (vstore8 a (ucast w)) (vstore8 (a + 1) (ucast (drop_bit 8 w)))"

section \<open>Reading and writing\<close>

text \<open>\<open>struct stat\<close> at a virtual address.\<close>

definition stati :: "nat \<Rightarrow> u32 \<Rightarrow> 'z kfs_scheme \<Rightarrow> (unit, 'z kfs_scheme) res" where
  "stati ip st =
     bindM (inodeM ip) (\<lambda>i.
     thenM (vstore32 (st + 4) (i_dev i))
     (thenM (vstore32 (st + 8) (i_inum i))
     (thenM (vstore16 st (i_type i))
     (thenM (vstore16 (st + 12) (i_nlink i))
     (vstore32 (st + 16) (i_size i))))))"

text \<open>
  The loop of \<open>readi\<close>: \<open>n\<close> bytes are still to be read from \<open>off\<close> on. \<open>put tot piece\<close> is the
  \<open>memmove\<close> to \<open>dst\<close>, \<open>tot\<close> bytes into it. Every turn reads a byte at least, so \<open>n\<close> bounds them.
\<close>

fun readi_loop :: "nat \<Rightarrow> (u32 \<Rightarrow> u8 list \<Rightarrow> 'z kfs_scheme \<Rightarrow> (unit, 'z kfs_scheme) res) \<Rightarrow>
    nat \<Rightarrow> u32 \<Rightarrow> u32 \<Rightarrow> u32 \<Rightarrow> 'z kfs_scheme \<Rightarrow> (u8 list, 'z kfs_scheme) res" where
  "readi_loop turns put ip off tot n =
     (if \<not> tot < n then retM []
      else if turns = 0 then Spins
      else bindM (inodeM ip) (\<lambda>i.
        bindM (bmap ip (off div of_nat BSIZE)) (\<lambda>addr.
        bindM (bread (i_dev i) addr) (\<lambda>bp.
        let m = min (n - tot) (of_nat BSIZE - off mod of_nat BSIZE) in
        bindM (getM (\<lambda>s. take (unat m) (drop (unat (off mod of_nat BSIZE)) (b_data (bufs s ! bp))))) (\<lambda>piece.
        thenM (put tot piece)
        (thenM (brelse bp)
        (bindM (readi_loop (turns - 1) put ip (off + m) (tot + m) n) (\<lambda>rest.
        retM (piece @ rest)))))))))"

declare readi_loop.simps [simp del]

definition NDEV :: int where "NDEV = 10"

definition readi :: "nat \<Rightarrow> (u32 \<Rightarrow> u8 list \<Rightarrow> 'z kfs_scheme \<Rightarrow> (unit, 'z kfs_scheme) res) \<Rightarrow> u32 \<Rightarrow>
    u32 \<Rightarrow> u32 \<Rightarrow> 'z kfs_scheme \<Rightarrow> (u32 \<times> u8 list, 'z kfs_scheme) res" where
  "readi ip put dst off n =
     bindM (inodeM ip) (\<lambda>i.
     if i_type i = T_DEV then
       bindM (getM devsw_console) (\<lambda>console.
       if sint (i_major i) < 0 \<or> sint (i_major i) \<ge> NDEV \<or> \<not> (console \<and> i_major i = 1) then retM (-1, [])
       else bindM (consoleread ip dst n) (\<lambda>r. retM (r, [])))
     else if off > i_size i \<or> off + n < off then retM (-1, [])
     else let n = (if off + n > i_size i then i_size i - off else n) in
       bindM (readi_loop (unat n) put ip off 0 n) (\<lambda>bs. retM (n, bs)))"

definition readi_mem :: "nat \<Rightarrow> u32 \<Rightarrow> u32 \<Rightarrow> u32 \<Rightarrow> 'z kfs_scheme \<Rightarrow> (u32, 'z kfs_scheme) res" where
  "readi_mem ip dst off n =
     bindM (readi ip (\<lambda>tot piece. vput (dst + tot) piece) dst off n) (\<lambda>(r, _). retM r)"

text \<open>The loop of \<open>writei\<close>; \<open>src tot m\<close> fetches the next \<open>m\<close> bytes. The result is the last \<open>off\<close>.\<close>

fun writei_loop :: "nat \<Rightarrow> (u32 \<Rightarrow> nat \<Rightarrow> 'z kfs_scheme \<Rightarrow> (u8 list, 'z kfs_scheme) res) \<Rightarrow>
    nat \<Rightarrow> u32 \<Rightarrow> u32 \<Rightarrow> u32 \<Rightarrow> 'z kfs_scheme \<Rightarrow> (u32, 'z kfs_scheme) res" where
  "writei_loop turns src ip off tot n =
     (if \<not> tot < n then retM off
      else if turns = 0 then Spins
      else bindM (inodeM ip) (\<lambda>i.
        bindM (bmap ip (off div of_nat BSIZE)) (\<lambda>addr.
        bindM (bread (i_dev i) addr) (\<lambda>bp.
        let m = min (n - tot) (of_nat BSIZE - off mod of_nat BSIZE) in
        bindM (src tot (unat m)) (\<lambda>piece.
        thenM (modM (upd_buf bp (\<lambda>x. x\<lparr>b_data := splice (unat (off mod of_nat BSIZE)) piece (b_data x)\<rparr>)))
        (thenM (log_write bp)
        (thenM (brelse bp)
        (writei_loop (turns - 1) src ip (off + m) (tot + m) n))))))))"

declare writei_loop.simps [simp del]

definition writei :: "nat \<Rightarrow> (u32 \<Rightarrow> nat \<Rightarrow> 'z kfs_scheme \<Rightarrow> (u8 list, 'z kfs_scheme) res) \<Rightarrow> u32 \<Rightarrow>
    u32 \<Rightarrow> u32 \<Rightarrow> 'z kfs_scheme \<Rightarrow> (u32, 'z kfs_scheme) res" where
  "writei ip src a off n =
     bindM (inodeM ip) (\<lambda>i.
     if i_type i = T_DEV then
       bindM (getM devsw_console) (\<lambda>console.
       if sint (i_major i) < 0 \<or> sint (i_major i) \<ge> NDEV \<or> \<not> (console \<and> i_major i = 1) then retM (-1)
       else consolewrite ip a n)
     else if off > i_size i \<or> off + n < off then retM (-1)
     else if off + n > of_nat (MAXFILE * BSIZE) then retM (-1)
     else bindM (writei_loop (unat n) src ip off 0 n) (\<lambda>off.
       bindM (inodeM ip) (\<lambda>i.
       thenM (whenM (n > 0 \<and> off > i_size i)
         (thenM (modM (upd_inode ip (\<lambda>x. x\<lparr>i_size := off\<rparr>))) (iupdate ip)))
       (retM n))))"

definition writei_mem :: "nat \<Rightarrow> u32 \<Rightarrow> u32 \<Rightarrow> u32 \<Rightarrow> 'z kfs_scheme \<Rightarrow> (u32, 'z kfs_scheme) res" where
  "writei_mem ip src off n = writei ip (\<lambda>tot m. vget (src + tot) m) src off n"

section \<open>Directories\<close>

definition DIRSIZ :: nat where "DIRSIZ = 14"

text \<open>
  \<open>strncmp\<close> on the arrays that hold names; a list ends as if a NUL followed it, which is how
  \<open>skipelem\<close> terminates a short name.
\<close>

fun name_ncmp :: "nat \<Rightarrow> u8 list \<Rightarrow> u8 list \<Rightarrow> u32" where
  "name_ncmp 0 p q = 0"
| "name_ncmp (Suc n) p q =
     (let a = (case p of [] \<Rightarrow> 0 | x # _ \<Rightarrow> x); b = (case q of [] \<Rightarrow> 0 | y # _ \<Rightarrow> y) in
      if a \<noteq> 0 \<and> a = b then name_ncmp n (tl p) (tl q) else ucast a - ucast b)"

definition namecmp :: "u8 list \<Rightarrow> u8 list \<Rightarrow> u32" where
  "namecmp s t = name_ncmp DIRSIZ s t"

definition de_inum :: "u8 list \<Rightarrow> u16" where "de_inum de = get16 de 0"
definition de_name :: "u8 list \<Rightarrow> u8 list" where "de_name de = take DIRSIZ (drop 2 de)"

text \<open>\<open>strncpy(de.name, name, DIRSIZ)\<close> and \<open>de.inum = inum\<close>.\<close>

definition mk_dirent :: "u8 list \<Rightarrow> u32 \<Rightarrow> u8 list" where
  "mk_dirent name inum =
     (let nm = take DIRSIZ (takeWhile (\<lambda>b. b \<noteq> 0) name)
      in [ucast inum, ucast (drop_bit 8 inum)] @ nm @ replicate (DIRSIZ - length nm) 0)"

text \<open>The offsets of the entries of a directory of a given size.\<close>

definition dirent_offs :: "u32 \<Rightarrow> u32 list" where
  "dirent_offs sz = map (\<lambda>k. of_nat (16 * k)) [0..<(unat sz + 15) div 16]"

definition read_dirent :: "string \<Rightarrow> nat \<Rightarrow> u32 \<Rightarrow> 'z kfs_scheme \<Rightarrow> (u8 list, 'z kfs_scheme) res" where
  "read_dirent msg dp off =
     bindM (readi dp (\<lambda>_ _. retM ()) 0 off 16) (\<lambda>(r, de).
     if r \<noteq> 16 then panic msg else retM de)"

fun dirlookup_loop :: "nat \<Rightarrow> u8 list \<Rightarrow> u32 list \<Rightarrow> 'z kfs_scheme \<Rightarrow> ((nat \<times> u32) option, 'z kfs_scheme) res" where
  "dirlookup_loop dp name [] = retM None"
| "dirlookup_loop dp name (off # offs) =
     bindM (read_dirent ''dirlookup read'' dp off) (\<lambda>de.
     if de_inum de = 0 then dirlookup_loop dp name offs
     else if namecmp name (de_name de) = 0 then
       bindM (inodeM dp) (\<lambda>i.
       bindM (iget (i_dev i) (ucast (de_inum de))) (\<lambda>ip. retM (Some (ip, off))))
     else dirlookup_loop dp name offs)"

text \<open>The result carries \<open>*poff\<close> too.\<close>

definition dirlookup :: "nat \<Rightarrow> u8 list \<Rightarrow> 'z kfs_scheme \<Rightarrow> ((nat \<times> u32) option, 'z kfs_scheme) res" where
  "dirlookup dp name =
     bindM (inodeM dp) (\<lambda>i.
     if i_type i \<noteq> T_DIR then panic ''dirlookup not DIR''
     else dirlookup_loop dp name (dirent_offs (i_size i)))"

text \<open>The search for an empty entry; \<open>stop\<close> is the offset at which the loop runs out.\<close>

fun empty_dirent :: "nat \<Rightarrow> u32 list \<Rightarrow> u32 \<Rightarrow> 'z kfs_scheme \<Rightarrow> (u32, 'z kfs_scheme) res" where
  "empty_dirent dp [] stop = retM stop"
| "empty_dirent dp (off # offs) stop =
     bindM (read_dirent ''dirlink read'' dp off) (\<lambda>de.
     if de_inum de = 0 then retM off else empty_dirent dp offs stop)"

definition dirlink :: "nat \<Rightarrow> u8 list \<Rightarrow> u32 \<Rightarrow> 'z kfs_scheme \<Rightarrow> (u32, 'z kfs_scheme) res" where
  "dirlink dp name inum =
     bindM (dirlookup dp name) (\<lambda>found.
     case found of
       Some (ip, _) \<Rightarrow> thenM (iput ip) (retM (-1))
     | None \<Rightarrow>
         bindM (inodeM dp) (\<lambda>i.
         let offs = dirent_offs (i_size i) in
         bindM (empty_dirent dp offs (of_nat (16 * length offs))) (\<lambda>off.
         let de = mk_dirent name inum in
         bindM (writei dp (\<lambda>tot m. retM (take m (drop (unat tot) de))) 0 off 16) (\<lambda>r.
         if r \<noteq> 16 then panic ''dirlink'' else retM 0))))"

section \<open>Paths\<close>

text \<open>A path is its bytes before the NUL. The result: the rest of the path and the element.\<close>

definition skipelem :: "u8 list \<Rightarrow> (u8 list \<times> u8 list) option" where
  "skipelem path =
     (let p = dropWhile (\<lambda>b. b = 0x2F) path in
      if p = [] then None
      else let elem = takeWhile (\<lambda>b. b \<noteq> 0x2F) p; rest = dropWhile (\<lambda>b. b \<noteq> 0x2F) p
           in Some (dropWhile (\<lambda>b. b = 0x2F) rest, take DIRSIZ elem))"

lemma skipelem_shorter: "skipelem path = Some (rest, name) \<Longrightarrow> length rest < length path"
proof -
  assume s: "skipelem path = Some (rest, name)"
  let ?p = "dropWhile (\<lambda>b. b = 0x2F) path"
  have p: "?p \<noteq> []" and r: "rest = dropWhile (\<lambda>b. b = 0x2F) (dropWhile (\<lambda>b. b \<noteq> 0x2F) ?p)"
    using s by (auto simp: skipelem_def Let_def split: if_splits)
  have "hd ?p \<noteq> 0x2F" using p by (rule hd_dropWhile)
  then have "length (dropWhile (\<lambda>b. b \<noteq> 0x2F) ?p) \<le> length (tl ?p)"
    using p by (cases ?p) (simp_all add: length_dropWhile_le)
  moreover have "length rest \<le> length (dropWhile (\<lambda>b. b \<noteq> 0x2F) ?p)"
    unfolding r by (rule length_dropWhile_le)
  moreover have "length (tl ?p) < length ?p" using p by (cases ?p) auto
  moreover have "length ?p \<le> length path" by (rule length_dropWhile_le)
  ultimately show ?thesis by linarith
qed

text \<open>The loop of \<open>namex\<close>; the result is the inode and, for \<open>nameiparent\<close>, the last element.\<close>

function namex_loop :: "nat \<Rightarrow> u8 list \<Rightarrow> bool \<Rightarrow> 'z kfs_scheme \<Rightarrow> ((nat \<times> u8 list) option, 'z kfs_scheme) res" where
  "namex_loop ip path parent =
     (case skipelem path of
        None \<Rightarrow> if parent then thenM (iput ip) (retM None) else retM (Some (ip, []))
      | Some (rest, name) \<Rightarrow>
          thenM (ilock ip)
          (bindM (inodeM ip) (\<lambda>i.
          if i_type i \<noteq> T_DIR then thenM (iunlockput ip) (retM None)
          else if parent \<and> rest = [] then thenM (iunlock ip) (retM (Some (ip, name)))
          else bindM (dirlookup ip name) (\<lambda>nxt.
            case nxt of
              None \<Rightarrow> thenM (iunlockput ip) (retM None)
            | Some (ip', _) \<Rightarrow> thenM (iunlockput ip) (namex_loop ip' rest parent)))))"
  by pat_completeness auto

termination namex_loop
  by (relation "measure (\<lambda>(ip, path, parent). length path)") (auto simp: skipelem_shorter)

declare namex_loop.simps [simp del]

definition namex :: "u8 list \<Rightarrow> bool \<Rightarrow> 'z kfs_scheme \<Rightarrow> ((nat \<times> u8 list) option, 'z kfs_scheme) res" where
  "namex path parent =
     bindM (if take 1 path = [0x2F] then iget ROOTDEV ROOTINO
            else bindM curproc (\<lambda>c.
              bindM (getM (\<lambda>s. p_cwd (procs s ! c))) (\<lambda>cwd.
              case cwd of None \<Rightarrow> panic ''trap'' | Some d \<Rightarrow> idup d))) (\<lambda>ip.
     namex_loop ip path parent)"

definition namei :: "u8 list \<Rightarrow> 'z kfs_scheme \<Rightarrow> (nat option, 'z kfs_scheme) res" where
  "namei path = bindM (namex path False) (\<lambda>r. retM (map_option fst r))"

definition nameiparent :: "u8 list \<Rightarrow> 'z kfs_scheme \<Rightarrow> ((nat \<times> u8 list) option, 'z kfs_scheme) res" where
  "nameiparent path = namex path True"

end
