(* ===== verification/File.thy ===== *)
theory File
  imports Fs
begin

text \<open>
  The table of open files (\<open>file.c\<close>) and pipes (\<open>pipe.c\<close>). A file pointer is a number in
  \<open>ftable\<close>. A pipe is the page of memory that \<open>kalloc\<close> gave it, read and written at the offsets of
  \<open>struct pipe\<close>.
\<close>

section \<open>State\<close>

datatype filetype = FD_NONE | FD_PIPE | FD_INODE

record ofile =
  f_type :: filetype
  f_ref :: u32
  f_readable :: bool
  f_writable :: bool
  f_pipe :: u32
  f_ip :: nat
  f_off :: u32

record kfile = kfs +
  ftable :: "ofile list"

definition NFILE :: nat where "NFILE = 100"

definition upd_file :: "nat \<Rightarrow> (ofile \<Rightarrow> ofile) \<Rightarrow> 'z kfile_scheme \<Rightarrow> 'z kfile_scheme" where
  "upd_file f g s = s\<lparr>ftable := (ftable s)[f := g (ftable s ! f)]\<rparr>"

definition fileM :: "nat \<Rightarrow> 'z kfile_scheme \<Rightarrow> (ofile, 'z kfile_scheme) res" where
  "fileM f = getM (\<lambda>s. ftable s ! f)"

section \<open>Pipes\<close>

definition PIPESIZE :: u32 where "PIPESIZE = 512"

text \<open>Offsets in \<open>struct pipe\<close>: the lock takes 52 bytes.\<close>

definition pipe_data :: "u32 \<Rightarrow> u32" where "pipe_data p = p + 52"
definition pipe_nread :: "u32 \<Rightarrow> u32" where "pipe_nread p = p + 564"
definition pipe_nwrite :: "u32 \<Rightarrow> u32" where "pipe_nwrite p = p + 568"
definition pipe_readopen :: "u32 \<Rightarrow> u32" where "pipe_readopen p = p + 572"
definition pipe_writeopen :: "u32 \<Rightarrow> u32" where "pipe_writeopen p = p + 576"

definition pipeclose :: "u32 \<Rightarrow> bool \<Rightarrow> 'z kproc_scheme \<Rightarrow> (unit, 'z kproc_scheme) res" where
  "pipeclose p writable =
     thenM (acquire (L_pipe p))
     (thenM (if writable
             then thenM (poke (pipe_writeopen p) 0) (wakeup (Ch_pipe_nread p))
             else thenM (poke (pipe_readopen p) 0) (wakeup (Ch_pipe_nwrite p)))
     (bindM (peek (pipe_readopen p)) (\<lambda>readopen.
     bindM (peek (pipe_writeopen p)) (\<lambda>writeopen.
     if readopen = 0 \<and> writeopen = 0
     then thenM (release (L_pipe p)) (kfree p)
     else release (L_pipe p)))))"

text \<open>
  The loop of \<open>pipewrite\<close> with \<open>k\<close> bytes left, the next at \<open>a\<close>. When the pipe is full it goes to
  sleep and, started again, continues with the arguments it has.
\<close>

fun pipewrite_loop :: "u32 \<Rightarrow> u32 \<Rightarrow> nat \<Rightarrow> u32 \<Rightarrow> 'z kproc_scheme \<Rightarrow> (u32, 'z kproc_scheme) res" where
  "pipewrite_loop p a 0 n =
     thenM (wakeup (Ch_pipe_nread p)) (thenM (release (L_pipe p)) (retM n))"
| "pipewrite_loop p a (Suc k) n =
     bindM (peek (pipe_nwrite p)) (\<lambda>nwrite.
     bindM (peek (pipe_nread p)) (\<lambda>nread.
     if nwrite = nread + PIPESIZE then
       bindM (peek (pipe_readopen p)) (\<lambda>readopen.
       bindM curproc (\<lambda>i.
       bindM (getM (\<lambda>s. p_killed (procs s ! i))) (\<lambda>killed.
       if readopen = 0 \<or> killed then thenM (release (L_pipe p)) (retM (-1))
       else thenM (wakeup (Ch_pipe_nread p)) (sleep (Ch_pipe_nwrite p) (L_pipe p)))))
     else
       bindM (vload8 a) (\<lambda>c.
       thenM (poke (pipe_nwrite p) (nwrite + 1))
       (thenM (modM (\<lambda>s. s\<lparr>k_mem := (k_mem s)(pipe_data p + nwrite mod PIPESIZE := c)\<rparr>))
       (pipewrite_loop p (a + 1) k n)))))"

definition pipewrite :: "u32 \<Rightarrow> u32 \<Rightarrow> u32 \<Rightarrow> 'z kproc_scheme \<Rightarrow> (u32, 'z kproc_scheme) res" where
  "pipewrite p addr n =
     thenM (acquire (L_pipe p)) (pipewrite_loop p addr (nat (sint n)) n)"

definition pipewrite_resume :: "u32 \<Rightarrow> u32 \<Rightarrow> nat \<Rightarrow> u32 \<Rightarrow> 'z kproc_scheme \<Rightarrow> (u32, 'z kproc_scheme) res" where
  "pipewrite_resume p a k n = thenM (sleep_resume (L_pipe p)) (pipewrite_loop p a k n)"

text \<open>The copying loop of \<open>piperead\<close>; \<open>i\<close> bytes have been read.\<close>

fun piperead_copy :: "u32 \<Rightarrow> u32 \<Rightarrow> nat \<Rightarrow> u32 \<Rightarrow> 'z kproc_scheme \<Rightarrow> (u32, 'z kproc_scheme) res" where
  "piperead_copy p a 0 i = retM i"
| "piperead_copy p a (Suc k) i =
     bindM (peek (pipe_nread p)) (\<lambda>nread.
     bindM (peek (pipe_nwrite p)) (\<lambda>nwrite.
     if nread = nwrite then retM i
     else bindM (getM (\<lambda>s. k_mem s (pipe_data p + nread mod PIPESIZE))) (\<lambda>c.
       thenM (poke (pipe_nread p) (nread + 1))
       (thenM (vstore8 a c)
       (piperead_copy p (a + 1) k (i + 1))))))"

definition piperead_pass :: "u32 \<Rightarrow> u32 \<Rightarrow> u32 \<Rightarrow> 'z kproc_scheme \<Rightarrow> (u32, 'z kproc_scheme) res" where
  "piperead_pass p addr n =
     bindM (peek (pipe_nread p)) (\<lambda>nread.
     bindM (peek (pipe_nwrite p)) (\<lambda>nwrite.
     bindM (peek (pipe_writeopen p)) (\<lambda>writeopen.
     if nread = nwrite \<and> writeopen \<noteq> 0 then
       bindM curproc (\<lambda>i.
       bindM (getM (\<lambda>s. p_killed (procs s ! i))) (\<lambda>killed.
       if killed then thenM (release (L_pipe p)) (retM (-1))
       else sleep (Ch_pipe_nread p) (L_pipe p)))
     else
       bindM (piperead_copy p addr (nat (sint n)) 0) (\<lambda>i.
       thenM (wakeup (Ch_pipe_nwrite p))
       (thenM (release (L_pipe p)) (retM i))))))"

definition piperead :: "u32 \<Rightarrow> u32 \<Rightarrow> u32 \<Rightarrow> 'z kproc_scheme \<Rightarrow> (u32, 'z kproc_scheme) res" where
  "piperead p addr n = thenM (acquire (L_pipe p)) (piperead_pass p addr n)"

definition piperead_resume :: "u32 \<Rightarrow> u32 \<Rightarrow> u32 \<Rightarrow> 'z kproc_scheme \<Rightarrow> (u32, 'z kproc_scheme) res" where
  "piperead_resume p addr n = thenM (sleep_resume (L_pipe p)) (piperead_pass p addr n)"

section \<open>Files\<close>

definition fileinit :: "'z kfile_scheme \<Rightarrow> (unit, 'z kfile_scheme) res" where
  "fileinit = modM (\<lambda>s. s\<lparr>k_held := k_held s - {L_ftable}\<rparr>)"

fun free_file :: "nat \<Rightarrow> ofile list \<Rightarrow> nat option" where
  "free_file i [] = None"
| "free_file i (f # fs) = (if f_ref f = 0 then Some i else free_file (Suc i) fs)"

definition filealloc :: "'z kfile_scheme \<Rightarrow> (nat option, 'z kfile_scheme) res" where
  "filealloc =
     thenM (acquire L_ftable)
     (bindM (getM (\<lambda>s. free_file 0 (ftable s))) (\<lambda>found.
     case found of
       Some f \<Rightarrow> thenM (modM (upd_file f (\<lambda>x. x\<lparr>f_ref := 1\<rparr>))) (thenM (release L_ftable) (retM (Some f)))
     | None \<Rightarrow> thenM (release L_ftable) (retM None)))"

definition filedup :: "nat \<Rightarrow> 'z kfile_scheme \<Rightarrow> (nat, 'z kfile_scheme) res" where
  "filedup f =
     thenM (acquire L_ftable)
     (bindM (fileM f) (\<lambda>x.
     if sint (f_ref x) < 1 then panic ''filedup'' else
     thenM (modM (upd_file f (\<lambda>x. x\<lparr>f_ref := f_ref x + 1\<rparr>)))
     (thenM (release L_ftable) (retM f))))"

definition fileclose :: "nat \<Rightarrow> 'z kfile_scheme \<Rightarrow> (unit, 'z kfile_scheme) res" where
  "fileclose f =
     thenM (acquire L_ftable)
     (bindM (fileM f) (\<lambda>x.
     if sint (f_ref x) < 1 then panic ''fileclose'' else
     thenM (modM (upd_file f (\<lambda>x. x\<lparr>f_ref := f_ref x - 1\<rparr>)))
     (bindM (fileM f) (\<lambda>ff.
     if sint (f_ref ff) > 0 then release L_ftable
     else
       thenM (modM (upd_file f (\<lambda>x. x\<lparr>f_ref := 0, f_type := FD_NONE\<rparr>)))
       (thenM (release L_ftable)
       (case f_type ff of
          FD_PIPE \<Rightarrow> pipeclose (f_pipe ff) (f_writable ff)
        | FD_INODE \<Rightarrow> thenM begin_op (thenM (iput (f_ip ff)) end_op)
        | FD_NONE \<Rightarrow> retM ()))))))"

definition pipealloc :: "'z kfile_scheme \<Rightarrow> ((nat \<times> nat) option, 'z kfile_scheme) res" where
  "pipealloc =
     (let close_opt = (\<lambda>f. case f of None \<Rightarrow> retM () | Some x \<Rightarrow> fileclose x);
          bad = (\<lambda>f0 f1. thenM (close_opt f0) (thenM (close_opt f1) (retM None)))
      in bindM filealloc (\<lambda>f0.
         case f0 of None \<Rightarrow> bad None None
         | Some x0 \<Rightarrow>
           bindM filealloc (\<lambda>f1.
           case f1 of None \<Rightarrow> bad (Some x0) None
           | Some x1 \<Rightarrow>
             bindM kalloc (\<lambda>p.
             if p = 0 then bad (Some x0) (Some x1) else
             thenM (poke (pipe_readopen p) 1)
             (thenM (poke (pipe_writeopen p) 1)
             (thenM (poke (pipe_nwrite p) 0)
             (thenM (poke (pipe_nread p) 0)
             (thenM (modM (\<lambda>s. s\<lparr>k_held := k_held s - {L_pipe p}\<rparr>))
             (thenM (modM (upd_file x0 (\<lambda>x. x\<lparr>f_type := FD_PIPE, f_readable := True, f_writable := False, f_pipe := p\<rparr>)))
             (thenM (modM (upd_file x1 (\<lambda>x. x\<lparr>f_type := FD_PIPE, f_readable := False, f_writable := True, f_pipe := p\<rparr>)))
             (retM (Some (x0, x1))))))))))))) "

definition filestat :: "nat \<Rightarrow> u32 \<Rightarrow> 'z kfile_scheme \<Rightarrow> (u32, 'z kfile_scheme) res" where
  "filestat f st =
     bindM (fileM f) (\<lambda>x.
     if f_type x = FD_INODE then
       thenM (ilock (f_ip x)) (thenM (stati (f_ip x) st) (thenM (iunlock (f_ip x)) (retM 0)))
     else retM (-1))"

definition fileread :: "nat \<Rightarrow> u32 \<Rightarrow> u32 \<Rightarrow> 'z kfile_scheme \<Rightarrow> (u32, 'z kfile_scheme) res" where
  "fileread f addr n =
     bindM (fileM f) (\<lambda>x.
     if \<not> f_readable x then retM (-1)
     else case f_type x of
       FD_PIPE \<Rightarrow> piperead (f_pipe x) addr n
     | FD_INODE \<Rightarrow>
         thenM (ilock (f_ip x))
         (bindM (readi_mem (f_ip x) addr (f_off x) n) (\<lambda>r.
         thenM (whenM (sint r > 0) (modM (upd_file f (\<lambda>x. x\<lparr>f_off := f_off x + r\<rparr>))))
         (thenM (iunlock (f_ip x)) (retM r))))
     | FD_NONE \<Rightarrow> panic ''fileread'')"

definition filewrite_max :: u32 where
  "filewrite_max = of_nat (((MAXOPBLOCKS - 1 - 1 - 2) div 2) * 512)"

text \<open>
  The loop of \<open>filewrite\<close> on an inode: one transaction per piece. The result is \<open>i\<close>. Each piece
  that does not end the loop is at least a byte long, so \<open>n\<close> bounds the turns.
\<close>

fun filewrite_loop :: "nat \<Rightarrow> nat \<Rightarrow> u32 \<Rightarrow> u32 \<Rightarrow> u32 \<Rightarrow> 'z kfile_scheme \<Rightarrow> (u32, 'z kfile_scheme) res" where
  "filewrite_loop turns f addr i n =
     (if \<not> slt i n then retM i
      else if turns = 0 then Spins
      else
        let n1 = n - i; n1 = (if slt filewrite_max n1 then filewrite_max else n1) in
        bindM (fileM f) (\<lambda>x.
        thenM begin_op
        (thenM (ilock (f_ip x))
        (bindM (writei_mem (f_ip x) (addr + i) (f_off x) n1) (\<lambda>r.
        thenM (whenM (sint r > 0) (modM (upd_file f (\<lambda>x. x\<lparr>f_off := f_off x + r\<rparr>))))
        (thenM (iunlock (f_ip x))
        (thenM end_op
        (if sint r < 0 then retM i
         else if r \<noteq> n1 then panic ''short filewrite''
         else filewrite_loop (turns - 1) f addr (i + r) n))))))))"

declare filewrite_loop.simps [simp del]

definition filewrite :: "nat \<Rightarrow> u32 \<Rightarrow> u32 \<Rightarrow> 'z kfile_scheme \<Rightarrow> (u32, 'z kfile_scheme) res" where
  "filewrite f addr n =
     bindM (fileM f) (\<lambda>x.
     if \<not> f_writable x then retM (-1)
     else case f_type x of
       FD_PIPE \<Rightarrow> pipewrite (f_pipe x) addr n
     | FD_INODE \<Rightarrow>
         bindM (filewrite_loop (nat (sint n)) f addr 0 n) (\<lambda>i. retM (if i = n then n else -1))
     | FD_NONE \<Rightarrow> panic ''filewrite'')"

end
