(* ===== verification/Umem.thy ===== *)
theory Umem
  imports Proc_Ops
begin

text \<open>
  Buffers in user memory as the kernel reaches them through the page table, and the call that
  fills one: \<open>procstat\<close> and its \<open>struct pstat\<close>. Then \<open>ps\<close>, which uses the same field of the table.
\<close>

section \<open>A buffer of user memory\<close>

text \<open>
  The \<open>n\<close> bytes at the virtual address \<open>a\<close> are found at the kernel address \<open>ka\<close>, and stay there
  whatever is written to them: no page table lies inside the buffer.
\<close>

definition ubuf :: "'z kstate_scheme \<Rightarrow> u32 \<Rightarrow> u32 \<Rightarrow> nat \<Rightarrow> bool" where
  "ubuf s a ka n \<longleftrightarrow> n \<le> 2 ^ 32 \<and> (\<forall>m. (\<forall>x. n \<le> dist x ka \<longrightarrow> m x = k_mem s x) \<longrightarrow>
     (\<forall>k<n. vaddr (s\<lparr>k_mem := m\<rparr>) (a + of_nat k) = Some (ka + of_nat k)))"

lemma ubuf_vaddr:
  assumes "ubuf s a ka n" and "k < n"
  shows "vaddr s (a + of_nat k) = Some (ka + of_nat k)"
proof -
  have "vaddr (s\<lparr>k_mem := k_mem s\<rparr>) (a + of_nat k) = Some (ka + of_nat k)"
    using assms unfolding ubuf_def by blast
  then show ?thesis by simp
qed

lemma ubuf_write:
  assumes "ubuf s a ka n" and "\<And>x. n \<le> dist x ka \<Longrightarrow> m x = k_mem s x"
  shows "ubuf (s\<lparr>k_mem := m\<rparr>) a ka n"
  using assms unfolding ubuf_def by simp

lemma ubuf_kernel:
  assumes "\<And>k. k < n \<Longrightarrow> KERNBASE \<le> a + of_nat k" and "n \<le> 2 ^ 32"
  shows "ubuf s a a n"
  using assms by (simp add: ubuf_def vaddr_def)

lemma store32_outside:
  assumes "off + 4 \<le> n" and "n \<le> 2 ^ 32" and "n \<le> dist x ka"
  shows "store32 (ka + of_nat off) w m x = m x"
proof -
  have "x \<noteq> ka + of_nat (off + k)" if "k < 4" for k
  proof
    assume "x = ka + of_nat (off + k)"
    then have "dist x ka = (off + k) mod 2 ^ 32" by (simp only: dist_add)
    then have "dist x ka = off + k" using assms that by simp
    with assms that show False by simp
  qed
  from this [of 0] this [of 1] this [of 2] this [of 3] show ?thesis
    by (simp add: store32_def ac_simps)
qed

lemma vstore32_ubuf:
  assumes "ubuf s a ka n" and "off + 4 \<le> n"
  shows "vstore32 (a + of_nat off) w s = Ok () (s\<lparr>k_mem := store32 (ka + of_nat off) w (k_mem s)\<rparr>)"
    and "ubuf (s\<lparr>k_mem := store32 (ka + of_nat off) w (k_mem s)\<rparr>) a ka n"
proof -
  have n: "n \<le> 2 ^ 32" using assms(1) by (simp add: ubuf_def)
  show "ubuf (s\<lparr>k_mem := store32 (ka + of_nat off) w (k_mem s)\<rparr>) a ka n"
    using assms n by (intro ubuf_write store32_outside)
  have st: "vstore8 (a + of_nat (off + i)) b t = Ok () (t\<lparr>k_mem := (k_mem t)(ka + of_nat (off + i) := b)\<rparr>)
      \<and> ubuf (t\<lparr>k_mem := (k_mem t)(ka + of_nat (off + i) := b)\<rparr>) a ka n"
    if "i < 4" "ubuf t a ka n" for i b and t :: "'a kstate_scheme"
  proof
    have "off + i < n" using that(1) assms(2) by simp
    then show "vstore8 (a + of_nat (off + i)) b t = Ok () (t\<lparr>k_mem := (k_mem t)(ka + of_nat (off + i) := b)\<rparr>)"
      using ubuf_vaddr [OF that(2), of "off + i"] by (simp add: vstore8_def)
    have "x \<noteq> ka + of_nat (off + i)" if "n \<le> dist x ka" for x
      using that \<open>off + i < n\<close> n by (metis dist_add leD mod_less order_less_le_trans)
    then show "ubuf (t\<lparr>k_mem := (k_mem t)(ka + of_nat (off + i) := b)\<rparr>) a ka n"
      using that(2) by (intro ubuf_write) auto
  qed
  define s1 where "s1 = s\<lparr>k_mem := (k_mem s)(ka + of_nat (off + 0) := byte_of 0 w)\<rparr>"
  define s2 where "s2 = s1\<lparr>k_mem := (k_mem s1)(ka + of_nat (off + 1) := byte_of 1 w)\<rparr>"
  define s3 where "s3 = s2\<lparr>k_mem := (k_mem s2)(ka + of_nat (off + 2) := byte_of 2 w)\<rparr>"
  define s4 where "s4 = s3\<lparr>k_mem := (k_mem s3)(ka + of_nat (off + 3) := byte_of 3 w)\<rparr>"
  have 1: "vstore8 (a + of_nat (off + 0)) (byte_of 0 w) s = Ok () s1" "ubuf s1 a ka n"
    using st [of 0 s "byte_of 0 w"] assms(1) by (auto simp: s1_def)
  have 2: "vstore8 (a + of_nat (off + 1)) (byte_of 1 w) s1 = Ok () s2" "ubuf s2 a ka n"
    using st [of 1 s1 "byte_of 1 w"] 1(2) by (auto simp: s2_def)
  have 3: "vstore8 (a + of_nat (off + 2)) (byte_of 2 w) s2 = Ok () s3" "ubuf s3 a ka n"
    using st [of 2 s2 "byte_of 2 w"] 2(2) by (auto simp: s3_def)
  have 4: "vstore8 (a + of_nat (off + 3)) (byte_of 3 w) s3 = Ok () s4"
    using st [of 3 s3 "byte_of 3 w"] 3(2) by (auto simp: s4_def)
  have "s4 = s\<lparr>k_mem := store32 (ka + of_nat off) w (k_mem s)\<rparr>"
    by (simp add: s4_def s3_def s2_def s1_def store32_def ac_simps)
  with 1 2 3 4 show "vstore32 (a + of_nat off) w s = Ok () (s\<lparr>k_mem := store32 (ka + of_nat off) w (k_mem s)\<rparr>)"
    by (simp add: vstore32_def thenM_run ac_simps)
qed

lemma vload32_ubuf:
  assumes "ubuf s a ka n" and "off + 4 \<le> n"
  shows "vload32 (a + of_nat off) s = Ok (load32 (k_mem s) (ka + of_nat off)) s"
proof -
  have v: "vload8 (a + of_nat (off + i)) s = Ok (k_mem s (ka + of_nat (off + i))) s" if "i < 4" for i
    using ubuf_vaddr [OF assms(1), of "off + i"] assms(2) that by (simp add: vload8_def)
  from v [of 0] v [of 1] v [of 2] v [of 3] show ?thesis
    by (simp add: vload32_def bindM_run load32_def ac_simps)
qed

lemma load32_store32_off:
  assumes "i + 4 \<le> j \<or> j + 4 \<le> i" and "i + 4 \<le> 2 ^ 32" and "j + 4 \<le> 2 ^ 32"
  shows "load32 (store32 (ka + of_nat i) w m) (ka + of_nat j) = load32 m (ka + of_nat j)"
proof (rule load32_cong)
  fix k :: nat assume k: "k < 4"
  show "store32 (ka + of_nat i) w m (ka + of_nat j + of_nat k) = m (ka + of_nat j + of_nat k)"
  proof (rule store32_other)
    fix l :: nat assume l: "l < 4"
    have "(of_nat (j + k) :: u32) \<noteq> of_nat (i + l)"
      using assms k l by (subst of_nat_u32_inj) auto
    then show "ka + of_nat j + of_nat k \<noteq> ka + of_nat i + of_nat l" by (simp add: add.assoc)
  qed
qed

section \<open>procstat\<close>

text \<open>The memory after the four words of \<open>struct pstat\<close> have been written at \<open>ka\<close>.\<close>

definition pstat_mem :: "u32 \<Rightarrow> proc \<Rightarrow> mem \<Rightarrow> mem" where
  "pstat_mem ka p m = store32 (ka + of_nat 12) (p_etime p - p_ctime p)
     (store32 (ka + of_nat 8) (p_etime p - p_ctime p)
     (store32 (ka + of_nat 4) (p_etime p) (store32 (ka + of_nat 0) (p_ctime p) m)))"

lemma put_pstat_run:
  assumes "ubuf s pstat ka 16"
  shows "put_pstat False pstat p s = Ok () (s\<lparr>k_mem := pstat_mem ka p (k_mem s)\<rparr>)"
proof -
  define s1 where "s1 = s\<lparr>k_mem := store32 (ka + of_nat 0) (p_ctime p) (k_mem s)\<rparr>"
  define s2 where "s2 = s1\<lparr>k_mem := store32 (ka + of_nat 4) (p_etime p) (k_mem s1)\<rparr>"
  define s3 where "s3 = s2\<lparr>k_mem := store32 (ka + of_nat 8) (p_etime p - p_ctime p) (k_mem s2)\<rparr>"
  define s4 where "s4 = s3\<lparr>k_mem := store32 (ka + of_nat 12) (p_etime p - p_ctime p) (k_mem s3)\<rparr>"
  have 1: "vstore32 (pstat + of_nat 0) (p_ctime p) s = Ok () s1" "ubuf s1 pstat ka 16"
    unfolding s1_def using vstore32_ubuf [OF assms, of 0] by simp_all
  have 2: "vstore32 (pstat + of_nat 4) (p_etime p) s1 = Ok () s2" "ubuf s2 pstat ka 16"
    unfolding s2_def using vstore32_ubuf [OF 1(2), of 4] by simp_all
  have 3: "vstore32 (pstat + of_nat 8) (p_etime p - p_ctime p) s2 = Ok () s3" "ubuf s3 pstat ka 16"
    unfolding s3_def using vstore32_ubuf [OF 2(2), of 8] by simp_all
  have l: "vload32 (pstat + of_nat 8) s3 = Ok (p_etime p - p_ctime p) s3"
    using vload32_ubuf [OF 3(2), of 8] by (simp add: s3_def)
  have 4: "vstore32 (pstat + of_nat 12) (p_etime p - p_ctime p) s3 = Ok () s4"
    unfolding s4_def using vstore32_ubuf [OF 3(2), of 12] by simp
  have "s4 = s\<lparr>k_mem := pstat_mem ka p (k_mem s)\<rparr>"
    by (simp add: s4_def s3_def s2_def s1_def pstat_mem_def)
  with 1 2 3 4 l show ?thesis by (simp add: put_pstat_def thenM_run bindM_run)
qed

text \<open>
  The accounting record that \<open>procstat\<close> fills in for an exited child, in a user buffer of 16
  bytes, holds its creation time, its end time, and twice their difference: the total time and the
  turnaround time are the ticks from creation to the end time in the table. Nothing outside the
  buffer is written.
\<close>
theorem pstat_turnaround:
  assumes "ubuf s pstat ka 16"
  shows "\<exists>t. put_pstat False pstat p s = Ok () t
    \<and> load32 (k_mem t) ka = p_ctime p \<and> load32 (k_mem t) (ka + 4) = p_etime p
    \<and> load32 (k_mem t) (ka + 8) = p_etime p - p_ctime p
    \<and> load32 (k_mem t) (ka + 12) = p_etime p - p_ctime p
    \<and> (\<forall>x. 16 \<le> dist x ka \<longrightarrow> k_mem t x = k_mem s x)"
proof -
  let ?m = "pstat_mem ka p (k_mem s)"
  have "load32 ?m (ka + of_nat 0) = p_ctime p" "load32 ?m (ka + of_nat 4) = p_etime p"
    "load32 ?m (ka + of_nat 8) = p_etime p - p_ctime p" "load32 ?m (ka + of_nat 12) = p_etime p - p_ctime p"
    by (simp_all only: pstat_mem_def load32_store32_same load32_store32_off)
      (simp_all add: load32_store32_off [where i = 4 and j = 0, simplified]
        load32_store32_off [where i = 8 and j = 0, simplified] load32_store32_off [where i = 12 and j = 0, simplified]
        load32_store32_off [where i = 8 and j = 4, simplified] load32_store32_off [where i = 12 and j = 4, simplified]
        load32_store32_off [where i = 12 and j = 8, simplified])
  moreover have "?m x = k_mem s x" if "16 \<le> dist x ka" for x
  proof -
    have o: "store32 (ka + of_nat off) w m x = m x" if "off \<le> 12" for off w m
      using that \<open>16 \<le> dist x ka\<close> by (intro store32_outside [of off 16]) auto
    from o [of 0] o [of 4] o [of 8] o [of 12] show ?thesis by (simp add: pstat_mem_def)
  qed
  ultimately show ?thesis using put_pstat_run [OF assms, of p] by simp
qed

theorem pstat_turnaround_witness:
  "\<exists>t. put_pstat False 0x80400000 (proc0\<lparr>p_ctime := 30, p_etime := 100\<rparr>) (demo []) = Ok () t
     \<and> load32 (k_mem t) 0x8040000C = 70"
proof -
  have "ubuf (demo []) 0x80400000 0x80400000 16"
  proof (rule ubuf_kernel)
    fix k :: nat assume "k < 16"
    then have "unat (0x80400000 + of_nat k :: u32) = 0x80400000 + k"
      by (simp add: unat_word_ariths unat_of_nat)
    then show "KERNBASE \<le> 0x80400000 + of_nat k" by (simp add: KERNBASE_def word_le_nat_alt)
  qed simp
  from pstat_turnaround [OF this, of "proc0\<lparr>p_ctime := 30, p_etime := 100\<rparr>"] show ?thesis by auto
qed

lemma put_pstat_frame: "put_pstat b pstat p s = Ok u t \<Longrightarrow> vm_frame s t"
proof -
  have "keeps (vm_frame s) (put_pstat b pstat p)"
    unfolding put_pstat_def by (intro keeps_rules)
  from keepsD [OF this] show "put_pstat b pstat p s = Ok u t \<Longrightarrow> vm_frame s t" by simp
qed

text \<open>
  \<open>procstat\<close> of either kernel, called with no lock held. Once the child with that pid is a
  zombie, a call that returns has reaped exactly that child and returns its pid. Until then, and
  also when no child has that pid, the call returns -1 only if the caller has no children at all or
  has been killed; otherwise it puts the caller to sleep, although no exit of a child need ever
  satisfy it.
\<close>
theorem procstat_outcome:
  assumes "k_held s = {}" and "cpuproc s = Some cur" and "cur < length (procs s)"
  shows "case zombie_child cur (\<lambda>p. p_pid p = pid) (procs s) of
      Some i \<Rightarrow> (\<forall>r t. thenM (acquire L_ptable) (procstat_pass b pid pstat) s = Ok r t \<longrightarrow>
          r = pid \<and> procs t = (procs s)[i := reaped (procs s ! i)] \<and> k_held t = {})
    | None \<Rightarrow>
        (if (\<forall>p\<in>set (procs s). p_parent p \<noteq> Some cur) \<or> p_killed (procs s ! cur)
         then thenM (acquire L_ptable) (procstat_pass b pid pstat) s
           = Ok (-1) (s\<lparr>procs := (procs s)[cur := (procs s ! cur)\<lparr>p_etime := ticks s\<rparr>]\<rparr>)
         else \<exists>t. thenM (acquire L_ptable) (procstat_pass b pid pstat) s = Sleeps (Ch_proc cur) t)"
proof (cases "zombie_child cur (\<lambda>p. p_pid p = pid) (procs s)")
  case None
  define u where "u = s\<lparr>k_held := {L_ptable}, procs := (procs s)[cur := (procs s ! cur)\<lparr>p_etime := ticks s\<rparr>]\<rparr>"
  have z: "sleep (Ch_proc cur) L_ptable u = Sleeps (Ch_proc cur) (u\<lparr>k_held := {L_ptable},
     procs := (procs u)[cur := (procs u ! cur)\<lparr>p_chan := Some (Ch_proc cur), p_state := SLEEPING\<rparr>]\<rparr>)"
    using assms by (intro sleep_run) (simp_all add: u_def)
  have n: "find_slot (\<lambda>p. p_parent p = Some cur \<and> p_pid p = pid \<and> p_state p = ZOMBIE) 0 (procs s) = None"
    using None by (simp add: zombie_child_def)
  have k: "u\<lparr>k_held := {}\<rparr> = s\<lparr>procs := (procs s)[cur := (procs s ! cur)\<lparr>p_etime := ticks s\<rparr>]\<rparr>"
    using assms(1) by (simp add: u_def)
  show ?thesis
    using assms None n z k
    by (auto simp: procstat_pass_def curproc_def upd_proc_def monad_simps acquire_def release_def
        child_scan_result u_def)
next
  case (Some i)
  let ?u = "s\<lparr>k_held := {L_ptable}\<rparr>"
  have i: "i < length (procs s)" using zombie_child_index [OF Some] by simp
  have f: "find_slot (\<lambda>p. p_parent p = Some cur \<and> p_pid p = pid \<and> p_state p = ZOMBIE) 0 (procs s) = Some i"
    using Some by (simp add: zombie_child_def)
  have w: "thenM (acquire L_ptable) (procstat_pass b pid pstat) s =
      thenM (whenM (pstat \<noteq> 0) (put_pstat b pstat (procs s ! i)))
        (thenM (reap i) (thenM (release L_ptable) (retM pid))) ?u"
    using assms f
    by (simp add: procstat_pass_def curproc_def bindM_run thenM_run [of "acquire L_ptable"] acquire_def child_scan_result)
  have "r = pid \<and> procs t = (procs s)[i := reaped (procs s ! i)] \<and> k_held t = {}"
    if run: "thenM (acquire L_ptable) (procstat_pass b pid pstat) s = Ok r t" for r t
  proof -
    obtain u1 u2 where 1: "whenM (pstat \<noteq> 0) (put_pstat b pstat (procs s ! i)) ?u = Ok () u1"
      and 2: "reap i u1 = Ok () u2" and 3: "release L_ptable u2 = Ok () t" "r = pid"
      using run unfolding w by (auto simp: thenM_Ok_iff)
    have "vm_frame ?u u1" using 1 put_pstat_frame by (auto simp: whenM_Ok_iff split: if_split_asm)
    note fr = vm_frame_kproc [OF this]
    from reap_Ok [OF 2] i fr 3 show ?thesis by (simp add: release_Ok_iff)
  qed
  with Some show ?thesis by simp
qed

theorem procstat_outcome_witness:
  "\<exists>t. thenM (acquire L_ptable) (procstat_pass False 99 0)
     ((demo [proc_at RUNNING 0 0, (proc_at ZOMBIE 3 0)\<lparr>p_parent := Some 0, p_pid := 5\<rparr>])\<lparr>cpuproc := Some 0\<rparr>)
   = Sleeps (Ch_proc 0) t"
proof -
  let ?s = "(demo [proc_at RUNNING 0 0, (proc_at ZOMBIE 3 0)\<lparr>p_parent := Some 0, p_pid := 5\<rparr>])\<lparr>cpuproc := Some 0\<rparr>"
  have "zombie_child 0 (\<lambda>p. p_pid p = 99) (procs ?s) = None"
    by (simp add: zombie_child_def)
  with procstat_outcome [where s = ?s and cur = 0 and pid = 99 and b = False and pstat = 0] show ?thesis by simp
qed

section \<open>ps\<close>

lemma ps_format_ok:
  "\<exists>out. cprintf_loop ps_format [A_int a, A_str b, A_str c, A_int d, A_int e, A_int f] = Some out"
  by (simp add: ps_format_def TAB_def NL_def)

lemma ps_header_ok: "\<exists>out. cprintf_loop ps_header [] = Some out"
  by (simp add: ps_header_def TAB_def NL_def)

definition ps_touch :: "u32 \<Rightarrow> proc \<Rightarrow> proc" where
  "ps_touch now p = (if p_state p = UNUSED then p else p\<lparr>p_etime := now\<rparr>)"

lemma take_drop_update:
  assumes "i < length xs"
  shows "(map f (take i xs) @ drop i xs) ! i = xs ! i"
    and "(map f (take i xs) @ drop i xs)[i := f (xs ! i)] = map f (take (Suc i) xs) @ drop (Suc i) xs"
proof -
  show "(map f (take i xs) @ drop i xs) ! i = xs ! i"
    using assms by (simp add: nth_append)
  have "drop i xs = xs ! i # drop (Suc i) xs" using assms by (simp add: Cons_nth_drop_Suc)
  then show "(map f (take i xs) @ drop i xs)[i := f (xs ! i)] = map f (take (Suc i) xs) @ drop (Suc i) xs"
    using assms by (simp add: list_update_append take_Suc_conv_app_nth)
qed

text \<open>
  \<open>ps\<close> prints a line for every process and returns 0, and sets the end time of every process
  in use to the present, also that of a zombie, which had recorded when it exited. A turnaround
  time that \<open>procstat\<close> reports afterwards is counted up to the last \<open>ps\<close>.
\<close>
theorem ps_resets_end_times:
  assumes "L_ptable \<notin> k_held s" and "L_cons \<notin> k_held s" and "length (procs s) = NPROC"
  shows "\<exists>t. proc_ps s = Ok 0 t \<and> procs t = map (ps_touch (ticks s)) (procs s) \<and> k_held t = k_held s"
proof -
  let ?I = "\<lambda>i u. procs u = map (ps_touch (ticks s)) (take i (procs s)) @ drop i (procs s)
    \<and> ticks u = ticks s \<and> k_held u = insert L_ptable (k_held s)"
  let ?body = "\<lambda>i. bindM (getM (\<lambda>s. p_state (procs s ! i))) (\<lambda>st.
       if st = UNUSED then retM () else
       bindM (getM ticks) (\<lambda>now.
       thenM (upd_proc i (\<lambda>p. p\<lparr>p_etime := now\<rparr>))
       (bindM (getM (\<lambda>s. procs s ! i)) (\<lambda>p.
       let total_time = p_etime p - p_ctime p in
       cprintf ps_format [A_int (p_pid p), A_str (ps_state (p_state p)), A_str (p_name p),
         A_int (p_ctime p), A_int (p_etime p), A_int total_time]))))"
  have body: "\<exists>t. ?body i u = Ok () t \<and> ?I (Suc i) t" if i: "i < NPROC" and I: "?I i u"
    for i and u :: "'a kproc_scheme"
  proof -
    have il: "i < length (procs s)" using i assms(3) by simp
    note up = take_drop_update [OF il, of "ps_touch (ticks s)"]
    have cur: "procs u ! i = procs s ! i" using I up(1) by simp
    have len: "i < length (procs u)" and tk: "ticks u = ticks s" using I il by simp_all
    show ?thesis
    proof (cases "p_state (procs s ! i) = UNUSED")
      case True
      then have "ps_touch (ticks s) (procs s ! i) = procs u ! i" by (simp add: ps_touch_def cur)
      then have "procs u = map (ps_touch (ticks s)) (take (Suc i) (procs s)) @ drop (Suc i) (procs s)"
        using I up(2) len by (metis list_update_id)
      moreover have "?body i u = Ok () u" using True cur by (simp add: bindM_run)
      ultimately show ?thesis using I by blast
    next
      case False
      let ?p = "(procs s ! i)\<lparr>p_etime := ticks s\<rparr>"
      let ?u = "u\<lparr>procs := (procs u)[i := ?p]\<rparr>"
      let ?args = "[A_int (p_pid ?p), A_str (ps_state (p_state ?p)), A_str (p_name ?p),
         A_int (p_ctime ?p), A_int (p_etime ?p), A_int (p_etime ?p - p_ctime ?p)]"
      obtain out where "cprintf_loop ps_format ?args = Some out" using ps_format_ok by blast
      moreover have "L_cons \<notin> k_held ?u" using I assms(2) by simp
      ultimately have "cprintf ps_format ?args ?u = Ok () (?u\<lparr>k_out := k_out ?u @ out\<rparr>)"
        by (intro cprintf_run)
      moreover have "(procs u)[i := ?p] = map (ps_touch (ticks s)) (take (Suc i) (procs s)) @ drop (Suc i) (procs s)"
        using up(2) I False by (simp add: ps_touch_def)
      moreover have "?body i u = cprintf ps_format ?args ?u"
        using False tk len by (simp add: bindM_run thenM_run upd_proc_def cur Let_def)
      ultimately show ?thesis using I by auto
    qed
  qed
  obtain hd where hd: "cprintf_loop ps_header [] = Some hd" using ps_header_ok by blast
  let ?u = "s\<lparr>k_held := insert L_ptable (k_held s)\<rparr>"
  have c: "cprintf ps_header [] ?u = Ok () (?u\<lparr>k_out := k_out ?u @ hd\<rparr>)"
    using assms(2) hd by (intro cprintf_run) simp_all
  obtain t where t: "forM [0..<NPROC] ?body (?u\<lparr>k_out := k_out ?u @ hd\<rparr>) = Ok () t" "?I NPROC t"
    using forM_upt [of 0 NPROC ?I ?body "?u\<lparr>k_out := k_out ?u @ hd\<rparr>"] body by auto
  show ?thesis
    using t c assms by (simp add: proc_ps_def thenM_run acquire_def release_def)
qed

theorem ps_resets_end_times_witness:
  "\<exists>t. proc_ps ((demo ((proc_at ZOMBIE 3 0)\<lparr>p_etime := 5\<rparr> # replicate 63 proc0))\<lparr>ticks := 90\<rparr>) = Ok 0 t
     \<and> p_state (procs t ! 0) = ZOMBIE \<and> p_etime (procs t ! 0) = 90"
  using ps_resets_end_times [of "(demo ((proc_at ZOMBIE 3 0)\<lparr>p_etime := 5\<rparr> # replicate 63 proc0))\<lparr>ticks := 90\<rparr>"]
  by (auto simp: NPROC_def ps_touch_def)

section \<open>Allocation\<close>

lemma kalloc_wf: "kmem_wf (p # ps) s \<Longrightarrow> kalloc s = Ok p (s\<lparr>k_freelist := load32 (k_mem s) p\<rparr>)"
  by (auto simp: kmem_wf_def kalloc_run)

lemma kmem_wf_kproc [simp]:
  "kmem_wf ps (s\<lparr>procs := t\<rparr>) = kmem_wf ps s" "kmem_wf ps (s\<lparr>nextpid := n\<rparr>) = kmem_wf ps s"
  by (simp_all add: kmem_wf_def)

text \<open>The memory of a new kernel stack at \<open>pg\<close>: the return address of \<open>forkret\<close> and the context.\<close>

definition kstack_mem :: "u32 \<Rightarrow> u32 \<Rightarrow> u32 \<Rightarrow> mem \<Rightarrow> mem" where
  "kstack_mem pg trapret forkret m =
     store32 (pg + of_nat 4012) forkret (memset (pg + of_nat 3996) 0 20 (store32 (pg + of_nat 4016) trapret m))"

lemma kstack_mem_words:
  "load32 (kstack_mem pg trapret forkret m) (pg + of_nat 4016) = trapret"
  "load32 (kstack_mem pg trapret forkret m) (pg + of_nat 4012) = forkret"
  "k < 16 \<Longrightarrow> kstack_mem pg trapret forkret m (pg + of_nat (3996 + k)) = 0"
proof -
  have d: "dist (pg + of_nat (3996 + k)) (pg + of_nat 3996) = k" if "k < 100" for k
    using that dist_add [of "pg + of_nat 3996" k] by (simp add: add.assoc)
  show "load32 (kstack_mem pg trapret forkret m) (pg + of_nat 4012) = forkret"
    by (simp only: kstack_mem_def load32_store32_same)
  have "load32 (memset (pg + of_nat 3996) 0 20 (store32 (pg + of_nat 4016) trapret m)) (pg + of_nat 4016)
      = load32 (store32 (pg + of_nat 4016) trapret m) (pg + of_nat 4016)"
  proof (rule load32_cong)
    fix k :: nat assume "k < 4"
    then have "\<not> dist (pg + of_nat 4016 + of_nat k) (pg + of_nat 3996) < unat (20 :: u32)"
      using d [of "20 + k"] by (simp add: add.assoc)
    then show "memset (pg + of_nat 3996) 0 20 (store32 (pg + of_nat 4016) trapret m) (pg + of_nat 4016 + of_nat k)
        = store32 (pg + of_nat 4016) trapret m (pg + of_nat 4016 + of_nat k)"
      by (simp only: memset_eq if_False)
  qed
  then show "load32 (kstack_mem pg trapret forkret m) (pg + of_nat 4016) = trapret"
    unfolding kstack_mem_def by (subst load32_store32_off) simp_all
  show "kstack_mem pg trapret forkret m (pg + of_nat (3996 + k)) = 0" if "k < 16"
  proof -
    have "store32 (pg + of_nat 4012) forkret M (pg + of_nat (3996 + k)) = M (pg + of_nat (3996 + k))" for M
    proof (rule store32_other)
      fix j :: nat assume "j < 4"
      then have "(of_nat (3996 + k) :: u32) \<noteq> of_nat (4012 + j)"
        using that by (subst of_nat_u32_inj) auto
      then show "pg + of_nat (3996 + k) \<noteq> pg + of_nat 4012 + of_nat j" by (simp add: add.assoc)
    qed
    then show ?thesis using d [of k] that by (simp add: kstack_mem_def memset_eq del: of_nat_add)
  qed
qed

lemma allocproc_run:
  assumes "L_ptable \<notin> k_held s" and "kmem_wf (pg # pgs) s" and "pg \<noteq> 0"
    and "find_slot (\<lambda>p. p_state p = UNUSED) 0 (procs s) = Some i"
  shows "allocproc s = Ok (Some i) (s\<lparr>k_freelist := load32 (k_mem s) pg,
    k_mem := kstack_mem pg (k_trapret s) (k_forkret s) (k_mem s), nextpid := nextpid s + 1,
    procs := (procs s)[i := (procs s ! i)\<lparr>p_state := EMBRYO, p_pid := nextpid s, p_ctime := ticks s,
      p_etime := 0, p_kstack := pg, p_tf := pg + 4020, p_context := pg + 3996\<rparr>]\<rparr>)"
proof -
  have i: "i < length (procs s)" using assms(4) by (simp add: find_slot_Some)
  have k: "k_held s - {L_ptable} = k_held s" using assms(1) by auto
  show ?thesis
    using assms i k
    by (simp add: allocproc_def monad_simps acquire_def release_def upd_proc_def poke_def memsetM_def Let_def
        kalloc_wf [of pg pgs] KSTACKSIZE_def sizeof_trapframe_def sizeof_context_def ctx_eip_def kstack_mem_def ac_simps)
qed

lemma allocproc_full:
  assumes "L_ptable \<notin> k_held s" and "find_slot (\<lambda>p. p_state p = UNUSED) 0 (procs s) = None"
  shows "allocproc s = Ok None s"
  using assms by (simp add: allocproc_def monad_simps acquire_def release_def)

lemma allocproc_no_memory:
  assumes "L_ptable \<notin> k_held s" and "kmem_wf [] s"
    and "find_slot (\<lambda>p. p_state p = UNUSED) 0 (procs s) = Some i"
  shows "allocproc s = Ok None (s\<lparr>nextpid := nextpid s + 1,
    procs := (procs s)[i := (procs s ! i)\<lparr>p_pid := nextpid s, p_ctime := ticks s, p_etime := 0,
      p_kstack := 0, p_state := UNUSED\<rparr>]\<rparr>)"
proof -
  have i: "i < length (procs s)" using assms(3) by (simp add: find_slot_Some)
  have k: "k_held s - {L_ptable} = k_held s" using assms(1) by auto
  show ?thesis
    using assms i k
    by (simp add: allocproc_def monad_simps acquire_def release_def upd_proc_def kmem.alloc_none)
qed

text \<open>
  \<open>allocproc\<close>. With a free slot and a free page it returns the first free slot, set up as a
  new process: state \<open>EMBRYO\<close>, the next pid, created now, a kernel stack on the page that makes its
  first \<open>swtch\<close> go to \<open>forkret\<close> and from there to \<open>trapret\<close>; \<open>killed\<close> and \<open>priority\<close> are what the
  slot's last user left. Without a free slot it returns null and changes nothing; without a page
  it returns null with the slot free again, but carrying the pid.
\<close>
theorem allocproc_outcome:
  assumes "L_ptable \<notin> k_held s" and "kmem_wf pgs s"
  shows "case find_slot (\<lambda>p. p_state p = UNUSED) 0 (procs s) of
      None \<Rightarrow> allocproc s = Ok None s
    | Some i \<Rightarrow> (case pgs of
        [] \<Rightarrow> \<exists>t. allocproc s = Ok None t \<and> nextpid t = nextpid s + 1 \<and> p_state (procs t ! i) = UNUSED
             \<and> p_pid (procs t ! i) = nextpid s
      | pg # _ \<Rightarrow> \<exists>t. allocproc s = Ok (Some i) t \<and> nextpid t = nextpid s + 1
          \<and> procs t = (procs s)[i := (procs s ! i)\<lparr>p_state := EMBRYO, p_pid := nextpid s, p_ctime := ticks s,
              p_etime := 0, p_kstack := pg, p_tf := pg + 4020, p_context := pg + 3996\<rparr>]
          \<and> p_killed (procs t ! i) = p_killed (procs s ! i)
          \<and> p_priority (procs t ! i) = p_priority (procs s ! i)
          \<and> load32 (k_mem t) (pg + 4012) = k_forkret s \<and> load32 (k_mem t) (pg + 4016) = k_trapret s
          \<and> (\<forall>k<16. k_mem t (pg + of_nat (3996 + k)) = 0))"
proof (cases "find_slot (\<lambda>p. p_state p = UNUSED) 0 (procs s)")
  case None
  then show ?thesis using allocproc_full [OF assms(1)] by simp
next
  case (Some i)
  then have i: "i < length (procs s)" by (simp add: find_slot_Some)
  show ?thesis
  proof (cases pgs)
    case Nil
    with Some i allocproc_no_memory [OF assms(1) _ Some] assms(2) show ?thesis by simp
  next
    case (Cons pg qs)
    have "pg \<noteq> 0" using kmem.wf_pages [OF assms(2)] Cons by simp
    with Cons Some i allocproc_run [OF assms(1) _ _ Some, of pg qs] assms(2) show ?thesis
      using kstack_mem_words [where pg = pg and trapret = "k_trapret s" and forkret = "k_forkret s" and m = "k_mem s"]
      by simp
  qed
qed

theorem allocproc_outcome_witness:
  "\<exists>t. allocproc ((demo [proc_at RUNNING 0 0, proc0\<lparr>p_killed := True\<rparr>])\<lparr>nextpid := 7\<rparr>) = Ok None t
     \<and> p_state (procs t ! 1) = UNUSED \<and> p_pid (procs t ! 1) = 7 \<and> nextpid t = 8"
proof -
  let ?s = "(demo [proc_at RUNNING 0 0, proc0\<lparr>p_killed := True\<rparr>])\<lparr>nextpid := 7\<rparr>"
  have "kmem_wf [] ?s"
    by (simp add: kmem_wf_def demo_def boot_def KERNLINK_def EXTMEM_def KERNBASE_def word_le_nat_alt)
  moreover have "find_slot (\<lambda>p. p_state p = UNUSED) 0 (procs ?s) = Some 1" by (simp add: proc0_def)
  ultimately show ?thesis using allocproc_outcome [of ?s "[]"] by auto
qed

end
