(* ===== verification/Process.thy ===== *)
theory Process
  imports File Umem
begin

text \<open>
  The life of a process in \<open>proc.c\<close>: the first one (\<open>userinit\<close>), \<open>fork\<close> and, in the kernel with
  priorities, \<open>custmpro\<close>, the first return to user space (\<open>forkret\<close>) and \<open>exit\<close>. These use the file
  layer for the open files and the current directory.
\<close>

section \<open>Trap frames\<close>

text \<open>Offsets in \<open>struct trapframe\<close>.\<close>

definition tf_eax :: u32 where "tf_eax = 28"
definition tf_es :: u32 where "tf_es = 40"
definition tf_ds :: u32 where "tf_ds = 44"
definition tf_trapno :: u32 where "tf_trapno = 48"
definition tf_err :: u32 where "tf_err = 52"
definition tf_eip :: u32 where "tf_eip = 56"
definition tf_cs :: u32 where "tf_cs = 60"
definition tf_eflags :: u32 where "tf_eflags = 64"
definition tf_esp :: u32 where "tf_esp = 68"
definition tf_ss :: u32 where "tf_ss = 72"

definition SEG_UCODE :: u16 where "SEG_UCODE = 3"
definition SEG_UDATA :: u16 where "SEG_UDATA = 4"
definition DPL_USER :: u16 where "DPL_USER = 3"
definition FL_IF :: u32 where "FL_IF = 0x200"

definition poke16 :: "u32 \<Rightarrow> u16 \<Rightarrow> 'z kstate_scheme \<Rightarrow> (unit, 'z kstate_scheme) res" where
  "poke16 a w = modM (\<lambda>s. s\<lparr>k_mem := (k_mem s)(a := ucast w, a + 1 := ucast (drop_bit 8 w))\<rparr>)"

definition procM :: "nat \<Rightarrow> 'z kproc_scheme \<Rightarrow> (proc, 'z kproc_scheme) res" where
  "procM i = getM (\<lambda>s. procs s ! i)"

section \<open>The first process\<close>

text \<open>\<open>init\<close> and \<open>sz\<close> are the linker's symbols for the image of \<open>initcode\<close>.\<close>

definition userinit :: "u32 \<Rightarrow> u32 \<Rightarrow> 'z kfs_scheme \<Rightarrow> (unit, 'z kfs_scheme) res" where
  "userinit init sz =
     bindM allocproc (\<lambda>q.
     thenM (modM (\<lambda>s. s\<lparr>initproc := q\<rparr>))
     (case q of None \<Rightarrow> panic ''trap''
         | Some i \<Rightarrow>
           bindM setupkvm (\<lambda>pgdir.
           thenM (upd_proc i (\<lambda>p. p\<lparr>p_pgdir := pgdir\<rparr>))
           (if pgdir = 0 then panic ''userinit: out of memory?'' else
               thenM (inituvm pgdir init sz)
               (thenM (upd_proc i (\<lambda>p. p\<lparr>p_sz := PGSIZE\<rparr>))
               (bindM (getM (\<lambda>s. p_tf (procs s ! i))) (\<lambda>tf.
               thenM (memsetM tf 0 sizeof_trapframe)
               (thenM (poke16 (tf + tf_cs) (push_bit 3 SEG_UCODE OR DPL_USER))
               (thenM (poke16 (tf + tf_ds) (push_bit 3 SEG_UDATA OR DPL_USER))
               (thenM (poke16 (tf + tf_es) (push_bit 3 SEG_UDATA OR DPL_USER))
               (thenM (poke16 (tf + tf_ss) (push_bit 3 SEG_UDATA OR DPL_USER))
               (thenM (poke (tf + tf_eflags) FL_IF)
               (thenM (poke (tf + tf_esp) PGSIZE)
               (thenM (poke (tf + tf_eip) 0)
               (thenM (upd_proc i (\<lambda>p. p\<lparr>p_name := ''initcode''\<rparr>))
               (bindM (namei [0x2F]) (\<lambda>cwd.
               thenM (upd_proc i (\<lambda>p. p\<lparr>p_cwd := cwd\<rparr>))
               (thenM (acquire L_ptable)
               (thenM (upd_proc i (\<lambda>p. p\<lparr>p_state := RUNNABLE\<rparr>))
               (release L_ptable))))))))))))))))))))"

section \<open>fork\<close>

definition copy_files :: "nat \<Rightarrow> nat \<Rightarrow> 'z kfile_scheme \<Rightarrow> (unit, 'z kfile_scheme) res" where
  "copy_files cur np =
     forM [0..<NOFILE] (\<lambda>i.
       bindM (getM (\<lambda>s. p_ofile (procs s ! cur) ! i)) (\<lambda>f.
       case f of None \<Rightarrow> retM ()
       | Some f \<Rightarrow> bindM (filedup f) (\<lambda>f'. upd_proc np (\<lambda>p. p\<lparr>p_ofile := (p_ofile p)[i := Some f']\<rparr>))))"

text \<open>
  The body that \<open>fork\<close> and \<open>custmpro\<close> share; \<open>prio\<close> is the one assignment in which they differ.
\<close>

definition fork_with :: "(proc \<Rightarrow> proc) \<Rightarrow> 'z kfile_scheme \<Rightarrow> (u32, 'z kfile_scheme) res" where
  "fork_with prio =
     bindM curproc (\<lambda>cur.
     bindM allocproc (\<lambda>q.
     (case q of None \<Rightarrow> retM (-1)
         | Some np \<Rightarrow>
           bindM (procM cur) (\<lambda>c.
           bindM (copyuvm (p_pgdir c) (p_sz c)) (\<lambda>pgdir.
           thenM (upd_proc np (\<lambda>p. p\<lparr>p_pgdir := pgdir\<rparr>))
           (if pgdir = 0 then
                 bindM (procM np) (\<lambda>p.
                 thenM (kfree (p_kstack p))
                 (thenM (upd_proc np (\<lambda>p. p\<lparr>p_kstack := 0, p_state := UNUSED\<rparr>))
                 (retM (-1))))
               else
                 thenM (upd_proc np (\<lambda>p. p\<lparr>p_sz := p_sz c, p_parent := Some cur\<rparr>))
                 (bindM (getM (\<lambda>s. p_tf (procs s ! np))) (\<lambda>tf.
                 thenM (memmoveM tf (p_tf c) sizeof_trapframe)
                 (thenM (upd_proc np prio)
                 (thenM (poke (tf + tf_eax) 0)
                 (thenM (copy_files cur np)
                 (bindM (case p_cwd c of None \<Rightarrow> panic ''trap'' | Some d \<Rightarrow> idup d) (\<lambda>cwd.
                 thenM (upd_proc np (\<lambda>p. p\<lparr>p_cwd := Some cwd, p_name := take 15 (p_name c)\<rparr>))
                 (bindM (getM (\<lambda>s. p_pid (procs s ! np))) (\<lambda>pid.
                 thenM (acquire L_ptable)
                 (thenM (upd_proc np (\<lambda>p. p\<lparr>p_state := RUNNABLE\<rparr>))
                 (thenM (release L_ptable)
                 (retM pid))))))))))))))))))"

definition fork :: "'z kfile_scheme \<Rightarrow> (u32, 'z kfile_scheme) res" where
  "fork = fork_with id"

definition custmpro :: "u32 \<Rightarrow> 'z kfile_scheme \<Rightarrow> (u32, 'z kfile_scheme) res" where
  "custmpro priority = fork_with (\<lambda>p. p\<lparr>p_priority := priority\<rparr>)"

section \<open>exit\<close>

definition close_files :: "nat \<Rightarrow> 'z kfile_scheme \<Rightarrow> (unit, 'z kfile_scheme) res" where
  "close_files cur =
     forM [0..<NOFILE] (\<lambda>fd.
       bindM (getM (\<lambda>s. p_ofile (procs s ! cur) ! fd)) (\<lambda>f.
       case f of None \<Rightarrow> retM ()
       | Some f \<Rightarrow> thenM (fileclose f) (upd_proc cur (\<lambda>p. p\<lparr>p_ofile := (p_ofile p)[fd := None]\<rparr>))))"

text \<open>The part under \<open>ptable.lock\<close>: the children go to \<open>initproc\<close>.\<close>

definition pass_children :: "nat \<Rightarrow> 'z kproc_scheme \<Rightarrow> (unit, 'z kproc_scheme) res" where
  "pass_children cur =
     forM [0..<NPROC] (\<lambda>i.
       bindM (procM i) (\<lambda>p.
       whenM (p_parent p = Some cur)
         (bindM (getM initproc) (\<lambda>ini.
          thenM (upd_proc i (\<lambda>p. p\<lparr>p_parent := ini\<rparr>))
          (whenM (p_state p = ZOMBIE) (wakeup1 (map_option Ch_proc ini)))))))"

definition exit_locked :: "nat \<Rightarrow> 'z kproc_scheme \<Rightarrow> (unit, 'z kproc_scheme) res" where
  "exit_locked cur =
     bindM (procM cur) (\<lambda>c.
     thenM (wakeup1 (map_option Ch_proc (p_parent c)))
     (thenM (pass_children cur)
     (bindM (getM ticks) (\<lambda>now.
     thenM (upd_proc cur (\<lambda>p. p\<lparr>p_etime := now, p_state := ZOMBIE\<rparr>))
     sched))))"

text \<open>\<open>exit\<close> ends in \<open>sched\<close>: returning from the model is giving the processor away for good.\<close>

definition exit :: "'z kfile_scheme \<Rightarrow> (unit, 'z kfile_scheme) res" where
  "exit =
     bindM curproc (\<lambda>cur.
     bindM (getM initproc) (\<lambda>ini.
     if Some cur = ini then panic ''init exiting'' else
     thenM (close_files cur)
     (thenM begin_op
     (bindM (procM cur) (\<lambda>c.
     thenM (case p_cwd c of None \<Rightarrow> panic ''trap'' | Some d \<Rightarrow> iput d)
     (thenM end_op
     (thenM (upd_proc cur (\<lambda>p. p\<lparr>p_cwd := None\<rparr>))
     (thenM (acquire L_ptable)
     (exit_locked cur)))))))))"

section \<open>forkret\<close>

record kernel = kfile +
  forkret_first :: bool

definition forkret :: "'z kernel_scheme \<Rightarrow> (unit, 'z kernel_scheme) res" where
  "forkret =
     thenM (release L_ptable)
     (bindM (getM forkret_first) (\<lambda>first.
     whenM first
       (thenM (modM (\<lambda>s. s\<lparr>forkret_first := False\<rparr>))
       (thenM (iinit ROOTDEV)
       (initlog ROOTDEV)))))"

end
