(* ===== verification/Sysfile.thy ===== *)
theory Sysfile
  imports Process
begin

text \<open>
  Arguments of system calls (\<open>syscall.c\<close>), the calls on files (\<open>sysfile.c\<close>) and \<open>exec\<close>. A user
  pointer is checked against the size of the process and then used through its page table. A
  string argument is its bytes before the NUL: user memory does not change during the call.
\<close>

section \<open>Arguments\<close>

text \<open>The result of \<open>fetchint\<close> and \<open>argint\<close>: \<open>None\<close> for -1, in which case \<open>*ip\<close> is not written.\<close>

definition fetchint :: "u32 \<Rightarrow> 'z kproc_scheme \<Rightarrow> (u32 option, 'z kproc_scheme) res" where
  "fetchint addr =
     bindM curproc (\<lambda>cur.
     bindM (getM (\<lambda>s. p_sz (procs s ! cur))) (\<lambda>sz.
     (if addr \<ge> sz \<or> addr + 4 > sz then retM None
         else bindM (vload32 addr) (\<lambda>v. retM (Some v)))))"

text \<open>The loop of \<open>fetchstr\<close>, from \<open>s\<close> up to \<open>ep\<close>: the bytes before the NUL, if there is one.\<close>

fun fetchstr_loop :: "nat \<Rightarrow> u32 \<Rightarrow> 'z kproc_scheme \<Rightarrow> (u8 list option, 'z kproc_scheme) res" where
  "fetchstr_loop 0 s = retM None"
| "fetchstr_loop (Suc n) s =
     bindM (vload8 s) (\<lambda>c.
     (if c = 0 then retM (Some [])
         else bindM (fetchstr_loop n (s + 1)) (\<lambda>r. retM (map_option ((#) c) r))))"

definition fetchstr :: "u32 \<Rightarrow> 'z kproc_scheme \<Rightarrow> (u8 list option, 'z kproc_scheme) res" where
  "fetchstr addr =
     bindM curproc (\<lambda>cur.
     bindM (getM (\<lambda>s. p_sz (procs s ! cur))) (\<lambda>sz.
     (if addr \<ge> sz then retM None else fetchstr_loop (unat (sz - addr)) addr)))"

definition argint :: "nat \<Rightarrow> 'z kproc_scheme \<Rightarrow> (u32 option, 'z kproc_scheme) res" where
  "argint n =
     bindM curproc (\<lambda>cur.
     bindM (getM (\<lambda>s. p_tf (procs s ! cur))) (\<lambda>tf.
     bindM (peek (tf + tf_esp)) (\<lambda>esp.
     fetchint (esp + 4 + 4 * of_nat n))))"

definition argptr :: "nat \<Rightarrow> u32 \<Rightarrow> 'z kproc_scheme \<Rightarrow> (u32 option, 'z kproc_scheme) res" where
  "argptr n sz =
     bindM curproc (\<lambda>cur.
     bindM (argint n) (\<lambda>i.
     bindM (getM (\<lambda>s. p_sz (procs s ! cur))) (\<lambda>psz.
     (case i of None \<Rightarrow> retM None
         | Some i \<Rightarrow>
           if sint sz < 0 \<or> i \<ge> psz \<or> i + sz > psz then retM None else retM (Some i)))))"

definition argstr :: "nat \<Rightarrow> 'z kproc_scheme \<Rightarrow> (u8 list option, 'z kproc_scheme) res" where
  "argstr n =
     bindM (argint n) (\<lambda>a.
     (case a of None \<Rightarrow> retM None | Some addr \<Rightarrow> fetchstr addr))"

text \<open>An argument without which the call returns -1.\<close>

definition needM :: "('s \<Rightarrow> ('a option, 's) res) \<Rightarrow> ('a \<Rightarrow> 's \<Rightarrow> (u32, 's) res) \<Rightarrow> 's \<Rightarrow> (u32, 's) res" where
  "needM m f = bindM m (\<lambda>r. case r of None \<Rightarrow> retM (-1) | Some x \<Rightarrow> f x)"

section \<open>File descriptors\<close>

definition argfd :: "nat \<Rightarrow> 'z kproc_scheme \<Rightarrow> ((nat \<times> nat) option, 'z kproc_scheme) res" where
  "argfd n =
     bindM (argint n) (\<lambda>a.
     (case a of None \<Rightarrow> retM None
         | Some fd \<Rightarrow>
           if sint fd < 0 \<or> sint fd \<ge> int NOFILE then retM None
           else bindM curproc (\<lambda>cur.
                bindM (getM (\<lambda>s. p_ofile (procs s ! cur) ! unat fd)) (\<lambda>f.
                retM (map_option (Pair (unat fd)) f)))))"

fun free_fd :: "nat \<Rightarrow> nat option list \<Rightarrow> nat option" where
  "free_fd i [] = None"
| "free_fd i (f # fs) = (if f = None then Some i else free_fd (Suc i) fs)"

definition set_fd :: "nat \<Rightarrow> nat option \<Rightarrow> proc \<Rightarrow> proc" where
  "set_fd fd f p = p\<lparr>p_ofile := (p_ofile p)[fd := f]\<rparr>"

definition fdalloc :: "nat \<Rightarrow> 'z kproc_scheme \<Rightarrow> (nat option, 'z kproc_scheme) res" where
  "fdalloc f =
     bindM curproc (\<lambda>cur.
     bindM (getM (\<lambda>s. free_fd 0 (p_ofile (procs s ! cur)))) (\<lambda>r.
     (case r of None \<Rightarrow> retM None
         | Some fd \<Rightarrow> thenM (upd_proc cur (set_fd fd (Some f))) (retM (Some fd)))))"

definition sys_dup :: "'z kfile_scheme \<Rightarrow> (u32, 'z kfile_scheme) res" where
  "sys_dup =
     needM (argfd 0) (\<lambda>(_, f).
     needM (fdalloc f) (\<lambda>fd.
     bindM (filedup f) (\<lambda>_. retM (of_nat fd))))"

definition sys_read :: "'z kfile_scheme \<Rightarrow> (u32, 'z kfile_scheme) res" where
  "sys_read =
     needM (argfd 0) (\<lambda>(_, f).
     needM (argint 2) (\<lambda>n.
     needM (argptr 1 n) (\<lambda>p.
     fileread f p n)))"

definition sys_write :: "'z kfile_scheme \<Rightarrow> (u32, 'z kfile_scheme) res" where
  "sys_write =
     needM (argfd 0) (\<lambda>(_, f).
     needM (argint 2) (\<lambda>n.
     needM (argptr 1 n) (\<lambda>p.
     filewrite f p n)))"

definition sys_close :: "'z kfile_scheme \<Rightarrow> (u32, 'z kfile_scheme) res" where
  "sys_close =
     needM (argfd 0) (\<lambda>(fd, f).
     bindM curproc (\<lambda>cur.
     thenM (upd_proc cur (set_fd fd None))
     (thenM (fileclose f)
     (retM 0))))"

definition sys_fstat :: "'z kfile_scheme \<Rightarrow> (u32, 'z kfile_scheme) res" where
  "sys_fstat =
     needM (argfd 0) (\<lambda>(_, f).
     needM (argptr 1 20) (\<lambda>st.
     filestat f st))"

section \<open>Links\<close>

definition fail_op :: "'z klog_scheme \<Rightarrow> (u32, 'z klog_scheme) res" where
  "fail_op = thenM end_op (retM (-1))"

definition sys_link :: "'z kfs_scheme \<Rightarrow> (u32, 'z kfs_scheme) res" where
  "sys_link =
     needM (argstr 0) (\<lambda>old.
     needM (argstr 1) (\<lambda>new.
     thenM begin_op
     (bindM (namei old) (\<lambda>r.
     (case r of None \<Rightarrow> fail_op
         | Some ip \<Rightarrow>
           let bad = thenM (ilock ip)
                     (thenM (modM (upd_inode ip (\<lambda>x. x\<lparr>i_nlink := i_nlink x - 1\<rparr>)))
                     (thenM (iupdate ip)
                     (thenM (iunlockput ip)
                     fail_op)))
           in thenM (ilock ip)
              (bindM (inodeM ip) (\<lambda>i.
              (if i_type i = T_DIR then thenM (iunlockput ip) fail_op
                  else
                    thenM (modM (upd_inode ip (\<lambda>x. x\<lparr>i_nlink := i_nlink x + 1\<rparr>)))
                    (thenM (iupdate ip)
                    (thenM (iunlock ip)
                    (bindM (nameiparent new) (\<lambda>q.
                    (case q of None \<Rightarrow> bad
                        | Some (dp, name) \<Rightarrow>
                          thenM (ilock dp)
                          (bindM (inodeM dp) (\<lambda>d.
                          bindM (inodeM ip) (\<lambda>i.
                          bindM (if i_dev d \<noteq> i_dev i then retM False
                                    else bindM (dirlink dp name (i_inum i)) (\<lambda>r. retM (\<not> sint r < 0))) (\<lambda>ok.
                          thenM (iunlockput dp)
                          (if \<not> ok then bad
                              else thenM (iput ip) (thenM end_op (retM 0))))))))))))))))))))"

fun isdirempty_loop :: "nat \<Rightarrow> u32 list \<Rightarrow> 'z kfs_scheme \<Rightarrow> (bool, 'z kfs_scheme) res" where
  "isdirempty_loop dp [] = retM True"
| "isdirempty_loop dp (off # offs) =
     bindM (read_dirent ''isdirempty: readi'' dp off) (\<lambda>de.
     if de_inum de \<noteq> 0 then retM False else isdirempty_loop dp offs)"

definition isdirempty :: "nat \<Rightarrow> 'z kfs_scheme \<Rightarrow> (bool, 'z kfs_scheme) res" where
  "isdirempty dp = bindM (inodeM dp) (\<lambda>i. isdirempty_loop dp (drop 2 (dirent_offs (i_size i))))"

definition DOT :: "u8 list" where "DOT = [0x2E]"
definition DOTDOT :: "u8 list" where "DOTDOT = [0x2E, 0x2E]"

definition sys_unlink :: "'z kfs_scheme \<Rightarrow> (u32, 'z kfs_scheme) res" where
  "sys_unlink =
     needM (argstr 0) (\<lambda>path.
     thenM begin_op
     (bindM (nameiparent path) (\<lambda>q.
     (case q of None \<Rightarrow> fail_op
         | Some (dp, name) \<Rightarrow>
           let bad = thenM (iunlockput dp) fail_op in
           thenM (ilock dp)
           (if namecmp name DOT = 0 \<or> namecmp name DOTDOT = 0 then bad
               else
                 bindM (dirlookup dp name) (\<lambda>r.
                 (case r of None \<Rightarrow> bad
                     | Some (ip, off) \<Rightarrow>
                       thenM (ilock ip)
                       (bindM (inodeM ip) (\<lambda>i.
                       (if sint (i_nlink i) < 1 then panic ''unlink: nlink < 1''
                           else
                             bindM (if i_type i = T_DIR then bindM (isdirempty ip) (\<lambda>e. retM (\<not> e)) else retM False) (\<lambda>nonempty.
                             (if nonempty then thenM (iunlockput ip) bad
                                 else
                                   bindM (writei dp (\<lambda>tot m. retM (replicate m 0)) 0 off 16) (\<lambda>r.
                                   (if r \<noteq> 16 then panic ''unlink: writei''
                                       else
                                         thenM (whenM (i_type i = T_DIR)
                                              (thenM (modM (upd_inode dp (\<lambda>x. x\<lparr>i_nlink := i_nlink x - 1\<rparr>))) (iupdate dp)))
                                         (thenM (iunlockput dp)
                                         (thenM (modM (upd_inode ip (\<lambda>x. x\<lparr>i_nlink := i_nlink x - 1\<rparr>)))
                                         (thenM (iupdate ip)
                                         (thenM (iunlockput ip)
                                         (thenM end_op
                                         (retM 0))))))))))))))))))))"

section \<open>Creating and opening\<close>

text \<open>\<open>create\<close> returns the inode locked. \<open>ialloc\<close> never returns null: it panics.\<close>

definition create :: "u8 list \<Rightarrow> u16 \<Rightarrow> u16 \<Rightarrow> u16 \<Rightarrow> 'z kfs_scheme \<Rightarrow> (nat option, 'z kfs_scheme) res" where
  "create path ty major minor =
     bindM (nameiparent path) (\<lambda>q.
     (case q of None \<Rightarrow> retM None
         | Some (dp, name) \<Rightarrow>
           thenM (ilock dp)
           (bindM (dirlookup dp name) (\<lambda>r.
           (case r of
                 Some (ip, _) \<Rightarrow>
                   thenM (iunlockput dp)
                   (thenM (ilock ip)
                   (bindM (inodeM ip) (\<lambda>i.
                   (if ty = T_FILE \<and> i_type i = T_FILE then retM (Some ip)
                       else thenM (iunlockput ip) (retM None)))))
               | None \<Rightarrow>
                   bindM (inodeM dp) (\<lambda>d.
                   bindM (ialloc (i_dev d) ty) (\<lambda>ip.
                   thenM (ilock ip)
                   (thenM (modM (upd_inode ip (\<lambda>x. x\<lparr>i_major := major, i_minor := minor, i_nlink := 1\<rparr>)))
                   (thenM (iupdate ip)
                   (bindM (inodeM ip) (\<lambda>i.
                   thenM (whenM (ty = T_DIR)
                        (thenM (modM (upd_inode dp (\<lambda>x. x\<lparr>i_nlink := i_nlink x + 1\<rparr>)))
                         (thenM (iupdate dp)
                         (bindM (dirlink ip DOT (i_inum i)) (\<lambda>a.
                         (if sint a < 0 then panic ''create dots'' else
                             bindM (dirlink ip DOTDOT (i_inum d)) (\<lambda>b.
                             if sint b < 0 then panic ''create dots'' else retM ())))))))
                   (bindM (dirlink dp name (i_inum i)) (\<lambda>r.
                   (if sint r < 0 then panic ''create: dirlink''
                       else thenM (iunlockput dp) (retM (Some ip))))))))))))))))"

definition O_WRONLY :: u32 where "O_WRONLY = 1"
definition O_RDWR :: u32 where "O_RDWR = 2"
definition O_CREATE :: u32 where "O_CREATE = 0x200"

definition sys_open :: "'z kfile_scheme \<Rightarrow> (u32, 'z kfile_scheme) res" where
  "sys_open =
     needM (argstr 0) (\<lambda>path.
     needM (argint 1) (\<lambda>omode.
     thenM begin_op
     (bindM (if omode AND O_CREATE \<noteq> 0 then create path T_FILE 0 0
              else
                bindM (namei path) (\<lambda>q.
                (case q of None \<Rightarrow> retM None
                    | Some ip \<Rightarrow>
                      thenM (ilock ip)
                      (bindM (inodeM ip) (\<lambda>i.
                      (if i_type i = T_DIR \<and> omode \<noteq> 0 then thenM (iunlockput ip) (retM None)
                          else retM (Some ip))))))) (\<lambda>r.
     (case r of None \<Rightarrow> fail_op
         | Some ip \<Rightarrow>
           bindM filealloc (\<lambda>f.
           (case f of None \<Rightarrow> thenM (iunlockput ip) fail_op
               | Some f \<Rightarrow>
                 bindM (fdalloc f) (\<lambda>d.
                 (case d of None \<Rightarrow> thenM (fileclose f) (thenM (iunlockput ip) fail_op)
                     | Some fd \<Rightarrow>
                       thenM (iunlock ip)
                       (thenM end_op
                       (thenM (modM (upd_file f (\<lambda>x. x\<lparr>f_type := FD_INODE, f_ip := ip, f_off := 0,
                            f_readable := (omode AND O_WRONLY = 0),
                            f_writable := (omode AND O_WRONLY \<noteq> 0 \<or> omode AND O_RDWR \<noteq> 0)\<rparr>)))
                       (retM (of_nat fd)))))))))))))"

definition sys_mkdir :: "'z kfs_scheme \<Rightarrow> (u32, 'z kfs_scheme) res" where
  "sys_mkdir =
     thenM begin_op
     (bindM (argstr 0) (\<lambda>a.
     bindM (case a of None \<Rightarrow> retM None | Some path \<Rightarrow> create path T_DIR 0 0) (\<lambda>r.
     (case r of None \<Rightarrow> fail_op
         | Some ip \<Rightarrow> thenM (iunlockput ip) (thenM end_op (retM 0))))))"

definition sys_mknod :: "'z kfs_scheme \<Rightarrow> (u32, 'z kfs_scheme) res" where
  "sys_mknod =
     thenM begin_op
     (bindM (argstr 0) (\<lambda>a.
     bindM (case a of None \<Rightarrow> retM None
              | Some path \<Rightarrow>
                bindM (argint 1) (\<lambda>b.
                (case b of None \<Rightarrow> retM None
                    | Some major \<Rightarrow>
                      bindM (argint 2) (\<lambda>c.
                      (case c of None \<Rightarrow> retM None
                          | Some minor \<Rightarrow> create path T_DEV (ucast major) (ucast minor)))))) (\<lambda>r.
     (case r of None \<Rightarrow> fail_op
         | Some ip \<Rightarrow> thenM (iunlockput ip) (thenM end_op (retM 0))))))"

definition sys_chdir :: "'z kfs_scheme \<Rightarrow> (u32, 'z kfs_scheme) res" where
  "sys_chdir =
     bindM curproc (\<lambda>cur.
     thenM begin_op
     (bindM (argstr 0) (\<lambda>a.
     bindM (case a of None \<Rightarrow> retM None | Some path \<Rightarrow> namei path) (\<lambda>r.
     (case r of None \<Rightarrow> fail_op
         | Some ip \<Rightarrow>
           thenM (ilock ip)
           (bindM (inodeM ip) (\<lambda>i.
           (if i_type i \<noteq> T_DIR then thenM (iunlockput ip) fail_op
               else
                 thenM (iunlock ip)
                 (bindM (procM cur) (\<lambda>c.
                 thenM (case p_cwd c of None \<Rightarrow> panic ''trap'' | Some d \<Rightarrow> iput d)
                 (thenM end_op
                 (thenM (upd_proc cur (\<lambda>p. p\<lparr>p_cwd := Some ip\<rparr>))
                 (retM 0)))))))))))))"

definition sys_pipe :: "'z kfile_scheme \<Rightarrow> (u32, 'z kfile_scheme) res" where
  "sys_pipe =
     needM (argptr 0 8) (\<lambda>fd.
     needM pipealloc (\<lambda>(rf, wf).
     bindM curproc (\<lambda>cur.
     bindM (fdalloc rf) (\<lambda>a.
     (case a of None \<Rightarrow> thenM (fileclose rf)
                                      (thenM (fileclose wf)
                                      (retM (-1)))
         | Some fd0 \<Rightarrow>
           bindM (fdalloc wf) (\<lambda>b.
           (case b of None \<Rightarrow>
                 thenM (upd_proc cur (set_fd fd0 None))
                 (thenM (fileclose rf)
                 (thenM (fileclose wf)
                 (retM (-1))))
               | Some fd1 \<Rightarrow>
                 thenM (vstore32 fd (of_nat fd0))
                 (thenM (vstore32 (fd + 4) (of_nat fd1))
                 (retM 0)))))))))"

end
