(* ===== verification/Trap.thy ===== *)
theory Trap
  imports Sysfile
begin

text \<open>
  \<open>exec\<close> (\<open>exec.c\<close>, with \<open>loaduvm\<close> of \<open>vm.c\<close>), the remaining system calls (\<open>sysproc.c\<close>, both
  kernels), the dispatcher of \<open>syscall.c\<close> and the trap handler (\<open>trap.c\<close>).
\<close>

section \<open>exec\<close>

text \<open>\<open>loaduvm\<close>: one page of the segment at a time.\<close>

fun loaduvm_loop :: "u32 \<Rightarrow> u32 \<Rightarrow> nat \<Rightarrow> u32 \<Rightarrow> u32 \<Rightarrow> u32 list \<Rightarrow> 'z kfs_scheme \<Rightarrow> (u32, 'z kfs_scheme) res" where
  "loaduvm_loop pgdir addr ip offset sz [] = retM 0"
| "loaduvm_loop pgdir addr ip offset sz (i # is) =
     bindM (walkpgdir pgdir (addr + i) False) (\<lambda>pte.
     (if pte = 0 then panic ''loaduvm: address should exist''
         else
           bindM (peek pte) (\<lambda>e.
           let n = (if sz - i < PGSIZE then sz - i else PGSIZE) in
           bindM (readi_mem ip (P2V (PTE_ADDR e)) (offset + i) n) (\<lambda>r.
           (if r \<noteq> n then retM (-1) else loaduvm_loop pgdir addr ip offset sz is)))))"

definition loaduvm :: "u32 \<Rightarrow> u32 \<Rightarrow> nat \<Rightarrow> u32 \<Rightarrow> u32 \<Rightarrow> 'z kfs_scheme \<Rightarrow> (u32, 'z kfs_scheme) res" where
  "loaduvm pgdir addr ip offset sz =
     (if addr mod PGSIZE \<noteq> 0 then panic ''loaduvm: addr must be page aligned''
      else loaduvm_loop pgdir addr ip offset sz (map (\<lambda>k. of_nat (4096 * k)) [0..<(unat sz + 4095) div 4096]))"

definition MAXARG :: nat where "MAXARG = 32"
definition ELF_MAGIC :: u32 where "ELF_MAGIC = 0x464C457F"

text \<open>A variable of the kernel read from a file: \<open>None\<close> when fewer than \<open>n\<close> bytes come.\<close>

definition readi_var :: "nat \<Rightarrow> u32 \<Rightarrow> u32 \<Rightarrow> 'z kfs_scheme \<Rightarrow> (u8 list option, 'z kfs_scheme) res" where
  "readi_var ip off n =
     bindM (readi ip (\<lambda>_ _. retM ()) 0 off n) (\<lambda>(r, bs). retM (if r = n then Some bs else None))"

text \<open>
  The loop over the program headers, \<open>struct proghdr\<close> at \<open>off\<close>, \<open>off + 32\<close> and so on. The result is
  the new size, or \<open>None\<close> for \<open>goto bad\<close>.
\<close>

fun load_segments :: "nat \<Rightarrow> u32 \<Rightarrow> nat \<Rightarrow> u32 \<Rightarrow> u32 \<Rightarrow> 'z kfs_scheme \<Rightarrow> (u32 option, 'z kfs_scheme) res" where
  "load_segments 0 pgdir ip off sz = retM (Some sz)"
| "load_segments (Suc k) pgdir ip off sz =
     bindM (readi_var ip off 32) (\<lambda>r.
     (case r of None \<Rightarrow> retM None
         | Some ph \<Rightarrow>
           let ptype = get32 ph 0; poff = get32 ph 4; va = get32 ph 8; filesz = get32 ph 16; memsz = get32 ph 20 in
           if ptype \<noteq> 1 then load_segments k pgdir ip (off + 32) sz
           else if memsz < filesz then retM None
           else if va + memsz < va then retM None
           else
             bindM (allocuvm pgdir sz (va + memsz)) (\<lambda>sz'.
             (if sz' = 0 then retM None
                 else if va mod PGSIZE \<noteq> 0 then retM None
                 else
                   bindM (loaduvm pgdir va ip poff filesz) (\<lambda>r.
                   (if sint r < 0 then retM None
                       else load_segments k pgdir ip (off + 32) sz'))))))"

text \<open>
  The argument strings are pushed one after the other; \<open>ustack\<close> collects their addresses. More than
  \<open>MAXARG\<close> of them is an error.
\<close>

fun push_args :: "u32 \<Rightarrow> nat \<Rightarrow> u8 list list \<Rightarrow> u32 \<Rightarrow> u32 list \<Rightarrow> 'z kstate_scheme \<Rightarrow> ((u32 \<times> u32 list) option, 'z kstate_scheme) res" where
  "push_args pgdir argc [] sp ustack = retM (Some (sp, ustack))"
| "push_args pgdir argc (str # strs) sp ustack =
     (if argc \<ge> MAXARG then retM None
      else
        let sp = (sp - (of_nat (length str) + 1)) AND NOT 3 in
        bindM (copyout pgdir sp (str @ [0])) (\<lambda>r.
        (if sint r < 0 then retM None
            else push_args pgdir (Suc argc) strs sp (ustack @ [sp]))))"

fun word_bytes :: "u32 list \<Rightarrow> u8 list" where
  "word_bytes [] = []"
| "word_bytes (w # ws) = [byte_of 0 w, byte_of 1 w, byte_of 2 w, byte_of 3 w] @ word_bytes ws"

text \<open>The last element of the path, for \<open>p->name\<close>.\<close>

fun last_elem :: "u8 list \<Rightarrow> u8 list \<Rightarrow> u8 list" where
  "last_elem lst [] = lst"
| "last_elem lst (c # cs) = last_elem (if c = 0x2F then cs else lst) cs"

definition exec :: "u8 list \<Rightarrow> u8 list list \<Rightarrow> 'z kfs_scheme \<Rightarrow> (u32, 'z kfs_scheme) res" where
  "exec path argv =
     bindM curproc (\<lambda>cur.
     thenM begin_op
     (bindM (namei path) (\<lambda>q.
     (case q of
           None \<Rightarrow> thenM end_op
                              (thenM (cprintf (''exec: fail'' @ [NL]) [])
                              (retM (-1)))
         | Some ip \<Rightarrow>
           let bad1 = (\<lambda>pgdir. thenM (whenM (pgdir \<noteq> 0) (freevm pgdir))
                                       (thenM (iunlockput ip)
                                       (thenM end_op
                                       (retM (-1)))));
               bad2 = (\<lambda>pgdir. thenM (freevm pgdir) (retM (-1)))
           in
           thenM (ilock ip)
           (bindM (readi_var ip 0 52) (\<lambda>h.
           (case h of None \<Rightarrow> bad1 0
               | Some elf \<Rightarrow>
                 if get32 elf 0 \<noteq> ELF_MAGIC then bad1 0
                 else
                   bindM setupkvm (\<lambda>pgdir.
                   (if pgdir = 0 then bad1 0
                       else
                         bindM (load_segments (unat (get16 elf 44)) pgdir ip (get32 elf 28) 0) (\<lambda>r.
                         (case r of None \<Rightarrow> bad1 pgdir
                             | Some sz \<Rightarrow>
                               thenM (iunlockput ip)
                               (thenM end_op
                               (let sz = PGROUNDUP sz in
                               bindM (allocuvm pgdir sz (sz + 2 * PGSIZE)) (\<lambda>sz.
                               (if sz = 0 then bad2 pgdir
                                   else
                                     thenM (clearpteu pgdir (sz - 2 * PGSIZE))
                                     (bindM (push_args pgdir 0 argv sz []) (\<lambda>a.
                                     (case a of None \<Rightarrow> bad2 pgdir
                                         | Some (sp, ustack) \<Rightarrow>
                                           let argc = of_nat (length argv);
                                               words = [0xffffffff, argc, sp - (argc + 1) * 4] @ ustack @ [0];
                                               sp = sp - (3 + argc + 1) * 4 in
                                           bindM (copyout pgdir sp (word_bytes words)) (\<lambda>r.
                                           (if sint r < 0 then bad2 pgdir
                                               else
                                                 bindM (procM cur) (\<lambda>c.
                                                 thenM (upd_proc cur (\<lambda>p. p\<lparr>p_name := map (\<lambda>b. char_of (unat b)) (take 15 (last_elem path path)),
                                                      p_pgdir := pgdir, p_sz := sz\<rparr>))
                                                 (thenM (poke (p_tf c + tf_eip) (get32 elf 24))
                                                 (thenM (poke (p_tf c + tf_esp) sp)
                                                 (thenM (switchuvm (Some cur))
                                                 (thenM (freevm (p_pgdir c))
                                                 (retM 0))))))))))))))))))))))))))"

text \<open>The loop of \<open>sys_exec\<close> that fetches the argument strings; \<open>None\<close> for -1.\<close>

fun exec_args :: "nat \<Rightarrow> u32 \<Rightarrow> 'z kproc_scheme \<Rightarrow> (u8 list list option, 'z kproc_scheme) res" where
  "exec_args 0 uargv = retM None"
| "exec_args (Suc k) uargv =
     bindM (fetchint uargv) (\<lambda>a.
     (case a of None \<Rightarrow> retM None
         | Some uarg \<Rightarrow>
           if uarg = 0 then retM (Some [])
           else
             bindM (fetchstr uarg) (\<lambda>t.
             (case t of None \<Rightarrow> retM None
                 | Some str \<Rightarrow> bindM (exec_args k (uargv + 4)) (\<lambda>r. retM (map_option ((#) str) r))))))"

definition sys_exec :: "'z kfs_scheme \<Rightarrow> (u32, 'z kfs_scheme) res" where
  "sys_exec =
     needM (argstr 0) (\<lambda>path.
     needM (argint 1) (\<lambda>uargv.
     needM (exec_args MAXARG uargv) (\<lambda>argv.
     exec path argv)))"

section \<open>Calls on processes\<close>

definition sys_procstat :: "bool \<Rightarrow> 'z kproc_scheme \<Rightarrow> (u32, 'z kproc_scheme) res" where
  "sys_procstat with_prio =
     needM (argint 0) (\<lambda>pid.
     needM (argptr 1 (if with_prio then 20 else 16)) (\<lambda>pstat.
     if with_prio then procstat_prio pid pstat else procstat pid pstat))"

definition sys_ps :: "'z kproc_scheme \<Rightarrow> (u32, 'z kproc_scheme) res" where
  "sys_ps = proc_ps"

text \<open>
  \<open>sys_custmpro\<close> does not look at the result of \<open>argint\<close>: when it fails, \<open>pri\<close> is whatever the
  stack held, the argument \<open>junk\<close>.
\<close>

definition sys_custmpro :: "u32 \<Rightarrow> 'z kfile_scheme \<Rightarrow> (u32, 'z kfile_scheme) res" where
  "sys_custmpro junk =
     bindM (argint 0) (\<lambda>a.
     let pri = (case a of None \<Rightarrow> junk | Some v \<Rightarrow> v) in
     (if sint pri < 0 then retM (-1) else custmpro pri))"

definition sys_fork :: "'z kfile_scheme \<Rightarrow> (u32, 'z kfile_scheme) res" where
  "sys_fork = fork"

definition sys_wait :: "'z kproc_scheme \<Rightarrow> (u32, 'z kproc_scheme) res" where
  "sys_wait = wait"

definition sys_kill :: "'z kproc_scheme \<Rightarrow> (u32, 'z kproc_scheme) res" where
  "sys_kill = needM (argint 0) kill"

definition sys_getpid :: "'z kproc_scheme \<Rightarrow> (u32, 'z kproc_scheme) res" where
  "sys_getpid = bindM curproc (\<lambda>cur. getM (\<lambda>s. p_pid (procs s ! cur)))"

definition sys_sbrk :: "'z kproc_scheme \<Rightarrow> (u32, 'z kproc_scheme) res" where
  "sys_sbrk =
     needM (argint 0) (\<lambda>n.
     bindM curproc (\<lambda>cur.
     bindM (getM (\<lambda>s. p_sz (procs s ! cur))) (\<lambda>addr.
     bindM (growproc n) (\<lambda>r.
     retM (if sint r < 0 then -1 else addr)))))"

text \<open>The loop of \<open>sys_sleep\<close>: \<open>ticks - ticks0 < n\<close> compares unsigned numbers.\<close>

definition sys_sleep_pass :: "u32 \<Rightarrow> u32 \<Rightarrow> 'z kproc_scheme \<Rightarrow> (u32, 'z kproc_scheme) res" where
  "sys_sleep_pass ticks0 n =
     bindM (getM ticks) (\<lambda>now.
     (if now - ticks0 < n then
           bindM curproc (\<lambda>cur.
           bindM (getM (\<lambda>s. p_killed (procs s ! cur))) (\<lambda>killed.
           (if killed then thenM (release L_ticks) (retM (-1)) else sleep Ch_ticks L_ticks)))
         else thenM (release L_ticks) (retM 0)))"

definition sys_sleep :: "'z kproc_scheme \<Rightarrow> (u32, 'z kproc_scheme) res" where
  "sys_sleep =
     needM (argint 0) (\<lambda>n.
     thenM (acquire L_ticks)
     (bindM (getM ticks) (\<lambda>ticks0.
     sys_sleep_pass ticks0 n)))"

definition sys_sleep_resume :: "u32 \<Rightarrow> u32 \<Rightarrow> 'z kproc_scheme \<Rightarrow> (u32, 'z kproc_scheme) res" where
  "sys_sleep_resume ticks0 n = thenM (sleep_resume L_ticks) (sys_sleep_pass ticks0 n)"

definition sys_uptime :: "'z kproc_scheme \<Rightarrow> (u32, 'z kproc_scheme) res" where
  "sys_uptime =
     thenM (acquire L_ticks)
     (bindM (getM ticks) (\<lambda>xticks.
     thenM (release L_ticks)
     (retM xticks)))"

section \<open>The dispatcher\<close>

text \<open>
  The table of the system calls; \<open>with_prio\<close> selects the kernel. The result is \<open>None\<close> when the
  process is gone.
\<close>

definition sys_exit :: "'z kfile_scheme \<Rightarrow> (u32 option, 'z kfile_scheme) res" where
  "sys_exit = thenM exit (retM None)"

definition retS :: "('s \<Rightarrow> (u32, 's) res) \<Rightarrow> 's \<Rightarrow> (u32 option, 's) res" where
  "retS m = bindM m (\<lambda>r. retM (Some r))"

definition syscalls :: "bool \<Rightarrow> u32 \<Rightarrow> u32 \<Rightarrow> ('z kfile_scheme \<Rightarrow> (u32 option, 'z kfile_scheme) res) option" where
  "syscalls with_prio junk num =
     (if num = 1 then Some (retS sys_fork)
      else if num = 2 then Some sys_exit
      else if num = 3 then Some (retS sys_wait)
      else if num = 4 then Some (retS sys_pipe)
      else if num = 5 then Some (retS sys_read)
      else if num = 6 then Some (retS sys_kill)
      else if num = 7 then Some (retS sys_exec)
      else if num = 8 then Some (retS sys_fstat)
      else if num = 9 then Some (retS sys_chdir)
      else if num = 10 then Some (retS sys_dup)
      else if num = 11 then Some (retS sys_getpid)
      else if num = 12 then Some (retS sys_sbrk)
      else if num = 13 then Some (retS sys_sleep)
      else if num = 14 then Some (retS sys_uptime)
      else if num = 15 then Some (retS sys_open)
      else if num = 16 then Some (retS sys_write)
      else if num = 17 then Some (retS sys_mknod)
      else if num = 18 then Some (retS sys_unlink)
      else if num = 19 then Some (retS sys_link)
      else if num = 20 then Some (retS sys_mkdir)
      else if num = 21 then Some (retS sys_close)
      else if num = 22 then Some (retS sys_ps)
      else if num = 23 then Some (retS (sys_procstat with_prio))
      else if num = 24 \<and> with_prio then Some (retS (sys_custmpro junk))
      else None)"

text \<open>The result says whether the process still is there.\<close>

definition syscall :: "bool \<Rightarrow> u32 \<Rightarrow> 'z kfile_scheme \<Rightarrow> (bool, 'z kfile_scheme) res" where
  "syscall with_prio junk =
     bindM curproc (\<lambda>cur.
     bindM (getM (\<lambda>s. p_tf (procs s ! cur))) (\<lambda>tf.
     bindM (peek (tf + tf_eax)) (\<lambda>num.
     (case syscalls with_prio junk num of
           Some f \<Rightarrow>
             bindM f (\<lambda>r.
             (case r of None \<Rightarrow> retM False
                 | Some v \<Rightarrow>
                   bindM (getM (\<lambda>s. p_tf (procs s ! cur))) (\<lambda>tf.
                   thenM (poke (tf + tf_eax) v)
                   (retM True))))
         | None \<Rightarrow>
             bindM (procM cur) (\<lambda>p.
             thenM (cprintf (''%d %s: unknown sys call %d'' @ [NL]) [A_int (p_pid p), A_str (p_name p), A_int num])
             (thenM (poke (tf + tf_eax) (-1))
             (retM True)))))))"

section \<open>Traps\<close>

text \<open>
  How a trap ends: back to the interrupted code, with the process gone, or with the processor
  given up by \<open>yield\<close>, after which \<open>trap_resume\<close> follows.
\<close>

datatype trap_end = Returned | Exited | Yielded

definition T_SYSCALL :: u32 where "T_SYSCALL = 64"
definition T_IRQ0 :: u32 where "T_IRQ0 = 32"
definition IRQ_TIMER :: u32 where "IRQ_TIMER = 0"
definition IRQ_KBD :: u32 where "IRQ_KBD = 1"
definition IRQ_COM1 :: u32 where "IRQ_COM1 = 4"
definition IRQ_IDE :: u32 where "IRQ_IDE = 14"
definition IRQ_SPURIOUS :: u32 where "IRQ_SPURIOUS = 31"

text \<open>\<open>exit()\<close> when the current process, if there is one, has been killed and \<open>cond\<close> holds.\<close>

definition exit_if_killed :: "bool \<Rightarrow> ('z kfile_scheme \<Rightarrow> (trap_end, 'z kfile_scheme) res) \<Rightarrow>
    'z kfile_scheme \<Rightarrow> (trap_end, 'z kfile_scheme) res" where
  "exit_if_killed cond rest =
     bindM myproc (\<lambda>q.
     (case q of None \<Rightarrow> rest
         | Some i \<Rightarrow>
           bindM (procM i) (\<lambda>p.
           (if p_killed p \<and> cond then thenM exit (retM Exited) else rest))))"

definition trap_resume :: "u32 \<Rightarrow> 'z kfile_scheme \<Rightarrow> (trap_end, 'z kfile_scheme) res" where
  "trap_resume cs =
     thenM yield_resume (exit_if_killed (cs AND 3 = 3) (retM Returned))"

text \<open>
  \<open>trap\<close> with the frame at \<open>tf\<close>. \<open>cpu\<close> is the processor's number, \<open>cr2\<close> its fault address and
  \<open>chars\<close> what the keyboard or serial port has for \<open>consoleintr\<close>. The disk in memory raises no
  interrupts: its \<open>ideintr\<close> does nothing.
\<close>

definition trap :: "bool \<Rightarrow> u32 \<Rightarrow> u32 \<Rightarrow> u32 \<Rightarrow> u32 list \<Rightarrow> u32 \<Rightarrow>
    'z kfile_scheme \<Rightarrow> (trap_end, 'z kfile_scheme) res" where
  "trap with_prio junk cpu cr2 chars tf =
     bindM (peek (tf + tf_trapno)) (\<lambda>trapno.
     bindM (peek (tf + tf_cs)) (\<lambda>csw.
     bindM (peek (tf + tf_eip)) (\<lambda>eip.
     bindM (peek (tf + tf_err)) (\<lambda>err.
     let cs = csw AND 0xFFFF in
     (if trapno = T_SYSCALL then
           bindM curproc (\<lambda>cur.
           bindM (getM (\<lambda>s. p_killed (procs s ! cur))) (\<lambda>killed.
           (if killed then thenM exit (retM Exited)
               else
                 thenM (upd_proc cur (\<lambda>p. p\<lparr>p_tf := tf\<rparr>))
                 (bindM (syscall with_prio junk) (\<lambda>here.
                 (if \<not> here then retM Exited
                     else
                       bindM (getM (\<lambda>s. p_killed (procs s ! cur))) (\<lambda>killed.
                       (if killed then thenM exit (retM Exited) else retM Returned))))))))
         else
           thenM (if trapno = T_IRQ0 + IRQ_TIMER then
                 whenM (cpu = 0)
                   (thenM (acquire L_ticks)
                    (thenM (modM (\<lambda>s. s\<lparr>ticks := ticks s + 1\<rparr>))
                    (thenM (wakeup Ch_ticks)
                    (release L_ticks))))
               else if trapno = T_IRQ0 + IRQ_IDE \<or> trapno = T_IRQ0 + IRQ_IDE + 1 then retM ()
               else if trapno = T_IRQ0 + IRQ_KBD \<or> trapno = T_IRQ0 + IRQ_COM1 then consoleintr chars
               else if trapno = T_IRQ0 + 7 \<or> trapno = T_IRQ0 + IRQ_SPURIOUS then
                 cprintf (''cpu%d: spurious interrupt at %x:%x'' @ [NL]) [A_int cpu, A_int cs, A_int eip]
               else
                 bindM myproc (\<lambda>q.
                 (case q of
                       None \<Rightarrow>
                         thenM (cprintf (''unexpected trap %d from cpu %d eip %x (cr2=0x%x)'' @ [NL])
                           [A_int trapno, A_int cpu, A_int eip, A_int cr2]) (panic ''trap'')
                     | Some i \<Rightarrow>
                         if cs AND 3 = 0 then
                           thenM (cprintf (''unexpected trap %d from cpu %d eip %x (cr2=0x%x)'' @ [NL])
                             [A_int trapno, A_int cpu, A_int eip, A_int cr2]) (panic ''trap'')
                         else
                           bindM (procM i) (\<lambda>p.
                           thenM (cprintf (''pid %d %s: trap %d err %d on cpu %d eip 0x%x addr 0x%x--kill proc'' @ [NL])
                                [A_int (p_pid p), A_str (p_name p), A_int trapno, A_int err, A_int cpu, A_int eip, A_int cr2])
                           (upd_proc i (\<lambda>p. p\<lparr>p_killed := True\<rparr>))))))
           (exit_if_killed (cs AND 3 = 3)
                (bindM myproc (\<lambda>q.
                 (case q of None \<Rightarrow> retM Returned
                     | Some i \<Rightarrow>
                       bindM (procM i) (\<lambda>p.
                       (if p_state p = RUNNING \<and> trapno = T_IRQ0 + IRQ_TIMER then thenM yield (retM Yielded)
                           else exit_if_killed (cs AND 3 = 3) (retM Returned))))))))))))"

end
