(* ===== verification/Buffer_Spec.thy ===== *)
theory Buffer_Spec
  imports Log
begin

text \<open>
  What the buffer cache promises to its clients. The contents of a block is what its valid buffer
  holds or, without one, what the disk holds; \<open>bread\<close> returns it locked, \<open>bwrite\<close> makes it the
  next write to the disk and \<open>brelse\<close> gives the buffer back. The promises are the laws of the
  locale \<open>block_io\<close>, in which the copying step of the log is analysed.
\<close>

section \<open>The invariant of the cache\<close>

definition mypid :: "'z kproc_scheme \<Rightarrow> u32" where
  "mypid s = (case cpuproc s of None \<Rightarrow> 0 | Some i \<Rightarrow> p_pid (procs s ! i))"

lemma mypid_upd [simp]:
  "mypid (s\<lparr>bufs := x\<rparr>) = mypid s" "mypid (s\<lparr>lru := l\<rparr>) = mypid s" "mypid (s\<lparr>writes := w\<rparr>) = mypid s"
  "mypid (s\<lparr>k_held := h\<rparr>) = mypid s"
  by (simp_all add: mypid_def split: option.split)

definition cache_locks :: "lockid set" where
  "cache_locks = {L_ptable, L_bcache} \<union> range L_buf"

text \<open>A buffer, held by the current process or by nobody.\<close>

definition buf_ok :: "(u32 \<Rightarrow> u8 list) \<Rightarrow> u32 \<Rightarrow> u32 \<Rightarrow> bool \<Rightarrow> buf \<Rightarrow> bool" where
  "buf_ok d pid dsz held x \<longleftrightarrow>
     (if held then b_lock x = \<lparr>sl_locked = True, sl_pid = pid\<rparr> \<and> b_refcnt x = 1 \<and> b_valid x \<and> b_dev x = 1
      else \<not> sl_locked (b_lock x) \<and> b_refcnt x = 0)
     \<and> (b_dirty x \<longrightarrow> b_valid x \<and> b_dev x = 1)
     \<and> (b_dev x = 1 \<and> b_valid x \<longrightarrow> length (b_data x) = BSIZE \<and> b_blockno x < dsz)
     \<and> (\<not> held \<and> b_dev x = 1 \<and> b_valid x \<and> \<not> b_dirty x \<longrightarrow> b_data x = d (b_blockno x))"

definition uniq_bufs :: "buf list \<Rightarrow> bool" where
  "uniq_bufs bs \<longleftrightarrow> (\<forall>b<length bs. \<forall>c<length bs. b_dev (bs ! b) = 1 \<and> b_dev (bs ! c) = 1
     \<and> b_blockno (bs ! b) = b_blockno (bs ! c) \<longrightarrow> b = c)"

lemma uniq_bufs_upd:
  assumes "uniq_bufs bs" and "\<And>c. c < length bs \<Longrightarrow> b_dev (bs ! c) = 1 \<Longrightarrow> b_blockno (bs ! c) = b_blockno x \<Longrightarrow> c = b"
  shows "uniq_bufs (bs[b := x])"
  unfolding uniq_bufs_def
proof (intro allI impI, elim conjE)
  fix c d assume cd: "c < length (bs[b := x])" "d < length (bs[b := x])" "b_dev (bs[b := x] ! c) = 1"
    "b_dev (bs[b := x] ! d) = 1" "b_blockno (bs[b := x] ! c) = b_blockno (bs[b := x] ! d)"
  show "c = d"
  proof (cases "c = b"; cases "d = b")
    assume "c = b" "d \<noteq> b"
    then show ?thesis using cd assms(2) [of d] by simp
  next
    assume "c \<noteq> b" "d = b"
    then show ?thesis using cd assms(2) [of c] by simp
  next
    assume "c \<noteq> b" "d \<noteq> b"
    then show ?thesis using cd assms(1) by (simp add: uniq_bufs_def)
  qed simp
qed

lemma find_SomeD: "find P xs = Some x \<Longrightarrow> x \<in> set xs \<and> P x"
  by (induction xs) (auto split: if_splits)

text \<open>The invariant while the current process holds the buffers \<open>H\<close> and nobody holds another.\<close>

definition binv :: "nat set \<Rightarrow> 'z kbio_scheme \<Rightarrow> bool" where
  "binv H s \<longleftrightarrow> k_held s \<inter> cache_locks = {}
     \<and> (\<exists>i. cpuproc s = Some i \<and> i < length (procs s))
     \<and> length (bufs s) = NBUF \<and> distinct (lru s) \<and> set (lru s) = {..<NBUF} \<and> H \<subseteq> {..<NBUF}
     \<and> (\<forall>b<NBUF. buf_ok (disk s) (mypid s) (disksize s) (b \<in> H) (bufs s ! b))
     \<and> uniq_bufs (bufs s) \<and> (\<forall>n<disksize s. length (disk s n) = BSIZE)"

abbreviation caches :: "u32 \<Rightarrow> buf \<Rightarrow> bool" where
  "caches n x \<equiv> b_dev x = 1 \<and> b_valid x \<and> b_blockno x = n"

definition content :: "'z kbio_scheme \<Rightarrow> u32 \<Rightarrow> u8 list" where
  "content s n = (case find (caches n) (bufs s) of Some x \<Rightarrow> b_data x | None \<Rightarrow> disk s n)"

text \<open>The blocks whose buffer must not leave the cache.\<close>

definition dirty_blocks :: "'z kbio_scheme \<Rightarrow> u32 set" where
  "dirty_blocks s = b_blockno ` {x \<in> set (bufs s). b_dirty x}"

text \<open>What the operations leave alone.\<close>

definition bframe :: "'z kbio_scheme \<Rightarrow> 'z kbio_scheme \<Rightarrow> bool" where
  "bframe s t \<longleftrightarrow> t = s\<lparr>procs := procs t, bufs := bufs t, lru := lru t, writes := writes t\<rparr>
     \<and> map p_pid (procs t) = map p_pid (procs s)"

lemma bframe_refl [simp]: "bframe s s"
  by (simp add: bframe_def)

lemma bframe_trans: "bframe s t \<Longrightarrow> bframe t u \<Longrightarrow> bframe s u"
  by (cases s; cases t; cases u) (simp add: bframe_def)

lemma bframe_kbio:
  assumes "bframe s t"
  shows "disksize t = disksize s" "k_held t = k_held s" "cpuproc t = cpuproc s" "kbio.more t = kbio.more s"
    "disk0 t = disk0 s"
  using assms by (cases s; cases t; simp add: bframe_def)+

lemma bframe_klog:
  assumes "bframe s t"
  shows "log_start t = log_start s" "log_size t = log_size s" "log_dev t = log_dev s" "lh_n t = lh_n s"
    "lh_block t = lh_block s" "log_outstanding t = log_outstanding s" "log_committing t = log_committing s"
  using assms by (cases s; cases t; simp add: bframe_def)+

lemma binvD:
  assumes "binv H s"
  shows "L_ptable \<notin> k_held s" "L_bcache \<notin> k_held s" "L_buf b \<notin> k_held s"
    "length (bufs s) = NBUF" "distinct (lru s)" "set (lru s) = {..<NBUF}" "H \<subseteq> {..<NBUF}"
    "uniq_bufs (bufs s)"
  using assms by (auto simp: binv_def cache_locks_def)

lemma binv_buf: "binv H s \<Longrightarrow> b < NBUF \<Longrightarrow> buf_ok (disk s) (mypid s) (disksize s) (b \<in> H) (bufs s ! b)"
  by (simp add: binv_def)

lemma binv_cpu:
  assumes "binv H s"
  obtains i where "cpuproc s = Some i" "i < length (procs s)" "p_pid (procs s ! i) = mypid s"
  using assms by (auto simp: binv_def mypid_def)

lemma binv_held:
  assumes "binv H s" and "b \<in> H"
  shows "b < NBUF" "b_lock (bufs s ! b) = \<lparr>sl_locked = True, sl_pid = mypid s\<rparr>" "b_refcnt (bufs s ! b) = 1"
    "b_valid (bufs s ! b)" "b_dev (bufs s ! b) = 1" "length (b_data (bufs s ! b)) = BSIZE"
    "b_blockno (bufs s ! b) < disksize s"
proof -
  show b: "b < NBUF" using assms binvD(7) by blast
  show "b_lock (bufs s ! b) = \<lparr>sl_locked = True, sl_pid = mypid s\<rparr>" "b_refcnt (bufs s ! b) = 1"
    "b_valid (bufs s ! b)" "b_dev (bufs s ! b) = 1" "length (b_data (bufs s ! b)) = BSIZE"
    "b_blockno (bufs s ! b) < disksize s"
    using binv_buf [OF assms(1) b] assms(2) by (simp_all add: buf_ok_def)
qed

lemma content_cached:
  assumes "uniq_bufs (bufs s)" and "b < length (bufs s)" and "caches n (bufs s ! b)"
  shows "content s n = b_data (bufs s ! b)"
proof -
  obtain x where x: "find (caches n) (bufs s) = Some x"
    using assms(2,3) by (cases "find (caches n) (bufs s)") (auto simp: find_None_iff)
  then obtain c where "c < length (bufs s)" "caches n (bufs s ! c)" "x = bufs s ! c"
    by (auto simp: find_Some_iff)
  with assms have "c = b" by (auto simp: uniq_bufs_def)
  with x \<open>x = bufs s ! c\<close> show ?thesis by (simp add: content_def)
qed

lemma content_uncached:
  assumes "\<And>b. b < length (bufs s) \<Longrightarrow> \<not> caches n (bufs s ! b)"
  shows "content s n = disk s n"
proof -
  have "find (caches n) (bufs s) = None" using assms by (auto simp: find_None_iff in_set_conv_nth)
  then show ?thesis by (simp add: content_def)
qed

lemma content_cong:
  assumes "uniq_bufs (bufs s)" and "uniq_bufs (bufs t)" and "length (bufs t) = length (bufs s)" and "disk t m = disk s m"
    and same: "\<And>c. c < length (bufs s) \<Longrightarrow> caches m (bufs t ! c) = caches m (bufs s ! c)"
      "\<And>c. c < length (bufs s) \<Longrightarrow> caches m (bufs s ! c) \<Longrightarrow> b_data (bufs t ! c) = b_data (bufs s ! c)"
  shows "content t m = content s m"
proof (cases "\<exists>c<length (bufs s). caches m (bufs s ! c)")
  case True
  then obtain c where c: "c < length (bufs s)" "caches m (bufs s ! c)" by blast
  have "content t m = b_data (bufs t ! c)" using c same(1) [OF c(1)] assms(2,3) by (intro content_cached) auto
  moreover have "content s m = b_data (bufs s ! c)" using c assms(1) by (intro content_cached) auto
  ultimately show ?thesis using same(2) [OF c] by simp
next
  case False
  then have "content t m = disk t m" using same(1) assms(3) by (intro content_uncached) auto
  moreover have "content s m = disk s m" using False by (intro content_uncached) auto
  ultimately show ?thesis using assms(4) by simp
qed

lemma content_clean:
  assumes "binv H s" and "n \<notin> dirty_blocks s" and "\<And>b. b \<in> H \<Longrightarrow> b_blockno (bufs s ! b) \<noteq> n"
  shows "content s n = disk s n"
proof (cases "\<exists>b<length (bufs s). caches n (bufs s ! b)")
  case True
  then obtain b where b: "b < length (bufs s)" "caches n (bufs s ! b)" by blast
  moreover have "\<not> b_dirty (bufs s ! b)" using assms(2) b by (auto simp: dirty_blocks_def)
  moreover have "b \<notin> H" using assms(3) b by auto
  ultimately have "b_data (bufs s ! b) = disk s n"
    using binv_buf [OF assms(1), of b] binvD(4) [OF assms(1)] by (simp add: buf_ok_def)
  with content_cached [OF binvD(8) [OF assms(1)] b] show ?thesis by simp
next
  case False
  then show ?thesis by (intro content_uncached) auto
qed

section \<open>The operations\<close>

lemma holdingsleep_buf:
  assumes "binv H s" and "b < NBUF"
  shows "holdingsleep (L_buf b) (buf_lock b) s = Ok (sl_locked (b_lock (bufs s ! b)) \<and> sl_pid (b_lock (bufs s ! b)) = mypid s) s"
proof -
  from assms(1) obtain i where "cpuproc s = Some i" "i < length (procs s)" "p_pid (procs s ! i) = mypid s"
    by (rule binv_cpu)
  then show ?thesis using binvD(3) [OF assms(1), of b]
    by (simp add: holdingsleep_def monad_simps acquire_def release_def curproc_def)
qed

lemma acquiresleep_buf:
  assumes "L_buf b \<notin> k_held s" and "\<not> sl_locked (b_lock (bufs s ! b))" and "cpuproc s = Some i"
  shows "acquiresleep (L_buf b) (Ch_buf_lock b) (buf_lock b) (set_buf_lock b) s
    = Ok () (upd_buf b (\<lambda>x. x\<lparr>b_lock := \<lparr>sl_locked = True, sl_pid = mypid s\<rparr>\<rparr>) s)"
  using assms by (simp add: acquiresleep_def monad_simps acquire_def release_def curproc_def upd_buf_def mypid_def)

text \<open>The buffer in which a block is returned: its own one or the one it is read into.\<close>

lemma find_hit:
  assumes "binv H s"
  shows "find (\<lambda>b. b_dev (bufs s ! b) = 1 \<and> b_blockno (bufs s ! b) = n) (lru s) = Some b
    \<longleftrightarrow> b < NBUF \<and> b_dev (bufs s ! b) = 1 \<and> b_blockno (bufs s ! b) = n"
proof
  assume "find (\<lambda>b. b_dev (bufs s ! b) = 1 \<and> b_blockno (bufs s ! b) = n) (lru s) = Some b"
  then have "b \<in> set (lru s)" "b_dev (bufs s ! b) = 1 \<and> b_blockno (bufs s ! b) = n"
    by (auto simp: find_Some_iff)
  then show "b < NBUF \<and> b_dev (bufs s ! b) = 1 \<and> b_blockno (bufs s ! b) = n"
    using binvD(6) [OF assms] by auto
next
  assume b: "b < NBUF \<and> b_dev (bufs s ! b) = 1 \<and> b_blockno (bufs s ! b) = n"
  let ?P = "\<lambda>b. b_dev (bufs s ! b) = 1 \<and> b_blockno (bufs s ! b) = n"
  have "b \<in> set (lru s)" using b binvD(6) [OF assms] by auto
  then obtain c where c: "find ?P (lru s) = Some c"
    using b by (cases "find ?P (lru s)") (auto simp: find_None_iff)
  then have "c \<in> set (lru s)" "?P c" by (auto simp: find_Some_iff)
  then have "c = b" using b binvD(4,6,8) [OF assms] by (auto simp: uniq_bufs_def)
  with c show "find ?P (lru s) = Some b" by simp
qed

lemma find_unused:
  assumes "binv H s" and "card H + card (dirty_blocks s) < NBUF"
  obtains b where "find (\<lambda>b. b_refcnt (bufs s ! b) = 0 \<and> \<not> b_dirty (bufs s ! b)) (rev (lru s)) = Some b"
    "b < NBUF" "b \<notin> H" "\<not> b_dirty (bufs s ! b)"
proof -
  let ?P = "\<lambda>b. b_refcnt (bufs s ! b) = 0 \<and> \<not> b_dirty (bufs s ! b)"
  let ?D = "{b. b < NBUF \<and> b_dirty (bufs s ! b)}"
  have "inj_on (\<lambda>b. b_blockno (bufs s ! b)) ?D"
    using binvD(8,4) [OF assms(1)] binv_buf [OF assms(1)] by (auto simp: inj_on_def uniq_bufs_def buf_ok_def)
  moreover have "(\<lambda>b. b_blockno (bufs s ! b)) ` ?D \<subseteq> dirty_blocks s"
    using binvD(4) [OF assms(1)] by (auto simp: dirty_blocks_def)
  moreover have "finite (dirty_blocks s)" by (simp add: dirty_blocks_def)
  ultimately have "card ?D \<le> card (dirty_blocks s)" by (rule card_inj_on_le)
  moreover have "card (H \<union> ?D) \<le> card H + card ?D" by (rule card_Un_le)
  ultimately have "card (H \<union> ?D) < card {..<NBUF}" using assms(2) by simp
  moreover have "finite (H \<union> ?D)" using binvD(7) [OF assms(1)] by (auto intro: finite_subset [of _ "{..<NBUF}"])
  ultimately have "\<not> {..<NBUF} \<subseteq> H \<union> ?D" by (metis card_mono leD)
  then obtain b where b: "b < NBUF" "b \<notin> H" "\<not> b_dirty (bufs s ! b)" by auto
  moreover have "b_refcnt (bufs s ! b) = 0" using binv_buf [OF assms(1) b(1)] b(2) by (simp add: buf_ok_def)
  moreover have "b \<in> set (rev (lru s))" using b binvD(6) [OF assms(1)] by simp
  ultimately obtain c where c: "find ?P (rev (lru s)) = Some c"
    by (cases "find ?P (rev (lru s))") (auto simp: find_None_iff)
  then have "c \<in> set (rev (lru s))" "?P c" using find_SomeD [OF c] by blast+
  then have "c < NBUF" "?P c" using binvD(6) [OF assms(1)] by auto
  moreover have "c \<notin> H" using \<open>?P c\<close> binv_held(3) [OF assms(1), of c] by auto
  ultimately show thesis using c that by blast
qed

definition read_buf :: "bool \<Rightarrow> u32 \<Rightarrow> u32 \<Rightarrow> u8 list \<Rightarrow> buf" where
  "read_buf dirty n pid bs = \<lparr>b_valid = True, b_dirty = dirty, b_dev = 1, b_blockno = n,
     b_lock = \<lparr>sl_locked = True, sl_pid = pid\<rparr>, b_refcnt = 1, b_data = bs\<rparr>"

lemma iderw_read:
  assumes "L_buf b \<notin> k_held s" and "cpuproc s = Some i" and "b < length (bufs s)"
    and "bufs s ! b = x" and "b_lock x = \<lparr>sl_locked = True, sl_pid = mypid s\<rparr>"
    and "\<not> b_valid x" and "\<not> b_dirty x" and "b_dev x = 1" and "b_blockno x < disksize s"
  shows "iderw b s = Ok () (s\<lparr>bufs := (bufs s)[b := x\<lparr>b_data := disk s (b_blockno x), b_valid := True\<rparr>]\<rparr>)"
  using assms
  by (simp add: iderw_def holdingsleep_def monad_simps acquire_def release_def curproc_def upd_buf_def mypid_def)

lemma bget_hit:
  assumes "binv H s" and "b < NBUF" and "b \<notin> H" and "b_dev (bufs s ! b) = 1" and "b_blockno (bufs s ! b) = n"
  shows "bget 1 n s = Ok b (s\<lparr>bufs := (bufs s)[b := (bufs s ! b)\<lparr>b_refcnt := 1,
    b_lock := \<lparr>sl_locked = True, sl_pid = mypid s\<rparr>\<rparr>]\<rparr>)"
proof -
  from assms(1) obtain i where i: "cpuproc s = Some i" by (rule binv_cpu)
  have "\<not> sl_locked (b_lock (bufs s ! b))" "b_refcnt (bufs s ! b) = 0"
    using binv_buf [OF assms(1,2)] assms(3) by (simp_all add: buf_ok_def)
  moreover have "find (\<lambda>b. b_dev (bufs s ! b) = 1 \<and> b_blockno (bufs s ! b) = n) (lru s) = Some b"
    using assms find_hit by blast
  ultimately show ?thesis
    using i binvD [OF assms(1)] assms(2)
    by (simp add: bget_def monad_simps acquire_def release_def upd_buf_def acquiresleep_buf mypid_def)
qed

lemma bget_miss:
  assumes "binv H s" and "\<And>b. b < NBUF \<Longrightarrow> \<not> (b_dev (bufs s ! b) = 1 \<and> b_blockno (bufs s ! b) = n)"
    and "card H + card (dirty_blocks s) < NBUF"
  obtains b where "b < NBUF" "b \<notin> H" "\<not> b_dirty (bufs s ! b)"
    "bget 1 n s = Ok b (s\<lparr>bufs := (bufs s)[b := (bufs s ! b)\<lparr>b_dev := 1, b_blockno := n, b_valid := False,
       b_dirty := False, b_refcnt := 1, b_lock := \<lparr>sl_locked = True, sl_pid = mypid s\<rparr>\<rparr>]\<rparr>)"
proof -
  from assms(1) obtain i where i: "cpuproc s = Some i" by (rule binv_cpu)
  from assms(1,3) obtain b where b: "b < NBUF" "b \<notin> H" "\<not> b_dirty (bufs s ! b)"
    "find (\<lambda>b. b_refcnt (bufs s ! b) = 0 \<and> \<not> b_dirty (bufs s ! b)) (rev (lru s)) = Some b"
    by (rule find_unused)
  have "\<not> sl_locked (b_lock (bufs s ! b))"
    using binv_buf [OF assms(1) b(1)] b(2) by (simp_all add: buf_ok_def)
  moreover have "find (\<lambda>b. b_dev (bufs s ! b) = 1 \<and> b_blockno (bufs s ! b) = n) (lru s) = None"
  proof (rule ccontr)
    assume "find (\<lambda>b. b_dev (bufs s ! b) = 1 \<and> b_blockno (bufs s ! b) = n) (lru s) \<noteq> None"
    then obtain c where "find (\<lambda>b. b_dev (bufs s ! b) = 1 \<and> b_blockno (bufs s ! b) = n) (lru s) = Some c" by auto
    then show False using find_hit [OF assms(1), of n c] assms(2) [of c] by auto
  qed
  ultimately have "bget 1 n s = Ok b (s\<lparr>bufs := (bufs s)[b := (bufs s ! b)\<lparr>b_dev := 1, b_blockno := n, b_valid := False,
       b_dirty := False, b_refcnt := 1, b_lock := \<lparr>sl_locked = True, sl_pid = mypid s\<rparr>\<rparr>]\<rparr>)"
    using i binvD [OF assms(1)] b
    by (simp add: bget_def monad_simps acquire_def release_def upd_buf_def acquiresleep_buf mypid_def)
  with b that show thesis by blast
qed

lemma dirty_blocks_nth: "m \<in> dirty_blocks s \<longleftrightarrow> (\<exists>c<length (bufs s). b_dirty (bufs s ! c) \<and> b_blockno (bufs s ! c) = m)"
  by (auto simp: dirty_blocks_def in_set_conv_nth image_iff)

text \<open>A block moves into the buffer \<open>b\<close>, which held it before or was clean.\<close>

lemma binv_read:
  assumes inv: "binv H s" and n: "n < disksize s" and b: "b < NBUF" "b \<notin> H"
    and old: "(b_dev (bufs s ! b) = 1 \<and> b_blockno (bufs s ! b) = n) \<or>
      (\<forall>c<NBUF. \<not> (b_dev (bufs s ! c) = 1 \<and> b_blockno (bufs s ! c) = n)) \<and> \<not> b_dirty (bufs s ! b)"
    and t: "t = s\<lparr>bufs := (bufs s)[b := read_buf (n \<in> dirty_blocks s) n (mypid s) (content s n)]\<rparr>"
  shows "binv (insert b H) t" and "content t = content s" and "dirty_blocks t = dirty_blocks s"
proof -
  note L = binvD(4) [OF inv]
  have old_n: "c = b" if "c < NBUF" "b_dev (bufs s ! c) = 1" "b_blockno (bufs s ! c) = n" for c
    using that old b binvD(8) [OF inv] L by (auto simp: uniq_bufs_def)
  have u: "uniq_bufs (bufs t)"
    using uniq_bufs_upd [OF binvD(8) [OF inv]] old_n L by (auto simp: t read_buf_def)
  have dk: "disk t = disk s" by (simp add: t disk_def)
  have dirty_n: "b_dirty (bufs s ! b)" if "n \<in> dirty_blocks s"
  proof -
    from that obtain c where "c < NBUF" "b_dirty (bufs s ! c)" "b_blockno (bufs s ! c) = n"
      by (auto simp: dirty_blocks_nth L)
    moreover have "b_dev (bufs s ! c) = 1"
      using binv_buf [OF inv \<open>c < NBUF\<close>] \<open>b_dirty (bufs s ! c)\<close> by (simp add: buf_ok_def)
    ultimately show ?thesis using old_n by auto
  qed
  have clean_n: "b_dirty (bufs s ! b) \<Longrightarrow> b_blockno (bufs s ! b) = n"
    using old by auto
  have len: "length (content s n) = BSIZE"
  proof (cases "\<exists>c<NBUF. caches n (bufs s ! c)")
    case True
    then obtain c where "c < NBUF" "caches n (bufs s ! c)" by blast
    then show ?thesis using content_cached [OF binvD(8) [OF inv], of c n] binv_buf [OF inv, of c] L
      by (simp add: buf_ok_def)
  next
    case False
    then show ?thesis using content_uncached [of s n] L inv n by (auto simp: binv_def)
  qed
  show "binv (insert b H) t"
  proof -
    have "buf_ok (disk t) (mypid t) (disksize t) (c \<in> insert b H) (bufs t ! c)" if "c < NBUF" for c
      using binv_buf [OF inv that] that L b n len unfolding dk
      by (cases "c = b") (simp_all add: t buf_ok_def read_buf_def)
    then show ?thesis using inv b u by (simp add: binv_def t disk_def)
  qed
  show "dirty_blocks t = dirty_blocks s"
  proof (rule set_eqI)
    fix m
    have "m \<in> dirty_blocks t \<longleftrightarrow> n \<in> dirty_blocks s \<and> m = n
        \<or> (\<exists>c<NBUF. c \<noteq> b \<and> b_dirty (bufs s ! c) \<and> b_blockno (bufs s ! c) = m)"
      using b(1) L by (auto simp: dirty_blocks_nth t nth_list_update read_buf_def)
    also have "\<dots> \<longleftrightarrow> m \<in> dirty_blocks s"
      using dirty_n clean_n b(1) L by (auto simp: dirty_blocks_nth)
    finally show "m \<in> dirty_blocks t \<longleftrightarrow> m \<in> dirty_blocks s" .
  qed
  show "content t = content s"
  proof
    fix m
    show "content t m = content s m"
    proof (cases "m = n")
      case True
      have "caches n (bufs t ! b)" "b < length (bufs t)" using b(1) L by (simp_all add: t read_buf_def)
      from content_cached [OF u this(2,1)] True show ?thesis using b(1) L by (simp add: t read_buf_def)
    next
      case False
      show ?thesis
      proof (cases "caches m (bufs s ! b)")
        case True
        then have "\<not> b_dirty (bufs s ! b)" using clean_n False by auto
        with True have "content s m = disk s m"
          using binv_buf [OF inv b(1)] b content_cached [OF binvD(8) [OF inv], of b m] L by (simp add: buf_ok_def)
        moreover have "\<not> caches m (bufs t ! c)" if "c < length (bufs t)" for c
          using that True False binvD(8) [OF inv] b(1) L
          by (cases "c = b") (auto simp: t read_buf_def uniq_bufs_def)
        then have "content t m = disk t m" by (intro content_uncached)
        ultimately show ?thesis by (simp add: dk)
      next
        case nc: False
        have "caches m (bufs t ! c) = caches m (bufs s ! c) \<and>
            (caches m (bufs s ! c) \<longrightarrow> b_data (bufs t ! c) = b_data (bufs s ! c))" if "c < length (bufs s)" for c
          using that nc False b(1) L by (cases "c = b") (auto simp: t read_buf_def)
        then show ?thesis using binvD(8) [OF inv] u dk by (intro content_cong) (simp_all add: t)
      qed
    qed
  qed
qed

abbreviation with_read :: "nat \<Rightarrow> u32 \<Rightarrow> 'z kbio_scheme \<Rightarrow> 'z kbio_scheme" where
  "with_read b n s \<equiv> s\<lparr>bufs := (bufs s)[b := read_buf (n \<in> dirty_blocks s) n (mypid s) (content s n)]\<rparr>"

lemma bread_hit:
  assumes inv: "binv H s" and n: "n < disksize s" and H: "b \<notin> H"
    and b: "b < NBUF" "b_dev (bufs s ! b) = 1" "b_blockno (bufs s ! b) = n"
  shows "bread 1 n s = Ok b (with_read b n s)"
proof -
  from inv obtain i where i: "cpuproc s = Some i" by (rule binv_cpu)
  note L = binvD(4) [OF inv]
  have same: "c = b" if "c < NBUF" "b_dev (bufs s ! c) = 1" "b_blockno (bufs s ! c) = n" for c
    using that b binvD(8) [OF inv] L by (auto simp: uniq_bufs_def)
  have d: "n \<in> dirty_blocks s \<longleftrightarrow> b_dirty (bufs s ! b)"
  proof
    assume "n \<in> dirty_blocks s"
    then obtain c where c: "c < NBUF" "b_dirty (bufs s ! c)" "b_blockno (bufs s ! c) = n"
      by (auto simp: dirty_blocks_nth L)
    moreover have "b_dev (bufs s ! c) = 1" using binv_buf [OF inv c(1)] c(2) by (simp add: buf_ok_def)
    ultimately show "b_dirty (bufs s ! b)" using same by auto
  qed (use b L in \<open>auto simp: dirty_blocks_nth\<close>)
  let ?x = "(bufs s ! b)\<lparr>b_refcnt := 1, b_lock := \<lparr>sl_locked = True, sl_pid = mypid s\<rparr>\<rparr>"
  let ?u = "s\<lparr>bufs := (bufs s)[b := ?x]\<rparr>"
  have g: "bget 1 n s = Ok b ?u" using bget_hit [OF inv b(1) H b(2,3)] .
  show ?thesis
  proof (cases "b_valid (bufs s ! b)")
    case True
    then have "content s n = b_data (bufs s ! b)"
      using content_cached [OF binvD(8) [OF inv], of b n] b L by simp
    then have "?x = read_buf (n \<in> dirty_blocks s) n (mypid s) (content s n)"
      using True b d by (simp add: read_buf_def)
    then show ?thesis using g True b(1) L by (simp add: bread_def bindM_run thenM_run) (simp add: read_buf_def)
  next
    case False
    then have nd: "\<not> b_dirty (bufs s ! b)" using binv_buf [OF inv b(1)] by (auto simp: buf_ok_def)
    have "content s n = disk s n"
      using same False L by (intro content_uncached) metis
    moreover have "disk ?u n = disk s n" by (simp add: disk_def)
    moreover have "iderw b ?u = Ok () (?u\<lparr>bufs := (bufs ?u)[b := ?x\<lparr>b_data := disk ?u (b_blockno ?x), b_valid := True\<rparr>]\<rparr>)"
      using binvD(3) [OF inv, of b] i b False nd L n by (intro iderw_read) simp_all
    moreover have "?x\<lparr>b_data := content s n, b_valid := True\<rparr> = read_buf (n \<in> dirty_blocks s) n (mypid s) (content s n)"
      using b d nd by (simp add: read_buf_def)
    ultimately show ?thesis using g False b L by (simp add: bread_def bindM_run thenM_run)
  qed
qed

lemma bread_miss:
  assumes inv: "binv H s" and n: "n < disksize s"
    and none: "\<And>b. b < NBUF \<Longrightarrow> \<not> (b_dev (bufs s ! b) = 1 \<and> b_blockno (bufs s ! b) = n)"
    and room: "card H + card (dirty_blocks s) < NBUF"
  obtains b where "b < NBUF" "b \<notin> H" "\<not> b_dirty (bufs s ! b)" "bread 1 n s = Ok b (with_read b n s)"
proof -
  from inv obtain i where i: "cpuproc s = Some i" by (rule binv_cpu)
  note L = binvD(4) [OF inv]
  have nd: "n \<notin> dirty_blocks s"
    using none binv_buf [OF inv] L by (auto simp: dirty_blocks_nth buf_ok_def)
  obtain b where b: "b < NBUF" "b \<notin> H" "\<not> b_dirty (bufs s ! b)"
    and g: "bget 1 n s = Ok b (s\<lparr>bufs := (bufs s)[b := (bufs s ! b)\<lparr>b_dev := 1, b_blockno := n, b_valid := False,
     b_dirty := False, b_refcnt := 1, b_lock := \<lparr>sl_locked = True, sl_pid = mypid s\<rparr>\<rparr>]\<rparr>)"
    using bget_miss [OF inv none room] by blast
  let ?x = "(bufs s ! b)\<lparr>b_dev := 1, b_blockno := n, b_valid := False,
     b_dirty := False, b_refcnt := 1, b_lock := \<lparr>sl_locked = True, sl_pid = mypid s\<rparr>\<rparr>"
  let ?u = "s\<lparr>bufs := (bufs s)[b := ?x]\<rparr>"
  have "content s n = disk s n" using none L by (intro content_uncached) auto
  moreover have "disk ?u n = disk s n" by (simp add: disk_def)
  moreover have "iderw b ?u = Ok () (?u\<lparr>bufs := (bufs ?u)[b := ?x\<lparr>b_data := disk ?u (b_blockno ?x), b_valid := True\<rparr>]\<rparr>)"
    using binvD(3) [OF inv, of b] i b L n by (intro iderw_read) simp_all
  moreover have "?x\<lparr>b_data := content s n, b_valid := True\<rparr> = read_buf (n \<in> dirty_blocks s) n (mypid s) (content s n)"
    using nd by (simp add: read_buf_def)
  ultimately have "bread 1 n s = Ok b (with_read b n s)" using g b L by (simp add: bread_def bindM_run thenM_run)
  then show thesis using b that by blast
qed

lemma bread_spec:
  assumes inv: "binv H s" and n: "n < disksize s" and H: "\<And>c. c \<in> H \<Longrightarrow> b_blockno (bufs s ! c) \<noteq> n"
    and room: "n \<in> dirty_blocks s \<or> card H + card (dirty_blocks s) < NBUF"
  shows "\<exists>b t. bread 1 n s = Ok b t \<and> b \<notin> H \<and> binv (insert b H) t \<and> bframe s t \<and> writes t = writes s
    \<and> content t = content s \<and> dirty_blocks t = dirty_blocks s \<and> b_blockno (bufs t ! b) = n
    \<and> (\<forall>c\<in>H. b_blockno (bufs t ! c) = b_blockno (bufs s ! c))"
proof -
  note L = binvD(4) [OF inv]
  let ?old = "\<lambda>b. b_dev (bufs s ! b) = 1 \<and> b_blockno (bufs s ! b) = n"
  have "\<exists>b. b < NBUF \<and> b \<notin> H \<and> bread 1 n s = Ok b (with_read b n s)
    \<and> (?old b \<or> (\<forall>c<NBUF. \<not> ?old c) \<and> \<not> b_dirty (bufs s ! b))"
  proof (cases "\<exists>b<NBUF. ?old b")
    case True
    then obtain b where b: "b < NBUF" "b_dev (bufs s ! b) = 1" "b_blockno (bufs s ! b) = n" by blast
    then have "b \<notin> H" using H by auto
    with b bread_hit [OF inv n this b] show ?thesis by blast
  next
    case False
    then have "n \<notin> dirty_blocks s" using binv_buf [OF inv] L by (auto simp: dirty_blocks_nth buf_ok_def)
    with room have "card H + card (dirty_blocks s) < NBUF" by simp
    with False obtain b where "b < NBUF" "b \<notin> H" "\<not> b_dirty (bufs s ! b)" "bread 1 n s = Ok b (with_read b n s)"
      using bread_miss [OF inv n] by blast
    with False show ?thesis by blast
  qed
  then obtain b where b: "b < NBUF" "b \<notin> H" "bread 1 n s = Ok b (with_read b n s)"
    and old: "?old b \<or> (\<forall>c<NBUF. \<not> ?old c) \<and> \<not> b_dirty (bufs s ! b)" by blast
  have "b_blockno (bufs (with_read b n s) ! c) = b_blockno (bufs s ! c)" if "c \<in> H" for c
    using that b(2) by (cases "c = b") simp_all
  moreover have "bframe s (with_read b n s)" by (simp add: bframe_def)
  ultimately show ?thesis using b binv_read [OF inv n b(1,2) old refl] L
    by (intro exI [of _ b] exI [of _ "with_read b n s"]) (simp add: read_buf_def)
qed

text \<open>Replacing a held buffer by another for the same block.\<close>

lemma binv_upd_held:
  assumes inv: "binv H s" and b: "b \<in> H"
    and x: "b_blockno x = b_blockno (bufs s ! b)" "b_dev x = 1" "b_valid x" "b_lock x = b_lock (bufs s ! b)"
      "b_refcnt x = 1" "length (b_data x) = BSIZE"
    and t: "t = s\<lparr>bufs := (bufs s)[b := x]\<rparr>"
  shows "binv H t" and "content t = (content s)(b_blockno x := b_data x)"
    and "dirty_blocks t = (if b_dirty x then insert (b_blockno x) (dirty_blocks s) else dirty_blocks s - {b_blockno x})"
proof -
  note L = binvD(4) [OF inv] and h = binv_held [OF inv b]
  have same: "c = b" if "c < NBUF" "b_dev (bufs s ! c) = 1" "b_blockno (bufs s ! c) = b_blockno x" for c
    using that h x binvD(8) [OF inv] L by (auto simp: uniq_bufs_def)
  have u: "uniq_bufs (bufs t)" using uniq_bufs_upd [OF binvD(8) [OF inv]] same L by (auto simp: t)
  have dk: "disk t = disk s" by (simp add: t disk_def)
  have "buf_ok (disk t) (mypid t) (disksize t) (c \<in> H) (bufs t ! c)" if "c < NBUF" for c
    using binv_buf [OF inv that] that L b h x unfolding dk
    by (cases "c = b") (simp_all add: t buf_ok_def)
  then show "binv H t" using inv u by (simp add: binv_def t disk_def)
  show "content t = (content s)(b_blockno x := b_data x)"
  proof
    fix m
    show "content t m = ((content s)(b_blockno x := b_data x)) m"
    proof (cases "m = b_blockno x")
      case True
      then show ?thesis using content_cached [OF u, of b m] h(1) L x by (simp add: t)
    next
      case m: False
      have "caches m (bufs t ! c) = caches m (bufs s ! c) \<and>
          (caches m (bufs s ! c) \<longrightarrow> b_data (bufs t ! c) = b_data (bufs s ! c))" if "c < length (bufs s)" for c
        using that m x(1) by (cases "c = b") (auto simp: t)
      then have "content t m = content s m"
        using binvD(8) [OF inv] u dk by (intro content_cong) (simp_all add: t)
      with m show ?thesis by simp
    qed
  qed
  show "dirty_blocks t = (if b_dirty x then insert (b_blockno x) (dirty_blocks s) else dirty_blocks s - {b_blockno x})"
  proof (rule set_eqI)
    fix m
    have "b_dirty (bufs s ! c) \<Longrightarrow> b_dev (bufs s ! c) = 1" if "c < NBUF" for c
      using binv_buf [OF inv that] by (simp add: buf_ok_def)
    with same have d: "c = b" if "c < NBUF" "b_dirty (bufs s ! c)" "b_blockno (bufs s ! c) = b_blockno x" for c
      using that by blast
    have "m \<in> dirty_blocks t \<longleftrightarrow> (b_dirty x \<and> m = b_blockno x)
        \<or> (\<exists>c<NBUF. c \<noteq> b \<and> b_dirty (bufs s ! c) \<and> b_blockno (bufs s ! c) = m)"
      using h(1) L by (auto simp: dirty_blocks_nth t nth_list_update)
    also have "\<dots> \<longleftrightarrow> m \<in> (if b_dirty x then insert (b_blockno x) (dirty_blocks s) else dirty_blocks s - {b_blockno x})"
      using d x(1) L by (auto simp: dirty_blocks_nth)
    finally show "m \<in> dirty_blocks t \<longleftrightarrow>
        m \<in> (if b_dirty x then insert (b_blockno x) (dirty_blocks s) else dirty_blocks s - {b_blockno x})" .
  qed
qed

lemma content_held: "binv H s \<Longrightarrow> b \<in> H \<Longrightarrow> content s (b_blockno (bufs s ! b)) = b_data (bufs s ! b)"
  using content_cached [of s b] binvD(4,8) [of H s] binv_held [of H s b] by simp

lemma disk_append: "disk (s\<lparr>writes := writes s @ [(n, bs)]\<rparr>) = (disk s)(n := bs)"
  by (simp add: disk_def after_def)

text \<open>A held buffer goes to the disk.\<close>

lemma binv_write:
  assumes inv: "binv H s" and b: "b \<in> H" and x: "bufs s ! b = x"
    and t: "t = s\<lparr>writes := writes s @ [(b_blockno x, b_data x)]\<rparr>"
  shows "binv H t" and "content t = content s" and "dirty_blocks t = dirty_blocks s"
proof -
  note L = binvD(4) [OF inv] and h = binv_held [OF inv b, unfolded x]
  have dk: "disk t = (disk s)(b_blockno x := b_data x)" by (simp add: t disk_append)
  have same: "c = b" if "c < NBUF" "b_dev (bufs s ! c) = 1" "b_blockno (bufs s ! c) = b_blockno x" for c
    using that h x binvD(8) [OF inv] L by (auto simp: uniq_bufs_def)
  have "buf_ok (disk t) (mypid t) (disksize t) (c \<in> H) (bufs t ! c)" if "c < NBUF" for c
    using binv_buf [OF inv that] same [OF that] b unfolding dk by (auto simp: t buf_ok_def)
  moreover have "\<forall>n<disksize t. length (disk t n) = BSIZE"
    using inv h by (auto simp: binv_def dk) (simp_all add: t)
  ultimately show "binv H t" using inv by (simp add: binv_def t)
  show "dirty_blocks t = dirty_blocks s" by (simp add: t dirty_blocks_def)
  show "content t = content s"
  proof
    fix m
    have "content t m = content s m" if "m \<noteq> b_blockno x"
      using that by (simp add: content_def dk split: option.split) (simp add: t)
    moreover have "content t (b_blockno x) = content s (b_blockno x)"
      using content_cached [of t b "b_blockno x"] content_cached [of s b "b_blockno x"] binvD(8) [OF inv] h L x
      by (simp add: t)
    ultimately show "content t m = content s m" by metis
  qed
qed

lemma bwrite_spec:
  assumes inv: "binv H s" and b: "b \<in> H"
  shows "\<exists>t. bwrite b s = Ok () t \<and> binv H t \<and> bframe s t
    \<and> writes t = writes s @ [(b_blockno (bufs s ! b), b_data (bufs s ! b))]
    \<and> content t = content s \<and> dirty_blocks t = dirty_blocks s - {b_blockno (bufs s ! b)}
    \<and> bufs t ! b = (bufs s ! b)\<lparr>b_dirty := False\<rparr> \<and> (\<forall>c. c \<noteq> b \<longrightarrow> bufs t ! c = bufs s ! c)"
proof -
  note L = binvD(4) [OF inv] and h = binv_held [OF inv b]
  let ?x = "bufs s ! b"
  let ?u = "s\<lparr>bufs := (bufs s)[b := ?x\<lparr>b_dirty := False\<rparr>]\<rparr>"
  let ?t = "?u\<lparr>writes := writes s @ [(b_blockno ?x, b_data ?x)]\<rparr>"
  from inv obtain i where i: "cpuproc s = Some i" "p_pid (procs s ! i) = mypid s" by (rule binv_cpu)
  have dx: "?x\<lparr>b_dirty := False, b_valid := True\<rparr> = ?x\<lparr>b_dirty := False\<rparr>" using h(4) by simp
  have "bwrite b s = Ok () ?t"
    using i h L binvD(3) [OF inv, of b]
    by (simp add: bwrite_def holdingsleep_buf [OF inv] iderw_def holdingsleep_def monad_simps acquire_def release_def
        curproc_def upd_buf_def dx)
  moreover note u = binv_upd_held [OF inv b, of "?x\<lparr>b_dirty := False\<rparr>", OF _ _ _ _ _ _ refl]
  have cu: "content ?u = content s" using u(2) h content_held [OF inv b] by (simp add: fun_upd_idem)
  have bu: "bufs ?u ! b = ?x\<lparr>b_dirty := False\<rparr>" using h(1) L by simp
  have w: "binv H ?t" "content ?t = content ?u" "dirty_blocks ?t = dirty_blocks ?u"
    using binv_write [OF _ b bu, of ?t] u(1) h by simp_all
  ultimately show ?thesis using w cu u(3) h bu by (intro exI [of _ ?t]) (simp add: bframe_def)
qed

lemma brelse_spec:
  assumes inv: "binv H s" and b: "b \<in> H"
    and clean: "b_dirty (bufs s ! b) \<or> b_data (bufs s ! b) = disk s (b_blockno (bufs s ! b))"
  shows "\<exists>t. brelse b s = Ok () t \<and> binv (H - {b}) t \<and> bframe s t \<and> writes t = writes s
    \<and> content t = content s \<and> dirty_blocks t = dirty_blocks s \<and> (\<forall>c. c \<noteq> b \<longrightarrow> bufs t ! c = bufs s ! c)"
proof -
  note L = binvD(4) [OF inv] and h = binv_held [OF inv b] and D = binvD [OF inv]
  let ?x = "(bufs s ! b)\<lparr>b_lock := \<lparr>sl_locked = False, sl_pid = 0\<rparr>, b_refcnt := 0\<rparr>"
  let ?t = "s\<lparr>procs := map (wakeup1_proc (Some (Ch_buf_lock b))) (procs s), bufs := (bufs s)[b := ?x], lru := b # remove1 b (lru s)\<rparr>"
  have r: "brelse b s = Ok () ?t"
    using h L D
    by (simp add: brelse_def holdingsleep_buf [OF inv] releasesleep_def wakeup_run monad_simps acquire_def release_def upd_buf_def)
  moreover have pids: "map p_pid (procs ?t) = map p_pid (procs s)" by (simp add: wakeup1_proc_def)
  moreover have "mypid ?t = mypid s"
  proof -
    from inv obtain i where "cpuproc s = Some i" "i < length (procs s)" "p_pid (procs s ! i) = mypid s" by (rule binv_cpu)
    then show ?thesis by (simp add: mypid_def wakeup1_proc_def)
  qed
  moreover have u: "uniq_bufs (bufs ?t)"
  proof -
    have "c = b" if "c < NBUF" "b_dev (bufs s ! c) = 1" "b_blockno (bufs s ! c) = b_blockno ?x" for c
      using that h(1,5) D(8) L by (simp add: uniq_bufs_def)
    then show ?thesis using uniq_bufs_upd [OF D(8), of ?x b] L by simp
  qed
  moreover have dk: "disk ?t = disk s" by (simp add: disk_def)
  ultimately have "binv (H - {b}) ?t"
  proof -
    have "\<not> b_dirty (bufs s ! b) \<longrightarrow> b_data (bufs s ! b) = disk s (b_blockno (bufs s ! b))" using clean by blast
    then have "buf_ok (disk s) (mypid s) (disksize s) (c \<in> H - {b}) (bufs ?t ! c)" if "c < NBUF" for c
      using binv_buf [OF inv that] that L b h by (cases "c = b") (simp_all add: buf_ok_def)
    then show ?thesis using inv u D dk \<open>mypid ?t = mypid s\<close> h(1)
      by (auto simp: binv_def set_remove1_eq)
  qed
  moreover have "bframe s ?t" using pids by (simp add: bframe_def)
  moreover have "dirty_blocks ?t = dirty_blocks s"
    using h(1) L by (auto simp: set_eq_iff dirty_blocks_nth nth_list_update split: if_splits)
  moreover have "content ?t = content s"
  proof
    fix m
    have "caches m (bufs ?t ! c) = caches m (bufs s ! c) \<and> b_data (bufs ?t ! c) = b_data (bufs s ! c)" if "c < NBUF" for c
      using that L by (cases "c = b") simp_all
    then show "content ?t m = content s m" using D(8) u dk L by (intro content_cong) simp_all
  qed
  ultimately show ?thesis using r by (intro exI [of _ ?t]) simp
qed

text \<open>New bytes in a held buffer.\<close>

lemma dirty_held:
  assumes inv: "binv H s" and b: "b \<in> H"
  shows "b_blockno (bufs s ! b) \<in> dirty_blocks s \<longleftrightarrow> b_dirty (bufs s ! b)"
proof
  note L = binvD(4) [OF inv] and h = binv_held [OF inv b]
  show "b_dirty (bufs s ! b) \<Longrightarrow> b_blockno (bufs s ! b) \<in> dirty_blocks s"
    using h(1) L by (auto simp: dirty_blocks_nth)
  assume "b_blockno (bufs s ! b) \<in> dirty_blocks s"
  then obtain c where c: "c < NBUF" "b_dirty (bufs s ! c)" "b_blockno (bufs s ! c) = b_blockno (bufs s ! b)"
    by (auto simp: dirty_blocks_nth L)
  moreover have "b_dev (bufs s ! c) = 1" using binv_buf [OF inv c(1)] c(2) by (simp add: buf_ok_def)
  ultimately have "c = b" using binvD(8) [OF inv] L h by (auto simp: uniq_bufs_def)
  with c show "b_dirty (bufs s ! b)" by simp
qed

lemma binv_put:
  assumes inv: "binv H s" and b: "b \<in> H" and bs: "length bs = BSIZE"
    and t: "t = s\<lparr>bufs := (bufs s)[b := (bufs s ! b)\<lparr>b_data := bs\<rparr>]\<rparr>"
  shows "binv H t \<and> bframe s t \<and> writes t = writes s \<and> content t = (content s)(b_blockno (bufs s ! b) := bs)
    \<and> dirty_blocks t = dirty_blocks s \<and> (\<forall>c. b_blockno (bufs t ! c) = b_blockno (bufs s ! c))"
proof -
  note L = binvD(4) [OF inv] and h = binv_held [OF inv b]
  note u = binv_upd_held [OF inv b, of "(bufs s ! b)\<lparr>b_data := bs\<rparr>", OF _ _ _ _ _ _ t]
  have "b_blockno (bufs t ! c) = b_blockno (bufs s ! c)" for c
    using h(1) L by (cases "c = b") (simp_all add: t)
  moreover have "dirty_blocks t = dirty_blocks s" using u(3) h dirty_held [OF inv b] bs by auto
  ultimately show ?thesis using u(1,2) h bs by (simp add: bframe_def t)
qed

lemma copy_buf_spec:
  assumes inv: "binv H s" and b: "dst \<in> H" "src \<in> H"
  shows "\<exists>t. copy_buf dst src s = Ok () t \<and> binv H t \<and> bframe s t \<and> writes t = writes s
    \<and> content t = (content s)(b_blockno (bufs s ! dst) := b_data (bufs s ! src))
    \<and> dirty_blocks t = dirty_blocks s \<and> (\<forall>c. b_blockno (bufs t ! c) = b_blockno (bufs s ! c))"
  using binv_put [OF inv b(1) binv_held(6) [OF inv b(2)] refl] by (simp add: copy_buf_def upd_buf_def)

lemma edit_spec:
  assumes inv: "binv H s" and b: "b \<in> H" and f: "length (f (b_data (bufs s ! b))) = BSIZE"
  shows "\<exists>t. modM (upd_buf b (\<lambda>x. x\<lparr>b_data := f (b_data x)\<rparr>)) s = Ok () t \<and> binv H t \<and> bframe s t
    \<and> writes t = writes s \<and> content t = (content s)(b_blockno (bufs s ! b) := f (b_data (bufs s ! b)))
    \<and> dirty_blocks t = dirty_blocks s \<and> (\<forall>c. b_blockno (bufs t ! c) = b_blockno (bufs s ! c))"
  using binv_put [OF inv b f refl] by (simp add: upd_buf_def)

section \<open>The interface\<close>

text \<open>
  A device of blocks behind a cache, as its clients see it. \<open>inv H\<close>: the client holds the handles
  \<open>H\<close>; \<open>blk\<close> and \<open>dat\<close> are the block of a handle and its bytes, \<open>ws\<close> the writes the device has
  received, \<open>dirty\<close> the blocks that may not leave the cache.
\<close>

locale block_io =
  fixes inv :: "'h set \<Rightarrow> 's \<Rightarrow> bool"
    and rd :: "u32 \<Rightarrow> 's \<Rightarrow> ('h, 's) res"
    and wr :: "'h \<Rightarrow> 's \<Rightarrow> (unit, 's) res"
    and rel :: "'h \<Rightarrow> 's \<Rightarrow> (unit, 's) res"
    and cp :: "'h \<Rightarrow> 'h \<Rightarrow> 's \<Rightarrow> (unit, 's) res"
    and ed :: "'h \<Rightarrow> (u8 list \<Rightarrow> u8 list) \<Rightarrow> 's \<Rightarrow> (unit, 's) res"
    and cont :: "'s \<Rightarrow> u32 \<Rightarrow> u8 list"
    and blk :: "'s \<Rightarrow> 'h \<Rightarrow> u32"
    and dat :: "'s \<Rightarrow> 'h \<Rightarrow> u8 list"
    and frame :: "'s \<Rightarrow> 's \<Rightarrow> bool"
    and ws :: "'s \<Rightarrow> (u32 \<times> u8 list) list"
    and dsk :: "'s \<Rightarrow> u32 \<Rightarrow> u8 list"
    and dirty :: "'s \<Rightarrow> u32 set"
    and limit :: "'s \<Rightarrow> u32"
    and cap bsize :: nat
  assumes rd: "inv H s \<Longrightarrow> n < limit s \<Longrightarrow> (\<And>c. c \<in> H \<Longrightarrow> blk s c \<noteq> n) \<Longrightarrow>
      n \<in> dirty s \<or> card H + card (dirty s) < cap \<Longrightarrow>
      \<exists>b t. rd n s = Ok b t \<and> b \<notin> H \<and> inv (insert b H) t \<and> frame s t \<and> ws t = ws s \<and> cont t = cont s
        \<and> dirty t = dirty s \<and> blk t b = n \<and> (\<forall>c\<in>H. blk t c = blk s c)"
    and wr: "inv H s \<Longrightarrow> b \<in> H \<Longrightarrow>
      \<exists>t. wr b s = Ok () t \<and> inv H t \<and> frame s t \<and> ws t = ws s @ [(blk s b, cont s (blk s b))]
        \<and> cont t = cont s \<and> dirty t = dirty s - {blk s b} \<and> (\<forall>c\<in>H. blk t c = blk s c)"
    and rel: "inv H s \<Longrightarrow> b \<in> H \<Longrightarrow> blk s b \<in> dirty s \<or> cont s (blk s b) = dsk s (blk s b) \<Longrightarrow>
      \<exists>t. rel b s = Ok () t \<and> inv (H - {b}) t \<and> frame s t \<and> ws t = ws s \<and> cont t = cont s
        \<and> dirty t = dirty s \<and> (\<forall>c\<in>H - {b}. blk t c = blk s c)"
    and cp: "inv H s \<Longrightarrow> x \<in> H \<Longrightarrow> y \<in> H \<Longrightarrow> x \<noteq> y \<Longrightarrow>
      \<exists>t. cp x y s = Ok () t \<and> inv H t \<and> frame s t \<and> ws t = ws s
        \<and> cont t = (cont s)(blk s x := cont s (blk s y)) \<and> dirty t = dirty s \<and> (\<forall>c\<in>H. blk t c = blk s c)"
    and ed: "inv H s \<Longrightarrow> b \<in> H \<Longrightarrow> length (f (cont s (blk s b))) = bsize \<Longrightarrow>
      \<exists>t. ed b f s = Ok () t \<and> inv H t \<and> frame s t \<and> ws t = ws s
        \<and> cont t = (cont s)(blk s b := f (cont s (blk s b))) \<and> dirty t = dirty s \<and> (\<forall>c\<in>H. blk t c = blk s c)"
    and dat: "inv H s \<Longrightarrow> b \<in> H \<Longrightarrow> dat s b = cont s (blk s b)"
    and clean: "inv H s \<Longrightarrow> n \<notin> dirty s \<Longrightarrow> (\<And>b. b \<in> H \<Longrightarrow> blk s b \<noteq> n) \<Longrightarrow> cont s n = dsk s n"
    and dsk_ws: "frame s t \<Longrightarrow> ws t = ws s @ w \<Longrightarrow> dsk t = after (dsk s) w"
    and cont_length: "inv H s \<Longrightarrow> n < limit s \<Longrightarrow> length (cont s n) = bsize"
    and frame_trans: "frame s t \<Longrightarrow> frame t u \<Longrightarrow> frame s u"
    and frame_limit: "frame s t \<Longrightarrow> limit t = limit s"
begin

text \<open>One block copied to another and written: the target is read first, or the source.\<close>

lemma copy_to_first:
  assumes inv: "inv {} s" and lim: "a < limit s" "m < limit s" and am: "a \<noteq> m"
    and d: "a \<notin> dirty s" "m \<in> dirty s \<or> card (dirty s) + 1 < cap" "card (dirty s) < cap"
  shows "\<exists>t. bindM (rd a) (\<lambda>x. bindM (rd m) (\<lambda>y.
      thenM (cp x y) (thenM (wr x) (thenM (rel y) (rel x))))) s = Ok () t
    \<and> inv {} t \<and> frame s t \<and> ws t = ws s @ [(a, cont s m)] \<and> cont t = (cont s)(a := cont s m) \<and> dirty t = dirty s"
proof -
  obtain x s1 where 1: "rd a s = Ok x s1" "inv {x} s1" "frame s s1" "ws s1 = ws s" "cont s1 = cont s"
      "dirty s1 = dirty s" "blk s1 x = a"
    using rd [OF inv lim(1)] d(3) by auto
  obtain y s2 where 2: "rd m s1 = Ok y s2" "y \<noteq> x" "inv {y, x} s2" "frame s1 s2" "ws s2 = ws s1" "cont s2 = cont s1"
      "dirty s2 = dirty s1" "blk s2 y = m" "blk s2 x = a"
    using rd [OF 1(2), of m] lim am d(2) 1 frame_limit [OF 1(3)] by auto
  obtain s3 where 3: "cp x y s2 = Ok () s3" "inv {y, x} s3" "frame s2 s3" "ws s3 = ws s2"
      "cont s3 = (cont s2)(a := cont s2 m)" "dirty s3 = dirty s2" "blk s3 x = a" "blk s3 y = m"
    using cp [OF 2(3), of x y] 2 by auto
  obtain s4 where 4: "wr x s3 = Ok () s4" "inv {y, x} s4" "frame s3 s4" "ws s4 = ws s3 @ [(a, cont s3 a)]"
      "cont s4 = cont s3" "dirty s4 = dirty s3 - {a}" "blk s4 x = a" "blk s4 y = m"
    using wr [OF 3(2), of x] 3 by auto
  have f: "frame s s4" using 1(3) 2(4) 3(3) 4(3) frame_trans by blast
  have k: "dsk s4 = (dsk s)(a := cont s m)"
    using dsk_ws [OF f, of "[(a, cont s m)]"] 1 2 3 4 by (simp add: after_def)
  have c: "m \<in> dirty s4 \<or> cont s4 m = dsk s4 m"
    using clean [OF inv, of m] 1 2 3 4 k am d(1) by auto
  obtain s5 where 5: "rel y s4 = Ok () s5" "inv {x} s5" "frame s4 s5" "ws s5 = ws s4" "cont s5 = cont s4"
      "dirty s5 = dirty s4" "blk s5 x = a"
    using rel [OF 4(2), of y] c 4 2(2) by (auto simp: insert_Diff_if)
  have "dsk s5 = dsk s4" using dsk_ws [OF 5(3), of "[]"] 5(4) by (simp add: after_def)
  then obtain t where 6: "rel x s5 = Ok () t" "inv {} t" "frame s5 t" "ws t = ws s5" "cont t = cont s5" "dirty t = dirty s5"
    using rel [OF 5(2), of x] 5 4 3 2 1 k by auto
  have "frame s t" using f 5(3) 6(3) frame_trans by blast
  then show ?thesis using 1 2 3 4 5 6 d(1) by (simp add: bindM_run thenM_run)
qed

lemma copy_from_first:
  assumes inv: "inv {} s" and lim: "a < limit s" "m < limit s" and am: "a \<noteq> m"
    and d: "a \<notin> dirty s" "m \<in> dirty s \<or> card (dirty s) + 1 < cap" "card (dirty s) < cap"
  shows "\<exists>t. bindM (rd a) (\<lambda>x. bindM (rd m) (\<lambda>y.
      thenM (cp y x) (thenM (wr y) (thenM (rel x) (rel y))))) s = Ok () t
    \<and> inv {} t \<and> frame s t \<and> ws t = ws s @ [(m, cont s a)] \<and> cont t = (cont s)(m := cont s a)
    \<and> dirty t = dirty s - {m}"
proof -
  obtain x s1 where 1: "rd a s = Ok x s1" "inv {x} s1" "frame s s1" "ws s1 = ws s" "cont s1 = cont s"
      "dirty s1 = dirty s" "blk s1 x = a"
    using rd [OF inv lim(1)] d(3) by auto
  obtain y s2 where 2: "rd m s1 = Ok y s2" "y \<noteq> x" "inv {y, x} s2" "frame s1 s2" "ws s2 = ws s1" "cont s2 = cont s1"
      "dirty s2 = dirty s1" "blk s2 y = m" "blk s2 x = a"
    using rd [OF 1(2), of m] lim am d(2) 1 frame_limit [OF 1(3)] by auto
  obtain s3 where 3: "cp y x s2 = Ok () s3" "inv {y, x} s3" "frame s2 s3" "ws s3 = ws s2"
      "cont s3 = (cont s2)(m := cont s2 a)" "dirty s3 = dirty s2" "blk s3 x = a" "blk s3 y = m"
    using cp [OF 2(3), of y x] 2 by auto
  obtain s4 where 4: "wr y s3 = Ok () s4" "inv {y, x} s4" "frame s3 s4" "ws s4 = ws s3 @ [(m, cont s3 m)]"
      "cont s4 = cont s3" "dirty s4 = dirty s3 - {m}" "blk s4 x = a" "blk s4 y = m"
    using wr [OF 3(2), of y] 3 by auto
  have f: "frame s s4" using 1(3) 2(4) 3(3) 4(3) frame_trans by blast
  have k: "dsk s4 = (dsk s)(m := cont s a)"
    using dsk_ws [OF f, of "[(m, cont s a)]"] 1 2 3 4 by (simp add: after_def)
  have c: "cont s4 a = dsk s4 a" using clean [OF inv, of a] 1 2 3 4 k am d(1) by auto
  obtain s5 where 5: "rel x s4 = Ok () s5" "inv {y} s5" "frame s4 s5" "ws s5 = ws s4" "cont s5 = cont s4"
      "dirty s5 = dirty s4" "blk s5 y = m"
    using rel [OF 4(2), of x] c 4 2(2) by (auto simp: insert_Diff_if)
  have "dsk s5 = dsk s4" using dsk_ws [OF 5(3), of "[]"] 5(4) by (simp add: after_def)
  then obtain t where 6: "rel y s5 = Ok () t" "inv {} t" "frame s5 t" "ws t = ws s5" "cont t = cont s5" "dirty t = dirty s5"
    using rel [OF 5(2), of y] 5 4 3 2 1 k by auto
  have "frame s t" using f 5(3) 6(3) frame_trans by blast
  then show ?thesis using 1 2 3 4 5 6 by (simp add: bindM_run thenM_run)
qed

text \<open>A block read, changed and written.\<close>

lemma edit_block:
  assumes inv: "inv {} s" and lim: "a < limit s" and d: "a \<notin> dirty s" "card (dirty s) < cap"
    and f: "length (f (cont s a)) = bsize"
  shows "\<exists>x u t. rd a s = Ok x u \<and> frame s u \<and> thenM (ed x f) (thenM (wr x) (rel x)) u = Ok () t
    \<and> inv {} t \<and> frame s t \<and> ws t = ws s @ [(a, f (cont s a))] \<and> cont t = (cont s)(a := f (cont s a)) \<and> dirty t = dirty s"
proof -
  obtain x s1 where 1: "rd a s = Ok x s1" "inv {x} s1" "frame s s1" "ws s1 = ws s" "cont s1 = cont s"
      "dirty s1 = dirty s" "blk s1 x = a"
    using rd [OF inv lim] d(2) by auto
  obtain s2 where 2: "ed x f s1 = Ok () s2" "inv {x} s2" "frame s1 s2" "ws s2 = ws s1"
      "cont s2 = (cont s1)(a := f (cont s a))" "dirty s2 = dirty s1" "blk s2 x = a"
    using ed [OF 1(2), of x f] f 1 by auto
  obtain s3 where 3: "wr x s2 = Ok () s3" "inv {x} s3" "frame s2 s3" "ws s3 = ws s2 @ [(a, cont s2 a)]"
      "cont s3 = cont s2" "dirty s3 = dirty s2 - {a}" "blk s3 x = a"
    using wr [OF 2(2), of x] 2 by auto
  have fr: "frame s s3" using 1(3) 2(3) 3(3) frame_trans by blast
  have "dsk s3 = (dsk s)(a := f (cont s a))"
    using dsk_ws [OF fr, of "[(a, f (cont s a))]"] 1 2 3 by (simp add: after_def)
  then obtain t where 4: "rel x s3 = Ok () t" "inv {} t" "frame s3 t" "ws t = ws s3" "cont t = cont s3" "dirty t = dirty s3"
    using rel [OF 3(2), of x] 1 2 3 by auto
  have "frame s t" using fr 4(3) frame_trans by blast
  then show ?thesis using 1 2 3 4 d(1) by (intro exI [of _ x] exI [of _ s1] exI [of _ t]) (simp add: thenM_run)
qed

end

text \<open>The buffer cache provides the interface.\<close>

lemma content_length:
  assumes "binv H s" and "n < disksize s"
  shows "length (content s n) = BSIZE"
proof (cases "\<exists>c<NBUF. caches n (bufs s ! c)")
  case True
  then obtain c where "c < NBUF" "caches n (bufs s ! c)" by blast
  then show ?thesis
    using content_cached [OF binvD(8) [OF assms(1)], of c n] binv_buf [OF assms(1), of c] binvD(4) [OF assms(1)]
    by (simp add: buf_ok_def)
next
  case False
  then show ?thesis using content_uncached [of s n] binvD(4) [OF assms(1)] assms by (auto simp: binv_def)
qed

lemma disk_after:
  assumes "bframe s t" and "writes t = writes s @ w"
  shows "disk t = after (disk s) w"
  using assms(2) bframe_kbio(5) [OF assms(1)] by (simp add: disk_def after_def)

interpretation bc: block_io
  "binv :: nat set \<Rightarrow> 'z kbio_scheme \<Rightarrow> bool" "bread 1" bwrite brelse copy_buf
  "\<lambda>b f. modM (upd_buf b (\<lambda>x. x\<lparr>b_data := f (b_data x)\<rparr>))" content
  "\<lambda>s b. b_blockno (bufs s ! b)" "\<lambda>s b. b_data (bufs s ! b)" bframe writes disk dirty_blocks disksize NBUF BSIZE
proof (unfold_locales, goal_cases)
  case (1 H s n)
  then show ?case using bread_spec [of H s n] by metis
next
  case (2 H s b)
  from bwrite_spec [OF this] obtain t where t: "bwrite b s = Ok () t" "binv H t" "bframe s t"
      "writes t = writes s @ [(b_blockno (bufs s ! b), b_data (bufs s ! b))]" "content t = content s"
      "dirty_blocks t = dirty_blocks s - {b_blockno (bufs s ! b)}"
      "bufs t ! b = (bufs s ! b)\<lparr>b_dirty := False\<rparr>" "\<forall>c. c \<noteq> b \<longrightarrow> bufs t ! c = bufs s ! c" by blast
  then have "\<forall>c\<in>H. b_blockno (bufs t ! c) = b_blockno (bufs s ! c)" by (metis buf.select_convs(4) buf.surjective buf.update_convs(2))
  then show ?case using t content_held [OF 2] by (intro exI [of _ t]) simp
next
  case (3 H s b)
  then have "b_dirty (bufs s ! b) \<or> b_data (bufs s ! b) = disk s (b_blockno (bufs s ! b))"
    using dirty_held [OF 3(1,2)] content_held [OF 3(1,2)] by simp
  from brelse_spec [OF 3(1,2) this] obtain t where "brelse b s = Ok () t" "binv (H - {b}) t" "bframe s t" "writes t = writes s"
    "content t = content s" "dirty_blocks t = dirty_blocks s" "\<forall>c. c \<noteq> b \<longrightarrow> bufs t ! c = bufs s ! c" by blast
  then show ?case by (intro exI [of _ t]) simp
next
  case (4 H s x y)
  then show ?case using copy_buf_spec [OF 4(1-3)] content_held [OF 4(1,3)] by auto
next
  case (5 H s b f)
  then show ?case using edit_spec [OF 5(1,2), of f] content_held [OF 5(1,2)] by auto
next
  case (6 H s b)
  then show ?case using content_held [OF 6] by simp
next
  case (7 H s n)
  then show ?case using content_clean by blast
next
  case (8 s t w)
  then show ?case by (rule disk_after)
next
  case (9 H s n)
  then show ?case by (rule content_length)
next
  case (10 s t u)
  then show ?case by (rule bframe_trans)
next
  case (11 s t)
  then show ?case by (rule bframe_kbio)
qed

end
