(* ===== verification/Log_Spec.thy ===== *)
theory Log_Spec
  imports Buffer_Spec
begin

text \<open>
  Atomicity of the log. What \<open>commit\<close> sends to the disk, what \<open>recover_from_log\<close> makes of a disk, and
  that the two fit together: wherever a crash cuts the writes of a commit or of a recovery, the
  next recovery leaves the file system's blocks all old or all new.
\<close>

section \<open>The header block\<close>

definition hdr_n :: "(u32 \<Rightarrow> u8 list) \<Rightarrow> u32 \<Rightarrow> nat" where
  "hdr_n d st = nat (sint (get32 (d st) 0))"

definition hdr_block :: "(u32 \<Rightarrow> u8 list) \<Rightarrow> u32 \<Rightarrow> nat \<Rightarrow> u32" where
  "hdr_block d st i = get32 (d st) (4 + 4 * i)"

lemma length_put_blocks [simp]: "length (put_blocks i vs bs) = length bs"
  by (induction vs arbitrary: i bs) simp_all

lemma get32_put_blocks_before: "j + 4 \<le> 4 + 4 * i \<Longrightarrow> get32 (put_blocks i vs bs) j = get32 bs j"
  by (induction vs arbitrary: i bs) (simp_all add: get32_put32_other)

lemma get32_put_blocks:
  assumes "k < length vs" and "4 + 4 * (i + length vs) \<le> length bs"
  shows "get32 (put_blocks i vs bs) (4 + 4 * (i + k)) = vs ! k"
  using assms
proof (induction vs arbitrary: i k bs)
  case Nil
  then show ?case by simp
next
  case (Cons v vs)
  show ?case
  proof (cases k)
    case 0
    have "get32 (put_blocks (Suc i) vs (put32 (4 + 4 * i) v bs)) (4 + 4 * i) = get32 (put32 (4 + 4 * i) v bs) (4 + 4 * i)"
      by (rule get32_put_blocks_before) simp
    also have "\<dots> = v" using Cons.prems by (intro get32_put32) simp
    finally show ?thesis using 0 by simp
  next
    case (Suc k')
    then show ?thesis using Cons.IH [of k' "Suc i" "put32 (4 + 4 * i) v bs"] Cons.prems by simp
  qed
qed

text \<open>The header that \<open>write_head\<close> makes of the old contents of the block.\<close>

definition header :: "u32 \<Rightarrow> u32 list \<Rightarrow> u8 list \<Rightarrow> u8 list" where
  "header n bl bs = put_blocks 0 (take (nat (sint n)) bl) (put32 0 n bs)"

lemma header_length [simp]: "length (header n bl bs) = length bs"
  by (simp add: header_def)

lemma header_n: "4 \<le> length bs \<Longrightarrow> get32 (header n bl bs) 0 = n"
  by (simp add: header_def get32_put_blocks_before get32_put32)

lemma header_block:
  assumes "i < nat (sint n)" and "nat (sint n) \<le> length bl" and "4 + 4 * nat (sint n) \<le> length bs"
  shows "get32 (header n bl bs) (4 + 4 * i) = bl ! i"
  using get32_put_blocks [of i "take (nat (sint n)) bl" 0 "put32 0 n bs"] assms by (simp add: header_def)

section \<open>The log area\<close>

definition log_block :: "u32 \<Rightarrow> nat \<Rightarrow> u32" where
  "log_block st i = st + of_nat i + 1"

definition in_log :: "u32 \<Rightarrow> nat \<Rightarrow> u32 \<Rightarrow> bool" where
  "in_log st len m \<longleftrightarrow> unat st \<le> unat m \<and> unat m < unat st + len"

text \<open>The log lies on the disk and its header has room for its blocks.\<close>

definition log_geometry :: "'z klog_scheme \<Rightarrow> bool" where
  "log_geometry s \<longleftrightarrow> log_dev s = 1 \<and> length (lh_block s) = LOGSIZE \<and> 0 < unat (log_size s) \<and> unat (log_size s) \<le> LOGSIZE
     \<and> unat (log_start s) + unat (log_size s) \<le> unat (disksize s)"

lemma log_block_unat:
  assumes "log_geometry s" and "Suc i < unat (log_size s)"
  shows "unat (log_block (log_start s) i) = unat (log_start s) + i + 1"
proof -
  have "unat (log_start s) + i + 1 < 4294967296"
    using assms unat_u32_lt [of "disksize s"] by (simp add: log_geometry_def)
  moreover have "log_block (log_start s) i = of_nat (unat (log_start s) + i + 1)"
    by (simp add: log_block_def)
  ultimately show ?thesis by (simp only: unat_of_nat_u32)
qed

lemma log_block_props:
  assumes "log_geometry s" and "Suc i < unat (log_size s)"
  shows "log_block (log_start s) i < disksize s" "in_log (log_start s) (unat (log_size s)) (log_block (log_start s) i)"
    "log_block (log_start s) i \<noteq> log_start s"
proof -
  note u = log_block_unat [OF assms]
  show "log_block (log_start s) i < disksize s"
    using assms u by (simp add: word_less_nat_alt log_geometry_def)
  show "in_log (log_start s) (unat (log_size s)) (log_block (log_start s) i)"
    using assms u by (simp add: in_log_def)
  show "log_block (log_start s) i \<noteq> log_start s" using u by auto
qed

lemma log_block_inj:
  assumes "log_geometry s" and "Suc i < unat (log_size s)" and "Suc j < unat (log_size s)"
    and "log_block (log_start s) i = log_block (log_start s) j"
  shows "i = j"
proof -
  have "unat (log_start s) + i + 1 = unat (log_start s) + j + 1"
    using log_block_unat [OF assms(1,2)] log_block_unat [OF assms(1,3)] assms(4) by metis
  then show ?thesis by simp
qed

lemma start_props:
  assumes "log_geometry s"
  shows "log_start s < disksize s" "in_log (log_start s) (unat (log_size s)) (log_start s)"
  using assms by (auto simp: log_geometry_def in_log_def word_less_nat_alt)

lemma log_geometry_frame:
  assumes "bframe s t"
  shows "log_geometry t = log_geometry s"
  using bframe_kbio [OF assms] bframe_klog [OF assms] by (simp add: log_geometry_def)

text \<open>A list of blocks that the log can hold.\<close>

definition loggable :: "'z klog_scheme \<Rightarrow> nat \<Rightarrow> (nat \<Rightarrow> u32) \<Rightarrow> bool" where
  "loggable s n home \<longleftrightarrow> n < unat (log_size s) \<and> inj_on home {..<n}
     \<and> (\<forall>i<n. home i < disksize s \<and> \<not> in_log (log_start s) (unat (log_size s)) (home i))"

lemma after_append: "after d (ws @ vs) = after (after d ws) vs"
  by (simp add: after_def)

lemma after_snoc [simp]: "after d (ws @ [(m, bs)]) = (after d ws)(m := bs)"
  by (simp add: after_def)

lemma after_Cons [simp]: "after d ((m, bs) # ws) = after (d(m := bs)) ws"
  by (simp add: after_def)

lemma after_nil [simp]: "after d [] = d"
  by (simp add: after_def)

lemma after_other: "m \<notin> fst ` set ws \<Longrightarrow> after d ws m = d m"
proof (induction ws rule: rev_induct)
  case (snoc w ws)
  then show ?case by (cases w) auto
qed simp

lemma after_map:
  assumes "inj_on f {..<n}" and "i < n"
  shows "after d (map (\<lambda>k. (f k, g k)) [0..<n]) (f i) = g i"
  using assms
proof (induction n)
  case (Suc n)
  then have "inj_on f {..<n}" by (auto simp: inj_on_def)
  moreover have "f i \<noteq> f n" if "i < n" using Suc.prems that by (auto simp: inj_on_def)
  ultimately show ?case using Suc by (cases "i = n") auto
qed simp

section \<open>The loops\<close>

lemma log_block_not_home:
  assumes "log_geometry s" and "loggable s n home" and "i < n" and "j < n"
  shows "log_block (log_start s) i \<noteq> home j"
proof -
  have "Suc i < unat (log_size s)" using assms(2,3) by (simp add: loggable_def)
  then have "in_log (log_start s) (unat (log_size s)) (log_block (log_start s) i)" by (rule log_block_props(2) [OF assms(1)])
  then show ?thesis using assms(2,4) by (auto simp: loggable_def)
qed

text \<open>The writes of \<open>write_log\<close> and of \<open>install_trans\<close>, up to index \<open>i\<close>.\<close>

definition log_writes :: "u32 \<Rightarrow> (nat \<Rightarrow> u32) \<Rightarrow> (u32 \<Rightarrow> u8 list) \<Rightarrow> nat \<Rightarrow> (u32 \<times> u8 list) list" where
  "log_writes st home c i = map (\<lambda>k. (log_block st k, c (home k))) [0..<i]"

definition home_writes :: "u32 \<Rightarrow> (nat \<Rightarrow> u32) \<Rightarrow> (u32 \<Rightarrow> u8 list) \<Rightarrow> nat \<Rightarrow> (u32 \<times> u8 list) list" where
  "home_writes st home c i = map (\<lambda>k. (home k, c (log_block st k))) [0..<i]"

lemma write_log_spec:
  assumes inv: "binv {} s" and geo: "log_geometry s" and n: "n = nat (sint (lh_n s))"
    and ok: "loggable s n (\<lambda>i. lh_block s ! i)" and dirty: "dirty_blocks s = (\<lambda>i. lh_block s ! i) ` {..<n}"
  shows "\<exists>t. write_log s = Ok () t \<and> binv {} t \<and> bframe s t \<and> dirty_blocks t = dirty_blocks s
    \<and> writes t = writes s @ log_writes (log_start s) (\<lambda>i. lh_block s ! i) (content s) n
    \<and> content t = after (content s) (log_writes (log_start s) (\<lambda>i. lh_block s ! i) (content s) n)"
proof -
  let ?home = "\<lambda>i. lh_block s ! i" and ?st = "log_start s"
  let ?W = "log_writes ?st ?home (content s)"
  let ?I = "\<lambda>i t. binv {} t \<and> bframe s t \<and> dirty_blocks t = dirty_blocks s \<and> writes t = writes s @ ?W i
    \<and> content t = after (content s) (?W i)"
  have cd: "card (dirty_blocks s) < NBUF"
    using card_image_le [of "{..<n}" ?home] ok geo
    by (simp add: dirty loggable_def log_geometry_def LOGSIZE_def NBUF_def)
  let ?body = "\<lambda>tail. bindM (getM (\<lambda>s. (log_dev s, log_start s, lh_block s ! tail))) (\<lambda>(dev, start, home).
       bindM (bread dev (start + of_nat tail + 1)) (\<lambda>to.
       bindM (bread dev home) (\<lambda>from.
       thenM (copy_buf to from) (thenM (bwrite to) (thenM (brelse from) (brelse to))))))"
  have step: "\<exists>u. ?body i t = Ok () u \<and> ?I (Suc i) u" if "i < n" and "?I i t" for i t
  proof -
    from that have t: "binv {} t" "bframe s t" "dirty_blocks t = dirty_blocks s" "writes t = writes s @ ?W i"
      "content t = after (content s) (?W i)" by blast+
    note f = bframe_kbio [OF t(2)] bframe_klog [OF t(2)]
    have a: "Suc i < unat (log_size s)" using ok that(1) by (simp add: loggable_def)
    have lim: "log_block ?st i < disksize t" "?home i < disksize t"
      using log_block_props(1) [OF geo a] ok that(1) f by (auto simp: loggable_def)
    have ne: "log_block ?st j \<noteq> ?home k" if "j < n" "k < n" for j k
      using log_block_not_home [OF geo ok that] .
    have d: "log_block ?st i \<notin> dirty_blocks t" "?home i \<in> dirty_blocks t" "card (dirty_blocks t) < NBUF"
      using ne that(1) cd unfolding t(3) by (auto simp: dirty)
    have c: "content t (?home i) = content s (?home i)"
      unfolding t(5) by (rule after_other) (use ne [THEN not_sym] that(1) in \<open>auto simp: log_writes_def\<close>)
    have "log_dev t = 1" using f geo by (simp add: log_geometry_def)
    with bc.copy_to_first [OF t(1) lim ne [OF that(1) that(1)] d(1) disjI1 [OF d(2)] d(3)]
    obtain u where "?body i t = Ok () u" "binv {} u" "bframe t u"
      "writes u = writes t @ [(log_block ?st i, content t (?home i))]"
      "content u = (content t)(log_block ?st i := content t (?home i))" "dirty_blocks u = dirty_blocks t"
      unfolding log_block_def by (auto simp: bindM_run [of "getM _"] f)
    then show ?thesis using t c bframe_trans [OF t(2)] by (intro exI [of _ u]) (simp add: log_writes_def)
  qed
  have "\<exists>t. forM [0..<n] ?body s = Ok () t \<and> ?I n t"
  proof (rule forM_upt)
    show "\<exists>u. ?body i t = Ok () u \<and> ?I (Suc i) u" if "0 \<le> i" "i < n" "?I i t" for i t
      using step [OF that(2,3)] .
  qed (simp_all add: inv log_writes_def)
  then show ?thesis by (simp add: write_log_def bindM_run [of "getM _"] lh_range_def n)
qed

lemma install_trans_spec:
  assumes inv: "binv {} s" and geo: "log_geometry s" and n: "n = nat (sint (lh_n s))"
    and ok: "loggable s n (\<lambda>i. lh_block s ! i)"
    and dirty: "dirty_blocks s = (\<lambda>i. lh_block s ! i) ` {..<n} \<or> dirty_blocks s = {}"
  shows "\<exists>t. install_trans s = Ok () t \<and> binv {} t \<and> bframe s t \<and> dirty_blocks t = {}
    \<and> writes t = writes s @ home_writes (log_start s) (\<lambda>i. lh_block s ! i) (content s) n
    \<and> content t = after (content s) (home_writes (log_start s) (\<lambda>i. lh_block s ! i) (content s) n)"
proof -
  let ?home = "\<lambda>i. lh_block s ! i" and ?st = "log_start s"
  let ?W = "home_writes ?st ?home (content s)"
  let ?I = "\<lambda>i t. binv {} t \<and> bframe s t \<and> dirty_blocks t = dirty_blocks s - ?home ` {..<i} \<and> writes t = writes s @ ?W i
    \<and> content t = after (content s) (?W i)"
  have cd: "card (dirty_blocks s) < NBUF"
    using card_image_le [of "{..<n}" ?home] ok geo dirty
    by (auto simp: loggable_def log_geometry_def LOGSIZE_def NBUF_def)
  let ?body = "\<lambda>tail. bindM (getM (\<lambda>s. (log_dev s, log_start s, lh_block s ! tail))) (\<lambda>(dev, start, home).
       bindM (bread dev (start + of_nat tail + 1)) (\<lambda>lbuf.
       bindM (bread dev home) (\<lambda>dbuf.
       thenM (copy_buf dbuf lbuf) (thenM (bwrite dbuf) (thenM (brelse lbuf) (brelse dbuf))))))"
  have step: "\<exists>u. ?body i t = Ok () u \<and> ?I (Suc i) u" if "i < n" and "?I i t" for i t
  proof -
    from that have t: "binv {} t" "bframe s t" "dirty_blocks t = dirty_blocks s - ?home ` {..<i}"
      "writes t = writes s @ ?W i" "content t = after (content s) (?W i)" by blast+
    note f = bframe_kbio [OF t(2)] bframe_klog [OF t(2)]
    have a: "Suc i < unat (log_size s)" using ok that(1) by (simp add: loggable_def)
    have lim: "log_block ?st i < disksize t" "?home i < disksize t"
      using log_block_props(1) [OF geo a] ok that(1) f by (auto simp: loggable_def)
    have ne: "log_block ?st j \<noteq> ?home k" if "j < n" "k < n" for j k
      using log_block_not_home [OF geo ok that] .
    have fin: "finite (dirty_blocks s)" by (simp add: dirty_blocks_def)
    have d1: "log_block ?st i \<notin> dirty_blocks t" using ne that(1) dirty unfolding t(3) by auto
    have inj: "?home i \<notin> ?home ` {..<i}" 
      using ok that(1) inj_on_image_mem_iff [of ?home "{..<n}" i "{..<i}"] by (auto simp: loggable_def)
    have d2: "?home i \<in> dirty_blocks t \<or> card (dirty_blocks t) + 1 < NBUF"
      using dirty inj that(1) unfolding t(3) by (auto simp: NBUF_def)
    have d3: "card (dirty_blocks t) < NBUF"
      using cd card_mono [OF fin, of "dirty_blocks t"] unfolding t(3) by auto
    have c: "content t (log_block ?st i) = content s (log_block ?st i)"
      unfolding t(5) by (rule after_other) (use ne that(1) in \<open>auto simp: home_writes_def\<close>)
    have "log_dev t = 1" using f geo by (simp add: log_geometry_def)
    with bc.copy_from_first [OF t(1) lim ne [OF that(1) that(1)] d1 d2 d3]
    obtain u where "?body i t = Ok () u" "binv {} u" "bframe t u"
      "writes u = writes t @ [(?home i, content t (log_block ?st i))]"
      "content u = (content t)(?home i := content t (log_block ?st i))" "dirty_blocks u = dirty_blocks t - {?home i}"
      unfolding log_block_def by (auto simp: bindM_run [of "getM _"] f)
    then show ?thesis using t c bframe_trans [OF t(2)]
      by (intro exI [of _ u]) (auto simp: home_writes_def lessThan_Suc)
  qed
  have "\<exists>t. forM [0..<n] ?body s = Ok () t \<and> ?I n t"
  proof (rule forM_upt)
    show "\<exists>u. ?body i t = Ok () u \<and> ?I (Suc i) u" if "0 \<le> i" "i < n" "?I i t" for i t
      using step [OF that(2,3)] .
  qed (simp_all add: inv home_writes_def)
  then obtain t where "forM [0..<n] ?body s = Ok () t" "?I n t" by blast
  moreover have "dirty_blocks t = {}" using \<open>?I n t\<close> dirty by auto
  ultimately show ?thesis by (intro exI [of _ t]) (simp add: install_trans_def bindM_run [of "getM _"] lh_range_def n)
qed

lemma write_head_spec:
  assumes inv: "binv {} s" and geo: "log_geometry s" and d: "log_start s \<notin> dirty_blocks s" "card (dirty_blocks s) < NBUF"
  shows "\<exists>t. write_head s = Ok () t \<and> binv {} t \<and> bframe s t \<and> dirty_blocks t = dirty_blocks s
    \<and> writes t = writes s @ [(log_start s, header (lh_n s) (lh_block s) (content s (log_start s)))]
    \<and> content t = (content s)(log_start s := header (lh_n s) (lh_block s) (content s (log_start s)))"
proof -
  have lim: "log_start s < disksize s" and dev: "log_dev s = 1"
    using start_props(1) [OF geo] geo by (simp_all add: log_geometry_def)
  have l: "length (header (lh_n s) (lh_block s) (content s (log_start s))) = BSIZE"
    using content_length [OF inv lim] by simp
  from bc.edit_block [OF inv lim d, of "header (lh_n s) (lh_block s)", OF l]
  obtain b u t where "bread 1 (log_start s) s = Ok b u" "bframe s u"
    "thenM (modM (upd_buf b (\<lambda>x. x\<lparr>b_data := header (lh_n s) (lh_block s) (b_data x)\<rparr>))) (thenM (bwrite b) (brelse b)) u = Ok () t"
    "binv {} t" "bframe s t" "writes t = writes s @ [(log_start s, header (lh_n s) (lh_block s) (content s (log_start s)))]"
    "content t = (content s)(log_start s := header (lh_n s) (lh_block s) (content s (log_start s)))"
    "dirty_blocks t = dirty_blocks s" by blast
  then show ?thesis using bframe_klog [of s u]
    by (intro exI [of _ t]) (simp add: write_head_def bindM_run dev header_def)
qed

lemma bio_lh [simp]:
  "binv H (s\<lparr>lh_n := n\<rparr>) = binv H s" "content (s\<lparr>lh_n := n\<rparr>) = content s" "dirty_blocks (s\<lparr>lh_n := n\<rparr>) = dirty_blocks s"
  "disk (s\<lparr>lh_n := n\<rparr>) = disk s" "log_geometry (s\<lparr>lh_n := n\<rparr>) = log_geometry s"
  "binv H (s\<lparr>lh_block := b\<rparr>) = binv H s" "content (s\<lparr>lh_block := b\<rparr>) = content s"
  "dirty_blocks (s\<lparr>lh_block := b\<rparr>) = dirty_blocks s" "disk (s\<lparr>lh_block := b\<rparr>) = disk s"
  by (auto simp: binv_def content_def fun_eq_iff dirty_blocks_def disk_def mypid_def log_geometry_def
      cong: option.case_cong)

lemma bframe_lh: "bframe s t \<Longrightarrow> bframe (s\<lparr>lh_n := n\<rparr>) (t\<lparr>lh_n := n\<rparr>)"
  by (cases s; cases t) (simp add: bframe_def)

section \<open>commit\<close>

text \<open>The state in which \<open>end_op\<close> calls \<open>commit\<close>: the header lists just the dirty blocks.\<close>

definition log_inv :: "'z klog_scheme \<Rightarrow> bool" where
  "log_inv s \<longleftrightarrow> binv {} s \<and> log_geometry s \<and> loggable s (nat (sint (lh_n s))) (\<lambda>i. lh_block s ! i)
     \<and> dirty_blocks s = (\<lambda>i. lh_block s ! i) ` {..<nat (sint (lh_n s))}"

text \<open>What \<open>commit\<close> writes: the log, the header, the home blocks, the empty header.\<close>

definition commit_writes :: "'z klog_scheme \<Rightarrow> (u32 \<times> u8 list) list" where
  "commit_writes s =
     (let n = nat (sint (lh_n s)); st = log_start s; h = header (lh_n s) (lh_block s) (content s st)
      in log_writes st (\<lambda>i. lh_block s ! i) (content s) n @ [(st, h)]
         @ map (\<lambda>k. (lh_block s ! k, content s (lh_block s ! k))) [0..<n] @ [(st, header 0 (lh_block s) h)])"

lemma after_log_writes:
  assumes "log_geometry s" and "loggable s n home"
  shows "i < n \<Longrightarrow> after d (log_writes (log_start s) home c n) (log_block (log_start s) i) = c (home i)"
    and "\<not> in_log (log_start s) (unat (log_size s)) m \<Longrightarrow> after d (log_writes (log_start s) home c n) m = d m"
    and "after d (log_writes (log_start s) home c n) (log_start s) = d (log_start s)"
proof -
  have l: "Suc k < unat (log_size s)" if "k < n" for k using that assms(2) by (simp add: loggable_def)
  have "inj_on (log_block (log_start s)) {..<n}" using log_block_inj [OF assms(1) l l] by (auto simp: inj_on_def)
  then show "i < n \<Longrightarrow> after d (log_writes (log_start s) home c n) (log_block (log_start s) i) = c (home i)"
    unfolding log_writes_def by (rule after_map)
  show "\<not> in_log (log_start s) (unat (log_size s)) m \<Longrightarrow> after d (log_writes (log_start s) home c n) m = d m"
    using log_block_props(2) [OF assms(1) l] by (intro after_other) (auto simp: log_writes_def)
  show "after d (log_writes (log_start s) home c n) (log_start s) = d (log_start s)"
    using log_block_props(3) [OF assms(1) l] by (intro after_other) (auto simp: log_writes_def dest: sym)
qed

lemma commit_spec:
  assumes "log_inv s" and pos: "0 < sint (lh_n s)"
  shows "\<exists>t. commit s = Ok () t \<and> binv {} t \<and> bframe (s\<lparr>lh_n := 0\<rparr>) t \<and> dirty_blocks t = {}
    \<and> writes t = writes s @ commit_writes s"
proof -
  define n where n: "n = nat (sint (lh_n s))"
  let ?home = "\<lambda>i. lh_block s ! i" and ?st = "log_start s"
  have inv: "binv {} s" and geo: "log_geometry s" and ok: "loggable s n ?home" and dirty: "dirty_blocks s = ?home ` {..<n}"
    using assms(1) by (simp_all add: log_inv_def n)
  from write_log_spec [OF inv geo n ok dirty] obtain s1 where 1: "write_log s = Ok () s1" "binv {} s1" "bframe s s1"
    "dirty_blocks s1 = dirty_blocks s" "writes s1 = writes s @ log_writes ?st ?home (content s) n"
    "content s1 = after (content s) (log_writes ?st ?home (content s) n)" by blast
  note f1 = bframe_kbio [OF 1(3)] bframe_klog [OF 1(3)]
  have st: "?st \<notin> dirty_blocks s" using ok start_props(2) [OF geo] by (auto simp: dirty loggable_def)
  have cd: "card (dirty_blocks s) < NBUF"
    using card_image_le [of "{..<n}" ?home] ok geo
    by (simp add: dirty loggable_def log_geometry_def LOGSIZE_def NBUF_def)
  have g1: "log_geometry s1" using log_geometry_frame [OF 1(3)] geo by simp
  let ?h = "header (lh_n s) (lh_block s) (content s ?st)"
  have "content s1 ?st = content s ?st" using after_log_writes(3) [OF geo ok] 1(6) by simp
  then obtain s2 where 2: "write_head s1 = Ok () s2" "binv {} s2" "bframe s1 s2" "dirty_blocks s2 = dirty_blocks s1"
    "writes s2 = writes s1 @ [(?st, ?h)]" "content s2 = (content s1)(?st := ?h)"
    using write_head_spec [OF 1(2) g1] st cd 1(4) f1 by auto
  note fr2 = bframe_trans [OF 1(3) 2(3)]
  note f2 = bframe_kbio [OF fr2] bframe_klog [OF fr2]
  have g2: "log_geometry s2" using log_geometry_frame [OF fr2] geo by simp
  have ok2: "loggable s2 n (\<lambda>i. lh_block s2 ! i)" using ok f2 by (simp add: loggable_def)
  from install_trans_spec [OF 2(2) g2 _ ok2] obtain s3 where 3: "install_trans s2 = Ok () s3" "binv {} s3" "bframe s2 s3"
    "dirty_blocks s3 = {}" "writes s3 = writes s2 @ home_writes ?st ?home (content s2) n"
    "content s3 = after (content s2) (home_writes ?st ?home (content s2) n)"
    using dirty 1(4) 2(4) f2 n by auto
  have "content s2 (log_block ?st k) = content s (?home k)" if "k < n" for k
  proof -
    have "log_block ?st k \<noteq> ?st" using log_block_props(3) [OF geo] ok that by (simp add: loggable_def)
    then show ?thesis using after_log_writes(1) [OF geo ok that] 2(6) 1(6) by simp
  qed
  then have hw: "home_writes ?st ?home (content s2) n = map (\<lambda>k. (?home k, content s (?home k))) [0..<n]"
    by (auto simp: home_writes_def)
  note fr3 = bframe_trans [OF fr2 3(3)]
  let ?u = "s3\<lparr>lh_n := 0\<rparr>"
  have frU: "bframe (s\<lparr>lh_n := 0\<rparr>) ?u" using bframe_lh [OF fr3] .
  have c3: "content s3 ?st = ?h"
  proof -
    have "?st \<notin> fst ` set (home_writes ?st ?home (content s2) n)"
      using ok start_props(2) [OF geo] by (auto simp: home_writes_def loggable_def)
    then show ?thesis using 3(6) 2(6) by (simp add: after_other)
  qed
  obtain t where 4: "write_head ?u = Ok () t" "binv {} t" "bframe ?u t" "dirty_blocks t = {}"
    "writes t = writes s3 @ [(?st, header 0 (lh_block s) ?h)]"
    using write_head_spec [of ?u] 3 log_geometry_frame [OF fr3] geo bframe_klog [OF fr3] c3 by (auto simp: NBUF_def)
  have "commit s = Ok () t"
    using pos 1(1) 2(1) 3(1) 4(1) by (simp add: commit_def bindM_run thenM_run)
  moreover have "writes t = writes s @ commit_writes s"
    using 1(5) 2(5) 3(5) 4(5) hw by (simp add: commit_writes_def n Let_def)
  ultimately show ?thesis using 4 bframe_trans [OF frU 4(3)] by blast
qed

section \<open>Recovery\<close>

text \<open>What a recovery from the disk \<open>d\<close> writes.\<close>

definition recover_writes :: "(u32 \<Rightarrow> u8 list) \<Rightarrow> u32 \<Rightarrow> (u32 \<times> u8 list) list" where
  "recover_writes d st = home_writes st (hdr_block d st) d (hdr_n d st) @ [(st, header 0 [] (d st))]"

text \<open>A system that comes up: nothing cached needs writing, and the header on disk is readable.\<close>

definition boot_ok :: "'z klog_scheme \<Rightarrow> bool" where
  "boot_ok s \<longleftrightarrow> binv {} s \<and> log_geometry s \<and> dirty_blocks s = {}
     \<and> loggable s (hdr_n (disk s) (log_start s)) (hdr_block (disk s) (log_start s))"

lemma header_0: "header 0 bl bs = header 0 bl' bs"
  by (simp add: header_def)

lemma set_lh_blocks:
  assumes "n \<le> LOGSIZE" and "length (lh_block s) = LOGSIZE"
  shows "\<exists>bl. forM [0..<n] (\<lambda>i. set_lh_block i (f i)) s = Ok () (s\<lparr>lh_block := bl\<rparr>)
    \<and> length bl = LOGSIZE \<and> (\<forall>i<n. bl ! i = f i)"
proof -
  let ?I = "\<lambda>i t. \<exists>bl. t = s\<lparr>lh_block := bl\<rparr> \<and> length bl = LOGSIZE \<and> (\<forall>k<i. bl ! k = f k)"
  have "\<exists>t. forM [0..<n] (\<lambda>i. set_lh_block i (f i)) s = Ok () t \<and> ?I n t"
  proof (rule forM_upt)
    fix i t assume i: "0 \<le> i" "i < n" "?I i t"
    then obtain bl where "t = s\<lparr>lh_block := bl\<rparr>" "length bl = LOGSIZE" "\<forall>k<i. bl ! k = f k" by blast
    then show "\<exists>u. set_lh_block i (f i) t = Ok () u \<and> ?I (Suc i) u"
      using i(2) assms(1) by (auto simp: set_lh_block_def nth_list_update less_Suc_eq intro!: exI [of _ "bl[i := f i]"])
  qed (use assms in \<open>auto intro: exI [of _ "lh_block s"]\<close>)
  then show ?thesis by blast
qed

lemma bframe_lh2: "bframe s t \<Longrightarrow> bframe (s\<lparr>lh_n := n, lh_block := b\<rparr>) (t\<lparr>lh_n := n, lh_block := b\<rparr>)"
  by (cases s; cases t) (simp add: bframe_def)

lemma read_head_spec:
  assumes inv: "binv {} s" and geo: "log_geometry s" and clean: "dirty_blocks s = {}"
    and n: "hdr_n (disk s) (log_start s) \<le> LOGSIZE"
  shows "\<exists>bl t. read_head s = Ok () t \<and> binv {} t \<and> dirty_blocks t = {} \<and> content t = content s \<and> writes t = writes s
    \<and> bframe (s\<lparr>lh_n := get32 (disk s (log_start s)) 0, lh_block := bl\<rparr>) t \<and> length bl = LOGSIZE
    \<and> (\<forall>i<hdr_n (disk s) (log_start s). bl ! i = hdr_block (disk s) (log_start s) i)"
proof -
  let ?st = "log_start s"
  have lim: "?st < disksize s" and dev: "log_dev s = 1" using start_props(1) [OF geo] geo by (simp_all add: log_geometry_def)
  have c: "content s ?st = disk s ?st" using content_clean [OF inv] clean by simp
  obtain b u where u: "bread 1 ?st s = Ok b u" "binv {b} u" "bframe s u" "writes u = writes s" "content u = content s"
    "dirty_blocks u = {}" "b_blockno (bufs u ! b) = ?st"
    using bread_spec [OF inv lim] clean by (auto simp: NBUF_def)
  have d: "b_data (bufs u ! b) = disk s ?st" using content_held [OF u(2), of b] u(5,7) c by simp
  let ?h = "disk s ?st"
  let ?v = "u\<lparr>lh_n := get32 ?h 0\<rparr>"
  have "length (lh_block ?v) = LOGSIZE" using bframe_klog [OF u(3)] geo by (simp add: log_geometry_def)
  with n obtain bl where bl: "forM [0..<hdr_n (disk s) ?st] (\<lambda>i. set_lh_block i (hdr_block (disk s) ?st i)) ?v = Ok () (?v\<lparr>lh_block := bl\<rparr>)"
    "length bl = LOGSIZE" "\<forall>i<hdr_n (disk s) ?st. bl ! i = hdr_block (disk s) ?st i"
    using set_lh_blocks by blast
  let ?w = "?v\<lparr>lh_block := bl\<rparr>"
  have "disk u = disk s" using disk_after [OF u(3), of "[]"] u(4) by simp
  then have cl: "b_dirty (bufs ?w ! b) \<or> b_data (bufs ?w ! b) = disk ?w (b_blockno (bufs ?w ! b))"
    using d u(7) by simp
  have "binv {b} ?w" using u(2) by simp
  from brelse_spec [OF this _ cl] obtain t where t: "brelse b ?w = Ok () t" "binv {} t" "bframe ?w t" "writes t = writes s"
    "content t = content s" "dirty_blocks t = {}"
    using u by auto
  have "read_head s = Ok () t"
    using u(1) bl(1) t(1) dev d
    by (simp add: read_head_def bindM_run thenM_run lh_range_def hdr_n_def hdr_block_def)
  moreover have "bframe (s\<lparr>lh_n := get32 ?h 0, lh_block := bl\<rparr>) t"
    using bframe_trans [OF bframe_lh2 [OF u(3), where n = "get32 ?h 0" and b = bl] t(3)] .
  ultimately show ?thesis using t bl by blast
qed

lemma recover_spec:
  assumes "boot_ok s"
  shows "\<exists>t. recover_from_log s = Ok () t \<and> binv {} t \<and> dirty_blocks t = {}
    \<and> bframe (s\<lparr>lh_n := 0, lh_block := lh_block t\<rparr>) t \<and> length (lh_block t) = LOGSIZE
    \<and> writes t = writes s @ recover_writes (disk s) (log_start s)"
proof -
  let ?st = "log_start s" and ?d = "disk s"
  define n where n: "n = hdr_n ?d ?st"
  have inv: "binv {} s" and geo: "log_geometry s" and clean: "dirty_blocks s = {}" and ok: "loggable s n (hdr_block ?d ?st)"
    using assms by (simp_all add: boot_ok_def n)
  have le: "n \<le> LOGSIZE" using ok geo by (simp add: loggable_def log_geometry_def)
  have cs: "content s = ?d" using content_clean [OF inv] clean by (auto simp: fun_eq_iff)
  obtain bl s1 where 1: "read_head s = Ok () s1" "binv {} s1" "dirty_blocks s1 = {}" "content s1 = ?d" "writes s1 = writes s"
    "bframe (s\<lparr>lh_n := get32 (?d ?st) 0, lh_block := bl\<rparr>) s1" "length bl = LOGSIZE" "\<forall>i<n. bl ! i = hdr_block ?d ?st i"
    using read_head_spec [OF inv geo clean le [unfolded n]] cs n by auto
  note f1 = bframe_kbio [OF 1(6)] bframe_klog [OF 1(6)]
  have g1: "log_geometry s1" using log_geometry_frame [OF 1(6)] geo 1(7) by (simp add: log_geometry_def)
  have n1: "n = nat (sint (lh_n s1))" using f1 by (simp add: n hdr_n_def)
  have ok1: "loggable s1 n (\<lambda>i. lh_block s1 ! i)"
    using ok f1 1(8) by (auto simp: loggable_def inj_on_def)
  have hw: "home_writes ?st (\<lambda>i. lh_block s1 ! i) ?d n = home_writes ?st (hdr_block ?d ?st) ?d n"
    using f1 1(8) by (auto simp: home_writes_def)
  obtain s2 where 2: "install_trans s1 = Ok () s2" "binv {} s2" "bframe s1 s2" "dirty_blocks s2 = {}"
    "writes s2 = writes s @ home_writes ?st (hdr_block ?d ?st) ?d n"
    "content s2 = after ?d (home_writes ?st (hdr_block ?d ?st) ?d n)"
    using install_trans_spec [OF 1(2) g1 n1 ok1] 1(3,4,5) f1 hw by auto
  let ?u = "s2\<lparr>lh_n := 0\<rparr>"
  note fr2 = bframe_trans [OF 1(6) 2(3)]
  have "?st \<notin> fst ` set (home_writes ?st (hdr_block ?d ?st) ?d n)"
    using ok start_props(2) [OF geo] by (auto simp: home_writes_def loggable_def)
  then have c2: "content s2 ?st = ?d ?st" using 2(6) by (simp add: after_other)
  have gu: "log_geometry ?u" using log_geometry_frame [OF 2(3)] g1 by simp
  obtain t where 3: "write_head ?u = Ok () t" "binv {} t" "bframe ?u t" "dirty_blocks t = {}"
    "writes t = writes s2 @ [(?st, header 0 (lh_block s2) (?d ?st))]"
    using write_head_spec [OF _ gu] 2 bframe_klog [OF fr2] c2 by (auto simp: NBUF_def)
  have fr3: "bframe (s\<lparr>lh_n := 0, lh_block := bl\<rparr>) t"
    using bframe_trans [OF bframe_lh [OF fr2, of 0] 3(3)] by (cases s) simp
  have "lh_block t = bl" using bframe_klog(5) [OF fr3] by simp
  moreover have "recover_from_log s = Ok () t"
    using 1(1) 2(1) 3(1) by (simp add: recover_from_log_def thenM_run)
  moreover have "writes t = writes s @ recover_writes ?d ?st"
    using 2(5) 3(5) header_0 [of "lh_block s2" "?d ?st" "[]"] by (simp add: recover_writes_def n)
  ultimately show ?thesis using 3 fr3 1(7) by blast
qed

section \<open>Crashes\<close>

text \<open>The disk that a recovery leaves behind.\<close>

definition redo :: "(u32 \<Rightarrow> u8 list) \<Rightarrow> u32 \<Rightarrow> u32 \<Rightarrow> u8 list" where
  "redo d st = after d (recover_writes d st)"

abbreviation off_log :: "'z klog_scheme \<Rightarrow> u32 \<Rightarrow> bool" where
  "off_log s m \<equiv> \<not> in_log (log_start s) (unat (log_size s)) m"

text \<open>The disk is the one that \<open>s\<close> had, with some more writes; everything in memory is new.\<close>

definition rebooted :: "'z klog_scheme \<Rightarrow> (u32 \<times> u8 list) list \<Rightarrow> 'y klog_scheme \<Rightarrow> bool" where
  "rebooted s ws r \<longleftrightarrow> binv {} r \<and> log_geometry r \<and> dirty_blocks r = {} \<and> log_start r = log_start s
     \<and> log_size r = log_size s \<and> disksize r = disksize s \<and> disk r = after (disk s) ws"

lemma redo_empty:
  assumes "hdr_n d st = 0" and "m \<noteq> st"
  shows "redo d st m = d m"
  using assms by (simp add: redo_def recover_writes_def home_writes_def after_def)

lemma hdr_redo:
  assumes "4 \<le> length (d st)"
  shows "hdr_n (redo d st) st = 0"
  using header_n [OF assms, of 0 "[]"]
  by (simp add: hdr_n_def redo_def recover_writes_def after_append after_def)

lemma redo_home:
  assumes n: "hdr_n d st = n" and h: "\<And>i. i < n \<Longrightarrow> hdr_block d st i = home i"
    and inj: "inj_on home {..<n}" and st: "\<And>i. i < n \<Longrightarrow> home i \<noteq> st" and m: "m \<noteq> st"
  shows "redo d st m = (if m \<in> home ` {..<n} then d (log_block st (inv_into {..<n} home m)) else d m)"
proof -
  have w: "recover_writes d st = map (\<lambda>k. (home k, d (log_block st k))) [0..<n] @ [(st, header 0 [] (d st))]"
    using n h by (auto simp: recover_writes_def home_writes_def)
  show ?thesis
  proof (cases "m \<in> home ` {..<n}")
    case True
    then obtain i where i: "i < n" "m = home i" by auto
    then show ?thesis using after_map [OF inj i(1)] inv_into_f_f [OF inj, of i] m
      by (simp add: redo_def w)
  next
    case False
    then have "after d (map (\<lambda>k. (home k, d (log_block st k))) [0..<n]) m = d m" by (intro after_other) auto
    then show ?thesis using False m by (simp add: redo_def w)
  qed
qed

lemma off_log_start: "log_geometry s \<Longrightarrow> off_log s m \<Longrightarrow> m \<noteq> log_start s"
  using start_props(2) by auto

lemma loggable_prefix: "loggable s n home \<Longrightarrow> k \<le> n \<Longrightarrow> loggable s k home"
  by (auto simp: loggable_def inj_on_def)

lemma crash_early:
  assumes geo: "log_geometry s" and ok: "loggable s n home" and k: "k \<le> n" and empty: "get32 (d (log_start s)) 0 = 0"
    and d': "d' = after d (log_writes (log_start s) home c k)"
  shows "hdr_n d' (log_start s) = 0" and "off_log s m \<Longrightarrow> redo d' (log_start s) m = d m"
proof -
  note a = after_log_writes [OF geo loggable_prefix [OF ok k]]
  show z: "hdr_n d' (log_start s) = 0" using a(3) empty by (simp add: hdr_n_def d')
  show "off_log s m \<Longrightarrow> redo d' (log_start s) m = d m"
    using redo_empty [OF z] a(2) off_log_start [OF geo] d' by simp
qed

text \<open>The disk after the log, the header and the first \<open>j\<close> home blocks have been written.\<close>

definition mid_writes :: "u32 \<Rightarrow> (nat \<Rightarrow> u32) \<Rightarrow> (u32 \<Rightarrow> u8 list) \<Rightarrow> nat \<Rightarrow> u8 list \<Rightarrow> nat \<Rightarrow> (u32 \<times> u8 list) list" where
  "mid_writes st home c n h j = log_writes st home c n @ [(st, h)] @ map (\<lambda>k. (home k, c (home k))) [0..<j]"

lemma after_mid_writes:
  assumes geo: "log_geometry s" and ok: "loggable s n home" and j: "j \<le> n"
    and d': "d' = after d (mid_writes (log_start s) home c n h j)"
  shows "d' (log_start s) = h" and "i < n \<Longrightarrow> d' (log_block (log_start s) i) = c (home i)"
    and "off_log s m \<Longrightarrow> d' m = (if m \<in> home ` {..<j} then c m else d m)"
proof -
  let ?st = "log_start s"
  let ?e = "(after d (log_writes ?st home c n))(?st := h)"
  have d': "d' = after ?e (map (\<lambda>k. (home k, c (home k))) [0..<j])"
    by (simp add: d' mid_writes_def after_append)
  have off: "off_log s (home i)" if "i < n" for i using that ok by (simp add: loggable_def)
  have in_l: "\<not> off_log s (log_block ?st i)" if "i < n" for i
    using that ok log_block_props(2) [OF geo] by (simp add: loggable_def)
  note a = after_log_writes [OF geo ok]
  have other: "d' x = ?e x" if "x \<notin> home ` {..<j}" for x
    unfolding d' by (rule after_other) (use that in auto)
  show "d' ?st = h" using other [of ?st] off j start_props(2) [OF geo] by fastforce
  show "d' (log_block ?st i) = c (home i)" if "i < n"
  proof -
    have "log_block ?st i \<notin> home ` {..<j}" using off in_l [OF that] j by (auto simp: less_le_trans)
    moreover have "log_block ?st i \<noteq> ?st" using log_block_props(3) [OF geo] ok that by (simp add: loggable_def)
    ultimately show ?thesis using other a(1) [OF that] by simp
  qed
  show "d' m = (if m \<in> home ` {..<j} then c m else d m)" if m: "off_log s m"
  proof (cases "m \<in> home ` {..<j}")
    case True
    then obtain i where i: "i < j" "m = home i" by auto
    have "inj_on home {..<j}" using ok j by (auto simp: loggable_def inj_on_def)
    then show ?thesis using True i after_map [of home j i ?e "\<lambda>k. c (home k)"] by (simp add: d')
  next
    case False
    then show ?thesis using other [OF False] a(2) [OF m] off_log_start [OF geo m] by simp
  qed
qed

lemma crash_middle:
  assumes geo: "log_geometry s" and ok: "loggable s n home" and j: "j \<le> n"
    and d': "d' = after d (mid_writes (log_start s) home c n h j)"
    and h: "nat (sint (get32 h 0)) = n" "\<And>i. i < n \<Longrightarrow> get32 h (4 + 4 * i) = home i"
    and clean: "\<And>m. m \<notin> home ` {..<n} \<Longrightarrow> d m = c m"
  shows "hdr_n d' (log_start s) = n" and "i < n \<Longrightarrow> hdr_block d' (log_start s) i = home i"
    and "off_log s m \<Longrightarrow> redo d' (log_start s) m = c m"
proof -
  let ?st = "log_start s"
  note a = after_mid_writes [OF geo ok j d']
  show n: "hdr_n d' ?st = n" using a(1) h(1) by (simp add: hdr_n_def)
  show b: "hdr_block d' ?st i = home i" if "i < n" for i using a(1) h(2) [OF that] by (simp add: hdr_block_def)
  have st: "home i \<noteq> ?st" if "i < n" for i
    using that ok off_log_start [OF geo] by (simp add: loggable_def)
  show "redo d' ?st m = c m" if m: "off_log s m"
  proof -
    have inj: "inj_on home {..<n}" using ok by (simp add: loggable_def)
    have r: "redo d' ?st m = (if m \<in> home ` {..<n} then d' (log_block ?st (inv_into {..<n} home m)) else d' m)"
      by (rule redo_home [OF n b inj st off_log_start [OF geo m]])
    show ?thesis
    proof (cases "m \<in> home ` {..<n}")
      case True
      then obtain i where i: "i < n" "m = home i" by auto
      then show ?thesis using r a(2) [OF i(1)] inv_into_f_f [OF inj, of i] by simp
    next
      case False
      then have "m \<notin> home ` {..<j}" using j by auto
      then show ?thesis using r a(3) [OF m] clean [OF False] False by simp
    qed
  qed
qed

lemma commit_writes_mid:
  "commit_writes s = mid_writes (log_start s) (\<lambda>i. lh_block s ! i) (content s) (nat (sint (lh_n s)))
       (header (lh_n s) (lh_block s) (content s (log_start s))) (nat (sint (lh_n s)))
     @ [(log_start s, header 0 (lh_block s) (header (lh_n s) (lh_block s) (content s (log_start s))))]"
  by (simp add: commit_writes_def mid_writes_def Let_def)

lemma take_mid_writes:
  assumes "j \<le> n"
  shows "k \<le> n \<Longrightarrow> take k (mid_writes st home c n h n @ ws) = log_writes st home c k"
    and "take (n + 1 + j) (mid_writes st home c n h n @ ws) = mid_writes st home c n h j"
  using assms by (simp_all add: mid_writes_def log_writes_def take_map)

text \<open>The disk at any moment of a commit, and what a recovery makes of it.\<close>

lemma crash_commit:
  assumes li: "log_inv s" and pos: "0 < sint (lh_n s)" and empty: "get32 (disk s (log_start s)) 0 = 0"
    and d': "d' = after (disk s) (take k (commit_writes s))"
  shows "loggable s (hdr_n d' (log_start s)) (hdr_block d' (log_start s))"
    and "off_log s m \<Longrightarrow> redo d' (log_start s) m = (if k \<le> nat (sint (lh_n s)) then disk s m else content s m)"
proof -
  define n where n: "n = nat (sint (lh_n s))"
  let ?home = "\<lambda>i. lh_block s ! i" and ?st = "log_start s" and ?c = "content s"
  let ?h = "header (lh_n s) (lh_block s) (?c ?st)"
  have inv: "binv {} s" and geo: "log_geometry s" and ok: "loggable s n ?home" and dirty: "dirty_blocks s = ?home ` {..<n}"
    using li by (simp_all add: log_inv_def n)
  have n30: "n < LOGSIZE" using ok geo by (simp add: loggable_def log_geometry_def)
  have len: "length (?c ?st) = 512" using content_length [OF inv start_props(1) [OF geo]] by (simp add: BSIZE_def)
  have lb: "length (lh_block s) = LOGSIZE" using geo by (simp add: log_geometry_def)
  have h: "nat (sint (get32 ?h 0)) = n" "\<And>i. i < n \<Longrightarrow> get32 ?h (4 + 4 * i) = ?home i"
    using header_n [of "?c ?st"] header_block [of _ "lh_n s" "lh_block s" "?c ?st"] len n30 lb
    by (simp_all add: n LOGSIZE_def)
  have clean: "disk s m = ?c m" if "m \<notin> ?home ` {..<n}" for m
    using content_clean [OF inv, of m] that by (simp add: dirty)
  have w: "commit_writes s = mid_writes ?st ?home ?c n ?h n @ [(?st, header 0 (lh_block s) ?h)]"
    unfolding n by (rule commit_writes_mid)
  have zero: "loggable s 0 f" for f using geo by (simp add: loggable_def log_geometry_def)
  have "k \<le> n \<or> (\<exists>j. j \<le> n \<and> k = n + 1 + j) \<or> 2 * n + 2 \<le> k" by presburger
  then consider (early) "k \<le> n" | (mid) j where "j \<le> n" "k = n + 1 + j" | (fin) "2 * n + 2 \<le> k" by blast
  then have "loggable s (hdr_n d' ?st) (hdr_block d' ?st)
    \<and> (off_log s m \<longrightarrow> redo d' ?st m = (if k \<le> n then disk s m else ?c m))"
  proof cases
    case early
    then have "d' = after (disk s) (log_writes ?st ?home ?c k)"
      using d' take_mid_writes(1) [of n n] by (simp add: w)
    from crash_early [OF geo ok early empty this] show ?thesis using early zero by simp
  next
    case (mid j)
    then have "d' = after (disk s) (mid_writes ?st ?home ?c n ?h j)"
      using d' take_mid_writes(2) [OF mid(1)] by (simp add: w)
    note c = crash_middle [OF geo ok mid(1) this h clean]
    have "loggable s n (hdr_block d' ?st)" using ok c(2) by (auto simp: loggable_def inj_on_def)
    then show ?thesis using c(1,3) mid by simp
  next
    case fin
    then have "take k (commit_writes s) = commit_writes s" by (simp add: w mid_writes_def log_writes_def)
    then have e: "d' = (after (disk s) (mid_writes ?st ?home ?c n ?h n))(?st := header 0 (lh_block s) ?h)"
      using d' by (simp add: w)
    then have z: "hdr_n d' ?st = 0" using header_n [of ?h 0 "lh_block s"] len by (simp add: hdr_n_def)
    have "redo d' ?st m = ?c m" if m: "off_log s m"
      using redo_empty [OF z off_log_start [OF geo m]] after_mid_writes(3) [OF geo ok order_refl refl m] clean [of m]
        off_log_start [OF geo m] by (simp add: e)
    then show ?thesis using z zero fin by simp
  qed
  then show "loggable s (hdr_n d' ?st) (hdr_block d' ?st)"
    and "off_log s m \<Longrightarrow> redo d' ?st m = (if k \<le> nat (sint (lh_n s)) then disk s m else ?c m)"
    by (simp_all add: n)
qed

text \<open>The disk after a whole commit.\<close>

lemma commit_home:
  assumes li: "log_inv s" and pos: "0 < sint (lh_n s)" and fr: "bframe (s\<lparr>lh_n := 0\<rparr>) t"
    and w: "writes t = writes s @ commit_writes s" and m: "off_log s m"
  shows "disk t m = content s m"
proof -
  have inv: "binv {} s" and geo: "log_geometry s" and ok: "loggable s (nat (sint (lh_n s))) (\<lambda>i. lh_block s ! i)"
    and dirty: "dirty_blocks s = (\<lambda>i. lh_block s ! i) ` {..<nat (sint (lh_n s))}"
    using li by (simp_all add: log_inv_def)
  have "disk t = after (disk s) (commit_writes s)" using disk_after [OF fr] w by simp
  then have "disk t m = (if m \<in> dirty_blocks s then content s m else disk s m)"
    using after_mid_writes(3) [OF geo ok order_refl refl m] off_log_start [OF geo m] dirty
    by (simp add: commit_writes_mid)
  then show ?thesis using content_clean [OF inv, of m] by (simp split: if_splits)
qed

text \<open>
  C5: A transaction is atomic. With the log in the state in which \<open>end_op\<close> commits, \<open>commit\<close>
  returns, having sent to the disk the logged copies, the header, the home blocks and the empty header,
  and every block outside the log area then has the contents the file system gave it. If the machine stops after
  any number \<open>k\<close> of these writes and comes up again, \<open>recover_from_log\<close> returns, leaves an
  empty header, and outside the log area the disk is what it was before the transaction if the header had not been
  written, and otherwise holds all of the transaction.
\<close>
theorem commit_atomic:
  assumes "log_inv s" and "0 < sint (lh_n s)" and "get32 (disk s (log_start s)) 0 = 0"
  shows "\<exists>t. commit s = Ok () t \<and> lh_n t = 0 \<and> dirty_blocks t = {} \<and> writes t = writes s @ commit_writes s
    \<and> (\<forall>m. off_log s m \<longrightarrow> disk t m = content s m)
    \<and> (\<forall>k (r :: klog). rebooted s (take k (commit_writes s)) r \<longrightarrow>
        (\<exists>u. recover_from_log r = Ok () u \<and> hdr_n (disk u) (log_start s) = 0
          \<and> (\<forall>m. off_log s m \<longrightarrow> disk u m = (if k \<le> nat (sint (lh_n s)) then disk s m else content s m))))"
proof -
  have inv: "binv {} s" and geo: "log_geometry s" using assms(1) by (simp_all add: log_inv_def)
  from commit_spec [OF assms(1,2)] obtain t where t: "commit s = Ok () t" "binv {} t" "bframe (s\<lparr>lh_n := 0\<rparr>) t"
    "dirty_blocks t = {}" "writes t = writes s @ commit_writes s" by blast
  have n0: "lh_n t = 0" using bframe_klog [OF t(3)] by simp
  let ?n = "nat (sint (lh_n s))"
  note cr = crash_commit [OF assms]
  have home: "disk t m = content s m" if "off_log s m" for m
    using commit_home [OF assms(1,2) t(3,5) that] .
  have "\<exists>u. recover_from_log r = Ok () u \<and> hdr_n (disk u) (log_start s) = 0
          \<and> (\<forall>m. off_log s m \<longrightarrow> disk u m = (if k \<le> ?n then disk s m else content s m))"
    if r: "rebooted s (take k (commit_writes s)) r" for k and r :: klog
  proof -
    have rb: "binv {} r" "log_geometry r" "dirty_blocks r = {}" "log_start r = log_start s" "log_size r = log_size s"
      "disksize r = disksize s" "disk r = after (disk s) (take k (commit_writes s))" using r by (simp_all add: rebooted_def)
    have "boot_ok r" using rb cr(1) [OF rb(7)] by (simp add: boot_ok_def loggable_def)
    from recover_spec [OF this] obtain u where u: "recover_from_log r = Ok () u"
      "bframe (r\<lparr>lh_n := 0, lh_block := lh_block u\<rparr>) u" "writes u = writes r @ recover_writes (disk r) (log_start s)"
      using rb(4) by auto
    have du: "disk u = redo (disk r) (log_start s)" using disk_after [OF u(2)] u(3) by (simp add: redo_def)
    have "4 \<le> length (disk r (log_start s))"
      using rb(1) start_props(1) [OF geo] rb(6) by (simp add: binv_def BSIZE_def)
    then show ?thesis using u(1) du hdr_redo cr(2) [OF rb(7)] by auto
  qed
  then show ?thesis using t n0 home by blast
qed

lemma crash_recovery:
  assumes geo: "log_geometry s" and ok: "loggable s (hdr_n d (log_start s)) (hdr_block d (log_start s))"
    and d': "d' = after d (take k (recover_writes d (log_start s)))" and h: "hdr_n (redo d (log_start s)) (log_start s) = 0"
  shows "loggable s (hdr_n d' (log_start s)) (hdr_block d' (log_start s))
    \<and> (\<forall>m. off_log s m \<longrightarrow> redo d' (log_start s) m = redo d (log_start s) m)"
proof (cases "k \<le> hdr_n d (log_start s)")
  case False
  then have e: "d' = redo d (log_start s)" by (simp add: d' redo_def recover_writes_def home_writes_def)
  moreover have "loggable s 0 f" for f using geo by (simp add: loggable_def log_geometry_def)
  ultimately show ?thesis using h redo_empty [OF h] off_log_start [OF geo] by simp
next
  case True
  let ?st = "log_start s" and ?n = "hdr_n d (log_start s)" and ?home = "hdr_block d (log_start s)"
  have e: "d' = after d (home_writes ?st ?home d k)"
    using True by (simp add: d' recover_writes_def home_writes_def take_map)
  have off: "off_log s (?home i)" if "i < ?n" for i using ok that by (simp add: loggable_def)
  have keep: "d' x = d x" if "x \<notin> ?home ` {..<k}" for x
    unfolding e by (rule after_other) (use that in \<open>auto simp: home_writes_def\<close>)
  have hs: "?home i \<noteq> ?st" if "i < ?n" for i using off_log_start [OF geo off [OF that]] .
  have st: "d' ?st = d ?st" using hs [THEN not_sym] True by (intro keep) auto
  have n: "hdr_n d' ?st = ?n" and b: "hdr_block d' ?st i = ?home i" for i
    using st by (simp_all add: hdr_n_def hdr_block_def)
  have lb: "d' (log_block ?st i) = d (log_block ?st i)" if "i < ?n" for i
    using off True log_block_props(2) [OF geo, of i] ok that by (intro keep) (fastforce simp: loggable_def)
  have inj: "inj_on ?home {..<?n}" using ok by (simp add: loggable_def)
  have "redo d' ?st m = redo d ?st m" if m: "off_log s m" for m
  proof -
    note r = redo_home [OF n b inj hs off_log_start [OF geo m]] redo_home [OF refl refl inj hs off_log_start [OF geo m]]
    show ?thesis
    proof (cases "m \<in> ?home ` {..<?n}")
      case True
      then have "inv_into {..<?n} ?home m < ?n" using inv_into_into [OF True] by simp
      then show ?thesis using r True lb by simp
    next
      case False
      then have "d' m = d m" using \<open>k \<le> ?n\<close> by (intro keep) auto
      then show ?thesis using r False by simp
    qed
  qed
  then show ?thesis using n b ok by (simp add: loggable_def inj_on_def)
qed

text \<open>A system with one buffer to be written, for block 40.\<close>

definition demo_buf :: buf where
  "demo_buf = \<lparr>b_valid = False, b_dirty = False, b_dev = 0, b_blockno = 0,
     b_lock = \<lparr>sl_locked = False, sl_pid = 0\<rparr>, b_refcnt = 0, b_data = []\<rparr>"

definition demo_bitmap :: "u8 list" where
  "demo_bitmap = replicate 7 0xFF @ 7 # replicate 504 0"

definition demo_klog :: "'z \<Rightarrow> 'z klog_scheme" where
  "demo_klog z = \<lparr>k_held = {}, k_mem = \<lambda>_. 0, k_freelist = 0, k_use_lock = True, k_end = 0, k_data = 0,
      k_out = [], k_locking = False, k_kpgdir = 0, k_cr3 = 0,
      procs = [proc0], initproc = None, nextpid = 1, ticks = 0, cpuproc = Some 0,
      k_trapret = 0, k_forkret = 0, ts_ss0 = 0, ts_esp0 = 0, ts_iomb = 0,
      bufs = demo_buf\<lparr>b_valid := True, b_dirty := True, b_dev := 1, b_blockno := 40, b_data := replicate BSIZE 7\<rparr>
        # replicate 29 demo_buf,
      lru = rev [0..<NBUF], disk0 = (\<lambda>m. if m = 58 then demo_bitmap else replicate BSIZE 0), writes = [], disksize = 1000,
      log_start = 2, log_size = 30, log_outstanding = 1, log_committing = False, log_dev = 1,
      lh_n = 1, lh_block = 40 # replicate 29 0, \<dots> = z\<rparr>"

lemma demo_klog_fields [simp]:
  "lh_n (demo_klog z) = 1" "log_start (demo_klog z) = 2" "log_size (demo_klog z) = 30" "writes (demo_klog z) = []"
  "disksize (demo_klog z) = 1000" "lh_block (demo_klog z) = 40 # replicate 29 0" "log_dev (demo_klog z) = 1"
  "disk (demo_klog z) = (\<lambda>m. if m = 58 then demo_bitmap else replicate BSIZE 0)" "k_held (demo_klog z) = {}"
  "log_outstanding (demo_klog z) = 1" "\<not> log_committing (demo_klog z)" "klog.more (demo_klog z) = z"
  "cpuproc (demo_klog z) = Some 0" "procs (demo_klog z) = [proc0]" "lru (demo_klog z) = rev [0..<NBUF]"
  by (simp_all add: demo_klog_def disk_def)

lemma demo_klog_length: "length (bufs (demo_klog z)) = NBUF"
  by (simp add: demo_klog_def NBUF_def)

lemma demo_klog_bufs:
  "b < NBUF \<Longrightarrow> bufs (demo_klog z) ! b = (if b = 0 then demo_buf\<lparr>b_valid := True, b_dirty := True, b_dev := 1,
     b_blockno := 40, b_data := replicate BSIZE 7\<rparr> else demo_buf)"
  by (cases b) (simp_all add: demo_klog_def NBUF_def)

lemma demo_klog_binv: "binv {} (demo_klog z)"
proof -
  let ?s = "demo_klog z"
  have "buf_ok (disk ?s) (mypid ?s) 1000 (b \<in> {}) (bufs ?s ! b)" if "b < NBUF" for b
    by (simp add: demo_klog_bufs [OF that] buf_ok_def demo_buf_def)
  moreover have "uniq_bufs (bufs ?s)"
    unfolding uniq_bufs_def demo_klog_length
  proof (intro allI impI, elim conjE)
    fix b c assume "b < NBUF" "c < NBUF" "b_dev (bufs ?s ! b) = 1" "b_dev (bufs ?s ! c) = 1"
    then show "b = c" by (simp add: demo_klog_bufs demo_buf_def split: if_splits)
  qed
  ultimately show ?thesis by (auto simp: binv_def demo_klog_length demo_bitmap_def BSIZE_def)
qed

lemma demo_klog_dirty: "dirty_blocks (demo_klog z) = {40}"
proof -
  have "m \<in> dirty_blocks (demo_klog z) \<longleftrightarrow> m = 40" for m
    using demo_klog_bufs [of 0 z]
    by (auto simp: dirty_blocks_nth demo_klog_length demo_klog_bufs demo_buf_def NBUF_def split: if_splits
        intro!: exI [of _ 0])
  then show ?thesis by auto
qed

lemma demo_klog_inv: "log_inv (demo_klog z)"
  using demo_klog_binv [of z] demo_klog_dirty [of z]
  by (simp add: log_inv_def log_geometry_def loggable_def in_log_def LOGSIZE_def word_less_nat_alt lessThan_Suc)

lemma demo_klog_content:
  "content (demo_klog z) m = (if m = 40 then replicate BSIZE 7 else if m = 58 then demo_bitmap else replicate BSIZE 0)"
proof (cases "m = 40")
  case True
  then show ?thesis
    using content_cached [OF binvD(8) [OF demo_klog_binv [of z]], of 0 40] demo_klog_bufs [of 0 z]
    by (simp add: demo_klog_length NBUF_def)
next
  case False
  then show ?thesis using content_clean [OF demo_klog_binv [of z], of m] by (simp add: demo_klog_dirty)
qed

theorem commit_atomic_witness:
  "\<exists>t. commit (demo_klog ()) = Ok () t \<and> disk t 40 = replicate BSIZE 7"
proof -
  have "off_log (demo_klog ()) 40" by (simp add: in_log_def)
  moreover have "get32 (disk (demo_klog ()) (log_start (demo_klog ()))) 0 = 0" by (simp add: get32_def BSIZE_def le32_def)
  ultimately show ?thesis using commit_atomic [OF demo_klog_inv [of "()"]] demo_klog_content [of "()" 40] by auto
qed

text \<open>
  C6: Recovery may itself be interrupted. From a disk with a readable header \<open>recover_from_log\<close>
  returns; if the machine stops after any number of its writes and recovers again, the second recovery
  returns and the disk outside the log area is what the first would have left.
\<close>
theorem recovery_restartable:
  assumes "boot_ok s"
  shows "\<exists>t. recover_from_log s = Ok () t \<and> hdr_n (disk t) (log_start s) = 0
    \<and> (\<forall>k (r :: klog). rebooted s (take k (recover_writes (disk s) (log_start s))) r \<longrightarrow>
        (\<exists>u. recover_from_log r = Ok () u \<and> (\<forall>m. off_log s m \<longrightarrow> disk u m = disk t m)))"
proof -
  let ?st = "log_start s" and ?d = "disk s"
  define n where n: "n = hdr_n ?d ?st"
  have inv: "binv {} s" and geo: "log_geometry s" and ok: "loggable s n (hdr_block ?d ?st)"
    using assms by (simp_all add: boot_ok_def n)
  from recover_spec [OF assms] obtain t where t: "recover_from_log s = Ok () t"
    "bframe (s\<lparr>lh_n := 0, lh_block := lh_block t\<rparr>) t" "writes t = writes s @ recover_writes ?d ?st" by blast
  have dt: "disk t = redo ?d ?st" using disk_after [OF t(2)] t(3) by (simp add: redo_def)
  have "4 \<le> length (?d ?st)" using inv start_props(1) [OF geo] by (simp add: binv_def BSIZE_def)
  then have h0: "hdr_n (disk t) ?st = 0" using hdr_redo dt by simp
  have "\<exists>u. recover_from_log r = Ok () u \<and> (\<forall>m. off_log s m \<longrightarrow> disk u m = disk t m)"
    if "rebooted s (take k (recover_writes ?d ?st)) r" for k and r :: klog
  proof -
    have rb: "binv {} r" "log_geometry r" "dirty_blocks r = {}" "log_start r = ?st" "log_size r = log_size s"
      "disksize r = disksize s" "disk r = after ?d (take k (recover_writes ?d ?st))"
      using that by (simp_all add: rebooted_def)
    have c: "loggable s (hdr_n (disk r) ?st) (hdr_block (disk r) ?st) \<and> (\<forall>m. off_log s m \<longrightarrow> redo (disk r) ?st m = disk t m)"
      using crash_recovery [OF geo ok [unfolded n] rb(7)] dt h0 redo_empty off_log_start [OF geo] by metis
    then have "boot_ok r" using rb by (simp add: boot_ok_def loggable_def)
    from recover_spec [OF this] obtain u where u: "recover_from_log r = Ok () u"
      "bframe (r\<lparr>lh_n := 0, lh_block := lh_block u\<rparr>) u" "writes u = writes r @ recover_writes (disk r) ?st"
      using rb(4) by auto
    have "disk u = redo (disk r) ?st" using disk_after [OF u(2)] u(3) by (simp add: redo_def)
    then show ?thesis using u(1) c by auto
  qed
  then show ?thesis using t(1) h0 by blast
qed

text \<open>A system that comes up with block 40 in its log.\<close>

definition demo_boot :: klog where
  "demo_boot = (demo_klog ())\<lparr>bufs := replicate NBUF demo_buf, lh_n := 0,
     disk0 := (\<lambda>m. if m = 2 then header 1 [40] (replicate BSIZE 0) else replicate BSIZE (ucast m))\<rparr>"

lemma demo_boot_disk: "disk demo_boot = (\<lambda>m. if m = 2 then header 1 [40] (replicate BSIZE 0) else replicate BSIZE (ucast m))"
  by (simp add: demo_boot_def demo_klog_def disk_def)

lemma demo_boot_ok: "boot_ok demo_boot"
proof -
  have "buf_ok (disk demo_boot) (mypid demo_boot) 1000 False demo_buf"
    by (simp add: buf_ok_def demo_buf_def)
  moreover have "uniq_bufs (replicate NBUF demo_buf)" by (simp add: uniq_bufs_def demo_buf_def)
  moreover have f: "cpuproc demo_boot = Some 0" "procs demo_boot = [proc0]" "lru demo_boot = rev [0..<NBUF]" "k_held demo_boot = {}"
      "bufs demo_boot = replicate NBUF demo_buf" "disksize demo_boot = 1000" "log_start demo_boot = 2" "log_size demo_boot = 30"
      "log_dev demo_boot = 1" "lh_block demo_boot = 40 # replicate 29 0"
    by (simp_all add: demo_boot_def demo_klog_def)
  ultimately have "binv {} demo_boot" by (auto simp: binv_def demo_boot_disk)
  moreover have "hdr_n (disk demo_boot) 2 = 1" using header_n [of "replicate BSIZE 0" 1 "[40]"]
    by (simp add: hdr_n_def demo_boot_disk BSIZE_def)
  moreover have "hdr_block (disk demo_boot) 2 0 = 40" using header_block [of 0 1 "[40]" "replicate BSIZE 0"]
    by (simp add: hdr_block_def demo_boot_disk BSIZE_def)
  ultimately show ?thesis using f
    by (simp add: boot_ok_def log_geometry_def loggable_def in_log_def LOGSIZE_def word_less_nat_alt lessThan_Suc
        dirty_blocks_def demo_buf_def)
qed

theorem recovery_restartable_witness:
  "\<exists>t. recover_from_log demo_boot = Ok () t \<and> hdr_n (disk t) (log_start demo_boot) = 0"
  using recovery_restartable [OF demo_boot_ok] by blast

end
