(* ===== verification/Transaction.thy ===== *)
theory Transaction
  imports Log_Spec Inode
begin

text \<open>
  Updates under the log. \<open>log_write\<close> enters a block in the header once and pins its buffer; an update
  of a block (\<open>bread\<close>, change, \<open>log_write\<close>, \<open>brelse\<close>) changes what the file system sees and not the
  disk; the last \<open>end_op\<close> makes the disk agree. The operations of \<open>fs.c\<close> that have this form are
  instances of one lemma.
\<close>

section \<open>The log between begin and end\<close>

abbreviation lh_len :: "'z klog_scheme \<Rightarrow> nat" where
  "lh_len s \<equiv> nat (sint (lh_n s))"

text \<open>The invariant of a running transaction that holds the buffers \<open>H\<close>.\<close>

definition tinv :: "nat set \<Rightarrow> 'z klog_scheme \<Rightarrow> bool" where
  "tinv H s \<longleftrightarrow> binv H s \<and> log_geometry s \<and> loggable s (lh_len s) (\<lambda>i. lh_block s ! i) \<and> 0 \<le> sint (lh_n s)
     \<and> dirty_blocks s = (\<lambda>i. lh_block s ! i) ` {..<lh_len s} \<and> L_log \<notin> k_held s"

lemma tinvD:
  assumes "tinv H s"
  shows "binv H s" "log_geometry s" "loggable s (lh_len s) (\<lambda>i. lh_block s ! i)" "0 \<le> sint (lh_n s)"
    "dirty_blocks s = (\<lambda>i. lh_block s ! i) ` {..<lh_len s}" "L_log \<notin> k_held s"
  using assms by (simp_all add: tinv_def)

lemma tinv_log_inv: "tinv {} s \<Longrightarrow> log_inv s"
  by (simp add: tinv_def log_inv_def)

text \<open>Everything but the buffers, the processes' states and the header is as it was.\<close>

definition tframe :: "'z klog_scheme \<Rightarrow> 'z klog_scheme \<Rightarrow> bool" where
  "tframe s t \<longleftrightarrow> bframe (s\<lparr>lh_n := lh_n t, lh_block := lh_block t\<rparr>) t"

lemma tframe_refl [simp]: "tframe s s"
  by (cases s) (simp add: tframe_def bframe_def)

lemma bframe_tframe: "bframe s t \<Longrightarrow> tframe s t"
  by (cases s; cases t) (simp add: tframe_def bframe_def)

lemma tframe_trans: "tframe s t \<Longrightarrow> tframe t u \<Longrightarrow> tframe s u"
  by (cases s; cases t; cases u) (simp add: tframe_def bframe_def)

lemma tframe_fields:
  assumes "tframe s t"
  shows "log_start t = log_start s" "log_size t = log_size s" "disksize t = disksize s" "log_dev t = log_dev s"
    "log_outstanding t = log_outstanding s" "log_committing t = log_committing s" "k_held t = k_held s"
    "klog.more t = klog.more s"
  using assms by (cases s; cases t; simp add: tframe_def bframe_def)+

lemma tframe_disk: "tframe s t \<Longrightarrow> writes t = writes s \<Longrightarrow> disk t = disk s"
  by (cases s; cases t) (simp add: tframe_def bframe_def disk_def)

section \<open>\<open>log_write\<close>\<close>

lemma lh_index_le: "lh_index vs b \<le> length vs"
  by (induction vs) simp_all

lemma lh_index_hit: "lh_index vs b < length vs \<longleftrightarrow> b \<in> set vs"
  by (induction vs) auto

lemma lh_index_nth: "lh_index vs b < length vs \<Longrightarrow> vs ! lh_index vs b = b"
  by (induction vs) auto

lemma sint_small:
  assumes "unat (x :: u32) \<le> 2147483647"
  shows "sint x = int (unat x)"
proof -
  have u: "uint x = int (unat x)" by (rule uint_nat)
  have "int (unat x) < 2147483648" using assms by linarith
  then have "uint x < 2 ^ 31" unfolding u by (simp only: power_numeral) simp
  then have "sint x = uint x" by (simp only: sint_u32_uint if_True)
  from this u show ?thesis by (rule trans)
qed

lemma sint_add_1:
  assumes "0 \<le> sint (x :: u32)" and "sint x < 1000"
  shows "sint (x + 1) = sint x + 1"
  using assms by (intro sint_Suc_u32) simp_all

definition logged :: "u32 \<Rightarrow> 'z klog_scheme \<Rightarrow> 'z klog_scheme" where
  "logged m s = (let i = lh_index (take (lh_len s) (lh_block s)) m in
     s\<lparr>lh_block := (lh_block s)[i := m], lh_n := (if i = lh_len s then lh_n s + 1 else lh_n s)\<rparr>)"

lemma logged_props:
  assumes geo: "log_geometry s" and ok: "loggable s (lh_len s) (\<lambda>i. lh_block s ! i)" and n0: "0 \<le> sint (lh_n s)"
    and room: "Suc (lh_len s) < unat (log_size s)" and m: "m < disksize s" "off_log s m"
  shows "log_geometry (logged m s)" and "loggable (logged m s) (lh_len (logged m s)) (\<lambda>i. lh_block (logged m s) ! i)"
    and "0 \<le> sint (lh_n (logged m s))"
    and "(\<lambda>i. lh_block (logged m s) ! i) ` {..<lh_len (logged m s)} = insert m ((\<lambda>i. lh_block s ! i) ` {..<lh_len s})"
    and "lh_len (logged m s) = (if m \<in> (\<lambda>i. lh_block s ! i) ` {..<lh_len s} then lh_len s else Suc (lh_len s))"
proof -
  define n where n: "n = lh_len s"
  define vs where vs: "vs = take n (lh_block s)"
  have size: "unat (log_size s) \<le> 30" and len: "length (lh_block s) = 30"
    using geo by (simp_all add: log_geometry_def LOGSIZE_def)
  have n28: "n < 29" using room size n by simp
  have lv: "length vs = n" using len n28 by (simp add: vs)
  have sv: "set vs = (\<lambda>i. lh_block s ! i) ` {..<n}"
    using nth_image [of n "lh_block s"] len n28 by (simp add: lessThan_atLeast0 vs)
  have "sint (lh_n s + 1) = sint (lh_n s) + 1" using n28 n n0 by (intro sint_add_1) simp_all
  then have n1: "nat (sint (lh_n s + 1)) = Suc n" "0 \<le> sint (lh_n s + 1)" using n0 n by simp_all
  show "log_geometry (logged m s)" using geo by (simp add: log_geometry_def logged_def Let_def)
  have f: "disksize (logged m s) = disksize s" "log_start (logged m s) = log_start s" "log_size (logged m s) = log_size s"
    by (simp_all add: logged_def Let_def)
  have "lh_len (logged m s) = (if m \<in> set vs then n else Suc n) \<and> 0 \<le> sint (lh_n (logged m s))
    \<and> loggable (logged m s) (lh_len (logged m s)) (\<lambda>i. lh_block (logged m s) ! i)
    \<and> (\<lambda>i. lh_block (logged m s) ! i) ` {..<lh_len (logged m s)} = insert m (set vs)"
  proof (cases "m \<in> set vs")
    case True
    then have i: "lh_index vs m < n" using lh_index_hit [of vs m] lv by simp
    then have "vs ! lh_index vs m = m" using lh_index_nth [of vs m] lv by simp
    then have "lh_block s ! lh_index vs m = m" using i by (simp add: vs)
    then have "(lh_block s)[lh_index vs m := m] = lh_block s" using list_update_id by metis
    then have "logged m s = s" using i by (simp add: logged_def n [symmetric] vs [symmetric])
    then show ?thesis using True ok n0 sv by (simp add: n insert_absorb)
  next
    case False
    then have i: "lh_index vs m = n" using lh_index_hit [of vs m] lh_index_le [of vs m] lv by simp
    have l: "logged m s = s\<lparr>lh_block := (lh_block s)[n := m], lh_n := lh_n s + 1\<rparr>"
      using i by (simp add: logged_def n [symmetric] vs [symmetric])
    have img: "(\<lambda>k. (lh_block s)[n := m] ! k) ` {..<Suc n} = insert m (set vs)"
      using n28 len sv by (auto simp: lessThan_Suc)
    have "inj_on (\<lambda>k. (lh_block s)[n := m] ! k) {..<Suc n}"
      using ok False n28 len sv by (auto simp: loggable_def inj_on_def nth_list_update less_Suc_eq n)
    then have "loggable (logged m s) (Suc n) (\<lambda>k. (lh_block s)[n := m] ! k)"
      using ok room m n28 len f by (auto simp: loggable_def nth_list_update less_Suc_eq n)
    then show ?thesis using False l n1 img by simp
  qed
  then show "loggable (logged m s) (lh_len (logged m s)) (\<lambda>i. lh_block (logged m s) ! i)"
    and "0 \<le> sint (lh_n (logged m s))"
    and "(\<lambda>i. lh_block (logged m s) ! i) ` {..<lh_len (logged m s)} = insert m ((\<lambda>i. lh_block s ! i) ` {..<lh_len s})"
    and "lh_len (logged m s) = (if m \<in> (\<lambda>i. lh_block s ! i) ` {..<lh_len s} then lh_len s else Suc (lh_len s))"
    unfolding n [symmetric] sv [symmetric] by blast+
qed

lemma log_write_spec:
  assumes inv: "tinv H s" and b: "b \<in> H" and room: "Suc (lh_len s) < unat (log_size s)"
    and off: "off_log s (b_blockno (bufs s ! b))" and out: "1 \<le> sint (log_outstanding s)"
  shows "\<exists>t. log_write b s = Ok () t \<and> tinv H t \<and> tframe s t \<and> writes t = writes s \<and> content t = content s
    \<and> b_dirty (bufs t ! b) \<and> (\<forall>c. b_blockno (bufs t ! c) = b_blockno (bufs s ! c))
    \<and> lh_len t = (if b_blockno (bufs s ! b) \<in> dirty_blocks s then lh_len s else Suc (lh_len s))
    \<and> dirty_blocks t = insert (b_blockno (bufs s ! b)) (dirty_blocks s)"
proof -
  note I = tinvD [OF inv]
  let ?m = "b_blockno (bufs s ! b)" and ?x = "(bufs s ! b)\<lparr>b_dirty := True\<rparr>"
  note h = binv_held [OF I(1) b] and L = binvD(4) [OF I(1)]
  note lp = logged_props [OF I(2,3,4) room h(7) off]
  let ?u = "s\<lparr>bufs := (bufs s)[b := ?x]\<rparr>"
  note u = binv_upd_held [OF I(1) b, of ?x, OF _ _ _ _ _ _ refl]
  have cu: "content ?u = content s" using u(2) h content_held [OF I(1) b] by (simp add: fun_upd_idem)
  let ?t = "(logged ?m s)\<lparr>bufs := (bufs s)[b := ?x]\<rparr>"
  have size: "unat (log_size s) \<le> 30" using I(2) by (simp add: log_geometry_def LOGSIZE_def)
  have "unat (log_size s - 1) = unat (log_size s) - 1" using room by (intro unat_minus_one) auto
  then have s1: "sint (log_size s - 1) = int (unat (log_size s)) - 1" using sint_small [of "log_size s - 1"] size room by simp
  have "sint (lh_n s) < int LOGSIZE" "sint (lh_n s) < sint (log_size s - 1)"
  proof -
    have "int (lh_len s) = sint (lh_n s)" "int LOGSIZE = 30" using I(4) by (simp_all add: LOGSIZE_def)
    then show "sint (lh_n s) < int LOGSIZE" "sint (lh_n s) < sint (log_size s - 1)" using room size s1 by linarith+
  qed
  moreover have idx: "lh_index (take (lh_len s) (lh_block s)) ?m < LOGSIZE"
    using lh_index_le [of "take (lh_len s) (lh_block s)" ?m] room size I(2) by (simp add: log_geometry_def LOGSIZE_def)
  moreover have "int i = sint (lh_n s) \<longleftrightarrow> i = lh_len s" for i using I(4) by auto
  ultimately have r: "log_write b s = Ok () ?t"
    using out I(6)
    by (simp add: log_write_def monad_simps acquire_def release_def set_lh_block_def upd_buf_def logged_def Let_def)
  have eq: "?t = ?u\<lparr>lh_block := lh_block (logged ?m s), lh_n := lh_n (logged ?m s)\<rparr>"
    by (simp add: logged_def Let_def)
  have d: "dirty_blocks ?t = insert ?m (dirty_blocks s)" using u(3) h unfolding eq by simp
  have bt: "b_blockno (bufs ?t ! c) = b_blockno (bufs s ! c)" for c using h(1) L by (cases "c = b") simp_all
  have "binv H ?t" using u(1) h unfolding eq by simp
  moreover have "content ?t = content s" using cu unfolding eq by simp
  moreover have "loggable ?t (lh_len ?t) (\<lambda>i. lh_block ?t ! i)" using lp(2) by (simp add: loggable_def)
  moreover have "log_geometry ?t" using lp(1) by (simp add: log_geometry_def)
  moreover have "dirty_blocks ?t = (\<lambda>i. lh_block ?t ! i) ` {..<lh_len ?t}" using d lp(4) I(5) by simp
  moreover have "L_log \<notin> k_held ?t" using I(6) by (simp add: logged_def Let_def)
  ultimately have "tinv H ?t" using lp(3) by (simp add: tinv_def)
  moreover have "tframe s ?t" by (simp add: tframe_def bframe_def logged_def Let_def)
  moreover have "lh_len ?t = (if ?m \<in> dirty_blocks s then lh_len s else Suc (lh_len s))" using lp(5) I(5) by simp
  ultimately show ?thesis using r d bt \<open>content ?t = content s\<close> h(1) L
    by (intro exI [of _ ?t]) (simp add: logged_def Let_def)
qed

section \<open>Updating a block\<close>

lemma tinv_card:
  assumes "tinv H s" and "card H \<le> 1" and "Suc (lh_len s) < unat (log_size s) \<or> H = {}"
  shows "card H + card (dirty_blocks s) < NBUF"
proof -
  note I = tinvD [OF assms(1)]
  have "card (dirty_blocks s) \<le> lh_len s"
    using card_image_le [of "{..<lh_len s}" "\<lambda>i. lh_block s ! i"] by (simp add: I(5))
  moreover have "unat (log_size s) \<le> 30" "lh_len s < unat (log_size s)" using I(2,3) by (simp_all add: log_geometry_def LOGSIZE_def loggable_def)
  ultimately show ?thesis using assms(2,3) by (auto simp: NBUF_def)
qed

text \<open>The buffers held, and their blocks, are as before.\<close>

definition same_held :: "nat set \<Rightarrow> 'z klog_scheme \<Rightarrow> 'z klog_scheme \<Rightarrow> bool" where
  "same_held H s t \<longleftrightarrow> (\<forall>c\<in>H. b_blockno (bufs t ! c) = b_blockno (bufs s ! c))"

definition unheld :: "nat set \<Rightarrow> 'z klog_scheme \<Rightarrow> u32 \<Rightarrow> bool" where
  "unheld H s m \<longleftrightarrow> (\<forall>c\<in>H. b_blockno (bufs s ! c) \<noteq> m)"

lemma same_held_simps [simp]: "same_held {} s t" "unheld {} s m" "same_held H s s"
  by (simp_all add: same_held_def unheld_def)

lemma unheldD: "unheld H s m \<Longrightarrow> c \<in> H \<Longrightarrow> b_blockno (bufs s ! c) \<noteq> m"
  by (simp add: unheld_def)

lemma same_held_trans: "same_held H s t \<Longrightarrow> same_held H t u \<Longrightarrow> same_held H s u"
  by (simp add: same_held_def)

lemma unheld_same: "same_held H s t \<Longrightarrow> unheld H t m \<longleftrightarrow> unheld H s m"
  by (simp add: same_held_def unheld_def)

text \<open>\<open>bread\<close>, a change of the bytes, \<open>log_write\<close>, \<open>brelse\<close>, with at most one other buffer held.\<close>

lemma update_block_held:
  assumes inv: "tinv H s" and H: "card H \<le> 1" "unheld H s m" and m: "m < disksize s" "off_log s m" and room: "Suc (lh_len s) < unat (log_size s)"
    and out: "1 \<le> sint (log_outstanding s)" and f: "length (f (content s m)) = BSIZE"
  shows "\<exists>b u t. bread 1 m s = Ok b u \<and> b \<notin> H \<and> tframe s u \<and> b_data (bufs u ! b) = content s m
    \<and> thenM (modM (upd_buf b (\<lambda>x. x\<lparr>b_data := f (b_data x)\<rparr>))) (thenM (log_write b) (brelse b)) u = Ok () t
    \<and> tinv H t \<and> tframe s t \<and> writes t = writes s \<and> content t = (content s)(m := f (content s m)) \<and> same_held H s t
    \<and> lh_len t = (if m \<in> dirty_blocks s then lh_len s else Suc (lh_len s)) \<and> dirty_blocks t = insert m (dirty_blocks s)"
proof -
  note I = tinvD [OF inv]
  have cd: "card H + card (dirty_blocks s) < NBUF" using tinv_card [OF inv H(1)] room by blast
  obtain b s1 where 1: "bread 1 m s = Ok b s1" "b \<notin> H" "binv (insert b H) s1" "bframe s s1" "writes s1 = writes s" "content s1 = content s"
      "dirty_blocks s1 = dirty_blocks s" "b_blockno (bufs s1 ! b) = m" "\<forall>c\<in>H. b_blockno (bufs s1 ! c) = b_blockno (bufs s ! c)"
    using bread_spec [OF I(1) m(1) unheldD [OF H(2)] disjI2 [OF cd]] by blast
  have dat: "b_data (bufs s1 ! b) = content s m" using content_held [OF 1(3), of b] 1(6,8) by simp
  obtain s2 where 2: "modM (upd_buf b (\<lambda>x. x\<lparr>b_data := f (b_data x)\<rparr>)) s1 = Ok () s2" "binv (insert b H) s2" "bframe s1 s2"
      "writes s2 = writes s1" "content s2 = (content s1)(m := f (content s m))" "dirty_blocks s2 = dirty_blocks s1"
      "\<forall>c. b_blockno (bufs s2 ! c) = b_blockno (bufs s1 ! c)"
    using edit_spec [OF 1(3), of b f] f dat 1(8) by auto
  have fr: "bframe s s2" using bframe_trans [OF 1(4) 2(3)] .
  note F = bframe_kbio [OF fr] bframe_klog [OF fr]
  have t2: "tinv (insert b H) s2"
    using 2(2) I F 1(7) 2(6) log_geometry_frame [OF fr] by (simp add: tinv_def loggable_def)
  obtain s3 where 3: "log_write b s2 = Ok () s3" "tinv (insert b H) s3" "tframe s2 s3" "writes s3 = writes s2" "content s3 = content s2"
      "b_dirty (bufs s3 ! b)" "dirty_blocks s3 = insert m (dirty_blocks s2)" "\<forall>c. b_blockno (bufs s3 ! c) = b_blockno (bufs s2 ! c)"
      "lh_len s3 = (if m \<in> dirty_blocks s2 then lh_len s2 else Suc (lh_len s2))"
    using log_write_spec [OF t2, of b] room m(2) out F 2(7) 1(8) by auto
  obtain t where 4: "brelse b s3 = Ok () t" "binv (insert b H - {b}) t" "bframe s3 t" "writes t = writes s3" "content t = content s3"
      "dirty_blocks t = dirty_blocks s3" "\<forall>c. c \<noteq> b \<longrightarrow> bufs t ! c = bufs s3 ! c"
    using brelse_spec [OF tinvD(1) [OF 3(2)], of b] 3(6) by auto
  have hd: "insert b H - {b} = H" using 1(2) by auto
  note G = bframe_kbio [OF 4(3)] bframe_klog [OF 4(3)]
  have "tinv H t"
    using 4(2)[unfolded hd] tinvD [OF 3(2)] G 4(6) log_geometry_frame [OF 4(3)] by (simp add: tinv_def loggable_def)
  moreover have "tframe s t"
    using tframe_trans [OF bframe_tframe [OF fr] tframe_trans [OF 3(3) bframe_tframe [OF 4(3)]]] .
  moreover have "thenM (modM (upd_buf b (\<lambda>x. x\<lparr>b_data := f (b_data x)\<rparr>))) (thenM (log_write b) (brelse b)) s1 = Ok () t"
    using 2(1) 3(1) 4(1) by (simp add: thenM_run)
  moreover have "tframe s s1" using bframe_tframe [OF 1(4)] .
  moreover have "lh_len t = (if m \<in> dirty_blocks s then lh_len s else Suc (lh_len s))"
    using 3(9) G(9) F(9) 2(6) 1(7) by simp
  moreover have "same_held H s t" using 1(2,9) 2(7) 3(8) 4(7) unfolding same_held_def by metis
  ultimately show ?thesis using 1(1,2) dat 1(6,7) 2(4-6) 3(4,5,7) 4(4-6) 1(5)
    by (intro exI [of _ b] exI [of _ s1] exI [of _ t]) (simp del: modM_run)
qed

lemma update_block:
  assumes inv: "tinv {} s" and m: "m < disksize s" "off_log s m" and room: "Suc (lh_len s) < unat (log_size s)"
    and out: "1 \<le> sint (log_outstanding s)" and f: "length (f (content s m)) = BSIZE"
  shows "\<exists>b u t. bread 1 m s = Ok b u \<and> tframe s u \<and> b_data (bufs u ! b) = content s m
    \<and> thenM (modM (upd_buf b (\<lambda>x. x\<lparr>b_data := f (b_data x)\<rparr>))) (thenM (log_write b) (brelse b)) u = Ok () t
    \<and> tinv {} t \<and> tframe s t \<and> writes t = writes s \<and> content t = (content s)(m := f (content s m))
    \<and> lh_len t = (if m \<in> dirty_blocks s then lh_len s else Suc (lh_len s)) \<and> dirty_blocks t = insert m (dirty_blocks s)"
  using update_block_held [where f = f and H = "{}", OF inv _ _ m room out f] by simp

text \<open>Reading a block and giving the buffer back changes nothing.\<close>

lemma read_block_held:
  assumes inv: "tinv H s" and H: "card H \<le> 1" "unheld H s m" "Suc (lh_len s) < unat (log_size s) \<or> H = {}" and m: "m < disksize s"
  shows "\<exists>b u t. bread 1 m s = Ok b u \<and> tframe s u \<and> b_data (bufs u ! b) = content s m
    \<and> brelse b u = Ok () t \<and> tinv H t \<and> tframe s t \<and> writes t = writes s \<and> content t = content s \<and> same_held H s t
    \<and> dirty_blocks t = dirty_blocks s \<and> lh_len t = lh_len s"
proof -
  note I = tinvD [OF inv]
  have cd: "card H + card (dirty_blocks s) < NBUF" using tinv_card [OF inv H(1,3)] .
  obtain b s1 where 1: "bread 1 m s = Ok b s1" "b \<notin> H" "binv (insert b H) s1" "bframe s s1" "writes s1 = writes s" "content s1 = content s"
      "dirty_blocks s1 = dirty_blocks s" "b_blockno (bufs s1 ! b) = m" "\<forall>c\<in>H. b_blockno (bufs s1 ! c) = b_blockno (bufs s ! c)"
    using bread_spec [OF I(1) m unheldD [OF H(2)] disjI2 [OF cd]] by blast
  have dat: "b_data (bufs s1 ! b) = content s m" using content_held [OF 1(3), of b] 1(6,8) by simp
  have "disk s1 = disk s" using disk_after [OF 1(4), of "[]"] 1(5) by simp
  then have "b_dirty (bufs s1 ! b) \<or> b_data (bufs s1 ! b) = disk s1 (b_blockno (bufs s1 ! b))"
    using dat content_clean [OF I(1), of m] dirty_held [OF 1(3), of b] 1(7,8) H(2) by (auto simp: unheld_def)
  from brelse_spec [OF 1(3) _ this] obtain t where 2: "brelse b s1 = Ok () t" "binv (insert b H - {b}) t" "bframe s1 t" "writes t = writes s"
      "content t = content s" "dirty_blocks t = dirty_blocks s" "\<forall>c. c \<noteq> b \<longrightarrow> bufs t ! c = bufs s1 ! c"
    using 1(5-7) by auto
  have hd: "insert b H - {b} = H" using 1(2) by auto
  have fr: "bframe s t" using bframe_trans [OF 1(4) 2(3)] .
  note G = bframe_kbio [OF fr] bframe_klog [OF fr]
  have "tinv H t"
    using 2(2)[unfolded hd] I G 2(6) log_geometry_frame [OF fr] by (simp add: tinv_def loggable_def)
  moreover have "same_held H s t" using 1(2,9) 2(7) unfolding same_held_def by metis
  ultimately show ?thesis using 1(1,4) dat 2(1,4-6) fr G(9)
    by (rule_tac x = b in exI, rule_tac x = s1 in exI, rule_tac x = t in exI) (simp add: bframe_tframe)
qed

lemma read_block:
  assumes inv: "tinv {} s" and m: "m < disksize s"
  shows "\<exists>b u t. bread 1 m s = Ok b u \<and> tframe s u \<and> b_data (bufs u ! b) = content s m
    \<and> brelse b u = Ok () t \<and> tinv {} t \<and> tframe s t \<and> writes t = writes s \<and> content t = content s
    \<and> dirty_blocks t = dirty_blocks s \<and> lh_len t = lh_len s"
  using read_block_held [OF inv _ _ _ m] by simp

lemma tframe_kfs:
  assumes "tframe s t"
  shows "sb t = sb s" "icache t = icache s"
  using assms by (cases s; cases t; simp add: tframe_def bframe_def)+

lemma bzero_held:
  assumes "tinv H s" and "card H \<le> 1" "unheld H s m" and "m < disksize s" "off_log s m" and "Suc (lh_len s) < unat (log_size s)"
    and "1 \<le> sint (log_outstanding s)"
  shows "\<exists>t. bzero 1 m s = Ok () t \<and> tinv H t \<and> tframe s t \<and> writes t = writes s \<and> same_held H s t
    \<and> content t = (content s)(m := replicate BSIZE 0)
    \<and> lh_len t = (if m \<in> dirty_blocks s then lh_len s else Suc (lh_len s)) \<and> dirty_blocks t = insert m (dirty_blocks s)"
  using update_block_held [OF assms, of "\<lambda>_. replicate BSIZE 0"] by (auto simp: bzero_def bindM_run simp del: modM_run)

lemma iupdate_spec:
  assumes "tinv {} s" and i: "icache s ! ip = i" "i_dev i = 1" and m: "m = IBLOCK (i_inum i) (sb s)"
    and "m < disksize s" "off_log s m" and "Suc (lh_len s) < unat (log_size s)" and "1 \<le> sint (log_outstanding s)"
    and len: "length (put_dinode (unat (i_inum i mod IPB)) i (content s m)) = BSIZE"
  shows "\<exists>t. iupdate ip s = Ok () t \<and> tinv {} t \<and> tframe s t \<and> writes t = writes s
    \<and> content t = (content s)(m := put_dinode (unat (i_inum i mod IPB)) i (content s m))
    \<and> lh_len t = (if m \<in> dirty_blocks s then lh_len s else Suc (lh_len s)) \<and> dirty_blocks t = insert m (dirty_blocks s)"
  using update_block [OF assms(1,5,6,7,8), of "put_dinode (unat (i_inum i mod IPB)) i"] len
  by (auto simp: iupdate_def inodeM_def bindM_run i m simp del: modM_run)

section \<open>The free map\<close>

lemma bit_free_bit: "bit_free bs bi \<longleftrightarrow> \<not> bit (bs ! (bi div 8)) (bi mod 8)"
  by (simp add: bit_free_def bit_mask_def bit_iff_and_push_bit_not_eq_0)

lemma bit_mask_bit: "bit (bit_mask bi) k \<longleftrightarrow> k = bi mod 8"
  by (auto simp: bit_mask_def bit_simps possible_bit_def)

lemma length_bit_take [simp]: "length (bit_take bi bs) = length bs"
  by (simp add: bit_take_def)

lemma length_bit_clear [simp]: "length (bit_clear bi bs) = length bs"
  by (simp add: bit_clear_def)

lemma same_bit: "bi div 8 = bj div 8 \<Longrightarrow> bi mod 8 = bj mod 8 \<longleftrightarrow> bi = (bj :: nat)"
  by (metis div_mult_mod_eq)

lemma bit_free_take:
  assumes "bi div 8 < length bs"
  shows "bit_free (bit_take bi bs) bj \<longleftrightarrow> bj \<noteq> bi \<and> bit_free bs bj"
  using assms by (cases "bj div 8 = bi div 8")
    (auto simp: bit_free_bit bit_take_def bit_or_iff bit_mask_bit same_bit)

lemma bit_free_clear:
  assumes "bi div 8 < length bs"
  shows "bit_free (bit_clear bi bs) bj \<longleftrightarrow> bj = bi \<or> bit_free bs bj"
  using assms by (cases "bj div 8 = bi div 8")
    (auto simp: bit_free_bit bit_clear_def bit_and_iff bit_not_iff bit_mask_bit same_bit possible_bit_def)

lemma BBLOCK_of_nat:
  assumes "b < 2 ^ 32"
  shows "BBLOCK (of_nat b) sp = of_nat (b div BPB) + sb_bmapstart sp"
proof -
  have "unat (of_nat b div of_nat BPB :: u32) = b div BPB" "b div BPB < 2 ^ 32"
    using assms by (simp_all add: unat_div unat_of_nat BPB_def less_imp_diff_less div_less_dividend le_less_trans [OF div_le_dividend])
  then have "(of_nat b div of_nat BPB :: u32) = of_nat (b div BPB)"
    by (simp add: word_unat_eq_iff unat_of_nat)
  then show ?thesis by (simp add: BBLOCK_def)
qed

text \<open>Block \<open>b\<close> is free in the map that the file system sees.\<close>

definition block_free :: "'z kfs_scheme \<Rightarrow> nat \<Rightarrow> bool" where
  "block_free s b \<longleftrightarrow> bit_free (content s (BBLOCK (of_nat b) (sb s))) (b mod BPB)"

abbreviation nblocks :: "'z kfs_scheme \<Rightarrow> nat" where
  "nblocks s \<equiv> unat (sb_size (sb s))"

text \<open>The map lies on the disk outside the log, and marks itself and the log as in use.\<close>

definition map_ok :: "'z kfs_scheme \<Rightarrow> bool" where
  "map_ok s \<longleftrightarrow> nblocks s \<le> unat (disksize s)
     \<and> (\<forall>b<nblocks s. BBLOCK (of_nat b) (sb s) < disksize s \<and> off_log s (BBLOCK (of_nat b) (sb s)))
     \<and> (\<forall>b<nblocks s. block_free s b \<longrightarrow> off_log s (of_nat b)
          \<and> (\<forall>b'<nblocks s. BBLOCK (of_nat b') (sb s) \<noteq> of_nat b))"

lemma first_free_list: "takeWhile (\<lambda>bi. b + bi < sz) [0..<BPB] = [0..<min BPB (sz - b)]"
proof -
  have "takeWhile (\<lambda>bi. b + bi < sz) [0..<n] = [0..<min n (sz - b)]" for n
  proof (induction n)
    case (Suc n)
    show ?case
    proof (cases "b + n < sz")
      case True
      then have "takeWhile (\<lambda>bi. b + bi < sz) [0..<Suc n] = [0..<Suc n]" by (simp only: takeWhile_eq_all_conv) auto
      moreover have "min (Suc n) (sz - b) = Suc n" using True by simp
      ultimately show ?thesis by (simp only:)
    next
      case False
      then have "takeWhile (\<lambda>bi. b + bi < sz) [0..<Suc n] = takeWhile (\<lambda>bi. b + bi < sz) [0..<n]"
        by (auto simp: takeWhile_append intro!: takeWhile_eq_all_conv [THEN iffD2, symmetric])
      moreover have "min (Suc n) (sz - b) = min n (sz - b)" using False by simp
      ultimately show ?thesis using Suc by (simp only:)
    qed
  qed simp
  then show ?thesis .
qed

lemma first_free_Some:
  "first_free b sz bs = Some bi \<longleftrightarrow> bi < BPB \<and> b + bi < sz \<and> bit_free bs bi \<and> (\<forall>bj<bi. \<not> bit_free bs bj)"
  by (auto simp: first_free_def first_free_list find_Some_iff)

lemma first_free_None: "first_free b sz bs = None \<longleftrightarrow> (\<forall>bi<BPB. b + bi < sz \<longrightarrow> \<not> bit_free bs bi)"
  by (auto simp: first_free_def first_free_list find_None_iff)

lemma content_len: "tinv H s \<Longrightarrow> m < disksize s \<Longrightarrow> length (content s m) = BSIZE"
  using content_length tinvD(1) by blast

lemma balloc_loop_found_held:
  assumes "tinv H s" and "card H \<le> 1" and "first_free b (nblocks s) (content s (BBLOCK (of_nat b) (sb s))) = Some bi"
    and "\<forall>a\<in>set (pre @ [b]). BBLOCK (of_nat a) (sb s) < disksize s \<and> off_log s (BBLOCK (of_nat a) (sb s)) \<and> unheld H s (BBLOCK (of_nat a) (sb s))"
    and "\<forall>a\<in>set pre. first_free a (nblocks s) (content s (BBLOCK (of_nat a) (sb s))) = None"
    and "of_nat (b + bi) < disksize s" and "off_log s (of_nat (b + bi))" and "BBLOCK (of_nat b) (sb s) \<noteq> of_nat (b + bi)"
    and "unheld H s (of_nat (b + bi))" and "lh_len s + 2 < unat (log_size s)" and "1 \<le> sint (log_outstanding s)"
  shows "\<exists>t. balloc_loop 1 (pre @ b # post) s = Ok (of_nat (b + bi)) t \<and> tinv H t \<and> tframe s t \<and> writes t = writes s \<and> same_held H s t
    \<and> content t = (content s)(BBLOCK (of_nat b) (sb s) := bit_take bi (content s (BBLOCK (of_nat b) (sb s))),
        of_nat (b + bi) := replicate BSIZE 0) \<and> lh_len t \<le> lh_len s + 2
    \<and> dirty_blocks t = insert (of_nat (b + bi)) (insert (BBLOCK (of_nat b) (sb s)) (dirty_blocks s))"
  using assms
proof (induction pre arbitrary: s)
  case Nil
  let ?m = "BBLOCK (of_nat b) (sb s)" and ?v = "of_nat (b + bi) :: u32"
  have m: "?m < disksize s" "off_log s ?m" "unheld H s ?m" using Nil(4) by simp_all
  have room: "Suc (lh_len s) < unat (log_size s)" using Nil(10) by simp
  have len: "length (bit_take bi (content s ?m)) = BSIZE" using content_len [OF Nil(1) m(1)] by simp
  obtain bp u t where 1: "bread 1 ?m s = Ok bp u" "tframe s u" "b_data (bufs u ! bp) = content s ?m"
    "thenM (modM (upd_buf bp (\<lambda>x. x\<lparr>b_data := bit_take bi (b_data x)\<rparr>))) (thenM (log_write bp) (brelse bp)) u = Ok () t"
    "tinv H t" "tframe s t" "writes t = writes s" "content t = (content s)(?m := bit_take bi (content s ?m))" "same_held H s t"
    "lh_len t \<le> Suc (lh_len s)" "dirty_blocks t = insert ?m (dirty_blocks s)"
    using update_block_held [OF Nil(1,2) m(3,1,2) room Nil(11), of "bit_take bi", OF len] by auto
  note F = tframe_fields [OF 1(6)]
  have "unheld H t ?v" using unheld_same [OF 1(9)] Nil(9) by simp
  then obtain w where 2: "bzero 1 ?v t = Ok () w" "tinv H w" "tframe t w" "writes w = writes t" "same_held H t w"
    "content w = (content t)(?v := replicate BSIZE 0)" "lh_len w \<le> Suc (lh_len t)" "dirty_blocks w = insert ?v (dirty_blocks t)"
    using bzero_held [OF 1(5) Nil(2), of ?v] Nil(6,7,10,11) 1(10) F by auto
  have "balloc_loop 1 (b # post) s = Ok ?v w"
    using 1(1,2,3,4) 2(1) Nil(3) by (auto simp: bindM_run thenM_run split: res.splits)
  then show ?case using 1 2 tframe_trans [OF 1(6) 2(3)] same_held_trans [OF 1(9) 2(5)] by (intro exI [of _ w]) (simp add: fun_eq_iff)
next
  case (Cons a pre)
  let ?m = "BBLOCK (of_nat a) (sb s)"
  have m: "?m < disksize s" "unheld H s ?m" using Cons.prems(4) by simp_all
  have room: "Suc (lh_len s) < unat (log_size s) \<or> H = {}" using Cons.prems(10) by simp
  obtain bp u t where 1: "bread 1 ?m s = Ok bp u" "tframe s u" "b_data (bufs u ! bp) = content s ?m"
    "brelse bp u = Ok () t" "tinv H t" "tframe s t" "writes t = writes s" "content t = content s" "lh_len t = lh_len s"
    "same_held H s t" "dirty_blocks t = dirty_blocks s"
    using read_block_held [OF Cons.prems(1,2) m(2) room m(1)] by auto
  note F = tframe_fields [OF 1(6)] and K = tframe_kfs [OF 1(6)] and U = unheld_same [OF 1(10)]
  have "balloc_loop 1 ((a # pre) @ b # post) s = balloc_loop 1 (pre @ b # post) t"
    using 1(1,3,4) Cons.prems(5) by (simp add: bindM_run thenM_run)
  moreover have "\<exists>w. balloc_loop 1 (pre @ b # post) t = Ok (of_nat (b + bi)) w \<and> tinv H w \<and> tframe t w \<and> writes w = writes t \<and> same_held H t w
    \<and> content w = (content t)(BBLOCK (of_nat b) (sb t) := bit_take bi (content t (BBLOCK (of_nat b) (sb t))),
        of_nat (b + bi) := replicate BSIZE 0) \<and> lh_len w \<le> lh_len t + 2
    \<and> dirty_blocks w = insert (of_nat (b + bi)) (insert (BBLOCK (of_nat b) (sb t)) (dirty_blocks t))"
    using Cons.prems 1 F K U by (intro Cons.IH) simp_all
  ultimately show ?case unfolding K 1(7-9,11) using tframe_trans [OF 1(6)] same_held_trans [OF 1(10)] by metis
qed

lemma balloc_loop_full:
  assumes "tinv {} s" and "\<forall>a\<in>set bs. BBLOCK (of_nat a) (sb s) < disksize s"
    and "\<forall>a\<in>set bs. first_free a (nblocks s) (content s (BBLOCK (of_nat a) (sb s))) = None"
  shows "balloc_loop 1 bs s = Panic ''balloc: out of blocks''"
  using assms
proof (induction bs arbitrary: s)
  case (Cons a bs)
  let ?m = "BBLOCK (of_nat a) (sb s)"
  obtain bp u t where 1: "bread 1 ?m s = Ok bp u" "b_data (bufs u ! bp) = content s ?m"
    "brelse bp u = Ok () t" "tinv {} t" "tframe s t" "content t = content s"
    using read_block [OF Cons.prems(1), of ?m] Cons.prems by auto
  note F = tframe_fields [OF 1(5)] and K = tframe_kfs [OF 1(5)]
  have "balloc_loop 1 bs t = Panic ''balloc: out of blocks''"
    using Cons.prems 1 F K by (intro Cons.IH) auto
  then show ?case using 1(1,2,3) Cons.prems(3) by (simp add: bindM_run thenM_run)
qed simp

lemma find_upt_Some: "find P [0..<n] = Some b \<longleftrightarrow> b < n \<and> P b \<and> (\<forall>c<b. \<not> P c)"
  by (auto simp: find_Some_iff)

lemma find_upt_None: "find P [0..<n] = None \<longleftrightarrow> (\<forall>c<n. \<not> P c)"
  by (auto simp: find_None_iff)

lemma BBLOCK_chunk:
  assumes "k * BPB + bi < 2 ^ 32" and "bi < BPB"
  shows "BBLOCK (of_nat (k * BPB + bi)) sp = BBLOCK (of_nat (k * BPB)) sp"
  using assms BBLOCK_of_nat [OF assms(1)] BBLOCK_of_nat [of "k * BPB"] by (simp add: BPB_def)

lemma chunk_free:
  assumes "bi < BPB" and "k * BPB + bi < nblocks s"
  shows "bit_free (content s (BBLOCK (of_nat (k * BPB)) (sb s))) bi \<longleftrightarrow> block_free s (k * BPB + bi)"
proof -
  have "k * BPB + bi < 2 ^ 32" using assms(2) unat_u32_lt [of "sb_size (sb s)"] by simp
  then show ?thesis using BBLOCK_chunk [of k bi] assms(1) by (simp add: block_free_def)
qed

lemma chunk_lt:
  assumes "k < (n + BPB - 1) div BPB"
  shows "k * BPB < n"
proof -
  have "(k + 1) * BPB \<le> (n + BPB - 1) div BPB * BPB" using assms by (intro mult_le_mono1) simp
  also have "\<dots> \<le> n + BPB - 1" by simp
  finally show ?thesis by (simp add: BPB_def)
qed

lemma chunk_of:
  assumes "b < n"
  shows "b div BPB < (n + BPB - 1) div BPB"
proof -
  have "b div BPB + 1 = (b + BPB) div BPB" by (simp add: BPB_def)
  also have "\<dots> \<le> (n + BPB - 1) div BPB" using assms by (intro div_le_mono) simp
  finally show ?thesis by simp
qed

lemma BBLOCK_of_chunk:
  assumes "b < nblocks s"
  shows "BBLOCK (of_nat (b div BPB * BPB)) (sb s) = BBLOCK (of_nat b) (sb s)"
  using BBLOCK_chunk [of "b div BPB" "b mod BPB" "sb s"] assms unat_u32_lt [of "sb_size (sb s)"] by (simp add: BPB_def)

text \<open>The search finds the first free block in its part of the map and nothing in the parts before.\<close>

lemma chunk_search:
  assumes b: "b < nblocks s" "block_free s b" "\<forall>c<b. \<not> block_free s c"
  shows "first_free (b div BPB * BPB) (nblocks s) (content s (BBLOCK (of_nat (b div BPB * BPB)) (sb s))) = Some (b mod BPB)"
    and "k < b div BPB \<Longrightarrow> first_free (k * BPB) (nblocks s) (content s (BBLOCK (of_nat (k * BPB)) (sb s))) = None"
proof -
  let ?k = "b div BPB" and ?bi = "b mod BPB"
  have dec: "?k * BPB + ?bi = b" by simp
  have lt: "?bi < BPB" by (simp add: BPB_def)
  have "bit_free (content s (BBLOCK (of_nat (?k * BPB)) (sb s))) ?bi"
    using b(2) BBLOCK_of_chunk [OF b(1)] by (simp add: block_free_def)
  moreover have "\<not> bit_free (content s (BBLOCK (of_nat (?k * BPB)) (sb s))) bj" if "bj < ?bi" for bj
  proof -
    have l: "bj < BPB" "?k * BPB + bj < b" using that dec lt by linarith+
    then show ?thesis using chunk_free [OF l(1), of ?k s] b(1,3) by auto
  qed
  ultimately show "first_free (?k * BPB) (nblocks s) (content s (BBLOCK (of_nat (?k * BPB)) (sb s))) = Some ?bi"
    using b(1) lt by (simp add: first_free_Some)
  show "first_free (k * BPB) (nblocks s) (content s (BBLOCK (of_nat (k * BPB)) (sb s))) = None" if "k < ?k"
  proof -
    have "\<not> block_free s (k * BPB + bi)" if "bi < BPB" for bi
    proof -
      have "k * BPB + bi < (k + 1) * BPB" using that by simp
      also have "\<dots> \<le> ?k * BPB" using \<open>k < ?k\<close> by (intro mult_le_mono1) simp
      also have "\<dots> \<le> b" by simp
      finally show ?thesis using b(3) by blast
    qed
    then show ?thesis using chunk_free [of _ k s] by (auto simp: first_free_None)
  qed
qed

text \<open>Blocks with the same map block and the same bit are the same.\<close>

lemma same_map_bit:
  assumes "b < nblocks s" and "b' < nblocks s" and "BBLOCK (of_nat b') (sb s) = BBLOCK (of_nat b) (sb s)"
  shows "b' mod BPB = b mod BPB \<longleftrightarrow> b' = b"
proof -
  have lt: "b' < 2 ^ 32" "b < 2 ^ 32" using assms(1,2) unat_u32_lt [of "sb_size (sb s)"] by simp_all
  then have "(of_nat (b' div BPB) :: u32) = of_nat (b div BPB)"
    using assms(3) BBLOCK_of_nat [of b' "sb s"] BBLOCK_of_nat [of b "sb s"] by simp
  moreover have "b' div BPB < 2 ^ 32" "b div BPB < 2 ^ 32" using lt by (auto intro: le_less_trans [OF div_le_dividend])
  ultimately have "b' div BPB = b div BPB" using of_nat_u32_inj by blast
  then show ?thesis by (metis div_mult_mod_eq)
qed

lemma map_bit_index:
  assumes "tinv H s" and "BBLOCK (of_nat b) (sb s) < disksize s"
  shows "b mod BPB div 8 < length (content s (BBLOCK (of_nat b) (sb s)))"
  using content_len [OF assms] mod_less_divisor [of BPB b] by (simp add: BPB_def BSIZE_def)

text \<open>\<open>balloc\<close>, possibly with a buffer held, when the map has a free block.\<close>

lemma balloc_run:
  assumes inv: "tinv H s" "card H \<le> 1" and map: "map_ok s" and b: "b < nblocks s" "block_free s b" "\<forall>c<b. \<not> block_free s c"
    and un: "unheld H s (of_nat b)" "\<forall>b'<nblocks s. unheld H s (BBLOCK (of_nat b') (sb s))"
    and room: "lh_len s + 2 < unat (log_size s)" and out: "1 \<le> sint (log_outstanding s)"
  shows "\<exists>t. balloc 1 s = Ok (of_nat b) t \<and> tinv H t \<and> tframe s t \<and> writes t = writes s \<and> same_held H s t
    \<and> content t = (content s)(BBLOCK (of_nat b) (sb s) := bit_take (b mod BPB) (content s (BBLOCK (of_nat b) (sb s))),
        of_nat b := replicate BSIZE 0) \<and> lh_len t \<le> lh_len s + 2
    \<and> dirty_blocks t = insert (of_nat b) (insert (BBLOCK (of_nat b) (sb s)) (dirty_blocks s))
    \<and> (\<forall>b'<nblocks s. block_free t b' \<longleftrightarrow> block_free s b' \<and> b' \<noteq> b)"
proof -
  let ?K = "(nblocks s + BPB - 1) div BPB" and ?k = "b div BPB" and ?bi = "b mod BPB"
  have k: "?k < ?K" using b(1) by (rule chunk_of)
  have split: "map (\<lambda>k. k * BPB) [0..<?K] = map (\<lambda>k. k * BPB) [0..<?k] @ (?k * BPB) # map (\<lambda>k. k * BPB) [Suc ?k..<?K]"
  proof -
    have "[0..<?K] = [0..<?k] @ ?k # [Suc ?k..<?K]"
      using upt_add_eq_append [of 0 ?k "?K - ?k"] upt_conv_Cons [OF k] k by simp
    then show ?thesis by simp
  qed
  have dec: "?k * BPB + ?bi = b" by simp
  note M = BBLOCK_of_chunk [OF b(1)] and ff = chunk_search [OF b]
  have at: "BBLOCK (of_nat (k * BPB)) (sb s) < disksize s \<and> off_log s (BBLOCK (of_nat (k * BPB)) (sb s)) \<and> unheld H s (BBLOCK (of_nat (k * BPB)) (sb s))"
    if "k < ?K" for k using map un(2) chunk_lt [OF that] unfolding map_ok_def by blast
  have v: "of_nat b < disksize s" "off_log s (of_nat b)" "\<And>b'. b' < nblocks s \<Longrightarrow> BBLOCK (of_nat b') (sb s) \<noteq> of_nat b"
    using map b(1,2) unat_u32_lt [of "sb_size (sb s)"] by (auto simp: map_ok_def word_less_nat_alt unat_of_nat)
  have "\<exists>t. balloc_loop 1 (map (\<lambda>k. k * BPB) [0..<?k] @ (?k * BPB) # map (\<lambda>k. k * BPB) [Suc ?k..<?K]) s
      = Ok (of_nat (?k * BPB + ?bi)) t \<and> tinv H t \<and> tframe s t \<and> writes t = writes s \<and> same_held H s t
    \<and> content t = (content s)(BBLOCK (of_nat (?k * BPB)) (sb s) := bit_take ?bi (content s (BBLOCK (of_nat (?k * BPB)) (sb s))),
        of_nat (?k * BPB + ?bi) := replicate BSIZE 0) \<and> lh_len t \<le> lh_len s + 2
    \<and> dirty_blocks t = insert (of_nat (?k * BPB + ?bi)) (insert (BBLOCK (of_nat (?k * BPB)) (sb s)) (dirty_blocks s))"
  proof (rule balloc_loop_found_held [OF inv ff(1)])
    show "\<forall>a\<in>set (map (\<lambda>k. k * BPB) [0..<?k] @ [?k * BPB]). BBLOCK (of_nat a) (sb s) < disksize s \<and> off_log s (BBLOCK (of_nat a) (sb s))
        \<and> unheld H s (BBLOCK (of_nat a) (sb s))"
      using at k by (auto simp del: of_nat_mult)
    show "\<forall>a\<in>set (map (\<lambda>k. k * BPB) [0..<?k]). first_free a (nblocks s) (content s (BBLOCK (of_nat a) (sb s))) = None"
      using ff(2) by (auto simp del: of_nat_mult)
  qed (use v M b(1) un(1) room out in \<open>simp_all only: dec simp_thms not_False_eq_True\<close>)
  then obtain t where t: "balloc 1 s = Ok (of_nat b) t" "tinv H t" "tframe s t" "writes t = writes s" "same_held H s t"
    "content t = (content s)(BBLOCK (of_nat b) (sb s) := bit_take ?bi (content s (BBLOCK (of_nat b) (sb s))), of_nat b := replicate BSIZE 0)"
    "lh_len t \<le> lh_len s + 2" "dirty_blocks t = insert (of_nat b) (insert (BBLOCK (of_nat b) (sb s)) (dirty_blocks s))"
    unfolding dec M split [symmetric] by (auto simp: balloc_def bindM_run)
  have "block_free t b' \<longleftrightarrow> block_free s b' \<and> b' \<noteq> b" if b': "b' < nblocks s" for b'
  proof (cases "BBLOCK (of_nat b') (sb s) = BBLOCK (of_nat b) (sb s)")
    case True
    moreover have "?bi div 8 < length (content s (BBLOCK (of_nat b) (sb s)))"
      using map_bit_index [OF inv(1)] at [OF k] M by simp
    ultimately show ?thesis
      using v(3) [OF b'] bit_free_take same_map_bit [OF b(1) b' True]
      by (auto simp: block_free_def tframe_kfs [OF t(3)] t(6))
  next
    case False
    then show ?thesis using v(3) [OF b'] by (auto simp: block_free_def tframe_kfs [OF t(3)] t(6))
  qed
  then show ?thesis using t by blast
qed

lemma balloc_full:
  assumes inv: "tinv {} s" and map: "map_ok s" and none: "\<forall>b<nblocks s. \<not> block_free s b"
  shows "balloc 1 s = Panic ''balloc: out of blocks''"
proof -
  let ?K = "(nblocks s + BPB - 1) div BPB"
  have "first_free (k * BPB) (nblocks s) (content s (BBLOCK (of_nat (k * BPB)) (sb s))) = None" for k
    using none chunk_free [of _ k s] by (auto simp: first_free_None)
  moreover have "BBLOCK (of_nat (k * BPB)) (sb s) < disksize s" if "k < ?K" for k
    using map chunk_lt [OF that] unfolding map_ok_def by blast
  ultimately have "balloc_loop 1 (map (\<lambda>k. k * BPB) [0..<?K]) s = Panic ''balloc: out of blocks''"
    by (intro balloc_loop_full [OF inv]) auto
  then show ?thesis by (simp add: balloc_def bindM_run)
qed

text \<open>
  C8: \<open>balloc\<close> inside a transaction, with room in the log for two blocks. If the map has a free
  block it returns the lowest one, marked in use and filled with zeros: the map is otherwise the same, no other block's
  contents changes, and nothing goes to the disk yet. If there is none it panics.
\<close>
theorem balloc_outcome:
  assumes inv: "tinv {} s" and map: "map_ok s" and room: "lh_len s + 2 < unat (log_size s)"
    and out: "1 \<le> sint (log_outstanding s)"
  shows "case find (block_free s) [0..<nblocks s] of
      None \<Rightarrow> balloc 1 s = Panic ''balloc: out of blocks''
    | Some b \<Rightarrow> \<exists>t. balloc 1 s = Ok (of_nat b) t \<and> tinv {} t \<and> disk t = disk s
        \<and> content t (of_nat b) = replicate BSIZE 0
        \<and> (\<forall>b'<nblocks s. block_free t b' \<longleftrightarrow> block_free s b' \<and> b' \<noteq> b)
        \<and> (\<forall>m. m \<noteq> of_nat b \<and> m \<noteq> BBLOCK (of_nat b) (sb s) \<longrightarrow> content t m = content s m)"
proof (cases "find (block_free s) [0..<nblocks s]")
  case None
  then show ?thesis using balloc_full [OF inv map None [unfolded find_upt_None]] by simp
next
  case (Some b)
  then have b: "b < nblocks s" "block_free s b" "\<forall>c<b. \<not> block_free s c" by (auto simp: find_upt_Some)
  from balloc_run [OF inv _ map b _ _ room out] obtain t where t: "balloc 1 s = Ok (of_nat b) t" "tinv {} t" "tframe s t" "writes t = writes s"
    "content t = (content s)(BBLOCK (of_nat b) (sb s) := bit_take (b mod BPB) (content s (BBLOCK (of_nat b) (sb s))), of_nat b := replicate BSIZE 0)"
    "\<forall>b'<nblocks s. block_free t b' \<longleftrightarrow> block_free s b' \<and> b' \<noteq> b" by auto
  then show ?thesis using Some tframe_disk [OF t(3,4)] by auto
qed

text \<open>
  \<open>bfree\<close> inside a transaction. Of a block in use it clears just that block's bit in the map; the
  block's own contents and all others stay, and nothing goes to the disk yet. Of a free block it
  panics.
\<close>
theorem bfree_outcome:
  assumes inv: "tinv {} s" and map: "map_ok s" and b: "b < nblocks s" and room: "Suc (lh_len s) < unat (log_size s)"
    and out: "1 \<le> sint (log_outstanding s)"
  shows "if block_free s b then bfree 1 (of_nat b) s = Panic ''freeing free block''
    else \<exists>t. bfree 1 (of_nat b) s = Ok () t \<and> tinv {} t \<and> disk t = disk s
      \<and> (\<forall>b'<nblocks s. block_free t b' \<longleftrightarrow> block_free s b' \<or> b' = b)
      \<and> (\<forall>m. m \<noteq> BBLOCK (of_nat b) (sb s) \<longrightarrow> content t m = content s m)"
proof -
  let ?m = "BBLOCK (of_nat b) (sb s)" and ?bi = "b mod BPB"
  have u: "unat (of_nat b :: u32) = b" using b unat_u32_lt [of "sb_size (sb s)"] by (intro unat_of_nat_u32) simp
  have m: "?m < disksize s" "off_log s ?m" using map b unfolding map_ok_def by blast+
  have len: "length (bit_clear ?bi (content s ?m)) = BSIZE" using content_len [OF inv m(1)] by simp
  obtain bp v t where 1: "bread 1 ?m s = Ok bp v" "tframe s v" "b_data (bufs v ! bp) = content s ?m"
    "thenM (modM (upd_buf bp (\<lambda>x. x\<lparr>b_data := bit_clear ?bi (b_data x)\<rparr>))) (thenM (log_write bp) (brelse bp)) v = Ok () t"
    "tinv {} t" "tframe s t" "writes t = writes s" "content t = (content s)(?m := bit_clear ?bi (content s ?m))"
    using update_block [OF inv m room out, of "bit_clear ?bi", OF len] by blast
  have r: "bfree 1 (of_nat b) s = (if block_free s b then Panic ''freeing free block'' else Ok () t)"
    using 1(1,3,4) u by (simp add: bfree_def bindM_run Let_def block_free_def del: modM_run)
  have "block_free t b' \<longleftrightarrow> block_free s b' \<or> b' = b" if b': "b' < nblocks s" for b'
  proof (cases "BBLOCK (of_nat b') (sb s) = ?m")
    case True
    then show ?thesis using bit_free_clear [OF map_bit_index [OF inv m(1)]] same_map_bit [OF b b' True]
      by (auto simp: block_free_def tframe_kfs [OF 1(6)] 1(8))
  next
    case False
    then show ?thesis by (auto simp: block_free_def tframe_kfs [OF 1(6)] 1(8))
  qed
  then show ?thesis using r 1(5,8) tframe_disk [OF 1(6,7)] by auto
qed

section \<open>\<open>begin_op\<close> and \<open>end_op\<close>\<close>

text \<open>
  \<open>begin_op\<close> admits an operation only when the log has room for it. With the blocks logged so
  far and 10 for every operation under way within the log, it returns with one more operation counted if
  another 10 fit and no commit is running, keeping the bound; otherwise the caller is asleep on the log and
  nothing is counted.
\<close>
theorem begin_op_reserves:
  assumes "k_held s = {}" and "cpuproc s = Some i" and "i < length (procs s)"
    and "0 \<le> sint (lh_n s)" and "0 \<le> sint (log_outstanding s)" and "sint (lh_n s) + 10 * sint (log_outstanding s) \<le> 30"
  shows "if log_committing s \<or> sint (lh_n s) + 10 * (sint (log_outstanding s) + 1) > 30
    then \<exists>t. begin_op s = Sleeps Ch_log t \<and> log_outstanding t = log_outstanding s \<and> p_state (procs t ! i) = SLEEPING
      \<and> p_chan (procs t ! i) = Some Ch_log \<and> k_held t = {L_ptable}
    else begin_op s = Ok () (s\<lparr>log_outstanding := log_outstanding s + 1\<rparr>)
      \<and> sint (lh_n s) + 10 * sint (log_outstanding s + 1) \<le> 30"
proof -
  let ?n = "lh_n s" and ?o = "log_outstanding s"
  have o1: "sint (?o + 1) = sint ?o + 1" using assms(4-6) by (intro sint_add_1) simp_all
  have un: "int (unat ?n) = sint ?n" "int (unat (?o + 1)) = sint ?o + 1"
    using unat_sint_nonneg [of ?n] unat_sint_nonneg [of "?o + 1"] o1 assms(4,5) by simp_all
  then have b: "unat ?n \<le> 30" "unat (?o + 1) \<le> 4" using assms(4-6) by linarith+
  then have p: "unat ((?o + 1) * 10) = unat (?o + 1) * unat (10 :: u32)"
    by (intro unat_mult_lem [THEN iffD1]) simp
  have a: "unat (?n + (?o + 1) * 10) = unat ?n + unat ((?o + 1) * 10)"
    using b p by (intro unat_add_small) simp
  have "sint (?n + (?o + 1) * 10) = int (unat (?n + (?o + 1) * 10))"
    using a p b by (intro sint_small) simp
  also have "\<dots> = sint ?n + 10 * (sint ?o + 1)" using a p un by simp
  finally have e: "sint (?n + (?o + 1) * 10) = sint ?n + 10 * (sint ?o + 1)" .
  define u where "u = s\<lparr>k_held := {L_log}\<rparr>"
  have z: "sleep Ch_log L_log u = Sleeps Ch_log (u\<lparr>k_held := {L_ptable},
     procs := (procs u)[i := (procs u ! i)\<lparr>p_chan := Some Ch_log, p_state := SLEEPING\<rparr>]\<rparr>)"
    using assms(1-3) by (intro sleep_run) (simp_all add: u_def)
  show ?thesis
  proof (cases "log_committing s \<or> sint ?n + 10 * (sint ?o + 1) > 30")
    case True
    then show ?thesis using z assms(1-3) e
      by (auto simp: begin_op_def begin_op_pass_def monad_simps acquire_def u_def MAXOPBLOCKS_def LOGSIZE_def)
  next
    case False
    then show ?thesis using assms(1) e o1
      by (auto simp: begin_op_def begin_op_pass_def monad_simps acquire_def release_def MAXOPBLOCKS_def LOGSIZE_def)
  qed
qed

lemma commit_all:
  assumes inv: "tinv {} s" and u: "u = s\<lparr>log_outstanding := 0, log_committing := True\<rparr>"
  shows "\<exists>t. commit u = Ok () t \<and> lh_len t = 0 \<and> dirty_blocks t = {} \<and> k_held t = k_held s \<and> log_outstanding t = 0
    \<and> (\<forall>m. off_log s m \<longrightarrow> disk t m = content s m)"
proof (cases "0 < sint (lh_n s)")
  case pos: True
  have lu: "log_inv u"
    using tinv_log_inv [OF inv]
    by (simp add: u log_inv_def log_geometry_def loggable_def binv_def dirty_blocks_def disk_def mypid_def cong: option.case_cong)
  have cu: "content u = content s" by (simp add: u content_def disk_def fun_eq_iff cong: option.case_cong)
  have pu: "0 < sint (lh_n u)" using pos by (simp add: u)
  from commit_spec [OF lu pu] obtain t where t: "commit u = Ok () t" "binv {} t" "bframe (u\<lparr>lh_n := 0\<rparr>) t"
    "dirty_blocks t = {}" "writes t = writes u @ commit_writes u" by blast
  have "disk t m = content s m" if "off_log s m" for m
    using commit_home [OF lu pu t(3,5)] that cu by (simp add: u)
  then show ?thesis using t bframe_kbio [OF t(3)] bframe_klog [OF t(3)] by (auto simp: u)
next
  case False
  note I = tinvD [OF inv]
  have n0: "lh_len s = 0" using False by simp
  then have d: "dirty_blocks s = {}" using I(5) by simp
  then have "content s = disk s" using content_clean [OF I(1)] by (auto simp: fun_eq_iff)
  then show ?thesis using False n0 d by (auto simp: u commit_def bindM_run dirty_blocks_def disk_def)
qed

text \<open>
  C7: The last \<open>end_op\<close> commits. When the only operation under way ends, \<open>end_op\<close> returns with no
  operation counted, no commit running and no lock held, an empty log, no block pinned in the cache, and every block
  outside the log area on disk as the file system sees it. While other operations are under way it
  writes nothing and leaves the log to them.
\<close>
theorem end_op_commits:
  assumes inv: "tinv {} s" and nc: "\<not> log_committing s" and out: "1 \<le> sint (log_outstanding s)"
  shows "if log_outstanding s = 1
    then \<exists>t. end_op s = Ok () t \<and> log_outstanding t = 0 \<and> \<not> log_committing t \<and> k_held t = k_held s
      \<and> lh_len t = 0 \<and> dirty_blocks t = {} \<and> (\<forall>m. off_log s m \<longrightarrow> disk t m = content s m)
    else \<exists>t. end_op s = Ok () t \<and> log_outstanding t = log_outstanding s - 1 \<and> writes t = writes s
      \<and> lh_len t = lh_len s \<and> content t = content s"
proof -
  note I = tinvD [OF inv]
  have pl: "L_ptable \<notin> k_held s" using binvD(1) [OF I(1)] .
  define w where "w = (\<lambda>s. s\<lparr>procs := map (wakeup1_proc (Some Ch_log)) (procs s)\<rparr> :: 'a klog_scheme)"
  show ?thesis
  proof (cases "log_outstanding s = 1")
    case True
    let ?u = "s\<lparr>log_outstanding := 0, log_committing := True\<rparr>"
    obtain t where t: "commit ?u = Ok () t" "lh_len t = 0" "dirty_blocks t = {}" "k_held t = k_held s"
      "log_outstanding t = 0" "\<forall>m. off_log s m \<longrightarrow> disk t m = content s m" using commit_all [OF inv refl] by blast
    let ?v = "w (t\<lparr>log_committing := False\<rparr>)"
    have "end_op s = Ok () ?v"
      using True nc I(6) pl t(1,4)
      by (simp add: end_op_def monad_simps acquire_def release_def wakeup_run w_def Let_def)
    then show ?thesis using True t
      by (intro exI [of _ ?v] if_P [THEN iffD2]) (auto simp: w_def dirty_blocks_def disk_def)
  next
    case False
    let ?v = "w (s\<lparr>log_outstanding := log_outstanding s - 1\<rparr>)"
    have "end_op s = Ok () ?v"
      using False nc I(6) pl
      by (simp add: end_op_def monad_simps acquire_def release_def wakeup_run w_def Let_def)
    then show ?thesis using False by (auto simp: w_def content_def disk_def fun_eq_iff cong: option.case_cong)
  qed
qed

section \<open>An example\<close>

text \<open>
  A file system of 1000 blocks on which blocks 0 to 58 are in use, with block 58 as the map, in the
  middle of a transaction that has changed block 40.
\<close>

definition demo_sb :: superblock where
  "demo_sb = \<lparr>sb_size = 1000, sb_nblocks = 941, sb_ninodes = 200, sb_nlog = 30, sb_logstart = 2, sb_inodestart = 32, sb_bmapstart = 58\<rparr>"

definition demo_fs :: kfs where
  "demo_fs = demo_klog (kfs.fields demo_sb [] [] 0 0 0 False)"

lemma demo_fs_fields [simp]:
  "sb demo_fs = demo_sb" "sb_size demo_sb = 1000" "disksize demo_fs = 1000" "log_start demo_fs = 2" "log_size demo_fs = 30"
  "lh_n demo_fs = 1" "log_outstanding demo_fs = 1" "\<not> log_committing demo_fs"
  by (simp_all add: demo_fs_def demo_klog_def kfs.defs demo_sb_def)

lemma demo_fs_content:
  "content demo_fs m = (if m = 40 then replicate BSIZE 7 else if m = 58 then demo_bitmap else replicate BSIZE 0)"
  unfolding demo_fs_def by (rule demo_klog_content)

lemma demo_fs_tinv: "tinv {} demo_fs"
  using demo_klog_inv [of "kfs.fields demo_sb [] [] 0 0 0 False"] by (simp add: tinv_def log_inv_def demo_fs_def)

lemma demo_fs_BBLOCK: "b < 1000 \<Longrightarrow> BBLOCK (of_nat b) demo_sb = 58"
  using BBLOCK_of_nat [of b demo_sb] by (simp add: BPB_def demo_sb_def)

lemma demo_fs_free:
  assumes "b < 1000"
  shows "block_free demo_fs b \<longleftrightarrow> bit_free demo_bitmap b"
  using assms by (simp add: block_free_def BPB_def demo_fs_BBLOCK demo_fs_content)

lemma demo_bitmap_used: "b < 59 \<Longrightarrow> \<not> bit_free demo_bitmap b"
proof -
  have "\<forall>b\<in>set [0..<59]. \<not> bit_free demo_bitmap b" by code_simp
  then show "b < 59 \<Longrightarrow> \<not> bit_free demo_bitmap b" by simp
qed

lemma demo_fs_map: "map_ok demo_fs"
proof -
  have f: "59 \<le> b" if "b < 1000" "block_free demo_fs b" for b
    using that demo_fs_free [OF that(1)] demo_bitmap_used [of b] by (meson not_le)
  have "off_log demo_fs (of_nat b) \<and> (\<forall>b'<1000. BBLOCK (of_nat b') demo_sb \<noteq> of_nat b)"
    if "b < 1000" "block_free demo_fs b" for b
    using f [OF that] that(1) by (auto simp: in_log_def unat_of_nat demo_fs_BBLOCK word_unat_eq_iff)
  then show ?thesis by (simp add: map_ok_def demo_fs_BBLOCK in_log_def)
qed

lemma demo_fs_find: "find (block_free demo_fs) [0..<1000] = Some 59"
proof -
  have "bit_free demo_bitmap 59" by code_simp
  then show ?thesis using demo_bitmap_used by (simp add: find_upt_Some demo_fs_free)
qed

theorem balloc_outcome_witness:
  "\<exists>t. balloc 1 demo_fs = Ok 59 t \<and> content t 59 = replicate BSIZE 0"
  using balloc_outcome [OF demo_fs_tinv demo_fs_map] demo_fs_find by auto

theorem bfree_outcome_witness:
  "(\<exists>t. bfree 1 50 demo_fs = Ok () t \<and> disk t = disk demo_fs) \<and> bfree 1 60 demo_fs = Panic ''freeing free block''"
proof -
  have "\<not> block_free demo_fs 50" using demo_fs_free [of 50] demo_bitmap_used [of 50] by simp
  moreover have "bit_free demo_bitmap 60" by code_simp
  then have "block_free demo_fs 60" using demo_fs_free [of 60] by simp
  ultimately show ?thesis
    using bfree_outcome [OF demo_fs_tinv demo_fs_map, of 50] bfree_outcome [OF demo_fs_tinv demo_fs_map, of 60]
    by auto
qed

theorem begin_op_reserves_witness:
  "begin_op (demo_klog ()) = Ok () ((demo_klog ())\<lparr>log_outstanding := 2\<rparr>)"
  using begin_op_reserves [of "demo_klog ()" 0] by simp

theorem end_op_commits_witness:
  "\<exists>t. end_op demo_fs = Ok () t \<and> disk t 40 = replicate BSIZE 7"
proof -
  have "off_log demo_fs 40" by (simp add: in_log_def)
  then show ?thesis using end_op_commits [OF demo_fs_tinv] demo_fs_content [of 40] by auto
qed

end
