(* ===== verification/Inode_Spec.thy ===== *)
theory Inode_Spec
  imports Transaction
begin

text \<open>
  Inodes on disk and in the cache: the layout of \<open>struct dinode\<close> reads back what was written, an inode
  that is updated, dropped from the cache and locked again is the same, and the inode cache keeps
  one slot per inode.
\<close>

section \<open>The layout of inodes\<close>

lemma length_put_addrs [simp]: "length (put_addrs o' as bs) = length bs"
  by (induction as arbitrary: o' bs) simp_all

lemma put_addrs_nth: "k < o' \<or> o' + 4 * length as \<le> k \<Longrightarrow> put_addrs o' as bs ! k = bs ! k"
  by (induction as arbitrary: o' bs) (auto simp: put32_nth)

lemma get32_put_addrs:
  assumes "j < length as" and "o' + 4 * length as \<le> length bs"
  shows "get32 (put_addrs o' as bs) (o' + 4 * j) = as ! j"
  using assms
proof (induction as arbitrary: o' bs j)
  case Nil
  then show ?case by simp
next
  case (Cons a as)
  show ?case
  proof (cases j)
    case 0
    have "get32 (put_addrs (o' + 4) as (put32 o' a bs)) o' = get32 (put32 o' a bs) o'"
      by (simp add: get32_def put_addrs_nth)
    also have "\<dots> = a" using Cons.prems by (intro get32_put32) simp
    finally show ?thesis using 0 by simp
  next
    case (Suc i)
    have "o' + 4 * j = (o' + 4) + 4 * i" using Suc by simp
    then show ?thesis using Cons.IH [of i "o' + 4" "put32 o' a bs"] Cons.prems Suc by (simp add: add.assoc)
  qed
qed

lemma get_put_addrs_before:
  "k + 4 \<le> o' \<Longrightarrow> get32 (put_addrs o' as bs) k = get32 bs k"
  "k + 2 \<le> o' \<Longrightarrow> get16 (put_addrs o' as bs) k = get16 bs k"
  by (simp_all add: get32_def get16_def put_addrs_nth)

text \<open>The fields that are on disk.\<close>

definition disk_part :: "inode \<Rightarrow> u16 \<times> u16 \<times> u16 \<times> u16 \<times> u32 \<times> u32 list" where
  "disk_part i = (i_type i, i_major i, i_minor i, i_nlink i, i_size i, i_addrs i)"

lemma length_put_dinode [simp]: "length (put_dinode k i bs) = length bs"
  by (simp add: put_dinode_def Let_def)

lemma put_dinode_nth:
  assumes "j < 64 * k \<or> 64 * k + 64 \<le> j" and "length (i_addrs i) = NDIRECT + 1"
  shows "put_dinode k i bs ! j = bs ! j"
proof -
  let ?o = "64 * k"
  have "j < ?o + 12 \<or> ?o + 12 + 4 * length (i_addrs i) \<le> j" using assms by (auto simp: NDIRECT_def)
  moreover have "j < ?o + 8 \<or> ?o + 8 + 4 \<le> j" "j < ?o + 6 \<or> ?o + 6 + 2 \<le> j" "j < ?o + 4 \<or> ?o + 4 + 2 \<le> j"
    "j < ?o + 2 \<or> ?o + 2 + 2 \<le> j" "j < ?o \<or> ?o + 2 \<le> j" using assms(1) by auto
  ultimately show ?thesis by (simp only: put_dinode_def Let_def put_addrs_nth put32_nth put16_nth)
qed

lemma get_put_dinode:
  assumes "64 * k + 64 \<le> length bs" and "length (i_addrs i) = NDIRECT + 1"
  shows "disk_part (get_dinode k (put_dinode k i bs) x) = disk_part i"
proof -
  have len: "length (i_addrs i) = 13" using assms(2) by (simp add: NDIRECT_def)
  have "map (\<lambda>j. get32 (put_addrs (64 * k + 12) (i_addrs i) cs) (64 * k + 12 + 4 * j)) [0..<13] = i_addrs i"
    if "length cs = length bs" for cs
  proof (rule nth_equalityI)
    show "map (\<lambda>j. get32 (put_addrs (64 * k + 12) (i_addrs i) cs) (64 * k + 12 + 4 * j)) [0..<13] ! j = i_addrs i ! j"
      if "j < length (map (\<lambda>j. get32 (put_addrs (64 * k + 12) (i_addrs i) cs) (64 * k + 12 + 4 * j)) [0..<13])" for j
      using get32_put_addrs [of j "i_addrs i" "64 * k + 12" cs] that \<open>length cs = length bs\<close> len assms(1) by simp
  qed (simp add: len)
  then show ?thesis using assms(1)
    by (simp add: disk_part_def get_dinode_def put_dinode_def Let_def NDIRECT_def get_put_addrs_before
        get32_put32 get16_put16 get16_put16_other get16_put32_other)
qed

lemma get_put_other_dinode:
  assumes "k' \<noteq> k" and "length (i_addrs i) = NDIRECT + 1"
  shows "get_dinode k' (put_dinode k i bs) x = get_dinode k' bs x"
proof -
  have same: "put_dinode k i bs ! j = bs ! j" if "64 * k' \<le> j" "j < 64 * k' + 64" for j
    using assms that by (intro put_dinode_nth) auto
  have "get16 (put_dinode k i bs) j = get16 bs j" if "64 * k' \<le> j" "j + 2 \<le> 64 * k' + 64" for j
    using that by (simp add: get16_def same)
  moreover have "get32 (put_dinode k i bs) j = get32 bs j" if "64 * k' \<le> j" "j + 4 \<le> 64 * k' + 64" for j
    using that by (simp add: get32_def same)
  ultimately show ?thesis by (simp add: get_dinode_def Let_def NDIRECT_def)
qed

section \<open>Writing and reading an inode\<close>

lemma bio_icache [simp]:
  "binv H (s\<lparr>icache := c\<rparr>) = binv H s" "content (s\<lparr>icache := c\<rparr>) = content s" "dirty_blocks (s\<lparr>icache := c\<rparr>) = dirty_blocks s"
  "disk (s\<lparr>icache := c\<rparr>) = disk s" "mypid (s\<lparr>icache := c\<rparr>) = mypid s" "tinv H (s\<lparr>icache := c\<rparr>) = tinv H s"
  by (auto simp: binv_def content_def fun_eq_iff dirty_blocks_def disk_def mypid_def tinv_def log_geometry_def loggable_def
      cong: option.case_cong)

lemma acquiresleep_inode:
  assumes "L_inode ip \<notin> k_held s" and "\<not> sl_locked (i_lock (icache s ! ip))" and "cpuproc s = Some p"
  shows "acquiresleep (L_inode ip) (Ch_inode_lock ip) (inode_lock ip) (set_inode_lock ip) s
    = Ok () (upd_inode ip (\<lambda>x. x\<lparr>i_lock := \<lparr>sl_locked = True, sl_pid = mypid s\<rparr>\<rparr>) s)"
  using assms by (simp add: acquiresleep_def monad_simps acquire_def release_def curproc_def upd_inode_def mypid_def)

lemma bframe_kfs:
  assumes "bframe s t"
  shows "sb t = sb s" "icache t = icache s"
  using tframe_kfs [OF bframe_tframe [OF assms]] by simp_all

lemma ilock_load:
  assumes inv: "tinv {} s" and ip: "ip < length (icache s)" and i: "icache s ! ip = i"
    and free: "\<not> sl_locked (i_lock i)" "\<not> i_valid i" "0 < sint (i_ref i)" "i_dev i = 1" "L_inode ip \<notin> k_held s"
    and m: "m = IBLOCK (i_inum i) (sb s)" "m < disksize s"
    and d: "d = get_dinode (unat (i_inum i mod IPB)) (content s m) (i\<lparr>i_lock := \<lparr>sl_locked = True, sl_pid = mypid s\<rparr>\<rparr>)"
    and ty: "i_type d \<noteq> 0"
  shows "\<exists>t. ilock ip s = Ok () t \<and> icache t = (icache s)[ip := d\<lparr>i_valid := True\<rparr>] \<and> content t = content s \<and> writes t = writes s"
proof -
  note I = tinvD [OF inv]
  let ?i1 = "i\<lparr>i_lock := \<lparr>sl_locked = True, sl_pid = mypid s\<rparr>\<rparr>"
  let ?s1 = "s\<lparr>icache := (icache s)[ip := ?i1]\<rparr>"
  from I(1) obtain p where "cpuproc s = Some p" by (rule binv_cpu)
  then have 1: "acquiresleep (L_inode ip) (Ch_inode_lock ip) (inode_lock ip) (set_inode_lock ip) s = Ok () ?s1"
    using acquiresleep_inode [of ip s p] free i by (simp add: upd_inode_def)
  have cd: "card (dirty_blocks s) < NBUF"
    using card_image_le [of "{..<lh_len s}" "\<lambda>i. lh_block s ! i"] I(2,3)
    by (simp add: I(5) log_geometry_def LOGSIZE_def NBUF_def loggable_def)
  obtain b u where 2: "bread 1 m ?s1 = Ok b u" "binv {b} u" "bframe ?s1 u" "writes u = writes s" "content u = content s"
      "dirty_blocks u = dirty_blocks s" "b_blockno (bufs u ! b) = m"
    using bread_spec [of "{}" ?s1 m] I(1) m(2) cd by auto
  have dat: "b_data (bufs u ! b) = content s m" using content_held [OF 2(2), of b] 2(5,7) by simp
  have ic: "icache u = (icache s)[ip := ?i1]" using bframe_kfs [OF 2(3)] by simp
  let ?v = "u\<lparr>icache := (icache s)[ip := d]\<rparr>"
  have "disk u = disk s" using disk_after [OF 2(3), of "[]"] 2(4) by simp
  then have "b_dirty (bufs ?v ! b) \<or> b_data (bufs ?v ! b) = disk ?v (b_blockno (bufs ?v ! b))"
    using dat content_clean [OF I(1), of m] dirty_held [OF 2(2), of b] 2(6,7) by auto
  with 2(2) brelse_spec [of "{b}" ?v b] obtain w where 3: "brelse b ?v = Ok () w" "bframe ?v w" "writes w = writes s" "content w = content s"
    using 2(4,5) by auto
  have iw: "icache w = (icache s)[ip := d]" using bframe_kfs [OF 3(2)] by simp
  let ?t = "w\<lparr>icache := (icache s)[ip := d\<lparr>i_valid := True\<rparr>]\<rparr>"
  have "ilock ip s = Ok () ?t"
    using 1 2(1) 3(1) ic iw i ip free m(1) dat ty
    by (simp add: ilock_def inodeM_def bindM_run thenM_run upd_inode_def d [unfolded m(1), symmetric])
  then show ?thesis using 3 by (intro exI [of _ ?t]) simp
qed

lemma dinode_index: "unat (n mod IPB) < 8"
proof -
  have "unat (n mod IPB) = unat n mod 8" by (simp add: unat_mod IPB_def)
  then show ?thesis by simp
qed

text \<open>
  C29: Inodes survive in the file system. In a transaction, write an inode with \<open>iupdate\<close>, forget its copy
  in the cache, and lock it: \<open>ilock\<close> returns with the type, the device numbers, the link count, the
  size and all thirteen block addresses that were written, and every other inode of the same
  block reads as before.
\<close>
theorem inode_roundtrip:
  assumes inv: "tinv {} s" and ip: "ip < length (icache s)" and i: "icache s ! ip = i" "i_dev i = 1"
      "length (i_addrs i) = NDIRECT + 1" "i_type i \<noteq> 0"
    and m: "m = IBLOCK (i_inum i) (sb s)" "m < disksize s" "off_log s m"
    and room: "Suc (lh_len s) < unat (log_size s)" and out: "1 \<le> sint (log_outstanding s)" and lk: "L_inode ip \<notin> k_held s"
    and j: "\<not> sl_locked (i_lock j)" "\<not> i_valid j" "0 < sint (i_ref j)" "i_dev j = 1" "i_inum j = i_inum i"
  shows "\<exists>t u. iupdate ip s = Ok () t \<and> ilock ip (t\<lparr>icache := (icache t)[ip := j]\<rparr>) = Ok () u
    \<and> disk_part (icache u ! ip) = disk_part i \<and> i_valid (icache u ! ip)
    \<and> (\<forall>k x. k \<noteq> unat (i_inum i mod IPB) \<longrightarrow> get_dinode k (content u m) x = get_dinode k (content s m) x)"
proof -
  let ?k = "unat (i_inum i mod IPB)"
  have len: "length (content s m) = BSIZE" using content_len [OF inv m(2)] .
  then have "length (put_dinode ?k i (content s m)) = BSIZE" by simp
  from iupdate_spec [OF inv i(1,2) m room out this] obtain t where t: "iupdate ip s = Ok () t" "tinv {} t" "tframe s t"
    "content t = (content s)(m := put_dinode ?k i (content s m))" by blast
  note F = tframe_fields [OF t(3)] and K = tframe_kfs [OF t(3)]
  let ?t = "t\<lparr>icache := (icache t)[ip := j]\<rparr>"
  define d where "d = get_dinode (unat (i_inum j mod IPB)) (content ?t m) (j\<lparr>i_lock := \<lparr>sl_locked = True, sl_pid = mypid ?t\<rparr>\<rparr>)"
  have dp: "disk_part d = disk_part i"
    using get_put_dinode [of ?k "content s m" i] dinode_index [of "i_inum i"] len i(3) j(5) t(4)
    by (simp add: d_def BSIZE_def)
  then have ty: "i_type d \<noteq> 0" using i(4) by (simp add: disk_part_def)
  have "\<exists>u. ilock ip ?t = Ok () u \<and> icache u = (icache ?t)[ip := d\<lparr>i_valid := True\<rparr>] \<and> content u = content ?t \<and> writes u = writes ?t"
    using t(2) ip lk m j F K by (intro ilock_load [OF _ _ _ j(1-4) _ _ _ d_def ty]) simp_all
  then obtain u where u: "ilock ip ?t = Ok () u" "icache u = (icache ?t)[ip := d\<lparr>i_valid := True\<rparr>]" "content u = content t" by auto
  have "disk_part (icache u ! ip) = disk_part i" "i_valid (icache u ! ip)"
    using u(2) dp ip K by (simp_all add: disk_part_def)
  moreover have "get_dinode k (content u m) x = get_dinode k (content s m) x" if "k \<noteq> ?k" for k x
    using get_put_other_dinode [OF that i(3)] u(3) t(4) by simp
  ultimately show ?thesis using t(1) u(1) by blast
qed

text \<open>Inode 17, in block 34 of the example.\<close>

definition demo_inode :: inode where
  "demo_inode = \<lparr>i_dev = 1, i_inum = 17, i_ref = 1, i_lock = \<lparr>sl_locked = False, sl_pid = 0\<rparr>, i_valid = False,
     i_type = 2, i_major = 0, i_minor = 0, i_nlink = 1, i_size = 600, i_addrs = [70, 71, 0, 0, 0, 0, 0, 0, 0, 0, 0, 0, 0]\<rparr>"

definition demo_ifs :: kfs where
  "demo_ifs = demo_klog (kfs.fields demo_sb [demo_inode] [] 0 0 0 False)"

lemma demo_ifs_fields [simp]:
  "sb demo_ifs = demo_sb" "icache demo_ifs = [demo_inode]" "disksize demo_ifs = 1000" "log_start demo_ifs = 2"
  "log_size demo_ifs = 30" "lh_n demo_ifs = 1" "log_outstanding demo_ifs = 1" "k_held demo_ifs = {}"
  by (simp_all add: demo_ifs_def demo_klog_def kfs.defs)

lemma demo_ifs_tinv: "tinv {} demo_ifs"
  using demo_klog_inv [of "kfs.fields demo_sb [demo_inode] [] 0 0 0 False"] by (simp add: tinv_def log_inv_def demo_ifs_def)

theorem inode_roundtrip_witness:
  "\<exists>t u. iupdate 0 demo_ifs = Ok () t \<and> ilock 0 (t\<lparr>icache := (icache t)[0 := demo_inode\<lparr>i_size := 0\<rparr>]\<rparr>) = Ok () u
     \<and> i_size (icache u ! 0) = 600"
proof -
  have "IBLOCK (i_inum demo_inode) demo_sb = 34" by (simp add: IBLOCK_def demo_inode_def demo_sb_def IPB_def)
  then obtain t u where "iupdate 0 demo_ifs = Ok () t"
    "ilock 0 (t\<lparr>icache := (icache t)[0 := demo_inode\<lparr>i_size := 0\<rparr>]\<rparr>) = Ok () u" "disk_part (icache u ! 0) = disk_part demo_inode"
    using inode_roundtrip [OF demo_ifs_tinv, of 0 demo_inode 34 "demo_inode\<lparr>i_size := 0\<rparr>"]
    by (auto simp: demo_inode_def NDIRECT_def in_log_def)
  then show ?thesis by (auto simp: disk_part_def demo_inode_def)
qed

section \<open>The inode cache\<close>

definition is_inode :: "u32 \<Rightarrow> u32 \<Rightarrow> inode \<Rightarrow> bool" where
  "is_inode dev inum x \<longleftrightarrow> 0 < sint (i_ref x) \<and> i_dev x = dev \<and> i_inum x = inum"

text \<open>No inode has two slots; the reference counts do not overflow.\<close>

definition icache_ok :: "inode list \<Rightarrow> bool" where
  "icache_ok c \<longleftrightarrow> (\<forall>i<length c. \<forall>j<length c. 0 < sint (i_ref (c ! i)) \<and> 0 < sint (i_ref (c ! j))
     \<and> i_dev (c ! i) = i_dev (c ! j) \<and> i_inum (c ! i) = i_inum (c ! j) \<longrightarrow> i = j)
     \<and> (\<forall>i<length c. 0 \<le> sint (i_ref (c ! i)) \<and> sint (i_ref (c ! i)) < 1000)"

lemma find_upt_Suc: "find P [0..<Suc n] = (if P 0 then Some 0 else map_option Suc (find (\<lambda>i. P (Suc i)) [0..<n]))"
proof -
  have "find P (map Suc xs) = map_option Suc (find (\<lambda>i. P (Suc i)) xs)" for xs by (induction xs) auto
  then show ?thesis by (simp only: upt_conv_Cons map_Suc_upt [symmetric] zero_less_Suc find.simps)
qed

lemma iget_scan_Cons:
  "iget_scan dev inum k (ip # ips) e = (if is_inode dev inum ip then (Some k, e)
     else iget_scan dev inum (Suc k) ips (if e = None \<and> i_ref ip = 0 then Some k else e))"
  by (simp add: is_inode_def)

lemma iget_scan_hit:
  "fst (iget_scan dev inum k ips e) = map_option ((+) k) (find (\<lambda>i. is_inode dev inum (ips ! i)) [0..<length ips])"
proof (induction ips arbitrary: k e)
  case Nil
  then show ?case by simp
next
  case (Cons ip ips)
  show ?case
    by (cases "is_inode dev inum ip")
      (simp_all add: iget_scan_Cons Cons.IH find_upt_Suc option.map_comp comp_def del: upt_Suc iget_scan.simps(2))
qed

lemma iget_scan_empty:
  "fst (iget_scan dev inum k ips e) = None \<Longrightarrow> snd (iget_scan dev inum k ips e)
     = (if e = None then map_option ((+) k) (find (\<lambda>i. i_ref (ips ! i) = 0) [0..<length ips]) else e)"
proof (induction ips arbitrary: k e)
  case Nil
  then show ?case by simp
next
  case (Cons ip ips)
  from Cons.prems have n: "\<not> is_inode dev inum ip"
    and p: "fst (iget_scan dev inum (Suc k) ips (if e = None \<and> i_ref ip = 0 then Some k else e)) = None"
    by (simp_all only: iget_scan_Cons split: if_splits) simp_all
  have shift: "map_option ((+) (Suc k)) x = map_option ((+) k) (map_option Suc x)" for x
    by (cases x) simp_all
  show ?case using Cons.IH [OF p] n
    by (cases e; cases "i_ref ip = 0") (simp_all add: iget_scan_Cons find_upt_Suc shift del: upt_Suc iget_scan.simps(2))
qed

lemma icache_ok_upd:
  assumes "icache_ok c" and "0 \<le> sint (i_ref x)" "sint (i_ref x) < 1000"
    and "\<And>j. j < length c \<Longrightarrow> j \<noteq> i \<Longrightarrow> \<not> is_inode (i_dev x) (i_inum x) (c ! j)"
  shows "icache_ok (c[i := x])"
  unfolding icache_ok_def
proof (intro conjI allI impI, goal_cases)
  case (1 a b)
  show ?case
  proof (cases "a = i"; cases "b = i")
    assume "a = i" "b \<noteq> i"
    then show ?thesis using 1 assms(4) [of b] by (simp add: is_inode_def)
  next
    assume "a \<noteq> i" "b = i"
    then show ?thesis using 1 assms(4) [of a] by (simp add: is_inode_def)
  next
    assume "a \<noteq> i" "b \<noteq> i"
    then show ?thesis using 1 assms(1) by (simp add: icache_ok_def)
  qed simp
next
  case (2 a)
  then show ?case using assms(1,2) by (cases "a = i") (simp_all add: icache_ok_def)
next
  case (3 a)
  then show ?case using assms(1,3) by (cases "a = i") (simp_all add: icache_ok_def)
qed

text \<open>
  \<open>iget\<close> gives every inode one slot of the cache. A call for an inode that somebody has returns its
  slot with one reference more, and changes nothing else; for another it takes the first slot without
  references, to be read from disk at the first lock; with all slots in use it panics. The
  cache never comes to have two slots for the same inode.
\<close>
theorem iget_outcome:
  assumes lk: "L_icache \<notin> k_held s" and ok: "icache_ok (icache s)" and few: "\<forall>x\<in>set (icache s). sint (i_ref x) < 999"
  shows "case find (\<lambda>i. is_inode dev inum (icache s ! i)) [0..<length (icache s)] of
      Some ip \<Rightarrow> \<exists>c. iget dev inum s = Ok ip (s\<lparr>icache := c\<rparr>) \<and> icache_ok c
        \<and> c = (icache s)[ip := (icache s ! ip)\<lparr>i_ref := i_ref (icache s ! ip) + 1\<rparr>]
    | None \<Rightarrow> (case find (\<lambda>i. i_ref (icache s ! i) = 0) [0..<length (icache s)] of
        Some ip \<Rightarrow> \<exists>c. iget dev inum s = Ok ip (s\<lparr>icache := c\<rparr>) \<and> icache_ok c
          \<and> c = (icache s)[ip := (icache s ! ip)\<lparr>i_dev := dev, i_inum := inum, i_ref := 1, i_valid := False\<rparr>]
      | None \<Rightarrow> iget dev inum s = Panic ''iget: no inodes'')"
proof (cases "find (\<lambda>i. is_inode dev inum (icache s ! i)) [0..<length (icache s)]")
  case (Some ip)
  then have ip: "ip < length (icache s)" "is_inode dev inum (icache s ! ip)" by (auto simp: find_upt_Some)
  obtain e where "iget_scan dev inum 0 (icache s) None = (Some ip, e)"
    using iget_scan_hit [of dev inum 0 "icache s" None] Some by (cases "iget_scan dev inum 0 (icache s) None") auto
  then have r: "iget dev inum s = Ok ip (s\<lparr>icache := (icache s)[ip := (icache s ! ip)\<lparr>i_ref := i_ref (icache s ! ip) + 1\<rparr>]\<rparr>)"
    using lk by (simp add: iget_def monad_simps acquire_def release_def upd_inode_def)
  let ?x = "icache s ! ip"
  have "sint (i_ref ?x + 1) = sint (i_ref ?x) + 1" using ok ip(1) by (intro sint_add_1) (simp_all add: icache_ok_def)
  moreover have "sint (i_ref ?x) < 999" "0 \<le> sint (i_ref ?x)" using few ok ip(1) by (simp_all add: icache_ok_def)
  moreover have "\<not> is_inode (i_dev ?x) (i_inum ?x) (icache s ! j)" if "j < length (icache s)" "j \<noteq> ip" for j
    using ok ip that by (auto simp: icache_ok_def is_inode_def)
  ultimately have "icache_ok ((icache s)[ip := ?x\<lparr>i_ref := i_ref ?x + 1\<rparr>])" by (intro icache_ok_upd [OF ok]) simp_all
  then show ?thesis using Some r by simp
next
  case None
  then have no: "\<not> is_inode dev inum (icache s ! j)" if "j < length (icache s)" for j
    using that by (auto simp: find_upt_None)
  have f: "fst (iget_scan dev inum 0 (icache s) None) = None"
    using iget_scan_hit [of dev inum 0 "icache s" None] None by simp
  let ?e = "find (\<lambda>i. i_ref (icache s ! i) = 0) [0..<length (icache s)]"
  have zero: "map_option ((+) 0) x = x" for x :: "nat option" by (cases x) simp_all
  have sc: "iget_scan dev inum 0 (icache s) None = (None, ?e)"
    using f iget_scan_empty [OF f] zero by (cases "iget_scan dev inum 0 (icache s) None") simp
  show ?thesis
  proof (cases ?e)
    case (Some ip)
    let ?x = "(icache s ! ip)\<lparr>i_dev := dev, i_inum := inum, i_ref := 1, i_valid := False\<rparr>"
    have "icache_ok ((icache s)[ip := ?x])" using no by (intro icache_ok_upd [OF ok]) simp_all
    moreover have "iget dev inum s = Ok ip (s\<lparr>icache := (icache s)[ip := ?x]\<rparr>)"
      using lk sc Some by (simp add: iget_def monad_simps acquire_def release_def upd_inode_def)
    ultimately show ?thesis using None Some by simp
  next
    case n2: None
    then show ?thesis using lk sc None by (simp add: iget_def monad_simps acquire_def)
  qed
qed

theorem iget_outcome_witness:
  "\<exists>c. iget 1 17 demo_ifs = Ok 0 (demo_ifs\<lparr>icache := c\<rparr>) \<and> i_ref (c ! 0) = 2"
proof -
  have "icache_ok [demo_inode]" by (simp add: icache_ok_def demo_inode_def)
  moreover have "find (\<lambda>i. is_inode 1 17 ([demo_inode] ! i)) [0..<1] = Some 0"
    by (simp add: is_inode_def demo_inode_def)
  ultimately show ?thesis using iget_outcome [of demo_ifs 1 17] by (auto simp: demo_inode_def)
qed

end
