(* ===== verification/File_Spec.thy ===== *)
theory File_Spec
  imports Inode_Spec Fs
begin

text \<open>
  The contents of a file. An inode with its blocks is abstracted to the list of its bytes; \<open>bmap\<close> gives the block of every part,
  allocating it where there is none, \<open>readi\<close> returns a part of the list and \<open>writei\<close> writes over a part of it, or appends, and
  every other block that is in use keeps its contents.
\<close>

section \<open>Blocks of a file\<close>

abbreviation ind_addr :: "inode \<Rightarrow> u32" where
  "ind_addr i \<equiv> i_addrs i ! NDIRECT"

definition fblk :: "'z kfs_scheme \<Rightarrow> inode \<Rightarrow> nat \<Rightarrow> u32" where
  "fblk s i k = (if k < NDIRECT then i_addrs i ! k else if ind_addr i = 0 then 0
     else get32 (content s (ind_addr i)) (4 * (k - NDIRECT)))"

text \<open>A block of data or an inode block: in use, on the disk, and neither in the log nor in the free map.\<close>

definition in_use :: "'z kfs_scheme \<Rightarrow> u32 \<Rightarrow> bool" where
  "in_use s b \<longleftrightarrow> b \<noteq> 0 \<and> b < disksize s \<and> off_log s b \<and> unat b < nblocks s \<and> \<not> block_free s (unat b)
     \<and> (\<forall>b'<nblocks s. BBLOCK (of_nat b') (sb s) \<noteq> b)"

definition file_wf :: "'z kfs_scheme \<Rightarrow> inode \<Rightarrow> bool" where
  "file_wf s i \<longleftrightarrow> length (i_addrs i) = NDIRECT + 1 \<and> in_use s (IBLOCK (i_inum i) (sb s))
     \<and> (ind_addr i \<noteq> 0 \<longrightarrow> in_use s (ind_addr i) \<and> ind_addr i \<noteq> IBLOCK (i_inum i) (sb s))
     \<and> (\<forall>k<MAXFILE. fblk s i k \<noteq> 0 \<longrightarrow> in_use s (fblk s i k) \<and> fblk s i k \<noteq> ind_addr i \<and> fblk s i k \<noteq> IBLOCK (i_inum i) (sb s))
     \<and> (\<forall>k<MAXFILE. \<forall>k'<MAXFILE. fblk s i k = fblk s i k' \<longrightarrow> fblk s i k \<noteq> 0 \<longrightarrow> k = k')"

definition free_blocks :: "'z kfs_scheme \<Rightarrow> nat set" where
  "free_blocks s = {b. b < nblocks s \<and> block_free s b}"

definition fs_inv :: "'z kfs_scheme \<Rightarrow> bool" where
  "fs_inv s \<longleftrightarrow> tinv {} s \<and> map_ok s \<and> \<not> block_free s 0 \<and> 1 \<le> sint (log_outstanding s)"

text \<open>Everything but the buffers, the processes' states, the header of the log and the inode cache is as it was.\<close>

definition kframe :: "'z kfs_scheme \<Rightarrow> 'z kfs_scheme \<Rightarrow> bool" where
  "kframe s t \<longleftrightarrow> tframe (s\<lparr>icache := icache t\<rparr>) t"

lemma kframe_refl [simp]: "kframe s s"
  by (simp add: kframe_def)

lemma kframe_tframe: "tframe s t \<Longrightarrow> kframe s t"
  using tframe_kfs [of s t] by (simp add: kframe_def)

lemma kframe_trans: "kframe s t \<Longrightarrow> kframe t u \<Longrightarrow> kframe s u"
  by (cases s; cases t; cases u) (simp add: kframe_def tframe_def bframe_def)

lemma kframe_icache [simp]: "kframe s (t\<lparr>icache := c\<rparr>) = kframe s t" "kframe s (s\<lparr>icache := c\<rparr>)"
  by (cases s; cases t; simp add: kframe_def tframe_def bframe_def)+

lemma kframe_fields:
  assumes "kframe s t"
  shows "log_start t = log_start s" "log_size t = log_size s" "disksize t = disksize s" "log_outstanding t = log_outstanding s"
    "sb t = sb s" "k_held t = k_held s"
  using assms by (cases s; cases t; simp add: kframe_def tframe_def bframe_def)+

lemma icache_free [simp]:
  "block_free (s\<lparr>icache := c\<rparr>) b = block_free s b" "in_use (s\<lparr>icache := c\<rparr>) x = in_use s x" "free_blocks (s\<lparr>icache := c\<rparr>) = free_blocks s"
  "map_ok (s\<lparr>icache := c\<rparr>) = map_ok s" "fs_inv (s\<lparr>icache := c\<rparr>) = fs_inv s" "fblk (s\<lparr>icache := c\<rparr>) i k = fblk s i k"
  "file_wf (s\<lparr>icache := c\<rparr>) i = file_wf s i"
  by (auto simp: block_free_def in_use_def free_blocks_def map_ok_def fs_inv_def fblk_def file_wf_def)

lemma fs_invD: "fs_inv s \<Longrightarrow> tinv {} s" "fs_inv s \<Longrightarrow> map_ok s" "fs_inv s \<Longrightarrow> 1 \<le> sint (log_outstanding s)"
  by (simp_all add: fs_inv_def)

lemma finite_free [simp]: "finite (free_blocks s)"
  by (simp add: free_blocks_def)

lemma lowest_free:
  assumes "0 < card (free_blocks s)"
  obtains b where "b < nblocks s" "block_free s b" "\<forall>c<b. \<not> block_free s c"
proof -
  have "free_blocks s \<noteq> {}" using assms by auto
  then obtain x where x: "x < nblocks s" "block_free s x" by (auto simp: free_blocks_def)
  define m where "m = (LEAST b. block_free s b)"
  have m: "block_free s m" "m \<le> x" using x(2) unfolding m_def by (rule LeastI, rule Least_le)
  have "\<forall>c<m. \<not> block_free s c" using not_less_Least unfolding m_def by blast
  moreover have "m < nblocks s" using m(2) x(1) by (rule le_less_trans)
  ultimately show ?thesis using that m(1) by blast
qed

text \<open>Blocks keep their use when the map blocks do.\<close>

lemma same_map:
  assumes "kframe s t" and "\<And>m. (\<exists>b'<nblocks s. m = BBLOCK (of_nat b') (sb s)) \<Longrightarrow> content t m = content s m"
  shows "b < nblocks s \<Longrightarrow> block_free t b = block_free s b" and "in_use t x = in_use s x" and "free_blocks t = free_blocks s"
    and "map_ok t = map_ok s"
proof -
  note F = kframe_fields [OF assms(1)]
  show f: "block_free t b = block_free s b" if "b < nblocks s" for b
  proof -
    have "content t (BBLOCK (of_nat b) (sb s)) = content s (BBLOCK (of_nat b) (sb s))" using assms(2) that by blast
    then show ?thesis by (simp add: block_free_def F)
  qed
  show "in_use t x = in_use s x" using F f by (auto simp: in_use_def)
  show "free_blocks t = free_blocks s" using F f by (auto simp: free_blocks_def)
  show "map_ok t = map_ok s" using F f by (auto simp: map_ok_def)
qed

lemma fs_inv_same_map:
  assumes "fs_inv s" and "kframe s t" and "tinv {} t" and "\<And>m. (\<exists>b'<nblocks s. m = BBLOCK (of_nat b') (sb s)) \<Longrightarrow> content t m = content s m"
    and "0 < nblocks s"
  shows "fs_inv t"
  using assms same_map [OF assms(2,4)] kframe_fields [OF assms(2)] by (simp add: fs_inv_def)

section \<open>Allocation\<close>

text \<open>\<open>b\<close> has been allocated: it is zeroed and no longer free, and only it and its map block have changed.\<close>

definition allocated :: "'z kfs_scheme \<Rightarrow> nat \<Rightarrow> 'z kfs_scheme \<Rightarrow> bool" where
  "allocated s b t \<longleftrightarrow> b < nblocks s \<and> block_free s b \<and> (\<forall>b'<nblocks s. block_free t b' \<longleftrightarrow> block_free s b' \<and> b' \<noteq> b)
     \<and> content t (of_nat b) = replicate BSIZE 0
     \<and> (\<forall>m. m \<noteq> of_nat b \<longrightarrow> (\<forall>b'<nblocks s. BBLOCK (of_nat b') (sb s) \<noteq> m) \<longrightarrow> content t m = content s m)"

lemma allocated_facts:
  assumes inv: "fs_inv s" and al: "allocated s b t" and fr: "kframe s t"
  shows "unat (of_nat b :: u32) = b" and "in_use t (of_nat b)" and "\<not> in_use s (of_nat b)" and "map_ok t" and "\<not> block_free t 0"
    and "in_use s x \<Longrightarrow> in_use t x \<and> content t x = content s x" and "free_blocks t = free_blocks s - {b}" and "b \<in> free_blocks s"
proof -
  note F = kframe_fields [OF fr]
  have b: "b < nblocks s" "block_free s b" using al by (simp_all add: allocated_def)
  have m: "map_ok s" "\<not> block_free s 0" using inv by (simp_all add: fs_inv_def)
  show u: "unat (of_nat b :: u32) = b" using b(1) unat_u32_lt [of "sb_size (sb s)"] by (intro unat_of_nat_u32) simp
  have v: "of_nat b < disksize s" "off_log s (of_nat b)" "\<forall>b'<nblocks s. BBLOCK (of_nat b') (sb s) \<noteq> of_nat b"
    using m(1) b u by (auto simp: map_ok_def word_less_nat_alt)
  have "b \<noteq> 0" using b(2) m(2) by metis
  then have "(of_nat b :: u32) \<noteq> 0" using u by auto
  then show "in_use t (of_nat b)" using v u b(1) al F by (simp add: in_use_def allocated_def)
  show nu: "\<not> in_use s (of_nat b)" using b(2) u by (simp add: in_use_def)
  have sub: "block_free s b'" if "b' < nblocks s" "block_free t b'" for b' using al that by (simp add: allocated_def)
  then show "map_ok t" using m(1) F by (auto simp: map_ok_def)
  have "0 < nblocks s" using b(1) by simp
  then show "\<not> block_free t 0" using sub m(2) by blast
  show "in_use t x \<and> content t x = content s x" if x: "in_use s x"
  proof
    show "in_use t x" using x F sub [of "unat x"] by (auto simp: in_use_def)
    have "x \<noteq> of_nat b" using x nu by auto
    then show "content t x = content s x" using al x by (simp add: allocated_def in_use_def)
  qed
  show "free_blocks t = free_blocks s - {b}" using al F by (auto simp: free_blocks_def allocated_def)
  show "b \<in> free_blocks s" using b by (simp add: free_blocks_def)
qed

lemma balloc_allocates:
  assumes inv: "fs_inv s" and fr: "0 < card (free_blocks s)" and room: "lh_len s + 2 < unat (log_size s)"
  shows "\<exists>b t. balloc 1 s = Ok (of_nat b) t \<and> allocated s b t \<and> fs_inv t \<and> tframe s t \<and> writes t = writes s
    \<and> lh_len t \<le> lh_len s + 2 \<and> insert (of_nat b) (dirty_blocks s) \<subseteq> dirty_blocks t"
proof -
  note I = fs_invD [OF inv]
  obtain b where b: "b < nblocks s" "block_free s b" "\<forall>c<b. \<not> block_free s c" using lowest_free [OF fr] .
  from balloc_run [OF I(1) _ I(2) b _ _ room I(3)] obtain t where t: "balloc 1 s = Ok (of_nat b) t" "tinv {} t" "tframe s t" "writes t = writes s"
    "content t = (content s)(BBLOCK (of_nat b) (sb s) := bit_take (b mod BPB) (content s (BBLOCK (of_nat b) (sb s))), of_nat b := replicate BSIZE 0)"
    "lh_len t \<le> lh_len s + 2" "dirty_blocks t = insert (of_nat b) (insert (BBLOCK (of_nat b) (sb s)) (dirty_blocks s))"
    "\<forall>b'<nblocks s. block_free t b' \<longleftrightarrow> block_free s b' \<and> b' \<noteq> b" by auto
  have al: "allocated s b t" using b t(5,8) by (auto simp: allocated_def)
  note A = allocated_facts [OF inv al kframe_tframe [OF t(3)]]
  have "fs_inv t" using t(2) A(4,5) I(3) tframe_fields [OF t(3)] by (simp add: fs_inv_def)
  then show ?thesis using t al by blast
qed

section \<open>A buffer held in a transaction\<close>

lemma hold_block:
  assumes inv: "tinv {} s" and m: "m < disksize s"
  shows "\<exists>b t. bread 1 m s = Ok b t \<and> tinv {b} t \<and> tframe s t \<and> writes t = writes s \<and> content t = content s
    \<and> dirty_blocks t = dirty_blocks s \<and> lh_len t = lh_len s \<and> b_blockno (bufs t ! b) = m \<and> b_data (bufs t ! b) = content s m
    \<and> (b_dirty (bufs t ! b) \<or> b_data (bufs t ! b) = disk t m)"
proof -
  note I = tinvD [OF inv]
  have cd: "card {} + card (dirty_blocks s) < NBUF" using tinv_card [OF inv] by simp
  obtain b t where 1: "bread 1 m s = Ok b t" "binv {b} t" "bframe s t" "writes t = writes s" "content t = content s"
      "dirty_blocks t = dirty_blocks s" "b_blockno (bufs t ! b) = m"
    using bread_spec [OF I(1) m _ disjI2 [OF cd]] by auto
  note F = bframe_kbio [OF 1(3)] bframe_klog [OF 1(3)]
  have dat: "b_data (bufs t ! b) = content s m" using content_held [OF 1(2), of b] 1(5,7) by simp
  have "disk t = disk s" using disk_after [OF 1(3), of "[]"] 1(4) by simp
  then have "b_dirty (bufs t ! b) \<or> b_data (bufs t ! b) = disk t m"
    using dat content_clean [OF I(1), of m] dirty_held [OF 1(2), of b] 1(6,7) by auto
  moreover have "tinv {b} t" using 1(2,6) I F log_geometry_frame [OF 1(3)] by (simp add: tinv_def loggable_def)
  ultimately show ?thesis using 1 dat F(9) bframe_tframe [OF 1(3)] by auto
qed

lemma edit_log:
  assumes inv: "tinv {b} s" and m: "b_blockno (bufs s ! b) = m" "off_log s m" and room: "Suc (lh_len s) < unat (log_size s)"
    and out: "1 \<le> sint (log_outstanding s)" and f: "length (f (content s m)) = BSIZE"
  shows "\<exists>t. thenM (modM (upd_buf b (\<lambda>x. x\<lparr>b_data := f (b_data x)\<rparr>))) (log_write b) s = Ok () t \<and> tinv {b} t \<and> tframe s t
    \<and> writes t = writes s \<and> content t = (content s)(m := f (content s m)) \<and> b_dirty (bufs t ! b) \<and> b_blockno (bufs t ! b) = m
    \<and> lh_len t = (if m \<in> dirty_blocks s then lh_len s else Suc (lh_len s)) \<and> dirty_blocks t = insert m (dirty_blocks s)"
proof -
  note I = tinvD [OF inv]
  have dat: "b_data (bufs s ! b) = content s m" using content_held [OF I(1), of b] m(1) by simp
  obtain s2 where 2: "modM (upd_buf b (\<lambda>x. x\<lparr>b_data := f (b_data x)\<rparr>)) s = Ok () s2" "binv {b} s2" "bframe s s2"
      "writes s2 = writes s" "content s2 = (content s)(m := f (content s m))" "dirty_blocks s2 = dirty_blocks s"
      "\<forall>c. b_blockno (bufs s2 ! c) = b_blockno (bufs s ! c)"
    using edit_spec [OF I(1), of b f] f dat m(1) by auto
  note F = bframe_kbio [OF 2(3)] bframe_klog [OF 2(3)]
  have t2: "tinv {b} s2" using 2(2,6) I F log_geometry_frame [OF 2(3)] by (simp add: tinv_def loggable_def)
  obtain t where 3: "log_write b s2 = Ok () t" "tinv {b} t" "tframe s2 t" "writes t = writes s2" "content t = content s2"
      "b_dirty (bufs t ! b)" "dirty_blocks t = insert m (dirty_blocks s2)" "\<forall>c. b_blockno (bufs t ! c) = b_blockno (bufs s2 ! c)"
      "lh_len t = (if m \<in> dirty_blocks s2 then lh_len s2 else Suc (lh_len s2))"
    using log_write_spec [OF t2, of b] room m out F 2(7) by auto
  have "tframe s t" using tframe_trans [OF bframe_tframe [OF 2(3)] 3(3)] .
  then show ?thesis using 2 3 F(9) m(1) by (intro exI [of _ t]) (simp add: thenM_run del: modM_run)
qed

lemma release_block:
  assumes inv: "tinv {b} s" and clean: "b_dirty (bufs s ! b) \<or> b_data (bufs s ! b) = disk s (b_blockno (bufs s ! b))"
  shows "\<exists>t. brelse b s = Ok () t \<and> tinv {} t \<and> tframe s t \<and> writes t = writes s \<and> content t = content s
    \<and> dirty_blocks t = dirty_blocks s \<and> lh_len t = lh_len s"
proof -
  note I = tinvD [OF inv]
  obtain t where 4: "brelse b s = Ok () t" "binv {} t" "bframe s t" "writes t = writes s" "content t = content s" "dirty_blocks t = dirty_blocks s"
    using brelse_spec [OF I(1) _ clean] by auto
  note G = bframe_kbio [OF 4(3)] bframe_klog [OF 4(3)]
  have "tinv {} t" using 4(2,6) I G log_geometry_frame [OF 4(3)] by (simp add: tinv_def loggable_def)
  then show ?thesis using 4 G(9) bframe_tframe [OF 4(3)] by auto
qed

section \<open>The indirect block\<close>

text \<open>The last part of \<open>bmap\<close>: the entry \<open>j\<close> of the indirect block \<open>a\<close>.\<close>

definition ind_entry :: "u32 \<Rightarrow> nat \<Rightarrow> 'z kfs_scheme \<Rightarrow> (u32, 'z kfs_scheme) res" where
  "ind_entry a j = bindM (bread 1 a) (\<lambda>bp.
     bindM (getM (\<lambda>s. get32 (b_data (bufs s ! bp)) (4 * j))) (\<lambda>addr.
     bindM (if addr = 0 then
              bindM (balloc 1) (\<lambda>addr.
              thenM (modM (upd_buf bp (\<lambda>x. x\<lparr>b_data := put32 (4 * j) addr (b_data x)\<rparr>)))
              (thenM (log_write bp) (retM addr)))
            else retM addr) (\<lambda>addr.
     thenM (brelse bp) (retM addr))))"

lemma ind_entry_old:
  assumes inv: "tinv {} s" and a: "a < disksize s" and e: "get32 (content s a) (4 * j) \<noteq> 0"
  shows "\<exists>t. ind_entry a j s = Ok (get32 (content s a) (4 * j)) t \<and> tinv {} t \<and> tframe s t \<and> writes t = writes s \<and> content t = content s
    \<and> dirty_blocks t = dirty_blocks s \<and> lh_len t = lh_len s"
proof -
  obtain b u t where "bread 1 a s = Ok b u" "b_data (bufs u ! b) = content s a" "brelse b u = Ok () t" "tinv {} t" "tframe s t"
      "writes t = writes s" "content t = content s" "dirty_blocks t = dirty_blocks s" "lh_len t = lh_len s"
    using read_block [OF inv a] by blast
  then show ?thesis using e by (intro exI [of _ t]) (simp add: ind_entry_def bindM_run thenM_run)
qed

lemma ind_entry_new:
  assumes inv: "fs_inv s" and a: "in_use s a" and e: "get32 (content s a) (4 * j) = 0" and fr: "0 < card (free_blocks s)"
    and room: "lh_len s + 3 < unat (log_size s)"
  shows "\<exists>b u t. ind_entry a j s = Ok (of_nat b) t \<and> allocated s b u \<and> kframe s u \<and> tframe u t \<and> tinv {} t \<and> tframe s t \<and> writes t = writes s
    \<and> content t = (content u)(a := put32 (4 * j) (of_nat b) (content s a)) \<and> lh_len t \<le> lh_len s + (if a \<in> dirty_blocks s then 2 else 3)
    \<and> insert a (insert (of_nat b) (dirty_blocks s)) \<subseteq> dirty_blocks t"
proof -
  note I = fs_invD [OF inv]
  have ad: "a < disksize s" "off_log s a" using a by (simp_all add: in_use_def)
  obtain bp s1 where 1: "bread 1 a s = Ok bp s1" "tinv {bp} s1" "tframe s s1" "writes s1 = writes s" "content s1 = content s"
      "dirty_blocks s1 = dirty_blocks s" "lh_len s1 = lh_len s" "b_blockno (bufs s1 ! bp) = a" "b_data (bufs s1 ! bp) = content s a"
    using hold_block [OF I(1) ad(1)] by blast
  note F = tframe_fields [OF 1(3)] and K = tframe_kfs [OF 1(3)]
  have bf: "block_free s1 = block_free s" by (auto simp: block_free_def fun_eq_iff 1(5) K)
  obtain b where b: "b < nblocks s" "block_free s b" "\<forall>c<b. \<not> block_free s c" using lowest_free [OF fr] .
  have u: "unat (of_nat b :: u32) = b" using b(1) unat_u32_lt [of "sb_size (sb s)"] by (intro unat_of_nat_u32) simp
  have ab: "a \<noteq> of_nat b" "\<forall>b'<nblocks s. BBLOCK (of_nat b') (sb s) \<noteq> a" using a b(2) u by (auto simp: in_use_def)
  have un: "unheld {bp} s1 (of_nat b)" "\<forall>b'<nblocks s1. unheld {bp} s1 (BBLOCK (of_nat b') (sb s1))"
    using ab 1(8) K by (auto simp: unheld_def)
  have m1: "map_ok s1" using I(2) F K by (simp add: map_ok_def bf)
  from balloc_run [OF 1(2) _ m1, of b] obtain s2 where 2: "balloc 1 s1 = Ok (of_nat b) s2" "tinv {bp} s2" "tframe s1 s2" "writes s2 = writes s1"
    "same_held {bp} s1 s2"
    "content s2 = (content s1)(BBLOCK (of_nat b) (sb s1) := bit_take (b mod BPB) (content s1 (BBLOCK (of_nat b) (sb s1))), of_nat b := replicate BSIZE 0)"
    "lh_len s2 \<le> lh_len s1 + 2" "dirty_blocks s2 = insert (of_nat b) (insert (BBLOCK (of_nat b) (sb s1)) (dirty_blocks s1))"
    "\<forall>b'<nblocks s1. block_free s2 b' \<longleftrightarrow> block_free s1 b' \<and> b' \<noteq> b"
    using b un room I(3) F K 1(7) by (auto simp: bf)
  note G = tframe_fields [OF 2(3)] and L = tframe_kfs [OF 2(3)]
  have al: "allocated s b s2" using b 2(6,9) 1(5) K by (auto simp: allocated_def bf)
  have kf: "kframe s s2" using kframe_tframe [OF tframe_trans [OF 1(3) 2(3)]] .
  have ca: "content s2 a = content s a" using allocated_facts(6) [OF inv al kf a] by simp
  have bn: "b_blockno (bufs s2 ! bp) = a" using 2(5) 1(8) by (simp add: same_held_def)
  have len: "length (put32 (4 * j) (of_nat b) (content s2 a)) = BSIZE" using content_len [OF I(1) ad(1)] ca by simp
  obtain s3 where 3: "thenM (modM (upd_buf bp (\<lambda>x. x\<lparr>b_data := put32 (4 * j) (of_nat b) (b_data x)\<rparr>))) (log_write bp) s2 = Ok () s3"
      "tinv {bp} s3" "tframe s2 s3" "writes s3 = writes s2" "content s3 = (content s2)(a := put32 (4 * j) (of_nat b) (content s2 a))"
      "b_dirty (bufs s3 ! bp)" "lh_len s3 = (if a \<in> dirty_blocks s2 then lh_len s2 else Suc (lh_len s2))"
      "dirty_blocks s3 = insert a (dirty_blocks s2)"
    using edit_log [OF 2(2) bn, of "put32 (4 * j) (of_nat b)"] ad(2) room 2(7) 1(7) I(3) F G len by auto
  obtain t where 4: "brelse bp s3 = Ok () t" "tinv {} t" "tframe s3 t" "writes t = writes s3" "content t = content s3"
      "dirty_blocks t = dirty_blocks s3" "lh_len t = lh_len s3"
    using release_block [OF 3(2) disjI1 [OF 3(6)]] by blast
  have "ind_entry a j s = Ok (of_nat b) t"
    using 1(1,9) e 2(1) 3(1) 4(1) by (auto simp: ind_entry_def bindM_run thenM_run split: res.splits)
  moreover have "tframe s t" using tframe_trans [OF 1(3) tframe_trans [OF 2(3) tframe_trans [OF 3(3) 4(3)]]] .
  moreover have "lh_len t \<le> lh_len s + (if a \<in> dirty_blocks s then 2 else 3)" using 4(7) 3(7) 2(7,8) 1(6,7) by auto
  moreover have "content t = (content s2)(a := put32 (4 * j) (of_nat b) (content s a))" using 4(5) 3(5) ca by simp
  moreover have "tframe s2 t" using tframe_trans [OF 3(3) 4(3)] .
  moreover have "insert a (insert (of_nat b) (dirty_blocks s)) \<subseteq> dirty_blocks t" using 4(6) 3(8) 2(8) 1(6) by auto
  ultimately show ?thesis using al kf 4(2,4) 3(4) 2(4) 1(4) by auto
qed

lemma ind_entry_allocates:
  assumes inv: "fs_inv s" and a: "in_use s a" and e: "get32 (content s a) (4 * j) = 0" and fr: "0 < card (free_blocks s)"
    and room: "lh_len s + 3 < unat (log_size s)"
  shows "\<exists>v t. ind_entry a j s = Ok v t \<and> fs_inv t \<and> tframe s t \<and> writes t = writes s
    \<and> in_use t v \<and> \<not> in_use s v \<and> content t v = replicate BSIZE 0 \<and> content t a = put32 (4 * j) v (content s a)
    \<and> (\<forall>x. in_use s x \<longrightarrow> in_use t x \<and> (x \<noteq> a \<longrightarrow> content t x = content s x))
    \<and> card (free_blocks s) = Suc (card (free_blocks t))
    \<and> lh_len t \<le> lh_len s + (if a \<in> dirty_blocks s then 2 else 3) \<and> insert a (insert v (dirty_blocks s)) \<subseteq> dirty_blocks t"
proof -
  obtain b u t where 1: "ind_entry a j s = Ok (of_nat b) t" "allocated s b u" "kframe s u" "tframe u t" "tinv {} t" "tframe s t" "writes t = writes s"
      "content t = (content u)(a := put32 (4 * j) (of_nat b) (content s a))" "lh_len t \<le> lh_len s + (if a \<in> dirty_blocks s then 2 else 3)"
      "insert a (insert (of_nat b) (dirty_blocks s)) \<subseteq> dirty_blocks t"
    using ind_entry_new [OF assms] by blast
  note A = allocated_facts [OF inv 1(2,3)]
  note F = kframe_fields [OF 1(3)]
  have ua: "in_use u a" using A(6) [OF a] by simp
  then have "content t m = content u m" if "\<exists>b'<nblocks u. m = BBLOCK (of_nat b') (sb u)" for m
    using 1(8) that by (auto simp: in_use_def)
  note S = same_map [OF kframe_tframe [OF 1(4)] this]
  have "0 < nblocks u" using ua by (auto simp: in_use_def)
  then have "\<not> block_free t 0" using S(1) [of 0] A(5) by simp
  then have "fs_inv t" using 1(5) S(4) A(4) tframe_fields [OF 1(6)] fs_invD(3) [OF inv] by (simp add: fs_inv_def)
  moreover have "a \<noteq> of_nat b" using a A(3) by auto
  moreover have "free_blocks t = free_blocks s - {b}" using S(3) A(7) by simp
  then have "card (free_blocks s) = Suc (card (free_blocks t))" using card.remove [OF finite_free A(8)] by simp
  moreover have "content u (of_nat b) = replicate BSIZE 0" using 1(2) by (simp add: allocated_def)
  ultimately show ?thesis using 1(1,6-10) A S(2) by (intro exI [of _ "of_nat b"] exI [of _ t]) auto
qed

section \<open>\<open>bmap\<close>\<close>

lemma bmap_cases:
  assumes i: "icache s ! ip = i" "i_dev i = 1" and k: "k < MAXFILE"
  shows "bmap ip (of_nat k) s =
    (if k < NDIRECT then
       (if i_addrs i ! k = 0 then bindM (balloc 1) (\<lambda>addr. thenM (modM (upd_inode ip (\<lambda>x. x\<lparr>i_addrs := (i_addrs x)[k := addr]\<rparr>))) (retM addr)) s
        else Ok (i_addrs i ! k) s)
     else if ind_addr i = 0 then
       bindM (balloc 1) (\<lambda>addr. thenM (modM (upd_inode ip (\<lambda>x. x\<lparr>i_addrs := (i_addrs x)[NDIRECT := addr]\<rparr>))) (ind_entry addr (k - NDIRECT))) s
     else ind_entry (ind_addr i) (k - NDIRECT) s)"
proof -
  have k': "k < 140" using k by (simp add: MAXFILE_def NDIRECT_def NINDIRECT_def)
  then have u: "unat (of_nat k :: u32) = k" by (intro unat_of_nat_u32) simp
  have lt: "(of_nat k :: u32) < of_nat NDIRECT \<longleftrightarrow> k < NDIRECT" using u by (simp add: word_less_nat_alt NDIRECT_def)
  show ?thesis
  proof (cases "k < NDIRECT")
    case True
    then show ?thesis using i u lt by (simp add: bmap_def inodeM_def bindM_run)
  next
    case False
    define bn where "bn = (of_nat k :: u32)"
    define c where "c = bn - of_nat NDIRECT"
    have "c = of_nat (k - NDIRECT)" using False by (simp add: bn_def c_def of_nat_diff)
    then have v: "unat c = k - NDIRECT" using k' unat_of_nat_u32 [of "k - NDIRECT"] by simp
    then have w: "c < of_nat NINDIRECT" using k' False by (simp add: word_less_nat_alt NDIRECT_def NINDIRECT_def)
    have nl: "\<not> bn < of_nat NDIRECT" using lt False by (simp add: bn_def)
    have "bmap ip bn s = bindM (if ind_addr i = 0 then
         bindM (balloc 1) (\<lambda>addr. thenM (modM (upd_inode ip (\<lambda>x. x\<lparr>i_addrs := (i_addrs x)[NDIRECT := addr]\<rparr>))) (retM addr))
       else retM (ind_addr i)) (\<lambda>addr. ind_entry addr (k - NDIRECT)) s"
      by (simp only: bmap_def inodeM_def bindM_run getM_run res.case i nl if_False Let_def c_def [symmetric] w if_True ind_entry_def v)
    note this [unfolded bn_def]
    then show ?thesis using False by (simp add: bindM_run thenM_run split: res.split)
  qed
qed

text \<open>How much of the log \<open>bmap\<close> may still need for the indirect block, and how many free blocks.\<close>

definition log_due :: "'z kfs_scheme \<Rightarrow> inode \<Rightarrow> nat" where
  "log_due s i = (if ind_addr i \<noteq> 0 \<and> ind_addr i \<in> dirty_blocks s then 0 else 2)"

definition block_due :: "inode \<Rightarrow> nat" where
  "block_due i = (if ind_addr i = 0 then 1 else 0)"

text \<open>What holds after \<open>bmap\<close> for part \<open>k\<close> of the file of inode \<open>i\<close>, which is \<open>i'\<close> now.\<close>

definition bmap_post :: "'z kfs_scheme \<Rightarrow> nat \<Rightarrow> inode \<Rightarrow> nat \<Rightarrow> 'z kfs_scheme \<Rightarrow> inode \<Rightarrow> bool" where
  "bmap_post s ip i k t i' \<longleftrightarrow> fs_inv t \<and> kframe s t \<and> writes t = writes s \<and> icache t = (icache s)[ip := i'] \<and> (\<exists>as. i' = i\<lparr>i_addrs := as\<rparr>)
     \<and> file_wf t i' \<and> fblk t i' k \<noteq> 0 \<and> (\<forall>k'<MAXFILE. k' \<noteq> k \<longrightarrow> fblk t i' k' = fblk s i k') \<and> ind_addr i' \<in> {ind_addr i} \<union> {v. \<not> in_use s v}
     \<and> (if fblk s i k = 0 then \<not> in_use s (fblk t i' k) \<and> content t (fblk t i' k) = replicate BSIZE 0 \<and> fblk t i' k \<in> dirty_blocks t
        else fblk t i' k = fblk s i k)
     \<and> (\<forall>x. in_use s x \<longrightarrow> in_use t x \<and> (x \<noteq> ind_addr i \<longrightarrow> content t x = content s x)) \<and> dirty_blocks s \<subseteq> dirty_blocks t
     \<and> lh_len t + log_due t i' \<le> lh_len s + log_due s i + (if fblk s i k = 0 then 2 else 0)
     \<and> card (free_blocks s) + block_due i' \<le> card (free_blocks t) + block_due i + (if fblk s i k = 0 then 1 else 0)"

lemma file_wf_extend:
  assumes wf: "file_wf s i" and keep: "\<And>x. in_use s x \<Longrightarrow> in_use t x" and fr: "kframe s t" and i': "i_inum i' = i_inum i" "length (i_addrs i') = NDIRECT + 1"
    and v: "in_use t v" "\<not> in_use s v" "fblk t i' k = v" and oth: "\<forall>k'<MAXFILE. k' \<noteq> k \<longrightarrow> fblk t i' k' = fblk s i k'"
    and ia: "ind_addr i' = ind_addr i \<or> ind_addr i = 0 \<and> in_use t (ind_addr i') \<and> \<not> in_use s (ind_addr i') \<and> ind_addr i' \<noteq> v"
  shows "file_wf t i'"
proof -
  have K: "sb t = sb s" using kframe_fields [OF fr] by simp
  have old: "in_use s (fblk s i k') \<and> fblk s i k' \<noteq> ind_addr i \<and> fblk s i k' \<noteq> IBLOCK (i_inum i) (sb s)" if "k' < MAXFILE" "fblk s i k' \<noteq> 0" for k'
    using wf that by (simp add: file_wf_def)
  have ib: "in_use s (IBLOCK (i_inum i) (sb s))" and ii: "ind_addr i \<noteq> 0 \<Longrightarrow> in_use s (ind_addr i) \<and> ind_addr i \<noteq> IBLOCK (i_inum i) (sb s)"
    using wf by (simp_all add: file_wf_def)
  have z: "v \<noteq> 0" "v \<noteq> IBLOCK (i_inum i) (sb s)" using v ib by (auto simp: in_use_def)
  have "ind_addr i' \<noteq> 0 \<Longrightarrow> in_use t (ind_addr i') \<and> ind_addr i' \<noteq> IBLOCK (i_inum i) (sb s)" using ia ii keep ib by auto
  moreover have vi: "v \<noteq> ind_addr i'" using ia v(2) z(1) ii by (cases "ind_addr i = 0") auto
  have "in_use t (fblk t i' k') \<and> fblk t i' k' \<noteq> ind_addr i' \<and> fblk t i' k' \<noteq> IBLOCK (i_inum i) (sb s)"
    if "k' < MAXFILE" "fblk t i' k' \<noteq> 0" for k'
  proof (cases "k' = k")
    case True
    then show ?thesis using v vi z by simp
  next
    case False
    then have "fblk t i' k' = fblk s i k'" using oth that by simp
    then show ?thesis using old [OF that(1)] that(2) keep ia by auto
  qed
  moreover have "k1 = k2" if k: "k1 < MAXFILE" "k2 < MAXFILE" and e: "fblk t i' k1 = fblk t i' k2" "fblk t i' k1 \<noteq> 0" for k1 k2
  proof -
    have nv: "fblk t i' k' \<noteq> v" if "k' < MAXFILE" "k' \<noteq> k" for k'
      using oth that old [OF that(1)] v(2) z(1) by (cases "fblk s i k' = 0") auto
    consider "k1 = k" | "k2 = k" | "k1 \<noteq> k" "k2 \<noteq> k" by blast
    then show ?thesis
    proof cases
      case 3
      then show ?thesis using wf k e oth by (auto simp: file_wf_def)
    qed (use nv k e v(3) in metis)+
  qed
  ultimately show ?thesis using i' keep [OF ib] unfolding file_wf_def K by auto
qed

lemma fblk_same:
  assumes "\<And>x. in_use s x \<Longrightarrow> content t x = content s x" and "file_wf s i" and "i_addrs i' = (i_addrs i)[k := v]" and "k < NDIRECT" and "k' \<noteq> k"
  shows "fblk t i' k' = fblk s i k'" and "ind_addr i' = ind_addr i"
  using assms by (auto simp: fblk_def file_wf_def NDIRECT_def)

lemma bmap_old:
  assumes inv: "fs_inv s" and i: "icache s ! ip = i" "i_dev i = 1" and k: "k < MAXFILE" and wf: "file_wf s i" and b: "fblk s i k \<noteq> 0"
  shows "\<exists>t. bmap ip (of_nat k) s = Ok (fblk s i k) t \<and> tinv {} t \<and> tframe s t \<and> writes t = writes s \<and> content t = content s
    \<and> dirty_blocks t = dirty_blocks s \<and> lh_len t = lh_len s"
proof (cases "k < NDIRECT")
  case True
  then show ?thesis using b bmap_cases [of s ip, OF i k] fs_invD(1) [OF inv] by (simp add: fblk_def)
next
  case False
  then have a: "ind_addr i \<noteq> 0" "get32 (content s (ind_addr i)) (4 * (k - NDIRECT)) \<noteq> 0" using b by (auto simp: fblk_def split: if_split_asm)
  then have "ind_addr i < disksize s" using wf by (simp add: file_wf_def in_use_def)
  from ind_entry_old [OF fs_invD(1) [OF inv] this a(2)] show ?thesis using False a bmap_cases [of s ip, OF i k] by (simp add: fblk_def)
qed

lemma bmap_direct:
  assumes inv: "fs_inv s" and ip: "ip < length (icache s)" and i: "icache s ! ip = i" "i_dev i = 1" and k: "k < NDIRECT" and wf: "file_wf s i"
    and b: "fblk s i k = 0" and room: "lh_len s + 3 < unat (log_size s)" and fr: "0 < card (free_blocks s)"
  shows "\<exists>t i'. bmap ip (of_nat k) s = Ok (fblk t i' k) t \<and> bmap_post s ip i k t i'"
proof -
  have k': "k < MAXFILE" using k by (simp add: MAXFILE_def)
  obtain b t where 1: "balloc 1 s = Ok (of_nat b) t" "allocated s b t" "fs_inv t" "tframe s t" "writes t = writes s"
      "lh_len t \<le> lh_len s + 2" "insert (of_nat b) (dirty_blocks s) \<subseteq> dirty_blocks t"
    using balloc_allocates [OF inv fr] room by auto
  note A = allocated_facts [OF inv 1(2) kframe_tframe [OF 1(4)]]
  have ic: "icache t = icache s" using tframe_kfs [OF 1(4)] by simp
  let ?i = "i\<lparr>i_addrs := (i_addrs i)[k := of_nat b]\<rparr>"
  let ?t = "t\<lparr>icache := (icache s)[ip := ?i]\<rparr>"
  have b0: "i_addrs i ! k = 0" and len: "length (i_addrs i) = NDIRECT + 1" using b k wf by (simp_all add: fblk_def file_wf_def)
  have at: "fblk ?t ?i k = of_nat b" using k len by (simp add: fblk_def)
  have sm: "fblk ?t ?i k' = fblk s i k'" "ind_addr ?i = ind_addr i" if "k' \<noteq> k" for k'
    using fblk_same [of s ?t i ?i k "of_nat b", OF _ wf _ k that] A(6) by auto
  have ii: "ind_addr ?i = ind_addr i" using k by simp
  have "bmap ip (of_nat k) s = Ok (of_nat b) ?t" using 1(1) b0 k ic i bmap_cases [of s ip, OF i k'] by (simp add: bindM_run thenM_run upd_inode_def)
  moreover have "file_wf ?t ?i"
    using file_wf_extend [OF wf, of ?t ?i "of_nat b" k] A(2,3,6) 1(4) at sm len ii by (simp add: kframe_tframe)
  moreover have "lh_len ?t + log_due ?t ?i \<le> lh_len s + log_due s i + 2" using 1(6,7) ii by (auto simp: log_due_def)
  moreover have "card (free_blocks s) = Suc (card (free_blocks t))" unfolding A(7) using card.remove [OF finite_free A(8)] by simp
  moreover have "in_use t (of_nat b)" "content t (of_nat b) = replicate BSIZE 0" using A(2) 1(2) by (simp_all add: allocated_def)
  ultimately show ?thesis
    using at sm ii A(3,6) 1(3-5,7) b unfolding bmap_post_def
    by (intro exI [of _ ?t] exI [of _ ?i] conjI) (auto simp: kframe_tframe block_due_def in_use_def)
qed

lemma bmap_indirect:
  assumes inv: "fs_inv s" and ip: "ip < length (icache s)" and i: "icache s ! ip = i" "i_dev i = 1" and k: "\<not> k < NDIRECT" "k < MAXFILE" and wf: "file_wf s i"
    and a: "ind_addr i \<noteq> 0" and b: "fblk s i k = 0" and room: "lh_len s + 3 < unat (log_size s)" and fr: "0 < card (free_blocks s)"
  shows "\<exists>t i'. bmap ip (of_nat k) s = Ok (fblk t i' k) t \<and> bmap_post s ip i k t i'"
proof -
  let ?a = "ind_addr i" and ?j = "k - NDIRECT"
  have au: "in_use s ?a" using wf a by (simp add: file_wf_def)
  have e: "get32 (content s ?a) (4 * ?j) = 0" using b a k by (simp add: fblk_def)
  obtain v t where 1: "ind_entry ?a ?j s = Ok v t" "fs_inv t" "tframe s t" "writes t = writes s"
     "in_use t v" "\<not> in_use s v" "content t v = replicate BSIZE 0" "content t ?a = put32 (4 * ?j) v (content s ?a)"
     "\<forall>x. in_use s x \<longrightarrow> in_use t x \<and> (x \<noteq> ?a \<longrightarrow> content t x = content s x)"
     "card (free_blocks s) = Suc (card (free_blocks t))" "lh_len t \<le> lh_len s + (if ?a \<in> dirty_blocks s then 2 else 3)"
     "insert ?a (insert v (dirty_blocks s)) \<subseteq> dirty_blocks t"
    using ind_entry_allocates [OF inv au e fr room] by blast
  have "length (content s ?a) = BSIZE" using content_len [OF fs_invD(1) [OF inv]] au by (simp add: in_use_def)
  moreover have "?j < 128" using k by (simp add: MAXFILE_def NINDIRECT_def)
  ultimately have at: "fblk t i k = v" using k a 1(8) by (simp add: fblk_def get32_put32 BSIZE_def)
  have sm: "fblk t i k' = fblk s i k'" if "k' \<noteq> k" for k'
  proof (cases "k' < NDIRECT")
    case False
    then have "4 * ?j + 4 \<le> 4 * (k' - NDIRECT) \<or> 4 * (k' - NDIRECT) + 4 \<le> 4 * ?j" using that k by linarith
    then show ?thesis using False a 1(8) get32_put32_other [of "4 * ?j" "4 * (k' - NDIRECT)" v "content s ?a"] by (simp add: fblk_def)
  qed (simp add: fblk_def)
  have ic: "icache t = (icache s)[ip := i]" using tframe_kfs [OF 1(3)] ip i(1) list_update_id [of "icache s" ip] by simp
  have "file_wf t i"
    using file_wf_extend [OF wf, of t i v k] 1(3,5,6,9) at sm wf by (simp add: kframe_tframe file_wf_def)
  moreover have "bmap ip (of_nat k) s = Ok v t" using 1(1) a k bmap_cases [of s ip, OF i k(2)] by simp
  moreover have "lh_len t + log_due t i \<le> lh_len s + log_due s i + 2" using 1(11,12) a by (auto simp: log_due_def)
  moreover have "\<exists>as. i = i\<lparr>i_addrs := as\<rparr>" by (rule exI [of _ "i_addrs i"]) simp
  ultimately show ?thesis
    using at sm 1 b ic unfolding bmap_post_def
    by (intro exI [of _ t] exI [of _ i] conjI) (auto simp: kframe_tframe block_due_def in_use_def)
qed

lemma bmap_new_indirect:
  assumes inv: "fs_inv s" and ip: "ip < length (icache s)" and i: "icache s ! ip = i" "i_dev i = 1" and k: "\<not> k < NDIRECT" "k < MAXFILE" and wf: "file_wf s i"
    and a: "ind_addr i = 0" and room: "lh_len s + 5 < unat (log_size s)" and fr: "1 < card (free_blocks s)"
  shows "\<exists>t i'. bmap ip (of_nat k) s = Ok (fblk t i' k) t \<and> bmap_post s ip i k t i'"
proof -
  obtain b u where 1: "balloc 1 s = Ok (of_nat b) u" "allocated s b u" "fs_inv u" "tframe s u" "writes u = writes s"
      "lh_len u \<le> lh_len s + 2" "insert (of_nat b) (dirty_blocks s) \<subseteq> dirty_blocks u"
    using balloc_allocates [OF inv] room fr by auto
  note A = allocated_facts [OF inv 1(2) kframe_tframe [OF 1(4)]]
  have cd: "card (free_blocks s) = Suc (card (free_blocks u))" unfolding A(7) using card.remove [OF finite_free A(8)] by simp
  let ?a = "of_nat b :: u32" and ?j = "k - NDIRECT"
  let ?i = "i\<lparr>i_addrs := (i_addrs i)[NDIRECT := ?a]\<rparr>"
  let ?u = "u\<lparr>icache := (icache s)[ip := ?i]\<rparr>"
  have len: "length (i_addrs i) = NDIRECT + 1" using wf by (simp add: file_wf_def)
  have za: "content ?u ?a = replicate BSIZE 0" using 1(2) by (simp add: allocated_def)
  have jl: "?j < 128" using k by (simp add: MAXFILE_def NINDIRECT_def)
  have z: "get32 (replicate BSIZE 0) (4 * j) = (0 :: u32)" if "j < 128" for j using that by (simp add: get32_def BSIZE_def le32_def)
  have e: "get32 (content ?u ?a) (4 * ?j) = 0" using z [OF jl] za by simp
  have "lh_len ?u + 3 < unat (log_size ?u)" using 1(6) room tframe_fields [OF 1(4)] by simp
  then obtain v t where 2: "ind_entry ?a ?j ?u = Ok v t" "fs_inv t" "tframe ?u t" "writes t = writes ?u"
     "in_use t v" "\<not> in_use ?u v" "content t v = replicate BSIZE 0" "content t ?a = put32 (4 * ?j) v (content ?u ?a)"
     "\<forall>x. in_use ?u x \<longrightarrow> in_use t x \<and> (x \<noteq> ?a \<longrightarrow> content t x = content ?u x)"
     "card (free_blocks ?u) = Suc (card (free_blocks t))" "lh_len t \<le> lh_len ?u + (if ?a \<in> dirty_blocks ?u then 2 else 3)"
     "insert ?a (insert v (dirty_blocks ?u)) \<subseteq> dirty_blocks t"
    using ind_entry_allocates [of ?u ?a ?j] e A(2) 1(3) cd fr by auto
  have kf: "kframe s t" using kframe_trans [OF _ kframe_tframe [OF 2(3)], of s] kframe_tframe [OF 1(4)] by simp
  have ic: "icache t = (icache s)[ip := ?i]" using tframe_kfs [OF 2(3)] by simp
  have keep: "in_use t x \<and> content t x = content s x" if x: "in_use s x" for x
  proof -
    have "in_use ?u x" "x \<noteq> ?a" using A(3,6) x by auto
    then show ?thesis using 2(9) A(6) [OF x] by auto
  qed
  have nv: "\<not> in_use s v" "v \<noteq> ?a" using 2(6) A(2,6) by auto
  have at: "fblk t ?i k = v" using k 2(8) za len A(2) by (simp add: fblk_def get32_put32 BSIZE_def in_use_def)
    (use jl in \<open>simp add: get32_put32\<close>)
  have sm: "fblk t ?i k' = fblk s i k'" if "k' \<noteq> k" "k' < MAXFILE" for k'
  proof (cases "k' < NDIRECT")
    case False
    then have "4 * ?j + 4 \<le> 4 * (k' - NDIRECT) \<or> 4 * (k' - NDIRECT) + 4 \<le> 4 * ?j" using that k by linarith
    moreover have "k' - NDIRECT < 128" using that(2) by (simp add: MAXFILE_def NINDIRECT_def)
    ultimately show ?thesis using False a 2(8) za len A(2) get32_put32_other [of "4 * ?j" "4 * (k' - NDIRECT)" v "replicate BSIZE 0"] z [of "k' - NDIRECT"]
      by (simp add: fblk_def)
  qed (simp add: fblk_def)
  have b0: "fblk s i k = 0" using k a by (simp add: fblk_def)
  have ii: "ind_addr ?i = ?a" using len by simp
  have "bmap ip (of_nat k) s = Ok v t"
    using 1(1) 2(1) a k i tframe_kfs [OF 1(4)] bmap_cases [of s ip, OF i k(2)] by (simp add: bindM_run thenM_run upd_inode_def)
  moreover have "file_wf t ?i"
    using file_wf_extend [OF wf, of t ?i v k] keep kf 2(5,9) nv at sm len ii a A(2,3) by auto
  moreover have "?a \<noteq> 0" using A(2) by (simp add: in_use_def)
  then have "lh_len t + log_due t ?i \<le> lh_len s + log_due s i + 2" "block_due ?i = 0" "block_due i = 1"
    using 1(6,7) 2(11,12) a ii by (auto simp: log_due_def block_due_def)
  moreover have "card (free_blocks s) = Suc (Suc (card (free_blocks t)))" using cd 2(10) by simp
  ultimately show ?thesis
    using at sm ii nv A(3) 2(2,4,5,7,12) 1(5,7) b0 ic kf keep unfolding bmap_post_def
    by (intro exI [of _ t] exI [of _ ?i] conjI) (auto simp: in_use_def)
qed

text \<open>\<open>bmap\<close> gives a block for every part of a file that a file may have.\<close>

lemma bmap_spec:
  assumes inv: "fs_inv s" and ip: "ip < length (icache s)" and i: "icache s ! ip = i" "i_dev i = 1" and k: "k < MAXFILE" and wf: "file_wf s i"
    and room: "lh_len s + log_due s i + 3 < unat (log_size s)" and fr: "block_due i < card (free_blocks s)"
  shows "\<exists>t i'. bmap ip (of_nat k) s = Ok (fblk t i' k) t \<and> bmap_post s ip i k t i'"
proof (cases "fblk s i k = 0")
  case True
  consider "k < NDIRECT" | "\<not> k < NDIRECT" "ind_addr i \<noteq> 0" | "\<not> k < NDIRECT" "ind_addr i = 0" by blast
  then show ?thesis
  proof cases
    case 1
    then show ?thesis using bmap_direct [OF inv ip i 1 wf True] room fr by simp
  next
    case 2
    then show ?thesis using bmap_indirect [OF inv ip i 2(1) k wf 2(2) True] room fr by simp
  next
    case 3
    then show ?thesis using bmap_new_indirect [OF inv ip i 3(1) k wf 3(2)] room fr by (simp add: log_due_def block_due_def)
  qed
next
  case False
  obtain t where 1: "bmap ip (of_nat k) s = Ok (fblk s i k) t" "tinv {} t" "tframe s t" "writes t = writes s" "content t = content s"
     "dirty_blocks t = dirty_blocks s" "lh_len t = lh_len s"
    using bmap_old [OF inv i k wf False] by blast
  note S = same_map [OF kframe_tframe [OF 1(3)], simplified 1(5), OF refl]
  have fb: "fblk t i = fblk s i" by (auto simp: fblk_def 1(5))
  have wt: "file_wf t i" using wf tframe_kfs [OF 1(3)] by (simp add: file_wf_def S(2) fb)
  have "in_use s (fblk s i k)" using wf k False by (simp add: file_wf_def)
  then have "0 < nblocks s" by (auto simp: in_use_def)
  then have "fs_inv t" using fs_inv_same_map [OF inv kframe_tframe [OF 1(3)] 1(2)] 1(5) by simp
  moreover have "icache t = (icache s)[ip := i]" using tframe_kfs [OF 1(3)] ip i(1) list_update_id [of "icache s" ip] by simp
  moreover have "\<exists>as. i = i\<lparr>i_addrs := as\<rparr>" by (rule exI [of _ "i_addrs i"]) simp
  ultimately show ?thesis using 1 False wt unfolding bmap_post_def
    by (intro exI [of _ t] exI [of _ i] conjI) (simp_all add: kframe_tframe fb S log_due_def block_due_def)
qed

section \<open>The bytes of a file\<close>

definition fbyte :: "'z kfs_scheme \<Rightarrow> inode \<Rightarrow> nat \<Rightarrow> u8" where
  "fbyte s i j = (if fblk s i (j div BSIZE) = 0 then 0 else content s (fblk s i (j div BSIZE)) ! (j mod BSIZE))"

definition file_bytes :: "'z kfs_scheme \<Rightarrow> inode \<Rightarrow> u8 list" where
  "file_bytes s i = map (fbyte s i) [0..<unat (i_size i)]"

definition owned :: "'z kfs_scheme \<Rightarrow> inode \<Rightarrow> u32 set" where
  "owned s i = insert (ind_addr i) (fblk s i ` {..<MAXFILE})"

text \<open>What the updates of the file of inode \<open>i\<close> keep.\<close>

definition file_frame :: "'z kfs_scheme \<Rightarrow> nat \<Rightarrow> inode \<Rightarrow> 'z kfs_scheme \<Rightarrow> inode \<Rightarrow> bool" where
  "file_frame s ip i t i' \<longleftrightarrow> fs_inv t \<and> kframe s t \<and> writes t = writes s \<and> icache t = (icache s)[ip := i'] \<and> (\<exists>as. i' = i\<lparr>i_addrs := as\<rparr>)
     \<and> file_wf t i' \<and> (\<forall>x. in_use s x \<longrightarrow> x \<notin> owned s i \<longrightarrow> in_use t x \<and> x \<notin> owned t i' \<and> content t x = content s x)"

lemma file_frame_refl: "fs_inv s \<Longrightarrow> file_wf s i \<Longrightarrow> icache s ! ip = i \<Longrightarrow> ip < length (icache s) \<Longrightarrow> file_frame s ip i s i"
  unfolding file_frame_def by (auto intro: exI [of _ "i_addrs i"])

lemma file_frame_trans: "file_frame s ip i t i1 \<Longrightarrow> file_frame t ip i1 u i2 \<Longrightarrow> file_frame s ip i u i2"
  unfolding file_frame_def by (auto intro: kframe_trans)

lemma then_three: "thenM A (thenM B C) u = Ok () t \<Longrightarrow> thenM A (thenM B (thenM C D)) u = D t"
  by (auto simp: thenM_run split: res.splits)

text \<open>One block is written.\<close>

lemma write_block:
  assumes inv: "fs_inv s" and ip: "ip < length (icache s)" and i: "icache s ! ip = i" "i_dev i = 1" and wf: "file_wf s i"
    and off: "off + length piece \<le> MAXFILE * BSIZE" "off mod BSIZE + length piece \<le> BSIZE" "piece \<noteq> []"
    and room: "lh_len s + log_due s i + 3 < unat (log_size s)" and fr: "block_due i < card (free_blocks s)"
  shows "\<exists>v t1 b u t i'. bmap ip (of_nat (off div BSIZE)) s = Ok v t1 \<and> bread 1 v t1 = Ok b u \<and> kframe s u
    \<and> thenM (modM (upd_buf b (\<lambda>x. x\<lparr>b_data := splice (off mod BSIZE) piece (b_data x)\<rparr>))) (thenM (log_write b) (brelse b)) u = Ok () t
    \<and> file_frame s ip i t i'
    \<and> (\<forall>j<MAXFILE * BSIZE. fbyte t i' j = (if off \<le> j \<and> j < off + length piece then piece ! (j - off) else fbyte s i j))
    \<and> lh_len t + log_due t i' \<le> lh_len s + log_due s i + 2 \<and> card (free_blocks s) + block_due i' \<le> card (free_blocks t) + block_due i + 1"
proof -
  let ?k = "off div BSIZE" and ?r = "off mod BSIZE"
  have bs: "BSIZE = 512" by (simp add: BSIZE_def)
  have "off < MAXFILE * BSIZE" using off(1,3) by (cases piece) simp_all
  then have k: "?k < MAXFILE" by (simp add: less_mult_imp_div_less)
  obtain t1 i1 where 1: "bmap ip (of_nat ?k) s = Ok (fblk t1 i1 ?k) t1" and p: "bmap_post s ip i ?k t1 i1"
    using bmap_spec [OF inv ip i k wf room fr] by blast
  define v where "v = fblk t1 i1 ?k"
  have P: "fs_inv t1" "kframe s t1" "writes t1 = writes s" "icache t1 = (icache s)[ip := i1]" "\<exists>as. i1 = i\<lparr>i_addrs := as\<rparr>" "file_wf t1 i1" "v \<noteq> 0"
    "\<forall>k'<MAXFILE. k' \<noteq> ?k \<longrightarrow> fblk t1 i1 k' = fblk s i k'" "ind_addr i1 \<in> {ind_addr i} \<union> {v. \<not> in_use s v}"
    "if fblk s i ?k = 0 then \<not> in_use s v \<and> content t1 v = replicate BSIZE 0 \<and> v \<in> dirty_blocks t1 else v = fblk s i ?k"
    "\<forall>x. in_use s x \<longrightarrow> in_use t1 x \<and> (x \<noteq> ind_addr i \<longrightarrow> content t1 x = content s x)"
    "lh_len t1 + log_due t1 i1 \<le> lh_len s + log_due s i + (if fblk s i ?k = 0 then 2 else 0)"
    "card (free_blocks s) + block_due i1 \<le> card (free_blocks t1) + block_due i + (if fblk s i ?k = 0 then 1 else 0)"
    using p by (simp_all add: bmap_post_def v_def)
  note F = kframe_fields [OF P(2)]
  have vu: "in_use t1 v" "v \<noteq> ind_addr i1" using P(6,7) k by (simp_all add: file_wf_def v_def)
  then have vd: "v < disksize t1" "off_log t1 v" by (simp_all add: in_use_def)
  have cl: "length (content t1 v) = BSIZE" using content_len [OF fs_invD(1) [OF P(1)] vd(1)] .
  then have len: "length (splice ?r piece (content t1 v)) = BSIZE" using off(2) by simp
  have rm: "Suc (lh_len t1) < unat (log_size t1)" using P(12) room F by (auto split: if_split_asm)
  obtain b u t where 2: "bread 1 v t1 = Ok b u" "tframe t1 u"
      "thenM (modM (upd_buf b (\<lambda>x. x\<lparr>b_data := splice ?r piece (b_data x)\<rparr>))) (thenM (log_write b) (brelse b)) u = Ok () t" "tinv {} t" "tframe t1 t"
      "writes t = writes t1" "content t = (content t1)(v := splice ?r piece (content t1 v))"
      "lh_len t = (if v \<in> dirty_blocks t1 then lh_len t1 else Suc (lh_len t1))" "dirty_blocks t = insert v (dirty_blocks t1)"
    using update_block [OF fs_invD(1) [OF P(1)] vd rm fs_invD(3) [OF P(1)], of "splice ?r piece", OF len] by blast
  have kf: "kframe t1 t" by (rule kframe_tframe [OF 2(5)])
  have mp: "content t m = content t1 m" if "\<exists>b'<nblocks t1. m = BBLOCK (of_nat b') (sb t1)" for m
    using that vu(1) 2(7) by (auto simp: in_use_def)
  note S = same_map [OF kf mp]
  have fb: "fblk t i1 = fblk t1 i1" using vu(2) by (auto simp: fblk_def 2(7))
  have wt: "file_wf t i1" using P(6) kframe_fields(5) [OF kf] by (simp add: file_wf_def S(2) fb)
  have ft: "fs_inv t" using fs_inv_same_map [OF P(1) kf 2(4) mp] vu(1) by (auto simp: in_use_def)
  have ow: "owned t i1 = owned t1 i1" by (simp add: owned_def fb)
  have other: "in_use t x \<and> x \<notin> owned t i1 \<and> content t x = content s x" if x: "in_use s x" "x \<notin> owned s i" for x
  proof -
    have "x \<noteq> v" using P(10) x k by (auto simp: owned_def split: if_split_asm)
    moreover have "x \<noteq> ind_addr i1" using P(9) x by (auto simp: owned_def)
    moreover have "x \<noteq> fblk t1 i1 k'" if "k' < MAXFILE" for k' using P(8) that x calculation(1) by (cases "k' = ?k") (auto simp: owned_def v_def)
    ultimately show ?thesis using P(11) x S(2) 2(7) by (auto simp: ow) (auto simp: owned_def)
  qed
  have "file_frame s ip i t i1"
    unfolding file_frame_def using ft kframe_trans [OF P(2) kf] 2(6) P(3,4,5) tframe_kfs [OF 2(5)] wt other by simp
  moreover have "fbyte t i1 j = (if off \<le> j \<and> j < off + length piece then piece ! (j - off) else fbyte s i j)" if j: "j < MAXFILE * BSIZE" for j
  proof (cases "j div BSIZE = ?k")
    case True
    have jo: "j = ?k * 512 + j mod 512" "off = ?k * 512 + off mod 512" using True div_mult_mod_eq [of j 512] div_mult_mod_eq [of off 512] by (simp_all add: bs)
    have old: "content t1 v ! (j mod BSIZE) = fbyte s i j"
    proof (cases "fblk s i ?k = 0")
      case True
      then show ?thesis using P(10) \<open>j div BSIZE = ?k\<close> by (simp add: fbyte_def bs)
    next
      case False
      then have "v = fblk s i ?k" "in_use s v" "v \<noteq> ind_addr i" using P(10) wf k by (simp_all add: file_wf_def)
      then show ?thesis using P(11) False \<open>j div BSIZE = ?k\<close> by (simp add: fbyte_def)
    qed
    have "fbyte t i1 j = splice ?r piece (content t1 v) ! (j mod BSIZE)" using True P(7) by (simp add: fbyte_def fb 2(7) v_def)
    also have "\<dots> = (if ?r \<le> j mod BSIZE \<and> j mod BSIZE < ?r + length piece then piece ! (j mod BSIZE - ?r) else content t1 v ! (j mod BSIZE))"
      using cl off(2) by (auto simp: splice_def nth_append bs)
    also have "?r \<le> j mod BSIZE \<longleftrightarrow> off \<le> j" using jo unfolding bs by linarith
    also have "j mod BSIZE < ?r + length piece \<longleftrightarrow> j < off + length piece" using jo unfolding bs by linarith
    also have "j mod BSIZE - ?r = j - off" using jo unfolding bs by linarith
    finally show ?thesis using old by simp
  next
    case False
    have jk: "j div BSIZE < MAXFILE" using j by (simp add: less_mult_imp_div_less)
    have e: "fblk t1 i1 (j div BSIZE) = fblk s i (j div BSIZE)" using P(8) jk False by simp
    have n: "\<not> (off \<le> j \<and> j < off + length piece)"
    proof
      assume a: "off \<le> j \<and> j < off + length piece"
      then have "?k \<le> j div BSIZE" by (simp add: div_le_mono)
      moreover obtain q r where "off = q * 512 + r" "off div 512 = q" "off mod 512 = r" using div_mult_mod_eq [of off 512] by metis
      then have "j < (?k + 1) * 512" using a off(2) by (simp add: bs)
      then have "j div BSIZE < ?k + 1" by (simp add: bs less_mult_imp_div_less)
      ultimately show False using False by simp
    qed
    have "content t (fblk s i (j div BSIZE)) = content s (fblk s i (j div BSIZE))" if "fblk s i (j div BSIZE) \<noteq> 0"
    proof -
      have o: "in_use s (fblk s i (j div BSIZE))" "fblk s i (j div BSIZE) \<noteq> ind_addr i" using wf jk that by (simp_all add: file_wf_def)
      have "fblk t1 i1 (j div BSIZE) \<noteq> v" using P(6) jk k False that e by (auto simp: file_wf_def v_def)
      then show ?thesis using 2(7) P(11) o e by simp
    qed
    then show ?thesis unfolding if_not_P [OF n] using e by (simp add: fbyte_def fb)
  qed
  moreover have "log_due t i1 \<le> log_due t1 i1" using 2(9) by (auto simp: log_due_def)
  then have "lh_len t + log_due t i1 \<le> lh_len s + log_due s i + 2" using 2(8) P(10,12) by (auto split: if_split_asm)
  moreover have "card (free_blocks s) + block_due i1 \<le> card (free_blocks t) + block_due i + 1" using P(13) by (simp add: S(3) split: if_split_asm)
  moreover have "kframe s u" using kframe_trans [OF P(2) kframe_tframe [OF 2(2)]] .
  ultimately show ?thesis using 1 2(1,3) by (intro exI [of _ v] exI [of _ t1] exI [of _ b] exI [of _ u] exI [of _ t] exI [of _ i1]) (simp add: v_def)
qed

section \<open>The loops\<close>

text \<open>The number of blocks that \<open>r\<close> bytes from \<open>off\<close> on lie in.\<close>

definition blocks_in :: "nat \<Rightarrow> nat \<Rightarrow> nat" where
  "blocks_in off r = (if r = 0 then 0 else (off + r - 1) div BSIZE - off div BSIZE + 1)"

definition piece_len :: "nat \<Rightarrow> nat \<Rightarrow> nat" where
  "piece_len off r = min r (BSIZE - off mod BSIZE)"

lemma piece_len_bounds:
  "0 < r \<Longrightarrow> 0 < piece_len off r" "piece_len off r \<le> r" "off mod BSIZE + piece_len off r \<le> BSIZE" "piece_len off r \<le> BSIZE"
  by (auto simp: piece_len_def BSIZE_def min_def)

lemma blocks_in_step:
  assumes "0 < r"
  shows "Suc (blocks_in (off + piece_len off r) (r - piece_len off r)) = blocks_in off r"
proof -
  obtain q p where o: "off = q * 512 + p" "off div 512 = q" "off mod 512 = p" using div_mult_mod_eq [of off 512] by metis
  have p: "p < 512" using o(3) by auto
  show ?thesis
  proof (cases "r \<le> 512 - p")
    case True
    then have "(off + r - 1) div 512 = q" using assms o(1) p by simp
    then show ?thesis using True assms o by (simp add: blocks_in_def piece_len_def BSIZE_def)
  next
    case False
    then have m: "piece_len off r = 512 - p" using o(3) by (simp add: piece_len_def BSIZE_def)
    define D where "D = (off + r - 1) div 512"
    have "(q + 1) * 512 \<le> off + r - 1" using False o(1) p by simp
    then have D: "q + 1 \<le> D" unfolding D_def by (simp add: less_eq_div_iff_mult_less_eq)
    have n: "off + (512 - p) + (r - (512 - p)) - 1 = off + r - 1" "r - (512 - p) \<noteq> 0" using False by simp_all
    have "off + (512 - p) = (q + 1) * 512" using o(1) p by simp
    then have d: "(off + (512 - p)) div 512 = q + 1" by (simp only: nonzero_mult_div_cancel_right)
    have "blocks_in (off + (512 - p)) (r - (512 - p)) = D - (q + 1) + 1"
      using n(2) by (simp only: blocks_in_def BSIZE_def n(1) d D_def if_False)
    moreover have "blocks_in off r = D - q + 1" using assms by (simp add: blocks_in_def BSIZE_def o(2) D_def)
    ultimately show ?thesis using D m by simp
  qed
qed

lemma piece_words:
  assumes "a < N" and "N < 2 ^ 31" and "off < 2 ^ 31"
  shows "min (of_nat N - of_nat a) (of_nat BSIZE - of_nat off mod of_nat BSIZE) = (of_nat (piece_len off (N - a)) :: u32)"
    and "unat (of_nat (piece_len off (N - a)) :: u32) = piece_len off (N - a)" and "unat (of_nat off mod of_nat BSIZE :: u32) = off mod BSIZE"
    and "(of_nat off div of_nat BSIZE :: u32) = of_nat (off div BSIZE)" and "(of_nat a :: u32) < of_nat N"
proof -
  have uo: "unat (of_nat off :: u32) = off" and uN: "unat (of_nat N :: u32) = N" and ua: "unat (of_nat a :: u32) = a"
    using assms by (simp_all add: unat_of_nat_u32)
  have ub: "unat (of_nat BSIZE :: u32) = BSIZE" by (simp add: BSIZE_def)
  show m: "unat (of_nat off mod of_nat BSIZE :: u32) = off mod BSIZE" by (simp only: unat_mod uo ub)
  show "(of_nat a :: u32) < of_nat N" using assms(1) by (simp add: word_less_nat_alt uN ua)
  have "unat (of_nat off div of_nat BSIZE :: u32) = off div BSIZE" by (simp only: unat_div uo ub)
  moreover have "unat (of_nat (off div BSIZE) :: u32) = off div BSIZE"
    using assms(3) by (intro unat_of_nat_u32) (simp add: le_less_trans [OF div_le_dividend])
  ultimately show "(of_nat off div of_nat BSIZE :: u32) = of_nat (off div BSIZE)" by (simp add: word_unat_eq_iff)
  show p: "unat (of_nat (piece_len off (N - a)) :: u32) = piece_len off (N - a)"
    using assms(2) piece_len_bounds(2) [of off "N - a"] by (intro unat_of_nat_u32) simp
  have d: "of_nat N - of_nat a = (of_nat (N - a) :: u32)" using assms(1) by (simp add: of_nat_diff)
  have "unat (of_nat (off mod BSIZE) :: u32) = off mod BSIZE" by (intro unat_of_nat_u32) (simp add: BSIZE_def less_le_trans [OF mod_less_divisor])
  then have "of_nat off mod of_nat BSIZE = (of_nat (off mod BSIZE) :: u32)" using m by (simp add: word_unat_eq_iff)
  then have e: "of_nat BSIZE - of_nat off mod of_nat BSIZE = (of_nat (BSIZE - off mod BSIZE) :: u32)" by (simp add: of_nat_diff BSIZE_def)
  have "unat (of_nat (N - a) :: u32) = N - a" "unat (of_nat (BSIZE - off mod BSIZE) :: u32) = BSIZE - off mod BSIZE"
    using assms(2) by (intro unat_of_nat_u32; simp add: BSIZE_def)+
  then show "min (of_nat N - of_nat a) (of_nat BSIZE - of_nat off mod of_nat BSIZE) = (of_nat (piece_len off (N - a)) :: u32)"
    unfolding d e piece_len_def by (simp add: min_def word_le_nat_alt)
qed

lemma piece_next:
  "(of_nat off + of_nat m :: u32) = of_nat (off + m)" by simp

text \<open>The bytes of \<open>data\<close> from \<open>a\<close> on are written at \<open>off\<close>.\<close>

definition overwritten :: "nat \<Rightarrow> nat \<Rightarrow> u8 list \<Rightarrow> (nat \<Rightarrow> u8) \<Rightarrow> (nat \<Rightarrow> u8) \<Rightarrow> bool" where
  "overwritten off a data f g \<longleftrightarrow> (\<forall>j<MAXFILE * BSIZE. g j = (if off \<le> j \<and> j < off + (length data - a) then data ! (a + (j - off)) else f j))"

lemma overwritten_none: "overwritten off (length data) data f f"
  unfolding overwritten_def by auto

lemma overwritten_step:
  assumes m: "m \<le> length data - a" and 1: "\<forall>j<MAXFILE * BSIZE. g j = (if off \<le> j \<and> j < off + m then take m (drop a data) ! (j - off) else f j)"
    and 2: "overwritten (off + m) (a + m) data g h"
  shows "overwritten off a data f h"
  unfolding overwritten_def
proof (intro allI impI)
  fix j assume j: "j < MAXFILE * BSIZE"
  have h: "h j = (if off + m \<le> j \<and> j < off + m + (length data - (a + m)) then data ! (a + m + (j - (off + m))) else g j)"
    using 2 j by (simp add: overwritten_def)
  have g: "g j = (if off \<le> j \<and> j < off + m then take m (drop a data) ! (j - off) else f j)" using 1 j by simp
  consider "j < off" | "off \<le> j" "j < off + m" | "off + m \<le> j" by linarith
  then show "h j = (if off \<le> j \<and> j < off + (length data - a) then data ! (a + (j - off)) else f j)"
  proof cases
    case 2
    then have "j < off + (length data - a)" "j - off < m" using m by linarith+
    then show ?thesis using 2 h g m by simp
  next
    case 3
    then have "a + m + (j - (off + m)) = a + (j - off)" by simp
    then show ?thesis using 3 h g m by auto
  qed (use h g in simp)
qed

lemma writei_loop_writes:
  assumes "fs_inv s" and "ip < length (icache s)" and "icache s ! ip = i" and "i_dev i = 1" and "file_wf s i"
    and "a \<le> length data" and "off + (length data - a) \<le> MAXFILE * BSIZE" and "length data - a \<le> turns" and "length data < 2 ^ 31"
    and "\<And>u x m. kframe s u \<Longrightarrow> x < length data \<Longrightarrow> src (of_nat x) m u = Ok (take m (drop x data)) u"
    and "lh_len s + log_due s i + 2 * blocks_in off (length data - a) + 1 < unat (log_size s)"
    and "blocks_in off (length data - a) + block_due i \<le> card (free_blocks s)"
  shows "\<exists>t i'. writei_loop turns src ip (of_nat off) (of_nat a) (of_nat (length data)) s = Ok (of_nat (off + (length data - a))) t
    \<and> file_frame s ip i t i' \<and> overwritten off a data (fbyte s i) (fbyte t i')
    \<and> lh_len t \<le> lh_len s + log_due s i + 2 * blocks_in off (length data - a)"
  using assms
proof (induction turns arbitrary: s i off a)
  case (0 s i off a)
  then have "a = length data" by simp
  then have "writei_loop 0 src ip (of_nat off) (of_nat a) (of_nat (length data)) s = Ok (of_nat (off + (length data - a))) s"
    by (simp add: writei_loop.simps [of 0])
  then show ?case using file_frame_refl [OF 0(1,5,3,2)] \<open>a = length data\<close> by (intro exI [of _ s] exI [of _ i]) (simp add: overwritten_none)
next
  case (Suc turns s i off a)
  let ?N = "length data"
  show ?case
  proof (cases "a = ?N")
    case True
    then have "writei_loop (Suc turns) src ip (of_nat off) (of_nat a) (of_nat ?N) s = Ok (of_nat (off + (?N - a))) s"
      by (simp add: writei_loop.simps [of "Suc turns"])
    then show ?thesis using file_frame_refl [OF Suc.prems(1,5,3,2)] True by (intro exI [of _ s] exI [of _ i]) (simp add: overwritten_none)
  next
    case False
    then have lt: "a < ?N" using Suc.prems(6) by simp
    have o: "off < 2 ^ 31" using Suc.prems(7) by (simp add: MAXFILE_def NDIRECT_def NINDIRECT_def BSIZE_def)
    define m where "m = piece_len off (?N - a)"
    note W = piece_words [OF lt Suc.prems(9) o, folded m_def]
    have mb: "0 < m" "m \<le> ?N - a" "off mod BSIZE + m \<le> BSIZE" using piece_len_bounds [where r = "?N - a" and off = off] lt by (simp_all add: m_def)
    have bl: "Suc (blocks_in (off + m) (?N - (a + m))) = blocks_in off (?N - a)" using blocks_in_step [of "?N - a" off] lt by (simp add: m_def)
    let ?p = "take m (drop a data)"
    have lp: "length ?p = m" "?p \<noteq> []" using mb lt by auto
    have pre: "off + length ?p \<le> MAXFILE * BSIZE" "off mod BSIZE + length ?p \<le> BSIZE" "lh_len s + log_due s i + 3 < unat (log_size s)"
        "block_due i < card (free_blocks s)"
      using Suc.prems(7,11,12) mb lp(1) bl by simp_all
    obtain v t1 b u t i1 where 1: "bmap ip (of_nat (off div BSIZE)) s = Ok v t1" "bread 1 v t1 = Ok b u" "kframe s u"
      "thenM (modM (upd_buf b (\<lambda>x. x\<lparr>b_data := splice (off mod BSIZE) ?p (b_data x)\<rparr>))) (thenM (log_write b) (brelse b)) u = Ok () t"
      "file_frame s ip i t i1" "\<forall>j<MAXFILE * BSIZE. fbyte t i1 j = (if off \<le> j \<and> j < off + length ?p then ?p ! (j - off) else fbyte s i j)"
      "lh_len t + log_due t i1 \<le> lh_len s + log_due s i + 2" "card (free_blocks s) + block_due i1 \<le> card (free_blocks t) + block_due i + 1"
      using write_block [OF Suc.prems(1-5) pre(1,2) lp(2) pre(3,4)] by blast
    have T: "fs_inv t" "kframe s t" "icache t = (icache s)[ip := i1]" "i_dev i1 = 1" "file_wf t i1"
      using 1(5) Suc.prems(4) by (auto simp: file_frame_def)
    have "src (of_nat a) m u = Ok ?p u" using Suc.prems(10) [OF 1(3) lt] .
    then have "writei_loop (Suc turns) src ip (of_nat off) (of_nat a) (of_nat ?N) s
        = thenM (modM (upd_buf b (\<lambda>x. x\<lparr>b_data := splice (off mod BSIZE) ?p (b_data x)\<rparr>))) (thenM (log_write b) (thenM (brelse b)
            (writei_loop turns src ip (of_nat (off + m)) (of_nat (a + m)) (of_nat ?N)))) u"
      using 1(1,2) Suc.prems(3,4) W by (simp add: writei_loop.simps [of "Suc turns"] inodeM_def bindM_run Let_def)
    also note then_three [OF 1(4)]
    finally have step: "writei_loop (Suc turns) src ip (of_nat off) (of_nat a) (of_nat ?N) s
        = writei_loop turns src ip (of_nat (off + m)) (of_nat (a + m)) (of_nat ?N) t" .
    have "\<exists>t' i'. writei_loop turns src ip (of_nat (off + m)) (of_nat (a + m)) (of_nat ?N) t = Ok (of_nat (off + m + (?N - (a + m)))) t'
      \<and> file_frame t ip i1 t' i' \<and> overwritten (off + m) (a + m) data (fbyte t i1) (fbyte t' i')
      \<and> lh_len t' \<le> lh_len t + log_due t i1 + 2 * blocks_in (off + m) (?N - (a + m))"
    proof (rule Suc.IH [OF T(1) _ _ T(4,5)])
      show "a + m \<le> ?N" "off + m + (?N - (a + m)) \<le> MAXFILE * BSIZE" "?N - (a + m) \<le> turns"
        using mb lt Suc.prems(7,8) by linarith+
      show "lh_len t + log_due t i1 + 2 * blocks_in (off + m) (?N - (a + m)) + 1 < unat (log_size t)"
        unfolding kframe_fields(2) [OF T(2)] using Suc.prems(11) 1(7) bl by linarith
      show "blocks_in (off + m) (?N - (a + m)) + block_due i1 \<le> card (free_blocks t)" using Suc.prems(12) 1(8) bl by linarith
      show "src (of_nat x) m' u' = Ok (take m' (drop x data)) u'" if "kframe t u'" "x < ?N" for u' x m'
        using Suc.prems(10) kframe_trans [OF T(2) that(1)] that(2) by blast
    qed (use T(3) Suc.prems(2,9) in simp_all)
    then obtain t' i' where 2: "writei_loop turns src ip (of_nat (off + m)) (of_nat (a + m)) (of_nat ?N) t = Ok (of_nat (off + m + (?N - (a + m)))) t'"
      "file_frame t ip i1 t' i'" "overwritten (off + m) (a + m) data (fbyte t i1) (fbyte t' i')"
      "lh_len t' \<le> lh_len t + log_due t i1 + 2 * blocks_in (off + m) (?N - (a + m))" by blast
    have "off + m + (?N - (a + m)) = off + (?N - a)" using mb by simp
    then have "writei_loop (Suc turns) src ip (of_nat off) (of_nat a) (of_nat ?N) s = Ok (of_nat (off + (?N - a))) t'" unfolding step 2(1) by (simp only:)
    moreover have "overwritten off a data (fbyte s i) (fbyte t' i')" using overwritten_step [OF mb(2) 1(6) [unfolded lp(1)] 2(3)] .
    ultimately show ?thesis using file_frame_trans [OF 1(5) 2(2)] 2(4) 1(7) bl by (intro exI [of _ t'] exI [of _ i']) simp
  qed
qed

section \<open>Reading and writing files\<close>

lemma file_part:
  assumes "i_addrs i' = i_addrs i" and "i_inum i' = i_inum i" and "in_use s m" and "content t = (content s)(m := d)" and "ind_addr i \<noteq> m"
  shows "fblk t i' = fblk s i" and "owned t i' = owned s i"
    and "(\<And>k. k < MAXFILE \<Longrightarrow> fblk s i k \<noteq> m) \<Longrightarrow> j < MAXFILE * BSIZE \<Longrightarrow> fbyte t i' j = fbyte s i j"
proof -
  show f: "fblk t i' = fblk s i" using assms by (auto simp: fblk_def)
  show "owned t i' = owned s i" using assms(1) by (simp add: owned_def f)
  show "fbyte t i' j = fbyte s i j" if "\<And>k. k < MAXFILE \<Longrightarrow> fblk s i k \<noteq> m" "j < MAXFILE * BSIZE"
    using that(1) [of "j div BSIZE"] less_mult_imp_div_less [OF that(2)] assms(4) by (simp add: fbyte_def f)
qed

text \<open>The size of a file is set, in the cache and in the inode's block.\<close>

lemma grow_inode:
  assumes inv: "fs_inv s" and ip: "ip < length (icache s)" and i: "icache s ! ip = i" "i_dev i = 1" and wf: "file_wf s i"
    and room: "Suc (lh_len s) < unat (log_size s)" and i': "i' = i\<lparr>i_size := z\<rparr>"
  shows "\<exists>t. thenM (modM (upd_inode ip (\<lambda>x. x\<lparr>i_size := z\<rparr>))) (iupdate ip) s = Ok () t \<and> fs_inv t \<and> kframe s t \<and> writes t = writes s
    \<and> icache t = (icache s)[ip := i'] \<and> file_wf t i' \<and> owned t i' = owned s i \<and> (\<forall>j<MAXFILE * BSIZE. fbyte t i' j = fbyte s i j)
    \<and> (\<forall>x. in_use t x = in_use s x) \<and> (\<forall>x. x \<noteq> IBLOCK (i_inum i) (sb s) \<longrightarrow> content t x = content s x)
    \<and> content t (IBLOCK (i_inum i) (sb s)) = put_dinode (unat (i_inum i mod IPB)) i' (content s (IBLOCK (i_inum i) (sb s)))"
proof -
  let ?m = "IBLOCK (i_inum i) (sb s)"
  let ?u = "s\<lparr>icache := (icache s)[ip := i']\<rparr>"
  have m: "in_use s ?m" "ind_addr i \<noteq> ?m" "\<And>k. k < MAXFILE \<Longrightarrow> fblk s i k \<noteq> ?m" "?m \<noteq> 0" using wf by (auto simp: file_wf_def in_use_def)
  have len: "length (content s ?m) = BSIZE" using m(1) content_len [OF fs_invD(1) [OF inv]] by (simp add: in_use_def)
  have u: "fs_inv ?u" "content ?u = content s" "lh_len ?u = lh_len s" using inv by simp_all
  have "\<exists>t. iupdate ip ?u = Ok () t \<and> tinv {} t \<and> tframe ?u t \<and> writes t = writes ?u
    \<and> content t = (content ?u)(?m := put_dinode (unat (i_inum i' mod IPB)) i' (content ?u ?m))
    \<and> lh_len t = (if ?m \<in> dirty_blocks ?u then lh_len ?u else Suc (lh_len ?u)) \<and> dirty_blocks t = insert ?m (dirty_blocks ?u)"
    using m(1) ip i i' room len fs_invD(3) [OF inv] by (intro iupdate_spec [OF fs_invD(1) [OF u(1)]]) (simp_all add: in_use_def)
  then obtain t where t: "iupdate ip ?u = Ok () t" "tinv {} t" "tframe ?u t" "writes t = writes s"
    "content t = (content s)(?m := put_dinode (unat (i_inum i mod IPB)) i' (content s ?m))" using u i' by auto
  have kf: "kframe s t" using kframe_trans [OF _ kframe_tframe [OF t(3)], of s] by simp
  have mp: "content t x = content s x" if "\<exists>b'<nblocks s. x = BBLOCK (of_nat b') (sb s)" for x
    using that m(1) t(5) by (auto simp: in_use_def)
  note S = same_map [OF kf mp]
  have same: "i_addrs i' = i_addrs i" "i_inum i' = i_inum i" using i' by simp_all
  note P = file_part [OF same m(1) t(5) m(2)]
  have "fs_inv t" using fs_inv_same_map [OF inv kf t(2) mp] m(1) by (auto simp: in_use_def)
  moreover have "file_wf t i'" using wf same kframe_fields(5) [OF kf] by (simp add: file_wf_def S(2) P(1))
  moreover have "icache t = (icache s)[ip := i']" using tframe_kfs(2) [OF t(3)] by simp
  ultimately show ?thesis using t(1,4,5) kf P(2) P(3) [OF m(3)] S(2) i i' by (intro exI [of _ t]) (simp add: thenM_run upd_inode_def)
qed

lemma spliced:
  assumes "overwritten off 0 data f g" and "off \<le> n" and "n \<le> MAXFILE * BSIZE" and "off + length data \<le> MAXFILE * BSIZE"
  shows "map g [0..<max n (off + length data)] = splice off data (map f [0..<n])"
proof (rule nth_equalityI)
  show l: "length (map g [0..<max n (off + length data)]) = length (splice off data (map f [0..<n]))"
    using assms(2) by (simp add: splice_def min_def max_def)
  fix j assume "j < length (map g [0..<max n (off + length data)])"
  then have j: "j < max n (off + length data)" by simp
  then have "g j = (if off \<le> j \<and> j < off + length data then data ! (j - off) else f j)"
    using assms(1,3,4) by (simp add: overwritten_def)
  then show "map g [0..<max n (off + length data)] ! j = splice off data (map f [0..<n]) ! j"
    using j assms(2) by (auto simp: splice_def nth_append min_def)
qed

lemma writei_outcome:
  assumes inv: "fs_inv s" and ip: "ip < length (icache s)" and i: "icache s ! ip = i" "i_dev i = 1" "i_type i \<noteq> T_DEV" and wf: "file_wf s i"
    and size: "off \<le> unat (i_size i)" "unat (i_size i) \<le> MAXFILE * BSIZE" "off + length data \<le> MAXFILE * BSIZE"
    and src: "\<And>u x m. kframe s u \<Longrightarrow> x < length data \<Longrightarrow> src (of_nat x) m u = Ok (take m (drop x data)) u"
    and room: "lh_len s + log_due s i + 2 * blocks_in off (length data) + 1 < unat (log_size s)"
    and free: "blocks_in off (length data) + block_due i \<le> card (free_blocks s)"
  shows "\<exists>t i'. writei ip src a (of_nat off) (of_nat (length data)) s = Ok (of_nat (length data)) t
    \<and> fs_inv t \<and> kframe s t \<and> writes t = writes s \<and> icache t = (icache s)[ip := i'] \<and> file_wf t i'
    \<and> file_bytes t i' = splice off data (file_bytes s i)
    \<and> (\<forall>x. in_use s x \<longrightarrow> x \<notin> owned s i \<longrightarrow> x \<noteq> IBLOCK (i_inum i) (sb s) \<longrightarrow> in_use t x \<and> x \<notin> owned t i' \<and> content t x = content s x)
    \<and> (i_size i' \<noteq> i_size i \<longrightarrow>
        content t (IBLOCK (i_inum i) (sb s)) = put_dinode (unat (i_inum i mod IPB)) i' (content s (IBLOCK (i_inum i) (sb s))))"
proof -
  let ?n = "length data" and ?m = "IBLOCK (i_inum i) (sb s)"
  have mx: "MAXFILE * BSIZE < 2 ^ 31" by (simp add: MAXFILE_def NDIRECT_def NINDIRECT_def BSIZE_def)
  have w: "unat (of_nat off :: u32) = off" "unat (of_nat ?n :: u32) = ?n" "unat (of_nat (off + ?n) :: u32) = off + ?n"
      "unat (of_nat (MAXFILE * BSIZE) :: u32) = MAXFILE * BSIZE"
    using size mx by (intro unat_of_nat_u32; simp)+
  have g: "\<not> (of_nat off > i_size i \<or> of_nat off + of_nat ?n < (of_nat off :: u32))" "\<not> of_nat off + of_nat ?n > (of_nat (MAXFILE * BSIZE) :: u32)"
    unfolding of_nat_add [symmetric] word_less_nat_alt w using size by auto
  obtain t i1 where 1: "writei_loop (unat (of_nat ?n :: u32)) src ip (of_nat off) 0 (of_nat ?n) s = Ok (of_nat (off + ?n)) t"
    "file_frame s ip i t i1" "overwritten off 0 data (fbyte s i) (fbyte t i1)"
    "lh_len t \<le> lh_len s + log_due s i + 2 * blocks_in off ?n"
    using writei_loop_writes [where a = 0 and turns = ?n, OF inv ip i(1,2) wf, of data off src] size src room free mx w(2) by auto
  have T: "fs_inv t" "kframe s t" "writes t = writes s" "icache t = (icache s)[ip := i1]" "file_wf t i1" "i_size i1 = i_size i" "i_inum i1 = i_inum i" "i_dev i1 = i_dev i"
    "\<And>x. in_use s x \<Longrightarrow> x \<notin> owned s i \<Longrightarrow> in_use t x \<and> x \<notin> owned t i1 \<and> content t x = content s x"
    using 1(2) by (auto simp: file_frame_def)
  have ow: "?m \<notin> owned s i" "in_use s ?m" using wf by (auto simp: file_wf_def owned_def in_use_def)
  note B = spliced [OF 1(3) size]
  show ?thesis
  proof (cases "of_nat ?n > (0 :: u32) \<and> of_nat (off + ?n) > i_size i")
    case False
    have "max (unat (i_size i)) (off + ?n) = unat (i_size i)" using False w size(1) by (auto simp: word_less_nat_alt max_def)
    then have "file_bytes t i1 = splice off data (file_bytes s i)" using B by (simp add: file_bytes_def T(6))
    moreover have "writei ip src a (of_nat off) (of_nat ?n) s = Ok (of_nat ?n) t"
      unfolding writei_def using i ip g 1(1) T(4,6) False by (auto simp add: inodeM_def bindM_run thenM_run)
    ultimately show ?thesis using T by (intro exI [of _ t] exI [of _ i1]) simp
  next
    case True
    let ?i = "i1\<lparr>i_size := of_nat (off + ?n)\<rparr>"
    have lt: "Suc (lh_len t) < unat (log_size t)" unfolding kframe_fields(2) [OF T(2)] using 1(4) room by linarith
    have "ip < length (icache t)" "icache t ! ip = i1" "i_dev i1 = 1" using T(4,8) ip i(2) by simp_all
    from grow_inode [OF T(1) this T(5) lt refl] obtain u where u:
      "thenM (modM (upd_inode ip (\<lambda>x. x\<lparr>i_size := of_nat (off + ?n)\<rparr>))) (iupdate ip) t = Ok () u" "fs_inv u" "kframe t u" "writes u = writes t"
      "icache u = (icache t)[ip := ?i]" "file_wf u ?i" "owned u ?i = owned t i1" "\<forall>j<MAXFILE * BSIZE. fbyte u ?i j = fbyte t i1 j"
      "\<forall>x. in_use u x = in_use t x" "\<forall>x. x \<noteq> IBLOCK (i_inum i1) (sb t) \<longrightarrow> content u x = content t x"
      "content u (IBLOCK (i_inum i1) (sb t)) = put_dinode (unat (i_inum i1 mod IPB)) ?i (content t (IBLOCK (i_inum i1) (sb t)))" by blast
    have sbt: "sb t = sb s" using kframe_fields(5) [OF T(2)] .
    have "max (unat (i_size i)) (off + ?n) = off + ?n" using True w by (auto simp: word_less_nat_alt max_def)
    moreover have "map (fbyte u ?i) [0..<off + ?n] = map (fbyte t i1) [0..<off + ?n]" using u(8) size(3) by simp
    ultimately have "map (fbyte u ?i) [0..<off + ?n] = splice off data (file_bytes s i)" using B unfolding file_bytes_def by (simp only:)
    then have "file_bytes u ?i = splice off data (file_bytes s i)" unfolding file_bytes_def [of u] by (simp add: w(3) del: of_nat_add)
    moreover have "writei ip src a (of_nat off) (of_nat ?n) s = Ok (of_nat ?n) u"
      unfolding writei_def using i ip g 1(1) T(4,6) True u(1) by (simp add: inodeM_def bindM_run thenM_run split: res.splits)
    moreover have "icache u = (icache s)[ip := ?i]" using u(5) T(4) by simp
    ultimately show ?thesis
      using T u(2,3,4,6,7,9,10,11) kframe_trans [OF T(2) u(3)] ow sbt by (intro exI [of _ u] exI [of _ ?i]) simp
  qed
qed

text \<open>
  C16: \<open>writei\<close> writes a file. In a transaction with room for them, writing \<open>data\<close> at an offset not behind the end of
  a file returns the number of bytes; the bytes of the file, read through its inode and the blocks it names, are then
  the old ones with \<open>data\<close> over them from the offset on, and the file has grown as far as needed: blocks were allocated
  where it had none, the indirect block included. No other block that was in use has changed, but the inode's when the
  size did, which then holds the inode; the file's blocks are still distinct and in use, and the disk has not been written.
\<close>
theorem writei_writes:
  assumes inv: "fs_inv s" and ip: "ip < length (icache s)" and i: "icache s ! ip = i" "i_dev i = 1" "i_type i \<noteq> T_DEV" and wf: "file_wf s i"
    and size: "off \<le> unat (i_size i)" "unat (i_size i) \<le> MAXFILE * BSIZE" "off + length data \<le> MAXFILE * BSIZE"
    and src: "\<And>u x m. kframe s u \<Longrightarrow> x < length data \<Longrightarrow> src (of_nat x) m u = Ok (take m (drop x data)) u"
    and room: "lh_len s + log_due s i + 2 * blocks_in off (length data) + 1 < unat (log_size s)"
    and free: "blocks_in off (length data) + block_due i \<le> card (free_blocks s)"
  shows "\<exists>t i'. writei ip src a (of_nat off) (of_nat (length data)) s = Ok (of_nat (length data)) t
    \<and> fs_inv t \<and> kframe s t \<and> writes t = writes s \<and> icache t = (icache s)[ip := i'] \<and> file_wf t i'
    \<and> file_bytes t i' = splice off data (file_bytes s i)
    \<and> (\<forall>x. in_use s x \<longrightarrow> x \<notin> owned s i \<longrightarrow> x \<noteq> IBLOCK (i_inum i) (sb s) \<longrightarrow> in_use t x \<and> x \<notin> owned t i' \<and> content t x = content s x)
    \<and> (i_size i' \<noteq> i_size i \<longrightarrow>
        content t (IBLOCK (i_inum i) (sb s)) = put_dinode (unat (i_inum i mod IPB)) i' (content s (IBLOCK (i_inum i) (sb s))))"
  using writei_outcome [OF inv ip i wf size src room free] by blast

text \<open>Reading changes nothing but the cache of blocks.\<close>

definition same_files :: "'z kfs_scheme \<Rightarrow> 'z kfs_scheme \<Rightarrow> bool" where
  "same_files s t \<longleftrightarrow> tinv {} t \<and> tframe s t \<and> writes t = writes s \<and> content t = content s
     \<and> dirty_blocks t = dirty_blocks s \<and> lh_len t = lh_len s"

lemma same_files_refl: "tinv {} s \<Longrightarrow> same_files s s"
  by (simp add: same_files_def)

lemma same_files_trans: "same_files s t \<Longrightarrow> same_files t u \<Longrightarrow> same_files s u"
  unfolding same_files_def by (auto intro: tframe_trans)

lemma same_files_facts:
  assumes "same_files s t" and "fs_inv s"
  shows "kframe s t" and "icache t = icache s" and "fblk t i = fblk s i" and "fbyte t i = fbyte s i" and "file_wf t i = file_wf s i"
    and "0 < nblocks s \<Longrightarrow> fs_inv t"
proof -
  have t: "tinv {} t" "tframe s t" "content t = content s" using assms(1) by (simp_all add: same_files_def)
  show kf: "kframe s t" using kframe_tframe [OF t(2)] .
  show "icache t = icache s" using tframe_kfs(2) [OF t(2)] .
  show f: "fblk t i = fblk s i" by (rule ext) (simp add: fblk_def t(3))
  show "fbyte t i = fbyte s i" by (rule ext) (simp add: fbyte_def f t(3))
  have m: "content t m = content s m" if "\<exists>b'<nblocks s. m = BBLOCK (of_nat b') (sb s)" for m by (simp add: t(3))
  show "file_wf t i = file_wf s i" by (simp add: file_wf_def f same_map(2) [OF kf m] kframe_fields(5) [OF kf])
  show "fs_inv t" if "0 < nblocks s" using fs_inv_same_map [OF assms(2) kf t(1) m that] .
qed

lemma piece_bytes:
  assumes "fblk s i (off div BSIZE) \<noteq> 0" and "off mod BSIZE + m \<le> BSIZE" and "length (content s (fblk s i (off div BSIZE))) = BSIZE"
  shows "take m (drop (off mod BSIZE) (content s (fblk s i (off div BSIZE)))) = map (fbyte s i) [off..<off + m]"
proof (rule nth_equalityI)
  show "length (take m (drop (off mod BSIZE) (content s (fblk s i (off div BSIZE))))) = length (map (fbyte s i) [off..<off + m])"
    using assms by simp
  fix j assume "j < length (take m (drop (off mod BSIZE) (content s (fblk s i (off div BSIZE)))))"
  then have j: "j < m" by simp
  obtain q r where q: "off = q * 512 + r" "off div 512 = q" "off mod 512 = r" using div_mult_mod_eq [of off 512] by metis
  have "r + j < 512" using j assms(2) q(3) by (simp add: BSIZE_def)
  then have "(off + j) div 512 = q" "(off + j) mod 512 = r + j" unfolding q(1) by (simp_all add: add.assoc)
  then show "take m (drop (off mod BSIZE) (content s (fblk s i (off div BSIZE)))) ! j = map (fbyte s i) [off..<off + m] ! j"
    using j assms q by (simp add: fbyte_def BSIZE_def)
qed

lemma readi_loop_reads:
  assumes "fs_inv s" and "icache s ! ip = i" and "i_dev i = 1" and "file_wf s i"
    and "a \<le> N" and "off + (N - a) \<le> MAXFILE * BSIZE" and "N - a \<le> turns" and "N < 2 ^ 31"
    and "\<And>j. off \<le> j \<Longrightarrow> j < off + (N - a) \<Longrightarrow> fblk s i (j div BSIZE) \<noteq> 0"
    and "\<And>u x bs. kframe s u \<Longrightarrow> put x bs u = Ok () u"
  shows "\<exists>t. readi_loop turns put ip (of_nat off) (of_nat a) (of_nat N) s = Ok (map (fbyte s i) [off..<off + (N - a)]) t \<and> same_files s t"
  using assms
proof (induction turns arbitrary: s off a)
  case (0 s off a)
  then have "readi_loop 0 put ip (of_nat off) (of_nat a) (of_nat N) s = Ok [] s" by (simp add: readi_loop.simps [of 0])
  then show ?case using 0 same_files_refl [OF fs_invD(1) [OF 0(1)]] by (intro exI [of _ s]) simp
next
  case (Suc turns s off a)
  note inv = Suc.prems(1)
  show ?case
  proof (cases "a = N")
    case True
    then have "readi_loop (Suc turns) put ip (of_nat off) (of_nat a) (of_nat N) s = Ok [] s" by (simp add: readi_loop.simps [of "Suc turns"])
    then show ?thesis using True same_files_refl [OF fs_invD(1) [OF inv]] by (intro exI [of _ s]) simp
  next
    case False
    then have lt: "a < N" using Suc.prems(5) by simp
    let ?k = "off div BSIZE"
    have o: "off < 2 ^ 31" using Suc.prems(6) by (simp add: MAXFILE_def NDIRECT_def NINDIRECT_def BSIZE_def)
    define m where "m = piece_len off (N - a)"
    note W = piece_words [OF lt Suc.prems(8) o, folded m_def]
    have mb: "0 < m" "m \<le> N - a" "off mod BSIZE + m \<le> BSIZE" using piece_len_bounds [where r = "N - a" and off = off] lt by (simp_all add: m_def)
    have "off < MAXFILE * BSIZE" using Suc.prems(6) mb by simp
    then have k: "?k < MAXFILE" by (simp add: less_mult_imp_div_less)
    have nz: "fblk s i ?k \<noteq> 0" using Suc.prems(9) [of off] lt by simp
    have u: "in_use s (fblk s i ?k)" using Suc.prems(4) k nz by (simp add: file_wf_def)
    obtain t1 where 1: "bmap ip (of_nat ?k) s = Ok (fblk s i ?k) t1" "same_files s t1"
      using bmap_old [OF inv Suc.prems(2,3) k Suc.prems(4) nz] by (auto simp: same_files_def)
    have T1: "tinv {} t1" "tframe s t1" "content t1 = content s" using 1(2) by (simp_all add: same_files_def)
    have "fblk s i ?k < disksize t1" using u kframe_fields(3) [OF kframe_tframe [OF T1(2)]] by (simp add: in_use_def)
    then obtain b v t where 2: "bread 1 (fblk s i ?k) t1 = Ok b v" "tframe t1 v" "b_data (bufs v ! b) = content s (fblk s i ?k)"
        "brelse b v = Ok () t" "same_files t1 t"
      using read_block [OF T1(1)] T1(3) by (fastforce simp: same_files_def)
    have st: "same_files s t" using same_files_trans [OF 1(2) 2(5)] .
    have nb: "0 < nblocks s" using u by (auto simp: in_use_def)
    note S = same_files_facts [OF st inv]
    have p: "take m (drop (off mod BSIZE) (content s (fblk s i ?k))) = map (fbyte s i) [off..<off + m]"
      using piece_bytes [OF nz mb(3)] content_len [OF fs_invD(1) [OF inv], of "fblk s i ?k"] u by (simp add: in_use_def)
    have "kframe s v" using kframe_tframe [OF tframe_trans [OF T1(2) 2(2)]] .
    then have pt: "put x bs v = Ok () v" for x bs by (rule Suc.prems(10))
    have ic: "icache t1 ! ip = i" using tframe_kfs(2) [OF T1(2)] Suc.prems(2) by simp
    have "\<exists>t'. readi_loop turns put ip (of_nat (off + m)) (of_nat (a + m)) (of_nat N) t
        = Ok (map (fbyte t i) [off + m..<off + m + (N - (a + m))]) t' \<and> same_files t t'"
    proof (rule Suc.IH [OF S(6) [OF nb]])
      show "a + m \<le> N" "off + m + (N - (a + m)) \<le> MAXFILE * BSIZE" "N - (a + m) \<le> turns" using mb lt Suc.prems(6,7) by linarith+
      show "fblk t i (j div BSIZE) \<noteq> 0" if "off + m \<le> j" "j < off + m + (N - (a + m))" for j
        using Suc.prems(9) [of j] that mb unfolding S(3) by linarith
      show "put x bs u' = Ok () u'" if "kframe t u'" for u' x bs using Suc.prems(10) kframe_trans [OF S(1) that] by blast
    qed (use S Suc.prems(2,3,4,8) in simp_all)
    then obtain t' where 3: "readi_loop turns put ip (of_nat (off + m)) (of_nat (a + m)) (of_nat N) t
        = Ok (map (fbyte s i) [off + m..<off + m + (N - (a + m))]) t'" "same_files t t'" unfolding S(4) by blast
    have e: "off + m + (N - (a + m)) = off + (N - a)" using mb by simp
    have "readi_loop (Suc turns) put ip (of_nat off) (of_nat a) (of_nat N) s
        = Ok (map (fbyte s i) [off..<off + m] @ map (fbyte s i) [off + m..<off + (N - a)]) t'"
      using 1(1) 2(1,3,4) ic Suc.prems(2,3) W p pt 3(1)
      by (simp add: readi_loop.simps [of "Suc turns"] inodeM_def bindM_run thenM_run Let_def e)
    moreover have "[off..<off + (N - a)] = [off..<off + m] @ [off + m..<off + (N - a)]" using upt_add_eq_append [of off "off + m" "N - (a + m)"] unfolding e by simp
    ultimately show ?thesis using same_files_trans [OF st 3(2)] by (intro exI [of _ t']) simp
  qed
qed

text \<open>
  \<open>readi\<close> reads a file: at an offset not behind the end of a file that has all its blocks it
  returns as many bytes as there are up to the end, at most \<open>n\<close>, and they are that part of the file's bytes; no block and
  no inode has changed.
\<close>
theorem readi_reads:
  assumes inv: "fs_inv s" and i: "icache s ! ip = i" "i_dev i = 1" "i_type i \<noteq> T_DEV" and wf: "file_wf s i"
    and size: "off \<le> unat (i_size i)" "unat (i_size i) \<le> MAXFILE * BSIZE" "off + n < 2 ^ 32"
    and blocks: "\<And>j. j < unat (i_size i) \<Longrightarrow> fblk s i (j div BSIZE) \<noteq> 0"
    and put: "\<And>u x bs. kframe s u \<Longrightarrow> put x bs u = Ok () u"
  shows "\<exists>t. readi ip put dst (of_nat off) (of_nat n) s = Ok (of_nat (min n (unat (i_size i) - off)), take n (drop off (file_bytes s i))) t
    \<and> same_files s t"
proof -
  define N where "N = min n (unat (i_size i) - off)"
  have mx: "MAXFILE * BSIZE < 2 ^ 31" by (simp add: MAXFILE_def NDIRECT_def NINDIRECT_def BSIZE_def)
  have w: "unat (of_nat off :: u32) = off" "unat (of_nat (off + n) :: u32) = off + n" "unat (of_nat N :: u32) = N"
    using size mx unfolding N_def by (intro unat_of_nat_u32; simp)+
  have g: "\<not> (of_nat off > i_size i \<or> of_nat off + of_nat n < (of_nat off :: u32))"
    unfolding of_nat_add [symmetric] word_less_nat_alt w using size by auto
  have "i_size i - of_nat off = (of_nat (unat (i_size i) - off) :: u32)" using size(1) by (simp add: of_nat_diff)
  moreover have "of_nat off + of_nat n > i_size i \<longleftrightarrow> unat (i_size i) - off < n"
    unfolding of_nat_add [symmetric] word_less_nat_alt w using size(1) by auto
  ultimately have N: "(if of_nat off + of_nat n > i_size i then i_size i - of_nat off else of_nat n) = (of_nat N :: u32)" by (simp add: N_def)
  have "off + N \<le> unat (i_size i)" using size(1) by (auto simp: N_def)
  then obtain t where t: "readi_loop N put ip (of_nat off) 0 (of_nat N) s = Ok (map (fbyte s i) [off..<off + N]) t" "same_files s t"
    using readi_loop_reads [where a = 0 and N = N and turns = N and off = off and put = put, OF inv i(1,2) wf _ _ _ _ blocks put] size(2) mx by auto
  have "map (fbyte s i) [off..<off + N] = take n (drop off (file_bytes s i))"
    using size(1) by (intro nth_equalityI) (auto simp: file_bytes_def N_def)
  then have "readi ip put dst (of_nat off) (of_nat n) s = Ok (of_nat N, take n (drop off (file_bytes s i))) t"
    unfolding readi_def using i g t(1) N w(3) by (simp add: inodeM_def bindM_run Let_def)
  then show ?thesis using t(2) by (auto simp: N_def)
qed

section \<open>An example\<close>

text \<open>Inode 17 as a file of 1023 zeros in blocks 50 and 51.\<close>

definition demo_file :: inode where
  "demo_file = demo_inode\<lparr>i_size := 1023, i_addrs := [50, 51, 0, 0, 0, 0, 0, 0, 0, 0, 0, 0, 0]\<rparr>"

definition demo_filesys :: kfs where
  "demo_filesys = demo_klog (kfs.fields demo_sb [demo_file] [] 0 0 0 False)"

lemma demo_filesys_fields [simp]:
  "sb demo_filesys = demo_sb" "icache demo_filesys = [demo_file]" "disksize demo_filesys = 1000" "log_start demo_filesys = 2"
  "log_size demo_filesys = 30" "lh_n demo_filesys = 1" "log_outstanding demo_filesys = 1"
  by (simp_all add: demo_filesys_def demo_klog_def kfs.defs)

lemma demo_filesys_content:
  "content demo_filesys m = (if m = 40 then replicate BSIZE 7 else if m = 58 then demo_bitmap else replicate BSIZE 0)"
  unfolding demo_filesys_def by (rule demo_klog_content)

lemma demo_filesys_free: "block_free demo_filesys b = block_free demo_fs b"
  by (simp add: block_free_def demo_filesys_content demo_fs_content)

lemma demo_file_fields [simp]:
  "i_dev demo_file = 1" "i_inum demo_file = 17" "i_type demo_file = 2" "i_size demo_file = 1023"
  "i_addrs demo_file = [50, 51, 0, 0, 0, 0, 0, 0, 0, 0, 0, 0, 0]"
  by (simp_all add: demo_file_def demo_inode_def)

lemma demo_fblk: "fblk s demo_file k = (if k = 0 then 50 else if k = 1 then 51 else 0)"
  by (auto simp: fblk_def NDIRECT_def nth_Cons split: nat.splits)

lemma demo_in_use:
  assumes "32 \<le> x" and "x < 58"
  shows "in_use demo_filesys x"
proof -
  have x: "32 \<le> unat x" "unat x < 58" using assms by (simp_all add: word_le_nat_alt word_less_nat_alt)
  have "\<not> block_free demo_fs (unat x)" using demo_fs_free [of "unat x"] demo_bitmap_used [of "unat x"] x by simp
  moreover have "BBLOCK (of_nat b) demo_sb \<noteq> x" if "b < 1000" for b using demo_fs_BBLOCK [OF that] x by auto
  ultimately show ?thesis using x by (auto simp: in_use_def demo_filesys_free in_log_def word_less_nat_alt)
qed

lemma demo_filesys_inv: "fs_inv demo_filesys"
proof -
  have "tinv {} demo_filesys"
    using demo_klog_inv [of "kfs.fields demo_sb [demo_file] [] 0 0 0 False"] by (simp add: tinv_def log_inv_def demo_filesys_def)
  moreover have "map_ok demo_filesys" using demo_fs_map by (simp add: map_ok_def demo_filesys_free in_log_def)
  moreover have "\<not> block_free demo_filesys 0" using demo_fs_free [of 0] demo_bitmap_used [of 0] by (simp add: demo_filesys_free)
  ultimately show ?thesis by (simp add: fs_inv_def)
qed

lemma demo_file_wf: "file_wf demo_filesys demo_file"
proof -
  have "IBLOCK 17 demo_sb = 34" by (simp add: IBLOCK_def demo_sb_def IPB_def)
  then show ?thesis using demo_in_use [of 34] demo_in_use [of 50] demo_in_use [of 51]
    by (simp add: file_wf_def demo_fblk NDIRECT_def)
qed

lemma demo_file_bytes: "file_bytes demo_filesys demo_file = replicate 1023 0"
  by (rule nth_equalityI) (simp_all add: file_bytes_def fbyte_def demo_fblk demo_filesys_content BSIZE_def)

lemma demo_free_card: "3 \<le> card (free_blocks demo_filesys)"
proof -
  have "bit_free demo_bitmap 59" "bit_free demo_bitmap 60" "bit_free demo_bitmap 61" by code_simp+
  then have "{59, 60, 61} \<subseteq> free_blocks demo_filesys"
    using demo_fs_free [of 59] demo_fs_free [of 60] demo_fs_free [of 61] by (simp add: free_blocks_def demo_filesys_free)
  then have "card {59, 60, 61 :: nat} \<le> card (free_blocks demo_filesys)" by (intro card_mono) simp_all
  then show ?thesis by simp
qed

text \<open>Four bytes over the end: the last one of the file changes, one fills block 51 and two are in a third block.\<close>

theorem writei_writes_witness:
  "\<exists>t i'. writei 0 (\<lambda>tot m. retM (take m (drop (unat tot) [1, 2, 3, 4]))) 0 1022 4 demo_filesys = Ok 4 t
     \<and> file_bytes t i' = replicate 1022 0 @ [1, 2, 3, 4]"
proof -
  define d :: "u8 list" where "d = [1, 2, 3, 4]"
  then have d: "length d = 4" by simp
  let ?src = "\<lambda>(tot :: u32) m. retM (take m (drop (unat tot) d)) :: kfs \<Rightarrow> (u8 list, kfs) res"
  have room: "lh_len demo_filesys + log_due demo_filesys demo_file + 2 * blocks_in 1022 (length d) + 1 < unat (log_size demo_filesys)"
    by (simp add: d log_due_def blocks_in_def BSIZE_def)
  have free: "blocks_in 1022 (length d) + block_due demo_file \<le> card (free_blocks demo_filesys)"
    using demo_free_card by (simp add: d block_due_def blocks_in_def BSIZE_def)
  have f: "0 < length (icache demo_filesys)" "icache demo_filesys ! 0 = demo_file" "i_dev demo_file = 1" "i_type demo_file \<noteq> T_DEV"
    by (simp_all add: T_DEV_def)
  have size: "1022 \<le> unat (i_size demo_file)" "unat (i_size demo_file) \<le> MAXFILE * BSIZE" "1022 + length d \<le> MAXFILE * BSIZE"
    by (simp_all add: d MAXFILE_def NDIRECT_def NINDIRECT_def BSIZE_def)
  have src: "?src (of_nat x) m u = Ok (take m (drop x d)) u" if "x < length d" for u x m
  proof -
    have "unat (of_nat x :: u32) = x" using that d by (intro unat_of_nat_u32) simp
    show ?thesis by (simp only: retM_run \<open>unat (of_nat x :: u32) = x\<close>)
  qed
  have "\<exists>t i'. writei 0 ?src 0 (of_nat 1022) (of_nat (length d)) demo_filesys = Ok (of_nat (length d)) t
      \<and> file_bytes t i' = splice 1022 d (file_bytes demo_filesys demo_file)"
    using writei_writes [where src = ?src and a = 0, OF demo_filesys_inv f demo_file_wf size src room free] by blast
  then show ?thesis by (simp add: d demo_file_bytes splice_def d_def)
qed

theorem readi_reads_witness:
  "\<exists>t. readi 0 (\<lambda>_ _. retM ()) 0 1020 16 demo_filesys = Ok (3, [0, 0, 0]) t"
proof -
  have "fblk demo_filesys demo_file (j div BSIZE) \<noteq> 0" if "j < 1023" for j
  proof -
    have "j div 512 < 2" using that by (intro less_mult_imp_div_less) simp
    then show ?thesis by (auto simp: demo_fblk BSIZE_def)
  qed
  then have "\<exists>t. readi 0 (\<lambda>_ _. retM ()) 0 (of_nat 1020) (of_nat 16) demo_filesys
      = Ok (of_nat (min 16 (1023 - 1020)), take 16 (drop 1020 (file_bytes demo_filesys demo_file))) t"
    using readi_reads [OF demo_filesys_inv _ _ _ demo_file_wf, of 0 1020 16 "\<lambda>_ _. retM ()" 0]
    by (simp add: MAXFILE_def NDIRECT_def NINDIRECT_def BSIZE_def T_DEV_def) blast
  then show ?thesis by (simp add: demo_file_bytes numeral_eq_Suc)
qed

end
