(* ===== verification/Dir_Spec.thy ===== *)
theory Dir_Spec
  imports File_Spec
begin

text \<open>
  Directories: a file of entries of sixteen bytes, an inode number and a name. \<open>dirlookup\<close> finds the first entry in use with a name,
  \<open>dirlink\<close> puts a new name into the first empty entry or behind the last, and the next look finds it there.
\<close>

section \<open>Entries\<close>

definition fname :: "u8 list \<Rightarrow> u8 list" where
  "fname name = takeWhile (\<lambda>b. b \<noteq> 0) (take DIRSIZ name)"

definition chunks :: "u8 list \<Rightarrow> u8 list list" where
  "chunks bs = map (\<lambda>k. take 16 (drop (16 * k) bs)) [0..<length bs div 16]"

definition dir_entries :: "'z kfs_scheme \<Rightarrow> inode \<Rightarrow> u8 list list" where
  "dir_entries s i = chunks (file_bytes s i)"

definition names :: "u8 list \<Rightarrow> u8 list \<Rightarrow> bool" where
  "names name de \<longleftrightarrow> de_inum de \<noteq> 0 \<and> fname (de_name de) = fname name"

definition dir_find :: "'z kfs_scheme \<Rightarrow> inode \<Rightarrow> u8 list \<Rightarrow> nat option" where
  "dir_find s i name = find (\<lambda>k. names name (dir_entries s i ! k)) [0..<length (dir_entries s i)]"

lemma takeWhile_take: "takeWhile P (take n xs) = take n (takeWhile P xs)"
proof (induction n arbitrary: xs)
  case (Suc n xs)
  then show ?case by (cases xs) simp_all
qed simp

lemma name_ncmp_eq: "name_ncmp n p q = 0 \<longleftrightarrow> takeWhile (\<lambda>b. b \<noteq> 0) (take n p) = takeWhile (\<lambda>b. b \<noteq> 0) (take n q)"
proof (induction n arbitrary: p q)
  case (Suc n p q)
  have u: "ucast a - ucast b = (0 :: u32) \<longleftrightarrow> a = b" for a b :: u8
    unfolding right_minus_eq by simp
  show ?case by (cases p; cases q) (auto simp: Suc.IH u Let_def)
qed simp

lemma namecmp_eq: "namecmp a b = 0 \<longleftrightarrow> fname a = fname b"
  by (simp add: namecmp_def fname_def name_ncmp_eq)

lemma mk_dirent_facts:
  shows "length (mk_dirent name inum) = 16" and "de_inum (mk_dirent name inum) = ucast inum" and "fname (de_name (mk_dirent name inum)) = fname name"
proof -
  let ?nm = "take DIRSIZ (takeWhile (\<lambda>b. b \<noteq> 0) name)"
  have l: "length ?nm \<le> DIRSIZ" by simp
  then show "length (mk_dirent name inum) = 16" by (simp add: mk_dirent_def Let_def DIRSIZ_def)
  show "de_inum (mk_dirent name inum) = ucast inum"
    unfolding de_inum_def mk_dirent_def get16_def by (rule bit_word_eqI) (auto simp: bit_simps)
  have "de_name (mk_dirent name inum) = ?nm @ replicate (DIRSIZ - length ?nm) 0"
    using l by (simp add: de_name_def mk_dirent_def Let_def)
  moreover have "takeWhile (\<lambda>b. b \<noteq> 0) (?nm @ replicate m 0) = ?nm" for m
    by (subst takeWhile_append2) (auto dest: in_set_takeD set_takeWhileD)
  moreover have "take DIRSIZ (?nm @ replicate (DIRSIZ - length ?nm) 0) = ?nm @ replicate (DIRSIZ - length ?nm) 0" using l by simp
  ultimately show "fname (de_name (mk_dirent name inum)) = fname name" by (simp only: fname_def takeWhile_take [of _ DIRSIZ name])
qed

lemma length_chunks [simp]: "length (chunks bs) = length bs div 16"
  by (simp add: chunks_def)

lemma chunks_nth: "k < length bs div 16 \<Longrightarrow> chunks bs ! k = take 16 (drop (16 * k) bs)"
  by (simp add: chunks_def)

lemma chunks_splice:
  assumes "length de = 16" and "16 dvd length bs" and "k \<le> length bs div 16"
  shows "chunks (splice (16 * k) de bs) = (if k < length bs div 16 then (chunks bs)[k := de] else chunks bs @ [de])"
proof -
  obtain n where n: "length bs = 16 * n" using assms(2) by blast
  have k: "k \<le> n" using assms(3) n by simp
  have l: "length (splice (16 * k) de bs) = 16 * max n (Suc k)" using k assms(1) n by (auto simp: splice_def max_def min_def)
  have at: "take 16 (drop (16 * j) (splice (16 * k) de bs)) = (if j = k then de else take 16 (drop (16 * j) bs))" if "j < max n (Suc k)" for j
  proof (rule nth_equalityI)
    show "length (take 16 (drop (16 * j) (splice (16 * k) de bs))) = length (if j = k then de else take 16 (drop (16 * j) bs))"
      unfolding length_take length_drop l using Suc_leI [OF that] k assms(1) n by (auto simp: min_def max_def split: if_split_asm)
    fix m assume "m < length (take 16 (drop (16 * j) (splice (16 * k) de bs)))"
    then have m: "m < 16" by simp
    consider "j < k" | "j = k" | "k < j" by linarith
    then show "take 16 (drop (16 * j) (splice (16 * k) de bs)) ! m = (if j = k then de else take 16 (drop (16 * j) bs)) ! m"
    proof cases
      case 3
      then have "j < n" "16 * k + (16 + (16 * j + m - (16 * k + 16))) = 16 * j + m" using that by auto
      then show ?thesis using 3 m k assms(1) n l by (simp add: splice_def nth_append)
    qed (use m k assms(1) n l in \<open>simp_all add: splice_def nth_append\<close>)
  qed
  show ?thesis
  proof (rule nth_equalityI)
    show "length (chunks (splice (16 * k) de bs)) = length (if k < length bs div 16 then (chunks bs)[k := de] else chunks bs @ [de])"
      using k n l by (auto simp: max_def)
    fix j assume "j < length (chunks (splice (16 * k) de bs))"
    then have j: "j < max n (Suc k)" using l by simp
    then show "chunks (splice (16 * k) de bs) ! j = (if k < length bs div 16 then (chunks bs)[k := de] else chunks bs @ [de]) ! j"
      using at [OF j] k n l by (auto simp: chunks_nth nth_append max_def split: if_split_asm)
  qed
qed

section \<open>Looking up\<close>

text \<open>Inode \<open>dp\<close> of the cache is a directory that the operations can work on.\<close>

definition dir_ok :: "'z kfs_scheme \<Rightarrow> nat \<Rightarrow> inode \<Rightarrow> bool" where
  "dir_ok s dp i \<longleftrightarrow> fs_inv s \<and> dp < length (icache s) \<and> icache s ! dp = i \<and> i_dev i = 1 \<and> i_type i = T_DIR \<and> file_wf s i
     \<and> unat (i_size i) \<le> MAXFILE * BSIZE \<and> 16 dvd unat (i_size i) \<and> (\<forall>j<unat (i_size i). fblk s i (j div BSIZE) \<noteq> 0)"

lemma dir_okD:
  assumes "dir_ok s dp i"
  shows "fs_inv s" and "icache s ! dp = i" and "i_dev i = 1" and "i_type i \<noteq> T_DEV" and "file_wf s i" and "unat (i_size i) \<le> MAXFILE * BSIZE"
    and "16 dvd unat (i_size i)" and "j < unat (i_size i) \<Longrightarrow> fblk s i (j div BSIZE) \<noteq> 0" and "dp < length (icache s)" and "i_type i = T_DIR"
  using assms by (simp_all add: dir_ok_def T_DIR_def T_DEV_def)

lemma dir_same:
  assumes "dir_ok s dp i" and "same_files s t"
  shows "dir_ok t dp i" and "dir_entries t i = dir_entries s i"
proof -
  have "in_use s (IBLOCK (i_inum i) (sb s))" using dir_okD(5) [OF assms(1)] by (simp add: file_wf_def)
  then have "0 < nblocks s" by (auto simp: in_use_def)
  note S = same_files_facts [OF assms(2) dir_okD(1) [OF assms(1)]]
  show "dir_ok t dp i" using assms(1) S(2,3,5) S(6) [OF \<open>0 < nblocks s\<close>] by (simp add: dir_ok_def)
  show "dir_entries t i = dir_entries s i" by (simp add: dir_entries_def file_bytes_def S(4))
qed

lemma length_entries [simp]: "length (dir_entries s i) = unat (i_size i) div 16"
  by (simp add: dir_entries_def file_bytes_def)

lemma offset_word:
  assumes "dir_ok s dp i" and "k \<le> length (dir_entries s i)"
  shows "unat (of_nat (16 * k) :: u32) = 16 * k" and "16 * k \<le> unat (i_size i)"
proof -
  show le: "16 * k \<le> unat (i_size i)" using assms(2) by simp
  then show "unat (of_nat (16 * k) :: u32) = 16 * k" using unat_u32_lt [of "i_size i"] by (intro unat_of_nat_u32) simp
qed

lemma read_entry:
  assumes ok: "dir_ok s dp i" and k: "k < length (dir_entries s i)"
  shows "\<exists>t. read_dirent msg dp (of_nat (16 * k)) s = Ok (dir_entries s i ! k) t \<and> same_files s t"
proof -
  note D = dir_okD [OF ok]
  have k16: "16 * k + 16 \<le> unat (i_size i)" using k by simp
  have sz: "16 * k \<le> unat (i_size i)" "16 * k + 16 < 2 ^ 32"
    using k16 D(6) by (simp_all add: MAXFILE_def NDIRECT_def NINDIRECT_def BSIZE_def)
  obtain t where t: "readi dp (\<lambda>_ _. retM ()) 0 (of_nat (16 * k)) (of_nat 16) s
      = Ok (of_nat (min 16 (unat (i_size i) - 16 * k)), take 16 (drop (16 * k) (file_bytes s i))) t" "same_files s t"
    using readi_reads [where put = "\<lambda>_ _. retM ()", OF D(1-5) sz(1) D(6) sz(2) D(8)] by auto
  have "min 16 (unat (i_size i) - 16 * k) = 16" using k16 by simp
  then show ?thesis using t k by (simp add: read_dirent_def bindM_run dir_entries_def chunks_nth file_bytes_def)
qed

lemma dirlookup_loop_finds:
  assumes "dir_ok s dp i" and "\<And>k. k \<in> set ks \<Longrightarrow> k < length (dir_entries s i)"
  shows "\<exists>t. same_files s t \<and> dirlookup_loop dp name (map (\<lambda>k. of_nat (16 * k)) ks) s
    = (case find (\<lambda>k. names name (dir_entries s i ! k)) ks of None \<Rightarrow> Ok None t
       | Some k \<Rightarrow> bindM (iget 1 (ucast (de_inum (dir_entries s i ! k)))) (\<lambda>ip. retM (Some (ip, of_nat (16 * k)))) t)"
  using assms
proof (induction ks arbitrary: s)
  case Nil
  then show ?case using same_files_refl [OF fs_invD(1) [OF dir_okD(1)]] by (intro exI [of _ s]) simp
next
  case (Cons k ks s)
  obtain t where t: "read_dirent ''dirlookup read'' dp (of_nat (16 * k)) s = Ok (dir_entries s i ! k) t" "same_files s t"
    using read_entry [OF Cons.prems(1) Cons.prems(2) [of k]] by auto
  note T = dir_same [OF Cons.prems(1) t(2)]
  show ?case
  proof (cases "names name (dir_entries s i ! k)")
    case True
    then have "de_inum (dir_entries s i ! k) \<noteq> 0" "namecmp name (de_name (dir_entries s i ! k)) = 0" by (simp_all add: names_def namecmp_eq)
    then show ?thesis using t T dir_okD(2,3) [OF T(1)] True by (intro exI [of _ t]) (simp add: bindM_run inodeM_def)
  next
    case False
    have "\<exists>u. same_files t u \<and> dirlookup_loop dp name (map (\<lambda>k. of_nat (16 * k)) ks) t
      = (case find (\<lambda>k. names name (dir_entries s i ! k)) ks of None \<Rightarrow> Ok None u
         | Some k \<Rightarrow> bindM (iget 1 (ucast (de_inum (dir_entries s i ! k)))) (\<lambda>ip. retM (Some (ip, of_nat (16 * k)))) u)"
      by (rule Cons.IH [OF T(1), unfolded T(2)]) (use Cons.prems(2) in simp)
    then obtain u where u: "same_files t u" "dirlookup_loop dp name (map (\<lambda>k. of_nat (16 * k)) ks) t
      = (case find (\<lambda>k. names name (dir_entries s i ! k)) ks of None \<Rightarrow> Ok None u
         | Some k \<Rightarrow> bindM (iget 1 (ucast (de_inum (dir_entries s i ! k)))) (\<lambda>ip. retM (Some (ip, of_nat (16 * k)))) u)" by blast
    have "de_inum (dir_entries s i ! k) = 0 \<or> namecmp name (de_name (dir_entries s i ! k)) \<noteq> 0" using False by (auto simp: names_def namecmp_eq)
    then have "dirlookup_loop dp name (map (\<lambda>k. of_nat (16 * k)) (k # ks)) s = dirlookup_loop dp name (map (\<lambda>k. of_nat (16 * k)) ks) t"
      using t(1) by (auto simp: bindM_run)
    then show ?thesis using u same_files_trans [OF t(2) u(1)] False by (intro exI [of _ u]) simp
  qed
qed

lemma offsets:
  assumes "dir_ok s dp i"
  shows "dirent_offs (i_size i) = map (\<lambda>k. of_nat (16 * k)) [0..<length (dir_entries s i)]"
proof -
  obtain n where "unat (i_size i) = 16 * n" using dir_okD(7) [OF assms] by blast
  then show ?thesis by (simp add: dirent_offs_def)
qed

lemma dirlookup_outcome:
  assumes ok: "dir_ok s dp i"
  shows "\<exists>t. same_files s t \<and> dirlookup dp name s = (case dir_find s i name of None \<Rightarrow> Ok None t
    | Some k \<Rightarrow> bindM (iget 1 (ucast (de_inum (dir_entries s i ! k)))) (\<lambda>ip. retM (Some (ip, of_nat (16 * k)))) t)"
  using dirlookup_loop_finds [OF ok, of "[0..<length (dir_entries s i)]" name] dir_okD(2,10) [OF ok] offsets [OF ok]
  by (simp add: dirlookup_def inodeM_def bindM_run dir_find_def)

text \<open>
  C18: \<open>dirlookup\<close> looks a name up. In a directory it returns the inode, by \<open>iget\<close>, and the offset of the first entry in use whose name,
  up to its NUL or its end, is the given one, and nothing when there is none. Reading the directory changes no block and no inode.
\<close>
theorem dirlookup_finds:
  assumes ok: "dir_ok s dp i"
  shows "\<exists>t. tframe s t \<and> writes t = writes s \<and> content t = content s \<and>
    dirlookup dp name s = (case find (\<lambda>k. names name (dir_entries s i ! k)) [0..<length (dir_entries s i)] of None \<Rightarrow> Ok None t
    | Some k \<Rightarrow> bindM (iget 1 (ucast (de_inum (dir_entries s i ! k)))) (\<lambda>ip. retM (Some (ip, of_nat (16 * k)))) t)"
  using dirlookup_outcome [OF ok, of name] by (auto simp: same_files_def dir_find_def)

section \<open>Linking\<close>

definition free_entry :: "'z kfs_scheme \<Rightarrow> inode \<Rightarrow> nat" where
  "free_entry s i = (case find (\<lambda>k. de_inum (dir_entries s i ! k) = 0) [0..<length (dir_entries s i)] of
     Some k \<Rightarrow> k | None \<Rightarrow> length (dir_entries s i))"

lemma empty_dirent_finds:
  assumes "dir_ok s dp i" and "\<And>k. k \<in> set ks \<Longrightarrow> k < length (dir_entries s i)"
  shows "\<exists>t. same_files s t \<and> empty_dirent dp (map (\<lambda>k. of_nat (16 * k)) ks) stop s
    = Ok (case find (\<lambda>k. de_inum (dir_entries s i ! k) = 0) ks of None \<Rightarrow> stop | Some k \<Rightarrow> of_nat (16 * k)) t"
  using assms
proof (induction ks arbitrary: s)
  case Nil
  then show ?case using same_files_refl [OF fs_invD(1) [OF dir_okD(1)]] by (intro exI [of _ s]) simp
next
  case (Cons k ks s)
  obtain t where t: "read_dirent ''dirlink read'' dp (of_nat (16 * k)) s = Ok (dir_entries s i ! k) t" "same_files s t"
    using read_entry [OF Cons.prems(1) Cons.prems(2) [of k]] by auto
  note T = dir_same [OF Cons.prems(1) t(2)]
  show ?case
  proof (cases "de_inum (dir_entries s i ! k) = 0")
    case False
    have "\<exists>u. same_files t u \<and> empty_dirent dp (map (\<lambda>k. of_nat (16 * k)) ks) stop t
      = Ok (case find (\<lambda>k. de_inum (dir_entries s i ! k) = 0) ks of None \<Rightarrow> stop | Some k \<Rightarrow> of_nat (16 * k)) u"
      by (rule Cons.IH [OF T(1), unfolded T(2)]) (use Cons.prems(2) in simp)
    then obtain u where u: "same_files t u" "empty_dirent dp (map (\<lambda>k. of_nat (16 * k)) ks) stop t
      = Ok (case find (\<lambda>k. de_inum (dir_entries s i ! k) = 0) ks of None \<Rightarrow> stop | Some k \<Rightarrow> of_nat (16 * k)) u" by blast
    then show ?thesis using t(1) same_files_trans [OF t(2) u(1)] False by (intro exI [of _ u]) (simp add: bindM_run)
  qed (use t in \<open>auto simp: bindM_run\<close>)
qed

lemma free_entry_cases:
  "free_entry s i \<le> length (dir_entries s i)" "k < free_entry s i \<Longrightarrow> de_inum (dir_entries s i ! k) \<noteq> 0"
  "free_entry s i < length (dir_entries s i) \<Longrightarrow> de_inum (dir_entries s i ! free_entry s i) = 0"
  unfolding free_entry_def by (auto simp: find_upt_Some find_None_iff split: option.splits)

lemma dirlink_search:
  assumes ok: "dir_ok s dp i" and new: "dir_find s i name = None"
  shows "\<exists>t. same_files s t \<and> dirlink dp name inum s =
    bindM (writei dp (\<lambda>tot m. retM (take m (drop (unat tot) (mk_dirent name inum)))) 0 (of_nat (16 * free_entry s i)) 16)
      (\<lambda>r. if r \<noteq> 16 then panic ''dirlink'' else retM 0) t"
proof -
  obtain t where t: "same_files s t" "dirlookup dp name s = Ok None t" using dirlookup_outcome [OF ok, of name] new by auto
  note T = dir_same [OF ok t(1)]
  let ?n = "length (dir_entries s i)"
  obtain u where u: "same_files t u" "empty_dirent dp (map (\<lambda>k. of_nat (16 * k)) [0..<?n]) (of_nat (16 * ?n)) t
    = Ok (case find (\<lambda>k. de_inum (dir_entries s i ! k) = 0) [0..<?n] of None \<Rightarrow> of_nat (16 * ?n) | Some k \<Rightarrow> of_nat (16 * k)) u"
    using empty_dirent_finds [OF T(1), of "[0..<?n]" "of_nat (16 * ?n)", unfolded T(2)] by auto
  have "(case find (\<lambda>k. de_inum (dir_entries s i ! k) = 0) [0..<?n] of None \<Rightarrow> of_nat (16 * ?n) | Some k \<Rightarrow> of_nat (16 * k)) = (of_nat (16 * free_entry s i) :: u32)"
    by (simp add: free_entry_def split: option.splits)
  then have "empty_dirent dp (dirent_offs (i_size i)) (of_nat (16 * ?n)) t = Ok (of_nat (16 * free_entry s i)) u"
    using u(2) offsets [OF ok] by (simp only:)
  moreover have "length (dirent_offs (i_size i)) = ?n" using offsets [OF ok] by (simp only: length_map length_upt)
  ultimately show ?thesis using same_files_trans [OF t(1) u(1)] t(2) dir_okD(2) [OF T(1)]
    by (intro exI [of _ u]) (simp add: dirlink_def bindM_run inodeM_def Let_def)
qed

lemma entry_in_block: "blocks_in (16 * k) 16 = 1"
proof -
  have "(16 * k + 15) div (16 * 32) = 16 * k div (16 * 32)" by (simp only: div_mult2_eq) simp
  then have "(16 * k + 15) div 512 = 16 * k div 512" by simp
  then show ?thesis by (simp add: blocks_in_def BSIZE_def)
qed

lemma find_append: "find P (xs @ ys) = (case find P xs of None \<Rightarrow> find P ys | Some x \<Rightarrow> Some x)"
  by (induction xs) auto

lemma dirlink_names:
  assumes new: "dir_find s i name = None" and inum: "ucast inum \<noteq> (0 :: u16)"
    and es: "dir_entries t i' = (if free_entry s i < length (dir_entries s i) then (dir_entries s i)[free_entry s i := mk_dirent name inum]
      else dir_entries s i @ [mk_dirent name inum])"
  shows "dir_find t i' name = Some (free_entry s i)" and "fname other \<noteq> fname name \<Longrightarrow> dir_find t i' other = dir_find s i other"
proof -
  let ?k = "free_entry s i" and ?n = "length (dir_entries s i)" and ?e = "mk_dirent name inum"
  have kn: "?k \<le> ?n" by (rule free_entry_cases)
  have len: "length (dir_entries t i') = max ?n (Suc ?k)" using kn unfolding es by (auto simp: max_def)
  have at: "dir_entries t i' ! j = (if j = ?k then ?e else dir_entries s i ! j)" if "j < max ?n (Suc ?k)" for j
    using that kn unfolding es by (auto simp: nth_append max_def split: if_split_asm)
  have old: "\<not> names name (dir_entries s i ! j)" if "j < ?n" for j using new that by (auto simp: dir_find_def find_None_iff)
  have "names name ?e" using inum by (simp add: names_def mk_dirent_facts)
  moreover have "\<not> names name (dir_entries t i' ! j)" if "j < ?k" for j using that kn old [of j] at [of j] by simp
  ultimately show "dir_find t i' name = Some ?k" unfolding dir_find_def len find_upt_Some using at [of ?k] by simp
  assume o: "fname other \<noteq> fname name"
  have ne: "\<not> names other ?e" using o by (auto simp: names_def mk_dirent_facts)
  have ke: "\<not> names other (dir_entries s i ! ?k)" if "?k < ?n" using free_entry_cases(3) [OF that] by (simp add: names_def)
  have "find (\<lambda>k. names other (dir_entries t i' ! k)) [0..<max ?n (Suc ?k)] = find (\<lambda>k. names other (dir_entries s i ! k)) [0..<?n]"
  proof (cases "?k < ?n")
    case True
    then have "max ?n (Suc ?k) = ?n" by simp
    then show ?thesis using at ne ke [OF True] by (intro find_cong) auto
  next
    case False
    then have k: "?k = ?n" using kn by simp
    then have "[0..<max ?n (Suc ?k)] = [0..<?n] @ [?k]" by simp
    moreover have "find (\<lambda>k. names other (dir_entries t i' ! k)) [0..<?n] = find (\<lambda>k. names other (dir_entries s i ! k)) [0..<?n]"
      using at k by (intro find_cong) auto
    ultimately show ?thesis using at [of ?k] ne by (simp add: find_append split: option.splits)
  qed
  then show "dir_find t i' other = dir_find s i other" by (simp only: dir_find_def len)
qed

text \<open>
  C17: \<open>dirlink\<close> adds a name. When a directory has no entry with the name, the new entry, with the inode number, goes to the
  first empty place or behind the last entry, and all other entries stay; then the name is found there and every other
  name where it was. No block in use outside the directory changes, apart from its inode's block when it grows.
\<close>
theorem dirlink_adds:
  assumes ok: "dir_ok s dp i" and new: "dir_find s i name = None" and inum: "ucast inum \<noteq> (0 :: u16)"
    and room: "lh_len s + log_due s i + 3 < unat (log_size s)" and free: "block_due i < card (free_blocks s)"
    and grow: "unat (i_size i) + 16 \<le> MAXFILE * BSIZE"
  shows "\<exists>t i'. dirlink dp name inum s = Ok 0 t \<and> fs_inv t \<and> icache t = (icache s)[dp := i'] \<and> file_wf t i'
    \<and> dir_entries t i' = (if free_entry s i < length (dir_entries s i) then (dir_entries s i)[free_entry s i := mk_dirent name inum]
        else dir_entries s i @ [mk_dirent name inum])
    \<and> dir_find t i' name = Some (free_entry s i) \<and> (\<forall>other. fname other = fname name \<or> dir_find t i' other = dir_find s i other)
    \<and> (\<forall>x. in_use s x \<longrightarrow> x \<notin> owned s i \<longrightarrow> x \<noteq> IBLOCK (i_inum i) (sb s) \<longrightarrow> content t x = content s x)"
proof -
  let ?k = "free_entry s i" and ?e = "mk_dirent name inum"
  let ?src = "\<lambda>(tot :: u32) m. retM (take m (drop (unat tot) ?e)) :: 'a kfs_scheme \<Rightarrow> (u8 list, 'a kfs_scheme) res"
  obtain u where u: "same_files s u" "dirlink dp name inum s = bindM (writei dp ?src 0 (of_nat (16 * ?k)) 16) (\<lambda>r. if r \<noteq> 16 then panic ''dirlink'' else retM 0) u"
    using dirlink_search [OF ok new] by blast
  have U: "dir_ok u dp i" "dir_entries u i = dir_entries s i" using dir_same [OF ok u(1)] by simp_all
  note D = dir_okD [OF U(1)] and S = same_files_facts [OF u(1) dir_okD(1) [OF ok]]
  have c: "content u = content s" "lh_len u = lh_len s" "dirty_blocks u = dirty_blocks s" using u(1) by (simp_all add: same_files_def)
  note M = same_map [OF S(1), unfolded c(1), OF refl] and K = kframe_fields [OF S(1)]
  have k: "16 * ?k \<le> unat (i_size i)" "?k \<le> length (dir_entries s i)" using free_entry_cases(1) [of s i] by simp_all
  have e: "length ?e = 16" by (rule mk_dirent_facts)
  have size: "16 * ?k + length ?e \<le> MAXFILE * BSIZE" using k(1) grow e by simp
  have src: "?src (of_nat x) m v = Ok (take m (drop x ?e)) v" if "x < length ?e" for v x m
  proof -
    have "unat (of_nat x :: u32) = x" using that e by (intro unat_of_nat_u32) simp
    then show ?thesis by simp
  qed
  have rm: "lh_len u + log_due u i + 2 * blocks_in (16 * ?k) (length ?e) + 1 < unat (log_size u)"
    using room by (simp add: c K(2) e entry_in_block log_due_def)
  have fr: "blocks_in (16 * ?k) (length ?e) + block_due i \<le> card (free_blocks u)" using free M(3) by (simp add: e entry_in_block)
  from writei_outcome [where src = ?src and a = 0, OF D(1,9,2,3,4,5) k(1) D(6) size src rm fr] obtain t i' where
    t: "writei dp ?src 0 (of_nat (16 * ?k)) (of_nat (length ?e)) u = Ok (of_nat (length ?e)) t" "fs_inv t" "icache t = (icache u)[dp := i']" "file_wf t i'"
      "file_bytes t i' = splice (16 * ?k) ?e (file_bytes u i)"
      "\<forall>x. in_use u x \<longrightarrow> x \<notin> owned u i \<longrightarrow> x \<noteq> IBLOCK (i_inum i) (sb u) \<longrightarrow> in_use t x \<and> x \<notin> owned t i' \<and> content t x = content u x" by blast
  have fb: "file_bytes u i = file_bytes s i" by (simp add: file_bytes_def S(4))
  have "16 dvd length (file_bytes s i)" "?k \<le> length (file_bytes s i) div 16" using D(7) k(2) by (simp_all add: file_bytes_def)
  from chunks_splice [OF e this] have es: "dir_entries t i' = (if ?k < length (dir_entries s i) then (dir_entries s i)[?k := ?e] else dir_entries s i @ [?e])"
    by (simp add: dir_entries_def t(5) fb)
  have "dirlink dp name inum s = Ok 0 t" using u(2) t(1) e by (simp add: bindM_run)
  moreover have "owned u i = owned s i" by (simp add: owned_def S(3))
  then have "\<forall>x. in_use s x \<longrightarrow> x \<notin> owned s i \<longrightarrow> x \<noteq> IBLOCK (i_inum i) (sb s) \<longrightarrow> content t x = content s x" using t(6) by (simp add: M(2) K(5) c)
  ultimately show ?thesis using t(2,3,4) S(2) es dirlink_names [OF new inum es] by (intro exI [of _ t] exI [of _ i']) auto
qed

section \<open>An example\<close>

text \<open>Inode 17 as a directory with one entry, in block 40 of the example: inode \<open>0x0707\<close>, and a name of fourteen bytes 7.\<close>

definition demo_dir :: inode where
  "demo_dir = demo_inode\<lparr>i_type := T_DIR, i_size := 16, i_addrs := [40, 0, 0, 0, 0, 0, 0, 0, 0, 0, 0, 0, 0]\<rparr>"

definition demo_dirsys :: kfs where
  "demo_dirsys = demo_filesys\<lparr>icache := [demo_dir]\<rparr>"

lemma demo_dir_fields [simp]:
  "i_dev demo_dir = 1" "i_inum demo_dir = 17" "i_type demo_dir = T_DIR" "i_size demo_dir = 16" "i_addrs demo_dir = [40, 0, 0, 0, 0, 0, 0, 0, 0, 0, 0, 0, 0]"
  by (simp_all add: demo_dir_def demo_inode_def)

lemma demo_dir_fblk: "fblk s demo_dir k = (if k = 0 then 40 else 0)"
  by (auto simp: fblk_def NDIRECT_def nth_Cons split: nat.splits)

lemma demo_dirsys_ok: "dir_ok demo_dirsys 0 demo_dir"
proof -
  have "IBLOCK 17 demo_sb = 34" by (simp add: IBLOCK_def demo_sb_def IPB_def)
  then have "file_wf demo_filesys demo_dir" using demo_in_use [of 34] demo_in_use [of 40] by (simp add: file_wf_def demo_dir_fblk NDIRECT_def)
  then show ?thesis
    using demo_filesys_inv by (simp add: dir_ok_def demo_dirsys_def demo_dir_fblk MAXFILE_def NDIRECT_def NINDIRECT_def BSIZE_def)
qed

lemma demo_dirsys_entries: "dir_entries demo_dirsys demo_dir = [replicate 16 7]"
proof -
  have "content demo_dirsys 40 = replicate BSIZE 7" by (simp add: demo_dirsys_def demo_filesys_content)
  then have "file_bytes demo_dirsys demo_dir = replicate 16 7"
    by (intro nth_equalityI) (simp_all add: file_bytes_def fbyte_def demo_dir_fblk BSIZE_def)
  then show ?thesis by (simp add: dir_entries_def chunks_def)
qed

lemma demo_entry: "de_inum (replicate 16 7) = 0x0707" "fname (de_name (replicate 16 7)) = replicate 14 7"
  by (simp add: de_inum_def get16_def) (simp add: de_name_def fname_def DIRSIZ_def)

lemma demo_dir_names: "names name (replicate 16 7) \<longleftrightarrow> fname name = replicate 14 7"
  by (auto simp: names_def demo_entry)

theorem dirlookup_finds_witness:
  "\<exists>t. dirlookup 0 (replicate 14 7) demo_dirsys = bindM (iget 1 0x0707) (\<lambda>ip. retM (Some (ip, 0))) t"
proof -
  have "fname (replicate 14 7) = replicate 14 7" by (simp add: fname_def DIRSIZ_def)
  then show ?thesis using dirlookup_finds [OF demo_dirsys_ok, of "replicate 14 7"]
    by (auto simp: demo_dirsys_entries demo_dir_names demo_entry(1))
qed

text \<open>The name \<open>a\<close> goes behind the entry, and is found there.\<close>

theorem dirlink_adds_witness:
  "\<exists>t i'. dirlink 0 [0x61] 5 demo_dirsys = Ok 0 t \<and> dir_entries t i' = [replicate 16 7, [5, 0, 0x61] @ replicate 13 0] \<and> dir_find t i' [0x61] = Some 1"
proof -
  have new: "dir_find demo_dirsys demo_dir [0x61] = None"
    by (simp add: dir_find_def demo_dirsys_entries demo_dir_names) (simp add: fname_def DIRSIZ_def numeral_eq_Suc)
  have k: "free_entry demo_dirsys demo_dir = 1" by (simp add: free_entry_def demo_dirsys_entries demo_entry(1))
  have room: "lh_len demo_dirsys + log_due demo_dirsys demo_dir + 3 < unat (log_size demo_dirsys)" by (simp add: demo_dirsys_def log_due_def)
  have free: "block_due demo_dir < card (free_blocks demo_dirsys)" using demo_free_card by (simp add: demo_dirsys_def block_due_def)
  have e: "mk_dirent [0x61] 5 = [5, 0, 0x61] @ replicate 13 0" by (simp add: mk_dirent_def DIRSIZ_def Let_def)
  have "ucast (5 :: u32) \<noteq> (0 :: u16)" "unat (i_size demo_dir) + 16 \<le> MAXFILE * BSIZE" by (simp_all add: MAXFILE_def NDIRECT_def NINDIRECT_def BSIZE_def)
  from dirlink_adds [OF demo_dirsys_ok new this(1) room free this(2)]
  show ?thesis unfolding k demo_dirsys_entries e by auto
qed

end
