(* ===== verification/Ring.thy ===== *)
theory Ring
  imports Xv6_Prelude
begin

text \<open>
  Ring buffers with free-running counters, as the pipe (\<open>pipe.c\<close>) and the console input
  (\<open>console.c\<close>) have them: the reader's and the writer's counter are words that are never reduced,
  and a byte is found at its counter modulo the size, a power of two. The contract of a bounded
  queue is a locale; the two ring buffers are interpretations of it.
\<close>

section \<open>Bounded queues\<close>

locale bounded_fifo =
  fixes items :: "'s \<Rightarrow> 'a list"
    and cap :: nat
    and ok :: "'s \<Rightarrow> bool"
    and put :: "'a \<Rightarrow> 's \<Rightarrow> 's"
    and next_item :: "'s \<Rightarrow> 'a"
    and skip :: "'s \<Rightarrow> 's"
  assumes ok_put: "ok s \<Longrightarrow> length (items s) < cap \<Longrightarrow> ok (put x s)"
    and items_put: "ok s \<Longrightarrow> length (items s) < cap \<Longrightarrow> items (put x s) = items s @ [x]"
    and ok_skip: "ok s \<Longrightarrow> items s \<noteq> [] \<Longrightarrow> ok (skip s)"
    and items_next: "ok s \<Longrightarrow> items s \<noteq> [] \<Longrightarrow> items s = next_item s # items (skip s)"
begin

lemma put_all:
  "ok s \<Longrightarrow> length (items s) + length xs \<le> cap \<Longrightarrow> ok (fold put xs s) \<and> items (fold put xs s) = items s @ xs"
proof (induction xs arbitrary: s)
  case Nil
  then show ?case by simp
next
  case (Cons x xs)
  then have "length (items s) < cap" by simp
  with Cons.prems have "ok (put x s)" "items (put x s) = items s @ [x]" by (simp_all add: ok_put items_put)
  with Cons.IH [of "put x s"] Cons.prems show ?case by simp
qed

lemma skip_all: "ok s \<Longrightarrow> n \<le> length (items s) \<Longrightarrow> ok ((skip ^^ n) s) \<and> items ((skip ^^ n) s) = drop n (items s)"
proof (induction n)
  case 0
  then show ?case by simp
next
  case (Suc n)
  then have n: "ok ((skip ^^ n) s)" "items ((skip ^^ n) s) = drop n (items s)" "items ((skip ^^ n) s) \<noteq> []" by auto
  from items_next [OF n(1,3)] have "items (skip ((skip ^^ n) s)) = tl (drop n (items s))" by (metis list.sel(3) n(2))
  with ok_skip [OF n(1,3)] show ?case by (simp add: drop_Suc drop_tl)
qed

lemma nth_item:
  assumes "ok s" and "n < length (items s)"
  shows "next_item ((skip ^^ n) s) = items s ! n"
proof -
  have n: "ok ((skip ^^ n) s)" "items ((skip ^^ n) s) = drop n (items s)" using skip_all [of s n] assms by auto
  with assms(2) have "items ((skip ^^ n) s) \<noteq> []" by simp
  from items_next [OF n(1) this] assms(2) show ?thesis by (simp add: n(2) Cons_nth_drop_Suc [symmetric])
qed

lemma first_in_first_out:
  assumes "ok s" and "length (items s) + length xs \<le> cap"
  shows "items ((skip ^^ length (items s)) (fold put xs s)) = xs"
  using put_all [OF assms] skip_all [of "fold put xs s" "length (items s)"] by simp

end

section \<open>Counters modulo a power of two\<close>

definition ring :: "nat \<Rightarrow> (nat \<Rightarrow> 'a) \<Rightarrow> u32 \<Rightarrow> u32 \<Rightarrow> 'a list" where
  "ring n cell r w = map (\<lambda>k. cell (unat (r + of_nat k) mod n)) [0..<unat (w - r)]"

lemma length_ring [simp]: "length (ring n cell r w) = unat (w - r)"
  by (simp add: ring_def)

lemma ring_empty [simp]: "ring n cell r r = []"
  by (simp add: ring_def)

lemma ring_Nil_iff [simp]: "ring n cell r w = [] \<longleftrightarrow> w = r"
  by (simp add: ring_def unat_eq_0)

lemma unat_ring_index:
  assumes "n dvd 2 ^ 32"
  shows "unat (r + of_nat k :: u32) mod n = (unat r + k) mod n"
proof -
  have "unat (r + of_nat k :: u32) = (unat r + k) mod 2 ^ 32"
    by (simp add: unat_word_ariths unat_of_nat mod_simps)
  with assms show ?thesis by (simp only: mod_mod_cancel)
qed

lemma mod_neq_near:
  fixes a j k n :: nat
  assumes "j < k" and "k - j < n"
  shows "(a + j) mod n \<noteq> (a + k) mod n"
proof
  assume e: "(a + j) mod n = (a + k) mod n"
  have "n dvd (a + k) - (a + j)" by (rule mod_eq_dvd_iff_nat [THEN iffD1]) (use assms e in simp_all)
  with assms show False using dvd_imp_le [of n "k - j"] by simp
qed

lemma unat_Suc_diff: "unat (w - r) < 2 ^ 32 - 1 \<Longrightarrow> unat (w + 1 - r) = Suc (unat (w - r :: u32))"
  using unat_add_small [of "w - r" 1] by (simp add: algebra_simps)

lemma ring_push:
  assumes "n dvd 2 ^ 32" and "n < 2 ^ 32" and "unat (w - r) < n"
  shows "ring n (cell(unat w mod n := c)) r (w + 1) = ring n cell r w @ [c]"
proof -
  let ?d = "unat (w - r)"
  have w: "unat w mod n = (unat r + ?d) mod n"
    using unat_ring_index [OF assms(1), of r ?d] by simp
  have keep: "(cell(unat w mod n := c)) (unat (r + of_nat k) mod n) = cell (unat (r + of_nat k) mod n)"
    if "k < ?d" for k
    using mod_neq_near [OF that, of n "unat r"] that assms(3) by (simp add: w unat_ring_index [OF assms(1)])
  have "unat (w + 1 - r) = Suc ?d" using assms(2,3) by (intro unat_Suc_diff) simp
  with keep show ?thesis by (simp add: ring_def)
qed

lemma ring_pop:
  assumes "r \<noteq> w"
  shows "ring n cell r w = cell (unat r mod n) # ring n cell (r + 1) w"
proof -
  have "unat (w - r) \<noteq> 0" using assms by (simp add: unat_eq_0)
  then obtain d where d: "unat (w - r) = Suc d" using not0_implies_Suc by blast
  then have "unat (w - (r + 1)) = d" using unat_minus_one [of "w - r"] assms by (simp add: algebra_simps)
  with d show ?thesis
    by (simp add: ring_def upt_conv_Cons map_Suc_upt [symmetric] comp_def ac_simps del: upt_Suc)
qed

lemma ring_unpush:
  assumes "r \<noteq> w"
  shows "ring n cell r (w - 1) = butlast (ring n cell r w)"
proof -
  have "unat (w - r) \<noteq> 0" using assms by (simp add: unat_eq_0)
  then obtain d where d: "unat (w - r) = Suc d" using not0_implies_Suc by blast
  then have "unat (w - 1 - r) = d" using unat_minus_one [of "w - r"] assms by (simp add: algebra_simps)
  with d show ?thesis by (simp add: ring_def)
qed

lemma ring_cong:
  "(\<And>i. i < n \<Longrightarrow> cell i = cell' i) \<Longrightarrow> 0 < n \<Longrightarrow> ring n cell r w = ring n cell' r w"
  by (simp add: ring_def)

lemma ring_last: "r \<noteq> w \<Longrightarrow> last (ring n cell r w) = cell (unat (w - 1) mod n)"
proof -
  assume "r \<noteq> w"
  then have "unat (w - r) \<noteq> 0" by (simp add: unat_eq_0)
  then obtain d where d: "unat (w - r) = Suc d" using not0_implies_Suc by blast
  then have "unat (w - 1 - r) = d" using unat_minus_one [of "w - r"] \<open>r \<noteq> w\<close> by (simp add: algebra_simps)
  then have "r + of_nat d = w - 1" by (auto simp: algebra_simps)
  with d show ?thesis by (simp add: ring_def)
qed

lemma ring_split:
  assumes "unat (w - r) + unat (e - w) < 2 ^ 32"
  shows "ring n cell r e = ring n cell r w @ ring n cell w e"
proof -
  have "unat (e - r) = unat (w - r) + unat (e - w)"
    using unat_add_small [OF assms] by (simp add: algebra_simps)
  moreover have "r + of_nat k = w + of_nat (k - unat (w - r))" if "\<not> k < unat (w - r)" for k
    using that by (simp add: of_nat_diff algebra_simps)
  ultimately show ?thesis by (intro nth_equalityI) (auto simp: nth_append ring_def add.commute)
qed

end
