(* ===== verification/Pipe_Spec.thy ===== *)
theory Pipe_Spec
  imports Process Ring
begin

text \<open>
  Pipes as queues of bytes: the ring buffer in the page of the pipe, with its two counters, obeys
  the contract of a bounded queue, and \<open>pipewrite\<close> and \<open>piperead\<close> append to the queue and take from
  its front what they copy from and to user memory.
\<close>

section \<open>The ring buffer of a pipe\<close>

definition pipe_items :: "u32 \<Rightarrow> mem \<Rightarrow> u8 list" where
  "pipe_items p m = ring 512 (\<lambda>i. m (pipe_data p + of_nat i)) (load32 m (pipe_nread p)) (load32 m (pipe_nwrite p))"

definition pipe_ok :: "u32 \<Rightarrow> mem \<Rightarrow> bool" where
  "pipe_ok p m \<longleftrightarrow> unat (load32 m (pipe_nwrite p) - load32 m (pipe_nread p)) \<le> 512"

definition pipe_put :: "u32 \<Rightarrow> u8 \<Rightarrow> mem \<Rightarrow> mem" where
  "pipe_put p c m = (store32 (pipe_nwrite p) (load32 m (pipe_nwrite p) + 1) m)
     (pipe_data p + load32 m (pipe_nwrite p) mod PIPESIZE := c)"

definition pipe_next :: "u32 \<Rightarrow> mem \<Rightarrow> u8" where
  "pipe_next p m = m (pipe_data p + load32 m (pipe_nread p) mod PIPESIZE)"

definition pipe_skip :: "u32 \<Rightarrow> mem \<Rightarrow> mem" where
  "pipe_skip p m = store32 (pipe_nread p) (load32 m (pipe_nread p) + 1) m"

lemmas pipe_offsets = pipe_data_def pipe_nread_def pipe_nwrite_def pipe_readopen_def pipe_writeopen_def

lemma mod_PIPESIZE: "w mod PIPESIZE = of_nat (unat w mod 512)"
  by (simp add: word_unat_eq_iff PIPESIZE_def unat_mod unat_of_nat)

lemma ring_slot: "pipe_data p + w mod PIPESIZE = p + of_nat (52 + unat w mod 512)"
  by (simp add: pipe_data_def mod_PIPESIZE)

lemma load32_upd_off:
  assumes "i < j \<or> j + 4 \<le> i" and "i < 2 ^ 32" and "j + 4 \<le> 2 ^ 32"
  shows "load32 (m(p + of_nat i := c)) (p + of_nat j) = load32 m (p + of_nat j)"
proof (rule load32_cong)
  fix k :: nat assume "k < 4"
  then have "(of_nat (j + k) :: u32) \<noteq> of_nat i" using assms by (subst of_nat_u32_inj) auto
  then have "p + of_nat j + of_nat k \<noteq> p + of_nat i" by (simp add: add.assoc)
  then show "(m(p + of_nat i := c)) (p + of_nat j + of_nat k) = m (p + of_nat j + of_nat k)" by simp
qed

lemma store32_off:
  assumes "i + 4 \<le> j \<or> j < i" and "i + 4 \<le> 2 ^ 32" and "j < 2 ^ 32"
  shows "store32 (p + of_nat i) w m (p + of_nat j) = m (p + of_nat j)"
proof (rule store32_other)
  fix k :: nat assume "k < 4"
  then have "(of_nat j :: u32) \<noteq> of_nat (i + k)" using assms by (subst of_nat_u32_inj) auto
  then show "p + of_nat j \<noteq> p + of_nat i + of_nat k" by (simp add: add.assoc)
qed

lemma pipe_slot_upd:
  assumes "564 \<le> j" and "j + 4 \<le> 2 ^ 32"
  shows "load32 (m(pipe_data p + w mod PIPESIZE := c)) (p + of_nat j) = load32 m (p + of_nat j)"
proof -
  have "unat w mod 512 < 512" by simp
  with assms show ?thesis unfolding ring_slot by (intro load32_upd_off) linarith+
qed

lemma pipe_field_put:
  assumes "j = 564 \<or> j = 572 \<or> j = 576"
  shows "load32 (pipe_put p c m) (p + of_nat j) = load32 m (p + of_nat j)"
proof -
  have "564 \<le> j" "j + 4 \<le> 2 ^ 32" using assms by auto
  moreover have "load32 (store32 (p + of_nat 568) w m) (p + of_nat j) = load32 m (p + of_nat j)" for w
    using assms by (intro load32_store32_off) auto
  ultimately show ?thesis by (simp only: pipe_put_def pipe_slot_upd) (simp add: pipe_nwrite_def)
qed

lemma pipe_nwrite_put: "load32 (pipe_put p c m) (pipe_nwrite p) = load32 m (pipe_nwrite p) + 1"
  using pipe_slot_upd [of 568] by (simp add: pipe_put_def pipe_nwrite_def)

lemma pipe_cell_put:
  assumes "i < 512"
  shows "pipe_put p c m (pipe_data p + of_nat i)
    = (if i = unat (load32 m (pipe_nwrite p)) mod 512 then c else m (pipe_data p + of_nat i))"
proof -
  let ?j = "unat (load32 m (pipe_nwrite p)) mod 512"
  have d: "pipe_data p + of_nat i = p + of_nat (52 + i)" by (simp add: pipe_data_def)
  have "(p + of_nat (52 + i) = p + of_nat (52 + ?j)) \<longleftrightarrow> i = ?j"
    using assms mod_less_divisor [of 512 "unat (load32 m (pipe_nwrite p))"]
    by (simp only: add_left_cancel, subst of_nat_u32_inj) auto
  moreover have "store32 (p + of_nat 568) w m (p + of_nat (52 + i)) = m (p + of_nat (52 + i))" for w
    using assms by (intro store32_off) auto
  ultimately show ?thesis
    unfolding pipe_put_def ring_slot d by (simp add: pipe_nwrite_def)
qed

lemma pipe_items_put:
  assumes "pipe_ok p m" and "length (pipe_items p m) < 512"
  shows "pipe_items p (pipe_put p c m) = pipe_items p m @ [c]"
proof -
  let ?r = "load32 m (pipe_nread p)" and ?w = "load32 m (pipe_nwrite p)"
  let ?cell = "\<lambda>i. m (pipe_data p + of_nat i)"
  have r: "load32 (pipe_put p c m) (pipe_nread p) = ?r" using pipe_field_put [of 564 p c m] by (simp add: pipe_nread_def)
  have "pipe_items p (pipe_put p c m) = ring 512 (?cell(unat ?w mod 512 := c)) ?r (?w + 1)"
    unfolding pipe_items_def r pipe_nwrite_put by (rule ring_cong) (auto simp: pipe_cell_put)
  also have "\<dots> = ring 512 ?cell ?r ?w @ [c]"
    using assms(2) by (intro ring_push) (simp_all add: pipe_items_def)
  finally show ?thesis by (simp add: pipe_items_def)
qed

lemma pipe_ok_items: "pipe_ok p m \<longleftrightarrow> length (pipe_items p m) \<le> 512"
  by (simp add: pipe_ok_def pipe_items_def)

lemma pipe_items_skip:
  assumes "pipe_items p m \<noteq> []"
  shows "pipe_items p m = pipe_next p m # pipe_items p (pipe_skip p m)"
proof -
  let ?r = "load32 m (pipe_nread p)" and ?w = "load32 m (pipe_nwrite p)"
  let ?cell = "\<lambda>i. m (pipe_data p + of_nat i)"
  have w: "load32 (pipe_skip p m) (pipe_nwrite p) = ?w" "load32 (pipe_skip p m) (pipe_nread p) = ?r + 1"
    using load32_store32_off [of 564 568 p "?r + 1" m] by (simp_all add: pipe_skip_def pipe_nread_def pipe_nwrite_def)
  have c: "pipe_skip p m (pipe_data p + of_nat i) = ?cell i" if "i < 512" for i
    using store32_off [of 564 "52 + i" p "?r + 1" m] that by (simp add: pipe_skip_def pipe_nread_def pipe_data_def ac_simps)
  have "pipe_items p m = ?cell (unat ?r mod 512) # ring 512 ?cell (?r + 1) ?w"
    using assms unfolding pipe_items_def by (intro ring_pop) auto
  also have "ring 512 ?cell (?r + 1) ?w = pipe_items p (pipe_skip p m)"
    unfolding pipe_items_def w by (rule ring_cong) (simp_all add: c)
  finally show ?thesis by (simp add: pipe_next_def mod_PIPESIZE)
qed

interpretation pipe: bounded_fifo "pipe_items p" 512 "pipe_ok p" "pipe_put p" "pipe_next p" "pipe_skip p"
proof
  show "pipe_ok p (pipe_put p x s)" if "pipe_ok p s" "length (pipe_items p s) < 512" for x s
    using that by (simp add: pipe_ok_items pipe_items_put)
  show "pipe_ok p (pipe_skip p s)" if "pipe_ok p s" "pipe_items p s \<noteq> []" for s
    using that pipe_items_skip [OF that(2)] by (metis Suc_leD length_Cons pipe_ok_items)
qed (simp_all add: pipe_items_put pipe_items_skip [symmetric])

section \<open>User memory beside a pipe\<close>

text \<open>
  The \<open>n\<close> bytes at the virtual address \<open>a\<close> are found at the kernel addresses \<open>f 0, f 1, \<dots>\<close>, which
  are different and not in the pipe, and stay there whatever is written to the pipe or to the buffer: the
  page tables lie in neither.
\<close>

definition umap :: "'z kstate_scheme \<Rightarrow> u32 \<Rightarrow> (nat \<Rightarrow> u32) \<Rightarrow> nat \<Rightarrow> u32 \<Rightarrow> bool" where
  "umap s a f n p \<longleftrightarrow> inj_on f {..<n} \<and> (\<forall>k<n. 580 \<le> dist (f k) p) \<and>
     (\<forall>m. (\<forall>x. 580 \<le> dist x p \<and> x \<notin> f ` {..<n} \<longrightarrow> m x = k_mem s x) \<longrightarrow>
       (\<forall>k<n. vaddr (s\<lparr>k_mem := m\<rparr>) (a + of_nat k) = Some (f k)))"

lemma umap_cong:
  assumes "k_mem t = k_mem s" and "k_cr3 t = k_cr3 s"
  shows "umap t a f n p \<longleftrightarrow> umap s a f n p"
proof -
  have "vaddr (t\<lparr>k_mem := m\<rparr>) x = vaddr (s\<lparr>k_mem := m\<rparr>) x" for m x using assms(2) by (simp add: vaddr_def)
  then show ?thesis by (simp add: umap_def assms(1))
qed

lemma umap_vaddr:
  assumes "umap s a f n p" and "k < n"
  shows "vaddr s (a + of_nat k) = Some (f k)"
proof -
  have "vaddr (s\<lparr>k_mem := k_mem s\<rparr>) (a + of_nat k) = Some (f k)" using assms unfolding umap_def by blast
  then show ?thesis by simp
qed

lemma umap_next:
  assumes "umap s a f (Suc n) p" and "\<And>x. 580 \<le> dist x p \<Longrightarrow> x \<noteq> f 0 \<Longrightarrow> m x = k_mem s x"
  shows "umap (s\<lparr>k_mem := m\<rparr>) (a + 1) (\<lambda>k. f (Suc k)) n p"
  unfolding umap_def
proof (intro conjI allI impI)
  show "inj_on (\<lambda>k. f (Suc k)) {..<n}" using assms(1) by (auto simp: umap_def inj_on_def)
  show "580 \<le> dist (f (Suc k)) p" if "k < n" for k using assms(1) that by (simp add: umap_def)
  fix m' k
  assume m': "\<forall>x. 580 \<le> dist x p \<and> x \<notin> (\<lambda>k. f (Suc k)) ` {..<n} \<longrightarrow> m' x = k_mem (s\<lparr>k_mem := m\<rparr>) x" and "k < n"
  have "m' x = k_mem s x" if "580 \<le> dist x p" "x \<notin> f ` {..<Suc n}" for x
  proof -
    have "x \<noteq> f 0" "x \<notin> (\<lambda>k. f (Suc k)) ` {..<n}" using that(2) by auto
    with that(1) m' assms(2) show ?thesis by simp
  qed
  then have "vaddr (s\<lparr>k_mem := m'\<rparr>) (a + of_nat (Suc k)) = Some (f (Suc k))"
    using assms(1) \<open>k < n\<close> unfolding umap_def by blast
  then show "vaddr (s\<lparr>k_mem := m, k_mem := m'\<rparr>) (a + 1 + of_nat k) = Some (f (Suc k))" by (simp add: ac_simps)
qed

lemma umap_next_field:
  assumes "umap s a f (Suc n) p"
  shows "580 \<le> dist (f 0) p" "k < n \<Longrightarrow> f (Suc k) \<noteq> f 0"
  using assms by (auto simp: umap_def inj_on_def)

text \<open>What is away from the pipe is not written with it.\<close>

lemma pipe_put_away: "580 \<le> dist x p \<Longrightarrow> pipe_put p c m x = m x"
proof -
  assume x: "580 \<le> dist x p"
  have "x \<noteq> p + of_nat (52 + unat w mod 512)" for w :: u32
  proof
    assume "x = p + of_nat (52 + unat w mod 512)"
    then have "dist x p = (52 + unat w mod 512) mod 2 ^ 32" by (simp only: dist_add)
    with x show False using mod_less_divisor [of 512 "unat w"] by simp
  qed
  then show ?thesis
    unfolding pipe_put_def ring_slot using x store32_outside [of 568 580 x p] by (simp add: pipe_nwrite_def)
qed

lemma pipe_skip_away: "580 \<le> dist x p \<Longrightarrow> pipe_skip p m x = m x"
  using store32_outside [of 564 580 x p] by (simp add: pipe_skip_def pipe_nread_def)

lemma load32_upd_away:
  assumes "580 \<le> dist x p" and "j + 4 \<le> 580"
  shows "load32 (m(x := c)) (p + of_nat j) = load32 m (p + of_nat j)"
proof (rule load32_cong)
  fix k :: nat assume "k < 4"
  then have "dist (p + of_nat (j + k)) p = j + k" using assms(2) by (simp only: dist_add) simp
  with assms \<open>k < 4\<close> have "p + of_nat (j + k) \<noteq> x" by auto
  then show "(m(x := c)) (p + of_nat j + of_nat k) = m (p + of_nat j + of_nat k)" by (simp add: ac_simps)
qed

lemma pipe_items_upd_away:
  assumes "580 \<le> dist x p"
  shows "pipe_items p (m(x := c)) = pipe_items p m"
proof -
  have "(m(x := c)) (pipe_data p + of_nat i) = m (pipe_data p + of_nat i)" if "i < 512" for i
  proof -
    have "dist (p + of_nat (52 + i)) p = 52 + i" using that by (simp only: dist_add) simp
    with assms that have "p + of_nat (52 + i) \<noteq> x" by auto
    then show ?thesis by (simp add: pipe_data_def ac_simps)
  qed
  moreover have "load32 (m(x := c)) (pipe_nread p) = load32 m (pipe_nread p)"
    "load32 (m(x := c)) (pipe_nwrite p) = load32 m (pipe_nwrite p)"
    using load32_upd_away [OF assms, of 564 m c] load32_upd_away [OF assms, of 568 m c]
    by (simp_all add: pipe_nread_def pipe_nwrite_def)
  ultimately show ?thesis unfolding pipe_items_def by (simp only:) (rule ring_cong, simp_all)
qed

section \<open>Writing\<close>

lemma pipe_full_iff:
  assumes "pipe_ok p m"
  shows "load32 m (pipe_nwrite p) = load32 m (pipe_nread p) + PIPESIZE \<longleftrightarrow> length (pipe_items p m) = 512"
proof -
  let ?r = "load32 m (pipe_nread p)" and ?w = "load32 m (pipe_nwrite p)"
  have "?w = ?r + PIPESIZE \<longleftrightarrow> ?w - ?r = 512" by (auto simp: PIPESIZE_def algebra_simps)
  also have "\<dots> \<longleftrightarrow> unat (?w - ?r) = 512" by (simp add: word_unat_eq_iff)
  finally show ?thesis by (simp add: pipe_items_def)
qed

lemma pipewrite_loop_step:
  assumes "umap s a f (Suc k) p" and "pipe_ok p (k_mem s)" and "length (pipe_items p (k_mem s)) < 512"
  shows "pipewrite_loop p a (Suc k) n s
    = pipewrite_loop p (a + 1) k n (s\<lparr>k_mem := pipe_put p (k_mem s (f 0)) (k_mem s)\<rparr>)"
proof -
  have "vload8 a s = Ok (k_mem s (f 0)) s" using umap_vaddr [OF assms(1), of 0] by (simp add: vload8_def)
  with assms(3) pipe_full_iff [OF assms(2)] show ?thesis
    by (simp add: bindM_run thenM_run peek_def poke_def pipe_put_def)
qed

lemma pipewrite_loop_run:
  assumes "umap s a f k p" and "pipe_ok p (k_mem s)" and "j \<le> k" and "length (pipe_items p (k_mem s)) + j \<le> 512"
  shows "pipewrite_loop p a k n s = pipewrite_loop p (a + of_nat j) (k - j) n
      (s\<lparr>k_mem := fold (pipe_put p) (map (\<lambda>i. k_mem s (f i)) [0..<j]) (k_mem s)\<rparr>)"
  using assms
proof (induction j arbitrary: s a f k)
  case 0
  then show ?case by simp
next
  case (Suc j)
  then obtain k' where k: "k = Suc k'" using Suc_le_D by blast
  let ?m = "pipe_put p (k_mem s (f 0)) (k_mem s)"
  let ?s = "s\<lparr>k_mem := ?m\<rparr>"
  have u: "umap s a f (Suc k') p" using Suc.prems(1) k by simp
  have away: "?m (f (Suc i)) = k_mem s (f (Suc i))" if "i < k'" for i
    using u that by (intro pipe_put_away) (simp add: umap_def)
  have "umap ?s (a + 1) (\<lambda>i. f (Suc i)) k' p" by (rule umap_next [OF u]) (simp add: pipe_put_away)
  moreover have "pipe_ok p ?m" "length (pipe_items p ?m) + j \<le> 512"
    using Suc.prems(2,4) by (simp_all add: pipe.ok_put pipe_items_put)
  ultimately have "pipewrite_loop p (a + 1) k' n ?s = pipewrite_loop p (a + 1 + of_nat j) (k' - j) n
      (?s\<lparr>k_mem := fold (pipe_put p) (map (\<lambda>i. ?m (f (Suc i))) [0..<j]) ?m\<rparr>)"
    using Suc.IH [of ?s "a + 1" "\<lambda>i. f (Suc i)" k'] Suc.prems(3) k by simp
  moreover have "map (\<lambda>i. ?m (f (Suc i))) [0..<j] = map (\<lambda>i. k_mem s (f (Suc i))) [0..<j]"
    using away Suc.prems(3) k by (intro map_cong) auto
  moreover have "map (\<lambda>i. k_mem s (f i)) [0..<Suc j] = k_mem s (f 0) # map (\<lambda>i. k_mem s (f (Suc i))) [0..<j]"
    by (simp add: upt_conv_Cons map_Suc_upt [symmetric] comp_def del: upt_Suc)
  ultimately show ?case
    using pipewrite_loop_step [OF u Suc.prems(2)] Suc.prems(4) k by (simp add: ac_simps del: upt_Suc pipewrite_loop.simps)
qed

lemma pipe_put_all_field:
  "j = 564 \<or> j = 572 \<or> j = 576 \<Longrightarrow> load32 (fold (pipe_put p) bs m) (p + of_nat j) = load32 m (p + of_nat j)"
  by (induction bs arbitrary: m) (simp_all add: pipe_field_put)

text \<open>
  C23: \<open>pipewrite\<close> appends to the queue of the pipe. When all bytes of the user's buffer fit they
  are appended, the readers are woken and \<open>n\<close> is returned. Otherwise as many as fit are appended; then the
  call fails if no reader is left or the caller has been killed, and else wakes the readers and sleeps, to go on with
  the rest. Nothing in the queue is overwritten in any case.
\<close>
theorem pipewrite_appends:
  assumes "k_held s = {}" and "cpuproc s = Some i" and "i < length (procs s)"
    and "umap s addr f (nat (sint n)) p" and "pipe_ok p (k_mem s)"
  defines "q \<equiv> pipe_items p (k_mem s)" and "bs \<equiv> map (\<lambda>k. k_mem s (f k)) [0..<nat (sint n)]"
  defines "woken \<equiv> map (wakeup1_proc (Some (Ch_pipe_nread p))) (procs s)"
  shows "if length q + length bs \<le> 512
    then \<exists>m. pipewrite p addr n s = Ok n (s\<lparr>k_mem := m, procs := woken\<rparr>) \<and> pipe_ok p m \<and> pipe_items p m = q @ bs
    else \<exists>m. pipe_ok p m \<and> pipe_items p m = q @ take (512 - length q) bs
      \<and> pipewrite p addr n s =
         (if load32 (k_mem s) (pipe_readopen p) = 0 \<or> p_killed (procs s ! i) then Ok (-1) (s\<lparr>k_mem := m\<rparr>)
          else Sleeps (Ch_pipe_nwrite p) (s\<lparr>k_mem := m, k_held := {L_ptable},
            procs := woken[i := (woken ! i)\<lparr>p_chan := Some (Ch_pipe_nwrite p), p_state := SLEEPING\<rparr>]\<rparr>))"
proof -
  let ?k = "nat (sint n)" and ?s = "s\<lparr>k_held := {L_pipe p}\<rparr>"
  have ok: "pipe_ok p (k_mem ?s)" "length q \<le> 512" using assms(5) by (simp_all add: q_def pipe_ok_items)
  have u: "umap ?s addr f ?k p" using assms(4) by (simp add: umap_cong [of ?s s])
  have start: "pipewrite p addr n s = pipewrite_loop p addr ?k n ?s"
    using assms(1) by (simp add: pipewrite_def thenM_run acquire_def)
  define j where "j = min ?k (512 - length q)"
  define m where "m = fold (pipe_put p) (take j bs) (k_mem s)"
  have lj: "length q + j \<le> 512" "j \<le> ?k" using ok(2) by (auto simp: j_def)
  have m: "pipe_ok p m" "pipe_items p m = q @ take j bs"
    using pipe.put_all [OF assms(5), of "take j bs"] lj by (simp_all add: m_def q_def bs_def)
  have run: "pipewrite p addr n s = pipewrite_loop p (addr + of_nat j) (?k - j) n (?s\<lparr>k_mem := m\<rparr>)"
    using pipewrite_loop_run [OF u ok(1), of j n] lj
    by (simp add: start m_def bs_def q_def take_map take_upt min_def)
  show ?thesis
  proof (cases "length q + length bs \<le> 512")
    case True
    then have "j = ?k" by (simp add: j_def bs_def)
    then have "pipewrite p addr n s = Ok n (s\<lparr>k_mem := m, procs := woken\<rparr>)"
      using run assms(1) by (simp add: thenM_run wakeup_run release_def woken_def)
    with True m \<open>j = ?k\<close> show ?thesis by (auto simp: bs_def)
  next
    case False
    then have big: "512 < length q + ?k" by (simp add: bs_def)
    then have j: "j = 512 - length q" "?k - j = Suc (?k - j - 1)" using ok(2) unfolding j_def min_def by (auto split: if_splits)
    have full: "load32 m (pipe_nwrite p) = load32 m (pipe_nread p) + PIPESIZE"
      using m ok(2) j(1) False by (simp add: pipe_full_iff bs_def j_def)
    have ro: "load32 m (pipe_readopen p) = load32 (k_mem s) (pipe_readopen p)"
      using pipe_put_all_field [of 572 p "take j bs" "k_mem s"] by (simp add: m_def pipe_readopen_def)
    define v where "v = s\<lparr>k_mem := m, k_held := {L_pipe p}, procs := woken\<rparr>"
    have "(sleep (Ch_pipe_nwrite p) (L_pipe p) v :: (u32, _) res) = Sleeps (Ch_pipe_nwrite p) (v\<lparr>k_held := {L_ptable},
        procs := (procs v)[i := (procs v ! i)\<lparr>p_chan := Some (Ch_pipe_nwrite p), p_state := SLEEPING\<rparr>]\<rparr>)"
      using assms(2,3) by (intro sleep_run) (simp_all add: v_def woken_def)
    moreover have "wakeup (Ch_pipe_nread p) (?s\<lparr>k_mem := m\<rparr>) = Ok () v"
      by (simp add: wakeup_run v_def woken_def)
    ultimately have "pipewrite p addr n s =
         (if load32 (k_mem s) (pipe_readopen p) = 0 \<or> p_killed (procs s ! i) then Ok (-1) (s\<lparr>k_mem := m\<rparr>)
          else Sleeps (Ch_pipe_nwrite p) (v\<lparr>k_held := {L_ptable},
            procs := (procs v)[i := (procs v ! i)\<lparr>p_chan := Some (Ch_pipe_nwrite p), p_state := SLEEPING\<rparr>]\<rparr>))"
      unfolding run using assms(1,2) full ro
      by (subst j(2)) (simp add: bindM_run thenM_run peek_def curproc_def release_def)
    with False m j(1) show ?thesis by (auto simp: v_def)
  qed
qed

section \<open>Reading\<close>

lemma piperead_copy_step:
  assumes "umap s a f (Suc k) p" and "pipe_items p (k_mem s) \<noteq> []"
  shows "piperead_copy p a (Suc k) i s
    = piperead_copy p (a + 1) k (i + 1) (s\<lparr>k_mem := (pipe_skip p (k_mem s))(f 0 := pipe_next p (k_mem s))\<rparr>)"
proof -
  have "vaddr (s\<lparr>k_mem := pipe_skip p (k_mem s)\<rparr>) (a + of_nat 0) = Some (f 0)"
    using assms(1) pipe_skip_away unfolding umap_def by blast
  then have "vstore8 a c (s\<lparr>k_mem := pipe_skip p (k_mem s)\<rparr>) = Ok () (s\<lparr>k_mem := (pipe_skip p (k_mem s))(f 0 := c)\<rparr>)" for c
    by (simp add: vstore8_def)
  moreover have "load32 (k_mem s) (pipe_nread p) \<noteq> load32 (k_mem s) (pipe_nwrite p)"
    using assms(2) by (auto simp: pipe_items_def)
  ultimately show ?thesis
    by (simp add: bindM_run thenM_run peek_def poke_def pipe_skip_def pipe_next_def)
qed

lemma piperead_copy_empty: "pipe_items p (k_mem s) = [] \<Longrightarrow> piperead_copy p a k i s = Ok i s"
  by (cases k) (simp_all add: pipe_items_def bindM_run peek_def)

lemma piperead_copy_run:
  assumes "umap s a f k p" and "pipe_ok p (k_mem s)"
  defines "c \<equiv> min k (length (pipe_items p (k_mem s)))"
  shows "\<exists>m. piperead_copy p a k i s = Ok (i + of_nat c) (s\<lparr>k_mem := m\<rparr>)
    \<and> pipe_ok p m \<and> pipe_items p m = drop c (pipe_items p (k_mem s))
    \<and> (\<forall>j<c. m (f j) = pipe_items p (k_mem s) ! j)
    \<and> (\<forall>x. 580 \<le> dist x p \<longrightarrow> x \<notin> f ` {..<c} \<longrightarrow> m x = k_mem s x)"
  using assms(1,2) unfolding c_def
proof (induction k arbitrary: s a f i)
  case 0
  then show ?case by (intro exI [of _ "k_mem s"]) simp
next
  case (Suc k)
  show ?case
  proof (cases "pipe_items p (k_mem s)")
    case Nil
    then show ?thesis using Suc.prems(2) piperead_copy_empty [OF Nil] by (intro exI [of _ "k_mem s"]) (simp del: piperead_copy.simps)
  next
    case (Cons b q)
    define m1 where "m1 = (pipe_skip p (k_mem s))(f 0 := pipe_next p (k_mem s))"
    let ?s = "s\<lparr>k_mem := m1\<rparr>"
    note f0 = umap_next_field [OF Suc.prems(1)]
    have skip: "pipe_ok p (pipe_skip p (k_mem s))" "pipe_next p (k_mem s) = b" "pipe_items p (pipe_skip p (k_mem s)) = q"
      using pipe.ok_skip [OF Suc.prems(2)] pipe_items_skip [of p "k_mem s"] Cons by simp_all
    have items: "pipe_items p m1 = q" using f0(1) skip(3) by (simp add: m1_def pipe_items_upd_away)
    then have ok: "pipe_ok p m1" using skip(1,3) by (simp add: pipe_ok_items)
    have u: "umap ?s (a + 1) (\<lambda>j. f (Suc j)) k p" by (rule umap_next [OF Suc.prems(1)]) (simp add: m1_def pipe_skip_away)
    let ?c = "min k (length q)"
    obtain m where m: "piperead_copy p (a + 1) k (i + 1) ?s = Ok (i + 1 + of_nat ?c) (s\<lparr>k_mem := m\<rparr>)"
      "pipe_ok p m" "pipe_items p m = drop ?c q" "\<forall>j<?c. m (f (Suc j)) = q ! j"
      "\<forall>x. 580 \<le> dist x p \<longrightarrow> x \<notin> (\<lambda>j. f (Suc j)) ` {..<?c} \<longrightarrow> m x = m1 x"
      using Suc.IH [OF u, of "i + 1"] ok items by auto
    have "m (f 0) = b"
    proof -
      have "f 0 \<notin> (\<lambda>j. f (Suc j)) ` {..<?c}" using f0(2) by force
      then show ?thesis using m(5) f0(1) skip(2) by (simp add: m1_def)
    qed
    then have "\<forall>j<Suc ?c. m (f j) = (b # q) ! j" using m(4) by (auto simp: less_Suc_eq_0_disj)
    moreover have "m x = k_mem s x" if "580 \<le> dist x p" "x \<notin> f ` {..<Suc ?c}" for x
    proof -
      have "x \<noteq> f 0" "x \<notin> (\<lambda>j. f (Suc j)) ` {..<?c}" using that(2) by auto
      then show ?thesis using m(5) that(1) by (simp add: m1_def pipe_skip_away)
    qed
    ultimately show ?thesis
      using m piperead_copy_step [OF Suc.prems(1), of i] Cons
      by (intro exI [of _ m]) (simp add: m1_def ac_simps del: piperead_copy.simps)
  qed
qed

text \<open>
  C24: \<open>piperead\<close> takes from the front of the queue. With bytes in the pipe, or no writer left, it
  moves as many as there are, at most \<open>n\<close>, to the user's buffer in the order they were written, wakes the writers and
  returns their number, 0 at the end of the stream; what is left stays in order, and no other memory changes. On an
  empty pipe with a writer it sleeps, or returns -1 when the caller has been killed.
\<close>
theorem piperead_takes:
  assumes "k_held s = {}" and "cpuproc s = Some i" and "i < length (procs s)"
    and "umap s addr f (nat (sint n)) p" and "pipe_ok p (k_mem s)"
  defines "q \<equiv> pipe_items p (k_mem s)"
  defines "c \<equiv> min (nat (sint n)) (length q)"
  shows "if q \<noteq> [] \<or> load32 (k_mem s) (pipe_writeopen p) = 0
    then \<exists>m. piperead p addr n s = Ok (of_nat c)
        (s\<lparr>k_mem := m, procs := map (wakeup1_proc (Some (Ch_pipe_nwrite p))) (procs s)\<rparr>)
      \<and> pipe_ok p m \<and> pipe_items p m = drop c q \<and> map (\<lambda>j. m (f j)) [0..<c] = take c q
      \<and> (\<forall>x. 580 \<le> dist x p \<longrightarrow> x \<notin> f ` {..<c} \<longrightarrow> m x = k_mem s x)
    else piperead p addr n s =
      (if p_killed (procs s ! i) then Ok (-1) s
       else Sleeps (Ch_pipe_nread p) (s\<lparr>k_held := {L_ptable},
          procs := (procs s)[i := (procs s ! i)\<lparr>p_chan := Some (Ch_pipe_nread p), p_state := SLEEPING\<rparr>]\<rparr>))"
proof -
  let ?s = "s\<lparr>k_held := {L_pipe p}\<rparr>"
  have start: "piperead p addr n s = piperead_pass p addr n ?s"
    using assms(1) by (simp add: piperead_def thenM_run acquire_def)
  have e: "load32 (k_mem s) (pipe_nread p) = load32 (k_mem s) (pipe_nwrite p) \<longleftrightarrow> q = []"
    by (auto simp: q_def pipe_items_def)
  show ?thesis
  proof (cases "q \<noteq> [] \<or> load32 (k_mem s) (pipe_writeopen p) = 0")
    case True
    have u: "umap ?s addr f (nat (sint n)) p" using assms(4) by (simp add: umap_cong [of ?s s])
    obtain m where m: "piperead_copy p addr (nat (sint n)) 0 ?s = Ok (of_nat c) (?s\<lparr>k_mem := m\<rparr>)"
      "pipe_ok p m" "pipe_items p m = drop c q" "\<forall>j<c. m (f j) = q ! j"
      "\<forall>x. 580 \<le> dist x p \<longrightarrow> x \<notin> f ` {..<c} \<longrightarrow> m x = k_mem s x"
      using piperead_copy_run [OF u, of 0] assms(5) by (auto simp: q_def c_def)
    have "map (\<lambda>j. m (f j)) [0..<c] = take c q" using m(4) by (intro nth_equalityI) (auto simp: c_def)
    moreover have "piperead p addr n s = Ok (of_nat c)
        (s\<lparr>k_mem := m, procs := map (wakeup1_proc (Some (Ch_pipe_nwrite p))) (procs s)\<rparr>)"
      using True m(1) e assms(1)
      by (auto simp: start piperead_pass_def bindM_run thenM_run peek_def wakeup_run release_def)
    ultimately show ?thesis using True m(2,3,5) by auto
  next
    case False
    have "sleep (Ch_pipe_nread p) (L_pipe p) ?s = Sleeps (Ch_pipe_nread p) (?s\<lparr>k_held := {L_ptable},
        procs := (procs ?s)[i := (procs ?s ! i)\<lparr>p_chan := Some (Ch_pipe_nread p), p_state := SLEEPING\<rparr>]\<rparr>)"
      using assms(2,3) by (intro sleep_run) simp_all
    then have "sleep (Ch_pipe_nread p) (L_pipe p) ?s = Sleeps (Ch_pipe_nread p) (s\<lparr>k_held := {L_ptable},
        procs := (procs s)[i := (procs s ! i)\<lparr>p_chan := Some (Ch_pipe_nread p), p_state := SLEEPING\<rparr>]\<rparr>)" by simp
    moreover have "?s\<lparr>k_held := {}\<rparr> = s" using assms(1) by simp
    ultimately have "piperead_pass p addr n ?s = (if p_killed (procs s ! i) then Ok (-1) s
       else Sleeps (Ch_pipe_nread p) (s\<lparr>k_held := {L_ptable},
          procs := (procs s)[i := (procs s ! i)\<lparr>p_chan := Some (Ch_pipe_nread p), p_state := SLEEPING\<rparr>]\<rparr>))"
      unfolding piperead_pass_def using False e assms(2)
      by (auto simp: bindM_run thenM_run peek_def curproc_def release_def)
    with False show ?thesis by (simp add: start)
  qed
qed

section \<open>A concrete pipe\<close>

text \<open>
  A pipe at \<open>0x80400000\<close> with both ends open and three bytes in it, its writer's counter about to wrap;
  a buffer of four bytes in the page behind.
\<close>

definition demo_pipe_mem :: mem where
  "demo_pipe_mem = (store32 (0x80400000 + 576) 1 (store32 (0x80400000 + 572) 1
     (store32 (0x80400000 + 568) 0xFFFFFFFF (store32 (0x80400000 + 564) 0xFFFFFFFC (\<lambda>_. 0)))))
     (0x80400230 := 7, 0x80400231 := 8, 0x80400232 := 9, 0x80401000 := 1, 0x80401001 := 2, 0x80401002 := 3, 0x80401003 := 4)"

definition demo_pipe :: "unit kproc_scheme" where
  "demo_pipe = (demo [proc_at RUNNING 0 0])\<lparr>cpuproc := Some 0, k_mem := demo_pipe_mem\<rparr>"

lemma demo_pipe_fields [simp]:
  "k_held demo_pipe = {}" "cpuproc demo_pipe = Some 0" "k_mem demo_pipe = demo_pipe_mem"
  "procs demo_pipe = [proc_at RUNNING 0 0]"
  by (simp_all add: demo_pipe_def)

lemma demo_pipe_counters:
  "load32 demo_pipe_mem 0x80400234 = 0xFFFFFFFC" "load32 demo_pipe_mem 0x80400238 = 0xFFFFFFFF"
  by code_simp+

lemma demo_pipe_items: "pipe_items 0x80400000 demo_pipe_mem = [7, 8, 9]"
  by (simp add: pipe_items_def ring_def pipe_nread_def pipe_nwrite_def demo_pipe_counters upt_rec pipe_data_def)
    (simp add: demo_pipe_mem_def)

lemma demo_pipe_ok: "pipe_ok 0x80400000 demo_pipe_mem"
  by (simp add: pipe_ok_items demo_pipe_items)

lemma demo_pipe_umap:
  assumes "n \<le> 4"
  shows "umap demo_pipe 0x80401000 (\<lambda>k. 0x80401000 + of_nat k) n 0x80400000"
proof -
  have u: "unat (0x80401000 + of_nat k :: u32) = 0x80401000 + k" if "k < n" for k
    using that assms by (simp add: unat_word_ariths unat_of_nat)
  have "KERNBASE \<le> 0x80401000 + of_nat k" if "k < n" for k
    using u [OF that] by (simp add: KERNBASE_def word_le_nat_alt)
  moreover have "580 \<le> dist (0x80401000 + of_nat k) 0x80400000" if "k < n" for k
  proof -
    have "0x80401000 + of_nat k - 0x80400000 = (of_nat (4096 + k) :: u32)" by simp
    then show ?thesis using that assms by (simp add: dist_def unat_of_nat del: of_nat_add)
  qed
  moreover have "inj_on (\<lambda>k. 0x80401000 + of_nat k :: u32) {..<n}"
    by (rule inj_onI) (metis lessThan_iff u add_left_cancel)
  ultimately show ?thesis by (simp add: umap_def vaddr_def)
qed

theorem pipewrite_appends_witness:
  "\<exists>m t. pipewrite 0x80400000 0x80401000 4 demo_pipe = Ok 4 t \<and> k_mem t = m
     \<and> pipe_items 0x80400000 m = [7, 8, 9, 1, 2, 3, 4]"
proof -
  have b: "map (\<lambda>k. demo_pipe_mem (0x80401000 + of_nat k)) [0..<4] = [1, 2, 3, 4]" by code_simp
  have "nat (sint (4 :: u32)) = 4" by simp
  then show ?thesis
    using pipewrite_appends [where s = demo_pipe and i = 0 and addr = "0x80401000" and f = "\<lambda>k. 0x80401000 + of_nat k" and n = 4 and p = "0x80400000"]
      demo_pipe_umap [of 4] demo_pipe_ok b by (auto simp: demo_pipe_items)
qed

theorem piperead_takes_witness:
  "\<exists>m t. piperead 0x80400000 0x80401000 2 demo_pipe = Ok 2 t \<and> k_mem t = m
     \<and> pipe_items 0x80400000 m = [9] \<and> m 0x80401000 = 7 \<and> m 0x80401001 = 8"
proof -
  have "nat (sint (2 :: u32)) = 2" by simp
  then show ?thesis
    using piperead_takes [where s = demo_pipe and i = 0 and addr = "0x80401000" and f = "\<lambda>k. 0x80401000 + of_nat k" and n = 2 and p = "0x80400000"]
      demo_pipe_umap [of 2] demo_pipe_ok by (auto simp: demo_pipe_items upt_rec)
qed

end
