(* ===== verification/Console_Spec.thy ===== *)
theory Console_Spec
  imports Trap Transaction Ring
begin

text \<open>
  The console as its users see it. Input is a pair of lines of bytes: what has been completed and can be read,
  and what is still being edited; the handler's ring buffer with its three counters implements it. On the
  screen the cursor stays inside the lines that the controller shows.
\<close>

section \<open>The screen\<close>

text \<open>The cell that is written and the position after it, before the screen is scrolled.\<close>

definition typed :: "u32 \<Rightarrow> nat \<Rightarrow> u16 list \<Rightarrow> u16 list" where
  "typed c pos crt = (if c = 10 \<or> c = BACKSPACE then crt else crt[pos := ucast (c AND 0xff) OR 0x0700])"

definition after :: "u32 \<Rightarrow> nat \<Rightarrow> nat" where
  "after c pos = (if c = 10 then 80 * (pos div 80 + 1) else if c = BACKSPACE then pos - 1 else pos + 1)"

lemma newline_pos: "pos + (80 - pos mod 80) = 80 * (pos div 80 + 1)" for pos :: nat
proof -
  define q r where "q = pos div 80" and "r = pos mod 80"
  have "r < 80" "pos = 80 * q + r" by (simp_all add: q_def r_def)
  then have "pos + (80 - r) = 80 * (q + 1)" by simp
  then show ?thesis by (simp only: q_def r_def)
qed

lemma after_bound: "pos < 24 * 80 \<Longrightarrow> after c pos \<le> 24 * 80"
proof -
  assume "pos < 24 * 80"
  then have "pos div 80 + 1 \<le> 24" by (simp add: less_mult_imp_div_less Suc_leI)
  then have "80 * (pos div 80 + 1) \<le> 80 * 24" by (rule mult_le_mono2)
  with \<open>pos < 24 * 80\<close> show ?thesis unfolding after_def by (simp only: split: if_split) arith
qed

lemma cgaputc_run:
  assumes "unat cursor < 24 * 80" and "length crt = 25 * 80"
  shows "cgaputc c (cursor, crt) =
    (let p = after c (unat cursor); scr = typed c (unat cursor) crt in
     if p < 24 * 80 then Some (of_nat p, scr[p := 0x0720])
     else Some (23 * 80, (drop 80 (take (24 * 80) scr) @ replicate 80 0 @ drop (24 * 80) scr)[23 * 80 := 0x0720]))"
proof -
  let ?p = "after c (unat cursor)" and ?scr = "typed c (unat cursor) crt"
  have b: "?p \<le> 24 * 80" using after_bound [OF assms(1)] .
  have l: "length ?scr = 25 * 80" using assms(2) by (simp add: typed_def)
  have start: "cgaputc c (cursor, crt) = (if ?p > 25 * 80 then None
     else let (pos2, crt2) =
       (if ?p div 80 \<ge> 24
        then let moved = take (23 * 80) (drop 80 ?scr) @ drop (23 * 80) ?scr; p = ?p - 80
             in (p, take p moved @ replicate (24 * 80 - p) 0 @ drop (24 * 80) moved)
        else (?p, ?scr))
     in Some (of_nat pos2, crt2[pos2 := 0x0720]))"
    unfolding cgaputc_def after_def typed_def newline_pos [symmetric] by (simp add: Let_def)
  show ?thesis
  proof (cases "?p < 24 * 80")
    case True
    then have "\<not> ?p div 80 \<ge> 24" by (simp add: less_mult_imp_div_less not_le)
    with start True show ?thesis by (simp add: Let_def)
  next
    case False
    with b have p: "?p = 24 * 80" by simp
    show ?thesis unfolding start using p l by (simp add: Let_def take_drop)
  qed
qed

text \<open>
  From a cursor in the first 24 lines \<open>cgaputc\<close> never panics whatever character comes, and leaves the
  cursor there. The character is in the cell where the cursor was and a blank at the new cursor; every other cell
  stays as it was or, when the last line was full, moves up by one line, the new line being empty. No cell
  past the 24 lines is written.
\<close>
theorem cursor_on_screen:
  assumes "unat cursor < 24 * 80" and "length crt = 25 * 80"
  shows "\<exists>cursor' crt'. cgaputc c (cursor, crt) = Some (cursor', crt')
    \<and> unat cursor' = (if after c (unat cursor) < 24 * 80 then after c (unat cursor) else 23 * 80)
    \<and> unat cursor' < 24 * 80 \<and> length crt' = 25 * 80 \<and> drop (24 * 80) crt' = drop (24 * 80) crt \<and> crt' ! unat cursor' = 0x0720
    \<and> (\<forall>i<24 * 80. i \<noteq> unat cursor' \<longrightarrow> crt' ! i =
        (if after c (unat cursor) < 24 * 80 then typed c (unat cursor) crt ! i
         else if i < 23 * 80 then typed c (unat cursor) crt ! (i + 80) else 0))"
proof -
  let ?p = "after c (unat cursor)" and ?scr = "typed c (unat cursor) crt"
  have l: "length ?scr = 25 * 80" using assms(2) by (simp add: typed_def)
  have d: "drop (24 * 80) ?scr = drop (24 * 80) crt" using assms(1) by (simp add: typed_def)
  show ?thesis
  proof (cases "?p < 24 * 80")
    case True
    then have "unat (of_nat ?p :: u16) = ?p" by (simp add: unat_of_nat)
    with True l d cgaputc_run [OF assms, of c] show ?thesis by (simp add: Let_def)
  next
    case False
    let ?up = "drop 80 (take (24 * 80) ?scr) @ replicate 80 0 @ drop (24 * 80) ?scr"
    have up: "?up ! i = (if i < 23 * 80 then ?scr ! (i + 80) else 0)" if "i < 24 * 80" for i
      using that l by (cases "i < 23 * 80") (auto simp: nth_append add.commute)
    have "length ?up = 25 * 80" "drop (24 * 80) ?up = drop (24 * 80) crt" using l d assms(2) by simp_all
    with False up l assms(2) cgaputc_run [OF assms, of c] show ?thesis by (simp add: Let_def)
  qed
qed

theorem cursor_on_screen_witness:
  "\<exists>cursor' crt'. cgaputc 10 (1900, replicate 2000 0x0741) = Some (cursor', crt')
     \<and> unat cursor' < 1920 \<and> crt' ! 1839 = 0x0741 \<and> crt' ! 1841 = 0"
proof -
  have "after 10 1900 = 1920" by (simp add: after_def)
  then show ?thesis
    using cursor_on_screen [of 1900 "replicate 2000 0x0741" 10] by (auto simp: typed_def)
qed

section \<open>Input\<close>

text \<open>The completed bytes, those being edited, and all of them.\<close>

definition cell :: "'z kfs_scheme \<Rightarrow> nat \<Rightarrow> u8" where
  "cell s i = in_buf s ! i"

definition input_done :: "'z kfs_scheme \<Rightarrow> u8 list" where
  "input_done s = ring 128 (cell s) (in_r s) (in_w s)"

definition input_line :: "'z kfs_scheme \<Rightarrow> u8 list" where
  "input_line s = ring 128 (cell s) (in_w s) (in_e s)"

definition input_items :: "'z kfs_scheme \<Rightarrow> u8 list" where
  "input_items s = ring 128 (cell s) (in_r s) (in_e s)"

definition input_fits :: "'z kfs_scheme \<Rightarrow> bool" where
  "input_fits s \<longleftrightarrow> length (in_buf s) = 128 \<and> unat (in_e s - in_r s) \<le> 128"

definition input_put :: "u8 \<Rightarrow> 'z kfs_scheme \<Rightarrow> 'z kfs_scheme" where
  "input_put c s = s\<lparr>in_buf := (in_buf s)[unat (in_e s mod INPUT_BUF) := c], in_e := in_e s + 1\<rparr>"

lemma mod_INPUT_BUF: "unat (w mod INPUT_BUF) = unat w mod 128"
  by (simp add: INPUT_BUF_def unat_mod)

lemma input_items_put:
  assumes "input_fits s" and "length (input_items s) < 128"
  shows "input_items (input_put c s) = input_items s @ [c]"
proof -
  have "input_items (input_put c s) = ring 128 ((cell s)(unat (in_e s) mod 128 := c)) (in_r s) (in_e s + 1)"
    unfolding input_items_def using assms(1)
    by (simp add: input_put_def) (rule ring_cong, auto simp: cell_def input_fits_def mod_INPUT_BUF nth_list_update)
  also have "\<dots> = ring 128 (cell s) (in_r s) (in_e s) @ [c]"
    using assms(2) by (intro ring_push) (simp_all add: input_items_def)
  finally show ?thesis by (simp add: input_items_def)
qed

interpretation input: bounded_fifo input_items 128 input_fits input_put
  "\<lambda>s. in_buf s ! unat (in_r s mod INPUT_BUF)" "\<lambda>s. s\<lparr>in_r := in_r s + 1\<rparr>"
proof
  show put: "input_items (input_put x s) = input_items s @ [x]"
    if "input_fits s" "length (input_items s) < 128" for x and s :: "'a kfs_scheme"
    using that by (rule input_items_put)
  show "input_fits (input_put x s)" if "input_fits s" "length (input_items s) < 128" for x and s :: "'a kfs_scheme"
    using that arg_cong [OF put [OF that, of x], of length]
    by (simp add: input_fits_def input_items_def input_put_def)
  show nxt: "input_items s = in_buf s ! unat (in_r s mod INPUT_BUF) # input_items (s\<lparr>in_r := in_r s + 1\<rparr>)"
    if "input_fits s" "input_items s \<noteq> []" for s :: "'a kfs_scheme"
    using that ring_pop [of "in_r s" "in_e s" 128 "cell s"] by (auto simp: input_items_def cell_def [abs_def] mod_INPUT_BUF)
  show "input_fits (s\<lparr>in_r := in_r s + 1\<rparr>)" if "input_fits s" "input_items s \<noteq> []" for s :: "'a kfs_scheme"
    using that arg_cong [OF nxt [OF that], of length] by (simp add: input_fits_def input_items_def)
qed

text \<open>The invariant of the input buffer: the bytes fit, and a line being edited has no line break in it.\<close>

definition input_ok :: "'z kfs_scheme \<Rightarrow> bool" where
  "input_ok s \<longleftrightarrow> length (in_buf s) = 128 \<and> unat (in_w s - in_r s) + unat (in_e s - in_w s) \<le> 128
     \<and> 10 \<notin> set (input_line s)"

lemma input_split:
  assumes "unat (in_w s - in_r s) + unat (in_e s - in_w s) \<le> 128"
  shows "input_items s = input_done s @ input_line s"
  unfolding input_items_def input_done_def input_line_def using assms by (intro ring_split) simp

lemma input_ok_fits:
  assumes "input_ok s"
  shows "input_fits s"
proof -
  have "length (input_items s) = length (input_done s) + length (input_line s)"
    using assms by (simp add: input_ok_def input_split)
  with assms show ?thesis by (simp add: input_ok_def input_fits_def input_items_def input_done_def input_line_def)
qed

text \<open>What a key does to the two: the line discipline.\<close>

definition edit_key :: "u32 \<Rightarrow> u8 list \<times> u8 list \<Rightarrow> u8 list \<times> u8 list" where
  "edit_key c = (\<lambda>(done, line).
     if c = Ctl (CHR ''P'') then (done, line)
     else if c = Ctl (CHR ''U'') then (done, [])
     else if c = Ctl (CHR ''H'') \<or> c = 0x7f then (done, butlast line)
     else if c = 0 \<or> length done + length line \<ge> 128 then (done, line)
     else let b = (if c = 13 then 10 else ucast c); line' = line @ [b] in
       if b = 10 \<or> b = 4 \<or> length done + length line' = 128 then (done @ line', []) else (done, line'))"

lemma kill_line_run:
  assumes "10 \<notin> set (input_line s)" and "unat (in_e s - in_w s) \<le> n"
  shows "\<exists>out. kill_line n s = Ok () (s\<lparr>in_e := in_w s, k_out := out\<rparr>)"
  using assms
proof (induction n arbitrary: s)
  case 0
  then have "in_e s = in_w s" by (simp add: unat_eq_0)
  then show ?case by (intro exI [of _ "k_out s"]) (subst kill_line.simps, simp add: bindM_run)
next
  case (Suc n)
  show ?case
  proof (cases "in_e s = in_w s")
    case True
    then show ?thesis by (intro exI [of _ "k_out s"]) (subst kill_line.simps, simp add: bindM_run)
  next
    case False
    then have ne: "in_w s \<noteq> in_e s" "input_line s \<noteq> []" by (auto simp: input_line_def)
    let ?s = "s\<lparr>in_e := in_e s - 1, k_out := k_out s @ uart_chars BACKSPACE\<rparr>"
    have "last (input_line s) = in_buf s ! (unat (in_e s - 1) mod 128)"
      unfolding input_line_def using ring_last [OF ne(1), of 128 "cell s"] by (simp add: cell_def)
    then have c: "in_buf s ! unat ((in_e s - 1) mod INPUT_BUF) \<noteq> 10"
      using Suc.prems(1) ne(2) by (metis last_in_set mod_INPUT_BUF)
    have l: "input_line ?s = butlast (input_line s)"
      using ring_unpush [OF ne(1), of 128 "cell s"] by (simp add: input_line_def cell_def [abs_def])
    then have "length (input_line ?s) = length (input_line s) - 1" by simp
    then have "unat (in_e ?s - in_w ?s) = unat (in_e s - in_w s) - 1" unfolding input_line_def length_ring .
    then have "unat (in_e ?s - in_w ?s) \<le> n" using Suc.prems(2) by simp
    moreover have "10 \<notin> set (input_line ?s)" using l Suc.prems(1) by (auto dest: in_set_butlastD)
    ultimately obtain out where "kill_line n ?s = Ok () (?s\<lparr>in_e := in_w ?s, k_out := out\<rparr>)" using Suc.IH by blast
    then show ?thesis using False c
      by (intro exI [of _ out]) (subst kill_line.simps, simp add: bindM_run thenM_run consputc_def)
  qed
qed

lemma ucast_key: "unat c < 256 \<Longrightarrow> k < 256 \<Longrightarrow> (ucast c :: u8) = of_nat k \<longleftrightarrow> c = of_nat k" for c :: u32
proof -
  assume "unat c < 256" "k < 256"
  then have "unat (ucast c :: u8) = unat c" "unat (of_nat k :: u8) = k" "unat (of_nat k :: u32) = k"
    by (simp_all add: unsigned_ucast_eq take_bit_nat_eq_self_iff unat_of_nat)
  then show ?thesis by (metis word_unat_eq_iff)
qed

text \<open>A byte is put at the end of the line; completed bytes stay.\<close>

lemma input_put_split:
  assumes "input_ok s" and "length (input_done s) + length (input_line s) < 128"
  shows "input_done (input_put b s) = input_done s" "input_line (input_put b s) = input_line s @ [b]"
    "unat (in_w s - in_r s) + unat (in_e s + 1 - in_w s) \<le> 128"
proof -
  let ?t = "input_put b s"
  have fits: "unat (in_w s - in_r s) + unat (in_e s - in_w s) < 128"
    using assms(2) by (simp add: input_done_def input_line_def)
  then have e: "unat (in_e s + 1 - in_w s) = Suc (unat (in_e s - in_w s))" by (intro unat_Suc_diff) simp
  then show "unat (in_w s - in_r s) + unat (in_e s + 1 - in_w s) \<le> 128" using fits by simp
  then have t: "input_items ?t = input_done ?t @ input_line ?t" by (intro input_split) (simp add: input_put_def)
  have s: "input_items s = input_done s @ input_line s" using fits by (intro input_split) simp
  with input_items_put [OF input_ok_fits [OF assms(1)], of b] assms(2)
  have "input_done ?t @ input_line ?t = input_done s @ input_line s @ [b]" by (simp add: t)
  moreover have "length (input_done ?t) = length (input_done s)" by (simp add: input_done_def input_put_def)
  ultimately show "input_done ?t = input_done s" "input_line ?t = input_line s @ [b]"
    using append_eq_append_conv by blast+
qed

lemma input_frame:
  "input_done (s\<lparr>k_out := out\<rparr>) = input_done s" "input_line (s\<lparr>k_out := out\<rparr>) = input_line s"
  "input_done (s\<lparr>procs := ps\<rparr>) = input_done s" "input_line (s\<lparr>procs := ps\<rparr>) = input_line s"
  by (simp_all add: input_done_def input_line_def cell_def [abs_def])

lemma input_commit:
  assumes "unat (in_w s - in_r s) + unat (in_e s - in_w s) \<le> 128"
  shows "input_done (s\<lparr>in_w := in_e s\<rparr>) = input_done s @ input_line s" "input_line (s\<lparr>in_w := in_e s\<rparr>) = []"
  using input_split [OF assms] by (simp_all add: input_done_def input_line_def input_items_def cell_def [abs_def])

definition readers_woken :: "proc list \<Rightarrow> proc list" where
  "readers_woken = map (wakeup1_proc (Some Ch_input))"

lemma consoleintr_type:
  assumes "input_ok s" and "unat c < 256" and "L_ptable \<notin> k_held s"
    and "c \<noteq> Ctl (CHR ''P'')" "c \<noteq> Ctl (CHR ''U'')" "c \<noteq> Ctl (CHR ''H'')" "c \<noteq> 0x7f"
  shows "\<exists>t. consoleintr_char c s = Ok False t \<and> input_ok t
    \<and> (input_done t, input_line t) = edit_key c (input_done s, input_line s) \<and> k_held t = k_held s
    \<and> procs t = (if input_done t = input_done s then procs s else readers_woken (procs s))"
proof -
  have items: "unat (in_e s - in_r s) = length (input_done s) + length (input_line s)"
    using assms(1) arg_cong [OF input_split [of s], of length] by (simp add: input_ok_def input_items_def)
  have room: "in_e s - in_r s < INPUT_BUF \<longleftrightarrow> length (input_done s) + length (input_line s) < 128"
    by (simp add: INPUT_BUF_def word_less_nat_alt items [symmetric])
  show ?thesis
  proof (cases "c \<noteq> 0 \<and> in_e s - in_r s < INPUT_BUF")
    case False
    then have "consoleintr_char c s = Ok False s" using assms(4-7)
      by (cases "c = 0") (simp_all add: consoleintr_char_def bindM_run thenM_run)
    moreover have "edit_key c (input_done s, input_line s) = (input_done s, input_line s)"
      using False assms(4-7) room by (auto simp: edit_key_def)
    ultimately show ?thesis using assms(1) by simp
  next
    case True
    define d where "d = (if c = 13 then 10 else c)"
    define b where "b = (ucast d :: u8)"
    have b: "b = (if c = 13 then 10 else ucast c)" by (simp add: b_def d_def)
    define u where "u = (input_put b s)\<lparr>k_out := k_out s @ uart_chars d\<rparr>"
    have len: "length (input_done s) + length (input_line s) < 128" using True room by simp
    note put = input_put_split(1,2) [OF assms(1) len, of b] input_put_split(3) [OF assms(1) len]
    have d10: "d = 10 \<longleftrightarrow> b = 10" "d = Ctl (CHR ''D'') \<longleftrightarrow> b = 4"
      using ucast_key [OF assms(2), of 10] ucast_key [OF assms(2), of 4] by (auto simp: b_def d_def Ctl_def)
    have u: "input_done u = input_done s" "input_line u = input_line s @ [b]" "in_w u = in_w s" "in_r u = in_r s"
      "in_e u = in_e s + 1" "k_held u = k_held s" "procs u = procs s" "length (in_buf u) = 128"
      using put(1,2) assms(1) by (simp_all add: u_def input_frame input_put_def input_ok_def)
    have len': "length (input_done u) + length (input_line u) = length (input_done s) + length (input_line s @ [b])"
      by (simp add: u)
    have fit: "unat (in_w u - in_r u) + unat (in_e u - in_w u) \<le> 128" using put(3) by (simp add: u)
    then have "input_items u = input_done u @ input_line u" by (rule input_split)
    then have eu: "unat (in_e u - in_r u) = length (input_done s) + length (input_line s @ [b])"
      using len' by (metis input_items_def length_append length_ring)
    have "in_e u = in_r u + INPUT_BUF \<longleftrightarrow> in_e u - in_r u = 128" by (auto simp: INPUT_BUF_def algebra_simps)
    then have "in_e u = in_r u + INPUT_BUF \<longleftrightarrow> unat (in_e u - in_r u) = 128" by (simp add: word_unat_eq_iff)
    with eu have full: "in_e u = in_r u + INPUT_BUF \<longleftrightarrow> length (input_done s) + length (input_line s @ [b]) = 128"
      by simp
    let ?line = "b = 10 \<or> b = 4 \<or> length (input_done s) + length (input_line s @ [b]) = 128"
    define t where "t = (if ?line then u\<lparr>in_w := in_e u, procs := readers_woken (procs u)\<rparr> else u)"
    have "consoleintr_char c s = thenM (bindM (getM (\<lambda>s. d = 10 \<or> d = Ctl (CHR ''D'') \<or> in_e s = in_r s + INPUT_BUF)) (\<lambda>line.
           whenM line (thenM (modM (\<lambda>s. s\<lparr>in_w := in_e s\<rparr>)) (wakeup Ch_input)))) (retM False) u"
      using True assms(4-7)
      by (simp add: consoleintr_char_def d_def [symmetric] bindM_run thenM_run consputc_def u_def input_put_def b_def)
    also have "\<dots> = Ok False t"
      using assms(3) u full d10 by (simp add: bindM_run thenM_run wakeup_run t_def readers_woken_def)
    finally have run: "consoleintr_char c s = Ok False t" .
    have "(input_done t, input_line t) = edit_key c (input_done s, input_line s)"
      using True room len assms(4-7) u input_commit [OF fit]
      by (simp add: edit_key_def t_def input_frame Let_def b [symmetric])
    moreover have "input_ok t"
      using u fit eu len input_commit [OF fit] assms(1) by (auto simp: input_ok_def t_def input_frame split: if_split)
    moreover have "input_done t = input_done s \<longleftrightarrow> \<not> ?line" using u input_commit [OF fit] by (simp add: t_def input_frame)
    ultimately show ?thesis using run u by (simp add: t_def)
  qed
qed

text \<open>A key, the editing keys included.\<close>

lemma consoleintr_char_run:
  assumes "input_ok s" and "unat c < 256" and "L_ptable \<notin> k_held s"
  shows "\<exists>t. consoleintr_char c s = Ok (c = Ctl (CHR ''P'')) t \<and> input_ok t
    \<and> (input_done t, input_line t) = edit_key c (input_done s, input_line s) \<and> k_held t = k_held s
    \<and> procs t = (if input_done t = input_done s then procs s else readers_woken (procs s))"
proof -
  have ctl: "Ctl (CHR ''P'') = 16" "Ctl (CHR ''U'') = 21" "Ctl (CHR ''H'') = 8" by (simp_all add: Ctl_def)
  consider "c = 16" | "c = 21" | "c = 8 \<or> c = 0x7f" | "c \<noteq> 16" "c \<noteq> 21" "c \<noteq> 8" "c \<noteq> 0x7f" by blast
  then show ?thesis
  proof cases
    case 1
    then show ?thesis using assms(1) by (simp add: consoleintr_char_def edit_key_def ctl)
  next
    case 2
    obtain out where k: "kill_line (unat (in_e s - in_w s)) s = Ok () (s\<lparr>in_e := in_w s, k_out := out\<rparr>)"
      using kill_line_run [of s] assms(1) by (auto simp: input_ok_def)
    let ?t = "s\<lparr>in_e := in_w s, k_out := out\<rparr>"
    have "input_done ?t = input_done s" "input_line ?t = []"
      by (simp_all add: input_done_def input_line_def cell_def [abs_def])
    moreover have "consoleintr_char c s = Ok False ?t"
      using 2 k by (simp add: consoleintr_char_def ctl bindM_run thenM_run)
    ultimately show ?thesis using 2 assms(1) by (simp add: edit_key_def ctl input_ok_def)
  next
    case 3
    show ?thesis
    proof (cases "in_e s = in_w s")
      case True
      then have "input_line s = []" by (simp add: input_line_def)
      moreover have "consoleintr_char c s = Ok False s" using 3 True
        by (auto simp: consoleintr_char_def ctl bindM_run thenM_run)
      ultimately show ?thesis using 3 assms(1) by (auto simp: edit_key_def ctl)
    next
      case False
      let ?t = "s\<lparr>in_e := in_e s - 1, k_out := k_out s @ uart_chars BACKSPACE\<rparr>"
      have d: "input_done ?t = input_done s" by (simp add: input_done_def cell_def [abs_def])
      have l: "input_line ?t = butlast (input_line s)"
        using ring_unpush [of "in_w s" "in_e s" 128 "cell s"] False by (simp add: input_line_def cell_def [abs_def])
      then have "length (input_line ?t) \<le> length (input_line s)" by simp
      then have "unat (in_e ?t - in_w ?t) \<le> unat (in_e s - in_w s)" unfolding input_line_def length_ring .
      then have "input_ok ?t" using assms(1) l by (auto simp: input_ok_def dest: in_set_butlastD)
      moreover have "consoleintr_char c s = Ok False ?t" using 3 False
        by (auto simp: consoleintr_char_def ctl bindM_run thenM_run consputc_def)
      ultimately show ?thesis using 3 d l by (auto simp: edit_key_def ctl)
    qed
  next
    case 4
    then show ?thesis using consoleintr_type [OF assms] by (simp add: ctl)
  qed
qed

lemma readers_woken_twice: "readers_woken (readers_woken ps) = readers_woken ps"
  by (simp add: readers_woken_def wakeup1_proc_def)

lemma edit_key_done: "\<exists>more. fst (edit_key c dl) = fst dl @ more"
  by (cases dl) (auto simp: edit_key_def Let_def)

lemma edit_keys_done: "\<exists>more. fst (fold edit_key cs dl) = fst dl @ more"
proof (induction cs arbitrary: dl)
  case Nil
  show ?case by simp
next
  case (Cons c cs)
  from Cons.IH [of "edit_key c dl"] edit_key_done [of c dl] show ?case by auto
qed

lemma consoleintr_loop_run:
  assumes "input_ok s" and "\<forall>c\<in>set cs. unat c < 256" and "L_ptable \<notin> k_held s"
  shows "\<exists>t. consoleintr_loop cs b s = Ok (b \<or> Ctl (CHR ''P'') \<in> set cs) t \<and> input_ok t
    \<and> (input_done t, input_line t) = fold edit_key cs (input_done s, input_line s) \<and> k_held t = k_held s
    \<and> procs t = (if input_done t = input_done s then procs s else readers_woken (procs s))"
  using assms
proof (induction cs arbitrary: s b)
  case Nil
  then show ?case by simp
next
  case (Cons c cs)
  obtain u where u: "consoleintr_char c s = Ok (c = Ctl (CHR ''P'')) u" "input_ok u"
    "(input_done u, input_line u) = edit_key c (input_done s, input_line s)" "k_held u = k_held s"
    "procs u = (if input_done u = input_done s then procs s else readers_woken (procs s))"
    using consoleintr_char_run [of s c] Cons.prems by auto
  obtain t where t: "consoleintr_loop cs (b \<or> c = Ctl (CHR ''P'')) u = Ok ((b \<or> c = Ctl (CHR ''P'')) \<or> Ctl (CHR ''P'') \<in> set cs) t"
    "input_ok t" "(input_done t, input_line t) = fold edit_key cs (input_done u, input_line u)" "k_held t = k_held u"
    "procs t = (if input_done t = input_done u then procs u else readers_woken (procs u))"
    using Cons.IH [of u "b \<or> c = Ctl (CHR ''P'')"] u(2,4) Cons.prems by auto
  obtain m1 where "input_done u = input_done s @ m1" using edit_key_done [of c "(input_done s, input_line s)"] u(3) by (metis fst_conv)
  moreover obtain m2 where "input_done t = input_done u @ m2"
    using edit_keys_done [of cs "(input_done u, input_line u)"] t(3) by (metis fst_conv)
  ultimately have "procs t = (if input_done t = input_done s then procs s else readers_woken (procs s))"
    using t(5) u(5) by (auto simp: readers_woken_twice)
  then show ?case using t u by (auto simp: bindM_run)
qed

text \<open>
  C25: The interrupt handler of the console implements line editing: whatever keys come, the completed
  bytes and the line being edited in the ring buffer become what the line discipline makes of them key by key. The
  loop that erases a line ends, no byte is overwritten before it is read, and a line break is never erased once
  the line is complete. Readers are woken exactly when bytes are completed.
\<close>
theorem consoleintr_edits:
  assumes "input_ok s" and "k_held s = {}" and "\<forall>c\<in>set cs. unat c < 256" and "Ctl (CHR ''P'') \<notin> set cs"
  shows "\<exists>t. consoleintr cs s = Ok () t \<and> input_ok t \<and> k_held t = {}
    \<and> (input_done t, input_line t) = fold edit_key cs (input_done s, input_line s)
    \<and> procs t = (if input_done t = input_done s then procs s else readers_woken (procs s))"
proof -
  let ?s = "s\<lparr>k_held := {L_cons}\<rparr>"
  have "input_done ?s = input_done s" "input_line ?s = input_line s" "input_ok ?s"
    using assms(1) by (simp_all add: input_ok_def input_done_def input_line_def cell_def [abs_def])
  then obtain t where t: "consoleintr_loop cs False ?s = Ok False t" "input_ok t" "k_held t = {L_cons}"
    "(input_done t, input_line t) = fold edit_key cs (input_done s, input_line s)"
    "procs t = (if input_done t = input_done s then procs s else readers_woken (procs s))"
    using consoleintr_loop_run [of ?s cs False] assms(3,4) by auto
  let ?t = "t\<lparr>k_held := {}\<rparr>"
  have "input_done ?t = input_done t" "input_line ?t = input_line t"
    by (simp_all add: input_done_def input_line_def cell_def [abs_def])
  moreover have "consoleintr cs s = Ok () ?t"
    using assms(2) t by (simp add: consoleintr_def bindM_run thenM_run acquire_def release_def)
  ultimately show ?thesis using t by (simp add: input_ok_def)
qed

text \<open>Typing \<open>ax\<close>, a backspace and return.\<close>

theorem consoleintr_edits_witness:
  "\<exists>t. consoleintr [97, 120, 8, 13] (demo_fs\<lparr>in_buf := replicate 128 0\<rparr>) = Ok () t
     \<and> input_done t = [97, 10] \<and> input_line t = []"
proof -
  let ?s = "demo_fs\<lparr>in_buf := replicate 128 0\<rparr>"
  have z: "in_r ?s = 0" "in_w ?s = 0" "in_e ?s = 0" "k_held ?s = {}"
    by (simp_all add: demo_fs_def demo_klog_def kfs.defs)
  then have "input_done ?s = []" "input_line ?s = []" by (simp_all add: input_done_def input_line_def)
  moreover have "fold edit_key [97, 120, 8, 13] ([], []) = ([97, 10], [])"
    by (simp add: edit_key_def Ctl_def)
  moreover have "input_ok ?s" using z by (simp add: input_ok_def input_line_def)
  ultimately show ?thesis using consoleintr_edits [of ?s "[97, 120, 8, 13]"] z(4) by (auto simp: Ctl_def)
qed

end
