(* ===== verification/Processors.thy ===== *)
theory Processors
  imports Proc_Ops
begin

text \<open>
  Several processors. The state of the kernel is shared; every processor has its own locks and its own current process, and sees the
  state with these. A function that takes a lock goes on only when no other processor has it. With this view the statements of \<open>sleep\<close>
  and \<open>wakeup\<close>, as \<open>sleep_parts\<close> and \<open>wakeup_parts\<close> give them, are interleaved in every possible way, and no wakeup is lost. The theory
  \<open>Lifecycle\<close> uses the same view for the process table.
\<close>

section \<open>A shared kernel\<close>

record 's smp =
  m_sh :: 's
  m_held :: "nat \<Rightarrow> lockid set"
  m_cur :: "nat \<Rightarrow> nat option"

definition view :: "nat \<Rightarrow> ('z kproc_scheme, 'm) smp_scheme \<Rightarrow> 'z kproc_scheme" where
  "view c S = (m_sh S)\<lparr>k_held := m_held S c, cpuproc := m_cur S c\<rparr>"

definition put_view :: "nat \<Rightarrow> 'z kproc_scheme \<Rightarrow> ('z kproc_scheme, 'm) smp_scheme \<Rightarrow> ('z kproc_scheme, 'm) smp_scheme" where
  "put_view c t S = S\<lparr>m_sh := t, m_held := (m_held S)(c := k_held t), m_cur := (m_cur S)(c := cpuproc t)\<rparr>"

lemma view_simps [simp]:
  "k_held (view c S) = m_held S c" "cpuproc (view c S) = m_cur S c" "procs (view c S) = procs (m_sh S)"
  "nextpid (view c S) = nextpid (m_sh S)" "initproc (view c S) = initproc (m_sh S)"
  by (simp_all add: view_def)

lemma put_view_simps [simp]:
  "m_sh (put_view c t S) = t" "m_held (put_view c t S) = (m_held S)(c := k_held t)" "m_cur (put_view c t S) = (m_cur S)(c := cpuproc t)"
  by (simp_all add: put_view_def)

section \<open>Programs on the processors\<close>

text \<open>\<open>m_todo S c\<close> are the statements that processor \<open>c\<close> has still to execute. One statement of one processor is a step.\<close>

record 's threads = "'s smp" +
  m_todo :: "nat \<Rightarrow> ('s \<Rightarrow> (unit, 's) res) list"

inductive cpu_step :: "'z kproc_scheme threads \<Rightarrow> 'z kproc_scheme threads \<Rightarrow> bool" where
  "m_todo S c = m # ms \<Longrightarrow> m (view c S) = Ok () t \<Longrightarrow> \<forall>d. d \<noteq> c \<longrightarrow> (k_held t - m_held S c) \<inter> m_held S d = {} \<Longrightarrow>
    cpu_step S ((put_view c t S)\<lparr>m_todo := (m_todo S)(c := ms)\<rparr>)"

text \<open>
  Who sleeps goes through \<open>sleep\<close> and then the scheduler, that of the kernel \<open>fcfs\<close>, takes the processor over and gives the lock of the table back. Who wakes up takes the lock, changes what is waited for, calls \<open>wakeup\<close>
  (\<open>wakeup1\<close>, when the lock is that of the table) and gives the lock back, as the pipe, the log, the console, the clock, the sleep locks, the disk and \<open>exit\<close> do.
\<close>

definition sleeper :: "chan \<Rightarrow> lockid \<Rightarrow> nat \<Rightarrow> ('z kproc_scheme \<Rightarrow> (unit, 'z kproc_scheme) res) list" where
  "sleeper ch lk i = sleep_parts ch lk i @ [scheduler_resume]"

definition waker :: "chan \<Rightarrow> lockid \<Rightarrow> (mem \<Rightarrow> mem) \<Rightarrow> ('z kproc_scheme \<Rightarrow> (unit, 'z kproc_scheme) res) list" where
  "waker ch lk f = [acquire lk, modM (\<lambda>s. s\<lparr>k_mem := f (k_mem s)\<rparr>)]
     @ (if lk = L_ptable then [wakeup1 (Some ch)] else wakeup_parts ch) @ [release lk]"

definition about_to_sleep :: "nat \<Rightarrow> nat set \<Rightarrow> chan \<Rightarrow> lockid \<Rightarrow> nat \<Rightarrow> (nat \<Rightarrow> mem \<Rightarrow> mem) \<Rightarrow> 'z kproc_scheme threads \<Rightarrow> bool" where
  "about_to_sleep c W ch lk i f S \<longleftrightarrow> finite W \<and> c \<notin> W \<and> m_cur S c = Some i \<and> i < length (procs (m_sh S))
     \<and> m_held S = (\<lambda>d. if d = c then {lk} else {})
     \<and> m_todo S = (\<lambda>d. if d = c then sleeper ch lk i else if d \<in> W then waker ch lk (f d) else [])"

section \<open>The statements one by one\<close>

text \<open>The locks of the two programs after so many statements, their lengths, and the place of \<open>wakeup1\<close>.\<close>

definition locks_s :: "lockid \<Rightarrow> nat \<Rightarrow> lockid set" where
  "locks_s lk k = (if lk = L_ptable then if k < 4 then {L_ptable} else {}
     else if k = 0 then {lk} else if k = 1 then {lk, L_ptable} else if k < 6 then {L_ptable} else {})"

definition locks_w :: "lockid \<Rightarrow> nat \<Rightarrow> lockid set" where
  "locks_w lk j = (if lk = L_ptable then if 1 \<le> j \<and> j < 4 then {L_ptable} else {}
     else if j = 3 \<or> j = 4 then {lk, L_ptable} else if 1 \<le> j \<and> j < 6 then {lk} else {})"

definition steps_of :: "lockid \<Rightarrow> nat" where
  "steps_of lk = (if lk = L_ptable then 4 else 6)"

definition wake_at :: "lockid \<Rightarrow> nat" where
  "wake_at lk = (if lk = L_ptable then 2 else 3)"

lemma length_programs [simp]: "length (sleeper ch lk i) = steps_of lk" "length (waker ch lk f) = steps_of lk"
  by (simp_all add: sleeper_def sleep_parts_def waker_def wakeup_parts_def steps_of_def)

text \<open>What is known of the slot when \<open>k\<close> statements of \<open>sleep\<close> are done.\<close>

definition going :: "chan \<Rightarrow> lockid \<Rightarrow> nat \<Rightarrow> proc \<Rightarrow> bool" where
  "going ch lk k p \<longleftrightarrow> (steps_of lk - 3 \<le> k \<longrightarrow> p_chan p = Some ch) \<and> (steps_of lk - 2 \<le> k \<longrightarrow> p_state p = SLEEPING)"

lemma sleeper_step:
  assumes "k < steps_of lk" and "k_held u = locks_s lk k" and "cpuproc u = Some i" and "i < length (procs u)" and "going ch lk k (procs u ! i)"
  shows "\<exists>t. (sleeper ch lk i ! k) u = Ok () t \<and> k_held t = locks_s lk (Suc k) \<and> length (procs t) = length (procs u)
    \<and> cpuproc t = (if Suc k < steps_of lk then Some i else None) \<and> going ch lk (Suc k) (procs t ! i)"
proof (cases "lk = L_ptable")
  case True
  then have "k = 0 \<or> k = 1 \<or> k = 2 \<or> k = 3" using assms(1) by (auto simp: steps_of_def)
  then show ?thesis using True assms(2-5)
    by (elim disjE) (simp_all add: sleeper_def sleep_parts_def steps_of_def locks_s_def going_def upd_proc_def sched_def curproc_def bindM_run
        scheduler_resume_run)
next
  case False
  then have "k = 0 \<or> k = 1 \<or> k = 2 \<or> k = 3 \<or> k = 4 \<or> k = 5" using assms(1) by (auto simp: steps_of_def)
  then show ?thesis using False assms(2-5)
    by (elim disjE) (auto simp: sleeper_def sleep_parts_def steps_of_def locks_s_def going_def upd_proc_def sched_def curproc_def bindM_run
        scheduler_resume_run acquire_def release_def)
qed

lemma waker_step:
  assumes "j < steps_of lk" and "k_held u = locks_w lk j"
  shows "\<exists>t. (waker ch lk f ! j) u = Ok () t \<and> k_held t = locks_w lk (Suc j)
    \<and> procs t = (if j = wake_at lk then map (wakeup1_proc (Some ch)) (procs u) else procs u)"
proof (cases "lk = L_ptable")
  case True
  then have "j = 0 \<or> j = 1 \<or> j = 2 \<or> j = 3" using assms(1) by (auto simp: steps_of_def)
  then show ?thesis using True assms(2)
    by (elim disjE) (simp_all add: waker_def steps_of_def locks_w_def wake_at_def acquire_def release_def wakeup1_def)
next
  case False
  then have "j = 0 \<or> j = 1 \<or> j = 2 \<or> j = 3 \<or> j = 4 \<or> j = 5" using assms(1) by (auto simp: steps_of_def)
  then show ?thesis using False assms(2)
    by (elim disjE) (auto simp: waker_def wakeup_parts_def steps_of_def locks_w_def wake_at_def acquire_def release_def wakeup1_def)
qed

section \<open>All interleavings\<close>

definition interleaved :: "nat \<Rightarrow> nat set \<Rightarrow> chan \<Rightarrow> lockid \<Rightarrow> nat \<Rightarrow> (nat \<Rightarrow> mem \<Rightarrow> mem) \<Rightarrow> nat \<Rightarrow> (nat \<Rightarrow> nat) \<Rightarrow> 'z kproc_scheme threads \<Rightarrow> bool" where
  "interleaved c W ch lk i f k J S \<longleftrightarrow> k \<le> steps_of lk \<and> (\<forall>d\<in>W. J d \<le> steps_of lk) \<and> i < length (procs (m_sh S))
     \<and> m_todo S = (\<lambda>d. if d = c then drop k (sleeper ch lk i) else if d \<in> W then drop (J d) (waker ch lk (f d)) else [])
     \<and> m_held S = (\<lambda>d. if d = c then locks_s lk k else if d \<in> W then locks_w lk (J d) else {})
     \<and> (\<forall>d e. d \<noteq> e \<longrightarrow> m_held S d \<inter> m_held S e = {}) \<and> m_cur S c = (if k < steps_of lk then Some i else None)
     \<and> (if \<exists>d\<in>W. wake_at lk < J d then k = steps_of lk \<and> p_state (procs (m_sh S) ! i) = RUNNABLE else going ch lk k (procs (m_sh S) ! i))"

lemma interleavedD:
  assumes "interleaved c W ch lk i f k J S"
  shows "k \<le> steps_of lk" "d \<in> W \<Longrightarrow> J d \<le> steps_of lk" "i < length (procs (m_sh S))"
    "m_todo S d = (if d = c then drop k (sleeper ch lk i) else if d \<in> W then drop (J d) (waker ch lk (f d)) else [])"
    "m_held S d = (if d = c then locks_s lk k else if d \<in> W then locks_w lk (J d) else {})"
    "d \<noteq> e \<Longrightarrow> m_held S d \<inter> m_held S e = {}" "m_cur S c = (if k < steps_of lk then Some i else None)"
    "if \<exists>d\<in>W. wake_at lk < J d then k = steps_of lk \<and> p_state (procs (m_sh S) ! i) = RUNNABLE else going ch lk k (procs (m_sh S) ! i)"
proof -
  note I = assms [unfolded interleaved_def]
  show "d \<in> W \<Longrightarrow> J d \<le> steps_of lk" using I [THEN conjunct2, THEN conjunct1] by simp
  show "m_todo S d = (if d = c then drop k (sleeper ch lk i) else if d \<in> W then drop (J d) (waker ch lk (f d)) else [])"
    using I [THEN conjunct2, THEN conjunct2, THEN conjunct2, THEN conjunct1] by (rule fun_cong)
  show "m_held S d = (if d = c then locks_s lk k else if d \<in> W then locks_w lk (J d) else {})"
    using I [THEN conjunct2, THEN conjunct2, THEN conjunct2, THEN conjunct2, THEN conjunct1] by (rule fun_cong)
  show "d \<noteq> e \<Longrightarrow> m_held S d \<inter> m_held S e = {}"
    using I [THEN conjunct2, THEN conjunct2, THEN conjunct2, THEN conjunct2, THEN conjunct2, THEN conjunct1] by simp
  show "if \<exists>d\<in>W. wake_at lk < J d then k = steps_of lk \<and> p_state (procs (m_sh S) ! i) = RUNNABLE else going ch lk k (procs (m_sh S) ! i)"
    using I by (elim conjE)
  show "m_cur S c = (if k < steps_of lk then Some i else None)" using I by (elim conjE)
  show "k \<le> steps_of lk" using I by (elim conjE)
  show "i < length (procs (m_sh S))" using I by (elim conjE)
qed

lemma interleaved_start: "about_to_sleep c W ch lk i f S \<Longrightarrow> interleaved c W ch lk i f 0 (\<lambda>_. 0) S"
  by (auto simp: about_to_sleep_def interleaved_def locks_s_def locks_w_def steps_of_def wake_at_def going_def fun_eq_iff)

text \<open>Who is about to call \<open>wakeup1\<close> has the lock of the table and, with it or in it, that of the condition: the sleeper is not in between.\<close>

lemma not_in_between: "k \<le> steps_of lk \<Longrightarrow> locks_s lk k \<inter> locks_w lk (wake_at lk) = {} \<Longrightarrow> k = steps_of lk"
  by (auto simp: steps_of_def locks_s_def locks_w_def wake_at_def split: if_splits)

lemma woken: "p_chan p = Some ch \<and> p_state p = SLEEPING \<or> p_state p = RUNNABLE \<Longrightarrow> p_state (wakeup1_proc (Some ch) p) = RUNNABLE"
  by (auto simp: wakeup1_proc_def)

lemma drop_Cons: "drop k xs = x # ys \<Longrightarrow> k < length xs \<and> x = xs ! k \<and> ys = drop (Suc k) xs"
  by (metis drop_eq_Nil Cons_nth_drop_Suc linorder_not_less list.distinct(1) list.inject)

lemma interleaved_step:
  assumes I: "interleaved c W ch lk i f k J S" and c: "c \<notin> W" and st: "cpu_step S T"
  shows "\<exists>k J. interleaved c W ch lk i f k J T"
  using st
proof cases
  case (1 e m ms t)
  note T = 1(1) and todo = 1(2) and run = 1(3) and free = 1(4)
  have dS: "m_held S d \<inter> m_held S d' = {}" if "d \<noteq> d'" for d d' using that by (rule interleavedD(6) [OF I])
  have "k_held t \<inter> m_held S d = {}" if "d \<noteq> e" for d using dS [of d e] free that by blast
  then have dis: "\<forall>d d'. d \<noteq> d' \<longrightarrow> m_held T d \<inter> m_held T d' = {}" using dS by (simp add: T) blast
  consider "e = c" | "e \<noteq> c" "e \<in> W" using I todo by (fastforce simp: interleaved_def split: if_splits)
  then show ?thesis
  proof cases
    case 1
    then have k: "k < steps_of lk" "m = sleeper ch lk i ! k" "ms = drop (Suc k) (sleeper ch lk i)"
      using I todo drop_Cons [of k "sleeper ch lk i" m ms] by (simp_all add: interleaved_def)
    note slot = interleavedD(8) [OF I]
    have none: "\<not> (\<exists>d\<in>W. wake_at lk < J d)" using slot k(1) by (metis order_less_irrefl)
    have g: "going ch lk k (procs (m_sh S) ! i)" using slot unfolding if_not_P [OF none] .
    have t: "k_held t = locks_s lk (Suc k)" "length (procs t) = length (procs (m_sh S))"
      "cpuproc t = (if Suc k < steps_of lk then Some i else None)" "going ch lk (Suc k) (procs t ! i)"
      using sleeper_step [OF k(1), of "view c S" i ch] I g run 1 k by (auto simp: interleaved_def)
    have "interleaved c W ch lk i f (Suc k) J T" unfolding interleaved_def
      using I 1 k t none dis by (auto simp: T interleaved_def fun_eq_iff)
    then show ?thesis by blast
  next
    case 2
    let ?j = "J e" and ?J = "J(e := Suc (J e))"
    have j: "?j < steps_of lk" "m = waker ch lk (f e) ! ?j" "ms = drop (Suc ?j) (waker ch lk (f e))"
      using I todo 2 drop_Cons [of ?j "waker ch lk (f e)" m ms] by (simp_all add: interleaved_def)
    have t: "k_held t = locks_w lk (Suc ?j)" "procs t = (if ?j = wake_at lk then map (wakeup1_proc (Some ch)) (procs (m_sh S)) else procs (m_sh S))"
      using waker_step [OF j(1), of "view e S" ch "f e"] I run 2 j by (auto simp: interleaved_def)
    let ?won = "\<exists>d\<in>W. wake_at lk < J d"
    have slot: "if \<exists>d\<in>W. wake_at lk < ?J d then k = steps_of lk \<and> p_state (procs t ! i) = RUNNABLE else going ch lk k (procs t ! i)"
    proof (cases "?j = wake_at lk")
      case True
      have "locks_s lk k \<inter> locks_w lk (wake_at lk) = {}" using dS [of c e] interleavedD(5) [OF I] 2 True by simp
      then have k: "k = steps_of lk" using interleavedD(1) [OF I] not_in_between by blast
      have "p_chan (procs (m_sh S) ! i) = Some ch \<and> p_state (procs (m_sh S) ! i) = SLEEPING \<or> p_state (procs (m_sh S) ! i) = RUNNABLE"
        using interleavedD(8) [OF I] k by (auto simp: going_def split: if_splits)
      then have "p_state (procs t ! i) = RUNNABLE" using t(2) True interleavedD(3) [OF I] by (simp add: woken)
      with True k 2(2) show ?thesis by auto
    next
      case False
      then have "(\<exists>d\<in>W. wake_at lk < ?J d) \<longleftrightarrow> ?won" by (auto split: if_splits simp: less_Suc_eq)
      with interleavedD(8) [OF I] t(2) False show ?thesis by simp
    qed
    have JN: "\<forall>d\<in>W. ?J d \<le> steps_of lk" using interleavedD(2) [OF I] j(1) by simp
    have td: "m_todo T d = (if d = c then drop k (sleeper ch lk i) else if d \<in> W then drop (?J d) (waker ch lk (f d)) else [])" for d
      using interleavedD(4) [OF I, of d] 2 j(3) by (cases "d = e"; cases "d = c") (simp_all add: T)
    have hd: "m_held T d = (if d = c then locks_s lk k else if d \<in> W then locks_w lk (?J d) else {})" for d
      using interleavedD(5) [OF I, of d] 2 t(1) by (cases "d = e"; cases "d = c") (simp_all add: T)
    have "i < length (procs t)" "m_cur T c = (if k < steps_of lk then Some i else None)"
      using interleavedD(3,7) [OF I] 2(1) t(2) by (simp_all add: T)
    then have "interleaved c W ch lk i f k ?J T" unfolding interleaved_def
      using interleavedD(1) [OF I] JN td hd dis slot by (intro conjI ext) (simp_all add: T del: fun_upd_apply)
    then show ?thesis by blast
  qed
qed

lemma interleaved_steps:
  assumes "cpu_step\<^sup>*\<^sup>* S T" and "about_to_sleep c W ch lk i f S"
  shows "\<exists>k J. interleaved c W ch lk i f k J T"
  using assms(1)
proof (induction rule: rtranclp_induct)
  case base
  then show ?case using interleaved_start [OF assms(2)] by blast
next
  case (step U V)
  then show ?case using interleaved_step assms(2) by (auto simp: about_to_sleep_def)
qed

text \<open>The number of statements left.\<close>

definition left_over :: "nat set \<Rightarrow> 'z kproc_scheme threads \<Rightarrow> nat" where
  "left_over A S = (\<Sum>d\<in>A. length (m_todo S d))"

lemma left_over_step:
  assumes "interleaved c W ch lk i f k J S" and "finite W" and "cpu_step S T"
  shows "left_over (insert c W) S = Suc (left_over (insert c W) T)"
  using assms(3)
proof cases
  case (1 e m ms t)
  have e: "e \<in> insert c W" using assms(1) 1(2) by (auto simp: interleaved_def split: if_splits)
  let ?A = "insert c W - {e}"
  have "(\<Sum>d\<in>?A. length (m_todo T d)) = (\<Sum>d\<in>?A. length (m_todo S d))" by (intro sum.cong) (auto simp: 1(1))
  then show ?thesis using e 1(2) assms(2) by (simp add: left_over_def sum.remove [of "insert c W" e] 1(1))
qed

lemma left_over_steps:
  assumes "(cpu_step ^^ m) S T" and "about_to_sleep c W ch lk i f S"
  shows "left_over (insert c W) S = m + left_over (insert c W) T"
  using assms(1)
proof (induction m arbitrary: T)
  case (Suc m)
  then obtain U where U: "(cpu_step ^^ m) S U" "cpu_step U T" by auto
  then obtain k J where "interleaved c W ch lk i f k J U" using interleaved_steps [OF relpowp_imp_rtranclp assms(2)] by blast
  from left_over_step [OF this _ U(2)] show ?case using Suc.IH [OF U(1)] assms(2) by (simp add: about_to_sleep_def)
qed simp

text \<open>
  Nobody waits for ever: who has the lock of the table needs no other; if nobody has it, who has the lock of the condition can go on; and
  if nobody has a lock, everybody can.
\<close>

definition lock_order :: "lockid \<Rightarrow> lockid set \<Rightarrow> lockid set \<Rightarrow> bool" where
  "lock_order lk L M \<longleftrightarrow> L \<subseteq> {lk, L_ptable} \<and> M \<subseteq> {lk, L_ptable} \<and> (L_ptable \<in> L \<longrightarrow> M \<subseteq> L) \<and> (lk \<in> L \<longrightarrow> M \<subseteq> insert L_ptable L)"

lemma lock_order_programs: "lock_order lk (locks_s lk k) (locks_s lk (Suc k))" "lock_order lk (locks_w lk j) (locks_w lk (Suc j))"
  by (auto simp: lock_order_def locks_s_def locks_w_def split: if_splits)

lemma someone_free:
  assumes "\<And>d. m_todo S d = [] \<Longrightarrow> m_held S d = {}" and "\<And>d. m_todo S d \<noteq> [] \<Longrightarrow> lock_order lk (m_held S d) (M d)"
    and "\<forall>d e. d \<noteq> e \<longrightarrow> m_held S d \<inter> m_held S e = {}" and "m_todo S a \<noteq> []"
  shows "\<exists>e. m_todo S e \<noteq> [] \<and> (\<forall>d. d \<noteq> e \<longrightarrow> (M e - m_held S e) \<inter> m_held S d = {})"
proof -
  have sub: "m_held S d \<subseteq> {lk, L_ptable}" for d using assms(1,2) [of d] by (auto simp: lock_order_def)
  consider e where "L_ptable \<in> m_held S e" | e where "lk \<in> m_held S e" "\<forall>d. L_ptable \<notin> m_held S d" | "\<forall>d. m_held S d = {}"
    using sub by (cases "\<exists>e. L_ptable \<in> m_held S e"; cases "\<exists>e. lk \<in> m_held S e") blast+
  then show ?thesis
  proof cases
    case (1 e)
    then have "m_todo S e \<noteq> []" "M e \<subseteq> m_held S e" using assms(1,2) [of e] by (auto simp: lock_order_def)
    then show ?thesis by blast
  next
    case (2 e)
    then have "m_todo S e \<noteq> []" "M e \<subseteq> insert L_ptable (m_held S e)" using assms(1,2) [of e] by (auto simp: lock_order_def)
    with 2(2) show ?thesis by blast
  qed (use assms(4) in auto)
qed

lemma interleaved_progress:
  assumes I: "interleaved c W ch lk i f k J S" and c: "c \<notin> W"
  shows "(\<exists>T. cpu_step S T) \<or> (\<forall>d. m_todo S d = [] \<and> m_held S d = {})"
proof (cases "\<forall>d. m_todo S d = []")
  case True
  have none: "locks_s lk n = {}" "locks_w lk n = {}" if "steps_of lk \<le> n" for n
    using that by (auto simp: locks_s_def locks_w_def steps_of_def split: if_splits)
  have "m_held S d = {}" for d
  proof -
    have "steps_of lk \<le> k" if "d = c" using True [rule_format, of c] interleavedD(4) [OF I, of c] by simp
    moreover have "steps_of lk \<le> J d" if "d \<in> W" using that True [rule_format, of d] interleavedD(4) [OF I, of d] c by (auto split: if_splits)
    ultimately show ?thesis using interleavedD(5) [OF I, of d] none by simp
  qed
  with True show ?thesis by blast
next
  case False
  then obtain a where a: "m_todo S a \<noteq> []" by blast
  define M where "M d = (if d = c then locks_s lk (Suc k) else locks_w lk (Suc (J d)))" for d
  have none: "locks_s lk n = {}" "locks_w lk n = {}" if "steps_of lk \<le> n" for n
    using that by (auto simp: locks_s_def locks_w_def steps_of_def split: if_splits)
  have "\<exists>e. m_todo S e \<noteq> [] \<and> (\<forall>d. d \<noteq> e \<longrightarrow> (M e - m_held S e) \<inter> m_held S d = {})"
  proof (rule someone_free [where lk = lk])
    show "m_held S d = {}" if "m_todo S d = []" for d
      using that none interleavedD(4,5) [OF I, of d] by (auto split: if_splits)
    show "lock_order lk (m_held S d) (M d)" if "m_todo S d \<noteq> []" for d
      using that interleavedD(4,5) [OF I, of d] by (auto simp: M_def lock_order_programs split: if_splits)
    show "\<forall>d e. d \<noteq> e \<longrightarrow> m_held S d \<inter> m_held S e = {}" using interleavedD(6) [OF I] by blast
  qed (rule a)
  then obtain e where e: "m_todo S e \<noteq> []" "\<forall>d. d \<noteq> e \<longrightarrow> (M e - m_held S e) \<inter> m_held S d = {}" by blast
  then obtain m ms where m: "m_todo S e = m # ms" by (cases "m_todo S e") auto
  have "\<exists>t. m (view e S) = Ok () t \<and> k_held t = M e"
  proof (cases "e = c")
    case True
    then have "k < steps_of lk" "m = sleeper ch lk i ! k" using I m drop_Cons [of k "sleeper ch lk i" m ms] by (simp_all add: interleaved_def)
    moreover have "going ch lk k (procs (m_sh S) ! i)" using I \<open>k < steps_of lk\<close> by (auto simp: interleaved_def split: if_splits)
    ultimately show ?thesis using sleeper_step [of k lk "view e S" i ch] I True by (auto simp: interleaved_def M_def)
  next
    case False
    then have "e \<in> W" using I e(1) by (auto simp: interleaved_def split: if_splits)
    with False have "J e < steps_of lk" "m = waker ch lk (f e) ! J e"
      using I m drop_Cons [of "J e" "waker ch lk (f e)" m ms] by (simp_all add: interleaved_def)
    then show ?thesis using waker_step [of "J e" lk "view e S" ch "f e"] I False \<open>e \<in> W\<close> by (auto simp: interleaved_def M_def)
  qed
  then obtain t where "m (view e S) = Ok () t" "k_held t = M e" by blast
  with m e(2) show ?thesis using cpu_step.intros [OF m, of t] by blast
qed

text \<open>
  C28: No wakeup is lost, however the processors interleave. One processor runs a process that holds the lock of a condition and calls
  \<open>sleep\<close>; others each take that lock, change the memory and call \<open>wakeup\<close> on the same channel (\<open>wakeup1\<close> when the lock is \<open>ptable.lock\<close>, as in \<open>exit\<close>), at any time before, during or after.
  Whichever statement runs next, once one of the others is through, the sleeper has gone to sleep, its processor is back in the scheduler, and it is runnable again.
  And all get there: in every state that can be reached some processor can execute its next statement, or all are through and no lock is held,
  after at most six statements of each.
\<close>
theorem no_lost_wakeup:
  assumes "about_to_sleep c W ch lk i f S"
  shows "(\<forall>T. cpu_step\<^sup>*\<^sup>* S T \<and> (\<exists>d\<in>W. m_todo T d = []) \<longrightarrow>
       m_todo T c = [] \<and> m_cur T c = None \<and> p_state (procs (m_sh T) ! i) = RUNNABLE)
    \<and> (\<forall>T m. (cpu_step ^^ m) S T \<longrightarrow> m \<le> 6 * (card W + 1)
       \<and> ((\<exists>T'. cpu_step T T') \<or> (\<forall>d. m_todo T d = [] \<and> m_held T d = {})))"
proof (intro conjI allI impI; (elim conjE)?)
  fix T assume T: "cpu_step\<^sup>*\<^sup>* S T" "\<exists>d\<in>W. m_todo T d = []"
  obtain k J where I: "interleaved c W ch lk i f k J T" using interleaved_steps [OF T(1) assms] by blast
  have w: "wake_at lk < steps_of lk" by (simp add: wake_at_def steps_of_def)
  obtain d where d: "d \<in> W" "d \<noteq> c" "m_todo T d = []" using T(2) assms by (auto simp: about_to_sleep_def)
  then have "wake_at lk < J d" using I w by (simp add: interleaved_def)
  then have k: "k = steps_of lk" "p_state (procs (m_sh T) ! i) = RUNNABLE" using I d(1) by (auto simp: interleaved_def split: if_splits)
  then show "p_state (procs (m_sh T) ! i) = RUNNABLE" "m_todo T c = []" "m_cur T c = None" using I by (simp_all add: interleaved_def)
next
  fix T m assume m: "(cpu_step ^^ m) S T"
  obtain k J where I: "interleaved c W ch lk i f k J T" using interleaved_steps [OF relpowp_imp_rtranclp [OF m] assms] by blast
  then show "(\<exists>T'. cpu_step T T') \<or> (\<forall>d. m_todo T d = [] \<and> m_held T d = {})"
    using assms by (intro interleaved_progress) (auto simp: about_to_sleep_def)
  have "left_over (insert c W) S = (\<Sum>d\<in>insert c W. steps_of lk)" unfolding left_over_def
    using assms by (intro sum.cong) (auto simp: about_to_sleep_def)
  also have "\<dots> \<le> 6 * (card W + 1)" using assms by (simp add: about_to_sleep_def steps_of_def)
  finally show "m \<le> 6 * (card W + 1)" using left_over_steps [OF m assms] by simp
qed

section \<open>A witness\<close>

lemma last_step:
  fixes R :: "'a \<Rightarrow> 'a \<Rightarrow> bool"
  assumes "\<And>m T. (R ^^ m) S T \<Longrightarrow> m \<le> b"
  obtains m T where "(R ^^ m) S T" "\<nexists>T'. R T T'"
proof -
  let ?P = "\<lambda>m. \<exists>T. (R ^^ m) S T"
  have P0: "?P 0" by (rule exI [of _ S]) simp
  have b: "\<forall>m. ?P m \<longrightarrow> m \<le> b" using assms by blast
  obtain T where T: "(R ^^ Greatest ?P) S T" using GreatestI_nat [of ?P 0 b] P0 b by blast
  have "\<nexists>T'. R T T'"
  proof
    assume "\<exists>T'. R T T'"
    then obtain T' where "R T T'" by blast
    with T have "?P (Suc (Greatest ?P))" by (auto intro: exI [of _ T'])
    from Greatest_le_nat [of ?P, OF this] b show False by (meson Suc_n_not_le_n)
  qed
  with T show ?thesis by (rule that)
qed

text \<open>A process in \<open>sys_sleep\<close> on processor 0 and the clock interrupt on processor 1.\<close>

definition demo_threads :: "kproc threads" where
  "demo_threads = \<lparr>m_sh = demo [proc_at RUNNING 0 0], m_held = (\<lambda>d. if d = 0 then {L_ticks} else {}), m_cur = (\<lambda>d. if d = 0 then Some 0 else None),
     m_todo = (\<lambda>d. if d = 0 then sleeper Ch_ticks L_ticks 0 else if d = 1 then waker Ch_ticks L_ticks (\<lambda>m. m) else [])\<rparr>"

theorem no_lost_wakeup_witness:
  "\<exists>T. cpu_step\<^sup>*\<^sup>* demo_threads T \<and> m_todo T 0 = [] \<and> m_todo T 1 = [] \<and> m_cur T 0 = None \<and> p_state (procs (m_sh T) ! 0) = RUNNABLE"
proof -
  have "about_to_sleep 0 {1} Ch_ticks L_ticks 0 (\<lambda>_ m. m) demo_threads"
    by (simp add: about_to_sleep_def demo_threads_def demo_def boot_def fun_eq_iff)
  note n = no_lost_wakeup [OF this]
  then have "m \<le> 12" if "(cpu_step ^^ m) demo_threads T" for m T using that by simp
  then obtain m T where T: "(cpu_step ^^ m) demo_threads T" "\<nexists>T'. cpu_step T T'" using last_step [of cpu_step demo_threads 12] by blast
  then have "m_todo T 1 = []" using n by blast
  with n relpowp_imp_rtranclp [OF T(1)] show ?thesis by blast
qed

end
