(* ===== verification/Vm_Spec.thy ===== *)
theory Vm_Spec
  imports Umem
begin

text \<open>
  Page tables as maps from page numbers to entries. A directory whose tables are pages of their own is a well-formed
  map; \<open>walkpgdir\<close> may add an empty table, which changes no entry, and \<open>mappages\<close> sets just the entries of its range, so that
  the hardware then finds the pages where they were put.
\<close>

section \<open>Page numbers\<close>

definition vpn :: "u32 \<Rightarrow> nat" where
  "vpn a = unat a div 4096"

lemma unat_drop_and_3ff: "unat (drop_bit n (a :: u32) AND 0x3FF) = (unat a div 2 ^ n) mod 1024"
proof -
  have m: "(0x3FF :: u32) = mask 10" by (simp add: mask_eq_exp_minus_1)
  have "unat (drop_bit n a AND 0x3FF) = unat (take_bit 10 (drop_bit n a))" unfolding m by (simp only: take_bit_eq_mask)
  also have "\<dots> = take_bit 10 (drop_bit n (unat a))" by (simp only: unsigned_take_bit_eq unat_drop_bit_eq)
  also have "\<dots> = (unat a div 2 ^ n) mod 2 ^ 10" by (simp only: take_bit_eq_mod drop_bit_eq_div)
  finally show ?thesis by simp
qed

lemma vpn_lt: "vpn a < 1048576"
  unfolding vpn_def using unat_u32_lt [of a] by (simp add: less_mult_imp_div_less)

lemma unat_PDX: "unat (PDX a) = vpn a div 1024"
proof -
  have "unat a div 4194304 < 1024" using unat_u32_lt [of a] by (simp add: less_mult_imp_div_less)
  then show ?thesis by (simp add: PDX_def unat_drop_and_3ff vpn_def div_mult2_eq [symmetric])
qed

lemma unat_PTX: "unat (PTX a) = vpn a mod 1024"
  by (simp add: PTX_def unat_drop_and_3ff vpn_def)

lemma PDX_of_nat: "PDX a = of_nat (vpn a div 1024)" and PTX_of_nat: "PTX a = of_nat (vpn a mod 1024)"
  unfolding unat_PDX [symmetric] unat_PTX [symmetric] by simp_all

section \<open>The map\<close>

text \<open>The page table for a part of the directory, and the entry for a page, 0 without a table.\<close>

definition pgtab :: "mem \<Rightarrow> u32 \<Rightarrow> nat \<Rightarrow> u32 option" where
  "pgtab m pgdir d = (let e = load32 m (pgdir + of_nat (4 * d)) in if e AND PTE_P = 0 then None else Some (P2V (PTE_ADDR e)))"

definition pte :: "mem \<Rightarrow> u32 \<Rightarrow> nat \<Rightarrow> u32" where
  "pte m pgdir n = (case pgtab m pgdir (n div 1024) of None \<Rightarrow> 0 | Some t \<Rightarrow> load32 m (t + of_nat (4 * (n mod 1024))))"

lemma translate_pte:
  "translate m pgdir a = (let e = pte m pgdir (vpn a) in
     if e AND PTE_P = 0 then None else Some (P2V (PTE_ADDR e) + (a AND 0xFFF)))"
  by (simp add: translate_def pte_def pgtab_def Let_def PDX_of_nat PTX_of_nat)

text \<open>
  A directory is well formed beside the free pages \<open>ps\<close>: the directory and its tables are different pages, none of
  them free.
\<close>

definition vm_wf :: "u32 list \<Rightarrow> u32 \<Rightarrow> 'z kstate_scheme \<Rightarrow> bool" where
  "vm_wf ps pgdir s \<longleftrightarrow> kmem_wf ps s \<and> page_aligned pgdir \<and> pgdir \<notin> set ps
     \<and> (\<forall>d t. d < 1024 \<longrightarrow> pgtab (k_mem s) pgdir d = Some t \<longrightarrow> page_aligned t \<and> t \<noteq> 0 \<and> t \<noteq> pgdir \<and> t \<notin> set ps)
     \<and> (\<forall>d d' t. d < 1024 \<longrightarrow> d' < 1024 \<longrightarrow> pgtab (k_mem s) pgdir d = Some t \<longrightarrow> pgtab (k_mem s) pgdir d' = Some t \<longrightarrow> d = d')"

lemma load32_store32_page:
  assumes "page_aligned a" and "page_aligned b" and "a \<noteq> b" and "i + 4 \<le> 4096" and "j + 4 \<le> 4096"
  shows "load32 (store32 (b + of_nat j) w m) (a + of_nat i) = load32 m (a + of_nat i)"
proof (rule load32_cong)
  fix k :: nat assume "k < 4"
  then have "store32 (b + of_nat j) w m (a + of_nat (i + k)) = m (a + of_nat (i + k))"
    using assms by (intro store32_other_page) simp_all
  then show "store32 (b + of_nat j) w m (a + of_nat i + of_nat k) = m (a + of_nat i + of_nat k)" by (simp add: add.assoc)
qed

lemma load32_store32_entry:
  assumes "i < 1024" and "j < 1024" and "i \<noteq> j"
  shows "load32 (store32 (a + of_nat (4 * j)) w m) (a + of_nat (4 * i)) = load32 m (a + of_nat (4 * i))"
  using assms by (intro load32_store32_off) auto

lemma load32_memset_page:
  assumes "page_aligned a" and "page_aligned b" and "a \<noteq> b" and "i + 4 \<le> 4096"
  shows "load32 (memset b c PGSIZE m) (a + of_nat i) = load32 m (a + of_nat i)"
proof (rule load32_cong)
  fix k :: nat assume "k < 4"
  then have "memset b c PGSIZE m (a + of_nat (i + k)) = m (a + of_nat (i + k))"
    using assms by (intro memset_other_page) simp_all
  then show "memset b c PGSIZE m (a + of_nat i + of_nat k) = m (a + of_nat i + of_nat k)" by (simp add: add.assoc)
qed

lemma load32_zero_page: "i + 4 \<le> 4096 \<Longrightarrow> load32 (memset b 0 PGSIZE m) (b + of_nat i) = 0"
proof -
  assume i: "i + 4 \<le> 4096"
  have "memset b 0 PGSIZE m (b + of_nat (i + k)) = 0" if "k < 4" for k
    using that i dist_same_page [of "i + k" b] by (simp add: memset_eq PGSIZE_def)
  from this [of 0] this [of 1] this [of 2] this [of 3] show ?thesis by (simp add: load32_def le32_def ac_simps)
qed

lemma PTE_ADDR_flags:
  assumes "page_aligned a" and "f AND NOT 0xFFF = 0"
  shows "PTE_ADDR (a OR f) = a"
proof -
  have "4096 * (unat a div 4096) = unat a"
    using assms(1) mult_div_mod_eq [of 4096 "unat a"] by (simp add: page_aligned_def)
  then have "unat (a AND NOT 0xFFF) = unat a" by (simp only: unat_and_not_fff)
  then have "a AND NOT 0xFFF = a" by (simp add: word_unat_eq_iff)
  moreover have "(a OR f) AND NOT 0xFFF = (a AND NOT 0xFFF) OR (f AND NOT 0xFFF)"
    by (rule bit_word_eqI) (auto simp: bit_simps)
  ultimately show ?thesis using assms(2) by (simp add: PTE_ADDR_def)
qed

lemma page_aligned_V2P: "page_aligned p \<Longrightarrow> page_aligned (V2P p)"
  using dist_aligned [of p KERNBASE] by (simp add: page_aligned_def V2P_def dist_def KERNBASE_def)

lemma P2V_V2P [simp]: "P2V (V2P p) = p" "V2P (P2V p) = p"
  by (simp_all add: P2V_def V2P_def)

definition table_entry :: "u32 \<Rightarrow> u32" where
  "table_entry p = V2P p OR PTE_P OR PTE_W OR PTE_U"

lemma table_entry_props: "page_aligned p \<Longrightarrow> PTE_ADDR (table_entry p) = V2P p" "table_entry p AND PTE_P \<noteq> 0"
proof -
  assume "page_aligned p"
  then show "PTE_ADDR (table_entry p) = V2P p"
    unfolding table_entry_def by (intro PTE_ADDR_flags page_aligned_V2P) (simp_all add: PTE_P_def PTE_W_def PTE_U_def)
next
  have "bit (table_entry p AND PTE_P) 0" by (simp add: table_entry_def PTE_P_def bit_simps)
  then show "table_entry p AND PTE_P \<noteq> 0" by (metis bit_0_eq bot_apply bot_bool_def)
qed

lemma kmem_wf_mem:
  assumes "kmem_wf ps s" and "\<And>q. q \<in> set ps \<Longrightarrow> load32 m q = load32 (k_mem s) q"
  shows "kmem_wf ps (s\<lparr>k_mem := m\<rparr>)"
  using assms flist_cong [of ps m "k_mem s" "k_freelist s"] by (simp add: kmem_wf_def)

lemma free_aligned: "kmem_wf ps s \<Longrightarrow> p \<in> set ps \<Longrightarrow> page_aligned p \<and> p \<noteq> 0"
  using free_page_nonzero [of "k_end s" p] free_page_aligned [of "k_end s" p] unfolding kmem_wf_def by blast

section \<open>walkpgdir\<close>

lemma walkpgdir_found:
  assumes "pgtab (k_mem s) pgdir (vpn a div 1024) = Some t"
  shows "walkpgdir pgdir a alloc s = Ok (t + of_nat (4 * (vpn a mod 1024))) s"
  using assms by (simp add: walkpgdir_def pgtab_def Let_def bindM_run peek_def PDX_of_nat PTX_of_nat split: if_split_asm)

lemma walkpgdir_none:
  assumes "pgtab (k_mem s) pgdir (vpn a div 1024) = None"
  shows "walkpgdir pgdir a False s = Ok 0 s" "kmem_wf [] s \<Longrightarrow> walkpgdir pgdir a True s = Ok 0 s"
  using assms kmem.alloc_none [of s]
  by (simp_all add: walkpgdir_def pgtab_def Let_def bindM_run peek_def PDX_of_nat PTX_of_nat split: if_split_asm)

text \<open>The memory with a new, empty table.\<close>

definition new_table :: "u32 \<Rightarrow> nat \<Rightarrow> u32 \<Rightarrow> mem \<Rightarrow> mem" where
  "new_table pgdir d p m = store32 (pgdir + of_nat (4 * d)) (table_entry p) (memset p 0 PGSIZE m)"

lemma walkpgdir_new:
  assumes "pgtab (k_mem s) pgdir (vpn a div 1024) = None" and "kmem_wf (p # ps) s"
  shows "walkpgdir pgdir a True s = Ok (p + of_nat (4 * (vpn a mod 1024)))
    (s\<lparr>k_freelist := load32 (k_mem s) p, k_mem := new_table pgdir (vpn a div 1024) p (k_mem s)\<rparr>)"
  using assms kalloc_wf [OF assms(2)] free_aligned [OF assms(2), of p]
  by (simp add: walkpgdir_def pgtab_def Let_def bindM_run thenM_run peek_def poke_def memsetM_def PDX_of_nat PTX_of_nat
      new_table_def table_entry_def or.assoc split: if_split_asm)

lemma new_table_load:
  assumes "page_aligned q" and "page_aligned p" and "page_aligned pgdir" and "q \<noteq> p" and "i < 1024" and "d < 1024"
    and "q = pgdir \<longrightarrow> i \<noteq> d"
  shows "load32 (new_table pgdir d p m) (q + of_nat (4 * i)) = load32 m (q + of_nat (4 * i))"
proof (cases "q = pgdir")
  case True
  then show ?thesis
    using assms load32_store32_entry [of i d pgdir] load32_memset_page [of pgdir p "4 * i" 0 m] by (simp add: new_table_def)
next
  case False
  then show ?thesis
    using assms load32_store32_page [of q pgdir "4 * i" "4 * d"] load32_memset_page [of q p "4 * i" 0 m] by (simp add: new_table_def)
qed

lemma new_table_pgtab:
  assumes "page_aligned p" and "page_aligned pgdir" and "pgdir \<noteq> p" and "i < 1024" and "d < 1024"
  shows "pgtab (new_table pgdir d p m) pgdir i = (if i = d then Some p else pgtab m pgdir i)"
proof (cases "i = d")
  case True
  then show ?thesis using table_entry_props [of p] assms(1) by (simp add: pgtab_def new_table_def Let_def)
next
  case False
  then show ?thesis using new_table_load [of pgdir p pgdir i d m] assms by (simp add: pgtab_def)
qed


text \<open>
  One state extends another: the directory stays well formed, the free pages that are taken are tables now, and a page that is
  neither free nor part of the page table keeps its contents.
\<close>

definition vm_data :: "u32 list \<Rightarrow> u32 \<Rightarrow> mem \<Rightarrow> u32 \<Rightarrow> bool" where
  "vm_data ps pgdir m q \<longleftrightarrow> page_aligned q \<and> q \<notin> set ps \<and> q \<noteq> pgdir \<and> (\<forall>d < 1024. pgtab m pgdir d \<noteq> Some q)"

definition table_pages :: "mem \<Rightarrow> u32 \<Rightarrow> u32 set" where
  "table_pages m pgdir = {t. \<exists>d < 1024. pgtab m pgdir d = Some t}"

definition vm_ext :: "u32 \<Rightarrow> u32 list \<Rightarrow> 'z kstate_scheme \<Rightarrow> u32 list \<Rightarrow> 'z kstate_scheme \<Rightarrow> bool" where
  "vm_ext pgdir ps s ps' s' \<longleftrightarrow> vm_wf ps' pgdir s' \<and> s' = s\<lparr>k_freelist := k_freelist s', k_mem := k_mem s'\<rparr>
     \<and> set ps' \<union> table_pages (k_mem s') pgdir = set ps \<union> table_pages (k_mem s) pgdir
     \<and> (\<forall>q. vm_data ps pgdir (k_mem s) q \<longrightarrow> vm_data ps' pgdir (k_mem s') q
          \<and> (\<forall>i < 4096. k_mem s' (q + of_nat i) = k_mem s (q + of_nat i)))"

lemma vm_ext_refl: "vm_wf ps pgdir s \<Longrightarrow> vm_ext pgdir ps s ps s"
  unfolding vm_ext_def by simp

lemma vm_ext_trans: "vm_ext pgdir ps s ps' s' \<Longrightarrow> vm_ext pgdir ps' s' ps'' s'' \<Longrightarrow> vm_ext pgdir ps s ps'' s''"
proof -
  assume a: "vm_ext pgdir ps s ps' s'" and b: "vm_ext pgdir ps' s' ps'' s''"
  have "s'' = s'\<lparr>k_freelist := k_freelist s'', k_mem := k_mem s''\<rparr>" "s' = s\<lparr>k_freelist := k_freelist s', k_mem := k_mem s'\<rparr>"
    using a b by (simp_all add: vm_ext_def)
  then have "s'' = (s\<lparr>k_freelist := k_freelist s', k_mem := k_mem s'\<rparr>)\<lparr>k_freelist := k_freelist s'', k_mem := k_mem s''\<rparr>" by simp
  then have "s'' = s\<lparr>k_freelist := k_freelist s'', k_mem := k_mem s''\<rparr>" by (rule trans) simp
  then show ?thesis using a b unfolding vm_ext_def by auto
qed

lemma new_table_pte:
  assumes wf: "vm_wf (p # ps) pgdir s" and d: "d < 1024" and none: "pgtab (k_mem s) pgdir d = None" and n: "n < 1048576"
  shows "pte (new_table pgdir d p (k_mem s)) pgdir n = pte (k_mem s) pgdir n"
proof -
  let ?m = "k_mem s"
  have p: "page_aligned p" "page_aligned pgdir" "pgdir \<noteq> p" using wf free_aligned [of "p # ps" s p] by (auto simp: vm_wf_def)
  have n': "n div 1024 < 1024" using n by (simp add: less_mult_imp_div_less)
  show ?thesis
  proof (cases "n div 1024 = d")
    case True
    have "load32 (new_table pgdir d p ?m) (p + of_nat (4 * (n mod 1024))) = load32 (memset p 0 PGSIZE ?m) (p + of_nat (4 * (n mod 1024)))"
      unfolding new_table_def using p d by (intro load32_store32_page) auto
    also have "\<dots> = 0" by (rule load32_zero_page) (simp add: Suc_le_eq)
    finally show ?thesis using True none new_table_pgtab [OF p n' d] by (simp add: pte_def)
  next
    case False
    then have same: "pgtab (new_table pgdir d p ?m) pgdir (n div 1024) = pgtab ?m pgdir (n div 1024)"
      using new_table_pgtab [OF p n' d, of ?m] by simp
    show ?thesis
    proof (cases "pgtab ?m pgdir (n div 1024)")
      case None
      then show ?thesis using same by (simp add: pte_def)
    next
      case (Some t)
      then have "page_aligned t" "t \<noteq> p" "t \<noteq> pgdir" using wf n' by (auto simp: vm_wf_def)
      then have "load32 (new_table pgdir d p ?m) (t + of_nat (4 * (n mod 1024))) = load32 ?m (t + of_nat (4 * (n mod 1024)))"
        using p d by (intro new_table_load) auto
      then show ?thesis using same Some by (simp add: pte_def)
    qed
  qed
qed

lemma new_table_other:
  assumes "page_aligned q" and "page_aligned p" and "page_aligned pgdir" and "q \<noteq> p" and "q \<noteq> pgdir" and "d < 1024" and "i < 4096"
  shows "new_table pgdir d p m (q + of_nat i) = m (q + of_nat i)"
proof -
  have "new_table pgdir d p m (q + of_nat i) = memset p 0 PGSIZE m (q + of_nat i)"
    unfolding new_table_def using assms by (intro store32_other_page) auto
  also have "\<dots> = m (q + of_nat i)" using assms by (intro memset_other_page) auto
  finally show ?thesis .
qed

lemma new_table_ext:
  assumes wf: "vm_wf (p # ps) pgdir s" and d: "d < 1024" and none: "pgtab (k_mem s) pgdir d = None"
  shows "vm_ext pgdir (p # ps) s ps (s\<lparr>k_freelist := load32 (k_mem s) p, k_mem := new_table pgdir d p (k_mem s)\<rparr>)"
proof -
  let ?m = "new_table pgdir d p (k_mem s)"
  let ?u = "s\<lparr>k_freelist := load32 (k_mem s) p\<rparr>"
  have k: "kmem_wf (p # ps) s" using wf by (simp add: vm_wf_def)
  have p: "page_aligned p" "page_aligned pgdir" "pgdir \<noteq> p" "p \<noteq> 0" "p \<notin> set ps" using wf free_aligned [OF k, of p] k by (auto simp: vm_wf_def kmem_wf_def)
  have tab: "pgtab ?m pgdir i = (if i = d then Some p else pgtab (k_mem s) pgdir i)" if "i < 1024" for i
    using new_table_pgtab [OF p(1-3) that d] by simp
  have "kmem_wf ps ?u" using kmem_wf_taken [OF k] by simp
  moreover have "load32 ?m q = load32 (k_mem ?u) q" if "q \<in> set ps" for q
  proof -
    have "page_aligned q" "q \<noteq> p" "q \<noteq> pgdir" using that free_aligned [OF k, of q] p wf by (auto simp: vm_wf_def)
    then show ?thesis using new_table_load [of q p pgdir 0 d "k_mem s"] p d by simp
  qed
  ultimately have "kmem_wf ps (?u\<lparr>k_mem := ?m\<rparr>)" by (rule kmem_wf_mem)
  moreover have "(?u\<lparr>k_mem := ?m\<rparr>) = s\<lparr>k_freelist := load32 (k_mem s) p, k_mem := ?m\<rparr>" by simp
  ultimately have "vm_wf ps pgdir (s\<lparr>k_freelist := load32 (k_mem s) p, k_mem := ?m\<rparr>)"
    using wf p none d unfolding vm_wf_def by (auto simp: tab split: if_split_asm)
  moreover have "vm_data ps pgdir ?m q \<and> (\<forall>i < 4096. ?m (q + of_nat i) = k_mem s (q + of_nat i))"
    if "vm_data (p # ps) pgdir (k_mem s) q" for q
    using that p d new_table_other [of q p pgdir d _ "k_mem s"] by (auto simp: vm_data_def tab)
  moreover have "table_pages ?m pgdir = insert p (table_pages (k_mem s) pgdir)"
    unfolding table_pages_def using tab d none by (intro set_eqI) (simp, metis option.distinct(1) option.inject)
  ultimately show ?thesis unfolding vm_ext_def by auto
qed

text \<open>The walk that may allocate: it finds the entry, with every entry unchanged, or there is no free page.\<close>

lemma walkpgdir_alloc:
  assumes wf: "vm_wf ps pgdir s"
  shows "(ps = [] \<and> walkpgdir pgdir a True s = Ok 0 s) \<or>
    (\<exists>t ps' s'. walkpgdir pgdir a True s = Ok (t + of_nat (4 * (vpn a mod 1024))) s' \<and> vm_ext pgdir ps s ps' s'
       \<and> pgtab (k_mem s') pgdir (vpn a div 1024) = Some t
       \<and> (\<forall>n < 1048576. pte (k_mem s') pgdir n = pte (k_mem s) pgdir n))"
proof -
  have d: "vpn a div 1024 < 1024" using vpn_lt [of a] by (simp add: less_mult_imp_div_less)
  show ?thesis
  proof (cases "pgtab (k_mem s) pgdir (vpn a div 1024)")
    case (Some t)
    then show ?thesis using walkpgdir_found [OF Some, of True] vm_ext_refl [OF wf] by blast
  next
    case none: None
    show ?thesis
    proof (cases ps)
      case Nil
      then show ?thesis using walkpgdir_none(2) [OF none] wf by (simp add: vm_wf_def)
    next
      case (Cons p qs)
      let ?s = "s\<lparr>k_freelist := load32 (k_mem s) p, k_mem := new_table pgdir (vpn a div 1024) p (k_mem s)\<rparr>"
      have wf': "vm_wf (p # qs) pgdir s" using wf Cons by simp
      then have k: "kmem_wf (p # qs) s" by (simp add: vm_wf_def)
      have q: "page_aligned p" "page_aligned pgdir" "pgdir \<noteq> p" using wf' free_aligned [OF k, of p] by (auto simp: vm_wf_def)
      have "walkpgdir pgdir a True s = Ok (p + of_nat (4 * (vpn a mod 1024))) ?s" by (rule walkpgdir_new [OF none k])
      moreover have "vm_ext pgdir ps s qs ?s" using new_table_ext [OF wf' d none] Cons by simp
      moreover have "pgtab (k_mem ?s) pgdir (vpn a div 1024) = Some p" using new_table_pgtab [OF q d d] by simp
      moreover have "\<forall>n < 1048576. pte (k_mem ?s) pgdir n = pte (k_mem s) pgdir n" using new_table_pte [OF wf' d none] by simp
      ultimately show ?thesis by blast
    qed
  qed
qed

section \<open>Writing an entry\<close>

definition set_pte :: "u32 \<Rightarrow> nat \<Rightarrow> u32 \<Rightarrow> u32 \<Rightarrow> 'z kstate_scheme \<Rightarrow> 'z kstate_scheme" where
  "set_pte t n w pgdir s = s\<lparr>k_mem := store32 (t + of_nat (4 * (n mod 1024))) w (k_mem s)\<rparr>"

lemma set_pte_effect:
  assumes wf: "vm_wf ps pgdir s" and t: "pgtab (k_mem s) pgdir (n div 1024) = Some t" and n: "n < 1048576"
  shows "vm_ext pgdir ps s ps (set_pte t n w pgdir s)"
    and "i < 1048576 \<Longrightarrow> pte (k_mem (set_pte t n w pgdir s)) pgdir i = (if i = n then w else pte (k_mem s) pgdir i)"
    and "d < 1024 \<Longrightarrow> pgtab (k_mem (set_pte t n w pgdir s)) pgdir d = pgtab (k_mem s) pgdir d"
proof -
  define m where "m = store32 (t + of_nat (4 * (n mod 1024))) w (k_mem s)"
  have sm: "set_pte t n w pgdir s = s\<lparr>k_mem := m\<rparr>" by (simp add: set_pte_def m_def)
  have nd: "n div 1024 < 1024" using n by (simp add: less_mult_imp_div_less)
  have k: "kmem_wf ps s" using wf by (simp add: vm_wf_def)
  have p: "page_aligned t" "page_aligned pgdir" "t \<noteq> pgdir" "t \<notin> set ps" using wf t nd by (auto simp: vm_wf_def)
  have off: "load32 m (q + of_nat (4 * j)) = load32 (k_mem s) (q + of_nat (4 * j))" if "page_aligned q" "q \<noteq> t" "j < 1024" for q j
    unfolding m_def using that p(1) by (intro load32_store32_page) auto
  have tab: "pgtab m pgdir i = pgtab (k_mem s) pgdir i" if "i < 1024" for i
    using off [of pgdir i] that p by (simp add: pgtab_def)
  then show "d < 1024 \<Longrightarrow> pgtab (k_mem (set_pte t n w pgdir s)) pgdir d = pgtab (k_mem s) pgdir d" unfolding sm by simp
  have "load32 m q = load32 (k_mem s) q" if "q \<in> set ps" for q
    using off [of q 0] free_aligned [OF k that] that p(4) by auto
  then have "vm_wf ps pgdir (set_pte t n w pgdir s)"
    using wf kmem_wf_mem [OF k, of m] unfolding vm_wf_def sm by (auto simp: tab)
  moreover have "m (q + of_nat i) = k_mem s (q + of_nat i)" if "vm_data ps pgdir (k_mem s) q" "i < 4096" for q i
    unfolding m_def using that p(1) t nd by (intro store32_other_page) (auto simp: vm_data_def)
  moreover have "table_pages m pgdir = table_pages (k_mem s) pgdir" using tab by (auto simp: table_pages_def)
  ultimately show "vm_ext pgdir ps s ps (set_pte t n w pgdir s)"
    unfolding vm_ext_def sm by (auto simp: vm_data_def tab)
  show "pte (k_mem (set_pte t n w pgdir s)) pgdir i = (if i = n then w else pte (k_mem s) pgdir i)" if i: "i < 1048576"
  proof -
    have i': "i div 1024 < 1024" using i by (simp add: less_mult_imp_div_less)
    consider "i = n" | "i \<noteq> n" "i div 1024 = n div 1024" | "i div 1024 \<noteq> n div 1024" by blast
    then show ?thesis
    proof cases
      case 1
      then show ?thesis using t tab [OF nd] unfolding sm by (simp add: pte_def) (simp add: m_def)
    next
      case 2
      then have "i mod 1024 \<noteq> n mod 1024" by (metis mult_div_mod_eq)
      then show ?thesis
        using 2 t tab [OF nd] load32_store32_entry [of "i mod 1024" "n mod 1024" t w "k_mem s"] unfolding sm by (simp add: pte_def m_def)
    next
      case 3
      then have "t' \<noteq> t \<and> page_aligned t'" if "pgtab (k_mem s) pgdir (i div 1024) = Some t'" for t'
        using wf t nd i' that unfolding vm_wf_def by metis
      then show ?thesis
        using 3 tab [OF i'] off [of _ "i mod 1024"] unfolding sm by (auto simp: pte_def split: option.split)
    qed
  qed
qed

section \<open>mappages\<close>

text \<open>The entries for \<open>k\<close> pages from page \<open>v\<close> on point to the pages from \<open>pa\<close> on, and the others are as they were.\<close>

definition mapped :: "u32 \<Rightarrow> nat \<Rightarrow> nat \<Rightarrow> u32 \<Rightarrow> u32 \<Rightarrow> mem \<Rightarrow> mem \<Rightarrow> bool" where
  "mapped pgdir v k pa perm m m' \<longleftrightarrow> (\<forall>n < 1048576. pte m' pgdir n =
     (if v \<le> n \<and> n < v + k then pa + of_nat (4096 * (n - v)) OR perm OR PTE_P else pte m pgdir n))"

lemma vpn_next: "page_aligned a \<Longrightarrow> vpn a + 1 < 1048576 \<Longrightarrow> vpn (a + PGSIZE) = vpn a + 1 \<and> page_aligned (a + PGSIZE)"
proof -
  assume "page_aligned a" and v: "vpn a + 1 < 1048576"
  then have "unat (a + 4096) = unat a + 4096"
    using unat_u32_lt [of a] by (intro unat_add_lem [THEN iffD1, of a 4096, simplified]) (simp add: vpn_def)
  then show ?thesis using \<open>page_aligned a\<close> by (simp add: vpn_def page_aligned_def PGSIZE_def)
qed

lemma mapped_step:
  assumes "mapped pgdir (v + 1) k (pa + PGSIZE) perm m1 m2" and "\<forall>n < 1048576. pte m1 pgdir n = (if n = v then pa OR perm OR PTE_P else pte m pgdir n)"
    and "v < 1048576"
  shows "mapped pgdir v (Suc k) pa perm m m2"
  unfolding mapped_def
proof (intro allI impI)
  fix n :: nat assume n: "n < 1048576"
  consider "n < v" | "n = v" | "v < n" by linarith
  then show "pte m2 pgdir n = (if v \<le> n \<and> n < v + Suc k then pa + of_nat (4096 * (n - v)) OR perm OR PTE_P else pte m pgdir n)"
  proof cases
    case 3
    then obtain j where j: "n = v + Suc j" using less_iff_Suc_add by auto
    have "pa + 4096 + of_nat (4096 * j) = pa + of_nat (4096 * Suc j)" by (simp add: algebra_simps)
    then show ?thesis using assms(1,2) n j unfolding mapped_def by (simp add: PGSIZE_def add.assoc)
  qed (use assms n in \<open>simp_all add: mapped_def\<close>)
qed

lemma page_offset_nonzero:
  assumes "page_aligned t" and "t \<noteq> 0" and "k < 4096"
  shows "t + of_nat k \<noteq> (0 :: u32)"
proof
  assume z: "t + of_nat k = 0"
  have "page_aligned 0" by (simp add: page_aligned_def)
  then have "k mod 4096 = 0" using dist_same_page [OF assms(3), of t] dist_aligned [of 0 t] assms(1) z by simp
  then show False using z assms by simp
qed

text \<open>One turn of the loop: the entry is set and nothing else, or there was no page for a table.\<close>

lemma mappages_turn:
  fixes s :: "'a kstate_scheme"
  assumes wf: "vm_wf ps pgdir s" and free: "pte (k_mem s) pgdir (vpn a) AND PTE_P = 0"
  shows "(ps = [] \<and> (\<forall>n. mappages_loop (Suc n) pgdir a lst pa perm s = Ok (-1) s)) \<or>
    (\<exists>ps' s' :: 'a kstate_scheme. vm_ext pgdir ps s ps' s'
       \<and> (\<forall>n < 1048576. pte (k_mem s') pgdir n = (if n = vpn a then pa OR perm OR PTE_P else pte (k_mem s) pgdir n))
       \<and> (\<forall>n. mappages_loop (Suc n) pgdir a lst pa perm s = (if a = lst then Ok 0 s'
             else mappages_loop n pgdir (a + PGSIZE) lst (pa + PGSIZE) perm s')))"
  using walkpgdir_alloc [OF wf, of a]
proof (elim disjE exE conjE)
  assume "ps = []" and "walkpgdir pgdir a True s = Ok 0 s"
  then show ?thesis by (simp add: bindM_run)
next
  fix t :: u32 and ps' and s' :: "'a kstate_scheme"
  let ?e = "t + of_nat (4 * (vpn a mod 1024))"
  assume w: "walkpgdir pgdir a True s = Ok ?e s'" and ext: "vm_ext pgdir ps s ps' s'"
    and t: "pgtab (k_mem s') pgdir (vpn a div 1024) = Some t" and same: "\<forall>n < 1048576. pte (k_mem s') pgdir n = pte (k_mem s) pgdir n"
  have wf': "vm_wf ps' pgdir s'" using ext by (simp add: vm_ext_def)
  have "vpn a div 1024 < 1024" using vpn_lt [of a] by (simp add: less_mult_imp_div_less)
  then have "page_aligned t" "t \<noteq> 0" using wf' t by (auto simp: vm_wf_def)
  then have e: "?e \<noteq> 0" by (intro page_offset_nonzero) auto
  have "load32 (k_mem s') ?e = pte (k_mem s) pgdir (vpn a)" using same [rule_format, OF vpn_lt, of a] t by (simp add: pte_def)
  then have "load32 (k_mem s') ?e AND PTE_P = 0" using free by simp
  then have "\<forall>n. mappages_loop (Suc n) pgdir a lst pa perm s = (if a = lst then Ok 0 (set_pte t (vpn a) (pa OR perm OR PTE_P) pgdir s')
       else mappages_loop n pgdir (a + PGSIZE) lst (pa + PGSIZE) perm (set_pte t (vpn a) (pa OR perm OR PTE_P) pgdir s'))"
    using w e by (simp add: bindM_run thenM_run peek_def poke_def set_pte_def)
  moreover note set_pte_effect [OF wf' t vpn_lt, where w = "pa OR perm OR PTE_P"]
  ultimately show ?thesis
    using same vm_ext_trans [OF ext]
    by (intro disjI2 exI [of _ ps'] exI [of _ "set_pte t (vpn a) (pa OR perm OR PTE_P) pgdir s'"] conjI) simp_all
qed

lemma mappages_loop_maps:
  fixes s :: "'a kstate_scheme"
  assumes "vm_wf ps pgdir s" and "page_aligned a" and "vpn a + n < 1048576"
    and "\<forall>i \<le> n. pte (k_mem s) pgdir (vpn a + i) AND PTE_P = 0"
  shows "\<exists>r k ps' (s' :: 'a kstate_scheme). mappages_loop (Suc n) pgdir a (a + of_nat (4096 * n)) pa perm s = Ok r s'
    \<and> vm_ext pgdir ps s ps' s' \<and> mapped pgdir (vpn a) k pa perm (k_mem s) (k_mem s')
    \<and> (r = 0 \<and> k = Suc n \<or> r = -1 \<and> k \<le> n \<and> ps' = [])"
  using assms
proof (induction n arbitrary: s ps a pa)
  case (0 s ps a pa)
  have none: "mapped pgdir (vpn a) 0 pa perm (k_mem s) (k_mem s)" by (auto simp: mapped_def)
  have one: "mapped pgdir (vpn a) 1 pa perm (k_mem s) m'"
    if "\<forall>n < 1048576. pte m' pgdir n = (if n = vpn a then pa OR perm OR PTE_P else pte (k_mem s) pgdir n)" for m'
    using that by (auto simp: mapped_def less_Suc_eq)
  from mappages_turn [OF 0(1), of a "a + of_nat (4096 * 0)" pa perm] 0(4) show ?case
    using none one vm_ext_refl [OF 0(1)] by fastforce
next
  case (Suc n s ps a pa)
  have none: "mapped pgdir (vpn a) 0 pa perm (k_mem s) (k_mem s)" by (auto simp: mapped_def)
  have nx: "vpn (a + PGSIZE) = vpn a + 1" "page_aligned (a + PGSIZE)" using vpn_next [OF Suc.prems(2)] Suc.prems(3) by simp_all
  have lst: "a + of_nat (4096 * Suc n) = a + PGSIZE + of_nat (4096 * n)" by (simp add: PGSIZE_def algebra_simps)
  have "unat (of_nat (4096 * Suc n) :: u32) = 4096 * Suc n" using Suc.prems(3) by (intro unat_of_nat_u32) simp
  then have "of_nat (4096 * Suc n) \<noteq> (0 :: u32)" by (metis mult_eq_0_iff nat.distinct(1) unat_0 zero_neq_numeral)
  then have ne: "a \<noteq> a + of_nat (4096 * Suc n)" by simp
  have "pte (k_mem s) pgdir (vpn a) AND PTE_P = 0" using Suc.prems(4) [rule_format, of 0] by simp
  from mappages_turn [OF Suc.prems(1) this, of "a + of_nat (4096 * Suc n)" pa perm]
  consider "ps = []" "mappages_loop (Suc (Suc n)) pgdir a (a + of_nat (4096 * Suc n)) pa perm s = Ok (-1) s"
    | ps1 and s1 :: "'a kstate_scheme" where "vm_ext pgdir ps s ps1 s1"
        "\<forall>n < 1048576. pte (k_mem s1) pgdir n = (if n = vpn a then pa OR perm OR PTE_P else pte (k_mem s) pgdir n)"
        "mappages_loop (Suc (Suc n)) pgdir a (a + of_nat (4096 * Suc n)) pa perm s
           = mappages_loop (Suc n) pgdir (a + PGSIZE) (a + PGSIZE + of_nat (4096 * n)) (pa + PGSIZE) perm s1"
    using ne unfolding lst by (metis (no_types, lifting))
  then show ?case
  proof cases
    case 1
    then show ?thesis using none vm_ext_refl [OF Suc.prems(1)] by blast
  next
    case 2
    have "pte (k_mem s1) pgdir (vpn (a + PGSIZE) + i) AND PTE_P = 0" if "i \<le> n" for i
      using 2(2) Suc.prems(3) Suc.prems(4) [rule_format, of "Suc i"] that nx(1) by simp
    then obtain r k ps' and s' :: "'a kstate_scheme" where
      l: "mappages_loop (Suc n) pgdir (a + PGSIZE) (a + PGSIZE + of_nat (4096 * n)) (pa + PGSIZE) perm s1 = Ok r s'"
      and e: "vm_ext pgdir ps1 s1 ps' s'" and m: "mapped pgdir (vpn a + 1) k (pa + PGSIZE) perm (k_mem s1) (k_mem s')"
      and r: "r = 0 \<and> k = Suc n \<or> r = -1 \<and> k \<le> n \<and> ps' = []"
      using Suc.IH [of ps1 s1 "a + PGSIZE" "pa + PGSIZE"] 2(1) nx Suc.prems(3) unfolding vm_ext_def by auto
    have "mapped pgdir (vpn a) (Suc k) pa perm (k_mem s) (k_mem s')" by (rule mapped_step [OF m 2(2) vpn_lt])
    then show ?thesis using 2(3) l r vm_ext_trans [OF 2(1) e] by (intro exI [of _ r] exI [of _ "Suc k"] exI conjI) auto
  qed
qed

lemma page_parts: "x = of_nat (4096 * vpn x) + (x AND 0xFFF)" "PGROUNDDOWN x = of_nat (4096 * vpn x)"
proof -
  have "of_nat (4096 * vpn x) = x AND NOT 0xFFF" by (simp add: vpn_def unat_and_not_fff [symmetric] del: of_nat_mult)
  moreover have "x = (x AND NOT 0xFFF) + (x AND 0xFFF)"
  proof -
    have m: "(0xFFF :: u32) = mask 12" by (simp add: mask_eq_exp_minus_1)
    have "x = (x AND NOT (mask 12)) OR (x AND mask 12)" by (rule bit_word_eqI) (auto simp: bit_simps)
    also have "\<dots> = (x AND NOT (mask 12)) + (x AND mask 12)"
      by (rule disjunctive_add [symmetric]) (auto simp: bit_simps)
    finally show ?thesis unfolding m .
  qed
  ultimately show "x = of_nat (4096 * vpn x) + (x AND 0xFFF)" "PGROUNDDOWN x = of_nat (4096 * vpn x)"
    by (simp_all add: PGROUNDDOWN_def PGSIZE_def)
qed

lemma page_aligned_add: "page_aligned a \<Longrightarrow> page_aligned (a + of_nat (4096 * k))"
proof -
  assume "page_aligned a"
  then have "4096 dvd unat a + 4096 * k" by (auto simp: page_aligned_def mod_eq_0_iff_dvd)
  moreover have "unat (a + of_nat (4096 * k)) = (unat a + 4096 * k) mod 2 ^ 32"
    by (simp add: unat_word_ariths unat_of_nat mod_add_right_eq del: of_nat_mult)
  moreover have "(4096 :: nat) dvd 2 ^ 32" by simp
  ultimately show ?thesis by (simp only: page_aligned_def mod_eq_0_iff_dvd dvd_mod)
qed

lemma mapped_translate:
  assumes "mapped pgdir v k pa perm m m'" and "page_aligned pa" and "perm AND NOT 0xFFF = 0"
  shows "v \<le> vpn x \<Longrightarrow> vpn x < v + k \<Longrightarrow> translate m' pgdir x = Some (P2V pa + (x - of_nat (4096 * v)))"
    and "\<not> (v \<le> vpn x \<and> vpn x < v + k) \<Longrightarrow> translate m' pgdir x = translate m pgdir x"
proof -
  let ?a = "pa + of_nat (4096 * (vpn x - v))"
  assume x: "v \<le> vpn x" "vpn x < v + k"
  then have e: "pte m' pgdir (vpn x) = ?a OR (perm OR PTE_P)" using assms(1) vpn_lt [of x] by (simp add: mapped_def or.assoc)
  have "page_aligned ?a" by (rule page_aligned_add [OF assms(2)])
  moreover have "(perm OR PTE_P) AND NOT 0xFFF = 0"
    using assms(3) by (simp add: bit.conj_disj_distrib2 PTE_P_def)
  ultimately have "PTE_ADDR (pte m' pgdir (vpn x)) = ?a" unfolding e by (rule PTE_ADDR_flags)
  moreover have "bit (pte m' pgdir (vpn x) AND PTE_P) 0" unfolding e by (simp add: PTE_P_def bit_simps)
  then have "pte m' pgdir (vpn x) AND PTE_P \<noteq> 0" by (metis bit_0_eq bot_apply bot_bool_def)
  moreover have "of_nat (4096 * (vpn x - v)) + (x AND 0xFFF) = x - of_nat (4096 * v)"
    using x(1) page_parts(1) [of x] by (simp add: of_nat_diff right_diff_distrib)
  ultimately show "translate m' pgdir x = Some (P2V pa + (x - of_nat (4096 * v)))"
    by (simp add: translate_pte P2V_def add.assoc)
next
  assume "\<not> (v \<le> vpn x \<and> vpn x < v + k)"
  then have "pte m' pgdir (vpn x) = pte m pgdir (vpn x)"
    using assms(1) [unfolded mapped_def, rule_format, OF vpn_lt, of x] by (simp only: if_False)
  then show "translate m' pgdir x = translate m pgdir x" by (simp add: translate_pte)
qed

lemma unat_last:
  assumes "sz \<noteq> 0" and "unat va + unat sz \<le> 2 ^ 32"
  shows "unat (va + sz - 1 :: u32) = unat va + unat sz - 1"
proof -
  have sz: "1 \<le> unat sz" using assms(1) by (simp add: Suc_le_eq unat_gt_0)
  have "va + sz - 1 = of_nat (unat va + unat sz - 1)" using sz by (simp add: of_nat_diff)
  then show ?thesis using sz assms(2) unat_of_nat_u32 [of "unat va + unat sz - 1"] by simp
qed

lemma page_in_range:
  assumes "unat l = unat va + k" and "vpn l = vpn va + n" and "i \<le> n"
  shows "\<exists>x. va \<le> x \<and> x \<le> l \<and> vpn x = vpn va + i"
proof (cases "i = 0")
  case True
  then show ?thesis using assms(1) by (intro exI [of _ va]) (simp add: word_le_nat_alt)
next
  case False
  let ?x = "of_nat (4096 * (vpn va + i)) :: u32"
  have "4096 * (vpn va + i) \<le> 4096 * vpn l" using assms(2,3) by simp
  then have le: "4096 * (vpn va + i) \<le> unat l" unfolding vpn_def [of l] using div_times_less_eq_dividend [of "unat l" 4096] by linarith
  then have x: "unat ?x = 4096 * (vpn va + i)" using unat_u32_lt [of l] by (intro unat_of_nat_u32) simp
  moreover have "unat va \<le> 4096 * (vpn va + i)" using False mult_div_mod_eq [of 4096 "unat va"] mod_less_divisor [of 4096 "unat va"] unfolding vpn_def by (simp add: distrib_left)
  ultimately show ?thesis using le x by (intro exI [of _ ?x]) (simp add: word_le_nat_alt vpn_def [of ?x] del: of_nat_mult of_nat_add distrib_left distrib_left_numeral)
qed

text \<open>A call of \<open>mappages\<close> on the level of the entries.\<close>

lemma mappages_mapped:
  assumes "vm_wf ps pgdir s" and "sz \<noteq> 0" and "unat va + unat sz \<le> 2 ^ 32"
    and free: "\<And>i. vpn va \<le> i \<Longrightarrow> i \<le> vpn (va + sz - 1) \<Longrightarrow> pte (k_mem s) pgdir i AND PTE_P = 0"
  shows "\<exists>r k ps' s'. mappages pgdir va sz pa perm s = Ok r s' \<and> vm_ext pgdir ps s ps' s'
    \<and> mapped pgdir (vpn va) k pa perm (k_mem s) (k_mem s')
    \<and> vpn va \<le> vpn (va + sz - 1)
    \<and> (r = 0 \<and> k = Suc (vpn (va + sz - 1) - vpn va) \<or> r = -1 \<and> k \<le> vpn (va + sz - 1) - vpn va \<and> ps' = [])"
proof -
  let ?lst = "va + sz - 1"
  define n where "n = vpn ?lst - vpn va"
  have sz: "1 \<le> unat sz" using assms(2) by (simp add: Suc_le_eq unat_gt_0)
  have u: "unat ?lst = unat va + unat sz - 1" by (rule unat_last [OF assms(2,3)])
  then have le: "vpn va \<le> vpn ?lst" using sz by (simp add: vpn_def div_le_mono)
  have n: "vpn ?lst = vpn va + n" using le by (simp add: n_def)
  have a: "page_aligned (PGROUNDDOWN va)" "vpn (PGROUNDDOWN va) = vpn va"
    by (simp_all add: vpn_def unat_PGROUNDDOWN)
  have l: "PGROUNDDOWN ?lst = PGROUNDDOWN va + of_nat (4096 * n)" unfolding page_parts(2) n by (simp add: algebra_simps)
  have lt: "vpn va + n < 1048576" using n vpn_lt [of ?lst] by simp
  then have "dist (PGROUNDDOWN ?lst) (PGROUNDDOWN va) div 4096 = n"
    unfolding l by (simp add: dist_def unat_of_nat_u32 del: of_nat_mult)
  then have call: "mappages pgdir va sz pa perm s = mappages_loop (Suc n) pgdir (PGROUNDDOWN va) (PGROUNDDOWN va + of_nat (4096 * n)) pa perm s"
    unfolding mappages_def Let_def l by (simp only:)
  have "\<forall>i \<le> n. pte (k_mem s) pgdir (vpn (PGROUNDDOWN va) + i) AND PTE_P = 0" using free a(2) n by simp
  from mappages_loop_maps [OF assms(1) a(1) _ this, of pa perm] show ?thesis
    using lt a(2) le unfolding call n_def [symmetric] by auto
qed

text \<open>
  A call of \<open>mappages\<close> for a range of unmapped addresses in a well-formed directory returns. Either it returns 0 and the
  hardware then finds address \<open>x\<close> of every page the range touches at the same distance into the physical memory at \<open>pa\<close>, or it
  returns -1 and no page is free any more. In both cases addresses on other pages translate as before, the directory stays well
  formed, only free pages are used for tables, and every page that is not part of the page table keeps its contents.
\<close>

theorem mappages_maps:
  assumes "vm_wf ps pgdir s" and "sz \<noteq> 0" and "unat va + unat sz \<le> 2 ^ 32" and "page_aligned pa" and "perm AND NOT 0xFFF = 0"
    and "\<forall>x. va \<le> x \<and> x \<le> va + sz - 1 \<longrightarrow> translate (k_mem s) pgdir x = None"
  shows "\<exists>r ps' s'. mappages pgdir va sz pa perm s = Ok r s' \<and> vm_ext pgdir ps s ps' s'
    \<and> (r = 0 \<and> (\<forall>x. vpn va \<le> vpn x \<and> vpn x \<le> vpn (va + sz - 1) \<longrightarrow> translate (k_mem s') pgdir x = Some (P2V pa + (x - PGROUNDDOWN va)))
       \<or> r = -1 \<and> ps' = [])
    \<and> (\<forall>x. \<not> (vpn va \<le> vpn x \<and> vpn x \<le> vpn (va + sz - 1)) \<longrightarrow> translate (k_mem s') pgdir x = translate (k_mem s) pgdir x)"
proof -
  let ?l = "vpn (va + sz - 1)"
  have free: "pte (k_mem s) pgdir i AND PTE_P = 0" if i: "vpn va \<le> i" "i \<le> ?l" for i
  proof -
    have "unat (va + sz - 1) = unat va + (unat sz - 1)" using unat_last [OF assms(2,3)] assms(2) by (simp add: Suc_le_eq unat_gt_0)
    then have "\<exists>x\<ge>va. x \<le> va + sz - 1 \<and> vpn x = vpn va + (i - vpn va)" using i by (intro page_in_range [where n = "?l - vpn va"]) auto
    then obtain x where "va \<le> x" "x \<le> va + sz - 1" "vpn x = i" using i by auto
    then show ?thesis using assms(6) by (auto simp: translate_pte Let_def split: if_split_asm)
  qed
  obtain r k ps' s' where m: "mappages pgdir va sz pa perm s = Ok r s'" "vm_ext pgdir ps s ps' s'"
      "mapped pgdir (vpn va) k pa perm (k_mem s) (k_mem s')" "vpn va \<le> ?l"
      "r = 0 \<and> k = Suc (?l - vpn va) \<or> r = -1 \<and> k \<le> ?l - vpn va \<and> ps' = []"
    using mappages_mapped [OF assms(1-3) free, of pa perm] by blast
  have "translate (k_mem s') pgdir x = Some (P2V pa + (x - PGROUNDDOWN va))" if "r = 0" "vpn va \<le> vpn x" "vpn x \<le> ?l" for x
    using mapped_translate(1) [OF m(3) assms(4,5), of x] that m(4,5) by (simp add: page_parts(2))
  moreover have "translate (k_mem s') pgdir x = translate (k_mem s) pgdir x" if "\<not> (vpn va \<le> vpn x \<and> vpn x \<le> ?l)" for x
    using mapped_translate(2) [OF m(3) assms(4,5), of x] that m(4,5) by auto
  ultimately show ?thesis using m(1,2,5) by (intro exI conjI) (assumption | blast)+
qed

section \<open>An example\<close>

text \<open>After boot one page has been freed; another page serves as a directory.\<close>

definition demo_vm :: kstate where
  "demo_vm = freed (KERNBASE + 0x300000) kboot"

lemma demo_vm_map:
  assumes "page_aligned d" and "d \<noteq> KERNBASE + 0x300000"
  shows demo_vm_wf: "vm_wf [KERNBASE + 0x300000] d demo_vm"
    and demo_vm_none: "i < 1024 \<Longrightarrow> pgtab (k_mem demo_vm) d i = None"
    and demo_vm_empty: "n < 1048576 \<Longrightarrow> pte (k_mem demo_vm) d n = 0"
proof -
  let ?v = "KERNBASE + 0x300000"
  have v: "free_page (k_end kboot) ?v" by (simp add: free_page_def kboot_def KERNBASE_def PHYSTOP_def PGSIZE_def V2P_def)
  have p: "page_aligned ?v" by (simp add: page_aligned_def KERNBASE_def)
  have "load32 (k_mem demo_vm) (d + of_nat (4 * i)) = load32 (memset ?v 1 PGSIZE (k_mem kboot)) (d + of_nat (4 * i))" if "i < 1024" for i
    using that load32_store32_page [OF assms(1) p assms(2), of "4 * i" 0] by (simp add: demo_vm_def freed_def)
  moreover have "load32 (memset ?v 1 PGSIZE (k_mem kboot)) (d + of_nat (4 * i)) = load32 (k_mem kboot) (d + of_nat (4 * i))" if "i < 1024" for i
    using that by (intro load32_memset_page [OF assms(1) p assms(2)]) simp
  moreover have "load32 (k_mem kboot) x = 0" for x by (simp add: load32_def le32_def kboot_def)
  ultimately have z: "load32 (k_mem demo_vm) (d + of_nat (4 * i)) = 0" if "i < 1024" for i using that by (simp del: of_nat_mult)
  then show none: "pgtab (k_mem demo_vm) d i = None" if "i < 1024" for i using that by (simp add: pgtab_def del: of_nat_mult)
  have "kmem_wf [?v] demo_vm" unfolding demo_vm_def by (rule kmem_wf_freed [OF kboot_wf v]) simp
  then show "vm_wf [?v] d demo_vm" using assms none by (simp add: vm_wf_def)
  show "n < 1048576 \<Longrightarrow> pte (k_mem demo_vm) d n = 0" using none [of "n div 1024"] by (simp add: pte_def less_mult_imp_div_less)
qed

theorem mappages_maps_witness:
  "\<exists>s'. mappages (KERNBASE + 0x200000) 0x1000 0x1000 0x5000 (PTE_W OR PTE_U) demo_vm = Ok 0 s'
     \<and> translate (k_mem s') (KERNBASE + 0x200000) 0x1234 = Some (P2V 0x5234) \<and> translate (k_mem s') (KERNBASE + 0x200000) 0x2000 = None"
proof -
  let ?d = "KERNBASE + 0x200000" and ?perm = "PTE_W OR PTE_U"
  have d: "page_aligned ?d" "?d \<noteq> KERNBASE + 0x300000" by (simp_all add: page_aligned_def KERNBASE_def)
  note demo_wf = demo_vm_wf [OF d] and demo_empty = demo_vm_empty [OF d]
  have t: "translate (k_mem demo_vm) ?d x = None" for x using demo_empty [OF vpn_lt] by (simp add: translate_pte)
  have p: "page_aligned 0x5000" "?perm AND NOT 0xFFF = 0" by (simp_all add: page_aligned_def PTE_W_def PTE_U_def)
  have v: "vpn 0x1000 = 1" "vpn 0x1FFF = 1" "vpn 0x1234 = 1" "vpn 0x2000 = 2" by (simp_all add: vpn_def)
  have "mappages ?d 0x1000 0x1000 0x5000 ?perm demo_vm = mappages_loop 1 ?d 0x1000 0x1000 0x5000 ?perm demo_vm"
    by (simp add: mappages_def PGROUNDDOWN_def PGSIZE_def)
  moreover have "pte (k_mem demo_vm) ?d (vpn 0x1000) AND PTE_P = 0" using demo_empty [OF vpn_lt] by simp
  note mappages_turn [OF demo_wf this, of "0x1000" "0x5000" ?perm]
  ultimately obtain s' where m: "mappages ?d 0x1000 0x1000 0x5000 ?perm demo_vm = Ok 0 s'" by fastforce
  from mappages_maps [OF demo_wf, of "0x1000" "0x1000" "0x5000" ?perm] p t
  have "(\<forall>x. 1 \<le> vpn x \<and> vpn x \<le> 1 \<longrightarrow> translate (k_mem s') ?d x = Some (P2V 0x5000 + (x - PGROUNDDOWN 0x1000)))
     \<and> (\<forall>x. \<not> (1 \<le> vpn x \<and> vpn x \<le> 1) \<longrightarrow> translate (k_mem s') ?d x = translate (k_mem demo_vm) ?d x)"
    by (simp add: m v)
  then have "translate (k_mem s') ?d 0x1234 = Some (P2V 0x5000 + (0x1234 - PGROUNDDOWN 0x1000))" "translate (k_mem s') ?d 0x2000 = None"
    using v t by (simp_all del: One_nat_def)
  then show ?thesis using m by (simp add: P2V_def PGROUNDDOWN_def PGSIZE_def KERNBASE_def)
qed

end
