(* ===== verification/Reclaim.thy ===== *)
theory Reclaim
  imports Vm_Spec
begin

text \<open>
  Giving memory back: \<open>freevm\<close> returns every page of an address space to the allocator, its user pages, its page tables and the
  directory, each exactly once; so does \<open>wait\<close> with the pages of a child that has exited.
\<close>

section \<open>Address spaces\<close>

definition present :: "mem \<Rightarrow> u32 \<Rightarrow> nat \<Rightarrow> bool" where
  "present m pgdir n \<longleftrightarrow> pte m pgdir n AND PTE_P \<noteq> 0"

definition page_at :: "mem \<Rightarrow> u32 \<Rightarrow> nat \<Rightarrow> u32" where
  "page_at m pgdir n = P2V (PTE_ADDR (pte m pgdir n))"

definition user_pages :: "nat \<Rightarrow> mem \<Rightarrow> u32 \<Rightarrow> u32 set" where
  "user_pages lo m pgdir = {page_at m pgdir n | n. lo \<le> n \<and> n < 524288 \<and> present m pgdir n}"

text \<open>The user pages from page number \<open>lo\<close> on are different pages of the allocator that serve no other purpose.\<close>

definition user_wf :: "nat \<Rightarrow> u32 list \<Rightarrow> u32 \<Rightarrow> 'z kstate_scheme \<Rightarrow> bool" where
  "user_wf lo ps pgdir s \<longleftrightarrow> vm_wf ps pgdir s \<and> KERNBASE < k_end s
     \<and> (\<forall>q\<in>user_pages lo (k_mem s) pgdir. free_page (k_end s) q \<and> vm_data ps pgdir (k_mem s) q)
     \<and> inj_on (page_at (k_mem s) pgdir) {n. lo \<le> n \<and> n < 524288 \<and> present (k_mem s) pgdir n}"

text \<open>A whole address space.\<close>

definition space_wf :: "u32 list \<Rightarrow> u32 \<Rightarrow> 'z kstate_scheme \<Rightarrow> bool" where
  "space_wf ps pgdir s \<longleftrightarrow> user_wf 0 ps pgdir s \<and> (\<forall>q\<in>insert pgdir (table_pages (k_mem s) pgdir). free_page (k_end s) q)"

definition space_pages :: "mem \<Rightarrow> u32 \<Rightarrow> u32 set" where
  "space_pages m pgdir = insert pgdir (user_pages 0 m pgdir \<union> table_pages m pgdir)"

section \<open>Freeing a page\<close>

lemma freed_other:
  assumes "page_aligned q" and "page_aligned v" and "q \<noteq> v" and "i < 4096"
  shows "k_mem (freed v s) (q + of_nat i) = k_mem s (q + of_nat i)"
  using store32_other_page [OF assms(1-3), of i 0] memset_other_page [OF assms] assms(4) by (simp add: freed_def)

lemma load32_freed:
  assumes "page_aligned q" and "page_aligned v" and "q \<noteq> v" and "i < 1024"
  shows "load32 (k_mem (freed v s)) (q + of_nat (4 * i)) = load32 (k_mem s) (q + of_nat (4 * i))"
proof (rule load32_cong)
  fix k :: nat assume "k < 4"
  then have "k_mem (freed v s) (q + of_nat (4 * i + k)) = k_mem s (q + of_nat (4 * i + k))"
    using assms by (intro freed_other) auto
  then show "k_mem (freed v s) (q + of_nat (4 * i) + of_nat k) = k_mem s (q + of_nat (4 * i) + of_nat k)"
    by (simp only: of_nat_add add.assoc)
qed

lemma freed_same_map:
  assumes wf: "vm_wf ps pgdir s" and v: "vm_data ps pgdir (k_mem s) v" "free_page (k_end s) v"
  shows "d < 1024 \<Longrightarrow> pgtab (k_mem (freed v s)) pgdir d = pgtab (k_mem s) pgdir d"
    and "n < 1048576 \<Longrightarrow> pte (k_mem (freed v s)) pgdir n = pte (k_mem s) pgdir n"
    and "vm_wf (v # ps) pgdir (freed v s)"
proof -
  have a: "page_aligned v" "page_aligned pgdir" "pgdir \<noteq> v" "v \<notin> set ps" using wf v by (auto simp: vm_wf_def vm_data_def)
  show tab: "pgtab (k_mem (freed v s)) pgdir d = pgtab (k_mem s) pgdir d" if "d < 1024" for d
    using load32_freed [OF a(2,1,3) that, of s] by (simp add: pgtab_def)
  show "pte (k_mem (freed v s)) pgdir n = pte (k_mem s) pgdir n" if "n < 1048576"
  proof -
    have d: "n div 1024 < 1024" using that by (simp add: less_mult_imp_div_less)
    have "page_aligned t" "t \<noteq> v" if "pgtab (k_mem s) pgdir (n div 1024) = Some t" for t
      using that d wf v(1) by (auto simp: vm_wf_def vm_data_def)
    then show ?thesis using tab [OF d] load32_freed [where s = s, OF _ a(1)] by (auto simp: pte_def split: option.split)
  qed
  have "kmem_wf (v # ps) (freed v s)" using wf v a(4) by (intro kmem_wf_freed) (auto simp: vm_wf_def)
  then show "vm_wf (v # ps) pgdir (freed v s)" using wf v(1) a unfolding vm_wf_def by (auto simp: tab vm_data_def)
qed

lemma freed_state: "freed v s = s\<lparr>k_freelist := v, k_mem := k_mem (freed v s)\<rparr>"
  by (simp add: freed_def)

text \<open>Every page outside a set keeps its contents.\<close>

definition same_outside :: "u32 set \<Rightarrow> mem \<Rightarrow> mem \<Rightarrow> bool" where
  "same_outside X m m' \<longleftrightarrow> (\<forall>q i. page_aligned q \<longrightarrow> q \<notin> X \<longrightarrow> i < 4096 \<longrightarrow> m' (q + of_nat i) = m (q + of_nat i))"

lemma same_outside_refl [simp]: "same_outside X m m"
  by (simp add: same_outside_def)

lemma same_outside_trans: "same_outside X m m' \<Longrightarrow> same_outside Y m' m'' \<Longrightarrow> X \<subseteq> Z \<Longrightarrow> Y \<subseteq> Z \<Longrightarrow> same_outside Z m m''"
  unfolding same_outside_def by (metis subsetD)

lemma same_outside_freed:
  "same_outside X m (k_mem u) \<Longrightarrow> page_aligned v \<Longrightarrow> v \<in> X \<Longrightarrow> same_outside X m (k_mem (freed v u))"
  unfolding same_outside_def using freed_other [of _ v _ u] by metis

lemma same_outside_set_pte:
  assumes "page_aligned t" and "t \<in> X" and "same_outside X m (k_mem u)"
  shows "same_outside X m (k_mem (set_pte t n w pgdir u))"
proof -
  have "4 * (n mod 1024) + 4 \<le> 4096" using mod_less_divisor [of 1024 n] by linarith
  then show ?thesis
    using assms store32_other_page [of _ t _ "4 * (n mod 1024)" w "k_mem u"]
    by (simp add: same_outside_def set_pte_def del: of_nat_mult) metis
qed

section \<open>User pages\<close>

lemma user_pages_split:
  "n < 524288 \<Longrightarrow> user_pages n m pgdir = (if present m pgdir n then insert (page_at m pgdir n) (user_pages (Suc n) m pgdir) else user_pages (Suc n) m pgdir)"
proof -
  assume n: "n < 524288"
  have "n \<le> i \<longleftrightarrow> i = n \<or> Suc n \<le> i" for i by auto
  then have "user_pages n m pgdir = {page_at m pgdir i | i. i = n \<and> present m pgdir n} \<union> user_pages (Suc n) m pgdir"
    unfolding user_pages_def using n by auto
  then show ?thesis by auto
qed

lemma user_pages_same:
  "(\<And>i. lo \<le> i \<Longrightarrow> i < 524288 \<Longrightarrow> pte m' pgdir i = pte m pgdir i) \<Longrightarrow> user_pages lo m' pgdir = user_pages lo m pgdir"
  unfolding user_pages_def present_def page_at_def by (auto; metis)

text \<open>One user page is freed and its entry cleared.\<close>

lemma drop_page:
  assumes u: "user_wf n ps pgdir s" and n: "n < 524288" and p: "present (k_mem s) pgdir n"
    and t: "pgtab (k_mem s) pgdir (n div 1024) = Some t"
  defines "v \<equiv> page_at (k_mem s) pgdir n"
  defines "s' \<equiv> set_pte t n 0 pgdir (freed v s)"
  shows "user_wf (Suc n) (v # ps) pgdir s'" and "user_pages (Suc n) (k_mem s') pgdir = user_pages (Suc n) (k_mem s) pgdir"
    and "d < 1024 \<Longrightarrow> pgtab (k_mem s') pgdir d = pgtab (k_mem s) pgdir d" and "kfree v s = Ok () (freed v s)"
    and "v \<noteq> KERNBASE" and "page_aligned v"
proof -
  have wf: "vm_wf ps pgdir s" using u by (simp add: user_wf_def)
  have "v \<in> user_pages n (k_mem s) pgdir" using n p by (auto simp: v_def user_pages_def)
  then have v: "free_page (k_end s) v" "vm_data ps pgdir (k_mem s) v" using u by (auto simp: user_wf_def)
  note F = freed_same_map [OF wf v(2,1)]
  have d: "n div 1024 < 1024" using n by (simp add: less_mult_imp_div_less)
  have t': "pgtab (k_mem (freed v s)) pgdir (n div 1024) = Some t" using F(1) [OF d] t by simp
  have n': "n < 1048576" using n by simp
  note S = set_pte_effect [OF F(3) t' n', where w = 0, folded s'_def]
  show tab: "pgtab (k_mem s') pgdir d = pgtab (k_mem s) pgdir d" if "d < 1024" for d using S(3) F(1) that by simp
  have pt: "pte (k_mem s') pgdir i = pte (k_mem s) pgdir i" if "Suc n \<le> i" "i < 524288" for i
    using S(2) [of i] F(2) [of i] that by simp
  then show up: "user_pages (Suc n) (k_mem s') pgdir = user_pages (Suc n) (k_mem s) pgdir" by (rule user_pages_same)
  have ke: "k_end s' = k_end s" by (simp add: s'_def set_pte_def freed_def)
  have "q \<noteq> v" if q: "q \<in> user_pages (Suc n) (k_mem s) pgdir" for q
  proof
    assume "q = v"
    then obtain i where "q = page_at (k_mem s) pgdir i" "Suc n \<le> i" "i < 524288" "present (k_mem s) pgdir i"
      using q by (auto simp: user_pages_def)
    then show False using u n p \<open>q = v\<close> by (auto simp: user_wf_def v_def dest: inj_onD)
  qed
  moreover have "user_pages (Suc n) (k_mem s) pgdir \<subseteq> user_pages n (k_mem s) pgdir" using user_pages_split [OF n] by auto
  ultimately have "free_page (k_end s') q \<and> vm_data (v # ps) pgdir (k_mem s') q" if "q \<in> user_pages (Suc n) (k_mem s') pgdir" for q
    using that u unfolding up by (auto simp: user_wf_def vm_data_def tab ke)
  moreover have "vm_wf (v # ps) pgdir s'" using S(1) by (simp add: vm_ext_def)
  moreover have "inj_on (page_at (k_mem s') pgdir) {i. Suc n \<le> i \<and> i < 524288 \<and> present (k_mem s') pgdir i}"
    using u pt by (auto simp: user_wf_def inj_on_def present_def page_at_def)
  ultimately show "user_wf (Suc n) (v # ps) pgdir s'" using u by (simp add: user_wf_def ke)
  show "kfree v s = Ok () (freed v s)" using wf v(1) kfree_run [of s v] by (simp add: vm_wf_def kmem_wf_def)
  show "page_aligned v" using v(1) by (rule free_page_aligned)
  show "v \<noteq> KERNBASE" using v(1) u by (auto simp: free_page_def user_wf_def)
qed

section \<open>deallocuvm and freevm\<close>

lemma div_block: "n \<le> i \<Longrightarrow> i < 1024 * (n div 1024 + 1) \<Longrightarrow> i div 1024 = n div (1024 :: nat)"
proof -
  assume "n \<le> i" "i < 1024 * (n div 1024 + 1)"
  then have "n div 1024 \<le> i div 1024" "i div 1024 < n div 1024 + 1"
    by (simp_all add: div_le_mono less_mult_imp_div_less mult.commute)
  then show ?thesis by simp
qed

lemma vpn_of_nat: "n < 1048576 \<Longrightarrow> vpn (of_nat (4096 * n)) = n"
  by (simp add: vpn_def unat_of_nat_u32 del: of_nat_mult)

lemma page_below: "n < 524288 \<Longrightarrow> (of_nat (4096 * n) :: u32) < KERNBASE"
  by (simp add: word_less_nat_alt unat_of_nat_u32 KERNBASE_def del: of_nat_mult)

lemma next_table: "n < 524288 \<Longrightarrow> PGADDR (PDX (of_nat (4096 * n)) + 1) 0 0 = of_nat (4096 * (1024 * (n div 1024 + 1)))"
proof -
  assume "n < 524288"
  then have "PDX (of_nat (4096 * n)) = of_nat (n div 1024)" using vpn_of_nat [of n] by (simp add: PDX_of_nat del: of_nat_mult)
  then show ?thesis by (simp add: PGADDR_def push_bit_eq_mult algebra_simps)
qed

lemma user_wf_mono: "user_wf lo ps pgdir s \<Longrightarrow> lo \<le> lo' \<Longrightarrow> user_wf lo' ps pgdir s"
proof -
  assume u: "user_wf lo ps pgdir s" and le: "lo \<le> lo'"
  have "user_pages lo' (k_mem s) pgdir \<subseteq> user_pages lo (k_mem s) pgdir" using le by (auto simp: user_pages_def)
  moreover have "{n. lo' \<le> n \<and> n < 524288 \<and> present (k_mem s) pgdir n} \<subseteq> {n. lo \<le> n \<and> n < 524288 \<and> present (k_mem s) pgdir n}"
    using le by auto
  ultimately show ?thesis using u unfolding user_wf_def by (blast intro: inj_on_subset)
qed

lemma user_pages_skip:
  assumes "lo \<le> lo'" and "\<And>i. lo \<le> i \<Longrightarrow> i < lo' \<Longrightarrow> \<not> present m pgdir i"
  shows "user_pages lo' m pgdir = user_pages lo m pgdir"
proof -
  have "lo \<le> i \<and> present m pgdir i \<longleftrightarrow> lo' \<le> i \<and> present m pgdir i" for i using assms(1) assms(2) [of i] by force
  then show ?thesis unfolding user_pages_def by metis
qed

lemma deallocuvm_loop_frees:
  fixes s :: "'a kstate_scheme"
  assumes "user_wf n ps pgdir s" and "n \<le> 524288" and "524288 - n < turns"
  shows "\<exists>ps' (s' :: 'a kstate_scheme). deallocuvm_loop turns pgdir (of_nat (4096 * n)) KERNBASE s = Ok () s' \<and> vm_wf ps' pgdir s'
    \<and> s' = s\<lparr>k_freelist := k_freelist s', k_mem := k_mem s'\<rparr> \<and> set ps' = set ps \<union> user_pages n (k_mem s) pgdir
    \<and> (\<forall>d < 1024. pgtab (k_mem s') pgdir d = pgtab (k_mem s) pgdir d)
    \<and> same_outside (user_pages n (k_mem s) pgdir \<union> table_pages (k_mem s) pgdir) (k_mem s) (k_mem s')"
  using assms
proof (induction turns arbitrary: n ps s)
  case (Suc turns n ps s)
  have wf: "vm_wf ps pgdir s" using Suc.prems(1) by (simp add: user_wf_def)
  show ?case
  proof (cases "n = 524288")
    case True
    then have "\<not> (of_nat (4096 * n) :: u32) < KERNBASE" "user_pages n (k_mem s) pgdir = {}" by (simp_all add: KERNBASE_def user_pages_def)
    then show ?thesis using wf by (simp add: deallocuvm_loop.simps [of "Suc turns"]) blast
  next
    case False
    then have n: "n < 524288" and n1: "n < 1048576" using Suc.prems(2) by simp_all
    let ?a = "of_nat (4096 * n) :: u32"
    have a: "?a < KERNBASE" "vpn ?a = n" using page_below [OF n] vpn_of_nat [OF n1] by (simp_all del: of_nat_mult)
    define b where "b = (of_nat (4096 * Suc n) :: u32)"
    have nx: "?a + PGSIZE = b" by (simp add: b_def PGSIZE_def algebra_simps)
    show ?thesis
    proof (cases "pgtab (k_mem s) pgdir (n div 1024)")
      case None
      define m where "m = 1024 * (n div 1024 + 1)"
      have "n div 1024 < 512" using n by (simp add: less_mult_imp_div_less)
      then have le: "n < m" "m \<le> 524288" using dividend_less_div_times [of 1024 n] by (simp_all add: m_def algebra_simps)
      have "\<not> present (k_mem s) pgdir i" if "n \<le> i" "i < m" for i
      proof -
        have "i div 1024 = n div 1024" using that by (intro div_block) (simp_all add: m_def)
        then show ?thesis using None by (simp add: present_def pte_def)
      qed
      then have up: "user_pages m (k_mem s) pgdir = user_pages n (k_mem s) pgdir" using le(1) by (intro user_pages_skip) auto
      have "user_wf m ps pgdir s" using user_wf_mono [OF Suc.prems(1)] le(1) by simp
      moreover have "deallocuvm_loop (Suc turns) pgdir ?a KERNBASE s = deallocuvm_loop turns pgdir (of_nat (4096 * m)) KERNBASE s"
        using a walkpgdir_none(1) [of s pgdir ?a] None next_table [OF n, folded m_def]
        by (simp add: deallocuvm_loop.simps [of "Suc turns"] bindM_run del: of_nat_mult)
      ultimately show ?thesis using Suc.IH [of m ps s] le Suc.prems(3) by (simp add: up del: of_nat_mult)
    next
      case (Some t)
      have "n div 1024 < 1024" using n by (simp add: less_mult_imp_div_less)
      then have "page_aligned t" "t \<noteq> 0" using wf Some by (auto simp: vm_wf_def)
      then have e: "t + of_nat (4 * (n mod 1024)) \<noteq> 0" by (intro page_offset_nonzero) auto
      have w: "walkpgdir pgdir ?a False s = Ok (t + of_nat (4 * (n mod 1024))) s"
        using walkpgdir_found [of s pgdir ?a t False] Some a(2) by (simp del: of_nat_mult)
      have pe: "pte (k_mem s) pgdir n = load32 (k_mem s) (t + of_nat (4 * (n mod 1024)))" using Some by (simp add: pte_def)
      show ?thesis
      proof (cases "present (k_mem s) pgdir n")
        case False
        then have "deallocuvm_loop (Suc turns) pgdir ?a KERNBASE s = deallocuvm_loop turns pgdir b KERNBASE s"
          using a w e pe nx
          by (simp add: deallocuvm_loop.simps [of "Suc turns"] bindM_run peek_def present_def del: of_nat_mult)
        moreover have up: "user_pages (Suc n) (k_mem s) pgdir = user_pages n (k_mem s) pgdir" using user_pages_split [OF n] False by simp
        moreover have "user_wf (Suc n) ps pgdir s" using user_wf_mono [OF Suc.prems(1)] by simp
        ultimately show ?thesis using Suc.IH [of "Suc n" ps s, folded b_def] n Suc.prems(3) by (simp add: up del: of_nat_mult)
      next
        case True
        let ?v = "page_at (k_mem s) pgdir n"
        define u where "u = set_pte t n 0 pgdir (freed ?v s)"
        note D = drop_page [OF Suc.prems(1) n True Some, folded u_def]
        have "PTE_ADDR (pte (k_mem s) pgdir n) \<noteq> 0" using D(5) by (auto simp: page_at_def P2V_def KERNBASE_def)
        then have "deallocuvm_loop (Suc turns) pgdir ?a KERNBASE s = deallocuvm_loop turns pgdir b KERNBASE u"
          using a w e True D(4) nx unfolding present_def page_at_def pe
          by (simp add: deallocuvm_loop.simps [of "Suc turns"] bindM_run thenM_run peek_def poke_def u_def set_pte_def page_at_def pe del: of_nat_mult)
        moreover have "Suc n \<le> 524288" "524288 - Suc n < turns" using n Suc.prems(3) by simp_all
        from Suc.IH [OF D(1) this, folded b_def] obtain ps' and s' :: "'a kstate_scheme" where I: "deallocuvm_loop turns pgdir b KERNBASE u = Ok () s'"
            "vm_wf ps' pgdir s'" "s' = u\<lparr>k_freelist := k_freelist s', k_mem := k_mem s'\<rparr>"
            "set ps' = set (?v # ps) \<union> user_pages (Suc n) (k_mem u) pgdir" "\<forall>d < 1024. pgtab (k_mem s') pgdir d = pgtab (k_mem u) pgdir d"
            "same_outside (user_pages (Suc n) (k_mem u) pgdir \<union> table_pages (k_mem u) pgdir) (k_mem u) (k_mem s')"
          by blast
        moreover have "set ps' = set ps \<union> user_pages n (k_mem s) pgdir" using I(4) D(2) user_pages_split [OF n] True by auto
        moreover have "s' = s\<lparr>k_freelist := k_freelist s', k_mem := k_mem s'\<rparr>"
          by (rule trans [OF I(3)]) (simp add: u_def set_pte_def freed_def)
        moreover have "same_outside (user_pages n (k_mem s) pgdir \<union> table_pages (k_mem s) pgdir) (k_mem s) (k_mem s')"
        proof (rule same_outside_trans [OF _ I(6)])
          show "same_outside {?v, t} (k_mem s) (k_mem u)"
            unfolding u_def using \<open>page_aligned t\<close> D(6) by (intro same_outside_set_pte same_outside_freed) simp_all
          show "{?v, t} \<subseteq> user_pages n (k_mem s) pgdir \<union> table_pages (k_mem s) pgdir"
            using user_pages_split [OF n] True Some n by (auto simp: table_pages_def)
          show "user_pages (Suc n) (k_mem u) pgdir \<union> table_pages (k_mem u) pgdir \<subseteq> user_pages n (k_mem s) pgdir \<union> table_pages (k_mem s) pgdir"
            using user_pages_split [OF n, of "k_mem s" pgdir] D(2,3) by (auto simp: table_pages_def)
        qed
        ultimately show ?thesis using D(3) I by auto
      qed
    qed
  qed
qed simp

lemma table_at: "pgtab m pgdir d = Some t \<longleftrightarrow> load32 m (pgdir + 4 * of_nat d) AND PTE_P \<noteq> 0 \<and> t = P2V (PTE_ADDR (load32 m (pgdir + 4 * of_nat d)))"
  by (auto simp: pgtab_def Let_def)

text \<open>The loop of \<open>freevm\<close> over the directory frees every table.\<close>

lemma free_tables:
  fixes s :: "'a kstate_scheme"
  assumes wf: "vm_wf ps pgdir s" and fp: "\<And>t. t \<in> table_pages (k_mem s) pgdir \<Longrightarrow> free_page (k_end s) t"
  shows "\<exists>qs (s' :: 'a kstate_scheme). forM [0..<NPDENTRIES] (\<lambda>i. bindM (peek (pgdir + 4 * of_nat i)) (\<lambda>e.
        whenM (e AND PTE_P \<noteq> 0) (kfree (P2V (PTE_ADDR e))))) s = Ok () s'
    \<and> kmem_wf qs s' \<and> set qs = set ps \<union> table_pages (k_mem s) pgdir \<and> s' = s\<lparr>k_freelist := k_freelist s', k_mem := k_mem s'\<rparr>
    \<and> same_outside (table_pages (k_mem s) pgdir) (k_mem s) (k_mem s')"
proof -
  let ?m = "k_mem s"
  let ?f = "\<lambda>i. bindM (peek (pgdir + 4 * of_nat i)) (\<lambda>e. whenM (e AND PTE_P \<noteq> 0) (kfree (P2V (PTE_ADDR e))))"
  have inj: "d = d'" if "d < 1024" "d' < 1024" "pgtab ?m pgdir d = Some t" "pgtab ?m pgdir d' = Some t" for d d' t
    using wf that unfolding vm_wf_def by blast
  define I where "I i u \<longleftrightarrow> (\<exists>qs. kmem_wf qs u \<and> set qs = set ps \<union> {t. \<exists>d < i. pgtab ?m pgdir d = Some t})
      \<and> u = s\<lparr>k_freelist := k_freelist u, k_mem := k_mem u\<rparr> \<and> (\<forall>d. i \<le> d \<longrightarrow> d < 1024 \<longrightarrow> pgtab (k_mem u) pgdir d = pgtab ?m pgdir d)
      \<and> same_outside (table_pages ?m pgdir) ?m (k_mem u)"
    for i and u :: "'a kstate_scheme"
  have step: "\<exists>t. ?f i u = Ok () t \<and> I (Suc i) t" if i: "i < 1024" and u: "I i u" for i u
  proof -
    obtain qs where q: "kmem_wf qs u" "set qs = set ps \<union> {t. \<exists>d < i. pgtab ?m pgdir d = Some t}"
        "u = s\<lparr>k_freelist := k_freelist u, k_mem := k_mem u\<rparr>" "\<forall>d. i \<le> d \<longrightarrow> d < 1024 \<longrightarrow> pgtab (k_mem u) pgdir d = pgtab ?m pgdir d"
        "same_outside (table_pages ?m pgdir) ?m (k_mem u)"
      using u by (auto simp: I_def)
    have keu: "k_end u = k_end s" by (subst q(3)) simp
    show ?thesis
    proof (cases "pgtab ?m pgdir i")
      case None
      then have "?f i u = Ok () u" using q(4) i by (auto simp: bindM_run peek_def pgtab_def Let_def split: if_split_asm)
      moreover have "{t. \<exists>d < Suc i. pgtab ?m pgdir d = Some t} = {t. \<exists>d < i. pgtab ?m pgdir d = Some t}" using None by (auto simp: less_Suc_eq)
      ultimately show ?thesis using q unfolding I_def by auto
    next
      case (Some t)
      have tt: "t \<in> table_pages ?m pgdir" using i Some by (auto simp: table_pages_def)
      have t: "free_page (k_end u) t" "page_aligned t" "t \<noteq> pgdir" "t \<notin> set ps" "page_aligned pgdir"
        using fp [OF tt] keu wf i Some by (auto simp: vm_wf_def)
      have "pgtab ?m pgdir d \<noteq> Some t" if "d < i" for d using inj [of d i t] that i Some by auto
      then have "t \<notin> set qs" using q(2) t(4) by auto
      then have k: "kmem_wf (t # qs) (freed t u)" using kmem_wf_freed [OF q(1) t(1)] by simp
      have "L_kmem \<notin> k_held u" using q(1) by (simp add: kmem_wf_def)
      moreover have "pgtab (k_mem u) pgdir i = Some t" using q(4) i Some by simp
      ultimately have "?f i u = Ok () (freed t u)"
        using kfree_run [of u t] t(1) by (auto simp: bindM_run peek_def table_at)
      moreover have "pgtab (k_mem (freed t u)) pgdir d = pgtab (k_mem u) pgdir d" if "d < 1024" for d
        using load32_freed [OF t(5,2) _ that, of u] t(3) by (simp add: pgtab_def)
      moreover have "set (t # qs) = set ps \<union> {t. \<exists>d < Suc i. pgtab ?m pgdir d = Some t}" using q(2) Some by (auto simp: less_Suc_eq)
      moreover have "freed t u = s\<lparr>k_freelist := k_freelist (freed t u), k_mem := k_mem (freed t u)\<rparr>"
        unfolding freed_def by (subst q(3)) simp
      moreover have "same_outside (table_pages ?m pgdir) ?m (k_mem (freed t u))"
        using same_outside_freed [OF q(5) t(2) tt] .
      ultimately show ?thesis using k q(4) unfolding I_def by (intro exI [of _ "freed t u"] conjI exI [of _ "t # qs"]) auto
    qed
  qed
  have "I 0 s" using wf unfolding I_def by (auto simp: vm_wf_def)
  then show ?thesis
    using forM_upt [of 0 1024 I ?f s] step by (auto simp: I_def table_pages_def NPDENTRIES_def)
qed

text \<open>
  C13: \<open>freevm\<close> of a well-formed address space returns, and gives exactly its pages to the allocator: the user pages, the page tables
  and the directory are on the free list after it, each once, with the pages that were free before. Every other page keeps its
  contents.
\<close>
theorem freevm_frees:
  fixes s :: "'a kstate_scheme"
  assumes "space_wf ps pgdir s"
  shows "\<exists>ps' (s' :: 'a kstate_scheme). freevm pgdir s = Ok () s' \<and> kmem_wf ps' s' \<and> set ps' = set ps \<union> space_pages (k_mem s) pgdir
    \<and> s' = s\<lparr>k_freelist := k_freelist s', k_mem := k_mem s'\<rparr> \<and> same_outside (space_pages (k_mem s) pgdir) (k_mem s) (k_mem s')"
proof -
  let ?m = "k_mem s"
  have u: "user_wf 0 ps pgdir s" and fp: "free_page (k_end s) pgdir" "\<And>t. t \<in> table_pages ?m pgdir \<Longrightarrow> free_page (k_end s) t"
    using assms by (auto simp: space_wf_def)
  then have wf: "vm_wf ps pgdir s" and ke: "KERNBASE < k_end s" by (auto simp: user_wf_def)
  obtain ps1 and s1 :: "'a kstate_scheme" where 1: "deallocuvm_loop (Suc 524288) pgdir 0 KERNBASE s = Ok () s1" "vm_wf ps1 pgdir s1"
      "s1 = s\<lparr>k_freelist := k_freelist s1, k_mem := k_mem s1\<rparr>" "set ps1 = set ps \<union> user_pages 0 ?m pgdir"
      "\<forall>d < 1024. pgtab (k_mem s1) pgdir d = pgtab ?m pgdir d"
      "same_outside (user_pages 0 ?m pgdir \<union> table_pages ?m pgdir) ?m (k_mem s1)"
    using deallocuvm_loop_frees [OF u, of "Suc 524288"] by auto
  have dealloc: "deallocuvm pgdir KERNBASE 0 s = Ok 0 s1"
    using 1(1) by (simp add: deallocuvm_def thenM_run PGROUNDUP_def PGSIZE_def KERNBASE_def)
  have tp: "table_pages (k_mem s1) pgdir = table_pages ?m pgdir" using 1(5) by (auto simp: table_pages_def)
  have ke1: "k_end s1 = k_end s" by (subst 1(3)) simp
  obtain qs and s2 :: "'a kstate_scheme" where 2: "forM [0..<NPDENTRIES] (\<lambda>i. bindM (peek (pgdir + 4 * of_nat i)) (\<lambda>e.
        whenM (e AND PTE_P \<noteq> 0) (kfree (P2V (PTE_ADDR e))))) s1 = Ok () s2" "kmem_wf qs s2" "set qs = set ps1 \<union> table_pages ?m pgdir"
      "s2 = s1\<lparr>k_freelist := k_freelist s2, k_mem := k_mem s2\<rparr>" "same_outside (table_pages ?m pgdir) (k_mem s1) (k_mem s2)"
    using free_tables [OF 1(2)] fp(2) unfolding tp ke1 by blast
  have st: "s2 = s\<lparr>k_freelist := k_freelist s2, k_mem := k_mem s2\<rparr>" by (subst 2(4), subst 1(3)) simp
  then have ke2: "k_end s2 = k_end s" by (metis kstate.ext_inject kstate.surjective kstate.update_convs(2) kstate.update_convs(3))
  have "pgdir \<notin> table_pages ?m pgdir" "pgdir \<notin> set ps1" using wf 1(2) by (auto simp: vm_wf_def table_pages_def)
  then have "kmem_wf (pgdir # qs) (freed pgdir s2)" using kmem_wf_freed [OF 2(2), of pgdir] fp(1) ke2 2(3) by simp
  moreover have "set (pgdir # qs) = set ps \<union> space_pages ?m pgdir" using 2(3) 1(4) by (auto simp: space_pages_def)
  moreover have "freed pgdir s2 = s\<lparr>k_freelist := k_freelist (freed pgdir s2), k_mem := k_mem (freed pgdir s2)\<rparr>"
    unfolding freed_def by (subst st) simp
  moreover have "same_outside (space_pages ?m pgdir) ?m (k_mem s2)"
    by (rule same_outside_trans [OF 1(6) 2(5)]) (auto simp: space_pages_def)
  then have "same_outside (space_pages ?m pgdir) ?m (k_mem (freed pgdir s2))"
    using free_page_aligned [OF fp(1)] by (rule same_outside_freed) (simp add: space_pages_def)
  moreover have "L_kmem \<notin> k_held s2" using 2(2) by (simp add: kmem_wf_def)
  moreover have "pgdir \<noteq> 0" using free_page_nonzero [OF fp(1)] ke by simp
  ultimately show ?thesis
    using dealloc 2(1) fp(1) ke2 kfree_run [of s2 pgdir] by (auto simp: freevm_def bindM_run thenM_run)
qed

section \<open>wait\<close>

lemma space_wf_kproc [simp]:
  "space_wf ps pgdir (s\<lparr>procs := t\<rparr>) = space_wf ps pgdir s" "L_kmem \<notin> h \<Longrightarrow> L_kmem \<notin> k_held s \<Longrightarrow> space_wf ps pgdir (s\<lparr>k_held := h\<rparr>) = space_wf ps pgdir s"
  by (simp_all add: space_wf_def user_wf_def vm_wf_def kmem_wf_def)

lemma space_wf_freed:
  assumes s: "space_wf ps pgdir s" and v: "free_page (k_end s) v" "v \<notin> set ps" "v \<notin> space_pages (k_mem s) pgdir"
  shows "space_wf (v # ps) pgdir (freed v s)" and "space_pages (k_mem (freed v s)) pgdir = space_pages (k_mem s) pgdir"
    and "kfree v s = Ok () (freed v s)"
proof -
  have wf: "vm_wf ps pgdir s" using s by (simp add: space_wf_def user_wf_def)
  have "vm_data ps pgdir (k_mem s) v"
    using v free_page_aligned [OF v(1)] by (auto simp: vm_data_def space_pages_def table_pages_def)
  note F = freed_same_map [OF wf this v(1)]
  have up: "user_pages 0 (k_mem (freed v s)) pgdir = user_pages 0 (k_mem s) pgdir" by (rule user_pages_same) (simp add: F(2))
  have tp: "table_pages (k_mem (freed v s)) pgdir = table_pages (k_mem s) pgdir" using F(1) by (auto simp: table_pages_def)
  show "space_pages (k_mem (freed v s)) pgdir = space_pages (k_mem s) pgdir" by (simp add: space_pages_def up tp)
  have ke: "k_end (freed v s) = k_end s" by (simp add: freed_def)
  have "vm_data (v # ps) pgdir (k_mem (freed v s)) q" if "q \<in> user_pages 0 (k_mem s) pgdir" for q
    using that s v(3) F(1) by (auto simp: space_wf_def user_wf_def vm_data_def space_pages_def)
  moreover have "inj_on (page_at (k_mem (freed v s)) pgdir) {n. 0 \<le> n \<and> n < 524288 \<and> present (k_mem (freed v s)) pgdir n}"
    using s F(2) by (auto simp: space_wf_def user_wf_def inj_on_def page_at_def present_def)
  ultimately show "space_wf (v # ps) pgdir (freed v s)"
    using s F(3) unfolding space_wf_def user_wf_def up tp ke by blast
  show "kfree v s = Ok () (freed v s)" using v(1) wf kfree_run [of s v] by (simp add: vm_wf_def kmem_wf_def)
qed

text \<open>
  C12: \<open>wait\<close>, called with no lock held by a process with a child that has exited, the address space of the first such child
  being well formed and its kernel stack another page of the allocator. The call returns the pid of that child; its slot is
  free again and no other slot has changed; and exactly its kernel stack, user pages, page tables and directory have gone back to
  the allocator.
\<close>
theorem wait_reclaims:
  fixes s :: "'a kproc_scheme"
  assumes "k_held s = {}" and "cpuproc s = Some cur" and "zombie_child cur (\<lambda>_. True) (procs s) = Some i"
    and "space_wf ps (p_pgdir (procs s ! i)) s"
    and "free_page (k_end s) (p_kstack (procs s ! i))" and "p_kstack (procs s ! i) \<notin> set ps \<union> space_pages (k_mem s) (p_pgdir (procs s ! i))"
  shows "\<exists>ps' (t :: 'a kproc_scheme). wait s = Ok (p_pid (procs s ! i)) t \<and> procs t = (procs s)[i := reaped (procs s ! i)] \<and> k_held t = {}
    \<and> kmem_wf ps' t \<and> set ps' = set ps \<union> insert (p_kstack (procs s ! i)) (space_pages (k_mem s) (p_pgdir (procs s ! i)))"
proof -
  let ?p = "procs s ! i" and ?u = "s\<lparr>k_held := {L_ptable}\<rparr>"
  have i: "i < length (procs s)" using zombie_child_index [OF assms(3)] by simp
  have f: "find_slot (\<lambda>p. p_parent p = Some cur \<and> True \<and> p_state p = ZOMBIE) 0 (procs s) = Some i"
    using assms(3) by (simp add: zombie_child_def)
  have w: "wait s = thenM (reap i) (thenM (release L_ptable) (retM (p_pid ?p))) ?u"
    using assms(1,2) f by (simp add: wait_def wait_pass_def curproc_def monad_simps acquire_def child_scan_result)
  have su: "space_wf ps (p_pgdir ?p) ?u" using assms(1,4) by simp
  have K: "free_page (k_end ?u) (p_kstack ?p)" "p_kstack ?p \<notin> set ps" "p_kstack ?p \<notin> space_pages (k_mem ?u) (p_pgdir ?p)"
    using assms(5,6) by simp_all
  note F = space_wf_freed [OF su K]
  let ?v = "(freed (p_kstack ?p) ?u)\<lparr>procs := (procs s)[i := ?p\<lparr>p_kstack := 0\<rparr>]\<rparr>"
  have "space_wf (p_kstack ?p # ps) (p_pgdir ?p) ?v" using F(1) by simp
  from freevm_frees [OF this] obtain ps' and t :: "'a kproc_scheme" where t: "freevm (p_pgdir ?p) ?v = Ok () t" "kmem_wf ps' t"
      "set ps' = set (p_kstack ?p # ps) \<union> space_pages (k_mem ?v) (p_pgdir ?p)" "t = ?v\<lparr>k_freelist := k_freelist t, k_mem := k_mem t\<rparr>"
    by blast
  have tp: "procs t = (procs s)[i := ?p\<lparr>p_kstack := 0\<rparr>]" "k_held t = {L_ptable}" by (subst t(4), simp add: freed_def)+
  have "reap i ?u = Ok () (t\<lparr>procs := (procs s)[i := reaped ?p]\<rparr>)"
    using F(3) t(1) i tp(1) by (simp add: reap_def bindM_run thenM_run upd_proc_def freed_def reaped_def)
  then have "wait s = Ok (p_pid ?p) (t\<lparr>procs := (procs s)[i := reaped ?p], k_held := {}\<rparr>)"
    using w tp(2) by (simp add: thenM_run release_def)
  moreover have "kmem_wf ps' (t\<lparr>procs := (procs s)[i := reaped ?p], k_held := {}\<rparr>)" using t(2) by (simp add: kmem_wf_def)
  moreover have "set ps' = set ps \<union> insert (p_kstack ?p) (space_pages (k_mem s) (p_pgdir ?p))" using t(3) F(2) by auto
  ultimately show ?thesis by auto
qed

section \<open>Witnesses\<close>

text \<open>An address space with one table and one user page: the table at \<open>0x80300000\<close>, the directory and the page after it.\<close>

abbreviation demo_T :: u32 where "demo_T \<equiv> KERNBASE + 0x300000"
abbreviation demo_D :: u32 where "demo_D \<equiv> KERNBASE + 0x302000"
abbreviation demo_P :: u32 where "demo_P \<equiv> KERNBASE + 0x303000"

definition demo_table :: kstate where
  "demo_table = demo_vm\<lparr>k_freelist := load32 (k_mem demo_vm) demo_T, k_mem := new_table demo_D 0 demo_T (k_mem demo_vm)\<rparr>"

definition demo_space :: kstate where
  "demo_space = set_pte demo_T 0 (table_entry demo_P) demo_D demo_table"

lemma demo_addresses: "page_aligned demo_T" "page_aligned demo_D" "page_aligned demo_P" "demo_D \<noteq> demo_T" "demo_P \<noteq> demo_T" "demo_P \<noteq> demo_D"
  by (simp_all add: page_aligned_def KERNBASE_def)

lemma demo_space_map:
  "vm_wf [] demo_D demo_space"
  "d < 1024 \<Longrightarrow> pgtab (k_mem demo_space) demo_D d = (if d = 0 then Some demo_T else None)"
  "n < 1048576 \<Longrightarrow> pte (k_mem demo_space) demo_D n = (if n = 0 then table_entry demo_P else 0)"
proof -
  note wf = demo_vm_wf [OF demo_addresses(2,4)] and z = demo_vm_empty [OF demo_addresses(2,4)] and e = demo_vm_none [OF demo_addresses(2,4)]
  have n0: "pgtab (k_mem demo_vm) demo_D 0 = None" by (rule e) simp
  have x: "vm_wf [] demo_D demo_table" using new_table_ext [OF wf _ n0] by (simp add: demo_table_def vm_ext_def)
  have t: "pgtab (k_mem demo_table) demo_D d = (if d = 0 then Some demo_T else None)" if "d < 1024" for d
    using new_table_pgtab [OF demo_addresses(1,2,4) that, of 0 "k_mem demo_vm"] e [OF that] by (simp add: demo_table_def)
  have p: "pte (k_mem demo_table) demo_D n = 0" if "n < 1048576" for n
    using new_table_pte [OF wf _ n0 that] z [OF that] by (simp add: demo_table_def)
  have "pgtab (k_mem demo_table) demo_D (0 div 1024) = Some demo_T" using t [of 0] by simp
  note S = set_pte_effect [OF x this, where w = "table_entry demo_P", folded demo_space_def]
  show "vm_wf [] demo_D demo_space" using S(1) by (simp add: vm_ext_def)
  show "pgtab (k_mem demo_space) demo_D d = (if d = 0 then Some demo_T else None)" if "d < 1024" using S(3) t that by simp
  show "pte (k_mem demo_space) demo_D n = (if n = 0 then table_entry demo_P else 0)" if "n < 1048576" using S(2) p that by simp
qed

lemma demo_space_wf: "space_wf [] demo_D demo_space" "space_pages (k_mem demo_space) demo_D = {demo_D, demo_P, demo_T}"
proof -
  note M = demo_space_map
  have ke: "k_end demo_space = KERNBASE + 0x300000" by (simp add: demo_space_def demo_table_def set_pte_def demo_vm_def freed_def kboot_def)
  have pr: "present (k_mem demo_space) demo_D n \<longleftrightarrow> n = 0" if "n < 524288" for n
    using M(3) [of n] that table_entry_props(2) [of demo_P] by (simp add: present_def)
  have at: "page_at (k_mem demo_space) demo_D 0 = demo_P"
    using M(3) [of 0] table_entry_props(1) [OF demo_addresses(3)] by (simp add: page_at_def)
  have u: "user_pages 0 (k_mem demo_space) demo_D = {demo_P}" using pr at by (auto simp: user_pages_def intro!: exI [of _ 0])
  have t: "table_pages (k_mem demo_space) demo_D = {demo_T}" using M(2) by (auto simp: table_pages_def split: if_split_asm intro!: exI [of _ 0])
  show "space_pages (k_mem demo_space) demo_D = {demo_D, demo_P, demo_T}" by (auto simp: space_pages_def u t)
  have f: "free_page (k_end demo_space) demo_P" "free_page (k_end demo_space) demo_T" "free_page (k_end demo_space) demo_D"
    unfolding ke by (simp_all add: free_page_def KERNBASE_def PHYSTOP_def PGSIZE_def V2P_def)
  have "vm_data [] demo_D (k_mem demo_space) demo_P" using demo_addresses M(2) by (auto simp: vm_data_def split: if_split_asm)
  moreover have "inj_on (page_at (k_mem demo_space) demo_D) {n. 0 \<le> n \<and> n < 524288 \<and> present (k_mem demo_space) demo_D n}"
    using pr by (auto simp: inj_on_def)
  moreover have "KERNBASE < k_end demo_space" unfolding ke by (simp add: KERNBASE_def)
  ultimately show "space_wf [] demo_D demo_space"
    using M(1) f by (simp add: space_wf_def user_wf_def u t)
qed

theorem freevm_frees_witness:
  "\<exists>ps s'. freevm demo_D demo_space = Ok () s' \<and> kmem_wf ps s' \<and> set ps = {demo_D, demo_P, demo_T}"
  using freevm_frees [OF demo_space_wf(1)] demo_space_wf(2) by fastforce

lemma space_wf_cong:
  "k_mem s = k_mem t \<Longrightarrow> k_freelist s = k_freelist t \<Longrightarrow> k_end s = k_end t \<Longrightarrow> L_kmem \<notin> k_held s \<Longrightarrow> space_wf ps d t \<Longrightarrow> space_wf ps d s"
  by (simp add: space_wf_def user_wf_def vm_wf_def kmem_wf_def)

text \<open>A parent and its exited child, which has that address space and its kernel stack at \<open>0x80304000\<close>.\<close>

definition demo_parent :: kproc where
  "demo_parent = (demo [proc_at RUNNING 0 0, (proc_at ZOMBIE 3 0)\<lparr>p_parent := Some 0, p_pid := 5, p_pgdir := demo_D, p_kstack := KERNBASE + 0x304000\<rparr>])
     \<lparr>cpuproc := Some 0, k_mem := k_mem demo_space, k_freelist := k_freelist demo_space, k_end := k_end demo_space\<rparr>"

theorem wait_reclaims_witness:
  "\<exists>t ps. wait demo_parent = Ok 5 t \<and> p_state (procs t ! 1) = UNUSED \<and> kmem_wf ps t \<and> set ps = {KERNBASE + 0x304000, demo_D, demo_P, demo_T}"
proof -
  let ?p = "procs demo_parent ! 1" and ?k = "KERNBASE + 0x304000"
  have p: "p_pgdir ?p = demo_D" "p_kstack ?p = ?k" "p_pid ?p = 5" by (simp_all add: demo_parent_def)
  have z: "zombie_child 0 (\<lambda>_. True) (procs demo_parent) = Some 1" by (simp add: demo_parent_def zombie_child_def)
  have sw: "space_wf [] (p_pgdir ?p) demo_parent"
    unfolding p by (rule space_wf_cong [OF _ _ _ _ demo_space_wf(1)]) (simp_all add: demo_parent_def demo_def boot_def)
  have ke: "k_end demo_parent = KERNBASE + 0x300000"
    by (simp add: demo_parent_def demo_space_def demo_table_def set_pte_def demo_vm_def freed_def kboot_def)
  have f: "free_page (k_end demo_parent) (p_kstack ?p)"
    unfolding ke p by (simp add: free_page_def KERNBASE_def PHYSTOP_def PGSIZE_def V2P_def)
  have sp: "space_pages (k_mem demo_parent) (p_pgdir ?p) = {demo_D, demo_P, demo_T}" using demo_space_wf(2) p by (simp add: demo_parent_def)
  have n: "p_kstack ?p \<notin> set [] \<union> space_pages (k_mem demo_parent) (p_pgdir ?p)" using sp unfolding p by simp
  have h: "k_held demo_parent = {}" "cpuproc demo_parent = Some 0" by (simp_all add: demo_parent_def demo_def boot_def)
  obtain ps' t where t: "wait demo_parent = Ok (p_pid ?p) t" "procs t = (procs demo_parent)[1 := reaped ?p]" "kmem_wf ps' t"
      "set ps' = set [] \<union> insert (p_kstack ?p) (space_pages (k_mem demo_parent) (p_pgdir ?p))"
    using wait_reclaims [OF h z sw f n] by blast
  have "p_state (procs t ! 1) = UNUSED" unfolding t(2) by (simp add: demo_parent_def reaped_def)
  moreover have "set ps' = {?k, demo_D, demo_P, demo_T}" using t(4) sp unfolding p by simp
  ultimately show ?thesis using t(1,3) unfolding p by blast
qed

end
