(* ===== verification/Space_Copy.thy ===== *)
theory Space_Copy
  imports Reclaim
begin

text \<open>
  Making address spaces: \<open>setupkvm\<close> gives a directory with the kernel's part and nothing else, \<open>copyuvm\<close> one that has a copy of every
  user page of another; and both give every page back when the memory runs out.
\<close>

section \<open>Maps in changing memory\<close>

lemma load32_same_outside:
  assumes "same_outside X m m'" and "page_aligned q" and "q \<notin> X" and "i < 1024"
  shows "load32 m' (q + of_nat (4 * i)) = load32 m (q + of_nat (4 * i))"
proof (rule load32_cong)
  fix k :: nat assume "k < 4"
  then have "4 * i + k < 4096" using assms(4) by simp
  then have "m' (q + of_nat (4 * i + k)) = m (q + of_nat (4 * i + k))"
    using assms(1-3) unfolding same_outside_def by blast
  then show "m' (q + of_nat (4 * i) + of_nat k) = m (q + of_nat (4 * i) + of_nat k)" by (simp only: of_nat_add add.assoc)
qed

lemma map_same_outside:
  assumes "same_outside X m m'" and "page_aligned pgdir" and "pgdir \<notin> X" and t: "\<And>t. t \<in> table_pages m pgdir \<Longrightarrow> page_aligned t \<and> t \<notin> X"
  shows "i < 1024 \<Longrightarrow> pgtab m' pgdir i = pgtab m pgdir i"
    and "n < 1048576 \<Longrightarrow> pte m' pgdir n = pte m pgdir n"
    and "table_pages m' pgdir = table_pages m pgdir"
proof -
  show tab: "pgtab m' pgdir i = pgtab m pgdir i" if "i < 1024" for i
    using load32_same_outside [OF assms(1-3) that] by (simp add: pgtab_def)
  then show "table_pages m' pgdir = table_pages m pgdir" by (auto simp: table_pages_def)
  show "pte m' pgdir n = pte m pgdir n" if n: "n < 1048576"
  proof -
    have d: "n div 1024 < 1024" using n by (simp add: less_mult_imp_div_less)
    have "load32 m' (u + of_nat (4 * (n mod 1024))) = load32 m (u + of_nat (4 * (n mod 1024)))" if "pgtab m pgdir (n div 1024) = Some u" for u
      using t [of u] d that by (intro load32_same_outside [OF assms(1)]) (auto simp: table_pages_def)
    then show ?thesis using tab [OF d] by (auto simp: pte_def split: option.split)
  qed
qed

lemma vm_wf_tables: "vm_wf ps pgdir s \<Longrightarrow> t \<in> table_pages (k_mem s) pgdir \<Longrightarrow> page_aligned t \<and> t \<noteq> pgdir \<and> t \<notin> set ps"
  by (auto simp: vm_wf_def table_pages_def)

lemma vm_ext_outside:
  assumes "vm_ext pgdir ps s ps' s'"
  shows "same_outside (insert pgdir (set ps \<union> table_pages (k_mem s) pgdir)) (k_mem s) (k_mem s')"
  using assms unfolding same_outside_def vm_ext_def vm_data_def table_pages_def by blast

text \<open>A free page is taken and filled.\<close>

lemma take_page:
  assumes wf: "vm_wf (p # ps) pgdir s" and m: "same_outside {p} (k_mem s) m'"
  shows "vm_wf ps pgdir (s\<lparr>k_freelist := load32 (k_mem s) p, k_mem := m'\<rparr>)"
    and "vm_data ps pgdir m' p" and "free_page (k_end s) p"
    and "\<And>i. i < 1024 \<Longrightarrow> pgtab m' pgdir i = pgtab (k_mem s) pgdir i"
    and "\<And>n. n < 1048576 \<Longrightarrow> pte m' pgdir n = pte (k_mem s) pgdir n"
proof -
  have k: "kmem_wf (p # ps) s" using wf by (simp add: vm_wf_def)
  have p: "page_aligned p" "p \<notin> set ps" "p \<noteq> pgdir" "page_aligned pgdir" using wf free_aligned [OF k, of p] k by (auto simp: vm_wf_def kmem_wf_def)
  show "free_page (k_end s) p" using k by (simp add: kmem_wf_def)
  have "page_aligned t \<and> t \<notin> {p}" if "t \<in> table_pages (k_mem s) pgdir" for t using vm_wf_tables [OF wf that] by auto
  note S = map_same_outside [OF m p(4) _ this]
  show tab: "pgtab m' pgdir i = pgtab (k_mem s) pgdir i" if "i < 1024" for i using S(1) [OF _ _ that] p(3) by auto
  show "pte m' pgdir n = pte (k_mem s) pgdir n" if "n < 1048576" for n using S(2) [OF _ _ that] p(3) by auto
  have "load32 m' q = load32 (k_mem s) q" if "q \<in> set ps" for q
    using load32_same_outside [OF m, of q 0] free_aligned [OF k, of q] that p(2) by auto
  then have "kmem_wf ps ((s\<lparr>k_freelist := load32 (k_mem s) p\<rparr>)\<lparr>k_mem := m'\<rparr>)" by (intro kmem_wf_mem kmem_wf_taken [OF k]) simp
  then show "vm_wf ps pgdir (s\<lparr>k_freelist := load32 (k_mem s) p, k_mem := m'\<rparr>)"
    using wf unfolding vm_wf_def by (auto simp: tab)
  show "vm_data ps pgdir m' p" using p wf unfolding vm_data_def vm_wf_def by (auto simp: tab)
qed

lemma same_outside_memset: "page_aligned p \<Longrightarrow> same_outside {p} m (memset p c PGSIZE m)"
  by (simp add: same_outside_def memset_other_page)

text \<open>A page cleared to serve as a directory maps nothing.\<close>

lemma empty_directory:
  assumes k: "kmem_wf (d # ps) s"
  defines "s' \<equiv> s\<lparr>k_freelist := load32 (k_mem s) d, k_mem := memset d 0 PGSIZE (k_mem s)\<rparr>"
  shows "vm_wf ps d s'" and "\<And>i. i < 1024 \<Longrightarrow> pgtab (k_mem s') d i = None" and "\<And>n. n < 1048576 \<Longrightarrow> pte (k_mem s') d n = 0"
    and "table_pages (k_mem s') d = {}" and "same_outside {d} (k_mem s) (k_mem s')"
proof -
  have d: "page_aligned d" "d \<notin> set ps" using free_aligned [OF k, of d] k by (auto simp: kmem_wf_def)
  have "load32 (memset d 0 PGSIZE (k_mem s)) (d + of_nat (4 * i)) = 0" if "i < 1024" for i
    using that by (intro load32_zero_page) auto
  then show tab: "pgtab (k_mem s') d i = None" if "i < 1024" for i using that by (simp add: pgtab_def s'_def)
  then show "table_pages (k_mem s') d = {}" by (auto simp: table_pages_def)
  show "pte (k_mem s') d n = 0" if "n < 1048576" for n
    using tab [of "n div 1024"] that by (simp add: pte_def less_mult_imp_div_less)
  show o: "same_outside {d} (k_mem s) (k_mem s')" using same_outside_memset [OF d(1)] by (simp add: s'_def)
  have "load32 (k_mem s') q = load32 (k_mem s) q" if "q \<in> set ps" for q
    using load32_same_outside [OF o, of q 0] free_aligned [OF k, of q] that d(2) by auto
  then have "kmem_wf ps ((s\<lparr>k_freelist := load32 (k_mem s) d\<rparr>)\<lparr>k_mem := k_mem s'\<rparr>)" by (intro kmem_wf_mem kmem_wf_taken [OF k]) simp
  then show "vm_wf ps d s'" using d tab by (simp add: vm_wf_def s'_def)
qed

section \<open>setupkvm\<close>

text \<open>The regions of a table like \<open>kmap\<close>: each not empty, inside the address space, above the one before.\<close>

fun regions_ok :: "nat \<Rightarrow> (u32 \<times> u32 \<times> u32 \<times> u32) list \<Rightarrow> bool" where
  "regions_ok lo [] \<longleftrightarrow> True"
| "regions_ok lo ((v, a, e, perm) # ks) \<longleftrightarrow> e - a \<noteq> 0 \<and> unat v + unat (e - a) \<le> 2 ^ 32 \<and> lo \<le> vpn v
     \<and> page_aligned a \<and> perm AND NOT 0xFFF = 0 \<and> regions_ok (Suc (vpn (v + (e - a) - 1))) ks"

fun region_of :: "u32 \<Rightarrow> (u32 \<times> u32 \<times> u32 \<times> u32) list \<Rightarrow> u32 option" where
  "region_of x [] = None"
| "region_of x ((v, a, e, perm) # ks) =
     (if vpn v \<le> vpn x \<and> vpn x \<le> vpn (v + (e - a) - 1) then Some (P2V a + (x - PGROUNDDOWN v)) else region_of x ks)"

lemma region_of_below: "regions_ok lo ks \<Longrightarrow> vpn x < lo \<Longrightarrow> region_of x ks = None"
proof (induction lo ks rule: regions_ok.induct)
  case (2 lo v a e perm ks)
  then have "1 \<le> unat (e - a)" by (simp add: Suc_le_eq unat_gt_0)
  then have "unat v \<le> unat (v + (e - a) - 1)" using unat_last [of "e - a" v] 2 by simp
  then have "vpn v \<le> vpn (v + (e - a) - 1)" by (simp add: vpn_def div_le_mono)
  then show ?case using 2 by auto
qed simp

definition dir_pages :: "u32 list \<Rightarrow> u32 \<Rightarrow> 'z kstate_scheme \<Rightarrow> u32 set" where
  "dir_pages ps d s = insert d (set ps \<union> table_pages (k_mem s) d)"

lemma vm_ext_dir_pages: "vm_ext d ps s ps' s' \<Longrightarrow> dir_pages ps' d s' = dir_pages ps d s"
  by (auto simp: vm_ext_def dir_pages_def)

lemma vm_ext_k_end: "vm_ext d ps s ps' s' \<Longrightarrow> k_end s' = k_end s"
  unfolding vm_ext_def by (metis kstate.ext_inject kstate.surjective kstate.update_convs(2) kstate.update_convs(3))

text \<open>A directory without user pages is an address space, and goes back as one.\<close>

lemma bare_space_wf:
  assumes "vm_wf ps d s" and "KERNBASE < k_end s" and "\<forall>q\<in>dir_pages ps d s. free_page (k_end s) q"
    and z: "\<forall>n < 524288. pte (k_mem s) d n = 0"
  shows "space_wf ps d s" and "space_pages (k_mem s) d = insert d (table_pages (k_mem s) d)"
proof -
  have u: "user_pages 0 (k_mem s) d = {}" using z by (auto simp: user_pages_def present_def)
  have p: "{n. 0 \<le> n \<and> n < 524288 \<and> present (k_mem s) d n} = {}" using z by (auto simp: present_def)
  show "space_wf ps d s" unfolding space_wf_def user_wf_def u p using assms(1-3) by (auto simp: dir_pages_def)
  show "space_pages (k_mem s) d = insert d (table_pages (k_mem s) d)" by (simp add: space_pages_def u)
qed

lemma card_table_pages: "finite (table_pages m d)" "card (table_pages m d) \<le> 1024"
proof -
  have sub: "table_pages m d \<subseteq> (\<lambda>i. the (pgtab m d i)) ` {..<1024}" by (force simp: table_pages_def)
  then show "finite (table_pages m d)" by (rule finite_subset) simp
  show "card (table_pages m d) \<le> 1024" 
    using card_mono [OF _ sub] card_image_le [of "{..<1024 :: nat}" "\<lambda>i. the (pgtab m d i)"] by simp
qed

definition gave_back :: "u32 set \<Rightarrow> 'z kstate_scheme \<Rightarrow> 'z kstate_scheme \<Rightarrow> bool" where
  "gave_back Q s s' \<longleftrightarrow> (\<exists>ps'. kmem_wf ps' s' \<and> set ps' = Q) \<and> s' = s\<lparr>k_freelist := k_freelist s', k_mem := k_mem s'\<rparr>
     \<and> same_outside Q (k_mem s) (k_mem s')"

lemma mem_frame_trans:
  fixes s s' t :: "'z kstate_scheme"
  assumes "t = s'\<lparr>k_freelist := k_freelist t, k_mem := k_mem t\<rparr>" and "s' = s\<lparr>k_freelist := k_freelist s', k_mem := k_mem s'\<rparr>"
  shows "t = s\<lparr>k_freelist := k_freelist t, k_mem := k_mem t\<rparr>"
proof -
  have "t = (s\<lparr>k_freelist := k_freelist s', k_mem := k_mem s'\<rparr>)\<lparr>k_freelist := k_freelist t, k_mem := k_mem t\<rparr>"
    using assms by simp
  then show ?thesis by (rule trans) simp
qed

lemma gave_back_ext:
  "vm_ext d ps s ps' s' \<Longrightarrow> gave_back (dir_pages ps d s) s' t \<Longrightarrow> gave_back (dir_pages ps d s) s t"
proof -
  assume e: "vm_ext d ps s ps' s'" and g: "gave_back (dir_pages ps d s) s' t"
  have "same_outside (dir_pages ps d s) (k_mem s) (k_mem s')" using vm_ext_outside [OF e] by (simp add: dir_pages_def)
  then have "same_outside (dir_pages ps d s) (k_mem s) (k_mem t)" using g by (auto simp: gave_back_def intro: same_outside_trans)
  moreover have "t = s'\<lparr>k_freelist := k_freelist t, k_mem := k_mem t\<rparr>" "s' = s\<lparr>k_freelist := k_freelist s', k_mem := k_mem s'\<rparr>"
    using e g by (simp_all add: gave_back_def vm_ext_def)
  then have "t = s\<lparr>k_freelist := k_freelist t, k_mem := k_mem t\<rparr>" by (rule mem_frame_trans)
  ultimately show ?thesis using g by (auto simp: gave_back_def)
qed

lemma freevm_gives_back:
  assumes "space_wf ps d s"
  shows "\<exists>s'. freevm d s = Ok () s' \<and> gave_back (set ps \<union> space_pages (k_mem s) d) s s'"
proof -
  obtain ps' s' where f: "freevm d s = Ok () s'" "kmem_wf ps' s'" "set ps' = set ps \<union> space_pages (k_mem s) d"
      "s' = s\<lparr>k_freelist := k_freelist s', k_mem := k_mem s'\<rparr>" "same_outside (space_pages (k_mem s) d) (k_mem s) (k_mem s')"
    using freevm_frees [OF assms] by blast
  have "same_outside (set ps \<union> space_pages (k_mem s) d) (k_mem s) (k_mem s')"
    by (rule same_outside_trans [OF f(5) same_outside_refl [where X = "{}"]]) auto
  then show ?thesis using f by (auto simp: gave_back_def)
qed

lemma setupkvm_loop_maps:
  fixes s :: "'a kstate_scheme"
  assumes "vm_wf ps d s" and "KERNBASE < k_end s" and "\<forall>q\<in>dir_pages ps d s. free_page (k_end s) q"
    and "\<forall>n < 1048576. n < 524288 \<or> lo \<le> n \<longrightarrow> pte (k_mem s) d n = 0" and "524288 \<le> lo" and "regions_ok lo ks"
  shows "\<exists>r (s' :: 'a kstate_scheme). setupkvm_loop d ks s = Ok r s' \<and>
    (r = 0 \<and> gave_back (dir_pages ps d s) s s' \<and> card (dir_pages ps d s) \<le> 1025
     \<or> r = d \<and> (\<exists>ps'. vm_ext d ps s ps' s') \<and> (\<forall>n < 524288. pte (k_mem s') d n = 0)
       \<and> (\<forall>x. translate (k_mem s') d x = (if lo \<le> vpn x then region_of x ks else translate (k_mem s) d x)))"
  using assms
proof (induction ks arbitrary: ps s lo)
  case Nil
  have "translate (k_mem s) d x = None" if "lo \<le> vpn x" for x
    using Nil.prems(4) that vpn_lt [of x] by (simp add: translate_pte)
  then show ?case using Nil vm_ext_refl [OF Nil.prems(1)] by auto
next
  case (Cons k ks)
  obtain v a e perm where k: "k = (v, a, e, perm)" by (cases k)
  let ?l = "vpn (v + (e - a) - 1)"
  have R: "e - a \<noteq> 0" "unat v + unat (e - a) \<le> 2 ^ 32" "lo \<le> vpn v" "page_aligned a" "perm AND NOT 0xFFF = 0" "regions_ok (Suc ?l) ks"
    using Cons.prems(6) k by simp_all
  have "pte (k_mem s) d i AND PTE_P = 0" if "vpn v \<le> i" "i \<le> ?l" for i
    using Cons.prems(4) that R(3) le_less_trans [OF that(2) vpn_lt] by simp
  from mappages_mapped [OF Cons.prems(1) R(1,2) this, of a perm] obtain r j ps1 and s1 :: "'a kstate_scheme" where
      m: "mappages d v (e - a) a perm s = Ok r s1" "vm_ext d ps s ps1 s1" "mapped d (vpn v) j a perm (k_mem s) (k_mem s1)" "vpn v \<le> ?l"
        "r = 0 \<and> j = Suc (?l - vpn v) \<or> r = -1 \<and> j \<le> ?l - vpn v \<and> ps1 = []" by blast
  have wf1: "vm_wf ps1 d s1" using m(2) by (simp add: vm_ext_def)
  have fp1: "KERNBASE < k_end s1" "\<forall>q\<in>dir_pages ps1 d s1. free_page (k_end s1) q"
    using Cons.prems(2,3) vm_ext_k_end [OF m(2)] vm_ext_dir_pages [OF m(2)] by simp_all
  have z1: "pte (k_mem s1) d n = 0" if "n < 1048576" "n < 524288 \<or> Suc ?l \<le> n" for n
    using m(3,4,5) that Cons.prems(4,5) R(3) unfolding mapped_def by (auto split: if_split_asm)
  show ?case
  proof (cases "r = 0")
    case True
    have tr: "translate (k_mem s1) d x = (if lo \<le> vpn x \<and> vpn x \<le> ?l then region_of x [k] else translate (k_mem s) d x)" for x
    proof (cases "vpn v \<le> vpn x \<and> vpn x \<le> ?l")
      case True
      then show ?thesis using mapped_translate(1) [OF m(3) R(4,5), of x] m(4,5) \<open>r = 0\<close> R(3) by (auto simp: k page_parts(2))
    next
      case False
      then have "translate (k_mem s1) d x = translate (k_mem s) d x" using mapped_translate(2) [OF m(3) R(4,5), of x] m(4,5) \<open>r = 0\<close> by auto
      moreover have "translate (k_mem s) d x = None" if "lo \<le> vpn x"
        using Cons.prems(4) that vpn_lt [of x] by (simp add: translate_pte)
      ultimately show ?thesis using False by (auto simp: k)
    qed
    have "524288 \<le> Suc ?l" using Cons.prems(5) R(3) m(4) by simp
    from Cons.IH [OF wf1 fp1 _ this R(6)] z1 obtain r2 and s2 :: "'a kstate_scheme" where
        l: "setupkvm_loop d ks s1 = Ok r2 s2" and
        c: "r2 = 0 \<and> gave_back (dir_pages ps1 d s1) s1 s2 \<and> card (dir_pages ps1 d s1) \<le> 1025 \<or>
            r2 = d \<and> (\<exists>ps'. vm_ext d ps1 s1 ps' s2) \<and> (\<forall>n < 524288. pte (k_mem s2) d n = 0)
            \<and> (\<forall>x. translate (k_mem s2) d x = (if Suc ?l \<le> vpn x then region_of x ks else translate (k_mem s1) d x))" by blast
    have "setupkvm_loop d (k # ks) s = Ok r2 s2" using l m(1) True by (simp add: k bindM_run)
    then show ?thesis
    proof (intro exI conjI, assumption)
      from c show "r2 = 0 \<and> gave_back (dir_pages ps d s) s s2 \<and> card (dir_pages ps d s) \<le> 1025 \<or>
        r2 = d \<and> (\<exists>ps'. vm_ext d ps s ps' s2) \<and> (\<forall>n < 524288. pte (k_mem s2) d n = 0)
            \<and> (\<forall>x. translate (k_mem s2) d x = (if lo \<le> vpn x then region_of x (k # ks) else translate (k_mem s) d x))"
      proof (elim disjE conjE exE)
        assume "r2 = 0" "gave_back (dir_pages ps1 d s1) s1 s2" "card (dir_pages ps1 d s1) \<le> 1025"
        then show ?thesis using gave_back_ext [OF m(2)] vm_ext_dir_pages [OF m(2)] by simp
      next
        fix ps' assume "r2 = d" "\<forall>n < 524288. pte (k_mem s2) d n = 0" and x: "vm_ext d ps1 s1 ps' s2"
          and "\<forall>x. translate (k_mem s2) d x = (if Suc ?l \<le> vpn x then region_of x ks else translate (k_mem s1) d x)"
        moreover have "(if Suc ?l \<le> vpn x then region_of x ks else translate (k_mem s1) d x)
            = (if lo \<le> vpn x then region_of x (k # ks) else translate (k_mem s) d x)" for x
          using tr [of x] R(3) m(4) region_of_below [OF R(6), of x] by (auto simp: k)
        moreover have "vm_ext d ps s ps' s2" by (rule vm_ext_trans [OF m(2) x])
        ultimately show ?thesis by auto
      qed
    qed
  next
    case False
    then have r: "sint r < 0" using m(5) by simp
    have z: "\<forall>n < 524288. pte (k_mem s1) d n = 0" using z1 by simp
    note B = bare_space_wf [OF wf1 fp1 z]
    from freevm_gives_back [OF B(1)] obtain s2 where f: "freevm d s1 = Ok () s2" "gave_back (set ps1 \<union> space_pages (k_mem s1) d) s1 s2" by blast
    have "set ps1 \<union> space_pages (k_mem s1) d = dir_pages ps d s"
      using vm_ext_dir_pages [OF m(2)] unfolding B(2) by (auto simp: dir_pages_def)
    then have "gave_back (dir_pages ps d s) s s2" using f(2) gave_back_ext [OF m(2)] by simp
    moreover have "dir_pages ps d s = insert d (table_pages (k_mem s1) d)"
      using vm_ext_dir_pages [OF m(2)] m(5) False by (simp add: dir_pages_def)
    then have "card (dir_pages ps d s) \<le> 1025" using card_table_pages [of "k_mem s1" d] card_insert_le_m1 [of 1025 "table_pages (k_mem s1) d" d] by simp
    ultimately show ?thesis using m(1) r f(1) by (simp add: k bindM_run thenM_run)
  qed
qed

text \<open>The kernel's part of an address space: physical memory above \<open>KERNBASE\<close>, and the devices at the top.\<close>

definition kernel_map :: "u32 \<Rightarrow> u32 option" where
  "kernel_map x = (if KERNBASE \<le> x \<and> x < P2V PHYSTOP then Some x else if DEVSPACE \<le> x then Some (P2V x) else None)"

text \<open>The kernel's data begin on a page above its text and below the end of memory.\<close>

definition kernel_image :: "'z kstate_scheme \<Rightarrow> bool" where
  "kernel_image s \<longleftrightarrow> page_aligned (k_data s) \<and> KERNLINK < k_data s \<and> k_data s < P2V PHYSTOP \<and> KERNBASE < k_end s"

lemma vpn_mono: "x \<le> y \<Longrightarrow> vpn x \<le> vpn y"
  by (simp add: vpn_def word_le_nat_alt div_le_mono)

lemma aligned_vpn: "page_aligned p \<Longrightarrow> 4096 * vpn p = unat p"
  using mult_div_mod_eq [of 4096 "unat p"] by (simp add: page_aligned_def vpn_def)

lemma vpn_before: "page_aligned p \<Longrightarrow> p \<noteq> 0 \<Longrightarrow> Suc (vpn (p - 1)) = vpn p \<and> (vpn x \<le> vpn (p - 1) \<longleftrightarrow> x < p)"
proof -
  assume p: "page_aligned p" "p \<noteq> 0"
  define k where "k = vpn p"
  have k: "unat p = 4096 * k" using aligned_vpn [OF p(1)] by (simp add: k_def)
  then have k: "unat p = 4096 * k" "0 < k" using p(2) by (auto simp: unat_eq_0 intro: gr0I)
  then have u: "unat (p - 1) = 4096 * k - 1" using unat_minus_one [OF p(2)] by simp
  have "4096 * k - 1 = 4096 * (k - 1) + 4095" using k(2) by (cases k) simp_all
  then have a: "vpn (p - 1) = k - 1" unfolding vpn_def u by simp
  have "unat x div 4096 \<le> k - 1 \<longleftrightarrow> unat x < 4096 * k" using k(2) by (simp add: less_Suc_eq_le [symmetric] div_less_iff_less_mult mult.commute)
  then show ?thesis using a k by (simp add: word_less_nat_alt) (simp add: vpn_def)
qed

lemma vpn_from: "page_aligned p \<Longrightarrow> vpn p \<le> vpn x \<longleftrightarrow> p \<le> x"
proof -
  assume "page_aligned p"
  then show ?thesis
    by (simp add: word_le_nat_alt vpn_def [of x] less_eq_div_iff_mult_less_eq mult.commute flip: aligned_vpn)
qed

lemma PGROUNDDOWN_aligned: "page_aligned p \<Longrightarrow> PGROUNDDOWN p = p"
  using aligned_vpn [of p] by (simp add: page_parts(2) del: of_nat_mult)

lemma kmap_regions:
  assumes "kernel_image s"
  shows "regions_ok 524288 (kmap (k_data s))" and "(if 524288 \<le> vpn x then region_of x (kmap (k_data s)) else None) = kernel_map x"
proof -
  let ?d = "k_data s"
  have d: "page_aligned ?d" "KERNLINK < ?d" "?d < P2V PHYSTOP" using assms by (simp_all add: kernel_image_def)
  have d0: "?d \<noteq> 0" using d(2) by auto
  have al: "page_aligned KERNBASE" "page_aligned KERNLINK" "page_aligned DEVSPACE" "page_aligned (P2V PHYSTOP)" "page_aligned (V2P KERNLINK)" "page_aligned (V2P ?d)"
    using page_aligned_V2P [OF d(1)] by (simp_all add: page_aligned_def KERNBASE_def KERNLINK_def EXTMEM_def DEVSPACE_def P2V_def V2P_def PHYSTOP_def)
  have e: "KERNBASE + (EXTMEM - 0) - 1 = KERNLINK - 1" "KERNLINK + (V2P ?d - V2P KERNLINK) - 1 = ?d - 1"
    "?d + (PHYSTOP - V2P ?d) - 1 = P2V PHYSTOP - 1" "DEVSPACE + (0 - DEVSPACE) - 1 = - 1"
    by (simp_all add: KERNLINK_def V2P_def P2V_def)
  have u: "unat (V2P ?d - V2P KERNLINK) = unat ?d - unat KERNLINK" "unat (PHYSTOP - V2P ?d) = unat (P2V PHYSTOP) - unat ?d"
    using d(2,3) unat_sub [of KERNLINK ?d] unat_sub [of ?d "P2V PHYSTOP"] by (simp_all add: V2P_def P2V_def algebra_simps)
  have lt: "unat KERNLINK < unat ?d" "unat ?d < unat (P2V PHYSTOP)" using d(2,3) by (simp_all add: word_less_nat_alt)
  have n: "V2P ?d - V2P KERNLINK \<noteq> 0" "PHYSTOP - V2P ?d \<noteq> 0" by (rule unat_neqI; simp only: u unat_0; use lt in linarith)+
  have nz: "KERNLINK \<noteq> 0" "P2V PHYSTOP \<noteq> 0" by (simp_all add: KERNLINK_def KERNBASE_def EXTMEM_def P2V_def PHYSTOP_def)
  have cs: "vpn KERNBASE = 524288" "vpn (P2V PHYSTOP) \<le> vpn DEVSPACE" "Suc (vpn (KERNLINK - 1)) = vpn KERNLINK"
    "Suc (vpn (?d - 1)) = vpn ?d" "Suc (vpn (P2V PHYSTOP - 1)) = vpn (P2V PHYSTOP)"
    using vpn_before [OF al(2) nz(1)] vpn_before [OF d(1) d0] vpn_before [OF al(4) nz(2)]
    by (simp_all add: vpn_def KERNBASE_def P2V_def PHYSTOP_def DEVSPACE_def)
  have top: "vpn (- 1) = 1048575" by (simp add: vpn_def unsigned_minus_1_eq_mask mask_eq_exp_minus_1)
  have pw: "PTE_W AND NOT 0xFFF = 0" by (simp add: PTE_W_def)
  have z: "EXTMEM - 0 \<noteq> 0" "0 - DEVSPACE \<noteq> 0" "unat KERNBASE + unat (EXTMEM - 0) \<le> 2 ^ 32" "unat DEVSPACE + unat (0 - DEVSPACE) \<le> 2 ^ 32"
    by (simp_all add: EXTMEM_def DEVSPACE_def KERNBASE_def)
  have pz: "page_aligned 0" by (simp add: page_aligned_def)
  show "regions_ok 524288 (kmap ?d)"
    unfolding kmap_def regions_ok.simps e cs top u using n lt z al d(1) pw pz cs(1,2) unat_u32_lt [of ?d] unat_u32_lt [of "P2V PHYSTOP"]
    by (simp add: vpn_mono)
  have f: "vpn KERNBASE \<le> vpn x \<longleftrightarrow> KERNBASE \<le> x" "vpn KERNLINK \<le> vpn x \<longleftrightarrow> KERNLINK \<le> x" "vpn ?d \<le> vpn x \<longleftrightarrow> ?d \<le> x"
      "vpn DEVSPACE \<le> vpn x \<longleftrightarrow> DEVSPACE \<le> x"
      "vpn x \<le> vpn (KERNLINK - 1) \<longleftrightarrow> x < KERNLINK" "vpn x \<le> vpn (?d - 1) \<longleftrightarrow> x < ?d" "vpn x \<le> vpn (P2V PHYSTOP - 1) \<longleftrightarrow> x < P2V PHYSTOP"
      "vpn x \<le> 1048575 \<longleftrightarrow> True" "524288 \<le> vpn x \<longleftrightarrow> KERNBASE \<le> x"
    using vpn_from [OF al(1)] vpn_from [OF al(2)] vpn_from [OF al(3)] vpn_from [OF d(1)] vpn_before [OF al(2) nz(1)] vpn_before [OF d(1) d0]
      vpn_before [OF al(4) nz(2)] vpn_lt [of x] cs(1) by simp_all
  have g: "PGROUNDDOWN KERNBASE = KERNBASE" "PGROUNDDOWN KERNLINK = KERNLINK" "PGROUNDDOWN ?d = ?d" "PGROUNDDOWN DEVSPACE = DEVSPACE"
    using al d(1) by (simp_all add: PGROUNDDOWN_aligned)
  have r: "P2V 0 + (x - KERNBASE) = x" "P2V DEVSPACE + (x - DEVSPACE) = P2V x" by (simp_all add: P2V_def)
  have o: "KERNBASE \<le> DEVSPACE" by (simp add: KERNBASE_def DEVSPACE_def)
  show "(if 524288 \<le> vpn x then region_of x (kmap ?d) else None) = kernel_map x"
    unfolding kmap_def region_of.simps e top f g r kernel_map_def P2V_V2P using d(2,3) o by auto
qed

text \<open>
  \<open>setupkvm\<close>, with the kernel's image as the linker lays it out, returns. Either it returns 0 and the free pages are those of
  before, which were too few, or it returns a directory that maps the physical memory above \<open>KERNBASE\<close> to itself and the devices to
  theirs, and no other address; the pages for it come from the free ones, and every page that was not free keeps its contents.
\<close>

lemma setupkvm_maps:
  fixes s :: "'a kstate_scheme"
  assumes "kmem_wf ps s" and "kernel_image s"
  shows "\<exists>r (s' :: 'a kstate_scheme). setupkvm s = Ok r s' \<and> s' = s\<lparr>k_freelist := k_freelist s', k_mem := k_mem s'\<rparr>
    \<and> same_outside (set ps) (k_mem s) (k_mem s')
    \<and> (r = 0 \<and> (\<exists>ps'. kmem_wf ps' s' \<and> set ps' = set ps) \<and> card (set ps) \<le> 1025
       \<or> r \<noteq> 0 \<and> (\<exists>ps'. space_wf ps' r s' \<and> set ps = set ps' \<union> space_pages (k_mem s') r) \<and> (\<forall>n < 524288. pte (k_mem s') r n = 0)
         \<and> (\<forall>x. translate (k_mem s') r x = kernel_map x))"
proof (cases ps)
  case Nil
  then show ?thesis using kmem.alloc_none [of s] assms(1) by (auto simp: setupkvm_def bindM_run intro!: exI [of _ 0] exI [of _ s])
next
  case (Cons d qs)
  let ?s = "s\<lparr>k_freelist := load32 (k_mem s) d, k_mem := memset d 0 PGSIZE (k_mem s)\<rparr>"
  have k: "kmem_wf (d # qs) s" using assms(1) Cons by simp
  have d: "d \<noteq> 0" "free_page (k_end s) d" using free_aligned [OF k, of d] k by (auto simp: kmem_wf_def)
  have K: "KERNBASE < k_end ?s" and fp: "\<forall>q\<in>dir_pages qs d ?s. free_page (k_end ?s) q" and Q: "dir_pages qs d ?s = set ps"
    using assms(2) k d(2) empty_directory(4) [OF k] Cons by (auto simp: kernel_image_def dir_pages_def kmem_wf_def)
  have ph: "\<not> DEVSPACE < P2V PHYSTOP" by (simp add: DEVSPACE_def P2V_def KERNBASE_def PHYSTOP_def)
  have run: "setupkvm s = setupkvm_loop d (kmap (k_data s)) ?s"
    using kalloc_wf [OF k] d(1) ph by (simp add: setupkvm_def bindM_run thenM_run memsetM_def)
  have o: "same_outside (set ps) (k_mem s) (k_mem ?s)"
    by (rule same_outside_trans [OF empty_directory(5) [OF k] same_outside_refl [where X = "{}"]]) (simp_all add: Cons)
  have tr0: "translate (k_mem ?s) d x = None" for x using empty_directory(3) [OF k vpn_lt, of x] by (simp add: translate_pte)
  have im: "kernel_image ?s" using assms(2) by (simp add: kernel_image_def)
  have "\<forall>n < 1048576. n < 524288 \<or> 524288 \<le> n \<longrightarrow> pte (k_mem ?s) d n = 0" using empty_directory(3) [OF k] by blast
  from setupkvm_loop_maps [OF empty_directory(1) [OF k] K fp this order_refl kmap_regions(1) [OF im]]
  obtain r and s' :: "'a kstate_scheme" where l: "setupkvm_loop d (kmap (k_data s)) ?s = Ok r s'" and
    c: "r = 0 \<and> gave_back (set ps) ?s s' \<and> card (set ps) \<le> 1025 \<or> r = d \<and> (\<exists>ps'. vm_ext d qs ?s ps' s') \<and> (\<forall>n < 524288. pte (k_mem s') d n = 0)
       \<and> (\<forall>x. translate (k_mem s') d x = kernel_map x)"
    unfolding tr0 kmap_regions(2) [OF im] Q by auto
  from c show ?thesis
  proof (elim disjE conjE exE)
    assume r: "r = 0" and g: "gave_back (set ps) ?s s'" and cd: "card (set ps) \<le> 1025"
    have "s' = s\<lparr>k_freelist := k_freelist s', k_mem := k_mem s'\<rparr>"
      by (rule mem_frame_trans [of s' ?s]) (use g in \<open>simp_all add: gave_back_def\<close>)
    moreover have "same_outside (set ps) (k_mem s) (k_mem s')" using g by (auto simp: gave_back_def intro: same_outside_trans [OF o])
    ultimately show ?thesis using run l r g cd by (auto simp: gave_back_def)
  next
    fix ps' assume r: "r = d" and x: "vm_ext d qs ?s ps' s'" and z: "\<forall>n < 524288. pte (k_mem s') d n = 0"
      and tr: "\<forall>x. translate (k_mem s') d x = kernel_map x"
    have f: "s' = s\<lparr>k_freelist := k_freelist s', k_mem := k_mem s'\<rparr>"
      by (rule mem_frame_trans [of s' ?s]) (use x in \<open>simp_all add: vm_ext_def\<close>)
    have "same_outside (set ps) (k_mem s) (k_mem s')"
      using vm_ext_outside [OF x] Q by (auto simp: dir_pages_def intro: same_outside_trans [OF o])
    moreover have "vm_wf ps' d s'" "KERNBASE < k_end s'" "\<forall>q\<in>dir_pages ps' d s'. free_page (k_end s') q"
      using x K fp vm_ext_k_end [OF x] vm_ext_dir_pages [OF x] by (simp_all add: vm_ext_def)
    note B = bare_space_wf [OF this z]
    have "set ps = set ps' \<union> space_pages (k_mem s') d"
      using vm_ext_dir_pages [OF x] Q unfolding B(2) by (auto simp: dir_pages_def)
    ultimately show ?thesis using run l r f B(1) tr z d(1) by (intro exI [of _ d] exI [of _ s']) auto
  qed
qed

section \<open>One page of a copy\<close>

text \<open>
  A free page is taken and filled, and mapped at a page number that was not mapped (\<open>b\<close>), or it was not mapped for want of a
  page for the table.
\<close>

lemma add_user_page:
  fixes s s2 :: "'a kstate_scheme"
  assumes sp: "space_wf (p # ps) d s" and m: "same_outside {p} (k_mem s) m'"
    and x: "vm_ext d ps (s\<lparr>k_freelist := load32 (k_mem s) p, k_mem := m'\<rparr>) ps' s2" and n: "n < 524288" "pte (k_mem s) d n = 0"
    and pt: "\<forall>i < 1048576. pte (k_mem s2) d i = (if b \<and> i = n then w else pte (k_mem s) d i)"
    and w: "P2V (PTE_ADDR w) = p" "w AND PTE_P \<noteq> 0"
  shows "user_pages 0 (k_mem s2) d = (if b then insert p (user_pages 0 (k_mem s) d) else user_pages 0 (k_mem s) d)"
    and "space_wf ps' d s2" and "p \<notin> set ps'" and "\<not> b \<Longrightarrow> p \<notin> space_pages (k_mem s2) d"
    and "insert p (set ps' \<union> space_pages (k_mem s2) d) = set (p # ps) \<union> space_pages (k_mem s) d"
    and "\<And>q i. q = p \<or> q \<in> user_pages 0 (k_mem s) d \<Longrightarrow> i < 4096 \<Longrightarrow> k_mem s2 (q + of_nat i) = m' (q + of_nat i)"
    and "free_page (k_end s2) p" and "p \<notin> user_pages 0 (k_mem s) d"
proof -
  let ?u = "s\<lparr>k_freelist := load32 (k_mem s) p, k_mem := m'\<rparr>"
  have wf: "vm_wf (p # ps) d s" using sp by (simp add: space_wf_def user_wf_def)
  note T = take_page [OF wf m]
  have ke: "k_end s2 = k_end s" using vm_ext_k_end [OF x] by simp
  have pr: "present (k_mem s2) d i \<longleftrightarrow> (b \<and> i = n) \<or> present (k_mem s) d i" if "i < 524288" for i
    using pt that w(2) by (cases "b \<and> i = n") (auto simp: present_def)
  have np: "\<not> present (k_mem s) d n" using n(2) by (simp add: present_def)
  have at: "page_at (k_mem s2) d i = (if b \<and> i = n then p else page_at (k_mem s) d i)" if "i < 524288" for i
    using pt that w(1) by (simp add: page_at_def)
  have p1: "user_pages 0 (k_mem s2) d = {page_at (k_mem s2) d i | i. i < 524288 \<and> (b \<and> i = n \<or> present (k_mem s) d i)}"
    using pr unfolding user_pages_def by auto
  show up: "user_pages 0 (k_mem s2) d = (if b then insert p (user_pages 0 (k_mem s) d) else user_pages 0 (k_mem s) d)"
    unfolding p1 using at n(1) np by (auto simp: user_pages_def) metis+
  have old: "free_page (k_end s) q \<and> vm_data (p # ps) d (k_mem s) q" if "q \<in> user_pages 0 (k_mem s) d" for q
    using sp that by (auto simp: space_wf_def user_wf_def)
  then show pu: "p \<notin> user_pages 0 (k_mem s) d" by (auto simp: vm_data_def)
  have data: "vm_data ps d m' q" if "q \<in> user_pages 0 (k_mem s) d" for q
    using old [OF that] T(4) by (auto simp: vm_data_def)
  have keep: "vm_data ps' d (k_mem s2) q \<and> (\<forall>i < 4096. k_mem s2 (q + of_nat i) = m' (q + of_nat i))" if "vm_data ps d m' q" for q
    using x that by (simp add: vm_ext_def)
  then show "k_mem s2 (q + of_nat i) = m' (q + of_nat i)" if "q = p \<or> q \<in> user_pages 0 (k_mem s) d" "i < 4096" for q i
    using that data T(2) by auto
  have d2: "vm_data ps' d (k_mem s2) p" using keep T(2) by blast
  then show "p \<notin> set ps'" by (simp add: vm_data_def)
  show "\<not> b \<Longrightarrow> p \<notin> space_pages (k_mem s2) d" using d2 up pu by (auto simp: space_pages_def table_pages_def vm_data_def)
  show "free_page (k_end s2) p" using T(3) by (simp add: ke)
  have tb: "table_pages m' d = table_pages (k_mem s) d" using T(4) by (auto simp: table_pages_def)
  have eq: "set ps' \<union> table_pages (k_mem s2) d = set ps \<union> table_pages (k_mem s) d" using x tb by (simp add: vm_ext_def)
  then show "insert p (set ps' \<union> space_pages (k_mem s2) d) = set (p # ps) \<union> space_pages (k_mem s) d"
    by (auto simp: space_pages_def up)
  have "free_page (k_end s) q" if "q \<in> set (p # ps) \<union> insert d (table_pages (k_mem s) d)" for q
    using that sp wf by (auto simp: space_wf_def vm_wf_def kmem_wf_def)
  moreover have eq_sub: "insert d (table_pages (k_mem s2) d) \<subseteq> set (p # ps) \<union> insert d (table_pages (k_mem s) d)" using eq by auto
  ultimately have fr: "\<forall>q\<in>insert d (table_pages (k_mem s2) d). free_page (k_end s2) q" unfolding ke by blast
  have "inj_on (page_at (k_mem s2) d) {i. 0 \<le> i \<and> i < 524288 \<and> present (k_mem s2) d i}"
  proof (rule inj_onI)
    fix i j assume i: "i \<in> {i. 0 \<le> i \<and> i < 524288 \<and> present (k_mem s2) d i}" and j: "j \<in> {i. 0 \<le> i \<and> i < 524288 \<and> present (k_mem s2) d i}"
      and e: "page_at (k_mem s2) d i = page_at (k_mem s2) d j"
    have "page_at (k_mem s) d k \<noteq> p" if "k < 524288" "present (k_mem s) d k" for k
      using pu that by (auto simp: user_pages_def)
    then have "i = j" if "b \<and> (i = n \<or> j = n)" using that i j e pr at by (auto split: if_split_asm)
    moreover have "i = j" if "\<not> (b \<and> (i = n \<or> j = n))"
      using that i j e pr at sp by (auto simp: space_wf_def user_wf_def dest: inj_onD split: if_split_asm)
    ultimately show "i = j" by blast
  qed
  moreover have "\<forall>q\<in>user_pages 0 (k_mem s2) d. free_page (k_end s2) q \<and> vm_data ps' d (k_mem s2) q"
    using up old data keep d2 T(3) ke by (auto split: if_split_asm)
  moreover have "KERNBASE < k_end s2" "vm_wf ps' d s2" using sp x by (simp_all add: ke space_wf_def user_wf_def vm_ext_def)
  ultimately show "space_wf ps' d s2" using fr by (simp add: space_wf_def user_wf_def)
qed

section \<open>copyuvm\<close>

definition page_copied :: "mem \<Rightarrow> u32 \<Rightarrow> mem \<Rightarrow> u32 \<Rightarrow> nat \<Rightarrow> bool" where
  "page_copied m pd m' d n \<longleftrightarrow> present m' d n \<and> PTE_FLAGS (pte m' d n) = PTE_FLAGS (pte m pd n)
     \<and> (\<forall>i < 4096. m' (page_at m' d n + of_nat i) = m (page_at m pd n + of_nat i))"

text \<open>
  The copy so far: the directory \<open>d\<close> is a well-formed address space made of the pages \<open>Q\<close> that were free, with the first \<open>n\<close>
  user pages copied and no others.
\<close>

definition copy_inv :: "mem \<Rightarrow> u32 \<Rightarrow> u32 set \<Rightarrow> u32 \<Rightarrow> nat \<Rightarrow> u32 list \<Rightarrow> 'z kstate_scheme \<Rightarrow> bool" where
  "copy_inv m pd Q d n ps s \<longleftrightarrow> space_wf ps d s \<and> set ps \<union> space_pages (k_mem s) d = Q \<and> same_outside Q m (k_mem s)
     \<and> (\<forall>i < n. page_copied m pd (k_mem s) d i) \<and> (\<forall>i. n \<le> i \<longrightarrow> i < 524288 \<longrightarrow> pte (k_mem s) d i = 0)
     \<and> (\<forall>x. KERNBASE \<le> x \<longrightarrow> translate (k_mem s) d x = kernel_map x)"

text \<open>The address space that is copied lies outside \<open>Q\<close>.\<close>

definition source_ok :: "mem \<Rightarrow> u32 \<Rightarrow> u32 set \<Rightarrow> nat \<Rightarrow> bool" where
  "source_ok m pd Q N \<longleftrightarrow> page_aligned pd \<and> pd \<notin> Q \<and> (\<forall>t\<in>table_pages m pd. page_aligned t \<and> t \<noteq> 0 \<and> t \<notin> Q)
     \<and> (\<forall>n < N. present m pd n \<and> page_aligned (page_at m pd n) \<and> page_at m pd n \<notin> Q \<and> page_at m pd n < P2V PHYSTOP)"

lemma copied_entry:
  assumes "page_aligned p" and "f AND PTE_P \<noteq> 0"
  shows "P2V (PTE_ADDR (V2P p OR PTE_FLAGS f OR PTE_P)) = p" and "PTE_FLAGS (V2P p OR PTE_FLAGS f OR PTE_P) = PTE_FLAGS f"
    and "(V2P p OR PTE_FLAGS f OR PTE_P) AND PTE_P \<noteq> 0"
proof -
  have a: "page_aligned (V2P p)" using assms(1) by (rule page_aligned_V2P)
  have fl: "(PTE_FLAGS f OR PTE_P) AND NOT 0xFFF = 0"
    by (simp add: PTE_FLAGS_def PTE_P_def bit.conj_disj_distrib2 and.assoc)
  have "PTE_ADDR (V2P p OR (PTE_FLAGS f OR PTE_P)) = V2P p" using a fl by (rule PTE_ADDR_flags)
  then show "P2V (PTE_ADDR (V2P p OR PTE_FLAGS f OR PTE_P)) = p" by (simp add: or.assoc)
  have "bit f 0" using assms(2) by (simp add: PTE_P_def and_one_eq bit_0 odd_iff_mod_2_eq_one)
  then have e: "PTE_FLAGS f OR PTE_P = PTE_FLAGS f"
    by (intro bit_word_eqI) (auto simp: PTE_FLAGS_def PTE_P_def bit_simps bit_1_iff)
  have "V2P p AND NOT 0xFFF = V2P p" using PTE_ADDR_flags [OF a, of 0] by (simp add: PTE_ADDR_def)
  then have "V2P p AND 0xFFF = (V2P p AND NOT 0xFFF) AND 0xFFF" by simp
  also have "\<dots> = 0" by (simp add: and.assoc)
  finally have "V2P p AND 0xFFF = 0" .
  then show "PTE_FLAGS (V2P p OR PTE_FLAGS f OR PTE_P) = PTE_FLAGS f"
    unfolding or.assoc e by (simp add: PTE_FLAGS_def bit.conj_disj_distrib2 and.assoc)
  have "bit ((V2P p OR PTE_FLAGS f OR PTE_P) AND PTE_P) 0" by (simp add: PTE_P_def bit_simps)
  then show "(V2P p OR PTE_FLAGS f OR PTE_P) AND PTE_P \<noteq> 0" by (metis bit_0_eq bot_apply bot_bool_def)
qed

lemma memmove_page:
  assumes "page_aligned p" and "page_aligned q" and "q < P2V PHYSTOP"
  shows "same_outside {p} m (memmove p q PGSIZE m)" and "i < 4096 \<Longrightarrow> memmove p q PGSIZE m (p + of_nat i) = m (q + of_nat i)"
proof -
  have "unat q < 2382364672" using assms(3) by (simp add: word_less_nat_alt P2V_def PHYSTOP_def KERNBASE_def)
  moreover have "unat p + 4096 \<le> 2 ^ 32"
    using aligned_vpn [OF assms(1)] vpn_lt [of p] by simp
  ultimately have e: "memmove p q PGSIZE m = (\<lambda>a. if dist a p < 4096 then m (q + (a - p)) else m a)"
    using memmove_eq [of q PGSIZE p m] by (simp add: PGSIZE_def)
  show "memmove p q PGSIZE m (p + of_nat i) = m (q + of_nat i)" if "i < 4096" for i
    using dist_same_page [OF that, of p] that unfolding e by simp
  have "\<not> dist (r + of_nat i) p < 4096" if "page_aligned r" "r \<noteq> p" "i < 4096" for r i
    using dist_other_page [of r p i] that assms(1) by simp
  then show "same_outside {p} m (memmove p q PGSIZE m)" unfolding same_outside_def e by simp
qed

text \<open>The next page is mapped, and nothing else has changed.\<close>

lemma copy_inv_next:
  fixes s s2 :: "'a kstate_scheme"
  assumes inv: "copy_inv m pd Q d n (p # ps) s" and src: "source_ok m pd Q N" and n: "n < N" "N \<le> 524288"
  defines "m' \<equiv> memmove p (page_at m pd n) PGSIZE (k_mem s)" and "w \<equiv> V2P p OR PTE_FLAGS (pte m pd n) OR PTE_P"
  assumes x: "vm_ext d ps (s\<lparr>k_freelist := load32 (k_mem s) p, k_mem := m'\<rparr>) ps' s2"
    and pt: "\<forall>i < 1048576. pte (k_mem s2) d i = (if i = n then w else pte (k_mem s) d i)"
  shows "copy_inv m pd Q d (Suc n) ps' s2"
proof -
  have sp: "space_wf (p # ps) d s" and Q: "set (p # ps) \<union> space_pages (k_mem s) d = Q" and o: "same_outside Q m (k_mem s)"
    and c: "\<forall>i < n. page_copied m pd (k_mem s) d i" and z: "\<forall>i. n \<le> i \<longrightarrow> i < 524288 \<longrightarrow> pte (k_mem s) d i = 0"
    and kr: "\<forall>x. KERNBASE \<le> x \<longrightarrow> translate (k_mem s) d x = kernel_map x" using inv by (simp_all add: copy_inv_def)
  have n': "n < 524288" using n by simp
  have pg: "page_aligned (page_at m pd n)" "page_at m pd n \<notin> Q" "page_at m pd n < P2V PHYSTOP" "present m pd n"
    using src n by (simp_all add: source_ok_def)
  have k: "kmem_wf (p # ps) s" using sp by (simp add: space_wf_def user_wf_def vm_wf_def)
  have p: "page_aligned p" using free_aligned [OF k, of p] by simp
  note W = copied_entry [OF p pg(4) [unfolded present_def], folded w_def]
  note M = memmove_page [OF p pg(1,3), where m = "k_mem s", folded m'_def]
  have pt': "\<forall>i < 1048576. pte (k_mem s2) d i = (if True \<and> i = n then w else pte (k_mem s) d i)" using pt by simp
  note A = add_user_page [OF sp M(1) x n' _ pt' W(1,3)]
  have n0: "pte (k_mem s) d n = 0" using z n' by simp
  have Q2: "set ps' \<union> space_pages (k_mem s2) d = Q"
    using A(5) [OF n0] A(1) [OF n0] Q by (auto simp: space_pages_def)
  have "same_outside Q m m'" by (rule same_outside_trans [OF o M(1)]) (use Q in auto)
  then have o2: "same_outside Q m (k_mem s2)"
    by (rule same_outside_trans [OF _ vm_ext_outside [OF x, simplified]])
      (use Q take_page(4) [OF _ M(1), of ps d] sp in \<open>auto simp: space_pages_def table_pages_def space_wf_def user_wf_def\<close>)
  have "page_copied m pd (k_mem s2) d i" if i: "i < Suc n" for i
  proof (cases "i = n")
    case True
    have "page_at (k_mem s2) d n = p" using pt n' W(1) by (simp add: page_at_def)
    moreover have "k_mem s2 (p + of_nat j) = m (page_at m pd n + of_nat j)" if "j < 4096" for j
      using A(6) [OF n0, of p j] M(2) [OF that] o pg(1,2) that unfolding same_outside_def by auto
    ultimately show ?thesis using True pt n' W(2,3) by (simp add: page_copied_def present_def)
  next
    case False
    then have i: "i < n" "i < 524288" using that n' by simp_all
    then have pc: "page_copied m pd (k_mem s) d i" using c by simp
    have e: "pte (k_mem s2) d i = pte (k_mem s) d i" using pt i by simp
    then have at: "page_at (k_mem s2) d i = page_at (k_mem s) d i" by (simp add: page_at_def)
    have u: "page_at (k_mem s) d i \<in> user_pages 0 (k_mem s) d" using i pc by (auto simp: user_pages_def page_copied_def)
    then have "page_at (k_mem s) d i \<noteq> p" using A(8) [OF n0] by auto
    moreover have "page_aligned (page_at (k_mem s) d i)" using u sp by (auto simp: space_wf_def user_wf_def vm_data_def)
    ultimately have "k_mem s2 (page_at (k_mem s) d i + of_nat j) = k_mem s (page_at (k_mem s) d i + of_nat j)" if "j < 4096" for j
      using A(6) [OF n0 disjI2 [OF u] that] M(1) that unfolding same_outside_def by auto
    then show ?thesis using pc unfolding page_copied_def at present_def e by simp
  qed
  moreover have "pte (k_mem s2) d i = 0" if "Suc n \<le> i" "i < 524288" for i using pt z that by simp
  moreover have "translate (k_mem s2) d x = kernel_map x" if "KERNBASE \<le> x" for x
  proof -
    have "vpn KERNBASE = 524288" by (simp add: vpn_def KERNBASE_def)
    then have "vpn x \<noteq> n" using vpn_mono [OF that] n' by simp
    then have "pte (k_mem s2) d (vpn x) = pte (k_mem s) d (vpn x)" using pt vpn_lt [of x] by simp
    then have "translate (k_mem s2) d x = translate (k_mem s) d x" by (simp add: translate_pte)
    then show ?thesis using kr that by simp
  qed
  ultimately show ?thesis using A(2) [OF n0] Q2 o2 unfolding copy_inv_def by blast
qed

text \<open>An address space with user pages below page \<open>n\<close> only is at most so large.\<close>

lemma space_card:
  assumes "\<And>i. n \<le> i \<Longrightarrow> i < 524288 \<Longrightarrow> \<not> present m d i"
  shows "card (space_pages m d) \<le> 1025 + n"
proof -
  have sub: "user_pages 0 m d \<subseteq> page_at m d ` {..<n}"
  proof
    fix q assume "q \<in> user_pages 0 m d"
    then obtain i where i: "q = page_at m d i" "i < 524288" "present m d i" by (auto simp: user_pages_def)
    then have "i < n" using assms [of i] by (cases "n \<le> i") auto
    then show "q \<in> page_at m d ` {..<n}" using i(1) by blast
  qed
  have "card (user_pages 0 m d) \<le> card (page_at m d ` {..<n})" using sub by (intro card_mono) simp_all
  also have "\<dots> \<le> n" using card_image_le [of "{..<n}" "page_at m d"] by simp
  finally have "card (user_pages 0 m d \<union> table_pages m d) \<le> n + 1024"
    using card_Un_le [of "user_pages 0 m d" "table_pages m d"] card_table_pages [of m d] by simp
  then show ?thesis using card_insert_le_m1 [of "1025 + n" "user_pages 0 m d \<union> table_pages m d" d] by (simp add: space_pages_def)
qed

text \<open>One turn of the loop: the next page is copied, or the memory has run out and every page goes back.\<close>

lemma copyuvm_turn:
  fixes s :: "'a kstate_scheme"
  assumes inv: "copy_inv m pd Q d n ps s" and src: "source_ok m pd Q N" and n: "n < N" "N \<le> 524288"
    and sz: "of_nat (4096 * n) < sz"
  shows "(\<exists>s' :: 'a kstate_scheme. copyuvm_loop (Suc turns) pd d (of_nat (4096 * n)) sz s = Ok 0 s' \<and> gave_back Q s s' \<and> card Q \<le> 1026 + n) \<or>
    (\<exists>ps' (s' :: 'a kstate_scheme). copyuvm_loop (Suc turns) pd d (of_nat (4096 * n)) sz s = copyuvm_loop turns pd d (of_nat (4096 * Suc n)) sz s'
       \<and> copy_inv m pd Q d (Suc n) ps' s' \<and> s' = s\<lparr>k_freelist := k_freelist s', k_mem := k_mem s'\<rparr>)"
proof -
  let ?a = "of_nat (4096 * n) :: u32"
  have sp: "space_wf ps d s" and Q: "set ps \<union> space_pages (k_mem s) d = Q" and o: "same_outside Q m (k_mem s)"
    and z: "\<forall>i. n \<le> i \<longrightarrow> i < 524288 \<longrightarrow> pte (k_mem s) d i = 0" using inv by (simp_all add: copy_inv_def)
  have n': "n < 524288" "n < 1048576" using n by simp_all
  have S: "page_aligned pd" "pd \<notin> Q" "\<And>t. t \<in> table_pages m pd \<Longrightarrow> page_aligned t \<and> t \<noteq> 0 \<and> t \<notin> Q" "present m pd n"
    using src n by (auto simp: source_ok_def)
  note P = map_same_outside [OF o S(1,2)]
  have pe: "pte (k_mem s) pd n = pte m pd n" and nd: "n div 1024 < 1024" using P(2) [OF _ n'(2)] S(3) n'(2) by (auto simp: less_mult_imp_div_less)
  then have "pgtab (k_mem s) pd (n div 1024) \<noteq> None" using S(4)
    by (cases "pgtab (k_mem s) pd (n div 1024)") (simp_all add: present_def pte_def)
  then obtain t where t: "pgtab (k_mem s) pd (n div 1024) = Some t" by blast
  then have "t \<in> table_pages m pd" using P(3) S(3) nd by (auto simp: table_pages_def)
  then have e: "t + of_nat (4 * (n mod 1024)) \<noteq> 0" using S(3) by (intro page_offset_nonzero) auto
  have w: "walkpgdir pd ?a False s = Ok (t + of_nat (4 * (n mod 1024))) s"
    using walkpgdir_found [of s pd ?a t False] t vpn_of_nat [OF n'(2)] by (simp del: of_nat_mult)
  have ld: "load32 (k_mem s) (t + of_nat (4 * (n mod 1024))) = pte m pd n" using t pe by (simp add: pte_def)
  let ?rest = "\<lambda>mem. if mem = 0 then thenM (freevm d) (retM 0) else
        thenM (memmoveM mem (page_at m pd n) PGSIZE)
        (bindM (mappages d ?a PGSIZE (V2P mem) (PTE_FLAGS (pte m pd n))) (\<lambda>r.
        if sint r < 0 then thenM (kfree mem) (thenM (freevm d) (retM 0))
        else copyuvm_loop turns pd d (?a + PGSIZE) sz))"
  have run: "copyuvm_loop (Suc turns) pd d ?a sz s = bindM kalloc ?rest s"
    unfolding page_at_def using sz w e ld S(4)
    by (simp add: copyuvm_loop.simps [of "Suc turns", unfolded diff_Suc_1] bindM_run peek_def Let_def present_def del: of_nat_mult)
  have k: "kmem_wf ps s" using sp by (simp add: space_wf_def user_wf_def vm_wf_def)
  have cd: "card (space_pages (k_mem s) d) \<le> 1025 + n" using z by (intro space_card) (simp add: present_def)
  show ?thesis
  proof (cases ps)
    case Nil
    then have "card Q \<le> 1026 + n" using Q cd by simp
    moreover have "kalloc s = Ok 0 s" using Nil kmem.alloc_none [of s] k by simp
    moreover obtain s' where "freevm d s = Ok () s'" "gave_back (set ps \<union> space_pages (k_mem s) d) s s'" using freevm_gives_back [OF sp] by blast
    ultimately show ?thesis using run Q by (simp add: bindM_run thenM_run)
  next
    case (Cons p qs)
    let ?m = "memmove p (page_at m pd n) PGSIZE (k_mem s)"
    let ?u = "s\<lparr>k_freelist := load32 (k_mem s) p, k_mem := ?m\<rparr>"
    have k: "kmem_wf (p # qs) s" using k Cons by simp
    have sp': "space_wf (p # qs) d s" and inv': "copy_inv m pd Q d n (p # qs) s" using sp inv Cons by simp_all
    have p: "p \<noteq> 0" "page_aligned p" using free_aligned [OF k, of p] by simp_all
    have pg: "page_aligned (page_at m pd n)" "page_at m pd n < P2V PHYSTOP" using src n by (simp_all add: source_ok_def)
    note M = memmove_page [OF p(2) pg, where m = "k_mem s"]
    have "vm_wf (p # qs) d s" using sp' by (simp add: space_wf_def user_wf_def)
    note T = take_page [OF this M(1)]
    have va: "vpn ?a = n" "vpn (?a + PGSIZE - 1) = n" "PGSIZE \<noteq> 0" "unat ?a + unat PGSIZE \<le> 2 ^ 32"
    proof -
      have u: "unat ?a = 4096 * n" using n' by (intro unat_of_nat_u32) simp
      then show "vpn ?a = n" "PGSIZE \<noteq> 0" "unat ?a + unat PGSIZE \<le> 2 ^ 32" using n' by (simp_all add: vpn_def PGSIZE_def del: of_nat_mult)
      then have "unat (?a + PGSIZE - 1) = 4096 * n + 4095" using unat_last [of PGSIZE ?a] u by (simp add: PGSIZE_def del: of_nat_mult)
      then show "vpn (?a + PGSIZE - 1) = n" by (simp add: vpn_def)
    qed
    have fr: "pte (k_mem ?u) d i AND PTE_P = 0" if "vpn ?a \<le> i" "i \<le> vpn (?a + PGSIZE - 1)" for i
      using T(5) [of n] z n' that va by simp
    obtain r j ps2 and s2 :: "'a kstate_scheme" where
      mp: "mappages d ?a PGSIZE (V2P p) (PTE_FLAGS (pte m pd n)) ?u = Ok r s2" "vm_ext d qs ?u ps2 s2"
        "mapped d n j (V2P p) (PTE_FLAGS (pte m pd n)) (k_mem ?u) (k_mem s2)" "r = 0 \<and> j = 1 \<or> r = -1 \<and> j = 0 \<and> ps2 = []"
      using mappages_mapped [OF T(1) va(3,4) fr, of "V2P p" "PTE_FLAGS (pte m pd n)"] unfolding va(1,2) by auto
    define w where "w = V2P p OR PTE_FLAGS (pte m pd n) OR PTE_P"
    have pt: "\<forall>i < 1048576. pte (k_mem s2) d i = (if r = 0 \<and> i = n then w else pte (k_mem s) d i)"
      using mp(3,4) T(5) unfolding mapped_def w_def by (auto split: if_split_asm)
    have kal: "kalloc s = Ok p (s\<lparr>k_freelist := load32 (k_mem s) p\<rparr>)" by (rule kalloc_wf [OF k])
    have frm: "s2 = s\<lparr>k_freelist := k_freelist s2, k_mem := k_mem s2\<rparr>"
      by (rule mem_frame_trans [of s2 ?u]) (use mp(2) in \<open>simp_all add: vm_ext_def\<close>)
    show ?thesis
    proof (cases "r = 0")
      case True
      have nx: "?a + PGSIZE = of_nat (4096 * Suc n)" by (simp add: PGSIZE_def algebra_simps)
      have "copyuvm_loop (Suc turns) pd d ?a sz s = copyuvm_loop turns pd d (?a + PGSIZE) sz s2"
        unfolding run using kal p(1) mp(1) True by (simp add: bindM_run thenM_run memmoveM_def del: of_nat_mult)
      then have "copyuvm_loop (Suc turns) pd d ?a sz s = copyuvm_loop turns pd d (of_nat (4096 * Suc n)) sz s2" unfolding nx .
      moreover have "copy_inv m pd Q d (Suc n) ps2 s2"
        using copy_inv_next [OF inv' src n mp(2)] pt True by (simp add: w_def)
      ultimately show ?thesis using frm by blast
    next
      case False
      then have r: "r = -1" "ps2 = []" using mp(4) by simp_all
      note W = copied_entry [OF p(2) S(4) [unfolded present_def], folded w_def]
      have n0: "pte (k_mem s) d n = 0" using z n' by simp
      note A = add_user_page [OF sp' M(1) mp(2) n'(1) n0 pt W(1,3)]
      have A4: "p \<notin> space_pages (k_mem s2) d" using A(4) False by simp
      note F = space_wf_freed [OF A(2,7,3) A4]
      from freevm_gives_back [OF F(1)] obtain s3 where f: "freevm d (freed p s2) = Ok () s3" "gave_back (set (p # ps2) \<union> space_pages (k_mem s2) d) (freed p s2) s3"
        unfolding F(2) by blast
      have Q2: "set (p # ps2) \<union> space_pages (k_mem s2) d = Q" using A(5) Q Cons by auto
      have "copyuvm_loop (Suc turns) pd d ?a sz s = Ok 0 s3"
        unfolding run using kal p(1) mp(1) r(1) F(3) f(1) by (simp add: bindM_run thenM_run memmoveM_def)
      moreover have "card Q \<le> 1026 + n"
      proof -
        have "card (space_pages (k_mem s2) d) \<le> 1025 + n" using pt z False by (intro space_card) (simp add: present_def)
        moreover have "Q = insert p (space_pages (k_mem s2) d)" using Q2 r(2) by simp
        ultimately show ?thesis using card_insert_le_m1 [of "1026 + n" "space_pages (k_mem s2) d" p] by simp
      qed
      moreover have "gave_back Q s s3"
      proof -
        have "same_outside Q (k_mem s) ?m" by (rule same_outside_trans [OF M(1) same_outside_refl [where X = "{}"]]) (use Q Cons in auto)
        then have o1: "same_outside Q (k_mem s) (k_mem ?u)" by simp
        have "insert d (set qs \<union> table_pages (k_mem ?u) d) \<subseteq> Q"
          using Q Cons T(4) by (auto simp: space_pages_def table_pages_def)
        then have "same_outside Q (k_mem s) (k_mem s2)" by (intro same_outside_trans [OF o1 vm_ext_outside [OF mp(2)]]) auto
        then have "same_outside Q (k_mem s) (k_mem (freed p s2))" using p(2) by (rule same_outside_freed) (use Q Cons in auto)
        then have "same_outside Q (k_mem s) (k_mem s3)" using f(2) unfolding Q2 by (auto simp: gave_back_def intro: same_outside_trans)
        moreover have "freed p s2 = s\<lparr>k_freelist := k_freelist (freed p s2), k_mem := k_mem (freed p s2)\<rparr>"
          by (rule mem_frame_trans [OF _ frm]) (simp add: freed_def)
        then have "s3 = s\<lparr>k_freelist := k_freelist s3, k_mem := k_mem s3\<rparr>" using f(2) by (auto simp: gave_back_def intro: mem_frame_trans)
        ultimately show ?thesis using f(2) Q2 by (simp add: gave_back_def)
      qed
      ultimately show ?thesis by blast
    qed
  qed
qed

lemma copyuvm_loop_copies:
  fixes s :: "'a kstate_scheme"
  assumes "copy_inv m pd Q d n ps s" and "source_ok m pd Q N" and "N \<le> 524288" and "n \<le> N" and "N - n \<le> turns"
    and "\<And>k. k \<le> N \<Longrightarrow> of_nat (4096 * k) < sz \<longleftrightarrow> k < N"
  shows "\<exists>r (s' :: 'a kstate_scheme). copyuvm_loop turns pd d (of_nat (4096 * n)) sz s = Ok r s' \<and>
    (r = 0 \<and> gave_back Q s s' \<and> card Q \<le> 1025 + N
     \<or> r = d \<and> (\<exists>ps'. copy_inv m pd Q d N ps' s') \<and> s' = s\<lparr>k_freelist := k_freelist s', k_mem := k_mem s'\<rparr>)"
  using assms
proof (induction turns arbitrary: n ps s)
  case (0 n ps s)
  then have "copyuvm_loop 0 pd d (of_nat (4096 * n)) sz s = Ok d s" "n = N"
    by (simp_all add: copyuvm_loop.simps [of 0] del: of_nat_mult)
  then show ?case using 0(1) by auto
next
  case (Suc turns n ps s)
  show ?case
  proof (cases "n = N")
    case True
    then have "copyuvm_loop (Suc turns) pd d (of_nat (4096 * n)) sz s = Ok d s"
      using Suc.prems(6) [of N] by (simp add: copyuvm_loop.simps [of "Suc turns"] del: of_nat_mult)
    moreover have "\<exists>ps'. copy_inv m pd Q d N ps' s" using Suc.prems(1) True by blast
    ultimately show ?thesis by simp
  next
    case False
    then have n: "n < N" using Suc.prems(4) by simp
    then have "of_nat (4096 * n) < sz" using Suc.prems(6) [of n] by simp
    from copyuvm_turn [OF Suc.prems(1,2) n Suc.prems(3) this, of turns] show ?thesis
    proof (elim disjE exE conjE)
      fix s' :: "'a kstate_scheme"
      assume "copyuvm_loop (Suc turns) pd d (of_nat (4096 * n)) sz s = Ok 0 s'" "gave_back Q s s'" "card Q \<le> 1026 + n"
      then show ?thesis using n by (intro exI [of _ 0] exI [of _ s']) simp
    next
      fix ps1 and s1 :: "'a kstate_scheme"
      assume e: "copyuvm_loop (Suc turns) pd d (of_nat (4096 * n)) sz s = copyuvm_loop turns pd d (of_nat (4096 * Suc n)) sz s1"
        and i: "copy_inv m pd Q d (Suc n) ps1 s1" and f: "s1 = s\<lparr>k_freelist := k_freelist s1, k_mem := k_mem s1\<rparr>"
      have "Suc n \<le> N" "N - Suc n \<le> turns" using n Suc.prems(5) by simp_all
      from Suc.IH [OF i Suc.prems(2,3) this Suc.prems(6)] obtain r and s' :: "'a kstate_scheme" where
        l: "copyuvm_loop turns pd d (of_nat (4096 * Suc n)) sz s1 = Ok r s'" and
        c: "r = 0 \<and> gave_back Q s1 s' \<and> card Q \<le> 1025 + N
          \<or> r = d \<and> (\<exists>ps'. copy_inv m pd Q d N ps' s') \<and> s' = s1\<lparr>k_freelist := k_freelist s', k_mem := k_mem s'\<rparr>" by blast
      have o: "same_outside Q (k_mem s) (k_mem s')" if "same_outside Q m (k_mem s')"
        using Suc.prems(1) that unfolding copy_inv_def same_outside_def by metis
      have "gave_back Q s s'" if g: "gave_back Q s1 s'"
      proof -
        have "same_outside Q m (k_mem s1)" "same_outside Q (k_mem s1) (k_mem s')" using i g by (simp_all add: copy_inv_def gave_back_def)
        then have "same_outside Q (k_mem s) (k_mem s')" by (intro o) (auto intro: same_outside_trans)
        then show ?thesis using g mem_frame_trans [OF _ f] by (auto simp: gave_back_def)
      qed
      moreover have "s' = s\<lparr>k_freelist := k_freelist s', k_mem := k_mem s'\<rparr>" if "s' = s1\<lparr>k_freelist := k_freelist s', k_mem := k_mem s'\<rparr>"
        using that f by (rule mem_frame_trans)
      ultimately show ?thesis using e l c by auto
    qed
  qed
qed

lemma source_of_space:
  assumes sp: "space_wf ps pd s" and im: "kernel_image s" and pages: "\<forall>n < N. present (k_mem s) pd n" and N: "N \<le> 524288"
  shows "source_ok (k_mem s) pd (set ps) N"
proof -
  have wf: "vm_wf ps pd s" and ke: "KERNBASE < k_end s" using sp by (simp_all add: space_wf_def user_wf_def)
  have "page_aligned q \<and> q \<notin> set ps \<and> q < P2V PHYSTOP" if q: "q \<in> user_pages 0 (k_mem s) pd" for q
  proof -
    have f: "free_page (k_end s) q" and "vm_data ps pd (k_mem s) q" using sp q by (simp_all add: space_wf_def user_wf_def)
    have "k_end s \<le> q" "V2P q < PHYSTOP" using f by (auto simp: free_page_def)
    then have "KERNBASE \<le> q" "unat (q - KERNBASE) < unat PHYSTOP" using order_trans [OF less_imp_le [OF ke]] by (auto simp: V2P_def word_less_nat_alt)
    then have "unat q < unat KERNBASE + unat PHYSTOP" using unat_sub [of KERNBASE q] by (simp add: word_le_nat_alt)
    then have "q < P2V PHYSTOP" by (simp add: word_less_nat_alt P2V_def KERNBASE_def PHYSTOP_def)
    then show ?thesis using \<open>vm_data ps pd (k_mem s) q\<close> by (simp add: vm_data_def)
  qed
  moreover have "page_at (k_mem s) pd n \<in> user_pages 0 (k_mem s) pd" if "n < N" for n using that pages N by (auto simp: user_pages_def)
  moreover have "page_aligned t \<and> t \<noteq> 0 \<and> t \<notin> set ps" if "t \<in> table_pages (k_mem s) pd" for t
    using wf that by (auto simp: vm_wf_def table_pages_def)
  ultimately show ?thesis using wf pages by (simp add: source_ok_def vm_wf_def)
qed

text \<open>What a copy that is complete gives to a program.\<close>

lemma copy_complete:
  assumes inv: "copy_inv m pd Q d N ps s" and N: "N \<le> 524288" and pages: "\<forall>n < N. present m pd n"
  shows "vpn x < N \<Longrightarrow> \<exists>y y'. translate m pd x = Some y \<and> translate (k_mem s) d x = Some y' \<and> k_mem s y' = m y
      \<and> PTE_FLAGS (pte (k_mem s) d (vpn x)) = PTE_FLAGS (pte m pd (vpn x))"
    and "N \<le> vpn x \<Longrightarrow> translate (k_mem s) d x = kernel_map x"
proof -
  assume x: "vpn x < N"
  then have c: "page_copied m pd (k_mem s) d (vpn x)" using inv by (simp add: copy_inv_def)
  have "x AND 0xFFF = take_bit 12 x" by (simp add: take_bit_eq_mask mask_eq_exp_minus_1)
  then have "unat (x AND 0xFFF) < 4096" using take_bit_nat_less_exp [of 12 "unat x"] by (simp add: unsigned_take_bit_eq)
  then have "k_mem s (page_at (k_mem s) d (vpn x) + of_nat (unat (x AND 0xFFF))) = m (page_at m pd (vpn x) + of_nat (unat (x AND 0xFFF)))"
    using c unfolding page_copied_def by blast
  then have o: "k_mem s (page_at (k_mem s) d (vpn x) + (x AND 0xFFF)) = m (page_at m pd (vpn x) + (x AND 0xFFF))" by simp
  show "\<exists>y y'. translate m pd x = Some y \<and> translate (k_mem s) d x = Some y' \<and> k_mem s y' = m y
      \<and> PTE_FLAGS (pte (k_mem s) d (vpn x)) = PTE_FLAGS (pte m pd (vpn x))"
    using o c pages x by (simp add: page_copied_def translate_pte present_def page_at_def Let_def)
next
  assume x: "N \<le> vpn x"
  show "translate (k_mem s) d x = kernel_map x"
  proof (cases "KERNBASE \<le> x")
    case True
    then show ?thesis using inv by (simp add: copy_inv_def)
  next
    case False
    then have lt: "unat x < 2147483648" by (simp add: word_le_nat_alt KERNBASE_def)
    then have "vpn x < 524288" by (simp add: vpn_def less_mult_imp_div_less)
    then have "pte (k_mem s) d (vpn x) = 0" using inv x by (simp add: copy_inv_def)
    moreover have "\<not> DEVSPACE \<le> x" using lt by (simp add: word_le_nat_alt DEVSPACE_def)
    ultimately show ?thesis using False by (simp add: translate_pte kernel_map_def)
  qed
qed

text \<open>\<open>N\<close> is the number of pages up to the size \<open>sz\<close>.\<close>

lemma copyuvm_run:
  fixes s :: "'a kstate_scheme"
  assumes "space_wf ps pd s" and "kernel_image s" and N: "N \<le> 524288" "N \<le> Suc (unat sz div 4096)"
    and pages: "\<forall>n < N. present (k_mem s) pd n" and below: "\<And>k. 4096 * k < unat sz \<longleftrightarrow> k < N"
  shows "\<exists>r (s' :: 'a kstate_scheme). copyuvm pd sz s = Ok r s' \<and>
    (r = 0 \<and> gave_back (set ps) s s' \<and> length ps \<le> 1025 + N
     \<or> r \<noteq> 0 \<and> s' = s\<lparr>k_freelist := k_freelist s', k_mem := k_mem s'\<rparr> \<and> (\<exists>ps'. copy_inv (k_mem s) pd (set ps) r N ps' s'))"
proof -
  have turns: "of_nat (4096 * k) < sz \<longleftrightarrow> k < N" if "k \<le> N" for k
  proof -
    have "unat (of_nat (4096 * k) :: u32) = 4096 * k" using that N(1) by (intro unat_of_nat_u32) simp
    then show ?thesis unfolding word_less_nat_alt by (simp only: below)
  qed
  have k: "kmem_wf ps s" using assms(1) by (simp add: space_wf_def user_wf_def vm_wf_def)
  then have cd: "card (set ps) = length ps" by (simp add: kmem_wf_def distinct_card)
  from setupkvm_maps [OF k assms(2)] obtain r1 and s1 :: "'a kstate_scheme" where s1: "setupkvm s = Ok r1 s1"
      "s1 = s\<lparr>k_freelist := k_freelist s1, k_mem := k_mem s1\<rparr>" "same_outside (set ps) (k_mem s) (k_mem s1)"
    and c: "r1 = 0 \<and> (\<exists>ps'. kmem_wf ps' s1 \<and> set ps' = set ps) \<and> card (set ps) \<le> 1025
       \<or> r1 \<noteq> 0 \<and> (\<exists>ps'. space_wf ps' r1 s1 \<and> set ps = set ps' \<union> space_pages (k_mem s1) r1) \<and> (\<forall>n < 524288. pte (k_mem s1) r1 n = 0)
         \<and> (\<forall>x. translate (k_mem s1) r1 x = kernel_map x)" by blast
  show ?thesis
  proof (cases "r1 = 0")
    case True
    then have "copyuvm pd sz s = Ok 0 s1" using s1(1) by (simp add: copyuvm_def bindM_run)
    then show ?thesis using s1(2,3) c True cd by (intro exI [of _ 0] exI [of _ s1]) (simp add: gave_back_def)
  next
    case False
    then obtain ps1 where "space_wf ps1 r1 s1" "set ps = set ps1 \<union> space_pages (k_mem s1) r1" "\<forall>n < 524288. pte (k_mem s1) r1 n = 0"
        "\<forall>x. translate (k_mem s1) r1 x = kernel_map x" using c by blast
    then have inv: "copy_inv (k_mem s) pd (set ps) r1 0 ps1 s1" using s1(3) by (simp add: copy_inv_def)
    have "copyuvm pd sz s = copyuvm_loop (Suc (unat sz div 4096)) pd r1 (of_nat (4096 * 0)) sz s1"
      using s1(1) False by (simp add: copyuvm_def bindM_run)
    moreover have "N - 0 \<le> Suc (unat sz div 4096)" using N(2) by simp
    from copyuvm_loop_copies [OF inv source_of_space [OF assms(1,2) pages N(1)] N(1) _ this turns] obtain r and s' :: "'a kstate_scheme" where
      l: "copyuvm_loop (Suc (unat sz div 4096)) pd r1 (of_nat (4096 * 0)) sz s1 = Ok r s'" and
      e: "r = 0 \<and> gave_back (set ps) s1 s' \<and> card (set ps) \<le> 1025 + N
         \<or> r = r1 \<and> (\<exists>ps'. copy_inv (k_mem s) pd (set ps) r1 N ps' s') \<and> s' = s1\<lparr>k_freelist := k_freelist s', k_mem := k_mem s'\<rparr>" by auto
    moreover have "gave_back (set ps) s s'" if "gave_back (set ps) s1 s'"
      using that mem_frame_trans [OF _ s1(2), of s'] s1(3) by (auto simp: gave_back_def intro: same_outside_trans)
    ultimately show ?thesis using False cd mem_frame_trans [OF _ s1(2), of s'] by auto
  qed
qed

text \<open>
  C14: \<open>copyuvm\<close> for a well-formed address space whose pages up to the size \<open>sz\<close> are all present, as \<open>fork\<close> calls it. It returns, and
  every page that was not free keeps its contents, those of the parent among them. When it returns 0, the free pages are those
  of before, and there were too few. Otherwise it returns a directory, made of pages that were free, in which every address below
  the size has the byte that the parent has there, with the same rights, in memory of its own, and every other address
  translates as in the kernel.
\<close>
theorem copyuvm_copies:
  fixes s :: "'a kstate_scheme"
  assumes "space_wf ps pd s" and "kernel_image s" and "sz \<le> KERNBASE" and "\<forall>n. 4096 * n < unat sz \<longrightarrow> present (k_mem s) pd n"
  shows "\<exists>r (s' :: 'a kstate_scheme). copyuvm pd sz s = Ok r s' \<and> s' = s\<lparr>k_freelist := k_freelist s', k_mem := k_mem s'\<rparr>
    \<and> same_outside (set ps) (k_mem s) (k_mem s')
    \<and> (r = 0 \<and> (\<exists>ps'. kmem_wf ps' s' \<and> set ps' = set ps) \<and> length ps \<le> 1026 + unat sz div 4096
       \<or> r \<noteq> 0 \<and> (\<exists>ps'. space_wf ps' r s' \<and> set ps = set ps' \<union> space_pages (k_mem s') r)
         \<and> (\<forall>x. if 4096 * vpn x < unat sz
              then \<exists>y y'. translate (k_mem s) pd x = Some y \<and> translate (k_mem s') r x = Some y' \<and> k_mem s' y' = k_mem s y
                \<and> PTE_FLAGS (pte (k_mem s') r (vpn x)) = PTE_FLAGS (pte (k_mem s) pd (vpn x))
              else translate (k_mem s') r x = kernel_map x))"
proof -
  define N where "N = (unat sz + 4095) div 4096"
  have "unat sz \<le> 2147483648" using assms(3) by (simp add: word_le_nat_alt KERNBASE_def)
  then have N: "N \<le> 524288" "N \<le> Suc (unat sz div 4096)" by (simp_all add: N_def)
  have below: "4096 * k < unat sz \<longleftrightarrow> k < N" for k by (auto simp: N_def)
  have pages: "\<forall>n < N. present (k_mem s) pd n" using assms(4) by (simp add: below)
  from copyuvm_run [OF assms(1,2) N pages below] obtain r and s' :: "'a kstate_scheme" where run: "copyuvm pd sz s = Ok r s'" and
    c: "r = 0 \<and> gave_back (set ps) s s' \<and> length ps \<le> 1025 + N
     \<or> r \<noteq> 0 \<and> s' = s\<lparr>k_freelist := k_freelist s', k_mem := k_mem s'\<rparr> \<and> (\<exists>ps'. copy_inv (k_mem s) pd (set ps) r N ps' s')" by blast
  from c show ?thesis
  proof (elim disjE conjE exE)
    assume "r = 0" "gave_back (set ps) s s'" "length ps \<le> 1025 + N"
    then show ?thesis using run N(2) by (intro exI [of _ r] exI [of _ s']) (simp add: gave_back_def)
  next
    fix ps' assume r: "r \<noteq> 0" "s' = s\<lparr>k_freelist := k_freelist s', k_mem := k_mem s'\<rparr>" and i: "copy_inv (k_mem s) pd (set ps) r N ps' s'"
    moreover have "same_outside (set ps) (k_mem s) (k_mem s')" "\<exists>ps'. space_wf ps' r s' \<and> set ps = set ps' \<union> space_pages (k_mem s') r"
      using i by (auto simp: copy_inv_def)
    ultimately show ?thesis using run copy_complete [OF i N(1) pages] by (intro exI [of _ r] exI [of _ s']) (simp add: below)
  qed
qed

section \<open>Witness\<close>

text \<open>The address space of the example before, page 0 mapped, with 1100 free pages from \<open>0x80400000\<close> on.\<close>

lemma freed_many:
  assumes "space_wf ps d s" and "distinct qs" and "\<forall>q\<in>set qs. free_page (k_end s) q \<and> q \<notin> set ps \<union> space_pages (k_mem s) d"
  shows "space_wf (rev qs @ ps) d (fold freed qs s) \<and> (\<forall>n < 1048576. pte (k_mem (fold freed qs s)) d n = pte (k_mem s) d n)
    \<and> k_end (fold freed qs s) = k_end s \<and> k_data (fold freed qs s) = k_data s"
  using assms
proof (induction qs arbitrary: ps s)
  case (Cons q qs)
  have q: "free_page (k_end s) q" "q \<notin> set ps" "q \<notin> space_pages (k_mem s) d" using Cons.prems(3) by auto
  note F = space_wf_freed [OF Cons.prems(1) q]
  have e: "k_end (freed q s) = k_end s" "k_data (freed q s) = k_data s" by (simp_all add: freed_def)
  have wf: "vm_wf ps d s" using Cons.prems(1) by (simp add: space_wf_def user_wf_def)
  have "vm_data ps d (k_mem s) q" using q free_page_aligned [OF q(1)] by (auto simp: vm_data_def space_pages_def table_pages_def)
  note P = freed_same_map(2) [OF wf this q(1)]
  have "\<forall>r\<in>set qs. free_page (k_end (freed q s)) r \<and> r \<notin> set (q # ps) \<union> space_pages (k_mem (freed q s)) d"
    using Cons.prems(2,3) F(2) e by auto
  from Cons.IH [OF F(1) _ this] show ?case using Cons.prems(2) P e by simp
qed simp

definition demo_fork :: kstate where
  "demo_fork = fold freed (pages_from (KERNBASE + 0x400000) 1100) (demo_space\<lparr>k_data := KERNBASE + 0x200000\<rparr>)"

lemma demo_fork_wf:
  "space_wf (rev (pages_from (KERNBASE + 0x400000) 1100)) demo_D demo_fork" "present (k_mem demo_fork) demo_D 0" "kernel_image demo_fork"
proof -
  let ?s = "demo_space\<lparr>k_data := KERNBASE + 0x200000\<rparr>" and ?p = "KERNBASE + 0x400000 :: u32"
  have sp: "space_wf [] demo_D ?s" and pg: "space_pages (k_mem ?s) demo_D = {demo_D, demo_P, demo_T}"
    using demo_space_wf space_wf_cong [of ?s demo_space "[]" demo_D] by (simp_all add: space_wf_def user_wf_def vm_wf_def kmem_wf_def)
  have ke: "k_end ?s = KERNBASE + 0x300000" by (simp add: demo_space_def demo_table_def set_pte_def demo_vm_def freed_def kboot_def)
  have dist: "distinct (pages_from ?p 1100)" by (intro distinct_pages_from) (simp add: KERNBASE_def)
  have "free_page (k_end ?s) q \<and> q \<notin> set [] \<union> space_pages (k_mem ?s) demo_D" if q: "q \<in> set (pages_from ?p 1100)" for q
  proof -
    obtain i where i: "i < 1100" "q = ?p + of_nat i * PGSIZE" using q unfolding pages_from_def set_map set_upt by auto
    then have u: "unat q = 2151677952 + 4096 * i" using unat_page_add [of ?p i] by (simp add: KERNBASE_def)
    have "free_page (k_end ?s) q" unfolding ke
      using u i(1) by (intro free_page_range) (simp_all add: page_aligned_def word_le_nat_alt word_less_nat_alt KERNBASE_def PHYSTOP_def)
    moreover have "q \<noteq> demo_D" "q \<noteq> demo_P" "q \<noteq> demo_T" using u by (auto simp: KERNBASE_def)
    ultimately show ?thesis using pg by simp
  qed
  then have "\<forall>q\<in>set (pages_from ?p 1100). free_page (k_end ?s) q \<and> q \<notin> set [] \<union> space_pages (k_mem ?s) demo_D" by blast
  note F = freed_many [OF sp dist this, folded demo_fork_def]
  show "space_wf (rev (pages_from ?p 1100)) demo_D demo_fork" using F by simp
  show "present (k_mem demo_fork) demo_D 0"
    using F demo_space_map(3) [of 0] table_entry_props(2) [of demo_P] by (simp add: present_def)
  show "kernel_image demo_fork"
    using F ke by (simp add: kernel_image_def page_aligned_def KERNBASE_def KERNLINK_def EXTMEM_def P2V_def PHYSTOP_def)
qed

theorem copyuvm_copies_witness:
  "\<exists>r s'. copyuvm demo_D 4096 demo_fork = Ok r s' \<and> r \<noteq> 0
     \<and> (\<exists>y y'. translate (k_mem demo_fork) demo_D 7 = Some y \<and> translate (k_mem s') r 7 = Some y' \<and> k_mem s' y' = k_mem demo_fork y)
     \<and> translate (k_mem s') r 4096 = None \<and> translate (k_mem s') r KERNBASE = Some KERNBASE"
proof -
  have le: "(4096 :: u32) \<le> KERNBASE" by (simp add: KERNBASE_def)
  have pr: "\<forall>n. 4096 * n < unat (4096 :: u32) \<longrightarrow> present (k_mem demo_fork) demo_D n" using demo_fork_wf(2) by simp
  have v: "vpn 7 = 0" "vpn 4096 = 1" "vpn KERNBASE = 524288" by (simp_all add: vpn_def KERNBASE_def)
  have m: "kernel_map 4096 = None" "kernel_map KERNBASE = Some KERNBASE" by (simp_all add: kernel_map_def KERNBASE_def P2V_def PHYSTOP_def DEVSPACE_def)
  have "length (rev (pages_from (KERNBASE + 0x400000) 1100)) = 1100" by (simp add: pages_from_def)
  then show ?thesis
    using copyuvm_copies [OF demo_fork_wf(1,3) le pr] m
    by (elim exE) (auto dest!: spec [of _ 7] simp: v)
qed

end
