(* ===== verification/Mp.thy ===== *)
theory Mp
  imports Kalloc
begin

text \<open>
  The search for the other processors, \<open>mp.c\<close>: the floating pointer structure in low memory, the configuration table it leads to,
  and the entries of the table, each kind of its own length. Structures are read at the offsets of their fields. The array
  \<open>cpus\<close> is the list of the \<open>apicid\<close> of its first \<open>ncpu\<close> entries, and port output is kept as a list.
\<close>

record kmp =
  mp_mem :: mem
  cpu_apicids :: "u8 list"
  ioapicid :: u8
  lapic :: u32
  mp_outs :: "(u16 \<times> u8) list"

definition NCPU :: nat where "NCPU = 8"
definition MPPROC :: u8 where "MPPROC = 0"
definition MPBUS :: u8 where "MPBUS = 1"
definition MPIOAPIC :: u8 where "MPIOAPIC = 2"
definition MPIOINTR :: u8 where "MPIOINTR = 3"
definition MPLINTR :: u8 where "MPLINTR = 4"
definition sizeof_mp :: nat where "sizeof_mp = 16"
definition sizeof_mpconf :: u32 where "sizeof_mpconf = 44"
definition sizeof_mpproc :: nat where "sizeof_mpproc = 20"
definition sizeof_mpioapic :: nat where "sizeof_mpioapic = 8"

section \<open>Finding the table\<close>

text \<open>The sum is an \<open>int\<close>; the result is its low byte.\<close>

fun sum_loop :: "mem \<Rightarrow> u32 \<Rightarrow> nat \<Rightarrow> u32 \<Rightarrow> u32" where
  "sum_loop m addr 0 acc = acc"
| "sum_loop m addr (Suc len) acc = sum_loop m (addr + 1) len (acc + ucast (m addr))"

definition sum_bytes :: "mem \<Rightarrow> u32 \<Rightarrow> nat \<Rightarrow> u8" where
  "sum_bytes m addr len = ucast (sum_loop m addr len 0)"

definition signature :: "string \<Rightarrow> u8 list" where
  "signature s = map of_char s"

text \<open>The areas searched are multiples of the structure long and do not reach the end of the address space.\<close>

fun mpsearch1_loop :: "mem \<Rightarrow> u32 \<Rightarrow> nat \<Rightarrow> u32" where
  "mpsearch1_loop m p 0 = 0"
| "mpsearch1_loop m p (Suc n) =
     (if bytes m p 4 = signature ''_MP_'' \<and> sum_bytes m p sizeof_mp = 0 then p
      else mpsearch1_loop m (p + of_nat sizeof_mp) n)"

definition mpsearch1 :: "u32 \<Rightarrow> nat \<Rightarrow> mem \<Rightarrow> u32" where
  "mpsearch1 a len m = mpsearch1_loop m (P2V a) (len div sizeof_mp)"

definition mpsearch :: "mem \<Rightarrow> u32" where
  "mpsearch m =
     (let bda = P2V 0x400;
          p = push_bit 4 (or (push_bit 8 (ucast (m (bda + 0x0F)))) (ucast (m (bda + 0x0E)))) :: u32;
          mp = (if p \<noteq> 0 then mpsearch1 p 1024 m
                else let p = or (push_bit 8 (ucast (m (bda + 0x14)))) (ucast (m (bda + 0x13))) * 1024 :: u32
                     in mpsearch1 (p - 1024) 1024 m)
      in if mp \<noteq> 0 then mp else mpsearch1 0xF0000 0x10000 m)"

definition conf_length :: "mem \<Rightarrow> u32 \<Rightarrow> nat" where
  "conf_length m conf = unat (or (push_bit 8 (ucast (m (conf + 5)))) (ucast (m (conf + 4))) :: u16)"

text \<open>The structure found and the table, or nothing.\<close>

definition mpconfig :: "mem \<Rightarrow> (u32 \<times> u32) option" where
  "mpconfig m =
     (let mp = mpsearch m
      in if mp = 0 \<or> load32 m (mp + 4) = 0 then None
         else let conf = P2V (load32 m (mp + 4))
              in if bytes m conf 4 \<noteq> signature ''PCMP'' then None
                 else if m (conf + 6) \<noteq> 1 \<and> m (conf + 6) \<noteq> 4 then None
                 else if sum_bytes m conf (conf_length m conf) \<noteq> 0 then None
                 else Some (mp, conf))"

section \<open>Reading the table\<close>

text \<open>
  The loop over the entries. The \<open>break\<close> in the default case leaves the \<open>switch\<close> only: the loop goes on with the same entry.
\<close>

fun mpinit_loop :: "nat \<Rightarrow> u32 \<Rightarrow> u32 \<Rightarrow> bool \<Rightarrow> kmp \<Rightarrow> (bool, kmp) res" where
  "mpinit_loop 0 p e ismp = Spins"
| "mpinit_loop (Suc turns) p e ismp =
     (if \<not> p < e then retM ismp else
      bindM (getM (\<lambda>s. mp_mem s p)) (\<lambda>kind.
      if kind = MPPROC then
        bindM (getM (\<lambda>s. mp_mem s (p + 1))) (\<lambda>apicid.
        bindM (modM (\<lambda>s. if length (cpu_apicids s) < NCPU then s\<lparr>cpu_apicids := cpu_apicids s @ [apicid]\<rparr> else s)) (\<lambda>_.
        mpinit_loop turns (p + of_nat sizeof_mpproc) e ismp))
      else if kind = MPIOAPIC then
        bindM (modM (\<lambda>s. s\<lparr>ioapicid := mp_mem s (p + 1)\<rparr>)) (\<lambda>_.
        mpinit_loop turns (p + of_nat sizeof_mpioapic) e ismp)
      else if kind = MPBUS \<or> kind = MPIOINTR \<or> kind = MPLINTR then mpinit_loop turns (p + 8) e ismp
      else mpinit_loop turns p e False))"

text \<open>\<open>imcr\<close> is what the port 0x23 reads.\<close>

definition mpinit :: "nat \<Rightarrow> u8 \<Rightarrow> kmp \<Rightarrow> (unit, kmp) res" where
  "mpinit turns imcr =
     bindM (getM (\<lambda>s. mpconfig (mp_mem s))) (\<lambda>r. case r of
       None \<Rightarrow> panic ''Expect to run on an SMP''
     | Some (mp, conf) \<Rightarrow>
         bindM (modM (\<lambda>s. s\<lparr>lapic := load32 (mp_mem s) (conf + 36)\<rparr>)) (\<lambda>_.
         bindM (getM (\<lambda>s. conf + of_nat (conf_length (mp_mem s) conf))) (\<lambda>e.
         bindM (mpinit_loop turns (conf + sizeof_mpconf) e True) (\<lambda>ismp.
         if \<not> ismp then panic ''Didn't find a suitable machine'' else
         bindM (getM (\<lambda>s. mp_mem s (mp + 12))) (\<lambda>imcrp.
         whenM (imcrp \<noteq> 0) (modM (\<lambda>s. s\<lparr>mp_outs := mp_outs s @ [(0x22, 0x70), (0x23, or imcr 1)]\<rparr>)))))))"

section \<open>What the table says\<close>

datatype mp_entry = Processor u8 | Io_Apic u8 | Other_Entry

definition entry_at :: "mem \<Rightarrow> u32 \<Rightarrow> mp_entry \<Rightarrow> bool" where
  "entry_at m p x \<longleftrightarrow> (case x of
       Processor i \<Rightarrow> m p = MPPROC \<and> m (p + 1) = i
     | Io_Apic i \<Rightarrow> m p = MPIOAPIC \<and> m (p + 1) = i
     | Other_Entry \<Rightarrow> m p \<in> {MPBUS, MPIOINTR, MPLINTR})"

definition entry_size :: "mp_entry \<Rightarrow> nat" where
  "entry_size x = (case x of Processor _ \<Rightarrow> sizeof_mpproc | Io_Apic _ \<Rightarrow> sizeof_mpioapic | Other_Entry \<Rightarrow> 8)"

definition table_size :: "mp_entry list \<Rightarrow> nat" where
  "table_size es = sum_list (map entry_size es)"

fun table_at :: "mem \<Rightarrow> u32 \<Rightarrow> mp_entry list \<Rightarrow> bool" where
  "table_at m p [] \<longleftrightarrow> True"
| "table_at m p (x # es) \<longleftrightarrow> entry_at m p x \<and> table_at m (p + of_nat (entry_size x)) es"

definition processors :: "mp_entry list \<Rightarrow> u8 list" where
  "processors es = concat (map (\<lambda>x. case x of Processor i \<Rightarrow> [i] | _ \<Rightarrow> []) es)"

definition io_apics :: "mp_entry list \<Rightarrow> u8 list" where
  "io_apics es = concat (map (\<lambda>x. case x of Io_Apic i \<Rightarrow> [i] | _ \<Rightarrow> []) es)"

definition found :: "mp_entry list \<Rightarrow> kmp \<Rightarrow> kmp" where
  "found es s = s\<lparr>cpu_apicids := take NCPU (cpu_apicids s @ processors es), ioapicid := last (ioapicid s # io_apics es)\<rparr>"

lemma table_size_simps [simp]: "table_size [] = 0" "table_size (x # es) = entry_size x + table_size es"
  by (simp_all add: table_size_def)

lemma entry_size_pos: "0 < entry_size x"
  by (simp add: entry_size_def sizeof_mpproc_def sizeof_mpioapic_def split: mp_entry.split)

lemma found_simps:
  "length (cpu_apicids s) \<le> NCPU \<Longrightarrow> found [] s = s"
  "found (Processor i # es) s = found es (if length (cpu_apicids s) < NCPU then s\<lparr>cpu_apicids := cpu_apicids s @ [i]\<rparr> else s)"
  "found (Io_Apic i # es) s = found es (s\<lparr>ioapicid := i\<rparr>)"
  "found (Other_Entry # es) s = found es s"
  by (auto simp: found_def processors_def io_apics_def take_Cons')

lemma unat_plus_of_nat: "unat (p :: u32) + n < 2 ^ 32 \<Longrightarrow> unat (p + of_nat n) = unat p + n"
  by (simp add: unat_add_small unat_of_nat_u32)

lemma mp_kinds [simp]:
  "MPPROC \<noteq> MPBUS" "MPPROC \<noteq> MPIOAPIC" "MPPROC \<noteq> MPIOINTR" "MPPROC \<noteq> MPLINTR" "MPIOAPIC \<noteq> MPPROC" "MPIOAPIC \<noteq> MPBUS"
  "MPIOAPIC \<noteq> MPIOINTR" "MPIOAPIC \<noteq> MPLINTR" "MPBUS \<noteq> MPPROC" "MPBUS \<noteq> MPIOAPIC" "MPIOINTR \<noteq> MPPROC" "MPIOINTR \<noteq> MPIOAPIC"
  "MPLINTR \<noteq> MPPROC" "MPLINTR \<noteq> MPIOAPIC"
  by (simp_all add: MPPROC_def MPBUS_def MPIOAPIC_def MPIOINTR_def MPLINTR_def)

lemma mpinit_loop_table:
  assumes "table_at (mp_mem s) p es" and "unat p + table_size es + k < 2 ^ 32" and "length (cpu_apicids s) \<le> NCPU"
  shows "mpinit_loop (length es + n) p (p + of_nat (table_size es + k)) b s =
    mpinit_loop n (p + of_nat (table_size es)) (p + of_nat (table_size es + k)) b (found es s)"
  using assms
proof (induction es arbitrary: p s)
  case (Cons x es)
  let ?p = "p + of_nat (entry_size x)" and ?k = "table_size (x # es) + k"
  have u: "unat ?p = unat p + entry_size x"
    using Cons.prems(2) by (intro unat_plus_of_nat) simp
  have less: "p < p + of_nat ?k"
    using Cons.prems(2) entry_size_pos [of x] unat_plus_of_nat [of p ?k] by (simp add: word_less_nat_alt del: of_nat_add)
  have e: "p + of_nat ?k = ?p + of_nat (table_size es + k)" by simp
  have IH: "mpinit_loop (length es + n) ?p (p + of_nat ?k) b t =
      mpinit_loop n (p + of_nat (table_size (x # es))) (p + of_nat ?k) b (found es t)"
    if "mp_mem t = mp_mem s" "length (cpu_apicids t) \<le> NCPU" for t
    using Cons.IH [of t ?p] Cons.prems that u unfolding e by (simp add: add.assoc)
  show ?case
  proof (cases x)
    case (Processor i)
    then show ?thesis
      using less Cons.prems IH [of "if length (cpu_apicids s) < NCPU then s\<lparr>cpu_apicids := cpu_apicids s @ [i]\<rparr> else s"]
      by (simp add: bindM_run entry_at_def entry_size_def found_simps)
  next
    case (Io_Apic i)
    then show ?thesis
      using less Cons.prems IH [of "s\<lparr>ioapicid := i\<rparr>"] by (simp add: bindM_run entry_at_def entry_size_def found_simps)
  next
    case Other_Entry
    then show ?thesis
      using less Cons.prems IH [of s] by (auto simp: bindM_run entry_at_def entry_size_def found_simps)
  qed
qed (simp add: found_simps)

definition spins :: "('a, 's) res \<Rightarrow> bool" where
  "spins r \<longleftrightarrow> (case r of Spins _ \<Rightarrow> True | _ \<Rightarrow> False)"

lemma mpinit_loop_spins_less: "n \<le> m \<Longrightarrow> spins (mpinit_loop m p e b s) \<Longrightarrow> spins (mpinit_loop n p e b s)"
proof (induction n arbitrary: m p b s)
  case (Suc n)
  then obtain m' where m: "m = Suc m'" "n \<le> m'" by (cases m) auto
  from Suc.prems(2) show ?case
    unfolding m(1) by (auto simp: bindM_run split: if_split_asm intro: Suc.IH [OF m(2)] simp: spins_def [of "Ok _ _"])
qed (simp add: spins_def)

definition known_kind :: "u8 \<Rightarrow> bool" where
  "known_kind k \<longleftrightarrow> k \<in> {MPPROC, MPBUS, MPIOAPIC, MPIOINTR, MPLINTR}"

lemma mpinit_loop_unknown: "p < e \<Longrightarrow> \<not> known_kind (mp_mem s p) \<Longrightarrow> spins (mpinit_loop n p e b s)"
  by (induction n arbitrary: b) (auto simp: spins_def bindM_run known_kind_def)

definition imcr_written :: "u32 \<Rightarrow> u8 \<Rightarrow> kmp \<Rightarrow> kmp" where
  "imcr_written mp imcr s = (if mp_mem s (mp + 12) \<noteq> 0 then s\<lparr>mp_outs := mp_outs s @ [(0x22, 0x70), (0x23, or imcr 1)]\<rparr> else s)"

text \<open>
  C36: When the table consists of entries of the known kinds, \<open>mpinit\<close> returns with the first \<open>NCPU\<close> processors and the last interrupt
  controller of the table. When an entry is of no known kind, it neither returns nor panics: it looks at that entry for ever.
\<close>
theorem mpinit_outcome:
  assumes "mpconfig (mp_mem s) = Some (mp, conf)" and "unat conf + conf_length (mp_mem s) conf < 2 ^ 32"
    and "table_at (mp_mem s) (conf + sizeof_mpconf) es" and "length (cpu_apicids s) \<le> NCPU"
    and "unat sizeof_mpconf + table_size es \<le> conf_length (mp_mem s) conf"
  shows "if unat sizeof_mpconf + table_size es = conf_length (mp_mem s) conf
      then \<forall>turns>length es. mpinit turns imcr s = Ok () (imcr_written mp imcr (found es (s\<lparr>lapic := load32 (mp_mem s) (conf + 36)\<rparr>)))
      else \<not> known_kind (mp_mem s (conf + sizeof_mpconf + of_nat (table_size es))) \<longrightarrow> (\<forall>turns. spins (mpinit turns imcr s))"
proof -
  let ?m = "mp_mem s" and ?p = "conf + sizeof_mpconf" and ?s = "s\<lparr>lapic := load32 (mp_mem s) (conf + 36)\<rparr>"
  obtain k where k: "conf_length ?m conf = unat sizeof_mpconf + table_size es + k" using assms(5) le_Suc_ex by blast
  have u: "unat ?p = unat conf + unat sizeof_mpconf" using assms(2) k by (intro unat_add_small) simp
  have e: "conf + of_nat (conf_length ?m conf) = ?p + of_nat (table_size es + k)"
    unfolding k by (simp add: sizeof_mpconf_def)
  have loop: "mpinit_loop (length es + n) ?p (?p + of_nat (table_size es + k)) True ?s =
      mpinit_loop n (?p + of_nat (table_size es)) (?p + of_nat (table_size es + k)) True (found es ?s)" for n
    using assms(2-4) k u by (intro mpinit_loop_table) simp_all
  have m: "mp_mem (found es t) = mp_mem t" for t by (simp add: found_def)
  show ?thesis
  proof (cases "k = 0")
    case True
    have L: "mpinit_loop turns ?p (conf + of_nat (conf_length ?m conf)) True ?s = Ok True (found es ?s)" if "length es < turns" for turns
    proof -
      from less_imp_Suc_add [OF that] obtain n where "turns = length es + Suc n" by auto
      then show ?thesis unfolding e using loop [of "Suc n"] True by simp
    qed
    have c: "unat sizeof_mpconf + table_size es = conf_length ?m conf" using k True by simp
    show ?thesis using c L assms(1) by (simp add: mpinit_def bindM_run whenM_def imcr_written_def m)
  next
    case False
    let ?q = "?p + of_nat (table_size es)"
    have "unat (?p + of_nat (table_size es + k)) = unat ?p + (table_size es + k)" "unat ?q = unat ?p + table_size es"
      using assms(2) k u by (intro unat_plus_of_nat; simp)+
    then have less: "?q < ?p + of_nat (table_size es + k)" using False by (simp add: word_less_nat_alt)
    have "spins (mpinit turns imcr s)" if "\<not> known_kind (?m ?q)" for turns
    proof -
      have "spins (mpinit_loop turns ?q (?p + of_nat (table_size es + k)) True (found es ?s))"
        using less that by (intro mpinit_loop_unknown) (simp_all add: m)
      then have "spins (mpinit_loop (length es + turns) ?p (?p + of_nat (table_size es + k)) True ?s)" using loop by simp
      then have "spins (mpinit_loop turns ?p (conf + of_nat (conf_length ?m conf)) True ?s)"
        unfolding e by (rule mpinit_loop_spins_less [rotated]) simp
      then show ?thesis using assms(1) by (auto simp: mpinit_def bindM_run spins_def split: res.splits)
    qed
    then show ?thesis using k False by simp
  qed
qed

text \<open>A machine with one processor and one interrupt controller, and one whose table holds an entry of kind 9.\<close>

definition demo_mp :: "u8 list" where
  "demo_mp = [95, 77, 80, 95, 0, 0, 9, 0, 1, 4, 151, 0, 0, 0, 0, 0]"

definition demo_conf :: "u8 list" where
  "demo_conf = [80, 67, 77, 80, 52, 0, 1, 146, 0, 0, 0, 0, 0, 0, 0, 0, 0, 0, 0, 0, 0, 0, 0, 0, 0, 0, 0, 0, 0, 0, 0, 0, 0, 0, 0, 0, 0, 0, 0, 0, 0, 0, 0, 0,
     9, 0, 0, 0, 0, 0, 0, 0]"

definition demo_mem :: mem where
  "demo_mem a = (if a = 0x8000040F then 0x80
     else if 0x80080000 \<le> a \<and> a < 0x80080010 then demo_mp ! unat (a - 0x80080000)
     else if 0x80090000 \<le> a \<and> a < 0x80090034 then demo_conf ! unat (a - 0x80090000) else 0)"

lemma demo_config: "mpconfig demo_mem = Some (0x80080000, 0x80090000)"
  by code_simp

definition demo_kmp :: kmp where
  "demo_kmp = \<lparr>mp_mem = demo_mem, cpu_apicids = [], ioapicid = 0, lapic = 0, mp_outs = []\<rparr>"

lemma mpinit_outcome_witness: "\<forall>turns. spins (mpinit turns 0 demo_kmp)"
proof -
  have mem: "mp_mem demo_kmp = demo_mem" by (simp add: demo_kmp_def)
  have len: "conf_length demo_mem 0x80090000 = 52" by code_simp
  have kind: "\<not> known_kind (demo_mem 0x8009002C)" by code_simp
  show ?thesis
    using mpinit_outcome [where s = demo_kmp and mp = "0x80080000" and conf = "0x80090000" and es = "[]" and imcr = 0] demo_config kind
    by (simp add: mem len sizeof_mpconf_def) (simp add: demo_kmp_def)
qed

end
