(* ===== verification/Lifecycle.thy ===== *)
theory Lifecycle
  imports Process Transaction Processors Space_Copy Inode_Spec Mp
begin

text \<open>
  The life of a process. The process table is abstracted to a state machine whose steps are the
  transitions of one slot: allocated, made runnable, run, stopped, exited, reaped. Every operation of \<open>proc.c\<close> on
  the table is a sequence of such steps, so an invariant of the machine is one of the kernel: pids are unique and
  nobody's parent is gone. The steps of one processor leave alone what runs on the others, so that with the lock of the table every
  running process has one processor. All this holds from the table at boot, from which \<open>userinit\<close> runs.
\<close>

section \<open>The state machine\<close>

record ptab =
  t_procs :: "proc list"
  t_nextpid :: u32
  t_cpu :: "nat option"
  t_init :: "nat option"

definition ptab_of :: "'z kproc_scheme \<Rightarrow> ptab" where
  "ptab_of s = \<lparr>t_procs = procs s, t_nextpid = nextpid s, t_cpu = cpuproc s, t_init = initproc s\<rparr>"

text \<open>Two versions of a slot that differ in other fields than the state, the pid and the parent.\<close>

definition same_key :: "proc \<Rightarrow> proc \<Rightarrow> bool" where
  "same_key p q \<longleftrightarrow> p_state q = p_state p \<and> p_pid q = p_pid p \<and> p_parent q = p_parent p"

definition may_wake :: "proc \<Rightarrow> proc \<Rightarrow> bool" where
  "may_wake p q \<longleftrightarrow> q = p \<or> p_state p = SLEEPING \<and> q = p\<lparr>p_state := RUNNABLE\<rparr>"

definition adopt :: "nat \<Rightarrow> nat option \<Rightarrow> proc \<Rightarrow> proc" where
  "adopt cur ini p = (if p_parent p = Some cur then p\<lparr>p_parent := ini\<rparr> else p)"

definition set_state :: "nat \<Rightarrow> procstate \<Rightarrow> ptab \<Rightarrow> ptab" where
  "set_state i st x = x\<lparr>t_procs := (t_procs x)[i := (t_procs x ! i)\<lparr>p_state := st\<rparr>]\<rparr>"

definition in_state :: "ptab \<Rightarrow> nat \<Rightarrow> procstate \<Rightarrow> bool" where
  "in_state x i st \<longleftrightarrow> i < length (t_procs x) \<and> p_state (t_procs x ! i) = st"

inductive pt_step :: "ptab \<Rightarrow> ptab \<Rightarrow> bool" where
  touch: "list_all2 same_key (t_procs x) ps \<Longrightarrow> pt_step x (x\<lparr>t_procs := ps\<rparr>)"
| wake: "list_all2 may_wake (t_procs x) ps \<Longrightarrow> pt_step x (x\<lparr>t_procs := ps\<rparr>)"
| run: "t_cpu x = None \<Longrightarrow> in_state x i RUNNABLE \<Longrightarrow> pt_step x (set_state i RUNNING (x\<lparr>t_cpu := Some i\<rparr>))"
| stop: "t_cpu x = Some i \<Longrightarrow> in_state x i RUNNING \<Longrightarrow> st = RUNNABLE \<or> st = SLEEPING \<Longrightarrow> pt_step x (set_state i st x)"
| idle: "t_cpu x = Some i \<Longrightarrow> \<not> in_state x i RUNNING \<Longrightarrow> pt_step x (x\<lparr>t_cpu := None\<rparr>)"
| alloc: "in_state x i UNUSED \<Longrightarrow> sint (t_nextpid x) < 2 ^ 31 - 1 \<Longrightarrow> st = EMBRYO \<or> st = UNUSED \<Longrightarrow>
    pt_step x (x\<lparr>t_procs := (t_procs x)[i := (t_procs x ! i)\<lparr>p_state := st, p_pid := t_nextpid x\<rparr>],
      t_nextpid := t_nextpid x + 1\<rparr>)"
| unalloc: "in_state x i EMBRYO \<Longrightarrow> p_parent (t_procs x ! i) = None \<Longrightarrow> pt_step x (set_state i UNUSED x)"
| child: "in_state x i EMBRYO \<Longrightarrow> in_state x cur RUNNING \<Longrightarrow>
    pt_step x (x\<lparr>t_procs := (t_procs x)[i := (t_procs x ! i)\<lparr>p_parent := Some cur\<rparr>]\<rparr>)"
| ready: "in_state x i EMBRYO \<Longrightarrow> pt_step x (set_state i RUNNABLE x)"
| first: "t_init x = None \<Longrightarrow> in_state x i EMBRYO \<Longrightarrow> p_parent (t_procs x ! i) = None \<Longrightarrow>
    pt_step x (set_state i RUNNABLE (x\<lparr>t_init := Some i\<rparr>))"
| exit: "t_cpu x = Some cur \<Longrightarrow> in_state x cur RUNNING \<Longrightarrow> t_init x \<noteq> Some cur \<Longrightarrow>
    pt_step x (set_state cur ZOMBIE (x\<lparr>t_procs := map (adopt cur (t_init x)) (t_procs x)\<rparr>))"
| reap: "in_state x i ZOMBIE \<Longrightarrow>
    pt_step x (x\<lparr>t_procs := (t_procs x)[i := (t_procs x ! i)\<lparr>p_state := UNUSED, p_pid := 0, p_parent := None\<rparr>]\<rparr>)"

section \<open>The invariant\<close>

definition alive :: "ptab \<Rightarrow> nat \<Rightarrow> bool" where
  "alive x i \<longleftrightarrow> i < length (t_procs x) \<and> p_state (t_procs x ! i) \<notin> {UNUSED, EMBRYO, ZOMBIE}"

definition in_use :: "ptab \<Rightarrow> nat \<Rightarrow> bool" where
  "in_use x i \<longleftrightarrow> i < length (t_procs x) \<and> p_state (t_procs x ! i) \<noteq> UNUSED"

definition pids_ok :: "ptab \<Rightarrow> bool" where
  "pids_ok x \<longleftrightarrow>
     (\<forall>i. in_use x i \<longrightarrow> 0 < sint (p_pid (t_procs x ! i)) \<and> sint (p_pid (t_procs x ! i)) < sint (t_nextpid x)) \<and>
     (\<forall>i j. in_use x i \<longrightarrow> in_use x j \<longrightarrow> p_pid (t_procs x ! i) = p_pid (t_procs x ! j) \<longrightarrow> i = j)"

definition family_ok :: "ptab \<Rightarrow> bool" where
  "family_ok x \<longleftrightarrow> (\<forall>i. t_init x = Some i \<longrightarrow> alive x i) \<and>
     (\<forall>i q. i < length (t_procs x) \<longrightarrow> p_parent (t_procs x ! i) = Some q \<longrightarrow> p_state (t_procs x ! i) \<noteq> UNUSED \<and> alive x q)"

definition ptab_inv :: "ptab \<Rightarrow> bool" where
  "ptab_inv x \<longleftrightarrow> 0 < sint (t_nextpid x) \<and> pids_ok x \<and> family_ok x"

lemmas ptab_inv_defs = ptab_inv_def pids_ok_def family_ok_def alive_def in_use_def in_state_def set_state_def

lemma inv_parts_nextpid [simp]:
  "alive (x\<lparr>t_nextpid := n\<rparr>) i = alive x i" "in_use (x\<lparr>t_nextpid := n\<rparr>) i = in_use x i"
  "in_state (x\<lparr>t_nextpid := n\<rparr>) i st = in_state x i st"
  "family_ok (x\<lparr>t_nextpid := n\<rparr>) = family_ok x"
  by (simp_all add: alive_def [abs_def] in_use_def in_state_def family_ok_def)

lemma inv_parts_cpu [simp]:
  "alive (x\<lparr>t_cpu := c\<rparr>) i = alive x i" "in_use (x\<lparr>t_cpu := c\<rparr>) i = in_use x i"
  "in_state (x\<lparr>t_cpu := c\<rparr>) i st = in_state x i st"
  "pids_ok (x\<lparr>t_cpu := c\<rparr>) = pids_ok x" "family_ok (x\<lparr>t_cpu := c\<rparr>) = family_ok x"
  by (simp_all add: alive_def [abs_def] in_use_def [abs_def] in_state_def pids_ok_def family_ok_def)

lemma inv_parts_init [simp]:
  "alive (x\<lparr>t_init := q\<rparr>) i = alive x i" "in_use (x\<lparr>t_init := q\<rparr>) i = in_use x i"
  "in_state (x\<lparr>t_init := q\<rparr>) i st = in_state x i st" "pids_ok (x\<lparr>t_init := q\<rparr>) = pids_ok x"
  by (simp_all add: alive_def in_use_def [abs_def] in_state_def pids_ok_def)

lemma set_state_init: "set_state i st (x\<lparr>t_init := q\<rparr>) = (set_state i st x)\<lparr>t_init := q\<rparr>"
  by (cases x) (simp add: set_state_def)

text \<open>The effect of new contents of one slot on the parts of the invariant.\<close>

abbreviation put_slot :: "nat \<Rightarrow> proc \<Rightarrow> ptab \<Rightarrow> ptab" where
  "put_slot i p x \<equiv> x\<lparr>t_procs := (t_procs x)[i := p]\<rparr>"

lemma pids_update:
  assumes "pids_ok x" and "p_state p \<noteq> UNUSED \<Longrightarrow> in_use x i \<and> p_pid p = p_pid (t_procs x ! i)"
  shows "pids_ok (put_slot i p x)"
proof -
  have use: "in_use x j \<and> p_pid ((t_procs x)[i := p] ! j) = p_pid (t_procs x ! j)" if "in_use (put_slot i p x) j" for j
    using that assms(2) by (cases "j = i") (auto simp: in_use_def)
  show ?thesis using assms(1) use unfolding pids_ok_def by simp
qed

lemma family_update:
  assumes "family_ok x" and "i < length (t_procs x)"
    and "p_state p \<in> {UNUSED, EMBRYO, ZOMBIE} \<Longrightarrow> t_init x \<noteq> Some i \<and> (\<forall>j<length (t_procs x). p_parent (t_procs x ! j) \<noteq> Some i)"
    and "\<And>q. p_parent p = Some q \<Longrightarrow> p_state p \<noteq> UNUSED \<and> (q = i \<longrightarrow> p_state p \<notin> {EMBRYO, ZOMBIE}) \<and> alive x q"
  shows "family_ok (put_slot i p x)"
proof -
  let ?y = "put_slot i p x"
  have al: "alive ?y q" if "alive x q" "p_state p \<in> {UNUSED, EMBRYO, ZOMBIE} \<longrightarrow> q \<noteq> i" for q
    using that assms(2) by (cases "q = i") (auto simp: alive_def)
  show ?thesis unfolding family_ok_def
  proof (intro conjI allI impI)
    fix q assume "t_init ?y = Some q"
    then show "alive ?y q" using assms(1,3) by (intro al) (auto simp: family_ok_def)
  next
    fix j q assume j: "j < length (t_procs ?y)" "p_parent (t_procs ?y ! j) = Some q"
    have "p_state (t_procs ?y ! j) \<noteq> UNUSED \<and> alive ?y q"
    proof (cases "j = i")
      case True
      then show ?thesis using assms(2,4) j al by auto
    next
      case False
      then have "p_state (t_procs ?y ! j) \<noteq> UNUSED" "alive x q" "p_state p \<in> {UNUSED, EMBRYO, ZOMBIE} \<longrightarrow> q \<noteq> i"
        using assms(1,3) j by (auto simp: family_ok_def)
      with al show ?thesis by blast
    qed
    then show "p_state (t_procs ?y ! j) \<noteq> UNUSED" "alive ?y q" by auto
  qed
qed

lemma no_dead_parent: "family_ok x \<Longrightarrow> \<not> alive x i \<Longrightarrow> t_init x \<noteq> Some i \<and> (\<forall>j<length (t_procs x). p_parent (t_procs x ! j) \<noteq> Some i)"
  by (auto simp: family_ok_def)

text \<open>Changes that keep pids and parents and, of the states, all but that of some sleepers.\<close>

lemma inv_similar:
  assumes inv: "ptab_inv x" and len: "length ps = length (t_procs x)"
    and key: "\<And>i. i < length ps \<Longrightarrow> p_pid (ps ! i) = p_pid (t_procs x ! i) \<and> p_parent (ps ! i) = p_parent (t_procs x ! i)
       \<and> (p_state (ps ! i) = p_state (t_procs x ! i) \<or> p_state (t_procs x ! i) = SLEEPING \<and> p_state (ps ! i) = RUNNABLE)"
  shows "ptab_inv (x\<lparr>t_procs := ps\<rparr>)"
proof -
  let ?y = "x\<lparr>t_procs := ps\<rparr>"
  have use: "in_use ?y i \<longleftrightarrow> in_use x i" "alive ?y i \<longleftrightarrow> alive x i" for i
    using key [of i] len by (auto simp: in_use_def alive_def)
  have pid: "in_use x i \<Longrightarrow> p_pid (ps ! i) = p_pid (t_procs x ! i)" for i using key [of i] len by (simp add: in_use_def)
  have "pids_ok ?y" using inv pid unfolding ptab_inv_def pids_ok_def use by simp
  moreover have "family_ok ?y" using inv key len unfolding ptab_inv_def family_ok_def use
    by fastforce
  ultimately show ?thesis using inv by (simp add: ptab_inv_def)
qed

lemma inv_put_slot:
  assumes "ptab_inv x" and "i < length (t_procs x)"
    and "p_state p \<noteq> UNUSED \<Longrightarrow> in_use x i \<and> p_pid p = p_pid (t_procs x ! i)"
    and "p_state p \<in> {UNUSED, EMBRYO, ZOMBIE} \<Longrightarrow> t_init x \<noteq> Some i \<and> (\<forall>j<length (t_procs x). p_parent (t_procs x ! j) \<noteq> Some i)"
    and "\<And>q. p_parent p = Some q \<Longrightarrow> p_state p \<noteq> UNUSED \<and> (q = i \<longrightarrow> p_state p \<notin> {EMBRYO, ZOMBIE}) \<and> alive x q"
  shows "ptab_inv (put_slot i p x)"
  using assms pids_update [of x p i] family_update [of x i p] by (simp add: ptab_inv_def)

lemma inv_alloc:
  assumes inv: "ptab_inv x" and i: "in_state x i UNUSED" and np: "sint (t_nextpid x) < 2 ^ 31 - 1"
    and st: "st = EMBRYO \<or> st = UNUSED"
  shows "ptab_inv (x\<lparr>t_procs := (t_procs x)[i := (t_procs x ! i)\<lparr>p_state := st, p_pid := t_nextpid x\<rparr>],
      t_nextpid := t_nextpid x + 1\<rparr>)"
proof -
  let ?p = "(t_procs x ! i)\<lparr>p_state := st, p_pid := t_nextpid x\<rparr>"
  let ?y = "put_slot i ?p x"
  have il: "i < length (t_procs x)" using i by (simp add: in_state_def)
  have dead: "\<not> alive x i" using i by (simp add: in_state_def alive_def)
  have par: "p_parent ?p = None" using inv i
    by (cases "p_parent (t_procs x ! i)") (auto simp: ptab_inv_def family_ok_def in_state_def)
  have "family_ok ?y" using inv st par no_dead_parent [OF _ dead] il by (auto intro!: family_update simp: ptab_inv_def)
  then have cf: "family_ok (?y\<lparr>t_nextpid := t_nextpid x + 1\<rparr>)" by (simp only: inv_parts_nextpid)
  have succ: "sint (t_nextpid x + 1) = sint (t_nextpid x) + 1"
    using inv np by (intro sint_Suc_u32) (simp_all add: ptab_inv_def)
  let ?pid = "\<lambda>j. p_pid ((t_procs x)[i := ?p] ! j)"
  have old: "in_use x j \<and> ?pid j = p_pid (t_procs x ! j)" if "in_use ?y j" "j \<noteq> i" for j
    using that by (simp add: in_use_def)
  have new: "?pid i = t_nextpid x" using il by simp
  have lt: "sint (?pid j) < sint (t_nextpid x)" "0 < sint (?pid j)" if "in_use ?y j" "j \<noteq> i" for j
    using inv old [OF that] by (auto simp: ptab_inv_def pids_ok_def)
  have inj: "j = k" if "in_use ?y j" "in_use ?y k" "?pid j = ?pid k" for j k
  proof (cases "j = i \<or> k = i")
    case True
    then show ?thesis using that lt new by (metis order_less_irrefl)
  next
    case False
    then show ?thesis using that old inv by (auto simp: ptab_inv_def pids_ok_def)
  qed
  have "0 < sint (?pid j) \<and> sint (?pid j) < sint (t_nextpid x) + 1" if "in_use ?y j" for j
    using lt [OF that] new inv by (cases "j = i") (auto simp: ptab_inv_def)
  with inj have "pids_ok (?y\<lparr>t_nextpid := t_nextpid x + 1\<rparr>)" by (simp add: pids_ok_def succ)
  with cf succ inv show ?thesis unfolding ptab_inv_def by simp
qed

lemma inv_exit:
  assumes inv: "ptab_inv x" and cpu: "t_cpu x = Some cur" and r: "in_state x cur RUNNING" and ini: "t_init x \<noteq> Some cur"
  shows "ptab_inv (set_state cur ZOMBIE (x\<lparr>t_procs := map (adopt cur (t_init x)) (t_procs x)\<rparr>))"
proof -
  let ?z = "x\<lparr>t_procs := map (adopt cur (t_init x)) (t_procs x)\<rparr>"
  let ?n = "length (t_procs x)"
  have key: "p_state (adopt cur q p) = p_state p" "p_pid (adopt cur q p) = p_pid p" for q p by (simp_all add: adopt_def)
  have use: "in_use ?z i = in_use x i" "alive ?z i = alive x i" "in_state ?z i st = in_state x i st" for i st
    by (auto simp: in_use_def alive_def in_state_def key)
  have cur: "alive x cur" "cur < ?n" using r by (simp_all add: in_state_def alive_def)
  have pz: "p_pid (t_procs ?z ! i) = p_pid (t_procs x ! i)" if "in_use x i" for i
    using that by (simp add: in_use_def key)
  have "pids_ok ?z" using inv pz unfolding ptab_inv_def pids_ok_def use by simp
  moreover have "family_ok ?z"
  proof -
    have "p_state (t_procs ?z ! i) \<noteq> UNUSED \<and> alive x q" if "i < ?n" "p_parent (t_procs ?z ! i) = Some q" for i q
      using inv that unfolding ptab_inv_def family_ok_def by (auto simp: adopt_def split: if_splits)
    then show ?thesis using inv unfolding ptab_inv_def family_ok_def use by simp
  qed
  ultimately have z: "ptab_inv ?z" using inv by (simp add: ptab_inv_def)
  have none: "p_parent (t_procs ?z ! j) \<noteq> Some cur" if "j < ?n" for j
    using that ini by (simp add: adopt_def)
  have par: "alive ?z q" if "p_parent (t_procs ?z ! cur) = Some q" for q
    using z cur(2) that by (auto simp: ptab_inv_def family_ok_def)
  show ?thesis unfolding set_state_def
    using z cur none par ini
    by (intro inv_put_slot) (auto simp: in_use_def alive_def key)
qed

lemma inv_reap:
  assumes "ptab_inv x" and "in_state x i ZOMBIE"
  shows "ptab_inv (put_slot i ((t_procs x ! i)\<lparr>p_state := UNUSED, p_pid := 0, p_parent := None\<rparr>) x)"
proof -
  have "\<not> alive x i" using assms(2) by (simp add: in_state_def alive_def)
  with assms no_dead_parent [of x i] show ?thesis
    by (intro inv_put_slot) (auto simp: ptab_inv_def in_state_def)
qed

text \<open>Steps that only move a slot from one state to another.\<close>

lemma inv_set_state:
  assumes "ptab_inv x" and "in_state x i st" and "st \<notin> {UNUSED, ZOMBIE}" and "st' \<notin> {UNUSED, EMBRYO, ZOMBIE}"
  shows "ptab_inv (set_state i st' x)"
proof -
  have "alive x q" if "p_parent (t_procs x ! i) = Some q" for q
    using assms(1,2) that by (auto simp: ptab_inv_def family_ok_def in_state_def)
  with assms show ?thesis unfolding set_state_def
    by (intro inv_put_slot) (auto simp: in_state_def in_use_def)
qed

lemma pt_step_inv: "pt_step x y \<Longrightarrow> ptab_inv x \<Longrightarrow> ptab_inv y"
proof (induction rule: pt_step.induct)
  case (touch x ps)
  then show ?case by (intro inv_similar) (auto simp: same_key_def list_all2_conv_all_nth)
next
  case (wake x ps)
  then show ?case by (intro inv_similar) (auto simp: may_wake_def list_all2_conv_all_nth)
next
  case (run x i)
  have "ptab_inv (x\<lparr>t_cpu := Some i\<rparr>)" using run by (simp add: ptab_inv_def)
  then show ?case using run by (intro inv_set_state) auto
next
  case (stop x i st)
  then show ?case by (auto intro: inv_set_state)
next
  case (idle x i)
  then show ?case by (simp add: ptab_inv_def)
next
  case (alloc x i st)
  then show ?case by (intro inv_alloc)
next
  case (unalloc x i)
  have "\<not> alive x i" using unalloc by (simp add: in_state_def alive_def)
  with unalloc no_dead_parent [of x i] show ?case unfolding set_state_def
    by (intro inv_put_slot) (auto simp: ptab_inv_def in_state_def)
next
  case (child x i cur)
  have "\<not> alive x i" using child by (simp add: in_state_def alive_def)
  with child no_dead_parent [of x i] show ?case
    by (intro inv_put_slot) (auto simp: ptab_inv_def in_state_def in_use_def alive_def)
next
  case (ready x i)
  then show ?case by (auto intro: inv_set_state)
next
  case (first x i)
  let ?y = "set_state i RUNNABLE x"
  have "ptab_inv ?y" using first by (auto intro: inv_set_state)
  moreover have "alive ?y i" using first by (simp add: alive_def in_state_def set_state_def)
  ultimately have "ptab_inv (?y\<lparr>t_init := Some i\<rparr>)" unfolding ptab_inv_def family_ok_def by simp
  then show ?case by (simp only: set_state_init)
next
  case (exit x cur)
  then show ?case by (intro inv_exit)
next
  case (reap x i)
  then show ?case by (intro inv_reap)
qed

abbreviation pt_steps :: "ptab \<Rightarrow> ptab \<Rightarrow> bool" where
  "pt_steps \<equiv> pt_step\<^sup>*\<^sup>*"

lemma pt_steps_inv: "pt_steps x y \<Longrightarrow> ptab_inv x \<Longrightarrow> ptab_inv y"
  by (induction rule: rtranclp_induct) (auto intro: pt_step_inv)

text \<open>
  The steps of one processor leave the slots that run on the others running, and make no other run.
\<close>

definition rest :: "ptab \<Rightarrow> nat set" where
  "rest x = {j. in_state x j RUNNING \<and> t_cpu x \<noteq> Some j}"

lemma in_state_set_state: "i < length (t_procs x) \<Longrightarrow> in_state (set_state i st x) j u \<longleftrightarrow> (if j = i then u = st else in_state x j u)"
  by (auto simp: in_state_def set_state_def)

lemma in_state_procs: "length ps = length (t_procs x) \<Longrightarrow> (\<And>j. j < length ps \<Longrightarrow> p_state (ps ! j) = RUNNING \<longleftrightarrow> p_state (t_procs x ! j) = RUNNING)
  \<Longrightarrow> in_state (x\<lparr>t_procs := ps\<rparr>) j RUNNING = in_state x j RUNNING"
  by (auto simp: in_state_def)

lemma rest_put_slot:
  assumes "i < length (t_procs x)" and "t_cpu x = Some i \<or> p_state p \<noteq> RUNNING \<and> p_state (t_procs x ! i) \<noteq> RUNNING"
  shows "rest (put_slot i p x) = rest x"
  using assms by (auto simp: rest_def in_state_def nth_list_update)

lemma rest_set_state:
  assumes "in_state x i st'" and "t_cpu x = Some i \<or> st \<noteq> RUNNING \<and> st' \<noteq> RUNNING"
  shows "rest (set_state i st x) = rest x"
  unfolding set_state_def using assms by (intro rest_put_slot) (auto simp: in_state_def)

lemma pt_step_rest: "pt_step x y \<Longrightarrow> rest y = rest x"
proof (induction rule: pt_step.induct)
  case (touch x ps)
  then show ?case by (auto simp: rest_def in_state_procs list_all2_conv_all_nth same_key_def)
next
  case (wake x ps)
  then have "p_state (ps ! j) = RUNNING \<longleftrightarrow> p_state (t_procs x ! j) = RUNNING" if "j < length ps" for j
    using that by (auto simp: list_all2_conv_all_nth may_wake_def)
  moreover have "length ps = length (t_procs x)" using wake by (simp add: list_all2_lengthD)
  ultimately show ?case by (simp add: rest_def in_state_procs)
next
  case (exit x cur)
  have st: "p_state (adopt cur q p) = p_state p" for q p by (simp add: adopt_def)
  have "in_state (x\<lparr>t_procs := map (adopt cur (t_init x)) (t_procs x)\<rparr>) j RUNNING = in_state x j RUNNING" for j
    by (rule in_state_procs) (simp_all add: st)
  moreover have "cur < length (t_procs x)" using exit by (simp add: in_state_def)
  ultimately have "in_state (set_state cur ZOMBIE (x\<lparr>t_procs := map (adopt cur (t_init x)) (t_procs x)\<rparr>)) j RUNNING
      \<longleftrightarrow> j \<noteq> cur \<and> in_state x j RUNNING" for j
    by (simp add: in_state_set_state)
  moreover have "t_cpu (set_state cur ZOMBIE (x\<lparr>t_procs := ps\<rparr>)) = t_cpu x" for ps by (simp add: set_state_def)
  ultimately show ?case using exit(1) by (auto simp: rest_def)
next
  case (run x i)
  have "rest (set_state i RUNNING (x\<lparr>t_cpu := Some i\<rparr>)) = rest (x\<lparr>t_cpu := Some i\<rparr>)"
    by (rule rest_set_state [of _ _ RUNNABLE]) (use run in simp_all)
  moreover have "\<not> in_state x i RUNNING" using run by (simp add: in_state_def)
  ultimately show ?case using run(1) by (auto simp: rest_def)
next
  case (stop x i st)
  then show ?case by (intro rest_set_state) auto
next
  case (idle x i)
  then show ?case by (auto simp: rest_def)
next
  case (alloc x i st)
  have "rest (put_slot i ((t_procs x ! i)\<lparr>p_state := st, p_pid := t_nextpid x\<rparr>) x) = rest x"
    using alloc by (intro rest_put_slot) (auto simp: in_state_def)
  then show ?case by (simp add: rest_def)
next
  case (unalloc x i)
  then show ?case by (intro rest_set_state) auto
next
  case (child x i cur)
  then show ?case by (intro rest_put_slot) (auto simp: in_state_def)
next
  case (ready x i)
  then show ?case by (intro rest_set_state) auto
next
  case (first x i)
  then have "rest (set_state i RUNNABLE x) = rest x" by (intro rest_set_state) auto
  then show ?case by (simp add: rest_def set_state_init)
next
  case (reap x i)
  then show ?case by (intro rest_put_slot) (auto simp: in_state_def)
qed

lemma pt_steps_rest: "pt_steps x y \<Longrightarrow> rest y = rest x"
  by (induction rule: rtranclp_induct) (auto dest: pt_step_rest)

section \<open>The operations as steps\<close>

lemma ptab_of_simps [simp]:
  "t_procs (ptab_of s) = procs s" "t_nextpid (ptab_of s) = nextpid s" "t_cpu (ptab_of s) = cpuproc s"
  "t_init (ptab_of s) = initproc s"
  "ptab_of (s\<lparr>k_held := h\<rparr>) = ptab_of s" "ptab_of (s\<lparr>k_mem := m\<rparr>) = ptab_of s" "ptab_of (s\<lparr>k_cr3 := c\<rparr>) = ptab_of s"
  "ptab_of (s\<lparr>k_freelist := f\<rparr>) = ptab_of s" "ptab_of (s\<lparr>k_out := out\<rparr>) = ptab_of s"
  "ptab_of (s\<lparr>ticks := tk\<rparr>) = ptab_of s" "ptab_of (s\<lparr>ts_ss0 := a\<rparr>) = ptab_of s" "ptab_of (s\<lparr>ts_esp0 := b\<rparr>) = ptab_of s"
  "ptab_of (s\<lparr>ts_iomb := i\<rparr>) = ptab_of s"
  "ptab_of (s\<lparr>procs := ps\<rparr>) = (ptab_of s)\<lparr>t_procs := ps\<rparr>" "ptab_of (s\<lparr>nextpid := n\<rparr>) = (ptab_of s)\<lparr>t_nextpid := n\<rparr>"
  "ptab_of (s\<lparr>cpuproc := c'\<rparr>) = (ptab_of s)\<lparr>t_cpu := c'\<rparr>" "ptab_of (s\<lparr>initproc := q\<rparr>) = (ptab_of s)\<lparr>t_init := q\<rparr>"
  by (simp_all add: ptab_of_def)

abbreviation running :: "'z kproc_scheme \<Rightarrow> nat \<Rightarrow> bool" where
  "running s i \<equiv> cpuproc s = Some i \<and> in_state (ptab_of s) i RUNNING"

text \<open>Between operations the process of a processor runs, unless the processor is on its way to the scheduler, with the lock.\<close>

definition settled :: "'z kproc_scheme \<Rightarrow> bool" where
  "settled s \<longleftrightarrow> (\<forall>i. cpuproc s = Some i \<longrightarrow> in_state (ptab_of s) i RUNNING \<or> L_ptable \<in> k_held s)"

lemma settledI [intro]: "L_ptable \<in> k_held s \<Longrightarrow> settled s" "cpuproc s = None \<Longrightarrow> settled s" "running s i \<Longrightarrow> settled s"
  by (auto simp: settled_def)

lemma same_key_refl [simp]: "same_key p p"
  by (simp add: same_key_def)

lemma may_wake_refl [simp]: "may_wake p p"
  by (simp add: may_wake_def)

lemma list_all2_update1: "i < length xs \<Longrightarrow> (\<And>x. R x x) \<Longrightarrow> R (xs ! i) y \<Longrightarrow> list_all2 R xs (xs[i := y])"
  by (auto simp: list_all2_conv_all_nth nth_list_update)

lemma touch_slot:
  assumes "same_key (procs s ! i) p" and "i < length (procs s)"
  shows "pt_step (ptab_of s) (ptab_of (s\<lparr>procs := (procs s)[i := p]\<rparr>))"
  using touch [of "ptab_of s" "(procs s)[i := p]"] assms list_all2_update1 [of i "procs s" same_key] by simp

lemma wakeup1_may_wake: "list_all2 may_wake ps (map (wakeup1_proc ch) ps)"
  by (simp add: list_all2_conv_all_nth may_wake_def wakeup1_proc_def)

lemma wakeup_steps:
  assumes "wakeup ch s = Ok u t"
  shows "pt_steps (ptab_of s) (ptab_of t)"
proof -
  have t: "t = s\<lparr>procs := map (wakeup1_proc (Some ch)) (procs s), k_held := k_held t\<rparr>"
    using assms by (auto simp: wakeup_def wakeup_parts_def wakeup1_def monad_Ok_iff acquire_def release_def split: if_splits)
  have "pt_step (ptab_of s) ((ptab_of s)\<lparr>t_procs := map (wakeup1_proc (Some ch)) (procs s)\<rparr>)"
    by (rule wake) (simp add: wakeup1_may_wake)
  then show ?thesis by (subst t) auto
qed

lemma state_update: "p_state (ps ! i) = st \<Longrightarrow> i < length ps \<Longrightarrow> (k = i \<Longrightarrow> p_state q = st) \<Longrightarrow> p_state (ps[k := q] ! i) = st"
  by (cases "k = i") simp_all

lemma settled_same:
  assumes "settled s" and "cpuproc t = cpuproc s" and "L_ptable \<notin> k_held s"
    and "\<And>i. in_state (ptab_of s) i RUNNING \<Longrightarrow> in_state (ptab_of t) i RUNNING"
  shows "settled t"
  using assms by (auto simp: settled_def)

lemma wakeup_settled:
  assumes "wakeup ch s = Ok u t" and "settled s"
  shows "settled t"
proof (rule settled_same [OF assms(2)])
  have t: "t = s\<lparr>procs := map (wakeup1_proc (Some ch)) (procs s), k_held := k_held t\<rparr>" and l: "L_ptable \<notin> k_held s"
    using assms(1) by (auto simp: wakeup_def wakeup_parts_def wakeup1_def monad_Ok_iff acquire_def release_def split: if_splits)
  from l show "L_ptable \<notin> k_held s" .
  show "cpuproc t = cpuproc s" using arg_cong [OF t, of cpuproc] by simp
  have "procs t = map (wakeup1_proc (Some ch)) (procs s)" using arg_cong [OF t, of procs] by simp
  then show "in_state (ptab_of t) i RUNNING" if "in_state (ptab_of s) i RUNNING" for i
    using that by (simp add: in_state_def wakeup1_proc_def)
qed

lemma kill_settled:
  assumes "kill pid s = Ok r t" and "L_ptable \<notin> k_held s" and "settled s"
  shows "settled t"
proof (rule settled_same [OF assms(3) _ assms(2)])
  show "cpuproc t = cpuproc s" using assms(1) kill_run [OF assms(2), of pid] by (auto split: option.splits)
  show "in_state (ptab_of t) i RUNNING" if "in_state (ptab_of s) i RUNNING" for i
    using that assms(1) kill_run [OF assms(2), of pid] by (auto simp: in_state_def killed_proc_def intro!: state_update split: option.splits)
qed

lemma kill_steps:
  assumes "kill pid s = Ok r t" and "L_ptable \<notin> k_held s"
  shows "pt_steps (ptab_of s) (ptab_of t)"
proof (cases "find_slot (\<lambda>p. p_pid p = pid) 0 (procs s)")
  case None
  then show ?thesis using assms kill_run [OF assms(2), of pid] by simp
next
  case (Some i)
  let ?p = "procs s ! i" and ?u = "s\<lparr>procs := (procs s)[i := (procs s ! i)\<lparr>p_killed := True\<rparr>]\<rparr>"
  have i: "i < length (procs s)" using Some by (simp add: find_slot_Some)
  have t: "t = ?u\<lparr>procs := (procs ?u)[i := killed_proc ?p]\<rparr>"
    using assms kill_run [OF assms(2), of pid] Some by simp
  have "pt_step (ptab_of s) (ptab_of ?u)" using i by (intro touch_slot) (simp_all add: same_key_def)
  moreover have "may_wake (procs ?u ! i) (killed_proc ?p)"
    using i by (cases "p_state ?p = SLEEPING") (auto simp: may_wake_def killed_proc_def)
  then have "pt_step (ptab_of ?u) (ptab_of t)"
    unfolding t using i wake [of "ptab_of ?u"] list_all2_update1 [of i "procs ?u" may_wake] by simp
  ultimately show ?thesis by auto
qed

lemma sleep_steps:
  assumes "sleep ch lk s = Sleeps c t" and "k_held s = {lk}" and "cpuproc s = Some i"
    and "in_state (ptab_of s) i RUNNING"
  shows "pt_steps (ptab_of s) (ptab_of t) \<and> L_ptable \<in> k_held t"
proof -
  have i: "i < length (procs s)" using assms(4) by (simp add: in_state_def)
  let ?u = "s\<lparr>procs := (procs s)[i := (procs s ! i)\<lparr>p_chan := Some ch\<rparr>]\<rparr>"
  have t: "t = s\<lparr>k_held := {L_ptable}, procs := (procs s)[i := (procs s ! i)\<lparr>p_chan := Some ch, p_state := SLEEPING\<rparr>]\<rparr>"
    using assms(1) by (auto simp: sleep_run [OF assms(3,2) i])
  have "pt_step (ptab_of s) (ptab_of ?u)" using i by (intro touch_slot) (simp_all add: same_key_def)
  moreover have "pt_step (ptab_of ?u) (set_state i SLEEPING (ptab_of ?u))"
    using assms(3,4) i by (intro stop) (simp_all add: in_state_def)
  ultimately show ?thesis using i by (simp add: t set_state_def)
qed

lemma sleep_no_Ok: "sleep ch lk s \<noteq> Ok r t"
proof
  assume "sleep ch lk s = Ok r t"
  then show False by (auto simp: sleep_def monad_Ok_iff myproc_def split: option.splits)
qed

lemma yield_steps:
  assumes "yield s = Ok u t" and "cpuproc s = Some i" and "in_state (ptab_of s) i RUNNING"
  shows "pt_steps (ptab_of s) (ptab_of t) \<and> L_ptable \<in> k_held t"
proof -
  have t: "ptab_of t = set_state i RUNNABLE (ptab_of s)" "L_ptable \<in> k_held t"
    using assms by (auto simp: yield_def sched_def monad_Ok_iff acquire_def curproc_def upd_proc_def set_state_def split: if_splits)
  have "pt_step (ptab_of s) (set_state i RUNNABLE (ptab_of s))" using assms by (intro stop) simp_all
  then show ?thesis by (simp add: t)
qed

lemma run_proc_steps:
  assumes "run_proc i s = Ok u t" and "cpuproc s = None" and "in_state (ptab_of s) i RUNNABLE"
  shows "pt_steps (ptab_of s) (ptab_of t) \<and> settled t"
proof -
  have t: "ptab_of t = set_state i RUNNING ((ptab_of s)\<lparr>t_cpu := Some i\<rparr>)"
    using assms(1)
    by (auto simp: run_proc_def switchuvm_def monad_Ok_iff upd_proc_def set_state_def split: if_splits)
  have "pt_step (ptab_of s) (set_state i RUNNING ((ptab_of s)\<lparr>t_cpu := Some i\<rparr>))" using assms by (intro run) simp_all
  moreover have "i < length (procs s)" using assms(3) by (simp add: in_state_def)
  then have "in_state (ptab_of t) i RUNNING" unfolding t by (simp add: in_state_def set_state_def)
  moreover have "cpuproc t = Some i" using arg_cong [OF t, of t_cpu] by (simp add: set_state_def)
  ultimately show ?thesis by (auto simp: t)
qed

lemma scheduler_steps:
  assumes "scheduler s = Ok r t" and "cpuproc s = None"
  shows "pt_steps (ptab_of s) (ptab_of t) \<and> settled t"
proof (cases "fcfs_pick (procs s)")
  case None
  then have "ptab_of t = ptab_of s"
    using assms(1) by (auto simp: scheduler_def monad_Ok_iff acquire_def release_def split: if_splits)
  moreover from this have "cpuproc t = None" using assms(2) by (metis ptab_of_simps(3))
  ultimately show ?thesis by auto
next
  case (Some i)
  then obtain h where run: "run_proc i (s\<lparr>k_held := h\<rparr>) = Ok () t"
    using assms(1) by (auto simp: scheduler_def monad_Ok_iff acquire_def split: if_splits)
  have "in_state (ptab_of (s\<lparr>k_held := h\<rparr>)) i RUNNABLE" using fcfs.pick_runnable [OF Some] by (simp add: in_state_def)
  then show ?thesis using run_proc_steps [OF run] assms(2) by simp
qed

lemma scheduler_prio_from_steps:
  assumes "scheduler_prio_from k s = Ok r t" and "cpuproc s = None"
  shows "pt_steps (ptab_of s) (ptab_of t) \<and> settled t"
proof (cases "prio_pick k (procs s)")
  case None
  then have "ptab_of t = ptab_of s"
    using assms(1) by (auto simp: scheduler_prio_from_def monad_Ok_iff release_def split: if_splits)
  moreover from this have "cpuproc t = None" using assms(2) by (metis ptab_of_simps(3))
  ultimately show ?thesis by auto
next
  case (Some i)
  then have run: "run_proc i s = Ok () t"
    using assms(1) by (auto simp: scheduler_prio_from_def monad_Ok_iff)
  have "in_state (ptab_of s) i RUNNABLE" using prio_pick_Some [OF Some] by (simp add: in_state_def)
  then show ?thesis using run_proc_steps [OF run assms(2)] by simp
qed

lemma run_done_steps:
  assumes "cpuproc s = Some i" and "\<not> in_state (ptab_of s) i RUNNING"
  shows "\<exists>t. run_done s = Ok () t \<and> pt_steps (ptab_of s) (ptab_of t) \<and> cpuproc t = None"
proof -
  have "pt_step (ptab_of s) ((ptab_of s)\<lparr>t_cpu := None\<rparr>)" using assms by (intro idle) simp_all
  then show ?thesis by (auto simp: run_done_def switchkvm_def thenM_run)
qed

lemma scheduler_resume_steps:
  assumes "scheduler_resume s = Ok u t" and "cpuproc s = Some i" and "\<not> in_state (ptab_of s) i RUNNING"
  shows "pt_steps (ptab_of s) (ptab_of t) \<and> settled t"
proof -
  obtain v where "run_done s = Ok () v" "pt_steps (ptab_of s) (ptab_of v)" "cpuproc v = None" using run_done_steps [OF assms(2,3)] by blast
  then show ?thesis using assms(1) by (auto simp: scheduler_resume_def monad_Ok_iff release_def split: if_splits)
qed

lemma scheduler_prio_resume_steps:
  assumes "scheduler_prio_resume k s = Ok r t" and "cpuproc s = Some i" and "\<not> in_state (ptab_of s) i RUNNING"
  shows "pt_steps (ptab_of s) (ptab_of t) \<and> settled t"
proof -
  obtain v where v: "run_done s = Ok () v" "pt_steps (ptab_of s) (ptab_of v)" "cpuproc v = None"
    using run_done_steps [OF assms(2,3)] by blast
  then have "scheduler_prio_from (Suc k) v = Ok r t" using assms(1) by (auto simp: scheduler_prio_resume_def monad_Ok_iff)
  from v(2) scheduler_prio_from_steps [OF this v(3)] show ?thesis by auto
qed

text \<open>Operations that leave states, pids and parents alone.\<close>

definition key_frame :: "'z kproc_scheme \<Rightarrow> 'z kproc_scheme \<Rightarrow> bool" where
  "key_frame s t \<longleftrightarrow> list_all2 same_key (procs s) (procs t)
     \<and> nextpid t = nextpid s \<and> cpuproc t = cpuproc s \<and> initproc t = initproc s"

lemma key_frame_steps: "key_frame s t \<Longrightarrow> pt_steps (ptab_of s) (ptab_of t)"
proof -
  assume k: "key_frame s t"
  then have "pt_step (ptab_of s) ((ptab_of s)\<lparr>t_procs := procs t\<rparr>)" by (intro touch) (simp add: key_frame_def)
  moreover have "(ptab_of s)\<lparr>t_procs := procs t\<rparr> = ptab_of t" using k by (simp add: key_frame_def ptab_of_def)
  ultimately show ?thesis by auto
qed

lemma key_frame_refl [simp]: "key_frame s s"
  by (simp add: key_frame_def list_all2_refl)

lemma key_frame_same: "procs t = procs s \<Longrightarrow> nextpid t = nextpid s \<Longrightarrow> cpuproc t = cpuproc s \<Longrightarrow> initproc t = initproc s
  \<Longrightarrow> key_frame s0 t = key_frame s0 s"
  by (simp add: key_frame_def)

lemma key_frame_vm: "vm_frame s t \<Longrightarrow> key_frame s0 s \<Longrightarrow> key_frame s0 t"
  by (frule vm_frame_kproc(1), frule vm_frame_kproc(2), frule vm_frame_kproc(4), frule vm_frame_kproc(5))
    (simp add: key_frame_def)

lemma keeps_vm: "(\<And>s0. keeps (vm_frame s0) m) \<Longrightarrow> keeps (key_frame s) m"
  by (rule keepsI) (metis keepsD key_frame_vm vm_frame_refl)

lemma same_key_trans: "same_key p q \<Longrightarrow> same_key q r \<Longrightarrow> same_key p r"
  by (simp add: same_key_def)

lemma keeps_upd_proc:
  assumes "\<And>p. same_key p (f p)"
  shows "keeps (key_frame s) (upd_proc i f)"
  unfolding upd_proc_def
proof (rule keeps_mod)
  fix u assume "key_frame s u"
  then have l: "list_all2 same_key (procs s) (procs u)" by (simp add: key_frame_def)
  moreover have "list_all2 same_key (procs u) ((procs u)[i := f (procs u ! i)])"
    using assms by (cases "i < length (procs u)") (auto intro: list_all2_update1 simp: list_all2_refl list_update_beyond)
  ultimately have "list_all2 same_key (procs s) ((procs u)[i := f (procs u ! i)])"
    using list_all2_trans [of same_key same_key same_key] same_key_trans by blast
  then show "key_frame s (u\<lparr>procs := (procs u)[i := f (procs u ! i)]\<rparr>)"
    using \<open>key_frame s u\<close> by (simp add: key_frame_def)
qed

lemma reap_steps:
  assumes "reap i s = Ok u t" and "in_state (ptab_of s) i ZOMBIE"
  shows "pt_steps (ptab_of s) (ptab_of t)"
proof -
  have i: "i < length (procs s)" using assms(2) by (simp add: in_state_def)
  note r = reap_Ok [OF assms(1) i]
  let ?p = "(procs s ! i)\<lparr>p_state := UNUSED, p_pid := 0, p_parent := None\<rparr>"
  let ?v = "s\<lparr>procs := (procs s)[i := ?p]\<rparr>"
  have "pt_step (ptab_of s) (ptab_of ?v)" using assms(2) reap [of "ptab_of s" i] by simp
  moreover have "list_all2 same_key (procs ?v) (procs t)"
    using i by (auto simp: r(1) list_all2_conv_all_nth nth_list_update same_key_def reaped_def)
  then have "key_frame ?v t" using r by (simp add: key_frame_def)
  ultimately show ?thesis by (meson converse_rtranclp_into_rtranclp key_frame_steps)
qed

text \<open>A call ends in a state when it returns or goes to sleep there.\<close>

definition ends :: "('s \<Rightarrow> ('a, 's) res) \<Rightarrow> 's \<Rightarrow> 's \<Rightarrow> bool" where
  "ends m s t \<longleftrightarrow> (\<exists>r. m s = Ok r t) \<or> (\<exists>c. m s = Sleeps c t)"

lemma reap_running:
  assumes "reap i s = Ok u t" and "in_state (ptab_of s) i ZOMBIE" and "running s cur"
  shows "running t cur"
proof -
  have i: "i < length (procs s)" using assms(2) by (simp add: in_state_def)
  show ?thesis using assms(2,3) reap_Ok [OF assms(1) i] by (auto simp: in_state_def nth_list_update)
qed

lemma ends_reap:
  assumes "ends (thenM prep (thenM (reap i) (thenM (release L_ptable) (retM x)))) s t"
    and "\<And>s0. keeps (vm_frame s0) prep" and "\<And>c u. prep s \<noteq> Sleeps c u" and "in_state (ptab_of s) i ZOMBIE" and "running s cur"
  shows "pt_steps (ptab_of s) (ptab_of t) \<and> settled t"
proof -
  have "thenM prep (thenM (reap i) (thenM (release L_ptable) (retM x))) s = Ok r t \<Longrightarrow> ?thesis" for r
  proof -
    assume "thenM prep (thenM (reap i) (thenM (release L_ptable) (retM x))) s = Ok r t"
    then obtain a u v where 1: "prep s = Ok a u" and 2: "reap i u = Ok () v" and 3: "release L_ptable v = Ok () t"
      by (auto simp: monad_Ok_iff)
    from keepsD [OF assms(2) 1 vm_frame_refl] have "ptab_of u = ptab_of s"
      using vm_frame_kproc [of s u] by (simp add: ptab_of_def)
    moreover from this have "pt_steps (ptab_of u) (ptab_of v)" using assms(4) by (intro reap_steps [OF 2]) simp
    moreover have "running u cur" using assms(5) \<open>ptab_of u = ptab_of s\<close> by (metis ptab_of_simps(3))
    then have "running v cur" using assms(4) \<open>ptab_of u = ptab_of s\<close> by (intro reap_running [OF 2]) simp_all
    then have "running t cur" using 3 by (auto simp: release_def in_state_def split: if_splits)
    ultimately show ?thesis using 3 by (auto simp: release_def split: if_splits)
  qed
  moreover have "thenM prep (thenM (reap i) (thenM (release L_ptable) (retM x))) s \<noteq> Sleeps c t" for c
    using assms(3) by (auto simp: thenM_run release_def reap_no_sleep split: res.splits if_splits)
  ultimately show ?thesis using assms(1) by (auto simp: ends_def)
qed

lemma ends_no_child:
  assumes "ends (thenM (upd_proc cur (\<lambda>p. p\<lparr>p_etime := now\<rparr>))
         (bindM (getM (\<lambda>s. p_killed (procs s ! cur))) (\<lambda>killed.
         if \<not> h \<or> killed then thenM (release L_ptable) (retM (-1 :: u32)) else sleep (Ch_proc cur) L_ptable))) s t"
    and "cpuproc s = Some cur" and "k_held s = {L_ptable}" and "in_state (ptab_of s) cur RUNNING"
  shows "pt_steps (ptab_of s) (ptab_of t) \<and> settled t"
proof -
  let ?u = "s\<lparr>procs := (procs s)[cur := (procs s ! cur)\<lparr>p_etime := now\<rparr>]\<rparr>"
  have cur: "cur < length (procs s)" using assms(4) by (simp add: in_state_def)
  have su: "pt_step (ptab_of s) (ptab_of ?u)" using cur by (intro touch_slot) (simp_all add: same_key_def)
  have "in_state (ptab_of ?u) cur RUNNING" using assms(4) by (simp add: in_state_def)
  then have sl: "pt_steps (ptab_of ?u) (ptab_of v) \<and> L_ptable \<in> k_held v" if "sleep (Ch_proc cur) L_ptable ?u = (Sleeps c v :: (u32, 'a kproc_scheme) res)" for c v
    using sleep_steps [OF that] assms(2,3) by simp
  have "ptab_of t = ptab_of ?u \<and> cpuproc t = cpuproc ?u \<or> (\<exists>c. sleep (Ch_proc cur) L_ptable ?u = (Sleeps c t :: (u32, 'a kproc_scheme) res))"
    using assms(1,3)
    by (auto simp: ends_def thenM_run bindM_run upd_proc_def release_def sleep_no_Ok split: if_splits)
  moreover have "running ?u cur" using assms(2,4) by (simp add: in_state_def)
  ultimately have "pt_steps (ptab_of ?u) (ptab_of t) \<and> settled t" using sl by (auto simp: settled_def)
  with su show ?thesis by (auto intro: converse_rtranclp_into_rtranclp)
qed

lemma child_found: "child_scan cur w k ps h = (Some i, h') \<Longrightarrow> k \<le> i \<and> i < k + length ps \<and> p_state (ps ! (i - k)) = ZOMBIE"
  by (auto simp: child_scan_result find_slot_Some split: option.splits)

lemma wait_pass_steps:
  assumes "ends wait_pass s t" and "cpuproc s = Some cur" and "k_held s = {L_ptable}" and "in_state (ptab_of s) cur RUNNING"
  shows "pt_steps (ptab_of s) (ptab_of t) \<and> settled t"
proof (cases "child_scan cur (\<lambda>_. True) 0 (procs s) False")
  case (Pair found h)
  show ?thesis
  proof (cases found)
    case None
    then have "ends (thenM (upd_proc cur (\<lambda>p. p\<lparr>p_etime := ticks s\<rparr>))
         (bindM (getM (\<lambda>s. p_killed (procs s ! cur))) (\<lambda>killed.
         if \<not> h \<or> killed then thenM (release L_ptable) (retM (-1 :: u32)) else sleep (Ch_proc cur) L_ptable))) s t"
      using assms(1,2) Pair by (simp add: ends_def wait_pass_def bindM_run curproc_def)
    from ends_no_child [OF this assms(2-4)] show ?thesis .
  next
    case (Some i)
    then have "ends (thenM (retM ()) (thenM (reap i) (thenM (release L_ptable) (retM (p_pid (procs s ! i)))))) s t"
      using assms(1,2) Pair by (simp add: ends_def wait_pass_def bindM_run curproc_def thenM_run [of "retM ()"])
    moreover have "in_state (ptab_of s) i ZOMBIE" using child_found [of cur _ 0] Pair Some by (simp add: in_state_def)
    ultimately show ?thesis by (intro ends_reap [where prep = "retM ()" and cur = cur]) (use assms(2,4) in \<open>auto intro: keeps_ret\<close>)
  qed
qed

definition awake :: "('s \<Rightarrow> ('a, 's) res) \<Rightarrow> bool" where
  "awake m \<longleftrightarrow> (\<forall>s c t. m s \<noteq> Sleeps c t)"

lemma awake_rules:
  "awake m \<Longrightarrow> (\<And>a. awake (f a)) \<Longrightarrow> awake (bindM m f)"
  "awake m \<Longrightarrow> awake n \<Longrightarrow> awake (thenM m n)"
  "awake p \<Longrightarrow> awake (whenM q p)"
  "awake (retM x)"
  "awake (vload8 a)" "awake (vstore8 a b)"
  by (auto simp: awake_def bindM_run thenM_run vload8_def vstore8_def split: res.splits option.splits)

lemma awake_forM: "(\<And>x. awake (f x)) \<Longrightarrow> awake (forM xs f)"
  by (induction xs) (simp_all add: awake_rules)

lemma put_pstat_no_sleep: "put_pstat b a p s \<noteq> Sleeps c t" for s :: "'z kproc_scheme"
proof -
  have "awake (put_pstat b a p :: 'z kproc_scheme \<Rightarrow> _)"
    unfolding put_pstat_def vstore32_def vload32_def by (intro awake_rules awake_forM)
  then show ?thesis by (simp add: awake_def)
qed

lemma procstat_pass_steps:
  assumes "ends (procstat_pass b pid pstat) s t" and "cpuproc s = Some cur" and "k_held s = {L_ptable}"
    and "in_state (ptab_of s) cur RUNNING"
  shows "pt_steps (ptab_of s) (ptab_of t) \<and> settled t"
proof (cases "child_scan cur (\<lambda>p. p_pid p = pid) 0 (procs s) False")
  case (Pair found h)
  show ?thesis
  proof (cases found)
    case None
    then have "ends (thenM (upd_proc cur (\<lambda>p. p\<lparr>p_etime := ticks s\<rparr>))
         (bindM (getM (\<lambda>s. p_killed (procs s ! cur))) (\<lambda>killed.
         if \<not> h \<or> killed then thenM (release L_ptable) (retM (-1 :: u32)) else sleep (Ch_proc cur) L_ptable))) s t"
      using assms(1,2) Pair by (simp add: ends_def procstat_pass_def bindM_run curproc_def)
    from ends_no_child [OF this assms(2-4)] show ?thesis .
  next
    case (Some i)
    let ?prep = "whenM (pstat \<noteq> 0) (put_pstat b pstat (procs s ! i))"
    have "ends (thenM ?prep (thenM (reap i) (thenM (release L_ptable) (retM pid)))) s t"
      using assms(1,2) Pair Some by (simp add: ends_def procstat_pass_def bindM_run curproc_def del: whenM_run)
    moreover have "in_state (ptab_of s) i ZOMBIE" using child_found [of cur _ 0] Pair Some by (simp add: in_state_def)
    moreover have "keeps (vm_frame s0) ?prep" for s0 unfolding put_pstat_def by (intro keeps_rules)
    ultimately show ?thesis by (intro ends_reap [where prep = ?prep and cur = cur]) (use assms(2,4) in \<open>auto simp: put_pstat_no_sleep\<close>)
  qed
qed

lemma sleep_resume_steps:
  assumes "sleep_resume lk s = Ok u t"
  shows "pt_steps (ptab_of s) (ptab_of t) \<and> (running s cur \<longrightarrow> running t cur)"
proof -
  obtain i where t: "ptab_of t = ptab_of (s\<lparr>procs := (procs s)[i := (procs s ! i)\<lparr>p_chan := None\<rparr>]\<rparr>)"
    using assms by (auto simp: sleep_resume_def monad_Ok_iff curproc_def upd_proc_def release_def acquire_def whenM_Ok_iff
        split: option.splits if_splits)
  have "keeps (key_frame s) (upd_proc i (\<lambda>p. p\<lparr>p_chan := None\<rparr>))" by (rule keeps_upd_proc) (simp add: same_key_def)
  then have "key_frame s (s\<lparr>procs := (procs s)[i := (procs s ! i)\<lparr>p_chan := None\<rparr>]\<rparr>)"
    using keepsD [of "key_frame s" "upd_proc i (\<lambda>p. p\<lparr>p_chan := None\<rparr>)" s] by (simp add: upd_proc_def)
  then have k: "pt_steps (ptab_of s) (ptab_of t)" unfolding t by (rule key_frame_steps)
  have "running t cur" if "running s cur"
    using that arg_cong [OF t, of t_cpu] arg_cong [OF t, of t_procs] by (auto simp: in_state_def intro!: state_update)
  with k show ?thesis by blast
qed

lemma keeps_acquire_key: "keeps (key_frame s) (acquire l)"
  by (rule keepsI) (auto simp: acquire_def key_frame_def split: if_splits)

lemma keeps_release_key: "keeps (key_frame s) (release l)"
  by (rule keepsI) (auto simp: release_def key_frame_def split: if_splits)

lemmas keeps_key = keeps_acquire_key keeps_release_key keeps_upd_proc keeps_ret keeps_get keeps_panic keeps_bind keeps_then
  keeps_when keeps_if keeps_for keeps_Let

lemma ps_steps:
  assumes "proc_ps s = Ok r t"
  shows "pt_steps (ptab_of s) (ptab_of t)"
proof -
  have "keeps (key_frame s) proc_ps"
    unfolding proc_ps_def by (intro keeps_key keeps_vm keeps_cprintf) (simp add: same_key_def)
  from keepsD [OF this assms key_frame_refl] show ?thesis by (rule key_frame_steps)
qed

subsection \<open>fork\<close>

lemma key_frame_in_state: "key_frame s t \<Longrightarrow> in_state (ptab_of t) i st = in_state (ptab_of s) i st"
  by (auto simp: key_frame_def in_state_def same_key_def list_all2_conv_all_nth)

lemma key_frame_running: "key_frame s t \<Longrightarrow> running s i \<Longrightarrow> running t i"
  using key_frame_in_state [of s t i RUNNING] by (simp add: key_frame_def)

lemma key_frame_parent: "key_frame s t \<Longrightarrow> i < length (procs s) \<Longrightarrow> p_parent (procs t ! i) = p_parent (procs s ! i)"
  by (auto simp: key_frame_def same_key_def list_all2_conv_all_nth)

text \<open>\<open>forking x cur np s\<close>: the table has come from \<open>x\<close>, with the embryo \<open>np\<close> in it and \<open>cur\<close> running.\<close>

definition forking :: "ptab \<Rightarrow> nat \<Rightarrow> nat \<Rightarrow> 'z kproc_scheme \<Rightarrow> bool" where
  "forking x cur np s \<longleftrightarrow> pt_steps x (ptab_of s) \<and> in_state (ptab_of s) np EMBRYO \<and> running s cur"

text \<open>\<open>back_in\<close>: it has come there, and \<open>cur\<close> goes on.\<close>

definition back_in :: "ptab \<Rightarrow> nat \<Rightarrow> 'z kproc_scheme \<Rightarrow> bool" where
  "back_in x cur s \<longleftrightarrow> pt_steps x (ptab_of s) \<and> running s cur"

lemma keeps_forking: "(\<And>s. keeps (key_frame s) m) \<Longrightarrow> keeps (forking x cur np) m"
proof (rule keepsI)
  fix s a t assume k: "\<And>s. keeps (key_frame s) m" and f: "forking x cur np s" "m s = Ok a t"
  have "key_frame s t" using keepsD [OF k f(2) key_frame_refl] .
  then show "forking x cur np t"
    using f(1) key_frame_steps [of s t] key_frame_running [of s t cur] key_frame_in_state [of s t np EMBRYO]
    by (auto simp: forking_def)
qed

lemma validM_bind: "keeps P m \<Longrightarrow> (\<And>a. validM P (f a) Q) \<Longrightarrow> validM P (bindM m f) Q"
  by (auto simp: validM_def bindM_Ok_iff dest!: keepsD)

lemma validM_then: "keeps P m \<Longrightarrow> validM P n Q \<Longrightarrow> validM P (thenM m n) Q"
  by (simp add: thenM_def validM_bind)

lemma keeps_filedup_key: "keeps (key_frame s) (filedup f)"
proof -
  have "keeps (key_frame s) (modM (upd_file f g))" for g by (rule keeps_mod) (simp add: key_frame_def upd_file_def)
  then show ?thesis unfolding filedup_def fileM_def by (intro keeps_key)
qed

lemma keeps_idup_key: "keeps (key_frame s) (idup d)"
proof -
  have "keeps (key_frame s) (modM (upd_inode d g))" for g by (rule keeps_mod) (simp add: key_frame_def upd_inode_def)
  then show ?thesis unfolding idup_def by (intro keeps_key)
qed

lemma keeps_copy_files_key: "keeps (key_frame s) (copy_files cur np)"
proof -
  have "keeps (key_frame s) (case f of None \<Rightarrow> retM ()
       | Some f \<Rightarrow> bindM (filedup f) (\<lambda>f'. upd_proc np (\<lambda>p. p\<lparr>p_ofile := (p_ofile p)[i := Some f']\<rparr>)))" for f i
    by (cases f) (auto intro!: keeps_ret keeps_bind keeps_filedup_key keeps_upd_proc simp: same_key_def)
  then show ?thesis unfolding copy_files_def by (intro keeps_for keeps_bind keeps_get)
qed

lemma allocproc_Ok:
  assumes "allocproc s = Ok q t" and "L_ptable \<notin> k_held s"
    and "find_slot (\<lambda>p. p_state p = UNUSED) 0 (procs s) = Some i"
  defines "new st \<equiv> s\<lparr>procs := (procs s)[i := (procs s ! i)\<lparr>p_state := st, p_pid := nextpid s\<rparr>], nextpid := nextpid s + 1\<rparr>"
  shows "q = None \<and> key_frame (new UNUSED) t \<or> q = Some i \<and> key_frame (new EMBRYO) t"
proof -
  have i: "i < length (procs s)" using assms(3) by (simp add: find_slot_Some)
  let ?p = "(procs s ! i)\<lparr>p_state := EMBRYO, p_pid := nextpid s, p_ctime := ticks s, p_etime := 0\<rparr>"
  let ?s2 = "s\<lparr>procs := (procs s)[i := ?p], nextpid := nextpid s + 1\<rparr>"
  have held: "k_held s - {L_ptable} = k_held s" using assms(2) by auto
  note eval = allocproc_def monad_simps acquire_def release_def upd_proc_def poke_def memsetM_def Let_def held
  show ?thesis
  proof (cases "kalloc ?s2")
    case (Ok k s3)
    have s3: "procs s3 = procs ?s2" "nextpid s3 = nextpid ?s2" "cpuproc s3 = cpuproc s" "initproc s3 = initproc s"
      using kalloc_Ok [OF Ok] by simp_all
    show ?thesis
    proof (cases "k = 0")
      case True
      have "allocproc s = Ok None (s3\<lparr>procs := (procs s3)[i := (procs s3 ! i)\<lparr>p_kstack := 0, p_state := UNUSED\<rparr>]\<rparr>)"
        using assms(2,3) i s3(1) Ok True by (simp add: eval)
      then show ?thesis using assms(1) i s3
        by (auto simp: key_frame_def new_def list_all2_conv_all_nth nth_list_update same_key_def)
    next
      case False
      let ?tf = "k + KSTACKSIZE - sizeof_trapframe"
      have "\<exists>m. allocproc s = Ok (Some i) (s3\<lparr>procs := (procs s3)[i := (procs s3 ! i)\<lparr>p_kstack := k,
          p_tf := ?tf, p_context := ?tf - 4 - sizeof_context\<rparr>], k_mem := m\<rparr>)"
        using assms(2,3) i s3(1) Ok False by (auto simp: eval)
      then show ?thesis using assms(1) i s3
        by (auto simp: key_frame_def new_def list_all2_conv_all_nth nth_list_update same_key_def)
    qed
  qed (use assms(1-3) i in \<open>simp_all add: eval\<close>)
qed

lemma allocproc_steps:
  assumes "allocproc s = Ok q t" and "L_ptable \<notin> k_held s" and "sint (nextpid s) < 2 ^ 31 - 1"
  shows "pt_steps (ptab_of s) (ptab_of t) \<and> cpuproc t = cpuproc s
    \<and> (\<forall>j. in_state (ptab_of s) j RUNNING \<longrightarrow> in_state (ptab_of t) j RUNNING)
    \<and> (\<forall>i. q = Some i \<longrightarrow> in_state (ptab_of s) i UNUSED \<and> in_state (ptab_of t) i EMBRYO
         \<and> p_parent (procs t ! i) = p_parent (procs s ! i))"
proof (cases "find_slot (\<lambda>p. p_state p = UNUSED) 0 (procs s)")
  case None
  then show ?thesis using allocproc_full [OF assms(2)] assms(1) by simp
next
  case (Some i)
  then have u: "in_state (ptab_of s) i UNUSED" by (auto simp: find_slot_Some in_state_def)
  then have i: "i < length (procs s)" by (simp add: in_state_def)
  define new where "new st = s\<lparr>procs := (procs s)[i := (procs s ! i)\<lparr>p_state := st, p_pid := nextpid s\<rparr>], nextpid := nextpid s + 1\<rparr>" for st
  have al: "pt_step (ptab_of s) (ptab_of (new st))" if "st = EMBRYO \<or> st = UNUSED" for st
    using alloc [of "ptab_of s" i st] u assms(3) that by (simp add: new_def)
  have st: "in_state (ptab_of (new st)) j x \<longleftrightarrow> (if j = i then x = st else in_state (ptab_of s) j x)" for st j x
    using i by (auto simp: new_def in_state_def)
  consider "q = None" "key_frame (new UNUSED) t" | "q = Some i" "key_frame (new EMBRYO) t"
    using allocproc_Ok [OF assms(1,2) Some] by (auto simp: new_def)
  then show ?thesis
  proof cases
    case 1
    have "pt_steps (ptab_of s) (ptab_of t)"
      using converse_rtranclp_into_rtranclp [OF al key_frame_steps [OF 1(2)]] by simp
    with 1 u st key_frame_in_state [OF 1(2)] show ?thesis by (auto simp: key_frame_def new_def in_state_def)
  next
    case 2
    have "pt_steps (ptab_of s) (ptab_of t)"
      using converse_rtranclp_into_rtranclp [OF al key_frame_steps [OF 2(2)]] by simp
    with 2 u st i key_frame_in_state [OF 2(2)] key_frame_parent [OF 2(2), of i] show ?thesis
      by (auto simp: key_frame_def new_def in_state_def)
  qed
qed

lemma thenM_upd_proc: "thenM (upd_proc i f) n s = n (s\<lparr>procs := (procs s)[i := f (procs s ! i)]\<rparr>)"
  by (simp add: thenM_run upd_proc_def)

lemma fork_ready:
  assumes "forking x cur np s"
  shows "back_in x cur (s\<lparr>procs := (procs s)[np := (procs s ! np)\<lparr>p_state := RUNNABLE\<rparr>]\<rparr>)"
proof -
  have "pt_step (ptab_of s) (set_state np RUNNABLE (ptab_of s))" using assms by (intro ready) (simp add: forking_def)
  moreover have "np \<noteq> cur" using assms by (auto simp: forking_def in_state_def)
  ultimately show ?thesis using assms by (auto simp: forking_def back_in_def set_state_def in_state_def)
qed

lemma back_in_held [simp]: "back_in x cur (s\<lparr>k_held := h\<rparr>) = back_in x cur s"
  by (simp add: back_in_def)

lemma fork_tail:
  assumes "\<And>p. same_key p (prio p)"
  shows "validM (forking x cur np)
    (bindM (getM (\<lambda>s. p_tf (procs s ! np))) (\<lambda>tf.
     thenM (memmoveM tf (p_tf c) sizeof_trapframe)
     (thenM (upd_proc np prio)
     (thenM (poke (tf + tf_eax) 0)
     (thenM (copy_files cur np)
     (bindM (case p_cwd c of None \<Rightarrow> panic ''trap'' | Some d \<Rightarrow> idup d) (\<lambda>cwd.
     thenM (upd_proc np (\<lambda>p. p\<lparr>p_cwd := Some cwd, p_name := take 15 (p_name c)\<rparr>))
     (bindM (getM (\<lambda>s. p_pid (procs s ! np))) (\<lambda>pid.
     thenM (acquire L_ptable)
     (thenM (upd_proc np (\<lambda>p. p\<lparr>p_state := RUNNABLE\<rparr>))
     (thenM (release L_ptable)
     (retM pid))))))))))))
    (\<lambda>_ t. back_in x cur t)" (is "validM _ ?m _")
proof -
  have cwd: "keeps (key_frame s) (case p_cwd c of None \<Rightarrow> panic ''trap'' | Some d \<Rightarrow> idup d)" for s :: "'a kfile_scheme"
    by (cases "p_cwd c") (auto intro: keeps_panic keeps_idup_key)
  have last: "validM (forking x cur np) (thenM (upd_proc np (\<lambda>p. p\<lparr>p_state := RUNNABLE\<rparr>)) (thenM (release L_ptable) (retM pid)))
      (\<lambda>_ t. back_in x cur t)" for pid :: u32
    by (rule validMI) (auto simp: monad_Ok_iff upd_proc_def release_def fork_ready split: if_splits dest!: fork_ready)
  show ?thesis
    by (intro validM_bind validM_then keeps_forking keeps_get last cwd keeps_copy_files_key keeps_upd_proc assms keeps_acquire_key
        keeps_vm keeps_memmoveM keeps_poke) (simp add: same_key_def)
qed

lemma fork_steps:
  assumes run: "fork_with prio s = Ok r t" and prio: "\<And>p. same_key p (prio p)" and lock: "L_ptable \<notin> k_held s"
    and np: "sint (nextpid s) < 2 ^ 31 - 1" and cpu: "cpuproc s = Some cur" and cur: "in_state (ptab_of s) cur RUNNING"
    and inv: "ptab_inv (ptab_of s)"
  shows "back_in (ptab_of s) cur t"
proof -
  obtain q u where u: "allocproc s = Ok q u"
    using run cpu by (auto simp: fork_with_def monad_Ok_iff curproc_def)
  note al = allocproc_steps [OF u lock np]
  show ?thesis
  proof (cases q)
    case None
    then show ?thesis using run cpu cur u al by (auto simp: fork_with_def bindM_run curproc_def back_in_def)
  next
    case (Some i)
    let ?c = "procs u ! cur"
    have e: "in_state (ptab_of u) i EMBRYO" "running u cur" "i \<noteq> cur" using al Some cur cpu by (auto simp: in_state_def)
    have par: "p_parent (procs u ! i) = None"
      using al Some inv by (cases "p_parent (procs s ! i)") (auto simp: ptab_inv_def family_ok_def in_state_def)
    obtain pgdir v where v: "copyuvm (p_pgdir ?c) (p_sz ?c) u = Ok pgdir v"
      using run cpu u Some by (auto simp: fork_with_def monad_Ok_iff curproc_def procM_def)
    let ?w = "v\<lparr>procs := (procs v)[i := (procs v ! i)\<lparr>p_pgdir := pgdir\<rparr>]\<rparr>"
    have "vm_frame u v" using keepsD [OF keeps_copyuvm v vm_frame_refl] .
    then have uv: "key_frame u v" by (rule key_frame_vm) simp
    have "keeps (key_frame u) (upd_proc i (\<lambda>p. p\<lparr>p_pgdir := pgdir\<rparr>))" by (rule keeps_upd_proc) (simp add: same_key_def)
    then have uw: "key_frame u ?w"
      using keepsD [of "key_frame u" "upd_proc i (\<lambda>p. p\<lparr>p_pgdir := pgdir\<rparr>)" v] uv by (simp add: upd_proc_def)
    have sw: "pt_steps (ptab_of s) (ptab_of ?w)" using al key_frame_steps [OF uw] by auto
    have ew: "in_state (ptab_of ?w) i EMBRYO" "running ?w cur" "p_parent (procs ?w ! i) = None"
      using e par key_frame_in_state [OF uw, of i EMBRYO] key_frame_parent [OF uw, of i] key_frame_running [OF uw, of cur]
      by (auto simp: in_state_def)
    show ?thesis
    proof (cases "pgdir = 0")
      case True
      obtain y where y: "kfree (p_kstack (procs ?w ! i)) ?w = Ok () y"
        and t: "t = y\<lparr>procs := (procs y)[i := (procs y ! i)\<lparr>p_kstack := 0, p_state := UNUSED\<rparr>]\<rparr>"
        using run cpu u Some v True
        by (auto simp: fork_with_def monad_Ok_iff curproc_def procM_def upd_proc_def)
      have wy: "key_frame ?w y" using key_frame_vm [OF kfree_frame [OF y]] by simp
      have ey: "in_state (ptab_of y) i EMBRYO" "p_parent (procs y ! i) = None" "running y cur"
        using ew key_frame_in_state [OF wy, of i EMBRYO] key_frame_parent [OF wy, of i] key_frame_running [OF wy, of cur]
        by (auto simp: in_state_def)
      let ?y = "y\<lparr>procs := (procs y)[i := (procs y ! i)\<lparr>p_state := UNUSED\<rparr>]\<rparr>"
      have "pt_step (ptab_of y) (ptab_of ?y)" using unalloc [of "ptab_of y" i] ey by (simp add: set_state_def)
      moreover have "key_frame ?y t"
        by (auto simp: t key_frame_def same_key_def intro!: list_all2_update_cong list_all2_refl)
      ultimately have "pt_steps (ptab_of y) (ptab_of t)" by (meson converse_rtranclp_into_rtranclp key_frame_steps)
      moreover have "running t cur" using ey(3) e(3) by (simp add: t in_state_def)
      ultimately show ?thesis using sw key_frame_steps [OF wy] unfolding back_in_def by (meson rtranclp_trans)
    next
      case False
      let ?z1 = "?w\<lparr>procs := (procs ?w)[i := (procs ?w ! i)\<lparr>p_parent := Some cur\<rparr>]\<rparr>"
      let ?z = "?w\<lparr>procs := (procs ?w)[i := (procs ?w ! i)\<lparr>p_sz := p_sz ?c, p_parent := Some cur\<rparr>]\<rparr>"
      have "pt_step (ptab_of ?w) (ptab_of ?z1)" using child [of "ptab_of ?w" i cur] ew by simp
      moreover have z: "key_frame ?z1 ?z"
        by (auto simp: key_frame_def same_key_def intro!: list_all2_update_cong list_all2_refl)
      ultimately have "pt_steps (ptab_of ?w) (ptab_of ?z)"
        by (intro converse_rtranclp_into_rtranclp [OF _ key_frame_steps [OF z]])
      with sw have "pt_steps (ptab_of s) (ptab_of ?z)" by (rule rtranclp_trans)
      moreover have "in_state (ptab_of ?z) i EMBRYO" "running ?z cur"
        using ew e(3) by (auto simp: in_state_def)
      ultimately have "forking (ptab_of s) cur i ?z" by (simp add: forking_def)
      moreover have "bindM (getM (\<lambda>s. p_tf (procs s ! i))) (\<lambda>tf.
         thenM (memmoveM tf (p_tf ?c) sizeof_trapframe)
         (thenM (upd_proc i prio)
         (thenM (poke (tf + tf_eax) 0)
         (thenM (copy_files cur i)
         (bindM (case p_cwd ?c of None \<Rightarrow> panic ''trap'' | Some d \<Rightarrow> idup d) (\<lambda>cwd.
         thenM (upd_proc i (\<lambda>p. p\<lparr>p_cwd := Some cwd, p_name := take 15 (p_name ?c)\<rparr>))
         (bindM (getM (\<lambda>s. p_pid (procs s ! i))) (\<lambda>pid.
         thenM (acquire L_ptable)
         (thenM (upd_proc i (\<lambda>p. p\<lparr>p_state := RUNNABLE\<rparr>))
         (thenM (release L_ptable)
         (retM pid))))))))))) ?z = Ok r t"
        using run cpu u Some v False
        by (simp add: fork_with_def curproc_def procM_def bindM_run [of curproc] bindM_run [of allocproc]
            bindM_run [of "getM (\<lambda>s. procs s ! cur)"] bindM_run [of "copyuvm (p_pgdir ?c) (p_sz ?c)"]
            thenM_upd_proc)
      ultimately show ?thesis using validMD [OF fork_tail [OF prio]] by blast
    qed
  qed
qed

subsection \<open>The first process\<close>

text \<open>\<open>starting x i s\<close>: the table has come from \<open>x\<close>, and \<open>initproc\<close> is already the embryo \<open>i\<close>, which has no parent.\<close>

definition starting :: "ptab \<Rightarrow> nat \<Rightarrow> 'z kproc_scheme \<Rightarrow> bool" where
  "starting x i s \<longleftrightarrow> (\<exists>y. pt_steps x y \<and> t_cpu y = t_cpu x \<and> t_init y = None \<and> in_state y i EMBRYO \<and> p_parent (t_procs y ! i) = None
     \<and> ptab_of s = y\<lparr>t_init := Some i\<rparr>)"

lemma keeps_starting: "(\<And>s. keeps (key_frame s) m) \<Longrightarrow> keeps (starting x i) m"
proof (rule keepsI)
  fix s a t assume k: "\<And>s. keeps (key_frame s) m" and f: "starting x i s" "m s = Ok a t"
  have kf: "key_frame s t" using keepsD [OF k f(2) key_frame_refl] .
  obtain y where y: "pt_steps x y" "t_cpu y = t_cpu x" "t_init y = None" "in_state y i EMBRYO" "p_parent (t_procs y ! i) = None" "ptab_of s = y\<lparr>t_init := Some i\<rparr>"
    using f(1) by (auto simp: starting_def)
  let ?y = "y\<lparr>t_procs := procs t\<rparr>"
  have ps: "t_procs y = procs s" using arg_cong [OF y(6), of t_procs] by simp
  have "pt_step y ?y" using kf by (intro touch) (simp add: ps key_frame_def)
  moreover have "in_state ?y i EMBRYO" using y(4) key_frame_in_state [OF kf, of i EMBRYO] by (simp add: in_state_def ps)
  moreover have "p_parent (t_procs ?y ! i) = None" using y(4,5) key_frame_parent [OF kf, of i] by (simp add: in_state_def ps)
  moreover have "ptab_of t = ?y\<lparr>t_init := Some i\<rparr>"
    using kf arg_cong [OF y(6), of t_nextpid] arg_cong [OF y(6), of t_cpu] arg_cong [OF y(6), of t_init]
    by (cases y) (simp add: ptab_of_def key_frame_def)
  ultimately show "starting x i t" using y(1-3) unfolding starting_def
    by (intro exI [of _ ?y]) (auto intro: rtranclp.rtrancl_into_rtrancl)
qed

lemma starting_ready:
  assumes "starting x i s"
  shows "pt_steps x (ptab_of (s\<lparr>procs := (procs s)[i := (procs s ! i)\<lparr>p_state := RUNNABLE\<rparr>]\<rparr>)) \<and> cpuproc s = t_cpu x"
proof -
  obtain y where y: "pt_steps x y" "t_cpu y = t_cpu x" "t_init y = None" "in_state y i EMBRYO" "p_parent (t_procs y ! i) = None" "ptab_of s = y\<lparr>t_init := Some i\<rparr>"
    using assms by (auto simp: starting_def)
  have "pt_step y (set_state i RUNNABLE (ptab_of s))" unfolding y(6) using y by (intro first)
  moreover have "cpuproc s = t_cpu x" using arg_cong [OF y(6), of t_cpu] y(2) by simp
  ultimately show ?thesis using y(1) by (auto simp: set_state_def intro: rtranclp.rtrancl_into_rtrancl)
qed

lemma keeps_iget_key: "keeps (key_frame s) (iget d n)"
proof -
  have up: "keeps (key_frame s) (modM (upd_inode ip g))" for ip g by (rule keeps_mod) (simp add: key_frame_def upd_inode_def)
  then have "keeps (key_frame s) (thenM (modM (upd_inode ip g)) (thenM (release L_icache) (retM ip)))" for ip g
    by (intro keeps_key)
  then show ?thesis unfolding iget_def
    by (auto intro!: keeps_acquire_key keeps_then keeps_bind keeps_get keeps_panic split: option.split prod.split)
qed

lemma namei_root: "namei [0x2F] = bindM (iget ROOTDEV ROOTINO) (\<lambda>ip. retM (Some ip))"
proof -
  have "skipelem [0x2F] = None" by code_simp
  then show ?thesis by (simp add: namei_def namex_def namex_loop.simps [of _ "[0x2F]"] fun_eq_iff bindM_run split: res.split)
qed

lemma keeps_namei_root_key: "keeps (key_frame s) (bindM (iget ROOTDEV ROOTINO) (\<lambda>ip. retM (Some ip)))"
  by (intro keeps_key keeps_iget_key)

lemma validM_if_panic: "validM P n Q \<Longrightarrow> validM P (if b then panic e else n) Q"
  by (auto simp: validM_def)

lemma keeps_poke16_key: "keeps (key_frame s) (poke16 a w)"
  unfolding poke16_def by (rule keeps_mod) (simp add: key_frame_def)

lemma userinit_tail:
  "validM (starting x i) (bindM setupkvm (\<lambda>pgdir.
           thenM (upd_proc i (\<lambda>p. p\<lparr>p_pgdir := pgdir\<rparr>))
           (if pgdir = 0 then panic ''userinit: out of memory?'' else
               thenM (inituvm pgdir init sz)
               (thenM (upd_proc i (\<lambda>p. p\<lparr>p_sz := PGSIZE\<rparr>))
               (bindM (getM (\<lambda>s. p_tf (procs s ! i))) (\<lambda>tf.
               thenM (memsetM tf 0 sizeof_trapframe)
               (thenM (poke16 (tf + tf_cs) (push_bit 3 SEG_UCODE OR DPL_USER))
               (thenM (poke16 (tf + tf_ds) (push_bit 3 SEG_UDATA OR DPL_USER))
               (thenM (poke16 (tf + tf_es) (push_bit 3 SEG_UDATA OR DPL_USER))
               (thenM (poke16 (tf + tf_ss) (push_bit 3 SEG_UDATA OR DPL_USER))
               (thenM (poke (tf + tf_eflags) FL_IF)
               (thenM (poke (tf + tf_esp) PGSIZE)
               (thenM (poke (tf + tf_eip) 0)
               (thenM (upd_proc i (\<lambda>p. p\<lparr>p_name := ''initcode''\<rparr>))
               (bindM (namei [0x2F]) (\<lambda>cwd.
               thenM (upd_proc i (\<lambda>p. p\<lparr>p_cwd := cwd\<rparr>))
               (thenM (acquire L_ptable)
               (thenM (upd_proc i (\<lambda>p. p\<lparr>p_state := RUNNABLE\<rparr>))
               (release L_ptable))))))))))))))))))) (\<lambda>_ t. pt_steps x (ptab_of t) \<and> cpuproc t = t_cpu x)"
proof -
  have last: "validM (starting x i) (thenM (upd_proc i (\<lambda>p. p\<lparr>p_state := RUNNABLE\<rparr>)) (release L_ptable))
      (\<lambda>_ t. pt_steps x (ptab_of t) \<and> cpuproc t = t_cpu x)"
    by (rule validMI) (auto simp: monad_Ok_iff upd_proc_def release_def split: if_splits dest!: starting_ready)
  show ?thesis unfolding namei_root
    by (intro last validM_bind validM_then validM_if_panic keeps_starting keeps_get keeps_namei_root_key keeps_upd_proc keeps_acquire_key
        keeps_poke16_key keeps_vm keeps_setupkvm keeps_inituvm keeps_memsetM keeps_poke) (simp_all add: same_key_def)
qed

lemma userinit_steps:
  assumes run: "userinit init sz s = Ok u t" and lock: "L_ptable \<notin> k_held s" and np: "sint (nextpid s) < 2 ^ 31 - 1"
    and none: "initproc s = None" and inv: "ptab_inv (ptab_of s)"
  shows "pt_steps (ptab_of s) (ptab_of t) \<and> cpuproc t = cpuproc s"
proof -
  obtain q v where v: "allocproc s = Ok q v" using run by (auto simp: userinit_def monad_Ok_iff)
  note al = allocproc_steps [OF v lock np]
  obtain i where q: "q = Some i" using run v by (cases q) (auto simp: userinit_def monad_Ok_iff)
  have par: "p_parent (procs v ! i) = None"
    using al q inv by (cases "p_parent (procs s ! i)") (auto simp: ptab_inv_def family_ok_def in_state_def)
  have ini: "initproc v = None"
  proof (cases "find_slot (\<lambda>p. p_state p = UNUSED) 0 (procs s)")
    case None
    then show ?thesis using allocproc_full [OF lock] v none by simp
  next
    case (Some j)
    then show ?thesis using allocproc_Ok [OF v lock Some] none by (auto simp: key_frame_def)
  qed
  have st: "starting (ptab_of s) i (v\<lparr>initproc := Some i\<rparr>)"
    unfolding starting_def using al q par ini by (intro exI [of _ "ptab_of v"]) simp
  have "pt_steps (ptab_of s) (ptab_of t) \<and> cpuproc t = t_cpu (ptab_of s)"
    by (rule validMD [OF userinit_tail st, of init sz u])
      (use run v q in \<open>simp add: userinit_def bindM_run [of allocproc] thenM_run [of "modM f" for f]\<close>)
  then show ?thesis by simp
qed

subsection \<open>exit\<close>

lemma wakeup1_proc_simps [simp]:
  "p_parent (wakeup1_proc ch p) = p_parent p" "p_pid (wakeup1_proc ch p) = p_pid p"
  "p_state (wakeup1_proc ch p) = ZOMBIE \<longleftrightarrow> p_state p = ZOMBIE"
  "wakeup1_proc ch (wakeup1_proc ch p) = wakeup1_proc ch p"
  "wakeup1_proc ch (p\<lparr>p_parent := q\<rparr>) = (wakeup1_proc ch p)\<lparr>p_parent := q\<rparr>"
  by (auto simp: wakeup1_proc_def)

definition orphan_zombie :: "nat \<Rightarrow> proc list \<Rightarrow> nat \<Rightarrow> bool" where
  "orphan_zombie cur ps i \<longleftrightarrow> (\<exists>j<i. p_parent (ps ! j) = Some cur \<and> p_state (ps ! j) = ZOMBIE)"

definition passed :: "nat \<Rightarrow> nat option \<Rightarrow> bool \<Rightarrow> proc \<Rightarrow> proc" where
  "passed cur ini w p = (if w then wakeup1_proc (map_option Ch_proc ini) (adopt cur ini p) else adopt cur ini p)"

lemma pass_children_run:
  assumes "length (procs s) = NPROC"
  shows "pass_children cur s =
    Ok () (s\<lparr>procs := map (passed cur (initproc s) (orphan_zombie cur (procs s) NPROC)) (procs s)\<rparr>)"
proof -
  let ?ini = "initproc s" and ?ps = "procs s"
  let ?W = "\<lambda>i. if orphan_zombie cur ?ps i then wakeup1_proc (map_option Ch_proc ?ini) else id"
  let ?A = "\<lambda>i. map (adopt cur ?ini) (take i ?ps) @ drop i ?ps"
  let ?I = "\<lambda>i u. u = s\<lparr>procs := map (?W i) (?A i)\<rparr>"
  let ?body = "\<lambda>i. bindM (procM i) (\<lambda>p. whenM (p_parent p = Some cur)
      (bindM (getM initproc) (\<lambda>ini. thenM (upd_proc i (\<lambda>p. p\<lparr>p_parent := ini\<rparr>))
       (whenM (p_state p = ZOMBIE) (wakeup1 (map_option Ch_proc ini))))))"
  have body: "\<exists>t. ?body i u = Ok () t \<and> ?I (Suc i) t" if i: "i < NPROC" and I: "?I i u" for i u
  proof -
    have il: "i < length ?ps" using i assms by simp
    note up = take_drop_update [OF il, of "adopt cur ?ini"]
    have pu: "procs u = map (?W i) (?A i)" using I by simp
    have at: "procs u ! i = ?W i (?ps ! i)" unfolding pu by (subst nth_map) (use il up(1) in \<open>simp_all only: up(1), simp\<close>)
    have oz: "orphan_zombie cur ?ps (Suc i) \<longleftrightarrow> orphan_zombie cur ?ps i \<or> p_parent (?ps ! i) = Some cur \<and> p_state (?ps ! i) = ZOMBIE"
      by (auto simp: orphan_zombie_def less_Suc_eq)
    show ?thesis
    proof (cases "p_parent (?ps ! i) = Some cur")
      case False
      then have "adopt cur ?ini (?ps ! i) = ?ps ! i" by (simp add: adopt_def)
      then have "?A (Suc i) = ?A i" using up by (metis list_update_id)
      moreover have "?body i u = Ok () u" using False at by (simp add: procM_def bindM_run split: if_splits)
      ultimately show ?thesis using I oz False by simp
    next
      case True
      let ?u = "u\<lparr>procs := (procs u)[i := (procs u ! i)\<lparr>p_parent := ?ini\<rparr>]\<rparr>"
      have ad: "adopt cur ?ini (?ps ! i) = (?ps ! i)\<lparr>p_parent := ?ini\<rparr>" using True by (simp add: adopt_def)
      have "(procs u)[i := (procs u ! i)\<lparr>p_parent := ?ini\<rparr>] = map (?W i) (?A (Suc i))"
        unfolding up(2) [symmetric] ad at by (simp add: pu map_update del: map_append)
      then have u: "?u = s\<lparr>procs := map (?W i) (?A (Suc i))\<rparr>" using I by simp
      have "?body i u = (if p_state (?ps ! i) = ZOMBIE then wakeup1 (map_option Ch_proc ?ini) ?u else Ok () ?u)"
        using True at I by (simp add: procM_def bindM_run thenM_run upd_proc_def)
      then show ?thesis unfolding u using oz True by (auto simp: wakeup1_def comp_def)
    qed
  qed
  have "\<exists>t. forM [0..<NPROC] ?body s = Ok () t \<and> ?I NPROC t"
  proof (rule forM_upt)
    show "\<exists>t. ?body i u = Ok () t \<and> ?I (Suc i) t" if "i < NPROC" "?I i u" for i u using that by (rule body)
    show "?I 0 s" by (simp add: orphan_zombie_def)
  qed simp
  moreover have "map (?W NPROC) (?A NPROC) = map (passed cur ?ini (orphan_zombie cur ?ps NPROC)) ?ps"
    using assms by (simp add: passed_def)
  ultimately show ?thesis by (simp add: pass_children_def)
qed

text \<open>What \<open>exit\<close> makes of the table, for another process and for its own slot.\<close>

definition after_exit :: "nat \<Rightarrow> 'z kproc_scheme \<Rightarrow> proc \<Rightarrow> proc" where
  "after_exit cur s p = passed cur (initproc s) (orphan_zombie cur (procs s) NPROC)
     (wakeup1_proc (map_option Ch_proc (p_parent (procs s ! cur))) p)"

lemma orphan_zombie_wakeup [simp]: "n \<le> length ps \<Longrightarrow> orphan_zombie cur (map (wakeup1_proc ch) ps) n = orphan_zombie cur ps n"
  by (auto simp: orphan_zombie_def)

lemma exit_locked_run:
  assumes "k_held s = {L_ptable}" and "cpuproc s = Some cur" and "cur < length (procs s)" and "length (procs s) = NPROC"
  shows "exit_locked cur s = Ok () (s\<lparr>procs := (map (after_exit cur s) (procs s))
    [cur := (after_exit cur s (procs s ! cur))\<lparr>p_etime := ticks s, p_state := ZOMBIE\<rparr>]\<rparr>)"
proof -
  let ?w = "wakeup1_proc (map_option Ch_proc (p_parent (procs s ! cur)))"
  let ?s1 = "s\<lparr>procs := map ?w (procs s)\<rparr>"
  have "pass_children cur ?s1 = Ok () (s\<lparr>procs := map (after_exit cur s) (procs s)\<rparr>)"
    using pass_children_run [of ?s1 cur] assms(4) by (simp add: after_exit_def [abs_def] comp_def)
  then show ?thesis using assms
    by (simp add: exit_locked_def procM_def wakeup1_def bindM_run thenM_run upd_proc_def sched_def curproc_def)
qed

lemma exit_locked_steps:
  assumes "k_held s = {L_ptable}" and cpu: "cpuproc s = Some cur" and run: "in_state (ptab_of s) cur RUNNING"
    and len: "length (procs s) = NPROC" and ini: "initproc s \<noteq> Some cur" and ok: "exit_locked cur s = Ok u t"
  shows "pt_steps (ptab_of s) (ptab_of t)"
proof -
  have cur: "cur < length (procs s)" "p_state (procs s ! cur) = RUNNING" using run by (simp_all add: in_state_def)
  let ?w = "wakeup1_proc (map_option Ch_proc (p_parent (procs s ! cur)))" and ?ini = "initproc s"
  let ?o = "orphan_zombie cur (procs s) NPROC"
  let ?W = "if ?o then wakeup1_proc (map_option Ch_proc ?ini) else id"
  define ps1 where "ps1 = map ?w (procs s)"
  define ps2 where "ps2 = (map (adopt cur ?ini) ps1)[cur := (adopt cur ?ini (ps1 ! cur))\<lparr>p_state := ZOMBIE\<rparr>]"
  let ?x = "\<lambda>ps. (ptab_of s)\<lparr>t_procs := ps\<rparr>"
  have w: "?w (procs s ! cur) = procs s ! cur" using cur by (simp add: wakeup1_proc_def)
  have 1: "pt_step (ptab_of s) (?x ps1)" by (rule wake) (simp add: ps1_def wakeup1_may_wake)
  have "in_state (?x ps1) cur RUNNING" using cur w by (simp add: in_state_def ps1_def)
  then have 2: "pt_step (?x ps1) (?x ps2)"
    using exit [of "?x ps1" cur] cpu ini cur by (simp add: set_state_def ps2_def ps1_def)
  have "pt_step (?x ps2) ((?x ps2)\<lparr>t_procs := map ?W ps2\<rparr>)"
    by (rule wake) (auto simp: wakeup1_may_wake list_all2_refl)
  then have 3: "pt_step (?x ps2) (?x (map ?W ps2))" by simp
  have W: "?W (p\<lparr>p_state := ZOMBIE\<rparr>) = p\<lparr>p_state := ZOMBIE\<rparr>" for p by (simp add: wakeup1_proc_def)
  have Wr: "?W (adopt cur ?ini (procs s ! cur)) = adopt cur ?ini (procs s ! cur)" using cur by (simp add: wakeup1_proc_def adopt_def)
  have "map ?W ps2 = (map (after_exit cur s) (procs s))[cur := (after_exit cur s (procs s ! cur))\<lparr>p_state := ZOMBIE\<rparr>]"
    using cur(1) w W Wr by (auto simp: ps2_def ps1_def map_update after_exit_def [abs_def] passed_def comp_def)
  then have "list_all2 same_key (map ?W ps2) (procs t)"
    using exit_locked_run [OF assms(1) cpu cur(1) len] ok
    by (auto simp: same_key_def intro!: list_all2_update_cong list_all2_refl)
  then have "pt_step (?x (map ?W ps2)) ((?x (map ?W ps2))\<lparr>t_procs := procs t\<rparr>)" by (intro touch) simp
  moreover have "(?x (map ?W ps2))\<lparr>t_procs := procs t\<rparr> = ptab_of t"
    using exit_locked_run [OF assms(1) cpu cur(1) len] ok by auto
  ultimately show ?thesis using 1 2 3 by (metis converse_rtranclp_into_rtranclp rtranclp.rtrancl_refl)
qed

text \<open>
  C11: What \<open>exit\<close> does once the files are closed. The caller's slot becomes a zombie with the present as
  its end time, and keeps all else, its pid and its parent among it; the processor goes to the scheduler with only \<open>ptable.lock\<close> held. Its children become children of
  the first process; its parent is woken if it waits for a child, and the first process too if one of the children handed to it has already exited.
  Nothing else changes, in the table or outside it.
\<close>
theorem exit_outcome:
  assumes "k_held s = {}" and "cpuproc s = Some cur" and "length (procs s) = NPROC"
    and "initproc s = Some ini" and "ini \<noteq> cur" and "cur < NPROC" and "p_state (procs s ! cur) = RUNNING"
  shows "\<exists>ps. thenM (acquire L_ptable) (exit_locked cur) s = Ok () (s\<lparr>k_held := {L_ptable}, procs := ps\<rparr>) \<and> length ps = NPROC
    \<and> ps ! cur = (procs s ! cur)\<lparr>p_parent := p_parent (ps ! cur), p_state := ZOMBIE, p_etime := ticks s\<rparr>
    \<and> (\<forall>i<NPROC. p_parent (ps ! i) = (if p_parent (procs s ! i) = Some cur then Some ini else p_parent (procs s ! i)))
    \<and> (\<forall>i<NPROC. i \<noteq> cur \<longrightarrow>
         (if p_state (procs s ! i) = SLEEPING \<and> (p_chan (procs s ! i) = map_option Ch_proc (p_parent (procs s ! cur))
               \<or> p_chan (procs s ! i) = Some (Ch_proc ini)
                 \<and> (\<exists>j<NPROC. p_parent (procs s ! j) = Some cur \<and> p_state (procs s ! j) = ZOMBIE))
            then ps ! i = (procs s ! i)\<lparr>p_parent := p_parent (ps ! i), p_state := RUNNABLE\<rparr>
            else ps ! i = (procs s ! i)\<lparr>p_parent := p_parent (ps ! i)\<rparr>))"
proof -
  let ?s = "s\<lparr>k_held := {L_ptable}\<rparr>"
  let ?f = "after_exit cur ?s"
  let ?ps = "(map ?f (procs s))[cur := (?f (procs s ! cur))\<lparr>p_etime := ticks s, p_state := ZOMBIE\<rparr>]"
  have run: "thenM (acquire L_ptable) (exit_locked cur) s = Ok () (?s\<lparr>procs := ?ps\<rparr>)"
    using exit_locked_run [of ?s cur] assms(1-3,6) by (simp add: thenM_run acquire_def)
  have par: "p_parent (?f p) = (if p_parent p = Some cur then Some ini else p_parent p)" for p
    using assms(4) by (simp add: after_exit_def passed_def adopt_def)
  have st: "if p_state p = SLEEPING \<and> (p_chan p = map_option Ch_proc (p_parent (procs s ! cur))
               \<or> p_chan p = Some (Ch_proc ini) \<and> orphan_zombie cur (procs s) NPROC)
            then ?f p = p\<lparr>p_parent := p_parent (?f p), p_state := RUNNABLE\<rparr> else ?f p = p\<lparr>p_parent := p_parent (?f p)\<rparr>" for p
    using assms(4) unfolding par by (auto simp: after_exit_def passed_def adopt_def wakeup1_proc_def)
  have at: "?ps ! i = ?f (procs s ! i)" if "i < NPROC" "i \<noteq> cur" for i using that assms(3) by simp
  have "?f (procs s ! cur) = (procs s ! cur)\<lparr>p_parent := p_parent (?f (procs s ! cur))\<rparr>" using st [of "procs s ! cur"] assms(7) by simp
  then have own: "length ?ps = NPROC" "?ps ! cur = (procs s ! cur)\<lparr>p_parent := p_parent (?ps ! cur), p_state := ZOMBIE, p_etime := ticks s\<rparr>"
    using assms(3,6) by simp_all
  have pp: "p_parent (?ps ! i) = (if p_parent (procs s ! i) = Some cur then Some ini else p_parent (procs s ! i))" if "i < NPROC" for i
    using that assms(3) par by (cases "i = cur") simp_all
  show ?thesis
  proof (intro exI [of _ ?ps] conjI own run pp allI impI)
    fix i assume i: "i < NPROC" "i \<noteq> cur"
    show "if p_state (procs s ! i) = SLEEPING \<and> (p_chan (procs s ! i) = map_option Ch_proc (p_parent (procs s ! cur))
               \<or> p_chan (procs s ! i) = Some (Ch_proc ini)
                 \<and> (\<exists>j<NPROC. p_parent (procs s ! j) = Some cur \<and> p_state (procs s ! j) = ZOMBIE))
            then ?ps ! i = (procs s ! i)\<lparr>p_parent := p_parent (?ps ! i), p_state := RUNNABLE\<rparr>
            else ?ps ! i = (procs s ! i)\<lparr>p_parent := p_parent (?ps ! i)\<rparr>"
      unfolding at [OF i] using st [of "procs s ! i"] unfolding orphan_zombie_def .
  qed
qed

theorem exit_outcome_witness:
  "\<exists>t. thenM (acquire L_ptable) (exit_locked 1) ((demo ([(proc_at SLEEPING 0 0)\<lparr>p_chan := Some (Ch_proc 0)\<rparr>,
      (proc_at RUNNING 0 0)\<lparr>p_parent := Some 0, p_pid := 9\<rparr>, (proc_at RUNNABLE 0 0)\<lparr>p_parent := Some 1\<rparr>] @ replicate 61 proc0))
      \<lparr>cpuproc := Some 1, initproc := Some 0\<rparr>) = Ok () t
    \<and> p_state (procs t ! 1) = ZOMBIE \<and> p_pid (procs t ! 1) = 9 \<and> p_state (procs t ! 0) = RUNNABLE \<and> p_parent (procs t ! 2) = Some 0"
proof -
  define s where "s = (demo ([(proc_at SLEEPING 0 0)\<lparr>p_chan := Some (Ch_proc 0)\<rparr>,
      (proc_at RUNNING 0 0)\<lparr>p_parent := Some 0, p_pid := 9\<rparr>, (proc_at RUNNABLE 0 0)\<lparr>p_parent := Some 1\<rparr>] @ replicate 61 proc0))
      \<lparr>cpuproc := Some 1, initproc := Some 0\<rparr>"
  have at: "procs s ! 0 = (proc_at SLEEPING 0 0)\<lparr>p_chan := Some (Ch_proc 0)\<rparr>"
    "procs s ! 1 = (proc_at RUNNING 0 0)\<lparr>p_parent := Some 0, p_pid := 9\<rparr>" "procs s ! 2 = (proc_at RUNNABLE 0 0)\<lparr>p_parent := Some 1\<rparr>"
    by (simp_all add: s_def)
  have "k_held s = {}" "cpuproc s = Some 1" "length (procs s) = NPROC" "initproc s = Some 0" "0 \<noteq> (1 :: nat)" "1 < NPROC"
    "p_state (procs s ! 1) = RUNNING"
    unfolding at by (simp_all add: s_def NPROC_def)
  note out = exit_outcome [OF this]
  obtain ps where t: "thenM (acquire L_ptable) (exit_locked 1) s = Ok () (s\<lparr>k_held := {L_ptable}, procs := ps\<rparr>)"
      "ps ! 1 = (procs s ! 1)\<lparr>p_parent := p_parent (ps ! 1), p_state := ZOMBIE, p_etime := ticks s\<rparr>"
    and par: "\<forall>i<NPROC. p_parent (ps ! i) = (if p_parent (procs s ! i) = Some 1 then Some 0 else p_parent (procs s ! i))"
    and slot: "\<forall>i<NPROC. i \<noteq> 1 \<longrightarrow>
         (if p_state (procs s ! i) = SLEEPING \<and> (p_chan (procs s ! i) = map_option Ch_proc (p_parent (procs s ! 1))
               \<or> p_chan (procs s ! i) = Some (Ch_proc 0)
                 \<and> (\<exists>j<NPROC. p_parent (procs s ! j) = Some 1 \<and> p_state (procs s ! j) = ZOMBIE))
            then ps ! i = (procs s ! i)\<lparr>p_parent := p_parent (ps ! i), p_state := RUNNABLE\<rparr>
            else ps ! i = (procs s ! i)\<lparr>p_parent := p_parent (ps ! i)\<rparr>)"
    using out by (elim exE conjE)
  have "p_state (procs s ! 0) = SLEEPING" "p_chan (procs s ! 0) = map_option Ch_proc (p_parent (procs s ! 1))"
    unfolding at by simp_all
  then have "ps ! 0 = (procs s ! 0)\<lparr>p_parent := p_parent (ps ! 0), p_state := RUNNABLE\<rparr>"
    using slot [rule_format, of 0] by (simp only: NPROC_def if_True simp_thms)
  then have "p_state (ps ! 0) = p_state ((procs s ! 0)\<lparr>p_parent := p_parent (ps ! 0), p_state := RUNNABLE\<rparr>)"
    by (rule arg_cong)
  then have "p_state (ps ! 0) = RUNNABLE" by simp
  moreover have "p_parent (ps ! 2) = Some 0" using par [rule_format, of 2] by (simp add: at NPROC_def)
  moreover have "p_state (ps ! 1) = ZOMBIE" "p_pid (ps ! 1) = 9" using arg_cong [OF t(2), of p_state] arg_cong [OF t(2), of p_pid]
    unfolding at by simp_all
  ultimately have "thenM (acquire L_ptable) (exit_locked 1) s = Ok () (s\<lparr>k_held := {L_ptable}, procs := ps\<rparr>)
    \<and> p_state (procs (s\<lparr>k_held := {L_ptable}, procs := ps\<rparr>) ! 1) = ZOMBIE \<and> p_pid (procs (s\<lparr>k_held := {L_ptable}, procs := ps\<rparr>) ! 1) = 9
    \<and> p_state (procs (s\<lparr>k_held := {L_ptable}, procs := ps\<rparr>) ! 0) = RUNNABLE \<and> p_parent (procs (s\<lparr>k_held := {L_ptable}, procs := ps\<rparr>) ! 2) = Some 0"
    using t(1) by simp
  then show ?thesis unfolding s_def by blast
qed

section \<open>The kernel\<close>

text \<open>
  The operations of the kernel on the process table, as one processor performs them. A process runs in the kernel, or the scheduler does; a call is one step up to its end or to
  the point where it sleeps. \<open>fork\<close> is one step although it has the lock of the table only at both ends, because what lies between touches
  only its own embryo; the same holds of \<open>userinit\<close>, while which the other processors find nothing to run.
\<close>

abbreviation stopped :: "'z kproc_scheme \<Rightarrow> nat \<Rightarrow> bool" where
  "stopped s i \<equiv> cpuproc s = Some i \<and> \<not> in_state (ptab_of s) i RUNNING"

inductive kstep :: "'z kfile_scheme \<Rightarrow> 'z kfile_scheme \<Rightarrow> bool" where
  k_userinit: "cpuproc s = None \<Longrightarrow> initproc s = None \<Longrightarrow> L_ptable \<notin> k_held s \<Longrightarrow> sint (nextpid s) < 2 ^ 31 - 1 \<Longrightarrow>
    userinit img sz s = Ok () t \<Longrightarrow> kstep s t"
| k_wakeup: "wakeup ch s = Ok () t \<Longrightarrow> kstep s t"
| k_kill: "L_ptable \<notin> k_held s \<Longrightarrow> kill pid s = Ok r t \<Longrightarrow> kstep s t"
| k_sleep: "running s i \<Longrightarrow> k_held s = {lk} \<Longrightarrow> sleep ch lk s = (Sleeps c t :: (u32, 'z kfile_scheme) res) \<Longrightarrow> kstep s t"
| k_yield: "running s i \<Longrightarrow> yield s = Ok () t \<Longrightarrow> kstep s t"
| k_fork: "running s i \<Longrightarrow> L_ptable \<notin> k_held s \<Longrightarrow> sint (nextpid s) < 2 ^ 31 - 1 \<Longrightarrow> fork s = Ok r t \<Longrightarrow> kstep s t"
| k_custmpro: "running s i \<Longrightarrow> L_ptable \<notin> k_held s \<Longrightarrow> sint (nextpid s) < 2 ^ 31 - 1 \<Longrightarrow> custmpro pri s = Ok r t \<Longrightarrow> kstep s t"
| k_wait: "running s i \<Longrightarrow> k_held s = {} \<Longrightarrow> ends wait s t \<Longrightarrow> kstep s t"
| k_wait_resume: "running s i \<Longrightarrow> k_held s = {L_ptable} \<Longrightarrow> ends wait_resume s t \<Longrightarrow> kstep s t"
| k_procstat: "running s i \<Longrightarrow> k_held s = {} \<Longrightarrow> ends (procstat pid pstat) s t \<or> ends (procstat_prio pid pstat) s t \<Longrightarrow> kstep s t"
| k_procstat_resume: "running s i \<Longrightarrow> k_held s = {L_ptable} \<Longrightarrow> ends (procstat_resume b pid pstat) s t \<Longrightarrow> kstep s t"
| k_ps: "proc_ps s = Ok r t \<Longrightarrow> kstep s t"
| k_exit: "running s i \<Longrightarrow> k_held s = {} \<Longrightarrow> length (procs s) = NPROC \<Longrightarrow> initproc s \<noteq> Some i \<Longrightarrow>
    thenM (acquire L_ptable) (exit_locked i) s = Ok () t \<Longrightarrow> kstep s t"
| k_scheduler: "cpuproc s = None \<Longrightarrow> scheduler s = Ok r t \<or> scheduler_prio s = Ok r t \<Longrightarrow> kstep s t"
| k_back: "stopped s i \<Longrightarrow> scheduler_resume s = Ok () t \<or> scheduler_prio_resume i s = Ok r t \<Longrightarrow> kstep s t"
| k_resume: "running s i \<Longrightarrow> yield_resume s = Ok () t \<or> sleep_resume lk s = Ok () t \<Longrightarrow> kstep s t"

lemma ends_then_acquire: "k_held s = {} \<Longrightarrow> ends (thenM (acquire L_ptable) m) s t \<Longrightarrow> ends m (s\<lparr>k_held := {L_ptable}\<rparr>) t"
  by (auto simp: ends_def thenM_run acquire_def)

lemma ends_then_sleep_resume:
  assumes "ends (thenM (sleep_resume L_ptable) m) s t" and "running s i" and "k_held s = {L_ptable}"
  obtains u where "ends m u t" "pt_steps (ptab_of s) (ptab_of u)" "running u i" "k_held u = {L_ptable}"
proof -
  let ?u = "s\<lparr>procs := (procs s)[i := (procs s ! i)\<lparr>p_chan := None\<rparr>]\<rparr>"
  have "sleep_resume L_ptable s = Ok () ?u"
    using assms(2) by (simp add: sleep_resume_def bindM_run thenM_run curproc_def upd_proc_def)
  moreover from sleep_resume_steps [OF this] have "pt_steps (ptab_of s) (ptab_of ?u)" by blast
  moreover have "running ?u i" using assms(2) by (simp add: in_state_def)
  ultimately show ?thesis using that [of ?u] assms(1,3) by (simp add: ends_def thenM_run)
qed

text \<open>What an operation makes of the table, and that it leaves its processor as it should.\<close>

definition step_ok :: "'z kproc_scheme \<Rightarrow> 'z kproc_scheme \<Rightarrow> bool" where
  "step_ok s t \<longleftrightarrow> pt_steps (ptab_of s) (ptab_of t) \<and> (settled s \<longrightarrow> settled t)"

lemma step_okI: "pt_steps (ptab_of s) (ptab_of t) \<and> settled t \<Longrightarrow> step_ok s t"
  "pt_steps (ptab_of s) (ptab_of t) \<and> L_ptable \<in> k_held t \<Longrightarrow> step_ok s t"
  "pt_steps (ptab_of s) (ptab_of t) \<Longrightarrow> settled s \<longrightarrow> settled t \<Longrightarrow> step_ok s t" "back_in (ptab_of s) i t \<Longrightarrow> step_ok s t"
  by (auto simp: step_ok_def back_in_def)

lemma ps_ok:
  assumes "proc_ps s = Ok r t"
  shows "step_ok s t"
proof (rule step_okI(3) [OF ps_steps [OF assms]], rule impI)
  assume s: "settled s"
  have "keeps (key_frame s) proc_ps"
    unfolding proc_ps_def by (intro keeps_key keeps_vm keeps_cprintf) (simp add: same_key_def)
  from keepsD [OF this assms key_frame_refl] have k: "key_frame s t" .
  have "L_ptable \<notin> k_held s" using assms by (auto simp: proc_ps_def thenM_run acquire_def split: if_splits)
  then show "settled t" using s key_frame_in_state [OF k] k by (intro settled_same [OF s]) (auto simp: key_frame_def)
qed

lemma kstep_ok:
  assumes "kstep s t" and "ptab_inv (ptab_of s)"
  shows "step_ok s t"
  using assms
proof (induction rule: kstep.induct)
  case (k_userinit s img sz t)
  have "cpuproc t = cpuproc s" using userinit_steps [of img sz s "()" t] k_userinit by blast
  then show ?case using userinit_steps [of img sz s "()" t] k_userinit by (intro step_okI(1)) auto
next
  case (k_wakeup ch s t)
  then show ?case by (blast intro: step_okI(3) wakeup_steps wakeup_settled)
next
  case (k_kill s pid r t)
  then show ?case by (blast intro: step_okI(3) kill_steps kill_settled)
next
  case (k_sleep s i lk ch c t)
  then show ?case by (intro step_okI(2) sleep_steps) auto
next
  case (k_yield s i t)
  then show ?case by (intro step_okI(2) yield_steps) auto
next
  case (k_fork s i r t)
  then show ?case by (intro step_okI(4) [of s i] fork_steps [of id s r t i]) (auto simp: fork_def)
next
  case (k_custmpro s i pri r t)
  then show ?case by (intro step_okI(4) [of s i] fork_steps [of "\<lambda>p. p\<lparr>p_priority := pri\<rparr>" s r t i]) (auto simp: custmpro_def same_key_def)
next
  case (k_wait s i t)
  then have "pt_steps (ptab_of (s\<lparr>k_held := {L_ptable}\<rparr>)) (ptab_of t) \<and> settled t"
    by (intro wait_pass_steps [of _ _ i] ends_then_acquire) (simp_all add: wait_def)
  then show ?case by (intro step_okI(1)) simp
next
  case (k_wait_resume s i t)
  then have "ends (thenM (sleep_resume L_ptable) wait_pass) s t" by (simp add: wait_resume_def)
  then obtain u where u: "ends wait_pass u t" "pt_steps (ptab_of s) (ptab_of u)" "running u i" "k_held u = {L_ptable}"
    by (rule ends_then_sleep_resume) (use k_wait_resume in auto)
  then have "pt_steps (ptab_of u) (ptab_of t) \<and> settled t" by (intro wait_pass_steps [of u t i]) simp_all
  with u(2) show ?case by (intro step_okI(1)) auto
next
  case (k_procstat s i pid pstat t)
  then obtain b where "ends (procstat_pass b pid pstat) (s\<lparr>k_held := {L_ptable}\<rparr>) t"
    using ends_then_acquire [OF k_procstat(2)] by (auto simp: procstat_def procstat_prio_def)
  then have "pt_steps (ptab_of (s\<lparr>k_held := {L_ptable}\<rparr>)) (ptab_of t) \<and> settled t"
    by (rule procstat_pass_steps [where cur = i]) (use k_procstat in simp_all)
  then show ?case by (intro step_okI(1)) simp
next
  case (k_procstat_resume s i b pid pstat t)
  then have "ends (thenM (sleep_resume L_ptable) (procstat_pass b pid pstat)) s t" by (simp add: procstat_resume_def)
  then obtain u where u: "ends (procstat_pass b pid pstat) u t" "pt_steps (ptab_of s) (ptab_of u)" "running u i" "k_held u = {L_ptable}"
    by (rule ends_then_sleep_resume) (use k_procstat_resume in auto)
  then have "pt_steps (ptab_of u) (ptab_of t) \<and> settled t" by (intro procstat_pass_steps [of b pid pstat u t i]) simp_all
  with u(2) show ?case by (intro step_okI(1)) auto
next
  case (k_ps s r t)
  then show ?case by (intro ps_ok)
next
  case (k_exit s i t)
  let ?s = "s\<lparr>k_held := {L_ptable}\<rparr>"
  have ex: "exit_locked i ?s = Ok () t" using k_exit by (simp add: thenM_run acquire_def)
  have "pt_steps (ptab_of ?s) (ptab_of t)" by (rule exit_locked_steps [OF _ _ _ _ _ ex]) (use k_exit in simp_all)
  moreover have "L_ptable \<in> k_held t" using exit_locked_run [of ?s i] ex k_exit by (auto simp: in_state_def)
  ultimately show ?case by (intro step_okI(2)) simp
next
  case (k_scheduler s r t)
  then show ?case using scheduler_steps [of s r t] scheduler_prio_from_steps [of 0 "s\<lparr>k_held := insert L_ptable (k_held s)\<rparr>" r t]
    by (intro step_okI(1)) (auto simp: scheduler_prio_def thenM_run acquire_def split: if_splits)
next
  case (k_back s i t r)
  then show ?case using scheduler_resume_steps scheduler_prio_resume_steps by (intro step_okI(1)) blast
next
  case (k_resume s i t lk)
  have "pt_steps (ptab_of s) (ptab_of t) \<and> running t i" using k_resume sleep_resume_steps [of lk s "()" t i]
    by (auto simp: yield_resume_def release_def in_state_def split: if_splits)
  then show ?case by (intro step_okI(1)) auto
qed

text \<open>
  C10: Every operation of the kernel on the process table, \<open>userinit\<close> among them, moves its slots only along the life cycle of a
  process: a free slot is allocated with a fresh pid, becomes the first process, or a child of the caller, and runnable, is run and stopped
  or put to sleep and woken, exits with its children handed to the first process, and is reaped. No other change of state, pid,
  parent or \<open>initproc\<close> occurs. This is from any table in which the invariant of \<open>process_table_invariant\<close> holds, and as long as the next pid is below the largest signed
  32-bit number when a slot is allocated.
\<close>
theorem process_lifecycle:
  assumes "kstep s t" and "ptab_inv (ptab_of s)"
  shows "pt_steps (ptab_of s) (ptab_of t)"
  using kstep_ok [OF assms] by (simp add: step_ok_def)

section \<open>All processors\<close>

text \<open>
  Every processor executes these operations on the one table. An operation takes \<open>ptable.lock\<close> or has it, so it is a step of processor \<open>c\<close> only when no other
  processor has that lock. The other rule stands for all else that a processor does, which touches no state, pid or
  parent and leaves that lock alone.
\<close>

inductive mstep :: "'z kfile_scheme smp \<Rightarrow> 'z kfile_scheme smp \<Rightarrow> bool" where
  m_op: "c < NCPU \<Longrightarrow> kstep (view c S) t \<Longrightarrow> \<forall>d. d \<noteq> c \<longrightarrow> L_ptable \<notin> m_held S d \<Longrightarrow> mstep S (put_view c t S)"
| m_other: "c < NCPU \<Longrightarrow> key_frame (view c S) t \<Longrightarrow> L_ptable \<in> k_held t \<longleftrightarrow> L_ptable \<in> m_held S c \<Longrightarrow> mstep S (put_view c t S)"

text \<open>The table as \<open>main\<close> finds it: static data, all zero but for \<open>nextpid = 1\<close>; no processor runs a process or has the lock.\<close>

definition booted :: "'z kfile_scheme smp \<Rightarrow> bool" where
  "booted S \<longleftrightarrow> procs (m_sh S) = replicate NPROC proc0 \<and> nextpid (m_sh S) = 1 \<and> initproc (m_sh S) = None
     \<and> (\<forall>c. m_cur S c = None \<and> L_ptable \<notin> m_held S c)"

text \<open>
  The invariant of all processors: no process is on two of them; the process of each is running, or the processor has the lock and is on its way to
  the scheduler; and who is running is on a processor.
\<close>

definition smp_inv :: "'z kfile_scheme smp \<Rightarrow> bool" where
  "smp_inv S \<longleftrightarrow> ptab_inv (ptab_of (m_sh S)) \<and> length (procs (m_sh S)) = NPROC
     \<and> (\<forall>c d i. m_cur S c = Some i \<longrightarrow> m_cur S d = Some i \<longrightarrow> c = d)
     \<and> (\<forall>c i. m_cur S c = Some i \<longrightarrow> c < NCPU \<and> (in_state (ptab_of (m_sh S)) i RUNNING \<or> L_ptable \<in> m_held S c))
     \<and> (\<forall>i. in_state (ptab_of (m_sh S)) i RUNNING \<longrightarrow> (\<exists>c. m_cur S c = Some i))"

lemma smp_invD:
  assumes "smp_inv S"
  shows "ptab_inv (ptab_of (m_sh S))" "length (procs (m_sh S)) = NPROC" "m_cur S c = Some i \<Longrightarrow> m_cur S d = Some i \<Longrightarrow> c = d"
    "m_cur S c = Some i \<Longrightarrow> c < NCPU" "m_cur S c = Some i \<Longrightarrow> in_state (ptab_of (m_sh S)) i RUNNING \<or> L_ptable \<in> m_held S c"
    "in_state (ptab_of (m_sh S)) i RUNNING \<Longrightarrow> \<exists>c. m_cur S c = Some i"
  using assms unfolding smp_inv_def by blast+

lemma ptab_inv_cpu [simp]: "ptab_inv (x\<lparr>t_cpu := c\<rparr>) = ptab_inv x"
  by (simp add: ptab_inv_def)

lemma ptab_of_view: "ptab_of (view c S) = (ptab_of (m_sh S))\<lparr>t_cpu := m_cur S c\<rparr>"
  by (simp add: ptab_of_def)

lemma pt_step_length: "pt_step x y \<Longrightarrow> length (t_procs y) = length (t_procs x)"
  by (induction rule: pt_step.induct) (simp_all add: set_state_def list_all2_lengthD)

lemma pt_steps_length: "pt_steps x y \<Longrightarrow> length (t_procs y) = length (t_procs x)"
  by (induction rule: rtranclp_induct) (simp_all add: pt_step_length)

lemma booted_inv: "booted S \<Longrightarrow> smp_inv S"
proof -
  assume b: "booted S"
  let ?x = "ptab_of (m_sh S)"
  have st: "p_state (t_procs ?x ! i) = UNUSED \<and> p_parent (t_procs ?x ! i) = None" if "i < length (t_procs ?x)" for i
    using b that by (simp add: booted_def proc0_def)
  then have "pids_ok ?x" "family_ok ?x" using b by (auto simp: pids_ok_def in_use_def family_ok_def booted_def)
  moreover have "\<not> in_state ?x i RUNNING" for i using st [of i] by (auto simp: in_state_def)
  ultimately show ?thesis using b by (auto simp: smp_inv_def ptab_inv_def booted_def)
qed

text \<open>A step of processor \<open>c\<close> that others can take no part in.\<close>

lemma smp_inv_step:
  assumes inv: "smp_inv S" and c: "c < NCPU" and st: "pt_steps (ptab_of (view c S)) (ptab_of t)" and set: "settled (view c S) \<longrightarrow> settled t"
    and alone: "\<forall>d i. d \<noteq> c \<longrightarrow> m_cur S d = Some i \<longrightarrow> in_state (ptab_of (m_sh S)) i RUNNING \<or> cpuproc t = m_cur S c
        \<and> (\<forall>j. in_state (ptab_of t) j RUNNING = in_state (ptab_of (m_sh S)) j RUNNING)"
  shows "smp_inv (put_view c t S)"
proof -
  let ?x = "ptab_of (m_sh S)" and ?y = "ptab_of t"
  have run: "in_state (ptab_of (view c S)) j RUNNING = in_state ?x j RUNNING" for j by (simp add: ptab_of_view)
  have rest: "in_state ?y j RUNNING \<and> cpuproc t \<noteq> Some j \<longleftrightarrow> in_state ?x j RUNNING \<and> m_cur S c \<noteq> Some j" for j
    using pt_steps_rest [OF st] run by (auto simp: rest_def set_eq_iff ptab_of_view)
  have one: "m_cur S d \<noteq> Some i" if "m_cur S c = Some i" "d \<noteq> c" for d i using smp_invD(3) [OF inv, of c i d] that by blast
  have on: "d < NCPU" "in_state ?x i RUNNING \<or> L_ptable \<in> m_held S d" if "m_cur S d = Some i" for d i
    using smp_invD(4,5) [OF inv that] by blast+
  have other: "cpuproc t \<noteq> Some i \<and> (in_state ?y i RUNNING \<or> L_ptable \<in> m_held S d)" if d: "d \<noteq> c" "m_cur S d = Some i" for d i
  proof (cases "in_state ?x i RUNNING")
    case True
    then show ?thesis using rest [of i] one d by blast
  next
    case False
    then show ?thesis using alone d one [of i d] on(2) [of d i] by auto
  qed
  have "settled (view c S)" using on by (auto simp: settled_def run)
  then have mine: "in_state ?y i RUNNING \<or> L_ptable \<in> k_held t" if "cpuproc t = Some i" for i using set that by (simp add: settled_def)
  have found: "\<exists>d. m_cur (put_view c t S) d = Some i" if "in_state ?y i RUNNING" for i
  proof (cases "cpuproc t = Some i")
    case True
    then show ?thesis by (intro exI [of _ c]) simp
  next
    case False
    then have "in_state ?x i RUNNING" "m_cur S c \<noteq> Some i" using that rest by blast+
    moreover from this obtain d where "m_cur S d = Some i" using smp_invD(6) [OF inv] by blast
    ultimately show ?thesis by (intro exI [of _ d]) auto
  qed
  have "ptab_inv (ptab_of (view c S))" using inv by (simp add: ptab_of_view smp_inv_def)
  then have "ptab_inv ?y" by (rule pt_steps_inv [OF st])
  moreover have "length (procs t) = NPROC" using pt_steps_length [OF st] inv by (simp add: smp_inv_def)
  moreover have "d = e" if "m_cur (put_view c t S) d = Some i" "m_cur (put_view c t S) e = Some i" for d e i
    using that other [of d i] other [of e i] smp_invD(3) [OF inv, of d i e] by (auto split: if_splits)
  moreover have "d < NCPU \<and> (in_state ?y i RUNNING \<or> L_ptable \<in> m_held (put_view c t S) d)" if "m_cur (put_view c t S) d = Some i" for d i
    using that other [of d i] on(1) [of d i] mine [of i] c by (auto split: if_splits)
  ultimately show ?thesis using found unfolding smp_inv_def put_view_simps(1) by blast
qed

lemma mstep_inv: "mstep S T \<Longrightarrow> smp_inv S \<Longrightarrow> smp_inv T"
proof (induction rule: mstep.induct)
  case (m_op c S t)
  have ok: "step_ok (view c S) t" using m_op by (intro kstep_ok) (simp_all add: ptab_of_view smp_inv_def)
  have "in_state (ptab_of (m_sh S)) i RUNNING" if "d \<noteq> c" "m_cur S d = Some i" for d i
    using smp_invD(5) [OF m_op(4) that(2)] m_op(3) that(1) by blast
  with m_op ok show ?case by (intro smp_inv_step) (simp_all add: step_ok_def)
next
  case (m_other c S t)
  have same: "in_state (ptab_of t) i RUNNING = in_state (ptab_of (m_sh S)) i RUNNING" for i
    using key_frame_in_state [OF m_other(2), of i RUNNING] by (simp add: ptab_of_view)
  have "cpuproc t = m_cur S c" using m_other(2) by (simp add: key_frame_def)
  moreover from this have "settled (view c S) \<longrightarrow> settled t" using m_other(3) same by (simp add: settled_def ptab_of_view)
  ultimately show ?case using m_other same by (intro smp_inv_step) (simp_all add: key_frame_steps)
qed

lemma msteps_inv: "mstep\<^sup>*\<^sup>* S T \<Longrightarrow> booted S \<Longrightarrow> smp_inv T"
  by (induction rule: rtranclp_induct) (auto intro: booted_inv mstep_inv)

text \<open>
  C9: In every state that the processors reach together from the table as it is when the kernel starts, by \<open>userinit\<close> and all operations on the table, in any order and on any
  of the \<open>NCPU\<close> processors, where a process is allocated only while the next pid is below the largest signed 32-bit number: a slot in use has a pid that is positive, below the next one and
  no other slot's; a running process is the process of exactly one processor, and the process of a processor that does not have \<open>ptable.lock\<close> is running; and
  a process whose parent is set has a parent that is neither free, being created nor a zombie, so an exited process is never lost.
\<close>
theorem process_table_invariant:
  assumes "booted S" and "mstep\<^sup>*\<^sup>* S T" and "i < NPROC" and "p_state (procs (m_sh T) ! i) \<noteq> UNUSED"
  shows "0 < sint (p_pid (procs (m_sh T) ! i)) \<and> sint (p_pid (procs (m_sh T) ! i)) < sint (nextpid (m_sh T))
    \<and> (\<forall>j<NPROC. p_state (procs (m_sh T) ! j) \<noteq> UNUSED \<and> p_pid (procs (m_sh T) ! j) = p_pid (procs (m_sh T) ! i) \<longrightarrow> j = i)
    \<and> (p_state (procs (m_sh T) ! i) = RUNNING \<longrightarrow> (\<exists>!c. c < NCPU \<and> m_cur T c = Some i))
    \<and> (\<forall>c. m_cur T c = Some i \<and> L_ptable \<notin> m_held T c \<longrightarrow> p_state (procs (m_sh T) ! i) = RUNNING)
    \<and> (\<forall>q. p_parent (procs (m_sh T) ! i) = Some q \<longrightarrow>
         q < NPROC \<and> p_state (procs (m_sh T) ! q) \<notin> {UNUSED, EMBRYO, ZOMBIE})"
proof -
  let ?x = "ptab_of (m_sh T)" and ?ps = "procs (m_sh T)"
  have inv: "smp_inv T" using assms(2,1) by (rule msteps_inv)
  then have tab: "pids_ok ?x" "family_ok ?x" and len: "length ?ps = NPROC" by (simp_all add: smp_inv_def ptab_inv_def)
  have use: "in_use ?x j \<longleftrightarrow> j < NPROC \<and> p_state (?ps ! j) \<noteq> UNUSED" for j by (simp add: in_use_def len)
  have "0 < sint (p_pid (?ps ! i)) \<and> sint (p_pid (?ps ! i)) < sint (nextpid (m_sh T))"
    using tab(1) assms(3,4) use [of i] by (simp add: pids_ok_def)
  moreover have "\<forall>j<NPROC. p_state (?ps ! j) \<noteq> UNUSED \<and> p_pid (?ps ! j) = p_pid (?ps ! i) \<longrightarrow> j = i"
    using tab(1) assms(3,4) unfolding pids_ok_def use by simp
  moreover have "\<exists>!c. c < NCPU \<and> m_cur T c = Some i" if "p_state (?ps ! i) = RUNNING"
  proof -
    have "in_state ?x i RUNNING" using that assms(3) by (simp add: in_state_def len)
    then obtain c where c: "m_cur T c = Some i" using inv by (auto simp: smp_inv_def)
    then have "c < NCPU" using inv unfolding smp_inv_def by blast
    moreover have "d = c" if "m_cur T d = Some i" for d using inv c that unfolding smp_inv_def by blast
    ultimately show ?thesis using c by blast
  qed
  moreover have "\<forall>c. m_cur T c = Some i \<and> L_ptable \<notin> m_held T c \<longrightarrow> p_state (?ps ! i) = RUNNING"
    using inv by (auto simp: smp_inv_def in_state_def)
  moreover have "\<forall>q. p_parent (?ps ! i) = Some q \<longrightarrow> alive ?x q" using tab(2) assms(3) by (simp add: family_ok_def len)
  ultimately show ?thesis by (simp add: alive_def len)
qed

section \<open>The start of the kernel\<close>

text \<open>What \<open>userinit\<close> does when there is memory enough: 1027 pages, one for the kernel stack, at most 1025 for the page table, and the page of the image.\<close>

lemma same_outside_kstack:
  assumes "page_aligned pg"
  shows "same_outside {pg} m (kstack_mem pg tr fr m)"
  unfolding same_outside_def kstack_mem_def
proof (intro allI impI)
  fix q :: u32 and i :: nat assume q: "page_aligned q" "q \<notin> {pg}" "i < 4096"
  then have ne: "q \<noteq> pg" by simp
  have "memset (pg + of_nat 3996) 0 20 m' (q + of_nat i) = m' (q + of_nat i)" for m'
  proof -
    have "\<not> dist (q + of_nat i) (pg + of_nat 3996) < 20"
    proof
      assume d: "dist (q + of_nat i) (pg + of_nat 3996) < 20"
      have "q + of_nat i = pg + of_nat (3996 + dist (q + of_nat i) (pg + of_nat 3996))" by (simp add: dist_def)
      then have "dist (q + of_nat i) pg = 3996 + dist (q + of_nat i) (pg + of_nat 3996)"
        using dist_same_page [of "3996 + dist (q + of_nat i) (pg + of_nat 3996)" pg] d by simp
      then show False using dist_other_page [OF q(1) assms ne q(3)] d by simp
    qed
    then show ?thesis by (simp add: memset_eq)
  qed
  then show "store32 (pg + of_nat 4012) fr (memset (pg + of_nat 3996) 0 20 (store32 (pg + of_nat 4016) tr m)) (q + of_nat i) = m (q + of_nat i)"
    using store32_other_page [OF q(1) assms ne q(3), of 4012] store32_other_page [OF q(1) assms ne q(3), of 4016] by simp
qed

lemma userinit_rest:
  fixes v :: "'a kfs_scheme"
  assumes "L_ptable \<notin> k_held v" and "L_icache \<notin> k_held v" and "iget_scan ROOTDEV ROOTINO 0 (icache v) None = (None, Some ip)" and "i < length (procs v)"
  shows "\<exists>t. thenM (upd_proc i (\<lambda>p. p\<lparr>p_sz := PGSIZE\<rparr>))
               (bindM (getM (\<lambda>s. p_tf (procs s ! i))) (\<lambda>tf.
               thenM (memsetM tf 0 sizeof_trapframe)
               (thenM (poke16 (tf + tf_cs) (push_bit 3 SEG_UCODE OR DPL_USER))
               (thenM (poke16 (tf + tf_ds) (push_bit 3 SEG_UDATA OR DPL_USER))
               (thenM (poke16 (tf + tf_es) (push_bit 3 SEG_UDATA OR DPL_USER))
               (thenM (poke16 (tf + tf_ss) (push_bit 3 SEG_UDATA OR DPL_USER))
               (thenM (poke (tf + tf_eflags) FL_IF)
               (thenM (poke (tf + tf_esp) PGSIZE)
               (thenM (poke (tf + tf_eip) 0)
               (thenM (upd_proc i (\<lambda>p. p\<lparr>p_name := ''initcode''\<rparr>))
               (bindM (namei [0x2F]) (\<lambda>cwd.
               thenM (upd_proc i (\<lambda>p. p\<lparr>p_cwd := cwd\<rparr>))
               (thenM (acquire L_ptable)
               (thenM (upd_proc i (\<lambda>p. p\<lparr>p_state := RUNNABLE\<rparr>))
               (release L_ptable))))))))))))))) v = Ok () t
    \<and> k_held t = k_held v \<and> cpuproc t = cpuproc v \<and> initproc t = initproc v \<and> nextpid t = nextpid v
    \<and> procs t = (procs v)[i := (procs v ! i)\<lparr>p_sz := PGSIZE, p_name := ''initcode'', p_cwd := Some ip, p_state := RUNNABLE\<rparr>]"
proof -
  have h: "k_held v - {L_ptable} = k_held v" "k_held v - {L_icache} = k_held v" using assms(1,2) by auto
  show ?thesis unfolding namei_root
    using assms h by (simp add: thenM_run bindM_run upd_proc_def memsetM_def poke16_def poke_def iget_def acquire_def release_def upd_inode_def)
qed

lemma inituvm_run:
  fixes s :: "'a kstate_scheme"
  assumes sp: "space_wf (p # qs) d s" and z: "pte (k_mem s) d 0 = 0" and sz: "sz < PGSIZE"
  shows "\<exists>t :: 'a kstate_scheme. inituvm d img sz s = Ok () t \<and> t = s\<lparr>k_freelist := k_freelist t, k_mem := k_mem t\<rparr>"
proof -
  have wf: "vm_wf (p # qs) d s" and k: "kmem_wf (p # qs) s" using sp by (simp_all add: space_wf_def user_wf_def vm_wf_def)
  have "page_aligned p" using free_aligned [OF k, of p] by simp
  note T = take_page [OF wf same_outside_memset [OF this, of _ 0]]
  let ?u = "s\<lparr>k_freelist := load32 (k_mem s) p, k_mem := memset p 0 PGSIZE (k_mem s)\<rparr>"
  have va: "vpn 0 = 0" "vpn (0 + PGSIZE - 1) = 0" "PGSIZE \<noteq> 0" "unat (0 :: u32) + unat PGSIZE \<le> 2 ^ 32" by (simp_all add: vpn_def PGSIZE_def)
  have fr: "pte (k_mem ?u) d i AND PTE_P = 0" if "vpn 0 \<le> i" "i \<le> vpn (0 + PGSIZE - 1)" for i
    using T(5) [of 0] z that va by simp
  obtain r and t :: "'a kstate_scheme" where t: "mappages d 0 PGSIZE (V2P p) (PTE_W OR PTE_U) ?u = Ok r t" "t = ?u\<lparr>k_freelist := k_freelist t, k_mem := k_mem t\<rparr>"
    using mappages_mapped [OF T(1) va(3,4) fr, of "V2P p" "PTE_W OR PTE_U"] unfolding vm_ext_def by blast
  let ?v = "t\<lparr>k_mem := memmove p img sz (k_mem t)\<rparr>"
  have "inituvm d img sz s = Ok () ?v"
    using kalloc_wf [OF k] t(1) sz by (simp add: inituvm_def bindM_run thenM_run memsetM_def memmoveM_def not_le)
  moreover have "t = s\<lparr>k_freelist := k_freelist t, k_mem := k_mem t\<rparr>" by (rule mem_frame_trans [OF t(2)]) simp
  from arg_cong [OF this, of "k_mem_update (\<lambda>_. memmove p img sz (k_mem t))"]
  have "?v = s\<lparr>k_freelist := k_freelist ?v, k_mem := k_mem ?v\<rparr>" by simp
  ultimately show ?thesis by blast
qed

lemma userinit_run:
  fixes s :: "'a kfs_scheme"
  assumes lock: "L_ptable \<notin> k_held s" "L_icache \<notin> k_held s" and k: "kmem_wf (pg # ps) s" and mem: "1026 \<le> length ps" and im: "kernel_image s"
    and slot: "find_slot (\<lambda>p. p_state p = UNUSED) 0 (procs s) = Some i" and sz: "sz < PGSIZE"
    and ino: "iget_scan ROOTDEV ROOTINO 0 (icache s) None = (None, Some ip)"
  shows "\<exists>t. userinit img sz s = Ok () t \<and> k_held t = k_held s \<and> cpuproc t = cpuproc s \<and> initproc t = Some i \<and> nextpid t = nextpid s + 1
    \<and> (\<exists>p. procs t = (procs s)[i := p] \<and> p_state p = RUNNABLE \<and> p_pid p = nextpid s)"
proof -
  have i: "i < length (procs s)" using slot by (simp add: find_slot_Some)
  let ?p = "(procs s ! i)\<lparr>p_state := EMBRYO, p_pid := nextpid s, p_ctime := ticks s, p_etime := 0, p_kstack := pg, p_tf := pg + 4020, p_context := pg + 3996\<rparr>"
  define u where "u = s\<lparr>k_freelist := load32 (k_mem s) pg, k_mem := kstack_mem pg (k_trapret s) (k_forkret s) (k_mem s),
      nextpid := nextpid s + 1, procs := (procs s)[i := ?p]\<rparr>"
  define u2 where "u2 = u\<lparr>initproc := Some i\<rparr>"
  have pg: "page_aligned pg" "pg \<noteq> 0" "pg \<notin> set ps" using free_aligned [OF k, of pg] k by (auto simp: kmem_wf_def)
  have alloc: "allocproc s = Ok (Some i) u" using allocproc_run [OF lock(1) k pg(2) slot] by (simp add: u_def)
  have "load32 (kstack_mem pg (k_trapret s) (k_forkret s) (k_mem s)) q = load32 (k_mem s) q" if "q \<in> set ps" for q
    using load32_same_outside [OF same_outside_kstack [OF pg(1)], of q 0] free_aligned [OF k, of q] that pg(3) by auto
  then have "kmem_wf ps ((s\<lparr>k_freelist := load32 (k_mem s) pg\<rparr>)\<lparr>k_mem := kstack_mem pg (k_trapret s) (k_forkret s) (k_mem s)\<rparr>)"
    by (intro kmem_wf_mem kmem_wf_taken [OF k]) simp
  then have k2: "kmem_wf ps u2" by (simp add: u2_def u_def kmem_wf_def)
  have im2: "kernel_image u2" using im by (simp add: u2_def u_def kernel_image_def)
  have card: "card (set ps) = length ps" using k by (simp add: kmem_wf_def distinct_card)
  obtain r and v :: "'a kfs_scheme" and ps2 where v: "setupkvm u2 = Ok r v" "v = u2\<lparr>k_freelist := k_freelist v, k_mem := k_mem v\<rparr>" "r \<noteq> 0"
      "space_wf ps2 r v" "set ps = set ps2 \<union> space_pages (k_mem v) r" "\<forall>n < 524288. pte (k_mem v) r n = 0"
    using setupkvm_maps [OF k2 im2] card mem by auto
  have "card (space_pages (k_mem v) r) \<le> 1025 + 0" using v(6) by (intro space_card) (simp add: present_def)
  then have "card (set ps) \<le> card (set ps2) + 1025" unfolding v(5) using card_Un_le [of "set ps2" "space_pages (k_mem v) r"] by simp
  then obtain q qs where q: "ps2 = q # qs" using card mem by (cases ps2) simp_all
  define w where "w = v\<lparr>procs := (procs v)[i := (procs v ! i)\<lparr>p_pgdir := r\<rparr>]\<rparr>"
  have "L_kmem \<notin> k_held w" using v(4) by (simp add: w_def space_wf_def user_wf_def vm_wf_def kmem_wf_def)
  then have sp: "space_wf (q # qs) r w" by (intro space_wf_cong [OF _ _ _ _ v(4) [unfolded q]]) (simp_all add: w_def)
  have "pte (k_mem w) r 0 = 0" using v(6) by (simp add: w_def)
  from inituvm_run [OF sp this sz] obtain y :: "'a kfs_scheme" where y: "inituvm r img sz w = Ok () y" "y = w\<lparr>k_freelist := k_freelist y, k_mem := k_mem y\<rparr>"
    by blast
  note get = arg_cong [OF y(2)] and get' = arg_cong [OF v(2)]
  have f: "k_held y = k_held s" "cpuproc y = cpuproc s" "initproc y = Some i" "nextpid y = nextpid s + 1" "icache y = icache s"
    "procs y = (procs s)[i := ?p\<lparr>p_pgdir := r\<rparr>]"
    using get [of k_held] get' [of k_held] get [of cpuproc] get' [of cpuproc] get [of initproc] get' [of initproc] get [of nextpid] get' [of nextpid]
      get [of icache] get' [of icache] get [of procs] get' [of procs] i
    by (simp_all add: w_def u2_def u_def)
  from userinit_rest [of y ip i] obtain t where t: "thenM (upd_proc i (\<lambda>p. p\<lparr>p_sz := PGSIZE\<rparr>))
               (bindM (getM (\<lambda>s. p_tf (procs s ! i))) (\<lambda>tf.
               thenM (memsetM tf 0 sizeof_trapframe)
               (thenM (poke16 (tf + tf_cs) (push_bit 3 SEG_UCODE OR DPL_USER))
               (thenM (poke16 (tf + tf_ds) (push_bit 3 SEG_UDATA OR DPL_USER))
               (thenM (poke16 (tf + tf_es) (push_bit 3 SEG_UDATA OR DPL_USER))
               (thenM (poke16 (tf + tf_ss) (push_bit 3 SEG_UDATA OR DPL_USER))
               (thenM (poke (tf + tf_eflags) FL_IF)
               (thenM (poke (tf + tf_esp) PGSIZE)
               (thenM (poke (tf + tf_eip) 0)
               (thenM (upd_proc i (\<lambda>p. p\<lparr>p_name := ''initcode''\<rparr>))
               (bindM (namei [0x2F]) (\<lambda>cwd.
               thenM (upd_proc i (\<lambda>p. p\<lparr>p_cwd := cwd\<rparr>))
               (thenM (acquire L_ptable)
               (thenM (upd_proc i (\<lambda>p. p\<lparr>p_state := RUNNABLE\<rparr>))
               (release L_ptable))))))))))))))) y = Ok () t"
    and ft: "k_held t = k_held y" "cpuproc t = cpuproc y" "initproc t = initproc y" "nextpid t = nextpid y"
      "procs t = (procs y)[i := (procs y ! i)\<lparr>p_sz := PGSIZE, p_name := ''initcode'', p_cwd := Some ip, p_state := RUNNABLE\<rparr>]"
    using lock ino i f by auto
  have "userinit img sz s = Ok () t"
    using alloc v(1,3) y(1) t unfolding u2_def w_def
    by (simp only: userinit_def bindM_run [of allocproc] bindM_run [of setupkvm] thenM_run [of "modM _"] thenM_upd_proc thenM_run [of "inituvm _ _ _"]
        res.case option.case modM_def if_False)
  then show ?thesis using ft f i by (intro exI [of _ t]) auto
qed

text \<open>The kernel as \<open>main\<close> finds it, with 1100 free pages from \<open>0x80400000\<close> on and an empty cache of inodes.\<close>

definition demo_kernel :: "proc list \<Rightarrow> kfile" where
  "demo_kernel ps = kfs.extend (demo_fs\<lparr>procs := ps, nextpid := 3, cpuproc := None, initproc := Some 0\<rparr>) (kfile.fields [])"

definition demo_start :: kfile where
  "demo_start = fold freed (pages_from (KERNBASE + 0x400000) 1100)
     ((demo_kernel (replicate NPROC proc0))\<lparr>nextpid := 1, initproc := None, k_end := KERNBASE + 0x300000, k_data := KERNBASE + 0x200000,
        icache := replicate NINODE (demo_inode\<lparr>i_ref := 0\<rparr>)\<rparr>)"

lemma kmem_wf_fold:
  assumes "kmem_wf ps s" and "distinct qs" and "\<forall>q\<in>set qs. free_page (k_end s) q \<and> q \<notin> set ps"
  shows "kmem_wf (rev qs @ ps) (fold freed qs s) \<and> fold freed qs s = s\<lparr>k_freelist := k_freelist (fold freed qs s), k_mem := k_mem (fold freed qs s)\<rparr>"
  using assms
proof (induction qs arbitrary: ps s)
  case (Cons q qs)
  have e: "k_end (freed q s) = k_end s" by (simp add: freed_def)
  have "kmem_wf (q # ps) (freed q s)" using Cons.prems by (intro kmem_wf_freed) simp_all
  from Cons.IH [OF this] have IH: "kmem_wf (rev qs @ q # ps) (fold freed qs (freed q s))"
    "fold freed qs (freed q s) = (freed q s)\<lparr>k_freelist := k_freelist (fold freed qs (freed q s)), k_mem := k_mem (fold freed qs (freed q s))\<rparr>"
    using Cons.prems(2,3) e by auto
  moreover have "freed q s = s\<lparr>k_freelist := k_freelist (freed q s), k_mem := k_mem (freed q s)\<rparr>" by (simp add: freed_def)
  ultimately show ?case using mem_frame_trans [OF IH(2)] by simp
qed simp

lemma iget_scan_free: "i_ref x = 0 \<Longrightarrow> iget_scan d n i (replicate k x) (Some j) = (None, Some j)"
  by (induction k arbitrary: i) simp_all

lemma find_slot_first: "P x \<Longrightarrow> find_slot P k (x # xs) = Some k"
  by simp

lemma demo_start_starts:
  "procs demo_start = replicate NPROC proc0" "nextpid demo_start = 1" "initproc demo_start = None" "cpuproc demo_start = None" "k_held demo_start = {}"
  "\<exists>t. userinit 0 16 demo_start = Ok () t \<and> k_held t = {} \<and> cpuproc t = None \<and> initproc t = Some 0 \<and> nextpid t = 2
     \<and> length (procs t) = NPROC \<and> p_state (procs t ! 0) = RUNNABLE \<and> p_pid (procs t ! 0) = 1"
proof -
  define base where "base = (demo_kernel (replicate NPROC proc0))\<lparr>nextpid := 1, initproc := None, k_end := KERNBASE + 0x300000, k_data := KERNBASE + 0x200000,
        icache := replicate NINODE (demo_inode\<lparr>i_ref := 0\<rparr>)\<rparr>"
  let ?p = "KERNBASE + 0x400000 :: u32"
  have b: "procs base = replicate NPROC proc0" "nextpid base = 1" "initproc base = None" "cpuproc base = None" "k_held base = {}"
    "k_end base = KERNBASE + 0x300000" "k_data base = KERNBASE + 0x200000" "icache base = replicate NINODE (demo_inode\<lparr>i_ref := 0\<rparr>)" "k_freelist base = 0"
    by (simp_all add: base_def demo_kernel_def kfile.defs kfs.defs demo_fs_def demo_klog_def)
  have none: "kmem_wf [] base" using b by (simp add: kmem_wf_def KERNBASE_def word_le_nat_alt)
  have dist: "distinct (pages_from ?p 1100)" by (intro distinct_pages_from) (simp add: KERNBASE_def)
  have "free_page (k_end base) q \<and> q \<notin> set []" if q: "q \<in> set (pages_from ?p 1100)" for q
  proof -
    obtain i where i: "i < 1100" "q = ?p + of_nat i * PGSIZE" using q unfolding pages_from_def set_map set_upt by auto
    then have u: "unat q = 2151677952 + 4096 * i" using unat_page_add [of ?p i] by (simp add: KERNBASE_def)
    have "free_page (k_end base) q" unfolding b
      using u i(1) by (intro free_page_range) (simp_all add: page_aligned_def word_le_nat_alt word_less_nat_alt KERNBASE_def PHYSTOP_def)
    then show ?thesis by simp
  qed
  then have "\<forall>q\<in>set (pages_from ?p 1100). free_page (k_end base) q \<and> q \<notin> set []" by blast
  note F = kmem_wf_fold [OF none dist this, folded base_def demo_start_def [folded base_def]]
  note get = arg_cong [OF F [THEN conjunct2]]
  show f: "procs demo_start = replicate NPROC proc0" "nextpid demo_start = 1" "initproc demo_start = None" "cpuproc demo_start = None" "k_held demo_start = {}"
    using get [of procs] get [of nextpid] get [of initproc] get [of cpuproc] get [of k_held] b by simp_all
  have g: "k_end demo_start = KERNBASE + 0x300000" "k_data demo_start = KERNBASE + 0x200000" "icache demo_start = replicate NINODE (demo_inode\<lparr>i_ref := 0\<rparr>)"
    using get [of k_end] get [of k_data] get [of icache] b by simp_all
  obtain pg ps where ps: "rev (pages_from ?p 1100) = pg # ps" "length ps = 1099"
  proof -
    have "length (rev (pages_from ?p 1100)) = Suc 1099" unfolding pages_from_def length_rev length_map length_upt by simp
    then show ?thesis using that by (cases "rev (pages_from ?p 1100)") simp_all
  qed
  have k: "kmem_wf (pg # ps) demo_start" using F ps(1) by simp
  have im: "kernel_image demo_start" unfolding kernel_image_def g
    by (simp add: page_aligned_def KERNBASE_def KERNLINK_def EXTMEM_def P2V_def PHYSTOP_def)
  have slot: "find_slot (\<lambda>p. p_state p = UNUSED) 0 (procs demo_start) = Some 0"
  proof -
    have "replicate NPROC proc0 = proc0 # replicate 63 proc0" by (simp add: NPROC_def numeral_eq_Suc)
    then show ?thesis by (simp add: f proc0_def)
  qed
  have "replicate NINODE x = x # replicate 49 x" for x :: inode unfolding NINODE_def replicate_Suc [symmetric] by simp
  then have ino: "iget_scan ROOTDEV ROOTINO 0 (icache demo_start) None = (None, Some 0)" unfolding g by (simp add: iget_scan_free)
  have "(16 :: u32) < PGSIZE" "1026 \<le> length ps" "L_ptable \<notin> k_held demo_start" "L_icache \<notin> k_held demo_start"
    using ps(2) f by (simp_all add: PGSIZE_def)
  from userinit_run [OF this(3,4) k this(2) im slot this(1) ino, of 0] f
  obtain t p where t: "userinit 0 16 demo_start = Ok () t" "k_held t = {}" "cpuproc t = None" "initproc t = Some 0" "nextpid t = 2"
    "procs t = (replicate NPROC proc0)[0 := p]" "p_state p = RUNNABLE" "p_pid p = 1" by auto
  have "length (procs t) = NPROC" "procs t ! 0 = p" using t(6) by (simp_all add: NPROC_def)
  with t show "\<exists>t. userinit 0 16 demo_start = Ok () t \<and> k_held t = {} \<and> cpuproc t = None \<and> initproc t = Some 0 \<and> nextpid t = 2
     \<and> length (procs t) = NPROC \<and> p_state (procs t ! 0) = RUNNABLE \<and> p_pid (procs t ! 0) = 1"
    by blast
qed

lemma demo_start_step:
  obtains t where "kstep demo_start t" "initproc t = Some 0" "length (procs t) = NPROC" "p_state (procs t ! 0) = RUNNABLE" "nextpid t = 2"
proof -
  obtain t where t: "userinit 0 16 demo_start = Ok () t" "initproc t = Some 0" "length (procs t) = NPROC" "p_state (procs t ! 0) = RUNNABLE" "nextpid t = 2"
    using demo_start_starts(6) by blast
  from demo_start_starts t(1) have "kstep demo_start t" by (intro k_userinit [of _ 0 16]) simp_all
  with t that show ?thesis by blast
qed

theorem process_lifecycle_witness:
  "\<exists>t :: kfile. pt_steps (ptab_of demo_start) (ptab_of t) \<and> initproc t = Some 0 \<and> p_state (procs t ! 0) = RUNNABLE"
proof -
  define S where "S = \<lparr>m_sh = demo_start, m_held = (\<lambda>_. {}), m_cur = (\<lambda>_. None)\<rparr>"
  have "booted S" using demo_start_starts by (simp add: booted_def S_def)
  then have inv: "ptab_inv (ptab_of demo_start)" using smp_invD(1) [OF booted_inv, of S] by (simp add: S_def)
  obtain t where t: "kstep demo_start t" "initproc t = Some 0" "p_state (procs t ! 0) = RUNNABLE" using demo_start_step by blast
  from process_lifecycle [OF t(1) inv] t(2,3) show ?thesis by blast
qed

text \<open>The processors at the start, of which number 0 runs \<open>userinit\<close>.\<close>

definition demo_smp :: "kfile smp" where
  "demo_smp = \<lparr>m_sh = demo_start, m_held = (\<lambda>_. {}), m_cur = (\<lambda>_. None)\<rparr>"

theorem process_table_invariant_witness:
  "\<exists>T. mstep\<^sup>*\<^sup>* demo_smp T \<and> p_state (procs (m_sh T) ! 0) = RUNNABLE
     \<and> 0 < sint (p_pid (procs (m_sh T) ! 0)) \<and> sint (p_pid (procs (m_sh T) ! 0)) < 2"
proof -
  have b: "booted demo_smp" using demo_start_starts by (simp add: booted_def demo_smp_def)
  have "view 0 demo_smp = demo_start" using demo_start_starts(4,5) by (simp add: view_def demo_smp_def)
  obtain t where t: "kstep demo_start t" "p_state (procs t ! 0) = RUNNABLE" "nextpid t = 2" using demo_start_step by blast
  have "mstep demo_smp (put_view 0 t demo_smp)"
    using t(1) \<open>view 0 demo_smp = demo_start\<close> by (intro m_op) (simp_all add: NCPU_def demo_smp_def)
  then have st: "mstep\<^sup>*\<^sup>* demo_smp (put_view 0 t demo_smp)" by simp
  have "0 < NPROC" "p_state (procs (m_sh (put_view 0 t demo_smp)) ! 0) \<noteq> UNUSED" using t(2) by (simp_all add: NPROC_def)
  from process_table_invariant [OF b st this] t show ?thesis by (intro exI [of _ "put_view 0 t demo_smp"] conjI st) simp_all
qed

end
