(* ===== verification/Syscall_Spec.thy ===== *)
theory Syscall_Spec
  imports Trap Lifecycle
begin

text \<open>
  The boundary between user and kernel: what the dispatcher does with a number that is no system call, and that the
  pointers and strings which pass the argument checks lie inside the process.
\<close>

section \<open>Arguments\<close>

lemma fetchint_Ok:
  assumes "fetchint a s = Ok r t"
  shows "t = s"
  using assms by (auto simp: fetchint_def monad_Ok_iff curproc_def vload32_def vload8_def split: option.splits if_splits)

lemma argint_Ok: "argint n s = Ok r t \<Longrightarrow> t = s"
  by (auto simp: argint_def monad_Ok_iff curproc_def peek_def dest: fetchint_Ok split: option.splits)

lemma range_in_process:
  fixes i size psz :: u32
  assumes "\<not> sint size < 0" and "\<not> psz \<le> i" and "\<not> psz < i + size" and "psz \<le> KERNBASE"
  shows "unat i + unat size \<le> unat psz"
proof -
  have "unat size = nat (sint size)" using unat_sint_nonneg [OF assms(1)] by (metis nat_int)
  then have "unat size < 2147483648" using sint_lt [of size] assms(1) by (simp add: nat_less_iff)
  moreover have "unat i < unat psz" "unat psz \<le> 0x80000000"
    using assms(2,4) by (simp_all add: word_le_nat_alt KERNBASE_def not_le)
  ultimately have "unat (i + size) = unat i + unat size" by (intro unat_add_small) simp
  then show ?thesis using assms(3) by (simp add: word_less_nat_alt not_less)
qed

lemma fetchstr_loop_Ok:
  "fetchstr_loop n a s = Ok (Some str) t \<Longrightarrow> t = s \<and> length str < n \<and> 0 \<notin> set str
     \<and> (\<forall>k\<le>length str. \<exists>ka. vaddr s (a + of_nat k) = Some ka \<and> k_mem s ka = (str @ [0]) ! k)"
proof (induction n arbitrary: a str)
  case 0
  then show ?case by simp
next
  case (Suc n)
  then obtain c where c: "vload8 a s = Ok c s" by (auto simp: bindM_Ok_iff vload8_def split: option.splits)
  then obtain ka where ka: "vaddr s a = Some ka" "k_mem s ka = c" by (auto simp: vload8_def split: option.splits)
  show ?case
  proof (cases "c = 0")
    case True
    then show ?thesis using Suc.prems c ka by (auto simp: bindM_run)
  next
    case False
    then obtain rest where r: "str = c # rest" "fetchstr_loop n (a + 1) s = Ok (Some rest) t"
      using Suc.prems c by (auto simp: bindM_run split: res.splits)
    note IH = Suc.IH [OF r(2)]
    have "\<exists>ka. vaddr s (a + of_nat k) = Some ka \<and> k_mem s ka = (str @ [0]) ! k" if "k \<le> length str" for k
    proof (cases k)
      case 0
      then show ?thesis using ka r by simp
    next
      case (Suc j)
      then show ?thesis using IH that r by (auto simp: ac_simps)
    qed
    then show ?thesis using IH r False by auto
  qed
qed

text \<open>
  C35: A pointer argument that passes \<open>argptr\<close> with a size, and a string that passes \<open>fetchstr\<close>, lie inside the memory
  of the process, whatever the user passed: the range does not wrap around and does not reach the kernel, and a string has its
  terminating NUL before the end. The checks change nothing.
\<close>
theorem user_pointers_inside:
  assumes "cpuproc s = Some cur" and "p_sz (procs s ! cur) \<le> KERNBASE"
  shows "(argptr n len s = Ok (Some a) t \<longrightarrow> t = s \<and> 0 \<le> sint len \<and> unat a + unat len \<le> unat (p_sz (procs s ! cur)))
    \<and> (fetchstr b s = Ok (Some str) u \<longrightarrow> u = s \<and> unat b + length str < unat (p_sz (procs s ! cur)) \<and> 0 \<notin> set str
        \<and> (\<forall>k\<le>length str. \<exists>ka. vaddr s (b + of_nat k) = Some ka \<and> k_mem s ka = (str @ [0]) ! k))"
proof (intro conjI impI)
  assume "argptr n len s = Ok (Some a) t"
  then have "t = s" "\<not> sint len < 0" "\<not> p_sz (procs s ! cur) \<le> a" "\<not> p_sz (procs s ! cur) < a + len"
    using assms(1) by (auto simp: argptr_def monad_Ok_iff curproc_def dest!: argint_Ok split: option.splits if_splits)
  then show "t = s" "0 \<le> sint len" "unat a + unat len \<le> unat (p_sz (procs s ! cur))"
    using range_in_process [OF _ _ _ assms(2)] by auto
next
  let ?sz = "p_sz (procs s ! cur)"
  assume "fetchstr b s = Ok (Some str) u"
  then have b: "b < ?sz" and f: "fetchstr_loop (unat (?sz - b)) b s = Ok (Some str) u"
    using assms(1) by (auto simp: fetchstr_def bindM_run curproc_def split: if_splits)
  note F = fetchstr_loop_Ok [OF f]
  have "unat (?sz - b) = unat ?sz - unat b" using b by (simp add: unat_sub less_imp_le)
  moreover have "unat b < unat ?sz" using b by (simp add: word_less_nat_alt)
  moreover have "length str < unat (?sz - b)" using F by simp
  ultimately show "unat b + length str < unat ?sz" by linarith
  show "u = s" "0 \<notin> set str" "\<forall>k\<le>length str. \<exists>ka. vaddr s (b + of_nat k) = Some ka \<and> k_mem s ka = (str @ [0]) ! k"
    using F by auto
qed

section \<open>The dispatcher\<close>

lemma unknown_format:
  "cprintf_loop (''%d %s: unknown sys call %d'' @ [NL]) [A_int a, A_str b, A_int c]
    = Some (printint a 10 True @ '' '' @ takeWhile (\<lambda>ch. ch \<noteq> CHR 0x00) b @ '': unknown sys call '' @ printint c 10 True @ [NL])"
  by (simp add: NL_def)

text \<open>
  C37: A system call number that the table does not have, 0, beyond the last, or negative, makes the dispatcher print a line with the
  pid of the process, its name and the number, and return -1 to the process, which goes on; nothing else changes.
  The number 24, \<open>custmpro\<close>, is one of these in the FCFS kernel. The two numerals read back as the signed numbers.
\<close>
theorem unknown_syscall:
  assumes "cpuproc s = Some cur" and "L_cons \<notin> k_held s"
    and "load32 (k_mem s) (p_tf (procs s ! cur) + tf_eax) = num"
    and "num = 0 \<or> 24 < num \<or> num = 24 \<and> \<not> with_prio"
  shows "\<exists>pid call. num_val pid = sint (p_pid (procs s ! cur)) \<and> num_val call = sint num
    \<and> syscall with_prio junk s = Ok True (s\<lparr>
        k_out := k_out s @ pid @ '' '' @ takeWhile (\<lambda>ch. ch \<noteq> CHR 0x00) (p_name (procs s ! cur)) @ '': unknown sys call '' @ call @ [NL],
        k_mem := store32 (p_tf (procs s ! cur) + tf_eax) (-1) (k_mem s)\<rparr>)"
proof -
  let ?p = "procs s ! cur"
  have none: "(syscalls with_prio junk num :: ('a kfile_scheme \<Rightarrow> _) option) = None" using assms(4) by (auto simp: syscalls_def)
  let ?out = "printint (p_pid ?p) 10 True @ '' '' @ takeWhile (\<lambda>ch. ch \<noteq> CHR 0x00) (p_name ?p) @ '': unknown sys call '' @ printint num 10 True @ [NL]"
  have "cprintf (''%d %s: unknown sys call %d'' @ [NL]) [A_int (p_pid ?p), A_str (p_name ?p), A_int num] s
      = Ok () (s\<lparr>k_out := k_out s @ ?out\<rparr>)" using assms(2) by (intro cprintf_run unknown_format)
  then have "syscall with_prio junk s = Ok True (s\<lparr>k_out := k_out s @ ?out,
      k_mem := store32 (p_tf ?p + tf_eax) (-1) (k_mem s)\<rparr>)"
    using assms(1,3) none by (simp add: syscall_def bindM_run thenM_run curproc_def peek_def procM_def poke_def)
  then show ?thesis using printint_decimal by blast
qed

section \<open>Witnesses\<close>

text \<open>
  A process whose page directory at \<open>0x80401000\<close> maps the first page to \<open>0x80400000\<close>, where its stack pointer is 8 and the argument word
  at 12 is 16; at 16 there is a string.
\<close>

definition demo_user :: kproc where
  "demo_user = (demo [(proc_at RUNNING 0 0)\<lparr>p_sz := 4096, p_tf := 0x80403000\<rparr>])\<lparr>cpuproc := Some 0, k_cr3 := 0x401000,
     k_mem := (store32 (0x80403000 + tf_esp) 8 (store32 0x8040000C 16 (store32 0x80401000 0x402007
        (store32 0x80402000 0x400007 (\<lambda>_. 0)))))(0x80400010 := 104, 0x80400011 := 105)\<rparr>"

lemma demo_user_args:
  "(case argptr 0 20 demo_user of Ok r t \<Rightarrow> r | _ \<Rightarrow> None) = Some 16"
  "(case fetchstr 16 demo_user of Ok r t \<Rightarrow> r | _ \<Rightarrow> None) = Some [104, 105]"
  by code_simp+

theorem user_pointers_inside_witness:
  "argptr 0 20 demo_user = Ok (Some 16) demo_user \<and> fetchstr 16 demo_user = Ok (Some [104, 105]) demo_user"
proof -
  have c: "cpuproc demo_user = Some 0" "p_sz (procs demo_user ! 0) \<le> KERNBASE"
    by (simp_all add: demo_user_def KERNBASE_def)
  obtain t where t: "argptr 0 20 demo_user = Ok (Some 16) t" using demo_user_args(1) by (auto split: res.splits)
  obtain u where u: "fetchstr 16 demo_user = Ok (Some [104, 105]) u" using demo_user_args(2) by (auto split: res.splits)
  show ?thesis using user_pointers_inside [OF c, of 0 20 16 t 16 "[104, 105]" u] t u by simp
qed

text \<open>System call 99 of that process, with the trap frame of \<open>demo_kernel\<close>.\<close>

theorem unknown_syscall_witness:
  "\<exists>t pid call. syscall False 0 ((demo_kernel [proc0\<lparr>p_pid := 7, p_name := ''sh''\<rparr>])\<lparr>cpuproc := Some 0, k_mem := store32 28 99 (\<lambda>_. 0)\<rparr>) = Ok True t
     \<and> load32 (k_mem t) 28 = -1 \<and> k_out t = pid @ '' sh: unknown sys call '' @ call @ [NL] \<and> num_val pid = 7 \<and> num_val call = 99"
proof -
  define s where "s = (demo_kernel [proc0\<lparr>p_pid := 7, p_name := ''sh''\<rparr>])\<lparr>cpuproc := Some 0, k_mem := store32 28 99 (\<lambda>_. 0)\<rparr>"
  have s: "cpuproc s = Some 0" "procs s ! 0 = proc0\<lparr>p_pid := 7, p_name := ''sh''\<rparr>" "k_held s = {}" "k_out s = []" "k_mem s = store32 28 99 (\<lambda>_. 0)"
    by (simp_all add: s_def demo_kernel_def kfile.defs kfs.defs demo_fs_def demo_klog_def)
  have tf: "p_tf (procs s ! 0) + tf_eax = 28" by (simp add: s(2) proc0_def tf_eax_def)
  obtain pid call where "num_val pid = 7" "num_val call = 99"
    "syscall False 0 s = Ok True (s\<lparr>k_out := pid @ '' sh: unknown sys call '' @ call @ [NL], k_mem := store32 28 (-1) (k_mem s)\<rparr>)"
    using unknown_syscall [of s 0 99 False 0] s tf by auto
  then show ?thesis unfolding s_def [symmetric] by (intro exI [of _ pid] exI [of _ call] exI) auto
qed

end
