(* ===== verification/Text_Calls.thy ===== *)
theory Text_Calls
  imports Syscall_Spec
begin

text \<open>
  \<open>sys_uniq1\<close> and \<open>sys_head1\<close> of \<open>sysproc.c\<close>: the two text utilities moved into the kernel. Their local arrays are lists of
  bytes of the declared length; an index beyond it makes the call undefined. The numbers for these calls are commented out
  in \<open>syscall.h\<close>, so that the dispatcher does not reach them.
\<close>

section \<open>Strings in arrays\<close>

text \<open>The string in an array, cut at \<open>n\<close> bytes, and what the string routines do to local arrays.\<close>

definition arr_str :: "nat \<Rightarrow> u8 list \<Rightarrow> u8 list" where
  "arr_str n a = takeWhile (\<lambda>b. b \<noteq> 0) (take n a)"

definition strncpy_arr :: "u8 list \<Rightarrow> u8 list \<Rightarrow> nat \<Rightarrow> u8 list" where
  "strncpy_arr s t n = arr_str n t @ replicate (n - length (arr_str n t)) 0 @ drop n s"

definition strncmp_arr :: "u8 list \<Rightarrow> u8 list \<Rightarrow> nat \<Rightarrow> bool" where
  "strncmp_arr p q n \<longleftrightarrow> arr_str n p \<noteq> arr_str n q"

text \<open>These are the routines of \<open>string.c\<close>, for arrays that lie in memory.\<close>

lemma take_bytes: "n \<le> k \<Longrightarrow> take n (bytes m p k) = bytes m p n"
  by (simp add: bytes_def take_map)

lemma strncpy_arr_mem:
  assumes "disjoint_ranges s t n" and "length dst = n" and "n \<le> length src" and "n < 2 ^ 31" and "bytes m t (length src) = src"
  shows "bytes (strncpy s t (of_nat n) m) s n = strncpy_arr dst src n"
proof -
  have "sint (of_nat n :: u32) = int n" using assms(4) by (simp add: sint_u32_uint unsigned_of_nat take_bit_nat_eq_self)
  moreover have "bytes m t n = take n src" using assms(3,5) take_bytes [of n "length src" m t] by simp
  ultimately show ?thesis
    using strncpy_loop_eq [of n s t m] assms by (simp add: strncpy_def strncpy_arr_def arr_str_def cstr_bytes)
qed

lemma strncmp_arr_mem:
  assumes "bytes m p (length a) = a" and "bytes m q (length b) = b" and "n \<le> length a" and "n \<le> length b" and "n < 2 ^ 32"
  shows "strncmp p q (of_nat n) m \<noteq> 0 \<longleftrightarrow> strncmp_arr a b n"
proof -
  have "bytes m p n = take n a" "bytes m q n = take n b"
    using assms take_bytes [of n "length a" m p] take_bytes [of n "length b" m q] by simp_all
  then show ?thesis using assms(5) by (simp add: strncmp_def strncmp_loop_0 strncmp_arr_def arr_str_def cstr_bytes unat_of_nat_u32)
qed

definition chars_of :: "u8 list \<Rightarrow> string" where
  "chars_of bs = map (\<lambda>b. char_of (unat b)) bs"

text \<open>\<open>cprintf("%s", a)\<close>; an array without a NUL is read beyond its end.\<close>

definition print_arr :: "u8 list \<Rightarrow> 'z kstate_scheme \<Rightarrow> (unit, 'z kstate_scheme) res" where
  "print_arr a = (if 0 \<in> set a then cprintf ''%s'' [A_str (chars_of a)] else panic ''undefined'')"

section \<open>uniq1\<close>

record uniq_vars =
  uq_prev :: "u8 list"
  uq_cur :: "u8 list"
  uq_cmp :: "u8 list"
  uq_count :: u32
  uq_value :: nat

text \<open>The loop that turns \<open>cmpLine\<close> into lower case.\<close>

fun lower_loop :: "u8 list \<Rightarrow> u8 list" where
  "lower_loop [] = []"
| "lower_loop (c # cs) = (if c = 0 then c # cs else (if 65 \<le> c \<and> c \<le> 90 then c + 32 else c) # lower_loop cs)"

text \<open>What is done with a terminated line.\<close>

definition uniq_line :: "u32 \<Rightarrow> uniq_vars \<Rightarrow> 'z kstate_scheme \<Rightarrow> (uniq_vars, 'z kstate_scheme) res" where
  "uniq_line flag u =
     (if flag = 1 then
        (let c = lower_loop (strncpy_arr (uq_cmp u) (uq_cur u) 1000) in
         if strncmp_arr (uq_prev u) c 1000
         then thenM (print_arr (uq_cur u)) (retM (u\<lparr>uq_cmp := c, uq_prev := strncpy_arr (uq_prev u) c 1000\<rparr>))
         else retM (u\<lparr>uq_cmp := c\<rparr>))
      else if flag = 2 then
        (let prev = strncpy_arr (uq_prev u) (uq_cur u) 1000 in
         if \<not> strncmp_arr (uq_prev u) (uq_cur u) 1000
         then thenM (whenM (uq_count u + 1 = 1) (print_arr (uq_cur u)))
                (retM (u\<lparr>uq_count := uq_count u + 1, uq_prev := prev\<rparr>))
         else retM (u\<lparr>uq_count := 0, uq_prev := prev\<rparr>))
      else if flag = 3 then
        (let prev = strncpy_arr (uq_prev u) (uq_cur u) 1000 in
         if \<not> strncmp_arr (uq_prev u) (uq_cur u) 1000 \<or> \<not> strncmp_arr (uq_prev u) [0] 4
         then retM (u\<lparr>uq_count := uq_count u + 1, uq_prev := prev\<rparr>)
         else thenM (if 0 \<in> set (uq_cur u) then cprintf ''%d %s'' [A_int (uq_count u), A_str (chars_of (uq_cur u))]
                     else panic ''undefined'')
                (retM (u\<lparr>uq_count := 1, uq_prev := prev\<rparr>)))
      else if strncmp_arr (uq_cur u) (uq_prev u) 1000
      then thenM (print_arr (uq_cur u)) (retM (u\<lparr>uq_prev := strncpy_arr (uq_prev u) (uq_cur u) 1000\<rparr>))
      else retM u)"

text \<open>The loop over \<open>file\<close>. A line of 1000 bytes has its terminator written behind \<open>currentLine\<close>.\<close>

fun uniq_loop :: "u32 \<Rightarrow> u8 list \<Rightarrow> uniq_vars \<Rightarrow> 'z kstate_scheme \<Rightarrow> (uniq_vars, 'z kstate_scheme) res" where
  "uniq_loop flag [] u = retM u"
| "uniq_loop flag (c # cs) u =
     (if uq_value u \<ge> 1000 then panic ''undefined'' else
      let u = u\<lparr>uq_cur := (uq_cur u)[uq_value u := c], uq_value := uq_value u + 1\<rparr> in
      if c = 10
      then if uq_value u \<ge> 1000 then panic ''undefined'' else
           bindM (uniq_line flag (u\<lparr>uq_cur := (uq_cur u)[uq_value u := 0]\<rparr>)) (\<lambda>u.
           uniq_loop flag cs (u\<lparr>uq_value := 0\<rparr>))
      else uniq_loop flag cs u)"

definition uniq_init :: uniq_vars where
  "uniq_init = \<lparr>uq_prev = replicate 1000 0, uq_cur = replicate 1000 0, uq_cmp = replicate 1000 0, uq_count = 0, uq_value = 0\<rparr>"

definition sys_uniq1 :: "u8 list \<Rightarrow> 'z kproc_scheme \<Rightarrow> (u32, 'z kproc_scheme) res" where
  "sys_uniq1 junk =
     (let bad = thenM (cprintf ''unable to read the buffer'' []) (retM (-1)) in
      bindM (argstr 0) (\<lambda>b. case b of None \<Rightarrow> bad | Some buffer \<Rightarrow>
      bindM (argint 1) (\<lambda>f. case f of None \<Rightarrow> bad | Some flag \<Rightarrow>
      thenM (uniq_loop flag (strncpy_arr junk (buffer @ [0]) 1000) uniq_init) (retM 0))))"

section \<open>head1\<close>

text \<open>The loop over \<open>file1\<close>; \<open>j\<close> and \<open>lineCount\<close> are ints that stay below 501.\<close>

fun head_loop :: "u32 \<Rightarrow> u8 list \<Rightarrow> u8 list \<Rightarrow> nat \<Rightarrow> nat \<Rightarrow> 'z kstate_scheme \<Rightarrow> (unit, 'z kstate_scheme) res" where
  "head_loop textLines [] file2 j lineCount = retM ()"
| "head_loop textLines (c # cs) file2 j lineCount =
     (if j \<ge> 500 then panic ''undefined'' else
      let file2 = file2[j := c] in
      if c = 10
      then thenM (print_arr file2)
             (if of_nat (lineCount + 1) = textLines then retM ()
              else head_loop textLines cs (replicate 500 0) 0 (lineCount + 1))
      else if of_nat lineCount = textLines then retM ()
      else head_loop textLines cs file2 (j + 1) lineCount)"

definition sys_head1 :: "'z kproc_scheme \<Rightarrow> (u32, 'z kproc_scheme) res" where
  "sys_head1 =
     (let bad = thenM (cprintf ''unable to read the file'' []) (retM (-1)) in
      bindM (argstr 0) (\<lambda>b. case b of None \<Rightarrow> bad | Some buffer \<Rightarrow>
      bindM (argint 1) (\<lambda>f. case f of None \<Rightarrow> bad | Some textLines \<Rightarrow>
      thenM (head_loop textLines (strncpy_arr (replicate 500 0) (buffer @ [0]) 500) (replicate 500 0) 0 0) (retM 0))))"

section \<open>Lines and runs\<close>

text \<open>The complete lines of a text, each with its newline, \<open>q\<close> being the beginning of the first.\<close>

fun lines_of :: "u8 list \<Rightarrow> u8 list \<Rightarrow> u8 list list" where
  "lines_of q [] = []"
| "lines_of q (c # cs) = (if c = 10 then (q @ [10]) # lines_of [] cs else lines_of (q @ [c]) cs)"

text \<open>The runs of elements with equal keys: how many there are and the first of them.\<close>

fun runs :: "('a \<Rightarrow> 'b) \<Rightarrow> 'a list \<Rightarrow> (nat \<times> 'a) list" where
  "runs f [] = []"
| "runs f (x # xs) = (case runs f xs of [] \<Rightarrow> [(1, x)]
     | (n, y) # rs \<Rightarrow> if f x = f y then (Suc n, x) # rs else (1, x) # (n, y) # rs)"

text \<open>
  What \<open>sys_uniq1\<close> prints of the lines. With flag 3 every run but the last is announced by its length, followed by the first
  line of the \<^emph>\<open>next\<close> run.
\<close>

definition count_line :: "nat \<Rightarrow> u8 list \<Rightarrow> string" where
  "count_line n l = printint (of_nat n) 10 True @ '' '' @ chars_of l"

definition uniq_spec :: "u32 \<Rightarrow> u8 list list \<Rightarrow> string" where
  "uniq_spec flag ls =
     (if flag = 1 then concat (map (\<lambda>r. chars_of (snd r)) (runs lower_loop ls))
      else if flag = 2 then concat (map (\<lambda>r. chars_of (snd r)) (filter (\<lambda>r. 2 \<le> fst r) (runs (\<lambda>x. x) ls)))
      else if flag = 3 then concat (map2 (\<lambda>r r'. count_line (fst r) (snd r')) (runs (\<lambda>x. x) ls) (tl (runs (\<lambda>x. x) ls)))
      else concat (map (\<lambda>r. chars_of (snd r)) (runs (\<lambda>x. x) ls)))"

section \<open>Arrays that hold a string\<close>

text \<open>A string without NUL that fits an array of 1000 bytes, the rest of which is zero.\<close>

definition pad :: "u8 list \<Rightarrow> u8 list" where
  "pad l = l @ replicate (1000 - length l) 0"

lemma takeWhile_nul: "0 \<notin> set l \<Longrightarrow> takeWhile (\<lambda>b. b \<noteq> 0) (l @ 0 # r) = l"
  by (induction l) auto

lemma arr_str_upto_nul: "0 \<notin> set l \<Longrightarrow> length l < n \<Longrightarrow> arr_str n (l @ 0 # r) = l"
proof -
  assume l: "0 \<notin> set l" "length l < n"
  define k where "k = n - Suc (length l)"
  have "n = length l + Suc k" using l(2) by (simp add: k_def)
  then have "take n (l @ 0 # r) = l @ 0 # take k r" by simp
  then show ?thesis using takeWhile_nul [OF l(1)] by (simp add: arr_str_def)
qed

lemma pad_split: "length l < 1000 \<Longrightarrow> pad l = l @ 0 # replicate (999 - length l) 0"
proof -
  assume "length l < 1000"
  then have "1000 - length l = Suc (999 - length l)" by simp
  then show ?thesis unfolding pad_def by (simp only: replicate_Suc)
qed

lemma arr_str_pad [simp]: "0 \<notin> set l \<Longrightarrow> length l < 1000 \<Longrightarrow> arr_str 1000 (pad l) = l"
  by (simp add: pad_split arr_str_upto_nul)

lemma strncpy_pad: "arr_str 1000 t = l \<Longrightarrow> length s = 1000 \<Longrightarrow> strncpy_arr s t 1000 = pad l"
  by (simp add: strncpy_arr_def pad_def)

lemma lower_loop_props:
  shows "length (lower_loop l) = length l" and "0 \<notin> set l \<Longrightarrow> 0 \<notin> set (lower_loop l)"
    and "0 \<notin> set l \<Longrightarrow> lower_loop (l @ replicate k 0) = lower_loop l @ replicate k 0"
    and "lower_loop l = [] \<longleftrightarrow> l = []"
proof -
  show "length (lower_loop l) = length l" by (induction l) auto
  have "c + 32 \<noteq> 0" if "65 \<le> c" "c \<le> 90" for c :: u8
  proof -
    have "unat (c + 32) = unat c + 32" using that by (subst unat_word_ariths) (simp add: word_le_nat_alt)
    then show ?thesis by auto
  qed
  then show "0 \<notin> set l \<Longrightarrow> 0 \<notin> set (lower_loop l)" by (induction l) auto
  show "0 \<notin> set l \<Longrightarrow> lower_loop (l @ replicate k 0) = lower_loop l @ replicate k 0"
    by (induction l) (cases k, auto)
  show "lower_loop l = [] \<longleftrightarrow> l = []" by (cases l) auto
qed

lemma lower_pad: "0 \<notin> set l \<Longrightarrow> lower_loop (pad l) = pad (lower_loop l)"
  by (simp add: pad_def lower_loop_props)

lemma chars_of_upto_nul: "0 \<notin> set l \<Longrightarrow> takeWhile (\<lambda>ch. ch \<noteq> CHR 0x00) (chars_of (l @ 0 # r)) = chars_of l"
proof (induction l)
  case Nil
  then show ?case by (simp add: chars_of_def char_of_def)
next
  case (Cons b l)
  have "char_of (unat b) \<noteq> CHR 0x00"
  proof
    assume "char_of (unat b) = CHR 0x00"
    then have "of_char (char_of (unat b) :: char) = (0 :: nat)" by simp
    moreover have "unat b < 256" using unsigned_less [of b, where 'a = nat] by simp
    ultimately show False using Cons.prems by (simp add: unat_eq_0)
  qed
  then show ?case using Cons by (simp add: chars_of_def)
qed

lemma print_line:
  assumes "0 \<notin> set l" and "L_cons \<notin> k_held s"
  shows "print_arr (l @ 0 # r) s = Ok () (s\<lparr>k_out := k_out s @ chars_of l\<rparr>)"
  using assms(2) unfolding print_arr_def by (simp add: cprintf_run chars_of_upto_nul [OF assms(1)])

section \<open>One line\<close>

text \<open>The effect of a line \<open>l\<close> when \<open>p\<close> is the previous one and \<open>c\<close> the count: what is printed and the new values.\<close>

definition uniq_step :: "u32 \<Rightarrow> u8 list \<times> u32 \<Rightarrow> u8 list \<Rightarrow> string \<times> u8 list \<times> u32" where
  "uniq_step flag st l = (case st of (p, c) \<Rightarrow>
     if flag = 1 then (if p \<noteq> lower_loop l then (chars_of l, lower_loop l, c) else ([], p, c))
     else if flag = 2 then (if p = l then (if c + 1 = 1 then chars_of l else [], l, c + 1) else ([], l, 0))
     else if flag = 3 then (if p = l \<or> p = [] then ([], l, c + 1) else (printint c 10 True @ '' '' @ chars_of l, l, 1))
     else if l \<noteq> p then (chars_of l, l, c) else ([], p, c))"

definition uniq_inv :: "u8 list \<times> u32 \<Rightarrow> uniq_vars \<Rightarrow> bool" where
  "uniq_inv st u \<longleftrightarrow> uq_prev u = pad (fst st) \<and> uq_count u = snd st \<and> 0 \<notin> set (fst st) \<and> length (fst st) < 1000
     \<and> length (uq_cur u) = 1000 \<and> length (uq_cmp u) = 1000"

lemma strncmp_arr_empty: "0 \<notin> set p \<Longrightarrow> length p < 1000 \<Longrightarrow> strncmp_arr (pad p) [0] 4 \<longleftrightarrow> p \<noteq> []"
  by (cases p) (auto simp: strncmp_arr_def arr_str_def pad_def)

lemma uniq_line_run:
  assumes "uniq_inv (p, c) u" and "uq_cur u = l @ 0 # r" and "0 \<notin> set l" and "L_cons \<notin> k_held s"
  shows "\<exists>u'. uniq_line flag u s = Ok u' (s\<lparr>k_out := k_out s @ fst (uniq_step flag (p, c) l)\<rparr>)
    \<and> uniq_inv (snd (uniq_step flag (p, c) l)) u' \<and> uq_cur u' = uq_cur u"
proof -
  have len: "length l < 1000" using assms(1,2) by (auto simp: uniq_inv_def)
  have cur: "arr_str 1000 (uq_cur u) = l" using assms(2,3) len by (simp add: arr_str_upto_nul)
  have prev: "arr_str 1000 (uq_prev u) = p" using assms(1) by (simp add: uniq_inv_def)
  have lens: "length (uq_prev u) = 1000" "length (uq_cmp u) = 1000" using assms(1) by (auto simp: uniq_inv_def pad_def)
  have cmp: "lower_loop (strncpy_arr (uq_cmp u) (uq_cur u) 1000) = pad (lower_loop l)"
    using strncpy_pad [OF cur lens(2)] assms(3) by (simp add: lower_pad)
  have low: "0 \<notin> set (lower_loop l)" "length (lower_loop l) < 1000" using assms(3) len lower_loop_props(1,2) by auto
  then have cmp': "arr_str 1000 (pad (lower_loop l)) = lower_loop l" by simp
  have print: "print_arr (uq_cur u) s = Ok () (s\<lparr>k_out := k_out s @ chars_of l\<rparr>)"
    unfolding assms(2) by (rule print_line [OF assms(3,4)])
  have count: "cprintf ''%d %s'' [A_int x, A_str (chars_of (uq_cur u))] s
      = Ok () (s\<lparr>k_out := k_out s @ printint x 10 True @ '' '' @ chars_of l\<rparr>)" for x
    unfolding assms(2) by (intro cprintf_run [OF assms(4)]) (simp add: chars_of_upto_nul [OF assms(3)])
  have z: "0 \<in> set (uq_cur u)" using assms(2) by simp
  consider "flag = 1" | "flag = 2" | "flag = 3" | "flag \<noteq> 1" "flag \<noteq> 2" "flag \<noteq> 3" by blast
  then show ?thesis
  proof cases
    case 1
    then show ?thesis
      using assms(1) low cmp prev cmp' lens strncpy_pad [OF cmp' lens(1)] print
      by (simp add: uniq_line_def uniq_step_def Let_def strncmp_arr_def thenM_run uniq_inv_def pad_def)
  next
    case 2
    then show ?thesis
      using assms(1,3) len prev cur lens strncpy_pad [OF cur lens(1)] print
      by (simp add: uniq_line_def uniq_step_def Let_def strncmp_arr_def thenM_run uniq_inv_def)
  next
    case 3
    then show ?thesis
      using assms(1,3) len prev cur lens strncpy_pad [OF cur lens(1)] count z strncmp_arr_empty [of p]
      by (simp add: uniq_line_def uniq_step_def Let_def thenM_run uniq_inv_def strncmp_arr_def)
  next
    case 4
    then show ?thesis
      using assms(1,3) len prev cur lens strncpy_pad [OF cur lens(1)] print
      by (simp add: uniq_line_def uniq_step_def Let_def strncmp_arr_def thenM_run uniq_inv_def)
  qed
qed

section \<open>The whole text\<close>

fun uniq_run :: "u32 \<Rightarrow> u8 list \<times> u32 \<Rightarrow> u8 list list \<Rightarrow> string" where
  "uniq_run flag st [] = []"
| "uniq_run flag st (l # ls) = fst (uniq_step flag st l) @ uniq_run flag (snd (uniq_step flag st l)) ls"

lemma lines_of_props:
  "l \<in> set (lines_of q cs) \<Longrightarrow> 0 \<notin> set q \<Longrightarrow> 0 \<notin> set cs \<Longrightarrow> l \<noteq> [] \<and> 0 \<notin> set l \<and> length l \<le> length q + length cs"
  by (induction cs arbitrary: q) (auto split: if_split_asm, force+)

lemma lines_of_length: "length (lines_of q cs) \<le> length cs"
  by (induction cs arbitrary: q) (auto simp: le_SucI)

lemma take_update_next: "length q < length xs \<Longrightarrow> take (length q) xs = q \<Longrightarrow> take (Suc (length q)) (xs[length q := c]) = q @ [c]"
  by (simp add: take_Suc_conv_app_nth)

text \<open>The zeros behind the text contain no newline and print nothing.\<close>

lemma uniq_loop_zeros:
  "uq_value u + k \<le> 1000 \<Longrightarrow> \<exists>u'. uniq_loop flag (replicate k 0) u s = Ok u' s"
  by (induction k arbitrary: u) auto

lemma uniq_loop_run:
  assumes "uniq_inv st u" and "uq_value u = length q" and "take (length q) (uq_cur u) = q"
    and "0 \<notin> set q" and "0 \<notin> set cs" and "length q + length cs + k \<le> 1000" and "\<forall>l\<in>set (lines_of q cs). length l < 1000"
    and "L_cons \<notin> k_held s"
  shows "\<exists>u'. uniq_loop flag (cs @ replicate k 0) u s = Ok u' (s\<lparr>k_out := k_out s @ uniq_run flag st (lines_of q cs)\<rparr>)"
  using assms
proof (induction cs arbitrary: st u q s)
  case Nil
  then show ?case using uniq_loop_zeros [of u k flag s] by simp
next
  case (Cons c cs st u q s)
  let ?u = "u\<lparr>uq_cur := (uq_cur u)[length q := c], uq_value := length q + 1\<rparr>"
  have cur: "length (uq_cur u) = 1000" and q: "length q < 1000" using Cons.prems(1,6) by (auto simp: uniq_inv_def)
  have inv: "uniq_inv st ?u" using Cons.prems(1) by (simp add: uniq_inv_def)
  have tk: "take (length (q @ [c])) (uq_cur ?u) = q @ [c]" using take_update_next [of q "uq_cur u" c] cur q Cons.prems(3) by simp
  show ?case
  proof (cases "c = 10")
    case False
    then show ?thesis
      using Cons.IH [of st ?u "q @ [c]" s] inv tk Cons.prems q by (simp add: not_le [symmetric])
  next
    case True
    let ?v = "?u\<lparr>uq_cur := (uq_cur ?u)[length q + 1 := 0]\<rparr>"
    have l: "length q + 1 < 1000" using Cons.prems(7) True by simp
    have v: "uq_cur ?v = (q @ [10]) @ 0 # drop (length q + 2) (uq_cur ?v)"
      using tk True l cur id_take_nth_drop [of "length q + 1" "uq_cur ?v"] by simp
    have "uniq_inv st ?v" using inv by (simp add: uniq_inv_def)
    then obtain w where w: "uniq_line flag ?v s = Ok w (s\<lparr>k_out := k_out s @ fst (uniq_step flag st (q @ [10]))\<rparr>)"
        "uniq_inv (snd (uniq_step flag st (q @ [10]))) w"
      using uniq_line_run [of "fst st" "snd st" ?v "q @ [10]" _ s flag] v Cons.prems(4,8) by auto
    have "uniq_inv (snd (uniq_step flag st (q @ [10]))) (w\<lparr>uq_value := 0\<rparr>)" using w(2) by (simp add: uniq_inv_def)
    from Cons.IH [OF this, of "[]" "s\<lparr>k_out := k_out s @ fst (uniq_step flag st (q @ [10]))\<rparr>"]
    show ?thesis using w(1) True l q Cons.prems by (auto simp: bindM_run)
  qed
qed

section \<open>Runs\<close>

lemma runs_Cons: "runs f (x # xs) = (Suc (case runs f xs of [] \<Rightarrow> 0 | r # _ \<Rightarrow> if f x = f (snd r) then fst r else 0), x)
    # (case runs f xs of [] \<Rightarrow> [] | r # rs \<Rightarrow> if f x = f (snd r) then rs else r # rs)"
  by (auto split: list.split)

lemma hd_runs: "runs f (x # xs) = (fst (hd (runs f (x # xs))), x) # tl (runs f (x # xs))"
  by (simp only: runs_Cons) simp

lemma runs_step:
  "runs f (x # y # xs) = (if f x = f y then (Suc (fst (hd (runs f (y # xs)))), x) # tl (runs f (y # xs)) else (1, x) # runs f (y # xs))"
proof -
  obtain n rs where "runs f (y # xs) = (n, y) # rs" using hd_runs [of f y xs] by blast
  then show ?thesis using runs.simps(2) [of f x "y # xs"] by simp
qed

lemma runs_tl_key: "f x = f y \<Longrightarrow> tl (runs f (x # xs)) = tl (runs f (y # xs))"
  by (simp only: runs_Cons) simp

declare runs.simps [simp del]

lemma runs_Nil [simp]: "runs f [] = []" and runs_single [simp]: "runs f [x] = [(1, x)]"
  by (simp_all add: runs.simps)

abbreviation run_lines :: "(nat \<times> u8 list) list \<Rightarrow> string" where
  "run_lines rs \<equiv> concat (map (\<lambda>r. chars_of (snd r)) rs)"

abbreviation run_counts :: "(nat \<times> u8 list) list \<Rightarrow> string" where
  "run_counts rs \<equiv> concat (map2 (\<lambda>r r'. count_line (fst r) (snd r')) rs (tl rs))"

lemma run_lines_hd: "run_lines (runs f (x # xs)) = chars_of x @ run_lines (tl (runs f (x # xs)))"
  by (subst hd_runs) simp

lemma uniq_run_0:
  "flag \<noteq> 1 \<Longrightarrow> flag \<noteq> 2 \<Longrightarrow> flag \<noteq> 3 \<Longrightarrow> uniq_run flag (p, c) ls = run_lines (tl (runs (\<lambda>x. x) (p # ls)))"
proof (induction ls arbitrary: p)
  case (Cons l ls)
  then show ?case using run_lines_hd [of "\<lambda>x. x" l ls] by (auto simp: uniq_step_def runs_step)
qed simp

lemma uniq_run_1: "uniq_run 1 (lower_loop p, c) ls = run_lines (tl (runs lower_loop (p # ls)))"
proof (induction ls arbitrary: p)
  case (Cons l ls)
  then show ?case
    using run_lines_hd [of lower_loop l ls] runs_tl_key [of lower_loop p l ls] by (auto simp: uniq_step_def runs_step)
qed simp

lemma uniq_run_2:
  "k + length ls < 2 ^ 32 \<Longrightarrow> uniq_run 2 (p, of_nat k) ls
     = (if k = 0 \<and> 2 \<le> fst (hd (runs (\<lambda>x. x) (p # ls))) then chars_of p else []) @ run_lines (filter (\<lambda>r. 2 \<le> fst r) (tl (runs (\<lambda>x. x) (p # ls))))"
proof (induction ls arbitrary: p k)
  case (Cons l ls)
  have one: "of_nat k + 1 = (1 :: u32) \<longleftrightarrow> k = 0" using Cons.prems unat_of_nat_u32 [of k] by auto
  obtain n rs where r: "runs (\<lambda>x. x) (l # ls) = (n, l) # rs" using hd_runs [of "\<lambda>x. x" l ls] by blast
  have n: "1 \<le> n" using r by (simp add: runs_Cons)
  show ?case
  proof (cases "p = l")
    case True
    then show ?thesis using Cons.IH [of "Suc k" p] Cons.prems one r n by (simp add: uniq_step_def runs_step add.commute)
  next
    case False
    then show ?thesis using Cons.IH [of 0 l] Cons.prems r n by (simp add: uniq_step_def runs_step)
  qed
qed simp

lemma uniq_run_3:
  "p \<noteq> [] \<Longrightarrow> [] \<notin> set ls \<Longrightarrow> uniq_run 3 (p, of_nat (Suc k)) ls = run_counts ((k + fst (hd (runs (\<lambda>x. x) (p # ls))), p) # tl (runs (\<lambda>x. x) (p # ls)))"
proof (induction ls arbitrary: p k)
  case (Cons l ls)
  obtain n rs where r: "runs (\<lambda>x. x) (l # ls) = (n, l) # rs" using hd_runs [of "\<lambda>x. x" l ls] by blast
  show ?case
  proof (cases "p = l")
    case True
    then show ?thesis using Cons.IH [of p "Suc k"] Cons.prems r by (simp add: uniq_step_def runs_step add.commute)
  next
    case False
    then show ?thesis using Cons.IH [of l 0] Cons.prems r by (auto simp: uniq_step_def runs_step count_line_def add.commute)
  qed
qed simp

lemma uniq_run_spec:
  assumes "\<forall>l\<in>set ls. l \<noteq> []" and "length ls < 2 ^ 32"
  shows "uniq_run flag ([], 0) ls = uniq_spec flag ls"
proof (cases ls)
  case Nil
  then show ?thesis by (simp add: uniq_spec_def)
next
  case (Cons l ls')
  have e: "lower_loop [] = []" by simp
  have ne: "l \<noteq> []" using assms(1) Cons by simp
  consider "flag = 1" | "flag = 2" | "flag = 3" | "flag \<noteq> 1" "flag \<noteq> 2" "flag \<noteq> 3" by blast
  then show ?thesis
  proof cases
    case 1
    then show ?thesis using uniq_run_1 [of "[]" 0 ls] Cons ne by (simp add: uniq_spec_def runs_step lower_loop_props(4) eq_commute [of "[]"])
  next
    case 2
    then show ?thesis using uniq_run_2 [of 0 ls "[]"] assms(2) Cons ne by (simp add: uniq_spec_def runs_step)
  next
    case 3
    then show ?thesis
      using uniq_run_3 [of l ls' 0] assms(1) Cons ne hd_runs [of "\<lambda>x. x" l ls'] by (auto simp: uniq_spec_def uniq_step_def)
  next
    case 4
    then show ?thesis using uniq_run_0 [of flag "[]" 0 ls] Cons ne by (simp add: uniq_spec_def runs_step)
  qed
qed

section \<open>The calls\<close>

lemma strncpy_arr_text:
  assumes "0 \<notin> set bs" and "length junk = n"
  shows "strncpy_arr junk (bs @ [0]) n = take n bs @ replicate (n - length bs) 0"
proof -
  have tw: "takeWhile (\<lambda>b. b \<noteq> 0) (take n (bs @ [0])) = take n bs"
  proof (cases "n \<le> length bs")
    case True
    then show ?thesis using assms(1) by (auto simp: takeWhile_eq_all_conv dest: in_set_takeD)
  next
    case False
    then have "take n (bs @ [0]) = bs @ [0]" "take n bs = bs" by simp_all
    then show ?thesis using assms(1) takeWhile_nul [of bs "[]"] by (simp only: not_False_eq_True)
  qed
  show ?thesis unfolding strncpy_arr_def arr_str_def tw using assms(2) by (cases "n \<le> length bs") simp_all
qed

lemma length_take_pad: "length (take n bs) + (n - length bs) = n"
  by (simp add: min_def)

text \<open>
  \<open>sys_uniq1\<close> looks at the complete lines among the first 1000 bytes of the text and prints: without a flag one line of each
  run of equal lines; with flag 1 the first line of each run of lines that are equal in lower case; with flag 2 one line of each run
  of at least two. With flag 3 the length of a run is printed when the next run begins, before the first line of that
  \<^emph>\<open>next\<close> run, and the last run is not printed. Nothing else changes, and 0 is returned.
\<close>
theorem uniq1_outcome:
  assumes "argstr 0 s = Ok (Some bs) s" and "argint 1 s = Ok (Some flag) s" and "0 \<notin> set bs" and "L_cons \<notin> k_held s"
    and "length junk = 1000" and "\<forall>l\<in>set (lines_of [] (take 1000 bs)). length l < 1000"
  shows "sys_uniq1 junk s = Ok 0 (s\<lparr>k_out := k_out s @ uniq_spec flag (lines_of [] (take 1000 bs))\<rparr>)"
proof -
  let ?cs = "take 1000 bs"
  have z: "0 \<notin> set ?cs" using assms(3) by (auto dest: in_set_takeD)
  have inv: "uniq_inv ([], 0) uniq_init" by (simp add: uniq_inv_def uniq_init_def pad_def)
  obtain u where u: "uniq_loop flag (?cs @ replicate (1000 - length bs) 0) uniq_init s
      = Ok u (s\<lparr>k_out := k_out s @ uniq_run flag ([], 0) (lines_of [] ?cs)\<rparr>)"
    using uniq_loop_run [OF inv, of "[]" ?cs "1000 - length bs" s flag] z assms(4,6) length_take_pad [of 1000 bs]
    by (simp only: list.size add_0 take0 empty_set) (auto simp: uniq_init_def)
  have "length (lines_of [] ?cs) \<le> 1000" using lines_of_length [of "[]" ?cs] by simp
  moreover have "\<forall>l\<in>set (lines_of [] ?cs). l \<noteq> []" using lines_of_props [of _ "[]" ?cs] z by auto
  ultimately have "uniq_run flag ([], 0) (lines_of [] ?cs) = uniq_spec flag (lines_of [] ?cs)" by (intro uniq_run_spec) auto
  then show ?thesis
    using assms(1,2) u strncpy_arr_text [OF assms(3,5)] by (simp add: sys_uniq1_def Let_def bindM_run thenM_run)
qed

text \<open>
  A first line of 1000 bytes, its newline included, makes \<open>sys_uniq1\<close> write the terminating NUL behind \<open>currentLine\<close>: the call
  is undefined whatever the flag is.
\<close>
lemma uniq1_overflow:
  assumes "argstr 0 s = Ok (Some (replicate 999 c @ 10 # bs)) s" and "argint 1 s = Ok (Some flag) s" and "c \<noteq> 0" "c \<noteq> 10"
    and "0 \<notin> set bs" and "length junk = 1000"
  shows "sys_uniq1 junk s = Panic ''undefined''"
proof -
  have loop: "uniq_loop flag (replicate k c @ [10]) u s = Panic ''undefined''" if "uq_value u + k = 999" for k u
    using that assms(4) by (induction k arbitrary: u) auto
  have "0 \<notin> set (replicate 999 c @ 10 # bs)" using assms(3,5) by auto
  then have "strncpy_arr junk ((replicate 999 c @ 10 # bs) @ [0]) 1000 = replicate 999 c @ [10]"
    using strncpy_arr_text [OF _ assms(6), of "replicate 999 c @ 10 # bs"] by simp
  then show ?thesis
    using assms(1,2) loop [of uniq_init 999] by (simp add: sys_uniq1_def Let_def bindM_run thenM_run uniq_init_def)
qed

text \<open>What \<open>sys_head1\<close> prints of the lines: the first \<open>n\<close> when that is positive, and all of them when it is negative.\<close>

definition head_spec :: "u32 \<Rightarrow> u8 list \<Rightarrow> string" where
  "head_spec n bs = (let ls = lines_of [] (take 500 bs) in
     if n = 0 then (if take 1 bs = [10] then concat (map chars_of ls) else [])
     else concat (map chars_of (take (unat n) ls)))"

lemma head_loop_zeros:
  "j + k \<le> 500 \<Longrightarrow> head_loop n (replicate k 0) f j m s = Ok () s"
  by (induction k arbitrary: j f) (auto simp: Let_def)

lemma head_loop_run:
  assumes "n - of_nat m \<noteq> 0" and "0 \<notin> set q" and "0 \<notin> set cs" and "length q + length cs + k \<le> 500"
    and "\<forall>l\<in>set (lines_of q cs). length l < 500" and "L_cons \<notin> k_held s"
  shows "head_loop n (cs @ replicate k 0) (q @ replicate (500 - length q) 0) (length q) m s
    = Ok () (s\<lparr>k_out := k_out s @ concat (map chars_of (take (unat (n - of_nat m)) (lines_of q cs)))\<rparr>)"
  using assms
proof (induction cs arbitrary: q m s)
  case Nil
  then show ?case using head_loop_zeros [of "length q" k] by simp
next
  case (Cons c cs q m s)
  have q: "length q < 500" using Cons.prems(4) by simp
  then have "500 - length q = Suc (499 - length q)" by simp
  then have upd: "(q @ replicate (500 - length q) 0)[length q := c] = (q @ [c]) @ replicate (500 - length (q @ [c])) 0"
    by (simp add: list_update_append)
  show ?case
  proof (cases "c = 10")
    case False
    then show ?thesis using Cons.IH [of m "q @ [c]" s] Cons.prems q by (simp add: upd Let_def del: append_assoc)
  next
    case True
    have l: "length q + 1 < 500" using Cons.prems(5) True by simp
    then have "500 - length (q @ [c]) = Suc (498 - length q)" by simp
    then have print: "print_arr ((q @ [c]) @ replicate (500 - length (q @ [c])) 0) s = Ok () (s\<lparr>k_out := k_out s @ chars_of (q @ [10])\<rparr>)"
      using print_line [of "q @ [10]" s "replicate (498 - length q) 0"] True Cons.prems(2,6) by simp
    let ?w = "n - of_nat m"
    have w: "unat ?w = Suc (unat (?w - 1))" using Cons.prems(1) by (simp add: unat_minus_one unat_gt_0 Suc_pred')
    have w1: "n - (1 + of_nat m) = ?w - 1" by (simp add: algebra_simps)
    show ?thesis
    proof (cases "?w - 1 = 0")
      case last: True
      then have "of_nat (m + 1) = n" by (simp add: algebra_simps)
      then show ?thesis using True q print upd last w by (simp add: Let_def thenM_run del: append_assoc)
    next
      case False
      then have "of_nat (m + 1) \<noteq> n" by (auto simp: algebra_simps)
      then show ?thesis
        using Cons.IH [of "m + 1" "[]" "s\<lparr>k_out := k_out s @ chars_of (q @ [10])\<rparr>"] False True q print upd w w1 Cons.prems
        by (simp add: Let_def thenM_run del: append_assoc)
    qed
  qed
qed

text \<open>
  \<open>sys_head1\<close> prints the first \<open>n\<close> complete lines among the first 500 bytes of the text, all of them for a negative \<open>n\<close>, and
  changes nothing else. For \<open>n = 0\<close> it prints nothing, unless the text begins with an empty line: then it prints all of them.
\<close>
theorem head1_outcome:
  assumes "argstr 0 s = Ok (Some bs) s" and "argint 1 s = Ok (Some n) s" and "0 \<notin> set bs" and "L_cons \<notin> k_held s"
    and "\<forall>l\<in>set (lines_of [] (take 500 bs)). length l < 500"
  shows "sys_head1 s = Ok 0 (s\<lparr>k_out := k_out s @ head_spec n bs\<rparr>)"
proof -
  let ?cs = "take 500 bs" and ?k = "500 - length bs"
  have z: "0 \<notin> set ?cs" using assms(3) by (auto dest: in_set_takeD)
  have r: "replicate 500 x = x # replicate 499 x" "replicate 499 x = x # replicate 498 x" for x :: u8
    using replicate_Suc [of 499 x] replicate_Suc [of 498 x] by simp_all
  have "head_loop n (?cs @ replicate ?k 0) (replicate 500 0) 0 0 s = Ok () (s\<lparr>k_out := k_out s @ head_spec n bs\<rparr>)"
  proof (cases "n = 0")
    case False
    then show ?thesis
      using head_loop_run [of n 0 "[]" ?cs ?k s] z assms(4,5) length_take_pad [of 500 bs] by (simp add: head_spec_def Let_def)
  next
    case zero: True
    show ?thesis
    proof (cases bs)
      case Nil
      then show ?thesis using zero by (simp add: r(1) head_spec_def Let_def)
    next
      case (Cons b cs)
      have t: "?cs = b # take 499 cs" using Cons by (simp add: take_Cons')
      show ?thesis
      proof (cases "b = 10")
        case False
        then show ?thesis using zero Cons t by (simp add: head_spec_def Let_def)
      next
        case True
        have len: "length (take 499 cs) + ?k \<le> 500" using Cons by simp
        have "length (lines_of [] (take 499 cs)) \<le> 499" using lines_of_length [of "[]" "take 499 cs"] by simp
        moreover have "unat (0 - 1 :: u32) = 4294967295" by (simp add: unsigned_minus_1_eq_mask mask_eq_exp_minus_1)
        ultimately have all: "take (unat (0 - 1 :: u32)) (lines_of [] (take 499 cs)) = lines_of [] (take 499 cs)" by simp
        have print: "print_arr ((replicate 500 0)[0 := 10]) s = Ok () (s\<lparr>k_out := k_out s @ chars_of [10]\<rparr>)"
          using print_line [of "[10]" s "replicate 498 0"] assms(4) by (simp add: r)
        have "head_loop n (take 499 cs @ replicate ?k 0) (replicate 500 0) 0 1 (s\<lparr>k_out := k_out s @ chars_of [10]\<rparr>)
            = Ok () (s\<lparr>k_out := k_out s @ chars_of [10] @ concat (map chars_of (lines_of [] (take 499 cs)))\<rparr>)"
          using head_loop_run [of n 1 "[]" "take 499 cs" ?k "s\<lparr>k_out := k_out s @ chars_of [10]\<rparr>"] zero z t assms(4,5) len all True
          by simp
        then show ?thesis using True zero Cons t print by (simp add: head_spec_def Let_def thenM_run)
      qed
    qed
  qed
  then show ?thesis
    using assms(1,2) strncpy_arr_text [OF assms(3), of "replicate 500 0" 500] by (simp add: sys_head1_def Let_def bindM_run thenM_run)
qed

section \<open>Witnesses\<close>

text \<open>The process of \<open>demo_user\<close> with a call of two arguments: 32, where there is a text, and \<open>x\<close>.\<close>

primrec put_text :: "u32 \<Rightarrow> u8 list \<Rightarrow> mem \<Rightarrow> mem" where
  "put_text a [] m = m"
| "put_text a (b # bs) m = (put_text (a + 1) bs m)(a := b)"

definition demo_call :: "u8 list \<Rightarrow> u32 \<Rightarrow> kproc" where
  "demo_call bs x = (demo [(proc_at RUNNING 0 0)\<lparr>p_sz := 4096, p_tf := 0x80403000\<rparr>])\<lparr>cpuproc := Some 0, k_cr3 := 0x401000,
     k_mem := put_text 0x80400020 bs (store32 (0x80403000 + tf_esp) 8 (store32 0x8040000C 32 (store32 0x80400010 x
        (store32 0x80401000 0x402007 (store32 0x80402000 0x400007 (\<lambda>_. 0))))))\<rparr>"

lemma demo_lines:
  "argstr 0 (demo_call [97, 10, 98, 10] 3) = Ok (Some [97, 10, 98, 10]) (demo_call [97, 10, 98, 10] 3)" (is "argstr 0 ?s = _")
  "argint 1 (demo_call [97, 10, 98, 10] 3) = Ok (Some 3) (demo_call [97, 10, 98, 10] 3)"
proof -
  note mem = demo_call_def load32_def store32_def le32_def byte_of_def tf_esp_def
  have "translate (k_mem ?s) 0x80401000 a = Some (0x80400000 + (a AND 0xFFF))" if "PDX a = 0" "PTX a = 0" for a
    using that by (simp add: mem translate_def PTE_P_def PTE_ADDR_def P2V_def KERNBASE_def)
  then have v: "vload8 a ?s = Ok (k_mem ?s (0x80400000 + (a AND 0xFFF))) ?s" if "PDX a = 0" "PTX a = 0" "a < 0x80000000" for a
    using that by (simp add: vload8_def vaddr_def P2V_def KERNBASE_def demo_call_def not_le [symmetric])
  have c: "cpuproc ?s = Some 0" "p_sz (procs ?s ! 0) = 4096" "p_tf (procs ?s ! 0) = 0x80403000" by (simp_all add: demo_call_def)
  have esp: "load32 (k_mem ?s) (0x80403000 + tf_esp) = 8" by (simp add: mem)
  have int: "fetchint 12 ?s = Ok (Some 32) ?s" "fetchint 16 ?s = Ok (Some 3) ?s"
    by (simp_all add: fetchint_def bindM_run curproc_def c vload32_def v PDX_def PTX_def) (simp_all add: mem)
  then have a: "argint 0 ?s = Ok (Some 32) ?s" "argint 1 ?s = Ok (Some 3) ?s"
    by (simp_all add: argint_def bindM_run curproc_def c peek_def esp)
  show "argint 1 ?s = Ok (Some 3) ?s" by (rule a)
  have f: "fetchstr_loop (Suc (Suc (Suc (Suc (Suc n))))) 32 ?s = Ok (Some [97, 10, 98, 10]) ?s" for n
    by (simp add: bindM_run v PDX_def PTX_def) (simp add: mem bindM_run)
  show "argstr 0 ?s = Ok (Some [97, 10, 98, 10]) ?s"
    using a f [of 4059] by (simp add: argstr_def fetchstr_def bindM_run curproc_def c)
qed

lemma demo_head:
  "argstr 0 (demo_call [10, 97, 10] 0) = Ok (Some [10, 97, 10]) (demo_call [10, 97, 10] 0)" (is "argstr 0 ?s = _")
  "argint 1 (demo_call [10, 97, 10] 0) = Ok (Some 0) (demo_call [10, 97, 10] 0)"
proof -
  note mem = demo_call_def load32_def store32_def le32_def byte_of_def tf_esp_def
  have "translate (k_mem ?s) 0x80401000 a = Some (0x80400000 + (a AND 0xFFF))" if "PDX a = 0" "PTX a = 0" for a
    using that by (simp add: mem translate_def PTE_P_def PTE_ADDR_def P2V_def KERNBASE_def)
  then have v: "vload8 a ?s = Ok (k_mem ?s (0x80400000 + (a AND 0xFFF))) ?s" if "PDX a = 0" "PTX a = 0" "a < 0x80000000" for a
    using that by (simp add: vload8_def vaddr_def P2V_def KERNBASE_def demo_call_def not_le [symmetric])
  have c: "cpuproc ?s = Some 0" "p_sz (procs ?s ! 0) = 4096" "p_tf (procs ?s ! 0) = 0x80403000" by (simp_all add: demo_call_def)
  have esp: "load32 (k_mem ?s) (0x80403000 + tf_esp) = 8" by (simp add: mem)
  have int: "fetchint 12 ?s = Ok (Some 32) ?s" "fetchint 16 ?s = Ok (Some 0) ?s"
    by (simp_all add: fetchint_def bindM_run curproc_def c vload32_def v PDX_def PTX_def) (simp_all add: mem)
  then have a: "argint 0 ?s = Ok (Some 32) ?s" "argint 1 ?s = Ok (Some 0) ?s"
    by (simp_all add: argint_def bindM_run curproc_def c peek_def esp)
  show "argint 1 ?s = Ok (Some 0) ?s" by (rule a)
  have f: "fetchstr_loop (Suc (Suc (Suc (Suc (Suc n))))) 32 ?s = Ok (Some [10, 97, 10]) ?s" for n
    by (simp add: bindM_run v PDX_def PTX_def) (simp add: mem bindM_run)
  show "argstr 0 ?s = Ok (Some [10, 97, 10]) ?s"
    using a f [of 4059] by (simp add: argstr_def fetchstr_def bindM_run curproc_def c)
qed

text \<open>The text \<open>a b\<close> with flag 3: the length of the first run is printed before the second line, and \<open>a\<close> never.\<close>

theorem uniq1_outcome_witness:
  "\<exists>s :: kproc. sys_uniq1 (replicate 1000 7) s = Ok 0 (s\<lparr>k_out := k_out s @ ''1 b'' @ [CHR 0x0A]\<rparr>)"
proof -
  let ?bs = "[97, 10, 98, 10] :: u8 list"
  have a: "argstr 0 (demo_call ?bs 3) = Ok (Some ?bs) (demo_call ?bs 3)" "argint 1 (demo_call ?bs 3) = Ok (Some 3) (demo_call ?bs 3)"
    by (rule demo_lines)+
  have "uniq_spec 3 (lines_of [] (take 1000 ?bs)) = ''1 b'' @ [CHR 0x0A]" by code_simp
  moreover have "\<forall>l\<in>set (lines_of [] (take 1000 ?bs)). length l < 1000" by simp
  moreover have "L_cons \<notin> k_held (demo_call ?bs 3)" by (simp add: demo_call_def demo_def boot_def)
  ultimately have "sys_uniq1 (replicate 1000 7) (demo_call ?bs 3)
      = Ok 0 ((demo_call ?bs 3)\<lparr>k_out := k_out (demo_call ?bs 3) @ ''1 b'' @ [CHR 0x0A]\<rparr>)"
    using uniq1_outcome [OF a, of "replicate 1000 7"] by simp
  then show ?thesis by blast
qed

theorem head1_outcome_witness:
  "\<exists>s :: kproc. sys_head1 s = Ok 0 (s\<lparr>k_out := k_out s @ [CHR 0x0A, CHR ''a'', CHR 0x0A]\<rparr>)"
proof -
  let ?bs = "[10, 97, 10] :: u8 list"
  have a: "argstr 0 (demo_call ?bs 0) = Ok (Some ?bs) (demo_call ?bs 0)" "argint 1 (demo_call ?bs 0) = Ok (Some 0) (demo_call ?bs 0)"
    by (rule demo_head)+
  have "head_spec 0 ?bs = [CHR 0x0A, CHR ''a'', CHR 0x0A]" by code_simp
  moreover have "\<forall>l\<in>set (lines_of [] (take 500 ?bs)). length l < 500" by simp
  moreover have "L_cons \<notin> k_held (demo_call ?bs 0)" by (simp add: demo_call_def demo_def boot_def)
  ultimately have "sys_head1 (demo_call ?bs 0) = Ok 0 ((demo_call ?bs 0)\<lparr>k_out := k_out (demo_call ?bs 0) @ [CHR 0x0A, CHR ''a'', CHR 0x0A]\<rparr>)"
    using head1_outcome [OF a] by simp
  then show ?thesis by blast
qed

end
