(* ===== verification/Grep.thy ===== *)
theory Grep
  imports Text_Calls
begin

text \<open>
  \<open>grep.c\<close>: the regular expression matcher, and the loop that looks for matching lines in what \<open>read\<close> delivers. Strings are the
  bytes before their NUL. The matcher is compared with the set of strings that a pattern denotes.
\<close>

section \<open>The matcher\<close>

function (sequential) matchhere :: "u8 list \<Rightarrow> u8 list \<Rightarrow> bool" and matchstar :: "u8 \<Rightarrow> u8 list \<Rightarrow> u8 list \<Rightarrow> bool" where
  "matchhere [] text = True"
| "matchhere (c # re) text =
     (if re \<noteq> [] \<and> hd re = 42 then matchstar c (tl re) text
      else if c = 36 \<and> re = [] then text = []
      else case text of [] \<Rightarrow> False | x # xs \<Rightarrow> (c = 46 \<or> c = x) \<and> matchhere re xs)"
| "matchstar c re text =
     (matchhere re text \<or> (case text of [] \<Rightarrow> False | x # xs \<Rightarrow> (x = c \<or> c = 46) \<and> matchstar c re xs))"
  by pat_completeness auto

termination
  by (relation "measures [\<lambda>x. case x of Inl (re, t) \<Rightarrow> 2 * length re | Inr (c, re, t) \<Rightarrow> 2 * length re + 1,
      \<lambda>x. case x of Inl (re, t) \<Rightarrow> length t | Inr (c, re, t) \<Rightarrow> length t]")
    (auto simp: neq_Nil_conv)

declare matchhere.simps [simp del] matchstar.simps [simp del]

fun match_loop :: "u8 list \<Rightarrow> u8 list \<Rightarrow> bool" where
  "match_loop re [] = matchhere re []"
| "match_loop re (x # text) = (matchhere re (x # text) \<or> match_loop re text)"

definition match :: "u8 list \<Rightarrow> u8 list \<Rightarrow> bool" where
  "match re text = (if re \<noteq> [] \<and> hd re = 94 then matchhere (tl re) text else match_loop re text)"

section \<open>What a pattern denotes\<close>

datatype item = One u8 | Star u8

text \<open>The items of a pattern after \<open>^\<close>, and whether it ends with the anchor \<open>$\<close>.\<close>

fun parse :: "u8 list \<Rightarrow> item list \<times> bool" where
  "parse [] = ([], False)"
| "parse [c] = (if c = 36 then ([], True) else ([One c], False))"
| "parse (c # d # re) = (if d = 42 then (let (is, e) = parse re in (Star c # is, e)) else (let (is, e) = parse (d # re) in (One c # is, e)))"

definition sym :: "u8 \<Rightarrow> u8 \<Rightarrow> bool" where
  "sym c x \<longleftrightarrow> c = 46 \<or> c = x"

primrec lang :: "item list \<Rightarrow> u8 list set" where
  "lang [] = {[]}"
| "lang (i # is) = (case i of One c \<Rightarrow> {x # w | x w. sym c x \<and> w \<in> lang is}
     | Star c \<Rightarrow> {u @ w | u w. (\<forall>x\<in>set u. sym c x) \<and> w \<in> lang is})"

text \<open>A text begins with a string of the pattern, which is all of it if the pattern is anchored at the end.\<close>

definition prefix_match :: "item list \<times> bool \<Rightarrow> u8 list \<Rightarrow> bool" where
  "prefix_match p text \<longleftrightarrow> (\<exists>w v. text = w @ v \<and> w \<in> lang (fst p) \<and> (snd p \<longrightarrow> v = []))"

lemma prefix_matchI: "w \<in> lang is \<Longrightarrow> (e \<longrightarrow> v = []) \<Longrightarrow> prefix_match (is, e) (w @ v)"
  by (auto simp: prefix_match_def)

lemma prefix_matchE:
  assumes "prefix_match (is, e) text"
  obtains w v where "text = w @ v" "w \<in> lang is" "e \<longrightarrow> v = []"
  using assms by (auto simp: prefix_match_def)

lemma prefix_matchI': "text \<in> lang is \<Longrightarrow> prefix_match (is, e) text"
  using prefix_matchI [of "text" "is" e "[]"] by simp

lemma prefix_match_One:
  "prefix_match (One c # is, e) text \<longleftrightarrow> (case text of [] \<Rightarrow> False | x # xs \<Rightarrow> sym c x \<and> prefix_match (is, e) xs)" (is "?L \<longleftrightarrow> ?R")
proof
  assume ?L
  then show ?R by (rule prefix_matchE) (auto intro: prefix_matchI prefix_matchI')
next
  assume ?R
  then obtain x xs where x: "text = x # xs" "sym c x" "prefix_match (is, e) xs" by (auto split: list.splits)
  from x(3) obtain w v where "xs = w @ v" "w \<in> lang is" "e \<longrightarrow> v = []" by (rule prefix_matchE)
  with x show ?L using prefix_matchI [of "x # w" "One c # is" e v] by simp
qed

lemma prefix_match_Star:
  "prefix_match (Star c # is, e) text \<longleftrightarrow>
     prefix_match (is, e) text \<or> (case text of [] \<Rightarrow> False | x # xs \<Rightarrow> sym c x \<and> prefix_match (Star c # is, e) xs)" (is "?L \<longleftrightarrow> ?A \<or> ?B")
proof
  assume ?L
  then obtain u w v where u: "text = (u @ w) @ v" "\<forall>x\<in>set u. sym c x" "w \<in> lang is" "e \<longrightarrow> v = []"
    by (elim prefix_matchE) (auto simp flip: append_assoc)
  show "?A \<or> ?B"
  proof (cases u)
    case Nil
    then show ?thesis using u by (auto intro: prefix_matchI)
  next
    case (Cons x u')
    then have "u' @ w \<in> lang (Star c # is)" using u by auto
    then have "prefix_match (Star c # is, e) ((u' @ w) @ v)" using u(4) by (rule prefix_matchI)
    then show ?thesis using u Cons by simp
  qed
next
  assume "?A \<or> ?B"
  then show ?L
  proof
    assume ?A
    then obtain w v where w: "text = w @ v" "w \<in> lang is" "e \<longrightarrow> v = []" by (rule prefix_matchE)
    then have "w \<in> lang (Star c # is)" by (auto intro: exI [of _ "[]"])
    then show ?L unfolding w(1) using w(3) by (rule prefix_matchI)
  next
    assume ?B
    then obtain x t where t: "text = x # t" "sym c x" "prefix_match (Star c # is, e) t" by (auto split: list.splits)
    then obtain u w v where u: "t = (u @ w) @ v" "\<forall>x\<in>set u. sym c x" "w \<in> lang is" "e \<longrightarrow> v = []"
      by (elim prefix_matchE) (auto simp flip: append_assoc)
    have "x # u @ w = (x # u) @ w" "\<forall>y\<in>set (x # u). sym c y" using u(2) t(2) by simp_all
    then have "x # u @ w \<in> lang (Star c # is)" using u(3) unfolding lang.simps item.case by blast
    then show ?L unfolding t(1) u(1) using prefix_matchI [of "x # u @ w" _ e v] u(4) by simp
  qed
qed

lemma matcher_correct:
  "matchhere re text \<longleftrightarrow> prefix_match (parse re) text"
  "matchstar c re text \<longleftrightarrow> prefix_match (Star c # fst (parse re), snd (parse re)) text"
proof (induction re "text" and c re "text" rule: matchhere_matchstar.induct)
  case (1 "text")
  then show ?case using prefix_matchI [of "[]" "[]" False "text"] by (simp add: matchhere.simps)
next
  case (2 c re "text")
  show ?case
  proof (cases re)
    case Nil
    have "prefix_match ([], True) text \<longleftrightarrow> text = []" "prefix_match ([], False) text" for "text"
      by (auto simp: prefix_match_def)
    then show ?thesis using 2(2) Nil by (auto simp: matchhere.simps prefix_match_One sym_def split: list.splits)
  next
    case (Cons d re')
    then show ?thesis
      using 2 by (cases "d = 42") (auto simp: matchhere.simps prefix_match_One sym_def split: prod.split list.split)
  qed
next
  case (3 c re "text")
  then show ?case
    using prefix_match_Star [of c "fst (parse re)" "snd (parse re)" "text"] by (auto simp: matchstar.simps sym_def split: list.split)
qed

lemma match_loop_suffix: "match_loop re text \<longleftrightarrow> (\<exists>u t. text = u @ t \<and> matchhere re t)"
proof (induction "text")
  case (Cons x "text")
  then show ?case by (auto simp: Cons_eq_append_conv)
qed simp

text \<open>
  C32: \<open>match\<close> finds exactly the texts that contain a string denoted by the pattern: characters stand for themselves, \<open>.\<close> for any
  character, \<open>*\<close> after a character for any number of them, at the beginning of the text if the pattern starts with \<open>^\<close>
  and at its end if it ends with \<open>$\<close>. In particular the backtracking search always ends.
\<close>
theorem match_denotes:
  "match re text \<longleftrightarrow> (let start = re \<noteq> [] \<and> hd re = 94; p = parse (if start then tl re else re) in
     \<exists>u w v. text = u @ w @ v \<and> w \<in> lang (fst p) \<and> (start \<longrightarrow> u = []) \<and> (snd p \<longrightarrow> v = []))"
  unfolding match_def Let_def match_loop_suffix matcher_correct prefix_match_def by auto

text \<open>\<open>a.\<close> is found in \<open>xab\<close>, and \<open>^a\<close> is not.\<close>

theorem match_denotes_witness: "match [97, 46] [120, 97, 98] \<and> \<not> match [94, 97] [120, 97, 98]"
proof
  have "[120, 97, 98] = [120] @ [97, 98] @ ([] :: u8 list)" "[97, 98] \<in> lang (fst (parse [97, 46]))" by (simp_all add: sym_def)
  then show "match [97, 46] [120, 97, 98]"
    unfolding match_denotes Let_def by (intro exI [of _ "[120]"] exI [of _ "[97, 98]"] exI [of _ "[]"]) simp
  show "\<not> match [94, 97] [120, 97, 98]"
    using match_denotes [of "[94, 97]" "[120, 97, 98]"] by (auto simp: sym_def)
qed

section \<open>The loop over the input\<close>

text \<open>The position that \<open>strchr\<close> finds in a string.\<close>

fun strchr :: "u8 list \<Rightarrow> u8 \<Rightarrow> nat option" where
  "strchr [] c = None"
| "strchr (x # s) c = (if x = 0 then None else if x = c then Some 0 else map_option Suc (strchr s c))"

lemma strchr_lt: "strchr s c = Some k \<Longrightarrow> k < length s"
  by (induction s arbitrary: k) (auto split: if_split_asm)

text \<open>The lines in the buffer from \<open>p\<close> on: what is written of them, and where \<open>p\<close> is in the end.\<close>

function grep_scan :: "u8 list \<Rightarrow> u8 list \<Rightarrow> u8 list \<times> u8 list" where
  "grep_scan pattern p =
     (case strchr p 10 of None \<Rightarrow> ([], p)
      | Some q \<Rightarrow> let (out, r) = grep_scan pattern (drop (q + 1) p)
                  in ((if match pattern (take q p) then take (q + 1) p else []) @ out, r))"
  by pat_completeness auto
termination by (relation "measure (\<lambda>(pattern, p). length p)") (auto dest: strchr_lt)

declare grep_scan.simps [simp del]

text \<open>
  The whole loop. \<open>input\<close> is what is left of the file, \<open>b\<close> the first \<open>m\<close> bytes of \<open>buf\<close>; read number \<open>i\<close> delivers at most
  \<open>sz i\<close> bytes, and no more than it is asked for.
\<close>

function grep :: "u8 list \<Rightarrow> (nat \<Rightarrow> nat) \<Rightarrow> nat \<Rightarrow> u8 list \<Rightarrow> u8 list \<Rightarrow> u8 list" where
  "grep pattern sz i input b =
     (let n = min (sz i) (min (1024 - length b - 1) (length input)) in
      if n = 0 then []
      else let buf = b @ take n input; (out, p) = grep_scan pattern buf
           in out @ grep pattern sz (i + 1) (drop n input) (if length p = length buf then [] else p))"
  by pat_completeness auto
termination by (relation "measure (\<lambda>(pattern, sz, i, input, b). length input)") auto

declare grep.simps [simp del]

fun rest_of :: "u8 list \<Rightarrow> u8 list \<Rightarrow> u8 list" where
  "rest_of q [] = q"
| "rest_of q (c # cs) = (if c = 10 then rest_of [] cs else rest_of (q @ [c]) cs)"

lemma lines_of_append: "lines_of q (xs @ ys) = lines_of q xs @ lines_of (rest_of q xs) ys"
  by (induction xs arbitrary: q) auto

lemma lines_of_pending: "10 \<notin> set q \<Longrightarrow> lines_of p (q @ ys) = lines_of (p @ q) ys \<and> rest_of p (q @ ys) = rest_of (p @ q) ys"
  by (induction q arbitrary: p) auto

lemma rest_of_append: "rest_of q (xs @ ys) = rest_of (rest_of q xs) ys"
  by (induction xs arbitrary: q) auto

lemma rest_of_props: "10 \<notin> set q \<Longrightarrow> 10 \<notin> set (rest_of q xs)" "set (rest_of q xs) \<subseteq> set q \<union> set xs"
    "length (rest_of q xs) \<le> length q + length xs"
proof (induction xs arbitrary: q)
  case (Cons c xs)
  {
    case 1
    then show ?case using Cons.IH(1) by simp
  next
    case 2
    then show ?case using Cons.IH(2) [of "q @ [c]"] Cons.IH(2) [of "[]"] by auto
  next
    case 3
    then show ?case using Cons.IH(3) [of "q @ [c]"] Cons.IH(3) [of "[]"] by simp
  }
qed simp_all

lemma rest_of_shorter: "10 \<in> set xs \<Longrightarrow> length (rest_of q xs) < length q + length xs"
proof -
  assume "10 \<in> set xs"
  then obtain ys zs where "xs = ys @ 10 # zs" using split_list by metis
  then show ?thesis using rest_of_props(3) [of "[]" zs] by (simp add: rest_of_append)
qed

lemma lines_of_next: "10 \<notin> set l \<Longrightarrow> lines_of [] (l @ 10 # r) = (l @ [10]) # lines_of [] r \<and> rest_of [] (l @ 10 # r) = rest_of [] r"
  using lines_of_pending [of l "[]" "10 # r"] by simp

lemma long_line: "10 \<notin> set q \<Longrightarrow> 10 \<in> set xs \<Longrightarrow> \<exists>l\<in>set (lines_of [] (q @ xs)). length q < length l"
proof -
  assume q: "10 \<notin> set q" and "10 \<in> set xs"
  then obtain ys zs where "xs = ys @ 10 # zs" "10 \<notin> set ys" using split_list_first by metis
  then show ?thesis using q lines_of_next [of "q @ ys" zs] by simp
qed

lemma lines_of_none: "10 \<notin> set xs \<Longrightarrow> lines_of [] xs = [] \<and> rest_of [] xs = xs"
  using lines_of_pending [of xs "[]" "[]"] by simp

lemma strchr_split:
  "0 \<notin> set s \<Longrightarrow> (case strchr s c of None \<Rightarrow> c \<notin> set s | Some k \<Rightarrow> c \<notin> set (take k s) \<and> s = take k s @ c # drop (k + 1) s)"
  by (induction s) (auto split: option.splits)

abbreviation matching :: "u8 list \<Rightarrow> u8 list list \<Rightarrow> u8 list" where
  "matching pattern ls \<equiv> concat (filter (\<lambda>l. match pattern (butlast l)) ls)"

lemma grep_scan_lines: "0 \<notin> set p \<Longrightarrow> grep_scan pattern p = (matching pattern (lines_of [] p), rest_of [] p)"
proof (induction "length p" arbitrary: p rule: less_induct)
  case less
  show ?case
  proof (cases "strchr p 10")
    case None
    then show ?thesis using strchr_split [OF less.prems, of 10] lines_of_none [of p] by (simp add: grep_scan.simps [of _ p])
  next
    case (Some k)
    then have p: "10 \<notin> set (take k p)" "p = take k p @ 10 # drop (k + 1) p" and k: "k < length p"
      using strchr_split [OF less.prems, of 10] strchr_lt by auto
    have t: "take (k + 1) p = take k p @ [10]" using p(2) k by (metis append_take_drop_id nth_append_length take_Suc_conv_app_nth add.commute length_take min.absorb4 plus_1_eq_Suc)
    have "0 \<notin> set (drop (k + 1) p)" using less.prems by (auto dest: in_set_dropD)
    then have "grep_scan pattern (drop (k + 1) p) = (matching pattern (lines_of [] (drop (k + 1) p)), rest_of [] (drop (k + 1) p))"
      using k by (intro less.hyps) auto
    moreover have "lines_of [] p = (take k p @ [10]) # lines_of [] (drop (k + 1) p)" "rest_of [] p = rest_of [] (drop (k + 1) p)"
      using lines_of_next [OF p(1), of "drop (k + 1) p"] p(2) by simp_all
    ultimately show ?thesis using Some t by (simp add: grep_scan.simps [of _ p])
  qed
qed

lemma grep_run:
  fixes i :: nat
  assumes "\<forall>i. 1023 \<le> sz i" and "0 \<notin> set (b @ input)" and "\<forall>l\<in>set (lines_of [] (b @ input)). length l \<le> 1023"
    and "10 \<notin> set b" and "length b < 1023"
  shows "grep pattern sz i input b = matching pattern (lines_of [] (b @ input))"
  using assms(2-)
proof (induction "length input" arbitrary: input b i rule: less_induct)
  case (less input b i)
  define n where "n = min (sz i) (min (1024 - length b - 1) (length input))"
  have "1023 - length b \<le> sz i" using assms(1) [rule_format, of i] by simp
  then have "min (sz i) (min (1023 - length b) (length input)) = min (1023 - length b) (length input)"
    by (intro min_absorb2) (simp add: min.coboundedI1)
  then have nn: "n = (if length input \<le> 1023 - length b then length input else 1023 - length b)"
    unfolding n_def by (simp add: min_def)
  show ?case
  proof (cases "n = 0")
    case True
    then have "input = []" using nn less.prems(4) by (simp split: if_split_asm)
    then show ?thesis using True lines_of_none [OF less.prems(3)] by (simp add: grep.simps n_def)
  next
    case False
    let ?buf = "b @ take n input"
    let ?r = "rest_of [] ?buf"
    let ?c = "if length ?r = length ?buf then [] else ?r"
    have n: "n \<le> length input" "n \<le> 1023 - length b" by (simp_all add: n_def)
    have all: "lines_of [] (b @ input) = lines_of [] ?buf @ lines_of [] (?r @ drop n input)"
    proof -
      have "lines_of [] (b @ input) = lines_of [] (?buf @ drop n input)" by simp
      also have "\<dots> = lines_of [] ?buf @ lines_of ?r (drop n input)" by (rule lines_of_append)
      finally show ?thesis using lines_of_pending [of ?r "[]" "drop n input"] rest_of_props(1) [of "[]" ?buf] by simp
    qed
    have z: "0 \<notin> set ?buf" using less.prems(1) by (auto dest: in_set_takeD)
    have step: "grep pattern sz i input b = matching pattern (lines_of [] ?buf) @ grep pattern sz (i + 1) (drop n input) ?c"
      unfolding grep.simps [of pattern sz i input b] n_def [symmetric] using False
      by (simp only: Let_def if_False grep_scan_lines [OF z, of pattern] prod.case)
    have same: "lines_of [] (?c @ drop n input) = lines_of [] (?r @ drop n input)"
    proof (cases "length ?r = length ?buf")
      case True
      then have nl: "10 \<notin> set ?buf" using rest_of_shorter [of ?buf "[]"] by fastforce
      then have r: "?r = ?buf" using lines_of_none by blast
      show ?thesis
      proof (cases "n = length input")
        case True
        then show ?thesis using nl r lines_of_none [of ?buf] by simp
      next
        case part: False
        then have "n = 1023 - length b" using nn by metis
        then have "length ?buf = 1023" using n less.prems(4) by simp
        then have d: "10 \<notin> set (drop n input)"
          using long_line [of "?buf" "drop n input"] nl less.prems(2) by fastforce
        then have "10 \<notin> set (?buf @ drop n input)" using nl by (simp only: set_append Un_iff) blast
        then have "lines_of [] (?r @ drop n input) = []" unfolding r by (rule conjunct1 [OF lines_of_none])
        moreover have "lines_of [] (drop n input) = []" using d by (rule conjunct1 [OF lines_of_none])
        ultimately show ?thesis using True by (simp only: simp_thms if_True append_Nil)
      qed
    qed simp
    have "grep pattern sz (i + 1) (drop n input) ?c = matching pattern (lines_of [] (?c @ drop n input))"
    proof (rule less.hyps)
      show "length (drop n input) < length input" using False n by simp
      show "0 \<notin> set (?c @ drop n input)" using z less.prems(1) rest_of_props(2) [of "[]" ?buf] by (auto dest: in_set_dropD)
      show "\<forall>l\<in>set (lines_of [] (?c @ drop n input)). length l \<le> 1023" using less.prems(2) unfolding same all by auto
      show "10 \<notin> set ?c" using rest_of_props(1) [of "[]" ?buf] by auto
      show "length ?c < 1023" using rest_of_props(3) [of "[]" ?buf] n less.prems(4) by auto
    qed
    then show ?thesis using step same all by simp
  qed
qed

text \<open>
  C33: If the input has no NUL, no line of it has more than 1023 bytes, newline included, and every read delivers as much as it is asked
  for until the end of the file, then \<open>grep\<close> writes exactly the complete lines that match, in order. (A read that delivers less,
  from a pipe, loses the beginning of a line when there is no newline in the buffer.)
\<close>
theorem grep_prints_matching:
  assumes "0 \<notin> set input" and "\<forall>l\<in>set (lines_of [] input). length l \<le> 1023" and "\<forall>i. 1023 \<le> sz i"
  shows "grep pattern sz 0 input [] = matching pattern (lines_of [] input)"
  using grep_run [OF assms(3), of "[]" input pattern 0] assms(1,2) by simp

text \<open>The pattern \<open>^a.*$\<close> in the lines \<open>ab\<close>, \<open>ba\<close>, \<open>a\<close> and an incomplete one.\<close>

theorem grep_prints_matching_witness:
  "grep [94, 97, 46, 42, 36] (\<lambda>_. 2000) 0 [97, 98, 10, 98, 97, 10, 97, 10, 97] [] = [97, 98, 10, 97, 10]"
proof -
  let ?in = "[97, 98, 10, 98, 97, 10, 97, 10, 97] :: u8 list"
  have "matching [94, 97, 46, 42, 36] (lines_of [] ?in) = [97, 98, 10, 97, 10]" by code_simp
  then show ?thesis using grep_prints_matching [of ?in "\<lambda>_. 2000" "[94, 97, 46, 42, 36]"] by simp
qed

text \<open>A read that ends in the middle of a line loses its beginning: \<open>xa\<close> is reported for \<open>^a\<close> when it arrives in two parts.\<close>

lemma grep_short_read: "grep [94, 97] (\<lambda>i. if i = 0 then 1 else 1000) 0 [120, 97, 10] [] = [97, 10]"
  by code_simp

end
