(* ===== verification/Shell.thy ===== *)
theory Shell
  imports Sysfile
begin

text \<open>
  The parser of the shell, \<open>sh.c\<close>. The line is a list of characters without NUL, and a pointer into it is a position; \<open>es\<close> is its
  length. Words stay slices of the line until \<open>nulterminate\<close> writes a NUL behind each of them. A syntax error ends the
  process: it is \<open>Panic\<close>. The recursion of the parser is bounded by a number of turns that is shown to be enough.
\<close>

section \<open>Commands\<close>

text \<open>The five structs; \<open>'w\<close> are the words, pairs of the positions \<open>argv\<close> and \<open>eargv\<close> at first.\<close>

datatype 'w cmd =
    EXEC "'w list"
  | REDIR "'w cmd" 'w u32 nat
  | PIPE "'w cmd" "'w cmd"
  | LIST "'w cmd" "'w cmd"
  | BACK "'w cmd"

definition MAXARGS :: nat where "MAXARGS = 10"
definition O_RDONLY :: u32 where "O_RDONLY = 0"

section \<open>Tokens\<close>

definition whitespace :: string where "whitespace = [CHR '' '', CHR 0x09, CHR 0x0D, CHR 0x0A, CHR 0x0B]"
definition symbols :: string where "symbols = ''<|>&;()''"

definition char_at :: "string \<Rightarrow> nat \<Rightarrow> char" where
  "char_at line s = (if s < length line then line ! s else CHR 0x00)"

function skip_white :: "string \<Rightarrow> nat \<Rightarrow> nat" where
  "skip_white line s = (if s < length line \<and> line ! s \<in> set whitespace then skip_white line (s + 1) else s)"
  by pat_completeness auto
termination by (relation "measure (\<lambda>(line, s). length line - s)") auto

function word_end :: "string \<Rightarrow> nat \<Rightarrow> nat" where
  "word_end line s =
     (if s < length line \<and> line ! s \<notin> set whitespace \<and> line ! s \<notin> set symbols then word_end line (s + 1) else s)"
  by pat_completeness auto
termination by (relation "measure (\<lambda>(line, s). length line - s)") auto

declare skip_white.simps [simp del] word_end.simps [simp del]

text \<open>The result is the kind of the token and the slice; the position moves past it and the white space behind it.\<close>

definition gettoken :: "string \<Rightarrow> nat \<Rightarrow> (char \<times> nat \<times> nat, nat) res" where
  "gettoken line ps =
     (let q = skip_white line ps;
          c = char_at line q;
          (ret, s) =
            (if c = CHR 0x00 then (c, q)
             else if c \<in> set ''|();&<'' then (c, q + 1)
             else if c = CHR ''>'' then
               (if char_at line (q + 1) = CHR ''>'' then (CHR ''+'', q + 2) else (c, q + 1))
             else (CHR ''a'', word_end line q))
      in Ok (ret, q, s) (skip_white line s))"

definition peek_tok :: "string \<Rightarrow> string \<Rightarrow> nat \<Rightarrow> (bool, nat) res" where
  "peek_tok line toks ps =
     (let s = skip_white line ps
      in Ok (char_at line s \<noteq> CHR 0x00 \<and> char_at line s \<in> set toks) s)"

section \<open>The parser\<close>

definition pipecmd :: "'w cmd \<Rightarrow> 'w cmd \<Rightarrow> 'w cmd" where [simp]: "pipecmd left right = PIPE left right"
definition listcmd :: "'w cmd \<Rightarrow> 'w cmd \<Rightarrow> 'w cmd" where [simp]: "listcmd left right = LIST left right"
definition backcmd :: "'w cmd \<Rightarrow> 'w cmd" where [simp]: "backcmd subcmd = BACK subcmd"

definition redircmd :: "'w cmd \<Rightarrow> 'w \<times> u32 \<times> nat \<Rightarrow> 'w cmd" where
  "redircmd c r = (case r of (file, mode, fd) \<Rightarrow> REDIR c file mode fd)"

text \<open>
  \<open>parseredirs\<close> wraps \<open>cmd\<close> into one redirection after another. The command inside may still get arguments while it is wrapped,
  so that the redirections are kept as a list, the innermost first.
\<close>

definition redirs :: "'w cmd \<Rightarrow> ('w \<times> u32 \<times> nat) list \<Rightarrow> 'w cmd" where
  "redirs c rs = foldl redircmd c rs"

fun parseredirs :: "nat \<Rightarrow> string \<Rightarrow> ((nat \<times> nat) \<times> u32 \<times> nat) list \<Rightarrow> nat \<Rightarrow> (((nat \<times> nat) \<times> u32 \<times> nat) list, nat) res" where
  "parseredirs 0 line rs = Spins"
| "parseredirs (Suc turns) line rs =
     bindM (peek_tok line ''<>'') (\<lambda>b.
     if \<not> b then retM rs else
     bindM (gettoken line) (\<lambda>(tok, _).
     bindM (gettoken line) (\<lambda>(t, file).
     if t \<noteq> CHR ''a'' then panic ''missing file for redirection'' else
     parseredirs turns line (rs @ [if tok = CHR ''<'' then (file, O_RDONLY, 0) else (file, O_WRONLY OR O_CREATE, 1)]))))"

text \<open>
  The parser functions call each other. Each is a definition over \<open>call\<close>, what a call of another one does, and \<open>parse_part\<close> ties the knot;
  the two loops that contain calls are parts of their own.
\<close>

datatype syntax_part =
    Line
  | Line_Loop "(nat \<times> nat) cmd"
  | Pipe_Line
  | Exec_Cmd
  | Exec_Loop "(nat \<times> nat) list" "((nat \<times> nat) \<times> u32 \<times> nat) list"
  | Block

type_synonym parser = "nat \<Rightarrow> ((nat \<times> nat) cmd, nat) res"

definition parseline :: "(syntax_part \<Rightarrow> parser) \<Rightarrow> parser" where
  "parseline call = bindM (call Pipe_Line) (\<lambda>cmd. call (Line_Loop cmd))"

definition parseline_loop :: "(syntax_part \<Rightarrow> parser) \<Rightarrow> string \<Rightarrow> (nat \<times> nat) cmd \<Rightarrow> parser" where
  "parseline_loop call line cmd =
     bindM (peek_tok line ''&'') (\<lambda>b.
     if b then bindM (gettoken line) (\<lambda>_. call (Line_Loop (backcmd cmd))) else
     bindM (peek_tok line '';'') (\<lambda>b.
     if b then bindM (gettoken line) (\<lambda>_. bindM (call Line) (\<lambda>right. retM (listcmd cmd right)))
     else retM cmd))"

definition parsepipe :: "(syntax_part \<Rightarrow> parser) \<Rightarrow> string \<Rightarrow> parser" where
  "parsepipe call line =
     bindM (call Exec_Cmd) (\<lambda>cmd.
     bindM (peek_tok line ''|'') (\<lambda>b.
     if b then bindM (gettoken line) (\<lambda>_. bindM (call Pipe_Line) (\<lambda>right. retM (pipecmd cmd right)))
     else retM cmd))"

definition parseexec :: "nat \<Rightarrow> (syntax_part \<Rightarrow> parser) \<Rightarrow> string \<Rightarrow> parser" where
  "parseexec turns call line =
     bindM (peek_tok line ''('') (\<lambda>b.
     if b then call Block else
     bindM (parseredirs turns line []) (\<lambda>rs. call (Exec_Loop [] rs)))"

definition parseexec_loop :: "nat \<Rightarrow> (syntax_part \<Rightarrow> parser) \<Rightarrow> string \<Rightarrow> (nat \<times> nat) list
    \<Rightarrow> ((nat \<times> nat) \<times> u32 \<times> nat) list \<Rightarrow> parser" where
  "parseexec_loop turns call line argv rs =
     bindM (peek_tok line ''|)&;'') (\<lambda>b.
     if b then retM (redirs (EXEC argv) rs) else
     bindM (gettoken line) (\<lambda>(tok, w).
     if tok = CHR 0x00 then retM (redirs (EXEC argv) rs)
     else if tok \<noteq> CHR ''a'' then panic ''syntax''
     else if length (argv @ [w]) \<ge> MAXARGS then panic ''too many args''
     else bindM (parseredirs turns line rs) (\<lambda>rs. call (Exec_Loop (argv @ [w]) rs))))"

definition parseblock :: "nat \<Rightarrow> (syntax_part \<Rightarrow> parser) \<Rightarrow> string \<Rightarrow> parser" where
  "parseblock turns call line =
     bindM (peek_tok line ''('') (\<lambda>b.
     if \<not> b then panic ''parseblock'' else
     bindM (gettoken line) (\<lambda>_.
     bindM (call Line) (\<lambda>cmd.
     bindM (peek_tok line '')'') (\<lambda>b.
     if \<not> b then panic ''syntax - missing )'' else
     bindM (gettoken line) (\<lambda>_.
     bindM (parseredirs turns line []) (\<lambda>rs. retM (redirs cmd rs)))))))"

primrec parse_part :: "nat \<Rightarrow> string \<Rightarrow> syntax_part \<Rightarrow> parser" where
  "parse_part 0 line nt = Spins"
| "parse_part (Suc turns) line nt =
     (case nt of
        Line \<Rightarrow> parseline (parse_part turns line)
      | Line_Loop cmd \<Rightarrow> parseline_loop (parse_part turns line) line cmd
      | Pipe_Line \<Rightarrow> parsepipe (parse_part turns line) line
      | Exec_Cmd \<Rightarrow> parseexec turns (parse_part turns line) line
      | Exec_Loop argv rs \<Rightarrow> parseexec_loop turns (parse_part turns line) line argv rs
      | Block \<Rightarrow> parseblock turns (parse_part turns line) line)"

text \<open>\<open>nulterminate\<close> on the bytes of the buffer, the line and its NUL.\<close>

primrec nulterminate :: "(nat \<times> nat) cmd \<Rightarrow> string \<Rightarrow> string" where
  "nulterminate (EXEC argv) buf = foldl (\<lambda>buf w. buf[snd w := CHR 0x00]) buf argv"
| "nulterminate (REDIR c file mode fd) buf = (nulterminate c buf)[snd file := CHR 0x00]"
| "nulterminate (PIPE l r) buf = nulterminate r (nulterminate l buf)"
| "nulterminate (LIST l r) buf = nulterminate r (nulterminate l buf)"
| "nulterminate (BACK c) buf = nulterminate c buf"

definition parsecmd :: "string \<Rightarrow> ((nat \<times> nat) cmd \<times> string, nat) res" where
  "parsecmd line =
     bindM (parse_part (6 * length line + 6) line Line) (\<lambda>cmd.
     bindM (peek_tok line '''') (\<lambda>_.
     bindM (getM (\<lambda>s. s)) (\<lambda>s.
     if s \<noteq> length line then panic ''syntax''
     else retM (cmd, nulterminate cmd (line @ [CHR 0x00]))))) 0"

section \<open>Positions\<close>

lemma skip_white_bounds: "s \<le> skip_white line s" "s \<le> length line \<Longrightarrow> skip_white line s \<le> length line"
    "skip_white line s < length line \<Longrightarrow> line ! skip_white line s \<notin> set whitespace"
proof (induction line s rule: skip_white.induct)
  case (1 line s)
  { case 1 then show ?case using "1.IH"(1) skip_white.simps [of line s] by auto }
  { case 2 then show ?case using "1.IH"(2) skip_white.simps [of line s] by auto }
  { case 3 then show ?case using "1.IH"(3) skip_white.simps [of line s] by (auto split: if_split_asm) }
qed

lemma skip_white_twice [simp]: "skip_white line (skip_white line s) = skip_white line s"
  by (subst skip_white.simps) (use skip_white_bounds(3) in auto)

lemma word_end_bounds: "s \<le> word_end line s" "s \<le> length line \<Longrightarrow> word_end line s \<le> length line"
  by (induction line s rule: word_end.induct) (subst word_end.simps; force)+

lemma gettoken_run:
  assumes "s \<le> length line"
  shows "\<exists>t q e s'. gettoken line s = Ok (t, q, e) s' \<and> q = skip_white line s \<and> s \<le> q \<and> q \<le> e \<and> e \<le> s' \<and> s' \<le> length line
    \<and> s' = skip_white line e \<and> (t = CHR 0x00 \<longleftrightarrow> char_at line q = CHR 0x00) \<and> (t \<noteq> CHR 0x00 \<longrightarrow> q < e \<and> q < length line)"
proof -
  let ?q = "skip_white line s"
  have q: "s \<le> ?q" "?q \<le> length line" using skip_white_bounds assms by auto
  show ?thesis
  proof (cases "char_at line ?q = CHR 0x00")
    case True
    then show ?thesis using q by (simp add: gettoken_def Let_def)
  next
    case False
    then have l: "?q < length line" by (simp add: char_at_def split: if_split_asm)
    have a: "char_at line (?q + 1) = CHR ''>'' \<Longrightarrow> ?q + 2 \<le> length line" by (simp add: char_at_def split: if_split_asm)
    have w: "char_at line ?q \<notin> set ''|();&<>'' \<Longrightarrow> ?q < word_end line ?q"
      using l skip_white_bounds(3) [OF l] word_end_bounds(1) [of "?q + 1" line]
      by (subst word_end.simps) (auto simp: char_at_def symbols_def)
    have fin: "e \<le> skip_white line e" "e \<le> length line \<Longrightarrow> skip_white line e \<le> length line" for e using skip_white_bounds by auto
    show ?thesis
      using False l q a w fin word_end_bounds [of ?q line] unfolding gettoken_def Let_def by (auto intro: le_trans)
  qed
qed

definition head_in :: "string \<Rightarrow> char \<Rightarrow> bool" where
  "head_in toks c \<longleftrightarrow> c \<noteq> CHR 0x00 \<and> c \<in> set toks"

lemma peek_run: "peek_tok line toks s = Ok (head_in toks (char_at line (skip_white line s))) (skip_white line s)"
  by (simp add: peek_tok_def head_in_def Let_def)

section \<open>Termination\<close>

definition ends :: "string \<Rightarrow> (nat \<Rightarrow> ('a, nat) res) \<Rightarrow> nat \<Rightarrow> bool" where
  "ends line m s \<longleftrightarrow> (case m s of Ok x s' \<Rightarrow> s \<le> s' \<and> s' \<le> length line | Panic e \<Rightarrow> True | _ \<Rightarrow> False)"

lemma ends_bind:
  assumes "ends line m s" and "\<And>x s'. m s = Ok x s' \<Longrightarrow> s \<le> s' \<Longrightarrow> s' \<le> length line \<Longrightarrow> ends line (f x) s'"
  shows "ends line (bindM m f) s"
  using assms by (cases "m s") (auto simp: ends_def bindM_run split: res.splits)

lemma ends_simple [simp]: "s \<le> length line \<Longrightarrow> ends line (retM x) s" "ends line (panic e) s"
  by (simp_all add: ends_def)

lemma ends_peek: "s \<le> length line \<Longrightarrow> ends line (peek_tok line toks) s"
  using skip_white_bounds [where s = s and line = line] by (simp add: ends_def peek_run)

lemma ends_gettoken: "s \<le> length line \<Longrightarrow> ends line (gettoken line) s"
  using gettoken_run [of s line] by (auto simp: ends_def)

text \<open>A token that has been seen is consumed.\<close>

lemma ends_consume:
  assumes "s \<le> length line" and "head_in toks (char_at line (skip_white line s))"
    and "\<And>x s'. s < s' \<Longrightarrow> s' \<le> length line \<Longrightarrow> ends line (f x) s'"
  shows "ends line (bindM (gettoken line) f) (skip_white line s)"
proof -
  obtain t q e s' where g: "gettoken line (skip_white line s) = Ok (t, q, e) s'" "q = skip_white line s" "s \<le> q" "q \<le> e" "e \<le> s'" "s' \<le> length line"
      "t = CHR 0x00 \<longleftrightarrow> char_at line q = CHR 0x00" "t \<noteq> CHR 0x00 \<longrightarrow> q < e"
    using gettoken_run [of "skip_white line s" line] skip_white_bounds [where s = s and line = line] assms(1) by auto
  then have "q < s'" using assms(2) by (auto simp: head_in_def)
  then have "ends line (f (t, q, e)) s'" using assms(3) g by simp
  then show ?thesis using g \<open>q < s'\<close> by (auto simp: ends_def bindM_run split: res.splits)
qed

lemma ends_parseredirs: "s \<le> length line \<Longrightarrow> length line - s < n \<Longrightarrow> ends line (parseredirs n line rs) s"
proof (induction n arbitrary: s rs)
  case (Suc n)
  show ?case
    unfolding parseredirs.simps
  proof (rule ends_bind [OF ends_peek [OF Suc.prems(1)]])
    fix b s1 assume p: "peek_tok line ''<>'' s = Ok b s1" "s \<le> s1" "s1 \<le> length line"
    then have b: "b \<longleftrightarrow> head_in ''<>'' (char_at line (skip_white line s))" "s1 = skip_white line s" by (auto simp: peek_run)
    let ?m = "bindM (gettoken line) (\<lambda>(tok, _). bindM (gettoken line) (\<lambda>(t, file).
       if t \<noteq> CHR ''a'' then panic ''missing file for redirection'' else
       parseredirs n line (rs @ [if tok = CHR ''<'' then (file, O_RDONLY, 0) else (file, O_WRONLY OR O_CREATE, 1)])))"
    have "ends line ?m s1" if b
      unfolding b(2)
    proof (rule ends_consume [OF Suc.prems(1)])
      show "head_in ''<>'' (char_at line (skip_white line s))" using that b by simp
      fix x s2 assume s2: "s < s2" "s2 \<le> length line"
      show "ends line (case x of (tok, _) \<Rightarrow> bindM (gettoken line) (\<lambda>(t, file).
         if t \<noteq> CHR ''a'' then panic ''missing file for redirection'' else
         parseredirs n line (rs @ [if tok = CHR ''<'' then (file, O_RDONLY, 0) else (file, O_WRONLY OR O_CREATE, 1)]))) s2"
        using Suc.prems(2) s2 by (auto split: prod.split intro!: ends_bind [OF ends_gettoken] Suc.IH)
    qed
    then show "ends line (if \<not> b then retM rs else ?m) s1" using p by simp
  qed
qed simp

fun need :: "syntax_part \<Rightarrow> nat" where
  "need Line = 4"
| "need Pipe_Line = 3"
| "need Exec_Cmd = 2"
| "need p = 1"

lemma ends_parse:
  "s \<le> length line \<Longrightarrow> 6 * (length line - s) + need nt < n \<Longrightarrow> ends line (parse_part n line nt) s"
proof (induction n arbitrary: nt s)
  case (Suc n nt s)
  have lo: "1 \<le> need nt" by (cases nt) simp_all
  have later: "ends line (parse_part n line nt') s'" if "s < s'" "s' \<le> length line" for s' nt'
  proof (rule Suc.IH [OF that(2)])
    have "need nt' \<le> 4" by (cases nt') simp_all
    then show "6 * (length line - s') + need nt' < n" using that lo Suc.prems(2) by simp
  qed
  have same: "ends line (parse_part n line nt') s'" if "s \<le> s'" "s' \<le> length line" "need nt' < need nt" for s' nt'
    using that Suc.prems by (intro Suc.IH) auto
  have redirs: "ends line (parseredirs n line rs) s'" if "s \<le> s'" "s' \<le> length line" for s' rs
    using that Suc.prems lo by (intro ends_parseredirs) auto
  have peek: "ends line (bindM (peek_tok line toks) f) s'"
    if "s' \<le> length line" "ends line (f (head_in toks (char_at line (skip_white line s')))) (skip_white line s')" for s' toks and f :: "bool \<Rightarrow> parser"
    using that skip_white_bounds [where s = s' and line = line] by (auto simp: ends_def bindM_run peek_run split: res.splits)
  have token: "ends line (bindM (gettoken line) f) s1"
    if s1: "s1 \<le> length line" and f: "\<And>t q e s'. s1 \<le> s' \<Longrightarrow> s' \<le> length line \<Longrightarrow> (t \<noteq> CHR 0x00 \<Longrightarrow> s1 < s') \<Longrightarrow> ends line (f (t, q, e)) s'"
    for s1 and f :: "char \<times> nat \<times> nat \<Rightarrow> parser"
  proof -
    obtain t q e s' where g: "gettoken line s1 = Ok (t, q, e) s'" "s1 \<le> q" "q \<le> e" "e \<le> s'" "s' \<le> length line" "t \<noteq> CHR 0x00 \<longrightarrow> q < e"
      using gettoken_run [OF s1] by auto
    then have "ends line (f (t, q, e)) s'" by (intro f) auto
    then show ?thesis using g by (auto simp: ends_def bindM_run split: res.splits)
  qed
  note w = skip_white_bounds [where line = line]
  show ?case
  proof (cases nt)
    case Line
    then show ?thesis using Suc.prems by (auto simp: parseline_def intro!: ends_bind [OF same] same)
  next
    case (Line_Loop c)
    then show ?thesis using Suc.prems w by (auto simp: parseline_loop_def intro!: peek ends_consume ends_bind [OF later] later)
  next
    case Pipe_Line
    have cont: "ends line (bindM (parse_part n line Pipe_Line) (\<lambda>right. retM (PIPE cmd right))) s'" if "s < s'" "s' \<le> length line" for s' cmd
      using that by (auto intro!: ends_bind [OF later])
    have "ends line (parsepipe (parse_part n line) line) s"
      unfolding parsepipe_def using Suc.prems Pipe_Line w by - (rule ends_bind [OF same], auto intro!: peek ends_consume cont)
    then show ?thesis using Pipe_Line by simp
  next
    case Exec_Cmd
    then show ?thesis using Suc.prems w(1) [of s] w(2) [of s] by (auto simp: parseexec_def intro!: peek ends_bind [OF redirs] same)
  next
    case (Exec_Loop argv rs)
    then show ?thesis using Suc.prems w(1) [of s] w(2) [of s] by (auto simp: parseexec_loop_def intro!: peek token ends_bind [OF redirs] later)
  next
    case Block
    then show ?thesis using Suc.prems w by (auto simp: parseblock_def intro!: peek ends_consume ends_bind [OF later] ends_bind [OF redirs])
  qed
qed simp

text \<open>
  C34: The parser always ends, and within the number of turns that \<open>parsecmd\<close> allows it: for every line it returns a command and the
  buffer with its NULs, or reports a syntax error.
\<close>
theorem parsecmd_returns: "(\<exists>cmd buf s. parsecmd line = Ok (cmd, buf) s) \<or> (\<exists>e. parsecmd line = Panic e)"
proof -
  have "ends line (parse_part (6 * length line + 6) line Line) 0" by (rule ends_parse) simp_all
  then show ?thesis by (cases "parse_part (6 * length line + 6) line Line 0") (auto simp: ends_def parsecmd_def bindM_run peek_run)
qed

section \<open>The line as tokens\<close>

datatype 'w token = W 'w | S char

function tokens :: "string \<Rightarrow> nat \<Rightarrow> (nat \<times> nat) token list" where
  "tokens line s =
     (if length line < s then [] else
      case gettoken line s of
        Ok (t, w) s' \<Rightarrow> if t = CHR 0x00 then [] else (if t = CHR ''a'' then W w else S t) # tokens line s'
      | _ \<Rightarrow> [])"
  by pat_completeness auto
termination
proof (relation "measure (\<lambda>(line, s). length line - s)", simp, goal_cases)
  case (1 line s x1 s' t w)
  then show ?case using gettoken_run [of s line] by auto
qed

declare tokens.simps [simp del]

definition at :: "string \<Rightarrow> nat \<Rightarrow> (nat \<times> nat) token list \<Rightarrow> bool" where
  "at line s ts \<longleftrightarrow> s \<le> length line \<and> tokens line s = ts"

definition leads :: "string \<Rightarrow> 'w token list \<Rightarrow> bool" where
  "leads toks ts = (case ts of S c # _ \<Rightarrow> (if c = CHR ''+'' then CHR ''>'' else c) \<in> set toks | _ \<Rightarrow> False)"

lemma tokens_skip: "s \<le> length line \<Longrightarrow> tokens line (skip_white line s) = tokens line s"
proof -
  assume "s \<le> length line"
  moreover have "gettoken line (skip_white line s) = gettoken line s" by (simp add: gettoken_def)
  ultimately show ?thesis using skip_white_bounds(2) [of s line] by (simp add: tokens.simps [of line s] tokens.simps [of line "skip_white line s"])
qed

lemma gettoken_kind:
  assumes "gettoken line s = Ok (t, w) s'" and "char_at line (skip_white line s) = c" and "c \<noteq> CHR 0x00"
  shows "t \<noteq> CHR 0x00" and "t = CHR ''a'' \<Longrightarrow> c \<notin> set symbols" and "t \<noteq> CHR ''a'' \<Longrightarrow> (if t = CHR ''+'' then CHR ''>'' else t) = c"
  using assms by (auto simp: gettoken_def Let_def symbols_def split: if_split_asm)

lemma gettoken_at:
  assumes "at line s ts"
  shows "case ts of [] \<Rightarrow> \<exists>w s'. gettoken line s = Ok (CHR 0x00, w) s' \<and> at line s' []
    | W w # r \<Rightarrow> \<exists>s'. gettoken line s = Ok (CHR ''a'', w) s' \<and> at line s' r
    | S c # r \<Rightarrow> \<exists>w s'. gettoken line s = Ok (c, w) s' \<and> at line s' r \<and> c \<noteq> CHR ''a'' \<and> c \<noteq> CHR 0x00"
proof -
  have s: "s \<le> length line" "tokens line s = ts" using assms by (auto simp: at_def)
  obtain t q e s' where g: "gettoken line s = Ok (t, q, e) s'" "s' \<le> length line" "q = skip_white line s" "s' = skip_white line e"
      "t = CHR 0x00 \<longleftrightarrow> char_at line q = CHR 0x00" using gettoken_run [OF s(1)] by auto
  show ?thesis
  proof (cases "t = CHR 0x00")
    case True
    then have "s' = skip_white line s" using g by (auto simp: gettoken_def Let_def)
    then have "tokens line s' = ts" using tokens_skip s by simp
    then show ?thesis using s g True by (simp add: tokens.simps [of line s] at_def)
  next
    case False
    then show ?thesis using s g by (auto simp: tokens.simps [of line s] at_def)
  qed
qed

lemma peek_at:
  assumes "at line s ts" and "set toks \<subseteq> set symbols"
  shows "\<exists>s'. peek_tok line toks s = Ok (leads toks ts) s' \<and> at line s' ts"
proof -
  have s: "s \<le> length line" "tokens line s = ts" using assms by (auto simp: at_def)
  let ?c = "char_at line (skip_white line s)"
  have "head_in toks ?c = leads toks ts"
  proof (cases "?c = CHR 0x00")
    case True
    then have "ts = []" using s by (simp add: tokens.simps [of line s] gettoken_def Let_def)
    then show ?thesis using True by (simp add: head_in_def leads_def)
  next
    case False
    obtain t w s' where g: "gettoken line s = Ok (t, w) s'" using gettoken_run [OF s(1)] by auto
    note K = gettoken_kind [OF g refl False]
    have ts: "ts = (if t = CHR ''a'' then W w else S t) # tokens line s'" using s g K(1) by (simp add: tokens.simps [of line s])
    show ?thesis
    proof (cases "t = CHR ''a''")
      case True
      then show ?thesis using K(2) assms(2) ts by (auto simp: head_in_def leads_def)
    next
      case other: False
      then show ?thesis using K(3) False ts by (auto simp: head_in_def leads_def)
    qed
  qed
  then show ?thesis using skip_white_bounds(2) [OF s(1)] tokens_skip [OF s(1)] s by (simp add: peek_run at_def)
qed

lemma get_word: "at line s (W w # r) \<Longrightarrow> \<exists>s'. gettoken line s = Ok (CHR ''a'', w) s' \<and> at line s' r"
  and get_symbol: "at line s (S c # r) \<Longrightarrow> \<exists>w s'. gettoken line s = Ok (c, w) s' \<and> at line s' r \<and> c \<noteq> CHR ''a'' \<and> c \<noteq> CHR 0x00"
  and get_end: "at line s [] \<Longrightarrow> \<exists>w s'. gettoken line s = Ok (CHR 0x00, w) s' \<and> at line s' []"
  using gettoken_at [of line s] by force+

section \<open>Printing commands\<close>

text \<open>
  The tokens of a command, at one of four levels: 0 for a line, 1 and 2 for what may stand before \<open>&\<close> and \<open>|\<close>, 3 for one command.
  A command that does not fit its place is put into parentheses.
\<close>

definition parens :: "bool \<Rightarrow> 'w token list \<Rightarrow> 'w token list" where
  "parens b ts = (if b then S CHR ''('' # ts @ [S CHR '')''] else ts)"

definition print_redir :: "'w \<times> u32 \<times> nat \<Rightarrow> 'w token list" where
  "print_redir r = (case r of (file, mode, fd) \<Rightarrow> [S (if fd = 0 then CHR ''<'' else CHR ''>''), W file])"

primrec print :: "nat \<Rightarrow> 'w cmd \<Rightarrow> 'w token list" where
  "print k (EXEC argv) = map W argv"
| "print k (REDIR c file mode fd) = print 3 c @ print_redir (file, mode, fd)"
| "print k (PIPE l r) = parens (2 < k) (print 3 l @ [S CHR ''|''] @ print 2 r)"
| "print k (LIST l r) = parens (0 < k) (print 1 l @ [S CHR '';''] @ print 0 r)"
| "print k (BACK c) = parens (1 < k) (print 1 c @ [S CHR ''&''])"

definition redir_ok :: "u32 \<times> nat \<Rightarrow> bool" where
  "redir_ok r \<longleftrightarrow> r = (O_RDONLY, 0) \<or> r = (O_WRONLY OR O_CREATE, 1)"

text \<open>The commands the parser can produce.\<close>

primrec cmd_ok :: "'w cmd \<Rightarrow> bool" where
  "cmd_ok (EXEC argv) \<longleftrightarrow> length argv < MAXARGS"
| "cmd_ok (REDIR c file mode fd) \<longleftrightarrow> cmd_ok c \<and> redir_ok (mode, fd)"
| "cmd_ok (PIPE l r) \<longleftrightarrow> cmd_ok l \<and> cmd_ok r"
| "cmd_ok (LIST l r) \<longleftrightarrow> cmd_ok l \<and> cmd_ok r"
| "cmd_ok (BACK c) \<longleftrightarrow> cmd_ok c"

text \<open>A command is the redirections around one that is no redirection.\<close>

lemma redirs_simps [simp]: "redirs c [] = c" "redirs c (rs @ [(f, m, d)]) = REDIR (redirs c rs) f m d"
  by (simp_all add: redirs_def redircmd_def)

lemma redirs_split: "\<exists>core rs. c = redirs core rs \<and> (\<forall>c' f m d. core \<noteq> REDIR c' f m d) \<and> (rs = [] \<or> size core < size c)
    \<and> (cmd_ok c \<longrightarrow> cmd_ok core \<and> (\<forall>r\<in>set rs. redir_ok (snd r)))"
proof (induction c)
  case (REDIR c f m d)
  then obtain core rs where c: "c = redirs core rs" "\<forall>c' f m d. core \<noteq> REDIR c' f m d" "rs = [] \<or> size core < size c"
      "cmd_ok c \<longrightarrow> cmd_ok core \<and> (\<forall>r\<in>set rs. redir_ok (snd r))" by blast
  then have "REDIR c f m d = redirs core (rs @ [(f, m, d)])" by simp
  moreover have "size core < size (REDIR c f m d)" using c(1,3) by (cases "rs = []") auto
  ultimately show ?case using c(2,4) by (intro exI [of _ core] exI [of _ "rs @ [(f, m, d)]"]) auto
next
  case (EXEC ws)
  show ?case by (intro exI [of _ "EXEC ws"] exI [of _ "[]"]) simp
next
  case (PIPE l r)
  show ?case by (intro exI [of _ "PIPE l r"] exI [of _ "[]"]) simp
next
  case (LIST l r)
  show ?case by (intro exI [of _ "LIST l r"] exI [of _ "[]"]) simp
next
  case (BACK c)
  show ?case by (intro exI [of _ "BACK c"] exI [of _ "[]"]) simp
qed

lemma print_redirs: "print 3 (redirs c rs) = print 3 c @ concat (map print_redir rs)"
  by (induction rs rule: rev_induct) (auto split: prod.split)

section \<open>Parsing what was printed\<close>

definition follow :: "string \<Rightarrow> 'w token list \<Rightarrow> bool" where
  "follow cs ts \<longleftrightarrow> ts = [] \<or> (\<exists>c r. ts = S c # r \<and> c \<in> set cs)"

text \<open>With enough turns, the parser gets from \<open>s\<close> to a position where the tokens \<open>ts\<close> are left.\<close>

definition parses :: "string \<Rightarrow> syntax_part \<Rightarrow> nat \<Rightarrow> (nat \<times> nat) cmd \<Rightarrow> (nat \<times> nat) token list \<Rightarrow> bool" where
  "parses line nt s c ts \<longleftrightarrow> (\<exists>s' N. at line s' ts \<and> (\<forall>n\<ge>N. parse_part n line nt s = Ok c s'))"

lemma parsesI: "at line s' ts \<Longrightarrow> (\<And>n. N \<le> n \<Longrightarrow> parse_part (Suc n) line nt s = Ok c s') \<Longrightarrow> parses line nt s c ts"
proof -
  assume a: "at line s' ts" and p: "\<And>n. N \<le> n \<Longrightarrow> parse_part (Suc n) line nt s = Ok c s'"
  have "parse_part n line nt s = Ok c s'" if "Suc N \<le> n" for n using that p [of "n - 1"] by (cases n) auto
  then show ?thesis using a unfolding parses_def by blast
qed

lemma parsesE:
  assumes "parses line nt s c ts"
  obtains s' N where "at line s' ts" "\<forall>n\<ge>N. parse_part n line nt s = Ok c s'"
  using assms unfolding parses_def by blast

lemma leads_follow: "follow cs ts \<Longrightarrow> set cs \<inter> set toks = {} \<Longrightarrow> CHR ''+'' \<notin> set cs \<Longrightarrow> \<not> leads toks ts"
  by (auto simp: follow_def leads_def)

lemma parseredirs_prints:
  assumes "at line s (concat (map print_redir rs) @ ts)" and "\<not> leads ''<>'' ts" and "\<forall>r\<in>set rs. redir_ok (snd r)"
  shows "\<exists>s' N. at line s' ts \<and> (\<forall>n\<ge>N. parseredirs n line rs0 s = Ok (rs0 @ rs) s')"
  using assms
proof (induction rs arbitrary: rs0 s)
  case Nil
  then have "at line s ts" by simp
  from peek_at [OF this, of "''<>''"] Nil.prems(2) obtain s' where s': "peek_tok line ''<>'' s = Ok False s'" "at line s' ts"
    by (auto simp: symbols_def)
  have "parseredirs n line rs0 s = Ok (rs0 @ []) s'" if "1 \<le> n" for n using that s' by (cases n) (auto simp: bindM_run)
  then show ?case using s'(2) by blast
next
  case (Cons r rs)
  obtain f m d where r: "r = (f, m, d)" by (cases r) auto
  let ?op = "if d = 0 then CHR ''<'' else CHR ''>''"
  let ?ts = "concat (map print_redir rs) @ ts"
  have a: "at line s (S ?op # W f # ?ts)" using Cons.prems(1) by (simp add: r print_redir_def [of "(f, m, d)"])
  from peek_at [OF a, of "''<>''"] obtain s1 where s1: "peek_tok line ''<>'' s = Ok True s1" "at line s1 (S ?op # W f # ?ts)"
    by (auto simp: symbols_def leads_def)
  from get_symbol [OF s1(2)] obtain w s2 where s2: "gettoken line s1 = Ok (?op, w) s2" "at line s2 (W f # ?ts)" by blast
  from get_word [OF s2(2)] obtain s3 where s3: "gettoken line s2 = Ok (CHR ''a'', f) s3" "at line s3 ?ts" by blast
  have fd: "(if ?op = CHR ''<'' then (f, O_RDONLY, 0) else (f, O_WRONLY OR O_CREATE, 1)) = r"
    using Cons.prems(3) r by (auto simp: redir_ok_def)
  from Cons.IH [OF s3(2) Cons.prems(2), of "rs0 @ [r]"] Cons.prems(3)
  obtain s' N where s': "at line s' ts" "\<forall>n\<ge>N. parseredirs n line (rs0 @ [r]) s3 = Ok ((rs0 @ [r]) @ rs) s'" by auto
  have "parseredirs n line rs0 s = Ok (rs0 @ r # rs) s'" if n: "Suc N \<le> n" for n
  proof -
    obtain k where k: "n = Suc k" "N \<le> k" using n by (cases n) auto
    show ?thesis using s1(1) s2(1) s3(1) s'(2) k fd by (simp add: bindM_run)
  qed
  then show ?case using s'(1) by blast
qed

lemma exec_loop_ends:
  assumes "at line s ts" and "follow ''|)&;'' ts"
  shows "parses line (Exec_Loop argv rs) s (redirs (EXEC argv) rs) ts"
proof -
  from peek_at [OF assms(1), of "''|)&;''"] obtain s1 where s1: "peek_tok line ''|)&;'' s = Ok (leads ''|)&;'' ts) s1" "at line s1 ts"
    by (auto simp: symbols_def)
  show ?thesis
  proof (cases "ts = []")
    case True
    then obtain w s2 where "gettoken line s1 = Ok (CHR 0x00, w) s2" "at line s2 []" using get_end s1(2) by blast
    then show ?thesis using s1 True by (intro parsesI [of line s2 _ 0]) (auto simp: parseexec_loop_def bindM_run leads_def)
  next
    case False
    then have "leads ''|)&;'' ts" using assms(2) by (auto simp: follow_def leads_def)
    then show ?thesis using s1 by (intro parsesI [of line s1 _ 0]) (auto simp: parseexec_loop_def bindM_run)
  qed
qed

lemma exec_loop_prints:
  assumes "at line s (map W ws @ concat (map print_redir rs) @ ts)" and "follow ''|)&;'' ts" and "ws \<noteq> []"
    and "length argv + length ws < MAXARGS" and "\<forall>r\<in>set rs. redir_ok (snd r)"
  shows "parses line (Exec_Loop argv rs0) s (redirs (EXEC (argv @ ws)) (rs0 @ rs)) ts"
  using assms
proof (induction ws arbitrary: argv rs0 s)
  case (Cons w ws)
  let ?ts = "map W ws @ concat (map print_redir rs) @ ts"
  have a: "at line s (W w # ?ts)" using Cons.prems(1) by simp
  from peek_at [OF a, of "''|)&;''"] obtain s1 where s1: "peek_tok line ''|)&;'' s = Ok False s1" "at line s1 (W w # ?ts)"
    by (auto simp: symbols_def leads_def)
  from get_word [OF s1(2)] obtain s2 where s2: "gettoken line s1 = Ok (CHR ''a'', w) s2" "at line s2 ?ts" by blast
  have room: "\<not> MAXARGS \<le> length (argv @ [w])" using Cons.prems(4) by simp
  have nr: "\<not> leads ''<>'' ts" using leads_follow [OF Cons.prems(2), of "''<>''"] by simp
  have step: "parses line (Exec_Loop argv rs0) s c ts"
    if s3: "\<forall>n\<ge>N. parseredirs n line rs0 s2 = Ok rs1 s3" and p: "parses line (Exec_Loop (argv @ [w]) rs1) s3 c ts" for N rs1 s3 c
  proof -
    from p obtain s' M where s': "at line s' ts" "\<forall>n\<ge>M. parse_part n line (Exec_Loop (argv @ [w]) rs1) s3 = Ok c s'" by (rule parsesE)
    then show ?thesis
      using s1(1) s2(1) room s3 by (intro parsesI [of line s' _ "max N M"]) (auto simp: parseexec_loop_def bindM_run)
  qed
  show ?case
  proof (cases "ws = []")
    case True
    then have "at line s2 (concat (map print_redir rs) @ ts)" using s2(2) by simp
    from parseredirs_prints [OF this nr Cons.prems(5), of rs0] obtain s3 N
      where s3: "at line s3 ts" "\<forall>n\<ge>N. parseredirs n line rs0 s2 = Ok (rs0 @ rs) s3" by blast
    from step [OF s3(2) exec_loop_ends [OF s3(1) Cons.prems(2)]] show ?thesis using True by simp
  next
    case False
    then have nl: "\<not> leads ''<>'' ?ts" by (cases ws) (auto simp: leads_def)
    have "at line s2 (concat (map print_redir []) @ ?ts)" using s2(2) by simp
    from parseredirs_prints [OF this nl, of rs0] obtain s3 N
      where s3: "at line s3 ?ts" "\<forall>n\<ge>N. parseredirs n line rs0 s2 = Ok rs0 s3" by auto
    have "parses line (Exec_Loop (argv @ [w]) rs0) s3 (redirs (EXEC ((argv @ [w]) @ ws)) (rs0 @ rs)) ts"
      using Cons.prems False by (intro Cons.IH s3(1)) auto
    from step [OF s3(2) this] show ?thesis by simp
  qed
qed simp

lemma leads_print_redirs: "leads ''('' (concat (map print_redir rs) @ ts) \<Longrightarrow> leads ''('' ts"
  by (cases rs) (auto simp: leads_def print_redir_def split: prod.splits if_splits)

lemma exec_prints:
  assumes "at line s (print 3 (redirs (EXEC ws) rs) @ ts)" and "follow ''|)&;'' ts"
    and "length ws < MAXARGS" and "\<forall>r\<in>set rs. redir_ok (snd r)"
  shows "parses line Exec_Cmd s (redirs (EXEC ws) rs) ts"
proof -
  let ?ts = "map W ws @ concat (map print_redir rs) @ ts"
  have a: "at line s ?ts" using assms(1) by (simp add: print_redirs)
  have nr: "\<not> leads ''<>'' ts" using leads_follow [OF assms(2), of "''<>''"] by simp
  have "\<not> leads ''('' ts" using leads_follow [OF assms(2), of "''(''"] by simp
  then have "\<not> leads ''('' ?ts"
  proof (cases ws)
    case Nil
    then show ?thesis using leads_print_redirs [of rs ts] \<open>\<not> leads ''('' ts\<close> by auto
  qed (simp add: leads_def)
  with peek_at [OF a, of "''(''"] obtain s1 where s1: "peek_tok line ''('' s = Ok False s1" "at line s1 ?ts"
    by (auto simp: symbols_def)
  have step: "parses line Exec_Cmd s c ts"
    if s3: "\<forall>n\<ge>N. parseredirs n line [] s1 = Ok rs1 s3" and p: "parses line (Exec_Loop [] rs1) s3 c ts" for N rs1 s3 c
  proof -
    from p obtain s' M where s': "at line s' ts" "\<forall>n\<ge>M. parse_part n line (Exec_Loop [] rs1) s3 = Ok c s'" by (rule parsesE)
    then show ?thesis using s1(1) s3 by (intro parsesI [of line s' _ "max N M"]) (auto simp: parseexec_def bindM_run)
  qed
  show ?thesis
  proof (cases "ws = []")
    case True
    then have "at line s1 (concat (map print_redir rs) @ ts)" using s1(2) by simp
    from parseredirs_prints [OF this nr assms(4), of "[]"] obtain s3 N
      where s3: "at line s3 ts" "\<forall>n\<ge>N. parseredirs n line [] s1 = Ok rs s3" by auto
    from step [OF s3(2) exec_loop_ends [OF s3(1) assms(2)]] show ?thesis using True by simp
  next
    case False
    then have nl: "\<not> leads ''<>'' ?ts" by (cases ws) (auto simp: leads_def)
    have "at line s1 (concat (map print_redir []) @ ?ts)" using s1(2) by simp
    from parseredirs_prints [OF this nl, of "[]"] obtain s3 N
      where s3: "at line s3 ?ts" "\<forall>n\<ge>N. parseredirs n line [] s1 = Ok [] s3" by auto
    have "parses line (Exec_Loop [] []) s3 (redirs (EXEC ([] @ ws)) ([] @ rs)) ts"
      using assms False by (intro exec_loop_prints s3(1)) auto
    from step [OF s3(2) this] show ?thesis by simp
  qed
qed

text \<open>What the parser does with a command that was printed at each level; at level 1 the loop over \<open>&\<close> goes on with it.\<close>

definition prints3 :: "string \<Rightarrow> (nat \<times> nat) cmd \<Rightarrow> bool" where
  "prints3 line c \<longleftrightarrow> (\<forall>s ts. at line s (print 3 c @ ts) \<longrightarrow> follow ''|)&;'' ts \<longrightarrow> parses line Exec_Cmd s c ts)"

definition prints2 :: "string \<Rightarrow> (nat \<times> nat) cmd \<Rightarrow> bool" where
  "prints2 line c \<longleftrightarrow> (\<forall>s ts. at line s (print 2 c @ ts) \<longrightarrow> follow '')&;'' ts \<longrightarrow> parses line Pipe_Line s c ts)"

definition prints1 :: "string \<Rightarrow> (nat \<times> nat) cmd \<Rightarrow> bool" where
  "prints1 line c \<longleftrightarrow> (\<forall>s ts. at line s (print 1 c @ ts) \<longrightarrow> follow '')&;'' ts \<longrightarrow>
     (\<exists>s'. at line s' ts \<and> (\<forall>d ts'. parses line (Line_Loop c) s' d ts' \<longrightarrow> parses line Line s d ts')))"

definition prints0 :: "string \<Rightarrow> (nat \<times> nat) cmd \<Rightarrow> bool" where
  "prints0 line c \<longleftrightarrow> (\<forall>s ts. at line s (print 0 c @ ts) \<longrightarrow> follow '')'' ts \<longrightarrow> parses line Line s c ts)"

lemma pipe_ends:
  assumes "parses line Exec_Cmd s c ts" and "\<not> leads ''|'' ts"
  shows "parses line Pipe_Line s c ts"
proof -
  from assms(1) obtain s1 N where s1: "at line s1 ts" "\<forall>n\<ge>N. parse_part n line Exec_Cmd s = Ok c s1" by (rule parsesE)
  from peek_at [OF s1(1), of "''|''"] assms(2) obtain s2 where s2: "peek_tok line ''|'' s1 = Ok False s2" "at line s2 ts" by (auto simp: symbols_def)
  show ?thesis using s1(2) s2 by (intro parsesI [of line s2 _ N]) (auto simp: parsepipe_def bindM_run)
qed

lemma prints2_from_3: "prints3 line c \<Longrightarrow> print 2 c = print 3 c \<Longrightarrow> prints2 line c"
  unfolding prints2_def
proof (intro allI impI)
  fix s ts assume "prints3 line c" "print 2 c = print 3 c" "at line s (print 2 c @ ts)" and f: "follow '')&;'' ts"
  moreover have "follow ''|)&;'' ts" using f by (auto simp: follow_def)
  ultimately have "parses line Exec_Cmd s c ts" by (simp add: prints3_def)
  then show "parses line Pipe_Line s c ts" using leads_follow [OF f, of "''|''"] by (intro pipe_ends) auto
qed

lemma prints2_pipe:
  assumes "prints3 line a" and "prints2 line b"
  shows "prints2 line (PIPE a b)"
  unfolding prints2_def
proof (intro allI impI)
  fix s ts assume a: "at line s (print 2 (PIPE a b) @ ts)" and f: "follow '')&;'' ts"
  let ?ts = "S CHR ''|'' # print 2 b @ ts"
  have "at line s (print 3 a @ ?ts)" "follow ''|)&;'' ?ts" using a by (auto simp: parens_def follow_def)
  then have "parses line Exec_Cmd s a ?ts" using assms(1) by (simp add: prints3_def)
  then obtain s1 N where s1: "at line s1 ?ts" "\<forall>n\<ge>N. parse_part n line Exec_Cmd s = Ok a s1" by (rule parsesE)
  from peek_at [OF s1(1), of "''|''"] obtain s2 where s2: "peek_tok line ''|'' s1 = Ok True s2" "at line s2 ?ts" by (auto simp: symbols_def leads_def)
  from get_symbol [OF s2(2)] obtain w s3 where s3: "gettoken line s2 = Ok (CHR ''|'', w) s3" "at line s3 (print 2 b @ ts)" by blast
  have "parses line Pipe_Line s3 b ts" using assms(2) s3(2) f by (simp add: prints2_def)
  then obtain s4 M where s4: "at line s4 ts" "\<forall>n\<ge>M. parse_part n line Pipe_Line s3 = Ok b s4" by (rule parsesE)
  show "parses line Pipe_Line s (PIPE a b) ts"
    using s1(2) s2(1) s3(1) s4 by (intro parsesI [of line s4 _ "max N M"]) (auto simp: parsepipe_def bindM_run)
qed

lemma prints1_from_2: "prints2 line c \<Longrightarrow> print 1 c = print 2 c \<Longrightarrow> prints1 line c"
  unfolding prints1_def
proof (intro allI impI)
  fix s ts assume "prints2 line c" "print 1 c = print 2 c" "at line s (print 1 c @ ts)" and f: "follow '')&;'' ts"
  then have "parses line Pipe_Line s c ts" by (simp add: prints2_def)
  then obtain s1 N where s1: "at line s1 ts" "\<forall>n\<ge>N. parse_part n line Pipe_Line s = Ok c s1" by (rule parsesE)
  have "parses line Line s d ts'" if p: "parses line (Line_Loop c) s1 d ts'" for d ts'
  proof -
    from p obtain s2 M where s2: "at line s2 ts'" "\<forall>n\<ge>M. parse_part n line (Line_Loop c) s1 = Ok d s2" by (rule parsesE)
    then show ?thesis using s1(2) by (intro parsesI [of line s2 _ "max N M"]) (auto simp: parseline_def bindM_run)
  qed
  then show "\<exists>s'. at line s' ts \<and> (\<forall>d ts'. parses line (Line_Loop c) s' d ts' \<longrightarrow> parses line Line s d ts')" using s1(1) by blast
qed

lemma prints1_back: "prints1 line c \<Longrightarrow> prints1 line (BACK c)"
  unfolding prints1_def [of line "BACK c"]
proof (intro allI impI)
  fix s ts assume c: "prints1 line c" and a: "at line s (print 1 (BACK c) @ ts)" and f: "follow '')&;'' ts"
  let ?ts = "S CHR ''&'' # ts"
  have "at line s (print 1 c @ ?ts)" "follow '')&;'' ?ts" using a by (auto simp: parens_def follow_def)
  then obtain s1 where s1: "at line s1 ?ts" "\<forall>d ts'. parses line (Line_Loop c) s1 d ts' \<longrightarrow> parses line Line s d ts'"
    using c unfolding prints1_def by blast
  from peek_at [OF s1(1), of "''&''"] obtain s2 where s2: "peek_tok line ''&'' s1 = Ok True s2" "at line s2 ?ts" by (auto simp: symbols_def leads_def)
  from get_symbol [OF s2(2)] obtain w s3 where s3: "gettoken line s2 = Ok (CHR ''&'', w) s3" "at line s3 ts" by blast
  have "parses line (Line_Loop c) s1 d ts'" if p: "parses line (Line_Loop (BACK c)) s3 d ts'" for d ts'
  proof -
    from p obtain s4 M where s4: "at line s4 ts'" "\<forall>n\<ge>M. parse_part n line (Line_Loop (BACK c)) s3 = Ok d s4" by (rule parsesE)
    then show ?thesis using s2(1) s3(1) by (intro parsesI [of line s4 _ M]) (auto simp: parseline_loop_def bindM_run)
  qed
  then show "\<exists>s'. at line s' ts \<and> (\<forall>d ts'. parses line (Line_Loop (BACK c)) s' d ts' \<longrightarrow> parses line Line s d ts')"
    using s1(2) s3(2) by blast
qed

lemma line_loop_peeks:
  assumes "at line s ts" and "\<not> leads ''&'' ts"
  shows "\<exists>s1 s2. peek_tok line ''&'' s = Ok False s1 \<and> peek_tok line '';'' s1 = Ok (leads '';'' ts) s2 \<and> at line s2 ts"
proof -
  from peek_at [OF assms(1), of "''&''"] assms(2) obtain s1 where s1: "peek_tok line ''&'' s = Ok False s1" "at line s1 ts" by (auto simp: symbols_def)
  from peek_at [OF s1(2), of "'';''"] obtain s2 where "peek_tok line '';'' s1 = Ok (leads '';'' ts) s2" "at line s2 ts" by (auto simp: symbols_def)
  then show ?thesis using s1 by blast
qed

lemma prints0_from_1: "prints1 line c \<Longrightarrow> print 0 c = print 1 c \<Longrightarrow> prints0 line c"
  unfolding prints0_def
proof (intro allI impI)
  fix s ts assume c: "prints1 line c" and pr: "print 0 c = print 1 c" and a: "at line s (print 0 c @ ts)" and f: "follow '')'' ts"
  have "follow '')&;'' ts" using f by (auto simp: follow_def)
  with c a pr have "\<exists>s'. at line s' ts \<and> (\<forall>d ts'. parses line (Line_Loop c) s' d ts' \<longrightarrow> parses line Line s d ts')"
    unfolding prints1_def by metis
  then obtain s1 where s1: "at line s1 ts" "\<forall>d ts'. parses line (Line_Loop c) s1 d ts' \<longrightarrow> parses line Line s d ts'" by blast
  obtain s2 s3 where "peek_tok line ''&'' s1 = Ok False s2" "peek_tok line '';'' s2 = Ok False s3" "at line s3 ts"
    using line_loop_peeks [OF s1(1)] leads_follow [OF f, of "''&''"] leads_follow [OF f, of "'';''"] by auto
  then have "parses line (Line_Loop c) s1 c ts" by (intro parsesI [of line s3 _ 0]) (auto simp: parseline_loop_def bindM_run)
  then show "parses line Line s c ts" using s1(2) by blast
qed

lemma prints0_list:
  assumes "prints1 line a" and "prints0 line b"
  shows "prints0 line (LIST a b)"
  unfolding prints0_def
proof (intro allI impI)
  fix s ts assume a: "at line s (print 0 (LIST a b) @ ts)" and f: "follow '')'' ts"
  let ?ts = "S CHR '';'' # print 0 b @ ts"
  have "at line s (print 1 a @ ?ts)" "follow '')&;'' ?ts" using a by (auto simp: parens_def follow_def)
  then obtain s1 where s1: "at line s1 ?ts" "\<forall>d ts'. parses line (Line_Loop a) s1 d ts' \<longrightarrow> parses line Line s d ts'"
    using assms(1) unfolding prints1_def by blast
  have "\<not> leads ''&'' ?ts" "leads '';'' ?ts" by (simp_all add: leads_def)
  then obtain s2 s3 where s3: "peek_tok line ''&'' s1 = Ok False s2" "peek_tok line '';'' s2 = Ok True s3" "at line s3 ?ts"
    using line_loop_peeks [OF s1(1)] by auto
  from get_symbol [OF s3(3)] obtain w s4 where s4: "gettoken line s3 = Ok (CHR '';'', w) s4" "at line s4 (print 0 b @ ts)" by blast
  have "parses line Line s4 b ts" using assms(2) s4(2) f by (simp add: prints0_def)
  then obtain s5 M where s5: "at line s5 ts" "\<forall>n\<ge>M. parse_part n line Line s4 = Ok b s5" by (rule parsesE)
  then have "parses line (Line_Loop a) s1 (LIST a b) ts"
    using s3(1,2) s4(1) by (intro parsesI [of line s5 _ M]) (auto simp: parseline_loop_def bindM_run)
  then show "parses line Line s (LIST a b) ts" using s1(2) by blast
qed

lemma block_prints:
  assumes "prints0 line core" and "print 3 core = S CHR ''('' # print 0 core @ [S CHR '')'']"
    and a: "at line s (print 3 (redirs core rs) @ ts)" and f: "follow ''|)&;'' ts" and "\<forall>r\<in>set rs. redir_ok (snd r)"
  shows "parses line Exec_Cmd s (redirs core rs) ts"
proof -
  let ?r = "concat (map print_redir rs) @ ts"
  let ?ts = "S CHR ''('' # print 0 core @ S CHR '')'' # ?r"
  have "at line s ?ts" using a assms(2) by (simp add: print_redirs)
  from peek_at [OF this, of "''(''"] obtain s1 where s1: "peek_tok line ''('' s = Ok True s1" "at line s1 ?ts" by (auto simp: symbols_def leads_def)
  from peek_at [OF s1(2), of "''(''"] obtain s2 where s2: "peek_tok line ''('' s1 = Ok True s2" "at line s2 ?ts" by (auto simp: symbols_def leads_def)
  from get_symbol [OF s2(2)] obtain w s3 where s3: "gettoken line s2 = Ok (CHR ''('', w) s3" "at line s3 (print 0 core @ S CHR '')'' # ?r)" by blast
  have "parses line Line s3 core (S CHR '')'' # ?r)" using assms(1) s3(2) by (simp add: prints0_def follow_def)
  then obtain s4 N where s4: "at line s4 (S CHR '')'' # ?r)" "\<forall>n\<ge>N. parse_part n line Line s3 = Ok core s4" by (rule parsesE)
  from peek_at [OF s4(1), of "'')''"] obtain s5 where s5: "peek_tok line '')'' s4 = Ok True s5" "at line s5 (S CHR '')'' # ?r)" by (auto simp: symbols_def leads_def)
  from get_symbol [OF s5(2)] obtain w' s6 where s6: "gettoken line s5 = Ok (CHR '')'', w') s6" "at line s6 ?r" by blast
  have "\<not> leads ''<>'' ts" using leads_follow [OF f, of "''<>''"] by simp
  from parseredirs_prints [OF s6(2) this assms(5), of "[]"] obtain s7 M
    where s7: "at line s7 ts" "\<forall>n\<ge>M. parseredirs n line [] s6 = Ok rs s7" by auto
  have b: "parses line Block s1 (redirs core rs) ts"
    using s2(1) s3(1) s4(2) s5(1) s6(1) s7 by (intro parsesI [of line s7 _ "max N M"]) (auto simp: parseblock_def bindM_run)
  then obtain s8 K where s8: "at line s8 ts" "\<forall>n\<ge>K. parse_part n line Block s1 = Ok (redirs core rs) s8" by (rule parsesE)
  then show ?thesis using s1(1) by (intro parsesI [of line s8 _ K]) (auto simp: parseexec_def bindM_run)
qed


definition prints :: "string \<Rightarrow> (nat \<times> nat) cmd \<Rightarrow> bool" where
  "prints line c \<longleftrightarrow> prints3 line c \<and> prints2 line c \<and> prints1 line c \<and> prints0 line c"

text \<open>A command that needs no parentheses at a level gets the properties of the looser levels from it.\<close>

lemma prints_from_3: "prints3 line c \<Longrightarrow> \<forall>k. print k c = print 3 c \<Longrightarrow> prints line c"
  unfolding prints_def by (metis prints2_from_3 prints1_from_2 prints0_from_1)

lemma prints3_block:
  assumes "prints0 line c" and "print 3 c = S CHR ''('' # print 0 c @ [S CHR '')'']"
  shows "prints3 line c"
  using block_prints [OF assms, where rs = "[]"] by (simp add: prints3_def)

lemma prints_cmd: "cmd_ok c \<Longrightarrow> prints line c"
proof (induction "size c" arbitrary: c rule: less_induct)
  case (less c)
  have IH: "prints line c'" if "size c' < size c" "cmd_ok c'" for c' using less.hyps that by blast
  show ?case
  proof (cases c)
    case (EXEC ws)
    have "prints3 line c"
      using exec_prints [where rs = "[]" and ws = ws and line = line] less.prems EXEC by (simp add: prints3_def)
    then show ?thesis using EXEC by (intro prints_from_3) auto
  next
    case (REDIR c0 f m d)
    obtain core rs where c: "c = redirs core rs" "\<And>c' f m d. core \<noteq> REDIR c' f m d" "rs = [] \<or> size core < size c"
        "cmd_ok core" "\<forall>r\<in>set rs. redir_ok (snd r)" using redirs_split [of c] less.prems by blast
    have "rs \<noteq> []" using c(1) c(2) [of c0 f m d] REDIR by (cases rs) auto
    then have "size core < size c" using c(3) by simp
    then have core: "prints0 line core" using IH c(4) by (simp add: prints_def)
    have "prints3 line c"
      unfolding prints3_def
    proof (intro allI impI)
      fix s ts assume a: "at line s (print 3 c @ ts)" and f: "follow ''|)&;'' ts"
      show "parses line Exec_Cmd s c ts"
      proof (cases core)
        case (EXEC ws)
        then show ?thesis using exec_prints [OF _ f _ c(5)] a c(1,4) by simp
      next
        case (REDIR c' f m d)
        then show ?thesis using c(2) by blast
      qed (use block_prints [OF core _ _ f c(5)] a c(1) in \<open>simp_all add: parens_def\<close>)
    qed
    then show ?thesis using REDIR by (intro prints_from_3) auto
  next
    case (PIPE a b)
    have "prints line a" "prints line b" using PIPE less.prems by (auto intro!: IH)
    then have "prints2 line c" using PIPE by (simp add: prints_def prints2_pipe)
    moreover from this have "prints1 line c" using PIPE by (intro prints1_from_2) (simp_all add: parens_def)
    moreover from this have "prints0 line c" using PIPE by (intro prints0_from_1) (simp_all add: parens_def)
    moreover from this have "prints3 line c" using PIPE by (intro prints3_block) (simp_all add: parens_def)
    ultimately show ?thesis by (simp add: prints_def)
  next
    case (LIST a b)
    have "prints line a" "prints line b" using LIST less.prems by (auto intro!: IH)
    then have "prints0 line c" using LIST by (simp add: prints_def prints0_list)
    moreover from this have "prints3 line c" using LIST by (intro prints3_block) (simp_all add: parens_def)
    moreover from this have "prints2 line c" using LIST by (intro prints2_from_3) (simp_all add: parens_def)
    moreover from this have "prints1 line c" using LIST by (intro prints1_from_2) (simp_all add: parens_def)
    ultimately show ?thesis by (simp add: prints_def)
  next
    case (BACK a)
    have "prints line a" using BACK less.prems by (auto intro!: IH)
    then have "prints1 line c" using BACK by (simp add: prints_def prints1_back)
    moreover from this have "prints0 line c" using BACK by (intro prints0_from_1) (simp_all add: parens_def)
    moreover from this have "prints3 line c" using BACK by (intro prints3_block) (simp_all add: parens_def)
    moreover from this have "prints2 line c" using BACK by (intro prints2_from_3) (simp_all add: parens_def)
    ultimately show ?thesis by (simp add: prints_def)
  qed
qed

section \<open>Fuel\<close>

text \<open>More turns do not change a result.\<close>

definition same_result :: "('a, 's) res \<Rightarrow> ('a, 's) res \<Rightarrow> bool" where
  "same_result r r' \<longleftrightarrow> (\<exists>s. r = Spins s) \<or> r' = r"

lemma same_bind:
  assumes "same_result (m s) (m' s)" and "\<And>x s'. m s = Ok x s' \<Longrightarrow> same_result (f x s') (f' x s')"
  shows "same_result (bindM m f s) (bindM m' f' s)"
  using assms by (cases "m s") (auto simp: same_result_def bindM_run)

lemma same_refl [simp]: "same_result r r"
  by (simp add: same_result_def)

lemma same_parseredirs: "n \<le> m \<Longrightarrow> same_result (parseredirs n line rs s) (parseredirs m line rs s)"
proof (induction n arbitrary: m rs s)
  case (Suc n)
  then obtain m' where m: "m = Suc m'" "n \<le> m'" by (cases m) auto
  show ?case
    unfolding m(1) parseredirs.simps by (auto intro!: same_bind Suc.IH m(2) split: prod.split)
qed (simp add: same_result_def)

lemma same_parse: "n \<le> m \<Longrightarrow> same_result (parse_part n line nt s) (parse_part m line nt s)"
proof (induction n arbitrary: m nt s)
  case (Suc n)
  then obtain m' where m: "m = Suc m'" "n \<le> m'" by (cases m) auto
  note defs = parseline_def parseline_loop_def parsepipe_def parseexec_def parseexec_loop_def parseblock_def
  show ?case
    unfolding m(1) parse_part.simps
    by (cases nt) (auto simp: defs intro!: same_bind Suc.IH same_parseredirs m(2) split: prod.split)
qed (simp add: same_result_def)


section \<open>Lines\<close>

text \<open>
  A line spells tokens when it is their texts in order, with any white space around them. None is needed, except that a word must not
  run into the next word and \<open>>\<close> not into another \<open>>\<close>.
\<close>

definition word_char :: "char \<Rightarrow> bool" where
  "word_char c \<longleftrightarrow> c \<notin> set whitespace \<and> c \<notin> set symbols \<and> c \<noteq> CHR 0x00"

definition token_text :: "string token \<Rightarrow> string" where
  "token_text t = (case t of W w \<Rightarrow> w | S c \<Rightarrow> [c])"

definition token_ok :: "string token \<Rightarrow> bool" where
  "token_ok t \<longleftrightarrow> (case t of W w \<Rightarrow> w \<noteq> [] \<and> (\<forall>c\<in>set w. word_char c) | S c \<Rightarrow> c \<in> set symbols)"

definition sep_ok :: "string token \<Rightarrow> string \<Rightarrow> bool" where
  "sep_ok t line \<longleftrightarrow> line = [] \<or> (case t of W w \<Rightarrow> \<not> word_char (hd line) | S c \<Rightarrow> \<not> (c = CHR ''>'' \<and> hd line = CHR ''>''))"

inductive spells :: "string token list \<Rightarrow> string \<Rightarrow> bool" where
  spells_Nil: "set w \<subseteq> set whitespace \<Longrightarrow> spells [] w"
| spells_Cons: "set w \<subseteq> set whitespace \<Longrightarrow> token_ok t \<Longrightarrow> sep_ok t line \<Longrightarrow> spells ts line \<Longrightarrow> spells (t # ts) (w @ token_text t @ line)"

definition slice :: "string \<Rightarrow> nat \<times> nat \<Rightarrow> string" where
  "slice line w = take (snd w - fst w) (drop (fst w) line)"

lemma skip_white_append:
  "set w \<subseteq> set whitespace \<Longrightarrow> rest = [] \<or> hd rest \<notin> set whitespace \<Longrightarrow> skip_white (pre @ w @ rest) (length pre) = length pre + length w"
proof (induction w arbitrary: pre)
  case Nil
  then show ?case by (subst skip_white.simps) (auto simp: nth_append hd_conv_nth)
next
  case (Cons c w)
  have "skip_white (pre @ (c # w) @ rest) (length pre) = skip_white ((pre @ [c]) @ w @ rest) (length (pre @ [c]))"
    using Cons.prems(1) by (subst skip_white.simps) (simp add: nth_append)
  also have "\<dots> = length pre + length (c # w)" using Cons.IH [of "pre @ [c]"] Cons.prems by simp
  finally show ?case .
qed

lemma word_end_append:
  "\<forall>c\<in>set w. word_char c \<Longrightarrow> rest = [] \<or> \<not> word_char (hd rest) \<Longrightarrow> CHR 0x00 \<notin> set rest \<Longrightarrow>
   word_end (pre @ w @ rest) (length pre) = length pre + length w"
proof (induction w arbitrary: pre)
  case Nil
  then show ?case by (subst word_end.simps) (cases rest; auto simp: nth_append word_char_def)
next
  case (Cons c w)
  have "word_end (pre @ (c # w) @ rest) (length pre) = word_end ((pre @ [c]) @ w @ rest) (length (pre @ [c]))"
    using Cons.prems(1) by (subst word_end.simps) (simp add: nth_append word_char_def)
  also have "\<dots> = length pre + length (c # w)" using Cons.IH [of "pre @ [c]"] Cons.prems by simp
  finally show ?case .
qed

lemma no_nul:
  "set w \<subseteq> set whitespace \<Longrightarrow> CHR 0x00 \<notin> set w" "token_ok t \<Longrightarrow> CHR 0x00 \<notin> set (token_text t)"
  by (auto simp: whitespace_def token_ok_def token_text_def symbols_def word_char_def split: token.splits)

lemma spells_no_nul: "spells ts line \<Longrightarrow> CHR 0x00 \<notin> set line"
  by (induction rule: spells.induct) (auto simp: no_nul)

lemma token_first: "token_ok t \<Longrightarrow> \<exists>c r. token_text t = c # r \<and> c \<notin> set whitespace"
proof (cases t)
  case (W w)
  then show "token_ok t \<Longrightarrow> ?thesis" by (cases w) (simp_all add: token_ok_def token_text_def word_char_def)
next
  case (S c)
  have "set symbols \<inter> set whitespace = {}" by (simp add: symbols_def whitespace_def)
  then show "token_ok t \<Longrightarrow> ?thesis" using S by (auto simp: token_ok_def token_text_def)
qed

lemma gettoken_spelled:
  assumes "token_ok t" and "sep_ok t rest" and "CHR 0x00 \<notin> set rest" and "line = pre @ token_text t @ rest"
  shows "\<exists>k. gettoken line (length pre) = Ok (k, length pre, length pre + length (token_text t)) (skip_white line (length pre + length (token_text t)))
    \<and> k \<noteq> CHR 0x00 \<and> (case t of W w \<Rightarrow> k = CHR ''a'' | S c \<Rightarrow> k = c \<and> k \<noteq> CHR ''a'')"
proof -
  obtain c r where c: "token_text t = c # r" "c \<notin> set whitespace" using token_first [OF assms(1)] by blast
  have sk: "skip_white line (length pre) = length pre"
    using skip_white_append [of "[]" "token_text t @ rest" pre] c assms(4) by simp
  have at0: "char_at line (length pre) = c" using c assms(4) by (simp add: char_at_def nth_append)
  show ?thesis
  proof (cases t)
    case (W w)
    then have w: "\<forall>c\<in>set w. word_char c" "token_text t = w" using assms(1) by (auto simp: token_ok_def token_text_def)
    then have "word_char c" using c by auto
    moreover have "word_end line (length pre) = length pre + length w"
      using word_end_append [OF w(1), of rest pre] assms(2-4) W w(2) by (simp add: sep_ok_def)
    ultimately show ?thesis using W w(2) sk at0 by (auto simp: gettoken_def Let_def word_char_def symbols_def)
  next
    case (S d)
    then have d: "d = c" "c \<in> set symbols" "token_text t = [c]" using assms(1) c by (auto simp: token_ok_def token_text_def)
    have "char_at line (length pre + 1) \<noteq> CHR ''>''" if "c = CHR ''>''"
      using assms(2,4) S d that by (cases rest) (auto simp: sep_ok_def char_at_def nth_append)
    moreover have "c = CHR ''>'' \<or> c \<in> set ''|();&<''" "c \<noteq> CHR 0x00" "c \<noteq> CHR ''a''" using d(2) by (auto simp: symbols_def)
    ultimately have "gettoken line (length pre) = Ok (c, length pre, length pre + 1) (skip_white line (length pre + 1))"
      using sk at0 by (cases "c = CHR ''>''") (simp_all add: gettoken_def Let_def)
    then show ?thesis using S d \<open>c \<noteq> CHR 0x00\<close> \<open>c \<noteq> CHR ''a''\<close> by simp
  qed
qed

lemma tokens_spelled:
  "spells ts rest \<Longrightarrow> line = pre @ rest \<Longrightarrow> map (map_token (slice line)) (tokens line (length pre)) = ts"
proof (induction arbitrary: pre rule: spells.induct)
  case (spells_Nil w)
  then have "skip_white line (length pre) = length line" using skip_white_append [of w "[]" pre] by simp
  then have "tokens line (length line) = tokens line (length pre)" using tokens_skip [of "length pre" line] spells_Nil by simp
  moreover have "tokens line (length line) = []"
    using skip_white_bounds [where line = line and s = "length line"] by (subst tokens.simps) (simp add: gettoken_def char_at_def Let_def)
  ultimately show ?case by simp
next
  case (spells_Cons w t rest ts)
  let ?pre = "pre @ w" and ?p = "length (pre @ w @ token_text t)"
  have line: "line = ?pre @ token_text t @ rest" "line = (pre @ w @ token_text t) @ rest" using spells_Cons.prems by simp_all
  obtain c r where c: "token_text t = c # r" "c \<notin> set whitespace" using token_first [OF spells_Cons.hyps(2)] by blast
  have "skip_white line (length pre) = length ?pre"
    using skip_white_append [OF spells_Cons.hyps(1), of "token_text t @ rest" pre] c line by simp
  then have start: "tokens line (length pre) = tokens line (length ?pre)" using tokens_skip [of "length pre" line] line by simp
  obtain k where k: "gettoken line (length ?pre) = Ok (k, length ?pre, ?p) (skip_white line ?p)" "k \<noteq> CHR 0x00"
      "case t of W w \<Rightarrow> k = CHR ''a'' | S c \<Rightarrow> k = c \<and> k \<noteq> CHR ''a''"
    using gettoken_spelled [OF spells_Cons.hyps(2,3) spells_no_nul [OF spells_Cons.hyps(4)] line(1)] by (auto simp: add.assoc)
  have "tokens line (skip_white line ?p) = tokens line ?p" using tokens_skip [of ?p line] line by simp
  then have "tokens line (length ?pre) = (if k = CHR ''a'' then W (length ?pre, ?p) else S k) # tokens line ?p"
    using k(1,2) line(1) by (subst tokens.simps) simp
  moreover have "slice line (length ?pre, ?p) = token_text t" using line(1) by (simp add: slice_def)
  moreover have "map (map_token (slice line)) (tokens line ?p) = ts" by (rule spells_Cons.IH [OF line(2)])
  ultimately show ?case using start k(3) by (cases t) (auto simp: token_text_def)
qed


section \<open>Words as strings\<close>

lemma map_token_iff [simp]:
  "map_token f t = W x \<longleftrightarrow> (\<exists>w. t = W w \<and> f w = x)" "map_token f t = S c \<longleftrightarrow> t = S c"
  "W x = map_token f t \<longleftrightarrow> (\<exists>w. t = W w \<and> f w = x)" "S c = map_token f t \<longleftrightarrow> t = S c"
  by (cases t; auto)+

lemma map_words: "map (map_token f) ts = map W ws \<Longrightarrow> \<exists>ws'. ts = map W ws' \<and> map f ws' = ws"
proof (induction ws arbitrary: ts)
  case (Cons w ws)
  then obtain t ts' where t: "ts = t # ts'" "map_token f t = W w" "map (map_token f) ts' = map W ws" by auto
  from Cons.IH [OF t(3)] obtain ws' where "ts' = map W ws'" "map f ws' = ws" by blast
  moreover obtain w' where "t = W w'" "f w' = w" using t(2) by auto
  ultimately show ?case using t(1) by (intro exI [of _ "w' # ws'"]) simp
qed simp

lemma map_between: "map (map_token f) ts = us @ [S c] @ vs \<Longrightarrow>
    \<exists>ts1 ts2. ts = ts1 @ [S c] @ ts2 \<and> map (map_token f) ts1 = us \<and> map (map_token f) ts2 = vs"
proof -
  assume "map (map_token f) ts = us @ [S c] @ vs"
  then obtain ts1 ts2 where "ts = ts1 @ S c # ts2" "map (map_token f) ts1 = us" "map (map_token f) ts2 = vs"
    by (auto simp: map_eq_append_conv map_eq_Cons_conv)
  then show ?thesis by (intro exI [of _ ts1] exI [of _ ts2]) simp
qed

lemma map_parens: "map (map_token f) ts = parens b us \<Longrightarrow> \<exists>ts'. ts = parens b ts' \<and> map (map_token f) ts' = us"
  by (auto simp: parens_def map_eq_append_conv map_eq_Cons_conv split: if_split_asm)

lemma print_of_map: "map (map_token f) ts = print k c \<Longrightarrow> \<exists>c'. ts = print k c' \<and> map_cmd f c' = c"
proof (induction c arbitrary: ts k)
  case (EXEC ws)
  then have "map (map_token f) ts = map W ws" by simp
  from map_words [OF this] obtain ws' where "ts = map W ws'" "map f ws' = ws" by blast
  then show ?case by (intro exI [of _ "EXEC ws'"]) simp
next
  case (REDIR c w m d)
  then obtain ts1 ts2 where ts: "ts = ts1 @ ts2" "map (map_token f) ts1 = print 3 c" "map (map_token f) ts2 = print_redir (w, m, d)"
    by (auto simp: map_eq_append_conv)
  then obtain c' w' where "ts1 = print 3 c'" "map_cmd f c' = c" "ts2 = print_redir (w', m, d)" "f w' = w"
    using REDIR.IH [OF ts(2)] by (auto simp: print_redir_def map_eq_Cons_conv)
  then show ?case using ts(1) by (intro exI [of _ "REDIR c' w' m d"]) simp
next
  case (PIPE l r)
  then obtain ts' where ts: "ts = parens (2 < k) ts'" "map (map_token f) ts' = print 3 l @ [S CHR ''|''] @ print 2 r" using map_parens by force
  then obtain l' r' where "ts' = print 3 l' @ [S CHR ''|''] @ print 2 r'" "map_cmd f l' = l" "map_cmd f r' = r"
    using map_between [OF ts(2)] PIPE.IH by blast
  then show ?case using ts(1) by (intro exI [of _ "PIPE l' r'"]) simp
next
  case (LIST l r)
  then obtain ts' where ts: "ts = parens (0 < k) ts'" "map (map_token f) ts' = print 1 l @ [S CHR '';''] @ print 0 r" using map_parens by force
  then obtain l' r' where "ts' = print 1 l' @ [S CHR '';''] @ print 0 r'" "map_cmd f l' = l" "map_cmd f r' = r"
    using map_between [OF ts(2)] LIST.IH by blast
  then show ?case using ts(1) by (intro exI [of _ "LIST l' r'"]) simp
next
  case (BACK c)
  then obtain ts' where ts: "ts = parens (1 < k) ts'" "map (map_token f) ts' = print 1 c @ [S CHR ''&''] @ []" using map_parens by force
  then obtain c' where "ts' = print 1 c' @ [S CHR ''&'']" "map_cmd f c' = c"
    using map_between [OF ts(2)] BACK.IH by blast
  then show ?case using ts(1) by (intro exI [of _ "BACK c'"]) simp
qed

lemma cmd_ok_map [simp]: "cmd_ok (map_cmd f c) = cmd_ok c"
  by (induction c) auto

lemma words_printed: "w \<in> set_cmd c \<Longrightarrow> W w \<in> set (print k c)"
  by (induction c arbitrary: k) (auto simp: parens_def print_redir_def)

text \<open>The slices of the words of a line hold word characters and end at another one.\<close>

lemma word_end_word: "i < word_end line s \<Longrightarrow> s \<le> i \<Longrightarrow> line ! i \<notin> set whitespace \<and> line ! i \<notin> set symbols"
    "word_end line s < length line \<Longrightarrow> line ! word_end line s \<in> set whitespace \<or> line ! word_end line s \<in> set symbols"
proof (induction line s rule: word_end.induct)
  case (1 line s)
  { case 1 then show ?case using "1.IH"(1) word_end.simps [of line s] by (cases "i = s") (auto split: if_split_asm) }
  { case 2 then show ?case using "1.IH"(2) word_end.simps [of line s] by (auto split: if_split_asm) }
qed

definition word_at :: "string \<Rightarrow> nat \<times> nat \<Rightarrow> bool" where
  "word_at line w \<longleftrightarrow> fst w \<le> snd w \<and> snd w \<le> length line \<and> (\<forall>i. fst w \<le> i \<and> i < snd w \<longrightarrow> word_char (line ! i))
     \<and> (snd w < length line \<longrightarrow> \<not> word_char (line ! snd w))"

lemma gettoken_word:
  assumes "gettoken line s = Ok (CHR ''a'', w) s'" and "s \<le> length line" and "CHR 0x00 \<notin> set line"
  shows "word_at line w"
proof -
  let ?q = "skip_white line s"
  have q: "?q \<le> length line" using skip_white_bounds assms(2) by simp
  have "CHR ''a'' \<noteq> char_at line ?q" if "char_at line ?q \<in> set ''|();&<''" using that by auto
  then have w: "w = (?q, word_end line ?q)" using assms(1) by (simp add: gettoken_def Let_def split: if_split_asm)
  have b: "?q \<le> word_end line ?q" "word_end line ?q \<le> length line" using word_end_bounds [of ?q line] q by auto
  moreover have "word_char (line ! i)" if "?q \<le> i" "i < word_end line ?q" for i
  proof -
    have "i < length line" using that b(2) by simp
    then have "line ! i \<noteq> CHR 0x00" using assms(3) nth_mem [of i line] by metis
    then show ?thesis using word_end_word(1) [OF that(2,1)] by (simp add: word_char_def)
  qed
  ultimately show ?thesis using w word_end_word(2) [of line ?q] by (auto simp: word_at_def word_char_def)
qed

lemma tokens_word_at: "CHR 0x00 \<notin> set line \<Longrightarrow> W w \<in> set (tokens line s) \<Longrightarrow> word_at line w"
proof (induction line s rule: tokens.induct)
  case (1 line s)
  show ?case
  proof (cases "length line < s")
    case True
    then show ?thesis using "1.prems"(2) by (simp add: tokens.simps)
  next
    case False
    then obtain t q e s' where g: "gettoken line s = Ok (t, q, e) s'" using gettoken_run [of s line] by auto
    show ?thesis
    proof (cases "t = CHR 0x00")
      case True
      then show ?thesis using "1.prems"(2) False g by (simp add: tokens.simps [of line s])
    next
      case no: False
      then have "W w \<in> insert (if t = CHR ''a'' then W (q, e) else S t) (set (tokens line s'))"
        using "1.prems"(2) False g by (simp add: tokens.simps [of line s])
      then show ?thesis
        using "1.IH" [OF False g refl no "1.prems"(1)] gettoken_word [OF _ _ "1.prems"(1), of s "(q, e)" s'] g False
        by (auto split: if_split_asm)
    qed
  qed
qed

section \<open>Terminating the words\<close>

lemma foldl_nul: "length (foldl (\<lambda>buf w. buf[snd w := CHR 0x00]) buf ws) = length buf"
    "i < length buf \<Longrightarrow> foldl (\<lambda>buf w. buf[snd w := CHR 0x00]) buf ws ! i = (if i \<in> snd ` set ws then CHR 0x00 else buf ! i)"
  by (induction ws arbitrary: buf) (auto simp: nth_list_update)

lemma nulterminate_length [simp]: "length (nulterminate c buf) = length buf"
  by (induction c arbitrary: buf) (simp_all add: foldl_nul)

lemma nth_updated: "j < length xs \<Longrightarrow> xs[i := x] ! j = (if i = j then x else xs ! j)"
  by auto

lemma nulterminate_nth: "i < length buf \<Longrightarrow> nulterminate c buf ! i = (if i \<in> snd ` set_cmd c then CHR 0x00 else buf ! i)"
  by (induction c arbitrary: buf) (simp_all add: foldl_nul nth_updated image_Un)

definition cstr :: "string \<Rightarrow> nat \<Rightarrow> string" where
  "cstr buf q = takeWhile (\<lambda>c. c \<noteq> CHR 0x00) (drop q buf)"

lemma cstr_word:
  assumes "word_at line w" and "w \<in> set_cmd c" and "\<forall>v\<in>set_cmd c. word_at line v"
  shows "cstr (nulterminate c (line @ [CHR 0x00])) (fst w) = slice line w"
proof -
  let ?buf = "nulterminate c (line @ [CHR 0x00])"
  let ?n = "snd w - fst w"
  have w: "fst w \<le> snd w" "snd w \<le> length line" using assms(1) by (auto simp: word_at_def)
  have in_word: "?buf ! i = line ! i \<and> word_char (line ! i)" if i: "fst w \<le> i" "i < snd w" for i
  proof -
    have "word_char (line ! i)" "i < length line" using assms(1) i by (auto simp: word_at_def)
    moreover from this have "i \<notin> snd ` set_cmd c" using assms(3) by (auto simp: word_at_def)
    ultimately show ?thesis by (simp add: nulterminate_nth nth_append)
  qed
  have "?buf ! snd w = CHR 0x00" using w assms(2) by (subst nulterminate_nth) auto
  then have "drop (snd w) ?buf = CHR 0x00 # drop (Suc (snd w)) ?buf" using w by (simp add: Cons_nth_drop_Suc [symmetric])
  moreover have "slice line w = take ?n (drop (fst w) ?buf)"
    using w in_word by (intro nth_equalityI) (simp_all add: slice_def)
  then have "drop (fst w) ?buf = slice line w @ drop (snd w) ?buf"
    using w append_take_drop_id [of ?n "drop (fst w) ?buf"] by simp
  moreover have "\<forall>x\<in>set (slice line w). x \<noteq> CHR 0x00"
    using w in_word by (auto simp: slice_def in_set_conv_nth word_char_def)
  ultimately show ?thesis by (simp add: cstr_def takeWhile_append)
qed


section \<open>Correctness\<close>

lemma parse_of_spelled:
  assumes "spells (print 0 c) line" and "cmd_ok c"
  shows "\<exists>c' buf s. parsecmd line = Ok (c', buf) s \<and> map_cmd (\<lambda>w. cstr buf (fst w)) c' = c"
proof -
  have nul: "CHR 0x00 \<notin> set line" by (rule spells_no_nul [OF assms(1)])
  have "map (map_token (slice line)) (tokens line 0) = print 0 c" using tokens_spelled [OF assms(1), of line "[]"] by simp
  then obtain c' where c': "tokens line 0 = print 0 c'" "map_cmd (slice line) c' = c" using print_of_map by blast
  have "prints0 line c'" using prints_cmd [of c' line] assms(2) c'(2) cmd_ok_map [of "slice line" c'] by (simp add: prints_def)
  then have "parses line Line 0 c' []" using c'(1) by (simp add: prints0_def at_def follow_def)
  then obtain s N where s: "at line s []" "\<forall>n\<ge>N. parse_part n line Line 0 = Ok c' s" by (rule parsesE)
  let ?r = "parse_part (6 * length line + 6) line Line 0"
  have "ends line (parse_part (6 * length line + 6) line Line) 0" by (rule ends_parse) simp_all
  then have "same_result ?r (parse_part (max N (6 * length line + 6)) line Line 0)" "\<forall>s'. ?r \<noteq> Spins s'"
    by (auto simp: ends_def intro: same_parse)
  then have r: "?r = Ok c' s" using s(2) by (auto simp: same_result_def)
  have "char_at line (skip_white line s) = CHR 0x00"
    using s(1) get_end [OF s(1)] gettoken_run [of s line] by (auto simp: at_def)
  then have "skip_white line s = length line"
    using nul skip_white_bounds(2) [of s line] s(1) nth_mem by (fastforce simp: at_def char_at_def split: if_split_asm)
  then have "parsecmd line = Ok (c', nulterminate c' (line @ [CHR 0x00])) (length line)"
    using r by (simp add: parsecmd_def bindM_run peek_run)
  moreover have "map_cmd (\<lambda>w. cstr (nulterminate c' (line @ [CHR 0x00])) (fst w)) c' = map_cmd (slice line) c'"
  proof (rule cmd.map_cong0)
    fix w assume w: "w \<in> set_cmd c'"
    have "\<forall>v\<in>set_cmd c'. word_at line v" using tokens_word_at [OF nul] words_printed [of _ c' 0] c'(1) by metis
    then show "cstr (nulterminate c' (line @ [CHR 0x00])) (fst w) = slice line w" using w by (intro cstr_word) auto
  qed
  ultimately show ?thesis using c'(2) by auto
qed

text \<open>C22: A command that is spelled out as a line, with any white space, is the command the parser returns, with the words as C strings.\<close>
theorem parsecmd_spelled:
  assumes "spells (print 0 c) line" and "cmd_ok c"
  shows "\<exists>c' buf s. parsecmd line = Ok (c', buf) s \<and> map_cmd (\<lambda>w. cstr buf (fst w)) c' = c"
  by (rule parse_of_spelled [OF assms])

text \<open>A line built from pairs of white space and a token, and what is to be checked of it.\<close>

primrec spell :: "(string \<times> string token) list \<Rightarrow> string" where
  "spell [] = []"
| "spell (p # ps) = fst p @ token_text (snd p) @ spell ps"

primrec spell_ok :: "(string \<times> string token) list \<Rightarrow> bool" where
  "spell_ok [] \<longleftrightarrow> True"
| "spell_ok (p # ps) \<longleftrightarrow> set (fst p) \<subseteq> set whitespace \<and> token_ok (snd p) \<and> sep_ok (snd p) (spell ps) \<and> spell_ok ps"

lemma spell_spells: "spell_ok ps \<Longrightarrow> spells (map snd ps) (spell ps)"
  by (induction ps) (auto intro: spells.intros)

lemma parsecmd_spelled_witness:
  "\<exists>c' buf s. parsecmd ''ls <in|wc -l &'' = Ok (c', buf) s \<and>
     map_cmd (\<lambda>w. cstr buf (fst w)) c' = BACK (PIPE (REDIR (EXEC [''ls'']) ''in'' O_RDONLY 0) (EXEC [''wc'', ''-l'']))"
proof (rule parsecmd_spelled)
  let ?ps = "[([], W ''ls''), ('' '', S CHR ''<''), ([], W ''in''), ([], S CHR ''|''), ([], W ''wc''), ('' '', W ''-l''), ('' '', S CHR ''&'')]"
  have "spell_ok ?ps" by (simp add: token_ok_def sep_ok_def word_char_def whitespace_def symbols_def token_text_def)
  from spell_spells [OF this] show "spells (print 0 (BACK (PIPE (REDIR (EXEC [''ls'']) ''in'' O_RDONLY 0) (EXEC [''wc'', ''-l''])))) ''ls <in|wc -l &''"
    by (simp add: token_text_def parens_def print_redir_def)
qed (simp add: MAXARGS_def redir_ok_def)

section \<open>Bounds\<close>

lemma parseredirs_ok: "parseredirs n line rs s = Ok rs' s' \<Longrightarrow> \<forall>r\<in>set rs. redir_ok (snd r) \<Longrightarrow> \<forall>r\<in>set rs'. redir_ok (snd r)"
proof (induction n arbitrary: rs s)
  case (Suc n)
  then show ?case by (fastforce simp: bindM_run redir_ok_def split: res.splits if_split_asm prod.splits)
qed simp

lemma cmd_ok_redirs [simp]: "cmd_ok (redirs c rs) \<longleftrightarrow> cmd_ok c \<and> (\<forall>r\<in>set rs. redir_ok (snd r))"
  by (induction rs rule: rev_induct) auto

primrec part_ok :: "syntax_part \<Rightarrow> bool" where
  "part_ok Line \<longleftrightarrow> True"
| "part_ok (Line_Loop c) \<longleftrightarrow> cmd_ok c"
| "part_ok Pipe_Line \<longleftrightarrow> True"
| "part_ok Exec_Cmd \<longleftrightarrow> True"
| "part_ok (Exec_Loop argv rs) \<longleftrightarrow> length argv < MAXARGS \<and> (\<forall>r\<in>set rs. redir_ok (snd r))"
| "part_ok Block \<longleftrightarrow> True"

lemma parse_ok: "parse_part n line nt s = Ok c s' \<Longrightarrow> part_ok nt \<Longrightarrow> cmd_ok c"
proof (induction n arbitrary: nt s c s')
  case (Suc n)
  note defs = parseline_def parseline_loop_def parsepipe_def parseexec_def parseexec_loop_def parseblock_def bindM_run
  have M: "0 < MAXARGS" by (simp add: MAXARGS_def)
  show ?case
  proof (cases nt)
    case (Exec_Loop argv rs)
    then show ?thesis
      using Suc.prems by (auto simp: defs split: res.splits if_split_asm dest!: parseredirs_ok Suc.IH)
  qed (use Suc.prems M in \<open>auto simp: defs split: res.splits if_split_asm dest!: Suc.IH parseredirs_ok\<close>)
qed simp

text \<open>
  C40: A command the parser returns is one it could have been given: no \<open>argv\<close> has \<open>MAXARGS\<close> words or more, so that the NULL fits behind them,
  and every redirection opens its file for input on descriptor 0 or for output on descriptor 1.
\<close>
theorem parsecmd_bounds: "case parsecmd line of Ok (c, buf) s \<Rightarrow> cmd_ok c \<and> length buf = length line + 1 | _ \<Rightarrow> True"
proof (cases "parse_part (6 * length line + 6) line Line 0")
  case (Ok c s)
  then have "cmd_ok c" by (rule parse_ok) simp
  then show ?thesis using Ok by (simp add: parsecmd_def bindM_run peek_run)
qed (simp_all add: parsecmd_def bindM_run)

end
