(* ===== verification/Shell_Run.thy ===== *)
theory Shell_Run
  imports Shell
begin

text \<open>
  The shell at work, \<open>sh.c\<close>: \<open>runcmd\<close> and the loop of \<open>main\<close> as programs over the system calls they make, with what each does when
  it fails. An interpreter runs such a program on a table of descriptors, and the result is compared with what a command means: which
  programs are started, with which arguments, and what their descriptors are connected to.
\<close>

section \<open>Programs over system calls\<close>

datatype forked = Fork_Failed | In_Child | In_Parent

datatype prog =
    Exit
  | Exec string "string list" prog
  | Printf string prog
  | Close nat prog
  | Dup nat prog
  | Open string u32 "nat option \<Rightarrow> prog"
  | Mk_Pipe "(nat \<times> nat) option \<Rightarrow> prog"
  | Fork "forked \<Rightarrow> prog"
  | Wait_Child prog
  | Chdir string "bool \<Rightarrow> prog"

definition newline :: char where "newline = CHR 0x0A"
definition carriage_return :: char where "carriage_return = CHR 0x0D"

definition sh_panic :: "string \<Rightarrow> prog" where
  "sh_panic s = Printf (s @ [newline]) Exit"

definition fork1 :: "(bool \<Rightarrow> prog) \<Rightarrow> prog" where
  "fork1 k = Fork (\<lambda>r. if r = Fork_Failed then sh_panic ''fork'' else k (r = In_Child))"

primrec runcmd :: "string cmd \<Rightarrow> prog" where
  "runcmd (EXEC argv) =
     (case argv of [] \<Rightarrow> Exit | a # _ \<Rightarrow> Exec a argv (Printf (''exec '' @ a @ '' failed'' @ [newline]) Exit))"
| "runcmd (REDIR c file mode fd) =
     Close fd (Open file mode (\<lambda>r. case r of
       None \<Rightarrow> Printf (''open '' @ file @ '' failed'' @ [newline]) Exit
     | Some _ \<Rightarrow> runcmd c))"
| "runcmd (LIST left right) = fork1 (\<lambda>child. if child then runcmd left else Wait_Child (runcmd right))"
| "runcmd (PIPE left right) =
     Mk_Pipe (\<lambda>r. case r of
       None \<Rightarrow> sh_panic ''pipe''
     | Some (p0, p1) \<Rightarrow>
         fork1 (\<lambda>child.
         if child then Close 1 (Dup p1 (Close p0 (Close p1 (runcmd left)))) else
         fork1 (\<lambda>child.
         if child then Close 0 (Dup p0 (Close p0 (Close p1 (runcmd right)))) else
         Close p0 (Close p1 (Wait_Child (Wait_Child Exit))))))"
| "runcmd (BACK c) = fork1 (\<lambda>child. if child then runcmd c else Exit)"

text \<open>What a forked shell does with a line: \<open>runcmd(parsecmd(buf))\<close>. A syntax error has been reported by \<open>panic\<close>.\<close>

definition run_line :: "string \<Rightarrow> prog" where
  "run_line line = (case parsecmd line of Ok (c, buf) _ \<Rightarrow> runcmd (map_cmd (\<lambda>w. cstr buf (fst w)) c) | Panic e \<Rightarrow> sh_panic e | _ \<Rightarrow> Exit)"

text \<open>\<open>gets\<close> with room for that many characters: the characters read, and the input behind them.\<close>

fun gets_loop :: "nat \<Rightarrow> string \<Rightarrow> string \<times> string" where
  "gets_loop 0 input = ([], input)"
| "gets_loop (Suc room) [] = ([], [])"
| "gets_loop (Suc room) (c # input) =
     (if c = newline \<or> c = carriage_return then ([c], input)
      else let (buf, rest) = gets_loop room input in (c # buf, rest))"

definition gets :: "nat \<Rightarrow> string \<Rightarrow> string \<times> string" where
  "gets max_len input = gets_loop (max_len - 1) input"

definition sizeof_cmd_buf :: nat where "sizeof_cmd_buf = 100"

definition getcmd :: "string \<Rightarrow> (string \<times> string) option" where
  "getcmd input = (let (buf, rest) = gets sizeof_cmd_buf input in if cstr buf 0 = [] then None else Some (cstr buf 0, rest))"

lemma gets_loop_rest: "length (snd (gets_loop room input)) + length (fst (gets_loop room input)) = length input"
  by (induction room input rule: gets_loop.induct) (auto simp: Let_def split: prod.splits)

lemma getcmd_rest: "getcmd input = Some (buf, rest) \<Longrightarrow> length rest < length input"
  using gets_loop_rest [of "sizeof_cmd_buf - 1" input]
  by (auto simp: getcmd_def gets_def Let_def cstr_def split: prod.splits if_split_asm) (metis add.commute less_add_same_cancel1 length_greater_0_conv takeWhile.simps(1))

text \<open>The loop of \<open>main\<close>. \<open>cd\<close> is done by the shell itself, on the line without its last character.\<close>

function sh_loop :: "string \<Rightarrow> prog" where
  "sh_loop input =
     Printf ''$ '' (case getcmd input of
        None \<Rightarrow> Exit
      | Some (buf, rest) \<Rightarrow>
          if take 3 buf = ''cd '' then
            (let dir = drop 3 (butlast buf)
             in Chdir dir (\<lambda>ok. if ok then sh_loop rest else Printf (''cannot cd '' @ dir @ [newline]) (sh_loop rest)))
          else fork1 (\<lambda>child. if child then run_line buf else Wait_Child (sh_loop rest)))"
  by pat_completeness auto
termination by (relation "measure length") (auto dest: getcmd_rest)

declare sh_loop.simps [simp del]

text \<open>
  The loop that makes sure that descriptors 0, 1 and 2 are open. Each turn that goes on has opened another descriptor below 3, so that the
  fourth is the last.
\<close>

fun open_console :: "nat \<Rightarrow> prog \<Rightarrow> prog" where
  "open_console 0 rest = rest"
| "open_console (Suc turns) rest =
     Open ''console'' O_RDWR (\<lambda>r. case r of
       None \<Rightarrow> rest
     | Some fd \<Rightarrow> if fd \<ge> 3 then Close fd rest else open_console turns rest)"

definition sh_main :: "string \<Rightarrow> prog" where
  "sh_main input = open_console 4 (sh_loop input)"

section \<open>Running a program\<close>

text \<open>
  What a descriptor refers to, and the world: the number of pipes made, the programs started with their arguments and descriptors, the
  messages, and the directories changed to, each in order. The file system is given by the files that can be opened, the programs that
  can be loaded and the directories that exist. A child runs before its parent goes on; its descriptors are a copy, so that
  another order would give the same ones.
\<close>

datatype desc = Given nat | Opened string u32 | Pipe_Read nat | Pipe_Write nat

type_synonym fds = "nat \<Rightarrow> desc option"

record world =
  w_pipes :: nat
  w_started :: "(string list \<times> fds) list"
  w_printed :: "string list"
  w_dirs :: "string list"

record system =
  opens :: "string \<Rightarrow> u32 \<Rightarrow> bool"
  loads :: "string \<Rightarrow> bool"
  enters :: "string \<Rightarrow> bool"

definition N_FD :: nat where "N_FD = 16"

text \<open>The least free descriptor, as \<open>fdalloc\<close> finds it.\<close>

definition least_fd :: "fds \<Rightarrow> nat option" where
  "least_fd t = find (\<lambda>fd. t fd = None) [0..<N_FD]"

definition say :: "string \<Rightarrow> world \<Rightarrow> world" where
  "say msg w = w\<lparr>w_printed := w_printed w @ [msg]\<rparr>"

primrec run :: "system \<Rightarrow> prog \<Rightarrow> fds \<Rightarrow> world \<Rightarrow> world" where
  "run sys Exit t w = w"
| "run sys (Exec path argv failed) t w =
     (if loads sys path then w\<lparr>w_started := w_started w @ [(argv, t)]\<rparr> else run sys failed t w)"
| "run sys (Printf msg p) t w = run sys p t (say msg w)"
| "run sys (Close fd p) t w = run sys p (t(fd := None)) w"
| "run sys (Dup fd p) t w =
     run sys p (case (t fd, least_fd t) of (Some d, Some n) \<Rightarrow> t(n \<mapsto> d) | _ \<Rightarrow> t) w"
| "run sys (Open file mode k) t w =
     (case least_fd t of
        Some n \<Rightarrow> if opens sys file mode then run sys (k (Some n)) (t(n \<mapsto> Opened file mode)) w else run sys (k None) t w
      | None \<Rightarrow> run sys (k None) t w)"
| "run sys (Mk_Pipe k) t w =
     (case least_fd t of
        None \<Rightarrow> run sys (k None) t w
      | Some n0 \<Rightarrow>
          (let t0 = t(n0 \<mapsto> Pipe_Read (w_pipes w))
           in case least_fd t0 of
                None \<Rightarrow> run sys (k None) t w
              | Some n1 \<Rightarrow> run sys (k (Some (n0, n1))) (t0(n1 \<mapsto> Pipe_Write (w_pipes w))) (w\<lparr>w_pipes := w_pipes w + 1\<rparr>)))"
| "run sys (Fork k) t w = run sys (k In_Parent) t (run sys (k In_Child) t w)"
| "run sys (Wait_Child p) t w = run sys p t w"
| "run sys (Chdir dir k) t w =
     (if enters sys dir then run sys (k True) t (w\<lparr>w_dirs := w_dirs w @ [dir]\<rparr>) else run sys (k False) t w)"

section \<open>What a command means\<close>

text \<open>
  A command with standard input, output and messages on the descriptors 0, 1 and 2: a program is started with them, a redirection replaces
  one of the first two, and the sides of a pipe get its ends. No other descriptor is open in any program.
\<close>

primrec meaning :: "system \<Rightarrow> string cmd \<Rightarrow> fds \<Rightarrow> world \<Rightarrow> world" where
  "meaning sys (EXEC argv) t w =
     (case argv of [] \<Rightarrow> w
      | a # _ \<Rightarrow> if loads sys a then w\<lparr>w_started := w_started w @ [(argv, t)]\<rparr> else say (''exec '' @ a @ '' failed'' @ [newline]) w)"
| "meaning sys (REDIR c file mode fd) t w =
     (if opens sys file mode then meaning sys c (t(fd \<mapsto> Opened file mode)) w else say (''open '' @ file @ '' failed'' @ [newline]) w)"
| "meaning sys (PIPE left right) t w =
     (let p = w_pipes w
      in meaning sys right (t(0 \<mapsto> Pipe_Read p)) (meaning sys left (t(1 \<mapsto> Pipe_Write p)) (w\<lparr>w_pipes := p + 1\<rparr>)))"
| "meaning sys (LIST left right) t w = meaning sys right t (meaning sys left t w)"
| "meaning sys (BACK c) t w = meaning sys c t w"

lemma least_fd_eq:
  assumes "t n = None" and "\<forall>m<n. t m \<noteq> None" and "n < N_FD"
  shows "least_fd t = Some n"
  unfolding least_fd_def find_Some_iff using assms by (intro exI [of _ n]) auto

definition std :: "fds \<Rightarrow> bool" where
  "std t \<longleftrightarrow> dom t = {0, 1, 2}"

lemma std_simps:
  assumes "std t"
  shows "t 0 \<noteq> None" "t (Suc 0) \<noteq> None" "t 2 \<noteq> None" "2 < fd \<Longrightarrow> t fd = None"
proof -
  have "\<And>x. x \<in> dom t \<longleftrightarrow> x = 0 \<or> x = 1 \<or> x = 2" using assms by (simp add: std_def)
  then show "t 0 \<noteq> None" "t (Suc 0) \<noteq> None" "t 2 \<noteq> None" "2 < fd \<Longrightarrow> t fd = None" by (simp_all add: dom_def) (metis not_None_eq not_less_iff_gr_or_eq numeral_2_eq_2 lessI zero_less_Suc less_trans)
qed

lemma std_redirected: "std t \<Longrightarrow> fd < 2 \<Longrightarrow> std (t(fd \<mapsto> d))"
  by (auto simp: std_def)

lemma less_3: "m < 3 \<longleftrightarrow> m = 0 \<or> m = Suc 0 \<or> m = (2::nat)" "m < 4 \<longleftrightarrow> m = 0 \<or> m = Suc 0 \<or> m = 2 \<or> m = (3::nat)"
  by auto

lemma reopened:
  assumes "std t" and "fd < 2"
  shows "least_fd (t(fd := None)) = Some fd" "least_fd ((t(3 \<mapsto> a, 4 \<mapsto> b))(fd := None)) = Some fd"
  using std_simps [OF assms(1)] assms(2) by (auto intro!: least_fd_eq simp: N_FD_def less_Suc_eq numeral_2_eq_2)

lemma pipe_fds:
  assumes "std t"
  shows "least_fd t = Some 3" "least_fd (t(3 \<mapsto> a)) = Some 4"
  using std_simps [OF assms] by (auto intro!: least_fd_eq simp: N_FD_def less_3)

lemma pipe_closed:
  assumes "std t" and "fd < 2"
  shows "((t(3 \<mapsto> a, 4 \<mapsto> b))(fd := None))(fd \<mapsto> d, 3 := None, 4 := None) = t(fd \<mapsto> d)"
  using std_simps [OF assms(1)] assms(2) by (auto simp: fun_eq_iff)

lemma runcmd_runs: "cmd_ok c \<Longrightarrow> std t \<Longrightarrow> run sys (runcmd c) t w = meaning sys c t w"
proof (induction c arbitrary: t w)
  case (EXEC argv)
  then show ?case by (cases argv) simp_all
next
  case (REDIR c f m fd)
  then have fd: "fd < 2" by (auto simp: redir_ok_def)
  have "run sys (runcmd c) (t(fd \<mapsto> d)) w = meaning sys c (t(fd \<mapsto> d)) w" for d w
    using REDIR.prems fd by (intro REDIR.IH std_redirected) simp_all
  then show ?case using reopened(1) [OF REDIR.prems(2) fd] by simp
next
  case (PIPE left right)
  let ?t = "t(3 \<mapsto> Pipe_Read (w_pipes w), 4 \<mapsto> Pipe_Write (w_pipes w))"
  have "run sys (runcmd left) (t(1 \<mapsto> d)) w = meaning sys left (t(1 \<mapsto> d)) w"
    "run sys (runcmd right) (t(0 \<mapsto> d)) w = meaning sys right (t(0 \<mapsto> d)) w" for d w
    using PIPE.prems by (auto intro!: PIPE.IH std_redirected)
  then show ?case
    using pipe_fds [OF PIPE.prems(2)] reopened(2) [OF PIPE.prems(2), of 0] reopened(2) [OF PIPE.prems(2), of 1]
      pipe_closed [OF PIPE.prems(2), of 0] pipe_closed [OF PIPE.prems(2), of 1]
    by (simp add: fork1_def Let_def)
next
  case (LIST left right)
  then show ?case by (simp add: fork1_def)
next
  case (BACK c)
  then show ?case by (simp add: fork1_def)
qed

section \<open>Lines\<close>

lemma run_line_runs:
  assumes "spells (print 0 c) line" and "cmd_ok c" and "std t"
  shows "run sys (run_line line) t w = meaning sys c t w"
proof -
  obtain c' buf s where "parsecmd line = Ok (c', buf) s" "map_cmd (\<lambda>w. cstr buf (fst w)) c' = c" using parse_of_spelled [OF assms(1,2)] by blast
  then show ?thesis using runcmd_runs [OF assms(2,3)] by (simp add: run_line_def)
qed

text \<open>A line as it is typed: its characters and a newline, short enough for the buffer, and no \<open>cd\<close>.\<close>

definition typed_ok :: "string cmd \<times> string \<Rightarrow> bool" where
  "typed_ok cl \<longleftrightarrow> (case cl of (c, line) \<Rightarrow> cmd_ok c \<and> spells (print 0 c) (line @ [newline]) \<and> newline \<notin> set line \<and> carriage_return \<notin> set line
     \<and> length line + 1 < sizeof_cmd_buf \<and> take 3 line \<noteq> ''cd '')"

lemma gets_loop_line:
  "newline \<notin> set line \<Longrightarrow> carriage_return \<notin> set line \<Longrightarrow> length line < room \<Longrightarrow>
   gets_loop room (line @ newline # rest) = (line @ [newline], rest)"
proof (induction line arbitrary: room)
  case Nil
  then show ?case by (cases room) simp_all
next
  case (Cons c line)
  then show ?case by (cases room) auto
qed

lemma getcmd_typed: "typed_ok (c, line) \<Longrightarrow> getcmd (line @ newline # rest) = Some (line @ [newline], rest)"
proof -
  assume t: "typed_ok (c, line)"
  then have "spells (print 0 c) (line @ [newline])" by (simp add: typed_ok_def)
  from spells_no_nul [OF this] have "CHR 0x00 \<notin> set (line @ [newline])" .
  then have "cstr (line @ [newline]) 0 = line @ [newline]" by (auto simp: cstr_def takeWhile_eq_all_conv)
  moreover have "gets sizeof_cmd_buf (line @ newline # rest) = (line @ [newline], rest)"
    using t by (simp add: gets_def gets_loop_line typed_ok_def sizeof_cmd_buf_def)
  ultimately show ?thesis by (simp add: getcmd_def)
qed

lemma not_cd: "take 3 line \<noteq> ''cd '' \<Longrightarrow> take 3 (line @ [newline]) \<noteq> ''cd ''"
  by (auto simp: take_append newline_def split: if_split_asm) (cases "length line"; auto simp: take_Cons' split: if_split_asm)

text \<open>The typed input, and what the shell does with it: a prompt and the meaning of each line in turn, and a prompt at the end.\<close>

definition typed :: "(string cmd \<times> string) list \<Rightarrow> string" where
  "typed cls = concat (map (\<lambda>(c, line). line @ [newline]) cls)"

definition session :: "system \<Rightarrow> (string cmd \<times> string) list \<Rightarrow> fds \<Rightarrow> world \<Rightarrow> world" where
  "session sys cls t w = say ''$ '' (foldl (\<lambda>w (c, line). meaning sys c t (say ''$ '' w)) w cls)"

lemma sh_loop_runs:
  assumes "\<forall>cl\<in>set cls. typed_ok cl" and "std t"
  shows "run sys (sh_loop (typed cls)) t w = session sys cls t w"
  using assms(1)
proof (induction cls arbitrary: w)
  case Nil
  have "getcmd [] = None" by (simp add: getcmd_def gets_def sizeof_cmd_buf_def cstr_def numeral_eq_Suc)
  then show ?case by (simp add: typed_def session_def sh_loop.simps [of "[]"])
next
  case (Cons cl cls)
  obtain c line where cl: "cl = (c, line)" by (cases cl)
  then have ok: "typed_ok (c, line)" using Cons.prems by simp
  have t: "typed (cl # cls) = line @ newline # typed cls" by (simp add: typed_def cl)
  have cd: "take 3 (line @ [newline]) \<noteq> ''cd ''" using ok not_cd by (simp add: typed_ok_def)
  have m: "run sys (run_line (line @ [newline])) t w = meaning sys c t w" for w
    using ok assms(2) by (intro run_line_runs) (auto simp: typed_ok_def)
  show ?case
    unfolding t using getcmd_typed [OF ok, of "typed cls"] cd m Cons
    by (subst sh_loop.simps) (simp add: fork1_def session_def cl)
qed

text \<open>
  C21: The shell does what it is told. When the lines typed spell commands, the programs started, with their arguments and what every
  descriptor is connected to, and the messages, are those the commands mean, in order; no program inherits another end of a pipe.
\<close>
theorem shell_runs:
  assumes "\<forall>cl\<in>set cls. typed_ok cl" and "std t"
  shows "run sys (sh_main (typed cls)) t w = session sys cls t w"
proof -
  have "t(3 := None) = t" using std_simps(4) [OF assms(2), of 3] by (auto simp: fun_eq_iff)
  then show ?thesis
    using sh_loop_runs [OF assms] pipe_fds(1) [OF assms(2)] by (simp add: sh_main_def numeral_eq_Suc)
qed

lemma spells_more: "spells ts line \<Longrightarrow> c \<in> set whitespace \<Longrightarrow> spells ts (line @ [c])"
proof (induction rule: spells.induct)
  case (spells_Cons w t line ts)
  have "\<not> word_char c" "c \<noteq> CHR ''>''" using spells_Cons.prems by (auto simp: word_char_def whitespace_def)
  then have "sep_ok t (line @ [c])" using spells_Cons.hyps(3) by (cases line) (auto simp: sep_ok_def split: token.splits)
  then show ?case using spells_Cons spells.spells_Cons [of w t "line @ [c]" ts] by simp
next
  case (spells_Nil w)
  then show ?case by (intro spells.spells_Nil) auto
qed

definition demo_system :: system where
  "demo_system = \<lparr>opens = (\<lambda>file mode. True), loads = (\<lambda>path. True), enters = (\<lambda>dir. True)\<rparr>"

definition demo_fds :: fds where
  "demo_fds = [0 \<mapsto> Given 0, 1 \<mapsto> Given 1, 2 \<mapsto> Given 2]"

definition demo_world :: world where
  "demo_world = \<lparr>w_pipes = 0, w_started = [], w_printed = [], w_dirs = []\<rparr>"

lemma shell_runs_witness:
  "w_started (run demo_system (sh_main (''ls |wc>o'' @ [newline])) demo_fds demo_world) =
     [([''ls''], demo_fds(1 \<mapsto> Pipe_Write 0)), ([''wc''], demo_fds(0 \<mapsto> Pipe_Read 0, 1 \<mapsto> Opened ''o'' (O_WRONLY OR O_CREATE)))]"
proof -
  let ?c = "PIPE (EXEC [''ls'']) (REDIR (EXEC [''wc'']) ''o'' (O_WRONLY OR O_CREATE) 1)"
  let ?ps = "[([], W ''ls''), ('' '', S CHR ''|''), ([], W ''wc''), ([], S CHR ''>''), ([], W ''o'')]"
  have "spell_ok ?ps" by (simp add: token_ok_def sep_ok_def word_char_def whitespace_def symbols_def token_text_def)
  from spell_spells [OF this] have "spells (print 0 ?c) ''ls |wc>o''" by (simp add: token_text_def parens_def print_redir_def)
  have "spells (print 0 ?c) (''ls |wc>o'' @ [newline])"
    by (rule spells_more [OF \<open>spells (print 0 ?c) ''ls |wc>o''\<close>]) (simp_all add: whitespace_def newline_def)
  then have "typed_ok (?c, ''ls |wc>o'')"
    by (simp add: typed_ok_def MAXARGS_def redir_ok_def newline_def carriage_return_def sizeof_cmd_buf_def)
  then have "run demo_system (sh_main (typed [(?c, ''ls |wc>o'')])) demo_fds demo_world = session demo_system [(?c, ''ls |wc>o'')] demo_fds demo_world"
    by (intro shell_runs) (auto simp: std_def demo_fds_def)
  then show ?thesis
    by (simp add: typed_def session_def demo_system_def demo_world_def say_def Let_def)
qed

end
