(* ===== verification/User_Programs.thy ===== *)
theory User_Programs
  imports Grep Shell_Run
begin

text \<open>
  User programs: the library functions of \<open>ulib.c\<close> and \<open>printf.c\<close>, the authors' \<open>head.c\<close> and \<open>writefile.c\<close> and the small
  utilities. A program makes system calls one after another; the kernel is a parameter, a function that answers a call from all the
  calls made before. Bytes that are read and written are numbers, names and formats are strings; an \<open>argv\<close> is the list of its strings.
\<close>

section \<open>Programs that call a kernel\<close>

datatype ucall =
    U_read u32 nat
  | U_write u32 "u8 list"
  | U_open string u32
  | U_close u32
  | U_fstat u32
  | U_kill u32
  | U_link string string
  | U_unlink string
  | U_mkdir string
  | U_mknod string u32 u32
  | U_dup u32
  | U_fork
  | U_exec string "string list"
  | U_wait
  | U_sleep u32
  | U_ps
  | U_procstat u32
  | U_custmpro u32

text \<open>An answer is the value returned and the bytes put into the caller's buffer.\<close>

type_synonym kern = "ucall list \<Rightarrow> ucall \<Rightarrow> u32 \<times> u8 list"

text \<open>A program returns, has called \<open>exit\<close>, has done what C leaves undefined, or is still in a loop after the given number of turns.\<close>

datatype 'a uout = Ret 'a "ucall list" | Quit "ucall list" | Undef "ucall list" | Going "ucall list"

type_synonym 'a uprog = "kern \<Rightarrow> ucall list \<Rightarrow> 'a uout"

definition uret :: "'a \<Rightarrow> 'a uprog" where
  "uret x k h = Ret x h"

definition ubind :: "'a uprog \<Rightarrow> ('a \<Rightarrow> 'b uprog) \<Rightarrow> 'b uprog" where
  "ubind m f k h = (case m k h of Ret x h' \<Rightarrow> f x k h' | Quit h' \<Rightarrow> Quit h' | Undef h' \<Rightarrow> Undef h' | Going h' \<Rightarrow> Going h')"

definition uthen :: "'a uprog \<Rightarrow> 'b uprog \<Rightarrow> 'b uprog" where
  "uthen m f = ubind m (\<lambda>_. f)"

definition ucall :: "ucall \<Rightarrow> (u32 \<times> u8 list) uprog" where
  "ucall c k h = Ret (k h c) (h @ [c])"

definition usys :: "ucall \<Rightarrow> u32 uprog" where
  "usys c k h = Ret (fst (k h c)) (h @ [c])"

definition uexit :: "'a uprog" where
  "uexit k h = Quit h"

definition uundef :: "'a uprog" where
  "uundef k h = Undef h"

definition ugoing :: "'a uprog" where
  "ugoing k h = Going h"

lemma ubind_run [simp]: "ubind m f k h = (case m k h of Ret x h' \<Rightarrow> f x k h' | Quit h' \<Rightarrow> Quit h' | Undef h' \<Rightarrow> Undef h' | Going h' \<Rightarrow> Going h')"
  by (rule ubind_def)

lemma uprog_run [simp]:
  "uret x k h = Ret x h" "ucall c k h = Ret (k h c) (h @ [c])" "usys c k h = Ret (fst (k h c)) (h @ [c])" "uexit k h = Quit h"
  "uundef k h = Undef h" "ugoing k h = Going h"
  by (simp_all add: uret_def ucall_def usys_def uexit_def uundef_def ugoing_def)

lemma uthen_run [simp]: "uthen m f k h = (case m k h of Ret x h' \<Rightarrow> f k h' | Quit h' \<Rightarrow> Quit h' | Undef h' \<Rightarrow> Undef h' | Going h' \<Rightarrow> Going h')"
  by (simp add: uthen_def)

section \<open>The library\<close>

text \<open>The routines of \<open>ulib.c\<close> over memory. A loop to a NUL goes round the addresses at most once.\<close>

function ustrcpy :: "nat \<Rightarrow> u32 \<Rightarrow> u32 \<Rightarrow> mem \<Rightarrow> mem option" where
  "ustrcpy turns s t m =
     (if turns = 0 then None
      else let m' = m(s := m t) in if m t \<noteq> 0 then ustrcpy (turns - 1) (s + 1) (t + 1) m' else Some m')"
  by pat_completeness auto
termination by (relation "measure fst") auto

declare ustrcpy.simps [simp del]

function ustrlen :: "nat \<Rightarrow> u32 \<Rightarrow> u32 \<Rightarrow> mem \<Rightarrow> u32 option" where
  "ustrlen turns s n m = (if turns = 0 then None else if m (s + n) \<noteq> 0 then ustrlen (turns - 1) s (n + 1) m else Some n)"
  by pat_completeness auto
termination by (relation "measure fst") auto

declare ustrlen.simps [simp del]

definition umemset :: "u32 \<Rightarrow> u32 \<Rightarrow> u32 \<Rightarrow> mem \<Rightarrow> mem" where
  "umemset dst c n = stosb dst (ucast c) (unat n)"

definition umemmove :: "u32 \<Rightarrow> u32 \<Rightarrow> u32 \<Rightarrow> mem \<Rightarrow> mem" where
  "umemmove dst src n m = (if sint n \<le> 0 then m else copy_fwd dst src (unat n) m)"

lemma ustrlen_counts:
  "j \<le> n \<Longrightarrow> n - j < turns \<Longrightarrow> \<forall>i<n. m (s + of_nat i) \<noteq> 0 \<Longrightarrow> m (s + of_nat n) = 0 \<Longrightarrow> ustrlen turns s (of_nat j) m = Some (of_nat n)"
proof (induction turns arbitrary: j)
  case (Suc turns j)
  show ?case
  proof (cases "j = n")
    case False
    then have "ustrlen turns s (of_nat (Suc j)) m = Some (of_nat n)" using Suc by (intro Suc.IH) auto
    then show ?thesis using False Suc.prems by (subst ustrlen.simps) (simp add: add.commute)
  qed (use Suc.prems in \<open>simp add: ustrlen.simps [of "Suc turns"]\<close>)
qed simp

text \<open>\<open>strcmp\<close> and \<open>atoi\<close> on strings; a list ends with a NUL.\<close>

fun ustrcmp :: "u8 list \<Rightarrow> u8 list \<Rightarrow> u32" where
  "ustrcmp [] q = 0 - ucast (case q of [] \<Rightarrow> 0 | b # _ \<Rightarrow> b)"
| "ustrcmp (a # p) q =
     (let b = (case q of [] \<Rightarrow> 0 | b # _ \<Rightarrow> b) in if a \<noteq> 0 \<and> a = b then ustrcmp p (tl q) else ucast a - ucast b)"

definition bytes_of :: "string \<Rightarrow> u8 list" where
  "bytes_of s = map of_char s"

fun atoi_loop :: "u32 \<Rightarrow> string \<Rightarrow> u32" where
  "atoi_loop n [] = n"
| "atoi_loop n (c # s) = (let d = of_char c :: nat in if 48 \<le> d \<and> d \<le> 57 then atoi_loop (n * 10 + of_nat d - 48) s else n)"

definition atoi :: "string \<Rightarrow> u32" where
  "atoi s = atoi_loop 0 s"

section \<open>printf\<close>

definition udigits :: string where "udigits = ''0123456789ABCDEF''"

function uprintint_loop :: "u32 \<Rightarrow> u32 \<Rightarrow> string" where
  "uprintint_loop x base =
     (if x div base = 0 \<or> base < 2 then [udigits ! unat (x mod base)]
      else udigits ! unat (x mod base) # uprintint_loop (x div base) base)"
  by pat_completeness auto
termination by (relation "measure (\<lambda>(x, base). unat x)") (auto simp: unat_div_less)

declare uprintint_loop.simps [simp del]

definition uprintint :: "u32 \<Rightarrow> u32 \<Rightarrow> bool \<Rightarrow> string" where
  "uprintint xx base sign =
     (let neg = sign \<and> sint xx < 0; x = (if neg then - xx else xx)
      in rev (uprintint_loop x base @ (if neg then ''-'' else [])))"

text \<open>
  What the loop of \<open>printf\<close> puts out; \<open>pc\<close> is its state, that a percent sign came before. A directive without an argument of its
  type reads what is on the stack, and is \<open>None\<close>.
\<close>

fun uprintf_loop :: "bool \<Rightarrow> string \<Rightarrow> carg list \<Rightarrow> string option" where
  "uprintf_loop pc [] args = Some []"
| "uprintf_loop pc (c # fmt) args =
     (if c = CHR 0x00 then Some []
      else if \<not> pc then
        (if c = CHR ''%'' then uprintf_loop True fmt args else map_option (\<lambda>out. c # out) (uprintf_loop False fmt args))
      else if c = CHR ''d'' then
        (case args of A_int x # as \<Rightarrow> map_option ((@) (uprintint x 10 True)) (uprintf_loop False fmt as) | _ \<Rightarrow> None)
      else if c = CHR ''x'' \<or> c = CHR ''p'' then
        (case args of A_int x # as \<Rightarrow> map_option ((@) (uprintint x 16 False)) (uprintf_loop False fmt as) | _ \<Rightarrow> None)
      else if c = CHR ''s'' then
        (case args of A_str t # as \<Rightarrow> map_option ((@) (takeWhile (\<lambda>ch. ch \<noteq> CHR 0x00) t)) (uprintf_loop False fmt as)
         | A_null # as \<Rightarrow> map_option ((@) ''(null)'') (uprintf_loop False fmt as)
         | _ \<Rightarrow> None)
      else if c = CHR ''c'' then
        (case args of A_int x # as \<Rightarrow> map_option (\<lambda>out. char_of (unat x) # out) (uprintf_loop False fmt as) | _ \<Rightarrow> None)
      else if c = CHR ''%'' then map_option (\<lambda>out. c # out) (uprintf_loop False fmt args)
      else map_option (\<lambda>out. CHR ''%'' # c # out) (uprintf_loop False fmt args))"

text \<open>\<open>putc\<close> writes one byte.\<close>

definition putc :: "u32 \<Rightarrow> char \<Rightarrow> unit uprog" where
  "putc fd c = ubind (usys (U_write fd [of_char c])) (\<lambda>_. uret ())"

primrec puts :: "u32 \<Rightarrow> string \<Rightarrow> unit uprog" where
  "puts fd [] = uret ()"
| "puts fd (c # cs) = uthen (putc fd c) (puts fd cs)"

definition uprintf :: "u32 \<Rightarrow> string \<Rightarrow> carg list \<Rightarrow> unit uprog" where
  "uprintf fd fmt args = (case uprintf_loop False fmt args of None \<Rightarrow> uundef | Some out \<Rightarrow> puts fd out)"

definition NL :: string where "NL = [CHR 0x0A]"

section \<open>head and writefile\<close>

text \<open>\<open>head.c\<close>: the bytes of one read, and the loop over the reads.\<close>

fun uhead_bytes :: "u8 list \<Rightarrow> u32 \<Rightarrow> u32 \<Rightarrow> u32 uprog" where
  "uhead_bytes [] count textlines = uret count"
| "uhead_bytes (b # bs) count textlines =
     (if \<not> slt count textlines then uret count
      else ubind (usys (U_write 1 [b])) (\<lambda>r.
        if r \<noteq> 1 then uthen (uprintf 2 (''head: write error'' @ NL) []) uexit
        else uhead_bytes bs (if b = 10 then count + 1 else count) textlines))"

fun uhead :: "nat \<Rightarrow> u32 \<Rightarrow> u32 \<Rightarrow> u32 \<Rightarrow> unit uprog" where
  "uhead 0 filedes count textlines = ugoing"
| "uhead (Suc turns) filedes count textlines =
     ubind (ucall (U_read filedes 512)) (\<lambda>(n, buffer).
     if 0 < sint n \<and> slt count textlines
     then ubind (uhead_bytes (take (unat n) buffer) count textlines) (\<lambda>count. uhead turns filedes count textlines)
     else uret ())"

fun uhead_files :: "nat \<Rightarrow> bool \<Rightarrow> string list \<Rightarrow> u32 \<Rightarrow> unit uprog" where
  "uhead_files turns many [] textlines = uexit"
| "uhead_files turns many (f # fs) textlines =
     ubind (usys (U_open f 0)) (\<lambda>filedes.
     if sint filedes < 0 then uthen (uprintf 2 (''head: cannot open %s'' @ NL) [A_str f]) uexit
     else uthen (if many then uprintf 1 ('' ----- %s -----'' @ NL) [A_str f] else uret ())
       (uthen (uhead turns filedes 0 textlines) (uthen (usys (U_close filedes)) (uhead_files turns many fs textlines))))"

definition uhead_greeting :: string where
  "uhead_greeting = ''writefile command is getting executed in kernel mode'' @ NL"

definition uhead_args :: "nat \<Rightarrow> string list \<Rightarrow> u32 \<Rightarrow> unit uprog" where
  "uhead_args turns argv textlines =
     (if length argv \<le> 1 then uthen (uprintf 1 (''Enter input string : '' @ NL) []) (uthen (uhead turns 0 0 1) uexit)
      else uhead_files turns (length argv > 2) (tl argv) textlines)"

definition uhead_main :: "nat \<Rightarrow> string list \<Rightarrow> unit uprog" where
  "uhead_main turns argv =
     uthen (uprintf 1 uhead_greeting [])
       (if length argv > 1 \<and> ustrcmp (bytes_of (argv ! 1)) (bytes_of ''-n'') = 0 \<and> length argv > 2
        then uhead_args turns (drop 2 argv) (atoi (argv ! 2))
        else uhead_args turns argv 14)"

text \<open>
  \<open>writefile.c\<close>, the \<open>uniq\<close> of this system: what is done with a line \<open>cur\<close>, when \<open>prev\<close> is \<open>previousLine\<close>. The arrays hold
  strings, as the bytes before their NUL.
\<close>

definition writefile_line :: "string \<Rightarrow> u8 list \<Rightarrow> u8 list \<Rightarrow> u32 \<Rightarrow> (u8 list \<times> u32) uprog" where
  "writefile_line cond cur prev count =
     (if ustrcmp (bytes_of cond) (bytes_of ''-i'') = 0 then
        (let cmp = lower_loop cur in
         if ustrcmp prev cmp \<noteq> 0 then uthen (uprintf 1 ''%s'' [A_str (chars_of cur)]) (uret (cmp, count)) else uret (prev, count))
      else if ustrcmp (bytes_of cond) (bytes_of ''-d'') = 0 then
        (if ustrcmp prev cur = 0
         then uthen (if count + 1 = 1 then uprintf 1 ''%s'' [A_str (chars_of cur)] else uret ()) (uret (cur, count + 1))
         else uret (cur, 0))
      else if ustrcmp (bytes_of cond) (bytes_of ''-c'') = 0 then
        (if ustrcmp prev cur = 0 \<or> ustrcmp prev [] = 0 then uret (cur, count + 1)
         else uthen (uprintf 1 ''%d %s'' [A_int count, A_str (chars_of prev)]) (uret (cur, 1)))
      else if ustrcmp cur prev \<noteq> 0 then uthen (uprintf 1 ''%s'' [A_str (chars_of cur)]) (uret (cur, count))
      else uret (prev, count))"

text \<open>The loop; \<open>q\<close> is \<open>currentLine\<close> up to \<open>value\<close>. A line with its newline that has no room for its NUL leaves the array.\<close>

fun writefile_loop :: "nat \<Rightarrow> u32 \<Rightarrow> string \<Rightarrow> u8 list \<Rightarrow> u8 list \<Rightarrow> u32 \<Rightarrow> unit uprog" where
  "writefile_loop 0 fd cond q prev count = ugoing"
| "writefile_loop (Suc turns) fd cond q prev count =
     ubind (ucall (U_read fd 1)) (\<lambda>(n, buf).
     if n \<noteq> 1 then uret ()
     else if length q \<ge> 1000 then uundef
     else let c = hd (buf @ [0]); q = q @ [c] in
       if c \<noteq> 10 then writefile_loop turns fd cond q prev count
       else if length q \<ge> 1000 then uundef
       else ubind (writefile_line cond (takeWhile (\<lambda>b. b \<noteq> 0) q) prev count) (\<lambda>(prev, count).
         writefile_loop turns fd cond [] prev count))"

definition writefile_greeting :: string where
  "writefile_greeting = ''writefile command is being executed in user mode'' @ NL"

definition writefile_file :: "nat \<Rightarrow> string \<Rightarrow> string \<Rightarrow> unit uprog" where
  "writefile_file turns cond file =
     ubind (usys (U_open file 0)) (\<lambda>fd.
     if sint fd < 0 then uthen (uprintf 1 (''Error: Cannot open file %s'' @ NL) [A_str file]) uexit
     else uthen (uprintf 1 writefile_greeting []) (uthen (writefile_loop turns fd cond [] [] 0) (uthen (usys (U_close fd)) uexit)))"

text \<open>\<open>junk\<close> is the string that the uninitialised array \<open>cond\<close> holds when there is no option.\<close>

definition writefile_main :: "nat \<Rightarrow> string \<Rightarrow> string list \<Rightarrow> unit uprog" where
  "writefile_main turns junk argv =
     (if length argv \<le> 1 then uthen (uprintf 1 (''Usage: %s <program_name> <inputFile.txt>'' @ NL) [case argv of [] \<Rightarrow> A_null | a # _ \<Rightarrow> A_str a]) uexit
      else if length argv > 2 then (if length (argv ! 1) \<ge> 10 then uundef else writefile_file turns (argv ! 1) (argv ! 2))
      else writefile_file turns junk (argv ! 1))"

section \<open>Histories\<close>

text \<open>The bytes written to a descriptor, and the number of reads from one, in a history.\<close>

definition written :: "u32 \<Rightarrow> ucall list \<Rightarrow> u8 list" where
  "written fd h = concat (map (\<lambda>c. case c of U_write f bs \<Rightarrow> if f = fd then bs else [] | _ \<Rightarrow> []) h)"

definition reads :: "u32 \<Rightarrow> ucall list \<Rightarrow> nat" where
  "reads fd h = length (filter (\<lambda>c. case c of U_read f n \<Rightarrow> f = fd | _ \<Rightarrow> False) h)"

abbreviation says :: "u32 \<Rightarrow> string \<Rightarrow> ucall list \<Rightarrow> ucall list" where
  "says fd s h \<equiv> h @ map (\<lambda>c. U_write fd [of_char c]) s"

text \<open>The reads from \<open>fd\<close>, for \<open>n\<close> bytes each, deliver the parts of a file one after another, and then nothing.\<close>

definition delivers :: "kern \<Rightarrow> u32 \<Rightarrow> nat \<Rightarrow> u8 list list \<Rightarrow> bool" where
  "delivers k fd n cs \<longleftrightarrow> (\<forall>c\<in>set cs. c \<noteq> [] \<and> length c \<le> n) \<and> (\<forall>h. k h (U_read fd n)
     = (if reads fd h < length cs then (of_nat (length (cs ! reads fd h)), cs ! reads fd h) else (0, [])))"

lemma output_simps [simp]:
  "written fd [] = []" "written fd (h @ h') = written fd h @ written fd h'" "written fd [U_read f n] = []" "written fd [U_open s m] = []"
  "written fd [U_close f] = []" "written fd [U_write f bs] = (if f = fd then bs else [])" "written fd (U_write f bs # h) = (if f = fd then bs else []) @ written fd h"
  "written fd (U_read f n # h) = written fd h" "written fd (U_open s m # h) = written fd h"
  by (simp_all add: written_def)

lemma reads_simps [simp]:
  "reads fd [] = 0" "reads fd (h @ h') = reads fd h + reads fd h'" "reads fd [U_read f n] = (if f = fd then 1 else 0)" "reads fd [U_open s m] = 0"
  "reads fd [U_write f bs] = 0" "reads fd (U_write f bs # h) = reads fd h" "reads fd (U_read f n # h) = (if f = fd then Suc (reads fd h) else reads fd h)" "reads fd (U_open s m # h) = reads fd h"
  by (simp_all add: reads_def)

lemma says_simps [simp]: "written fd (map (\<lambda>c. U_write fd [of_char c]) s) = bytes_of s" "reads f (map (\<lambda>c. U_write fd [of_char c]) s) = 0"
  by (induction s) (simp_all add: bytes_of_def)

lemma puts_run [simp]: "puts fd s k h = Ret () (says fd s h)"
  by (induction s arbitrary: h) (simp_all add: putc_def)

lemma of_char_u8: "of_char (char_of (unat b)) = (b :: u8)"
proof -
  have "of_char (char_of (unat b)) = (of_nat (of_char (char_of (unat b))) :: u8)" by (rule of_nat_of_char [symmetric])
  also have "\<dots> = of_nat (unat b)" using unat_u8_lt [of b] by (simp only: of_char_of) simp
  finally show ?thesis by simp
qed

lemma bytes_of_chars [simp]: "bytes_of (chars_of l) = l"
  by (simp add: bytes_of_def chars_of_def comp_def of_char_u8)

lemma bytes_of_append [simp]: "bytes_of (s @ t) = bytes_of s @ bytes_of t" "bytes_of [] = []" "bytes_of (c # s) = of_char c # bytes_of s"
  by (simp_all add: bytes_of_def)

lemma chars_no_nul:
  assumes "0 \<notin> set l"
  shows "takeWhile (\<lambda>ch. ch \<noteq> CHR 0x00) (chars_of l) = chars_of l"
proof -
  have "char_of (unat b) \<noteq> CHR 0x00" if "b \<in> set l" for b
  proof
    assume "char_of (unat b) = CHR 0x00"
    then have "(of_char (char_of (unat b)) :: u8) = of_char (CHR 0x00)" by (rule arg_cong)
    then show False using that assms by (simp add: of_char_u8)
  qed
  then show ?thesis by (auto simp: chars_of_def)
qed

section \<open>Numbers\<close>

lemma uprintint_loop_10: "uprintint_loop x 10 = printint_loop x 10"
proof (induction "unat x" arbitrary: x rule: less_induct)
  case less
  have "unat (x mod 10) < 10" by (simp add: unat_mod)
  then have d: "udigits ! unat (x mod 10) = digits ! unat (x mod 10)"
    unfolding udigits_def digits_def by (simp add: less_Suc_eq numeral_eq_Suc, elim disjE) simp_all
  have "uprintint_loop (x div 10) 10 = printint_loop (x div 10) 10" if "x div 10 \<noteq> 0" using less unat_div_less [OF that] by simp
  then show ?case using d by (subst uprintint_loop.simps, subst printint_loop.simps) auto
qed

lemma uprintint_10: "uprintint x 10 True = printint x 10 True"
  by (simp add: uprintint_def printint_def uprintint_loop_10)

section \<open>writefile\<close>

lemma ustrcmp_eq: "0 \<notin> set p \<Longrightarrow> 0 \<notin> set q \<Longrightarrow> ustrcmp p q = 0 \<longleftrightarrow> p = q"
proof (induction p q rule: ustrcmp.induct)
  case (1 q)
  then show ?case by (cases q) auto
next
  case (2 a p q)
  then show ?case by (cases q) (auto simp: Let_def)
qed

text \<open>The effect of a line, as for \<open>uniq1\<close>, but for the counts: a run is printed with its own line when the next one begins.\<close>

definition flag_of :: "string \<Rightarrow> u32" where
  "flag_of cond = (if cond = ''-i'' then 1 else if cond = ''-d'' then 2 else if cond = ''-c'' then 3 else 0)"

definition wf_step :: "u32 \<Rightarrow> u8 list \<times> u32 \<Rightarrow> u8 list \<Rightarrow> string \<times> u8 list \<times> u32" where
  "wf_step flag st l = (case st of (p, c) \<Rightarrow> if flag = 3 \<and> p \<noteq> l \<and> p \<noteq> [] then (printint c 10 True @ '' '' @ chars_of p, l, 1) else uniq_step flag st l)"

fun wf_run :: "u32 \<Rightarrow> u8 list \<times> u32 \<Rightarrow> u8 list list \<Rightarrow> string" where
  "wf_run flag st [] = []"
| "wf_run flag st (l # ls) = fst (wf_step flag st l) @ wf_run flag (snd (wf_step flag st l)) ls"

lemma print_line_run [simp]: "0 \<notin> set l \<Longrightarrow> uprintf fd ''%s'' [A_str (chars_of l)] k h = Ret () (says fd (chars_of l) h)"
  by (simp add: uprintf_def chars_no_nul)

lemma print_count_run [simp]:
  "0 \<notin> set l \<Longrightarrow> uprintf fd ''%d %s'' [A_int c, A_str (chars_of l)] k h = Ret () (says fd (printint c 10 True @ '' '' @ chars_of l) h)"
  by (simp add: uprintf_def chars_no_nul uprintint_10)

lemma bytes_of_eq: "bytes_of s = bytes_of t \<longleftrightarrow> s = t"
proof -
  have "(of_char c :: u8) = of_char d \<longleftrightarrow> c = d" for c d
  proof
    assume "(of_char c :: u8) = of_char d"
    then have "(of_nat (of_char c) :: u8) = of_nat (of_char d)" by (simp only: of_nat_of_char)
    then have "unat (of_nat (of_char c) :: u8) = unat (of_nat (of_char d) :: u8)" by simp
    then have "(of_char c :: nat) = of_char d" by (simp add: unat_of_nat)
    then show "c = d" by simp
  qed simp
  then have "inj (of_char :: char \<Rightarrow> u8)" by (simp add: inj_def)
  then show ?thesis by (simp add: bytes_of_def inj_map_eq_map)
qed

lemma writefile_line_run:
  assumes "0 \<notin> set (bytes_of cond)" and "0 \<notin> set l" and "0 \<notin> set p"
  shows "writefile_line cond l p c k h = Ret (snd (wf_step (flag_of cond) (p, c) l)) (says 1 (fst (wf_step (flag_of cond) (p, c) l)) h)"
proof -
  have o: "ustrcmp (bytes_of cond) (bytes_of s) = 0 \<longleftrightarrow> cond = s" if "0 \<notin> set (bytes_of s)" for s
    using ustrcmp_eq [OF assms(1) that] by (simp add: bytes_of_eq)
  have i: "ustrcmp (bytes_of cond) (bytes_of ''-i'') = 0 \<longleftrightarrow> cond = ''-i''" "ustrcmp (bytes_of cond) (bytes_of ''-d'') = 0 \<longleftrightarrow> cond = ''-d''"
      "ustrcmp (bytes_of cond) (bytes_of ''-c'') = 0 \<longleftrightarrow> cond = ''-c''"
    by (intro o; simp add: bytes_of_def)+
  have z: "0 \<notin> set (lower_loop l)" using lower_loop_props assms(2) by blast
  note E = ustrcmp_eq z assms(2,3)
  consider "cond = ''-i''" | "cond = ''-d''" | "cond = ''-c''" | "cond \<noteq> ''-i''" "cond \<noteq> ''-d''" "cond \<noteq> ''-c''" by blast
  then show ?thesis
    unfolding writefile_line_def i Let_def by cases (auto simp: wf_step_def uniq_step_def flag_of_def Let_def E)
qed

lemma wf_step_no_nul: "0 \<notin> set l \<Longrightarrow> 0 \<notin> set p \<Longrightarrow> 0 \<notin> set (fst (snd (wf_step flag (p, c) l)))"
  using lower_loop_props by (auto simp: wf_step_def uniq_step_def)

lemma lines_reach: "(\<exists>l\<in>set (lines_of q xs). length q \<le> length l) \<or> length q \<le> length (rest_of q xs)"
proof (induction xs arbitrary: q)
  case (Cons x xs)
  show ?case using Cons.IH [of "q @ [x]"] by (cases "x = 10") (auto intro: Suc_leD bexI)
qed simp

lemma writefile_loop_run:
  assumes "delivers k fd 1 (map (\<lambda>b. [b]) text)" and "0 \<notin> set (bytes_of cond)"
    and "reads fd h \<le> length text" and "length text - reads fd h < turns" and "0 \<notin> set q" and "0 \<notin> set p" and "0 \<notin> set text"
    and "\<forall>l\<in>set (lines_of q (drop (reads fd h) text)). length l < 1000" and "length (rest_of q (drop (reads fd h) text)) \<le> 1000"
  shows "\<exists>h'. writefile_loop turns fd cond q p c k h = Ret () h'
    \<and> written 1 h' = written 1 h @ bytes_of (wf_run (flag_of cond) (p, c) (lines_of q (drop (reads fd h) text)))"
  using assms(3-)
proof (induction turns arbitrary: q p c h)
  case (Suc turns q p c h)
  let ?j = "reads fd h" and ?h = "h @ [U_read fd 1]"
  have ?case if e: "?j = length text"
  proof -
    have "k h (U_read fd 1) = (0, [])" using assms(1) e by (simp add: delivers_def)
    then show ?thesis using e by (intro exI [of _ ?h]) simp
  qed
  moreover have ?case if j: "?j < length text"
  proof -
    define b where "b = text ! ?j"
    have kr: "k h (U_read fd 1) = (1, [b])" using assms(1) j by (simp add: delivers_def b_def)
    have dr: "drop ?j text = b # drop (Suc ?j) text" using j by (simp add: b_def Cons_nth_drop_Suc)
    have bz: "b \<noteq> 0" using Suc.prems(5) nth_mem [OF j] unfolding b_def by metis
    show ?thesis
    proof (cases "b = 10")
      case False
      have ls: "lines_of q (drop ?j text) = lines_of (q @ [b]) (drop (Suc ?j) text)" "rest_of q (drop ?j text) = rest_of (q @ [b]) (drop (Suc ?j) text)"
        using False by (simp_all add: dr)
      then have "length (q @ [b]) \<le> 1000" using lines_reach [of "q @ [b]" "drop (Suc ?j) text"] Suc.prems(6,7) by fastforce
      then have q: "length q < 1000" by simp
      have "\<exists>h'. writefile_loop turns fd cond (q @ [b]) p c k ?h = Ret () h'
        \<and> written 1 h' = written 1 ?h @ bytes_of (wf_run (flag_of cond) (p, c) (lines_of (q @ [b]) (drop (reads fd ?h) text)))"
        using Suc.prems j bz ls by (intro Suc.IH) auto
      then show ?thesis using q False kr ls by auto
    next
      case True
      have ls: "lines_of q (drop ?j text) = (q @ [10]) # lines_of [] (drop (Suc ?j) text)" "rest_of q (drop ?j text) = rest_of [] (drop (Suc ?j) text)"
        using True by (simp_all add: dr)
      have q: "length (q @ [10]) < 1000" using Suc.prems(6) ls by simp
      have z: "0 \<notin> set (q @ [10])" using Suc.prems(3) by simp
      then have tw: "takeWhile (\<lambda>b. b \<noteq> 0) (q @ [10]) = q @ [10]" by (intro takeWhile_eq_all_conv [THEN iffD2]) auto
      obtain out p' c' where st: "wf_step (flag_of cond) (p, c) (q @ [10]) = (out, p', c')" by (cases "wf_step (flag_of cond) (p, c) (q @ [10])") auto
      have p': "0 \<notin> set p'" using wf_step_no_nul [OF z Suc.prems(4), of "flag_of cond" c] st by simp
      have ln: "writefile_line cond (q @ [10]) p c k ?h = Ret (p', c') (says 1 out ?h)"
        using writefile_line_run [OF assms(2) z Suc.prems(4)] st by simp
      have "\<exists>h'. writefile_loop turns fd cond [] p' c' k (says 1 out ?h) = Ret () h'
        \<and> written 1 h' = written 1 (says 1 out ?h) @ bytes_of (wf_run (flag_of cond) (p', c') (lines_of [] (drop (reads fd (says 1 out ?h)) text)))"
        using Suc.prems j p' ls by (intro Suc.IH) auto
      then show ?thesis using q True kr ls ln st tw by auto
    qed
  qed
  ultimately show ?case using Suc.prems(1) by fastforce
qed simp

definition wf_spec :: "string \<Rightarrow> u8 list list \<Rightarrow> string" where
  "wf_spec cond ls =
     (if cond = ''-i'' then concat (map (\<lambda>r. chars_of (snd r)) (runs lower_loop ls))
      else if cond = ''-d'' then concat (map (\<lambda>r. chars_of (snd r)) (filter (\<lambda>r. 2 \<le> fst r) (runs (\<lambda>x. x) ls)))
      else if cond = ''-c'' then concat (map (\<lambda>r. count_line (fst r) (snd r)) (butlast (runs (\<lambda>x. x) ls)))
      else concat (map (\<lambda>r. chars_of (snd r)) (runs (\<lambda>x. x) ls)))"

lemma wf_run_uniq: "flag \<noteq> 3 \<Longrightarrow> wf_run flag st ls = uniq_run flag st ls"
proof (induction ls arbitrary: st)
  case (Cons l ls)
  have "wf_step flag st l = uniq_step flag st l" using Cons.prems by (cases st) (simp add: wf_step_def)
  then show ?case using Cons by simp
qed simp

lemma wf_run_3:
  "p \<noteq> [] \<Longrightarrow> [] \<notin> set ls \<Longrightarrow> wf_run 3 (p, of_nat (Suc k)) ls
     = concat (map (\<lambda>r. count_line (fst r) (snd r)) (butlast ((k + fst (hd (runs (\<lambda>x. x) (p # ls))), p) # tl (runs (\<lambda>x. x) (p # ls)))))"
proof (induction ls arbitrary: p k)
  case (Cons l ls)
  obtain n rs where r: "runs (\<lambda>x. x) (l # ls) = (n, l) # rs" using hd_runs [of "\<lambda>x. x" l ls] by blast
  show ?case
  proof (cases "p = l")
    case True
    have "wf_run 3 (p, of_nat (Suc k)) (l # ls) = wf_run 3 (p, of_nat (Suc (Suc k))) ls"
      using True by (simp add: wf_step_def uniq_step_def add.commute)
    also note Cons.IH [of p "Suc k"]
    finally show ?thesis using Cons.prems True r by (simp add: runs_step del: wf_run.simps)
  next
    case False
    have "wf_run 3 (p, of_nat (Suc k)) (l # ls) = count_line (Suc k) p @ wf_run 3 (l, of_nat (Suc 0)) ls"
      using False Cons.prems(1) by (simp add: wf_step_def count_line_def)
    also have "\<dots> = count_line (Suc k) p @ concat (map (\<lambda>r. count_line (fst r) (snd r)) (butlast ((fst (hd (runs (\<lambda>x. x) (l # ls))), l) # tl (runs (\<lambda>x. x) (l # ls)))))"
      using Cons.IH [of l 0] Cons.prems by auto
    finally show ?thesis using Cons.prems False r by (simp add: runs_step del: wf_run.simps)
  qed
qed simp

lemma wf_run_spec:
  assumes "\<forall>l\<in>set ls. l \<noteq> []" and "length ls < 2 ^ 32"
  shows "wf_run (flag_of cond) ([], 0) ls = wf_spec cond ls"
proof (cases "cond = ''-c''")
  case True
  show ?thesis
  proof (cases ls)
    case (Cons l ls')
    have "wf_run 3 ([], 0) (l # ls') = wf_run 3 (l, of_nat (Suc 0)) ls'" using assms(1) Cons by (simp add: wf_step_def uniq_step_def)
    also have "\<dots> = concat (map (\<lambda>r. count_line (fst r) (snd r)) (butlast (runs (\<lambda>x. x) (l # ls'))))"
      using wf_run_3 [of l ls' 0] assms(1) Cons hd_runs [of "\<lambda>x. x" l ls'] by auto
    finally show ?thesis using True Cons by (simp add: flag_of_def wf_spec_def)
  qed (use True in \<open>simp add: wf_spec_def\<close>)
next
  case False
  then have "flag_of cond \<noteq> 3" by (simp add: flag_of_def)
  then show ?thesis using wf_run_uniq uniq_run_spec [OF assms] False by (simp add: wf_spec_def uniq_spec_def flag_of_def)
qed

text \<open>
  C30: \<open>writefile\<close>, the \<open>uniq\<close> of the user. On a text without NUL bytes and with lines that fit its array it writes, behind its
  greeting and whatever the kernel answers to the writes, the first line of every run of equal lines; with \<open>-i\<close> lines are equal up to the case of letters, with \<open>-d\<close>
  only runs of two lines and more count, and with \<open>-c\<close> every run is written with its length, except the last, which is lost.
  Without an option the array that is compared with the options has not been set, and what it holds decides.
\<close>
theorem writefile_prints:
  assumes "argv = [nm, file] \<and> cond = junk \<or> (\<exists>opt. argv = [nm, opt, file] \<and> cond = opt \<and> length opt < 10)"
    and "\<forall>h. fst (k h (U_open file 0)) = fd" and "0 \<le> sint fd" and "delivers k fd 1 (map (\<lambda>b. [b]) text)"
    and "0 \<notin> set (bytes_of cond)" and "0 \<notin> set text" and "\<forall>l\<in>set (lines_of [] text). length l < 1000" and "length (rest_of [] text) \<le> 1000"
    and "length text < turns" and "length text < 2 ^ 32"
  shows "\<exists>h. writefile_main turns junk argv k [] = Quit h
    \<and> written 1 h = bytes_of (writefile_greeting @ wf_spec cond (lines_of [] text))"
proof -
  let ?m = writefile_greeting
  let ?h = "says 1 ?m [U_open file 0]"
  have m: "uprintf_loop False ?m [] = Some ?m" by (simp add: writefile_greeting_def NL_def)
  have "reads fd ?h = 0" by simp
  then obtain h where h: "writefile_loop turns fd cond [] [] 0 k ?h = Ret () h"
    "written 1 h = written 1 ?h @ bytes_of (wf_run (flag_of cond) ([], 0) (lines_of [] text))"
    using writefile_loop_run [where h = ?h and q = "[]" and p = "[]" and c = 0 and turns = turns, OF assms(4,5)] assms(6-9) by auto
  have "\<forall>l\<in>set (lines_of [] text). l \<noteq> []" using lines_of_props assms(6) by fastforce
  moreover have "length (lines_of [] text) < 2 ^ 32" using lines_of_length [of "[]" "text"] assms(10) by linarith
  ultimately have w: "written 1 h = bytes_of (?m @ wf_spec cond (lines_of [] text))" using h(2) wf_run_spec by simp
  have "writefile_file turns cond file k [] = Quit (h @ [U_close fd])"
    using assms(2,3) h(1) m by (simp add: writefile_file_def uprintf_def)
  moreover have "writefile_main turns junk argv = writefile_file turns cond file"
    using assms(1) by (auto simp: writefile_main_def numeral_2_eq_2)
  ultimately have "writefile_main turns junk argv k [] = Quit (h @ [U_close fd])" by (simp only:)
  then show ?thesis using w by (intro exI [of _ "h @ [U_close fd]"]) simp
qed

text \<open>Lines \<open>a\<close>, \<open>a\<close>, \<open>b\<close> with \<open>-c\<close>: the run of \<open>a\<close> is counted, that of \<open>b\<close> is not.\<close>

definition demo_kern :: "u8 list \<Rightarrow> kern" where
  "demo_kern text h c = (case c of U_open s m \<Rightarrow> (3, [])
     | U_read fd n \<Rightarrow> (if reads fd h < length text then (1, [text ! reads fd h]) else (0, []))
     | U_write fd bs \<Rightarrow> (of_nat (length bs), []) | _ \<Rightarrow> (0, []))"

lemma demo_kern_delivers: "delivers (demo_kern text) fd 1 (map (\<lambda>b. [b]) text)"
  by (auto simp: delivers_def demo_kern_def)

theorem writefile_prints_witness:
  "\<exists>h. writefile_main 9 [] [''writefile'', ''-c'', ''f''] (demo_kern [97, 10, 97, 10, 98, 10]) [] = Quit h
    \<and> written 1 h = bytes_of (writefile_greeting @ ''2 a'' @ NL)"
proof -
  let ?t = "[97, 10, 97, 10, 98, 10] :: u8 list"
  note demo_kern_delivers [of ?t 3]
  moreover have "wf_spec ''-c'' (lines_of [] ?t) = ''2 a'' @ NL" by code_simp
  ultimately show ?thesis
    using writefile_prints [of "[''writefile'', ''-c'', ''f'']" "''writefile''" "''f''" "''-c''" "[]" "demo_kern ?t" 3 ?t 9]
    by (simp add: demo_kern_def bytes_of_def)
qed

section \<open>head\<close>

text \<open>The bytes up to the \<open>n\<close>-th newline, or all.\<close>

fun upto_line :: "nat \<Rightarrow> u8 list \<Rightarrow> u8 list" where
  "upto_line 0 bs = []"
| "upto_line (Suc n) [] = []"
| "upto_line (Suc n) (b # bs) = b # (if b = 10 then upto_line n bs else upto_line (Suc n) bs)"

definition newlines :: "u8 list \<Rightarrow> nat" where
  "newlines bs = length (filter (\<lambda>b. b = 10) bs)"

lemma newlines_simps [simp]: "newlines [] = 0" "newlines (b # bs) = (if b = 10 then Suc (newlines bs) else newlines bs)"
  by (simp_all add: newlines_def)

lemma upto_line_append: "upto_line n (xs @ ys) = upto_line n xs @ upto_line (n - newlines xs) ys"
  by (induction n xs rule: upto_line.induct) auto

lemma upto_line_lines:
  "0 < n \<Longrightarrow> q @ upto_line n bs = concat (take n (lines_of q bs)) @ (if length (lines_of q bs) < n then rest_of q bs else [])"
proof (induction bs arbitrary: q n)
  case Nil
  then show ?case by (cases n) simp_all
next
  case (Cons b bs q n)
  obtain m where n: "n = Suc m" using Cons.prems by (cases n) auto
  show ?case
  proof (cases "b = 10")
    case True
    then show ?thesis using Cons.IH [of m "[]"] n by (cases m) auto
  next
    case False
    then show ?thesis using Cons.IH [OF Cons.prems, of "q @ [b]"] n by simp
  qed
qed

lemma slt_nat:
  assumes "c < 2 ^ 31" and "N < 2 ^ 31"
  shows "slt (of_nat c) (of_nat N) \<longleftrightarrow> c < N"
proof -
  have "sint (of_nat m :: u32) = int m" if "m < 2 ^ 31" for m
    using that by (simp add: signed_of_nat signed_take_bit_int_eq_self)
  then show ?thesis using assms by simp
qed

lemma uhead_bytes_run:
  assumes w: "\<forall>h b. fst (k h (U_write 1 [b])) = 1" and N: "N < 2 ^ 31"
  shows "c \<le> N \<Longrightarrow> uhead_bytes bs (of_nat c) (of_nat N) k h
    = Ret (of_nat (c + min (N - c) (newlines bs))) (h @ map (\<lambda>b. U_write 1 [b]) (upto_line (N - c) bs))"
proof (induction bs arbitrary: c h)
  case Nil
  then show ?case by (cases "N - c") simp_all
next
  case (Cons b bs c h)
  show ?case
  proof (cases "c < N")
    case True
    then obtain m where m: "N - c = Suc m" "N - Suc c = m" by (metis Suc_diff_Suc)
    have s: "slt (of_nat c) (of_nat N)" using slt_nat [of c N] True N by simp
    show ?thesis
    proof (cases "b = 10")
      case True
      then show ?thesis using s m Cons.IH [of "Suc c" "h @ [U_write 1 [b]]"] \<open>c < N\<close> by (simp add: w add.commute)
    next
      case False
      then show ?thesis using s m Cons.IH [of c "h @ [U_write 1 [b]]"] \<open>c < N\<close> by (simp add: w)
    qed
  next
    case False
    then show ?thesis using slt_nat [of c N] N Cons.prems by simp
  qed
qed

lemma written_bytes [simp]: "written 1 (map (\<lambda>b. U_write 1 [b]) bs) = bs" "reads f (map (\<lambda>b. U_write 1 [b]) bs) = 0"
  by (induction bs) simp_all

lemma uhead_run:
  assumes w: "\<forall>h b. fst (k h (U_write 1 [b])) = 1" and N: "N < 2 ^ 31" and d: "delivers k fd 512 cs"
  shows "c \<le> N \<Longrightarrow> reads fd h \<le> length cs \<Longrightarrow> length cs - reads fd h < turns \<Longrightarrow>
    \<exists>h'. uhead turns fd (of_nat c) (of_nat N) k h = Ret () h' \<and> written 1 h' = written 1 h @ upto_line (N - c) (concat (drop (reads fd h) cs))"
proof (induction turns arbitrary: c h)
  case (Suc turns c h)
  let ?j = "reads fd h" and ?h = "h @ [U_read fd 512]"
  show ?case
  proof (cases "?j < length cs \<and> c < N")
    case True
    then have j: "?j < length cs" and c: "c < N" by simp_all
    define b where "b = cs ! ?j"
    have b: "b \<noteq> []" "length b \<le> 512" using d j by (auto simp: delivers_def b_def)
    have kr: "k h (U_read fd 512) = (of_nat (length b), b)" using d j by (simp add: delivers_def b_def)
    have n: "0 < sint (of_nat (length b) :: u32)" "unat (of_nat (length b) :: u32) = length b"
      using b slt_nat [of 0 "length b"] by (simp, intro unat_of_nat_u32) simp_all
    let ?c = "c + min (N - c) (newlines b)"
    let ?h2 = "?h @ map (\<lambda>b. U_write 1 [b]) (upto_line (N - c) b)"
    have r: "uhead_bytes b (of_nat c) (of_nat N) k ?h = Ret (of_nat ?c) ?h2" using uhead_bytes_run [OF w N] c by simp
    have "\<exists>h'. uhead turns fd (of_nat ?c) (of_nat N) k ?h2 = Ret () h' \<and> written 1 h' = written 1 ?h2 @ upto_line (N - ?c) (concat (drop (reads fd ?h2) cs))"
      using Suc.prems j by (intro Suc.IH) auto
    then obtain h' where h': "uhead turns fd (of_nat ?c) (of_nat N) k ?h2 = Ret () h'"
      "written 1 h' = written 1 h @ upto_line (N - c) b @ upto_line (N - ?c) (concat (drop (Suc ?j) cs))" by auto
    have "drop ?j cs = b # drop (Suc ?j) cs" using j by (simp add: b_def Cons_nth_drop_Suc)
    moreover have "N - ?c = N - c - newlines b" by simp
    ultimately have "written 1 h' = written 1 h @ upto_line (N - c) (concat (drop ?j cs))" using h'(2) by (simp only: upto_line_append concat.simps)
    then show ?thesis using kr n r h'(1) slt_nat [of c N] c N by (intro exI [of _ h']) (simp del: of_nat_add)
  next
    case False
    have s: "\<not> (0 < sint (fst (k h (U_read fd 512))) \<and> slt (of_nat c) (of_nat N))"
      using False d slt_nat [of c N] N Suc.prems(1) by (auto simp: delivers_def)
    have "upto_line (N - c) (concat (drop ?j cs)) = []" using False Suc.prems by (cases "N - c") auto
    then show ?thesis using s by (intro exI [of _ ?h]) (auto split: prod.splits)
  qed
qed simp

text \<open>
  C31: \<open>head\<close>, the user's program. With \<open>-n\<close> and a number it writes, behind its greeting, that many lines of the file, all of it when it has fewer, an unfinished
  line included, however the kernel cuts the file into reads.
\<close>
theorem head_prints:
  assumes "delivers k fd 512 cs" and "\<forall>h b. fst (k h (U_write 1 [b])) = 1" and "\<forall>h. fst (k h (U_open file 0)) = fd" and "0 \<le> sint fd"
    and "atoi num = of_nat n" and "0 < n" and "n < 2 ^ 31" and "length cs < turns"
  shows "\<exists>h. uhead_main turns [nm, ''-n'', num, file] k [] = Quit h
    \<and> written 1 h = bytes_of uhead_greeting @ concat (take n (lines_of [] (concat cs)))
        @ (if length (lines_of [] (concat cs)) < n then rest_of [] (concat cs) else [])"
proof -
  let ?h = "says 1 uhead_greeting [] @ [U_open file 0]"
  obtain h where h: "uhead turns fd (of_nat 0) (of_nat n) k ?h = Ret () h" "written 1 h = written 1 ?h @ upto_line n (concat cs)"
    using uhead_run [where c = 0 and h = ?h and turns = turns, OF assms(2,7,1)] assms(8) by (simp del: of_nat_0) blast
  have "uhead_args turns [num, file] (of_nat n) k (says 1 uhead_greeting []) = Quit (h @ [U_close fd])"
    using h(1) assms(3,4) by (simp add: uhead_args_def)
  moreover have o: "ustrcmp (bytes_of ''-n'') (bytes_of ''-n'') = 0" by (intro ustrcmp_eq [THEN iffD2]) (simp_all add: bytes_of_def)
  have "uhead_main turns [nm, ''-n'', num, file] = uthen (uprintf 1 uhead_greeting []) (uhead_args turns [num, file] (of_nat n))"
    using o assms(5) by (simp add: uhead_main_def numeral_2_eq_2)
  moreover have "uprintf_loop False uhead_greeting [] = Some uhead_greeting" by (simp add: uhead_greeting_def NL_def)
  then have "uprintf 1 uhead_greeting [] k [] = Ret () (says 1 uhead_greeting [])" by (simp add: uprintf_def)
  ultimately have "uhead_main turns [nm, ''-n'', num, file] k [] = Quit (h @ [U_close fd])" by (simp only: uthen_run uout.case)
  then show ?thesis using h(2) upto_line_lines [OF assms(6), of "[]" "concat cs"] by (intro exI [of _ "h @ [U_close fd]"]) simp
qed

text \<open>A kernel that has one file, in parts.\<close>

definition demo_parts :: "u8 list list \<Rightarrow> kern" where
  "demo_parts cs h c = (case c of U_open s m \<Rightarrow> (3, [])
     | U_read fd n \<Rightarrow> (if reads fd h < length cs then (of_nat (length (cs ! reads fd h)), cs ! reads fd h) else (0, []))
     | U_write fd bs \<Rightarrow> (of_nat (length bs), []) | _ \<Rightarrow> (0, []))"

lemma demo_parts_delivers: "\<forall>c\<in>set cs. c \<noteq> [] \<and> length c \<le> n \<Longrightarrow> delivers (demo_parts cs) fd n cs"
  by (auto simp: delivers_def demo_parts_def)

theorem head_prints_witness:
  "\<exists>h. uhead_main 9 [''head'', ''-n'', ''2'', ''f''] (demo_parts [[97], [10, 98], [10, 99]]) [] = Quit h
    \<and> written 1 h = bytes_of (uhead_greeting @ ''a'' @ NL @ ''b'' @ NL)"
proof -
  have d: "delivers (demo_parts [[97], [10, 98], [10, 99]]) 3 512 [[97], [10, 98], [10, 99]]" by (rule demo_parts_delivers) simp
  have w: "\<forall>h b. fst (demo_parts [[97], [10, 98], [10, 99]] h (U_write 1 [b])) = 1" "\<forall>h. fst (demo_parts [[97], [10, 98], [10, 99]] h (U_open ''f'' 0)) = 3"
    by (simp_all add: demo_parts_def)
  have "atoi ''2'' = of_nat 2" by (simp add: atoi_def)
  from head_prints [OF d w _ this, of 9 "''head''"] show ?thesis by (simp add: bytes_of_def NL_def)
qed

section \<open>Numbers that are read back\<close>

lemma atoi_loop_digits:
  "\<forall>c\<in>set cs. 48 \<le> (of_char c :: nat) \<and> (of_char c :: nat) \<le> 57 \<Longrightarrow> atoi_loop (of_nat v) cs = of_nat (foldl (\<lambda>v c. 10 * v + digit_val c) v cs)"
proof (induction cs arbitrary: v)
  case (Cons c cs v)
  then have "digit_val c = of_char c - 48" "48 \<le> (of_char c :: nat)" by (auto simp: digit_val_def Let_def)
  then have "of_nat (of_char c) - 48 = (of_nat (digit_val c) :: u32)" by (simp add: of_nat_diff)
  then have e: "of_nat v * 10 + of_nat (of_char c) - 48 = (of_nat (10 * v + digit_val c) :: u32)" by (simp add: add_diff_eq [symmetric] mult.commute)
  have "atoi_loop (of_nat v) (c # cs) = atoi_loop (of_nat (10 * v + digit_val c)) cs" using Cons.prems by (simp only: atoi_loop.simps Let_def e) simp
  then show ?case using Cons.IH [of "10 * v + digit_val c"] Cons.prems by simp
qed simp

lemma printint_loop_decimal: "\<forall>c\<in>set (printint_loop x 10). 48 \<le> (of_char c :: nat) \<and> (of_char c :: nat) \<le> 57"
proof (induction "unat x" arbitrary: x rule: less_induct)
  case less
  have "unat (x mod 10) < 10" by (simp add: unat_mod)
  then have "48 \<le> (of_char (digits ! unat (x mod 10)) :: nat) \<and> (of_char (digits ! unat (x mod 10)) :: nat) \<le> 57"
    unfolding digits_def by (simp add: less_Suc_eq numeral_eq_Suc, elim disjE) simp_all
  moreover have "\<forall>c\<in>set (printint_loop (x div 10) 10). 48 \<le> (of_char c :: nat) \<and> (of_char c :: nat) \<le> 57" if "x div 10 \<noteq> 0"
    using less unat_div_less [OF that] by simp
  ultimately show ?case by (subst printint_loop.simps) auto
qed

text \<open>\<open>atoi\<close> reads what \<open>printf\<close> prints for \<open>%d\<close>, if the number is not negative.\<close>

lemma atoi_printed:
  assumes "0 \<le> sint x"
  shows "atoi (uprintint x 10 True) = x"
proof -
  have "uprintint x 10 True = rev (printint_loop x 10)" using assms by (simp add: uprintint_10 printint_def)
  moreover have "\<forall>c\<in>set (rev (printint_loop x 10)). 48 \<le> (of_char c :: nat) \<and> (of_char c :: nat) \<le> 57" using printint_loop_decimal [of x] by simp
  from atoi_loop_digits [OF this, of 0] have "atoi_loop 0 (rev (printint_loop x 10)) = of_nat (base_val 10 (rev (printint_loop x 10)))"
    by (simp add: base_val_def)
  moreover have "base_val 10 (rev (printint_loop x 10)) = unat x" using printint_loop_val [of 10 x] by simp
  ultimately show ?thesis by (simp add: atoi_def)
qed

end
