(* ===== verification/User_Tools.thy ===== *)
theory User_Tools
  imports User_Programs "HOL-Library.Signed_Division"
begin

text \<open>
  The small programs: \<open>wc\<close>, \<open>cat\<close>, \<open>echo\<close>, \<open>ls\<close>, \<open>kill\<close>, \<open>ln\<close>, \<open>mkdir\<close>, \<open>rm\<close>, \<open>ps\<close>, \<open>zombie\<close>, \<open>init\<close>, and the programs with which the authors measure
  their schedulers, \<open>test\<close> and \<open>testp\<close>. What \<open>wc\<close> counts and that \<open>cat\<close> copies does not depend on how the kernel cuts the input into reads; the
  statistics of \<open>test\<close> are sums over the answers of \<open>procstat\<close>.
\<close>

section \<open>wc\<close>

definition wc_space :: "u8 \<Rightarrow> bool" where
  "wc_space b \<longleftrightarrow> strchr [0x20, 0x0D, 0x09, 0x0A, 0x0B] b \<noteq> None"

fun wc_bytes :: "u8 list \<Rightarrow> u32 \<times> u32 \<times> u32 \<times> bool \<Rightarrow> u32 \<times> u32 \<times> u32 \<times> bool" where
  "wc_bytes [] st = st"
| "wc_bytes (b # bs) (l, w, c, inword) =
     wc_bytes bs (if b = 10 then l + 1 else l, if \<not> wc_space b \<and> \<not> inword then w + 1 else w, c + 1, \<not> wc_space b)"

fun wc_loop :: "nat \<Rightarrow> u32 \<Rightarrow> string \<Rightarrow> u32 \<times> u32 \<times> u32 \<times> bool \<Rightarrow> unit uprog" where
  "wc_loop 0 fd name st = ugoing"
| "wc_loop (Suc turns) fd name st =
     ubind (ucall (U_read fd 512)) (\<lambda>(n, buf).
     if 0 < sint n then wc_loop turns fd name (wc_bytes (take (unat n) buf) st)
     else if sint n < 0 then uthen (uprintf 1 (''wc: read error'' @ NL) []) uexit
     else (case st of (l, w, c, _) \<Rightarrow> uprintf 1 (''%d %d %d %s'' @ NL) [A_int l, A_int w, A_int c, A_str name]))"

definition wc :: "nat \<Rightarrow> u32 \<Rightarrow> string \<Rightarrow> unit uprog" where
  "wc turns fd name = wc_loop turns fd name (0, 0, 0, False)"

fun wc_files :: "nat \<Rightarrow> string list \<Rightarrow> unit uprog" where
  "wc_files turns [] = uexit"
| "wc_files turns (f # fs) =
     ubind (usys (U_open f 0)) (\<lambda>fd.
     if sint fd < 0 then uthen (uprintf 1 (''wc: cannot open %s'' @ NL) [A_str f]) uexit
     else uthen (wc turns fd f) (uthen (usys (U_close fd)) (wc_files turns fs)))"

definition wc_main :: "nat \<Rightarrow> string list \<Rightarrow> unit uprog" where
  "wc_main turns argv = (if length argv \<le> 1 then uthen (wc turns 0 []) uexit else wc_files turns (tl argv))"

section \<open>cat\<close>

fun cat :: "nat \<Rightarrow> u32 \<Rightarrow> unit uprog" where
  "cat 0 fd = ugoing"
| "cat (Suc turns) fd =
     ubind (ucall (U_read fd 512)) (\<lambda>(n, buf).
     if 0 < sint n then
       ubind (usys (U_write 1 (take (unat n) buf))) (\<lambda>r.
       if r \<noteq> n then uthen (uprintf 1 (''cat: write error'' @ NL) []) uexit else cat turns fd)
     else if sint n < 0 then uthen (uprintf 1 (''cat: read error'' @ NL) []) uexit
     else uret ())"

fun cat_files :: "nat \<Rightarrow> string list \<Rightarrow> unit uprog" where
  "cat_files turns [] = uexit"
| "cat_files turns (f # fs) =
     ubind (usys (U_open f 0)) (\<lambda>fd.
     if sint fd < 0 then uthen (uprintf 1 (''cat: cannot open %s'' @ NL) [A_str f]) uexit
     else uthen (cat turns fd) (uthen (usys (U_close fd)) (cat_files turns fs)))"

definition cat_main :: "nat \<Rightarrow> string list \<Rightarrow> unit uprog" where
  "cat_main turns argv = (if length argv \<le> 1 then uthen (cat turns 0) uexit else cat_files turns (tl argv))"

section \<open>Programs that make a call for every argument\<close>

fun echo_args :: "string list \<Rightarrow> unit uprog" where
  "echo_args [] = uexit"
| "echo_args (a # as) = uthen (uprintf 1 ''%s%s'' [A_str a, A_str (if as \<noteq> [] then '' '' else NL)]) (echo_args as)"

definition echo_main :: "string list \<Rightarrow> unit uprog" where
  "echo_main argv = echo_args (tl argv)"

fun kill_args :: "string list \<Rightarrow> unit uprog" where
  "kill_args [] = uexit"
| "kill_args (a # as) = uthen (usys (U_kill (atoi a))) (kill_args as)"

definition kill_main :: "string list \<Rightarrow> unit uprog" where
  "kill_main argv = (if length argv < 2 then uthen (uprintf 2 (''usage: kill pid...'' @ NL) []) uexit else kill_args (tl argv))"

definition ln_main :: "string list \<Rightarrow> unit uprog" where
  "ln_main argv =
     (if length argv \<noteq> 3 then uthen (uprintf 2 (''Usage: ln old new'' @ NL) []) uexit
      else ubind (usys (U_link (argv ! 1) (argv ! 2))) (\<lambda>r.
        uthen (if sint r < 0 then uprintf 2 (''link %s %s: failed'' @ NL) [A_str (argv ! 1), A_str (argv ! 2)] else uret ()) uexit))"

fun mkdir_args :: "string list \<Rightarrow> unit uprog" where
  "mkdir_args [] = uexit"
| "mkdir_args (a # as) = ubind (usys (U_mkdir a)) (\<lambda>r.
     if sint r < 0 then uthen (uprintf 2 (''mkdir: %s failed to create'' @ NL) [A_str a]) uexit else mkdir_args as)"

definition mkdir_main :: "string list \<Rightarrow> unit uprog" where
  "mkdir_main argv = (if length argv < 2 then uthen (uprintf 2 (''Usage: mkdir files...'' @ NL) []) uexit else mkdir_args (tl argv))"

fun rm_args :: "string list \<Rightarrow> unit uprog" where
  "rm_args [] = uexit"
| "rm_args (a # as) = ubind (usys (U_unlink a)) (\<lambda>r.
     if sint r < 0 then uthen (uprintf 2 (''rm: %s failed to delete'' @ NL) [A_str a]) uexit else rm_args as)"

definition rm_main :: "string list \<Rightarrow> unit uprog" where
  "rm_main argv = (if length argv < 2 then uthen (uprintf 2 (''Usage: rm files...'' @ NL) []) uexit else rm_args (tl argv))"

section \<open>ls\<close>

text \<open>\<open>stat\<close> of \<open>ulib.c\<close>: the result and the bytes of the \<open>struct stat\<close>.\<close>

definition ustat :: "string \<Rightarrow> (u32 \<times> u8 list) uprog" where
  "ustat n =
     ubind (usys (U_open n 0)) (\<lambda>fd.
     if sint fd < 0 then uret (-1, [])
     else ubind (ucall (U_fstat fd)) (\<lambda>r. uthen (usys (U_close fd)) (uret r)))"

text \<open>The part behind the last slash, padded with blanks to fourteen characters.\<close>

definition fmtname :: "string \<Rightarrow> string" where
  "fmtname path =
     (let p = rev (takeWhile (\<lambda>c. c \<noteq> CHR 0x2F) (rev path))
      in if length p \<ge> 14 then p else p @ replicate (14 - length p) (CHR 0x20))"

text \<open>The line for a file: \<open>type\<close>, \<open>ino\<close> and \<open>size\<close> are at offsets 0, 8 and 16 of the \<open>struct stat\<close>; \<open>type\<close> is a short.\<close>

definition ls_line :: "string \<Rightarrow> u8 list \<Rightarrow> unit uprog" where
  "ls_line path st =
     uprintf 1 (''%s %d %d %d'' @ NL) [A_str (fmtname path), A_int (scast (get16 st 0)), A_int (get32 st 8), A_int (get32 st 16)]"

text \<open>The entries of a directory. A name that fills its field has no NUL there; \<open>p[DIRSIZ] = 0\<close> ends it.\<close>

fun ls_entries :: "nat \<Rightarrow> u32 \<Rightarrow> string \<Rightarrow> unit uprog" where
  "ls_entries 0 fd path = ugoing"
| "ls_entries (Suc turns) fd path =
     ubind (ucall (U_read fd 16)) (\<lambda>(n, de).
     if n \<noteq> 16 then uret ()
     else if get16 de 0 = 0 then ls_entries turns fd path
     else let buf = path @ CHR 0x2F # chars_of (takeWhile (\<lambda>b. b \<noteq> 0) (take 14 (drop 2 de))) in
       ubind (ustat buf) (\<lambda>(r, st).
       uthen (if sint r < 0 then uprintf 1 (''ls: cannot stat %s'' @ NL) [A_str buf] else ls_line buf st) (ls_entries turns fd path)))"

definition ls :: "nat \<Rightarrow> string \<Rightarrow> unit uprog" where
  "ls turns path =
     ubind (usys (U_open path 0)) (\<lambda>fd.
     if sint fd < 0 then uprintf 2 (''ls: cannot open %s'' @ NL) [A_str path]
     else ubind (ucall (U_fstat fd)) (\<lambda>(r, st).
     if sint r < 0 then uthen (uprintf 2 (''ls: cannot stat %s'' @ NL) [A_str path]) (ubind (usys (U_close fd)) (\<lambda>_. uret ()))
     else uthen
       (if get16 st 0 = 2 then ls_line path st
        else if get16 st 0 = 1 then
          (if length path + 1 + 14 + 1 > 512 then uprintf 1 (''ls: path too long'' @ NL) [] else ls_entries turns fd path)
        else uret ())
       (ubind (usys (U_close fd)) (\<lambda>_. uret ()))))"

fun ls_args :: "nat \<Rightarrow> string list \<Rightarrow> unit uprog" where
  "ls_args turns [] = uexit"
| "ls_args turns (a # as) = uthen (ls turns a) (ls_args turns as)"

definition ls_main :: "nat \<Rightarrow> string list \<Rightarrow> unit uprog" where
  "ls_main turns argv = (if length argv < 2 then uthen (ls turns ''.'') uexit else ls_args turns (tl argv))"

section \<open>Programs that start others\<close>

text \<open>An \<open>exec\<close> that succeeds does not return: the process runs another program.\<close>

definition uexec :: "string \<Rightarrow> string list \<Rightarrow> unit uprog \<Rightarrow> unit uprog" where
  "uexec path argv failed = ubind (usys (U_exec path argv)) (\<lambda>r. if sint r < 0 then failed else uexit)"

definition ps_main :: "unit uprog" where
  "ps_main = uthen (usys U_ps) uexit"

definition zombie_main :: "unit uprog" where
  "zombie_main = ubind (usys U_fork) (\<lambda>pid. if 0 < sint pid then uthen (usys (U_sleep 5)) uexit else uexit)"

text \<open>The loop in which \<open>init\<close> waits for the shell, taking in orphans; then the shell is started again.\<close>

fun init_wait :: "nat \<Rightarrow> u32 \<Rightarrow> unit uprog" where
  "init_wait 0 pid = ugoing"
| "init_wait (Suc turns) pid =
     ubind (usys U_wait) (\<lambda>wpid.
     if 0 \<le> sint wpid \<and> wpid \<noteq> pid then uthen (uprintf 1 (''zombie!'' @ NL) []) (init_wait turns pid) else uret ())"

fun init_loop :: "nat \<Rightarrow> unit uprog" where
  "init_loop 0 = ugoing"
| "init_loop (Suc turns) =
     uthen (uprintf 1 (''init: starting sh'' @ NL) [])
     (ubind (usys U_fork) (\<lambda>pid.
     if sint pid < 0 then uthen (uprintf 1 (''init: fork failed'' @ NL) []) uexit
     else if pid = 0 then uexec ''sh'' [''sh''] (uthen (uprintf 1 (''init: exec sh failed'' @ NL) []) uexit)
     else uthen (init_wait turns pid) (init_loop turns)))"

definition init_main :: "nat \<Rightarrow> unit uprog" where
  "init_main turns =
     ubind (usys (U_open ''console'' O_RDWR)) (\<lambda>fd.
     uthen (if sint fd < 0 then uthen (usys (U_mknod ''console'' 1 1)) (ubind (usys (U_open ''console'' O_RDWR)) (\<lambda>_. uret ())) else uret ())
     (uthen (usys (U_dup 0)) (uthen (usys (U_dup 0)) (init_loop turns))))"

section \<open>The authors' measurements\<close>

text \<open>
  \<open>test.c\<close>: a program is started for every command; \<open>procstat\<close> waits for it and gives its times. \<open>wtime\<close>, \<open>sum_of_wtime\<close> and
  \<open>sum_of_tatime\<close> are carried along. The fields of \<open>struct pstat\<close> are at offsets 0, 4, 8 and 12.
\<close>

definition test_print :: "string \<Rightarrow> u8 list \<Rightarrow> u32 \<Rightarrow> unit uprog" where
  "test_print arg st wtime =
     uthen (uprintf 1 (NL @ ''Process statistics for '' @ [CHR 0x27] @ ''%s'' @ [CHR 0x27] @ '':'' @ NL) [A_str arg])
     (uthen (uprintf 1 (''  Creation time of the process: %d'' @ NL) [A_int (get32 st 0)])
     (uthen (uprintf 1 (''  End time of the process: %d'' @ NL) [A_int (get32 st 4)])
     (uthen (uprintf 1 (''  Total time of the process: %d'' @ NL) [A_int (get32 st 8)])
     (uthen (uprintf 1 (''  Wating time of the process: %d'' @ NL) [A_int wtime])
       (uprintf 1 (''  Turnaround time of the process: %d'' @ NL @ NL) [A_int (get32 st 12)])))))"

fun test_loop :: "nat \<Rightarrow> (string \<times> string) list \<Rightarrow> u32 \<times> u32 \<times> u32 \<Rightarrow> (u32 \<times> u32 \<times> u32) uprog" where
  "test_loop i [] sums = uret sums"
| "test_loop i ((cmd, arg) # cs) (wtime, sum_of_wtime, sum_of_tatime) =
     ubind (usys U_fork) (\<lambda>cpid.
     if sint cpid < 0 then uthen (uprintf 1 (''fork failed to create'' @ NL) []) uexit
     else if cpid = 0 then
       uthen (uprintf 1 (''Process%d'' @ NL) [A_int (of_nat i)])
       (uthen (uexec cmd [cmd, arg] (uthen (uprintf 1 (NL @ ''exec %s failed for the process'' @ NL) [A_str cmd]) uexit)) uexit)
     else ubind (ucall (U_procstat cpid)) (\<lambda>(r, st).
       if sint r < 0 then uthen (uprintf 1 (''procstat failed'' @ NL) []) uexit
       else uthen (test_print arg st wtime)
         (test_loop (i + 1) cs (wtime + get32 st 12, sum_of_wtime + wtime, sum_of_tatime + get32 st 12))))"

definition test_main :: "unit uprog" where
  "test_main =
     (let commands = [(''head'', ''file.txt''), (''writefile'', ''input.txt'')]; num_commands = int (length commands) in
      ubind (test_loop 0 commands (0, 0, 0)) (\<lambda>(_, sum_of_wtime, sum_of_tatime).
      uthen (uprintf 1 ''Average Turnaround time using FCFS: %d'' [A_int (of_int (sint sum_of_tatime sdiv num_commands))])
      (uthen (uprintf 1 (NL @ ''Average Wating time using FCFS: %d'' @ NL) [A_int (of_int (sint sum_of_wtime sdiv num_commands))]) uexit)))"

text \<open>The same program in the kernel with priorities; the field \<open>priority\<close> is at offset 16.\<close>

definition ptest_print :: "string \<Rightarrow> u8 list \<Rightarrow> u32 \<Rightarrow> unit uprog" where
  "ptest_print arg st wtime =
     uthen (uprintf 1 (NL @ ''Process statistics for '' @ [CHR 0x27] @ ''%s'' @ [CHR 0x27] @ '':'' @ NL) [A_str arg])
     (uthen (uprintf 1 (''  Priority of this process is: %d'' @ NL) [A_int (get32 st 16)])
     (uthen (uprintf 1 (''  Creation time of the process: %d'' @ NL) [A_int (get32 st 0)])
     (uthen (uprintf 1 (''  End time of the process: %d'' @ NL) [A_int (get32 st 4)])
     (uthen (uprintf 1 (''  Total time of the process: %d'' @ NL) [A_int (get32 st 8)])
     (uthen (uprintf 1 (''  Wating time of the process: %d'' @ NL) [A_int wtime])
       (uprintf 1 (''  Turnaround time of the process: %d'' @ NL @ NL) [A_int (get32 st 12)]))))))"

fun ptest_loop :: "(string \<times> string \<times> u32) list \<Rightarrow> u32 \<times> u32 \<times> u32 \<Rightarrow> (u32 \<times> u32 \<times> u32) uprog" where
  "ptest_loop [] sums = uret sums"
| "ptest_loop ((cmd, arg, prio) # cs) (wtime, sum_of_wtime, sum_of_tatime) =
     ubind (usys (U_custmpro prio)) (\<lambda>cpid.
     if sint cpid < 0 then uthen (uprintf 1 (''fork failed to create'' @ NL) []) uexit
     else if cpid = 0 then
       uthen (uexec cmd [cmd, arg] (uthen (uprintf 1 (NL @ ''exec %s failed for the process'' @ NL) [A_str cmd]) uexit)) uexit
     else ubind (ucall (U_procstat cpid)) (\<lambda>(r, st).
       if sint r < 0 then uthen (uprintf 1 (''procstat failed'' @ NL) []) uexit
       else uthen (ptest_print arg st wtime)
         (ptest_loop cs (wtime + get32 st 12, sum_of_wtime + wtime, sum_of_tatime + get32 st 12))))"

definition ptest_main :: "unit uprog" where
  "ptest_main =
     (let commands = [(''head'', ''file.txt'', 3), (''writefile'', ''input.txt'', 2)]; num_commands = int (length commands) in
      ubind (ptest_loop commands (0, 0, 0)) (\<lambda>(_, sum_of_wtime, sum_of_tatime).
      uthen (uprintf 1 ''Average Turnaround time using PBS: %d'' [A_int (of_int (sint sum_of_tatime sdiv num_commands))])
      (uthen (uprintf 1 (NL @ ''Average Wating time using PBS: %d'' @ NL) [A_int (of_int (sint sum_of_wtime sdiv num_commands))]) uexit)))"

text \<open>\<open>testp.c\<close>, which only prints the times.\<close>

fun testp_loop :: "(string \<times> string) list \<Rightarrow> unit uprog" where
  "testp_loop [] = uexit"
| "testp_loop ((cmd, arg) # cs) =
     ubind (usys U_fork) (\<lambda>cpid.
     if sint cpid < 0 then uthen (uprintf 1 (''fork failed to create'' @ NL) []) uexit
     else if cpid = 0 then uexec cmd [cmd, arg] (uthen (uprintf 1 (''exec %s failed for the process'' @ NL) [A_str cmd]) uexit)
     else ubind (ucall (U_procstat cpid)) (\<lambda>(r, st).
       if sint r < 0 then uthen (uprintf 1 (''procstat failed'' @ NL) []) uexit
       else uthen (uprintf 1 (NL @ ''Process statistics for '' @ [CHR 0x27] @ ''%s %s'' @ [CHR 0x27] @ '':'' @ NL) [A_str cmd, A_str arg])
         (uthen (uprintf 1 (''  Creation time: %d'' @ NL) [A_int (get32 st 0)])
         (uthen (uprintf 1 (''  End time: %d'' @ NL) [A_int (get32 st 4)])
         (uthen (uprintf 1 (''  Total time: %d'' @ NL @ NL) [A_int (get32 st 8)]) (testp_loop cs))))))"

definition testp_main :: "unit uprog" where
  "testp_main = testp_loop [(''writefile'', ''input.txt''), (''head'', ''file.txt'')]"

section \<open>What they do\<close>

text \<open>Words begin at a byte that is not white space and has white space, or nothing, before it.\<close>

fun word_starts :: "bool \<Rightarrow> u8 list \<Rightarrow> nat" where
  "word_starts inword [] = 0"
| "word_starts inword (b # bs) = (if \<not> wc_space b \<and> \<not> inword then 1 else 0) + word_starts (\<not> wc_space b) bs"

lemma wc_bytes_append: "wc_bytes (xs @ ys) st = wc_bytes ys (wc_bytes xs st)"
  by (induction xs st rule: wc_bytes.induct) auto

lemma wc_bytes_counts:
  "wc_bytes bs (l, w, c, inword) = (l + of_nat (newlines bs), w + of_nat (word_starts inword bs), c + of_nat (length bs),
     if bs = [] then inword else \<not> wc_space (last bs))"
  by (induction bs arbitrary: l w c inword) auto

lemma read_part:
  assumes d: "delivers k fd 512 cs" and j: "reads fd h < length cs"
  obtains b where "b = cs ! reads fd h" "k h (U_read fd 512) = (of_nat (length b), b)" "0 < sint (of_nat (length b) :: u32)"
    "unat (of_nat (length b) :: u32) = length b" "drop (reads fd h) cs = b # drop (Suc (reads fd h)) cs"
proof -
  define b where "b = cs ! reads fd h"
  have b: "b \<noteq> []" "length b \<le> 512" using d j by (auto simp: delivers_def b_def)
  then have "0 < sint (of_nat (length b) :: u32)" "unat (of_nat (length b) :: u32) = length b"
    using slt_nat [of 0 "length b"] by (simp, intro unat_of_nat_u32) simp_all
  then show thesis using that d j by (simp add: delivers_def b_def Cons_nth_drop_Suc)
qed

text \<open>\<open>wc\<close> counts the newlines, words and bytes of the whole input, however it comes in.\<close>

theorem wc_counts:
  assumes "delivers k fd 512 cs" and "CHR 0x00 \<notin> set name"
  shows "reads fd h \<le> length cs \<Longrightarrow> length cs - reads fd h < turns \<Longrightarrow> st = wc_bytes (concat (take (reads fd h) cs)) (0, 0, 0, False) \<Longrightarrow>
    \<exists>h'. wc_loop turns fd name st k h = Ret () h' \<and> written 1 h' = written 1 h
      @ bytes_of (printint (of_nat (newlines (concat cs))) 10 True @ '' '' @ printint (of_nat (word_starts False (concat cs))) 10 True
          @ '' '' @ printint (of_nat (length (concat cs))) 10 True @ '' '' @ name @ NL)"
proof (induction turns arbitrary: h st)
  case (Suc turns h st)
  let ?h = "h @ [U_read fd 512]"
  show ?case
  proof (cases "reads fd h < length cs")
    case True
    obtain b where b: "b = cs ! reads fd h" "k h (U_read fd 512) = (of_nat (length b), b)" "0 < sint (of_nat (length b) :: u32)"
      "unat (of_nat (length b) :: u32) = length b" using read_part [OF assms(1) True] by blast
    have t: "take (Suc (reads fd h)) cs = take (reads fd h) cs @ [b]" using True b(1) by (simp add: take_Suc_conv_app_nth)
    have "\<exists>h'. wc_loop turns fd name (wc_bytes b st) k ?h = Ret () h' \<and> written 1 h' = written 1 ?h
      @ bytes_of (printint (of_nat (newlines (concat cs))) 10 True @ '' '' @ printint (of_nat (word_starts False (concat cs))) 10 True
          @ '' '' @ printint (of_nat (length (concat cs))) 10 True @ '' '' @ name @ NL)"
      using Suc.prems True t by (intro Suc.IH) (auto simp: wc_bytes_append)
    then show ?thesis using b by (auto split: prod.splits)
  next
    case False
    then have "k h (U_read fd 512) = (0, [])" "take (reads fd h) cs = cs" using assms(1) Suc.prems(1) by (simp_all add: delivers_def)
    moreover have n: "takeWhile (\<lambda>ch. ch \<noteq> CHR 0x00) name = name" using assms(2) by (auto simp: takeWhile_eq_all_conv)
    ultimately show ?thesis using Suc.prems(3) by (simp add: wc_bytes_counts uprintf_def NL_def uprintint_10 n)
  qed
qed simp

text \<open>\<open>cat\<close> writes what it reads.\<close>

theorem cat_copies:
  assumes "delivers k fd 512 cs" and "\<forall>h bs. fst (k h (U_write 1 bs)) = of_nat (length bs)"
  shows "reads fd h \<le> length cs \<Longrightarrow> length cs - reads fd h < turns \<Longrightarrow>
    \<exists>h'. cat turns fd k h = Ret () h' \<and> written 1 h' = written 1 h @ concat (drop (reads fd h) cs)"
proof (induction turns arbitrary: h)
  case (Suc turns h)
  show ?case
  proof (cases "reads fd h < length cs")
    case True
    obtain b where b: "k h (U_read fd 512) = (of_nat (length b), b)" "0 < sint (of_nat (length b) :: u32)"
      "unat (of_nat (length b) :: u32) = length b" "drop (reads fd h) cs = b # drop (Suc (reads fd h)) cs" using read_part [OF assms(1) True] by blast
    let ?h = "h @ [U_read fd 512, U_write 1 b]"
    have "\<exists>h'. cat turns fd k ?h = Ret () h' \<and> written 1 h' = written 1 ?h @ concat (drop (reads fd ?h) cs)"
      using Suc.prems True by (intro Suc.IH) auto
    then show ?thesis using b assms(2) by auto
  next
    case False
    then have "k h (U_read fd 512) = (0, [])" using assms(1) by (simp add: delivers_def)
    then show ?thesis using False by simp
  qed
qed simp

definition prints :: "unit uprog \<Rightarrow> bool" where
  "prints p \<longleftrightarrow> (\<forall>k h. \<exists>s. p k h = Ret () (says 1 s h))"

lemma prints_uthen: "prints p \<Longrightarrow> prints q \<Longrightarrow> prints (uthen p q)"
  unfolding prints_def
proof (intro allI)
  fix k h assume "\<forall>k h. \<exists>s. p k h = Ret () (says 1 s h)" "\<forall>k h. \<exists>s. q k h = Ret () (says 1 s h)"
  then obtain s u where "p k h = Ret () (says 1 s h)" "q k (says 1 s h) = Ret () (says 1 u (says 1 s h))" by blast
  then show "\<exists>s. uthen p q k h = Ret () (says 1 s h)" by (intro exI [of _ "s @ u"]) simp
qed

lemma prints_uprintf: "uprintf_loop False fmt args = Some out \<Longrightarrow> prints (uprintf 1 fmt args)"
  by (auto simp: prints_def uprintf_def)

lemma printsD: "prints p \<Longrightarrow> \<exists>s. p k h = Ret () (says 1 s h)"
  by (simp add: prints_def)

lemma prints_test: "CHR 0x00 \<notin> set arg \<Longrightarrow> prints (test_print arg st w)"
  unfolding test_print_def by (intro prints_uthen; rule prints_uprintf; simp add: NL_def)

text \<open>
  \<open>test\<close> measures nothing of the scheduler. Every program is started when the one before it has ended, since \<open>procstat\<close> waits; what is called the
  waiting time of the \<open>i\<close>-th is the sum of the turnaround times before it, and the averages are over these sums.
\<close>

theorem test_statistics:
  assumes "\<forall>h. 0 < sint (fst (k h U_fork))" and "\<forall>h p. k h (U_procstat p) = (0, st (length (filter (\<lambda>c. c = U_fork) h)))"
    and "\<forall>c\<in>set cs. CHR 0x00 \<notin> set (snd c)"
  shows "\<exists>h'. test_loop i cs (w, sw, sta) k h = Ret (w + (\<Sum>j<length cs. get32 (st (Suc (length (filter (\<lambda>c. c = U_fork) h) + j))) 12),
      sw + (\<Sum>j<length cs. w + (\<Sum>l<j. get32 (st (Suc (length (filter (\<lambda>c. c = U_fork) h) + l))) 12)),
      sta + (\<Sum>j<length cs. get32 (st (Suc (length (filter (\<lambda>c. c = U_fork) h) + j))) 12)) h'"
  using assms(3)
proof (induction cs arbitrary: i w sw sta h)
  case (Cons c cs i w sw sta h)
  obtain cmd arg where c: "c = (cmd, arg)" by (cases c)
  let ?n = "length (filter (\<lambda>c. c = U_fork) h)"
  define p where "p = fst (k h U_fork)"
  have "0 < sint p" using assms(1) by (simp add: p_def)
  then have p: "\<not> sint p < 0" "p \<noteq> 0" by auto
  have "filter (\<lambda>c. c = U_fork) (map (\<lambda>c. U_write 1 [of_char c]) s) = []" for s by (induction s) simp_all
  note f = this
  have "CHR 0x00 \<notin> set arg" using Cons.prems c by simp
  then obtain s where s: "test_print arg (st (Suc ?n)) w k (h @ [U_fork, U_procstat p]) = Ret () (says 1 s (h @ [U_fork, U_procstat p]))"
    using printsD [OF prints_test] by blast
  define h' where "h' = says 1 s (h @ [U_fork, U_procstat p])"
  have h': "test_print arg (st (Suc ?n)) w k (h @ [U_fork, U_procstat p]) = Ret () h'" "length (filter (\<lambda>c. c = U_fork) h') = Suc ?n"
    using s f by (simp_all add: h'_def)
  let ?t = "get32 (st (Suc ?n)) 12"
  obtain h2 where "test_loop (i + 1) cs (w + ?t, sw + w, sta + ?t) k h' = Ret (w + ?t + (\<Sum>j<length cs. get32 (st (Suc (Suc ?n + j))) 12),
      sw + w + (\<Sum>j<length cs. w + ?t + (\<Sum>l<j. get32 (st (Suc (Suc ?n + l))) 12)),
      sta + ?t + (\<Sum>j<length cs. get32 (st (Suc (Suc ?n + j))) 12)) h2"
    using Cons.IH [where h = h' and i = "i + 1" and w = "w + ?t" and sw = "sw + w" and sta = "sta + ?t"] Cons.prems h'(2) by auto
  then show ?case using h'(1) p assms(2) c
    by (simp add: p_def [symmetric] sum.lessThan_Suc_shift add.assoc del: sum.lessThan_Suc)
qed simp

end
