(* ===== verification/Umalloc.thy ===== *)
theory Umalloc
  imports Xv6_Memory
begin

text \<open>
  The allocator of user programs, \<open>umalloc.c\<close>: a ring of free blocks in the order of their addresses. A block begins with a
  header, eight bytes with the pointer to the next free block and the size in headers; \<open>h_ptr\<close> and \<open>h_size\<close> are the two fields of the header
  at an address. \<open>base\<close> is the address of the static header the ring begins with. \<open>sbrk\<close> is the system call: it moves the end \<open>brk\<close>
  of the data of the process, when the kernel, \<open>grows\<close>, can; the value \<open>- 1\<close> says that it could not.
\<close>

section \<open>The allocator\<close>

record uheap =
  h_ptr :: "u32 \<Rightarrow> u32"
  h_size :: "u32 \<Rightarrow> u32"
  freep :: u32
  brk :: u32

definition sizeof_Header :: u32 where "sizeof_Header = 8"

definition set_ptr :: "u32 \<Rightarrow> u32 \<Rightarrow> uheap \<Rightarrow> uheap" where
  "set_ptr p v s = s\<lparr>h_ptr := (h_ptr s)(p := v)\<rparr>"

definition set_size :: "u32 \<Rightarrow> u32 \<Rightarrow> uheap \<Rightarrow> uheap" where
  "set_size p v s = s\<lparr>h_size := (h_size s)(p := v)\<rparr>"

definition sbrk :: "(u32 \<Rightarrow> u32 \<Rightarrow> bool) \<Rightarrow> u32 \<Rightarrow> uheap \<Rightarrow> (u32, uheap) res" where
  "sbrk grows n =
     bindM (getM brk) (\<lambda>b.
     if grows b n then thenM (modM (\<lambda>s. s\<lparr>brk := b + n\<rparr>)) (retM b) else retM (- 1))"

text \<open>The place in the ring: the block behind which \<open>bp\<close> belongs.\<close>

fun free_loop :: "nat \<Rightarrow> u32 \<Rightarrow> u32 \<Rightarrow> uheap \<Rightarrow> (u32, uheap) res" where
  "free_loop 0 bp p = Spins"
| "free_loop (Suc turns) bp p =
     bindM (getM (\<lambda>s. h_ptr s p)) (\<lambda>q.
     if bp > p \<and> bp < q then retM p
     else if p \<ge> q \<and> (bp > p \<or> bp < q) then retM p
     else free_loop turns bp q)"

definition join_upper :: "u32 \<Rightarrow> u32 \<Rightarrow> uheap \<Rightarrow> uheap" where
  "join_upper bp p s =
     (if bp + sizeof_Header * h_size s bp = h_ptr s p
      then let s = set_size bp (h_size s bp + h_size s (h_ptr s p)) s in set_ptr bp (h_ptr s (h_ptr s p)) s
      else set_ptr bp (h_ptr s p) s)"

definition join_lower :: "u32 \<Rightarrow> u32 \<Rightarrow> uheap \<Rightarrow> uheap" where
  "join_lower bp p s =
     (if p + sizeof_Header * h_size s p = bp
      then let s = set_size p (h_size s p + h_size s bp) s in set_ptr p (h_ptr s bp) s
      else set_ptr p bp s)"

definition free :: "nat \<Rightarrow> u32 \<Rightarrow> uheap \<Rightarrow> (unit, uheap) res" where
  "free turns ap =
     (let bp = ap - sizeof_Header
      in bindM (getM freep) (\<lambda>f.
         bindM (free_loop turns bp f) (\<lambda>p.
         thenM (modM (join_upper bp p))
         (thenM (modM (join_lower bp p))
         (modM (\<lambda>s. s\<lparr>freep := p\<rparr>))))))"

definition morecore :: "nat \<Rightarrow> (u32 \<Rightarrow> u32 \<Rightarrow> bool) \<Rightarrow> u32 \<Rightarrow> uheap \<Rightarrow> (u32, uheap) res" where
  "morecore turns grows nu =
     (let nu = (if nu < 4096 then 4096 else nu)
      in bindM (sbrk grows (nu * sizeof_Header)) (\<lambda>p.
         if p = - 1 then retM 0 else
         thenM (modM (set_size p nu))
         (thenM (free turns (p + sizeof_Header))
         (getM freep))))"

fun malloc_loop :: "nat \<Rightarrow> nat \<Rightarrow> (u32 \<Rightarrow> u32 \<Rightarrow> bool) \<Rightarrow> u32 \<Rightarrow> u32 \<Rightarrow> u32 \<Rightarrow> uheap \<Rightarrow> (u32, uheap) res" where
  "malloc_loop 0 turns grows nunits prevp p = Spins"
| "malloc_loop (Suc n) turns grows nunits prevp p =
     bindM (getM (\<lambda>s. h_size s p)) (\<lambda>size.
     if size \<ge> nunits then
       bindM (if size = nunits
              then thenM (modM (\<lambda>s. set_ptr prevp (h_ptr s p) s)) (retM p)
              else let p' = p + sizeof_Header * (size - nunits)
                   in thenM (modM (set_size p (size - nunits))) (thenM (modM (set_size p' nunits)) (retM p'))) (\<lambda>p.
       thenM (modM (\<lambda>s. s\<lparr>freep := prevp\<rparr>))
       (retM (p + sizeof_Header)))
     else
       bindM (getM freep) (\<lambda>f.
       bindM (if p = f then morecore turns grows nunits else retM p) (\<lambda>p.
       if p = 0 then retM 0 else
       bindM (getM (\<lambda>s. h_ptr s p)) (\<lambda>q. malloc_loop n turns grows nunits p q))))"

definition malloc :: "nat \<Rightarrow> (u32 \<Rightarrow> u32 \<Rightarrow> bool) \<Rightarrow> u32 \<Rightarrow> u32 \<Rightarrow> uheap \<Rightarrow> (u32, uheap) res" where
  "malloc turns grows base nbytes =
     (let nunits = (nbytes + sizeof_Header - 1) div sizeof_Header + 1
      in bindM (getM freep) (\<lambda>f.
         bindM (if f = 0
                then thenM (modM (\<lambda>s. (set_ptr base base s)\<lparr>freep := base\<rparr>)) (thenM (modM (set_size base 0)) (retM base))
                else retM f) (\<lambda>prevp.
         bindM (getM (\<lambda>s. h_ptr s prevp)) (\<lambda>p. malloc_loop turns turns grows nunits prevp p))))"

section \<open>The ring\<close>

fun path :: "(u32 \<Rightarrow> u32) \<Rightarrow> u32 \<Rightarrow> u32 list \<Rightarrow> u32 \<Rightarrow> bool" where
  "path nx p [] q \<longleftrightarrow> p = q"
| "path nx p (x # xs) q \<longleftrightarrow> p = x \<and> path nx (nx x) xs q"

lemma path_append: "path nx p (xs @ ys) q \<longleftrightarrow> (\<exists>r. path nx p xs r \<and> path nx r ys q)"
  by (induction xs arbitrary: p) auto

lemma path_cong: "(\<And>x. x \<in> set xs \<Longrightarrow> nx x = nx' x) \<Longrightarrow> path nx p xs q = path nx' p xs q"
  by (induction xs arbitrary: p) auto

lemma path_update: "x \<notin> set xs \<Longrightarrow> path (nx(x := v)) p xs q = path nx p xs q"
  by (rule path_cong) auto

text \<open>A ring can be entered anywhere.\<close>

lemma path_rotate: "path nx b (us @ f # vs) b \<Longrightarrow> us @ vs \<noteq> [] \<or> f = b \<Longrightarrow> path nx f (f # vs @ us) f"
  by (cases us) (auto simp: path_append)

text \<open>The blocks in order: their ends do not touch the next block.\<close>

definition stop :: "uheap \<Rightarrow> u32 \<Rightarrow> nat" where
  "stop s x = unat x + 8 * unat (h_size s x)"

fun in_order :: "uheap \<Rightarrow> u32 list \<Rightarrow> bool" where
  "in_order s [] \<longleftrightarrow> True"
| "in_order s [x] \<longleftrightarrow> True"
| "in_order s (x # y # xs) \<longleftrightarrow> stop s x < unat y \<and> in_order s (y # xs)"

text \<open>
  The invariant: the ring begins with \<open>base\<close>, whose size is 0, and its other blocks are not empty, in order and below the end of
  the data, which is below the kernel.
\<close>

definition heap_inv :: "u32 \<Rightarrow> uheap \<Rightarrow> u32 list \<Rightarrow> bool" where
  "heap_inv base s bs \<longleftrightarrow> path (h_ptr s) base (base # bs) base \<and> in_order s (base # bs) \<and> h_size s base = 0 \<and> base \<noteq> 0
     \<and> (\<forall>x\<in>set bs. unat base + 8 \<le> unat x \<and> 0 < h_size s x \<and> stop s x \<le> unat (brk s)) \<and> freep s \<in> set (base # bs)
     \<and> unat base + 8 \<le> unat (brk s) \<and> unat (brk s) \<le> 2 ^ 31"

text \<open>The bytes of a block, and the free bytes.\<close>

definition block :: "uheap \<Rightarrow> u32 \<Rightarrow> nat set" where
  "block s x = {unat x..<stop s x}"

definition free_bytes :: "uheap \<Rightarrow> u32 list \<Rightarrow> nat set" where
  "free_bytes s bs = (\<Union>x\<in>set bs. block s x)"

lemma path_next: "path nx p (xs @ x # ys) q \<Longrightarrow> nx x = hd (ys @ [q])"
  by (cases ys) (auto simp: path_append)

lemma stop_ge: "unat x \<le> stop s x"
  by (simp add: stop_def)

lemma in_order_append: "in_order s (xs @ y # ys) \<longleftrightarrow> in_order s (xs @ [y]) \<and> in_order s (y # ys)"
proof (induction xs)
  case (Cons x xs)
  then show ?case by (cases xs) auto
qed simp

lemma in_order_cong: "(\<And>x. x \<in> set xs \<Longrightarrow> h_size s x = h_size t x) \<Longrightarrow> in_order s xs = in_order t xs"
  by (induction s xs rule: in_order.induct) (auto simp: stop_def)

lemma in_order_less: "in_order s (x # xs) \<Longrightarrow> y \<in> set xs \<Longrightarrow> stop s x < unat y"
proof (induction xs arbitrary: x)
  case (Cons z zs)
  then have "stop s x < unat z" "in_order s (z # zs)" by auto
  then show ?case using Cons.IH [of z] Cons.prems(2) stop_ge [of z s] by fastforce
qed simp

lemma in_order_tl: "in_order s (x # xs) \<Longrightarrow> in_order s xs"
  by (cases xs) auto

lemma in_order_distinct: "in_order s xs \<Longrightarrow> distinct xs"
proof (induction xs)
  case (Cons x xs)
  then have "x \<notin> set xs" using in_order_less [of s x xs x] stop_ge [of x s] by fastforce
  then show ?case using Cons in_order_tl by auto
qed simp

text \<open>Where a block belongs.\<close>

lemma split_at:
  assumes "in_order s (x # xs)" and "x < bp" and "bp \<notin> set xs"
  shows "\<exists>L p M. x # xs = L @ p # M \<and> (\<forall>y\<in>set (L @ [p]). y < bp) \<and> (\<forall>y\<in>set M. bp < y)"
  using assms
proof (induction xs arbitrary: x)
  case Nil
  then show ?case by (intro exI [of _ "[]"] exI [of _ x]) auto
next
  case (Cons z zs)
  show ?case
  proof (cases "z < bp")
    case True
    then obtain L p M where "z # zs = L @ p # M" "\<forall>y\<in>set (L @ [p]). y < bp" "\<forall>y\<in>set M. bp < y"
      using Cons.IH [of z] Cons.prems in_order_tl by auto
    then show ?thesis using Cons.prems(2) by (intro exI [of _ "x # L"] exI [of _ p] exI [of _ M]) auto
  next
    case False
    then have "bp < z" using Cons.prems(3) by auto
    moreover have "bp < y" if "y \<in> set zs" for y
    proof -
      have "stop s z < unat y" using in_order_less [OF in_order_tl [OF Cons.prems(1)] that] .
      then have "z < y" using stop_ge [of z s] by (simp add: word_less_nat_alt)
      then show ?thesis using \<open>bp < z\<close> by simp
    qed
    ultimately show ?thesis using Cons.prems(2) by (intro exI [of _ "[]"] exI [of _ x] exI [of _ "z # zs"]) auto
  qed
qed

text \<open>The loop of \<open>free\<close> ends at the block before \<open>bp\<close>, wherever it begins.\<close>

definition ends_at :: "u32 \<Rightarrow> u32 \<Rightarrow> u32 \<Rightarrow> bool" where
  "ends_at bp x q \<longleftrightarrow> bp > x \<and> bp < q \<or> x \<ge> q \<and> (bp > x \<or> bp < q)"

lemma free_loop_run:
  "path (h_ptr s) f (A @ p # B) c \<Longrightarrow> \<forall>x\<in>set A. \<not> ends_at bp x (h_ptr s x) \<Longrightarrow> ends_at bp p (h_ptr s p) \<Longrightarrow> length A < turns \<Longrightarrow>
   free_loop turns bp f s = Ok p s"
proof (induction A arbitrary: f turns)
  case Nil
  then show ?case by (cases turns) (auto simp: bindM_run ends_at_def)
next
  case (Cons x A)
  then show ?case by (cases turns) (auto simp: bindM_run ends_at_def)
qed

lemma ends_at_iff:
  assumes "path (h_ptr s) base (L @ p # M) base" and "in_order s (L @ p # M)" and "\<forall>y\<in>set (L @ [p]). y < bp" and "\<forall>y\<in>set M. bp < y"
    and "base < bp" and "x \<in> set (L @ p # M)" and "base \<le> p"
  shows "ends_at bp x (h_ptr s x) \<longleftrightarrow> x = p"
proof -
  have dist: "distinct (L @ p # M)" by (rule in_order_distinct [OF assms(2)])
  consider (before) "x \<in> set L" | (here) "x = p" | (after) "x \<in> set M" using assms(6) by auto
  then show ?thesis
  proof cases
    case before
    then obtain L1 L2 where L: "L = L1 @ x # L2" by (meson split_list)
    have n: "h_ptr s x = hd (L2 @ [p])" using path_next [of "h_ptr s" base L1 x "L2 @ p # M" base] assms(1) L by (cases L2) auto
    have o: "in_order s (x # L2 @ p # M)" using assms(2) L in_order_append [of s L1 x "L2 @ p # M"] by simp
    then have "stop s x < unat (hd (L2 @ [p]))" using in_order_less [OF o, of "hd (L2 @ [p])"] by (cases L2) auto
    then have "x < hd (L2 @ [p])" using stop_ge [of x s] by (simp add: word_less_nat_alt)
    moreover have "hd (L2 @ [p]) < bp" using assms(3) L by (cases L2) auto
    moreover have "x \<noteq> p" using dist before by auto
    ultimately show ?thesis using n by (auto simp: ends_at_def)
  next
    case here
    have "h_ptr s p = hd (M @ [base])" using path_next [OF assms(1)] .
    then show ?thesis using here assms(3,4,5,7) by (cases M) (auto simp: ends_at_def)
  next
    case after
    then obtain M1 M2 where M: "M = M1 @ x # M2" by (meson split_list)
    have n: "h_ptr s x = hd (M2 @ [base])" using path_next [of "h_ptr s" base "L @ p # M1" x M2 base] assms(1) M by simp
    have "in_order s (x # M2)" using assms(2) M in_order_append [of s "L @ p # M1" x M2] by simp
    then have "M2 \<noteq> [] \<longrightarrow> stop s x < unat (hd M2)" by (cases M2) auto
    then have "M2 \<noteq> [] \<longrightarrow> x < hd M2" using stop_ge [of x s] by (auto simp: word_less_nat_alt)
    moreover have "bp < x" "x \<noteq> p" using assms(4) after dist by auto
    ultimately show ?thesis using n assms(5) by (cases M2) (auto simp: ends_at_def)
  qed
qed

section \<open>Free\<close>

lemma heap_invD:
  assumes "heap_inv base s bs"
  shows "path (h_ptr s) base (base # bs) base" "in_order s (base # bs)" "h_size s base = 0" "base \<noteq> 0"
    "\<And>x. x \<in> set bs \<Longrightarrow> unat base + 8 \<le> unat x \<and> 0 < h_size s x \<and> stop s x \<le> unat (brk s)" "freep s \<in> set (base # bs)"
    "unat base + 8 \<le> unat (brk s)" "unat (brk s) \<le> 2 ^ 31"
  using assms by (auto simp: heap_inv_def)

lemma size_pos: "0 < h_size s x \<Longrightarrow> unat x < stop s x"
  by (simp add: stop_def word_less_nat_alt)

lemma unat_headers: "8 * unat k < 2 ^ 32 \<Longrightarrow> unat (sizeof_Header * k) = 8 * unat k"
  by (simp add: unat_word_ariths sizeof_Header_def)

text \<open>The sum of address and size, as the code computes it.\<close>

lemma stop_word:
  assumes "stop s x \<le> 2 ^ 31"
  shows "unat (x + sizeof_Header * h_size s x) = stop s x"
proof -
  have "unat (sizeof_Header * h_size s x) = 8 * unat (h_size s x)"
    using assms by (simp add: unat_word_ariths sizeof_Header_def stop_def)
  then show ?thesis using assms by (simp add: unat_word_ariths stop_def)
qed

lemma free_bytes_cong: "(\<And>x. x \<in> set bs \<Longrightarrow> h_size s x = h_size t x) \<Longrightarrow> free_bytes s bs = free_bytes t bs"
  by (simp add: free_bytes_def block_def stop_def)

text \<open>
  Joining with the block above. \<open>M\<close> are the blocks behind \<open>p\<close>; the ring is still open between \<open>p\<close> and \<open>bp\<close>.
\<close>

lemma join_upper_run:
  assumes "path (h_ptr s) (h_ptr s p) M base" and "in_order s M" and "M \<noteq> [] \<longrightarrow> stop s bp \<le> unat (hd M)"
    and "bp \<notin> set M" and "p \<notin> set M" and "p \<noteq> bp" and "unat base < unat bp" and "stop s bp \<le> 2 ^ 31" and "\<forall>y\<in>set M. 0 < h_size s y \<and> stop s y \<le> 2 ^ 31"
  shows "\<exists>M' t. join_upper bp p s = t \<and> path (h_ptr t) (h_ptr t bp) M' base \<and> in_order t (bp # M') \<and> set M' \<subseteq> set M
    \<and> (\<forall>x. x \<noteq> bp \<longrightarrow> h_ptr t x = h_ptr s x \<and> h_size t x = h_size s x) \<and> brk t = brk s \<and> freep t = freep s
    \<and> h_size s bp \<le> h_size t bp \<and> (stop t bp = stop s bp \<or> (\<exists>y\<in>set M. stop t bp = stop s y))
    \<and> block t bp \<union> free_bytes t M' = block s bp \<union> free_bytes s M \<and> length M' \<le> length M"
proof (cases "M \<noteq> [] \<and> stop s bp = unat (hd M)")
  case True
  then obtain m M' where M: "M = m # M'" "stop s bp = unat m" by (cases M) auto
  have m: "h_ptr s p = m" "path (h_ptr s) (h_ptr s m) M' base" "0 < h_size s m" "stop s m \<le> 2 ^ 31" using assms(1,9) M by auto
  have "bp + sizeof_Header * h_size s bp = h_ptr s p" using stop_word [OF assms(8)] M(2) m(1) by (simp add: word_unat_eq_iff)
  then have t: "join_upper bp p s = s\<lparr>h_size := (h_size s)(bp := h_size s bp + h_size s m), h_ptr := (h_ptr s)(bp := h_ptr s m)\<rparr>" (is "_ = ?t")
    using m(1) by (simp add: join_upper_def set_size_def set_ptr_def Let_def)
  have u: "unat (h_size s bp + h_size s m) = unat (h_size s bp) + unat (h_size s m)"
    using M(2) m(4) by (intro unat_add_small) (simp add: stop_def)
  then have st: "stop ?t bp = stop s m" using M(2) by (simp add: stop_def)
  have others: "stop ?t x = stop s x" if "x \<noteq> bp" for x using that by (simp add: stop_def)
  have bm: "bp \<notin> set M'" "bp \<noteq> m" using assms(4) M by auto
  have ord: "in_order ?t M'" using assms(2) M bm(1) in_order_tl [of s m M'] by (subst in_order_cong [of M' ?t s]) auto
  have "in_order ?t (bp # M')"
  proof (cases M')
    case (Cons y ys)
    then have "stop s m < unat y" using assms(2) M by simp
    then show ?thesis using st ord Cons by simp
  qed simp
  moreover have "path (h_ptr ?t) (h_ptr ?t bp) M' base" using m(2) bm by (simp add: path_update)
  moreover have "free_bytes ?t M' = free_bytes s M'" using bm(1) by (intro free_bytes_cong) auto
  moreover have "block ?t bp = block s bp \<union> block s m"
    using st M(2) stop_ge [of bp s] stop_ge [of m s] by (auto simp: block_def)
  moreover have "h_size s bp \<le> h_size s bp + h_size s m" using u by (simp add: word_le_nat_alt)
  ultimately show ?thesis
    unfolding t using st M(1) by (intro exI [of _ M'] exI [of _ ?t]) (auto simp: free_bytes_def)
next
  case False
  have "bp + sizeof_Header * h_size s bp \<noteq> h_ptr s p"
  proof
    assume "bp + sizeof_Header * h_size s bp = h_ptr s p"
    then have "unat (h_ptr s p) = stop s bp" using stop_word [OF assms(8)] by simp
    then show False using False assms(1,7) stop_ge [of bp s] by (cases M) auto
  qed
  then have t: "join_upper bp p s = s\<lparr>h_ptr := (h_ptr s)(bp := h_ptr s p)\<rparr>" (is "_ = ?t")
    by (simp add: join_upper_def set_ptr_def)
  have others: "stop ?t x = stop s x" for x by (simp add: stop_def)
  have "in_order ?t M" using assms(2) by (subst in_order_cong [of M ?t s]) auto
  moreover have "in_order ?t (bp # M)"
  proof (cases M)
    case (Cons y ys)
    then have "stop s bp < unat y" using False assms(3) by auto
    then show ?thesis using \<open>in_order ?t M\<close> Cons others by simp
  qed simp
  moreover have "path (h_ptr ?t) (h_ptr ?t bp) M base" using assms(1,4) by (simp add: path_update)
  ultimately show ?thesis
    unfolding t by (intro exI [of _ M] exI [of _ ?t]) (auto simp: others free_bytes_def block_def)
qed

lemma in_order_last: "(\<And>x. x \<in> set L \<Longrightarrow> h_size s x = h_size t x) \<Longrightarrow> in_order s (L @ [p]) = in_order t (L @ [p])"
proof (induction L)
  case (Cons x L)
  then show ?case by (cases L) (auto simp: stop_def)
qed simp

text \<open>Joining with the block below, which closes the ring.\<close>

lemma join_lower_run:
  assumes "path (h_ptr s) base L p" and "path (h_ptr s) (h_ptr s bp) M base" and "in_order s (L @ [p])" and "in_order s (bp # M)"
    and "stop s p \<le> unat bp" and "bp \<notin> set (L @ p # M)" and "p \<notin> set (L @ M)" and "set L \<inter> set M = {}" and "p \<noteq> bp" and "stop s bp \<le> 2 ^ 31"
  shows "\<exists>N t. join_lower bp p s = t \<and> path (h_ptr t) base (L @ p # N) base \<and> in_order t (L @ p # N) \<and> set N \<subseteq> insert bp (set M)
    \<and> (N = M \<and> stop t p = stop s bp \<and> h_size s bp \<le> h_size t p \<and> stop s p = unat bp \<or> N = bp # M \<and> h_size t p = h_size s p)
    \<and> (\<forall>x. x \<noteq> p \<longrightarrow> h_size t x = h_size s x) \<and> brk t = brk s \<and> freep t = freep s
    \<and> block t p \<union> free_bytes t N = block s p \<union> block s bp \<union> free_bytes s M"
proof (cases "stop s p = unat bp")
  case True
  have sp: "stop s p \<le> 2 ^ 31" using True assms(10) stop_ge [of bp s] by simp
  then have "p + sizeof_Header * h_size s p = bp" using stop_word [OF sp] True by (simp add: word_unat_eq_iff)
  then have t: "join_lower bp p s = s\<lparr>h_size := (h_size s)(p := h_size s p + h_size s bp), h_ptr := (h_ptr s)(p := h_ptr s bp)\<rparr>" (is "_ = ?t")
    by (simp add: join_lower_def set_size_def set_ptr_def Let_def)
  have u: "unat (h_size s p + h_size s bp) = unat (h_size s p) + unat (h_size s bp)"
    using True assms(10) by (intro unat_add_small) (simp add: stop_def)
  then have st: "stop ?t p = stop s bp" using True by (simp add: stop_def)
  have oL: "in_order ?t (L @ [p])" using assms(3,7) by (subst in_order_last [of L ?t s]) auto
  have "in_order ?t (p # M)"
  proof (cases M)
    case (Cons y ys)
    have "in_order ?t M" using in_order_tl [OF assms(4)] assms(7) by (subst in_order_cong [of M ?t s]) auto
    then show ?thesis using st assms(4) Cons by simp
  qed simp
  then have "in_order ?t (L @ p # M)" using oL in_order_append [of ?t L p M] by simp
  moreover have "path (h_ptr ?t) base (L @ p # M) base"
    using assms(1,2,7) by (auto simp: path_append path_update intro!: exI [of _ p])
  moreover have "free_bytes ?t M = free_bytes s M" using assms(7) by (intro free_bytes_cong) auto
  moreover have "block ?t p = block s p \<union> block s bp"
    using st True stop_ge [of p s] stop_ge [of bp s] by (auto simp: block_def)
  moreover have "h_size s bp \<le> h_size s p + h_size s bp" using u by (simp add: word_le_nat_alt)
  ultimately show ?thesis
    unfolding t using st True by (intro exI [of _ M] exI [of _ ?t]) auto
next
  case False
  have "p + sizeof_Header * h_size s p \<noteq> bp"
  proof
    assume "p + sizeof_Header * h_size s p = bp"
    moreover have "stop s p \<le> 2 ^ 31" using assms(5,10) stop_ge [of bp s] by simp
    ultimately show False using stop_word [of s p] False by simp
  qed
  then have t: "join_lower bp p s = s\<lparr>h_ptr := (h_ptr s)(p := bp)\<rparr>" (is "_ = ?t") by (simp add: join_lower_def set_ptr_def)
  have others: "stop ?t x = stop s x" for x by (simp add: stop_def)
  have "in_order ?t (L @ [p])" "in_order ?t (bp # M)" using assms(3,4) in_order_cong [of _ ?t s] by auto
  moreover have "stop ?t p < unat bp" using False assms(5) others by simp
  ultimately have "in_order ?t (L @ p # bp # M)" using in_order_append [of ?t L p "bp # M"] by simp
  moreover have "path (h_ptr ?t) base (L @ p # bp # M) base"
    using assms(1,2,6,7,9) by (auto simp: path_append path_update intro!: exI [of _ p])
  moreover have "free_bytes ?t (bp # M) = block s bp \<union> free_bytes s M" by (simp add: free_bytes_def block_def others)
  ultimately show ?thesis
    unfolding t using others by (intro exI [of _ "bp # M"] exI [of _ ?t]) (auto simp: block_def)
qed

lemma block_empty: "h_size s x = 0 \<Longrightarrow> block s x = {}"
  by (simp add: block_def stop_def)

lemma free_bytes_simps [simp]: "free_bytes s [] = {}" "free_bytes s (x # xs) = block s x \<union> free_bytes s xs"
    "free_bytes s (xs @ ys) = free_bytes s xs \<union> free_bytes s ys"
  by (auto simp: free_bytes_def)

lemma block_apart:
  assumes "block s x \<inter> block s y = {}" and "0 < h_size s y" and "unat x \<le> unat y" and "0 < h_size s x"
  shows "stop s x \<le> unat y"
proof (rule ccontr)
  assume "\<not> stop s x \<le> unat y"
  then have "unat y \<in> block s x \<inter> block s y" using assms(3) size_pos [OF assms(2)] by (auto simp: block_def)
  then show False using assms(1) by blast
qed

text \<open>The loop of \<open>free\<close>, from any block of the ring.\<close>

lemma free_loop_finds:
  assumes inv: "heap_inv base s bs" and split: "base # bs = L @ p # M" and "\<forall>y\<in>set (L @ [p]). y < bp" and "\<forall>y\<in>set M. bp < y"
    and "length bs < turns"
  shows "free_loop turns bp (freep s) s = Ok p s"
proof -
  note I = heap_invD [OF inv]
  have base: "base < bp" "base \<le> p"
  proof -
    show "base < bp" using assms(3) split by (cases L) auto
    show "base \<le> p"
    proof (cases L)
      case (Cons x L')
      then have "stop s base < unat p" using in_order_less [OF I(2), of p] split by simp
      then show ?thesis using stop_ge [of base s] by (simp add: word_le_nat_alt)
    qed (use split in simp)
  qed
  have ends: "ends_at bp x (h_ptr s x) \<longleftrightarrow> x = p" if "x \<in> set (base # bs)" for x
    using ends_at_iff [of s base L p M bp x] I(1,2) assms(3,4) base that unfolding split by blast
  obtain us vs where f: "base # bs = us @ freep s # vs" using I(6) split_list by metis
  have "path (h_ptr s) (freep s) (freep s # vs @ us) (freep s)"
    using path_rotate [of "h_ptr s" base us "freep s" vs] I(1) f by (cases us) auto
  moreover have "p \<in> set (freep s # vs @ us)"
  proof -
    have "p \<in> set (us @ freep s # vs)" unfolding f [symmetric] split by simp
    then show ?thesis by auto
  qed
  then obtain A B where AB: "freep s # vs @ us = A @ p # B" "p \<notin> set A" by (meson split_list_first)
  moreover have "\<forall>x\<in>set A. \<not> ends_at bp x (h_ptr s x)"
  proof
    fix x assume x: "x \<in> set A"
    then have "x \<in> set (freep s # vs @ us)" using AB(1) by simp
    then have "x \<in> set (base # bs)" unfolding f by auto
    then show "\<not> ends_at bp x (h_ptr s x)" using ends AB(2) x by blast
  qed
  moreover have "length A < turns"
  proof -
    have "length (base # bs) = length (freep s # vs @ us)" unfolding f by simp
    then show ?thesis using AB(1) assms(5) by simp
  qed
  moreover have "ends_at bp p (h_ptr s p)" using ends [of p] split by simp
  ultimately show ?thesis using free_loop_run [of s "freep s" A p B "freep s" bp turns] by simp
qed

lemma free_run:
  assumes inv: "heap_inv base s bs" and "unat base + 8 \<le> unat bp" and pos: "0 < h_size s bp" and brk: "stop s bp \<le> unat (brk s)"
    and dis: "block s bp \<inter> free_bytes s bs = {}" and "length bs < turns"
  shows "\<exists>t bs'. free turns (bp + sizeof_Header) s = Ok () t \<and> heap_inv base t bs' \<and> free_bytes t bs' = free_bytes s bs \<union> block s bp
    \<and> brk t = brk s \<and> length bs' \<le> length bs + 1 \<and> (\<exists>x\<in>set bs'. h_size s bp \<le> h_size t x)
    \<and> (\<forall>x. unat x \<notin> free_bytes t bs' \<longrightarrow> h_size t x = h_size s x)"
proof -
  note I = heap_invD [OF inv]
  have lim: "stop s bp \<le> 2 ^ 31" using brk I(8) by simp
  have apart: "block s bp \<inter> block s x = {}" if "x \<in> set bs" for x using dis that by (auto simp: free_bytes_def)
  have "bp \<notin> set bs"
  proof
    assume "bp \<in> set bs"
    then have "block s bp = {}" using apart by blast
    then show False using size_pos [OF pos] by (simp add: block_def)
  qed
  moreover have "base < bp" using assms(2) by (simp add: word_less_nat_alt)
  ultimately obtain L p M where split: "base # bs = L @ p # M" and below: "\<forall>y\<in>set (L @ [p]). y < bp" and above: "\<forall>y\<in>set M. bp < y"
    using split_at [OF I(2)] by blast
  have loop: "free_loop turns bp (freep s) s = Ok p s" by (rule free_loop_finds [OF inv split below above assms(6)])
  have dist: "distinct (L @ p # M)" using in_order_distinct [OF I(2)] split by simp
  have bpn: "bp \<notin> set (L @ p # M)" using below above by auto
  have ord: "in_order s (L @ [p])" "in_order s (p # M)" using I(2) in_order_append [of s L p M] unfolding split by auto
  have Mbs: "y \<in> set bs" if "y \<in> set M" for y using that split by (cases L) auto
  have rel: "stop s p \<le> unat bp"
  proof (cases "p = base")
    case True
    then show ?thesis using assms(2) I(3) by (simp add: stop_def)
  next
    case False
    then have "p \<in> set bs" using split by (cases L) auto
    moreover have "unat p \<le> unat bp" using below by (simp add: word_less_nat_alt)
    ultimately show ?thesis using block_apart [of s p bp] apart [of p] pos I(5) [of p] by (simp add: Int_commute)
  qed
  have hdM: "M \<noteq> [] \<longrightarrow> stop s bp \<le> unat (hd M)"
    using block_apart [of s bp "hd M"] apart Mbs I(5) above pos by (cases M) (auto simp: word_less_nat_alt)
  have pM: "path (h_ptr s) (h_ptr s p) M base" "path (h_ptr s) base L p" using I(1) unfolding split by (auto simp: path_append)
  have Msz: "\<forall>y\<in>set M. 0 < h_size s y \<and> stop s y \<le> 2 ^ 31" using Mbs I(5,8) by fastforce
  have base_bp: "unat base < unat bp" "p \<noteq> bp" using assms(2) bpn by auto
  obtain M' t1 where t1: "join_upper bp p s = t1" "path (h_ptr t1) (h_ptr t1 bp) M' base" "in_order t1 (bp # M')" "set M' \<subseteq> set M"
    "\<And>x. x \<noteq> bp \<Longrightarrow> h_ptr t1 x = h_ptr s x \<and> h_size t1 x = h_size s x" "brk t1 = brk s" "freep t1 = freep s" "h_size s bp \<le> h_size t1 bp"
    "stop t1 bp = stop s bp \<or> (\<exists>y\<in>set M. stop t1 bp = stop s y)" "block t1 bp \<union> free_bytes t1 M' = block s bp \<union> free_bytes s M" "length M' \<le> length M"
    using join_upper_run [OF pM(1) in_order_tl [OF ord(2)] hdM _ _ base_bp(2,1) lim Msz] bpn dist by auto
  have stop1: "stop t1 bp \<le> unat (brk s)" using t1(9) brk Mbs I(5) by auto
  have same: "stop t1 x = stop s x" if "x \<noteq> bp" for x using t1(5) [OF that] by (simp add: stop_def)
  have same_L: "h_ptr t1 x = h_ptr s x" "h_size t1 x = h_size s x" if "x \<in> set L" for x using t1(5) [of x] bpn that by auto
  have pL: "path (h_ptr t1) base L p" using pM(2) same_L(1) by (subst path_cong [of L _ "h_ptr s"]) simp_all
  have oL: "in_order t1 (L @ [p])" using ord(1) same_L(2) by (subst in_order_last [of L t1 s]) simp_all
  have lim1: "stop t1 bp \<le> 2 ^ 31" using stop1 I(8) by simp
  have sets: "bp \<notin> set (L @ p # M')" "p \<notin> set (L @ M')" "set L \<inter> set M' = {}" using bpn dist t1(4) by auto
  have rel1: "stop t1 p \<le> unat bp" using rel same [OF base_bp(2)] by simp
  obtain N t where t: "join_lower bp p t1 = t" "path (h_ptr t) base (L @ p # N) base" "in_order t (L @ p # N)" "set N \<subseteq> insert bp (set M')"
    "N = M' \<and> stop t p = stop t1 bp \<and> h_size t1 bp \<le> h_size t p \<and> stop t1 p = unat bp \<or> N = bp # M' \<and> h_size t p = h_size t1 p"
    "\<And>x. x \<noteq> p \<Longrightarrow> h_size t x = h_size t1 x" "brk t = brk t1" "freep t = freep t1"
    "block t p \<union> free_bytes t N = block t1 p \<union> block t1 bp \<union> free_bytes t1 M'"
    using join_lower_run [OF pL t1(2) oL t1(3) rel1 sets base_bp(2) lim1] by auto
  let ?t = "t\<lparr>freep := p\<rparr>"
  define bs' where "bs' = tl (L @ p # N)"
  have hd: "hd (L @ p # N) = base" using split by (cases L) auto
  then have bs': "base # bs' = L @ p # N" unfolding bs'_def by (cases L) auto
  have low: "p \<noteq> base" if "stop t1 p = unat bp"
    using that same [OF base_bp(2)] assms(2) I(3) by (auto simp: stop_def)
  have size_p: "h_size t p = h_size s p \<or> p \<noteq> base" using t(5) t1(5) [OF base_bp(2)] low by auto
  have size: "h_size t x = h_size s x" if "x \<noteq> p" "x \<noteq> bp" for x using that t(6) t1(5) by simp
  have all: "unat base + 8 \<le> unat x \<and> 0 < h_size t x \<and> stop t x \<le> unat (brk s)" if x: "x \<in> set bs'" for x
  proof -
    have "distinct (base # bs')" using in_order_distinct [OF t(3)] bs' by simp
    then have nb: "x \<noteq> base" using x by auto
    have "x \<in> set (L @ p # N)" using x bs' by (metis list.set_intros(2))
    then consider "x = p" | "x = bp" "x \<noteq> p" | "x \<noteq> p" "x \<noteq> bp" "x \<in> set (L @ M)" using t(4) t1(4) by auto
    then show ?thesis
    proof cases
      case 1
      then have "p \<in> set bs" using nb split by (cases L) auto
      then have P: "unat base + 8 \<le> unat p \<and> 0 < h_size s p \<and> stop s p \<le> unat (brk s)" by (rule I(5))
      have "stop t p = stop s p \<or> stop t p = stop t1 bp" using t(5) t1(5) [OF base_bp(2)] by (auto simp: stop_def)
      moreover have "0 < h_size t p" using t(5) t1(5) [OF base_bp(2)] t1(8) pos P by auto
      ultimately show ?thesis using 1 P stop1 by auto
    next
      case 2
      then have "h_size t bp = h_size t1 bp" using t(6) by simp
      then show ?thesis using 2 assms(2) t1(8) pos stop1 by (auto simp: stop_def)
    next
      case 3
      then have "x \<in> set bs" using nb split by (cases L) auto
      then show ?thesis using I(5) [of x] size [OF 3(1,2)] by (simp add: stop_def)
    qed
  qed
  have "free (turns) (bp + sizeof_Header) s = Ok () ?t"
    using loop t1(1) t(1) by (simp add: free_def bindM_run thenM_def sizeof_Header_def)
  moreover have "h_size t base = 0" using size_p size [of base] I(3) base_bp(1) by (cases "p = base") auto
  then have base0: "block t base = {}" "block s base = {}" using I(3) by (simp_all add: block_empty)
  have brks: "brk t = brk s" using t(7) t1(6) by simp
  have "heap_inv base ?t bs'"
    unfolding heap_inv_def bs' using t(2,3) \<open>h_size t base = 0\<close> I(4,7,8) all brks
    by (auto simp: stop_def cong: in_order_cong)
  have fb: "free_bytes t bs' = free_bytes s bs \<union> block s bp"
  proof -
    have "free_bytes t bs' = free_bytes t (L @ p # N)" "free_bytes s bs = free_bytes s (L @ p # M)"
      using base0 by (simp_all only: bs' [symmetric] split [symmetric] free_bytes_simps Un_empty_left)
    moreover have "h_size t x = h_size s x" if "x \<in> set L" for x
      using that bpn dist by (intro size) auto
    then have "free_bytes t L = free_bytes s L" by (rule free_bytes_cong)
    moreover have "block t1 p = block s p" using same [OF base_bp(2)] by (simp add: block_def)
    ultimately show ?thesis using t(9) t1(10) by auto
  qed
  have len: "length bs' \<le> length bs + 1"
  proof -
    have "length (base # bs') = length (L @ p # N)" "length (base # bs) = length (L @ p # M)" by (simp_all only: bs' split)
    then show ?thesis using t(5) t1(11) by auto
  qed
  have big: "\<exists>x\<in>set bs'. h_size s bp \<le> h_size t x"
  proof (cases "N = M' \<and> stop t p = stop t1 bp \<and> h_size t1 bp \<le> h_size t p \<and> stop t1 p = unat bp")
    case True
    then have "p \<noteq> base" using low by simp
    moreover have "p \<in> set (base # bs')" unfolding bs' by simp
    ultimately show ?thesis using True t1(8) by (intro bexI [of _ p]) auto
  next
    case False
    then have "N = bp # M'" using t(5) by blast
    then have "bp \<in> set (base # bs')" unfolding bs' by simp
    then have "bp \<in> set bs'" using base_bp(1) by auto
    then show ?thesis using t(6) [of bp] base_bp(2) t1(8) by (intro bexI [of _ bp]) auto
  qed
  have kept: "h_size t x = h_size s x" if x: "unat x \<notin> free_bytes t bs'" for x
  proof (cases "x = p \<and> p \<noteq> base")
    case True
    then have "p \<in> set bs'" using bs' by (metis in_set_conv_decomp set_ConsD)
    then have "unat p \<in> free_bytes t bs'" using all [of p] size_pos [of t p] by (auto simp: free_bytes_def block_def)
    then show ?thesis using x True by simp
  next
    case False
    moreover have "x \<noteq> bp" using x fb size_pos [OF pos] by (auto simp: block_def)
    ultimately show ?thesis using size [of x] size_p by (cases "x = p") auto
  qed
  have "free_bytes ?t bs' = free_bytes t bs'" by (intro free_bytes_cong) simp
  then show ?thesis
    using \<open>free turns (bp + sizeof_Header) s = Ok () ?t\<close> \<open>heap_inv base ?t bs'\<close> fb brks len big kept
    by (intro exI [of _ ?t] exI [of _ bs']) auto
qed

section \<open>Malloc\<close>

lemma in_order_apart: "in_order s xs \<Longrightarrow> x \<in> set xs \<Longrightarrow> z \<in> set xs \<Longrightarrow> x \<noteq> z \<Longrightarrow> stop s x < unat z \<or> stop s z < unat x"
proof (induction xs)
  case (Cons y ys)
  then show ?case using in_order_less [of s y ys] in_order_tl [of s y ys] by auto
qed simp

lemma unique_pred:
  assumes "path nx b (A @ y # x # B) b" and "distinct (A @ y # x # B)" and "z \<in> set (A @ y # x # B)" and "nx z = x" and "x \<noteq> b"
  shows "z = y"
proof (rule ccontr)
  assume "z \<noteq> y"
  obtain C D where split: "A @ y # x # B = C @ z # D" using assms(3) by (meson split_list)
  have "x = hd (D @ [b])" using path_next [of nx b C z D b] assms(1,4) split by simp
  then obtain D' where D: "D = x # D'" using assms(5) by (cases D) auto
  have "(A @ [y]) @ x # B = (C @ [z]) @ x # D'" using split D by simp
  moreover have "x \<notin> set (A @ [y])" "x \<notin> set B" using assms(2) by auto
  ultimately have "A @ [y] = C @ [z]" by (metis append_Cons_eq_iff)
  then show False using \<open>z \<noteq> y\<close> by simp
qed

lemma heap_inv_nonzero: "heap_inv base s bs \<Longrightarrow> x \<in> set (base # bs) \<Longrightarrow> x \<noteq> 0"
  using heap_invD(4,5) [of base s bs] by fastforce

text \<open>What the block \<open>x\<close> gives to a request, as the code takes it.\<close>

definition carve :: "u32 \<Rightarrow> u32 \<Rightarrow> u32 \<Rightarrow> uheap \<Rightarrow> u32 \<times> uheap" where
  "carve nunits prevp x s =
     (if h_size s x = nunits then (x, (set_ptr prevp (h_ptr s x) s)\<lparr>freep := prevp\<rparr>)
      else let r = x + sizeof_Header * (h_size s x - nunits)
           in (r, (set_size r nunits (set_size x (h_size s x - nunits) s))\<lparr>freep := prevp\<rparr>))"

lemma malloc_loop_carve:
  "nunits \<le> h_size s x \<Longrightarrow> malloc_loop (Suc n) T g nunits prevp x s = (case carve nunits prevp x s of (r, t) \<Rightarrow> Ok (r + sizeof_Header) t)"
  by (auto simp: carve_def bindM_run thenM_def Let_def)

definition carved :: "u32 \<Rightarrow> u32 \<Rightarrow> nat set" where
  "carved r nunits = {unat r..<unat r + 8 * unat nunits}"

lemma carve_run:
  assumes inv: "heap_inv base s bs" and "prevp \<in> set (base # bs)" and "h_ptr s prevp = x" and "x \<in> set (base # bs)"
    and "0 < nunits" and "nunits \<le> h_size s x" and "carve nunits prevp x s = (r, t)"
  shows "\<exists>bs'. heap_inv base t bs' \<and> carved r nunits \<subseteq> free_bytes s bs \<and> free_bytes t bs' = free_bytes s bs - carved r nunits
    \<and> h_size t r = nunits \<and> brk t = brk s \<and> (\<forall>z. unat z \<notin> free_bytes s bs \<longrightarrow> h_size t z = h_size s z)
    \<and> unat base + 8 \<le> unat r \<and> unat r + 8 * unat nunits \<le> unat (brk s)"
proof -
  note I = heap_invD [OF inv]
  have "x \<noteq> base" using assms(5,6) I(3) by (auto simp: word_le_nat_alt word_less_nat_alt)
  then have xbs: "x \<in> set bs" using assms(4) by simp
  then obtain A0 B where "bs = A0 @ x # B" by (meson split_list)
  then obtain A y where split: "base # bs = A @ y # x # B" by (metis append_Cons append_butlast_last_id append_eq_append_conv2 append_assoc list.distinct(1) append_Nil)
  have dist: "distinct (A @ y # x # B)" using in_order_distinct [OF I(2)] split by simp
  have y: "y = prevp"
    using unique_pred [of "h_ptr s" base A y x B prevp] I(1) dist assms(2,3) \<open>x \<noteq> base\<close> unfolding split by simp
  have ring: "path (h_ptr s) base (A @ y # x # B) base" "in_order s (A @ y # x # B)" using I(1,2) split by simp_all
  have X: "unat base + 8 \<le> unat x" "stop s x \<le> unat (brk s)" using I(5) [OF xbs] by simp_all
  have empty: "block s base = {}" using I(3) by (rule block_empty)
  have whole: "free_bytes s bs = free_bytes s (A @ [y]) \<union> block s x \<union> free_bytes s B"
  proof -
    have "free_bytes s bs = free_bytes s (base # bs)" using empty by simp
    then show ?thesis unfolding split by auto
  qed
  have out: "block s x \<inter> block s z = {}" if "z \<in> set (A @ [y]) \<union> set B" for z
  proof -
    have "z \<in> set (A @ y # x # B)" "z \<noteq> x" using that dist by auto
    then have "stop s x < unat z \<or> stop s z < unat x" using in_order_apart [OF ring(2), of x z] by auto
    then show ?thesis by (auto simp: block_def)
  qed
  then have others: "block s x \<inter> free_bytes s (A @ [y]) = {}" "block s x \<inter> free_bytes s B = {}" by (auto simp: free_bytes_def)
  show ?thesis
  proof (cases "h_size s x = nunits")
    case True
    then have r: "r = x" "t = (set_ptr prevp (h_ptr s x) s)\<lparr>freep := prevp\<rparr>" using assms(7) by (auto simp: carve_def)
    define bs' where "bs' = tl (A @ y # B)"
    have "hd (A @ y # B) = base" using split by (cases A) auto
    then have bs': "base # bs' = A @ y # B" unfolding bs'_def by (cases A) auto
    have sizes: "h_size t z = h_size s z" for z by (simp add: r set_ptr_def)
    have "in_order s (A @ [y])" "in_order s (y # x # B)" using ring(2) in_order_append [of s A y "x # B"] by auto
    then have "in_order s (y # B)" using in_order_less [of s y "x # B"] in_order_tl [of s x B] by (cases B) (auto dest: in_order_tl)
    then have "in_order s (A @ y # B)" using \<open>in_order s (A @ [y])\<close> in_order_append [of s A y B] by simp
    then have "in_order t (base # bs')" unfolding bs' using sizes by (subst in_order_cong [of _ t s]) auto
    moreover have "path (h_ptr t) base (base # bs') base"
      unfolding bs' using ring(1) dist y by (auto simp: r set_ptr_def path_append path_update)
    moreover have "set bs' \<subseteq> set bs"
    proof
      fix z assume "z \<in> set bs'"
      moreover have "distinct (base # bs')" unfolding bs' using dist by auto
      then have "base \<notin> set bs'" by simp
      ultimately have "z \<noteq> base" "z \<in> set (base # bs')" by auto
      then have "z \<noteq> base" "z \<in> set (A @ y # x # B)" unfolding bs' by auto
      then show "z \<in> set bs" using split by (metis set_ConsD)
    qed
    moreover have "prevp \<in> set (base # bs')" unfolding bs' y by simp
    ultimately have "heap_inv base t bs'" using I(3-5,7,8) sizes by (auto simp: heap_inv_def r set_ptr_def stop_def)
    moreover have "free_bytes t bs' = free_bytes s bs - block s x"
    proof -
      have "free_bytes t bs' = free_bytes s (base # bs')" using sizes empty by (simp add: free_bytes_def block_def stop_def)
      then show ?thesis unfolding bs' whole using others by auto
    qed
    moreover have "carved r nunits = block s x" using True r by (simp add: carved_def block_def stop_def)
    moreover have "brk t = brk s" by (simp add: r set_ptr_def)
    ultimately show ?thesis using whole sizes X True r by (intro exI [of _ bs']) (auto simp: stop_def)
  next
    case False
    let ?k = "h_size s x - nunits"
    have k: "unat ?k = unat (h_size s x) - unat nunits" using assms(6) by (simp add: unat_sub)
    have n: "unat nunits \<le> unat (h_size s x)" "0 < unat nunits" "unat nunits \<noteq> unat (h_size s x)"
      using assms(5,6) False by (auto simp: word_le_nat_alt word_less_nat_alt word_unat_eq_iff)
    have lim: "unat x + 8 * unat (h_size s x) \<le> 2 ^ 31" using X(2) I(8) by (simp add: stop_def)
    have "unat (sizeof_Header * ?k) = 8 * unat ?k" using lim k by (intro unat_headers) simp
    then have ur: "unat (x + sizeof_Header * ?k) = unat x + 8 * unat ?k" using lim k by (subst unat_add_small) simp_all
    have r: "r = x + sizeof_Header * ?k" "t = (set_size r nunits (set_size x ?k s))\<lparr>freep := prevp\<rparr>"
      using assms(7) False by (auto simp: carve_def Let_def)
    have inside: "unat x < unat r" "unat r + 8 * unat nunits = stop s x" using ur r(1) k n by (simp_all add: stop_def)
    have rn: "z \<noteq> r" if "z \<in> set (A @ y # x # B)" for z
    proof (cases "z = x")
      case True
      then show ?thesis using inside by auto
    next
      case False
      then have "stop s x < unat z \<or> stop s z < unat x" using in_order_apart [OF ring(2), of x z] that by auto
      then show ?thesis using inside stop_ge [of z s] by auto
    qed
    have sizes: "h_size t z = h_size s z" if "z \<noteq> x" "z \<noteq> r" for z using that by (simp add: r set_size_def)
    have st: "stop t x = unat r" "h_size t x = ?k" "h_size t r = nunits"
      using ur r(1) rn [of x] by (simp_all add: r(2) set_size_def stop_def)
    have keep: "h_size t z = h_size s z" if "z \<in> set (A @ [y]) \<union> set B" for z
      using that rn dist by (intro sizes) auto
    have "in_order s (A @ [y])" "in_order s (y # x # B)" "in_order s (x # B)" using ring(2) in_order_append [of s A y "x # B"] by auto
    then have "in_order t (A @ [y])" "stop s y < unat x" "in_order t B" "B \<noteq> [] \<longrightarrow> stop s x < unat (hd B)"
      using keep in_order_cong [of "A @ [y]" t s] in_order_cong [of B t s] in_order_tl [of s x B] by (auto, cases B, auto)
    moreover have "stop t y = stop s y" using keep [of y] by (simp add: stop_def)
    ultimately have "in_order t (x # B)" "in_order t (A @ [y])" "stop t y < unat x" using st(1) inside by (cases B; simp)+
    then have "in_order t (base # bs)" unfolding split using in_order_append [of t A y "x # B"] by simp
    moreover have "path (h_ptr t) base (base # bs) base" using I(1) by (simp add: r set_size_def)
    moreover have "brk t = brk s" "freep t = prevp" by (simp_all add: r set_size_def)
    moreover have "h_size t base = 0" using I(3) sizes [of base] rn [of base] \<open>x \<noteq> base\<close> split by (metis list.set_intros(1))
    moreover have "unat base + 8 \<le> unat z \<and> 0 < h_size t z \<and> stop t z \<le> unat (brk s)" if "z \<in> set bs" for z
    proof (cases "z = x")
      case True
      then show ?thesis using X st inside k n by (simp add: word_less_nat_alt)
    next
      case False
      then have "h_size t z = h_size s z" using that split rn by (metis sizes list.set_intros(2))
      then show ?thesis using I(5) [OF that] by (simp add: stop_def)
    qed
    ultimately have inv': "heap_inv base t bs" using I(4,7,8) assms(2) by (auto simp: heap_inv_def)
    have fb: "free_bytes t bs = free_bytes s bs - carved r nunits"
    proof -
      have "free_bytes t bs = free_bytes t (base # bs)" using \<open>h_size t base = 0\<close> by (simp add: block_empty)
      also have "\<dots> = free_bytes s (A @ [y]) \<union> block t x \<union> free_bytes s B"
        unfolding split using keep free_bytes_cong [of "A @ [y]" t s] free_bytes_cong [of B t s] by auto
      also have "\<dots> = free_bytes s bs - carved r nunits"
      proof -
        have "block t x = block s x - carved r nunits" "carved r nunits \<subseteq> block s x"
          using st(1) inside by (auto simp: block_def carved_def)
        then show ?thesis using whole others by auto
      qed
      finally show ?thesis .
    qed
    have "carved r nunits \<subseteq> block s x" using inside by (auto simp: block_def carved_def)
    moreover have xin: "block s x \<subseteq> free_bytes s bs" using whole by blast
    ultimately have sub: "carved r nunits \<subseteq> free_bytes s bs" by blast
    have kept: "h_size t z = h_size s z" if "unat z \<notin> free_bytes s bs" for z
    proof (rule sizes)
      have "unat x \<in> block s x" "unat r \<in> block s x" using inside n by (auto simp: block_def)
      then show "z \<noteq> x" "z \<noteq> r" using that xin by auto
    qed
    have place: "unat base + 8 \<le> unat r" "unat r + 8 * unat nunits \<le> unat (brk s)" using X inside by auto
    show ?thesis using inv' fb sub kept place st(3) \<open>brk t = brk s\<close> by (intro exI [of _ bs] conjI allI impI)
  qed
qed

text \<open>The loop goes round the ring until a block is large enough.\<close>

lemma malloc_walk:
  assumes "path (h_ptr s) p (L @ x # R) c" and "h_ptr s prevp = p" and "prevp \<in> ring" and "set L \<subseteq> ring"
    and "\<forall>y\<in>set L. h_size s y < nunits \<and> y \<noteq> freep s \<and> y \<noteq> 0"
  shows "\<exists>prevp'\<in>ring. h_ptr s prevp' = x \<and> malloc_loop (length L + n) T g nunits prevp p s = malloc_loop n T g nunits prevp' x s"
  using assms
proof (induction L arbitrary: p prevp)
  case Nil
  then show ?case by auto
next
  case (Cons y L)
  have "\<exists>prevp'\<in>ring. h_ptr s prevp' = x \<and> malloc_loop (length L + n) T g nunits y (h_ptr s y) s = malloc_loop n T g nunits prevp' x s"
    using Cons.prems by (intro Cons.IH) auto
  moreover have "malloc_loop (length (y # L) + n) T g nunits prevp p s = malloc_loop (length L + n) T g nunits y (h_ptr s y) s"
    using Cons.prems by (auto simp: bindM_run not_le)
  ultimately show ?case by simp
qed

text \<open>The ring as the loop sees it: it ends at \<open>freep\<close>.\<close>

lemma ring_order:
  assumes "heap_inv base s bs"
  shows "\<exists>C. path (h_ptr s) (h_ptr s (freep s)) (C @ [freep s]) (h_ptr s (freep s)) \<and> set (C @ [freep s]) = set (base # bs) \<and> freep s \<notin> set C
    \<and> length C = length bs"
proof -
  note I = heap_invD [OF assms]
  obtain us vs where f: "base # bs = us @ freep s # vs" using I(6) split_list by metis
  have "path (h_ptr s) (freep s) (freep s # vs @ us) (freep s)"
    using path_rotate [of "h_ptr s" base us "freep s" vs] I(1) f by (cases us) auto
  then have "path (h_ptr s) (h_ptr s (freep s)) ((vs @ us) @ [freep s]) (h_ptr s (freep s))" by (auto simp: path_append)
  moreover have "distinct (us @ freep s # vs)" using in_order_distinct [OF I(2)] f by simp
  moreover have "set ((vs @ us) @ [freep s]) = set (base # bs)" unfolding f by auto
  moreover have "length (vs @ us) = length bs" using arg_cong [OF f, of length] by simp
  ultimately show ?thesis by (intro exI [of _ "vs @ us"]) auto
qed

lemma malloc_fit:
  assumes inv: "heap_inv base s bs" and "prevp \<in> set (base # bs)" and "0 < nunits" and "\<exists>x\<in>set bs. nunits \<le> h_size s x" and "length bs < n"
    and "prevp = freep s"
  shows "\<exists>r t bs'. malloc_loop n T g nunits prevp (h_ptr s prevp) s = Ok (r + sizeof_Header) t
    \<and> heap_inv base t bs' \<and> carved r nunits \<subseteq> free_bytes s bs \<and> free_bytes t bs' = free_bytes s bs - carved r nunits
    \<and> h_size t r = nunits \<and> brk t = brk s \<and> (\<forall>z. unat z \<notin> free_bytes s bs \<longrightarrow> h_size t z = h_size s z)
    \<and> unat base + 8 \<le> unat r \<and> unat r + 8 * unat nunits \<le> unat (brk s)"
proof -
  obtain C where C: "path (h_ptr s) (h_ptr s (freep s)) (C @ [freep s]) (h_ptr s (freep s))" "set (C @ [freep s]) = set (base # bs)"
      "freep s \<notin> set C" "length C = length bs" using ring_order [OF inv] by blast
  have "\<exists>x\<in>set (C @ [freep s]). nunits \<le> h_size s x" unfolding C(2) using assms(4) by auto
  then obtain L x R where L: "C @ [freep s] = L @ x # R" "nunits \<le> h_size s x" "\<forall>y\<in>set L. \<not> nunits \<le> h_size s y"
    using split_list_first_prop [of "C @ [freep s]" "\<lambda>x. nunits \<le> h_size s x"] by blast
  have sub: "set (L @ [x]) \<subseteq> set (base # bs)" unfolding C(2) [symmetric] L(1) by auto
  have nf: "freep s \<notin> set L" using L(1) C(3) by (metis Un_iff append_butlast_last_id butlast_append in_set_conv_decomp list.distinct(1) set_append butlast_snoc)
  have len: "length L < n" using arg_cong [OF L(1), of length] C(4) assms(5) by simp
  have "\<exists>prevp'\<in>set (base # bs). h_ptr s prevp' = x \<and>
      malloc_loop (length L + (n - length L)) T g nunits prevp (h_ptr s prevp) s = malloc_loop (n - length L) T g nunits prevp' x s"
    using C(1) L sub nf assms(2,6) heap_inv_nonzero [OF inv] by (intro malloc_walk [where R = R and c = "h_ptr s (freep s)"]) (auto simp: not_le)
  then obtain prevp' where p: "prevp' \<in> set (base # bs)" "h_ptr s prevp' = x"
    "malloc_loop n T g nunits prevp (h_ptr s prevp) s = malloc_loop (n - length L) T g nunits prevp' x s" using len by auto
  obtain r t where rt: "carve nunits prevp' x s = (r, t)" by fastforce
  obtain k where "n - length L = Suc k" using len by (metis Suc_diff_Suc)
  then have "malloc_loop n T g nunits prevp (h_ptr s prevp) s = Ok (r + sizeof_Header) t" using p(3) malloc_loop_carve [OF L(2)] rt by simp
  moreover have "x \<in> set (base # bs)" using sub by simp
  ultimately show ?thesis using carve_run [OF inv p(1,2) _ assms(3) L(2) rt] by blast
qed

text \<open>What the allocator needs of the kernel: the data never reaches the addresses of the kernel.\<close>

definition below_kernel :: "(u32 \<Rightarrow> u32 \<Rightarrow> bool) \<Rightarrow> bool" where
  "below_kernel grows \<longleftrightarrow> (\<forall>b n. grows b n \<and> unat n < 2 ^ 31 \<longrightarrow> unat b + unat n \<le> 2 ^ 31)"

definition more_units :: "u32 \<Rightarrow> u32" where
  "more_units nunits = (if nunits < 4096 then 4096 else nunits)"

lemma morecore_alt:
  "morecore turns grows nunits s =
     (if grows (brk s) (more_units nunits * sizeof_Header)
      then bindM (retM (brk s)) (\<lambda>p.
         if p = - 1 then retM 0 else
         thenM (modM (set_size p (more_units nunits)))
         (thenM (free turns (p + sizeof_Header))
         (getM freep))) (s\<lparr>brk := brk s + more_units nunits * sizeof_Header\<rparr>)
      else Ok 0 s)"
proof -
  have "(if nunits < 4096 then 4096 else nunits) = more_units nunits" by (simp add: more_units_def)
  then show ?thesis by (simp only: morecore_def Let_def) (simp add: sbrk_def bindM_run thenM_def)
qed

lemma morecore_grows:
  assumes inv: "heap_inv base s bs" and "below_kernel grows" and nu: "unat nunits < 2 ^ 28" and "length bs < turns" and "0 < nunits"
    and True: "grows (brk s) (more_units nunits * sizeof_Header)"
  shows "\<exists>t bs'. morecore turns grows nunits s = Ok (freep t) t \<and> heap_inv base t bs'
         \<and> free_bytes t bs' = free_bytes s bs \<union> {unat (brk s)..<unat (brk t)} \<and> unat (brk s) \<le> unat (brk t)
         \<and> length bs' \<le> length bs + 1 \<and> (\<exists>x\<in>set bs'. nunits \<le> h_size t x)
         \<and> (\<forall>x. unat x \<notin> free_bytes t bs' \<longrightarrow> h_size t x = h_size s x)"
proof -
  note I = heap_invD [OF inv]
  let ?nu = "more_units nunits" and ?b = "brk s"
  let ?n = "?nu * sizeof_Header"
  have nu2: "unat ?nu < 2 ^ 28" "0 < ?nu" "nunits \<le> ?nu" using nu assms(5) by (auto simp: more_units_def word_less_nat_alt word_le_nat_alt)
  have n: "unat ?n = 8 * unat ?nu" using nu2 unat_headers [of ?nu] by (simp add: mult.commute)
  let ?s = "s\<lparr>brk := ?b + ?n, h_size := (h_size s)(?b := ?nu)\<rparr>"
  have "grows ?b ?n \<and> unat ?n < 2 ^ 31 \<longrightarrow> unat ?b + unat ?n \<le> 2 ^ 31" using assms(2) unfolding below_kernel_def by blast
  then have lim: "unat ?b + unat ?n \<le> 2 ^ 31" using True n nu2(1) by simp
  then have b: "unat (?b + ?n) = unat ?b + unat ?n" by (intro unat_add_small) simp
  have nb: "?b \<noteq> - 1"
  proof
    assume "?b = - 1"
    then have "unat ?b = 2 ^ 32 - 1" by (simp add: unsigned_minus_1_eq_mask mask_eq_exp_minus_1)
    then show False using I(8) by simp
  qed
  have notin: "?b \<notin> set (base # bs)" using I(5) [of ?b] I(7) size_pos [of s ?b] by auto
  have same: "h_size ?s x = h_size s x" if "x \<in> set (base # bs)" for x using that notin by auto
  have "in_order ?s (base # bs)" using I(2) same by (subst in_order_cong [of _ ?s s]) auto
  moreover have "stop ?s x = stop s x" if "x \<in> set bs" for x using same [of x] that by (simp add: stop_def)
  moreover have all: "unat base + 8 \<le> unat x \<and> 0 < h_size s x \<and> stop s x \<le> unat ?b + unat ?n" if "x \<in> set bs" for x
    using I(5) [OF that] by auto
  ultimately have inv2: "heap_inv base ?s bs"
    using I(1,3,4,6,7) notin b lim all by (auto simp: heap_inv_def)
  have st: "stop ?s ?b = unat (?b + ?n)" using b n by (simp add: stop_def)
  have fb: "free_bytes ?s bs = free_bytes s bs" using same by (intro free_bytes_cong) auto
  have "block ?s ?b \<inter> block s x = {}" if "x \<in> set bs" for x using I(5) [OF that] by (auto simp: block_def)
  then have dis: "block ?s ?b \<inter> free_bytes ?s bs = {}" unfolding fb by (auto simp: free_bytes_def)
  have pre: "unat base + 8 \<le> unat ?b" "0 < h_size ?s ?b" "stop ?s ?b \<le> unat (brk ?s)" using I(7) nu2(2) st by simp_all
  from free_run [OF inv2 pre dis assms(4)] obtain t bs' where t0: "free turns (?b + sizeof_Header) ?s = Ok () t"
    "heap_inv base t bs'" "free_bytes t bs' = free_bytes ?s bs \<union> block ?s ?b" "brk t = brk ?s" "length bs' \<le> length bs + 1"
    "\<exists>x\<in>set bs'. h_size ?s ?b \<le> h_size t x" "\<forall>x. unat x \<notin> free_bytes t bs' \<longrightarrow> h_size t x = h_size ?s x"
    by blast
  have t: "free turns (?b + sizeof_Header) ?s = Ok () t" "heap_inv base t bs'" "free_bytes t bs' = free_bytes s bs \<union> block ?s ?b"
    "brk t = ?b + ?n" "length bs' \<le> length bs + 1" "\<exists>x\<in>set bs'. ?nu \<le> h_size t x"
    "\<And>x. unat x \<notin> free_bytes t bs' \<Longrightarrow> h_size t x = h_size ?s x"
    using t0 fb by simp_all
  have "morecore turns grows nunits s = Ok (freep t) t"
    using True nb t(1) by (simp add: morecore_alt bindM_run thenM_def set_size_def)
  moreover have "block ?s ?b = {unat ?b..<unat (brk t)}" using st t(4) by (simp add: block_def)
  moreover have "unat ?b \<le> unat (brk t)" using b t(4) by simp
  moreover have "h_size t x = h_size s x" if "unat x \<notin> free_bytes t bs'" for x
  proof -
    have "unat ?b \<in> block ?s ?b" using st b n nu2(2) by (simp add: block_def word_less_nat_alt)
    then have "x \<noteq> ?b" using that t(3) by auto
    then show ?thesis using t(7) that by simp
  qed
  moreover have "\<exists>x\<in>set bs'. nunits \<le> h_size t x" using t(6) nu2(3) by force
  ultimately show ?thesis using t(2-5) by (intro exI [of _ t] exI [of _ bs']) simp
qed

lemma nunits_value:
  assumes "unat nbytes + 16 \<le> 2 ^ 31"
  shows "unat ((nbytes + sizeof_Header - 1) div sizeof_Header + 1) = (unat nbytes + 7) div 8 + 1"
proof -
  have "unat (nbytes + sizeof_Header - 1) = unat nbytes + 7"
    using assms by (simp add: sizeof_Header_def unat_word_ariths)
  then have d: "unat ((nbytes + sizeof_Header - 1) div sizeof_Header) = (unat nbytes + 7) div 8"
    by (simp add: unat_div_distrib sizeof_Header_def)
  then have "unat ((nbytes + sizeof_Header - 1) div sizeof_Header) + unat (1 :: u32) < 2 ^ 32" using assms by simp
  from unat_add_small [OF this] d show ?thesis by simp
qed

text \<open>The allocator before its first call, and after.\<close>

definition heap_ok :: "u32 \<Rightarrow> uheap \<Rightarrow> u32 list \<Rightarrow> bool" where
  "heap_ok base s bs \<longleftrightarrow> heap_inv base s bs \<or>
     freep s = 0 \<and> bs = [] \<and> base \<noteq> 0 \<and> unat base + 8 \<le> unat (brk s) \<and> unat (brk s) \<le> 2 ^ 31"

text \<open>A block given out: its header and room for the bytes asked for, out of the free bytes and what the data grew by.\<close>

definition given :: "u32 \<Rightarrow> uheap \<Rightarrow> u32 list \<Rightarrow> u32 \<Rightarrow> u32 \<Rightarrow> uheap \<Rightarrow> u32 list \<Rightarrow> bool" where
  "given base s bs nbytes p t bs' \<longleftrightarrow>
     (let avail = free_bytes s bs \<union> {unat (brk s)..<unat (brk t)}; mine = {unat p - 8..<stop t (p - 8)}
      in mine \<subseteq> avail \<and> free_bytes t bs' = avail - mine \<and> unat p + unat nbytes \<le> stop t (p - 8) \<and> unat base + 16 \<le> unat p
         \<and> stop t (p - 8) \<le> unat (brk t) \<and> unat (brk s) \<le> unat (brk t) \<and> 0 < h_size t (p - 8)
         \<and> (\<forall>x. unat x \<notin> avail \<and> x \<noteq> base \<longrightarrow> h_size t x = h_size s x))"

lemma malloc_run:
  assumes "heap_ok base s bs" and "below_kernel grows" and "unat nbytes + 16 \<le> 2 ^ 31" and "2 * length bs + 3 < turns"
  shows "\<exists>p t bs'. malloc turns grows base nbytes s = Ok p t \<and> heap_inv base t bs'
    \<and> (if p = 0 then free_bytes t bs' = free_bytes s bs \<and> brk t = brk s
           \<and> \<not> grows (brk s) (more_units ((nbytes + sizeof_Header - 1) div sizeof_Header + 1) * sizeof_Header)
       else given base s bs nbytes p t bs')"
proof -
  let ?n = "(nbytes + sizeof_Header - 1) div sizeof_Header + 1"
  have n: "unat ?n = (unat nbytes + 7) div 8 + 1" by (rule nunits_value [OF assms(3)])
  then have n2: "unat ?n < 2 ^ 28" "0 < ?n" "unat nbytes + 8 \<le> 8 * unat ?n" using assms(3) by (simp_all add: word_less_nat_alt)
  define s0 where "s0 = (if freep s = 0 then (set_size base 0 ((set_ptr base base s)\<lparr>freep := base\<rparr>)) else s)"
  have inv: "heap_inv base s0 bs"
    using assms(1) heap_inv_nonzero [of base s bs "freep s"] heap_invD(6) [of base s bs]
    by (auto simp: heap_ok_def s0_def heap_inv_def set_ptr_def set_size_def)
  have s0: "brk s0 = brk s" "\<And>x. x \<noteq> base \<Longrightarrow> h_size s0 x = h_size s x" by (auto simp: s0_def set_ptr_def set_size_def)
  have fb0: "free_bytes s0 bs = free_bytes s bs"
    using assms(1) heap_inv_nonzero [of base s bs "freep s"] heap_invD(6) [of base s bs] by (auto simp: heap_ok_def s0_def)
  have start: "malloc turns grows base nbytes s = malloc_loop turns turns grows ?n (freep s0) (h_ptr s0 (freep s0)) s0"
    by (auto simp: malloc_def bindM_run thenM_def s0_def set_ptr_def set_size_def Let_def)
  have result: "\<exists>p t' bs''. m = Ok p t' \<and> heap_inv base t' bs'' \<and> p \<noteq> 0 \<and> given base s bs nbytes p t' bs''"
    if t: "heap_inv base t bs'" "free_bytes t bs' = free_bytes s bs \<union> {unat (brk s)..<unat (brk t)}" "unat (brk s) \<le> unat (brk t)"
      and h: "\<forall>x. unat x \<notin> free_bytes t bs' \<and> x \<noteq> base \<longrightarrow> h_size t x = h_size s x"
      and m: "m = Ok (r + sizeof_Header) t'" and t': "heap_inv base t' bs''" "carved r ?n \<subseteq> free_bytes t bs'"
        "free_bytes t' bs'' = free_bytes t bs' - carved r ?n" "h_size t' r = ?n" "brk t' = brk t"
        "\<forall>z. unat z \<notin> free_bytes t bs' \<longrightarrow> h_size t' z = h_size t z" "unat base + 8 \<le> unat r" "unat r + 8 * unat ?n \<le> unat (brk t)"
    for t bs' m r t' bs''
  proof -
    have up: "unat (r + sizeof_Header) = unat r + 8"
      using t'(8) n2(2) heap_invD(8) [OF t(1)] by (subst unat_add_small) (simp_all add: sizeof_Header_def)
    have "r + sizeof_Header - 8 = r" by (simp add: sizeof_Header_def)
    moreover have "stop t' r = unat r + 8 * unat ?n" using t'(4) by (simp add: stop_def)
    ultimately have "given base s bs nbytes (r + sizeof_Header) t' bs''"
      using t t' h n2 up by (simp add: given_def Let_def carved_def)
    moreover have "r + sizeof_Header \<noteq> 0" using up by (metis add_is_0 unsigned_0 zero_neq_numeral)
    ultimately show ?thesis using m t'(1) by blast
  qed
  show ?thesis
  proof (cases "\<exists>x\<in>set bs. ?n \<le> h_size s0 x")
    case True
    have "length bs < turns" using assms(4) by simp
    from malloc_fit [OF inv heap_invD(6) [OF inv] n2(2) True this refl]
    obtain r t bs' where "malloc_loop turns turns grows ?n (freep s0) (h_ptr s0 (freep s0)) s0 = Ok (r + sizeof_Header) t"
      "heap_inv base t bs'" "carved r ?n \<subseteq> free_bytes s0 bs" "free_bytes t bs' = free_bytes s0 bs - carved r ?n"
      "h_size t r = ?n" "brk t = brk s0" "\<forall>z. unat z \<notin> free_bytes s0 bs \<longrightarrow> h_size t z = h_size s0 z"
      "unat base + 8 \<le> unat r" "unat r + 8 * unat ?n \<le> unat (brk s0)" by blast
    from result [OF inv _ _ _ this] show ?thesis using start fb0 s0 by auto
  next
    case False
    have small: "h_size s0 y < ?n" if "y \<in> set (base # bs)" for y
      using that False heap_invD(3) [OF inv] n2(2) by (auto simp: not_le)
    obtain C where C: "path (h_ptr s0) (h_ptr s0 (freep s0)) (C @ [freep s0]) (h_ptr s0 (freep s0))" "set (C @ [freep s0]) = set (base # bs)"
      "freep s0 \<notin> set C" "length C = length bs" using ring_order [OF inv] by blast
    have CC: "set C \<subseteq> set (base # bs)" using C(2) by auto
    define k where "k = turns - length bs - 1"
    then have k: "turns = length C + Suc k" "length bs + 1 < k" using assms(4) C(4) by auto
    have "\<exists>prevp'\<in>set (base # bs). h_ptr s0 prevp' = freep s0 \<and>
        malloc_loop (length C + Suc k) turns grows ?n (freep s0) (h_ptr s0 (freep s0)) s0 = malloc_loop (Suc k) turns grows ?n prevp' (freep s0) s0"
      using C CC small heap_inv_nonzero [OF inv] heap_invD(6) [OF inv]
      by (intro malloc_walk [where R = "[]" and c = "h_ptr s0 (freep s0)"]) auto
    then obtain prevp' where walk: "malloc turns grows base nbytes s = malloc_loop (Suc k) turns grows ?n prevp' (freep s0) s0"
      using start k(1) by auto
    have "\<not> ?n \<le> h_size s0 (freep s0)" using small heap_invD(6) [OF inv] by (simp add: not_le)
    with walk have m: "malloc turns grows base nbytes s =
        bindM (morecore turns grows ?n) (\<lambda>p. if p = 0 then retM 0 else bindM (getM (\<lambda>s. h_ptr s p)) (\<lambda>q. malloc_loop k turns grows ?n p q)) s0"
      by (simp add: bindM_run)
    have lt: "length bs < turns" using assms(4) by simp
    show ?thesis
    proof (cases "grows (brk s0) (more_units ?n * sizeof_Header)")
      case False
      then have "malloc turns grows base nbytes s = Ok 0 s0" using m by (simp add: bindM_run morecore_alt)
      then show ?thesis using inv fb0 s0(1) False by auto
    next
      case True
      from morecore_grows [OF inv assms(2) n2(1) lt n2(2) True]
      obtain t bs' where t: "morecore turns grows ?n s0 = Ok (freep t) t" "heap_inv base t bs'"
        "free_bytes t bs' = free_bytes s bs \<union> {unat (brk s)..<unat (brk t)}" "unat (brk s) \<le> unat (brk t)"
        "length bs' \<le> length bs + 1" "\<exists>x\<in>set bs'. ?n \<le> h_size t x" "\<forall>x. unat x \<notin> free_bytes t bs' \<longrightarrow> h_size t x = h_size s0 x"
        unfolding fb0 s0(1) by blast
      have "freep t \<noteq> 0" using heap_inv_nonzero [OF t(2)] heap_invD(6) [OF t(2)] by simp
      then have m2: "malloc turns grows base nbytes s = malloc_loop k turns grows ?n (freep t) (h_ptr t (freep t)) t"
        using m t(1) by (simp add: bindM_run)
      have "length bs' < k" using t(5) k(2) by simp
      from malloc_fit [OF t(2) heap_invD(6) [OF t(2)] n2(2) t(6) this refl]
      obtain r t' bs'' where "malloc_loop k turns grows ?n (freep t) (h_ptr t (freep t)) t = Ok (r + sizeof_Header) t'"
        "heap_inv base t' bs''" "carved r ?n \<subseteq> free_bytes t bs'" "free_bytes t' bs'' = free_bytes t bs' - carved r ?n"
        "h_size t' r = ?n" "brk t' = brk t" "\<forall>z. unat z \<notin> free_bytes t bs' \<longrightarrow> h_size t' z = h_size t z"
        "unat base + 8 \<le> unat r" "unat r + 8 * unat ?n \<le> unat (brk t)" by blast
      from result [OF t(2,3,4) _ this] t(7) s0(2) show ?thesis unfolding m2 by auto
    qed
  qed
qed

text \<open>
  C19: \<open>malloc\<close> returns for every request below 2 GB less a little. It returns 0, with the free blocks as they were, only if the kernel refuses
  memory; and otherwise a block with a header and room for the request that was free or new, and that is free no more; every other byte that was
  free or new stays free, the ring stays in order, and no header outside is touched.
\<close>
theorem malloc_allocates:
  assumes "heap_ok base s bs" and "below_kernel grows" and "unat nbytes + 16 \<le> 2 ^ 31" and "2 * length bs + 3 < turns"
  shows "\<exists>p t bs'. malloc turns grows base nbytes s = Ok p t \<and> heap_inv base t bs'
    \<and> (if p = 0 then free_bytes t bs' = free_bytes s bs \<and> brk t = brk s
           \<and> \<not> grows (brk s) (more_units ((nbytes + sizeof_Header - 1) div sizeof_Header + 1) * sizeof_Header)
       else given base s bs nbytes p t bs')"
  by (rule malloc_run [OF assms])

text \<open>
  C20: \<open>free\<close> of a block that was given out, which no free block overlaps, returns: the bytes of the block are free again and no others,
  neighbours are joined so that the ring is in order without blocks that touch, and no header outside is touched.
\<close>
theorem free_releases:
  assumes "heap_inv base s bs" and "unat base + 16 \<le> unat p" and "0 < h_size s (p - 8)" and "stop s (p - 8) \<le> unat (brk s)"
    and "block s (p - 8) \<inter> free_bytes s bs = {}" and "length bs < turns"
  shows "\<exists>t bs'. free turns p s = Ok () t \<and> heap_inv base t bs' \<and> free_bytes t bs' = free_bytes s bs \<union> block s (p - 8) \<and> brk t = brk s
    \<and> (\<forall>x. unat x \<notin> free_bytes t bs' \<longrightarrow> h_size t x = h_size s x)"
proof -
  have "unat (p - 8) = unat p - 8" using assms(2) by (simp add: unat_sub word_le_nat_alt)
  then have "unat base + 8 \<le> unat (p - 8)" using assms(2) by simp
  from free_run [OF assms(1) this assms(3-6)] show ?thesis by (auto simp: sizeof_Header_def)
qed

section \<open>Witnesses\<close>

definition demo_grows :: "u32 \<Rightarrow> u32 \<Rightarrow> bool" where
  "demo_grows b n \<longleftrightarrow> unat b + unat n \<le> 2 ^ 31"

definition demo_heap :: "u32 \<Rightarrow> u32 \<Rightarrow> uheap" where
  "demo_heap f n = \<lparr>h_ptr = (\<lambda>_. 0x8000), h_size = (\<lambda>x. if x = 0x10000 then n else 0), freep = f, brk = 0x11000\<rparr>"

lemma malloc_allocates_witness:
  "\<exists>p t bs'. malloc 4 demo_grows 0x8000 100 (demo_heap 0 0) = Ok p t \<and> p \<noteq> 0 \<and> given 0x8000 (demo_heap 0 0) [] 100 p t bs'"
proof -
  have "heap_ok 0x8000 (demo_heap 0 0) []" by (simp add: heap_ok_def demo_heap_def)
  moreover have "below_kernel demo_grows" by (simp add: below_kernel_def demo_grows_def)
  moreover have "demo_grows (brk (demo_heap 0 0)) (more_units ((100 + sizeof_Header - 1) div sizeof_Header + 1) * sizeof_Header)"
    by (simp add: demo_grows_def demo_heap_def more_units_def sizeof_Header_def)
  ultimately show ?thesis using malloc_allocates [of "0x8000" "demo_heap 0 0" "[]" demo_grows 100 4] by (force split: if_split_asm)
qed

lemma free_releases_witness:
  "\<exists>t bs'. free 2 0x10008 (demo_heap 0x8000 20) = Ok () t \<and> heap_inv 0x8000 t bs' \<and> free_bytes t bs' = {0x10000..<0x100A0}"
proof -
  have "heap_inv 0x8000 (demo_heap 0x8000 20) []" by (simp add: heap_inv_def demo_heap_def)
  then show ?thesis
    using free_releases [of "0x8000" "demo_heap 0x8000 20" "[]" "0x10008" 2] by (auto simp: demo_heap_def stop_def block_def)
qed

end
