(* ===== verification/Boot.thy ===== *)
theory Boot
  imports Trap
begin

text \<open>
  The boot loader, \<open>bootmain.c\<close>. The state is memory and the history of what was done to devices; what a
  device answers is a function of that history. From a drive that holds an ELF image, the loader puts every segment where its header says,
  fills the rest with zeros and returns the entry point.
\<close>

section \<open>Ports and registers\<close>

text \<open>\<open>outb\<close>, \<open>inb\<close> with what was read, \<open>insl\<close>, a register in memory written or read, and a line printed.\<close>

datatype devio = Out u16 u8 | In u16 u8 | Insl u16 | Reg_W u32 u32 | Reg_R u32 | Say string

record mach =
  b_mem :: mem
  b_io :: "devio list"

record ports =
  in_byte :: "devio list \<Rightarrow> u16 \<Rightarrow> u8"
  in_block :: "devio list \<Rightarrow> u8 list"
  in_reg :: "devio list \<Rightarrow> u32 \<Rightarrow> u32"

definition port_out :: "u16 \<Rightarrow> u8 \<Rightarrow> mach \<Rightarrow> (unit, mach) res" where
  "port_out p v = modM (\<lambda>s. s\<lparr>b_io := b_io s @ [Out p v]\<rparr>)"

definition port_in :: "ports \<Rightarrow> u16 \<Rightarrow> mach \<Rightarrow> (u8, mach) res" where
  "port_in dv p = bindM (getM (\<lambda>s. in_byte dv (b_io s) p)) (\<lambda>v. thenM (modM (\<lambda>s. s\<lparr>b_io := b_io s @ [In p v]\<rparr>)) (retM v))"

definition reg_write :: "u32 \<Rightarrow> u32 \<Rightarrow> mach \<Rightarrow> (unit, mach) res" where
  "reg_write a v = modM (\<lambda>s. s\<lparr>b_io := b_io s @ [Reg_W a v]\<rparr>)"

definition reg_read :: "ports \<Rightarrow> u32 \<Rightarrow> mach \<Rightarrow> (u32, mach) res" where
  "reg_read dv a = bindM (getM (\<lambda>s. in_reg dv (b_io s) a)) (\<lambda>v. thenM (modM (\<lambda>s. s\<lparr>b_io := b_io s @ [Reg_R a]\<rparr>)) (retM v))"

lemma port_run [simp]:
  "port_out p v s = Ok () (s\<lparr>b_io := b_io s @ [Out p v]\<rparr>)" "port_in dv p s = Ok (in_byte dv (b_io s) p) (s\<lparr>b_io := b_io s @ [In p (in_byte dv (b_io s) p)]\<rparr>)"
  "reg_write a w s = Ok () (s\<lparr>b_io := b_io s @ [Reg_W a w]\<rparr>)" "reg_read dv a s = Ok (in_reg dv (b_io s) a) (s\<lparr>b_io := b_io s @ [Reg_R a]\<rparr>)"
  by (simp_all add: port_out_def port_in_def reg_write_def reg_read_def bindM_run thenM_run)

section \<open>The boot loader\<close>

fun store_bytes :: "u32 \<Rightarrow> u8 list \<Rightarrow> mem \<Rightarrow> mem" where
  "store_bytes a [] m = m"
| "store_bytes a (b # bs) m = store_bytes (a + 1) bs (m(a := b))"

text \<open>\<open>insl\<close> takes 512 bytes, the answer \<open>in_block\<close> of the drive; a wait for the drive is given a number of polls.\<close>

fun waitdisk :: "ports \<Rightarrow> nat \<Rightarrow> mach \<Rightarrow> (unit, mach) res" where
  "waitdisk dv 0 = Spins"
| "waitdisk dv (Suc turns) = bindM (port_in dv 0x1F7) (\<lambda>v. if and v 0xC0 \<noteq> 0x40 then waitdisk dv turns else retM ())"

definition readsect :: "ports \<Rightarrow> nat \<Rightarrow> u32 \<Rightarrow> u32 \<Rightarrow> mach \<Rightarrow> (unit, mach) res" where
  "readsect dv turns dst offset =
     thenM (waitdisk dv turns)
     (thenM (port_out 0x1F2 1)
     (thenM (port_out 0x1F3 (ucast offset))
     (thenM (port_out 0x1F4 (ucast (drop_bit 8 offset)))
     (thenM (port_out 0x1F5 (ucast (drop_bit 16 offset)))
     (thenM (port_out 0x1F6 (ucast (or (drop_bit 24 offset) 0xE0)))
     (thenM (port_out 0x1F7 0x20)
     (thenM (waitdisk dv turns)
       (modM (\<lambda>s. s\<lparr>b_mem := store_bytes dst (in_block dv (b_io s)) (b_mem s), b_io := b_io s @ [Insl 0x1F0]\<rparr>)))))))))"

text \<open>Every turn reads a sector; \<open>sectors\<close> bounds them.\<close>

fun readseg_loop :: "ports \<Rightarrow> nat \<Rightarrow> nat \<Rightarrow> u32 \<Rightarrow> u32 \<Rightarrow> u32 \<Rightarrow> mach \<Rightarrow> (unit, mach) res" where
  "readseg_loop dv turns sectors pa epa offset =
     (if \<not> pa < epa then retM ()
      else if sectors = 0 then Spins
      else thenM (readsect dv turns pa offset) (readseg_loop dv turns (sectors - 1) (pa + 512) epa (offset + 1)))"

declare readseg_loop.simps [simp del]

definition readseg :: "ports \<Rightarrow> nat \<Rightarrow> u32 \<Rightarrow> u32 \<Rightarrow> u32 \<Rightarrow> mach \<Rightarrow> (unit, mach) res" where
  "readseg dv turns pa count offset =
     readseg_loop dv turns (unat count div 512 + 2) (pa - offset mod 512) (pa + count) (offset div 512 + 1)"

definition boot16 :: "mem \<Rightarrow> u32 \<Rightarrow> u16" where
  "boot16 m a = or (ucast (m a)) (push_bit 8 (ucast (m (a + 1))))"

text \<open>
  The loop over the program headers, from \<open>ph\<close> to \<open>eph\<close>: \<open>off\<close>, \<open>paddr\<close>, \<open>filesz\<close> and \<open>memsz\<close> are at offsets 4, 12, 16 and 20 of 32 bytes. The
  number bounds the turns; it is \<open>phnum\<close>.
\<close>

fun load_headers :: "ports \<Rightarrow> nat \<Rightarrow> nat \<Rightarrow> u32 \<Rightarrow> u32 \<Rightarrow> mach \<Rightarrow> (unit, mach) res" where
  "load_headers dv turns n ph eph =
     (if \<not> ph < eph then retM ()
      else if n = 0 then Spins
      else bindM (getM b_mem) (\<lambda>m.
     let pa = load32 m (ph + 12) in
     thenM (readseg dv turns pa (load32 m (ph + 16)) (load32 m (ph + 4)))
     (bindM (getM b_mem) (\<lambda>m.
     let filesz = load32 m (ph + 16); memsz = load32 m (ph + 20) in
     thenM (whenM (memsz > filesz) (modM (\<lambda>s. s\<lparr>b_mem := stosb (pa + filesz) 0 (unat (memsz - filesz)) (b_mem s)\<rparr>)))
       (load_headers dv turns (n - 1) (ph + 32) eph)))))"

declare load_headers.simps [simp del]

text \<open>The result is the address that is called; the header is read to \<open>elf\<close>, which has \<open>entry\<close>, \<open>phoff\<close> and \<open>phnum\<close> at 24, 28 and 44.\<close>

definition bootmain :: "ports \<Rightarrow> nat \<Rightarrow> mach \<Rightarrow> (u32 option, mach) res" where
  "bootmain dv turns =
     (let elf = 0x10000 in
      thenM (readseg dv turns elf 4096 0)
      (bindM (getM b_mem) (\<lambda>m.
      if load32 m elf \<noteq> ELF_MAGIC then retM None
      else
        let ph = elf + load32 m (elf + 28); phnum = boot16 m (elf + 44) in
        thenM (load_headers dv turns (unat phnum) ph (ph + 32 * ucast phnum))
        (bindM (getM b_mem) (\<lambda>m. retM (Some (load32 m (elf + 24))))))))"

text \<open>
  A drive as its documentation has it. Its registers take a value when the status was last read as ready; the command to read, 0x20, is obeyed when
  the drive is ready, one sector is asked for and the sector is a block address of the first drive. After a command the drive is busy until the status reads as ready again;
  only then does it deliver the sector, once. What it delivers at any other time is not known.
\<close>

record dstate =
  d_regs :: "u16 \<Rightarrow> u8"
  d_rdy :: bool
  d_sect :: "u32 option"

definition ready_status :: "u8 \<Rightarrow> bool" where
  "ready_status v \<longleftrightarrow> and v 0xC0 = 0x40"

definition lba :: "(u16 \<Rightarrow> u8) \<Rightarrow> u32" where
  "lba r = le32 (r 0x1F3) (r 0x1F4) (r 0x1F5) (and (r 0x1F6) 0x0F)"

definition drive_step :: "dstate \<Rightarrow> devio \<Rightarrow> dstate" where
  "drive_step d e = (case e of
     In p v \<Rightarrow> if p = 0x1F7 then d\<lparr>d_rdy := ready_status v\<rparr> else d
   | Out p v \<Rightarrow>
       if p = 0x1F7
       then d\<lparr>d_rdy := False, d_sect := if d_rdy d \<and> v = 0x20 \<and> d_regs d 0x1F2 = 1 \<and> and (d_regs d 0x1F6) 0xF0 = 0xE0
         then Some (lba (d_regs d)) else None\<rparr>
       else if d_rdy d then d\<lparr>d_regs := (d_regs d)(p := v)\<rparr> else d
   | Insl p \<Rightarrow> d\<lparr>d_sect := None\<rparr>
   | _ \<Rightarrow> d)"

definition drive_state :: "devio list \<Rightarrow> dstate" where
  "drive_state h = foldl drive_step \<lparr>d_regs = \<lambda>_. 0, d_rdy = False, d_sect = None\<rparr> h"

lemma drive_state_append [simp]: "drive_state (h @ g) = foldl drive_step (drive_state h) g"
  by (simp add: drive_state_def)

text \<open>The history after \<open>n\<close> more polls.\<close>

fun polled :: "ports \<Rightarrow> devio list \<Rightarrow> nat \<Rightarrow> devio list" where
  "polled dv h 0 = h"
| "polled dv h (Suc n) = polled dv (h @ [In 0x1F7 (in_byte dv h 0x1F7)]) n"

definition sector :: "(nat \<Rightarrow> u8) \<Rightarrow> u32 \<Rightarrow> u8 list" where
  "sector img k = map (\<lambda>j. img (512 * (unat k - 1) + j)) [0..<512]"

text \<open>It is ready after fewer than \<open>turns\<close> polls, and has the bytes \<open>img\<close> of the kernel's file from sector 1 on.\<close>

definition drive_of :: "(nat \<Rightarrow> u8) \<Rightarrow> nat \<Rightarrow> ports \<Rightarrow> bool" where
  "drive_of img turns dv \<longleftrightarrow> (\<forall>h. \<exists>i<turns. ready_status (in_byte dv (polled dv h i) 0x1F7))
     \<and> (\<forall>h k. d_rdy (drive_state h) \<longrightarrow> d_sect (drive_state h) = Some k \<longrightarrow> k \<noteq> 0 \<longrightarrow> in_block dv h = sector img k)"

text \<open>What a wait for the drive does: polls, the last of which finds it ready.\<close>

lemma waitdisk_run:
  "i < turns \<Longrightarrow> ready_status (in_byte dv (polled dv (b_io s) i) 0x1F7) \<Longrightarrow>
    \<exists>h. waitdisk dv turns s = Ok () (s\<lparr>b_io := h\<rparr>) \<and> drive_state h = (drive_state (b_io s))\<lparr>d_rdy := True\<rparr>"
proof (induction turns arbitrary: i s)
  case (Suc turns i s)
  let ?v = "in_byte dv (b_io s) 0x1F7"
  let ?s = "s\<lparr>b_io := b_io s @ [In 0x1F7 ?v]\<rparr>"
  show ?case
  proof (cases "ready_status ?v")
    case True
    then show ?thesis by (intro exI [of _ "b_io ?s"]) (simp add: bindM_run ready_status_def drive_step_def)
  next
    case False
    then obtain k where k: "i = Suc k" using Suc.prems(2) by (cases i) auto
    then obtain h where "waitdisk dv turns ?s = Ok () (?s\<lparr>b_io := h\<rparr>)" "drive_state h = (drive_state (b_io ?s))\<lparr>d_rdy := True\<rparr>"
      using Suc.IH [of k ?s] Suc.prems by auto
    then show ?thesis using False by (intro exI [of _ h]) (simp add: bindM_run ready_status_def drive_step_def)
  qed
qed simp

lemma waitdisk_ready:
  assumes "drive_of img turns dv"
  obtains h where "waitdisk dv turns s = Ok () (s\<lparr>b_io := h\<rparr>)" "drive_state h = (drive_state (b_io s))\<lparr>d_rdy := True\<rparr>"
proof -
  obtain i where "i < turns" "ready_status (in_byte dv (polled dv (b_io s) i) 0x1F7)" using assms unfolding drive_of_def by blast
  from waitdisk_run [OF this] show ?thesis using that by blast
qed

lemma lba_high:
  assumes "offset < (2 ^ 28 :: u32)"
  shows "take_bit 4 (ucast (drop_bit 24 offset)) = (ucast (drop_bit 24 offset) :: u8)"
proof -
  have "unat (drop_bit 24 offset) < 16" using assms by (simp add: drop_bit_eq_div word_less_nat_alt unat_div)
  then show ?thesis by (simp add: take_bit_eq_mod word_unat_eq_iff unat_mod unsigned_ucast_eq take_bit_nat_eq_self)
qed

lemma lba_put:
  assumes "offset < 2 ^ 28"
  shows "le32 (ucast offset) (ucast (drop_bit 8 offset)) (ucast (drop_bit 16 offset)) (and (ucast (or (drop_bit 24 offset) 0xE0)) 0x0F) = offset"
    and "and (ucast (or (drop_bit 24 offset) 0xE0)) 0xF0 = (0xE0 :: u8)"
proof -
  let ?x = "ucast (drop_bit 24 offset) :: u8"
  have x: "and ?x 0x0F = ?x" using lba_high [OF assms] take_bit_eq_mask [of 4 ?x] by (simp add: mask_eq_exp_minus_1)
  have "and (ucast (or (drop_bit 24 offset) 0xE0)) 0x0F = and ?x 0x0F"
    by (simp add: unsigned_or_eq bit.conj_disj_distrib2)
  then show "le32 (ucast offset) (ucast (drop_bit 8 offset)) (ucast (drop_bit 16 offset)) (and (ucast (or (drop_bit 24 offset) 0xE0)) 0x0F) = offset"
    using le32_byte_of [of offset] x by (simp add: byte_of_def)
  have "and ?x 0xF0 = and (and ?x 0x0F) 0xF0" by (simp only: x)
  then have "and ?x 0xF0 = 0" by (simp add: and.assoc)
  then show "and (ucast (or (drop_bit 24 offset) 0xE0)) 0xF0 = (0xE0 :: u8)" by (simp add: unsigned_or_eq bit.conj_disj_distrib2)
qed

lemma store_bytes_eq: "length bs < 2 ^ 32 \<Longrightarrow> store_bytes a bs m = (\<lambda>x. if dist x a < length bs then bs ! dist x a else m x)"
proof (induction bs arbitrary: a m)
  case (Cons b bs a m)
  show ?case
  proof
    fix x
    show "store_bytes a (b # bs) m x = (if dist x a < length (b # bs) then (b # bs) ! dist x a else m x)"
    proof (cases "x = a")
      case True
      then show ?thesis using Cons by (simp add: dist_next)
    next
      case False
      then show ?thesis using Cons dist_Suc [OF False] by simp
    qed
  qed
qed simp

lemma readsect_run:
  assumes "drive_of img turns dv" and "offset < 2 ^ 28" and "offset \<noteq> 0"
  shows "\<exists>h. readsect dv turns dst offset s = Ok () (s\<lparr>b_mem := store_bytes dst (sector img offset) (b_mem s), b_io := h\<rparr>)"
proof -
  obtain h where h: "waitdisk dv turns s = Ok () (s\<lparr>b_io := h\<rparr>)" "drive_state h = (drive_state (b_io s))\<lparr>d_rdy := True\<rparr>"
    by (rule waitdisk_ready [OF assms(1)])
  let ?h = "h @ [Out 0x1F2 1, Out 0x1F3 (ucast offset), Out 0x1F4 (ucast (drop_bit 8 offset)),
    Out 0x1F5 (ucast (drop_bit 16 offset)), Out 0x1F6 (ucast (or (drop_bit 24 offset) 0xE0)), Out 0x1F7 0x20]"
  obtain g where g: "waitdisk dv turns (s\<lparr>b_io := ?h\<rparr>) = Ok () (s\<lparr>b_io := g\<rparr>)" "drive_state g = (drive_state ?h)\<lparr>d_rdy := True\<rparr>"
    using waitdisk_ready [OF assms(1), of "s\<lparr>b_io := ?h\<rparr>"] by auto
  have "d_sect (drive_state g) = Some offset" "d_rdy (drive_state g)"
    unfolding g(2) using h(2) lba_put [OF assms(2)] by (simp_all add: drive_step_def lba_def)
  then have "in_block dv g = sector img offset" using assms(1,3) by (simp add: drive_of_def)
  then show ?thesis using h(1) g(1) by (simp add: readsect_def thenM_run) (rule exI, rule refl)
qed

lemma sector_put:
  assumes "unat p + 512 < 2 ^ 32"
  shows "store_bytes p (sector img k) m = (\<lambda>x. if unat p \<le> unat x \<and> unat x < unat p + 512 then img (512 * (unat k - 1) + (unat x - unat p)) else m x)"
proof
  fix x
  have "dist x p < 512 \<longleftrightarrow> unat p \<le> unat x \<and> unat x < unat p + 512"
  proof (cases "p \<le> x")
    case True
    then show ?thesis by (auto simp: dist_def unat_sub word_le_nat_alt)
  next
    case False
    then have "unat (x - p) = unat x + 2 ^ 32 - unat p" using unat_sub_if' [of x p] by (simp add: word_le_nat_alt)
    then show ?thesis using False assms by (simp add: dist_def word_le_nat_alt)
  qed
  moreover have "dist x p = unat x - unat p" if "unat p \<le> unat x" using that by (simp add: dist_def unat_sub word_le_nat_alt)
  moreover have "sector img k ! i = img (512 * (unat k - 1) + i)" if "i < 512" for i using that by (simp add: sector_def)
  moreover have "length (sector img k) = 512" by (simp add: sector_def)
  ultimately show "store_bytes p (sector img k) m x = (if unat p \<le> unat x \<and> unat x < unat p + 512 then img (512 * (unat k - 1) + (unat x - unat p)) else m x)"
    using store_bytes_eq [of "sector img k" p m] by auto
qed

lemma readseg_loop_run:
  assumes dv: "drive_of img turns dv"
  shows "unat p + 512 * n < 2 ^ 32 \<Longrightarrow> unat epa \<le> unat p + 512 * n \<Longrightarrow> (n \<noteq> 0 \<Longrightarrow> unat p + 512 * (n - 1) < unat epa) \<Longrightarrow>
    n \<le> fuel \<Longrightarrow> 1 \<le> unat k \<Longrightarrow> unat k + n < 2 ^ 28 \<Longrightarrow>
    \<exists>h. readseg_loop dv turns fuel p epa k s = Ok () (s\<lparr>b_mem := \<lambda>x. if unat p \<le> unat x \<and> unat x < unat p + 512 * n
      then img (512 * (unat k - 1) + (unat x - unat p)) else b_mem s x, b_io := h\<rparr>)"
proof (induction n arbitrary: p k s fuel)
  case 0
  then have "\<not> p < epa" by (simp add: word_less_nat_alt)
  then show ?case by (intro exI [of _ "b_io s"]) (auto simp: readseg_loop.simps intro!: mach.equality ext)
next
  case (Suc n)
  have lt: "p < epa" and f: "fuel \<noteq> 0" using Suc.prems(3,4) by (auto simp: word_less_nat_alt)
  have p': "unat (p + 512) = unat p + 512" using Suc.prems(1) unat_add_lem [of p 512] by simp
  have k': "unat (k + 1) = unat k + 1" using Suc.prems(6) unat_add_lem [of k 1] by simp
  have k0: "k \<noteq> 0" using Suc.prems(5) by auto
  have "k < 2 ^ 28" using Suc.prems(6) by (simp add: word_less_nat_alt)
  then obtain h where h: "readsect dv turns p k s = Ok () (s\<lparr>b_mem := store_bytes p (sector img k) (b_mem s), b_io := h\<rparr>)"
    using readsect_run [OF dv _ k0] by blast
  let ?s = "s\<lparr>b_mem := store_bytes p (sector img k) (b_mem s), b_io := h\<rparr>"
  have "n \<noteq> 0 \<Longrightarrow> unat (p + 512) + 512 * (n - 1) < unat epa" using Suc.prems(3) p' by (cases n) auto
  moreover have "unat (p + 512) + 512 * n < 2 ^ 32" "unat epa \<le> unat (p + 512) + 512 * n" "n \<le> fuel - 1" "1 \<le> unat (k + 1)" "unat (k + 1) + n < 2 ^ 28"
    using Suc.prems p' k' by auto
  ultimately obtain h' where h': "readseg_loop dv turns (fuel - 1) (p + 512) epa (k + 1) ?s = Ok () (?s\<lparr>b_mem := \<lambda>x. if unat (p + 512) \<le> unat x \<and> unat x < unat (p + 512) + 512 * n
      then img (512 * (unat (k + 1) - 1) + (unat x - unat (p + 512))) else b_mem ?s x, b_io := h'\<rparr>)"
    using Suc.IH [of "p + 512" "fuel - 1" "k + 1" ?s] by blast
  have "(\<lambda>x. if unat (p + 512) \<le> unat x \<and> unat x < unat (p + 512) + 512 * n
      then img (512 * (unat (k + 1) - 1) + (unat x - unat (p + 512))) else b_mem ?s x)
    = (\<lambda>x. if unat p \<le> unat x \<and> unat x < unat p + 512 * Suc n then img (512 * (unat k - 1) + (unat x - unat p)) else b_mem s x)" (is "?l = ?r")
  proof
    fix x :: u32
    have "512 * unat k + (unat x - (unat p + 512)) = 512 * (unat k - 1) + (unat x - unat p)" if "unat p + 512 \<le> unat x"
      using that Suc.prems(5) by (simp add: algebra_simps)
    then show "?l x = ?r x" using Suc.prems(1) sector_put [of p img k "b_mem s"] by (simp add: p' k')
  qed
  then show ?case using h h' lt f by (subst readseg_loop.simps) (simp add: thenM_run, rule exI, rule refl)
qed

definition segment :: "(nat \<Rightarrow> u8) \<Rightarrow> u32 \<Rightarrow> u32 \<Rightarrow> u32 \<Rightarrow> mem \<Rightarrow> mem" where
  "segment img pa count offset m = (let lo = unat pa - unat offset mod 512; n = (unat offset mod 512 + unat count + 511) div 512 in
     (\<lambda>x. if lo \<le> unat x \<and> unat x < lo + 512 * n then img (unat offset - unat offset mod 512 + (unat x - lo)) else m x))"

lemma readseg_run:
  assumes "drive_of img turns dv" and "unat offset mod 512 \<le> unat pa" and "unat pa + unat count + 512 \<le> 2 ^ 32"
  shows "\<exists>h. readseg dv turns pa count offset s = Ok () (s\<lparr>b_mem := segment img pa count offset (b_mem s), b_io := h\<rparr>)"
proof -
  let ?r = "unat offset mod 512" let ?n = "(?r + unat count + 511) div 512" let ?k = "offset div 512 + 1"
  have n: "512 * ?n \<le> ?r + unat count + 511" "?r + unat count \<le> 512 * ?n" by linarith+
  have r: "?r < 512" by simp
  have off: "unat offset < 2 ^ 32" using unsigned_less [of offset] by simp
  have "unat (offset mod 512) = ?r" by (simp add: unat_mod)
  then have p: "unat (pa - offset mod 512) = unat pa - ?r" using assms(2) by (simp add: unat_sub word_le_nat_alt)
  have e: "unat (pa + count) = unat pa + unat count" using assms(3) unat_add_lem [of pa count] by simp
  have "unat (offset div 512) = unat offset div 512" by (simp add: unat_div)
  moreover have "unat offset div 512 < 2 ^ 23" using off by simp
  ultimately have k: "unat ?k = unat offset div 512 + 1" using unat_add_lem [of "offset div 512" 1] by simp
  have "?n \<le> unat count div 512 + 2" using r by linarith
  moreover have "unat ?k + ?n < 2 ^ 28" using k \<open>unat offset div 512 < 2 ^ 23\<close> n(1) r assms(3) by simp
  moreover have "512 * (?n - 1) < ?r + unat count" if "?n \<noteq> 0" using n that by linarith
  moreover have "unat (pa - offset mod 512) + 512 * ?n < 2 ^ 32" using n(1) p assms(2,3) by linarith
  moreover have "unat (pa + count) \<le> unat (pa - offset mod 512) + 512 * ?n" using n(2) p e assms(2) by linarith
  moreover have "unat (pa - offset mod 512) + 512 * (?n - 1) < unat (pa + count)" if "?n \<noteq> 0"
    using calculation(3) [OF that] p e assms(2) by linarith
  moreover have "1 \<le> unat ?k" using k by simp
  ultimately obtain h where h: "readseg_loop dv turns (unat count div 512 + 2) (pa - offset mod 512) (pa + count) ?k s =
      Ok () (s\<lparr>b_mem := \<lambda>x. if unat (pa - offset mod 512) \<le> unat x \<and> unat x < unat (pa - offset mod 512) + 512 * ?n
      then img (512 * (unat ?k - 1) + (unat x - unat (pa - offset mod 512))) else b_mem s x, b_io := h\<rparr>)"
    using readseg_loop_run [OF assms(1), of "pa - offset mod 512" ?n "pa + count" "unat count div 512 + 2" ?k s] by blast
  have b: "512 * (unat ?k - 1) = unat offset - ?r" using k by (simp add: minus_mod_eq_mult_div)
  show ?thesis using h unfolding readseg_def segment_def Let_def p b by blast
qed

record phdr = ph_off :: u32 ph_paddr :: u32 ph_filesz :: u32 ph_memsz :: u32

definition phdr_at :: "mem \<Rightarrow> u32 \<Rightarrow> phdr" where
  "phdr_at m a = \<lparr>ph_off = load32 m (a + 4), ph_paddr = load32 m (a + 12), ph_filesz = load32 m (a + 16), ph_memsz = load32 m (a + 20)\<rparr>"

fun headers :: "mem \<Rightarrow> u32 \<Rightarrow> phdr list \<Rightarrow> bool" where
  "headers m a [] \<longleftrightarrow> True"
| "headers m a (g # gs) \<longleftrightarrow> phdr_at m a = g \<and> headers m (a + 32) gs"

text \<open>Segments above \<open>lo\<close>, each with its first sector above the end of the one before; a header may also describe nothing.\<close>

fun segs_ok :: "nat \<Rightarrow> phdr list \<Rightarrow> bool" where
  "segs_ok lo [] \<longleftrightarrow> True"
| "segs_ok lo (g # gs) \<longleftrightarrow> unat (ph_paddr g) + unat (ph_memsz g) + 512 \<le> 2 ^ 32 \<and> ph_filesz g \<le> ph_memsz g \<and>
     (if ph_memsz g = 0 \<and> unat (ph_off g) mod 512 = 0 then segs_ok lo gs
      else lo + unat (ph_off g) mod 512 \<le> unat (ph_paddr g) \<and> segs_ok (unat (ph_paddr g) + unat (ph_memsz g)) gs)"

definition loaded :: "(nat \<Rightarrow> u8) \<Rightarrow> phdr \<Rightarrow> mem \<Rightarrow> bool" where
  "loaded img g m \<longleftrightarrow> (\<forall>j<unat (ph_memsz g). m (ph_paddr g + of_nat j) = (if j < unat (ph_filesz g) then img (unat (ph_off g) + j) else 0))"

lemma unat_lt: "unat (a :: u32) < 2 ^ 32"
  using unsigned_less [of a] by simp

lemma unat_index: "j < unat (a :: u32) \<Longrightarrow> unat (of_nat j :: u32) = j"
  using unat_lt [of a] by (simp add: unat_of_nat)

lemma segment_low: "unat x < unat pa - unat offset mod 512 \<Longrightarrow> segment img pa count offset m x = m x"
  by (simp add: segment_def Let_def)

lemma segment_none: "unat offset mod 512 = 0 \<Longrightarrow> segment img pa 0 offset m = m"
  by (auto simp add: segment_def Let_def fun_eq_iff)

lemma segment_at:
  assumes "unat offset mod 512 \<le> unat pa" and "unat pa + unat count + 512 \<le> 2 ^ 32" and "j < unat count"
  shows "segment img pa count offset m (pa + of_nat j) = img (unat offset + j)"
proof -
  have j: "unat (of_nat j :: u32) = j" using assms(3) by (rule unat_index)
  then have x: "unat (pa + of_nat j) = unat pa + j" using assms(2,3) unat_add_lem [of pa "of_nat j"] by simp
  have "unat offset mod 512 + unat count \<le> 512 * ((unat offset mod 512 + unat count + 511) div 512)" by linarith
  then have "unat pa + j < unat pa - unat offset mod 512 + 512 * ((unat offset mod 512 + unat count + 511) div 512)"
    using assms by linarith
  moreover have "unat pa - unat offset mod 512 \<le> unat pa + j" by simp
  moreover have "unat offset - unat offset mod 512 + (unat pa + j - (unat pa - unat offset mod 512)) = unat offset + j"
    using assms(1) mod_less_eq_dividend [of "unat offset" 512] by linarith
  ultimately show ?thesis by (simp only: segment_def Let_def x simp_thms if_True)
qed

lemma segment_loaded:
  fixes g m img
  defines "m' \<equiv> stosb (ph_paddr g + ph_filesz g) 0 (unat (ph_memsz g - ph_filesz g)) (segment img (ph_paddr g) (ph_filesz g) (ph_off g) m)"
  assumes "unat (ph_off g) mod 512 \<le> unat (ph_paddr g)" and "unat (ph_paddr g) + unat (ph_memsz g) + 512 \<le> 2 ^ 32" and "ph_filesz g \<le> ph_memsz g"
  shows "loaded img g m'" and "unat x < unat (ph_paddr g) - unat (ph_off g) mod 512 \<Longrightarrow> m' x = m x"
proof -
  have le: "unat (ph_filesz g) \<le> unat (ph_memsz g)" using assms(4) by (simp add: word_le_nat_alt)
  have d: "unat (ph_memsz g - ph_filesz g) = unat (ph_memsz g) - unat (ph_filesz g)" using assms(4) by (simp add: unat_sub)
  have e: "unat (ph_paddr g + ph_filesz g) = unat (ph_paddr g) + unat (ph_filesz g)"
    using le assms(3) unat_add_lem [of "ph_paddr g" "ph_filesz g"] by simp
  have m': "m' x = (if dist x (ph_paddr g + ph_filesz g) < unat (ph_memsz g) - unat (ph_filesz g) then 0
      else segment img (ph_paddr g) (ph_filesz g) (ph_off g) m x)" for x
    unfolding m'_def d using unat_lt [of "ph_memsz g"] by (subst stosb_eq) simp_all
  have below: "\<not> dist x (ph_paddr g + ph_filesz g) < unat (ph_memsz g) - unat (ph_filesz g)" if "unat x < unat (ph_paddr g) + unat (ph_filesz g)" for x
    using that unat_sub_if' [of x "ph_paddr g + ph_filesz g"] assms(3) le by (simp add: dist_def e)
  show "m' x = m x" if "unat x < unat (ph_paddr g) - unat (ph_off g) mod 512"
    using that below [of x] by (simp add: m' segment_low)
  have "m' (ph_paddr g + of_nat j) = (if j < unat (ph_filesz g) then img (unat (ph_off g) + j) else 0)" if "j < unat (ph_memsz g)" for j
  proof -
    have j: "unat (of_nat j :: u32) = j" using that by (rule unat_index)
    then have x: "unat (ph_paddr g + of_nat j) = unat (ph_paddr g) + j" using assms(3) that unat_add_lem [of "ph_paddr g" "of_nat j"] by simp
    show ?thesis
    proof (cases "j < unat (ph_filesz g)")
      case True
      then show ?thesis using below [of "ph_paddr g + of_nat j"] x segment_at [OF assms(2) _ True] assms(3) le by (simp add: m')
    next
      case False
      then have "dist (ph_paddr g + of_nat j) (ph_paddr g + ph_filesz g) = j - unat (ph_filesz g)"
        using j by (simp add: dist_def unat_sub word_le_nat_alt)
      moreover have "j - unat (ph_filesz g) < unat (ph_memsz g) - unat (ph_filesz g)" using False that by linarith
      ultimately show ?thesis using False by (simp add: m')
    qed
  qed
  then show "loaded img g m'" by (simp add: loaded_def)
qed

lemma phdr_same:
  assumes "\<And>x. unat x < lo \<Longrightarrow> m' x = m x" and "unat a + 32 \<le> lo" and "lo < 2 ^ 32"
  shows "phdr_at m' a = phdr_at m a"
proof -
  have "m' (a + of_nat k) = m (a + of_nat k)" if "k < 32" for k
  proof (rule assms(1))
    have "unat (of_nat k :: u32) = k" using that by (simp add: unat_of_nat)
    then show "unat (a + of_nat k) < lo" using that assms(2,3) unat_add_lem [of a "of_nat k"] by simp
  qed
  then have "load32 m' (a + of_nat i) = load32 m (a + of_nat i)" if "i < 29" for i
    using that by (intro load32_cong) (simp add: add.assoc flip: of_nat_add)
  from this [of 4] this [of 12] this [of 16] this [of 20] show ?thesis by (simp add: phdr_at_def)
qed

lemma headers_same:
  assumes "\<And>x. unat x < lo \<Longrightarrow> m' x = m x" and "lo < 2 ^ 32"
  shows "headers m a gs \<Longrightarrow> unat a + 32 * length gs \<le> lo \<Longrightarrow> headers m' a gs"
proof (induction gs arbitrary: a)
  case (Cons g gs)
  have "unat (a + 32) = unat a + 32" using Cons.prems(2) assms(2) unat_add_lem [of a 32] by simp
  moreover have "phdr_at m' a = phdr_at m a" using assms Cons.prems(2) by (intro phdr_same [where lo = lo]) auto
  ultimately show ?case using Cons by simp
qed simp

lemma load_headers_step:
  fixes g img s
  defines "m1 \<equiv> segment img (ph_paddr g) (ph_filesz g) (ph_off g) (b_mem s)"
  assumes "drive_of img turns dv" and "phdr_at (b_mem s) ph = g" and "phdr_at m1 ph = g" and "ph < eph" and "n \<noteq> 0"
    and "unat (ph_off g) mod 512 \<le> unat (ph_paddr g)" and "unat (ph_paddr g) + unat (ph_filesz g) + 512 \<le> 2 ^ 32" and "ph_filesz g \<le> ph_memsz g"
  shows "\<exists>h. load_headers dv turns n ph eph s = load_headers dv turns (n - 1) (ph + 32) eph
    (s\<lparr>b_mem := stosb (ph_paddr g + ph_filesz g) 0 (unat (ph_memsz g - ph_filesz g)) m1, b_io := h\<rparr>)"
proof -
  obtain h where h: "readseg dv turns (ph_paddr g) (ph_filesz g) (ph_off g) s = Ok () (s\<lparr>b_mem := m1, b_io := h\<rparr>)"
    using readseg_run [OF assms(2,7,8)] unfolding m1_def by blast
  have f: "load32 (b_mem s) (ph + 12) = ph_paddr g" "load32 (b_mem s) (ph + 16) = ph_filesz g" "load32 (b_mem s) (ph + 4) = ph_off g"
    "load32 m1 (ph + 16) = ph_filesz g" "load32 m1 (ph + 20) = ph_memsz g" using assms(3,4) by (auto simp: phdr_at_def)
  have "ph_memsz g = ph_filesz g" if "\<not> ph_filesz g < ph_memsz g" using that assms(9) by simp
  then have "stosb (ph_paddr g + ph_filesz g) 0 (unat (ph_memsz g - ph_filesz g)) m1 = m1" if "\<not> ph_filesz g < ph_memsz g"
    using that by simp
  then have "load_headers dv turns n ph eph s = load_headers dv turns (n - 1) (ph + 32) eph
    (s\<lparr>b_mem := stosb (ph_paddr g + ph_filesz g) 0 (unat (ph_memsz g - ph_filesz g)) m1, b_io := h\<rparr>)"
    using assms(5,6) by (subst load_headers.simps) (auto simp: bindM_run thenM_run f h whenM_def Let_def intro!: arg_cong [where f = "load_headers dv turns (n - Suc 0) (ph + 32) eph"])
  then show ?thesis by blast
qed

lemma load_headers_run:
  assumes dv: "drive_of img turns dv"
  shows "headers (b_mem s) ph gs \<Longrightarrow> segs_ok lo gs \<Longrightarrow> unat eph = unat ph + 32 * length gs \<Longrightarrow> unat eph \<le> lo \<Longrightarrow> lo < 2 ^ 32 \<Longrightarrow> length gs \<le> n \<Longrightarrow>
    \<exists>h m. load_headers dv turns n ph eph s = Ok () (s\<lparr>b_mem := m, b_io := h\<rparr>) \<and> (\<forall>x. unat x < lo \<longrightarrow> m x = b_mem s x) \<and> (\<forall>g\<in>set gs. loaded img g m)"
proof (induction gs arbitrary: ph lo s n)
  case Nil
  then have "\<not> ph < eph" by (simp add: word_less_nat_alt)
  then show ?case by (intro exI [of _ "b_io s"] exI [of _ "b_mem s"]) (simp add: load_headers.simps)
next
  case (Cons g gs)
  let ?pa = "ph_paddr g" let ?r = "unat (ph_off g) mod 512" let ?fs = "ph_filesz g" let ?ms = "ph_memsz g"
  let ?m1 = "segment img ?pa ?fs (ph_off g) (b_mem s)" let ?m2 = "stosb (?pa + ?fs) 0 (unat (?ms - ?fs)) ?m1"
  have lt: "ph < eph" and n: "n \<noteq> 0" using Cons.prems(3,6) by (auto simp: word_less_nat_alt)
  have ph: "unat (ph + 32) = unat ph + 32" using Cons.prems(3-5) unat_add_lem [of ph 32] by simp
  have g: "phdr_at (b_mem s) ph = g" and gs: "headers (b_mem s) (ph + 32) gs" using Cons.prems(1) by simp_all
  have top: "unat ?pa + unat ?ms + 512 \<le> 2 ^ 32" and le: "?fs \<le> ?ms" using Cons.prems(2) by simp_all
  have top': "unat ?pa + unat ?fs + 512 \<le> 2 ^ 32" using top le by (simp add: word_le_nat_alt)
  show ?case
  proof (cases "?ms = 0 \<and> ?r = 0")
    case True
    then have "?fs = 0" using le by simp
    then have m: "?m1 = b_mem s" "?m2 = b_mem s" using True by (simp_all add: segment_none)
    obtain h where h: "load_headers dv turns n ph eph s = load_headers dv turns (n - 1) (ph + 32) eph (s\<lparr>b_mem := ?m2, b_io := h\<rparr>)"
      using load_headers_step [OF dv g _ lt n] g m True top' le by auto
    have "loaded img g m'" for m' using True by (simp add: loaded_def)
    moreover have "segs_ok lo gs" using Cons.prems(2) True by simp
    moreover obtain h' m' where "load_headers dv turns (n - 1) (ph + 32) eph (s\<lparr>b_mem := ?m2, b_io := h\<rparr>) = Ok () (s\<lparr>b_mem := m', b_io := h'\<rparr>)"
      "\<forall>x. unat x < lo \<longrightarrow> m' x = b_mem s x" "\<forall>g\<in>set gs. loaded img g m'"
    proof -
      have "headers (b_mem (s\<lparr>b_mem := ?m2, b_io := h\<rparr>)) (ph + 32) gs" "unat eph = unat (ph + 32) + 32 * length gs" "length gs \<le> n - 1"
        using gs ph m(2) Cons.prems(3,6) by simp_all
      from Cons.IH [OF this(1) \<open>segs_ok lo gs\<close> this(2) Cons.prems(4,5) this(3)] show ?thesis using that by (simp add: m m(2) [unfolded m(1)]) blast
    qed
    ultimately show ?thesis unfolding h by auto
  next
    case False
    let ?lo = "unat ?pa + unat ?ms"
    have lo: "lo + ?r \<le> unat ?pa" and ok: "segs_ok ?lo gs" using Cons.prems(2) False by (simp_all split: if_splits)
    have low: "?m1 x = b_mem s x" "?m2 x = b_mem s x" if "unat x < lo" for x
      using that lo segment_low [of x ?pa "ph_off g"] segment_loaded(2) [OF _ top le, of x] by simp_all
    have "phdr_at ?m1 ph = g" using phdr_same [of lo ?m1 "b_mem s" ph] low g Cons.prems(3-5) by simp
    then obtain h where h: "load_headers dv turns n ph eph s = load_headers dv turns (n - 1) (ph + 32) eph (s\<lparr>b_mem := ?m2, b_io := h\<rparr>)"
      using load_headers_step [OF dv g _ lt n _ top' le] lo by auto
    have hd: "headers ?m2 (ph + 32) gs" using headers_same [of lo ?m2 "b_mem s"] low gs ph Cons.prems(3-5) by simp
    obtain h' m where m: "load_headers dv turns (n - 1) (ph + 32) eph (s\<lparr>b_mem := ?m2, b_io := h\<rparr>) = Ok () (s\<lparr>b_mem := m, b_io := h'\<rparr>)"
      "\<And>x. unat x < ?lo \<Longrightarrow> m x = ?m2 x" "\<forall>g\<in>set gs. loaded img g m"
    proof -
      have "unat eph = unat (ph + 32) + 32 * length gs" "length gs \<le> n - 1" "unat eph \<le> ?lo" "?lo < 2 ^ 32"
        using ph lo top Cons.prems(3-6) by simp_all
      then show ?thesis using hd Cons.IH [of "s\<lparr>b_mem := ?m2, b_io := h\<rparr>" "ph + 32" ?lo "n - 1"] ok that by simp blast
    qed
    have "loaded img g ?m2" using segment_loaded(1) [OF _ top le] lo by simp
    moreover have "m (?pa + of_nat j) = ?m2 (?pa + of_nat j)" if "j < unat ?ms" for j
      using that unat_index [OF that] top unat_add_lem [of ?pa "of_nat j"] by (intro m(2)) simp
    ultimately have "loaded img g m" by (simp add: loaded_def)
    moreover have "m x = b_mem s x" if "unat x < lo" for x using that low m(2) lo by simp
    ultimately show ?thesis using m(1,3) unfolding h by auto
  qed
qed

text \<open>
  What a kernel's file is: the ELF header and the program headers \<open>gs\<close> lie in its first 4096 bytes. \<open>m\<close> has the file's bytes from 0x10000 on.
\<close>

definition elf_image :: "(nat \<Rightarrow> u8) \<Rightarrow> u32 \<Rightarrow> phdr list \<Rightarrow> bool" where
  "elf_image img entry gs \<longleftrightarrow> (let m = (\<lambda>x. img (unat (x - 0x10000))); phoff = load32 m 0x1001C in
     load32 m 0x10000 = ELF_MAGIC \<and> load32 m 0x10018 = entry \<and> unat (boot16 m 0x1002C) = length gs
     \<and> unat phoff + 32 * length gs \<le> 4096 \<and> headers m (0x10000 + phoff) gs)"

lemma load_page:
  assumes "\<And>x. unat x < 0x11000 \<Longrightarrow> 0x10000 \<le> unat x \<Longrightarrow> m' x = m x"
  shows "k < 4093 \<Longrightarrow> load32 m' (0x10000 + of_nat k) = load32 m (0x10000 + of_nat k)"
    "headers m (0x10000 + of_nat k) gs \<Longrightarrow> k + 32 * length gs \<le> 4096 \<Longrightarrow> headers m' (0x10000 + of_nat k) gs"
    "boot16 m' 0x1002C = boot16 m 0x1002C"
proof -
  have at: "m' (0x10000 + of_nat k) = m (0x10000 + of_nat k)" if "k < 4096" for k
    using that unat_add_lem [of "0x10000 :: u32" "of_nat k"] by (intro assms) (simp_all add: unat_of_nat)
  then have l: "load32 m' (0x10000 + of_nat k) = load32 m (0x10000 + of_nat k)" if "k < 4093" for k
    using that by (intro load32_cong) (simp add: add.assoc flip: of_nat_add)
  then show "k < 4093 \<Longrightarrow> load32 m' (0x10000 + of_nat k) = load32 m (0x10000 + of_nat k)" .
  show "boot16 m' 0x1002C = boot16 m 0x1002C" using at [of 44] at [of 45] by (simp add: boot16_def)
  show "headers m (0x10000 + of_nat k) gs \<Longrightarrow> k + 32 * length gs \<le> 4096 \<Longrightarrow> headers m' (0x10000 + of_nat k) gs"
  proof (induction gs arbitrary: k)
    case (Cons g gs)
    have "phdr_at m' (0x10000 + of_nat k) = phdr_at m (0x10000 + of_nat k)"
      using l [of "k + 4"] l [of "k + 12"] l [of "k + 16"] l [of "k + 20"] Cons.prems(2) by (simp add: phdr_at_def ac_simps)
    then show ?case using Cons.IH [of "k + 32"] Cons.prems by (simp add: ac_simps)
  qed simp
qed

text \<open>
  C15: The boot loader loads the kernel. From a drive whose file is an ELF image with the program headers \<open>gs\<close>, whose segments lie above the
  page that the loader uses and do not overlap, it returns the entry point, and every segment is at its place: first the bytes of the
  file, then zeros up to its size in memory. Reading whole sectors, it writes more than that, and the order of the segments makes up for it.
\<close>

theorem bootmain_loads:
  assumes "drive_of img turns dv" and "elf_image img entry gs" and "segs_ok 0x11000 gs"
  shows "\<exists>h m. bootmain dv turns s = Ok (Some entry) (s\<lparr>b_mem := m, b_io := h\<rparr>) \<and> (\<forall>g\<in>set gs. loaded img g m)"
proof -
  let ?f = "\<lambda>x. img (unat (x - 0x10000))" let ?m = "segment img 0x10000 4096 0 (b_mem s)"
  let ?off = "load32 ?f 0x1001C"
  note E = assms(2) [unfolded elf_image_def Let_def]
  obtain h where h: "readseg dv turns 0x10000 4096 0 s = Ok () (s\<lparr>b_mem := ?m, b_io := h\<rparr>)"
    using readseg_run [OF assms(1), of 0 "0x10000" 4096 s] by auto
  have page: "?m x = ?f x" if "unat x < 0x11000" "0x10000 \<le> unat x" for x
    using that by (simp add: segment_def Let_def unat_sub word_le_nat_alt)
  note P = load_page [where m = ?f and m' = ?m, OF page]
  have off: "0x10000 + of_nat (unat ?off) = 0x10000 + ?off" by simp
  have L: "load32 ?m 0x10000 = ELF_MAGIC" "load32 ?m 0x1001C = ?off" "unat (boot16 ?m 0x1002C) = length gs" "headers ?m (0x10000 + ?off) gs"
    using P(1) [of 0] P(1) [of 28] P(3) P(2) [of "unat ?off" gs] E by (simp_all add: off)
  have le: "unat ?off + 32 * length gs \<le> 4096" using E by blast
  have u: "unat (0x10000 + ?off) = 0x10000 + unat ?off" using le unat_add_lem [of "0x10000" ?off] by simp
  have n: "unat (32 * ucast (boot16 ?m 0x1002C) :: u32) = 32 * length gs" using le L(3) unat_mult_lem [of "32 :: u32" "ucast (boot16 ?m 0x1002C)"]
      take_bit_nat_eq_self [of "length gs" 32]
    by (simp add: unsigned_ucast_eq)
  have "unat (0x10000 + ?off + 32 * ucast (boot16 ?m 0x1002C)) = unat (0x10000 + ?off) + 32 * length gs"
    using le u n unat_add_lem [of "0x10000 + ?off" "32 * ucast (boot16 ?m 0x1002C)"] by simp
  then obtain h' m where m: "load_headers dv turns (length gs) (0x10000 + ?off) (0x10000 + ?off + 32 * ucast (boot16 ?m 0x1002C)) (s\<lparr>b_mem := ?m, b_io := h\<rparr>)
      = Ok () (s\<lparr>b_mem := m, b_io := h'\<rparr>)" "\<forall>x. unat x < 0x11000 \<longrightarrow> m x = ?m x" "\<forall>g\<in>set gs. loaded img g m"
    using load_headers_run [OF assms(1), where s = "s\<lparr>b_mem := ?m, b_io := h\<rparr>" and ph = "0x10000 + ?off" and gs = gs and lo = "0x11000" and n = "length gs" and eph = "0x10000 + ?off + 32 * ucast (boot16 ?m 0x1002C)"] assms(3) L(4) le u by auto
  have "load32 m 0x10018 = load32 ?f 0x10018"
    using load_page(1) [of m ?f 24] m(2) page by simp
  then have "load32 m 0x10018 = entry" using E by simp
  then show ?thesis using h L m(1,3) by (simp add: bootmain_def Let_def thenM_run bindM_run) blast
qed

definition demo_file :: "nat \<Rightarrow> u8" where
  "demo_file i = (if i \<in> {0 ..< 4} then [0x7F, 0x45, 0x4C, 0x46] ! i else if i = 26 then 0x10 else if i = 28 then 52 else if i = 44 then 1
     else if i = 57 then 0x10 else if i = 66 then 0x10 else if i = 68 then 3 else if i = 72 then 5 else if i \<in> {4096 ..< 4099} then [1, 2, 3] ! (i - 4096) else 9 * of_bool (4099 \<le> i))"

lemma demo_words:
  "load32 (\<lambda>x. demo_file (unat (x - 0x10000))) 0x10000 = ELF_MAGIC" "load32 (\<lambda>x. demo_file (unat (x - 0x10000))) 0x10018 = 0x100000"
  "load32 (\<lambda>x. demo_file (unat (x - 0x10000))) 0x1001C = 52" "boot16 (\<lambda>x. demo_file (unat (x - 0x10000))) 0x1002C = 1"
  "load32 (\<lambda>x. demo_file (unat (x - 0x10000))) 0x10038 = 4096" "load32 (\<lambda>x. demo_file (unat (x - 0x10000))) 0x10040 = 0x100000"
  "load32 (\<lambda>x. demo_file (unat (x - 0x10000))) 0x10044 = 3" "load32 (\<lambda>x. demo_file (unat (x - 0x10000))) 0x10048 = 5"
  by (simp_all add: load32_def boot16_def le32_def demo_file_def ELF_MAGIC_def)

definition demo_drive :: ports where
  "demo_drive = \<lparr>in_byte = \<lambda>_ _. 0x40,
     in_block = \<lambda>h. (case d_sect (drive_state h) of None \<Rightarrow> [] | Some k \<Rightarrow> sector demo_file k), in_reg = \<lambda>_ _. 0\<rparr>"

theorem bootmain_loads_witness:
  "\<exists>h m. bootmain demo_drive 1 \<lparr>b_mem = \<lambda>_. 7, b_io = []\<rparr> = Ok (Some 0x100000) \<lparr>b_mem = m, b_io = h\<rparr>
    \<and> m 0x100000 = 1 \<and> m 0x100001 = 2 \<and> m 0x100002 = 3 \<and> m 0x100003 = 0 \<and> m 0x100004 = 0"
proof -
  let ?g = "\<lparr>ph_off = 4096, ph_paddr = 0x100000, ph_filesz = 3, ph_memsz = 5\<rparr>"
  have "drive_of demo_file 1 demo_drive" by (simp add: drive_of_def demo_drive_def ready_status_def)
  moreover have "elf_image demo_file 0x100000 [?g]"
    by (simp add: elf_image_def Let_def phdr_at_def demo_words)
  moreover have "segs_ok 0x11000 [?g]" by simp
  ultimately obtain h m where m: "bootmain demo_drive 1 \<lparr>b_mem = \<lambda>_. 7, b_io = []\<rparr> = Ok (Some 0x100000) \<lparr>b_mem = m, b_io = h\<rparr>" and "loaded demo_file ?g m"
    using bootmain_loads [of demo_file 1 demo_drive "0x100000" "[?g]" "\<lparr>b_mem = \<lambda>_. 7, b_io = []\<rparr>"] by auto
  then have "m (0x100000 + of_nat j) = (if j < 3 then demo_file (4096 + j) else 0)" if "j < 5" for j using that by (simp add: loaded_def)
  from this [of 0] this [of 1] this [of 2] this [of 3] this [of 4] show ?thesis using m by (auto simp: demo_file_def)
qed

text \<open>A file that is not an ELF image is not entered.\<close>

theorem bootmain_refuses:
  assumes "drive_of img turns dv" and "load32 (\<lambda>x. img (unat (x - 0x10000))) 0x10000 \<noteq> ELF_MAGIC"
  shows "\<exists>h m. bootmain dv turns s = Ok None (s\<lparr>b_mem := m, b_io := h\<rparr>)"
proof -
  let ?m = "segment img 0x10000 4096 0 (b_mem s)"
  obtain h where h: "readseg dv turns 0x10000 4096 0 s = Ok () (s\<lparr>b_mem := ?m, b_io := h\<rparr>)"
    using readseg_run [OF assms(1), of 0 "0x10000" 4096 s] by auto
  have "?m x = img (unat (x - 0x10000))" if "unat x < 0x11000" "0x10000 \<le> unat x" for x
    using that by (simp add: segment_def Let_def unat_sub word_le_nat_alt)
  then have "load32 ?m 0x10000 = load32 (\<lambda>x. img (unat (x - 0x10000))) 0x10000" using load_page(1) [of ?m "\<lambda>x. img (unat (x - 0x10000))" 0] by simp
  then show ?thesis using h assms(2) by (simp add: bootmain_def Let_def thenM_run bindM_run) blast
qed

end
