(* ===== verification/Kbd.thy ===== *)
theory Kbd
  imports Console
begin

text \<open>
  The keyboard and the serial port. For the keyboard, \<open>kbd.c\<close> with the tables of \<open>kbd.h\<close>: the state machine that turns scan codes into characters, and its relation to a
  keyboard whose modifier keys are held or not. What the controller has is a list of bytes; its status bit says whether the list
  is empty.
\<close>

section \<open>The tables\<close>

definition SHIFT :: u8 where "SHIFT = 1"
definition CTL :: u8 where "CTL = 2"
definition ALT :: u8 where "ALT = 4"
definition CAPSLOCK :: u8 where "CAPSLOCK = 8"
definition NUMLOCK :: u8 where "NUMLOCK = 16"
definition SCROLLLOCK :: u8 where "SCROLLLOCK = 32"
definition E0ESC :: u32 where "E0ESC = 64"

definition KEY_HOME :: u8 where "KEY_HOME = 0xE0"
definition KEY_END :: u8 where "KEY_END = 0xE1"
definition KEY_UP :: u8 where "KEY_UP = 0xE2"
definition KEY_DN :: u8 where "KEY_DN = 0xE3"
definition KEY_LF :: u8 where "KEY_LF = 0xE4"
definition KEY_RT :: u8 where "KEY_RT = 0xE5"
definition KEY_PGUP :: u8 where "KEY_PGUP = 0xE6"
definition KEY_PGDN :: u8 where "KEY_PGDN = 0xE7"
definition KEY_INS :: u8 where "KEY_INS = 0xE8"
definition KEY_DEL :: u8 where "KEY_DEL = 0xE9"

definition shiftcode :: "u8 \<Rightarrow> u8" where
  "shiftcode d =
     (if d = 0x1D then CTL else if d = 0x2A then SHIFT else if d = 0x36 then SHIFT else if d = 0x38 then ALT
      else if d = 0x9D then CTL else if d = 0xB8 then ALT else 0)"

definition togglecode :: "u8 \<Rightarrow> u8" where
  "togglecode d = (if d = 0x3A then CAPSLOCK else if d = 0x45 then NUMLOCK else if d = 0x46 then SCROLLLOCK else 0)"

text \<open>
  The three maps begin with a row of entries, have one at each of a few indices, and are 0 elsewhere. \<open>pairs\<close> are the indexed ones
  they have in common; those of the keypad differ.
\<close>

definition chars :: "string \<Rightarrow> u8 list" where
  "chars s = map of_char s"

definition special :: "u8 \<Rightarrow> u8" where
  "special d =
     (if d = 0xC8 then KEY_UP else if d = 0xD0 then KEY_DN else if d = 0xC9 then KEY_PGUP else if d = 0xD1 then KEY_PGDN
      else if d = 0xCB then KEY_LF else if d = 0xCD then KEY_RT else if d = 0x97 then KEY_HOME else if d = 0xCF then KEY_END
      else if d = 0xD2 then KEY_INS else if d = 0xD3 then KEY_DEL else 0)"

definition keypad :: "u8 list" where
  "keypad = chars ''789-456+1230.''"

definition normal_row :: "u8 list" where
  "normal_row =
     [0, 0x1B] @ chars ''1234567890-='' @ [8, 9] @ chars ''qwertyuiop[]'' @ [10, 0] @ chars ''asdfghjkl;'' @ [39] @ chars ''`'' @ [0, 92]
     @ chars ''zxcvbnm,./'' @ [0] @ chars ''*'' @ [0] @ chars '' '' @ replicate 13 0 @ keypad"

definition shift_row :: "u8 list" where
  "shift_row =
     [0, 27] @ chars ''!@#$%^&*()_+'' @ [8, 9] @ chars ''QWERTYUIOP{}'' @ [10, 0] @ chars ''ASDFGHJKL:'' @ [34] @ chars ''~'' @ [0] @ chars ''|''
     @ chars ''ZXCVBNM<>?'' @ [0] @ chars ''*'' @ [0] @ chars '' '' @ replicate 13 0 @ keypad"

text \<open>\<open>C('A')\<close> is Control-A.\<close>

definition C :: "u8 list \<Rightarrow> u8 list" where
  "C cs = map (\<lambda>x. x - of_char CHR ''@'') cs"

definition ctl_row :: "u8 list" where
  "ctl_row =
     replicate 16 0 @ C (chars ''QWERTYUIOP'') @ [0, 0, 13, 0] @ C (chars ''ASDFGHJKL'') @ [0, 0, 0, 0] @ C [92] @ C (chars ''ZXCVBNM'')
     @ [0, 0] @ C (chars ''/'') @ [0, 0]"

definition normalmap :: "u8 \<Rightarrow> u8" where
  "normalmap d =
     (if unat d < length normal_row then normal_row ! unat d else if d = 0x9C then 10 else if d = 0xB5 then of_char CHR ''/'' else special d)"

definition shiftmap :: "u8 \<Rightarrow> u8" where
  "shiftmap d =
     (if unat d < length shift_row then shift_row ! unat d else if d = 0x9C then 10 else if d = 0xB5 then of_char CHR ''/'' else special d)"

definition ctlmap :: "u8 \<Rightarrow> u8" where
  "ctlmap d =
     (if unat d < length ctl_row then ctl_row ! unat d else if d = 0x9C then 13 else if d = 0xB5 then of_char CHR ''/'' - of_char CHR ''@'' else special d)"

section \<open>Scan codes\<close>

definition charcode :: "u32 \<Rightarrow> u8 \<Rightarrow> u8" where
  "charcode i = (if i = 0 then normalmap else if i = 1 then shiftmap else ctlmap)"

definition minus_one :: u32 where "minus_one = - 1"

text \<open>\<open>shift\<close> is the static variable; the controller has the bytes \<open>input\<close>.\<close>

definition kbdgetc :: "u32 \<Rightarrow> u8 list \<Rightarrow> u32 \<times> u32 \<times> u8 list" where
  "kbdgetc shift input =
     (case input of
        [] \<Rightarrow> (minus_one, shift, [])
      | data # rest \<Rightarrow>
          if data = 0xE0 then (0, or shift E0ESC, rest)
          else if and data 0x80 \<noteq> 0 then
            (let data = (if and shift E0ESC \<noteq> 0 then data else and data 0x7F)
             in (0, and shift (not (or (ucast (shiftcode data)) E0ESC)), rest))
          else
            (let (data, shift) =
               (if and shift E0ESC \<noteq> 0 then (or data 0x80, and shift (not E0ESC)) else (data, shift));
               shift = or shift (ucast (shiftcode data));
               shift = xor shift (ucast (togglecode data));
               c = ucast (charcode (and shift (ucast (or CTL SHIFT))) data) :: u32;
               c = (if and shift (ucast CAPSLOCK) \<noteq> 0 then
                      (if 97 \<le> c \<and> c \<le> 122 then c + (65 - 97) else if 65 \<le> c \<and> c \<le> 90 then c + (97 - 65) else c)
                    else c)
             in (c, shift, rest)))"

lemma kbdgetc_rest: "data # rest = input \<Longrightarrow> snd (snd (kbdgetc shift input)) = rest"
  by (auto simp: kbdgetc_def Let_def split: prod.splits)

text \<open>\<open>consoleintr\<close> calls \<open>kbdgetc\<close> until it returns a negative number.\<close>

fun kbd_chars :: "u32 \<Rightarrow> u8 list \<Rightarrow> u32 list \<times> u32" where
  "kbd_chars shift [] = ([], shift)"
| "kbd_chars shift (d # ds) =
     (let (c, shift, _) = kbdgetc shift (d # ds); (cs, shift) = kbd_chars shift ds in (c # cs, shift))"

definition kbdintr :: "u32 \<Rightarrow> u8 list \<Rightarrow> 'z kfs_scheme \<Rightarrow> (u32, 'z kfs_scheme) res" where
  "kbdintr shift input = (let (cs, shift) = kbd_chars shift input in thenM (consoleintr cs) (retM shift))"

section \<open>A keyboard\<close>

record keys =
  k_e0 :: bool
  k_shift :: bool
  k_ctl :: bool
  k_alt :: bool
  k_caps :: bool
  k_num :: bool
  k_scroll :: bool

definition keys_of :: "u32 \<Rightarrow> keys" where
  "keys_of s = \<lparr>k_e0 = bit s 6, k_shift = bit s 0, k_ctl = bit s 1, k_alt = bit s 2, k_caps = bit s 3, k_num = bit s 4, k_scroll = bit s 5\<rparr>"

text \<open>The key of a byte: the escape selects the upper half of the table, the top bit says that the key was released.\<close>

definition key_code :: "keys \<Rightarrow> u8 \<Rightarrow> u8" where
  "key_code k d = (if k_e0 k then or d 0x80 else and d 0x7F)"

definition key_step :: "u8 \<Rightarrow> keys \<Rightarrow> keys" where
  "key_step d k =
     (let x = key_code k d; hold = (\<lambda>old keys. if bit d 7 then old \<and> x \<notin> keys else old \<or> x \<in> keys);
          flip = (\<lambda>old key. if bit d 7 then old else old \<noteq> (x = key))
      in if d = 0xE0 then k\<lparr>k_e0 := True\<rparr>
         else \<lparr>k_e0 = False, k_shift = hold (k_shift k) {0x2A, 0x36}, k_ctl = hold (k_ctl k) {0x1D, 0x9D}, k_alt = hold (k_alt k) {0x38, 0xB8},
           k_caps = flip (k_caps k) 0x3A, k_num = flip (k_num k) 0x45, k_scroll = flip (k_scroll k) 0x46\<rparr>)"

definition swap_case :: "u8 \<Rightarrow> u8" where
  "swap_case c = (if 97 \<le> c \<and> c \<le> 122 then c - 32 else if 65 \<le> c \<and> c \<le> 90 then c + 32 else c)"

definition key_char :: "u8 \<Rightarrow> keys \<Rightarrow> u8" where
  "key_char d k =
     (let x = key_code k d; k' = key_step d k; c = (if k_ctl k' then ctlmap x else if k_shift k' then shiftmap x else normalmap x)
      in if d = 0xE0 \<or> bit d 7 then 0 else if k_caps k' then swap_case c else c)"

section \<open>Bits\<close>

lemma and_bits:
  "and s E0ESC \<noteq> 0 \<longleftrightarrow> bit s 6" "and s (ucast CAPSLOCK) \<noteq> 0 \<longleftrightarrow> bit s 3" "and (d :: u8) 0x80 \<noteq> 0 \<longleftrightarrow> bit d 7"
  using and_exp_eq_0_iff_not_bit [of s 6] and_exp_eq_0_iff_not_bit [of s 3] and_exp_eq_0_iff_not_bit [of d 7]
  by (simp_all add: E0ESC_def CAPSLOCK_def)

lemma charcode_index: "charcode (and s (ucast (or CTL SHIFT))) = (if bit s 1 then ctlmap else if bit s 0 then shiftmap else normalmap)"
proof -
  have c: "ucast (or CTL SHIFT) = (mask 2 :: u32)" by (simp add: CTL_def SHIFT_def mask_eq_exp_minus_1)
  have "and s (mask 2) = (if bit s 0 then 1 else 0) + (if bit s 1 then 2 else 0)"
    by (simp add: take_bit_eq_mask [symmetric] numeral_2_eq_2 take_bit_Suc bit_Suc bit_0 mod_2_eq_odd)
  then show ?thesis by (simp add: charcode_def c)
qed

lemma one_bit:
  "bit (ucast SHIFT :: u32) n \<longleftrightarrow> n = 0" "bit (ucast CTL :: u32) n \<longleftrightarrow> n = 1" "bit (ucast ALT :: u32) n \<longleftrightarrow> n = 2"
  "bit (ucast CAPSLOCK :: u32) n \<longleftrightarrow> n = 3" "bit (ucast NUMLOCK :: u32) n \<longleftrightarrow> n = 4" "bit (ucast SCROLLLOCK :: u32) n \<longleftrightarrow> n = 5"
  "bit E0ESC n \<longleftrightarrow> n = 6"
proof -
  have p: "bit (2 ^ k :: u32) n \<longleftrightarrow> n = k" if "k < 32" for k using that by (auto simp: bit_exp_iff possible_bit_word)
  show "bit (ucast SHIFT :: u32) n \<longleftrightarrow> n = 0" using p [of 0] by (simp add: SHIFT_def)
  show "bit (ucast CTL :: u32) n \<longleftrightarrow> n = 1" using p [of 1] by (simp add: CTL_def)
  show "bit (ucast ALT :: u32) n \<longleftrightarrow> n = 2" using p [of 2] by (simp add: ALT_def)
  show "bit (ucast CAPSLOCK :: u32) n \<longleftrightarrow> n = 3" using p [of 3] by (simp add: CAPSLOCK_def)
  show "bit (ucast NUMLOCK :: u32) n \<longleftrightarrow> n = 4" using p [of 4] by (simp add: NUMLOCK_def)
  show "bit (ucast SCROLLLOCK :: u32) n \<longleftrightarrow> n = 5" using p [of 5] by (simp add: SCROLLLOCK_def)
  show "bit E0ESC n \<longleftrightarrow> n = 6" using p [of 6] by (simp add: E0ESC_def)
qed

lemma shiftcode_bits:
  "bit (ucast (shiftcode x) :: u32) 0 \<longleftrightarrow> x \<in> {0x2A, 0x36}" "bit (ucast (shiftcode x) :: u32) (Suc 0) \<longleftrightarrow> x \<in> {0x1D, 0x9D}"
  "bit (ucast (shiftcode x) :: u32) 2 \<longleftrightarrow> x \<in> {0x38, 0xB8}" "2 < n \<Longrightarrow> \<not> bit (ucast (shiftcode x) :: u32) n"
  unfolding shiftcode_def by (simp_all add: if_distrib [of ucast] if_distrib [of "\<lambda>w. bit w _"] one_bit del: One_nat_def cong: if_cong)

lemma togglecode_bits:
  "bit (ucast (togglecode x) :: u32) 3 \<longleftrightarrow> x = 0x3A" "bit (ucast (togglecode x) :: u32) 4 \<longleftrightarrow> x = 0x45"
  "bit (ucast (togglecode x) :: u32) 5 \<longleftrightarrow> x = 0x46" "n < 3 \<or> 5 < n \<Longrightarrow> \<not> bit (ucast (togglecode x) :: u32) n"
  unfolding togglecode_def by (auto simp add: if_distrib [of ucast] if_distrib [of "\<lambda>w. bit w _"] one_bit cong: if_cong)

lemmas key_bits = bit_or_iff bit_and_iff bit_xor_iff bit_not_iff shiftcode_bits togglecode_bits one_bit possible_bit_word

lemma less_ucast: "(ucast (a :: u8) :: u32) \<le> ucast (b :: u8) \<longleftrightarrow> a \<le> b"
  by (simp add: word_le_nat_alt)

lemma swap_case_ucast:
  "(if 97 \<le> (ucast c :: u32) \<and> (ucast c :: u32) \<le> 122 then ucast c + (65 - 97) else if 65 \<le> (ucast c :: u32) \<and> (ucast c :: u32) \<le> 90 then ucast c + (97 - 65) else ucast c)
     = (ucast (swap_case c) :: u32)"
proof -
  have n: "97 \<le> (ucast c :: u32) \<longleftrightarrow> 97 \<le> c" "(ucast c :: u32) \<le> 122 \<longleftrightarrow> c \<le> 122" "65 \<le> (ucast c :: u32) \<longleftrightarrow> 65 \<le> c"
    "(ucast c :: u32) \<le> 90 \<longleftrightarrow> c \<le> 90"
    by (simp_all add: word_le_nat_alt)
  have l: "ucast c + (65 - 97) = (ucast (c - 32) :: u32)" if "97 \<le> c"
  proof -
    have "32 \<le> c" using that by (simp add: word_le_nat_alt)
    then have "unat (ucast c - 32 :: u32) = unat c - 32" "unat (c - 32) = unat c - 32"
      using less_ucast [of 32 c] by (simp_all add: unat_sub)
    then have "ucast c - 32 = (ucast (c - 32) :: u32)" by (simp add: word_unat_eq_iff)
    then show ?thesis by simp
  qed
  have u: "ucast c + (97 - 65) = (ucast (c + 32) :: u32)" if "c \<le> 90"
  proof -
    have "unat (c + 32) = unat c + 32" using that by (simp add: unat_word_ariths word_le_nat_alt)
    moreover have "unat (ucast c + 32 :: u32) = unat c + 32" using unat_u8_lt [of c] by (simp add: unat_word_ariths)
    ultimately have "ucast c + 32 = (ucast (c + 32) :: u32)" by (simp add: word_unat_eq_iff)
    then show ?thesis by simp
  qed
  show ?thesis
    unfolding swap_case_def n using l u by auto
qed

section \<open>The driver is the keyboard\<close>

lemma kbdgetc_keys:
  "case kbdgetc shift (d # rest) of (c, shift', rest') \<Rightarrow>
     keys_of shift' = key_step d (keys_of shift) \<and> c = ucast (key_char d (keys_of shift)) \<and> rest' = rest"
proof -
  let ?x = "key_code (keys_of shift) d"
  have E0: "bit shift 6 = k_e0 (keys_of shift)" by (simp add: keys_of_def)
  consider (esc) "d = 0xE0" | (release) "d \<noteq> 0xE0" "bit d 7" | (press) "d \<noteq> 0xE0" "\<not> bit d 7" by blast
  then show ?thesis
  proof cases
    case esc
    then show ?thesis by (simp add: kbdgetc_def key_step_def key_char_def keys_of_def key_bits)
  next
    case release
    have "(if bit shift 6 then d else and d 0x7F) = ?x" if "\<not> bit shift 6 \<or> or d 0x80 = d"
      using that by (auto simp: key_code_def keys_of_def)
    moreover have "or d 0x80 = d"
    proof (rule bit_word_eqI)
      fix n assume "n < LENGTH(8)"
      show "bit (or d 0x80) n = bit d n" using release(2) bit_exp_iff [of "7 :: nat" n, where 'a = "8 word"] by (auto simp: bit_or_iff)
    qed
    ultimately have "(if and shift E0ESC \<noteq> 0 then d else and d 0x7F) = ?x" by (simp add: and_bits)
    then have "kbdgetc shift (d # rest) = (0, and shift (not (or (ucast (shiftcode ?x)) E0ESC)), rest)"
      using release by (simp add: kbdgetc_def and_bits)
    then show ?thesis
      using release by (simp add: key_step_def key_char_def Let_def) (auto simp: keys_of_def key_bits key_code_def)
  next
    case press
    define s1 where "s1 = (if bit shift 6 then and shift (not E0ESC) else shift)"
    define s2 where "s2 = xor (or s1 (ucast (shiftcode ?x))) (ucast (togglecode ?x))"
    have b1: "bit s1 n = (bit shift n \<and> n \<noteq> 6)" if "n < 7" for n using that by (auto simp: s1_def key_bits)
    have k: "keys_of s2 = key_step d (keys_of shift)"
      using press b1 by (simp add: key_step_def Let_def) (auto simp: keys_of_def s2_def key_bits key_code_def)
    have x: "?x = (if bit shift 6 then or d 0x80 else d)"
    proof -
      have "and d 0x7F = d"
      proof (rule bit_word_eqI)
        fix n :: nat assume n: "n < LENGTH(8)"
        have "(0x7F :: u8) = mask 7" by (simp add: mask_eq_exp_minus_1)
        then have "bit (0x7F :: u8) n = bit (mask 7 :: u8) n" by (rule arg_cong)
        then have "bit (0x7F :: u8) n \<longleftrightarrow> n < 7" using n by (simp only: bit_mask_iff) (auto simp: possible_bit_word)
        then show "bit (and d 0x7F) n = bit d n" using press(2) n by (cases "n = 7") (auto simp: bit_and_iff)
      qed
      then show ?thesis by (simp add: key_code_def keys_of_def)
    qed
    let ?c = "ucast (charcode (and s2 (ucast (or CTL SHIFT))) ?x) :: u32"
    have "kbdgetc shift (d # rest) =
        ((if and s2 (ucast CAPSLOCK) \<noteq> 0 then (if 97 \<le> ?c \<and> ?c \<le> 122 then ?c + (65 - 97) else if 65 \<le> ?c \<and> ?c \<le> 90 then ?c + (97 - 65) else ?c) else ?c),
         s2, rest)"
      using press x by (cases "bit shift 6") (simp_all add: kbdgetc_def and_bits s2_def s1_def Let_def)
    moreover have "\<dots> = (ucast (key_char d (keys_of shift)), s2, rest)"
      unfolding swap_case_ucast using press k
      by (simp add: and_bits charcode_index key_char_def Let_def k [symmetric]) (simp add: keys_of_def)
    ultimately show ?thesis using k by simp
  qed
qed

text \<open>The letters and their keys.\<close>

definition letter_keys :: "(u8 \<times> u8) list" where
  "letter_keys = zip (map of_nat ([0x10..<0x1A] @ [0x1E..<0x27] @ [0x2C..<0x33])) (chars ''qwertyuiopasdfghjklzxcvbnm'')"

definition letter_facts :: "u8 \<Rightarrow> u8 \<Rightarrow> bool" where
  "letter_facts x ch \<longleftrightarrow> x \<noteq> 0xE0 \<and> and x 0x80 = 0 \<and> and x 0x7F = x \<and> or x 0x80 \<noteq> 0xE0 \<and> and (or x 0x80) 0x80 \<noteq> 0 \<and> and (or x 0x80) 0x7F = x
     \<and> x \<notin> {0x2A, 0x36, 0x1D, 0x9D, 0x38, 0xB8, 0x3A, 0x45, 0x46}
     \<and> normalmap x = ch \<and> shiftmap x = ch - 32 \<and> ctlmap x = ch - 96 \<and> swap_case ch = ch - 32 \<and> swap_case (ch - 32) = ch
     \<and> swap_case (ch - 96) = ch - 96"

text \<open>The rows written out.\<close>

lemma rows:
  "normal_row = [0, 27, 49, 50, 51, 52, 53, 54, 55, 56, 57, 48, 45, 61, 8, 9, 113, 119, 101, 114, 116, 121, 117, 105, 111, 112, 91, 93, 10, 0, 97,
    115, 100, 102, 103, 104, 106, 107, 108, 59, 39, 96, 0, 92, 122, 120, 99, 118, 98, 110, 109, 44, 46, 47, 0, 42, 0, 32, 0, 0, 0, 0,
    0, 0, 0, 0, 0, 0, 0, 0, 0, 55, 56, 57, 45, 52, 53, 54, 43, 49, 50, 51, 48, 46]"
  "shift_row = [0, 27, 33, 64, 35, 36, 37, 94, 38, 42, 40, 41, 95, 43, 8, 9, 81, 87, 69, 82, 84, 89, 85, 73, 79, 80, 123, 125, 10, 0, 65, 83, 68,
    70, 71, 72, 74, 75, 76, 58, 34, 126, 0, 124, 90, 88, 67, 86, 66, 78, 77, 60, 62, 63, 0, 42, 0, 32, 0, 0, 0, 0, 0, 0, 0, 0, 0, 0,
    0, 0, 0, 55, 56, 57, 45, 52, 53, 54, 43, 49, 50, 51, 48, 46]"
  "ctl_row = [0, 0, 0, 0, 0, 0, 0, 0, 0, 0, 0, 0, 0, 0, 0, 0, 17, 23, 5, 18, 20, 25, 21, 9, 15, 16, 0, 0, 13, 0, 1, 19, 4, 6, 7, 8, 10, 11, 12,
    0, 0, 0, 0, 28, 26, 24, 3, 22, 2, 14, 13, 0, 0, 239, 0, 0]"
  by code_simp+

lemma letter_keys_eq: "letter_keys =
   [(16, 113), (17, 119), (18, 101), (19, 114), (20, 116), (21, 121), (22, 117), (23, 105), (24, 111), (25, 112), (30, 97), (31, 115), (32, 100),
    (33, 102), (34, 103), (35, 104), (36, 106), (37, 107), (38, 108), (44, 122), (45, 120), (46, 99), (47, 118), (48, 98), (49, 110), (50, 109)]"
  by (simp add: letter_keys_def chars_def upt_rec)

lemma letters: "list_all (\<lambda>(x, ch). letter_facts x ch) letter_keys"
proof -
  have "list_all (\<lambda>(x, ch). normalmap x = ch) letter_keys" "list_all (\<lambda>(x, ch). shiftmap x = ch - 32) letter_keys"
    "list_all (\<lambda>(x, ch). ctlmap x = ch - 96) letter_keys"
    by (simp_all add: letter_keys_eq normalmap_def shiftmap_def ctlmap_def rows)
  moreover have "list_all (\<lambda>(x, ch). swap_case ch = ch - 32 \<and> swap_case (ch - 32) = ch \<and> swap_case (ch - 96) = ch - 96) letter_keys"
    by code_simp
  moreover have
    "list_all (\<lambda>(x, ch). x \<noteq> 0xE0 \<and> and x 0x80 = 0 \<and> and x 0x7F = x \<and> or x 0x80 \<noteq> 0xE0 \<and> and (or x 0x80) 0x80 \<noteq> 0
       \<and> and (or x 0x80) 0x7F = x) letter_keys"
    "list_all (\<lambda>(x, ch). x \<notin> {0x2A, 0x36, 0x1D, 0x9D, 0x38, 0xB8, 0x3A, 0x45, 0x46}) letter_keys"
    by (simp_all add: letter_keys_eq)
  ultimately show ?thesis by (auto simp: list_all_iff letter_facts_def)
qed

definition letter_char :: "u8 \<Rightarrow> keys \<Rightarrow> u8" where
  "letter_char ch k = (if k_ctl k then ch - 96 else if k_shift k \<noteq> k_caps k then ch - 32 else ch)"

text \<open>
  The letters. With no escape pending, the key of a letter gives the control character when Control is held, and otherwise the letter,
  in upper case when exactly one of Shift and Caps Lock is on; pressing and releasing it leaves the keyboard as it was.
\<close>
theorem letters_typed:
  assumes "(x, ch) \<in> set letter_keys" and "\<not> k_e0 (keys_of shift)"
  shows "fst (kbd_chars shift [x, or x 0x80]) = [ucast (letter_char ch (keys_of shift)), 0]
       \<and> keys_of (snd (kbd_chars shift [x, or x 0x80])) = keys_of shift"
proof -
  have f: "letter_facts x ch" using letters assms(1) by (auto simp: list_all_iff)
  have b: "\<not> bit x 7" "bit (or x 0x80) 7" using f and_bits(3) [of x] and_bits(3) [of "or x 0x80"] by (simp_all add: letter_facts_def)
  obtain c s1 r1 where g1: "kbdgetc shift [x, or x 0x80] = (c, s1, r1)" by (cases "kbdgetc shift [x, or x 0x80]") auto
  obtain c' s2 r2 where g2: "kbdgetc s1 [or x 0x80] = (c', s2, r2)" by (cases "kbdgetc s1 [or x 0x80]") auto
  have step: "key_step x k = k" "key_step (or x 0x80) k = k" if "\<not> k_e0 k" for k
    using f b that by (auto simp: letter_facts_def key_step_def key_code_def Let_def)
  have k1: "keys_of s1 = keys_of shift" "c = ucast (key_char x (keys_of shift))"
    using kbdgetc_keys [where shift = shift and d = x and rest = "[or x 0x80]"] g1 step assms(2) by auto
  have k2: "keys_of s2 = keys_of shift" "c' = ucast (key_char (or x 0x80) (keys_of s1))"
    using kbdgetc_keys [where shift = s1 and d = "or x 0x80" and rest = "[]"] g2 step assms(2) k1(1) by auto
  have "key_char x (keys_of shift) = letter_char ch (keys_of shift)"
    using f b step assms(2) by (auto simp: key_char_def letter_char_def key_code_def letter_facts_def Let_def)
  moreover have "key_char (or x 0x80) (keys_of s1) = 0" using b by (simp add: key_char_def Let_def)
  moreover have "kbd_chars shift [x, or x 0x80] = ([c, c'], s2)" using g1 g2 by simp
  ultimately show "fst (kbd_chars shift [x, or x 0x80]) = [ucast (letter_char ch (keys_of shift)), 0]
       \<and> keys_of (snd (kbd_chars shift [x, or x 0x80])) = keys_of shift"
    using k1 k2 by auto
qed

text \<open>The key of q with Shift held, and that of a with Caps Lock on.\<close>

lemma letters_typed_witness:
  "fst (kbd_chars 1 [0x10, 0x90]) = [81, 0] \<and> keys_of (snd (kbd_chars 8 [0x1E, 0x9E])) = keys_of 8"
proof -
  have k: "(0x10, 113) \<in> set letter_keys" "(0x1E, 97) \<in> set letter_keys" by code_simp+
  have e: "\<not> k_e0 (keys_of 1)" "\<not> k_e0 (keys_of 8)" "letter_char 113 (keys_of 1) = 81" by code_simp+
  have o: "or 0x10 0x80 = (0x90 :: u8)" "or 0x1E 0x80 = (0x9E :: u8)" by simp_all
  show ?thesis using letters_typed [OF k(1) e(1)] letters_typed [OF k(2) e(2)] e(3) o by simp
qed

section \<open>The serial port\<close>

text \<open>
  \<open>uart.c\<close>: \<open>uart\<close> says whether there is a port, \<open>status i\<close> is what the status port reads the \<open>i\<close>-th time. \<open>uartputc\<close> gives the
  number of delays of ten microseconds and what is put out.
\<close>

definition COM1 :: u16 where "COM1 = 0x3f8"

fun uart_delays :: "(nat \<Rightarrow> u8) \<Rightarrow> nat \<Rightarrow> nat \<Rightarrow> nat" where
  "uart_delays status i 0 = i"
| "uart_delays status i (Suc n) = (if and (status i) 0x20 \<noteq> 0 then i else uart_delays status (i + 1) n)"

definition uartputc :: "bool \<Rightarrow> (nat \<Rightarrow> u8) \<Rightarrow> u32 \<Rightarrow> nat \<times> (u16 \<times> u8) list" where
  "uartputc uart status c = (if \<not> uart then (0, []) else (uart_delays status 0 128, [(COM1, ucast c)]))"

definition uartgetc :: "bool \<Rightarrow> u8 list \<Rightarrow> u32 \<times> u8 list" where
  "uartgetc uart input =
     (if \<not> uart then (minus_one, input) else case input of [] \<Rightarrow> (minus_one, []) | c # rest \<Rightarrow> (ucast c, rest))"

fun uart_chars :: "bool \<Rightarrow> u8 list \<Rightarrow> u32 list" where
  "uart_chars uart [] = []"
| "uart_chars uart (d # ds) = (let (c, rest) = uartgetc uart (d # ds) in if c = minus_one then [] else c # uart_chars uart ds)"

definition uartintr :: "bool \<Rightarrow> u8 list \<Rightarrow> 'z kfs_scheme \<Rightarrow> (unit, 'z kfs_scheme) res" where
  "uartintr uart input = consoleintr (uart_chars uart input)"

lemma uart_delays_bound: "uart_delays status i n \<le> i + n"
proof (induction n arbitrary: i)
  case (Suc n)
  show ?case using Suc [of "i + 1"] by auto
qed simp

text \<open>A character is put out after at most 128 delays, ready or not, and the bytes received reach the console unchanged.\<close>

lemma uartputc_sends: "uartputc True status c = (n, outs) \<Longrightarrow> n \<le> 128 \<and> outs = [(COM1, ucast c)]"
  using uart_delays_bound [of status 0 128] by (auto simp: uartputc_def)

lemma uart_chars_map: "uart_chars True input = map ucast input"
proof -
  have minus: "unat minus_one = 4294967295" by (simp add: minus_one_def unsigned_minus_1_eq_mask mask_eq_exp_minus_1)
  have "(ucast c :: u32) \<noteq> minus_one" for c :: u8
  proof
    assume "(ucast c :: u32) = minus_one"
    then have "unat (ucast c :: u32) = unat (minus_one :: u32)" by simp
    then show False using unat_u8_lt [of c] by (simp add: minus)
  qed
  then show ?thesis by (induction input) (simp_all add: uartgetc_def)
qed

end
