(* ===== verification/Devices.thy ===== *)
theory Devices
  imports Boot Kbd
begin

text \<open>
  What the processor and the interrupt controllers are told: descriptors of segments and gates (\<open>mmu.h\<close>, \<open>seginit\<close> of \<open>vm.c\<close>, \<open>tvinit\<close> of
  \<open>trap.c\<close>), the local and the I/O interrupt controllers (\<open>lapic.c\<close>, \<open>ioapic.c\<close>, \<open>picirq.c\<close>), the clock behind \<open>cmostime\<close>, and \<open>uartinit\<close>. The
  lemmas read the descriptors and the registers back.
\<close>

section \<open>Segments\<close>

record segdesc =
  lim_15_0 :: u16  base_15_0 :: u16  base_23_16 :: u8  sd_type :: "4 word"  sd_s :: "1 word"  sd_dpl :: "2 word"  sd_p :: "1 word"
  lim_19_16 :: "4 word"  sd_avl :: "1 word"  sd_rsv1 :: "1 word"  sd_db :: "1 word"  sd_g :: "1 word"  base_31_24 :: u8

definition SEG :: "4 word \<Rightarrow> u32 \<Rightarrow> u32 \<Rightarrow> 2 word \<Rightarrow> segdesc" where
  "SEG type base lim dpl =
     \<lparr>lim_15_0 = ucast (and (drop_bit 12 lim) 0xFFFF), base_15_0 = ucast (and base 0xFFFF), base_23_16 = ucast (and (drop_bit 16 base) 0xFF),
      sd_type = type, sd_s = 1, sd_dpl = dpl, sd_p = 1, lim_19_16 = ucast (drop_bit 28 lim), sd_avl = 0, sd_rsv1 = 0, sd_db = 1, sd_g = 1,
      base_31_24 = ucast (drop_bit 24 base)\<rparr>"

definition seginit :: "(nat \<Rightarrow> segdesc) \<Rightarrow> nat \<Rightarrow> segdesc" where
  "seginit gdt = gdt(1 := SEG 0xA 0 0xFFFFFFFF 0, 2 := SEG 0x2 0 0xFFFFFFFF 0, 3 := SEG 0xA 0 0xFFFFFFFF 3, 4 := SEG 0x2 0 0xFFFFFFFF 3)"

text \<open>What the processor makes of a descriptor: its base, and its last byte when the limit counts pages.\<close>

definition seg_base :: "segdesc \<Rightarrow> u32" where
  "seg_base d = or (ucast (base_15_0 d)) (or (push_bit 16 (ucast (base_23_16 d))) (push_bit 24 (ucast (base_31_24 d))))"

definition seg_last :: "segdesc \<Rightarrow> u32" where
  "seg_last d = or (push_bit 12 (or (ucast (lim_15_0 d)) (push_bit 16 (ucast (lim_19_16 d))))) 0xFFF"

lemma and_masks: "and a 0xFFFF = take_bit 16 (a :: u32)" "and a 0xFF = take_bit 8 (a :: u32)" "(0xFFF :: u32) = mask 12"
  by (simp_all add: take_bit_eq_mask mask_eq_exp_minus_1)

lemma SEG_base: "seg_base (SEG type base lim dpl) = base"
proof (rule bit_word_eqI)
  fix n assume "n < LENGTH(32)"
  then show "bit (seg_base (SEG type base lim dpl)) n = bit base n"
    unfolding seg_base_def SEG_def and_masks by (cases "24 \<le> n") (auto simp: bit_simps)
qed

lemma SEG_last: "seg_last (SEG type base lim dpl) = or lim 0xFFF"
  unfolding seg_last_def SEG_def and_masks by (rule bit_word_eqI) (auto simp: bit_simps)

text \<open>All four segments are flat; those of user programs have the user's privilege.\<close>

theorem seginit_flat:
  "\<forall>i\<in>{1..4}. seg_base (seginit gdt i) = 0 \<and> seg_last (seginit gdt i) = 0xFFFFFFFF \<and> sd_p (seginit gdt i) = 1
    \<and> sd_dpl (seginit gdt i) = (if i \<le> 2 then 0 else 3)"
proof -
  have "{1..4 :: nat} = {1, 2, 3, 4}" by auto
  then show ?thesis by (simp add: seginit_def SEG_base SEG_last) (simp add: SEG_def)
qed

section \<open>Gates\<close>

record gatedesc =
  off_15_0 :: u16  gd_cs :: u16  gd_args :: "5 word"  gd_rsv1 :: "3 word"  gd_type :: "4 word"  gd_s :: "1 word"  gd_dpl :: "2 word"
  gd_p :: "1 word"  off_31_16 :: u16

definition SETGATE :: "bool \<Rightarrow> u16 \<Rightarrow> u32 \<Rightarrow> 2 word \<Rightarrow> gatedesc" where
  "SETGATE istrap sel off d =
     \<lparr>off_15_0 = ucast (and off 0xFFFF), gd_cs = sel, gd_args = 0, gd_rsv1 = 0, gd_type = (if istrap then 0xF else 0xE), gd_s = 0, gd_dpl = d,
      gd_p = 1, off_31_16 = ucast (drop_bit 16 off)\<rparr>"

fun tvinit_loop :: "(nat \<Rightarrow> u32) \<Rightarrow> nat \<Rightarrow> nat \<Rightarrow> gatedesc list \<Rightarrow> gatedesc list" where
  "tvinit_loop vectors i 0 idt = idt"
| "tvinit_loop vectors i (Suc n) idt = tvinit_loop vectors (i + 1) n (idt[i := SETGATE False (push_bit 3 1) (vectors i) 0])"

definition tvinit :: "(nat \<Rightarrow> u32) \<Rightarrow> gatedesc list \<Rightarrow> gatedesc list" where
  "tvinit vectors idt = (tvinit_loop vectors 0 256 idt)[64 := SETGATE True (push_bit 3 1) (vectors 64) 3]"

text \<open>The operand of \<open>lgdt\<close> and of \<open>lidt\<close>.\<close>

definition table_operand :: "u32 \<Rightarrow> u32 \<Rightarrow> u16 list" where
  "table_operand p sz = [ucast (sz - 1), ucast p, ucast (drop_bit 16 p)]"

definition gate_off :: "gatedesc \<Rightarrow> u32" where
  "gate_off g = or (ucast (off_15_0 g)) (push_bit 16 (ucast (off_31_16 g)))"

lemma SETGATE_off: "gate_off (SETGATE t sel off d) = off"
  unfolding gate_off_def SETGATE_def and_masks by (rule bit_word_eqI) (auto simp: bit_simps)

lemma tvinit_loop_nth:
  "length (tvinit_loop vectors i n idt) = length idt"
  "k < length idt \<Longrightarrow> tvinit_loop vectors i n idt ! k = (if i \<le> k \<and> k < i + n then SETGATE False (push_bit 3 1) (vectors k) 0 else idt ! k)"
  by (induction n arbitrary: i idt) (auto simp: nth_list_update, metis le_antisym not_less_eq_eq)

text \<open>
  Every vector has a gate to its own entry point in the kernel's code. A user program can enter one of them by an instruction, that of system
  calls; the others have the kernel's privilege. The gate for system calls leaves interrupts on, the others switch them off.
\<close>

theorem tvinit_gates:
  assumes "length idt = 256" and "i < 256"
  shows "gate_off (tvinit vectors idt ! i) = vectors i \<and> gd_cs (tvinit vectors idt ! i) = 8 \<and> gd_p (tvinit vectors idt ! i) = 1
    \<and> (gd_dpl (tvinit vectors idt ! i) = 3 \<longleftrightarrow> i = 64) \<and> (gd_type (tvinit vectors idt ! i) = 0xF \<longleftrightarrow> i = 64)"
  using assms SETGATE_off by (auto simp: tvinit_def tvinit_loop_nth nth_list_update) (auto simp: SETGATE_def push_bit_eq_mult)

lemma tvinit_gates_witness:
  "gate_off (tvinit of_nat (replicate 256 (SETGATE False 0 0 0)) ! 64) = 64 \<and> gd_dpl (tvinit of_nat (replicate 256 (SETGATE False 0 0 0)) ! 14) \<noteq> 3"
  using tvinit_gates [of "replicate 256 (SETGATE False 0 0 0)" 64 of_nat] tvinit_gates [of "replicate 256 (SETGATE False 0 0 0)" 14 of_nat] by simp

section \<open>The local interrupt controller\<close>

text \<open>\<open>lapic\<close> is 0 when there is none. Registers are named by their index in an array of words.\<close>

definition lapicw :: "ports \<Rightarrow> u32 \<Rightarrow> u32 \<Rightarrow> u32 \<Rightarrow> mach \<Rightarrow> (unit, mach) res" where
  "lapicw dv lapic index value = thenM (reg_write (lapic + 4 * index) value) (bindM (reg_read dv (lapic + 4 * 0x08)) (\<lambda>_. retM ()))"

fun icr_wait :: "ports \<Rightarrow> u32 \<Rightarrow> nat \<Rightarrow> mach \<Rightarrow> (unit, mach) res" where
  "icr_wait dv lapic 0 = Spins"
| "icr_wait dv lapic (Suc turns) = bindM (reg_read dv (lapic + 4 * 0xC0)) (\<lambda>v. if and v 0x1000 \<noteq> 0 then icr_wait dv lapic turns else retM ())"

definition lapicinit :: "ports \<Rightarrow> nat \<Rightarrow> u32 \<Rightarrow> mach \<Rightarrow> (unit, mach) res" where
  "lapicinit dv turns lapic =
     (if lapic = 0 then retM ()
      else
        thenM (lapicw dv lapic 0x3C (or 0x100 (32 + 31)))
        (thenM (lapicw dv lapic 0xF8 0xB)
        (thenM (lapicw dv lapic 0xC8 (or 0x20000 (32 + 0)))
        (thenM (lapicw dv lapic 0xE0 10000000)
        (thenM (lapicw dv lapic 0xD4 0x10000)
        (thenM (lapicw dv lapic 0xD8 0x10000)
        (bindM (reg_read dv (lapic + 4 * 0x0C)) (\<lambda>v.
        thenM (whenM (and (drop_bit 16 v) 0xFF \<ge> 4) (lapicw dv lapic 0xD0 0x10000))
        (thenM (lapicw dv lapic 0xDC (32 + 19))
        (thenM (lapicw dv lapic 0xA0 0)
        (thenM (lapicw dv lapic 0xA0 0)
        (thenM (lapicw dv lapic 0x2C 0)
        (thenM (lapicw dv lapic 0xC4 0)
        (thenM (lapicw dv lapic 0xC0 (or 0x80000 (or 0x500 0x8000)))
        (thenM (icr_wait dv lapic turns)
          (lapicw dv lapic 0x20 0))))))))))))))))"

definition lapicid :: "ports \<Rightarrow> u32 \<Rightarrow> mach \<Rightarrow> (u32, mach) res" where
  "lapicid dv lapic = (if lapic = 0 then retM 0 else bindM (reg_read dv (lapic + 4 * 0x08)) (\<lambda>v. retM (drop_bit 24 v)))"

definition lapiceoi :: "ports \<Rightarrow> u32 \<Rightarrow> mach \<Rightarrow> (unit, mach) res" where
  "lapiceoi dv lapic = whenM (lapic \<noteq> 0) (lapicw dv lapic 0x2C 0)"

definition store16 :: "u32 \<Rightarrow> u16 \<Rightarrow> mem \<Rightarrow> mem" where
  "store16 a w m = m(a := ucast w, a + 1 := ucast (drop_bit 8 w))"

definition send_ipi :: "ports \<Rightarrow> u32 \<Rightarrow> u8 \<Rightarrow> u32 \<Rightarrow> mach \<Rightarrow> (unit, mach) res" where
  "send_ipi dv lapic apicid v = thenM (lapicw dv lapic 0xC4 (push_bit 24 (ucast apicid))) (lapicw dv lapic 0xC0 v)"

definition lapicstartap :: "ports \<Rightarrow> u32 \<Rightarrow> u8 \<Rightarrow> u32 \<Rightarrow> mach \<Rightarrow> (unit, mach) res" where
  "lapicstartap dv lapic apicid addr =
     (let wrv = P2V (or (push_bit 4 0x40) 0x67) in
      thenM (port_out 0x70 0xF)
      (thenM (port_out 0x71 0x0A)
      (thenM (modM (\<lambda>s. s\<lparr>b_mem := store16 (wrv + 2) (ucast (drop_bit 4 addr)) (store16 wrv 0 (b_mem s))\<rparr>))
      (thenM (send_ipi dv lapic apicid (or 0x500 (or 0x8000 0x4000)))
      (thenM (lapicw dv lapic 0xC0 (or 0x500 0x8000))
      (thenM (send_ipi dv lapic apicid (or 0x600 (drop_bit 12 addr)))
        (send_ipi dv lapic apicid (or 0x600 (drop_bit 12 addr)))))))))"

text \<open>What a register was last given, if anything.\<close>

fun reg_now :: "u32 \<Rightarrow> devio list \<Rightarrow> u32 option" where
  "reg_now a [] = None"
| "reg_now a (e # h) = (case reg_now a h of Some v \<Rightarrow> Some v | None \<Rightarrow> (case e of Reg_W b v \<Rightarrow> if a = b then Some v else None | _ \<Rightarrow> None))"

lemma reg_now_append: "reg_now a (h @ g) = (case reg_now a g of Some v \<Rightarrow> Some v | None \<Rightarrow> reg_now a h)"
  by (induction h) (auto split: option.splits)

lemma lapicw_run [simp]: "lapicw dv l i v s = Ok () (s\<lparr>b_io := b_io s @ [Reg_W (l + 4 * i) v, Reg_R (l + 0x20)]\<rparr>)"
  by (simp add: lapicw_def thenM_run bindM_run)

text \<open>
  A controller whose delivery bit is clear: \<open>lapicinit\<close> leaves the timer periodic on vector 32, errors on 51, spurious interrupts on 63 with
  the unit enabled, the two lines of the old controller masked, and lets every priority through.
\<close>

theorem lapicinit_sets:
  assumes "lapic \<noteq> 0" and "\<And>h. and (in_reg dv h (lapic + 0x300)) 0x1000 = 0"
  shows "\<exists>g. lapicinit dv (Suc turns) lapic s = Ok () (s\<lparr>b_io := b_io s @ g\<rparr>)
    \<and> reg_now (lapic + 0xF0) g = Some 0x13F \<and> reg_now (lapic + 0x320) g = Some 0x20020 \<and> reg_now (lapic + 0x380) g = Some 10000000
    \<and> reg_now (lapic + 0x350) g = Some 0x10000 \<and> reg_now (lapic + 0x360) g = Some 0x10000 \<and> reg_now (lapic + 0x370) g = Some 51
    \<and> reg_now (lapic + 0x80) g = Some 0"
  using assms by (simp add: lapicinit_def thenM_run bindM_run whenM_def) (auto simp: reg_now_append)

text \<open>The other processor is sent INIT, the end of it and STARTUP twice, with the page of \<open>addr\<close>; the vector at 40:67 has its segment.\<close>

theorem lapicstartap_sends:
  "\<exists>g m. lapicstartap dv lapic apicid addr s = Ok () (s\<lparr>b_mem := m, b_io := b_io s @ g\<rparr>)
    \<and> [v. Reg_W a v \<leftarrow> g, a = lapic + 0x300] = [0xC500, 0x8500, or 0x600 (drop_bit 12 addr), or 0x600 (drop_bit 12 addr)]
    \<and> reg_now (lapic + 0x310) g = Some (push_bit 24 (ucast apicid))
    \<and> m 0x80000467 = 0 \<and> m 0x80000468 = 0 \<and> m 0x80000469 = ucast (drop_bit 4 addr) \<and> m 0x8000046A = ucast (drop_bit 12 addr)
    \<and> (\<forall>x. x \<notin> {0x80000467, 0x80000468, 0x80000469, 0x8000046A} \<longrightarrow> m x = b_mem s x)"
proof -
  have "ucast (drop_bit 8 (ucast (drop_bit 4 addr) :: u16)) = (ucast (drop_bit 12 addr) :: u8)"
    by (rule bit_word_eqI) (auto simp: bit_simps)
  moreover have "ucast (ucast (drop_bit 4 addr) :: u16) = (ucast (drop_bit 4 addr) :: u8)" by (rule bit_word_eqI) (auto simp: bit_simps)
  ultimately show ?thesis
    by (simp add: lapicstartap_def send_ipi_def thenM_run Let_def P2V_def KERNBASE_def store16_def) (intro exI conjI, rule refl, auto simp: reg_now_append)
qed

section \<open>The I/O interrupt controller and the old one\<close>

definition ioapicread :: "ports \<Rightarrow> u32 \<Rightarrow> mach \<Rightarrow> (u32, mach) res" where
  "ioapicread dv r = thenM (reg_write 0xFEC00000 r) (reg_read dv (0xFEC00000 + 16))"

definition ioapicwrite :: "u32 \<Rightarrow> u32 \<Rightarrow> mach \<Rightarrow> (unit, mach) res" where
  "ioapicwrite r data = thenM (reg_write 0xFEC00000 r) (reg_write (0xFEC00000 + 16) data)"

fun ioapic_mask :: "nat \<Rightarrow> u32 \<Rightarrow> mach \<Rightarrow> (unit, mach) res" where
  "ioapic_mask 0 i = retM ()"
| "ioapic_mask (Suc n) i =
     thenM (ioapicwrite (0x10 + 2 * i) (or 0x10000 (32 + i)))
     (thenM (ioapicwrite (0x10 + 2 * i + 1) 0)
       (ioapic_mask n (i + 1)))"

definition ioapicinit :: "ports \<Rightarrow> u8 \<Rightarrow> mach \<Rightarrow> (unit, mach) res" where
  "ioapicinit dv ioapicid =
     bindM (ioapicread dv 1) (\<lambda>v. let maxintr = and (drop_bit 16 v) 0xFF in
     bindM (ioapicread dv 0) (\<lambda>w. let id = drop_bit 24 w in
     thenM (whenM (id \<noteq> ucast ioapicid) (modM (\<lambda>s. s\<lparr>b_io := b_io s @ [Say (''ioapicinit: id isn'' @ [CHR 0x27] @ ''t equal to ioapicid; not a MP'' @ [CHR 0x0A])]\<rparr>)))
       (ioapic_mask (unat maxintr + 1) 0)))"

definition ioapicenable :: "u32 \<Rightarrow> u32 \<Rightarrow> mach \<Rightarrow> (unit, mach) res" where
  "ioapicenable irq cpunum =
     thenM (ioapicwrite (0x10 + 2 * irq) (32 + irq))
       (ioapicwrite (0x10 + 2 * irq + 1) (push_bit 24 cpunum))"

definition picinit :: "mach \<Rightarrow> (unit, mach) res" where
  "picinit = thenM (port_out (0x20 + 1) 0xFF) (port_out (0xA0 + 1) 0xFF)"

text \<open>The registers behind the two that are mapped: a write to the first selects, one to the second stores.\<close>

definition ioapic_step :: "u32 \<times> (u32 \<Rightarrow> u32) \<Rightarrow> devio \<Rightarrow> u32 \<times> (u32 \<Rightarrow> u32)" where
  "ioapic_step c e = (case e of
     Reg_W a v \<Rightarrow> if a = 0xFEC00000 then (v, snd c) else if a = 0xFEC00010 then (fst c, (snd c)(fst c := v)) else c
   | _ \<Rightarrow> c)"

definition ioapic_regs :: "devio list \<Rightarrow> u32 \<times> (u32 \<Rightarrow> u32) \<Rightarrow> u32 \<times> (u32 \<Rightarrow> u32)" where
  "ioapic_regs h c = foldl ioapic_step c h"

lemma ioapic_regs_simps [simp]:
  "ioapic_regs [] c = c" "ioapic_regs (Reg_W a v # h) c = ioapic_regs h (ioapic_step c (Reg_W a v))" "ioapic_regs (Reg_R a # h) c = ioapic_regs h c"
  "ioapic_regs (Say t # h) c = ioapic_regs h c" "ioapic_regs (Out p b # h) c = ioapic_regs h c" "ioapic_regs (In p b # h) c = ioapic_regs h c" "ioapic_regs (h @ g) c = ioapic_regs g (ioapic_regs h c)"
  "ioapic_step c (Reg_W 0xFEC00000 v) = (v, snd c)" "ioapic_step c (Reg_W 0xFEC00010 v) = (fst c, (snd c)(fst c := v))"
  by (simp_all add: ioapic_regs_def ioapic_step_def)

lemma ioapicwrite_run [simp]: "ioapicwrite r v s = Ok () (s\<lparr>b_io := b_io s @ [Reg_W 0xFEC00000 r, Reg_W 0xFEC00010 v]\<rparr>)"
  by (simp add: ioapicwrite_def thenM_run)

lemma table_index: "j \<le> 256 \<Longrightarrow> unat (0x10 + 2 * of_nat j :: u32) = 16 + 2 * j" "j \<le> 256 \<Longrightarrow> unat (0x11 + 2 * of_nat j :: u32) = 17 + 2 * j"
proof -
  have "0x10 + 2 * of_nat j = (of_nat (16 + 2 * j) :: u32)" "0x11 + 2 * of_nat j = (of_nat (17 + 2 * j) :: u32)" by simp_all
  then show "j \<le> 256 \<Longrightarrow> unat (0x10 + 2 * of_nat j :: u32) = 16 + 2 * j" "j \<le> 256 \<Longrightarrow> unat (0x11 + 2 * of_nat j :: u32) = 17 + 2 * j"
    by (simp_all only: unat_of_nat) simp_all
qed

lemma ioapic_mask_run:
  "k + n \<le> 256 \<Longrightarrow> \<exists>h. ioapic_mask n (of_nat k) s = Ok () (s\<lparr>b_io := b_io s @ h\<rparr>)
    \<and> (\<forall>c. (\<forall>q. unat q < 16 + 2 * k \<or> 16 + 2 * (k + n) \<le> unat q \<longrightarrow> snd (ioapic_regs h c) q = snd c q)
      \<and> (\<forall>j. k \<le> j \<and> j < k + n \<longrightarrow> snd (ioapic_regs h c) (0x10 + 2 * of_nat j) = or 0x10000 (32 + of_nat j)
        \<and> snd (ioapic_regs h c) (0x11 + 2 * of_nat j) = 0))"
proof (induction n arbitrary: k s)
  case 0
  show ?case by (intro exI [of _ "[]"]) auto
next
  case (Suc n)
  let ?w = "[Reg_W 0xFEC00000 (0x10 + 2 * of_nat k), Reg_W 0xFEC00010 (or 0x10000 (32 + of_nat k)),
    Reg_W 0xFEC00000 (0x11 + 2 * of_nat k), Reg_W 0xFEC00010 0]"
  have "Suc k + n \<le> 256" using Suc.prems by simp
  from Suc.IH [OF this, of "s\<lparr>b_io := b_io s @ ?w\<rparr>"]
  obtain h where h: "ioapic_mask n (of_nat (Suc k)) (s\<lparr>b_io := b_io s @ ?w\<rparr>) = Ok () (s\<lparr>b_io := b_io s @ ?w, b_io := b_io (s\<lparr>b_io := b_io s @ ?w\<rparr>) @ h\<rparr>)"
    and H: "\<forall>c. (\<forall>q. unat q < 16 + 2 * Suc k \<or> 16 + 2 * (Suc k + n) \<le> unat q \<longrightarrow> snd (ioapic_regs h c) q = snd c q)
      \<and> (\<forall>j. Suc k \<le> j \<and> j < Suc k + n \<longrightarrow> snd (ioapic_regs h c) (0x10 + 2 * of_nat j) = or 0x10000 (32 + of_nat j)
        \<and> snd (ioapic_regs h c) (0x11 + 2 * of_nat j) = 0)"
    by (elim exE conjE)
  have low: "unat q < 16 + 2 * Suc k \<or> 16 + 2 * (Suc k + n) \<le> unat q \<Longrightarrow> snd (ioapic_regs h c) q = snd c q" for c q
    using H by blast
  have tab: "Suc k \<le> j \<Longrightarrow> j < Suc k + n \<Longrightarrow> snd (ioapic_regs h c) (0x10 + 2 * of_nat j) = or 0x10000 (32 + of_nat j)
        \<and> snd (ioapic_regs h c) (0x11 + 2 * of_nat j) = 0" for c j
    using H by blast
  have k: "unat (0x10 + 2 * of_nat k :: u32) = 16 + 2 * k" "unat (0x11 + 2 * of_nat k :: u32) = 17 + 2 * k"
    using Suc.prems by (simp_all add: table_index)
  then have ne: "(0x10 + 2 * of_nat k :: u32) \<noteq> 0x11 + 2 * of_nat k" by auto
  have "ioapic_mask (Suc n) (of_nat k) s = Ok () (s\<lparr>b_io := b_io s @ ?w @ h\<rparr>)" using h by (simp add: thenM_run ac_simps)
  moreover have "snd (ioapic_regs (?w @ h) c) q = snd c q" if "unat q < 16 + 2 * k \<or> 16 + 2 * (k + Suc n) \<le> unat q" for c q
    using that low [of q] k by auto
  moreover have "snd (ioapic_regs (?w @ h) c) (0x10 + 2 * of_nat j) = or 0x10000 (32 + of_nat j)
        \<and> snd (ioapic_regs (?w @ h) c) (0x11 + 2 * of_nat j) = 0" if "k \<le> j" "j < k + Suc n" for c j
    using that tab [of j] low k ne by (cases "j = k") auto
  ultimately show ?case by blast
qed

text \<open>
  After \<open>ioapicinit\<close> every line is masked and goes to no processor; \<open>ioapicenable\<close> lets one line through, to one processor, and leaves
  the others as they are.
\<close>

theorem ioapicinit_masks:
  assumes "n = unat (and (drop_bit 16 (in_reg dv (b_io s @ [Reg_W 0xFEC00000 1]) 0xFEC00010)) 0xFF)"
  shows "\<exists>h. ioapicinit dv ioapicid s = Ok () (s\<lparr>b_io := b_io s @ h\<rparr>)
    \<and> (\<forall>c. \<forall>j\<le>n. snd (ioapic_regs h c) (0x10 + 2 * of_nat j) = or 0x10000 (32 + of_nat j) \<and> snd (ioapic_regs h c) (0x11 + 2 * of_nat j) = 0)"
proof -
  have n: "n < 256" unfolding assms and_masks by (simp add: take_bit_eq_mod unat_mod)
  let ?v = "in_reg dv (b_io s @ [Reg_W 0xFEC00000 1]) 0xFEC00010"
  let ?g = "[Reg_W 0xFEC00000 1, Reg_R 0xFEC00010, Reg_W 0xFEC00000 0, Reg_R 0xFEC00010]"
  let ?w = "in_reg dv (b_io s @ [Reg_W 0xFEC00000 1, Reg_R 0xFEC00010, Reg_W 0xFEC00000 0]) 0xFEC00010"
  define say where "say = (if drop_bit 24 ?w \<noteq> ucast ioapicid
    then [Say (''ioapicinit: id isn'' @ [CHR 0x27] @ ''t equal to ioapicid; not a MP'' @ [CHR 0x0A])] else [])"
  obtain h where h: "ioapic_mask (n + 1) (of_nat 0) (s\<lparr>b_io := b_io s @ ?g @ say\<rparr>) = Ok () (s\<lparr>b_io := b_io s @ (?g @ say) @ h\<rparr>)"
    and tab: "\<And>c j. j < n + 1 \<Longrightarrow> snd (ioapic_regs h c) (0x10 + 2 * of_nat j) = or 0x10000 (32 + of_nat j) \<and> snd (ioapic_regs h c) (0x11 + 2 * of_nat j) = 0"
    using ioapic_mask_run [of 0 "n + 1" "s\<lparr>b_io := b_io s @ ?g @ say\<rparr>"] n by auto
  have "ioapicinit dv ioapicid s = ioapic_mask (n + 1) 0 (s\<lparr>b_io := b_io s @ ?g @ say\<rparr>)"
    by (auto simp: ioapicinit_def ioapicread_def thenM_run bindM_run whenM_def Let_def say_def assms)
  then have "ioapicinit dv ioapicid s = Ok () (s\<lparr>b_io := b_io s @ (?g @ say) @ h\<rparr>)" using h by simp
  then show ?thesis using tab by (intro exI [of _ "(?g @ say) @ h"]) simp
qed

lemma ioapicenable_routes:
  "\<exists>h. ioapicenable irq cpunum s = Ok () (s\<lparr>b_io := b_io s @ h\<rparr>) \<and> snd (ioapic_regs h c) =
    (snd c)(0x10 + 2 * irq := 32 + irq, 0x11 + 2 * irq := push_bit 24 cpunum)"
  by (simp add: ioapicenable_def thenM_run) (intro exI conjI, rule refl, simp)

section \<open>The clock\<close>

record rtcdate = rt_second :: u32 rt_minute :: u32 rt_hour :: u32 rt_day :: u32 rt_month :: u32 rt_year :: u32

definition cmos_read :: "ports \<Rightarrow> u32 \<Rightarrow> mach \<Rightarrow> (u32, mach) res" where
  "cmos_read dv reg = thenM (port_out 0x70 (ucast reg)) (bindM (port_in dv 0x71) (\<lambda>v. retM (ucast v)))"

definition fill_rtcdate :: "ports \<Rightarrow> mach \<Rightarrow> (rtcdate, mach) res" where
  "fill_rtcdate dv =
     bindM (cmos_read dv 0) (\<lambda>second. bindM (cmos_read dv 2) (\<lambda>minute. bindM (cmos_read dv 4) (\<lambda>hour.
     bindM (cmos_read dv 7) (\<lambda>day. bindM (cmos_read dv 8) (\<lambda>month. bindM (cmos_read dv 9) (\<lambda>year.
       retM \<lparr>rt_second = second, rt_minute = minute, rt_hour = hour, rt_day = day, rt_month = month, rt_year = year\<rparr>))))))"

fun cmos_loop :: "ports \<Rightarrow> nat \<Rightarrow> mach \<Rightarrow> (rtcdate, mach) res" where
  "cmos_loop dv 0 = Spins"
| "cmos_loop dv (Suc turns) =
     bindM (fill_rtcdate dv) (\<lambda>t1.
     bindM (cmos_read dv 0x0A) (\<lambda>a.
     if and a (push_bit 7 1) \<noteq> 0 then cmos_loop dv turns
     else bindM (fill_rtcdate dv) (\<lambda>t2. if t1 = t2 then retM t1 else cmos_loop dv turns)))"

definition bcd_conv :: "u32 \<Rightarrow> u32" where
  "bcd_conv x = drop_bit 4 x * 10 + and x 0xF"

definition cmostime :: "ports \<Rightarrow> nat \<Rightarrow> mach \<Rightarrow> (rtcdate, mach) res" where
  "cmostime dv turns =
     bindM (cmos_read dv 0x0B) (\<lambda>sb. let bcd = and sb (push_bit 2 1) = 0 in
     bindM (cmos_loop dv turns) (\<lambda>t1.
     let t = (if bcd then \<lparr>rt_second = bcd_conv (rt_second t1), rt_minute = bcd_conv (rt_minute t1), rt_hour = bcd_conv (rt_hour t1),
         rt_day = bcd_conv (rt_day t1), rt_month = bcd_conv (rt_month t1), rt_year = bcd_conv (rt_year t1)\<rparr> else t1)
     in retM (t\<lparr>rt_year := rt_year t + 2000\<rparr>)))"

text \<open>
  A clock that shows \<open>t\<close>: register \<open>r\<close> is selected by port 0x70 and read at 0x71, and \<open>enc\<close> is how it writes numbers, two decimal digits in a
  byte or the number itself.
\<close>

definition last_out :: "u16 \<Rightarrow> devio list \<Rightarrow> u8" where
  "last_out p h = (case find (\<lambda>x. case x of Out q _ \<Rightarrow> q = p | _ \<Rightarrow> False) (rev h) of Some (Out _ v) \<Rightarrow> v | _ \<Rightarrow> 0)"

lemma last_out_simps [simp]: "last_out p (h @ [Out q v]) = (if q = p then v else last_out p h)"
  by (simp add: last_out_def)

definition bcd :: "nat \<Rightarrow> u8" where
  "bcd n = of_nat (n div 10 * 16 + n mod 10)"

definition clock_shows :: "(nat \<Rightarrow> u8) \<Rightarrow> nat list \<Rightarrow> u8 \<Rightarrow> ports \<Rightarrow> bool" where
  "clock_shows enc t mode dv \<longleftrightarrow> (\<forall>h.
     (last_out 0x70 h = 0 \<longrightarrow> in_byte dv h 0x71 = enc (t ! 0)) \<and> (last_out 0x70 h = 2 \<longrightarrow> in_byte dv h 0x71 = enc (t ! 1))
     \<and> (last_out 0x70 h = 4 \<longrightarrow> in_byte dv h 0x71 = enc (t ! 2)) \<and> (last_out 0x70 h = 7 \<longrightarrow> in_byte dv h 0x71 = enc (t ! 3))
     \<and> (last_out 0x70 h = 8 \<longrightarrow> in_byte dv h 0x71 = enc (t ! 4)) \<and> (last_out 0x70 h = 9 \<longrightarrow> in_byte dv h 0x71 = enc (t ! 5))
     \<and> (last_out 0x70 h = 0x0A \<longrightarrow> and (in_byte dv h 0x71) 0x80 = 0) \<and> (last_out 0x70 h = 0x0B \<longrightarrow> in_byte dv h 0x71 = mode))"

lemma bcd_conv_bcd:
  assumes "n < 100"
  shows "bcd_conv (ucast (bcd n)) = of_nat n"
proof -
  let ?a = "n div 10" let ?b = "n mod 10"
  have lt: "?a < 10" "?b < 10" using assms by simp_all
  have e: "unat (bcd n) = ?a * 16 + ?b" using lt by (simp only: bcd_def unat_of_nat) simp
  have m: "unat (of_nat (?a * 16 + ?b) :: u32) = ?a * 16 + ?b" using lt by (simp only: unat_of_nat) simp
  then have u: "(ucast (bcd n) :: u32) = of_nat (?a * 16 + ?b)" using e by (simp only: word_unat_eq_iff) simp
  have "drop_bit 4 (of_nat (?a * 16 + ?b) :: u32) = of_nat ?a"
    using lt unfolding word_unat_eq_iff unat_drop_bit_eq m by (simp add: drop_bit_eq_div unat_of_nat)
  moreover have "and (of_nat (?a * 16 + ?b) :: u32) 0xF = of_nat ?b"
  proof -
    have "and (of_nat (?a * 16 + ?b) :: u32) 0xF = take_bit 4 (of_nat (?a * 16 + ?b))" by (simp add: take_bit_eq_mask mask_eq_exp_minus_1)
    moreover have "unat (take_bit 4 (of_nat (?a * 16 + ?b) :: u32)) = ?b" using lt unfolding unsigned_take_bit_eq m by (simp add: take_bit_eq_mod)
    moreover have "unat (of_nat ?b :: u32) = ?b" using lt by (simp add: unat_of_nat)
    ultimately show ?thesis by (simp only: word_unat_eq_iff)
  qed
  moreover have "of_nat ?a * 10 + of_nat ?b = (of_nat n :: u32)"
    by (metis div_mult_mod_eq of_nat_add of_nat_mult of_nat_numeral)
  ultimately show ?thesis by (simp only: bcd_conv_def u)
qed

definition cmos_tick :: "ports \<Rightarrow> u32 \<Rightarrow> mach \<Rightarrow> mach" where
  "cmos_tick dv r s = s\<lparr>b_io := b_io s @ [Out 0x70 (ucast r), In 0x71 (in_byte dv (b_io s @ [Out 0x70 (ucast r)]) 0x71)]\<rparr>"

lemma cmos_tick_mem [simp]: "b_mem (cmos_tick dv r s) = b_mem s"
  by (simp add: cmos_tick_def)

lemma cmos_read_run: "cmos_read dv r s = Ok (ucast (in_byte dv (b_io s @ [Out 0x70 (ucast r)]) 0x71)) (cmos_tick dv r s)"
  by (simp add: cmos_read_def cmos_tick_def thenM_run bindM_run)

lemma cmos_read_shown:
  assumes "clock_shows enc t mode dv"
  shows "cmos_read dv 0 s = Ok (ucast (enc (t ! 0))) (cmos_tick dv 0 s)" "cmos_read dv 2 s = Ok (ucast (enc (t ! 1))) (cmos_tick dv 2 s)"
    "cmos_read dv 4 s = Ok (ucast (enc (t ! 2))) (cmos_tick dv 4 s)" "cmos_read dv 7 s = Ok (ucast (enc (t ! 3))) (cmos_tick dv 7 s)"
    "cmos_read dv 8 s = Ok (ucast (enc (t ! 4))) (cmos_tick dv 8 s)" "cmos_read dv 9 s = Ok (ucast (enc (t ! 5))) (cmos_tick dv 9 s)"
    "cmos_read dv 0x0B s = Ok (ucast mode) (cmos_tick dv 0x0B s)"
    "\<exists>v :: u8. and v 0x80 = 0 \<and> cmos_read dv 0x0A s = Ok (ucast v) (cmos_tick dv 0x0A s)"
proof -
  note shown = assms [unfolded clock_shows_def]
  show "\<exists>v :: u8. and v 0x80 = 0 \<and> cmos_read dv 0x0A s = Ok (ucast v) (cmos_tick dv 0x0A s)"
    using shown by (intro exI [of _ "in_byte dv (b_io s @ [Out 0x70 0x0A]) 0x71"]) (simp add: cmos_read_run)
qed (use assms [unfolded clock_shows_def] in \<open>simp_all add: cmos_read_run\<close>)

lemma cmos_loop_shown:
  assumes "clock_shows enc t mode dv"
  shows "\<exists>s'. b_mem s' = b_mem s \<and> cmos_loop dv (Suc turns) s = Ok \<lparr>rt_second = ucast (enc (t ! 0)), rt_minute = ucast (enc (t ! 1)),
    rt_hour = ucast (enc (t ! 2)), rt_day = ucast (enc (t ! 3)), rt_month = ucast (enc (t ! 4)), rt_year = ucast (enc (t ! 5))\<rparr> s'"
proof -
  let ?t = "\<lparr>rt_second = ucast (enc (t ! 0)), rt_minute = ucast (enc (t ! 1)),
    rt_hour = ucast (enc (t ! 2)), rt_day = ucast (enc (t ! 3)), rt_month = ucast (enc (t ! 4)), rt_year = ucast (enc (t ! 5))\<rparr>"
  let ?f = "\<lambda>s. cmos_tick dv 9 (cmos_tick dv 8 (cmos_tick dv 7 (cmos_tick dv 4 (cmos_tick dv 2 (cmos_tick dv 0 s)))))"
  have f: "fill_rtcdate dv s = Ok ?t (?f s)" for s
    by (simp add: fill_rtcdate_def bindM_run cmos_read_shown(1-6) [OF assms])
  obtain v :: u8 where v: "and v 0x80 = 0" "cmos_read dv 0x0A (?f s) = Ok (ucast v) (cmos_tick dv 0x0A (?f s))"
    using cmos_read_shown(8) [OF assms, of "?f s"] by blast
  have "and (ucast v :: u32) (ucast (0x80 :: u8)) = ucast (and v 0x80)" by (rule unsigned_and_eq [symmetric])
  then have "and (ucast v :: u32) (push_bit 7 1) = 0" using v(1) by simp
  then show ?thesis using v(2) by (simp add: f bindM_run)
qed

text \<open>The date of a clock that does not change meanwhile, whose numbers are packed decimal digits (mode 2) or binary (mode 6).\<close>

theorem cmostime_decimal:
  assumes "clock_shows bcd t 2 dv" and "list_all (\<lambda>n. n < 100) t" and "length t = 6"
  shows "\<exists>s'. b_mem s' = b_mem s \<and> cmostime dv (Suc turns) s = Ok \<lparr>rt_second = of_nat (t ! 0), rt_minute = of_nat (t ! 1),
    rt_hour = of_nat (t ! 2), rt_day = of_nat (t ! 3), rt_month = of_nat (t ! 4), rt_year = of_nat (t ! 5) + 2000\<rparr> s'"
proof -
  have "t ! i < 100" if "i < 6" for i using assms(2,3) that by (simp add: list_all_length)
  then show ?thesis using cmos_loop_shown [OF assms(1), of "cmos_tick dv 0x0B s" turns]
    by (auto simp: cmostime_def bindM_run cmos_read_shown(7) [OF assms(1)] bcd_conv_bcd Let_def)
qed

theorem cmostime_binary:
  assumes "clock_shows of_nat t 6 dv" and "list_all (\<lambda>n. n < 256) t" and "length t = 6"
  shows "\<exists>s'. b_mem s' = b_mem s \<and> cmostime dv (Suc turns) s = Ok \<lparr>rt_second = of_nat (t ! 0), rt_minute = of_nat (t ! 1),
    rt_hour = of_nat (t ! 2), rt_day = of_nat (t ! 3), rt_month = of_nat (t ! 4), rt_year = of_nat (t ! 5) + 2000\<rparr> s'"
proof -
  have "t ! i < 256" if "i < 6" for i using assms(2,3) that by (simp add: list_all_length)
  moreover have "(ucast (of_nat n :: u8) :: u32) = of_nat n" if "n < 256" for n
    using that by (simp add: word_unat_eq_iff unsigned_ucast_eq unat_of_nat)
  ultimately show ?thesis using cmos_loop_shown [OF assms(1), of "cmos_tick dv 0x0B s" turns]
    by (auto simp: cmostime_def bindM_run cmos_read_shown(7) [OF assms(1)] Let_def)
qed

section \<open>The serial port\<close>

fun uart_wait :: "ports \<Rightarrow> nat \<Rightarrow> mach \<Rightarrow> (unit, mach) res" where
  "uart_wait dv 0 = retM ()"
| "uart_wait dv (Suc n) = bindM (port_in dv (COM1 + 5)) (\<lambda>v. if and v 0x20 \<noteq> 0 then retM () else uart_wait dv n)"

definition uart_put :: "ports \<Rightarrow> bool \<Rightarrow> u8 \<Rightarrow> mach \<Rightarrow> (unit, mach) res" where
  "uart_put dv uart c = (if \<not> uart then retM () else thenM (uart_wait dv 128) (port_out COM1 c))"

fun uart_puts :: "ports \<Rightarrow> bool \<Rightarrow> u8 list \<Rightarrow> mach \<Rightarrow> (unit, mach) res" where
  "uart_puts dv uart [] = retM ()"
| "uart_puts dv uart (c # cs) = thenM (uart_put dv uart c) (uart_puts dv uart cs)"

definition uartinit :: "ports \<Rightarrow> bool \<Rightarrow> mach \<Rightarrow> (bool, mach) res" where
  "uartinit dv uart =
     thenM (port_out (COM1 + 2) 0)
     (thenM (port_out (COM1 + 3) 0x80)
     (thenM (port_out COM1 (of_nat (115200 div 9600)))
     (thenM (port_out (COM1 + 1) 0)
     (thenM (port_out (COM1 + 3) 0x03)
     (thenM (port_out (COM1 + 4) 0)
     (thenM (port_out (COM1 + 1) 0x01)
     (bindM (port_in dv (COM1 + 5)) (\<lambda>v.
     if v = 0xFF then retM uart
     else
       bindM (port_in dv (COM1 + 2)) (\<lambda>_.
       bindM (port_in dv COM1) (\<lambda>_.
       thenM (ioapicenable 4 0)
       (thenM (uart_puts dv True (map (of_nat \<circ> of_char) (''xv6...'' @ [CHR 0x0A])))
         (retM True))))))))))))"

lemma uart_wait_polls: "\<exists>vs. length vs \<le> n \<and> uart_wait dv n s = Ok () (s\<lparr>b_io := b_io s @ map (In (COM1 + 5)) vs\<rparr>)"
proof (induction n arbitrary: s)
  case (Suc n)
  let ?v = "in_byte dv (b_io s) (COM1 + 5)"
  let ?s = "s\<lparr>b_io := b_io s @ [In (COM1 + 5) ?v]\<rparr>"
  obtain vs where "length vs \<le> n" "uart_wait dv n ?s = Ok () (?s\<lparr>b_io := b_io ?s @ map (In (COM1 + 5)) vs\<rparr>)" using Suc.IH by blast
  then show ?case
    by (cases "and ?v 0x20 = 0") (auto simp: bindM_run intro: exI [of _ "[?v]"] exI [of _ "?v # vs"])
qed auto

lemma ioapic_polls [simp]: "ioapic_regs (map (In p) vs) c = c"
  by (induction vs) simp_all

text \<open>What the port is given to send, once its divisor has been set and locked.\<close>

definition sent :: "devio list \<Rightarrow> u8 list" where
  "sent h = [c. Out p c \<leftarrow> h, p = COM1]"

lemma sent_simps [simp]: "sent [] = []" "sent (h @ g) = sent h @ sent g" "sent (Out COM1 c # h) = c # sent h"
  by (simp_all add: sent_def)

lemma sent_polls [simp]: "sent (map (In p) vs) = []"
  by (induction vs) (simp_all add: sent_def)

lemma uart_puts_sends: "\<exists>h. uart_puts dv True cs s = Ok () (s\<lparr>b_io := b_io s @ h\<rparr>) \<and> sent h = cs \<and> (\<forall>c. ioapic_regs h c = c)"
proof (induction cs arbitrary: s)
  case Nil
  show ?case by (intro exI [of _ "[]"]) simp
next
  case (Cons c cs)
  obtain vs where j: "uart_wait dv 128 s = Ok () (s\<lparr>b_io := b_io s @ map (In (COM1 + 5)) vs\<rparr>)" using uart_wait_polls by blast
  let ?g = "map (In (COM1 + 5)) vs @ [Out COM1 c]"
  obtain h where h: "uart_puts dv True cs (s\<lparr>b_io := b_io s @ ?g\<rparr>) = Ok () (s\<lparr>b_io := b_io s @ ?g, b_io := b_io (s\<lparr>b_io := b_io s @ ?g\<rparr>) @ h\<rparr>)"
    "sent h = cs" "\<forall>c. ioapic_regs h c = c" using Cons.IH [of "s\<lparr>b_io := b_io s @ ?g\<rparr>"] by blast
  show ?case using j h by (intro exI [of _ "?g @ h"]) (simp add: uart_put_def thenM_run)
qed

text \<open>Without a port (status 0xFF) nothing is announced and the flag stays; with one it is set, its line reaches processor 0 and the greeting is sent.\<close>

theorem uartinit_absent:
  assumes "\<And>h. in_byte dv h (COM1 + 5) = 0xFF"
  shows "\<exists>h. uartinit dv uart s = Ok uart (s\<lparr>b_io := b_io s @ h\<rparr>) \<and> sent h = [12]"
  using assms by (simp add: uartinit_def thenM_run bindM_run) (intro exI conjI, rule refl, simp add: sent_def COM1_def)

theorem uartinit_present:
  assumes "\<And>h. in_byte dv h (COM1 + 5) \<noteq> 0xFF"
  shows "\<exists>h. uartinit dv uart s = Ok True (s\<lparr>b_io := b_io s @ h\<rparr>) \<and> sent h = 12 # map (of_nat \<circ> of_char) (''xv6...'' @ [CHR 0x0A])
    \<and> (\<forall>c. snd (ioapic_regs h c) (0x10 + 2 * 4) = 36)"
proof -
  let ?text = "map (of_nat \<circ> of_char) (''xv6...'' @ [CHR 0x0A]) :: u8 list"
  let ?g0 = "[Out (COM1 + 2) 0, Out (COM1 + 3) 0x80, Out COM1 12, Out (COM1 + 1) 0, Out (COM1 + 3) 3, Out (COM1 + 4) 0, Out (COM1 + 1) 1]"
  define v where "v p = in_byte dv (b_io s @ ?g0 @ p)" for p
  let ?p1 = "[In (COM1 + 5) (v [] (COM1 + 5))]" let ?p2 = "?p1 @ [In (COM1 + 2) (v ?p1 (COM1 + 2))]" let ?p3 = "?p2 @ [In COM1 (v ?p2 COM1)]"
  let ?g = "?g0 @ ?p3 @ [Reg_W 0xFEC00000 (0x10 + 2 * 4), Reg_W 0xFEC00010 (32 + 4), Reg_W 0xFEC00000 (0x10 + 2 * 4 + 1), Reg_W 0xFEC00010 0]"
  obtain h where h: "uart_puts dv True ?text (s\<lparr>b_io := b_io s @ ?g\<rparr>) = Ok () (s\<lparr>b_io := b_io s @ ?g, b_io := b_io (s\<lparr>b_io := b_io s @ ?g\<rparr>) @ h\<rparr>)"
    "sent h = ?text" "\<forall>c. ioapic_regs h c = c" using uart_puts_sends [of dv ?text "s\<lparr>b_io := b_io s @ ?g\<rparr>"] by blast
  have "uartinit dv uart s = Ok True (s\<lparr>b_io := b_io s @ ?g @ h\<rparr>)"
    using h(1) assms by (simp add: uartinit_def thenM_run bindM_run ioapicenable_def v_def del: uart_puts.simps)
  moreover have "sent (?g @ h) = 12 # ?text" using h(2) by (simp add: sent_def COM1_def)
  moreover have "snd (ioapic_regs (?g @ h) c) (0x10 + 2 * 4) = 36" for c using h(3) by simp
  ultimately show ?thesis by blast
qed

end
