(* ===== verification/Ide.thy ===== *)
theory Ide
  imports Bio
begin

text \<open>
  The disk driver, \<open>ide.c\<close>: the queue of requests, the commands that start the first of them, the interrupt that ends it. The queue is
  the code's chain of \<open>qnext\<close> fields, which \<open>qchain\<close> abstracts to a list. The drive is a parameter: what its status register reads and the data
  it delivers, after what was done so far. Loops that wait for it have a number of turns. \<open>commands\<close> is what a drive understands of the
  output: a command counts only if the drive was polled ready, its registers are set, and the data of a write follow the command.
\<close>

section \<open>The driver\<close>

text \<open>What is done at the ports: the status register read as \<open>Inb v\<close>, and 512 bytes taken from the drive by \<open>Insl\<close>.\<close>

datatype ideio = Outb u16 u8 | Outsl "u8 list" | Inb u8 | Insl

record kide = kbio +
  idequeue :: "nat option"
  qnext :: "nat \<Rightarrow> nat option"
  havedisk1 :: bool
  io :: "ideio list"

record drive =
  inb_status :: "ideio list \<Rightarrow> u8"
  insl_data :: "ideio list \<Rightarrow> u8 list"

definition SECTOR_SIZE :: nat where "SECTOR_SIZE = 512"
definition IDE_BSY :: u8 where "IDE_BSY = 0x80"
definition IDE_DRDY :: u8 where "IDE_DRDY = 0x40"
definition IDE_DF :: u8 where "IDE_DF = 0x20"
definition IDE_ERR :: u8 where "IDE_ERR = 0x01"
definition IDE_CMD_READ :: u8 where "IDE_CMD_READ = 0x20"
definition IDE_CMD_WRITE :: u8 where "IDE_CMD_WRITE = 0x30"
definition IDE_CMD_RDMUL :: u8 where "IDE_CMD_RDMUL = 0xc4"
definition IDE_CMD_WRMUL :: u8 where "IDE_CMD_WRMUL = 0xc5"
definition FSSIZE :: u32 where "FSSIZE = 1000"

definition out_port :: "ideio \<Rightarrow> 'z kide_scheme \<Rightarrow> (unit, 'z kide_scheme) res" where
  "out_port x = modM (\<lambda>s. s\<lparr>io := io s @ [x]\<rparr>)"

text \<open>The loop reads the status register until the drive is ready.\<close>

definition in_status :: "drive \<Rightarrow> 'z kide_scheme \<Rightarrow> (u8, 'z kide_scheme) res" where
  "in_status dv = bindM (getM (\<lambda>s. inb_status dv (io s))) (\<lambda>v. thenM (out_port (Inb v)) (retM v))"

fun idewait_loop :: "drive \<Rightarrow> nat \<Rightarrow> 'z kide_scheme \<Rightarrow> (u8, 'z kide_scheme) res" where
  "idewait_loop dv 0 = Spins"
| "idewait_loop dv (Suc turns) =
     bindM (in_status dv) (\<lambda>r.
     if and r (or IDE_BSY IDE_DRDY) \<noteq> IDE_DRDY then idewait_loop dv turns else retM r)"

definition idewait :: "drive \<Rightarrow> nat \<Rightarrow> bool \<Rightarrow> 'z kide_scheme \<Rightarrow> (u32, 'z kide_scheme) res" where
  "idewait dv turns checkerr =
     bindM (idewait_loop dv turns) (\<lambda>r. retM (if checkerr \<and> and r (or IDE_DF IDE_ERR) \<noteq> 0 then - 1 else 0))"

definition idestart :: "drive \<Rightarrow> nat \<Rightarrow> nat option \<Rightarrow> 'z kide_scheme \<Rightarrow> (unit, 'z kide_scheme) res" where
  "idestart dv turns r =
     (case r of None \<Rightarrow> panic ''idestart''
      | Some b \<Rightarrow>
          bindM (getM (\<lambda>s. bufs s ! b)) (\<lambda>x.
          if b_blockno x \<ge> FSSIZE then panic ''incorrect blockno'' else
          let sector_per_block = BSIZE div SECTOR_SIZE;
              sector = b_blockno x * of_nat sector_per_block;
              read_cmd = (if sector_per_block = 1 then IDE_CMD_READ else IDE_CMD_RDMUL);
              write_cmd = (if sector_per_block = 1 then IDE_CMD_WRITE else IDE_CMD_WRMUL)
          in if sector_per_block > 7 then panic ''idestart'' else
          bindM (idewait dv turns False) (\<lambda>_.
          thenM (out_port (Outb 0x3f6 0))
          (thenM (out_port (Outb 0x1f2 (of_nat sector_per_block)))
          (thenM (out_port (Outb 0x1f3 (ucast (and sector 0xff))))
          (thenM (out_port (Outb 0x1f4 (ucast (and (drop_bit 8 sector) 0xff))))
          (thenM (out_port (Outb 0x1f5 (ucast (and (drop_bit 16 sector) 0xff))))
          (thenM (out_port (Outb 0x1f6 (ucast (or 0xe0 (or (push_bit 4 (and (b_dev x) 1)) (and (drop_bit 24 sector) 0x0f))))))
          (if b_dirty x
           then thenM (out_port (Outb 0x1f7 write_cmd)) (out_port (Outsl (b_data x)))
           else out_port (Outb 0x1f7 read_cmd)))))))))
     )"

definition ideintr :: "drive \<Rightarrow> nat \<Rightarrow> 'z kide_scheme \<Rightarrow> (unit, 'z kide_scheme) res" where
  "ideintr dv turns =
     thenM (acquire L_ide)
     (bindM (getM idequeue) (\<lambda>r.
     case r of None \<Rightarrow> release L_ide
     | Some b \<Rightarrow>
         thenM (modM (\<lambda>s. s\<lparr>idequeue := qnext s b\<rparr>))
         (bindM (getM (\<lambda>s. b_dirty (bufs s ! b))) (\<lambda>dirty.
         thenM (if \<not> dirty
           then bindM (idewait dv turns True) (\<lambda>r.
             whenM (\<not> slt r 0)
               (thenM (modM (\<lambda>s. upd_buf b (\<lambda>x. x\<lparr>b_data := insl_data dv (io s)\<rparr>) s)) (out_port Insl)))
           else retM ())
         (thenM (modM (upd_buf b (\<lambda>x. x\<lparr>b_valid := True\<rparr>)))
         (thenM (modM (upd_buf b (\<lambda>x. x\<lparr>b_dirty := False\<rparr>)))
         (thenM (wakeup (Ch_buf b))
         (bindM (getM idequeue) (\<lambda>next.
         thenM (whenM (next \<noteq> None) (idestart dv turns next))
         (release L_ide))))))))))"

text \<open>\<open>pp\<close> is the place of a pointer: the head of the queue, or the \<open>qnext\<close> of a buffer.\<close>

definition get_link :: "nat option \<Rightarrow> 'z kide_scheme \<Rightarrow> nat option" where
  "get_link pp s = (case pp of None \<Rightarrow> idequeue s | Some b \<Rightarrow> qnext s b)"

definition set_link :: "nat option \<Rightarrow> nat option \<Rightarrow> 'z kide_scheme \<Rightarrow> 'z kide_scheme" where
  "set_link pp r s = (case pp of None \<Rightarrow> s\<lparr>idequeue := r\<rparr> | Some b \<Rightarrow> s\<lparr>qnext := (qnext s)(b := r)\<rparr>)"

fun queue_end :: "nat \<Rightarrow> nat option \<Rightarrow> 'z kide_scheme \<Rightarrow> (nat option, 'z kide_scheme) res" where
  "queue_end 0 pp = Spins"
| "queue_end (Suc turns) pp =
     bindM (getM (get_link pp)) (\<lambda>r. case r of None \<Rightarrow> retM pp | Some b \<Rightarrow> queue_end turns (Some b))"

definition ide_wait :: "nat \<Rightarrow> 'z kide_scheme \<Rightarrow> (unit, 'z kide_scheme) res" where
  "ide_wait b =
     bindM (getM (\<lambda>s. bufs s ! b)) (\<lambda>x.
     if \<not> (b_valid x \<and> \<not> b_dirty x) then sleep (Ch_buf b) L_ide else release L_ide)"

definition ide_rw :: "drive \<Rightarrow> nat \<Rightarrow> nat \<Rightarrow> 'z kide_scheme \<Rightarrow> (unit, 'z kide_scheme) res" where
  "ide_rw dv turns b =
     bindM (holdingsleep (L_buf b) (buf_lock b)) (\<lambda>h.
     if \<not> h then panic ''iderw: buf not locked'' else
     bindM (getM (\<lambda>s. bufs s ! b)) (\<lambda>x.
     if b_valid x \<and> \<not> b_dirty x then panic ''iderw: nothing to do'' else
     bindM (getM havedisk1) (\<lambda>have1.
     if b_dev x \<noteq> 0 \<and> \<not> have1 then panic ''iderw: ide disk 1 not present'' else
     thenM (acquire L_ide)
     (thenM (modM (set_link (Some b) None))
     (bindM (queue_end (NBUF + 1) None) (\<lambda>pp.
     thenM (modM (set_link pp (Some b)))
     (bindM (getM idequeue) (\<lambda>r.
     thenM (whenM (r = Some b) (idestart dv turns r))
     (ide_wait b)))))))))"

text \<open>Where the process goes on when it is woken.\<close>

definition ide_rw_resume :: "nat \<Rightarrow> 'z kide_scheme \<Rightarrow> (unit, 'z kide_scheme) res" where
  "ide_rw_resume b = thenM (sleep_resume L_ide) (ide_wait b)"

text \<open>\<open>ideinit\<close> looks for the second disk: \<open>inb_status\<close> after selecting it is not always 0.\<close>

fun probe_loop :: "drive \<Rightarrow> nat \<Rightarrow> 'z kide_scheme \<Rightarrow> (unit, 'z kide_scheme) res" where
  "probe_loop dv 0 = retM ()"
| "probe_loop dv (Suc n) =
     bindM (in_status dv) (\<lambda>r.
     if r \<noteq> 0 then modM (\<lambda>s. s\<lparr>havedisk1 := True\<rparr>) else probe_loop dv n)"

definition ideinit :: "drive \<Rightarrow> nat \<Rightarrow> 'z kide_scheme \<Rightarrow> (unit, 'z kide_scheme) res" where
  "ideinit dv turns =
     thenM (modM (\<lambda>s. s\<lparr>k_held := k_held s - {L_ide}\<rparr>))
     (bindM (idewait dv turns False) (\<lambda>_.
     thenM (out_port (Outb 0x1f6 (or 0xe0 (push_bit 4 1))))
     (thenM (probe_loop dv 1000)
     (out_port (Outb 0x1f6 (or 0xe0 (push_bit 4 0)))))))"

section \<open>Commands\<close>

text \<open>
  What a drive makes of the output. The registers 0x1f3 to 0x1f6 hold the sector and, in a bit of the last, which of the two drives is
  meant; they take a value only when the status was last read as ready. A command written to 0x1f7 is executed when the drive is ready, one sector
  is asked for, the sector is a block address, and interrupts are on; then the drive is busy. The data of a write are those sent after its command.
  A command is the drive, the sector, and the data of a write.
\<close>

type_synonym command = "bool \<times> u32 \<times> u8 list option"

record dstate =
  d_regs :: "u16 \<Rightarrow> u8"
  d_rdy :: bool
  d_write :: "(bool \<times> u32) option"
  d_cmds :: "command list"

definition is_ready :: "u8 \<Rightarrow> bool" where
  "is_ready v \<longleftrightarrow> and v (or IDE_BSY IDE_DRDY) = IDE_DRDY"

definition selected :: "(u16 \<Rightarrow> u8) \<Rightarrow> bool \<times> u32" where
  "selected regs = (bit (regs 0x1f6) 4, le32 (regs 0x1f3) (regs 0x1f4) (regs 0x1f5) (and (regs 0x1f6) 0x0f))"

definition accepts :: "dstate \<Rightarrow> bool" where
  "accepts d \<longleftrightarrow> d_rdy d \<and> d_regs d 0x1f2 = 1 \<and> and (d_regs d 0x1f6) 0xe0 = 0xe0 \<and> and (d_regs d 0x3f6) 0x02 = 0"

definition decode_step :: "dstate \<Rightarrow> ideio \<Rightarrow> dstate" where
  "decode_step d e = (case e of
     Inb v \<Rightarrow> d\<lparr>d_rdy := is_ready v\<rparr>
   | Outb p v \<Rightarrow>
       if p = 0x1f7
       then if accepts d \<and> v = IDE_CMD_READ
         then d\<lparr>d_rdy := False, d_write := None, d_cmds := d_cmds d @ [(fst (selected (d_regs d)), snd (selected (d_regs d)), None)]\<rparr>
         else if accepts d \<and> v = IDE_CMD_WRITE then d\<lparr>d_rdy := False, d_write := Some (selected (d_regs d))\<rparr>
         else d\<lparr>d_rdy := False, d_write := None\<rparr>
       else if d_rdy d \<or> p = 0x3f6 then d\<lparr>d_regs := (d_regs d)(p := v)\<rparr> else d
   | Outsl data \<Rightarrow>
       (case d_write d of None \<Rightarrow> d | Some (v, n) \<Rightarrow> d\<lparr>d_write := None, d_cmds := d_cmds d @ [(v, n, Some data)]\<rparr>)
   | Insl \<Rightarrow> d)"

definition decode :: "ideio list \<Rightarrow> dstate" where
  "decode h = foldl decode_step \<lparr>d_regs = \<lambda>_. 0xff, d_rdy = False, d_write = None, d_cmds = []\<rparr> h"

definition commands :: "ideio list \<Rightarrow> command list" where
  "commands h = d_cmds (decode h)"

text \<open>What a buffer asks for.\<close>

definition request :: "buf \<Rightarrow> command" where
  "request x = (bit (b_dev x) 0, b_blockno x, if b_dirty x then Some (b_data x) else None)"

definition start_outs :: "buf \<Rightarrow> ideio list" where
  "start_outs x =
     [Outb 0x3f6 0, Outb 0x1f2 1, Outb 0x1f3 (ucast (b_blockno x)), Outb 0x1f4 (ucast (drop_bit 8 (b_blockno x))),
      Outb 0x1f5 (ucast (drop_bit 16 (b_blockno x))),
      Outb 0x1f6 (or 0xe0 (or (push_bit 4 (ucast (and (b_dev x) 1))) (ucast (and (drop_bit 24 (b_blockno x)) 0x0f))))]
     @ (if b_dirty x then [Outb 0x1f7 IDE_CMD_WRITE, Outsl (b_data x)] else [Outb 0x1f7 IDE_CMD_READ])"

lemma drive_bits:
  fixes d :: u32
  defines "r \<equiv> or 0xe0 (push_bit 4 (ucast (and d 1))) :: u8"
  shows "bit r 4 = bit d 0" and "and r 0x0f = 0" and "and r 0xe0 = 0xe0"
proof -
  have m: "(0x0f :: u8) = mask 4" "(1 :: u32) = mask 1" "(0xe0 :: u8) = push_bit 5 (mask 3)" by (simp_all add: mask_eq_exp_minus_1)
  have b: "bit r n \<longleftrightarrow> n < 8 \<and> (5 \<le> n \<or> n = 4 \<and> bit d 0)" for n
    unfolding r_def m(2,3) by (auto simp: bit_simps)
  show "bit r 4 = bit d 0" by (simp add: b)
  show "and r 0x0f = 0"
    unfolding m(1) by (rule bit_word_eqI) (auto simp: bit_and_iff bit_mask_iff b)
  show "and r 0xe0 = 0xe0"
    unfolding m(3) by (rule bit_word_eqI) (auto simp: bit_simps b)
qed

lemma drop_24: "(n :: u32) < FSSIZE \<Longrightarrow> drop_bit 24 n = 0"
proof -
  assume "n < FSSIZE"
  then have "unat n < 1000" by (simp add: FSSIZE_def word_less_nat_alt)
  then have "unat (drop_bit 24 n) = 0" by (simp add: drop_bit_eq_div unat_div_distrib)
  then show ?thesis by (simp add: unat_eq_0)
qed

lemma decode_append [simp]: "decode (h @ g) = foldl decode_step (decode h) g"
  by (simp add: decode_def)

lemma commands_start:
  assumes "b_blockno x < FSSIZE" and "d_rdy (decode h)"
  shows "commands (h @ start_outs x) = commands h @ [request x]"
proof -
  let ?n = "b_blockno x"
  have top: "byte_of 3 ?n = 0" "ucast (and (drop_bit 24 ?n) 0x0f) = (0 :: u8)" using drop_24 [OF assms(1)] by (simp_all add: byte_of_def)
  have "le32 (byte_of 0 ?n) (byte_of (Suc 0) ?n) (byte_of 2 ?n) 0 = ?n" using le32_byte_of [of ?n] top(1) by simp
  then have sector: "le32 (ucast ?n) (ucast (drop_bit 8 ?n)) (ucast (drop_bit 16 ?n)) 0 = ?n" by (simp add: byte_of_def)
  show ?thesis
    using assms(2) drive_bits [of "b_dev x"] top sector
    by (simp add: commands_def decode_step_def accepts_def start_outs_def request_def selected_def IDE_CMD_READ_def IDE_CMD_WRITE_def)
qed

section \<open>Running the driver\<close>

text \<open>The history after \<open>n\<close> more polls, and a drive that becomes ready within a number of them.\<close>

fun polled :: "drive \<Rightarrow> ideio list \<Rightarrow> nat \<Rightarrow> ideio list" where
  "polled dv h 0 = h"
| "polled dv h (Suc n) = polled dv (h @ [Inb (inb_status dv h)]) n"

definition ready :: "drive \<Rightarrow> nat \<Rightarrow> bool" where
  "ready dv turns \<longleftrightarrow> (\<forall>h. \<exists>i<turns. is_ready (inb_status dv (polled dv h i)))"

definition errfree :: "drive \<Rightarrow> bool" where
  "errfree dv \<longleftrightarrow> (\<forall>h. and (inb_status dv h) (or IDE_DF IDE_ERR) = 0)"

text \<open>A history that some polls have led to, the last of which found the drive ready.\<close>

definition waited :: "drive \<Rightarrow> ideio list \<Rightarrow> ideio list \<Rightarrow> bool" where
  "waited dv h g \<longleftrightarrow> (\<exists>vs. g = h @ map Inb vs) \<and> commands g = commands h \<and> d_rdy (decode g)"

lemma in_status_run: "in_status dv s = Ok (inb_status dv (io s)) (s\<lparr>io := io s @ [Inb (inb_status dv (io s))]\<rparr>)"
  by (simp add: in_status_def out_port_def bindM_run thenM_def)

lemma waited_Cons: "waited dv (h @ [Inb v]) g \<Longrightarrow> waited dv h g"
  by (auto simp: waited_def commands_def decode_step_def intro: exI [of _ "v # vs" for vs])

lemma idewait_loop_run:
  "i < turns \<Longrightarrow> is_ready (inb_status dv (polled dv (io s) i)) \<Longrightarrow>
   \<exists>h r. idewait_loop dv turns s = Ok r (s\<lparr>io := h\<rparr>) \<and> waited dv (io s) h \<and> (errfree dv \<longrightarrow> and r (or IDE_DF IDE_ERR) = 0)"
proof (induction turns arbitrary: i s)
  case (Suc turns)
  let ?v = "inb_status dv (io s)"
  let ?s = "s\<lparr>io := io s @ [Inb ?v]\<rparr>"
  show ?case
  proof (cases "is_ready ?v")
    case True
    then have "waited dv (io s) (io s @ [Inb ?v])"
      by (auto simp: waited_def commands_def decode_step_def intro: exI [of _ "[?v]"])
    then show ?thesis using True
      by (intro exI [of _ "io s @ [Inb ?v]"] exI [of _ ?v]) (simp add: bindM_run in_status_run is_ready_def errfree_def)
  next
    case False
    then obtain k where "i = Suc k" using Suc.prems(2) by (cases i) auto
    then obtain h r where "idewait_loop dv turns ?s = Ok r (?s\<lparr>io := h\<rparr>)" "waited dv (io ?s) h" "errfree dv \<longrightarrow> and r (or IDE_DF IDE_ERR) = 0"
      using Suc.IH [of k ?s] Suc.prems by auto
    then show ?thesis using False waited_Cons [of dv "io s" ?v h]
      by (intro exI [of _ h] exI [of _ r]) (simp add: bindM_run in_status_run is_ready_def)
  qed
qed simp

lemma idewait_run:
  assumes "ready dv turns"
  shows "\<exists>r h. idewait dv turns c s = Ok r (s\<lparr>io := h\<rparr>) \<and> waited dv (io s) h \<and> (\<not> c \<or> errfree dv \<longrightarrow> r = 0) \<and> (r = 0 \<or> r = - 1)"
proof -
  obtain i where "i < turns" "is_ready (inb_status dv (polled dv (io s) i))" using assms by (auto simp: ready_def)
  then obtain h r where "idewait_loop dv turns s = Ok r (s\<lparr>io := h\<rparr>)" "waited dv (io s) h" "errfree dv \<longrightarrow> and r (or IDE_DF IDE_ERR) = 0"
    using idewait_loop_run [of i turns dv s] by auto
  then show ?thesis by (auto simp: idewait_def bindM_run)
qed

lemma ucast_low: "ucast (and (n :: u32) 0xff) = (ucast n :: u8)"
proof -
  have "(0xff :: u32) = mask 8" by (simp add: mask_eq_exp_minus_1)
  then show ?thesis unfolding \<open>0xff = mask 8\<close> by - (rule bit_word_eqI, auto simp: bit_simps)
qed

lemma ucast_drive: "ucast (or 0xe0 (or (push_bit 4 u) w) :: u32) = (or 0xe0 (or (push_bit 4 (ucast u)) (ucast w)) :: u8)"
  by (rule bit_word_eqI) (auto simp: bit_simps)

lemma idestart_run:
  assumes "ready dv turns" and "b_blockno (bufs s ! b) < FSSIZE"
  shows "\<exists>h. idestart dv turns (Some b) s = Ok () (s\<lparr>io := h\<rparr>) \<and> commands h = commands (io s) @ [request (bufs s ! b)]"
proof -
  let ?x = "bufs s ! b"
  obtain r h where h: "idewait dv turns False s = Ok r (s\<lparr>io := h\<rparr>)" "waited dv (io s) h" using idewait_run [OF assms(1)] by blast
  moreover have "ucast (and (b_blockno ?x) 0xff) = (ucast (b_blockno ?x) :: u8)" "ucast (and (drop_bit k (b_blockno ?x)) 0xff) = (ucast (drop_bit k (b_blockno ?x)) :: u8)" for k
    by (rule ucast_low)+
  moreover have "ucast (or 0xe0 (or (push_bit 4 (and (b_dev ?x) 1)) (and (drop_bit 24 (b_blockno ?x)) 0x0f))) =
      (or 0xe0 (or (push_bit 4 (ucast (and (b_dev ?x) 1))) (ucast (and (drop_bit 24 (b_blockno ?x)) 0x0f))) :: u8)"
    by (rule ucast_drive)
  ultimately have "idestart dv turns (Some b) s = Ok () (s\<lparr>io := h @ start_outs ?x\<rparr>)"
    using assms(2) by (simp add: idestart_def bindM_run thenM_def out_port_def start_outs_def BSIZE_def SECTOR_SIZE_def Let_def not_le)
  moreover have "commands (h @ start_outs ?x) = commands (io s) @ [request ?x]"
    using commands_start [OF assms(2), of h] h(2) by (simp add: waited_def)
  ultimately show ?thesis by blast
qed

section \<open>The queue\<close>

fun qchain :: "(nat \<Rightarrow> nat option) \<Rightarrow> nat option \<Rightarrow> nat list \<Rightarrow> bool" where
  "qchain nx p [] \<longleftrightarrow> p = None"
| "qchain nx p (b # q) \<longleftrightarrow> p = Some b \<and> qchain nx (nx b) q"

lemma qchain_cong: "(\<And>b. b \<in> set q \<Longrightarrow> nx b = nx' b) \<Longrightarrow> qchain nx p q = qchain nx' p q"
  by (induction q arbitrary: p) auto

lemma qchain_append: "qchain nx p (q @ [e]) \<Longrightarrow> nx e = None"
  by (induction q arbitrary: p) auto

text \<open>
  \<open>q\<close> is the queue and \<open>rs\<close> all requests made so far, in order: those the drive has got and those that wait behind the first in the queue.
  A queued buffer is neither done nor outside of the disk.
\<close>

definition ide_inv :: "'z kide_scheme \<Rightarrow> nat list \<Rightarrow> command list \<Rightarrow> bool" where
  "ide_inv s q rs \<longleftrightarrow> qchain (qnext s) (idequeue s) q \<and> distinct q \<and> set q \<subseteq> {..<NBUF} \<and> length (bufs s) = NBUF
     \<and> (\<forall>b\<in>set q. b_blockno (bufs s ! b) < FSSIZE \<and> (b_dirty (bufs s ! b) \<or> \<not> b_valid (bufs s ! b)))
     \<and> rs = commands (io s) @ map (\<lambda>b. request (bufs s ! b)) (tl q)"

lemma queue_end_run:
  "qchain (qnext s) (get_link pp s) q \<Longrightarrow> length q < turns \<Longrightarrow>
   queue_end turns pp s = Ok (if q = [] then pp else Some (last q)) s"
proof (induction q arbitrary: pp turns)
  case Nil
  then show ?case by (cases turns) (auto simp: bindM_run)
next
  case (Cons b q)
  then show ?case by (cases turns) (auto simp: bindM_run get_link_def)
qed

lemma qchain_extended:
  assumes "qchain nx p q" and "distinct q" and "b \<notin> set q" and "q \<noteq> []"
  shows "qchain (nx(b := None, last q := Some b)) p (q @ [b])"
  using assms
proof (induction q arbitrary: p)
  case (Cons c q)
  show ?case
  proof (cases "q = []")
    case True
    then show ?thesis using Cons.prems by simp
  next
    case False
    then have "c \<noteq> last q" "b \<noteq> c" using Cons.prems last_in_set [OF False] by auto
    then show ?thesis using Cons False by simp
  qed
qed simp

lemma io_same: "io s = h \<Longrightarrow> s = s\<lparr>io := h\<rparr>"
  by auto

lemma holdingsleep_run:
  assumes "k_held s = {}" and "cpuproc s = Some i" and "sl_locked (buf_lock b s)" and "sl_pid (buf_lock b s) = p_pid (procs s ! i)"
  shows "holdingsleep (L_buf b) (buf_lock b) s = Ok True s"
  using assms by (simp add: holdingsleep_def bindM_run thenM_def acquire_def release_def curproc_def)

text \<open>
  C26: \<open>iderw\<close> for a buffer that is locked and has something to do puts it at the end of the queue and sleeps until it is done; the
  drive is given the command at once when the queue was empty. No request is lost, repeated or moved.
\<close>
theorem iderw_enqueues:
  assumes "ide_inv s q rs" and "ready dv turns"
    and "b < NBUF" and "b \<notin> set q" and "b_blockno (bufs s ! b) < FSSIZE" and "b_dirty (bufs s ! b) \<or> \<not> b_valid (bufs s ! b)"
    and "b_dev (bufs s ! b) = 0 \<or> havedisk1 s" and "k_held s = {}" and "cpuproc s = Some i" and "i < length (procs s)"
    and "sl_locked (buf_lock b s)" and "sl_pid (buf_lock b s) = p_pid (procs s ! i)"
  shows "\<exists>t. ide_rw dv turns b s = Sleeps (Ch_buf b) t \<and> ide_inv t (q @ [b]) (rs @ [request (bufs s ! b)]) \<and> bufs t = bufs s
    \<and> procs t = (procs s)[i := (procs s ! i)\<lparr>p_chan := Some (Ch_buf b), p_state := SLEEPING\<rparr>]"
proof -
  let ?x = "bufs s ! b" and ?a = "s\<lparr>k_held := {L_ide}\<rparr>"
  let ?l = "set_link (Some b) None ?a"
  let ?pp = "if q = [] then None else Some (last q)"
  let ?q = "set_link ?pp (Some b) ?l"
  have inv: "qchain (qnext s) (idequeue s) q" "distinct q" "set q \<subseteq> {..<NBUF}" "length (bufs s) = NBUF"
    "\<forall>b\<in>set q. b_blockno (bufs s ! b) < FSSIZE \<and> (b_dirty (bufs s ! b) \<or> \<not> b_valid (bufs s ! b))"
    "rs = commands (io s) @ map (\<lambda>b. request (bufs s ! b)) (tl q)"
    using assms(1) by (auto simp: ide_inv_def)
  have "card (set q) \<le> card {..<NBUF}" by (rule card_mono) (use inv(3) in auto)
  then have len: "length q < NBUF + 1" using distinct_card [OF inv(2)] by simp
  have c: "qchain (qnext ?l) (idequeue ?l) q"
    using inv(1) assms(4) by (simp add: set_link_def) (subst qchain_cong [of q _ "qnext s"]; auto)
  then have e: "queue_end (NBUF + 1) None ?l = Ok ?pp ?l" 
    by (intro queue_end_run [OF _ len]) (simp add: get_link_def)
  have c2: "qchain (qnext ?q) (idequeue ?q) (q @ [b])"
    using qchain_extended [OF inv(1,2) assms(4)] inv(1) by (cases "q = []") (auto simp: set_link_def)
  have hd: "idequeue ?q = Some b \<longleftrightarrow> q = []" using c2 assms(4) by (cases q) auto
  have q: "bufs ?q = bufs s" "io ?q = io s" by (auto simp: set_link_def split: option.split)
  obtain h where h: "whenM (idequeue ?q = Some b) (idestart dv turns (idequeue ?q)) ?q = Ok () (?q\<lparr>io := h\<rparr>)"
    "commands h = commands (io s) @ (if q = [] then [request ?x] else [])"
  proof (cases "q = []")
    case True
    then show ?thesis using hd idestart_run [OF assms(2), of ?q b] assms(5) q that by (auto simp: whenM_def)
  next
    case False
    then have "whenM (idequeue ?q = Some b) (idestart dv turns (idequeue ?q)) ?q = Ok () (?q\<lparr>io := io s\<rparr>)"
      using hd q(2) by (simp add: whenM_def)
    then show ?thesis using that False by simp
  qed
  define t1 where "t1 = ?q\<lparr>io := h\<rparr>"
  have st: "whenM (idequeue ?q = Some b) (idestart dv turns (idequeue ?q)) ?q = Ok () t1" using h(1) by (simp add: t1_def)
  have t1: "bufs t1 = bufs s" "procs t1 = procs s" "cpuproc t1 = cpuproc s" "k_held t1 = {L_ide}" "qnext t1 = qnext ?q" "idequeue t1 = idequeue ?q"
    "io t1 = h"
    by (auto simp: t1_def set_link_def split: option.split)
  have w: "ide_wait b t1 = Sleeps (Ch_buf b) (t1\<lparr>k_held := {L_ptable},
      procs := (procs s)[i := (procs s ! i)\<lparr>p_chan := Some (Ch_buf b), p_state := SLEEPING\<rparr>]\<rparr>)" (is "_ = Sleeps _ ?t")
    using sleep_run [of t1 i L_ide "Ch_buf b"] assms(6,9,10) t1 by (auto simp: ide_wait_def bindM_run)
  have "ide_rw dv turns b s = Sleeps (Ch_buf b) ?t"
    using holdingsleep_run [OF assms(8,9,11,12)] assms(6,7,8) e st w
    by (auto simp: ide_rw_def bindM_run thenM_def acquire_def)
  moreover have "ide_inv ?t (q @ [b]) (rs @ [request ?x])"
    using c2 inv assms(3-6) h(2) t1 by (cases q) (auto simp: ide_inv_def)
  ultimately show ?thesis using t1 by auto
qed

text \<open>What the interrupt does with the rest of the queue, and with the buffer at its head.\<close>

lemma start_next:
  assumes "ready dv turns" and "qchain nx p q" and "\<forall>c\<in>set q. b_blockno (bufs s ! c) < FSSIZE"
  shows "\<exists>h. whenM (p \<noteq> None) (idestart dv turns p) s = Ok () (s\<lparr>io := h\<rparr>)
    \<and> commands h = commands (io s) @ (if q = [] then [] else [request (bufs s ! hd q)])"
proof (cases q)
  case Nil
  then show ?thesis using assms(2) io_same [of s "io s"] by (intro exI [of _ "io s"]) (simp add: whenM_def)
next
  case (Cons c q')
  then show ?thesis using idestart_run [OF assms(1), of s c] assms(2,3) by (auto simp: whenM_def)
qed

lemma buffer_done:
  assumes "b < length (bufs s)" and "y = (bufs s ! b)\<lparr>b_data := if b_dirty (bufs s ! b) \<or> \<not> ok then b_data (bufs s ! b) else d, b_valid := True, b_dirty := False\<rparr>"
  shows "upd_buf b (\<lambda>x. x\<lparr>b_dirty := False\<rparr>) (upd_buf b (\<lambda>x. x\<lparr>b_valid := True\<rparr>)
    (if b_dirty (bufs s ! b) \<or> \<not> ok then s else upd_buf b (\<lambda>x. x\<lparr>b_data := d\<rparr>) s)) = s\<lparr>bufs := (bufs s)[b := y]\<rparr>"
  using assms by (auto simp: upd_buf_def)

lemma intr_read:
  assumes "ready dv turns"
  shows "\<exists>g h ok. (if \<not> dirty
      then bindM (idewait dv turns True) (\<lambda>r. whenM (\<not> slt r 0)
        (thenM (modM (\<lambda>s. upd_buf b (\<lambda>x. x\<lparr>b_data := insl_data dv (io s)\<rparr>) s)) (out_port Insl))) else retM ()) s
      = Ok () (if dirty \<or> \<not> ok then s\<lparr>io := g\<rparr> else upd_buf b (\<lambda>x. x\<lparr>b_data := insl_data dv h\<rparr>) (s\<lparr>io := g\<rparr>))
    \<and> commands g = commands (io s) \<and> waited dv (io s) h \<and> (errfree dv \<longrightarrow> ok)"
proof (cases dirty)
  case True
  obtain r h where "waited dv (io s) h" using idewait_run [OF assms, of True s] by blast
  then show ?thesis using True by (intro exI [of _ "io s"] exI [of _ h] exI [of _ True]) simp
next
  case False
  have neg: "slt (- 1) 0" "\<not> slt 0 0" by (simp_all add: word_sless_alt)
  obtain r g where r: "idewait dv turns True s = Ok r (s\<lparr>io := g\<rparr>)" "waited dv (io s) g" "errfree dv \<longrightarrow> r = 0" "r = 0 \<or> r = - 1"
    using idewait_run [OF assms, of True s] by auto
  then have cg: "commands g = commands (io s)" "commands (g @ [Insl]) = commands (io s)"
    by (simp_all add: waited_def commands_def decode_step_def)
  let ?m = "bindM (idewait dv turns True) (\<lambda>r. whenM (\<not> slt r 0)
        (thenM (modM (\<lambda>s. upd_buf b (\<lambda>x. x\<lparr>b_data := insl_data dv (io s)\<rparr>) s)) (out_port Insl)))"
  have m: "?m s = Ok () (if r = 0 then upd_buf b (\<lambda>x. x\<lparr>b_data := insl_data dv g\<rparr>) (s\<lparr>io := g @ [Insl]\<rparr>) else s\<lparr>io := g\<rparr>)"
    using r(1,4) neg by (elim disjE) (simp_all add: bindM_run thenM_run out_port_def whenM_def upd_buf_def)
  show ?thesis
  proof (cases "r = 0")
    case True
    then have "?m s = Ok () (upd_buf b (\<lambda>x. x\<lparr>b_data := insl_data dv g\<rparr>) (s\<lparr>io := g @ [Insl]\<rparr>))" using m by (simp only: if_True simp_thms)
    with cg(2) r(2) show ?thesis unfolding if_P [OF False] using False
      by (intro exI [of _ "g @ [Insl]"] exI [of _ g] exI [of _ True]) (simp only: simp_thms if_False)
  next
    case ne: False
    then have "?m s = Ok () (s\<lparr>io := g\<rparr>)" using m by (simp only: if_False)
    with cg(1) r(2,3) ne show ?thesis unfolding if_P [OF False] using False
      by (intro exI [of _ g] exI [of _ g] exI [of _ False]) (simp only: simp_thms if_True)
  qed
qed

text \<open>
  C27: The interrupt ends the first request and gives the drive the command of the next: the buffer becomes valid and clean, with what the drive
  delivers once it has been polled ready when it was to be read and there was no error, and all who sleep for it are woken. An interrupt with nothing in the queue changes nothing.
\<close>
theorem ideintr_completes:
  assumes "ide_inv s q rs" and "ready dv turns" and "k_held s = {}"
  shows "case q of [] \<Rightarrow> ideintr dv turns s = Ok () s
    | b # q' \<Rightarrow> \<exists>t d. ideintr dv turns s = Ok () t \<and> ide_inv t q' rs
        \<and> bufs t = (bufs s)[b := (bufs s ! b)\<lparr>b_data := d, b_valid := True, b_dirty := False\<rparr>]
        \<and> procs t = map (wakeup1_proc (Some (Ch_buf b))) (procs s)
        \<and> (if b_dirty (bufs s ! b) then d = b_data (bufs s ! b)
           else (\<exists>h. waited dv (io s) h \<and> d = insl_data dv h) \<or> \<not> errfree dv \<and> d = b_data (bufs s ! b))"
proof (cases q)
  case Nil
  then have "idequeue s = None" using assms(1) by (simp add: ide_inv_def)
  then show ?thesis using Nil assms(3) by (simp add: ideintr_def bindM_run thenM_def acquire_def release_def)
next
  case (Cons b q')
  let ?x = "bufs s ! b"
  have inv: "idequeue s = Some b" "qchain (qnext s) (qnext s b) q'" "b \<notin> set q'" "distinct q'" "b < NBUF" "set q' \<subseteq> {..<NBUF}"
    "length (bufs s) = NBUF" "rs = commands (io s) @ map (\<lambda>b. request (bufs s ! b)) q'"
    "\<forall>b\<in>set q'. b_blockno (bufs s ! b) < FSSIZE \<and> (b_dirty (bufs s ! b) \<or> \<not> b_valid (bufs s ! b))"
    using assms(1) Cons by (auto simp: ide_inv_def)
  let ?s1 = "s\<lparr>k_held := {L_ide}, idequeue := qnext s b\<rparr>"
  obtain g' h0 ok where rd: "(if \<not> b_dirty ?x
      then bindM (idewait dv turns True) (\<lambda>r. whenM (\<not> slt r 0)
        (thenM (modM (\<lambda>s. upd_buf b (\<lambda>x. x\<lparr>b_data := insl_data dv (io s)\<rparr>) s)) (out_port Insl))) else retM ()) ?s1
      = Ok () (if b_dirty ?x \<or> \<not> ok then ?s1\<lparr>io := g'\<rparr> else upd_buf b (\<lambda>x. x\<lparr>b_data := insl_data dv h0\<rparr>) (?s1\<lparr>io := g'\<rparr>))"
    and cg: "commands g' = commands (io s)" and r: "waited dv (io s) h0" "errfree dv \<longrightarrow> ok"
    using intr_read [OF assms(2), of "b_dirty ?x" b ?s1] by (elim exE conjE) simp
  define d where "d = (if b_dirty ?x \<or> \<not> ok then b_data ?x else insl_data dv h0)"
  let ?y = "?x\<lparr>b_data := d, b_valid := True, b_dirty := False\<rparr>"
  let ?s2 = "?s1\<lparr>io := g', bufs := (bufs s)[b := ?y], procs := map (wakeup1_proc (Some (Ch_buf b))) (procs s)\<rparr>"
  have same: "\<forall>c\<in>set q'. bufs ?s2 ! c = bufs s ! c"
  proof
    fix c assume "c \<in> set q'"
    then have "c \<noteq> b" using inv(3) by auto
    then show "bufs ?s2 ! c = bufs s ! c" by simp
  qed
  then have "\<forall>c\<in>set q'. b_blockno (bufs ?s2 ! c) < FSSIZE" using inv(9) by auto
  from start_next [OF assms(2) inv(2) this] obtain h where nxt: "whenM (qnext s b \<noteq> None) (idestart dv turns (qnext s b)) ?s2 = Ok () (?s2\<lparr>io := h\<rparr>)"
    and ch: "commands h = commands (io s) @ (if q' = [] then [] else [request (bufs s ! hd q')])"
    using cg same by (cases q') auto
  have upd: "upd_buf b (\<lambda>x. x\<lparr>b_dirty := False\<rparr>) (upd_buf b (\<lambda>x. x\<lparr>b_valid := True\<rparr>)
      (if b_dirty ?x \<or> \<not> ok then ?s1\<lparr>io := g'\<rparr> else upd_buf b (\<lambda>x. x\<lparr>b_data := insl_data dv h0\<rparr>) (?s1\<lparr>io := g'\<rparr>))) = ?s1\<lparr>io := g', bufs := (bufs s)[b := ?y]\<rparr>"
    using buffer_done [of b "?s1\<lparr>io := g'\<rparr>" ?y ok "insl_data dv h0"] inv(5,7) by (simp add: d_def)
  let ?t = "?s2\<lparr>io := h, k_held := {}\<rparr>"
  have wk: "wakeup (Ch_buf b) (?s1\<lparr>io := g', bufs := (bufs s)[b := ?y]\<rparr>) = Ok () ?s2" by (simp add: wakeup_run)
  have "ideintr dv turns s = Ok () ?t"
    using inv(1) assms(3) upd wk nxt rd by (simp add: ideintr_def bindM_run thenM_run acquire_def release_def)
  moreover have "ide_inv ?t q' rs"
    using inv ch by (cases q') (auto simp: ide_inv_def nth_list_update)
  moreover have "if b_dirty ?x then d = b_data ?x
      else (\<exists>h. waited dv (io s) h \<and> d = insl_data dv h) \<or> \<not> errfree dv \<and> d = b_data ?x"
    using r by (auto simp: d_def)
  ultimately show ?thesis unfolding Cons list.case by - (rule exI [of _ ?t], rule exI [of _ d], simp)
qed

section \<open>Witnesses\<close>

definition demo_drive :: drive where
  "demo_drive = \<lparr>inb_status = (\<lambda>h. IDE_DRDY), insl_data = (\<lambda>h. replicate BSIZE 7)\<rparr>"

definition wanted :: buf where
  "wanted = \<lparr>b_valid = False, b_dirty = False, b_dev = 0, b_blockno = 5, b_lock = \<lparr>sl_locked = True, sl_pid = 0\<rparr>, b_refcnt = 1,
     b_data = replicate BSIZE 0\<rparr>"

definition demo_ide :: "nat option \<Rightarrow> ideio list \<Rightarrow> kide" where
  "demo_ide q h = \<lparr>k_held = {}, k_mem = \<lambda>_. 0, k_freelist = 0, k_use_lock = True, k_end = 0, k_data = 0,
      k_out = [], k_locking = False, k_kpgdir = 0, k_cr3 = 0,
      procs = [proc0], initproc = None, nextpid = 1, ticks = 0, cpuproc = Some 0,
      k_trapret = 0, k_forkret = 0, ts_ss0 = 0, ts_esp0 = 0, ts_iomb = 0,
      bufs = replicate NBUF wanted, lru = [], disk0 = (\<lambda>m. []), writes = [], disksize = 0,
      idequeue = q, qnext = (\<lambda>b. None), havedisk1 = False, io = h\<rparr>"

lemma demo_ready: "ready demo_drive 1" "errfree demo_drive"
  by (simp_all add: ready_def errfree_def is_ready_def demo_drive_def IDE_DRDY_def IDE_BSY_def IDE_DF_def IDE_ERR_def)

lemma demo_ide_simps [simp]:
  "bufs (demo_ide q h) = replicate NBUF wanted" "idequeue (demo_ide q h) = q" "qnext (demo_ide q h) = (\<lambda>b. None)" "io (demo_ide q h) = h"
  "k_held (demo_ide q h) = {}" "cpuproc (demo_ide q h) = Some 0" "procs (demo_ide q h) = [proc0]"
  by (simp_all add: demo_ide_def)

lemma demo_NBUF: "NBUF = 30" "b_blockno wanted < FSSIZE"
  by (simp_all add: NBUF_def wanted_def FSSIZE_def)

lemma iderw_enqueues_witness:
  "\<exists>t. ide_rw demo_drive 1 3 (demo_ide None []) = Sleeps (Ch_buf 3) t \<and> commands (io t) = [(False, 5, None)]"
proof -
  have "ide_inv (demo_ide None []) [] []" by (simp add: ide_inv_def commands_def decode_def)
  from iderw_enqueues [OF this demo_ready(1), of 3 0] demo_NBUF obtain t
    where "ide_rw demo_drive 1 3 (demo_ide None []) = Sleeps (Ch_buf 3) t" "ide_inv t [3] [request wanted]"
    by (auto simp: wanted_def proc0_def)
  then show ?thesis by (auto simp: ide_inv_def request_def wanted_def)
qed

lemma ideintr_completes_witness:
  "\<exists>t. ideintr demo_drive 1 (demo_ide (Some 3) (Inb IDE_DRDY # start_outs wanted)) = Ok () t \<and> b_data (bufs t ! 3) = replicate BSIZE 7 \<and> b_valid (bufs t ! 3)"
proof -
  let ?h = "Inb IDE_DRDY # start_outs wanted"
  have "d_rdy (decode [Inb IDE_DRDY])" "commands [Inb IDE_DRDY] = []"
    by (simp_all add: decode_def commands_def decode_step_def is_ready_def IDE_DRDY_def IDE_BSY_def)
  then have "commands ?h = [request wanted]" using commands_start [OF demo_NBUF(2), of "[Inb IDE_DRDY]"] by simp
  then have "ide_inv (demo_ide (Some 3) ?h) [3] [request wanted]"
    using demo_NBUF by (simp add: ide_inv_def wanted_def)
  from ideintr_completes [OF this demo_ready(1)] demo_ready(2) demo_NBUF obtain t
    where "ideintr demo_drive 1 (demo_ide (Some 3) ?h) = Ok () t"
      "bufs t = (replicate NBUF wanted)[3 := wanted\<lparr>b_data := replicate BSIZE 7, b_valid := True, b_dirty := False\<rparr>]"
    by (auto simp: wanted_def demo_drive_def)
  then show ?thesis using demo_NBUF(1) by auto
qed

end
