(* ===== verification/Spec2Isabelle.thy ===== *)
theory Spec2Isabelle
  imports Trap Dir_Spec Pipe_Spec Console_Spec Lifecycle Syscall_Spec Space_Copy User_Tools Umalloc Mp Devices Ide
begin

text \<open>
  A verification development for the two teaching kernels of the repository, \<open>src/fcfs\<close> and
  \<open>src/priority\<close>: xv6 for x86 with the process scheduler replaced, in one by first come, first
  served, in the other by priorities. The directories agree in every source file but \<open>proc.c\<close>,
  \<open>proc.h\<close>, \<open>pstat.h\<close>, \<open>sysproc.c\<close>, the numbers and tables of system calls and some test programs.
  What they share is modelled once, from \<open>src/fcfs\<close>; the scheduler with priorities, \<open>custmpro\<close> and
  the second table of system calls are modelled from \<open>src/priority\<close>.
\<close>

section \<open>How code becomes definitions\<close>

text \<open>
  A C \<open>int\<close> or pointer is a 32-bit word (\<open>u32\<close>), a byte an 8-bit word; where C compares or divides signed numbers
  the model says so (\<open>slt\<close>, \<open>sint\<close>). Memory is a map from addresses to bytes. What the code keeps in pages of memory,
  page tables, pipes, the free list and user data, lies there at the offsets that the code uses. The tables with fixed
  places (processes, buffers, inodes, open files) are lists of records, and a pointer to an entry is its index.

  A function of the kernel takes the state and returns \<open>Ok\<close> with a value and a new state, \<open>Panic\<close> with the message of \<open>panic\<close>,
  \<open>Sleeps\<close> with the channel on which the process has gone to sleep, or \<open>Spins\<close> when it waits for something that nobody does.
  \<open>retM\<close>, \<open>bindM\<close>, \<open>thenM\<close>, \<open>whenM\<close>, \<open>getM\<close> and \<open>modM\<close> compose such functions in the order of the code.

  The state grows with the layers, every record extending the one before it: \<open>kstate\<close> (spin locks held, memory, free list,
  console), \<open>kproc\<close> (process table and clock), \<open>kbio\<close> (buffers and disk), \<open>klog\<close> (the log's header), \<open>kfs\<close> (super block and inode
  cache), \<open>kfile\<close> (open files), \<open>kernel\<close>. A function is defined on the first record that has what it uses, with the rest as a
  scheme variable, so that it runs unchanged in the layers above.

  The handlers are seen from one processor at a time: locks are the set of those held, acquiring a held one panics. That
  the spin lock does give a processor this view is proved on its own, on a step relation for any number of processors. Where it matters that there are several,
  the state has a set of locks and a current process for each of them, and \<open>view c\<close> is what processor \<open>c\<close> sees (\<open>Processors\<close>): the statements of \<open>sleep\<close> and \<open>wakeup\<close> interleave
  one by one, the operations on the process table one critical section at a time. A function
  that calls \<open>swtch\<close> is cut there: what it does when it gets the processor back is a definition of its own, as
  \<open>sleep_resume\<close>, \<open>yield_resume\<close> and \<open>scheduler_resume\<close>.
\<close>

section \<open>The parts\<close>

text \<open>
  The kernel, from the bottom up:

  \<^item> \<open>Xv6_Prelude\<close>: words, results, combinators and the rules for them; \<open>Bytes\<close>: numbers inside blocks of bytes;
    \<open>Xv6_Memory\<close>: memory and the routines of \<open>string.c\<close> and \<open>x86.h\<close>; the library's word-wise fast path agrees with the byte-wise one.
  \<^item> \<open>Spinlock\<close>: \<open>spinlock.c\<close> with \<open>pushcli\<close> and \<open>popcli\<close>. A lock is a step relation in which each processor moves by one access to memory
    at a time; mutual exclusion is an invariant. The locale \<open>lock_discipline\<close> is what handlers rely on.
  \<^item> \<open>Kalloc\<close>: \<open>kalloc.c\<close>. The free list, a chain through the pages, is abstracted to a list by \<open>flist\<close>; the locale \<open>page_allocator\<close> is
    the contract, used by page tables and by the memory of processes.
  \<^item> \<open>Cprintf\<close>, \<open>Console\<close>, \<open>Console_Spec\<close>: \<open>console.c\<close>: formatted output, line editing, the screen. \<open>Kbd\<close>: the keyboard, \<open>kbd.c\<close> and \<open>kbd.h\<close>, and the transfer of
    characters by \<open>uart.c\<close>. \<open>Ring\<close>: the two ring buffers, of the console and of pipes, as interpretations of the locale \<open>bounded_fifo\<close>.
  \<^item> \<open>Proc\<close>, \<open>Process\<close>: \<open>proc.c\<close>, both versions. \<open>Scheduling\<close>: what the schedulers choose, as the locales \<open>min_policy\<close> and \<open>first_min_policy\<close>, which
    the loops of the code interpret. \<open>Proc_Ops\<close>: every branch of sleeping, waking, killing and waiting. \<open>Processors\<close>: \<open>sleep\<close> on one processor against \<open>wakeup\<close> on others. \<open>Lifecycle\<close>: the table as a state
    machine whose transitions are those of one process; every operation, \<open>userinit\<close> too, is a sequence of them, and its invariants hold for all processors together
    in every state reached from the one at boot.
  \<^item> \<open>Vm\<close>, \<open>Vm_Spec\<close>, \<open>Space_Copy\<close>, \<open>Reclaim\<close>: \<open>vm.c\<close>. A directory in memory is abstracted to a map from page numbers to entries; an address space can be
    made, copied and given back, and each page is used once. \<open>Umem\<close>: user memory through the page table, \<open>procstat\<close> and \<open>ps\<close>.
  \<^item> \<open>Bio\<close>, \<open>Buffer_Spec\<close>: \<open>sleeplock.c\<close>, \<open>bio.c\<close> and \<open>memide.c\<close>. \<open>content\<close> is what a block holds for those who read it through the cache; the
    locale \<open>block_io\<close> is the contract. The doubly linked list of the code refines the list of the model.
  \<^item> \<open>Log\<close>, \<open>Log_Spec\<close>, \<open>Transaction\<close>: \<open>log.c\<close>. The disk is its first image and the sequence of writes it has received, so a crash is a prefix of
    that sequence; commits are atomic, recovery can be repeated, and operations in a transaction change \<open>content\<close> and not the disk.
  \<^item> \<open>Inode\<close>, \<open>Fs\<close>: \<open>fs.c\<close>. \<open>Inode_Spec\<close>: inodes on disk and in the cache. \<open>File_Spec\<close>: an inode with its blocks as a list of bytes, which \<open>readi\<close> reads and
    \<open>writei\<close> overwrites or extends. \<open>Dir_Spec\<close>: directories as lists of entries, searched by \<open>dirlookup\<close> and extended by \<open>dirlink\<close>.
  \<^item> \<open>File\<close>, \<open>Pipe_Spec\<close>: \<open>file.c\<close> and \<open>pipe.c\<close>; a pipe is a bounded queue of bytes. \<open>Sysfile\<close>, \<open>Trap\<close>: the arguments of system calls, \<open>sysfile.c\<close>, \<open>exec.c\<close>, \<open>sysproc.c\<close>,
    the dispatcher of \<open>syscall.c\<close> and the trap handler. \<open>Syscall_Spec\<close>: what comes from a user program is checked. \<open>Text_Calls\<close>: \<open>sys_uniq1\<close> and \<open>sys_head1\<close>.
  \<^item> \<open>Ide\<close>: \<open>ide.c\<close>, which \<open>memide.c\<close> replaces in the kernel modelled elsewhere. What the drive is told is decoded from the accesses to its ports: a command is one only with a ready
    status before it, and data are written only after the write command. \<open>Mp\<close>: \<open>mp.c\<close>.
  \<^item> \<open>Boot\<close>: \<open>bootmain.c\<close>, over a history of what was done to devices that determines what they answer; the drive it is proved for delivers a sector only
    after the read command for it, as the standard for such drives says. \<open>Devices\<close>: the descriptors of \<open>mmu.h\<close> that
    \<open>seginit\<close> and \<open>tvinit\<close> set up, the interrupt controllers and the clock of \<open>lapic.c\<close>, \<open>ioapic.c\<close> and \<open>picirq.c\<close>, and \<open>uartinit\<close>; its lemmas read
    descriptors and registers back.

  User programs: \<open>Shell\<close>, the parser of \<open>sh.c\<close>, against a description of commands and their spellings; \<open>Shell_Run\<close>, the rest of \<open>sh.c\<close>, as a program
  over system calls, run by an interpreter and compared with what commands mean; \<open>Umalloc\<close>, \<open>umalloc.c\<close>, with the ring of free blocks abstracted to
  a list; \<open>Grep\<close>, \<open>grep.c\<close>, against the language of a pattern. \<open>User_Programs\<close> has the library, \<open>printf.c\<close>, \<open>head.c\<close> and
  \<open>writefile.c\<close>, \<open>User_Tools\<close> the small utilities and the authors' measuring programs; there the kernel is a function that answers each call
  from the calls made before.

  How they meet: \<open>fork\<close> calls the allocator, \<open>copyuvm\<close> and the file layer; \<open>exit\<close> closes files in a transaction; \<open>sleep\<close> and \<open>wakeup\<close>
  serve pipes, console, buffers, inodes and the log, each with a channel of the type \<open>chan\<close>; \<open>readi\<close> and \<open>writei\<close> reach the disk through \<open>bmap\<close>,
  the buffer cache and \<open>log_write\<close>; the dispatcher calls the functions in its table on the state of all of them.
\<close>

section \<open>What is proved\<close>

text \<open>
  The claims, each stated before its theorem: which process each scheduler starts, and that it starts none wrongly; mutual exclusion; atomic commits and
  restartable recovery; what the block allocator, the log, inodes and files do; the invariant of the process table and the effect of its
  operations; that memory is neither lost nor given twice by \<open>freevm\<close>, \<open>wait\<close>, \<open>copyuvm\<close>, \<open>malloc\<close> and \<open>free\<close>; pipes and console input as queues; that no wakeup is lost;
  the parser, its inverse and its bounds; the regular expressions of \<open>grep\<close>; the boot loader; what the authors' \<open>head\<close> and \<open>uniq\<close> print; the checks on user pointers; and the errors of the
  disk driver, the processor search and the text utilities where they differ from what the code means to do. A claim with
  hypotheses has a theorem beside it that applies it to a concrete state.
\<close>

section \<open>Bounds on loops\<close>

text \<open>
  Loops over a C string or an array recurse over the bytes or over a counter. The others take a number of turns, chosen so
  that it cannot be used up, and the theorems conclude that the code returns:

  \<^item> loops over the addresses of pages (\<open>mappages\<close>, \<open>allocuvm\<close>, \<open>deallocuvm\<close>, \<open>copyuvm\<close>): the pages between the two ends;
  \<^item> \<open>readi\<close>, \<open>writei\<close>, \<open>printint\<close>: the bytes left, or the digits of a 32-bit number, since each turn handles one at least;
  \<^item> the parser: six times the length of the line and six, each call of it being followed by a shorter rest or an earlier function;
  \<^item> \<open>malloc\<close> and \<open>free\<close>: the length of the ring of free blocks; \<open>uniq1\<close>: the length of the text; the entries of the processors' table: its length;
  \<^item> \<open>readseg\<close> of the boot loader: two sectors more than the whole ones in the bytes wanted, \<open>load_headers\<close>: \<open>phnum\<close>;
  \<^item> \<open>open_console\<close> of the shell: four turns, as three descriptors are opened at most before the loop ends.

  Some loops may really not end: a wait for a device, \<open>while(1)\<close>, the search of \<open>mpinit\<close> at an unknown entry. They take a number of
  turns as an argument, and the result \<open>Spins\<close> says that it was used up; claims about them say how many turns are enough.
\<close>

section \<open>What is not modelled\<close>

text \<open>
  \<open>main.c\<close>: a sequence of the initialisations that are modelled with their components, and the start of the other processors through assembly. The assembly
  (\<open>swtch\<close>, \<open>trapret\<close>, \<open>initcode\<close>) appears through what its callers rely on. \<open>mkfs.c\<close> runs on the machine that builds the system. The test
  drivers (\<open>usertests.c\<close>, \<open>stressfs.c\<close>, \<open>forktest.c\<close>) are clients of the system calls and have no contract of their own, and several drafts of
  \<open>head\<close> and \<open>uniq\<close> are left out of the build. In the
  shell the memory for a command is taken to be there, as the code takes it, and the message \<open>leftovers\<close>, printed before a syntax error, is left out. \<open>consputc\<close> does not
  test \<open>panicked\<close>, since a panic ends the run of the model, and keeps what goes to the serial port; the screen is \<open>cgaputc\<close>, on its own. Interrupts arrive between the handlers, not inside them: the spin lock switches them off,
  and the places where a handler lets go of the processor are those at which it is cut. Time is the count \<open>ticks\<close>.
\<close>

end
